(* ===== verification/Xinu_Prelude.thy ===== *)
theory Xinu_Prelude
  imports Main "HOL-Library.Word" "HOL-Library.Signed_Division" "HOL-Library.Monad_Syntax"
begin

text \<open>
  The prelude: the integer types and return codes of \<^verbatim>\<open>include/kernel.h\<close>, the table sizes of
  \<^verbatim>\<open>include/conf.h\<close>, and the generic lemmas on lists, sums and the option monad that
  every component uses.

  C's signed integers (\<^verbatim>\<open>int32\<close>, \<^verbatim>\<open>int16\<close>) are \<^typ>\<open>int\<close>; unsigned quantities whose
  wrap-around the code relies on or is exposed to (addresses, block sizes, messages) are
  \<open>32 word\<close>. A computation of type \<open>'a option\<close> that yields \<^term>\<open>None\<close> is one whose
  control never comes back to the caller: an endless loop, \<^verbatim>\<open>halt()\<close> or \<^verbatim>\<open>panic()\<close>.
\<close>

section \<open>Types and constants of the kernel\<close>

type_synonym pid32 = int
type_synonym qid16 = int
type_synonym sid32 = int
type_synonym did32 = int
type_synonym pri16 = int
type_synonym uint32 = "32 word"
type_synonym umsg32 = "32 word"

definition OK :: int where "OK = 1"
definition SYSERR :: int where "SYSERR = - 1"
definition EOF :: int where "EOF = - 2"
definition TIMEOUT :: int where "TIMEOUT = - 3"
definition EMPTY :: int where "EMPTY = - 1"
definition NPROC :: int where "NPROC = 100"
definition NSEM :: int where "NSEM = 100"
definition NQENT :: int where "NQENT = NPROC + 4 + NSEM + NSEM"
definition NULLPROC :: pid32 where "NULLPROC = 0"
definition MAXKEY :: int where "MAXKEY = 0x7FFFFFFF"
definition MINKEY :: int where "MINKEY = - 0x80000000"

lemmas code_defs = OK_def SYSERR_def EOF_def TIMEOUT_def EMPTY_def

lemmas size_defs = NPROC_def NSEM_def NQENT_def NULLPROC_def

lemma return_codes_distinct [simp]:
  "OK \<noteq> SYSERR" "SYSERR \<noteq> OK" "TIMEOUT \<noteq> SYSERR" "SYSERR \<noteq> TIMEOUT" "OK \<noteq> EMPTY" "EMPTY \<noteq> OK"
  by (simp_all add: code_defs)

lemma SYSERR_neg [simp]: "SYSERR < 0" "EMPTY < 0"
  by (simp_all add: code_defs)

lemma NPROC_pos [simp]: "0 < NPROC" "0 \<le> NPROC" "0 < NSEM"
  by (simp_all add: size_defs)

lemma NULLPROC_range [simp]: "0 \<le> NULLPROC" "NULLPROC < NPROC"
  by (simp_all add: size_defs)

section \<open>Named collections\<close>

named_theorems kernel_defs \<open>definitions of the kernel's table accessors\<close>
named_theorems frame \<open>fields an operation leaves alone\<close>

section \<open>Lists\<close>

lemma distinct_mid:
  "distinct (xs @ x # ys) \<longleftrightarrow> distinct (xs @ ys) \<and> x \<notin> set xs \<and> x \<notin> set ys"
  by auto

lemma sorted_wrt_mid:
  "sorted_wrt P (xs @ x # ys) \<longleftrightarrow>
   sorted_wrt P (xs @ ys) \<and> (\<forall>u\<in>set xs. P u x) \<and> (\<forall>v\<in>set ys. P x v)"
  by (auto simp: sorted_wrt_append)

lemma dropWhile_hdD: "dropWhile P xs = y # ys \<Longrightarrow> \<not> P y"
  by (metis hd_dropWhile list.distinct(1) list.sel(1))

lemma split_at_scan:
  "xs = takeWhile P xs @ dropWhile P xs"
  by simp

lemma remove1_append_notin: "x \<notin> set xs \<Longrightarrow> remove1 x (xs @ x # ys) = xs @ ys"
  by (simp add: remove1_append)

section \<open>Division and words\<close>

text \<open>C's division rounds towards zero; it is that of HOL on numbers that are not negative.\<close>

lemma sdiv_nonneg: "0 \<le> a \<Longrightarrow> 0 \<le> b \<Longrightarrow> a sdiv b = a div (b :: int)"
  by (cases "a = 0"; cases "b = 0") (simp_all add: signed_divide_int_def sgn_if)

lemma smod_nonneg: "0 \<le> a \<Longrightarrow> 0 \<le> b \<Longrightarrow> a smod b = a mod (b :: int)"
  by (cases "a = 0") (simp_all add: signed_modulo_int_def sgn_if)

lemma sint_below: "uint (w :: uint32) < 2 ^ 31 \<Longrightarrow> sint w = uint w"
  by (simp add: sint_uint signed_take_bit_eq_if_positive bit_iff_odd take_bit_int_eq_self div_pos_pos_trivial)

lemma unat_add_noovf: "unat a + unat b < 2 ^ 32 \<Longrightarrow> unat (a + b) = unat a + unat (b :: uint32)"
  by (simp add: unat_word_ariths)

lemma unat_sub_le: "b \<le> a \<Longrightarrow> unat (a - b) = unat a - unat (b :: uint32)"
  by (rule unat_sub)

lemma wless: "a < b \<longleftrightarrow> unat a < unat (b :: uint32)" and wle: "a \<le> b \<longleftrightarrow> unat a \<le> unat (b :: uint32)"
  by (simp_all add: word_less_nat_alt word_le_nat_alt)

lemma weq: "a = b \<longleftrightarrow> unat a = unat (b :: uint32)"
  using unsigned_word_eqI by auto

lemma unat_bound: "unat (a :: uint32) < 2 ^ 32"
  using unsigned_less [of a] by simp

section \<open>The option monad\<close>

lemma bind_SomeE:
  assumes "Option.bind m f = Some r"
  obtains x where "m = Some x" and "f x = Some r"
  using assms by (cases m) auto

lemma bind_neq_None_iff: "Option.bind m f \<noteq> None \<longleftrightarrow> (\<exists>x. m = Some x \<and> f x \<noteq> None)"
  by (cases m) auto

end
