(* ===== verification/Memory.thy ===== *)
theory Memory
  imports Xinu_Prelude
begin

text \<open>
  The heap of \<^verbatim>\<open>system/getmem.c\<close>, \<^verbatim>\<open>freemem.c\<close>, \<^verbatim>\<open>getstk.c\<close> and
  \<^verbatim>\<open>meminit.c\<close>: a singly linked list of free blocks, sorted by address, whose nodes live in
  the free blocks themselves. \<open>mheap m a\<close> is the \<^verbatim>\<open>struct memblk\<close> stored at address
  \<open>a\<close>; addresses and sizes are \<open>32 word\<close>s and wrap around as \<^verbatim>\<open>uint32\<close> does. The null
  pointer is address 0 and \<^verbatim>\<open>(char *)SYSERR\<close> the address \<open>-1\<close>.

  The abstract heap is the list of \<open>(address, length)\<close> pairs of the free blocks in
  \<^typ>\<open>nat\<close>; allocation and release are first specified there and the code is then shown to
  implement them.
\<close>

unbundle bit_operations_syntax

section \<open>The free list in memory\<close>

record memblk =
  mnext :: uint32
  mlength :: uint32

record memstate =
  mheap :: "uint32 \<Rightarrow> memblk"
  memlist :: memblk
  memlist_addr :: uint32
  minheap :: uint32
  maxheap :: uint32

text \<open>A \<^verbatim>\<open>struct memblk *\<close> that may also point at the list head \<^verbatim>\<open>memlist\<close>.\<close>

datatype mref = MemList | Blk uint32

definition SYSERR_PTR :: uint32 where "SYSERR_PTR = - 1"

definition roundmb :: "uint32 \<Rightarrow> uint32" where
  "roundmb x = (7 + x) AND (NOT 7)"

definition truncmb :: "uint32 \<Rightarrow> uint32" where
  "truncmb x = x AND (NOT 7)"

fun set_mnext :: "mref \<Rightarrow> uint32 \<Rightarrow> memstate \<Rightarrow> memstate" where
  "set_mnext MemList v m = m\<lparr>memlist := (memlist m)\<lparr>mnext := v\<rparr>\<rparr>"
| "set_mnext (Blk a) v m = m\<lparr>mheap := (mheap m)(a := (mheap m a)\<lparr>mnext := v\<rparr>)\<rparr>"

fun set_mlength :: "mref \<Rightarrow> uint32 \<Rightarrow> memstate \<Rightarrow> memstate" where
  "set_mlength MemList v m = m\<lparr>memlist := (memlist m)\<lparr>mlength := v\<rparr>\<rparr>"
| "set_mlength (Blk a) v m = m\<lparr>mheap := (mheap m)(a := (mheap m a)\<lparr>mlength := v\<rparr>)\<rparr>"

fun blk_at :: "memstate \<Rightarrow> mref \<Rightarrow> memblk" where
  "blk_at m MemList = memlist m"
| "blk_at m (Blk a) = mheap m a"

definition sub_free :: "uint32 \<Rightarrow> memstate \<Rightarrow> memstate" where
  "sub_free n m = set_mlength MemList (mlength (memlist m) - n) m"

definition add_free :: "uint32 \<Rightarrow> memstate \<Rightarrow> memstate" where
  "add_free n m = set_mlength MemList (mlength (memlist m) + n) m"

section \<open>The operations\<close>

definition meminit :: "uint32 \<Rightarrow> uint32 \<Rightarrow> memstate \<Rightarrow> memstate" where
  "meminit end_addr maxaddr m =
    (let m1 = m\<lparr>minheap := end_addr\<rparr>;
         m2 = m1\<lparr>maxheap := maxaddr\<rparr>;
         m3 = set_mnext MemList (minheap m2) m2;
         memptr = mnext (memlist m3);
         m4 = set_mnext (Blk memptr) 0 m3
     in set_mlength (Blk memptr) (maxheap m4 - minheap m4) m4)"

partial_function (option) getmem_loop ::
  "uint32 \<Rightarrow> mref \<Rightarrow> uint32 \<Rightarrow> memstate \<Rightarrow> (uint32 \<times> memstate) option" where
  "getmem_loop nbytes prev cur m =
    (if cur = 0 then Some (SYSERR_PTR, m)
     else if mlength (mheap m cur) = nbytes then
       Some (cur, sub_free nbytes (set_mnext prev (mnext (mheap m cur)) m))
     else if mlength (mheap m cur) > nbytes then
       (let leftover = cur + nbytes;
            m1 = set_mnext prev leftover m;
            m2 = set_mnext (Blk leftover) (mnext (mheap m1 cur)) m1;
            m3 = set_mlength (Blk leftover) (mlength (mheap m2 cur) - nbytes) m2
        in Some (cur, sub_free nbytes m3))
     else getmem_loop nbytes (Blk cur) (mnext (mheap m cur)) m)"

definition getmem :: "uint32 \<Rightarrow> memstate \<Rightarrow> (uint32 \<times> memstate) option" where
  "getmem nbytes m =
    (if nbytes = 0 then Some (SYSERR_PTR, m)
     else getmem_loop (roundmb nbytes) MemList (mnext (memlist m)) m)"

partial_function (option) freemem_scan ::
  "uint32 \<Rightarrow> mref \<Rightarrow> uint32 \<Rightarrow> memstate \<Rightarrow> (mref \<times> uint32) option" where
  "freemem_scan block prev next m =
    (if next \<noteq> 0 \<and> next < block then freemem_scan block (Blk next) (mnext (mheap m next)) m
     else Some (prev, next))"

definition freemem :: "uint32 \<Rightarrow> uint32 \<Rightarrow> memstate \<Rightarrow> (int \<times> memstate) option" where
  "freemem blkaddr nbytes0 m =
    (if nbytes0 = 0 \<or> blkaddr < minheap m \<or> blkaddr > maxheap m then Some (SYSERR, m)
     else do {
       let nbytes = roundmb nbytes0;
       let block = blkaddr;
       (prev, next) \<leftarrow> freemem_scan block MemList (mnext (memlist m)) m;
       let top = (case prev of MemList \<Rightarrow> 0 | Blk p \<Rightarrow> p + mlength (mheap m p));
       if (prev \<noteq> MemList \<and> block < top) \<or> (next \<noteq> 0 \<and> block + nbytes > next) then Some (SYSERR, m)
       else
         let m1 = add_free nbytes m;
             (blk, m2) =
               (if top = block then (prev, set_mlength prev (mlength (blk_at m1 prev) + nbytes) m1)
                else (Blk block,
                      set_mnext prev block
                        (set_mlength (Blk block) nbytes (set_mnext (Blk block) next m1))));
             blkaddr' = (case blk of MemList \<Rightarrow> memlist_addr m | Blk b \<Rightarrow> b);
             m3 =
               (if blkaddr' + mlength (blk_at m2 blk) = next then
                  let m2' = set_mlength blk (mlength (blk_at m2 blk) + mlength (mheap m2 next)) m2
                  in set_mnext blk (mnext (mheap m2' next)) m2'
                else m2)
         in Some (OK, m3)
     })"

partial_function (option) getstk_scan ::
  "uint32 \<Rightarrow> mref \<Rightarrow> uint32 \<Rightarrow> uint32 \<Rightarrow> mref \<Rightarrow> memstate \<Rightarrow> (uint32 \<times> mref) option" where
  "getstk_scan nbytes prev cur fits fitsprev m =
    (if cur \<noteq> 0 then
       (if mlength (mheap m cur) \<ge> nbytes
        then getstk_scan nbytes (Blk cur) (mnext (mheap m cur)) cur prev m
        else getstk_scan nbytes (Blk cur) (mnext (mheap m cur)) fits fitsprev m)
     else Some (fits, fitsprev))"

definition getstk :: "uint32 \<Rightarrow> memstate \<Rightarrow> (uint32 \<times> memstate) option" where
  "getstk nbytes0 m =
    (if nbytes0 = 0 then Some (SYSERR_PTR, m)
     else do {
       let nbytes = roundmb nbytes0;
       (fits, fitsprev) \<leftarrow> getstk_scan nbytes MemList (mnext (memlist m)) 0 MemList m;
       if fits = 0 then Some (SYSERR_PTR, m)
       else
         let (fits', m1) =
           (if nbytes = mlength (mheap m fits) then (fits, set_mnext fitsprev (mnext (mheap m fits)) m)
            else let m' = set_mlength (Blk fits) (mlength (mheap m fits) - nbytes) m
                 in (fits + mlength (mheap m' fits), m'))
         in Some (fits' + nbytes - 4, sub_free nbytes m1)
     })"

definition freestk :: "uint32 \<Rightarrow> uint32 \<Rightarrow> memstate \<Rightarrow> (int \<times> memstate) option" where
  "freestk p len m = freemem (p - roundmb len + 4) (roundmb len) m"


section \<open>Free blocks as a list\<close>

type_synonym blocks = "(uint32 \<times> uint32) list"

fun mpath :: "(uint32 \<Rightarrow> memblk) \<Rightarrow> uint32 \<Rightarrow> blocks \<Rightarrow> uint32 \<Rightarrow> bool" where
  "mpath h p [] q \<longleftrightarrow> p = q"
| "mpath h p ((a, l) # bs) q \<longleftrightarrow> p = a \<and> a \<noteq> 0 \<and> mlength (h a) = l \<and> mpath h (mnext (h a)) bs q"

definition mabs :: "memstate \<Rightarrow> blocks \<Rightarrow> bool" where
  "mabs m bs \<longleftrightarrow> mpath (mheap m) (mnext (memlist m)) bs 0"

text \<open>
  A well formed list: inside \<open>[lo, hi)\<close>, sorted, with a gap between neighbours (adjacent
  free blocks are always merged), and every block a positive multiple of 8 bytes, so that
  it can hold a \<^verbatim>\<open>struct memblk\<close>.
\<close>

fun wf_blocks :: "nat \<Rightarrow> nat \<Rightarrow> blocks \<Rightarrow> bool" where
  "wf_blocks lo hi [] \<longleftrightarrow> True"
| "wf_blocks lo hi ((a, l) # bs) \<longleftrightarrow>
     lo \<le> unat a \<and> 0 < unat l \<and> 8 dvd unat l \<and> unat a + unat l \<le> hi \<and>
     wf_blocks (unat a + unat l + 1) hi bs"

definition extent :: "uint32 \<Rightarrow> uint32 \<Rightarrow> nat set" where
  "extent a l = {unat a..<unat a + unat l}"

definition free_bytes :: "blocks \<Rightarrow> nat set" where
  "free_bytes bs = (\<Union>(a, l)\<in>set bs. extent a l)"

text \<open>The specifications: first fit for the heap, last fit for stacks, release with merging.\<close>

fun ff_alloc :: "uint32 \<Rightarrow> blocks \<Rightarrow> (uint32 \<times> blocks) option" where
  "ff_alloc n [] = None"
| "ff_alloc n ((a, l) # bs) =
     (if l = n then Some (a, bs)
      else if l > n then Some (a, (a + n, l - n) # bs)
      else map_option (\<lambda>(r, bs'). (r, (a, l) # bs')) (ff_alloc n bs))"

fun lf_alloc :: "uint32 \<Rightarrow> blocks \<Rightarrow> (uint32 \<times> blocks) option" where
  "lf_alloc n [] = None"
| "lf_alloc n ((a, l) # bs) =
     (case lf_alloc n bs of
        Some (r, bs') \<Rightarrow> Some (r, (a, l) # bs')
      | None \<Rightarrow>
          if l < n then None
          else if l = n then Some (a, bs)
          else Some (a + (l - n), (a, l - n) # bs))"

fun merge_right :: "uint32 \<Rightarrow> uint32 \<Rightarrow> blocks \<Rightarrow> blocks" where
  "merge_right b len [] = [(b, len)]"
| "merge_right b len ((c, l) # cs) = (if b + len = c then (b, len + l) # cs else (b, len) # (c, l) # cs)"

fun blk_free :: "uint32 \<Rightarrow> uint32 \<Rightarrow> blocks \<Rightarrow> blocks option" where
  "blk_free b n [] = Some [(b, n)]"
| "blk_free b n ((a, l) # bs) =
     (if a < b then
        if b < a + l then None
        else if a + l = b then
          (case bs of
             [] \<Rightarrow> Some [(a, l + n)]
           | (c, k) # _ \<Rightarrow> if c < b + n then None else Some (merge_right a (l + n) bs))
        else map_option ((#) (a, l)) (blk_free b n bs)
      else if a < b + n then None else Some (merge_right b n ((a, l) # bs)))"

section \<open>Words\<close>

lemma and_not_7: "(x :: uint32) AND NOT 7 = push_bit 3 (drop_bit 3 x)"
proof -
  have m: "(7 :: uint32) = mask 3" by (simp add: mask_eq_exp_minus_1)
  show ?thesis unfolding m by (rule bit_eqI) (auto simp: bit_simps)
qed

lemma unat_and_not_7: "unat ((x :: uint32) AND NOT 7) = unat x div 8 * 8"
proof -
  have "push_bit 3 (drop_bit 3 x) = x - take_bit 3 x"
    using bits_ident [of 3 x] by (simp add: algebra_simps)
  moreover have "take_bit 3 x = x mod 8" by (simp add: take_bit_eq_mod)
  ultimately have "x AND NOT 7 = x - x mod 8" by (simp only: and_not_7)
  moreover have "unat (x - x mod 8) = unat x - unat (x mod 8)"
    by (rule unat_sub) (simp add: word_le_nat_alt unat_mod)
  ultimately show ?thesis by (simp add: unat_mod minus_mod_eq_div_mult)
qed

lemma unat_roundmb:
  assumes "unat x \<le> 2 ^ 32 - 8"
  shows "unat (roundmb x) = (unat x + 7) div 8 * 8"
proof -
  have "unat (7 + x) = unat x + 7" using assms by (simp add: unat_word_ariths)
  then show ?thesis by (simp only: roundmb_def unat_and_not_7)
qed

lemma unat_roundmb_dvd: "8 dvd unat (roundmb x)"
  by (simp only: roundmb_def unat_and_not_7) simp

lemma unat_truncmb: "unat (truncmb x) = unat x div 8 * 8"
  by (simp only: truncmb_def unat_and_not_7)

section \<open>Walking the list\<close>

definition prevref :: "mref \<Rightarrow> blocks \<Rightarrow> mref" where
  "prevref p as = (if as = [] then p else Blk (fst (last as)))"

lemma prevref_Nil [simp]: "prevref p [] = p"
  by (simp add: prevref_def)

lemma prevref_Cons [simp]: "prevref p ((a, l) # as) = prevref (Blk a) as"
  by (simp add: prevref_def)

lemma mpath_append: "mpath h p (as @ bs) q \<longleftrightarrow> (\<exists>r. mpath h p as r \<and> mpath h r bs q)"
  by (induction as arbitrary: p) auto

lemma mpath_appendI: "mpath h p as r \<Longrightarrow> mpath h r bs q \<Longrightarrow> mpath h p (as @ bs) q"
  by (auto simp: mpath_append)

lemma mpath_cong:
  "mpath h p as q \<Longrightarrow> (\<And>a. a \<in> fst ` set as \<Longrightarrow> h' a = h a) \<Longrightarrow> mpath h' p as q"
  by (induction as arbitrary: p) auto

lemma mpath_upd [simp]: "a \<notin> fst ` set as \<Longrightarrow> mpath (h(a := c)) p as q = mpath h p as q"
  by (induction as arbitrary: p) auto

text \<open>Redirecting the pointer that follows a prefix of the list.\<close>

lemma mpath_relink_heap:
  assumes "mpath h p (as @ [(a, l)]) r" and "a \<notin> fst ` set as"
  shows "mpath (h(a := (h a)\<lparr>mnext := q\<rparr>)) p (as @ [(a, l)]) q"
  using assms by (auto simp: mpath_append image_iff elim!: mpath_cong)

lemma relink:
  assumes "mpath (mheap m) (mnext (memlist m)) as r" and "distinct (map fst as)"
  shows "mpath (mheap (set_mnext (prevref MemList as) q m))
               (mnext (memlist (set_mnext (prevref MemList as) q m))) as q"
proof (cases as rule: rev_exhaust)
  case Nil
  then show ?thesis by simp
next
  case (snoc bs b)
  then show ?thesis
    using assms mpath_relink_heap [of "mheap m" "mnext (memlist m)" bs "fst b" "snd b" r q]
    by (auto simp: prevref_def)
qed

lemma set_mnext_other:
  "x \<notin> fst ` set as \<Longrightarrow> mheap (set_mnext (prevref MemList as) q m) x = mheap m x"
  by (cases as rule: rev_exhaust) (auto simp: prevref_def)

lemma set_mnext_frame [simp]:
  "minheap (set_mnext p v m) = minheap m" "maxheap (set_mnext p v m) = maxheap m"
  "memlist_addr (set_mnext p v m) = memlist_addr m"
  "mlength (memlist (set_mnext p v m)) = mlength (memlist m)"
  "mlength (mheap (set_mnext p v m) x) = mlength (mheap m x)"
  by (cases p; simp)+

lemma set_mlength_frame [simp]:
  "minheap (set_mlength p v m) = minheap m" "maxheap (set_mlength p v m) = maxheap m"
  "memlist_addr (set_mlength p v m) = memlist_addr m"
  "mnext (memlist (set_mlength p v m)) = mnext (memlist m)"
  "mnext (mheap (set_mlength p v m) x) = mnext (mheap m x)"
  by (cases p; simp)+

lemma sub_free_frame [simp]:
  "minheap (sub_free n m) = minheap m" "maxheap (sub_free n m) = maxheap m"
  "mheap (sub_free n m) = mheap m" "mnext (memlist (sub_free n m)) = mnext (memlist m)"
  "mlength (memlist (sub_free n m)) = mlength (memlist m) - n"
  by (simp_all add: sub_free_def)

lemma add_free_frame [simp]:
  "minheap (add_free n m) = minheap m" "maxheap (add_free n m) = maxheap m"
  "mheap (add_free n m) = mheap m" "mnext (memlist (add_free n m)) = mnext (memlist m)"
  "mlength (memlist (add_free n m)) = mlength (memlist m) + n"
  "memlist_addr (add_free n m) = memlist_addr m"
  by (simp_all add: add_free_def)

section \<open>Well formed block lists\<close>

lemma wf_blocks_mono: "wf_blocks lo hi bs \<Longrightarrow> lo' \<le> lo \<Longrightarrow> wf_blocks lo' hi bs"
  by (cases bs) auto

lemma wf_blocks_append:
  "wf_blocks lo hi (as @ bs) \<longleftrightarrow>
   wf_blocks lo hi as \<and>
   wf_blocks (if as = [] then lo else unat (fst (last as)) + unat (snd (last as)) + 1) hi bs"
  by (induction as arbitrary: lo) auto

lemma wf_blocks_bound:
  "wf_blocks lo hi bs \<Longrightarrow> (a, l) \<in> set bs \<Longrightarrow>
   lo \<le> unat a \<and> 0 < unat l \<and> 8 dvd unat l \<and> unat a + unat l \<le> hi"
  by (induction bs arbitrary: lo) fastforce+

lemma free_bytes_simps [simp]:
  "free_bytes [] = {}" "free_bytes ((a, l) # bs) = extent a l \<union> free_bytes bs"
  "free_bytes (as @ bs) = free_bytes as \<union> free_bytes bs"
  by (auto simp: free_bytes_def)

lemma free_bytes_range: "wf_blocks lo hi bs \<Longrightarrow> free_bytes bs \<subseteq> {lo..<hi}"
proof (induction bs arbitrary: lo)
  case (Cons b bs)
  obtain a l where [simp]: "b = (a, l)" by (cases b)
  have "free_bytes bs \<subseteq> {unat a + unat l + 1..<hi}" using Cons by simp
  then show ?case using Cons.prems by (fastforce simp: extent_def)
qed simp

lemma wf_blocks_distinct: "wf_blocks lo hi bs \<Longrightarrow> distinct (map fst bs)"
proof (induction bs arbitrary: lo)
  case (Cons b bs)
  then show ?case
    by (cases b) (fastforce dest: wf_blocks_bound)
qed simp


lemma wf_prefix_below:
  "wf_blocks lo hi (as @ (a, l) # cs) \<Longrightarrow>
   (\<forall>(c, k)\<in>set as. unat c + unat k < unat a) \<and> free_bytes as \<subseteq> {..<unat a}"
proof (induction as arbitrary: lo)
  case (Cons b as)
  obtain c k where b: "b = (c, k)" by (cases b)
  have "wf_blocks (unat c + unat k + 1) hi (as @ (a, l) # cs)" using Cons.prems b by simp
  then have "unat c + unat k + 1 \<le> unat a" by (auto dest: wf_blocks_bound)
  then show ?case using Cons.IH [of "unat c + unat k + 1"] Cons.prems b by (auto simp: extent_def)
qed simp

section \<open>First fit\<close>

text \<open>Where first fit stops: the blocks before are too short, the block itself is not.\<close>

lemma ff_alloc_split:
  assumes "ff_alloc n bs = Some (a, bs')"
  obtains as l cs where "bs = as @ (a, l) # cs" "\<And>c k. (c, k) \<in> set as \<Longrightarrow> k < n" "n \<le> l"
    "bs' = as @ (if l = n then cs else (a + n, l - n) # cs)"
  using assms
proof (induction bs arbitrary: bs' thesis)
  case (Cons b bs)
  obtain c k where b: "b = (c, k)" by (cases b)
  consider "k = n" | "n < k" | "k < n" by (rule linorder_cases [of k n])
  then show ?case
  proof cases
    case 1
    then show ?thesis using Cons.prems(1) [of "[]" k bs] Cons.prems(2) b by auto
  next
    case 2
    then show ?thesis using Cons.prems(1) [of "[]" k bs] Cons.prems(2) b by (auto split: if_splits)
  next
    case 3
    then obtain bs'' where bs'': "ff_alloc n bs = Some (a, bs'')" "bs' = (c, k) # bs''"
      using Cons.prems(2) b by (auto split: if_splits)
    from Cons.IH [OF _ bs''(1)] obtain as l cs where
      "bs = as @ (a, l) # cs" "\<And>c k. (c, k) \<in> set as \<Longrightarrow> k < n" "n \<le> l"
      "bs'' = as @ (if l = n then cs else (a + n, l - n) # cs)" by blast
    then show ?thesis
      using Cons.prems(1) [of "(c, k) # as" l cs] 3 b bs'' by auto
  qed
qed simp

lemma ff_alloc_None: "ff_alloc n bs = None \<longleftrightarrow> (\<forall>(a, l)\<in>set bs. l < n)"
  by (induction bs) (auto split: if_splits)

lemma extent_split:
  assumes "n \<le> l" and "unat a + unat l \<le> hi" and "hi < 2 ^ 32"
  shows "extent a l = extent a n \<union> extent (a + n) (l - n)"
    "extent a n \<inter> extent (a + n) (l - n) = {}"
    "unat (a + n) = unat a + unat n" "unat (l - n) = unat l - unat n"
proof -
  have "unat n \<le> unat l" using assms(1) by (simp add: wle)
  then show u: "unat (a + n) = unat a + unat n" "unat (l - n) = unat l - unat n"
    using assms by (simp_all add: unat_add_noovf unat_sub_le)
  show "extent a l = extent a n \<union> extent (a + n) (l - n)" "extent a n \<inter> extent (a + n) (l - n) = {}"
    using \<open>unat n \<le> unat l\<close> by (auto simp: extent_def u)
qed

lemma ff_alloc_ok:
  assumes wf: "wf_blocks lo hi bs" and hi: "hi < 2 ^ 32" and n: "0 < n" "8 dvd unat n"
    and al: "ff_alloc n bs = Some (a, bs')"
  shows "wf_blocks lo hi bs'" "extent a n \<subseteq> free_bytes bs" "free_bytes bs' = free_bytes bs - extent a n"
proof -
  obtain as l cs where s: "bs = as @ (a, l) # cs" "n \<le> l" "bs' = as @ (if l = n then cs else (a + n, l - n) # cs)"
    using ff_alloc_split [OF al] by metis
  have w: "wf_blocks lo hi as" "unat a + unat l \<le> hi" "wf_blocks (unat a + unat l + 1) hi cs" "8 dvd unat l"
    and lo': "(if as = [] then lo else unat (fst (last as)) + unat (snd (last as)) + 1) \<le> unat a"
    using wf by (auto simp: s(1) wf_blocks_append)
  note e = extent_split [OF s(2) w(2) hi]
  have u: "unat n \<le> unat l" "0 < unat n" using s(2) n by (auto simp: wle wless)
  have disj: "free_bytes as \<inter> extent a l = {}" "extent a l \<inter> free_bytes cs = {}"
    using free_bytes_range [OF w(3)] wf_prefix_below [of lo hi as a l cs] wf s(1)
    by (auto simp: extent_def)
  show "extent a n \<subseteq> free_bytes bs" using e s(1) by auto
  show "free_bytes bs' = free_bytes bs - extent a n"
    using e disj s by (auto simp: extent_def)
  show "wf_blocks lo hi bs'"
  proof (cases "l = n")
    case True
    then show ?thesis using s w lo' wf_blocks_mono [OF w(3)] by (auto simp: wf_blocks_append)
  next
    case False
    then have "unat n < unat l" using u by (simp add: weq)
    then show ?thesis
      using False s w lo' n u by (auto simp: wf_blocks_append e dvd_diff_nat)
  qed
qed

section \<open>getmem\<close>

lemma getmem_loop_skip:
  assumes "mpath (mheap m) cur as r" and "\<And>c k. (c, k) \<in> set as \<Longrightarrow> k < n"
  shows "getmem_loop n p cur m = getmem_loop n (prevref p as) r m"
  using assms
proof (induction as arbitrary: p cur)
  case (Cons b as)
  obtain c k where b: "b = (c, k)" by (cases b)
  have "k < n" using Cons.prems(2) b by auto
  then have "getmem_loop n p cur m = getmem_loop n (Blk c) (mnext (mheap m c)) m"
    using Cons.prems(1) b by (subst getmem_loop.simps) auto
  also have "\<dots> = getmem_loop n (prevref (Blk c) as) r m"
    using Cons b by auto
  finally show ?case by (simp add: b)
qed simp

lemma getmem_none:
  assumes "mabs m bs" and "nbytes \<noteq> 0" and "ff_alloc (roundmb nbytes) bs = None"
  shows "getmem nbytes m = Some (SYSERR_PTR, m)"
proof -
  have "getmem_loop (roundmb nbytes) MemList (mnext (memlist m)) m =
        getmem_loop (roundmb nbytes) (prevref MemList bs) 0 m"
    using assms by (intro getmem_loop_skip) (auto simp: mabs_def ff_alloc_None)
  then show ?thesis using assms(2) by (simp add: getmem_def getmem_loop.simps)
qed

lemma getmem_some:
  assumes abs: "mabs m bs" and wf: "wf_blocks lo hi bs" and hi: "hi < 2 ^ 32" and nz: "nbytes \<noteq> 0"
    and n: "n = roundmb nbytes" "0 < n" and al: "ff_alloc n bs = Some (a, bs')"
  shows "\<exists>m'. getmem nbytes m = Some (a, m') \<and> mabs m' bs' \<and>
    mlength (memlist m') = mlength (memlist m) - n \<and> minheap m' = minheap m \<and> maxheap m' = maxheap m"
proof -
  obtain as l cs where s: "bs = as @ (a, l) # cs" "\<And>c k. (c, k) \<in> set as \<Longrightarrow> k < n" "n \<le> l"
    "bs' = as @ (if l = n then cs else (a + n, l - n) # cs)"
    using ff_alloc_split [OF al] by metis
  have pa: "mpath (mheap m) (mnext (memlist m)) as a" and az: "a \<noteq> 0" and l: "mlength (mheap m a) = l"
    and pc: "mpath (mheap m) (mnext (mheap m a)) cs 0"
    using abs by (auto simp: mabs_def s(1) mpath_append)
  have da: "distinct (map fst as)" and aa: "a \<notin> fst ` set as" and ac: "a \<notin> fst ` set cs"
    and cd: "\<And>c. c \<in> fst ` set cs \<Longrightarrow> c \<notin> fst ` set as"
    using wf_blocks_distinct [OF wf] by (auto simp: s(1))
  have start: "getmem nbytes m = getmem_loop n (prevref MemList as) a m"
    using nz n(1) getmem_loop_skip [OF pa s(2)] by (simp add: getmem_def)
  show ?thesis
  proof (cases "l = n")
    case True
    let ?m = "set_mnext (prevref MemList as) (mnext (mheap m a)) m"
    have "getmem nbytes m = Some (a, sub_free n ?m)"
      using start az l True by (simp add: getmem_loop.simps)
    moreover have "mpath (mheap ?m) (mnext (memlist ?m)) (as @ cs) 0"
      by (rule mpath_appendI [OF relink [OF pa da]], rule mpath_cong [OF pc])
        (simp add: set_mnext_other cd)
    ultimately show ?thesis using s(4) True by (simp add: mabs_def)
  next
    case False
    let ?lo = "a + n"
    let ?m1 = "set_mnext (prevref MemList as) ?lo m"
    let ?m2 = "set_mnext (Blk ?lo) (mnext (mheap ?m1 a)) ?m1"
    let ?m3 = "set_mlength (Blk ?lo) (mlength (mheap ?m2 a) - n) ?m2"
    have w: "unat a + unat l \<le> hi" "wf_blocks (unat a + unat l + 1) hi cs" "lo \<le> unat a"
      and u: "unat n < unat l" "0 < unat n"
      using wf s(3) False n(2) wf_blocks_bound [OF wf, of a l] by (auto simp: s(1) wf_blocks_append wle wless weq)
    have ul: "unat ?lo = unat a + unat n" using w u hi by (intro unat_add_noovf) simp
    have lo_fresh: "?lo \<noteq> a" "?lo \<noteq> 0" "?lo \<notin> fst ` set as" "?lo \<notin> fst ` set cs"
      using ul u wf_prefix_below [of lo hi as a l cs] wf s(1) wf_blocks_bound [OF w(2)]
      by (auto simp: weq) fastforce+
    have "getmem nbytes m = Some (a, sub_free n ?m3)"
      using start az l s(3) False by (simp add: getmem_loop.simps Let_def)
    moreover have "mpath (mheap ?m3) (mnext (memlist ?m3)) (as @ (?lo, l - n) # cs) 0"
    proof -
      have h: "mheap ?m3 x = mheap ?m1 x" if "x \<noteq> ?lo" for x using that by simp
      have h1: "mheap ?m1 x = mheap m x" if "x \<notin> fst ` set as" for x
        using that by (rule set_mnext_other)
      have "mpath (mheap ?m1) (mnext (memlist ?m1)) as ?lo" using relink [OF pa da] .
      then have 1: "mpath (mheap ?m3) (mnext (memlist ?m3)) as ?lo"
        using lo_fresh(3) by (auto simp: image_iff elim!: mpath_cong)
      have "mpath (mheap ?m3) (mnext (mheap m a)) cs 0"
        using pc by (rule mpath_cong) (use h h1 lo_fresh(4) cd in metis)
      then have "mpath (mheap ?m3) ?lo ((?lo, l - n) # cs) 0"
        using lo_fresh l h1 [OF aa] by simp
      with 1 show ?thesis by (rule mpath_appendI)
    qed
    ultimately show ?thesis using s(4) False by (simp add: mabs_def)
  qed
qed


section \<open>getstk\<close>

lemma lf_alloc_None: "lf_alloc n bs = None \<longleftrightarrow> (\<forall>(a, l)\<in>set bs. l < n)"
  by (induction bs) (auto split: option.splits if_splits)

lemma lf_alloc_split:
  assumes "lf_alloc n bs = Some (r, bs')"
  obtains as a l cs where "bs = as @ (a, l) # cs" "\<And>c k. (c, k) \<in> set cs \<Longrightarrow> k < n" "n \<le> l"
    "r = a + (l - n)" "bs' = as @ (if l = n then cs else (a, l - n) # cs)"
  using assms
proof (induction bs arbitrary: bs' thesis)
  case (Cons b bs)
  obtain c k where b: "b = (c, k)" by (cases b)
  show ?case
  proof (cases "lf_alloc n bs")
    case None
    then have "\<And>c k. (c, k) \<in> set bs \<Longrightarrow> k < n" using lf_alloc_None [of n bs] by auto
    then show ?thesis
      using Cons.prems(1) [of "[]" c k bs] Cons.prems(2) None b by (auto split: if_splits)
  next
    case (Some rb)
    then obtain bs'' where bs'': "lf_alloc n bs = Some (r, bs'')" "bs' = (c, k) # bs''"
      using Cons.prems(2) b by (auto split: prod.splits)
    from Cons.IH [OF _ bs''(1)] obtain as a l cs where
      "bs = as @ (a, l) # cs" "\<And>c k. (c, k) \<in> set cs \<Longrightarrow> k < n" "n \<le> l" "r = a + (l - n)"
      "bs'' = as @ (if l = n then cs else (a, l - n) # cs)" by blast
    then show ?thesis
      using Cons.prems(1) [of "(c, k) # as" a l cs] b bs'' by auto
  qed
qed simp

lemma lf_alloc_ok:
  assumes wf: "wf_blocks lo hi bs" and hi: "hi < 2 ^ 32" and n: "0 < n" "8 dvd unat n"
    and al: "lf_alloc n bs = Some (r, bs')"
  shows "wf_blocks lo hi bs'" "extent r n \<subseteq> free_bytes bs" "free_bytes bs' = free_bytes bs - extent r n"
proof -
  obtain as a l cs where s: "bs = as @ (a, l) # cs" "n \<le> l" "r = a + (l - n)"
    "bs' = as @ (if l = n then cs else (a, l - n) # cs)"
    using lf_alloc_split [OF al] by metis
  have w: "wf_blocks lo hi as" "unat a + unat l \<le> hi" "wf_blocks (unat a + unat l + 1) hi cs" "8 dvd unat l"
    and lo': "(if as = [] then lo else unat (fst (last as)) + unat (snd (last as)) + 1) \<le> unat a"
    using wf by (auto simp: s(1) wf_blocks_append)
  have ul: "unat (l - n) = unat l - unat n" and nl: "unat n \<le> unat l" "0 < unat n"
    using s(2) n(1) by (auto simp: unat_sub_le wle wless)
  have "l - n \<le> l" using ul by (simp add: wle)
  note e = extent_split [OF this w(2) hi, simplified]
  have ur: "unat r = unat a + (unat l - unat n)" using e(3) ul s(3) by simp
  have ex: "extent a l = extent a (l - n) \<union> extent r n" "extent a (l - n) \<inter> extent r n = {}"
    using nl by (auto simp: extent_def ur ul)
  have disj: "free_bytes as \<inter> extent a l = {}" "extent a l \<inter> free_bytes cs = {}"
    using free_bytes_range [OF w(3)] wf_prefix_below [of lo hi as a l cs] wf s(1)
    by (auto simp: extent_def)
  show "extent r n \<subseteq> free_bytes bs" using ex s(1) by auto
  show "free_bytes bs' = free_bytes bs - extent r n"
    using ex disj s by (auto simp: extent_def)
  show "wf_blocks lo hi bs'"
  proof (cases "l = n")
    case True
    then show ?thesis using s w lo' wf_blocks_mono [OF w(3)] by (auto simp: wf_blocks_append)
  next
    case False
    then have "unat n < unat l" using nl by (simp add: weq)
    moreover have "wf_blocks (unat a + (unat l - unat n) + 1) hi cs"
      using w(3) by (rule wf_blocks_mono) simp
    ultimately show ?thesis
      using False s w lo' n by (auto simp: wf_blocks_append ul dvd_diff_nat)
  qed
qed

lemma getstk_scan_none:
  assumes "mpath (mheap m) cur bs 0" and "\<And>c k. (c, k) \<in> set bs \<Longrightarrow> k < n"
  shows "getstk_scan n p cur f fp m = Some (f, fp)"
  using assms
proof (induction bs arbitrary: p cur)
  case (Cons b bs)
  obtain c k where b: "b = (c, k)" by (cases b)
  have "k < n" using Cons.prems(2) b by auto
  then show ?case
    using Cons b by (subst getstk_scan.simps) auto
qed (simp add: getstk_scan.simps)

lemma getstk_scan_some:
  assumes "mpath (mheap m) cur (as @ (a, l) # cs) 0" and "n \<le> l" and "\<And>c k. (c, k) \<in> set cs \<Longrightarrow> k < n"
  shows "getstk_scan n p cur f fp m = Some (a, prevref p as)"
  using assms(1)
proof (induction as arbitrary: p cur f fp)
  case Nil
  then have "getstk_scan n (Blk a) (mnext (mheap m a)) a p m = Some (a, p)"
    using assms(3) by (intro getstk_scan_none [of _ _ cs]) auto
  then show ?case using Nil assms(2) by (subst getstk_scan.simps) auto
next
  case (Cons b as)
  obtain c k where b: "b = (c, k)" by (cases b)
  have "mpath (mheap m) (mnext (mheap m c)) (as @ (a, l) # cs) 0" "cur = c" "c \<noteq> 0" using Cons.prems b by auto
  then show ?case
    using Cons.IH [of "mnext (mheap m c)" "Blk c"] b by (subst getstk_scan.simps) auto
qed

lemma getstk_none:
  assumes "mabs m bs" and "nbytes \<noteq> 0" and "lf_alloc (roundmb nbytes) bs = None"
  shows "getstk nbytes m = Some (SYSERR_PTR, m)"
  using assms getstk_scan_none [of m "mnext (memlist m)" bs "roundmb nbytes" MemList 0 MemList]
  by (fastforce simp: getstk_def mabs_def lf_alloc_None Let_def)

lemma getstk_some:
  assumes abs: "mabs m bs" and wf: "wf_blocks lo hi bs" and nz: "nbytes \<noteq> 0"
    and n: "n = roundmb nbytes" and al: "lf_alloc n bs = Some (r, bs')"
  shows "\<exists>m'. getstk nbytes m = Some (r + n - 4, m') \<and> mabs m' bs' \<and>
    mlength (memlist m') = mlength (memlist m) - n \<and> minheap m' = minheap m \<and> maxheap m' = maxheap m"
proof -
  obtain as a l cs where s: "bs = as @ (a, l) # cs" "\<And>c k. (c, k) \<in> set cs \<Longrightarrow> k < n" "n \<le> l"
    "r = a + (l - n)" "bs' = as @ (if l = n then cs else (a, l - n) # cs)"
    using lf_alloc_split [OF al] by metis
  have pa: "mpath (mheap m) (mnext (memlist m)) as a" and az: "a \<noteq> 0" and l: "mlength (mheap m a) = l"
    and pc: "mpath (mheap m) (mnext (mheap m a)) cs 0"
    using abs by (auto simp: mabs_def s(1) mpath_append)
  have da: "distinct (map fst as)" and aa: "a \<notin> fst ` set as" "a \<notin> fst ` set cs"
    and cd: "\<And>c. c \<in> fst ` set cs \<Longrightarrow> c \<notin> fst ` set as"
    using wf_blocks_distinct [OF wf] by (auto simp: s(1))
  have scan: "getstk_scan n MemList (mnext (memlist m)) 0 MemList m = Some (a, prevref MemList as)"
    using getstk_scan_some [of m _ as a l cs] abs s(1,2,3) by (auto simp: mabs_def)
  show ?thesis
  proof (cases "l = n")
    case True
    let ?m = "set_mnext (prevref MemList as) (mnext (mheap m a)) m"
    have "getstk nbytes m = Some (r + n - 4, sub_free n ?m)"
      using scan nz n az l True s(4) by (simp add: getstk_def Let_def)
    moreover have "mpath (mheap ?m) (mnext (memlist ?m)) (as @ cs) 0"
      by (rule mpath_appendI [OF relink [OF pa da]], rule mpath_cong [OF pc])
        (simp add: set_mnext_other cd)
    ultimately show ?thesis using s(5) True by (simp add: mabs_def)
  next
    case False
    let ?m = "set_mlength (Blk a) (l - n) m"
    have "getstk nbytes m = Some (r + n - 4, sub_free n ?m)"
      using scan nz n az l False s(4) by (simp add: getstk_def Let_def)
    moreover have "mpath (mheap ?m) (mnext (memlist ?m)) (as @ (a, l - n) # cs) 0"
    proof (rule mpath_appendI)
      show "mpath (mheap ?m) (mnext (memlist ?m)) as a"
        using pa aa(1) by simp
      show "mpath (mheap ?m) a ((a, l - n) # cs) 0"
        using pc aa(2) az by simp
    qed
    ultimately show ?thesis using s(5) False by (simp add: mabs_def)
  qed
qed


section \<open>freemem\<close>

lemma freemem_scan_stops:
  assumes "mpath (mheap m) cur as r" and "\<And>a l. (a, l) \<in> set as \<Longrightarrow> a < b" and "r = 0 \<or> \<not> r < b"
  shows "freemem_scan b p cur m = Some (prevref p as, r)"
  using assms(1,2)
proof (induction as arbitrary: p cur)
  case Nil
  then show ?case using assms(3) by (subst freemem_scan.simps) auto
next
  case (Cons x as)
  obtain a l where x: "x = (a, l)" by (cases x)
  have "a < b" using Cons.prems(2) x by auto
  then show ?case using Cons x by (subst freemem_scan.simps) auto
qed

lemma blk_free_skip:
  assumes "wf_blocks lo hi (as @ (a, l) # cs)" and "hi < 2 ^ 32" and "a < b"
  shows "blk_free b n (as @ (a, l) # cs) = map_option ((@) as) (blk_free b n ((a, l) # cs))"
  using assms(1)
proof (induction as arbitrary: lo)
  case Nil
  then show ?case by (simp add: option.map_ident)
next
  case (Cons x as)
  obtain c k where x: "x = (c, k)" by (cases x)
  have lt: "unat c + unat k < unat a"
    using wf_prefix_below [of lo hi "x # as" a l cs] Cons.prems x by auto
  moreover have "unat a < 2 ^ 32" by (rule unat_bound)
  ultimately have "unat (c + k) = unat c + unat k" by (intro unat_add_noovf) simp
  with lt assms(3) have "c < b" "\<not> b < c + k" "c + k \<noteq> b" by (auto simp: wless weq)
  moreover have "blk_free b n (as @ (a, l) # cs) = map_option ((@) as) (blk_free b n ((a, l) # cs))"
    using Cons x by auto
  ultimately show ?case by (simp add: x option.map_comp comp_def)
qed

lemma merge_step:
  assumes p: "mpath (mheap m) (mnext (memlist m)) (as @ [(x, len)]) nx" and c: "mpath (mheap m) nx cs 0"
    and d: "distinct (map fst (as @ (x, len) # cs))" and nz: "x + len \<noteq> 0"
  shows "mabs (if x + len = nx
               then let m' = set_mlength (Blk x) (len + mlength (mheap m nx)) m
                    in set_mnext (Blk x) (mnext (mheap m' nx)) m'
               else m) (as @ merge_right x len cs)"
proof (cases "x + len = nx")
  case False
  then have "merge_right x len cs = (x, len) # cs" using c by (cases cs) auto
  then show ?thesis using False mpath_appendI [OF p c] by (simp add: mabs_def)
next
  case True
  obtain k ds where cs: "cs = (nx, k) # ds" using c nz True by (cases cs) auto
  let ?m = "set_mlength (Blk x) (len + mlength (mheap m nx)) m"
  let ?m2 = "set_mnext (Blk x) (mnext (mheap ?m nx)) ?m"
  have pa: "mpath (mheap m) (mnext (memlist m)) as x" and xz: "x \<noteq> 0"
    and k: "mlength (mheap m nx) = k" and ds: "mpath (mheap m) (mnext (mheap m nx)) ds 0"
    using p c cs by (auto simp: mpath_append)
  have xa: "x \<notin> fst ` set as" and xd: "x \<notin> fst ` set ds" and xn: "x \<noteq> nx" using d cs by auto
  have "mpath (mheap ?m2) (mnext (memlist ?m2)) (as @ (x, len + k) # ds) 0"
  proof (rule mpath_appendI)
    show "mpath (mheap ?m2) (mnext (memlist ?m2)) as x"
      using pa xa by simp
    show "mpath (mheap ?m2) x ((x, len + k) # ds) 0"
      using ds xd xz xn k by simp
  qed
  then show ?thesis using True cs by (simp add: mabs_def Let_def)
qed

text \<open>Linking a new node after a prefix of the list.\<close>

lemma link_step:
  fixes n :: uint32
  assumes pa: "mpath (mheap m) (mnext (memlist m)) as r" and d: "distinct (map fst as)"
    and b: "b \<notin> fst ` set as" "b \<noteq> 0" and c: "mpath (mheap m) nx cs 0" "b \<notin> fst ` set cs"
    and cd: "\<And>x. x \<in> fst ` set cs \<Longrightarrow> x \<notin> fst ` set as"
  defines "m' \<equiv> set_mnext (prevref MemList as) b (set_mlength (Blk b) n (set_mnext (Blk b) nx m))"
  shows "mpath (mheap m') (mnext (memlist m')) (as @ [(b, n)]) nx" "mpath (mheap m') nx cs 0"
    "mlength (mheap m' b) = n"
proof -
  let ?m0 = "set_mlength (Blk b) n (set_mnext (Blk b) nx m)"
  have b': "mheap m' b = mheap ?m0 b" using b(1) unfolding m'_def by (rule set_mnext_other)
  then show "mlength (mheap m' b) = n" by simp
  have "mpath (mheap ?m0) (mnext (memlist ?m0)) as r"
    using pa b(1) by simp
  then have 1: "mpath (mheap m') (mnext (memlist m')) as b"
    unfolding m'_def using d by (rule relink)
  moreover have "mpath (mheap m') b [(b, n)] nx" using b(2) b' by simp
  ultimately show "mpath (mheap m') (mnext (memlist m')) (as @ [(b, n)]) nx" by (rule mpath_appendI)
  have "mheap m' x = mheap m x" if "x \<in> fst ` set cs" for x
    using set_mnext_other [OF cd [OF that], of b ?m0] that c(2) by (auto simp: m'_def)
  with c(1) show "mpath (mheap m') nx cs 0" by (rule mpath_cong)
qed


text \<open>
  The list is split at the block to be released: \<open>as\<close> lies below it, \<open>cs\<close> does not.
\<close>

definition free_split :: "uint32 \<Rightarrow> uint32 \<Rightarrow> blocks \<Rightarrow> blocks \<Rightarrow> bool" where
  "free_split b n as cs \<longleftrightarrow>
    (\<forall>(a, l)\<in>set as. a < b) \<and> (\<forall>(c, k)\<in>set cs. b \<le> c) \<and> b \<noteq> 0 \<and> 0 < n \<and> unat b + unat n < 2 ^ 32"

lemma blk_free_here:
  assumes "free_split b n as cs"
  shows "blk_free b n cs = (if cs \<noteq> [] \<and> fst (hd cs) < b + n then None else Some (merge_right b n cs))"
proof (cases cs)
  case (Cons x ds)
  obtain c k where x: "x = (c, k)" by (cases x)
  then have "\<not> c < b" using assms Cons by (auto simp: free_split_def)
  then show ?thesis by (simp add: Cons x)
qed simp

lemma blk_free_left:
  assumes "free_split b n ((a, l) # as) cs"
  shows "blk_free b n ((a, l) # cs) =
    (if b < a + l then None
     else if cs \<noteq> [] \<and> fst (hd cs) < b + n then None
     else Some (if a + l = b then merge_right a (l + n) cs else (a, l) # merge_right b n cs))"
proof -
  have "free_split b n as cs" "a < b" using assms by (auto simp: free_split_def)
  then show ?thesis using blk_free_here [of b n as cs] by (cases cs) auto
qed

lemma freemem_fresh:
  assumes wf: "wf_blocks lo hi (as @ cs)" and sp: "free_split b n as cs"
    and ok: "\<not> (cs \<noteq> [] \<and> fst (hd cs) < b + n)"
  shows "b \<notin> fst ` set as" "b \<notin> fst ` set cs" "distinct (map fst as)" "b + n \<noteq> 0"
    "\<And>x. x \<in> fst ` set cs \<Longrightarrow> x \<notin> fst ` set as" "distinct (map fst (as @ (b, n) # cs))"
proof -
  have u: "unat (b + n) = unat b + unat n" "0 < unat n" "0 < unat b"
    using sp by (auto simp: free_split_def unat_add_noovf wless unat_gt_0)
  show 1: "b \<notin> fst ` set as" using sp by (auto simp: free_split_def)
  show 2: "b \<notin> fst ` set cs"
  proof
    assume "b \<in> fst ` set cs"
    then obtain k where bk: "(b, k) \<in> set cs" by auto
    then obtain c k' ds where cs: "cs = (c, k') # ds" by (cases cs) auto
    have "wf_blocks (unat c + unat k' + 1) hi ds" using wf by (simp add: cs wf_blocks_append)
    with bk cs have "unat c \<le> unat b" by (auto dest: wf_blocks_bound)
    with ok u cs show False by (simp add: wless)
  qed
  have d: "distinct (map fst (as @ cs))" using wf by (rule wf_blocks_distinct)
  then show "distinct (map fst as)" by simp
  show "b + n \<noteq> 0" using u by (auto simp: weq)
  show "\<And>x. x \<in> fst ` set cs \<Longrightarrow> x \<notin> fst ` set as" using d by (auto simp: image_iff)
  show "distinct (map fst (as @ (b, n) # cs))" using d 1 2 by auto
qed

text \<open>The body after the scan, one lemma per branch.\<close>

definition merge_next :: "uint32 \<Rightarrow> uint32 \<Rightarrow> uint32 \<Rightarrow> memstate \<Rightarrow> memstate" where
  "merge_next x len nx m =
    (if x + len = nx
     then let m' = set_mlength (Blk x) (len + mlength (mheap m nx)) m
          in set_mnext (Blk x) (mnext (mheap m' nx)) m'
     else m)"

definition prev_top :: "memstate \<Rightarrow> mref \<Rightarrow> uint32" where
  "prev_top m prev = (case prev of MemList \<Rightarrow> 0 | Blk p \<Rightarrow> p + mlength (mheap m p))"

lemma freemem_error:
  assumes "freemem_scan b MemList (mnext (memlist m)) m = Some (prev, nx)"
    and "(prev \<noteq> MemList \<and> b < prev_top m prev) \<or> (nx \<noteq> 0 \<and> b + roundmb nbytes > nx)"
  shows "freemem b nbytes m = Some (SYSERR, m)"
  using assms by (auto simp: freemem_def Let_def prev_top_def split: mref.splits)

lemma freemem_link:
  fixes b nbytes :: uint32
  assumes "freemem_scan b MemList (mnext (memlist m)) m = Some (prev, nx)"
    and "\<not> (nbytes = 0 \<or> b < minheap m \<or> b > maxheap m)"
    and "\<not> ((prev \<noteq> MemList \<and> b < prev_top m prev) \<or> (nx \<noteq> 0 \<and> b + n > nx))"
    and "prev_top m prev \<noteq> b" and "n = roundmb nbytes"
  defines "m2 \<equiv> set_mnext prev b (set_mlength (Blk b) n (set_mnext (Blk b) nx (add_free n m)))"
  assumes "mlength (mheap m2 b) = n"
  shows "freemem b nbytes m = Some (OK, merge_next b n nx m2)"
  using assms(1-5,7) unfolding freemem_def m2_def prev_top_def merge_next_def
  by (simp add: Let_def del: set_mnext.simps set_mlength.simps)

lemma freemem_left:
  fixes b nbytes :: uint32
  assumes "freemem_scan b MemList (mnext (memlist m)) m = Some (Blk a, nx)"
    and "\<not> (nbytes = 0 \<or> b < minheap m \<or> b > maxheap m)"
    and "\<not> (nx \<noteq> 0 \<and> b + n > nx)" and "a + mlength (mheap m a) = b" and "n = roundmb nbytes"
  defines "m2 \<equiv> set_mlength (Blk a) (mlength (mheap m a) + n) (add_free n m)"
  shows "freemem b nbytes m = Some (OK, merge_next a (mlength (mheap m a) + n) nx m2)"
  using assms(1-5) unfolding freemem_def m2_def merge_next_def
  by (auto simp: Let_def simp del: set_mnext.simps)

lemma merge_next_frame [simp]:
  "minheap (merge_next x l nx m) = minheap m" "maxheap (merge_next x l nx m) = maxheap m"
  "mlength (memlist (merge_next x l nx m)) = mlength (memlist m)"
  by (simp_all add: merge_next_def Let_def)

definition freed_to :: "uint32 \<Rightarrow> memstate \<Rightarrow> blocks \<Rightarrow> memstate \<Rightarrow> bool" where
  "freed_to n m bs' m' \<longleftrightarrow> mabs m' bs' \<and> mlength (memlist m') = mlength (memlist m) + n \<and>
     minheap m' = minheap m \<and> maxheap m' = maxheap m"

lemma freemem_abs_link:
  assumes pa: "mpath (mheap m) (mnext (memlist m)) as nx" and pc: "mpath (mheap m) nx cs 0"
    and wf: "wf_blocks lo hi (as @ cs)" and sp: "free_split b n as cs"
    and ok: "\<not> (cs \<noteq> [] \<and> fst (hd cs) < b + n)"
    and g: "\<not> (nbytes = 0 \<or> b < minheap m \<or> b > maxheap m)" and n: "n = roundmb nbytes"
    and scan: "freemem_scan b MemList (mnext (memlist m)) m = Some (prevref MemList as, nx)"
    and top: "prev_top m (prevref MemList as) \<noteq> b"
      "\<not> ((prevref MemList as \<noteq> MemList \<and> b < prev_top m (prevref MemList as)) \<or> (nx \<noteq> 0 \<and> b + n > nx))"
  shows "\<exists>m'. freemem b nbytes m = Some (OK, m') \<and> freed_to n m (as @ merge_right b n cs) m'"
proof -
  note F = freemem_fresh [OF wf sp ok]
  have bz: "b \<noteq> 0" using sp by (simp add: free_split_def)
  have "mpath (mheap (add_free n m)) (mnext (memlist (add_free n m))) as nx"
    and "mpath (mheap (add_free n m)) nx cs 0"
    using pa pc by simp_all
  note L = link_step [OF this(1) F(3) F(1) bz this(2) F(2) F(5), of n]
  have "freemem b nbytes m = Some (OK, merge_next b n nx
      (set_mnext (prevref MemList as) b (set_mlength (Blk b) n (set_mnext (Blk b) nx (add_free n m)))))"
    by (rule freemem_link [OF scan g top(2,1) n L(3)])
  moreover have "mabs (merge_next b n nx
      (set_mnext (prevref MemList as) b (set_mlength (Blk b) n (set_mnext (Blk b) nx (add_free n m)))))
      (as @ merge_right b n cs)"
    unfolding merge_next_def by (rule merge_step [OF L(1,2) F(6,4)])
  ultimately show ?thesis by (simp add: freed_to_def del: set_mnext.simps set_mlength.simps) simp
qed

lemma freemem_abs_left:
  assumes pa: "mpath (mheap m) (mnext (memlist m)) (as @ [(a, l)]) nx" and pc: "mpath (mheap m) nx cs 0"
    and wf: "wf_blocks lo hi ((as @ [(a, l)]) @ cs)" and sp: "free_split b n (as @ [(a, l)]) cs"
    and ok: "\<not> (cs \<noteq> [] \<and> fst (hd cs) < b + n)"
    and g: "\<not> (nbytes = 0 \<or> b < minheap m \<or> b > maxheap m)" and n: "n = roundmb nbytes"
    and scan: "freemem_scan b MemList (mnext (memlist m)) m = Some (Blk a, nx)"
    and top: "a + l = b" "\<not> (nx \<noteq> 0 \<and> b + n > nx)"
  shows "\<exists>m'. freemem b nbytes m = Some (OK, m') \<and> freed_to n m (as @ merge_right a (l + n) cs) m'"
proof -
  note F = freemem_fresh [OF wf sp ok]
  let ?m2 = "set_mlength (Blk a) (l + n) (add_free n m)"
  have l: "mlength (mheap m a) = l" and az: "a \<noteq> 0" and pas: "mpath (mheap m) (mnext (memlist m)) as a"
    and nx: "mnext (mheap m a) = nx"
    using pa by (auto simp: mpath_append)
  have d: "distinct (map fst (as @ (a, l + n) # cs))" using wf_blocks_distinct [OF wf] by auto
  then have aa: "a \<notin> fst ` set as" "a \<notin> fst ` set cs" by auto
  have "mpath (mheap ?m2) (mnext (memlist ?m2)) (as @ [(a, l + n)]) nx"
    by (rule mpath_appendI [of _ _ _ a]) (use pas aa az nx in simp_all)
  moreover have "mpath (mheap ?m2) nx cs 0" using pc aa by simp
  moreover have "a + (l + n) \<noteq> 0" using F(4) top(1) by (metis add.assoc)
  ultimately have "mabs (merge_next a (l + n) nx ?m2) (as @ merge_right a (l + n) cs)"
    unfolding merge_next_def using d by (intro merge_step)
  moreover have "freemem b nbytes m = Some (OK, merge_next a (l + n) nx ?m2)"
    using freemem_left [OF scan g top(2) _ n] l top(1) by simp
  ultimately show ?thesis by (simp add: freed_to_def)
qed

lemma freemem_abs:
  assumes abs: "mabs m (as @ cs)" and wf: "wf_blocks lo hi (as @ cs)" and hi: "hi < 2 ^ 32"
    and b: "minheap m \<le> b" "b \<le> maxheap m" and nz: "nbytes \<noteq> 0" and n: "n = roundmb nbytes"
    and sp: "free_split b n as cs"
  shows "case blk_free b n (as @ cs) of
      None \<Rightarrow> freemem b nbytes m = Some (SYSERR, m)
    | Some bs' \<Rightarrow> \<exists>m'. freemem b nbytes m = Some (OK, m') \<and> freed_to n m bs' m'"
proof -
  define nx where "nx = (if cs = [] then 0 else fst (hd cs))"
  have pa: "mpath (mheap m) (mnext (memlist m)) as nx" and pc: "mpath (mheap m) nx cs 0"
    using abs by (cases cs; auto simp: mabs_def mpath_append nx_def)+
  have nxb: "nx = 0 \<or> \<not> nx < b" and nx0: "nx = 0 \<longleftrightarrow> cs = []"
    using sp pc by (cases cs; auto simp: free_split_def nx_def)+
  have scan: "freemem_scan b MemList (mnext (memlist m)) m = Some (prevref MemList as, nx)"
    using pa nxb sp by (intro freemem_scan_stops) (auto simp: free_split_def)
  have over: "(nx \<noteq> 0 \<and> b + n > nx) \<longleftrightarrow> (cs \<noteq> [] \<and> fst (hd cs) < b + n)" using nx0 by (auto simp: nx_def)
  have bz: "b \<noteq> 0" and g: "\<not> (nbytes = 0 \<or> b < minheap m \<or> b > maxheap m)"
    using sp b nz by (auto simp: free_split_def)
  show ?thesis
  proof (cases as rule: rev_exhaust)
    case Nil
    have top: "prev_top m (prevref MemList as) \<noteq> b" using Nil bz by (simp add: prev_top_def)
    show ?thesis
    proof (cases "cs \<noteq> [] \<and> fst (hd cs) < b + n")
      case True
      then show ?thesis
        using blk_free_here [OF sp] Nil freemem_error [OF scan] over n by simp
    next
      case False
      then show ?thesis
        using freemem_abs_link [OF pa pc wf sp False g n scan top] blk_free_here [OF sp] over Nil
        by (auto simp: prev_top_def)
    qed
  next
    case (snoc as' x)
    obtain a l where x: "x = (a, l)" by (cases x)
    have as: "as = as' @ [(a, l)]" and ab: "a < b" and l: "mlength (mheap m a) = l"
      using snoc x sp pa by (auto simp: free_split_def mpath_append)
    have prev: "prevref MemList as = Blk a" and top: "prev_top m (Blk a) = a + l"
      using as l by (simp_all add: prevref_def prev_top_def)
    have "free_split b n ((a, l) # as') cs" using sp as by (auto simp: free_split_def)
    note left = blk_free_left [OF this]
    have skip: "blk_free b n (as @ cs) = map_option ((@) as') (blk_free b n ((a, l) # cs))"
      using blk_free_skip [of lo hi as' a l cs b n] wf hi ab as by simp
    consider "b < a + l \<or> cs \<noteq> [] \<and> fst (hd cs) < b + n"
      | "\<not> b < a + l" "\<not> (cs \<noteq> [] \<and> fst (hd cs) < b + n)" "a + l = b"
      | "\<not> b < a + l" "\<not> (cs \<noteq> [] \<and> fst (hd cs) < b + n)" "a + l \<noteq> b" by blast
    then show ?thesis
    proof cases
      case 1
      then have "blk_free b n (as @ cs) = None" unfolding skip left by auto
      moreover have "freemem b nbytes m = Some (SYSERR, m)"
        using 1 over prev top n by (intro freemem_error [OF scan]) auto
      ultimately show ?thesis by simp
    next
      case 2
      then have r: "blk_free b n (as @ cs) = Some (as' @ merge_right a (l + n) cs)"
        unfolding skip left by auto
      show ?thesis
        unfolding r option.case
        by (rule freemem_abs_left [of m as' a l nx cs lo hi])
          (use pa pc wf sp g n scan over prev as 2 in auto)
    next
      case 3
      then have r: "blk_free b n (as @ cs) = Some (as @ merge_right b n cs)"
        unfolding skip left using as by auto
      show ?thesis
        unfolding r option.case
        by (rule freemem_abs_link [OF pa pc wf sp 3(2) g n scan]) (use over prev top 3 in auto)
    qed
  qed
qed


section \<open>What releasing a block does to the free bytes\<close>

lemma merge_right_ok:
  assumes wf: "wf_blocks (unat x + unat len) hi cs" and hi: "hi < 2 ^ 32"
    and x: "lo \<le> unat x" "0 < unat len" "8 dvd unat len" "unat x + unat len \<le> hi"
  shows "wf_blocks lo hi (merge_right x len cs)" "free_bytes (merge_right x len cs) = extent x len \<union> free_bytes cs"
proof -
  have u: "unat (x + len) = unat x + unat len" using x hi by (intro unat_add_noovf) simp
  show "wf_blocks lo hi (merge_right x len cs)" "free_bytes (merge_right x len cs) = extent x len \<union> free_bytes cs"
  proof (atomize (full), cases cs)
    case (Cons y ds)
    obtain c k where y: "y = (c, k)" by (cases y)
    have w: "unat x + unat len \<le> unat c" "8 dvd unat k" "unat c + unat k \<le> hi"
      "wf_blocks (unat c + unat k + 1) hi ds" using wf Cons y by auto
    have "x + len = c \<Longrightarrow> unat (len + k) = unat len + unat k"
      using w hi u by (intro unat_add_noovf) auto
    moreover have "x + len \<noteq> c \<Longrightarrow> unat x + unat len < unat c" using u w(1) weq by fastforce
    ultimately show "wf_blocks lo hi (merge_right x len cs) \<and>
        free_bytes (merge_right x len cs) = extent x len \<union> free_bytes cs"
      using x wf w Cons y u by (cases "x + len = c") (auto simp: extent_def dvd_add add.assoc)
  qed (use x in simp)
qed

lemma blk_free_ok:
  assumes "wf_blocks lo hi bs" and hi: "hi < 2 ^ 32" and b: "lo \<le> unat b" "unat b + unat n \<le> hi"
    and n: "0 < unat n" "8 dvd unat n"
  shows "case blk_free b n bs of
      None \<Rightarrow> extent b n \<inter> free_bytes bs \<noteq> {}
    | Some bs' \<Rightarrow> extent b n \<inter> free_bytes bs = {} \<and> wf_blocks lo hi bs' \<and> free_bytes bs' = free_bytes bs \<union> extent b n"
  using assms(1) b(1)
proof (induction bs arbitrary: lo)
  case Nil
  then show ?case using b n by simp
next
  case (Cons x bs)
  obtain a l where x: "x = (a, l)" by (cases x)
  have w: "lo \<le> unat a" "0 < unat l" "8 dvd unat l" "unat a + unat l \<le> hi"
    and wt: "wf_blocks (unat a + unat l + 1) hi bs" using Cons.prems x by auto
  have ual: "unat (a + l) = unat a + unat l" and ubn: "unat (b + n) = unat b + unat n"
    using w b hi by (auto intro!: unat_add_noovf)
  have tail: "free_bytes bs \<subseteq> {unat a + unat l + 1..<hi}" using wt by (rule free_bytes_range)
  have inter: "c \<in> extent p k \<inter> A \<Longrightarrow> extent p k \<inter> A \<noteq> {}" for c p k and A :: "nat set" by blast
  consider "a < b" "b < a + l" | "a < b" "a + l = b" | "a < b" "\<not> b < a + l" "a + l \<noteq> b" | "\<not> a < b"
    by blast
  then show ?case
  proof cases
    case 1
    then show ?thesis using x n ual inter [of "unat b" b n] by (auto simp: extent_def wless)
  next
    case 2
    have ln: "unat (l + n) = unat l + unat n" using 2 b hi ual by (intro unat_add_noovf) auto
    have ba: "unat b = unat a + unat l" using 2 ual by auto
    show ?thesis
    proof (cases "\<exists>c k ds. bs = (c, k) # ds \<and> c < b + n")
      case True
      then obtain c k ds where bs: "bs = (c, k) # ds" and c: "c < b + n" by blast
      have "unat c \<in> extent b n \<inter> free_bytes (x # bs)"
        using bs c wt ba ubn by (auto simp: x extent_def wless)
      then show ?thesis using inter [of "unat c" b n] 2 bs c by (auto simp: x)
    next
      case False
      have wm: "wf_blocks (unat a + unat (l + n)) hi bs"
        using False wt ubn ln ba by (cases bs) (auto simp: wless)
      have bl: "unat a + unat (l + n) \<le> hi" using ln ba b by simp
      note M = merge_right_ok [OF wm hi w(1) _ _ bl]
      have r: "blk_free b n (x # bs) = Some (merge_right a (l + n) bs)"
        using False 2 by (cases bs) (auto simp: x split: prod.splits)
      have e: "extent a (l + n) = extent a l \<union> extent b n" "extent b n \<inter> extent a l = {}"
        using ln ba by (auto simp: extent_def)
      have "extent b n \<inter> free_bytes bs = {}"
        using free_bytes_range [OF wm] ln ba by (auto simp: extent_def)
      then show ?thesis unfolding r using M e w n ln by (auto simp: x dvd_add)
    qed
  next
    case 3
    then have ab: "unat a + unat l + 1 \<le> unat b" using ual by (auto simp: wless weq)
    then have "extent b n \<inter> extent a l = {}" by (auto simp: extent_def)
    with 3 w Cons.IH [OF wt ab] show ?thesis by (auto simp: x split: option.splits)
  next
    case 4
    then have ba: "unat b \<le> unat a" by (simp add: wless)
    show ?thesis
    proof (cases "a < b + n")
      case True
      then have "unat a \<in> extent b n \<inter> free_bytes (x # bs)"
        using ba ubn w by (auto simp: x extent_def wless)
      then show ?thesis using inter [of "unat a" b n] 4 True by (auto simp: x)
    next
      case False
      then have wm: "wf_blocks (unat b + unat n) hi (x # bs)" using Cons.prems(1) ubn by (auto simp: x wless)
      note M = merge_right_ok [OF wm hi Cons.prems(2) n b(2)]
      have "extent b n \<inter> free_bytes (x # bs) = {}" using free_bytes_range [OF wm] by (auto simp: extent_def)
      then show ?thesis using 4 False M by (auto simp: x)
    qed
  qed
qed

text \<open>Merging makes the representation canonical: the free bytes determine the list.\<close>

lemma wf_blocks_canonical:
  "wf_blocks lo hi bs \<Longrightarrow> wf_blocks lo hi bs' \<Longrightarrow> free_bytes bs = free_bytes bs' \<Longrightarrow> bs = bs'"
proof (induction bs arbitrary: lo bs')
  case Nil
  then show ?case by (cases bs') (auto simp: extent_def)
next
  case (Cons x bs)
  obtain a l where x: "x = (a, l)" by (cases x)
  have "0 < unat l" using Cons.prems(1) x by simp
  then have "unat a \<in> free_bytes (x # bs)" by (simp add: x extent_def)
  then have "bs' \<noteq> []" using Cons.prems(3) by auto
  then obtain a' l' cs where bs': "bs' = (a', l') # cs" by (cases bs') auto
  have w: "wf_blocks (unat a + unat l + 1) hi bs" "wf_blocks (unat a' + unat l' + 1) hi cs" "0 < unat l" "0 < unat l'"
    using Cons.prems x bs' by auto
  have r: "free_bytes bs \<subseteq> {unat a + unat l + 1..<hi}" "free_bytes cs \<subseteq> {unat a' + unat l' + 1..<hi}"
    using w by (auto dest: free_bytes_range)
  have eq: "extent a l \<union> free_bytes bs = extent a' l' \<union> free_bytes cs" using Cons.prems(3) x bs' by simp
  have mem: "t \<in> extent a l \<union> free_bytes bs \<longleftrightarrow> t \<in> extent a' l' \<union> free_bytes cs" for t using eq by simp
  have ua: "unat a = unat a'"
    using mem [of "unat a"] mem [of "unat a'"] r w(3,4) by (fastforce simp: extent_def)
  have ul: "unat l = unat l'"
    using mem [of "unat a + unat l"] mem [of "unat a' + unat l'"] r w(3,4) ua
    by (auto simp: extent_def; linarith)
  have "free_bytes bs = (extent a l \<union> free_bytes bs) - extent a l"
    "free_bytes cs = (extent a l \<union> free_bytes cs) - extent a l"
    using r ua ul by (fastforce simp: extent_def)+
  moreover have "extent a l = extent a' l'" using ua ul by (simp add: extent_def)
  ultimately have "free_bytes bs = free_bytes cs" using eq by metis
  then have "bs = cs" using Cons.IH [OF w(1)] w(2) ua ul by simp
  then show ?case using x bs' ua ul by (simp add: weq)
qed


section \<open>The heap's contract\<close>

text \<open>
  \<open>heap_ok m bs\<close>: the free list of \<open>m\<close> is \<open>bs\<close>, well formed and inside the heap.
\<close>

definition heap_ok :: "memstate \<Rightarrow> blocks \<Rightarrow> bool" where
  "heap_ok m bs \<longleftrightarrow>
    mabs m bs \<and> wf_blocks (unat (minheap m)) (unat (maxheap m)) bs \<and> minheap m \<noteq> 0"

definition reqsize :: "uint32 \<Rightarrow> nat" where
  "reqsize nbytes = (unat nbytes + 7) div 8 * 8"

lemma heap_okD:
  assumes "heap_ok m bs"
  shows "mabs m bs" "wf_blocks (unat (minheap m)) (unat (maxheap m)) bs" "0 < unat (minheap m)"
  using assms by (auto simp: heap_ok_def unat_gt_0)

lemma mpath_unique: "mpath h p bs 0 \<Longrightarrow> mpath h p cs 0 \<Longrightarrow> bs = cs"
proof (induction bs arbitrary: p cs)
  case Nil
  then show ?case by (cases cs) auto
next
  case (Cons b bs)
  then show ?case by (cases cs; cases b) auto
qed

lemma heap_ok_unique: "heap_ok m bs \<Longrightarrow> heap_ok m cs \<Longrightarrow> bs = cs"
  using mpath_unique by (auto simp: heap_ok_def mabs_def)

lemma roundmb_request:
  assumes "nbytes \<noteq> 0" and "unat nbytes \<le> 2 ^ 32 - 8"
  shows "unat (roundmb nbytes) = reqsize nbytes" "0 < roundmb nbytes" "8 dvd unat (roundmb nbytes)"
proof -
  show u: "unat (roundmb nbytes) = reqsize nbytes" using assms(2) by (simp add: reqsize_def unat_roundmb)
  have "0 < unat nbytes" using assms(1) by (simp add: unat_gt_0)
  then have "0 < reqsize nbytes" by (simp add: reqsize_def)
  then show "0 < roundmb nbytes" by (simp add: wless u)
  show "8 dvd unat (roundmb nbytes)" by (rule unat_roundmb_dvd)
qed

lemma roundmb_idem:
  assumes "unat x \<le> 2 ^ 32 - 8"
  shows "roundmb (roundmb x) = roundmb x"
proof -
  have "unat (roundmb x) \<le> 2 ^ 32 - 8" using assms by (simp add: unat_roundmb)
  then show ?thesis using assms by (simp add: weq unat_roundmb)
qed

lemma freemem_heap:
  assumes ok: "heap_ok m bs" and b: "minheap m \<le> b" and nz: "nbytes \<noteq> 0" "unat nbytes \<le> 2 ^ 32 - 8"
    and fits: "unat b + reqsize nbytes \<le> unat (maxheap m)"
  shows "case blk_free b (roundmb nbytes) bs of
      None \<Rightarrow> freemem b nbytes m = Some (SYSERR, m)
    | Some bs' \<Rightarrow> \<exists>m'. freemem b nbytes m = Some (OK, m') \<and> freed_to (roundmb nbytes) m bs' m'"
proof -
  let ?n = "roundmb nbytes"
  let ?as = "takeWhile (\<lambda>(a, l). a < b) bs" and ?cs = "dropWhile (\<lambda>(a, l). a < b) bs"
  note R = roundmb_request [OF nz] and H = heap_okD [OF ok]
  have mx: "unat (maxheap m) < 2 ^ 32" by (rule unat_bound)
  have bz: "b \<noteq> 0" using b H(3) by (auto simp: wle simp del: unat_gt_0)
  have wf: "wf_blocks (unat (minheap m)) (unat (maxheap m)) (?as @ ?cs)" using H(2) by simp
  have "b \<le> c" if "(c, k) \<in> set ?cs" for c k
  proof -
    have "?cs \<noteq> []" using that by (metis empty_iff list.set(1))
    then obtain d j ds where cs: "?cs = (d, j) # ds" by (metis list.exhaust surj_pair)
    have "\<not> d < b" using dropWhile_hdD [OF cs] by simp
    moreover have "unat d \<le> unat c"
    proof (cases "(c, k) = (d, j)")
      case False
      then have "(c, k) \<in> set ds" using that cs by auto
      moreover have "wf_blocks (unat d + unat j + 1) (unat (maxheap m)) ds"
        using wf unfolding cs by (simp add: wf_blocks_append)
      ultimately show ?thesis by (auto dest: wf_blocks_bound)
    qed simp
    ultimately show ?thesis by (simp add: wle wless)
  qed
  then have "free_split b ?n ?as ?cs"
    using bz R fits mx by (auto simp: free_split_def dest: set_takeWhileD)
  moreover have "b \<le> maxheap m" using fits by (simp add: wle)
  ultimately show ?thesis
    using freemem_abs [OF _ wf mx b _ nz(1) refl] H(1) by simp
qed

text \<open>The heap just after \<^verbatim>\<open>meminit\<close>, used to instantiate the theorems below.\<close>

definition mem_zero :: memstate where
  "mem_zero = \<lparr>mheap = (\<lambda>_. \<lparr>mnext = 0, mlength = 0\<rparr>), memlist = \<lparr>mnext = 0, mlength = 0\<rparr>,
     memlist_addr = 0x100, minheap = 0, maxheap = 0\<rparr>"

lemma meminit_ok:
  assumes "0 < lo" and "lo < hi" and "8 dvd unat (hi - lo)"
  shows "heap_ok (meminit lo hi m) [(lo, hi - lo)]"
proof -
  have "unat (hi - lo) = unat hi - unat lo" using assms(2) by (intro unat_sub_le) simp
  moreover have "unat lo < unat hi" using assms(2) by (simp add: wless)
  ultimately show ?thesis using assms by (auto simp: meminit_def Let_def heap_ok_def mabs_def)
qed

lemma mem_example_ok: "heap_ok (meminit 0x1000 0x2000 mem_zero) [(0x1000, 0x1000)]"
  using meminit_ok [of "0x1000" "0x2000" mem_zero] by simp

lemma getmem_cases:
  assumes "heap_ok m bs" and "nbytes \<noteq> 0" and "unat nbytes \<le> 2 ^ 32 - 8"
  shows "(\<forall>(a, l)\<in>set bs. unat l < reqsize nbytes) \<and> getmem nbytes m = Some (SYSERR_PTR, m) \<or>
    (\<exists>a m' bs'. getmem nbytes m = Some (a, m') \<and> heap_ok m' bs' \<and>
       {unat a..<unat a + reqsize nbytes} \<subseteq> free_bytes bs \<and>
       free_bytes bs' = free_bytes bs - {unat a..<unat a + reqsize nbytes})"
proof -
  let ?n = "roundmb nbytes"
  note R = roundmb_request [OF assms(2,3)] and H = heap_okD [OF assms(1)]
  have e: "extent a ?n = {unat a..<unat a + reqsize nbytes}" for a by (simp add: extent_def R)
  have mx: "unat (maxheap m) < 2 ^ 32" by (rule unat_bound)
  show ?thesis
  proof (cases "ff_alloc ?n bs")
    case None
    then show ?thesis
      using getmem_none [OF H(1) assms(2)] ff_alloc_None [of ?n bs] R(1) by (auto simp: wless)
  next
    case (Some r)
    obtain a bs' where al: "ff_alloc ?n bs = Some (a, bs')" using Some by (cases r) auto
    obtain m' where m': "getmem nbytes m = Some (a, m')" "mabs m' bs'" "minheap m' = minheap m" "maxheap m' = maxheap m"
      using getmem_some [OF H(1,2) mx assms(2) refl R(2) al] by auto
    show ?thesis
      using m' ff_alloc_ok [OF H(2) mx R(2,3) al] assms(1) unfolding e by (auto simp: heap_ok_def)
  qed
qed

text \<open>
  \<^verbatim>\<open>getmem\<close> on a well formed heap always returns. It fails, changing nothing, exactly
  when no free block is as long as the request rounded up to a multiple of 8; otherwise the
  bytes it returns were all free, exactly they leave the free list, and the list stays
  well formed.
\<close>

theorem getmem_allocates:
  assumes "heap_ok m bs" and "nbytes \<noteq> 0" and "unat nbytes \<le> 2 ^ 32 - 8"
  shows "(\<forall>(a, l)\<in>set bs. unat l < reqsize nbytes) \<and> getmem nbytes m = Some (SYSERR_PTR, m) \<or>
    (\<exists>a m' bs'. getmem nbytes m = Some (a, m') \<and> heap_ok m' bs' \<and>
       {unat a..<unat a + reqsize nbytes} \<subseteq> free_bytes bs \<and>
       free_bytes bs' = free_bytes bs - {unat a..<unat a + reqsize nbytes})"
  using assms by (rule getmem_cases)

theorem getmem_allocates_witness:
  "(\<forall>(a, l)\<in>set [(0x1000 :: uint32, 0x1000 :: uint32)]. unat l < reqsize 100) \<and>
     getmem 100 (meminit 0x1000 0x2000 mem_zero) = Some (SYSERR_PTR, meminit 0x1000 0x2000 mem_zero) \<or>
   (\<exists>a m' bs'. getmem 100 (meminit 0x1000 0x2000 mem_zero) = Some (a, m') \<and> heap_ok m' bs' \<and>
      {unat a..<unat a + reqsize 100} \<subseteq> free_bytes [(0x1000, 0x1000)] \<and>
      free_bytes bs' = free_bytes [(0x1000, 0x1000)] - {unat a..<unat a + reqsize 100})"
  using getmem_allocates [OF mem_example_ok, of 100] by simp

text \<open>A request that fits into some free block is served.\<close>

lemma getmem_block:
  assumes ok: "heap_ok m bs" and n: "n \<noteq> 0" "unat n \<le> 2 ^ 32 - 8" and c: "(c, l) \<in> set bs" "reqsize n \<le> unat l"
  obtains a m' bs' where "getmem n m = Some (a, m')" "heap_ok m' bs'" "{unat a..<unat a + reqsize n} \<subseteq> free_bytes bs"
    "free_bytes bs' = free_bytes bs - {unat a..<unat a + reqsize n}" "minheap m' = minheap m" "maxheap m' = maxheap m"
    "minheap m \<le> a" "unat a + reqsize n \<le> unat (maxheap m)" "a \<noteq> 0"
proof -
  note O = heap_okD [OF ok] and Q = roundmb_request [OF n]
  have mx: "unat (maxheap m) < 2 ^ 32" by (rule unat_bound)
  have "ff_alloc (roundmb n) bs \<noteq> None" unfolding ff_alloc_None using c Q(1) by (force simp: wless)
  then obtain a bs' where al: "ff_alloc (roundmb n) bs = Some (a, bs')" by fastforce
  obtain m' where m': "getmem n m = Some (a, m')" "mabs m' bs'" "minheap m' = minheap m" "maxheap m' = maxheap m"
    using getmem_some [OF O(1,2) mx n(1) refl Q(2) al] by auto
  note A = ff_alloc_ok [OF O(2) mx Q(2,3) al, unfolded extent_def Q(1)]
  have h: "heap_ok m' bs'" using m' A(1) ok by (simp add: heap_ok_def)
  have z: "0 < reqsize n" using Q(1,2) by (simp add: wless)
  have "{unat a..<unat a + reqsize n} \<subseteq> {unat (minheap m)..<unat (maxheap m)}" using A(2) free_bytes_range [OF O(2)] by blast
  then have "unat (minheap m) \<le> unat a" "unat a + reqsize n \<le> unat (maxheap m)" using z by auto
  moreover have "a \<noteq> 0" using calculation(1) O(3) by auto
  ultimately show thesis using that [OF m'(1) h A(2,3) m'(3,4)] by (simp add: word_le_nat_alt)
qed

lemma freemem_law:
  assumes "heap_ok m bs" and "minheap m \<le> b" and "nbytes \<noteq> 0" and "unat nbytes \<le> 2 ^ 32 - 8"
    and "unat b + reqsize nbytes \<le> unat (maxheap m)"
  shows "if {unat b..<unat b + reqsize nbytes} \<inter> free_bytes bs \<noteq> {}
    then freemem b nbytes m = Some (SYSERR, m)
    else \<exists>m' bs'. freemem b nbytes m = Some (OK, m') \<and> heap_ok m' bs' \<and>
           free_bytes bs' = free_bytes bs \<union> {unat b..<unat b + reqsize nbytes} \<and>
           minheap m' = minheap m \<and> maxheap m' = maxheap m"
proof -
  let ?n = "roundmb nbytes"
  note R = roundmb_request [OF assms(3,4)] and H = heap_okD [OF assms(1)]
  have e: "extent b ?n = {unat b..<unat b + reqsize nbytes}" by (simp add: extent_def R)
  have mx: "unat (maxheap m) < 2 ^ 32" by (rule unat_bound)
  have "unat (minheap m) \<le> unat b" using assms(2) by (simp add: wle)
  then have B: "case blk_free b ?n bs of None \<Rightarrow> extent b ?n \<inter> free_bytes bs \<noteq> {}
    | Some bs' \<Rightarrow> extent b ?n \<inter> free_bytes bs = {} \<and>
        wf_blocks (unat (minheap m)) (unat (maxheap m)) bs' \<and> free_bytes bs' = free_bytes bs \<union> extent b ?n"
    using blk_free_ok [OF H(2) mx] R assms(5) by (simp add: wless)
  show ?thesis
    using freemem_heap [OF assms] B assms(1) unfolding e
    by (auto simp: freed_to_def heap_ok_def split: option.splits)
qed

text \<open>
  C3. \<^verbatim>\<open>freemem\<close> of a block inside the heap refuses, changing nothing, exactly when one of
  the block's bytes is already free; otherwise it returns \<^verbatim>\<open>OK\<close>, exactly the block's bytes
  join the free ones, and the list stays sorted, merged and well formed.
\<close>

theorem freemem_releases:
  assumes "heap_ok m bs" and "minheap m \<le> b" and "nbytes \<noteq> 0" and "unat nbytes \<le> 2 ^ 32 - 8"
    and "unat b + reqsize nbytes \<le> unat (maxheap m)"
  shows "if {unat b..<unat b + reqsize nbytes} \<inter> free_bytes bs \<noteq> {}
    then freemem b nbytes m = Some (SYSERR, m)
    else \<exists>m' bs'. freemem b nbytes m = Some (OK, m') \<and> heap_ok m' bs' \<and>
           free_bytes bs' = free_bytes bs \<union> {unat b..<unat b + reqsize nbytes}"
  using freemem_law [OF assms] by (auto split: if_splits)

theorem freemem_releases_witness:
  "freemem 0x1800 16 (meminit 0x1000 0x2000 mem_zero) = Some (SYSERR, meminit 0x1000 0x2000 mem_zero)"
proof -
  have "{unat (0x1800 :: uint32)..<unat (0x1800 :: uint32) + reqsize 16} \<inter> free_bytes [(0x1000, 0x1000)] \<noteq> {}"
    by (simp add: extent_def reqsize_def)
  then show ?thesis
    using freemem_releases [OF mem_example_ok, of "0x1800" 16]
    by (simp add: meminit_def Let_def reqsize_def)
qed

lemma getmem_law:
  assumes "heap_ok m bs" and "nbytes \<noteq> 0" and "unat nbytes \<le> 2 ^ 32 - 8"
    and "getmem nbytes m = Some (a, m')" and "a \<noteq> SYSERR_PTR"
  shows "\<exists>bs'. heap_ok m' bs' \<and> {unat a..<unat a + reqsize nbytes} \<subseteq> free_bytes bs \<and>
     free_bytes bs' = free_bytes bs - {unat a..<unat a + reqsize nbytes}"
  using getmem_cases [OF assms(1-3)] assms(4,5) by auto

lemma free_again:
  assumes ok1: "heap_ok m1 bs1" and ok: "heap_ok m bs"
    and fr: "mlength (memlist m1) = mlength (memlist m) - roundmb nbytes"
      "minheap m1 = minheap m" "maxheap m1 = maxheap m"
    and nz: "nbytes \<noteq> 0" "unat nbytes \<le> 2 ^ 32 - 8"
    and e: "extent a (roundmb nbytes) \<subseteq> free_bytes bs" "extent a (roundmb nbytes) \<inter> free_bytes bs1 = {}"
      "free_bytes bs1 \<union> extent a (roundmb nbytes) = free_bytes bs"
  shows "\<exists>m2. freemem a nbytes m1 = Some (OK, m2) \<and> heap_ok m2 bs \<and> mlength (memlist m2) = mlength (memlist m)"
proof -
  let ?n = "roundmb nbytes"
  note R = roundmb_request [OF nz] and H = heap_okD [OF ok] and H1 = heap_okD [OF ok1]
  have mx: "unat (maxheap m) < 2 ^ 32" by (rule unat_bound)
  have u: "unat a \<in> extent a ?n" "unat a + unat ?n - 1 \<in> extent a ?n" using R(2) by (auto simp: extent_def wless)
  then have in_heap: "unat (minheap m) \<le> unat a" "unat a + unat ?n \<le> unat (maxheap m)"
    using e(1) free_bytes_range [OF H(2)] by fastforce+
  have "wf_blocks (unat (minheap m)) (unat (maxheap m)) bs1" using H1(2) fr by simp
  then have B: "case blk_free a ?n bs1 of None \<Rightarrow> extent a ?n \<inter> free_bytes bs1 \<noteq> {}
    | Some bs' \<Rightarrow> extent a ?n \<inter> free_bytes bs1 = {} \<and>
        wf_blocks (unat (minheap m)) (unat (maxheap m)) bs' \<and> free_bytes bs' = free_bytes bs1 \<union> extent a ?n"
    using blk_free_ok [OF _ mx in_heap] R(2,3) by (simp add: wless)
  then obtain bs' where bs': "blk_free a ?n bs1 = Some bs'"
      "wf_blocks (unat (minheap m)) (unat (maxheap m)) bs'" "free_bytes bs' = free_bytes bs"
    using e by (auto split: option.splits)
  then have "bs' = bs" using wf_blocks_canonical H(2) by blast
  with bs' show ?thesis
    using freemem_heap [OF ok1 _ nz, of a] in_heap fr R(1) ok
    by (auto simp: freed_to_def heap_ok_def wle)
qed

text \<open>
  Round trip: releasing what \<^verbatim>\<open>getmem\<close> returned, with the same size, brings back the
  very free list from before, whatever was split in between.
\<close>

theorem getmem_freemem_roundtrip:
  assumes "heap_ok m bs" and "nbytes \<noteq> 0" and "unat nbytes \<le> 2 ^ 32 - 8"
    and "getmem nbytes m = Some (a, m1)" and "a \<noteq> SYSERR_PTR"
  shows "\<exists>m2. freemem a nbytes m1 = Some (OK, m2) \<and> heap_ok m2 bs \<and>
    mlength (memlist m2) = mlength (memlist m)"
proof -
  let ?n = "roundmb nbytes"
  note R = roundmb_request [OF assms(2,3)] and H = heap_okD [OF assms(1)]
  have mx: "unat (maxheap m) < 2 ^ 32" by (rule unat_bound)
  have "ff_alloc ?n bs \<noteq> None"
    using getmem_none [OF H(1) assms(2)] assms(4,5) by (metis Pair_inject option.inject)
  then obtain a' bs1 where "ff_alloc ?n bs = Some (a', bs1)" by (metis not_None_eq surj_pair)
  then have al: "ff_alloc ?n bs = Some (a, bs1)" and m1: "mabs m1 bs1" "minheap m1 = minheap m"
      "maxheap m1 = maxheap m" "mlength (memlist m1) = mlength (memlist m) - ?n"
    using getmem_some [OF H(1,2) mx assms(2) refl R(2)] assms(4) by auto
  note A = ff_alloc_ok [OF H(2) mx R(2,3) al]
  have ok1: "heap_ok m1 bs1" using m1 A(1) assms(1) by (simp add: heap_ok_def)
  show ?thesis
    by (rule free_again [OF ok1 assms(1) m1(4,2,3) assms(2,3)]) (use A in auto)
qed

theorem getmem_freemem_roundtrip_witness:
  "\<exists>m1 m2. getmem 100 (meminit 0x1000 0x2000 mem_zero) = Some (0x1000, m1) \<and>
     freemem 0x1000 100 m1 = Some (OK, m2) \<and> heap_ok m2 [(0x1000, 0x1000)]"
proof -
  have "ff_alloc (roundmb 100) [(0x1000, 0x1000)] = Some (0x1000, [(0x1068, 0xF98)])"
    by (simp add: roundmb_def)
  then obtain m1 where m1: "getmem 100 (meminit 0x1000 0x2000 mem_zero) = Some (0x1000, m1)"
    using getmem_some [OF heap_okD(1) [OF mem_example_ok] heap_okD(2) [OF mem_example_ok] unat_bound,
        of 100 "roundmb 100"]
    by (auto simp: roundmb_def)
  then show ?thesis
    using getmem_freemem_roundtrip [OF mem_example_ok _ _ m1] by (auto simp: SYSERR_PTR_def)
qed


section \<open>The allocator as an interface\<close>

text \<open>
  What the rest of the kernel relies on: a successful request takes its bytes out of the
  free ones. Any sequence of successful requests, of whatever kinds, then returns pairwise
  disjoint regions.
\<close>

primrec allocs :: "('r \<Rightarrow> 'm \<Rightarrow> ('a \<times> 'm) option) \<Rightarrow> 'r list \<Rightarrow> 'm \<Rightarrow> ('a list \<times> 'm) option" where
  "allocs alloc [] m = Some ([], m)"
| "allocs alloc (r # rs) m =
     do { (a, m1) \<leftarrow> alloc r m; (as, m2) \<leftarrow> allocs alloc rs m1; Some (a # as, m2) }"

locale allocator =
  fixes ok :: "'m \<Rightarrow> 'b \<Rightarrow> bool"
    and bytes :: "'b \<Rightarrow> nat set"
    and alloc :: "'r \<Rightarrow> 'm \<Rightarrow> ('a \<times> 'm) option"
    and valid :: "'r \<Rightarrow> bool"
    and good :: "'a \<Rightarrow> bool"
    and region :: "'r \<Rightarrow> 'a \<Rightarrow> nat set"
  assumes alloc_takes:
    "ok m bs \<Longrightarrow> valid r \<Longrightarrow> alloc r m = Some (a, m') \<Longrightarrow> good a \<Longrightarrow>
     \<exists>bs'. ok m' bs' \<and> region r a \<subseteq> bytes bs \<and> bytes bs' = bytes bs - region r a"
begin

lemma allocs_disjoint:
  assumes "ok m bs" and "\<forall>r\<in>set rs. valid r" and "allocs alloc rs m = Some (as, m')" and "\<forall>a\<in>set as. good a"
  shows "length as = length rs \<and>
    (\<forall>i<length rs. region (rs ! i) (as ! i) \<subseteq> bytes bs) \<and>
    (\<forall>i j. i < j \<longrightarrow> j < length rs \<longrightarrow> region (rs ! i) (as ! i) \<inter> region (rs ! j) (as ! j) = {})"
  using assms
proof (induction rs arbitrary: m bs as)
  case Nil
  then show ?case by simp
next
  case (Cons r rs)
  obtain a m1 as1 where a: "alloc r m = Some (a, m1)" "allocs alloc rs m1 = Some (as1, m')" "as = a # as1"
    using Cons.prems(3) by (auto split: Option.bind_splits)
  obtain bs1 where bs1: "ok m1 bs1" "region r a \<subseteq> bytes bs" "bytes bs1 = bytes bs - region r a"
    using alloc_takes [OF Cons.prems(1) _ a(1)] Cons.prems a(3) by auto
  have IH: "length as1 = length rs" "\<forall>i<length rs. region (rs ! i) (as1 ! i) \<subseteq> bytes bs1"
    "\<forall>i j. i < j \<longrightarrow> j < length rs \<longrightarrow> region (rs ! i) (as1 ! i) \<inter> region (rs ! j) (as1 ! j) = {}"
    using Cons.IH [OF bs1(1) _ a(2)] Cons.prems a(3) by auto
  have "region r a \<inter> region (rs ! j) (as1 ! j) = {}" if "j < length rs" for j
    using IH(2) that bs1(3) by blast
  then show ?case
    using IH bs1 a(3) by (auto simp: nth_Cons split: nat.splits)
qed

end

text \<open>The two allocation calls, in any order.\<close>

datatype areq = GetMem uint32 | GetStk uint32

fun serve :: "areq \<Rightarrow> memstate \<Rightarrow> (uint32 \<times> memstate) option" where
  "serve (GetMem n) m = getmem n m"
| "serve (GetStk n) m = getstk n m"

fun valid_req :: "areq \<Rightarrow> bool" where
  "valid_req (GetMem n) \<longleftrightarrow> n \<noteq> 0 \<and> unat n \<le> 2 ^ 32 - 8"
| "valid_req (GetStk n) \<longleftrightarrow> n \<noteq> 0 \<and> unat n \<le> 2 ^ 32 - 8"

text \<open>\<^verbatim>\<open>getmem\<close> returns the lowest word of the region, \<^verbatim>\<open>getstk\<close> the highest.\<close>

fun req_region :: "areq \<Rightarrow> uint32 \<Rightarrow> nat set" where
  "req_region (GetMem n) a = {unat a..<unat a + reqsize n}"
| "req_region (GetStk n) a = {unat a + 4 - reqsize n..<unat a + 4}"

lemma getstk_success:
  assumes ok: "heap_ok m bs" and v: "nbytes \<noteq> 0" "unat nbytes \<le> 2 ^ 32 - 8"
    and al: "lf_alloc (roundmb nbytes) bs = Some (r, bs')"
  obtains m' where "getstk nbytes m = Some (r + roundmb nbytes - 4, m')" "r + roundmb nbytes - 4 \<noteq> SYSERR_PTR"
    "unat (r + roundmb nbytes - 4) + 4 = unat r + reqsize nbytes" "heap_ok m' bs'"
    "mlength (memlist m') = mlength (memlist m) - roundmb nbytes" "minheap m' = minheap m" "maxheap m' = maxheap m"
    "extent r (roundmb nbytes) \<subseteq> free_bytes bs" "free_bytes bs' = free_bytes bs - extent r (roundmb nbytes)"
proof -
  let ?n = "roundmb nbytes" and ?a = "r + roundmb nbytes - 4"
  note R = roundmb_request [OF v] and H = heap_okD [OF ok]
  have mx: "unat (maxheap m) < 2 ^ 32" by (rule unat_bound)
  obtain m' where m': "getstk nbytes m = Some (?a, m')" "mabs m' bs'" "minheap m' = minheap m" "maxheap m' = maxheap m"
      "mlength (memlist m') = mlength (memlist m) - ?n"
    using getstk_some [OF H(1,2) v(1) refl al] by auto
  note A = lf_alloc_ok [OF H(2) mx R(2,3) al]
  have n8: "8 \<le> unat ?n" using R(2,3) by (simp add: wless dvd_imp_le)
  then have "unat r + unat ?n - 1 \<in> extent r ?n" by (auto simp: extent_def)
  then have top: "unat r + unat ?n \<le> unat (maxheap m)" using A(2) free_bytes_range [OF H(2)] n8 by fastforce
  then have u: "unat (r + ?n) = unat r + unat ?n" using mx by (intro unat_add_noovf) simp
  then have ua: "unat ?a = unat r + unat ?n - 4" using n8 by (subst unat_sub_le) (auto simp: wle)
  have "unat ?a \<noteq> unat SYSERR_PTR" using ua top mx by (simp add: SYSERR_PTR_def unsigned_minus_1_eq_mask mask_eq_exp_minus_1)
  then have "?a \<noteq> SYSERR_PTR" by auto
  moreover have "unat ?a + 4 = unat r + reqsize nbytes" using ua n8 R(1) by simp
  moreover have "heap_ok m' bs'" using m' A(1) ok by (simp add: heap_ok_def)
  ultimately show thesis using that m' A(2,3) by blast
qed

lemma getstk_takes:
  assumes ok: "heap_ok m bs" and v: "nbytes \<noteq> 0" "unat nbytes \<le> 2 ^ 32 - 8"
    and g: "getstk nbytes m = Some (a, m')" "a \<noteq> SYSERR_PTR"
  shows "\<exists>r bs'. lf_alloc (roundmb nbytes) bs = Some (r, bs') \<and> a = r + roundmb nbytes - 4 \<and>
    unat a + 4 = unat r + reqsize nbytes \<and> heap_ok m' bs' \<and>
    mlength (memlist m') = mlength (memlist m) - roundmb nbytes \<and> minheap m' = minheap m \<and> maxheap m' = maxheap m \<and>
    extent r (roundmb nbytes) \<subseteq> free_bytes bs \<and> free_bytes bs' = free_bytes bs - extent r (roundmb nbytes)"
proof -
  have "lf_alloc (roundmb nbytes) bs \<noteq> None"
    using getstk_none [OF heap_okD(1) [OF ok] v(1)] g by (metis Pair_inject option.inject)
  then obtain r bs' where al: "lf_alloc (roundmb nbytes) bs = Some (r, bs')" by (metis not_None_eq surj_pair)
  show ?thesis by (rule getstk_success [OF ok v al]) (use al g in auto)
qed

lemma getstk_cases:
  assumes ok: "heap_ok m bs" and v: "nbytes \<noteq> 0" "unat nbytes \<le> 2 ^ 32 - 8"
  obtains "getstk nbytes m = Some (SYSERR_PTR, m)"
  | a m' bs' where "getstk nbytes m = Some (a, m')" "a \<noteq> SYSERR_PTR" "heap_ok m' bs'"
      "minheap m' = minheap m" "maxheap m' = maxheap m"
      "{unat a + 4 - reqsize nbytes..<unat a + 4} \<subseteq> free_bytes bs"
      "free_bytes bs' = free_bytes bs - {unat a + 4 - reqsize nbytes..<unat a + 4}"
proof (cases "lf_alloc (roundmb nbytes) bs")
  case None
  then show thesis using that(1) getstk_none [OF heap_okD(1) [OF ok] v(1)] by blast
next
  case (Some rb)
  then obtain r bs' where al: "lf_alloc (roundmb nbytes) bs = Some (r, bs')" by (cases rb) auto
  let ?a = "r + roundmb nbytes - 4"
  obtain m' where g: "getstk nbytes m = Some (?a, m')" "?a \<noteq> SYSERR_PTR"
      "unat ?a + 4 = unat r + reqsize nbytes" "heap_ok m' bs'"
      "minheap m' = minheap m" "maxheap m' = maxheap m"
      "extent r (roundmb nbytes) \<subseteq> free_bytes bs" "free_bytes bs' = free_bytes bs - extent r (roundmb nbytes)"
    by (rule getstk_success [OF ok v al])
  have "extent r (roundmb nbytes) = {unat ?a + 4 - reqsize nbytes..<unat ?a + 4}"
    using g(3) roundmb_request(1) [OF v] by (simp add: extent_def)
  then show thesis using that(2) [OF g(1,2,4-6)] g(7,8) by simp
qed

interpretation heap: allocator heap_ok free_bytes serve valid_req "\<lambda>a. a \<noteq> SYSERR_PTR" req_region
proof
  fix m bs r a m'
  assume h: "heap_ok m bs" "valid_req r" "serve r m = Some (a, m')" "a \<noteq> SYSERR_PTR"
  show "\<exists>bs'. heap_ok m' bs' \<and> req_region r a \<subseteq> free_bytes bs \<and> free_bytes bs' = free_bytes bs - req_region r a"
  proof (cases r)
    case (GetMem n)
    then have v: "n \<noteq> 0" "unat n \<le> 2 ^ 32 - 8" and g: "getmem n m = Some (a, m')" using h by auto
    show ?thesis
      using getmem_law [OF h(1) v g h(4)] GetMem by auto
  next
    case (GetStk n)
    then have v: "n \<noteq> 0" "unat n \<le> 2 ^ 32 - 8" and g: "getstk n m = Some (a, m')" using h by auto
    then obtain r' bs' where s: "unat a + 4 = unat r' + reqsize n" "heap_ok m' bs'"
      "extent r' (roundmb n) \<subseteq> free_bytes bs" "free_bytes bs' = free_bytes bs - extent r' (roundmb n)"
      using getstk_takes [OF h(1) v g h(4)] by blast
    have "req_region r a = extent r' (roundmb n)"
      using GetStk s(1) roundmb_request(1) [OF v] by (simp add: extent_def)
    then show ?thesis using s by auto
  qed
qed

text \<open>
  C2. Any sequence of successful \<^verbatim>\<open>getmem\<close> and \<^verbatim>\<open>getstk\<close> calls, in any order, each for a request of at least 1 and at most
  \<open>2 ^ 32 - 8\<close> bytes, hands out pairwise disjoint regions, all of them made of bytes that were free at the start: heap
  blocks and process stacks never overlap. For larger requests this is false: their size wraps to 0 when it is rounded up, so that
  \<^verbatim>\<open>getmem\<close> grants them without taking anything from the free list.
\<close>

theorem allocations_disjoint:
  assumes "heap_ok m bs" and "\<forall>r\<in>set rs. valid_req r" and "allocs serve rs m = Some (as, m')"
    and "\<forall>a\<in>set as. a \<noteq> SYSERR_PTR"
  shows "(\<forall>i<length rs. req_region (rs ! i) (as ! i) \<subseteq> free_bytes bs) \<and>
    (\<forall>i j. i < j \<longrightarrow> j < length rs \<longrightarrow> req_region (rs ! i) (as ! i) \<inter> req_region (rs ! j) (as ! j) = {})"
  using heap.allocs_disjoint [OF assms] by blast

theorem allocations_disjoint_witness:
  "\<exists>m'. allocs serve [GetMem 100, GetStk 64] (meminit 0x1000 0x2000 mem_zero) = Some ([0x1000, 0x1FFC], m') \<and>
     req_region (GetMem 100) 0x1000 \<inter> req_region (GetStk 64) 0x1FFC = {}"
proof -
  let ?m = "meminit 0x1000 0x2000 mem_zero"
  have "ff_alloc (roundmb 100) [(0x1000, 0x1000)] = Some (0x1000, [(0x1068, 0xF98)])"
    by (simp add: roundmb_def)
  then obtain m1 where m1: "getmem 100 ?m = Some (0x1000, m1)" "mabs m1 [(0x1068, 0xF98)]"
    using getmem_some [OF heap_okD(1) [OF mem_example_ok] heap_okD(2) [OF mem_example_ok] unat_bound,
        of 100 "roundmb 100"]
    by (auto simp: roundmb_def)
  have "lf_alloc (roundmb 64) [(0x1068, 0xF98)] = Some (0x1FC0, [(0x1068, 0xF58)])"
    by (simp add: roundmb_def)
  then obtain m' where m': "getstk 64 m1 = Some (0x1FFC, m')"
    using getstk_some [OF m1(2) _ _ refl, where nbytes = 64 and lo = 0 and hi = "0x2000"]
    by (auto simp: roundmb_def)
  have al: "allocs serve [GetMem 100, GetStk 64] ?m = Some ([0x1000, 0x1FFC], m')"
    using m1 m' by simp
  have "\<forall>r\<in>set [GetMem 100, GetStk 64]. valid_req r" "\<forall>a\<in>set [0x1000, 0x1FFC]. a \<noteq> SYSERR_PTR"
    by (simp_all add: SYSERR_PTR_def)
  note D = conjunct2 [OF allocations_disjoint [OF mem_example_ok this(1) al this(2)], rule_format, of 0 1]
  have "req_region (GetMem 100) 0x1000 \<inter> req_region (GetStk 64) 0x1FFC = {}"
    using D by (simp del: req_region.simps)
  with al show ?thesis by blast
qed

text \<open>
  Stack round trip: \<^verbatim>\<open>freestk\<close> of what \<^verbatim>\<open>getstk\<close> returned, with the same length, brings
  the free list back as it was. This is what a process's creation and death do.
\<close>

theorem getstk_freestk_roundtrip:
  assumes "heap_ok m bs" and "nbytes \<noteq> 0" and "unat nbytes \<le> 2 ^ 32 - 8"
    and "getstk nbytes m = Some (a, m1)" and "a \<noteq> SYSERR_PTR"
  shows "\<exists>m2. freestk a nbytes m1 = Some (OK, m2) \<and> heap_ok m2 bs \<and> mlength (memlist m2) = mlength (memlist m)"
proof -
  let ?n = "roundmb nbytes"
  note R = roundmb_request [OF assms(2,3)] and H = heap_okD [OF assms(1)]
  obtain r bs1 where s: "a = r + ?n - 4" "unat a + 4 = unat r + reqsize nbytes" "heap_ok m1 bs1"
    "mlength (memlist m1) = mlength (memlist m) - ?n" "minheap m1 = minheap m" "maxheap m1 = maxheap m"
    "extent r ?n \<subseteq> free_bytes bs" "free_bytes bs1 = free_bytes bs - extent r ?n"
    using getstk_takes [OF assms] by blast
  have addr: "a - ?n + 4 = r" using s(1) by simp
  have nz: "?n \<noteq> 0" "unat ?n \<le> 2 ^ 32 - 8" and rn: "roundmb ?n = ?n"
    using R(2) assms(3) roundmb_idem [OF assms(3)] by (auto simp: unat_roundmb)
  have "extent r ?n \<inter> free_bytes bs1 = {}" "free_bytes bs1 \<union> extent r ?n = free_bytes bs" using s by auto
  then show ?thesis
    unfolding freestk_def addr
    using free_again [OF s(3) assms(1) _ s(5,6) nz, of r] s(4,7) by (simp add: rn)
qed

theorem getstk_freestk_roundtrip_witness:
  "\<exists>m1 m2. getstk 64 (meminit 0x1000 0x2000 mem_zero) = Some (0x1FFC, m1) \<and>
     freestk 0x1FFC 64 m1 = Some (OK, m2) \<and> heap_ok m2 [(0x1000, 0x1000)]"
proof -
  have "lf_alloc (roundmb 64) [(0x1000, 0x1000)] = Some (0x1FC0, [(0x1000, 0xFC0)])"
    by (simp add: roundmb_def)
  then obtain m1 where m1: "getstk 64 (meminit 0x1000 0x2000 mem_zero) = Some (0x1FFC, m1)"
    using getstk_some [OF heap_okD(1,2) [OF mem_example_ok] _ refl, where nbytes = 64]
    by (auto simp: roundmb_def)
  then show ?thesis
    using getstk_freestk_roundtrip [OF mem_example_ok _ _ m1] by (auto simp: SYSERR_PTR_def)
qed

text \<open>
  C21. A request of more than \<open>2 ^ 32 - 8\<close> bytes is not refused: \<^verbatim>\<open>roundmb\<close> wraps to 0, so
  \<^verbatim>\<open>getmem\<close> returns the address of the first free block and leaves the free list as it was.
  The caller is told it owns memory that stays free.
\<close>

theorem getmem_huge_request:
  assumes "heap_ok m ((a, l) # bs)" and "2 ^ 32 - 8 < unat nbytes"
  shows "\<exists>m'. getmem nbytes m = Some (a, m') \<and> heap_ok m' ((a, l) # bs)"
proof -
  have "unat (7 + nbytes) = unat nbytes + 7 - 2 ^ 32"
    using assms(2) unat_bound [of nbytes] by (simp add: unat_word_ariths mod_if)
  then have "unat (roundmb nbytes) = 0"
    unfolding roundmb_def unat_and_not_7 using unat_bound [of nbytes] by simp
  then have n0: "roundmb nbytes = 0" by (simp add: weq)
  have nz: "nbytes \<noteq> 0" using assms(2) by auto
  note H = heap_okD [OF assms(1)]
  have h: "mnext (memlist m) = a" "a \<noteq> 0" "mlength (mheap m a) = l" "0 < l"
    and p: "mpath (mheap m) (mnext (mheap m a)) bs 0"
    using H by (auto simp: mabs_def wless)
  have d: "a \<notin> fst ` set bs" using wf_blocks_distinct [OF H(2)] by auto
  have "\<exists>m'. getmem nbytes m = Some (a, m') \<and> mabs m' ((a, l) # bs) \<and> minheap m' = minheap m \<and> maxheap m' = maxheap m"
    using h p d nz by (subst getmem_def, subst getmem_loop.simps) (auto simp: n0 Let_def mabs_def)
  then show ?thesis using assms(1) by (auto simp: heap_ok_def)
qed

theorem getmem_huge_request_witness:
  "\<exists>m'. getmem 0xFFFFFFFF (meminit 0x1000 0x2000 mem_zero) = Some (0x1000, m') \<and> heap_ok m' [(0x1000, 0x1000)]"
  using getmem_huge_request [OF mem_example_ok, of "0xFFFFFFFF"] by simp

end
