(* ===== verification/Kernel_State.thy ===== *)
theory Kernel_State
  imports Memory
begin

text \<open>
  The global tables of the kernel: \<^verbatim>\<open>queuetab\<close> (\<^verbatim>\<open>include/queue.h\<close>), \<^verbatim>\<open>proctab\<close>
  (\<^verbatim>\<open>include/process.h\<close>), \<^verbatim>\<open>semtab\<close> (\<^verbatim>\<open>include/semaphore.h\<close>), the scheduler's
  deferral record (\<^verbatim>\<open>include/resched.h\<close>), the clock's counters, the static cursors of
  \<^verbatim>\<open>newqueue\<close>, \<^verbatim>\<open>newpid\<close> and \<^verbatim>\<open>newsem\<close>, the heap \<open>kmem\<close> and, as \<open>stkmem\<close>, the
  words \<^verbatim>\<open>create\<close> writes on the stacks it allocates.

  A C array is a function of its index: like C, the model has no bounds check of its own,
  and what keeps the indices inside the tables is the invariant of the theory
  \<^verbatim>\<open>Kernel_Invariant\<close>.
\<close>

section \<open>Table entries\<close>

record qentry =
  qkey :: int
  qnext :: qid16
  qprev :: qid16

type_synonym qtab = "int \<Rightarrow> qentry"

datatype pstate = PR_FREE | PR_CURR | PR_READY | PR_RECV | PR_SLEEP | PR_SUSP | PR_WAIT | PR_RECTIM

record procent =
  prstate :: pstate
  prprio :: pri16
  prstkptr :: uint32
  prstkbase :: uint32
  prstklen :: uint32
  prname :: string
  prsem :: sid32
  prparent :: pid32
  prmsg :: umsg32
  prhasmsg :: bool
  prdesc :: "did32 list"

datatype sstat = S_FREE | S_USED

record sentry =
  sstate :: sstat
  scount :: int
  squeue :: qid16

section \<open>The kernel's variables\<close>

record kstate =
  queuetab :: qtab
  nextqid :: qid16
  proctab :: "pid32 \<Rightarrow> procent"
  nextpid :: pid32
  prcount :: int
  currpid :: pid32
  readylist :: qid16
  semtab :: "sid32 \<Rightarrow> sentry"
  nextsem :: sid32
  ndefers :: int
  attempt :: bool
  sleepq :: qid16
  preempt :: int
  clktime :: int
  clkticks :: int
  kmem :: memstate
  stkmem :: "uint32 \<Rightarrow> uint32"

definition QUANTUM :: int where "QUANTUM = 2"
definition CLKTICKS_PER_SEC :: int where "CLKTICKS_PER_SEC = 1000"

section \<open>Accessors\<close>

definition isbadpid :: "kstate \<Rightarrow> pid32 \<Rightarrow> bool" where
  "isbadpid s x \<longleftrightarrow> x < 0 \<or> x \<ge> NPROC \<or> prstate (proctab s x) = PR_FREE"

definition isbadsem :: "sid32 \<Rightarrow> bool" where
  "isbadsem x \<longleftrightarrow> x < 0 \<or> x \<ge> NSEM"

definition upd_proc :: "pid32 \<Rightarrow> (procent \<Rightarrow> procent) \<Rightarrow> kstate \<Rightarrow> kstate" where
  "upd_proc p f s = s\<lparr>proctab := (proctab s)(p := f (proctab s p))\<rparr>"

definition upd_sem :: "sid32 \<Rightarrow> (sentry \<Rightarrow> sentry) \<Rightarrow> kstate \<Rightarrow> kstate" where
  "upd_sem i f s = s\<lparr>semtab := (semtab s)(i := f (semtab s i))\<rparr>"

abbreviation set_prstate :: "pid32 \<Rightarrow> pstate \<Rightarrow> kstate \<Rightarrow> kstate" where
  "set_prstate p st \<equiv> upd_proc p (prstate_update (\<lambda>_. st))"

lemma proctab_upd_proc [simp]: "proctab (upd_proc p f s) = (proctab s)(p := f (proctab s p))"
  by (simp add: upd_proc_def)

lemma semtab_upd_sem [simp]: "semtab (upd_sem i f s) = (semtab s)(i := f (semtab s i))"
  by (simp add: upd_sem_def)

lemma upd_proc_frame [simp]:
  "queuetab (upd_proc p f s) = queuetab s" "nextqid (upd_proc p f s) = nextqid s"
  "nextpid (upd_proc p f s) = nextpid s" "prcount (upd_proc p f s) = prcount s"
  "currpid (upd_proc p f s) = currpid s" "readylist (upd_proc p f s) = readylist s"
  "semtab (upd_proc p f s) = semtab s" "nextsem (upd_proc p f s) = nextsem s"
  "ndefers (upd_proc p f s) = ndefers s" "attempt (upd_proc p f s) = attempt s"
  "sleepq (upd_proc p f s) = sleepq s" "preempt (upd_proc p f s) = preempt s"
  "clktime (upd_proc p f s) = clktime s" "clkticks (upd_proc p f s) = clkticks s"
  "kmem (upd_proc p f s) = kmem s" "stkmem (upd_proc p f s) = stkmem s"
  by (simp_all add: upd_proc_def)

lemma upd_sem_frame [simp]:
  "queuetab (upd_sem p f s) = queuetab s" "nextqid (upd_sem p f s) = nextqid s"
  "nextpid (upd_sem p f s) = nextpid s" "prcount (upd_sem p f s) = prcount s"
  "currpid (upd_sem p f s) = currpid s" "readylist (upd_sem p f s) = readylist s"
  "proctab (upd_sem p f s) = proctab s" "nextsem (upd_sem p f s) = nextsem s"
  "ndefers (upd_sem p f s) = ndefers s" "attempt (upd_sem p f s) = attempt s"
  "sleepq (upd_sem p f s) = sleepq s" "preempt (upd_sem p f s) = preempt s"
  "clktime (upd_sem p f s) = clktime s" "clkticks (upd_sem p f s) = clkticks s"
  "kmem (upd_sem p f s) = kmem s" "stkmem (upd_sem p f s) = stkmem s"
  by (simp_all add: upd_sem_def)

lemma isbadpid_cong:
  "prstate (proctab t p) = prstate (proctab s p) \<Longrightarrow> isbadpid t p = isbadpid s p"
  by (simp add: isbadpid_def)

end
