(* ===== verification/Process_Queue.thy ===== *)
theory Process_Queue
  imports Kernel_State
begin

text \<open>
  The process queues of \<^verbatim>\<open>system/queue.c\<close>, \<^verbatim>\<open>newqueue.c\<close>, \<^verbatim>\<open>getitem.c\<close>,
  \<^verbatim>\<open>insert.c\<close> and \<^verbatim>\<open>insertd.c\<close>: doubly linked lists threaded through the one table
  \<^verbatim>\<open>queuetab\<close>, in which a process is its own node and every queue owns a head and a tail
  node. The operations are written over the table with the assignments in the code's order.
  The abstraction \<open>is_queue\<close> reads a queue as the list of its processes, and each operation
  is proved to be the list operation it stands for.
\<close>

section \<open>The table and its inline functions\<close>

definition set_qnext :: "int \<Rightarrow> int \<Rightarrow> qtab \<Rightarrow> qtab" where
  "set_qnext i v qt = qt(i := (qt i)\<lparr>qnext := v\<rparr>)"

definition set_qprev :: "int \<Rightarrow> int \<Rightarrow> qtab \<Rightarrow> qtab" where
  "set_qprev i v qt = qt(i := (qt i)\<lparr>qprev := v\<rparr>)"

definition set_qkey :: "int \<Rightarrow> int \<Rightarrow> qtab \<Rightarrow> qtab" where
  "set_qkey i v qt = qt(i := (qt i)\<lparr>qkey := v\<rparr>)"

definition queuehead :: "qid16 \<Rightarrow> int" where "queuehead q = q"

definition queuetail :: "qid16 \<Rightarrow> int" where "queuetail q = q + 1"

definition firstid :: "qtab \<Rightarrow> qid16 \<Rightarrow> int" where
  "firstid qt q = qnext (qt (queuehead q))"

definition lastid :: "qtab \<Rightarrow> qid16 \<Rightarrow> int" where
  "lastid qt q = qprev (qt (queuetail q))"

definition isempty :: "qtab \<Rightarrow> qid16 \<Rightarrow> bool" where
  "isempty qt q \<longleftrightarrow> firstid qt q \<ge> NPROC"

definition nonempty :: "qtab \<Rightarrow> qid16 \<Rightarrow> bool" where
  "nonempty qt q \<longleftrightarrow> firstid qt q < NPROC"

definition firstkey :: "qtab \<Rightarrow> qid16 \<Rightarrow> int" where
  "firstkey qt q = qkey (qt (firstid qt q))"

definition isbadqid :: "qid16 \<Rightarrow> bool" where
  "isbadqid x \<longleftrightarrow> x < 0 \<or> x \<ge> NQENT - 1"

section \<open>The operations\<close>

definition newqueue :: "kstate \<Rightarrow> qid16 \<times> kstate" where
  "newqueue s =
    (let q = nextqid s in
     if q > NQENT then (SYSERR, s)
     else
       let s1 = s\<lparr>nextqid := nextqid s + 2\<rparr>;
           qt1 = set_qnext (queuehead q) (queuetail q) (queuetab s1);
           qt2 = set_qprev (queuehead q) EMPTY qt1;
           qt3 = set_qkey (queuehead q) MAXKEY qt2;
           qt4 = set_qnext (queuetail q) EMPTY qt3;
           qt5 = set_qprev (queuetail q) (queuehead q) qt4;
           qt6 = set_qkey (queuetail q) MINKEY qt5
       in (q, s1\<lparr>queuetab := qt6\<rparr>))"

definition enqueue :: "pid32 \<Rightarrow> qid16 \<Rightarrow> kstate \<Rightarrow> pid32 \<times> kstate" where
  "enqueue pid q s =
    (if isbadqid q \<or> isbadpid s pid then (SYSERR, s)
     else
       let tail = queuetail q;
           prev = qprev (queuetab s tail);
           qt1 = set_qnext pid tail (queuetab s);
           qt2 = set_qprev pid prev qt1;
           qt3 = set_qnext prev pid qt2;
           qt4 = set_qprev tail pid qt3
       in (pid, s\<lparr>queuetab := qt4\<rparr>))"

definition getitem :: "pid32 \<Rightarrow> kstate \<Rightarrow> pid32 \<times> kstate" where
  "getitem pid s =
    (let next = qnext (queuetab s pid);
         prev = qprev (queuetab s pid);
         qt1 = set_qnext prev next (queuetab s);
         qt2 = set_qprev next prev qt1
     in (pid, s\<lparr>queuetab := qt2\<rparr>))"

definition getfirst :: "qid16 \<Rightarrow> kstate \<Rightarrow> pid32 \<times> kstate" where
  "getfirst q s =
    (if isempty (queuetab s) q then (EMPTY, s)
     else let head = queuehead q in getitem (qnext (queuetab s head)) s)"

definition getlast :: "qid16 \<Rightarrow> kstate \<Rightarrow> pid32 \<times> kstate" where
  "getlast q s =
    (if isempty (queuetab s) q then (EMPTY, s)
     else let tail = queuetail q in getitem (qprev (queuetab s tail)) s)"

definition dequeue :: "qid16 \<Rightarrow> kstate \<Rightarrow> pid32 \<times> kstate" where
  "dequeue q s =
    (if isbadqid q then (SYSERR, s)
     else if isempty (queuetab s) q then (EMPTY, s)
     else
       let (pid, s1) = getfirst q s;
           qt1 = set_qprev pid EMPTY (queuetab s1);
           qt2 = set_qnext pid EMPTY qt1
       in (pid, s1\<lparr>queuetab := qt2\<rparr>))"

text \<open>
  The scans of \<^verbatim>\<open>insert\<close> and \<^verbatim>\<open>insertd\<close> follow \<^verbatim>\<open>qnext\<close> with no bound of their own:
  on a table that is not a well formed queue they may run forever.
\<close>

partial_function (option) insert_scan :: "qtab \<Rightarrow> int \<Rightarrow> int \<Rightarrow> int option" where
  "insert_scan qt cur key =
    (if qkey (qt cur) \<ge> key then insert_scan qt (qnext (qt cur)) key else Some cur)"

definition insert_q :: "pid32 \<Rightarrow> qid16 \<Rightarrow> int \<Rightarrow> kstate \<Rightarrow> (int \<times> kstate) option" where
  "insert_q pid q key s =
    (if isbadqid q \<or> isbadpid s pid then Some (SYSERR, s)
     else do {
       cur \<leftarrow> insert_scan (queuetab s) (firstid (queuetab s) q) key;
       let prev = qprev (queuetab s cur);
           qt1 = set_qnext pid cur (queuetab s);
           qt2 = set_qprev pid prev qt1;
           qt3 = set_qkey pid key qt2;
           qt4 = set_qnext prev pid qt3;
           qt5 = set_qprev cur pid qt4
       in Some (OK, s\<lparr>queuetab := qt5\<rparr>)
     })"

partial_function (option) insertd_scan ::
  "qtab \<Rightarrow> qid16 \<Rightarrow> int \<Rightarrow> int \<Rightarrow> int \<Rightarrow> (int \<times> int \<times> int) option" where
  "insertd_scan qt q prev next key =
    (if next \<noteq> queuetail q \<and> qkey (qt next) \<le> key
     then insertd_scan qt q next (qnext (qt next)) (key - qkey (qt next))
     else Some (prev, next, key))"

definition insertd :: "pid32 \<Rightarrow> qid16 \<Rightarrow> int \<Rightarrow> kstate \<Rightarrow> (int \<times> kstate) option" where
  "insertd pid q key0 s =
    (if isbadqid q \<or> isbadpid s pid then Some (SYSERR, s)
     else do {
       (prev, next, key) \<leftarrow>
         insertd_scan (queuetab s) q (queuehead q) (qnext (queuetab s (queuehead q))) key0;
       let qt1 = set_qnext pid next (queuetab s);
           qt2 = set_qprev pid prev qt1;
           qt3 = set_qkey pid key qt2;
           qt4 = set_qnext prev pid qt3;
           qt5 = set_qprev next pid qt4;
           qt6 = (if next \<noteq> queuetail q then set_qkey next (qkey (qt5 next) - key) qt5 else qt5)
       in Some (OK, s\<lparr>queuetab := qt6\<rparr>)
     })"


section \<open>Reading and writing the table\<close>

lemma set_qnext_simps [simp]:
  "qnext (set_qnext i v qt j) = (if j = i then v else qnext (qt j))"
  "qprev (set_qnext i v qt j) = qprev (qt j)" "qkey (set_qnext i v qt j) = qkey (qt j)"
  by (simp_all add: set_qnext_def)

lemma set_qprev_simps [simp]:
  "qprev (set_qprev i v qt j) = (if j = i then v else qprev (qt j))"
  "qnext (set_qprev i v qt j) = qnext (qt j)" "qkey (set_qprev i v qt j) = qkey (qt j)"
  by (simp_all add: set_qprev_def)

lemma set_qkey_simps [simp]:
  "qkey (set_qkey i v qt j) = (if j = i then v else qkey (qt j))"
  "qnext (set_qkey i v qt j) = qnext (qt j)" "qprev (set_qkey i v qt j) = qprev (qt j)"
  by (simp_all add: set_qkey_def)

section \<open>Queues as lists\<close>

text \<open>
  \<open>linked qt ns\<close>: consecutive nodes of \<open>ns\<close> point at each other. A queue is the linked list
  of its head, its processes and its tail.
\<close>

fun linked :: "qtab \<Rightarrow> int list \<Rightarrow> bool" where
  "linked qt [] \<longleftrightarrow> True"
| "linked qt [x] \<longleftrightarrow> True"
| "linked qt (x # y # zs) \<longleftrightarrow> qnext (qt x) = y \<and> qprev (qt y) = x \<and> linked qt (y # zs)"

definition pids :: "int set" where "pids = {0..<NPROC}"

definition is_queue :: "qtab \<Rightarrow> qid16 \<Rightarrow> pid32 list \<Rightarrow> bool" where
  "is_queue qt q xs \<longleftrightarrow>
    NPROC \<le> q \<and> linked qt (q # xs @ [q + 1]) \<and> distinct xs \<and> set xs \<subseteq> pids"

definition keys :: "qtab \<Rightarrow> pid32 list \<Rightarrow> int list" where
  "keys qt xs = map (\<lambda>x. qkey (qt x)) xs"

definition key_sorted :: "qtab \<Rightarrow> pid32 list \<Rightarrow> bool" where
  "key_sorted qt xs \<longleftrightarrow> sorted_wrt (\<ge>) (keys qt xs)"

lemma mem_pids [simp]: "x \<in> pids \<longleftrightarrow> 0 \<le> x \<and> x < NPROC"
  by (auto simp: pids_def)

lemma linked_append:
  "linked qt (xs @ y # ys) \<longleftrightarrow> linked qt (xs @ [y]) \<and> linked qt (y # ys)"
proof (induction xs)
  case Nil
  then show ?case by simp
next
  case (Cons x xs)
  then show ?case by (cases xs) auto
qed

lemma linked_pair: "linked qt (xs @ x # y # ys) \<Longrightarrow> qnext (qt x) = y \<and> qprev (qt y) = x"
  by (simp add: linked_append [of qt xs x "y # ys"])

lemma linked_cong:
  assumes "linked qt ns"
    and "\<forall>x\<in>set (butlast ns). qnext (qt' x) = qnext (qt x)"
    and "\<forall>x\<in>set (tl ns). qprev (qt' x) = qprev (qt x)"
  shows "linked qt' ns"
  using assms
proof (induction qt ns rule: linked.induct)
  case (3 qt x y zs)
  then show ?case by (cases zs) auto
qed auto

lemma linked_frame:
  assumes "linked qt ns"
    and "\<And>x. x \<in> set ns \<Longrightarrow> qnext (qt' x) = qnext (qt x) \<and> qprev (qt' x) = qprev (qt x)"
  shows "linked qt' ns"
proof (rule linked_cong [OF assms(1)])
  show "\<forall>x\<in>set (butlast ns). qnext (qt' x) = qnext (qt x)"
    using assms(2) by (auto dest: in_set_butlastD)
  show "\<forall>x\<in>set (tl ns). qprev (qt' x) = qprev (qt x)"
    using assms(2) by (cases ns) auto
qed

lemma set_tl_subset: "set (tl xs) \<subseteq> set xs"
  by (cases xs) auto

lemma set_butlast_subset: "set (butlast xs) \<subseteq> set xs"
  by (auto dest: in_set_butlastD)

text \<open>The four writes that link a node in, and the two that take one out.\<close>

lemma linked_insert:
  assumes l: "linked qt (as @ p # n # bs)" and d: "distinct (as @ p # n # bs)"
    and x: "x \<notin> set (as @ p # n # bs)"
    and nx: "\<And>j. qnext (qt' j) = (if j = p then x else if j = x then n else qnext (qt j))"
    and pv: "\<And>j. qprev (qt' j) = (if j = n then x else if j = x then p else qprev (qt j))"
  shows "linked qt' (as @ p # x # n # bs)"
proof -
  have "linked qt (as @ [p])" and "linked qt (n # bs)"
    using l by (simp_all add: linked_append [of qt as p "n # bs"])
  then have 1: "linked qt' (as @ [p])" and 2: "linked qt' (n # bs)"
    using d x set_tl_subset [of "as @ [p]"] set_butlast_subset [of "n # bs"]
    by (auto elim!: linked_cong simp: nx pv simp del: butlast.simps)
  have "linked qt' (p # x # n # bs)"
    using 2 d x by (auto simp: nx pv)
  with 1 show ?thesis
    using linked_append by blast
qed

lemma linked_remove:
  assumes l: "linked qt (as @ p # x # n # bs)" and d: "distinct (as @ p # x # n # bs)"
    and nx: "\<And>j. qnext (qt' j) = (if j = p then n else qnext (qt j))"
    and pv: "\<And>j. qprev (qt' j) = (if j = n then p else qprev (qt j))"
  shows "linked qt' (as @ p # n # bs)"
proof -
  have "linked qt (as @ [p])" and "linked qt (n # bs)"
    using l linked_append [of qt as p "x # n # bs"] by simp_all
  then have 1: "linked qt' (as @ [p])" and 2: "linked qt' (n # bs)"
    using d set_tl_subset [of "as @ [p]"] set_butlast_subset [of "n # bs"]
    by (auto elim!: linked_cong simp: nx pv simp del: butlast.simps)
  have "linked qt' (p # n # bs)"
    using 2 d by (auto simp: nx pv)
  with 1 show ?thesis
    using linked_append by blast
qed


section \<open>The whole table\<close>

text \<open>
  \<open>qlist qt q\<close> follows \<^verbatim>\<open>qnext\<close> from the head of \<open>q\<close> and collects the processes it
  meets; no queue is longer than the process table, which bounds the walk. \<open>wf_qtab qt Qs\<close>
  says that the queues in \<open>Qs\<close> are all well formed and share no process.
\<close>

fun qwalk :: "nat \<Rightarrow> qtab \<Rightarrow> int \<Rightarrow> pid32 list" where
  "qwalk 0 qt i = []"
| "qwalk (Suc n) qt i = (if 0 \<le> i \<and> i < NPROC then i # qwalk n qt (qnext (qt i)) else [])"

definition qlist :: "qtab \<Rightarrow> qid16 \<Rightarrow> pid32 list" where
  "qlist qt q = qwalk (nat NPROC) qt (firstid qt q)"

definition wf_qtab :: "qtab \<Rightarrow> qid16 set \<Rightarrow> bool" where
  "wf_qtab qt Qs \<longleftrightarrow>
    (\<forall>q\<in>Qs. even q \<and> is_queue qt q (qlist qt q) \<and> qkey (qt (q + 1)) = MINKEY) \<and>
    (\<forall>q\<in>Qs. \<forall>r\<in>Qs. q \<noteq> r \<longrightarrow> set (qlist qt q) \<inter> set (qlist qt r) = {})"

definition queued :: "qtab \<Rightarrow> qid16 set \<Rightarrow> pid32 set" where
  "queued qt Qs = (\<Union>q\<in>Qs. set (qlist qt q))"

lemma is_queueD:
  assumes "is_queue qt q xs"
  shows "NPROC \<le> q" "linked qt (q # xs @ [q + 1])" "distinct xs" "\<And>x. x \<in> set xs \<Longrightarrow> 0 \<le> x \<and> x < NPROC"
  using assms by (auto simp: is_queue_def)

lemma is_queue_distinct_nodes: "is_queue qt q xs \<Longrightarrow> distinct (q # xs @ [q + 1])"
  by (force simp: is_queue_def subset_iff)

lemma is_queue_firstid: "is_queue qt q xs \<Longrightarrow> firstid qt q = hd (xs @ [q + 1])"
  by (cases xs) (auto simp: is_queue_def firstid_def queuehead_def)

lemma is_queue_lastid: "is_queue qt q xs \<Longrightarrow> lastid qt q = last (q # xs)"
proof (cases xs rule: rev_exhaust)
  case (snoc ys y)
  moreover assume "is_queue qt q xs"
  ultimately show ?thesis
    using linked_pair [of qt "q # ys" y "q + 1" "[]"]
    by (simp add: is_queue_def lastid_def queuetail_def)
qed (simp add: is_queue_def lastid_def queuetail_def)

lemma is_queue_isempty [simp]: "is_queue qt q xs \<Longrightarrow> isempty qt q \<longleftrightarrow> xs = []"
  by (cases xs) (auto simp: isempty_def is_queue_firstid dest: is_queueD)

lemma is_queue_nonempty [simp]: "is_queue qt q xs \<Longrightarrow> nonempty qt q \<longleftrightarrow> xs \<noteq> []"
  by (cases xs) (auto simp: nonempty_def is_queue_firstid dest: is_queueD)

lemma qwalk_linked:
  assumes "linked qt (xs @ [t])" and "set xs \<subseteq> pids" and "NPROC \<le> t" and "length xs \<le> n"
  shows "qwalk n qt (hd (xs @ [t])) = xs"
  using assms
proof (induction xs arbitrary: n)
  case Nil
  then show ?case by (cases n) auto
next
  case (Cons x xs)
  obtain m where n: "n = Suc m" using Cons.prems(4) by (cases n) auto
  have "linked qt (xs @ [t])" and "qnext (qt x) = hd (xs @ [t])"
    using Cons.prems(1) by (cases xs; simp)+
  then show ?case using Cons n by simp
qed

lemma is_queue_length: "is_queue qt q xs \<Longrightarrow> length xs \<le> nat NPROC"
proof -
  assume "is_queue qt q xs"
  then have "distinct xs" and "set xs \<subseteq> pids" by (auto dest: is_queueD)
  then have "card (set xs) \<le> card pids" by (intro card_mono) (simp_all add: pids_def)
  with \<open>distinct xs\<close> show ?thesis by (simp add: distinct_card pids_def)
qed

lemma is_queue_qlist: "is_queue qt q xs \<Longrightarrow> qlist qt q = xs"
proof -
  assume q: "is_queue qt q xs"
  then have "linked qt (xs @ [q + 1])" by (cases xs) (auto simp: is_queue_def)
  with q show ?thesis
    unfolding qlist_def is_queue_firstid [OF q]
    by (intro qwalk_linked) (auto simp: is_queue_def is_queue_length)
qed

lemma is_queue_frame:
  assumes "is_queue qt q xs"
    and "\<And>x. x \<in> set (q # xs @ [q + 1]) \<Longrightarrow> qnext (qt' x) = qnext (qt x) \<and> qprev (qt' x) = qprev (qt x)"
  shows "is_queue qt' q xs"
  using assms linked_frame [of qt "q # xs @ [q + 1]" qt'] by (simp add: is_queue_def)

lemma wf_qtabD:
  assumes "wf_qtab qt Qs" and "q \<in> Qs"
  shows "is_queue qt q (qlist qt q)" "even q" "qkey (qt (q + 1)) = MINKEY"
  using assms by (auto simp: wf_qtab_def)

lemma wf_qtab_disjoint:
  "wf_qtab qt Qs \<Longrightarrow> q \<in> Qs \<Longrightarrow> r \<in> Qs \<Longrightarrow> q \<noteq> r \<Longrightarrow> set (qlist qt q) \<inter> set (qlist qt r) = {}"
  by (auto simp: wf_qtab_def)

lemma wf_qtab_unique:
  "wf_qtab qt Qs \<Longrightarrow> q \<in> Qs \<Longrightarrow> r \<in> Qs \<Longrightarrow> x \<in> set (qlist qt q) \<Longrightarrow> x \<in> set (qlist qt r) \<Longrightarrow> q = r"
  using wf_qtab_disjoint by blast

text \<open>
  Replacing one queue: when \<open>q\<close> is rebuilt as \<open>ys\<close> from its own nodes and processes that
  were in no queue, and only those nodes are written, every other queue keeps its list.
\<close>

lemma wf_qtab_replace:
  assumes wf: "wf_qtab qt Qs" and q: "q \<in> Qs" and isq: "is_queue qt' q ys"
    and new: "set ys \<subseteq> set (qlist qt q) \<union> X" and X: "X \<inter> queued qt Qs = {}" "X \<subseteq> pids"
    and frame: "\<And>j. j \<notin> X \<union> set (q # qlist qt q @ [q + 1]) \<Longrightarrow>
                     qnext (qt' j) = qnext (qt j) \<and> qprev (qt' j) = qprev (qt j)"
    and key: "\<And>j. NPROC \<le> j \<Longrightarrow> qkey (qt' j) = qkey (qt j)"
  shows "wf_qtab qt' Qs" "qlist qt' q = ys" "\<And>r. r \<in> Qs \<Longrightarrow> r \<noteq> q \<Longrightarrow> qlist qt' r = qlist qt r"
proof -
  show ys: "qlist qt' q = ys" using isq by (rule is_queue_qlist)
  have other: "is_queue qt' r (qlist qt r)" if r: "r \<in> Qs" "r \<noteq> q" for r
  proof (rule is_queue_frame [OF wf_qtabD(1) [OF wf r(1)]], rule frame)
    fix x assume x: "x \<in> set (r # qlist qt r @ [r + 1])"
    have "even r" "even q" "NPROC \<le> r" "NPROC \<le> q" and disj: "set (qlist qt r) \<inter> set (qlist qt q) = {}"
      using wf q r by (auto dest: wf_qtabD is_queueD wf_qtab_disjoint)
    moreover from this have "r \<noteq> q + 1" "r + 1 \<noteq> q" "r + 1 \<noteq> q + 1" using r by auto
    moreover have "\<And>y. y \<in> set (qlist qt q) \<union> set (qlist qt r) \<union> X \<Longrightarrow> y < NPROC"
      using wf_qtabD(1) [OF wf q] wf_qtabD(1) [OF wf r(1)] X(2) by (auto dest: is_queueD)
    ultimately show "x \<notin> X \<union> set (q # qlist qt q @ [q + 1])"
      using x r X(1) by (fastforce simp: queued_def)
  qed
  then show qr: "\<And>r. r \<in> Qs \<Longrightarrow> r \<noteq> q \<Longrightarrow> qlist qt' r = qlist qt r"
    by (rule is_queue_qlist)
  have disj: "set ys \<inter> set (qlist qt r) = {}" if "r \<in> Qs" "r \<noteq> q" for r
    using that new X(1) wf_qtab_disjoint [OF wf q that(1)] by (auto simp: queued_def)
  show "wf_qtab qt' Qs"
    unfolding wf_qtab_def
  proof (intro conjI ballI impI)
    fix r assume r: "r \<in> Qs"
    show "even r" using wf r by (rule wf_qtabD)
    show "is_queue qt' r (qlist qt' r)"
      using isq ys other qr r by (cases "r = q") auto
    show "qkey (qt' (r + 1)) = MINKEY"
      using key [of "r + 1"] wf_qtabD [OF wf r] by (auto dest: is_queueD)
  next
    fix r u assume "r \<in> Qs" "u \<in> Qs" "r \<noteq> u"
    then show "set (qlist qt' r) \<inter> set (qlist qt' u) = {}"
      using disj ys qr wf_qtab_disjoint [OF wf, of r u]
      by (cases "r = q"; cases "u = q") auto
  qed
qed


section \<open>What the operations do to the lists\<close>

lemma is_queue_link:
  assumes q: "is_queue qt q (xs @ ys)" and x: "x \<in> pids" "x \<notin> set (xs @ ys)"
    and nx: "\<And>j. qnext (qt' j) =
               (if j = last (q # xs) then x else if j = x then hd (ys @ [q + 1]) else qnext (qt j))"
    and pv: "\<And>j. qprev (qt' j) =
               (if j = hd (ys @ [q + 1]) then x else if j = x then last (q # xs) else qprev (qt j))"
  shows "is_queue qt' q (xs @ x # ys)"
proof -
  let ?as = "butlast (q # xs)" and ?p = "last (q # xs)"
  let ?n = "hd (ys @ [q + 1])" and ?bs = "tl (ys @ [q + 1])"
  have split: "q # xs @ ys @ [q + 1] = ?as @ ?p # ?n # ?bs"
    using append_butlast_last_id [of "q # xs"] hd_Cons_tl [of "ys @ [q + 1]"]
    by (metis append_Cons append_Nil append_assoc list.distinct(1) snoc_eq_iff_butlast)
  have "linked qt' (?as @ ?p # x # ?n # ?bs)"
  proof (rule linked_insert [OF _ _ _ nx pv])
    show "linked qt (?as @ ?p # ?n # ?bs)"
      using is_queueD(2) [OF q] unfolding split [symmetric] by simp
    show "distinct (?as @ ?p # ?n # ?bs)"
      using is_queue_distinct_nodes [OF q] unfolding split [symmetric] by simp
    show "x \<notin> set (?as @ ?p # ?n # ?bs)"
      using x is_queueD(1) [OF q] unfolding split [symmetric] by auto
  qed
  moreover have "?as @ ?p # x # ?n # ?bs = q # xs @ x # ys @ [q + 1]"
    using append_butlast_last_id [of "q # xs"] hd_Cons_tl [of "ys @ [q + 1]"]
    by (metis append_Cons append_Nil append_assoc list.distinct(1) snoc_eq_iff_butlast)
  ultimately have "linked qt' (q # (xs @ x # ys) @ [q + 1])"
    by (simp only: append_Cons append_assoc)
  then show ?thesis
    using q x by (auto simp: is_queue_def)
qed

lemma is_queue_unlink:
  assumes q: "is_queue qt q (xs @ x # ys)"
    and nx: "\<And>j. qnext (qt' j) = (if j = last (q # xs) then hd (ys @ [q + 1]) else qnext (qt j))"
    and pv: "\<And>j. qprev (qt' j) = (if j = hd (ys @ [q + 1]) then last (q # xs) else qprev (qt j))"
  shows "is_queue qt' q (xs @ ys)"
proof -
  let ?as = "butlast (q # xs)" and ?p = "last (q # xs)"
  let ?n = "hd (ys @ [q + 1])" and ?bs = "tl (ys @ [q + 1])"
  have split: "q # xs @ x # ys @ [q + 1] = ?as @ ?p # x # ?n # ?bs"
    using append_butlast_last_id [of "q # xs"] hd_Cons_tl [of "ys @ [q + 1]"]
    by (metis append_Cons append_Nil append_assoc list.distinct(1) snoc_eq_iff_butlast)
  have "linked qt' (?as @ ?p # ?n # ?bs)"
  proof (rule linked_remove [OF _ _ nx pv])
    show "linked qt (?as @ ?p # x # ?n # ?bs)"
      using is_queueD(2) [OF q] unfolding split [symmetric] by simp
    show "distinct (?as @ ?p # x # ?n # ?bs)"
      using is_queue_distinct_nodes [OF q] unfolding split [symmetric] by simp
  qed
  moreover have "?as @ ?p # ?n # ?bs = q # xs @ ys @ [q + 1]"
    using append_butlast_last_id [of "q # xs"] hd_Cons_tl [of "ys @ [q + 1]"]
    by (metis append_Cons append_Nil append_assoc list.distinct(1) snoc_eq_iff_butlast)
  ultimately have "linked qt' (q # (xs @ ys) @ [q + 1])"
    by (simp only: append_assoc)
  then show ?thesis
    using q by (auto simp: is_queue_def)
qed

lemma is_queue_neighbours:
  assumes "is_queue qt q (xs @ x # ys)"
  shows "qnext (qt x) = hd (ys @ [q + 1])" "qprev (qt x) = last (q # xs)"
proof -
  have l: "linked qt (q # xs @ x # ys @ [q + 1])" using is_queueD(2) [OF assms] by simp
  show "qnext (qt x) = hd (ys @ [q + 1])"
    using linked_pair [of qt "q # xs" x "hd (ys @ [q + 1])" "tl (ys @ [q + 1])"] l by (cases ys) simp_all
  show "qprev (qt x) = last (q # xs)"
    using linked_pair [of qt "butlast (q # xs)" "last (q # xs)" x "ys @ [q + 1]"] l
      append_butlast_last_id [of "q # xs"]
    by (metis append_Cons append_Nil append_assoc list.distinct(1))
qed

text \<open>The same facts for the whole table: a free process enters one queue, or leaves it.\<close>

definition link_tab :: "pid32 \<Rightarrow> int \<Rightarrow> int \<Rightarrow> qtab \<Rightarrow> qtab" where
  "link_tab x p n qt = set_qprev n x (set_qnext p x (set_qprev x p (set_qnext x n qt)))"

lemma link_nodes:
  assumes q: "is_queue qt q (xs @ ys)"
  shows "last (q # xs) \<in> set (q # (xs @ ys) @ [q + 1])" "hd (ys @ [q + 1]) \<in> set (q # (xs @ ys) @ [q + 1])"
  using last_in_set [of "q # xs"] hd_in_set [of "ys @ [q + 1]"] by auto

lemma wf_qtab_link:
  assumes wf: "wf_qtab qt Qs" and q: "q \<in> Qs" and x: "x \<in> pids" "x \<notin> queued qt Qs"
    and split: "qlist qt q = xs @ ys"
    and nx: "\<And>j. qnext (qt' j) = qnext (link_tab x (last (q # xs)) (hd (ys @ [q + 1])) qt j)"
    and pv: "\<And>j. qprev (qt' j) = qprev (link_tab x (last (q # xs)) (hd (ys @ [q + 1])) qt j)"
    and key: "\<And>j. NPROC \<le> j \<Longrightarrow> qkey (qt' j) = qkey (qt j)"
  shows "wf_qtab qt' Qs" "qlist qt' q = xs @ x # ys" "\<And>r. r \<in> Qs \<Longrightarrow> r \<noteq> q \<Longrightarrow> qlist qt' r = qlist qt r"
proof -
  have isq: "is_queue qt q (xs @ ys)" using wf_qtabD(1) [OF wf q] split by simp
  have xq: "x \<notin> set (xs @ ys)" using x q split by (auto simp: queued_def)
  have xn: "x \<noteq> last (q # xs)" "x \<noteq> hd (ys @ [q + 1])"
    using link_nodes [OF isq] xq x(1) is_queueD(1) [OF isq] by auto
  have new: "is_queue qt' q (xs @ x # ys)"
    by (rule is_queue_link [OF isq x(1) xq]) (simp_all add: nx pv link_tab_def xn)
  note R = wf_qtab_replace [OF wf q new, of "{x}"]
  have fr: "qnext (qt' j) = qnext (qt j) \<and> qprev (qt' j) = qprev (qt j)"
    if "j \<notin> {x} \<union> set (q # qlist qt q @ [q + 1])" for j
    using that link_nodes [OF isq] unfolding split nx pv by (auto simp: link_tab_def)
  show "wf_qtab qt' Qs" "qlist qt' q = xs @ x # ys" "\<And>r. r \<in> Qs \<Longrightarrow> r \<noteq> q \<Longrightarrow> qlist qt' r = qlist qt r"
    using R x fr key by (auto simp: split)
qed

lemma wf_qtab_unlink:
  assumes wf: "wf_qtab qt Qs" and q: "q \<in> Qs" and split: "qlist qt q = xs @ x # ys"
    and nx: "\<And>j. j \<noteq> x \<Longrightarrow> qnext (qt' j) = qnext (set_qnext (last (q # xs)) (hd (ys @ [q + 1])) qt j)"
    and pv: "\<And>j. j \<noteq> x \<Longrightarrow> qprev (qt' j) = qprev (set_qprev (hd (ys @ [q + 1])) (last (q # xs)) qt j)"
    and key: "\<And>j. NPROC \<le> j \<Longrightarrow> qkey (qt' j) = qkey (qt j)"
  shows "wf_qtab qt' Qs" "qlist qt' q = xs @ ys" "\<And>r. r \<in> Qs \<Longrightarrow> r \<noteq> q \<Longrightarrow> qlist qt' r = qlist qt r"
proof -
  let ?u = "set_qprev (hd (ys @ [q + 1])) (last (q # xs)) (set_qnext (last (q # xs)) (hd (ys @ [q + 1])) qt)"
  have isq: "is_queue qt q (xs @ x # ys)" using wf_qtabD(1) [OF wf q] split by simp
  have u: "is_queue ?u q (xs @ ys)" by (rule is_queue_unlink [OF isq]) simp_all
  have x: "x \<notin> set (q # (xs @ ys) @ [q + 1])"
    using is_queue_distinct_nodes [OF isq] by auto
  have new: "is_queue qt' q (xs @ ys)"
  proof (rule is_queue_frame [OF u])
    fix j assume "j \<in> set (q # (xs @ ys) @ [q + 1])"
    with x have "j \<noteq> x" by auto
    with nx pv show "qnext (qt' j) = qnext (?u j) \<and> qprev (qt' j) = qprev (?u j)" by simp
  qed
  have fr: "qnext (qt' j) = qnext (qt j) \<and> qprev (qt' j) = qprev (qt j)"
    if "j \<notin> {} \<union> set (q # qlist qt q @ [q + 1])" for j
    using that link_nodes [OF isq] link_nodes(2) [of ?u q xs ys] u unfolding split
    by (auto simp: nx pv)
  note R = wf_qtab_replace [OF wf q new, of "{}"]
  show "wf_qtab qt' Qs" "qlist qt' q = xs @ ys" "\<And>r. r \<in> Qs \<Longrightarrow> r \<noteq> q \<Longrightarrow> qlist qt' r = qlist qt r"
    using R fr key by (auto simp: split)
qed


section \<open>The queues of a kernel state\<close>

text \<open>
  \<open>kqueues s\<close> are the queues \<^verbatim>\<open>newqueue\<close> has handed out, \<open>qview s q\<close> the processes of
  queue \<open>q\<close> in order, and \<open>wf_queues s\<close> the invariant of the queue table.
\<close>

definition kqueues :: "kstate \<Rightarrow> qid16 set" where
  "kqueues s = {q. NPROC \<le> q \<and> q < nextqid s \<and> even q}"

definition qview :: "kstate \<Rightarrow> qid16 \<Rightarrow> pid32 list" where
  "qview s q = (if q \<in> kqueues s then qlist (queuetab s) q else [])"

definition wf_queues :: "kstate \<Rightarrow> bool" where
  "wf_queues s \<longleftrightarrow>
    wf_qtab (queuetab s) (kqueues s) \<and> NPROC \<le> nextqid s \<and> nextqid s \<le> NQENT \<and> even (nextqid s)"

definition in_queue :: "kstate \<Rightarrow> pid32 \<Rightarrow> bool" where
  "in_queue s x \<longleftrightarrow> x \<in> queued (queuetab s) (kqueues s)"

abbreviation set_qtab :: "qtab \<Rightarrow> kstate \<Rightarrow> kstate" where
  "set_qtab qt s \<equiv> s\<lparr>queuetab := qt\<rparr>"

lemma in_queue_iff: "in_queue s x \<longleftrightarrow> (\<exists>q. x \<in> set (qview s q))"
  by (auto simp: in_queue_def queued_def qview_def)

lemma kqueues_cong [simp]: "kqueues (s\<lparr>queuetab := qt\<rparr>) = kqueues s"
  by (simp add: kqueues_def)

lemma kqueues_ge: "q \<in> kqueues s \<Longrightarrow> NPROC \<le> q"
  by (simp add: kqueues_def)

lemma kqueues_below: "wf_queues s \<Longrightarrow> q \<in> kqueues s \<Longrightarrow> q + 2 \<le> nextqid s"
proof -
  assume "wf_queues s" and "q \<in> kqueues s"
  then have "even (nextqid s)" "even q" "q < nextqid s" by (auto simp: wf_queues_def kqueues_def)
  then show ?thesis by presburger
qed

lemma kqueues_not_bad: "wf_queues s \<Longrightarrow> q \<in> kqueues s \<Longrightarrow> \<not> isbadqid q"
  using kqueues_below [of s q] kqueues_ge [of q s]
  by (auto simp: wf_queues_def isbadqid_def NPROC_def)

lemma qview_is_queue: "wf_queues s \<Longrightarrow> q \<in> kqueues s \<Longrightarrow> is_queue (queuetab s) q (qview s q)"
  by (auto simp: wf_queues_def qview_def dest: wf_qtabD)

lemma qview_range: "wf_queues s \<Longrightarrow> x \<in> set (qview s q) \<Longrightarrow> q \<in> kqueues s \<and> 0 \<le> x \<and> x < NPROC"
  by (metis is_queueD(4) list.distinct(1) list.set_cases qview_def qview_is_queue)

lemma qview_distinct: "wf_queues s \<Longrightarrow> distinct (qview s q)"
  by (cases "q \<in> kqueues s") (auto simp: qview_def wf_queues_def dest: wf_qtabD is_queueD)

lemma qview_unique:
  "wf_queues s \<Longrightarrow> x \<in> set (qview s q) \<Longrightarrow> x \<in> set (qview s r) \<Longrightarrow> q = r"
  by (auto simp: qview_def wf_queues_def dest: wf_qtab_unique split: if_splits)

lemma wf_queues_tab:
  assumes "wf_queues s" and "q \<in> kqueues s"
    and "wf_qtab qt' (kqueues s)" and "qlist qt' q = ys"
    and "\<And>r. r \<in> kqueues s \<Longrightarrow> r \<noteq> q \<Longrightarrow> qlist qt' r = qlist (queuetab s) r"
  shows "wf_queues (set_qtab qt' s)" "qview (set_qtab qt' s) = (qview s)(q := ys)"
  using assms by (auto simp: wf_queues_def qview_def fun_eq_iff)

text \<open>\<^verbatim>\<open>newqueue\<close> hands out a fresh empty queue.\<close>

lemma newqueue_fresh:
  assumes wf: "wf_queues s" and room: "nextqid s < NQENT"
  shows "fst (newqueue s) = nextqid s" "wf_queues (snd (newqueue s))"
    "qview (snd (newqueue s)) = qview s"
    "kqueues (snd (newqueue s)) = insert (nextqid s) (kqueues s)"
proof -
  let ?q = "nextqid s" and ?s = "snd (newqueue s)"
  have q: "even ?q" "NPROC \<le> ?q" using wf by (auto simp: wf_queues_def)
  show "fst (newqueue s) = ?q" using room by (simp add: newqueue_def Let_def)
  have nq: "nextqid ?s = ?q + 2" using room by (simp add: newqueue_def Let_def)
  show K: "kqueues ?s = insert ?q (kqueues s)"
    using q by (auto simp: kqueues_def nq) presburger+
  have same: "queuetab ?s j = queuetab s j" if "j \<noteq> ?q" "j \<noteq> ?q + 1" for j
    using room that
    by (simp add: newqueue_def Let_def set_qnext_def set_qprev_def set_qkey_def queuehead_def queuetail_def)
  have new: "is_queue (queuetab ?s) ?q []" "qkey (queuetab ?s (?q + 1)) = MINKEY"
    using room q by (auto simp: newqueue_def Let_def is_queue_def queuehead_def queuetail_def)
  have old: "is_queue (queuetab ?s) r (qlist (queuetab s) r)" "qkey (queuetab ?s (r + 1)) = MINKEY"
    if r: "r \<in> kqueues s" for r
  proof -
    have r': "is_queue (queuetab s) r (qlist (queuetab s) r)" "qkey (queuetab s (r + 1)) = MINKEY"
      using wf r by (auto simp: wf_queues_def dest: wf_qtabD)
    have ne: "x \<noteq> ?q \<and> x \<noteq> ?q + 1" if "x \<in> set (r # qlist (queuetab s) r @ [r + 1])" for x
      using that r q is_queueD(4) [OF r'(1), of x] kqueues_below [OF wf r] by (auto simp: kqueues_def)
    show "is_queue (queuetab ?s) r (qlist (queuetab s) r)"
      by (rule is_queue_frame [OF r'(1)]) (use ne same in auto)
    show "qkey (queuetab ?s (r + 1)) = MINKEY" using r'(2) same [of "r + 1"] ne by simp
  qed
  have ql: "qlist (queuetab ?s) ?q = []" "\<And>r. r \<in> kqueues s \<Longrightarrow> qlist (queuetab ?s) r = qlist (queuetab s) r"
    using new(1) old(1) by (auto intro: is_queue_qlist)
  have "?q \<notin> kqueues s" by (simp add: kqueues_def)
  then show "qview ?s = qview s"
    by (auto simp: qview_def K ql fun_eq_iff)
  have "wf_qtab (queuetab ?s) (insert ?q (kqueues s))"
    using wf new old ql q by (auto simp: wf_qtab_def wf_queues_def)
  then show "wf_queues ?s"
    using wf room q K nq by (auto simp: wf_queues_def size_defs)
qed

text \<open>
  \<^verbatim>\<open>enqueue\<close> appends, \<^verbatim>\<open>getitem\<close> removes from the middle, \<^verbatim>\<open>getfirst\<close> and
  \<^verbatim>\<open>dequeue\<close> take the head, \<^verbatim>\<open>getlast\<close> the last element.
\<close>

lemma enqueue_view:
  assumes wf: "wf_queues s" and q: "q \<in> kqueues s" and x: "\<not> isbadpid s x" "\<not> in_queue s x"
  obtains qt' where "enqueue x q s = (x, set_qtab qt' s)" "wf_queues (set_qtab qt' s)"
    "qview (set_qtab qt' s) = (qview s)(q := qview s q @ [x])" "\<And>j. qkey (qt' j) = qkey (queuetab s j)"
proof -
  let ?qt = "queuetab s"
  let ?qt' = "link_tab x (lastid ?qt q) (q + 1) ?qt"
  have isq: "is_queue ?qt q (qview s q)" using wf q by (rule qview_is_queue)
  have l: "lastid ?qt q = last (q # qview s q)" using isq by (rule is_queue_lastid)
  have wft: "wf_qtab ?qt (kqueues s)" using wf by (simp add: wf_queues_def)
  note L = wf_qtab_link [OF wft q, of x "qview s q" "[]" ?qt']
  have p: "x \<in> pids" "x \<notin> queued ?qt (kqueues s)" using x by (auto simp: isbadpid_def in_queue_def)
  have L': "wf_qtab ?qt' (kqueues s)" "qlist ?qt' q = qview s q @ [x]"
      "\<And>r. r \<in> kqueues s \<Longrightarrow> r \<noteq> q \<Longrightarrow> qlist ?qt' r = qlist ?qt r"
    using L p q l by (auto simp: qview_def link_tab_def)
  show ?thesis
  proof
    show "enqueue x q s = (x, set_qtab ?qt' s)"
      using kqueues_not_bad [OF wf q] x by (simp add: enqueue_def Let_def link_tab_def lastid_def queuetail_def)
    show "wf_queues (set_qtab ?qt' s)" "qview (set_qtab ?qt' s) = (qview s)(q := qview s q @ [x])"
      using wf_queues_tab [OF wf q L'] by auto
    show "\<And>j. qkey (?qt' j) = qkey (?qt j)" by (simp add: link_tab_def)
  qed
qed

lemma unlink_view:
  assumes wf: "wf_queues s" and v: "qview s q = xs @ x # ys"
    and nx: "\<And>j. j \<noteq> x \<Longrightarrow>
               qnext (qt' j) = qnext (set_qnext (qprev (queuetab s x)) (qnext (queuetab s x)) (queuetab s) j)"
    and pv: "\<And>j. j \<noteq> x \<Longrightarrow>
               qprev (qt' j) = qprev (set_qprev (qnext (queuetab s x)) (qprev (queuetab s x)) (queuetab s) j)"
    and key: "\<And>j. NPROC \<le> j \<Longrightarrow> qkey (qt' j) = qkey (queuetab s j)"
  shows "wf_queues (set_qtab qt' s)" "qview (set_qtab qt' s) = (qview s)(q := xs @ ys)"
proof -
  have q: "q \<in> kqueues s" using v by (auto simp: qview_def split: if_splits)
  have isq: "is_queue (queuetab s) q (xs @ x # ys)" using qview_is_queue [OF wf q] v by simp
  have wft: "wf_qtab (queuetab s) (kqueues s)" using wf by (simp add: wf_queues_def)
  have split: "qlist (queuetab s) q = xs @ x # ys" using v q by (simp add: qview_def)
  have L: "wf_qtab qt' (kqueues s)" "qlist qt' q = xs @ ys"
      "\<And>r. r \<in> kqueues s \<Longrightarrow> r \<noteq> q \<Longrightarrow> qlist qt' r = qlist (queuetab s) r"
    using wf_qtab_unlink [OF wft q split, of qt'] nx pv key is_queue_neighbours [OF isq] by auto
  show "wf_queues (set_qtab qt' s)" "qview (set_qtab qt' s) = (qview s)(q := xs @ ys)"
    using wf_queues_tab [OF wf q L] by auto
qed

lemma getitem_view:
  assumes wf: "wf_queues s" and x: "x \<in> set (qview s q)"
  obtains qt' where "getitem x s = (x, set_qtab qt' s)" "wf_queues (set_qtab qt' s)"
    "qview (set_qtab qt' s) = (qview s)(q := remove1 x (qview s q))" "\<And>j. qkey (qt' j) = qkey (queuetab s j)"
proof -
  obtain xs ys where v: "qview s q = xs @ x # ys" using x by (meson split_list)
  then have "x \<notin> set xs" using qview_distinct [OF wf, of q] by simp
  then have r: "remove1 x (qview s q) = xs @ ys" by (simp add: v remove1_append)
  show ?thesis
    by (rule that [of "queuetab (snd (getitem x s))"])
      (use unlink_view [OF wf v, of "queuetab (snd (getitem x s))"] r in \<open>auto simp: getitem_def Let_def\<close>)
qed

lemma getfirst_view:
  assumes wf: "wf_queues s" and v: "qview s q = x # xs"
  obtains qt' where "getfirst q s = (x, set_qtab qt' s)" "wf_queues (set_qtab qt' s)"
    "qview (set_qtab qt' s) = (qview s)(q := xs)" "\<And>j. qkey (qt' j) = qkey (queuetab s j)"
proof -
  have q: "q \<in> kqueues s" using v by (auto simp: qview_def split: if_splits)
  have isq: "is_queue (queuetab s) q (x # xs)" using qview_is_queue [OF wf q] v by simp
  have x: "qnext (queuetab s q) = x" using is_queue_firstid [OF isq] by (simp add: firstid_def queuehead_def)
  obtain qt' where "getitem x s = (x, set_qtab qt' s)" "wf_queues (set_qtab qt' s)"
    "qview (set_qtab qt' s) = (qview s)(q := remove1 x (qview s q))" "\<And>j. qkey (qt' j) = qkey (queuetab s j)"
    using getitem_view [OF wf, of x q] v by auto
  with isq x v show ?thesis
    by (intro that [of qt']) (auto simp: getfirst_def queuehead_def)
qed

lemma getlast_view:
  assumes wf: "wf_queues s" and v: "qview s q = xs @ [x]"
  obtains qt' where "getlast q s = (x, set_qtab qt' s)" "wf_queues (set_qtab qt' s)"
    "qview (set_qtab qt' s) = (qview s)(q := xs)" "\<And>j. qkey (qt' j) = qkey (queuetab s j)"
proof -
  have q: "q \<in> kqueues s" using v by (auto simp: qview_def split: if_splits)
  have isq: "is_queue (queuetab s) q (xs @ [x])" using qview_is_queue [OF wf q] v by simp
  have x: "qprev (queuetab s (q + 1)) = x" using is_queue_lastid [OF isq] by (simp add: lastid_def queuetail_def)
  have "x \<notin> set xs" using is_queueD(3) [OF isq] by simp
  moreover obtain qt' where "getitem x s = (x, set_qtab qt' s)" "wf_queues (set_qtab qt' s)"
    "qview (set_qtab qt' s) = (qview s)(q := remove1 x (qview s q))" "\<And>j. qkey (qt' j) = qkey (queuetab s j)"
    using getitem_view [OF wf, of x q] v by auto
  ultimately show ?thesis
    using isq x v by (intro that [of qt']) (auto simp: getlast_def queuetail_def remove1_append)
qed

lemma getfirst_empty: "wf_queues s \<Longrightarrow> q \<in> kqueues s \<Longrightarrow> qview s q = [] \<Longrightarrow> getfirst q s = (EMPTY, s)"
  using qview_is_queue [of s q] by (simp add: getfirst_def)

lemma dequeue_empty: "wf_queues s \<Longrightarrow> q \<in> kqueues s \<Longrightarrow> qview s q = [] \<Longrightarrow> dequeue q s = (EMPTY, s)"
  using qview_is_queue [of s q] kqueues_not_bad [of s q] by (simp add: dequeue_def)

lemma dequeue_view:
  assumes wf: "wf_queues s" and v: "qview s q = x # xs"
  obtains qt' where "dequeue q s = (x, set_qtab qt' s)" "wf_queues (set_qtab qt' s)"
    "qview (set_qtab qt' s) = (qview s)(q := xs)" "\<And>j. qkey (qt' j) = qkey (queuetab s j)"
proof -
  have q: "q \<in> kqueues s" using v by (auto simp: qview_def split: if_splits)
  have isq: "is_queue (queuetab s) q (x # xs)" using qview_is_queue [OF wf q] v by simp
  have x: "qnext (queuetab s q) = x" using is_queue_firstid [OF isq] by (simp add: firstid_def queuehead_def)
  let ?qt' = "queuetab (snd (dequeue q s))"
  have d: "dequeue q s = (x, set_qtab ?qt' s)"
    using kqueues_not_bad [OF wf q] isq x
    by (simp add: dequeue_def getfirst_def getitem_def queuehead_def Let_def)
  have nb: "qnext (queuetab s x) = hd (xs @ [q + 1])" "qprev (queuetab s x) = q"
    using is_queue_neighbours [of "queuetab s" q "[]" x xs] isq by auto
  have qt': "?qt' = set_qnext x EMPTY (set_qprev x EMPTY
      (set_qprev (hd (xs @ [q + 1])) q (set_qnext q (hd (xs @ [q + 1])) (queuetab s))))"
    using kqueues_not_bad [OF wf q] isq x nb
    by (simp add: dequeue_def getfirst_def getitem_def queuehead_def Let_def)
  have "wf_queues (set_qtab ?qt' s)" "qview (set_qtab ?qt' s) = (qview s)(q := xs)"
    using unlink_view [OF wf, of q "[]" x xs ?qt'] v nb unfolding qt' by auto
  with d show ?thesis
    by (intro that [of ?qt']) (auto simp: qt')
qed


section \<open>Ordered insertion\<close>

text \<open>
  \<^verbatim>\<open>insert\<close> walks past every process whose key is at least the new one, so that equal
  keys stay in order of arrival.
\<close>

definition insert_at_key :: "(pid32 \<Rightarrow> int) \<Rightarrow> pid32 \<Rightarrow> int \<Rightarrow> pid32 list \<Rightarrow> pid32 list" where
  "insert_at_key k x key xs =
    takeWhile (\<lambda>y. k y \<ge> key) xs @ x # dropWhile (\<lambda>y. k y \<ge> key) xs"

lemma set_insert_at_key [simp]: "set (insert_at_key k x key xs) = insert x (set xs)"
proof -
  have "set xs = set (takeWhile (\<lambda>y. k y \<ge> key) xs @ dropWhile (\<lambda>y. k y \<ge> key) xs)" by simp
  then show ?thesis unfolding insert_at_key_def set_append by auto
qed

lemma insert_scan_stops:
  assumes "linked qt (xs @ [t])" and "qkey (qt t) < key"
  shows "insert_scan qt (hd (xs @ [t])) key = Some (hd (dropWhile (\<lambda>y. qkey (qt y) \<ge> key) xs @ [t]))"
  using assms(1)
proof (induction xs)
  case Nil
  then show ?case using assms(2) by (simp add: insert_scan.simps)
next
  case (Cons x xs)
  have "linked qt (xs @ [t])" and "qnext (qt x) = hd (xs @ [t])"
    using Cons.prems by (cases xs; simp)+
  then show ?case using Cons.IH by (simp add: insert_scan.simps [of qt x])
qed

lemma queue_prev_of_split:
  assumes "is_queue qt q (xs @ ys)"
  shows "qprev (qt (hd (ys @ [q + 1]))) = last (q # xs)"
proof (cases ys)
  case Nil
  with is_queue_lastid [OF assms] show ?thesis by (simp add: lastid_def queuetail_def)
next
  case (Cons y zs)
  with is_queue_neighbours(2) [of qt q xs y zs] assms show ?thesis by simp
qed

lemma insert_q_view:
  assumes wf: "wf_queues s" and q: "q \<in> kqueues s" and x: "\<not> isbadpid s x" "\<not> in_queue s x"
    and key: "MINKEY < key"
  obtains qt' where "insert_q x q key s = Some (OK, set_qtab qt' s)" "wf_queues (set_qtab qt' s)"
    "qview (set_qtab qt' s) =
       (qview s)(q := insert_at_key (\<lambda>y. qkey (queuetab s y)) x key (qview s q))"
    "\<And>j. qkey (qt' j) = (if j = x then key else qkey (queuetab s j))"
proof -
  let ?qt = "queuetab s" and ?P = "\<lambda>y. qkey (queuetab s y) \<ge> key"
  let ?xs = "takeWhile ?P (qview s q)" and ?ys = "dropWhile ?P (qview s q)"
  let ?n = "hd (?ys @ [q + 1])" and ?p = "last (q # ?xs)"
  have isq: "is_queue ?qt q (?xs @ ?ys)" using qview_is_queue [OF wf q] by simp
  have wft: "wf_qtab ?qt (kqueues s)" using wf by (simp add: wf_queues_def)
  have tl: "qkey (?qt (q + 1)) < key" using wf_qtabD(3) [OF wft q] key by simp
  have "linked ?qt (qview s q @ [q + 1])"
    using is_queueD(2) [OF qview_is_queue [OF wf q]] by (cases "qview s q") auto
  then have scan: "insert_scan ?qt (firstid ?qt q) key = Some ?n"
    using insert_scan_stops tl is_queue_firstid [OF isq] by simp
  have pn: "qprev (?qt ?n) = ?p" using isq by (rule queue_prev_of_split)
  define qt' where "qt' = set_qprev ?n x (set_qnext ?p x (set_qkey x key (set_qprev x ?p (set_qnext x ?n ?qt))))"
  have xp: "x \<in> pids" "x \<notin> queued ?qt (kqueues s)" using x by (auto simp: isbadpid_def in_queue_def)
  have L: "wf_qtab qt' (kqueues s)" "qlist qt' q = ?xs @ x # ?ys"
      "\<And>r. r \<in> kqueues s \<Longrightarrow> r \<noteq> q \<Longrightarrow> qlist qt' r = qlist ?qt r"
    using wf_qtab_link [OF wft q xp, of ?xs ?ys qt'] q xp(1)
    by (auto simp: qview_def qt'_def link_tab_def)
  show ?thesis
  proof
    show "insert_q x q key s = Some (OK, set_qtab qt' s)"
      using kqueues_not_bad [OF wf q] x scan pn by (simp add: insert_q_def Let_def qt'_def)
    show "wf_queues (set_qtab qt' s)"
      using wf_queues_tab(1) [OF wf q L] .
    show "qview (set_qtab qt' s) = (qview s)(q := insert_at_key (\<lambda>y. qkey (?qt y)) x key (qview s q))"
      using wf_queues_tab(2) [OF wf q L] by (simp add: insert_at_key_def)
    show "\<And>j. qkey (qt' j) = (if j = x then key else qkey (?qt j))" by (simp add: qt'_def)
  qed
qed

lemma insert_at_key_sorted:
  assumes "sorted_wrt (\<ge>) (map k xs)" and "x \<notin> set xs" and "k' = k(x := key)"
  shows "sorted_wrt (\<ge>) (map k' (insert_at_key k x key xs))"
proof -
  let ?P = "\<lambda>y. k y \<ge> key"
  have same: "map k' (takeWhile ?P xs) = map k (takeWhile ?P xs)" "map k' (dropWhile ?P xs) = map k (dropWhile ?P xs)"
    using assms(2,3) by (auto dest: set_takeWhileD set_dropWhileD)
  have "sorted_wrt (\<ge>) (map k (takeWhile ?P xs @ dropWhile ?P xs))" using assms(1) by simp
  then have s: "sorted_wrt (\<ge>) (map k (takeWhile ?P xs) @ map k (dropWhile ?P xs))"
    unfolding map_append .
  have le: "k y \<le> key" if "y \<in> set (dropWhile ?P xs)" for y
  proof (cases "dropWhile ?P xs")
    case (Cons z zs)
    then have "k z < key" using dropWhile_hdD [of ?P xs z zs] by simp
    moreover have "k y \<le> k z" using s that Cons by (auto simp: sorted_wrt_append)
    ultimately show ?thesis by simp
  next
    case Nil
    with that show ?thesis by (metis list.set(1) empty_iff)
  qed
  have kx: "k' x = key" using assms(3) by simp
  have "sorted_wrt (\<ge>) (map k (takeWhile ?P xs) @ key # map k (dropWhile ?P xs))"
    using s le set_takeWhileD [of _ ?P xs] by (auto simp: sorted_wrt_mid)
  then show ?thesis
    unfolding insert_at_key_def map_append list.map same kx .
qed

section \<open>The delta list\<close>

text \<open>
  In the queue of sleeping processes a key is the delay after the previous entry, so the
  time at which a process wakes is the sum of the keys up to its own.
\<close>

fun wake_time :: "(pid32 \<Rightarrow> int) \<Rightarrow> pid32 list \<Rightarrow> pid32 \<Rightarrow> int" where
  "wake_time k [] x = 0"
| "wake_time k (y # ys) x = (if y = x then k y else k y + wake_time k ys x)"

fun delta_split :: "(pid32 \<Rightarrow> int) \<Rightarrow> int \<Rightarrow> pid32 list \<Rightarrow> pid32 list \<times> pid32 list \<times> int" where
  "delta_split k key [] = ([], [], key)"
| "delta_split k key (y # ys) =
     (if k y \<le> key then let (as, bs, r) = delta_split k (key - k y) ys in (y # as, bs, r)
      else ([], y # ys, key))"

definition delta_insert :: "(pid32 \<Rightarrow> int) \<Rightarrow> pid32 \<Rightarrow> int \<Rightarrow> pid32 list \<Rightarrow> pid32 list" where
  "delta_insert k x key xs = (case delta_split k key xs of (as, bs, r) \<Rightarrow> as @ x # bs)"

definition delta_keys :: "(pid32 \<Rightarrow> int) \<Rightarrow> pid32 \<Rightarrow> int \<Rightarrow> pid32 list \<Rightarrow> pid32 \<Rightarrow> int" where
  "delta_keys k x key xs = (case delta_split k key xs of (as, bs, r) \<Rightarrow>
     (case bs of [] \<Rightarrow> k(x := r) | b # _ \<Rightarrow> k(x := r, b := k b - r)))"

lemma delta_split_append: "delta_split k key xs = (as, bs, r) \<Longrightarrow> xs = as @ bs"
  by (induction xs arbitrary: key as) (auto split: if_splits prod.splits)

lemma delta_split_rest: "delta_split k key xs = (as, bs, r) \<Longrightarrow> r = key - sum_list (map k as)"
  by (induction xs arbitrary: key as) (force split: if_splits prod.splits)+

lemma delta_split_pos: "delta_split k key xs = (as, bs, r) \<Longrightarrow> 0 \<le> key \<Longrightarrow> 0 \<le> r"
  by (induction xs arbitrary: key as) (auto split: if_splits prod.splits)

lemma delta_split_next: "delta_split k key xs = (as, b # bs, r) \<Longrightarrow> r < k b"
  by (induction xs arbitrary: key as) (auto split: if_splits prod.splits)

lemma insertd_scan_split:
  assumes "linked qt (p # xs @ [q + 1])" and "q + 1 \<notin> set xs"
    and "delta_split (\<lambda>y. qkey (qt y)) key xs = (as, bs, r)"
  shows "insertd_scan qt q p (hd (xs @ [q + 1])) key = Some (last (p # as), hd (bs @ [q + 1]), r)"
  using assms
proof (induction xs arbitrary: p key as)
  case Nil
  then show ?case by (simp add: insertd_scan.simps queuetail_def)
next
  case (Cons x xs)
  have "linked qt (x # xs @ [q + 1])" and "qnext (qt x) = hd (xs @ [q + 1])"
    using Cons.prems(1) by (cases xs; simp)+
  then show ?case
    using Cons.prems Cons.IH [of x "key - qkey (qt x)"]
    by (auto simp: insertd_scan.simps [of qt q p x] queuetail_def split: if_splits prod.splits)
qed

lemma insertd_view:
  assumes wf: "wf_queues s" and q: "q \<in> kqueues s" and x: "\<not> isbadpid s x" "\<not> in_queue s x"
  obtains qt' where "insertd x q key s = Some (OK, set_qtab qt' s)" "wf_queues (set_qtab qt' s)"
    "qview (set_qtab qt' s) =
       (qview s)(q := delta_insert (\<lambda>y. qkey (queuetab s y)) x key (qview s q))"
    "(\<lambda>j. qkey (qt' j)) = delta_keys (\<lambda>y. qkey (queuetab s y)) x key (qview s q)"
proof -
  let ?qt = "queuetab s" and ?k = "\<lambda>y. qkey (queuetab s y)"
  obtain as bs r where sp: "delta_split ?k key (qview s q) = (as, bs, r)" by (cases "delta_split ?k key (qview s q)")
  let ?n = "hd (bs @ [q + 1])" and ?p = "last (q # as)"
  have v: "qview s q = as @ bs" using sp by (rule delta_split_append)
  have isq: "is_queue ?qt q (as @ bs)" using qview_is_queue [OF wf q] v by simp
  have wft: "wf_qtab ?qt (kqueues s)" using wf by (simp add: wf_queues_def)
  have "q + 1 \<notin> set (qview s q)" using is_queue_distinct_nodes [OF isq] v by auto
  then have scan: "insertd_scan ?qt q q (qnext (?qt q)) key = Some (?p, ?n, r)"
    using insertd_scan_split [OF _ _ sp, of q q] is_queueD(2) [OF isq] is_queue_firstid [OF isq] v
    by (simp add: firstid_def queuehead_def)
  define qt0 where "qt0 = set_qprev ?n x (set_qnext ?p x (set_qkey x r (set_qprev x ?p (set_qnext x ?n ?qt))))"
  define qt' where "qt' = (if ?n \<noteq> q + 1 then set_qkey ?n (qkey (qt0 ?n) - r) qt0 else qt0)"
  have xp: "x \<in> pids" "x \<notin> queued ?qt (kqueues s)" using x by (auto simp: isbadpid_def in_queue_def)
  have nb: "bs \<noteq> [] \<Longrightarrow> ?n \<in> set bs" and n: "bs = [] \<longleftrightarrow> ?n = q + 1"
    using is_queue_distinct_nodes [OF isq] by (cases bs; auto)+
  have key: "qkey (qt' j) = qkey (?qt j)" if "NPROC \<le> j" for j
    using that xp(1) nb n is_queueD(4) [OF isq, of ?n] by (auto simp: qt'_def qt0_def)
  have L: "wf_qtab qt' (kqueues s)" "qlist qt' q = as @ x # bs"
      "\<And>r. r \<in> kqueues s \<Longrightarrow> r \<noteq> q \<Longrightarrow> qlist qt' r = qlist ?qt r"
    using wf_qtab_link [OF wft q xp, of as bs qt'] q xp(1) v key
    by (auto simp: qview_def qt'_def qt0_def link_tab_def)
  have xn: "x \<noteq> ?n" using xp q v nb n by (cases "bs = []") (auto simp: queued_def qview_def dest: kqueues_ge)
  show ?thesis
  proof
    show "insertd x q key s = Some (OK, set_qtab qt' s)"
      using kqueues_not_bad [OF wf q] x scan
      by (simp add: insertd_def Let_def qt'_def qt0_def queuehead_def queuetail_def)
    show "wf_queues (set_qtab qt' s)"
      using wf_queues_tab(1) [OF wf q L] .
    show "qview (set_qtab qt' s) = (qview s)(q := delta_insert ?k x key (qview s q))"
      using wf_queues_tab(2) [OF wf q L] sp by (simp add: delta_insert_def)
    show "(\<lambda>j. qkey (qt' j)) = delta_keys ?k x key (qview s q)"
      using sp n xn by (cases bs) (auto simp: delta_keys_def qt'_def qt0_def fun_eq_iff)
  qed
qed

text \<open>The wake-up times: the new process gets the delay asked for, the others keep theirs.\<close>

lemma wake_time_append:
  "x \<notin> set as \<Longrightarrow> wake_time k (as @ bs) x = sum_list (map k as) + wake_time k bs x"
  by (induction as) auto

lemma wake_time_prefix: "x \<in> set as \<Longrightarrow> wake_time k (as @ bs) x = wake_time k as x"
  by (induction as) auto

lemma wake_time_cong:
  assumes "\<And>y. y \<in> set xs \<Longrightarrow> k' y = k y"
  shows "wake_time k' xs x = wake_time k xs x"
  using assms by (induction xs) auto

lemma delta_insert_wake:
  assumes d: "distinct xs" and x: "x \<notin> set xs"
  shows "wake_time (delta_keys k x key xs) (delta_insert k x key xs) x = key"
    and "y \<in> set xs \<Longrightarrow> wake_time (delta_keys k x key xs) (delta_insert k x key xs) y = wake_time k xs y"
proof -
  obtain as bs r where sp: "delta_split k key xs = (as, bs, r)" by (cases "delta_split k key xs")
  let ?k = "delta_keys k x key xs"
  have xs: "xs = as @ bs" using sp by (rule delta_split_append)
  have r: "r = key - sum_list (map k as)" using sp by (rule delta_split_rest)
  have ka: "?k z = k z" if "z \<in> set as" for z
    using that d x sp xs by (auto simp: delta_keys_def split: list.splits)
  have kx: "?k x = r" using d x sp xs by (auto simp: delta_keys_def split: list.splits)
  have ma: "map ?k as = map k as" using ka by simp
  show "wake_time ?k (delta_insert k x key xs) x = key"
    using x xs r kx sp ma by (simp add: delta_insert_def wake_time_append del: map_eq_conv)
  assume y: "y \<in> set xs"
  show "wake_time ?k (delta_insert k x key xs) y = wake_time k xs y"
  proof (cases "y \<in> set as")
    case True
    then show ?thesis
      using sp xs by (simp add: delta_insert_def wake_time_prefix) (metis ka wake_time_cong)
  next
    case False
    then have yb: "y \<in> set bs" and "y \<noteq> x" using y x xs by auto
    then obtain b cs where bs: "bs = b # cs" by (cases bs) auto
    have kb: "?k b = k b - r" and kc: "\<And>z. z \<in> set cs \<Longrightarrow> ?k z = k z"
      using d x sp xs bs by (auto simp: delta_keys_def)
    have "wake_time ?k cs y = wake_time k cs y" using kc by (rule wake_time_cong)
    then show ?thesis
      using False sp xs bs kb kx ma \<open>y \<noteq> x\<close>
      by (auto simp: delta_insert_def wake_time_append simp del: map_eq_conv)
  qed
qed

lemma delta_insert_pos:
  assumes "\<forall>y\<in>set xs. 0 \<le> k y" and "0 \<le> key" and "x \<notin> set xs" and "distinct xs"
  shows "\<forall>y\<in>set (delta_insert k x key xs). 0 \<le> delta_keys k x key xs y"
proof -
  obtain as bs r where sp: "delta_split k key xs = (as, bs, r)" by (cases "delta_split k key xs")
  then have "xs = as @ bs" "0 \<le> r" "\<And>b cs. bs = b # cs \<Longrightarrow> r < k b"
    using assms(2) delta_split_append delta_split_pos delta_split_next by blast+
  then show ?thesis
    using assms sp by (fastforce simp: delta_insert_def delta_keys_def split: list.splits)
qed

lemma set_delta_insert [simp]: "set (delta_insert k x key xs) = insert x (set xs)"
  using delta_split_append [of k key xs] by (cases "delta_split k key xs") (auto simp: delta_insert_def)

end
