(* ===== verification/Kernel_Invariant.thy ===== *)
theory Kernel_Invariant
  imports Process_Queue
begin

text \<open>
  The invariant of the kernel's tables. Its heart is \<open>home\<close>: the state of a process names
  the queue it must be in (the ready list, the sleep queue, or the queue of the semaphore
  \<^verbatim>\<open>prsem\<close>), and a process is in a queue exactly when that queue is its home.

  \<open>kinv_but X s\<close> is the invariant in the middle of a system call, with the processes in
  \<open>X\<close> taken out of every queue whatever their state says; \<open>kinv s\<close> is the invariant
  between system calls, and \<open>kmid s\<close> the one inside a deferral.
\<close>

section \<open>Where a process is\<close>

definition home :: "kstate \<Rightarrow> pid32 \<Rightarrow> qid16 option" where
  "home s p =
    (case prstate (proctab s p) of
       PR_READY \<Rightarrow> Some (readylist s)
     | PR_SLEEP \<Rightarrow> Some (sleepq s)
     | PR_RECTIM \<Rightarrow> Some (sleepq s)
     | PR_WAIT \<Rightarrow> Some (squeue (semtab s (prsem (proctab s p))))
     | _ \<Rightarrow> None)"

definition runnable :: "pstate \<Rightarrow> bool" where
  "runnable st \<longleftrightarrow> st = PR_CURR \<or> st = PR_READY"

abbreviation sems :: "sid32 set" where "sems \<equiv> {0..<NSEM}"

abbreviation semq :: "kstate \<Rightarrow> sid32 \<Rightarrow> qid16" where "semq s i \<equiv> squeue (semtab s i)"

abbreviation readyq :: "kstate \<Rightarrow> pid32 list" where "readyq s \<equiv> qview s (readylist s)"

abbreviation sleepers :: "kstate \<Rightarrow> pid32 list" where "sleepers s \<equiv> qview s (sleepq s)"

abbreviation waiters :: "kstate \<Rightarrow> sid32 \<Rightarrow> pid32 list" where "waiters s i \<equiv> qview s (semq s i)"

abbreviation pst :: "kstate \<Rightarrow> pid32 \<Rightarrow> pstate" where "pst s p \<equiv> prstate (proctab s p)"

section \<open>The invariant\<close>

definition wf_ids :: "kstate \<Rightarrow> bool" where
  "wf_ids s \<longleftrightarrow>
    readylist s \<in> kqueues s \<and> sleepq s \<in> kqueues s \<and> readylist s \<noteq> sleepq s \<and>
    (\<forall>i\<in>sems. semq s i \<in> kqueues s \<and> semq s i \<noteq> readylist s \<and> semq s i \<noteq> sleepq s) \<and>
    inj_on (semq s) sems"

definition placed :: "pid32 set \<Rightarrow> kstate \<Rightarrow> bool" where
  "placed X s \<longleftrightarrow> (\<forall>p\<in>pids. \<forall>q. p \<in> set (qview s q) \<longleftrightarrow> p \<notin> X \<and> home s p = Some q)"

definition wf_procs :: "kstate \<Rightarrow> bool" where
  "wf_procs s \<longleftrightarrow>
    currpid s \<in> pids \<and>
    (\<forall>p\<in>pids. (pst s p = PR_CURR \<longrightarrow> p = currpid s) \<and>
       - 0x8000 \<le> prprio (proctab s p) \<and> prprio (proctab s p) < 0x8000 \<and>
       (pst s p = PR_WAIT \<longrightarrow> prsem (proctab s p) \<in> sems)) \<and>
    runnable (pst s NULLPROC)"

definition kinv_but :: "pid32 set \<Rightarrow> kstate \<Rightarrow> bool" where
  "kinv_but X s \<longleftrightarrow>
    wf_queues s \<and> wf_ids s \<and> placed X s \<and> wf_procs s \<and> key_sorted (queuetab s) (readyq s) \<and> NULLPROC \<notin> X"

text \<open>A negative count is the number of waiting processes; a free semaphore has none.\<close>

definition sem_ok :: "kstate \<Rightarrow> sid32 \<Rightarrow> bool" where
  "sem_ok s i \<longleftrightarrow>
    int (length (waiters s i)) = max 0 (- scount (semtab s i)) \<and>
    (sstate (semtab s i) = S_FREE \<longrightarrow> waiters s i = [])"

definition kmid :: "kstate \<Rightarrow> bool" where
  "kmid s \<longleftrightarrow> kinv_but {} s \<and> pst s (currpid s) = PR_CURR \<and> 0 < ndefers s"

definition kinv :: "kstate \<Rightarrow> bool" where
  "kinv s \<longleftrightarrow>
    kinv_but {} s \<and> pst s (currpid s) = PR_CURR \<and> ndefers s = 0 \<and> (\<forall>i\<in>sems. sem_ok s i)"

text \<open>
  What the scheduler may change: the ready list, the states of runnable processes and of
  the processes \<open>X\<close> it is told to make runnable, and its own variables.
\<close>

definition sched_frame :: "pid32 set \<Rightarrow> kstate \<Rightarrow> kstate \<Rightarrow> bool" where
  "sched_frame X s t \<longleftrightarrow>
    t = s\<lparr>queuetab := queuetab t, proctab := proctab t, currpid := currpid t, preempt := preempt t,
          attempt := attempt t\<rparr> \<and>
    (\<forall>p. proctab t p = (proctab s p)\<lparr>prstate := pst t p\<rparr>) \<and>
    (\<forall>p. p \<in> X \<longrightarrow> runnable (pst t p)) \<and>
    (\<forall>p. p \<notin> X \<longrightarrow> pst t p = pst s p \<or> runnable (pst s p) \<and> runnable (pst t p)) \<and>
    (\<forall>q. q \<noteq> readylist s \<longrightarrow> qview t q = qview s q \<and> keys (queuetab t) (qview t q) = keys (queuetab s) (qview s q))"

text \<open>
  \<open>sync s\<close>: the keys of the ready list are the priorities of its processes. \<open>top_prio s\<close>:
  no ready process has a higher priority than the current one.
\<close>

definition sync :: "kstate \<Rightarrow> bool" where
  "sync s \<longleftrightarrow> (\<forall>y\<in>set (readyq s). qkey (queuetab s y) = prprio (proctab s y))"

definition top_prio :: "kstate \<Rightarrow> bool" where
  "top_prio s \<longleftrightarrow> (\<forall>y\<in>set (readyq s). prprio (proctab s y) \<le> prprio (proctab s (currpid s)))"

section \<open>Consequences\<close>

lemma runnable_simps [simp]:
  "runnable PR_CURR" "runnable PR_READY" "\<not> runnable PR_FREE" "\<not> runnable PR_RECV" "\<not> runnable PR_SLEEP"
  "\<not> runnable PR_SUSP" "\<not> runnable PR_WAIT" "\<not> runnable PR_RECTIM"
  by (simp_all add: runnable_def)

lemma home_simps [simp]:
  "pst s p = PR_READY \<Longrightarrow> home s p = Some (readylist s)"
  "pst s p = PR_SLEEP \<Longrightarrow> home s p = Some (sleepq s)"
  "pst s p = PR_RECTIM \<Longrightarrow> home s p = Some (sleepq s)"
  "pst s p = PR_WAIT \<Longrightarrow> home s p = Some (semq s (prsem (proctab s p)))"
  "pst s p = PR_FREE \<Longrightarrow> home s p = None" "pst s p = PR_CURR \<Longrightarrow> home s p = None"
  "pst s p = PR_RECV \<Longrightarrow> home s p = None" "pst s p = PR_SUSP \<Longrightarrow> home s p = None"
  by (simp_all add: home_def)

lemma kinv_butD:
  assumes "kinv_but X s"
  shows "wf_queues s" "wf_ids s" "placed X s" "wf_procs s" "key_sorted (queuetab s) (readyq s)" "NULLPROC \<notin> X"
  using assms by (auto simp: kinv_but_def)

lemma kinvD:
  assumes "kinv s"
  shows "kinv_but {} s" "pst s (currpid s) = PR_CURR" "ndefers s = 0" "\<And>i. i \<in> sems \<Longrightarrow> sem_ok s i"
  using assms by (auto simp: kinv_def)

lemma kmidD: "kmid s \<Longrightarrow> kinv_but {} s" "kmid s \<Longrightarrow> pst s (currpid s) = PR_CURR" "kmid s \<Longrightarrow> 0 < ndefers s"
  by (simp_all add: kmid_def)

lemma wf_idsD:
  assumes "wf_ids s"
  shows "readylist s \<in> kqueues s" "sleepq s \<in> kqueues s" "readylist s \<noteq> sleepq s" "sleepq s \<noteq> readylist s"
    "\<And>i. i \<in> sems \<Longrightarrow> semq s i \<in> kqueues s" "\<And>i. i \<in> sems \<Longrightarrow> semq s i \<noteq> readylist s"
    "\<And>i. i \<in> sems \<Longrightarrow> semq s i \<noteq> sleepq s"
    "\<And>i j. i \<in> sems \<Longrightarrow> j \<in> sems \<Longrightarrow> semq s i = semq s j \<longleftrightarrow> i = j"
  using assms by (auto simp: wf_ids_def inj_on_def)

lemma wf_procsD:
  assumes "wf_procs s"
  shows "currpid s \<in> pids" "\<And>p. p \<in> pids \<Longrightarrow> pst s p = PR_CURR \<Longrightarrow> p = currpid s"
    "\<And>p. p \<in> pids \<Longrightarrow> MINKEY < prprio (proctab s p)" "\<And>p. p \<in> pids \<Longrightarrow> pst s p = PR_WAIT \<Longrightarrow> prsem (proctab s p) \<in> sems"
    "runnable (pst s NULLPROC)"
  using assms by (auto simp: wf_procs_def MINKEY_def simp del: mem_pids)+

lemma placedD:
  assumes "placed X s" and "p \<in> pids"
  shows "p \<in> set (qview s q) \<longleftrightarrow> p \<notin> X \<and> home s p = Some q"
  using assms by (auto simp: placed_def)

lemma placed_in_queue:
  assumes "wf_queues s" and "placed X s" and "p \<in> pids"
  shows "in_queue s p \<longleftrightarrow> p \<notin> X \<and> home s p \<noteq> None"
  using placedD [OF assms(2,3)] by (auto simp: in_queue_iff)

lemma pids_notbad: "p \<in> pids \<Longrightarrow> isbadpid s p \<longleftrightarrow> pst s p = PR_FREE"
  by (simp add: isbadpid_def)

lemma isbadpid_pids: "\<not> isbadpid s p \<Longrightarrow> p \<in> pids"
  by (simp add: isbadpid_def)

lemma qview_pids: "wf_queues s \<Longrightarrow> p \<in> set (qview s q) \<Longrightarrow> p \<in> pids"
  using qview_range by fastforce

lemma qview_notfree: "kinv_but X s \<Longrightarrow> p \<in> set (qview s q) \<Longrightarrow> \<not> isbadpid s p"
  using qview_pids [of s p q] placedD [of X s p q] by (auto simp: kinv_but_def pids_notbad)

lemma null_in_pids [simp]: "NULLPROC \<in> pids"
  by simp

lemma sched_frameD:
  assumes "sched_frame X s t"
  shows "nextqid t = nextqid s" "nextpid t = nextpid s" "prcount t = prcount s" "readylist t = readylist s"
    "semtab t = semtab s" "nextsem t = nextsem s" "ndefers t = ndefers s" "sleepq t = sleepq s"
    "clktime t = clktime s" "clkticks t = clkticks s" "kmem t = kmem s" "stkmem t = stkmem s" "kqueues t = kqueues s"
    "\<And>p. proctab t p = (proctab s p)\<lparr>prstate := pst t p\<rparr>"
    "\<And>p. p \<in> X \<Longrightarrow> runnable (pst t p)"
    "\<And>p. p \<notin> X \<Longrightarrow> pst t p = pst s p \<or> runnable (pst s p) \<and> runnable (pst t p)"
    "\<And>q. q \<noteq> readylist s \<Longrightarrow> qview t q = qview s q"
    "\<And>q. q \<noteq> readylist s \<Longrightarrow> keys (queuetab t) (qview s q) = keys (queuetab s) (qview s q)"
proof -
  have t: "t = s\<lparr>queuetab := queuetab t, proctab := proctab t, currpid := currpid t, preempt := preempt t, attempt := attempt t\<rparr>"
    using assms by (simp add: sched_frame_def)
  show "nextqid t = nextqid s" "nextpid t = nextpid s" "prcount t = prcount s" "readylist t = readylist s"
    "semtab t = semtab s" "nextsem t = nextsem s" "ndefers t = ndefers s" "sleepq t = sleepq s"
    "clktime t = clktime s" "clkticks t = clkticks s" "kmem t = kmem s" "stkmem t = stkmem s" "kqueues t = kqueues s"
    by (subst t, simp add: kqueues_def)+
qed (use assms in \<open>auto simp: sched_frame_def\<close>)

lemma sched_frame_proc:
  assumes "sched_frame X s t"
  shows "prprio (proctab t p) = prprio (proctab s p)" "prsem (proctab t p) = prsem (proctab s p)"
    "prmsg (proctab t p) = prmsg (proctab s p)" "prhasmsg (proctab t p) = prhasmsg (proctab s p)"
    "prparent (proctab t p) = prparent (proctab s p)" "prstkbase (proctab t p) = prstkbase (proctab s p)"
    "prstklen (proctab t p) = prstklen (proctab s p)" "prdesc (proctab t p) = prdesc (proctab s p)"
  by (subst sched_frameD(14) [OF assms], simp)+

lemma sched_frame_refl: "\<forall>p\<in>X. runnable (pst s p) \<Longrightarrow> sched_frame X s s"
  by (simp add: sched_frame_def)

lemma sched_frame_trans:
  assumes a: "sched_frame X s t" and b: "sched_frame Y t u"
  shows "sched_frame (X \<union> Y) s u"
proof -
  note A = sched_frameD [OF a] and B = sched_frameD [OF b]
  have "u = s\<lparr>queuetab := queuetab u, proctab := proctab u, currpid := currpid u, preempt := preempt u, attempt := attempt u\<rparr>"
    by (rule kstate.equality) (simp_all add: A(1-12) B(1-12))
  moreover have "proctab u p = (proctab s p)\<lparr>prstate := pst u p\<rparr>" for p
    using A(14) [of p] B(14) [of p] by (metis procent.surjective procent.update_convs(1))
  moreover have "runnable (pst u p)" if "p \<in> X \<union> Y" for p
    using that A(15,16) B(15,16) by (metis Un_iff)
  moreover have "pst u p = pst s p \<or> runnable (pst s p) \<and> runnable (pst u p)" if "p \<notin> X \<union> Y" for p
    using that A(16) [of p] B(16) [of p] by auto
  moreover have "qview u q = qview s q \<and> keys (queuetab u) (qview u q) = keys (queuetab s) (qview s q)" if "q \<noteq> readylist s" for q
    using that A(4,17,18) B(17,18) by metis
  ultimately show ?thesis unfolding sched_frame_def by blast
qed

lemma sched_frame_mono: "sched_frame X s t \<Longrightarrow> \<forall>p\<in>Y. runnable (pst t p) \<Longrightarrow> X \<subseteq> Y \<Longrightarrow> sched_frame Y s t"
  unfolding sched_frame_def by blast

lemma sched_frame_shrink: "sched_frame X s t \<Longrightarrow> \<forall>p\<in>X. runnable (pst s p) \<Longrightarrow> sched_frame {} s t"
  unfolding sched_frame_def by blast

lemma sched_frame_sem_ok:
  assumes "sched_frame X s t" and "wf_ids s" and "i \<in> sems"
  shows "sem_ok t i = sem_ok s i" "waiters t i = waiters s i"
  using sched_frameD(5,17) [OF assms(1)] wf_idsD(6) [OF assms(2,3)] by (simp_all add: sem_ok_def)

section \<open>Changing a table\<close>

lemma qview_cong:
  assumes "queuetab t = queuetab s" and "nextqid t = nextqid s"
  shows "qview t = qview s" "kqueues t = kqueues s" "wf_queues t = wf_queues s"
proof -
  show "qview t = qview s" by (rule ext) (simp add: qview_def kqueues_def assms)
qed (simp_all add: kqueues_def wf_queues_def assms)

lemma home_cong:
  assumes "pst t p = pst s p" and "readylist t = readylist s" and "sleepq t = sleepq s"
    and "semq t (prsem (proctab t p)) = semq s (prsem (proctab s p))"
  shows "home t p = home s p"
  using assms by (cases "pst s p") (simp_all add: home_def)

lemma placed_remove:
  assumes "placed X s" and "qview t = (qview s)(q := ys)" and "set ys = set (qview s q) - {x}"
    and "x \<in> set (qview s q)" "x \<in> pids"
    and "\<And>p. p \<in> pids \<Longrightarrow> p \<noteq> x \<Longrightarrow> home t p = home s p"
  shows "placed (insert x X) t"
proof -
  have hx: "home s x = Some q" using placedD [OF assms(1,5)] assms(4) by blast
  have "p \<in> set (qview t r) \<longleftrightarrow> p \<notin> insert x X \<and> home t p = Some r" if p: "p \<in> pids" for p r
    using placedD [OF assms(1) p, of r] placedD [OF assms(1) p, of q] hx assms(2,3) assms(6) [OF p]
    by (cases "p = x") auto
  then show ?thesis by (simp add: placed_def)
qed

lemma placed_insert:
  assumes "placed (insert x X) s" and "qview t = (qview s)(q := ys)" and "set ys = insert x (set (qview s q))"
    and "x \<notin> X" "x \<in> pids" "home t x = Some q"
    and "\<And>p. p \<in> pids \<Longrightarrow> p \<noteq> x \<Longrightarrow> home t p = home s p"
  shows "placed X t"
proof -
  have "p \<in> set (qview t r) \<longleftrightarrow> p \<notin> X \<and> home t p = Some r" if p: "p \<in> pids" for p r
    using placedD [OF assms(1) p, of r] placedD [OF assms(1) p, of q] assms(2-6) assms(7) [OF p]
    by (cases "p = x") auto
  then show ?thesis by (simp add: placed_def)
qed

lemma placed_out:
  assumes "placed (insert x X) s" and "qview t = qview s" and "home t x = None"
    and "\<And>p. p \<in> pids \<Longrightarrow> p \<noteq> x \<Longrightarrow> home t p = home s p"
  shows "placed X t"
proof -
  have "p \<in> set (qview t r) \<longleftrightarrow> p \<notin> X \<and> home t p = Some r" if p: "p \<in> pids" for p r
    using placedD [OF assms(1) p, of r] assms(2,3) assms(4) [OF p] by (cases "p = x") auto
  then show ?thesis by (simp add: placed_def)
qed

text \<open>A process outside the queues may count as taken out.\<close>

lemma placed_homeless:
  assumes "placed X s" and "home s x = None"
  shows "placed (insert x X) s"
  using assms by (auto simp: placed_def)

lemma wf_ids_cong:
  assumes "wf_ids s" and "kqueues t = kqueues s" "readylist t = readylist s" "sleepq t = sleepq s"
    and "\<And>i. i \<in> sems \<Longrightarrow> semq t i = semq s i"
  shows "wf_ids t"
  using assms by (auto simp: wf_ids_def inj_on_def)

lemma key_sorted_cong: "keys qt' xs = keys qt xs \<Longrightarrow> key_sorted qt' xs = key_sorted qt xs"
  by (simp add: key_sorted_def)

lemma keys_cong: "(\<And>x. x \<in> set xs \<Longrightarrow> qkey (qt' x) = qkey (qt x)) \<Longrightarrow> keys qt' xs = keys qt xs"
  by (simp add: keys_def)

lemma key_sorted_ConsD: "key_sorted qt (x # xs) \<Longrightarrow> key_sorted qt xs"
  by (simp add: key_sorted_def keys_def)

lemma kinv_but_cong:
  assumes "kinv_but X s" and "queuetab t = queuetab s" "nextqid t = nextqid s" "proctab t = proctab s" "currpid t = currpid s"
    "readylist t = readylist s" "sleepq t = sleepq s" "\<And>i. semq t i = semq s i"
  shows "kinv_but X t"
proof -
  note v = qview_cong [OF assms(2,3)]
  have "home t = home s" by (rule ext, rule home_cong) (use assms(4-8) in simp_all)
  then show ?thesis
    using assms v by (simp add: kinv_but_def wf_ids_def placed_def wf_procs_def)
qed

text \<open>Editing a table entry without moving the process.\<close>

lemma kinv_but_upd_proc:
  assumes inv: "kinv_but X s" and h: "home (upd_proc p f s) p = home s p"
    and e: "prstate (f (proctab s p)) = PR_CURR \<Longrightarrow> p = currpid s"
      "- 0x8000 \<le> prprio (f (proctab s p))" "prprio (f (proctab s p)) < 0x8000"
      "prstate (f (proctab s p)) = PR_WAIT \<Longrightarrow> prsem (f (proctab s p)) \<in> sems"
      "p = NULLPROC \<Longrightarrow> runnable (prstate (f (proctab s p)))"
  shows "kinv_but X (upd_proc p f s)" "qview (upd_proc p f s) = qview s"
proof -
  let ?t = "upd_proc p f s"
  note I = kinv_butD [OF inv]
  show v: "qview ?t = qview s" by (rule qview_cong) simp_all
  have vk: "kqueues ?t = kqueues s" "wf_queues ?t = wf_queues s" by (rule qview_cong; simp)+
  have hm: "home ?t x = home s x" for x
  proof (cases "x = p")
    case False
    then show ?thesis by (intro home_cong) simp_all
  qed (use h in simp)
  have "wf_procs ?t" using I(4) e by (auto simp: wf_procs_def)
  then show "kinv_but X ?t"
    using I v vk hm by (simp add: kinv_but_def wf_ids_def placed_def)
qed

lemma kinv_upd_proc:
  assumes k: "kinv s" and h: "home (upd_proc p f s) p = home s p"
    and e: "prstate (f (proctab s p)) = PR_CURR \<longleftrightarrow> p = currpid s"
      "- 0x8000 \<le> prprio (f (proctab s p))" "prprio (f (proctab s p)) < 0x8000"
      "prstate (f (proctab s p)) = PR_WAIT \<Longrightarrow> prsem (f (proctab s p)) \<in> sems"
      "p = NULLPROC \<Longrightarrow> runnable (prstate (f (proctab s p)))"
  shows "kinv (upd_proc p f s)" "qview (upd_proc p f s) = qview s"
proof -
  let ?t = "upd_proc p f s"
  note U = kinv_but_upd_proc [OF kinvD(1) [OF k] h e(1) [THEN iffD1] e(2-5)]
  show v: "qview ?t = qview s" by (rule U)
  have "pst ?t (currpid ?t) = PR_CURR" using kinvD(2) [OF k] e(1) by (cases "p = currpid s") simp_all
  moreover have "sem_ok ?t i" if "i \<in> sems" for i
    using kinvD(4) [OF k that] v by (simp add: sem_ok_def)
  ultimately show "kinv ?t" using U(1) kinvD(3) [OF k] unfolding kinv_def by simp
qed

text \<open>Taking a process off its queue, and putting one on a queue other than the ready list.\<close>

lemma kinv_but_unqueue:
  assumes inv: "kinv_but {} s" and x: "x \<in> set (qview s q)" "x \<noteq> NULLPROC"
    and wf: "wf_queues (set_qtab qt' s)" and v: "qview (set_qtab qt' s) = (qview s)(q := ys)"
    and ys: "set ys = set (qview s q) - {x}"
    and srt: "key_sorted qt' (((qview s)(q := ys)) (readylist s))"
  shows "kinv_but {x} (set_qtab qt' s)"
proof -
  let ?t = "set_qtab qt' s"
  note I = kinv_butD [OF inv]
  have xp: "x \<in> pids" using qview_pids [OF I(1) x(1)] .
  have hm: "home ?t p = home s p" for p by (rule home_cong) simp_all
  have "placed {x} ?t" by (rule placed_remove [OF I(3) v ys x(1) xp hm])
  moreover have "wf_ids ?t" by (rule wf_ids_cong [OF I(2)]) simp_all
  moreover have "wf_procs ?t" using I(4) by (simp add: wf_procs_def)
  moreover have "key_sorted qt' (readyq ?t)" using srt v by simp
  ultimately show ?thesis using wf x(2) by (simp add: kinv_but_def)
qed

lemma kinv_but_enqueued:
  assumes inv: "kinv_but X s" and X: "X = {x} \<or> X = {} \<and> home s x = None" and x: "x \<in> pids" "x \<noteq> NULLPROC"
    and q: "q \<noteq> readylist s" and f: "prstate (f (proctab s x)) \<noteq> PR_CURR" "prprio (f (proctab s x)) = prprio (proctab s x)"
      "prstate (f (proctab s x)) = PR_WAIT \<Longrightarrow> prsem (f (proctab s x)) \<in> sems"
    and h: "home (upd_proc x f s) x = Some q"
    and wf: "wf_queues (set_qtab qt' s)" and v: "qview (set_qtab qt' s) = (qview s)(q := ys)"
    and ys: "set ys = insert x (set (qview s q))"
    and k: "\<And>y. y \<in> set (readyq s) \<Longrightarrow> qkey (qt' y) = qkey (queuetab s y)"
  shows "kinv_but {} (set_qtab qt' (upd_proc x f s))" "qview (set_qtab qt' (upd_proc x f s)) = (qview s)(q := ys)"
proof -
  let ?t = "set_qtab qt' (upd_proc x f s)"
  note I = kinv_butD [OF inv]
  have pl: "placed {x} s" using I(3) X placed_homeless [of "{}" s x] by auto
  show vt: "qview ?t = (qview s)(q := ys)" using v qview_cong(1) [of ?t "set_qtab qt' s"] by simp
  have vk: "kqueues ?t = kqueues s" "wf_queues ?t"
    using wf qview_cong(2,3) [of ?t "set_qtab qt' s"] by simp_all
  have hx: "home ?t x = Some q" using h home_cong [of ?t x "upd_proc x f s"] by simp
  have hm: "home ?t p = home s p" if "p \<noteq> x" for p by (rule home_cong) (use that in simp_all)
  have "placed {} ?t" by (rule placed_insert [OF pl vt ys _ x(1) hx hm]) simp_all
  moreover have "wf_ids ?t" by (rule wf_ids_cong [OF I(2) vk(1)]) simp_all
  moreover have "wf_procs ?t" using I(4) f x by (auto simp: wf_procs_def)
  moreover have "key_sorted qt' (readyq ?t)"
    using I(5) q vt key_sorted_cong [OF keys_cong [of "readyq s" qt' "queuetab s"]] k by simp
  ultimately show "kinv_but {} ?t" using vk(2) by (simp add: kinv_but_def)
qed

lemma waiter_not_null:
  assumes "kinv_but X s" and "x \<in> set (qview s q)" and "q \<noteq> readylist s"
  shows "x \<noteq> NULLPROC"
proof
  assume "x = NULLPROC"
  then have "home s NULLPROC = Some q" using placedD [OF kinv_butD(3) [OF assms(1)] null_in_pids] assms(2) by blast
  then show False using wf_procsD(5) [OF kinv_butD(4) [OF assms(1)]] assms(3) by (auto simp: runnable_def)
qed

end
