(* ===== verification/Scheduler.thy ===== *)
theory Scheduler
  imports Kernel_Invariant
begin

text \<open>
  The scheduler of \<^verbatim>\<open>system/resched.c\<close> and \<^verbatim>\<open>ready.c\<close>. \<open>resched s\<close> is the kernel's state at
  the moment the processor runs on after the switch: if \<^verbatim>\<open>currpid\<close> changed, the caller is
  stopped inside \<^verbatim>\<open>ctxsw\<close> and what it still has to do is done when it is current again.
  \<^term>\<open>None\<close> would mean that the scan of the ready list never ends.
\<close>

section \<open>The operations\<close>

definition DEFER_START :: int where "DEFER_START = 1"
definition DEFER_STOP :: int where "DEFER_STOP = 2"

definition resched :: "kstate \<Rightarrow> kstate option" where
  "resched s =
    (if ndefers s > 0 then Some (s\<lparr>attempt := True\<rparr>)
     else
       let old = currpid s; ptold = proctab s old in
       if prstate ptold = PR_CURR \<and> prprio ptold > firstkey (queuetab s) (readylist s) then Some s
       else do {
         s1 \<leftarrow> (if prstate ptold = PR_CURR then
                  do { (_, s') \<leftarrow> insert_q old (readylist s) (prprio ptold) (set_prstate old PR_READY s); Some s' }
                else Some s);
         let (new, s2) = dequeue (readylist s1) s1;
         Some (set_prstate new PR_CURR (s2\<lparr>currpid := new\<rparr>)\<lparr>preempt := QUANTUM\<rparr>)
       })"

definition resched_cntl :: "int \<Rightarrow> kstate \<Rightarrow> (int \<times> kstate) option" where
  "resched_cntl defer s =
    (if defer = DEFER_START then
       (let s1 = s\<lparr>ndefers := ndefers s + 1\<rparr> in
        Some (OK, if ndefers s = 0 then s1\<lparr>attempt := False\<rparr> else s1))
     else if defer = DEFER_STOP then
       (if ndefers s \<le> 0 then Some (SYSERR, s)
        else
          let s1 = s\<lparr>ndefers := ndefers s - 1\<rparr> in
          if ndefers s1 = 0 \<and> attempt s1 then do { s2 \<leftarrow> resched s1; Some (OK, s2) } else Some (OK, s1))
     else Some (SYSERR, s))"

definition ready :: "pid32 \<Rightarrow> kstate \<Rightarrow> (int \<times> kstate) option" where
  "ready pid s =
    (if isbadpid s pid then Some (SYSERR, s)
     else do {
       let s1 = set_prstate pid PR_READY s;
       (_, s2) \<leftarrow> insert_q pid (readylist s1) (prprio (proctab s1 pid)) s1;
       s3 \<leftarrow> resched s2;
       Some (OK, s3)
     })"

definition getpid :: "kstate \<Rightarrow> pid32" where
  "getpid s = currpid s"

definition yield_call :: "kstate \<Rightarrow> (int \<times> kstate) option" where
  "yield_call s = do { s1 \<leftarrow> resched s; Some (OK, s1) }"

section \<open>Switching\<close>

lemma readyq_nonempty:
  assumes "kinv_but X s" and "pst s (currpid s) \<noteq> PR_CURR"
  shows "NULLPROC \<in> set (readyq s)"
proof -
  note I = kinv_butD [OF assms(1)]
  have "pst s NULLPROC \<noteq> PR_CURR" using wf_procsD(2) [OF I(4), of NULLPROC] assms(2) by auto
  then have "pst s NULLPROC = PR_READY" using wf_procsD(5) [OF I(4)] by (simp add: runnable_def)
  then show ?thesis using placedD [OF I(3), of NULLPROC] I(6) by simp
qed

text \<open>Making \<open>x\<close>, already taken off the ready list, the current process.\<close>

lemma make_current:
  assumes inv: "kinv_but {} s" and q: "readyq s = x # xs"
    and nc: "\<And>p. p \<in> pids \<Longrightarrow> pst s p \<noteq> PR_CURR"
    and wf: "wf_queues (set_qtab qt' s)" and v: "qview (set_qtab qt' s) = (qview s)(readylist s := xs)"
    and k: "\<And>j. qkey (qt' j) = qkey (queuetab s j)"
  defines "t \<equiv> set_prstate x PR_CURR (s\<lparr>queuetab := qt', currpid := x\<rparr>)\<lparr>preempt := QUANTUM\<rparr>"
  shows "kinv_but {} t" "pst t (currpid t) = PR_CURR" "currpid t = x" "readyq t = xs" "sched_frame {} s t"
    "sync s \<Longrightarrow> sync t \<and> top_prio t"
proof -
  note I = kinv_butD [OF inv]
  have vt: "qview t = (qview s)(readylist s := xs)" "kqueues t = kqueues s" "wf_queues t"
    using qview_cong [of t "set_qtab qt' s"] wf v by (simp_all add: t_def)
  have d: "distinct (x # xs)" using qview_distinct [OF I(1), of "readylist s"] q by simp
  have xin: "x \<in> set (readyq s)" by (simp add: q)
  have xp: "x \<in> pids" using qview_pids [OF I(1) xin] .
  have xr: "pst s x = PR_READY"
    using placedD(1) [OF I(3) xp, of "readylist s"] xin wf_idsD(3,6) [OF I(2)] wf_procsD(4) [OF I(4) xp]
    by (cases "pst s x") (auto simp: home_def simp del: mem_pids split: if_splits)
  have hm: "home t p = home s p" if "p \<noteq> x" for p
    by (rule home_cong) (use that in \<open>simp_all add: t_def\<close>)
  have "placed (insert x {}) t"
    by (rule placed_remove [OF I(3) vt(1) _ xin xp]) (use d q hm in auto)
  then have pl: "placed {} t"
    by (rule placed_out) (simp_all add: home_def t_def)
  show fr: "sched_frame {} s t"
    unfolding sched_frame_def using vt(1) xr by (auto simp: t_def keys_def k)
  show "pst t (currpid t) = PR_CURR" "currpid t = x" by (simp_all add: t_def)
  show rt: "readyq t = xs" using vt(1) by (simp add: t_def)
  have "wf_ids t" by (rule wf_ids_cong [OF I(2) vt(2)]) (simp_all add: t_def)
  moreover have "wf_procs t"
    using I(4) nc xp by (auto simp: wf_procs_def t_def)
  moreover have "key_sorted (queuetab t) (readyq t)"
    using key_sorted_ConsD [of "queuetab s" x xs] I(5) q key_sorted_cong [of qt' xs "queuetab s"] vt(1) k
    by (simp add: t_def keys_def)
  ultimately show "kinv_but {} t" using vt(3) pl by (simp add: kinv_but_def)
  have "\<forall>y\<in>set xs. qkey (queuetab s y) \<le> qkey (queuetab s x)"
    using I(5) q by (simp add: key_sorted_def keys_def)
  then show "sync t \<and> top_prio t" if "sync s"
    using that d rt q k by (auto simp: sync_def top_prio_def t_def)
qed

lemma resched_switch:
  assumes inv: "kinv_but {} s" and d: "ndefers s = 0" and nc: "pst s (currpid s) \<noteq> PR_CURR"
    and q: "readyq s = x # xs"
  obtains t where "resched s = Some t" "kinv_but {} t" "pst t (currpid t) = PR_CURR"
    "currpid t = x" "readyq t = xs" "sched_frame {} s t" "sync s \<Longrightarrow> sync t \<and> top_prio t"
proof -
  note I = kinv_butD [OF inv]
  obtain qt' where D: "dequeue (readylist s) s = (x, set_qtab qt' s)" "wf_queues (set_qtab qt' s)"
    "qview (set_qtab qt' s) = (qview s)(readylist s := xs)" "\<And>j. qkey (qt' j) = qkey (queuetab s j)"
    using dequeue_view [OF I(1) q] by metis
  have "pst s p \<noteq> PR_CURR" if "p \<in> pids" for p using wf_procsD(2) [OF I(4) that] nc by auto
  note M = make_current [OF inv q this D(2-4)]
  show ?thesis
    by (rule that [OF _ M]) (use d nc D(1) in \<open>simp add: resched_def Let_def\<close>)
qed

text \<open>Putting a process that is in no queue on the ready list.\<close>

lemma make_ready:
  assumes inv: "kinv_but X s" and X: "X = {p} \<or> X = {} \<and> home s p = None" and p: "\<not> isbadpid s p" "p \<noteq> NULLPROC \<or> runnable (pst s p)"
  obtains qt' where
    "insert_q p (readylist s) (prprio (proctab s p)) (set_prstate p PR_READY s) = Some (OK, set_qtab qt' (set_prstate p PR_READY s))"
    "kinv_but {} (set_qtab qt' (set_prstate p PR_READY s))"
    "readyq (set_qtab qt' (set_prstate p PR_READY s)) = insert_at_key (\<lambda>y. qkey (queuetab s y)) p (prprio (proctab s p)) (readyq s)"
    "\<And>j. qkey (qt' j) = (if j = p then prprio (proctab s p) else qkey (queuetab s j))"
    "sched_frame {p} s (set_qtab qt' (set_prstate p PR_READY s))"
    "sync s \<Longrightarrow> sync (set_qtab qt' (set_prstate p PR_READY s))"
proof -
  let ?s = "set_prstate p PR_READY s" and ?k = "\<lambda>y. qkey (queuetab s y)" and ?key = "prprio (proctab s p)"
  note I = kinv_butD [OF inv]
  have pp: "p \<in> pids" using p(1) by (rule isbadpid_pids)
  have pl: "placed {p} s" using I(3) X placed_homeless [of "{}" s p] by auto
  have vs: "qview ?s = qview s" "kqueues ?s = kqueues s" "wf_queues ?s" using qview_cong [of ?s s] I(1) by auto
  have nq: "\<not> in_queue ?s p" using placed_in_queue [OF I(1) pl pp] vs(1) by (simp add: in_queue_iff)
  then have np: "p \<notin> set (qview s q)" for q using vs(1) by (auto simp: in_queue_iff)
  have nb: "\<not> isbadpid ?s p" using pp by (simp add: pids_notbad)
  have rl: "readylist s \<in> kqueues ?s" using wf_idsD(1) [OF I(2)] vs(2) by simp
  obtain qt' where Q: "insert_q p (readylist s) ?key ?s = Some (OK, set_qtab qt' ?s)" "wf_queues (set_qtab qt' ?s)"
    "qview (set_qtab qt' ?s) = (qview s)(readylist s := insert_at_key ?k p ?key (readyq s))"
    "\<And>j. qkey (qt' j) = (if j = p then ?key else ?k j)"
    by (rule insert_q_view [OF vs(3) rl nb nq wf_procsD(3) [OF I(4) pp], unfolded vs(1) upd_proc_frame]) blast
  let ?t = "set_qtab qt' ?s"
  have hm: "home ?t x = home s x" if "x \<noteq> p" for x
    by (rule home_cong) (use that in auto)
  have "placed {} ?t"
    by (rule placed_insert [OF pl Q(3)]) (use pp hm in \<open>auto simp: home_def\<close>)
  moreover have "wf_ids ?t" by (rule wf_ids_cong [OF I(2)]) (simp_all add: vs)
  moreover have "wf_procs ?t" using I(4) p(2) by (auto simp: wf_procs_def)
  moreover have "key_sorted qt' (readyq ?t)"
    using insert_at_key_sorted [of ?k "readyq s" p "\<lambda>j. qkey (qt' j)" ?key] I(5) np Q(3,4)
    by (auto simp: key_sorted_def keys_def fun_eq_iff)
  ultimately have k: "kinv_but {} ?t" using Q(2) by (simp add: kinv_but_def)
  have f: "sched_frame {p} s ?t"
    unfolding sched_frame_def using Q(3) np Q(4) by (auto simp: keys_def)
  have y: "sync s \<Longrightarrow> sync ?t" using Q(3,4) by (auto simp: sync_def)
  show ?thesis by (rule that [OF Q(1) k _ Q(4) f y]) (simp add: Q(3))
qed

text \<open>
  \<^verbatim>\<open>resched\<close> always comes back with a current process; the one it leaves behind is ready
  again when it was eligible.
\<close>

lemma resched_ok:
  assumes inv: "kinv_but {} s" and d: "ndefers s = 0"
  obtains t where "resched s = Some t" "kinv_but {} t" "pst t (currpid t) = PR_CURR" "sched_frame {} s t"
    "sync s \<Longrightarrow> sync t \<and> top_prio t" "pst s (currpid s) \<noteq> PR_CURR \<Longrightarrow> currpid t = hd (readyq s) \<and> readyq t = tl (readyq s)"
proof (cases "pst s (currpid s) = PR_CURR")
  case False
  then obtain x xs where "readyq s = x # xs"
    using readyq_nonempty [OF inv] by (cases "readyq s") auto
  then show thesis
    using resched_switch [OF inv d False] that by (metis list.sel(1,3))
next
  case cur: True
  let ?c = "currpid s" and ?pr = "prprio (proctab s (currpid s))"
  note I = kinv_butD [OF inv]
  have cp: "?c \<in> pids" by (rule wf_procsD(1) [OF I(4)])
  have isq: "is_queue (queuetab s) (readylist s) (readyq s)"
    using qview_is_queue [OF I(1)] wf_idsD(1) [OF I(2)] by simp
  show thesis
  proof (cases "?pr > firstkey (queuetab s) (readylist s)")
    case True
    then have r: "resched s = Some s" using d cur by (simp add: resched_def Let_def)
    have "\<forall>y\<in>set (readyq s). qkey (queuetab s y) < ?pr"
    proof (cases "readyq s")
      case (Cons x xs)
      then have "firstkey (queuetab s) (readylist s) = qkey (queuetab s x)"
        using is_queue_firstid [OF isq] by (simp add: firstkey_def)
      then show ?thesis using True I(5) Cons by (auto simp: key_sorted_def keys_def)
    qed simp
    then have "sync s \<Longrightarrow> top_prio s" by (fastforce simp: sync_def top_prio_def)
    then show thesis using that [OF r inv cur] cur by (simp add: sched_frame_refl)
  next
    case False
    then have ge: "?pr \<le> firstkey (queuetab s) (readylist s)" by simp
    have "readyq s \<noteq> []"
    proof
      assume "readyq s = []"
      then have "firstkey (queuetab s) (readylist s) = MINKEY"
        using is_queue_firstid [OF isq] wf_qtabD(3) [of "queuetab s" "kqueues s" "readylist s"] I(1) wf_idsD(1) [OF I(2)]
        by (simp add: firstkey_def wf_queues_def)
      then show False using ge wf_procsD(3) [OF I(4) cp] by simp
    qed
    then obtain x xs where q: "readyq s = x # xs" by (cases "readyq s") auto
    then have kx: "qkey (queuetab s x) \<ge> ?pr"
      using ge is_queue_firstid [OF isq] by (simp add: firstkey_def)
    have nb: "\<not> isbadpid s ?c" using cp cur by (simp add: pids_notbad)
    obtain qt1 where M: "insert_q ?c (readylist s) ?pr (set_prstate ?c PR_READY s) = Some (OK, set_qtab qt1 (set_prstate ?c PR_READY s))"
      "kinv_but {} (set_qtab qt1 (set_prstate ?c PR_READY s))"
      "readyq (set_qtab qt1 (set_prstate ?c PR_READY s)) = insert_at_key (\<lambda>y. qkey (queuetab s y)) ?c ?pr (readyq s)"
      "\<And>j. qkey (qt1 j) = (if j = ?c then ?pr else qkey (queuetab s j))"
      "sched_frame {?c} s (set_qtab qt1 (set_prstate ?c PR_READY s))"
      "sync s \<Longrightarrow> sync (set_qtab qt1 (set_prstate ?c PR_READY s))"
      by (rule make_ready [OF inv _ nb]) (use cur in simp_all)
    let ?s1 = "set_qtab qt1 (set_prstate ?c PR_READY s)"
    have q1: "readyq ?s1 = x # insert_at_key (\<lambda>y. qkey (queuetab s y)) ?c ?pr xs"
      unfolding M(3) q using kx by (simp add: insert_at_key_def)
    have nc: "pst ?s1 (currpid ?s1) \<noteq> PR_CURR" "ndefers ?s1 = 0" using d by simp_all
    obtain t where T: "resched ?s1 = Some t" "kinv_but {} t" "pst t (currpid t) = PR_CURR" "sched_frame {} ?s1 t"
        "sync ?s1 \<Longrightarrow> sync t \<and> top_prio t"
      using resched_switch [OF M(2) nc(2,1) q1] by metis
    have "resched s = Some t"
      using T(1) d cur False M(1) by (simp add: resched_def Let_def)
    moreover have "sched_frame {} s t"
      using sched_frame_shrink [OF sched_frame_trans [OF M(5) T(4)]] cur by simp
    ultimately show thesis using that T M(6) cur by blast
  qed
qed

lemma resched_deferred: "0 < ndefers s \<Longrightarrow> resched s = Some (s\<lparr>attempt := True\<rparr>)"
  by (simp add: resched_def)

lemma ready_ok:
  assumes inv: "kinv_but X s" and X: "X = {p} \<or> X = {} \<and> home s p = None"
    and p: "\<not> isbadpid s p" "p \<noteq> NULLPROC \<or> runnable (pst s p)" and d: "0 \<le> ndefers s"
  obtains t where "ready p s = Some (OK, t)" "kinv_but {} t" "sched_frame {p} s t" "sync s \<Longrightarrow> sync t"
    "ndefers s = 0 \<Longrightarrow> pst t (currpid t) = PR_CURR \<and> (sync s \<longrightarrow> top_prio t)"
    "0 < ndefers s \<Longrightarrow> currpid t = currpid s \<and> attempt t \<and> (\<forall>x. pst t x = (if x = p then PR_READY else pst s x)) \<and>
       readyq t = insert_at_key (\<lambda>y. qkey (queuetab s y)) p (prprio (proctab s p)) (readyq s)"
proof -
  let ?pr = "prprio (proctab s p)" and ?s = "set_prstate p PR_READY s"
  obtain qt1 where M: "insert_q p (readylist s) ?pr ?s = Some (OK, set_qtab qt1 ?s)"
      "kinv_but {} (set_qtab qt1 ?s)"
      "readyq (set_qtab qt1 ?s) = insert_at_key (\<lambda>y. qkey (queuetab s y)) p ?pr (readyq s)"
      "sched_frame {p} s (set_qtab qt1 ?s)" "sync s \<Longrightarrow> sync (set_qtab qt1 ?s)"
    using make_ready [OF inv X p] by metis
  let ?s1 = "set_qtab qt1 ?s"
  have rd: "ready p s = do { t \<leftarrow> resched ?s1; Some (OK, t) }"
    using p(1) M(1) by (simp add: ready_def Let_def)
  show thesis
  proof (cases "ndefers s = 0")
    case True
    then have d1: "ndefers ?s1 = 0" by simp
    obtain t where T: "resched ?s1 = Some t" "kinv_but {} t" "pst t (currpid t) = PR_CURR" "sched_frame {} ?s1 t"
        "sync ?s1 \<Longrightarrow> sync t \<and> top_prio t"
      using resched_ok [OF M(2) d1] by metis
    have "sched_frame {p} s t" using sched_frame_trans [OF M(4) T(4)] by simp
    then show thesis using that [OF _ T(2)] rd T M(5) True by simp
  next
    case False
    let ?t = "?s1\<lparr>attempt := True\<rparr>"
    have v: "qview ?t = qview ?s1" by (rule qview_cong) simp_all
    have k: "kinv_but {} ?t" by (rule kinv_but_cong [OF M(2)]) simp_all
    have f: "sched_frame {p} s ?t"
      using M(4) v by (simp add: sched_frame_def) metis
    have y: "sync s \<Longrightarrow> sync ?t" using M(5) v by (simp add: sync_def)
    show thesis
      by (rule that [OF _ k f y]) (use rd False d M(3) v in \<open>auto simp: resched_deferred\<close>)
  qed
qed

section \<open>Deferral\<close>

lemma defer_start:
  "resched_cntl DEFER_START s = Some (OK, s\<lparr>ndefers := ndefers s + 1, attempt := (ndefers s \<noteq> 0 \<and> attempt s)\<rparr>)"
  by (auto simp: resched_cntl_def Let_def)

lemma kinv_defer:
  assumes "kinv_but {} s" "pst s (currpid s) = PR_CURR" "ndefers s = 0"
  obtains t where "resched_cntl DEFER_START s = Some (OK, t)" "kmid t" "t = s\<lparr>ndefers := 1, attempt := False\<rparr>"
    "qview t = qview s"
proof
  let ?t = "s\<lparr>ndefers := 1, attempt := False\<rparr>"
  show "resched_cntl DEFER_START s = Some (OK, ?t)" using assms(3) by (simp add: defer_start)
  show "kmid ?t" using kinv_but_cong [OF assms(1), of ?t] assms(2) by (simp add: kmid_def)
  show "qview ?t = qview s" by (rule qview_cong) simp_all
qed simp

lemma defer_stop:
  assumes m: "kmid s" and d: "ndefers s = 1"
  obtains t where "resched_cntl DEFER_STOP s = Some (OK, t)" "kinv_but {} t" "pst t (currpid t) = PR_CURR"
    "ndefers t = 0" "sched_frame {} (s\<lparr>ndefers := 0\<rparr>) t" "sync s \<Longrightarrow> attempt s \<or> top_prio s \<Longrightarrow> sync t \<and> top_prio t"
proof -
  let ?s = "s\<lparr>ndefers := 0\<rparr>"
  have k: "kinv_but {} ?s" using m kinv_but_cong [of "{}" s ?s] by (simp add: kmid_def)
  have v: "qview ?s = qview s" by (rule qview_cong) simp_all
  have y: "sync ?s = sync s" "top_prio ?s = top_prio s" using v by (simp_all add: sync_def top_prio_def)
  show thesis
  proof (cases "attempt s")
    case True
    obtain t where T: "resched ?s = Some t" "kinv_but {} t" "pst t (currpid t) = PR_CURR" "sched_frame {} ?s t"
        "sync ?s \<Longrightarrow> sync t \<and> top_prio t"
      by (rule resched_ok [OF k]) (simp, blast)
    show thesis
      by (rule that [of t]) (use True d T y sched_frameD(7) [OF T(4)] in \<open>auto simp: resched_cntl_def DEFER_START_def DEFER_STOP_def Let_def\<close>)
  next
    case False
    show thesis
      by (rule that [of ?s]) (use False d m k y in \<open>auto simp: resched_cntl_def DEFER_START_def DEFER_STOP_def Let_def kmid_def sched_frame_refl\<close>)
  qed
qed

section \<open>Waking the first of a queue\<close>

text \<open>
  The body common to \<^verbatim>\<open>signal\<close>, \<^verbatim>\<open>signaln\<close>, \<^verbatim>\<open>semdelete\<close>, \<^verbatim>\<open>semreset\<close> and \<^verbatim>\<open>wakeup\<close>: the
  first process is taken off the queue, by \<^verbatim>\<open>dequeue\<close> or \<^verbatim>\<open>getfirst\<close>, and made ready.
\<close>

lemma wake_taken:
  assumes inv: "kinv_but {} s" and d: "0 \<le> ndefers s" and q: "qview s q = x # xs" "q \<noteq> readylist s"
    and wf: "wf_queues (set_qtab qt' s)" and v: "qview (set_qtab qt' s) = (qview s)(q := xs)"
    and k: "\<And>j. qkey (qt' j) = qkey (queuetab s j)"
  obtains t where "ready x (set_qtab qt' s) = Some (OK, t)" "kinv_but {} t" "sched_frame {x} (set_qtab qt' s) t"
    "qview t q = xs" "\<And>r. r \<noteq> readylist s \<Longrightarrow> r \<noteq> q \<Longrightarrow> qview t r = qview s r" "sync s \<Longrightarrow> sync t"
    "ndefers s = 0 \<Longrightarrow> pst t (currpid t) = PR_CURR \<and> (sync s \<longrightarrow> top_prio t)"
    "0 < ndefers s \<Longrightarrow> currpid t = currpid s \<and> attempt t \<and> pst t (currpid s) = pst s (currpid s) \<or> x = currpid s"
proof -
  let ?s = "set_qtab qt' s"
  note I = kinv_butD [OF inv]
  have x: "x \<in> set (qview s q)" using q by simp
  have dx: "x \<notin> set xs" using qview_distinct [OF I(1), of q] q(1) by simp
  have xn: "x \<noteq> NULLPROC" using waiter_not_null [OF inv x q(2)] .
  have srt: "key_sorted qt' (((qview s)(q := xs)) (readylist s))"
    using I(5) q(2) k by (simp add: key_sorted_def keys_def)
  have k1: "kinv_but {x} ?s"
    by (rule kinv_but_unqueue [OF inv x xn wf v _ srt]) (use q dx in auto)
  have nb: "\<not> isbadpid ?s x" using qview_notfree [OF inv x] by (simp add: isbadpid_def)
  have sy: "sync ?s = sync s" using v q(2) k by (simp add: sync_def)
  have d1: "0 \<le> ndefers ?s" using d by simp
  obtain t where T: "ready x ?s = Some (OK, t)" "kinv_but {} t" "sched_frame {x} ?s t" "sync ?s \<Longrightarrow> sync t"
    "ndefers ?s = 0 \<Longrightarrow> pst t (currpid t) = PR_CURR \<and> (sync ?s \<longrightarrow> top_prio t)"
    "0 < ndefers ?s \<Longrightarrow> currpid t = currpid ?s \<and> attempt t \<and> (\<forall>y. pst t y = (if y = x then PR_READY else pst ?s y))"
    by (rule ready_ok [OF k1 _ nb _ d1]) (use xn in simp_all)
  show thesis
    by (rule that [OF T(1-3)]) (use T(4-6) sy q(2) sched_frameD(17) [OF T(3)] v in auto)
qed

end
