(* ===== verification/Boot.thy ===== *)
theory Boot
  imports Scheduler
begin

text \<open>
  The parts of system initialization that set up the kernel's own tables: \<^verbatim>\<open>sysinit\<close>
  (\<^verbatim>\<open>system/initialize.c\<close>) up to its call of \<^verbatim>\<open>bufinit\<close>, and its ready list and \<^verbatim>\<open>clkinit\<close>
  (\<^verbatim>\<open>system/platform/arm-qemu/clkinit.c\<close>). \<^verbatim>\<open>sysinit\<close> as a whole, with the buffer pools and the
  initializers of the devices, is put together in the theory \<open>Startup\<close>. Programming the
  timer is not modelled. \<open>lo\<close> and \<open>hi\<close> are the bounds of the heap that the linker and the
  platform supply to \<^verbatim>\<open>meminit\<close>.
\<close>

section \<open>The operations\<close>

definition NULLSTK :: uint32 where "NULLSTK = 8192"

definition clkinit :: "kstate \<Rightarrow> kstate" where
  "clkinit s =
    (let (q, s1) = newqueue s in s1\<lparr>sleepq := q, preempt := QUANTUM, clktime := 0\<rparr>)"

definition proc_init :: "pid32 \<Rightarrow> kstate \<Rightarrow> kstate" where
  "proc_init i = upd_proc i (\<lambda>e. e\<lparr>prstate := PR_FREE, prname := [], prstkbase := 0, prprio := 0\<rparr>)"

definition sem_init :: "sid32 \<Rightarrow> kstate \<Rightarrow> kstate" where
  "sem_init i s =
    (let s1 = upd_sem i (\<lambda>e. e\<lparr>sstate := S_FREE, scount := 0\<rparr>) s;
         (q, s2) = newqueue s1
     in upd_sem i (\<lambda>e. e\<lparr>squeue := q\<rparr>) s2)"

text \<open>The free memory list, the process table with the null process, and the semaphores.\<close>

definition sysinit_tables :: "uint32 \<Rightarrow> uint32 \<Rightarrow> kstate \<Rightarrow> kstate option" where
  "sysinit_tables lo hi s =
    do {
      let s1 = s\<lparr>kmem := meminit lo hi (kmem s)\<rparr>;
      let s2 = s1\<lparr>prcount := 1, ndefers := 0\<rparr>;
      let s3 = fold proc_init [0..NPROC - 1] s2;
      let s4 = upd_proc NULLPROC (\<lambda>e. e\<lparr>prstate := PR_CURR, prprio := 0, prname := ''prnull''\<rparr>) s3;
      (base, m) \<leftarrow> getstk NULLSTK (kmem s4);
      let s5 = upd_proc NULLPROC (\<lambda>e. e\<lparr>prstkbase := base, prstklen := NULLSTK, prstkptr := 0\<rparr>) (s4\<lparr>kmem := m\<rparr>);
      let s6 = s5\<lparr>currpid := NULLPROC\<rparr>;
      Some (fold sem_init [0..NSEM - 1] s6)
    }"

text \<open>The ready list and the clock.\<close>

definition sysinit_queues :: "kstate \<Rightarrow> kstate" where
  "sysinit_queues s = (let (q, s1) = newqueue s in clkinit (s1\<lparr>readylist := q\<rparr>))"

text \<open>The kernel of a system without buffer pools and devices.\<close>

definition kernel_start :: "uint32 \<Rightarrow> uint32 \<Rightarrow> kstate \<Rightarrow> kstate option" where
  "kernel_start lo hi s = map_option sysinit_queues (sysinit_tables lo hi s)"

section \<open>What initialization establishes\<close>

lemma newqueue_frame:
  "proctab (snd (newqueue s)) = proctab s" "semtab (snd (newqueue s)) = semtab s" "currpid (snd (newqueue s)) = currpid s"
  "ndefers (snd (newqueue s)) = ndefers s" "kmem (snd (newqueue s)) = kmem s" "readylist (snd (newqueue s)) = readylist s"
  "sleepq (snd (newqueue s)) = sleepq s" "prcount (snd (newqueue s)) = prcount s" "nextpid (snd (newqueue s)) = nextpid s"
  "nextsem (snd (newqueue s)) = nextsem s"
  by (simp_all add: newqueue_def Let_def)

lemma newqueue_next: "nextqid s < NQENT \<Longrightarrow> nextqid (snd (newqueue s)) = nextqid s + 2"
  by (simp add: newqueue_def Let_def)

lemma fold_proc_init:
  "fold proc_init xs s = s\<lparr>proctab := (\<lambda>p. if p \<in> set xs
     then (proctab s p)\<lparr>prstate := PR_FREE, prname := [], prstkbase := 0, prprio := 0\<rparr> else proctab s p)\<rparr>"
proof (induction xs arbitrary: s)
  case Nil
  then show ?case by simp
next
  case (Cons x xs)
  then show ?case by (auto simp: proc_init_def upd_proc_def fun_eq_iff)
qed

text \<open>\<open>k\<close> semaphores are initialized: each has a queue of its own, all of them empty.\<close>

definition sems_upto :: "int \<Rightarrow> kstate \<Rightarrow> bool" where
  "sems_upto k s \<longleftrightarrow>
    wf_queues s \<and> nextqid s = NPROC + 2 * k \<and> (\<forall>q. qview s q = []) \<and>
    (\<forall>i. 0 \<le> i \<and> i < k \<longrightarrow> semtab s i = \<lparr>sstate = S_FREE, scount = 0, squeue = NPROC + 2 * i\<rparr>)"

lemma sem_init_upto:
  assumes "sems_upto k s" and "0 \<le> k" "k < NSEM"
  shows "sems_upto (k + 1) (sem_init k s)"
proof -
  let ?s1 = "upd_sem k (\<lambda>e. e\<lparr>sstate := S_FREE, scount := 0\<rparr>) s"
  have a: "wf_queues s" "nextqid s = NPROC + 2 * k" "\<And>q. qview s q = []"
    "\<And>i. 0 \<le> i \<and> i < k \<Longrightarrow> semtab s i = \<lparr>sstate = S_FREE, scount = 0, squeue = NPROC + 2 * i\<rparr>"
    using assms(1) by (auto simp: sems_upto_def)
  have v: "qview ?s1 = qview s" "wf_queues ?s1" using qview_cong [of ?s1 s] a(1) by auto
  have nq: "nextqid ?s1 < NQENT" using a(2) assms(3) by (simp add: size_defs)
  note N = newqueue_fresh [OF v(2) nq]
  let ?t = "sem_init k s"
  have t: "?t = upd_sem k (\<lambda>e. e\<lparr>squeue := NPROC + 2 * k\<rparr>) (snd (newqueue ?s1))"
    using N(1) a(2) by (simp add: sem_init_def Let_def case_prod_beta)
  have vt: "qview ?t = qview s" "wf_queues ?t" "nextqid ?t = NPROC + 2 * (k + 1)"
    using qview_cong [of ?t "snd (newqueue ?s1)"] N(2,3) v(1) newqueue_next [OF nq] a(2) by (auto simp: t)
  have "semtab ?t i = \<lparr>sstate = S_FREE, scount = 0, squeue = NPROC + 2 * i\<rparr>" if "0 \<le> i \<and> i < k + 1" for i
    using a(4) [of i] that by (cases "i = k") (auto simp: t newqueue_frame)
  then show ?thesis using vt a(3) by (simp add: sems_upto_def)
qed

lemma sem_init_frame:
  "proctab (sem_init i s) = proctab s" "currpid (sem_init i s) = currpid s" "ndefers (sem_init i s) = ndefers s"
  "kmem (sem_init i s) = kmem s" "prcount (sem_init i s) = prcount s" "nextpid (sem_init i s) = nextpid s"
  "nextsem (sem_init i s) = nextsem s"
  by (simp_all add: sem_init_def Let_def newqueue_frame case_prod_beta)

lemma fold_sem_init:
  assumes "sems_upto k s" and "0 \<le> k" "k \<le> NSEM"
  shows "sems_upto NSEM (fold sem_init [k..NSEM - 1] s)"
    "proctab (fold sem_init [k..NSEM - 1] s) = proctab s" "currpid (fold sem_init [k..NSEM - 1] s) = currpid s"
    "ndefers (fold sem_init [k..NSEM - 1] s) = ndefers s" "kmem (fold sem_init [k..NSEM - 1] s) = kmem s"
    "prcount (fold sem_init [k..NSEM - 1] s) = prcount s" "nextpid (fold sem_init [k..NSEM - 1] s) = nextpid s"
    "nextsem (fold sem_init [k..NSEM - 1] s) = nextsem s"
proof -
  have "sems_upto NSEM (fold sem_init [k..NSEM - 1] s) \<and> proctab (fold sem_init [k..NSEM - 1] s) = proctab s \<and>
    currpid (fold sem_init [k..NSEM - 1] s) = currpid s \<and> ndefers (fold sem_init [k..NSEM - 1] s) = ndefers s \<and>
    kmem (fold sem_init [k..NSEM - 1] s) = kmem s \<and> prcount (fold sem_init [k..NSEM - 1] s) = prcount s \<and>
    nextpid (fold sem_init [k..NSEM - 1] s) = nextpid s \<and> nextsem (fold sem_init [k..NSEM - 1] s) = nextsem s"
    using assms
  proof (induction "nat (NSEM - k)" arbitrary: k s)
    case 0
    then show ?case by simp
  next
    case (Suc n)
    then have k: "k < NSEM" "n = nat (NSEM - (k + 1))" by auto
    have "[k..NSEM - 1] = k # [k + 1..NSEM - 1]" using k(1) by (simp add: upto_rec1)
    then show ?case
      using Suc(1) [OF k(2) sem_init_upto [OF Suc(3,4) k(1)]] Suc(4) k(1) by (simp add: sem_init_frame)
  qed
  then show "sems_upto NSEM (fold sem_init [k..NSEM - 1] s)"
    "proctab (fold sem_init [k..NSEM - 1] s) = proctab s" "currpid (fold sem_init [k..NSEM - 1] s) = currpid s"
    "ndefers (fold sem_init [k..NSEM - 1] s) = ndefers s" "kmem (fold sem_init [k..NSEM - 1] s) = kmem s"
    "prcount (fold sem_init [k..NSEM - 1] s) = prcount s" "nextpid (fold sem_init [k..NSEM - 1] s) = nextpid s"
    "nextsem (fold sem_init [k..NSEM - 1] s) = nextsem s"
    by blast+
qed

lemma boot_kinv:
  assumes su: "sems_upto NSEM s" and c: "currpid s = NULLPROC" and d: "ndefers s = 0"
    and pr: "\<forall>p\<in>pids. pst s p = (if p = NULLPROC then PR_CURR else PR_FREE) \<and> prprio (proctab s p) = 0"
  defines "s1 \<equiv> (snd (newqueue s))\<lparr>readylist := fst (newqueue s)\<rparr>"
  shows "kinv (clkinit s1)" "sync (clkinit s1)" "qview (clkinit s1) q = []"
    "readylist (clkinit s1) = 300" "sleepq (clkinit s1) = 302" "proctab (clkinit s1) = proctab s" "currpid (clkinit s1) = NULLPROC"
    "kmem (clkinit s1) = kmem s" "semtab (clkinit s1) = semtab s" "nextsem (clkinit s1) = nextsem s" "nextpid (clkinit s1) = nextpid s"
proof -
  let ?t = "clkinit s1"
  note p = bspec [OF pr]
  have a: "wf_queues s" "nextqid s = 300" "\<And>q. qview s q = []"
    "\<And>i. i \<in> sems \<Longrightarrow> semtab s i = \<lparr>sstate = S_FREE, scount = 0, squeue = NPROC + 2 * i\<rparr>"
    using su by (auto simp: sems_upto_def size_defs)
  have n1: "nextqid s < NQENT" using a(2) by (simp add: size_defs)
  note N1 = newqueue_fresh [OF a(1) n1]
  have v1: "qview s1 = qview s" "kqueues s1 = insert 300 (kqueues s)" "wf_queues s1"
    using qview_cong [of s1 "snd (newqueue s)"] N1 a(2) by (auto simp: s1_def)
  have n2: "nextqid s1 = 302" "nextqid s1 < NQENT" using newqueue_next [OF n1] a(2) by (auto simp: s1_def size_defs)
  note N2 = newqueue_fresh [OF v1(3) n2(2)]
  have t: "?t = (snd (newqueue s1))\<lparr>sleepq := 302, preempt := QUANTUM, clktime := 0\<rparr>"
    using N2(1) n2(1) by (simp add: clkinit_def case_prod_beta)
  have vt: "qview ?t = qview s" "kqueues ?t = insert 302 (insert 300 (kqueues s))" "wf_queues ?t"
    using qview_cong [of ?t "snd (newqueue s1)"] N2 n2(1) v1 by (auto simp: t)
  show q0: "qview ?t q = []" for q using vt(1) a(3) by simp
  show f: "readylist ?t = 300" "sleepq ?t = 302" "proctab ?t = proctab s" "currpid ?t = NULLPROC"
    "kmem ?t = kmem s" "semtab ?t = semtab s" "nextsem ?t = nextsem s" "nextpid ?t = nextpid s"
    unfolding t using N1(1) a(2) c by (simp_all add: s1_def newqueue_frame)
  have kq: "NPROC + 2 * i \<in> kqueues s" if "i \<in> sems" for i
    using that a(2) by (auto simp: kqueues_def size_defs)
  have "wf_ids ?t"
    using a(4) kq by (auto simp: wf_ids_def f vt(2) size_defs inj_on_def)
  moreover have "home ?t p = None" if "p \<in> pids" for p
    using p [OF that] f(3) by (simp add: home_def)
  then have "placed {} ?t" using q0 by (simp add: placed_def)
  moreover have "wf_procs ?t" using p f(3,4) by (auto simp: wf_procs_def)
  moreover have "key_sorted (queuetab ?t) (readyq ?t)" using q0 by (simp add: key_sorted_def keys_def)
  ultimately have "kinv_but {} ?t" using vt(3) by (simp add: kinv_but_def)
  moreover have "sem_ok ?t i" if "i \<in> sems" for i using a(4) [OF that] f(6) q0 by (simp add: sem_ok_def)
  moreover have "ndefers ?t = 0" unfolding t using d by (simp add: s1_def newqueue_frame)
  ultimately show "kinv ?t" using p [of NULLPROC] f(3,4) by (simp add: kinv_def)
  show "sync ?t" using q0 by (simp add: sync_def)
qed

lemma kernel_start_ok:
  assumes n: "nextqid s = NPROC" and h: "0 < lo" "lo < hi" "8 dvd unat (hi - lo)"
  obtains t bs base where "kernel_start lo hi s = Some t" "kinv t" "sync t" "\<And>q. qview t q = []" "heap_ok (kmem t) bs"
    "\<And>p. p \<in> pids \<Longrightarrow> pst t p = (if p = NULLPROC then PR_CURR else PR_FREE)" "currpid t = NULLPROC"
    "\<And>i. i \<in> sems \<Longrightarrow> semtab t i = \<lparr>sstate = S_FREE, scount = 0, squeue = NPROC + 2 * i\<rparr>"
    "readylist t = 300" "sleepq t = 302" "\<And>p. p \<in> pids \<Longrightarrow> prprio (proctab t p) = 0"
    "nextsem t = nextsem s" "nextpid t = nextpid s" "getstk NULLSTK (meminit lo hi (kmem s)) = Some (base, kmem t)"
proof -
  let ?s2 = "s\<lparr>kmem := meminit lo hi (kmem s), prcount := 1, ndefers := 0\<rparr>"
  let ?s4 = "upd_proc NULLPROC (\<lambda>e. e\<lparr>prstate := PR_CURR, prprio := 0, prname := ''prnull''\<rparr>) (fold proc_init [0..NPROC - 1] ?s2)"
  have ho: "heap_ok (meminit lo hi (kmem s)) [(lo, hi - lo)]" using meminit_ok [OF h] .
  have ns: "NULLSTK \<noteq> 0" "unat NULLSTK \<le> 2 ^ 32 - 8" by (simp_all add: NULLSTK_def)
  obtain base m bs where g: "getstk NULLSTK (meminit lo hi (kmem s)) = Some (base, m)" "heap_ok m bs"
    using getstk_cases [OF ho ns] ho by metis
  let ?s6 = "upd_proc NULLPROC (\<lambda>e. e\<lparr>prstkbase := base, prstklen := NULLSTK, prstkptr := 0\<rparr>) (?s4\<lparr>kmem := m\<rparr>)\<lparr>currpid := NULLPROC\<rparr>"
  let ?s7 = "fold sem_init [0..NSEM - 1] ?s6"
  have q6: "nextqid ?s6 = NPROC" using n by (simp add: fold_proc_init)
  then have "kqueues ?s6 = {}" by (auto simp: kqueues_def)
  then have "sems_upto 0 ?s6" using q6 by (auto simp: sems_upto_def wf_queues_def wf_qtab_def qview_def size_defs)
  note S = fold_sem_init [OF this order_refl less_imp_le [OF NPROC_pos(3)]]
  have st: "\<forall>p\<in>pids. pst ?s7 p = (if p = NULLPROC then PR_CURR else PR_FREE) \<and> prprio (proctab ?s7 p) = 0"
    unfolding S(2) by (auto simp: fold_proc_init)
  have cd: "currpid ?s7 = NULLPROC" "ndefers ?s7 = 0" unfolding S(3,4) by (simp_all add: fold_proc_init)
  note B = boot_kinv [OF S(1) cd st]
  let ?t = "clkinit ((snd (newqueue ?s7))\<lparr>readylist := fst (newqueue ?s7)\<rparr>)"
  have k6: "kmem ?s4 = meminit lo hi (kmem s)" by (simp add: fold_proc_init)
  have run: "kernel_start lo hi s = Some ?t"
    using g(1) k6 by (simp add: kernel_start_def sysinit_tables_def sysinit_queues_def Let_def case_prod_beta)
  have sm: "semtab ?s7 i = \<lparr>sstate = S_FREE, scount = 0, squeue = NPROC + 2 * i\<rparr>" if "i \<in> sems" for i
    using S(1) that by (auto simp: sems_upto_def)
  have "kmem ?t = m" by (rule trans [OF B(8)], rule trans [OF S(5)]) simp
  then have hk: "heap_ok (kmem ?t) bs" "getstk NULLSTK (meminit lo hi (kmem s)) = Some (base, kmem ?t)" using g by simp_all
  show thesis
    by (rule that [OF run B(1,2,3) hk(1) _ B(7) _ B(4,5) _ _ _ hk(2)])
      (use B(6,9) st sm in simp_all, simp_all only: B(10,11) S(7,8), simp_all add: fold_proc_init)
qed

section \<open>A booted system\<close>

text \<open>
  The image as the loader leaves it, all tables zero and the static cursors at their
  initial values, and the kernel just started from it, no device having taken a semaphore yet:
  the state in which the theorems of the development are instantiated.
\<close>

definition kload :: kstate where
  "kload = \<lparr>queuetab = (\<lambda>_. \<lparr>qkey = 0, qnext = 0, qprev = 0\<rparr>), nextqid = NPROC,
     proctab = (\<lambda>_. \<lparr>prstate = PR_FREE, prprio = 0, prstkptr = 0, prstkbase = 0, prstklen = 0, prname = [],
       prsem = 0, prparent = 0, prmsg = 0, prhasmsg = False, prdesc = [0, 0, 0, 0, 0]\<rparr>),
     nextpid = 1, prcount = 0, currpid = 0, readylist = 0,
     semtab = (\<lambda>_. \<lparr>sstate = S_FREE, scount = 0, squeue = 0\<rparr>), nextsem = 0, ndefers = 0, attempt = False,
     sleepq = 0, preempt = 0, clktime = 0, clkticks = 0, kmem = mem_zero, stkmem = (\<lambda>_. 0)\<rparr>"

definition kboot :: kstate where
  "kboot = the (kernel_start 0x10000 0x100000 kload)"

lemma kboot_facts:
  shows "kernel_start 0x10000 0x100000 kload = Some kboot" "kinv kboot" "sync kboot" "\<And>q. qview kboot q = []"
    "\<exists>bs. heap_ok (kmem kboot) bs" "\<And>p. p \<in> pids \<Longrightarrow> pst kboot p = (if p = NULLPROC then PR_CURR else PR_FREE)"
    "currpid kboot = NULLPROC"
    "\<And>i. i \<in> sems \<Longrightarrow> semtab kboot i = \<lparr>sstate = S_FREE, scount = 0, squeue = NPROC + 2 * i\<rparr>"
    "readylist kboot = 300" "sleepq kboot = 302" "\<And>p. p \<in> pids \<Longrightarrow> prprio (proctab kboot p) = 0"
    "nextsem kboot = 0" "nextpid kboot = 1" "\<exists>base. getstk NULLSTK (meminit 0x10000 0x100000 mem_zero) = Some (base, kmem kboot)"
proof -
  have n: "nextqid kload = NPROC" by (simp add: kload_def)
  have h: "(0 :: uint32) < 0x10000" "(0x10000 :: uint32) < 0x100000" "8 dvd unat (0x100000 - 0x10000 :: uint32)"
    by simp_all
  obtain t bs base where T: "kernel_start 0x10000 0x100000 kload = Some t" "kinv t" "sync t" "\<And>q. qview t q = []" "heap_ok (kmem t) bs"
    "\<And>p. p \<in> pids \<Longrightarrow> pst t p = (if p = NULLPROC then PR_CURR else PR_FREE)" "currpid t = NULLPROC"
    "\<And>i. i \<in> sems \<Longrightarrow> semtab t i = \<lparr>sstate = S_FREE, scount = 0, squeue = NPROC + 2 * i\<rparr>"
    "readylist t = 300" "sleepq t = 302" "\<And>p. p \<in> pids \<Longrightarrow> prprio (proctab t p) = 0"
    "nextsem t = nextsem kload" "nextpid t = nextpid kload" "getstk NULLSTK (meminit 0x10000 0x100000 (kmem kload)) = Some (base, kmem t)"
    by (rule kernel_start_ok [OF n h]) blast
  have t: "t = kboot" using T(1) by (simp add: kboot_def)
  show "kernel_start 0x10000 0x100000 kload = Some kboot" "kinv kboot" "sync kboot" "\<And>q. qview kboot q = []"
    "\<exists>bs. heap_ok (kmem kboot) bs" "\<And>p. p \<in> pids \<Longrightarrow> pst kboot p = (if p = NULLPROC then PR_CURR else PR_FREE)"
    "currpid kboot = NULLPROC"
    "\<And>i. i \<in> sems \<Longrightarrow> semtab kboot i = \<lparr>sstate = S_FREE, scount = 0, squeue = NPROC + 2 * i\<rparr>"
    "readylist kboot = 300" "sleepq kboot = 302" "\<And>p. p \<in> pids \<Longrightarrow> prprio (proctab kboot p) = 0"
    "nextsem kboot = 0" "nextpid kboot = 1" "\<exists>base. getstk NULLSTK (meminit 0x10000 0x100000 mem_zero) = Some (base, kmem kboot)"
    using T unfolding t by (auto simp: kload_def)
qed

text \<open>The booted system with a suspended process \<open>p\<close> of priority \<open>prio\<close>.\<close>

definition with_proc :: "pid32 \<Rightarrow> pri16 \<Rightarrow> kstate \<Rightarrow> kstate" where
  "with_proc p prio = upd_proc p (\<lambda>e. e\<lparr>prstate := PR_SUSP, prprio := prio, prhasmsg := False\<rparr>)"

lemma with_proc_kinv:
  assumes "kinv s" and "p \<in> pids" "pst s p = PR_FREE" "- 0x8000 \<le> prio" "prio < 0x8000"
  shows "kinv (with_proc p prio s)" "qview (with_proc p prio s) = qview s"
proof -
  have n: "p \<noteq> currpid s" "p \<noteq> NULLPROC"
    using assms(3) kinvD(2) [OF assms(1)] wf_procsD(5) [OF kinv_butD(4) [OF kinvD(1) [OF assms(1)]]] by auto
  have "home (with_proc p prio s) p = home s p" using assms(3) by (simp add: with_proc_def)
  then show "kinv (with_proc p prio s)" "qview (with_proc p prio s) = qview s"
    unfolding with_proc_def
    using kinv_upd_proc [OF assms(1), of p "\<lambda>e. e\<lparr>prstate := PR_SUSP, prprio := prio, prhasmsg := False\<rparr>"] n assms(4,5)
    by simp_all
qed

text \<open>Process 1, of priority 20, running; the null process ready.\<close>

definition krun :: kstate where
  "krun = snd (the (ready 1 (with_proc 1 20 kboot)))"

lemma krun_facts:
  shows "kinv krun" "sync krun" "top_prio krun" "currpid krun = 1" "readyq krun = [NULLPROC]" "readylist krun = 300" "sleepq krun = 302"
    "\<And>q. q \<noteq> 300 \<Longrightarrow> qview krun q = []" "semtab krun = semtab kboot" "nextsem krun = 0" "nextpid krun = 1" "kmem krun = kmem kboot"
    "\<And>p. p \<in> pids \<Longrightarrow> p \<noteq> 0 \<Longrightarrow> p \<noteq> 1 \<Longrightarrow> pst krun p = PR_FREE" "pst krun 1 = PR_CURR" "pst krun 0 = PR_READY"
    "ready 1 (with_proc 1 20 kboot) = Some (OK, krun)" "\<not> prhasmsg (proctab krun 1)" "prprio (proctab krun 1) = 20"
    "prprio (proctab krun 0) = 0"
proof -
  let ?s = "with_proc 1 20 kboot"
  have p1: "(1::int) \<in> pids" by (simp add: size_defs)
  have f1: "pst kboot 1 = PR_FREE" using kboot_facts(6) [OF p1] by (simp add: NULLPROC_def)
  have ks: "kinv ?s" "qview ?s = qview kboot" using with_proc_kinv [OF kboot_facts(2) p1 f1] by simp_all
  have nb: "\<not> isbadpid ?s 1" "home ?s 1 = None" using p1 by (simp_all add: pids_notbad with_proc_def)
  have sy: "sync ?s" using ks(2) kboot_facts(4) by (simp add: sync_def)
  obtain t where T: "ready 1 ?s = Some (OK, t)" "kinv_but {} t" "sched_frame {1} ?s t" "sync ?s \<Longrightarrow> sync t"
    "ndefers ?s = 0 \<Longrightarrow> pst t (currpid t) = PR_CURR \<and> (sync ?s \<longrightarrow> top_prio t)"
    by (rule ready_ok [OF kinvD(1) [OF ks(1)] _ nb(1)]) (use nb(2) kinvD(3) [OF ks(1)] in \<open>auto simp: NULLPROC_def\<close>)
  have t: "krun = t" using T(1) by (simp add: krun_def)
  note F = sched_frameD [OF T(3)] and I = kinv_butD [OF T(2)]
  have c: "pst t (currpid t) = PR_CURR" "top_prio t" using T(5) kinvD(3) [OF ks(1)] sy by simp_all
  have fr: "pst t p = PR_FREE" if "p \<in> pids" "p \<noteq> 0" "p \<noteq> 1" for p
    using F(16) [of p] that kboot_facts(6) [of p] by (simp add: with_proc_def NULLPROC_def)
  have cp: "currpid t \<in> pids" using wf_procsD(1) [OF I(4)] .
  have r1: "runnable (pst t 1)" and r0: "runnable (pst t 0)" using F(15) [of 1] wf_procsD(5) [OF I(4)] by (simp_all add: NULLPROC_def)
  have pr: "prprio (proctab t 1) = 20" "prprio (proctab t 0) = 0"
    using sched_frame_proc(1) [OF T(3)] kboot_facts(11) [OF null_in_pids] by (simp_all add: with_proc_def NULLPROC_def)
  have c1: "currpid t = 1"
  proof (rule ccontr)
    assume n: "currpid t \<noteq> 1"
    then have c0: "currpid t = 0" using c(1) fr [OF cp] by auto
    then have "pst t 1 = PR_READY" using r1 wf_procsD(2) [OF I(4) p1] by (auto simp: runnable_def)
    then have "1 \<in> set (readyq t)" using placedD [OF I(3) p1] by simp
    then show False using c(2) c0 pr by (auto simp: top_prio_def)
  qed
  have s0: "pst t 0 = PR_READY"
    using r0 wf_procsD(2) [OF I(4), of 0] c1 by (auto simp: runnable_def size_defs)
  have "set (readyq t) = {0}"
  proof -
    have "p \<in> set (readyq t) \<longleftrightarrow> p = 0" if p: "p \<in> pids" for p
      using placedD [OF I(3) p, of "readylist t"] fr [OF p] s0 c(1) c1 by (cases "p = 0"; cases "p = 1") auto
    then show ?thesis using qview_pids [OF I(1)] null_in_pids by (auto simp: NULLPROC_def simp del: mem_pids)
  qed
  then have rq: "readyq t = [0]" using qview_distinct [OF I(1), of "readylist t"]
    by (metis distinct_singleton list.set(1,2) set_eq_iff singleton_iff list.exhaust list.set_intros(1) distinct.simps(2) insertE empty_iff list.set_intros(2))
  have rl: "readylist t = 300" "sleepq t = 302" using F(4,8) kboot_facts(9,10) by (simp_all add: with_proc_def)
  have q: "qview t q = []" if "q \<noteq> 300" for q
    using F(17) [of q] that ks(2) kboot_facts(4,9) by (simp add: with_proc_def)
  have sm: "semtab t = semtab kboot" using F(5) by (simp add: with_proc_def)
  have "sem_ok t i" if "i \<in> sems" for i
    using sched_frame_sem_ok(1) [OF T(3) kinv_butD(2) [OF kinvD(1) [OF ks(1)]] that] kinvD(4) [OF ks(1) that] by simp
  then show "kinv krun" using T(2) c(1) F(7) kinvD(3) [OF ks(1)] by (simp add: t kinv_def)
  show "sync krun" "top_prio krun" "currpid krun = 1" "readyq krun = [NULLPROC]" "readylist krun = 300" "sleepq krun = 302"
    "\<And>q. q \<noteq> 300 \<Longrightarrow> qview krun q = []" "semtab krun = semtab kboot"
    "\<And>p. p \<in> pids \<Longrightarrow> p \<noteq> 0 \<Longrightarrow> p \<noteq> 1 \<Longrightarrow> pst krun p = PR_FREE" "pst krun 1 = PR_CURR" "pst krun 0 = PR_READY"
    "ready 1 (with_proc 1 20 kboot) = Some (OK, krun)" "prprio (proctab krun 1) = 20"
    "prprio (proctab krun 0) = 0"
    unfolding t using T(1,4) sy c c1 rq rl q sm fr s0 pr by (simp_all add: NULLPROC_def)
  show "nextsem krun = 0" "nextpid krun = 1" "kmem krun = kmem kboot"
    unfolding t using F(2,6,11) kboot_facts(12,13) by (simp_all add: with_proc_def)
  show "\<not> prhasmsg (proctab krun 1)" unfolding t using sched_frame_proc(4) [OF T(3)] by (simp add: with_proc_def)
qed

end
