(* ===== verification/Clock.thy ===== *)
theory Clock
  imports Boot
begin

text \<open>
  Delays and the clock: \<^verbatim>\<open>system/sleep.c\<close>, \<^verbatim>\<open>unsleep.c\<close>, \<^verbatim>\<open>wakeup.c\<close> and the timer interrupt
  handler \<^verbatim>\<open>system/platform/arm-qemu/clkhandler.c\<close>. Sleeping processes form a delta list:
  the key of each is the number of ticks after its predecessor's wakeup, so that only the
  first key is decremented at a tick. The delay is a \<^verbatim>\<open>uint32\<close> and becomes an \<^verbatim>\<open>int32\<close>
  key: \<^term>\<open>sint\<close>.
\<close>

section \<open>The operations\<close>

definition MAXSECONDS :: uint32 where "MAXSECONDS = 4294967"

definition sleepms :: "uint32 \<Rightarrow> kstate \<Rightarrow> (int \<times> kstate) option" where
  "sleepms delay s =
    (if delay = 0 then do { (_, s1) \<leftarrow> yield_call s; Some (OK, s1) }
     else do {
       (r, s1) \<leftarrow> insertd (currpid s) (sleepq s) (sint delay) s;
       if r = SYSERR then Some (SYSERR, s1)
       else do {
         s2 \<leftarrow> resched (set_prstate (currpid s1) PR_SLEEP s1);
         Some (OK, s2)
       }
     })"

definition sleep :: "uint32 \<Rightarrow> kstate \<Rightarrow> (int \<times> kstate) option" where
  "sleep delay s =
    (if delay > MAXSECONDS then Some (SYSERR, s)
     else do { (_, s1) \<leftarrow> sleepms (1000 * delay) s; Some (OK, s1) })"

definition unsleep :: "pid32 \<Rightarrow> kstate \<Rightarrow> int \<times> kstate" where
  "unsleep pid s =
    (if isbadpid s pid then (SYSERR, s)
     else if prstate (proctab s pid) \<noteq> PR_SLEEP \<and> prstate (proctab s pid) \<noteq> PR_RECTIM then (SYSERR, s)
     else
       let pidnext = qnext (queuetab s pid);
           s1 = (if pidnext < NPROC
                 then set_qtab (set_qkey pidnext (qkey (queuetab s pidnext) + qkey (queuetab s pid)) (queuetab s)) s
                 else s);
           (_, s2) = getitem pid s1
       in (OK, s2))"

partial_function (option) wakeup_loop :: "kstate \<Rightarrow> kstate option" where
  "wakeup_loop s =
    (if nonempty (queuetab s) (sleepq s) \<and> firstkey (queuetab s) (sleepq s) \<le> 0 then
       (let (p, s1) = dequeue (sleepq s) s
        in do { (_, s2) \<leftarrow> ready p s1; wakeup_loop s2 })
     else Some s)"

definition wakeup :: "kstate \<Rightarrow> kstate option" where
  "wakeup s = do {
     (_, s1) \<leftarrow> resched_cntl DEFER_START s;
     s2 \<leftarrow> wakeup_loop s1;
     (_, s3) \<leftarrow> resched_cntl DEFER_STOP s2;
     Some s3
   }"

definition count_tick :: "kstate \<Rightarrow> kstate" where
  "count_tick s =
    (let s1 = s\<lparr>clkticks := clkticks s + 1\<rparr> in
     if CLKTICKS_PER_SEC = clkticks s1 then s1\<lparr>clktime := clktime s1 + 1, clkticks := 0\<rparr> else s1)"

definition clkhandler :: "kstate \<Rightarrow> kstate option" where
  "clkhandler s =
    (let s1 = count_tick s in
     if nonempty (queuetab s1) (sleepq s1) then
       (let first = firstid (queuetab s1) (sleepq s1);
            s2 = set_qtab (set_qkey first (qkey (queuetab s1 first) - 1) (queuetab s1)) s1
        in if firstkey (queuetab s2) (sleepq s2) \<le> 0 then wakeup s2 else resched s2)
     else resched s1)"

section \<open>Going to sleep\<close>

lemma upd_proc_set_qtab: "upd_proc x f (set_qtab qt s) = set_qtab qt (upd_proc x f s)"
  by (simp add: upd_proc_def)

lemma kinv_same_sems:
  assumes "kinv s" and "kinv_but {} t" "pst t (currpid t) = PR_CURR" "ndefers t = 0" "semtab t = semtab s"
    and "\<And>q. q \<noteq> readylist s \<Longrightarrow> q \<noteq> sleepq s \<Longrightarrow> qview t q = qview s q"
  shows "kinv t"
proof -
  note I = wf_idsD [OF kinv_butD(2) [OF kinvD(1) [OF assms(1)]]]
  have "sem_ok t i" if "i \<in> sems" for i
    using kinvD(4) [OF assms(1) that] I(6,7) [OF that] assms(5,6) by (simp add: sem_ok_def)
  then show ?thesis using assms by (simp add: kinv_def)
qed

abbreviation qk :: "kstate \<Rightarrow> pid32 \<Rightarrow> int" where "qk s \<equiv> \<lambda>y. qkey (queuetab s y)"

text \<open>What \<^verbatim>\<open>sleepms\<close> and \<^verbatim>\<open>recvtime\<close> have in common: the caller enters the delta list.\<close>

lemma timed_block:
  assumes k: "kinv s" and nn: "currpid s \<noteq> NULLPROC" and st: "st = PR_SLEEP \<or> st = PR_RECTIM"
  obtains qt' t where "insertd (currpid s) (sleepq s) key s = Some (OK, set_qtab qt' s)"
    "resched (set_prstate (currpid s) st (set_qtab qt' s)) = Some t" "kinv t"
    "sleepers t = delta_insert (qk s) (currpid s) key (sleepers s)"
    "\<And>y. y \<in> set (sleepers t) \<Longrightarrow> qk t y = delta_keys (qk s) (currpid s) key (sleepers s) y"
    "pst t (currpid s) = st" "currpid t = hd (readyq s)" "\<And>q. q \<noteq> readylist s \<Longrightarrow> q \<noteq> sleepq s \<Longrightarrow> qview t q = qview s q"
    "sched_frame {} (set_prstate (currpid s) st (set_qtab qt' s)) t" "sync s \<Longrightarrow> sync t \<and> top_prio t"
proof -
  let ?p = "currpid s" and ?q = "sleepq s" and ?f = "prstate_update (\<lambda>_. st)"
  note K = kinvD [OF k] and I = kinv_butD [OF kinvD(1) [OF k]]
  have pp: "?p \<in> pids" using wf_procsD(1) [OF I(4)] .
  have hp: "home s ?p = None" using K(2) by simp
  have qr: "?q \<in> kqueues s" "?q \<noteq> readylist s" using wf_idsD(2,4) [OF I(2)] by simp_all
  have nb: "\<not> isbadpid s ?p" using pp K(2) by (simp add: pids_notbad)
  have nq: "\<not> in_queue s ?p" using placed_in_queue [OF I(1,3) pp] hp by simp
  then have np: "?p \<notin> set (qview s q)" for q by (auto simp: in_queue_iff)
  obtain qt' where E: "insertd ?p ?q key s = Some (OK, set_qtab qt' s)" "wf_queues (set_qtab qt' s)"
    "qview (set_qtab qt' s) = (qview s)(?q := delta_insert (qk s) ?p key (sleepers s))"
    "(\<lambda>j. qkey (qt' j)) = delta_keys (qk s) ?p key (sleepers s)"
    by (rule insertd_view [OF I(1) qr(1) nb nq])
  let ?s2 = "set_prstate ?p st (set_qtab qt' s)"
  have kq: "qkey (qt' j) = delta_keys (qk s) ?p key (sleepers s) j" for j using fun_cong [OF E(4)] by simp
  have old: "qkey (qt' y) = qk s y" if "y \<noteq> ?p" "y \<notin> set (sleepers s)" for y
    unfolding kq using that delta_split_append [of "qk s" key "sleepers s"]
    by (cases "delta_split (qk s) key (sleepers s)") (auto simp: delta_keys_def split: list.splits)
  have ry: "qkey (qt' y) = qk s y" if "y \<in> set (readyq s)" for y
    using old [of y] that np qview_unique [OF I(1)] qr(2) by blast
  have h2: "home (upd_proc ?p ?f s) ?p = Some ?q" using st by (auto simp: home_def)
  have k2: "kinv_but {} ?s2" and v2: "qview ?s2 = (qview s)(?q := delta_insert (qk s) ?p key (sleepers s))"
    unfolding upd_proc_set_qtab
    using kinv_but_enqueued [OF K(1) _ pp nn qr(2) _ _ _ h2 E(2,3)] hp st ry by auto
  have d2: "ndefers ?s2 = 0" "pst ?s2 (currpid ?s2) \<noteq> PR_CURR" using K(3) st by auto
  have r2: "readyq ?s2 = readyq s" using v2 qr(2) by simp
  obtain t where T: "resched ?s2 = Some t" "kinv_but {} t" "pst t (currpid t) = PR_CURR" "sched_frame {} ?s2 t"
    "sync ?s2 \<Longrightarrow> sync t \<and> top_prio t" "pst ?s2 (currpid ?s2) \<noteq> PR_CURR \<Longrightarrow> currpid t = hd (readyq ?s2) \<and> readyq t = tl (readyq ?s2)"
    by (rule resched_ok [OF k2 d2(1)]) blast
  note F = sched_frameD [OF T(4)]
  have vt: "qview t q = qview s q" if "q \<noteq> readylist s" "q \<noteq> sleepq s" for q
    using F(17) [of q] v2 that by simp
  have kt: "kinv t" by (rule kinv_same_sems [OF k T(2,3) _ _ vt]) (use F(5,7) K(3) in simp_all)
  have sl: "sleepers t = delta_insert (qk s) ?p key (sleepers s)" using F(8,17) qr(2) v2 by simp
  have "keys (queuetab t) (sleepers t) = keys qt' (sleepers t)" using F(8,17,18) qr(2) by simp
  then have ks: "qk t y = delta_keys (qk s) ?p key (sleepers s) y" if "y \<in> set (sleepers t)" for y
    using that kq by (simp add: keys_def)
  have pw: "pst t ?p = st" using F(16) [of ?p] st by auto
  have cr: "currpid t = hd (readyq s)" using T(6) d2 r2 by simp
  have sy: "sync ?s2 = sync s" using r2 ry np by (auto simp: sync_def)
  show thesis by (rule that [OF E(1) T(1) kt sl ks pw cr vt T(4)]) (use T(5) sy in simp_all)
qed

section \<open>Leaving the delta list\<close>

lemma sleeper_queue:
  assumes "kinv_but X s" and "p \<in> pids" "p \<notin> X" "pst s p = PR_SLEEP \<or> pst s p = PR_RECTIM"
  shows "p \<in> set (sleepers s)"
  using placedD [OF kinv_butD(3) [OF assms(1)] assms(2), of "sleepq s"] assms(3,4) by auto

lemma wake_time_removed:
  assumes "distinct (as @ p # bs)" and "y \<noteq> p"
    and k': "\<And>j. k' j = (if bs \<noteq> [] \<and> j = hd bs then k j + k p else k j)"
  shows "y \<in> set (as @ bs) \<Longrightarrow> wake_time k' (as @ bs) y = wake_time k (as @ p # bs) y"
proof -
  assume y: "y \<in> set (as @ bs)"
  have a: "wake_time k' as z = wake_time k as z" for z
    by (rule wake_time_cong) (use assms(1) k' in \<open>auto simp: neq_Nil_conv\<close>)
  have sm: "map k' as = map k as" using assms(1) k' by (auto simp: neq_Nil_conv)
  show ?thesis
  proof (cases "y \<in> set as")
    case True
    then show ?thesis using a by (simp add: wake_time_prefix)
  next
    case False
    then have yb: "y \<in> set bs" using y by simp
    then obtain b cs where bs: "bs = b # cs" by (cases bs) auto
    have kb: "k' b = k b + k p" using k' bs by simp
    have "wake_time k' cs z = wake_time k cs z" for z
      by (rule wake_time_cong) (use assms(1) k' bs in auto)
    then have "wake_time k' bs y = k p + wake_time k bs y" using bs kb by auto
    then show ?thesis using False sm assms(2) by (simp add: wake_time_append del: map_eq_conv)
  qed
qed

lemma unsleep_ok:
  assumes inv: "kinv_but {} s" and p: "p \<in> pids" "pst s p = PR_SLEEP \<or> pst s p = PR_RECTIM"
  obtains qt' where "unsleep p s = (OK, set_qtab qt' s)" "kinv_but {p} (set_qtab qt' s)"
    "qview (set_qtab qt' s) = (qview s)(sleepq s := remove1 p (sleepers s))"
    "\<And>y. y \<in> set (readyq s) \<Longrightarrow> qkey (qt' y) = qk s y"
    "\<And>y. y \<in> set (sleepers s) \<Longrightarrow> y \<noteq> p \<Longrightarrow>
       wake_time (\<lambda>j. qkey (qt' j)) (remove1 p (sleepers s)) y = wake_time (qk s) (sleepers s) y"
proof -
  note I = kinv_butD [OF inv]
  let ?q = "sleepq s" and ?qt = "queuetab s"
  have qr: "?q \<in> kqueues s" "?q \<noteq> readylist s" using wf_idsD(2,4) [OF I(2)] by simp_all
  have pin: "p \<in> set (sleepers s)" by (rule sleeper_queue [OF inv p(1) _ p(2)]) simp
  obtain as bs where v: "sleepers s = as @ p # bs" using pin by (meson split_list)
  have d: "distinct (as @ p # bs)" using qview_distinct [OF I(1), of ?q] v by simp
  have isq: "is_queue ?qt ?q (as @ p # bs)" using qview_is_queue [OF I(1) qr(1)] v by simp
  have nx: "qnext (?qt p) = hd (bs @ [?q + 1])" using is_queue_neighbours [OF isq] by simp
  have bp: "b \<in> pids" if "b \<in> set bs" for b using is_queueD(4) [OF isq, of b] that by simp
  let ?qt1 = "if qnext (?qt p) < NPROC then set_qkey (qnext (?qt p)) (qkey (?qt (qnext (?qt p))) + qkey (?qt p)) ?qt else ?qt"
  define qt' where "qt' = queuetab (snd (getitem p (set_qtab ?qt1 s)))"
  have r: "remove1 p (sleepers s) = as @ bs" using d by (simp add: v remove1_append)
  have un: "unsleep p s = (OK, set_qtab qt' s)"
    using p by (auto simp: unsleep_def pids_notbad qt'_def getitem_def Let_def)
  have key: "qkey (qt' j) = (if bs \<noteq> [] \<and> j = hd bs then qk s j + qk s p else qk s j)" for j
  proof (cases bs)
    case Nil
    then show ?thesis using nx kqueues_ge [OF qr(1)] by (simp add: qt'_def getitem_def Let_def)
  next
    case (Cons b cs)
    then show ?thesis using nx bp [of b] by (simp add: qt'_def getitem_def Let_def)
  qed
  have U: "wf_queues (set_qtab qt' s)" "qview (set_qtab qt' s) = (qview s)(?q := as @ bs)"
  proof -
    have "qkey (qt' j) = qk s j" if "NPROC \<le> j" for j using key [of j] bp [of j] that by (cases bs) auto
    then show "wf_queues (set_qtab qt' s)" "qview (set_qtab qt' s) = (qview s)(?q := as @ bs)"
      using unlink_view [OF I(1) v, of qt'] by (auto simp: qt'_def getitem_def Let_def)
  qed
  have rk: "qkey (qt' y) = qk s y" if "y \<in> set (readyq s)" for y
    using key [of y] that qview_unique [OF I(1) that, of ?q] v qr(2) by (cases bs) auto
  have pn: "p \<noteq> NULLPROC" using waiter_not_null [OF inv pin qr(2)] .
  have srt: "key_sorted qt' (((qview s)(?q := as @ bs)) (readylist s))"
    using I(5) qr(2) key_sorted_cong [OF keys_cong [of "readyq s" qt' ?qt]] rk by simp
  have k: "kinv_but {p} (set_qtab qt' s)"
    by (rule kinv_but_unqueue [OF inv pin pn U _ srt]) (use v d in auto)
  have w: "wake_time (\<lambda>j. qkey (qt' j)) (remove1 p (sleepers s)) y = wake_time (qk s) (sleepers s) y"
    if "y \<in> set (sleepers s)" "y \<noteq> p" for y
    unfolding r unfolding v by (rule wake_time_removed [OF d that(2)]) (use key that v in auto)
  show thesis by (rule that [OF un k _ rk w]) (use U(2) r in simp)
qed

section \<open>The clock interrupt\<close>

text \<open>What waking sleepers leaves alone.\<close>

definition wake_frame :: "kstate \<Rightarrow> kstate \<Rightarrow> bool" where
  "wake_frame s t \<longleftrightarrow>
    readylist t = readylist s \<and> sleepq t = sleepq s \<and> semtab t = semtab s \<and> ndefers t = ndefers s \<and> kmem t = kmem s \<and>
    (\<forall>q. q \<noteq> readylist s \<longrightarrow> q \<noteq> sleepq s \<longrightarrow> qview t q = qview s q) \<and>
    (\<forall>p. prprio (proctab t p) = prprio (proctab s p) \<and> prhasmsg (proctab t p) = prhasmsg (proctab s p) \<and> prmsg (proctab t p) = prmsg (proctab s p))"

lemma wake_frame_trans: "wake_frame s t \<Longrightarrow> wake_frame t u \<Longrightarrow> wake_frame s u"
  by (simp add: wake_frame_def)

lemma sched_wake_frame: "sched_frame X s t \<Longrightarrow> wake_frame s t"
  using sched_frameD [of X s t] sched_frame_proc [of X s t] by (simp add: wake_frame_def)

lemma qtab_wake_frame:
  "qview (set_qtab qt s) = (qview s)(sleepq s := xs) \<Longrightarrow> wake_frame s (set_qtab qt s)"
  by (simp add: wake_frame_def)

lemma sleep_first:
  assumes "kinv_but {} s"
  shows "nonempty (queuetab s) (sleepq s) \<longleftrightarrow> sleepers s \<noteq> []"
    "sleepers s = x # xs \<Longrightarrow> firstkey (queuetab s) (sleepq s) = qk s x \<and> firstid (queuetab s) (sleepq s) = x"
proof -
  note I = kinv_butD [OF assms]
  have isq: "is_queue (queuetab s) (sleepq s) (sleepers s)" using qview_is_queue [OF I(1) wf_idsD(2) [OF I(2)]] .
  show "nonempty (queuetab s) (sleepq s) \<longleftrightarrow> sleepers s \<noteq> []" using is_queue_nonempty [OF isq] .
  show "sleepers s = x # xs \<Longrightarrow> firstkey (queuetab s) (sleepq s) = qk s x \<and> firstid (queuetab s) (sleepq s) = x"
    using is_queue_firstid [OF isq] by (simp add: firstkey_def)
qed

lemma wakeup_loop_ok:
  assumes "kmid s"
  shows "\<exists>t. wakeup_loop s = Some t \<and> kmid t \<and> wake_frame s t \<and> currpid t = currpid s \<and>
    sleepers t = dropWhile (\<lambda>x. qk s x \<le> 0) (sleepers s) \<and>
    (\<forall>y\<in>set (sleepers t). qk t y = qk s y) \<and>
    (\<forall>x. runnable (pst s x) \<longrightarrow> runnable (pst t x)) \<and>
    (\<forall>x\<in>set (takeWhile (\<lambda>x. qk s x \<le> 0) (sleepers s)). runnable (pst t x)) \<and>
    (sync s \<longrightarrow> sync t) \<and> (attempt t \<or> t = s) \<and> (attempt s \<longrightarrow> attempt t)"
  using assms
proof (induction "length (sleepers s)" arbitrary: s rule: less_induct)
  case less
  note M = kmidD [OF less.prems]
  note I = kinv_butD [OF M(1)] and SF = sleep_first [OF M(1)]
  show ?case
  proof (cases "sleepers s")
    case Nil
    then have "wakeup_loop s = Some s" using SF(1) by (subst wakeup_loop.simps) simp
    then show ?thesis using less.prems Nil by (simp add: wake_frame_def)
  next
    case (Cons x xs)
    show ?thesis
    proof (cases "qk s x \<le> 0")
      case False
      then have "wakeup_loop s = Some s" using SF(2) [OF Cons] by (subst wakeup_loop.simps) simp
      then show ?thesis using less.prems Cons False by (simp add: wake_frame_def)
    next
      case True
      let ?q = "sleepq s"
      have qr: "?q \<noteq> readylist s" using wf_idsD(4) [OF I(2)] .
      obtain qt' where D: "dequeue ?q s = (x, set_qtab qt' s)" "wf_queues (set_qtab qt' s)"
          "qview (set_qtab qt' s) = (qview s)(?q := xs)" "\<And>j. qkey (qt' j) = qkey (queuetab s j)"
        by (rule dequeue_view [OF I(1) Cons]) blast
      have d: "0 \<le> ndefers s" using M(3) by simp
      obtain t where T: "ready x (set_qtab qt' s) = Some (OK, t)" "kinv_but {} t" "sched_frame {x} (set_qtab qt' s) t"
        "qview t ?q = xs" "sync s \<Longrightarrow> sync t"
        "0 < ndefers s \<Longrightarrow> currpid t = currpid s \<and> attempt t \<and> pst t (currpid s) = pst s (currpid s) \<or> x = currpid s"
        by (rule wake_taken [OF M(1) d Cons qr D(2-4)]) blast
      note F = sched_frameD [OF T(3)]
      have xp: "x \<in> pids" using qview_pids [OF I(1), of x ?q] Cons by simp
      have "x \<noteq> currpid s" using placedD [OF I(3) xp, of ?q] Cons M(2) by auto
      then have c: "currpid t = currpid s" "attempt t" "pst t (currpid s) = pst s (currpid s)" using T(6) M(3) by auto
      have kt: "kmid t" using T(2) c M F(7) by (simp add: kmid_def)
      have wf: "wake_frame s t" by (rule wake_frame_trans [OF qtab_wake_frame [OF D(3)] sched_wake_frame [OF T(3)]])
      have sl: "sleepers t = xs" using T(4) F(8) by simp
      have "keys (queuetab t) (qview (set_qtab qt' s) ?q) = keys (queuetab (set_qtab qt' s)) (qview (set_qtab qt' s) ?q)"
        using F(18) [of ?q] qr by simp
      then have ks: "qk t y = qk s y" if "y \<in> set xs" for y using that D(3,4) by (simp add: keys_def)
      have rn: "runnable (pst t x)" "\<forall>y. runnable (pst s y) \<longrightarrow> runnable (pst t y)"
        using F(15,16) by (auto, metis)
      obtain u where U: "wakeup_loop t = Some u" "kmid u" "wake_frame t u" "currpid u = currpid t"
          "sleepers u = dropWhile (\<lambda>x. qk t x \<le> 0) (sleepers t)" "\<forall>y\<in>set (sleepers u). qk u y = qk t y"
          "\<forall>x. runnable (pst t x) \<longrightarrow> runnable (pst u x)"
          "\<forall>x\<in>set (takeWhile (\<lambda>x. qk t x \<le> 0) (sleepers t)). runnable (pst u x)" "sync t \<longrightarrow> sync u" "attempt t \<longrightarrow> attempt u"
        using less.hyps [OF _ kt] sl Cons by auto
      have run: "wakeup_loop s = Some u"
        using SF(1) SF(2) [OF Cons] Cons True D(1) T(1) U(1) by (subst wakeup_loop.simps) simp
      have dw: "dropWhile (\<lambda>x. qk t x \<le> 0) xs = dropWhile (\<lambda>x. qk s x \<le> 0) xs"
        "takeWhile (\<lambda>x. qk t x \<le> 0) xs = takeWhile (\<lambda>x. qk s x \<le> 0) xs"
        using ks by (auto intro: dropWhile_cong takeWhile_cong)
      have su: "sleepers u = dropWhile (\<lambda>x. qk s x \<le> 0) xs" using U(5) sl dw by simp
      have "set (sleepers u) \<subseteq> set xs" unfolding su by (auto dest: set_dropWhileD)
      then have "\<forall>y\<in>set (sleepers u). qk u y = qk s y" using U(6) ks by auto
      moreover have "\<forall>x\<in>set (takeWhile (\<lambda>x. qk s x \<le> 0) (sleepers s)). runnable (pst u x)"
        using Cons True U(7,8) rn(1) sl dw by auto
      moreover have "sleepers u = dropWhile (\<lambda>x. qk s x \<le> 0) (sleepers s)" using su Cons True by simp
      ultimately show ?thesis
        using run U(2,4,7,9,10) c(1,2) T(5) rn(2) wake_frame_trans [OF wf U(3)] by auto
    qed
  qed
qed

lemma wakeup_ok:
  assumes inv: "kinv_but {} s" "pst s (currpid s) = PR_CURR" "ndefers s = 0"
  shows "\<exists>t. wakeup s = Some t \<and> kinv_but {} t \<and> pst t (currpid t) = PR_CURR \<and> wake_frame s t \<and>
    sleepers t = dropWhile (\<lambda>x. qk s x \<le> 0) (sleepers s) \<and> (\<forall>y\<in>set (sleepers t). qk t y = qk s y) \<and>
    (\<forall>x\<in>set (takeWhile (\<lambda>x. qk s x \<le> 0) (sleepers s)). runnable (pst t x)) \<and>
    (sync s \<longrightarrow> top_prio s \<longrightarrow> sync t \<and> top_prio t)"
proof -
  obtain s1 where S: "resched_cntl DEFER_START s = Some (OK, s1)" "kmid s1" "s1 = s\<lparr>ndefers := 1, attempt := False\<rparr>" "qview s1 = qview s"
    by (rule kinv_defer [OF inv])
  have s1: "queuetab s1 = queuetab s" "sleepq s1 = sleepq s" "readylist s1 = readylist s" "proctab s1 = proctab s" "ndefers s1 = 1"
    "semtab s1 = semtab s" "kmem s1 = kmem s" using S(3) by simp_all
  have sy1: "sync s1 = sync s" "top_prio s1 = top_prio s" using S(3,4) by (simp_all add: sync_def top_prio_def)
  obtain u where U: "wakeup_loop s1 = Some u" "kmid u" "wake_frame s1 u"
      "sleepers u = dropWhile (\<lambda>x. qk s1 x \<le> 0) (sleepers s1)" "\<forall>y\<in>set (sleepers u). qk u y = qk s1 y"
      "\<forall>x\<in>set (takeWhile (\<lambda>x. qk s1 x \<le> 0) (sleepers s1)). runnable (pst u x)" "sync s1 \<longrightarrow> sync u" "attempt u \<or> u = s1"
    using wakeup_loop_ok [OF S(2)] by blast
  have du: "ndefers u = 1" using U(3) s1(5) by (simp add: wake_frame_def)
  obtain t where T: "resched_cntl DEFER_STOP u = Some (OK, t)" "kinv_but {} t" "pst t (currpid t) = PR_CURR"
    "ndefers t = 0" "sched_frame {} (u\<lparr>ndefers := 0\<rparr>) t" "sync u \<Longrightarrow> attempt u \<or> top_prio u \<Longrightarrow> sync t \<and> top_prio t"
    by (rule defer_stop [OF U(2) du]) blast
  note F = sched_frameD [OF T(5)]
  have v0: "qview (u\<lparr>ndefers := 0\<rparr>) = qview u" by (rule qview_cong) simp_all
  have qr: "sleepq u \<noteq> readylist u" using wf_idsD(4) [OF kinv_butD(2) [OF kmidD(1) [OF U(2)]]] .
  have st: "sleepers t = sleepers u" using F(8,17) qr v0 by simp
  have "keys (queuetab t) (sleepers u) = keys (queuetab u) (sleepers u)" using F(18) [of "sleepq u"] qr v0 by simp
  then have kt: "\<forall>y\<in>set (sleepers t). qk t y = qk s y" using st U(5) s1(1) by (simp add: keys_def)
  have wf: "wake_frame s t"
    using sched_wake_frame [OF T(5)] U(3) v0 S(4) s1 T(4) inv(3) by (simp add: wake_frame_def)
  have rn: "runnable (pst t x)" if "runnable (pst u x)" for x using F(16) [of x] that by auto
  have "wakeup s = Some t" using S(1) U(1) T(1) by (simp add: wakeup_def)
  moreover have "sync s \<longrightarrow> top_prio s \<longrightarrow> sync t \<and> top_prio t" using T(6) U(7,8) sy1 by auto
  ultimately show ?thesis using T(2,3) wf st U(4,6) kt rn S(4) s1 by auto
qed

text \<open>A key of the sleep queue may change freely.\<close>

lemma kinv_but_sleep_key:
  assumes inv: "kinv_but {} s" and x: "x \<in> set (sleepers s)"
  shows "kinv_but {} (set_qtab (set_qkey x v (queuetab s)) s)" "qview (set_qtab (set_qkey x v (queuetab s)) s) = qview s"
    "sync (set_qtab (set_qkey x v (queuetab s)) s) = sync s" "top_prio (set_qtab (set_qkey x v (queuetab s)) s) = top_prio s"
proof -
  let ?t = "set_qtab (set_qkey x v (queuetab s)) s"
  note I = kinv_butD [OF inv]
  have xp: "x \<in> pids" using qview_pids [OF I(1) x] .
  have isq: "is_queue (queuetab s) r (qlist (queuetab s) r)" if "r \<in> kqueues s" for r
    using that I(1) by (auto simp: wf_queues_def dest: wf_qtabD)
  have isq': "is_queue (queuetab ?t) r (qlist (queuetab s) r)" if "r \<in> kqueues s" for r
    using isq [OF that] by (rule is_queue_frame) simp_all
  have ql: "qlist (queuetab ?t) r = qlist (queuetab s) r" if "r \<in> kqueues s" for r
    using is_queue_qlist [OF isq' [OF that]] .
  show v: "qview ?t = qview s" using ql by (auto simp: qview_def fun_eq_iff)
  have "qkey (queuetab ?t (r + 1)) = qkey (queuetab s (r + 1))" if "r \<in> kqueues s" for r
    using xp kqueues_ge [OF that] by simp
  then have "wf_qtab (queuetab ?t) (kqueues s)"
    using I(1) isq' ql by (simp add: wf_queues_def wf_qtab_def)
  then have wq: "wf_queues ?t" using I(1) by (simp add: wf_queues_def)
  have hm: "home ?t p = home s p" for p by (rule home_cong) simp_all
  have ne: "y \<noteq> x" if "y \<in> set (readyq s)" for y
    using qview_unique [OF I(1) that] x wf_idsD(3) [OF I(2)] by blast
  then have "key_sorted (queuetab ?t) (readyq ?t)"
    using I(5) key_sorted_cong [OF keys_cong [of "readyq s" "queuetab ?t" "queuetab s"]] v by simp
  then show "kinv_but {} ?t" using I wq v hm by (simp add: kinv_but_def wf_ids_def placed_def wf_procs_def)
  show "sync ?t = sync s" "top_prio ?t = top_prio s" using v ne by (auto simp: sync_def top_prio_def)
qed

lemma count_tick_fields:
  "queuetab (count_tick s) = queuetab s" "nextqid (count_tick s) = nextqid s" "proctab (count_tick s) = proctab s"
  "currpid (count_tick s) = currpid s" "readylist (count_tick s) = readylist s" "sleepq (count_tick s) = sleepq s"
  "semtab (count_tick s) = semtab s" "ndefers (count_tick s) = ndefers s" "kmem (count_tick s) = kmem s"
  by (simp_all add: count_tick_def Let_def)

definition tick_keys :: "kstate \<Rightarrow> pid32 \<Rightarrow> int" where
  "tick_keys s = (case sleepers s of [] \<Rightarrow> qk s | x # _ \<Rightarrow> (qk s)(x := qk s x - 1))"

lemma clkhandler_ok:
  assumes k: "kinv s"
  shows "\<exists>t. clkhandler s = Some t \<and> kinv t \<and> wake_frame s t \<and>
    sleepers t = dropWhile (\<lambda>x. tick_keys s x \<le> 0) (sleepers s) \<and> (\<forall>y\<in>set (sleepers t). qk t y = tick_keys s y) \<and>
    (\<forall>x\<in>set (takeWhile (\<lambda>x. tick_keys s x \<le> 0) (sleepers s)). runnable (pst t x)) \<and>
    (sync s \<longrightarrow> top_prio s \<longrightarrow> sync t \<and> top_prio t)"
proof -
  let ?s1 = "count_tick s"
  note K = kinvD [OF k] and C = count_tick_fields [of s]
  have k1: "kinv_but {} ?s1" by (rule kinv_but_cong [OF K(1)]) (simp_all add: C)
  have v1: "qview ?s1 = qview s" by (rule qview_cong) (simp_all add: C)
  have sy1: "sync ?s1 = sync s" "top_prio ?s1 = top_prio s" using v1 C by (simp_all add: sync_def top_prio_def)
  have wf1: "wake_frame s ?s1" using v1 C by (simp add: wake_frame_def)
  note SF = sleep_first [OF k1]
  have fin: "kinv t" if "kinv_but {} t" "pst t (currpid t) = PR_CURR" "wake_frame s t" for t
    by (rule kinv_same_sems [OF k that(1,2)]) (use that(3) K(3) in \<open>simp_all add: wake_frame_def\<close>)
  have via_resched: "\<exists>t. resched u = Some t \<and> kinv t \<and> wake_frame s t \<and> sleepers t = sleepers u \<and>
      (\<forall>y\<in>set (sleepers t). qk t y = qk u y) \<and> (sync u \<longrightarrow> sync t \<and> top_prio t)"
    if u: "kinv_but {} u" "ndefers u = 0" "wake_frame s u" for u
  proof -
    obtain t where T: "resched u = Some t" "kinv_but {} t" "pst t (currpid t) = PR_CURR" "sched_frame {} u t"
        "sync u \<Longrightarrow> sync t \<and> top_prio t"
      by (rule resched_ok [OF u(1,2)]) blast
    note F = sched_frameD [OF T(4)]
    have qr: "sleepq u \<noteq> readylist u" using wf_idsD(4) [OF kinv_butD(2) [OF u(1)]] .
    have wf: "wake_frame s t" using wake_frame_trans [OF u(3) sched_wake_frame [OF T(4)]] .
    have "sleepers t = sleepers u" using F(8,17) qr by simp
    moreover have "keys (queuetab t) (sleepers u) = keys (queuetab u) (sleepers u)" using F(18) qr by simp
    ultimately show ?thesis using T(1,5) fin [OF T(2,3) wf] wf by (simp add: keys_def)
  qed
  show ?thesis
  proof (cases "sleepers s")
    case Nil
    have e: "clkhandler s = resched ?s1" using SF(1) Nil v1 C by (simp add: clkhandler_def Let_def)
    have d1: "ndefers ?s1 = 0" using K(3) C by simp
    show ?thesis using via_resched [OF k1 d1 wf1] e Nil v1 C sy1 by auto
  next
    case (Cons x xs)
    let ?s2 = "set_qtab (set_qkey x (qk ?s1 x - 1) (queuetab ?s1)) ?s1"
    have q1: "sleepers ?s1 = x # xs" using Cons v1 C by simp
    have xin: "x \<in> set (sleepers ?s1)" using q1 by simp
    note S2 = kinv_but_sleep_key [OF k1 xin, of "qk ?s1 x - 1"]
    have q2: "sleepers ?s2 = sleepers s" using S2(2) v1 C by simp
    have k2: "qk ?s2 y = tick_keys s y" for y using Cons C by (simp add: tick_keys_def)
    have d2: "ndefers ?s2 = 0" "pst ?s2 (currpid ?s2) = PR_CURR" using K(2,3) C by simp_all
    have wf2: "wake_frame s ?s2" using S2(2) v1 C by (simp add: wake_frame_def)
    have fx: "firstkey (queuetab ?s2) (sleepq ?s2) = tick_keys s x"
      using sleep_first(2) [OF S2(1), of x xs] q2 Cons k2 [of x] by simp
    have e: "clkhandler s = (if tick_keys s x \<le> 0 then wakeup ?s2 else resched ?s2)"
      using SF(1) SF(2) [OF q1] q1 fx by (simp add: clkhandler_def Let_def)
    show ?thesis
    proof (cases "tick_keys s x \<le> 0")
      case True
      obtain t where T: "wakeup ?s2 = Some t" "kinv_but {} t" "pst t (currpid t) = PR_CURR" "wake_frame ?s2 t"
        "sleepers t = dropWhile (\<lambda>x. qk ?s2 x \<le> 0) (sleepers ?s2)" "\<forall>y\<in>set (sleepers t). qk t y = qk ?s2 y"
        "\<forall>x\<in>set (takeWhile (\<lambda>x. qk ?s2 x \<le> 0) (sleepers ?s2)). runnable (pst t x)"
        "sync ?s2 \<longrightarrow> top_prio ?s2 \<longrightarrow> sync t \<and> top_prio t"
        using wakeup_ok [OF S2(1) d2(2,1)] by blast
      have wf: "wake_frame s t" by (rule wake_frame_trans [OF wf2 T(4)])
      show ?thesis using e True T(1,5-8) fin [OF T(2,3) wf] wf unfolding q2 k2 S2(3,4) sy1 by auto
    next
      case False
      then have "dropWhile (\<lambda>x. tick_keys s x \<le> 0) (sleepers s) = sleepers s" "takeWhile (\<lambda>x. tick_keys s x \<le> 0) (sleepers s) = []"
        using Cons by simp_all
      then show ?thesis using via_resched [OF S2(1) d2(1) wf2] e False unfolding q2 k2 S2(3) sy1 by auto
    qed
  qed
qed

section \<open>Sleeping takes as long as it should\<close>

text \<open>
  \<open>delays s\<close>: the sleep queue is a proper delta list. The ticks left to a sleeper are the
  sum of the keys up to its own.
\<close>

definition delays :: "kstate \<Rightarrow> bool" where
  "delays s \<longleftrightarrow> (\<forall>y\<in>set (sleepers s). 0 \<le> qk s y)"

definition ticks_left :: "kstate \<Rightarrow> pid32 \<Rightarrow> int" where
  "ticks_left s p = wake_time (qk s) (sleepers s) p"

lemma wake_time_first_dec:
  "x \<notin> set xs \<Longrightarrow> y \<in> set (x # xs) \<Longrightarrow>
   wake_time (k(x := k x - 1)) (x # xs) y = wake_time k (x # xs) y - 1"
proof -
  assume x: "x \<notin> set xs"
  have "wake_time (k(x := k x - 1)) xs z = wake_time k xs z" for z
    by (rule wake_time_cong) (use x in auto)
  then show ?thesis by simp
qed

lemma wake_time_nonneg: "\<forall>y\<in>set xs. 0 \<le> k y \<Longrightarrow> 0 \<le> wake_time k xs y"
  by (induction xs) auto

lemma wake_time_drop:
  assumes "\<forall>y\<in>set xs. 0 \<le> (k y :: int)" and "distinct xs" and "y \<in> set xs"
  shows "wake_time k xs y \<le> 0 \<longleftrightarrow> y \<in> set (takeWhile (\<lambda>x. k x \<le> 0) xs)"
    "0 < wake_time k xs y \<Longrightarrow> y \<in> set (dropWhile (\<lambda>x. k x \<le> 0) xs) \<and>
       wake_time k (dropWhile (\<lambda>x. k x \<le> 0) xs) y = wake_time k xs y"
  using assms
proof (induction xs)
  case Nil
  {
    case 1
    then show ?case by simp
  next
    case 2
    then show ?case by simp
  }
next
  case (Cons x xs)
  have n: "\<forall>y\<in>set xs. 0 \<le> k y \<Longrightarrow> 0 \<le> wake_time k xs y" by (rule wake_time_nonneg)
  {
    case 1
    then show ?case using Cons.IH(1) n by (cases "y = x") (auto dest: set_takeWhileD)
  next
    case 2
    then show ?case using Cons.IH(2) n by (cases "y = x") auto
  }
qed

lemma tick_ok:
  assumes k: "kinv s" and d: "delays s" and f: "\<And>y. y \<in> set (sleepers s) \<Longrightarrow> 0 < ticks_left s y"
  shows "\<exists>t. clkhandler s = Some t \<and> kinv t \<and> delays t \<and> wake_frame s t \<and>
    (\<forall>y\<in>set (sleepers s). if ticks_left s y = 1 then y \<notin> set (sleepers t) \<and> runnable (pst t y)
       else y \<in> set (sleepers t) \<and> ticks_left t y = ticks_left s y - 1) \<and> set (sleepers t) \<subseteq> set (sleepers s)"
proof -
  obtain t where T: "clkhandler s = Some t" "kinv t"
      "sleepers t = dropWhile (\<lambda>x. tick_keys s x \<le> 0) (sleepers s)" "\<forall>y\<in>set (sleepers t). qk t y = tick_keys s y"
      "\<forall>x\<in>set (takeWhile (\<lambda>x. tick_keys s x \<le> 0) (sleepers s)). runnable (pst t x)" "wake_frame s t"
    using clkhandler_ok [OF k] by blast
  let ?xs = "sleepers s" and ?k = "tick_keys s"
  have dx: "distinct ?xs" using qview_distinct [OF kinv_butD(1) [OF kinvD(1) [OF k]]] .
  have w: "wake_time ?k ?xs y = ticks_left s y - 1" if "y \<in> set ?xs" for y
    using that dx wake_time_first_dec [of _ _ y "qk s"] by (cases ?xs) (auto simp: tick_keys_def ticks_left_def)
  have pos: "\<forall>y\<in>set ?xs. 0 \<le> ?k y"
  proof (cases ?xs)
    case (Cons x ys)
    have "0 < qk s x" using f [of x] Cons by (simp add: ticks_left_def)
    then show ?thesis using d Cons by (auto simp: tick_keys_def delays_def)
  qed simp
  have sub: "set (sleepers t) \<subseteq> set ?xs" using T(3) by (auto dest: set_dropWhileD)
  have wt: "ticks_left t y = wake_time ?k (sleepers t) y" for y
    unfolding ticks_left_def by (rule wake_time_cong) (use T(4) in auto)
  have "if ticks_left s y = 1 then y \<notin> set (sleepers t) \<and> runnable (pst t y)
       else y \<in> set (sleepers t) \<and> ticks_left t y = ticks_left s y - 1" if y: "y \<in> set ?xs" for y
  proof (cases "ticks_left s y = 1")
    case True
    then have "wake_time ?k ?xs y \<le> 0" using w [OF y] by simp
    then have yt: "y \<in> set (takeWhile (\<lambda>x. ?k x \<le> 0) ?xs)" using wake_time_drop(1) [OF pos dx y] by blast
    have "distinct (takeWhile (\<lambda>x. ?k x \<le> 0) ?xs @ dropWhile (\<lambda>x. ?k x \<le> 0) ?xs)" using dx by simp
    then have "y \<notin> set (sleepers t)" unfolding T(3) distinct_append using yt by blast
    then show ?thesis using True yt T(5) by simp
  next
    case False
    then have "0 < wake_time ?k ?xs y" using w [OF y] f [OF y] by simp
    then show ?thesis using wake_time_drop(2) [OF pos dx y] wt w [OF y] False T(3) by simp
  qed
  moreover have "delays t" using T(4) sub pos by (auto simp: delays_def)
  ultimately show ?thesis using T(1,2,6) sub by blast
qed

primrec ticks :: "nat \<Rightarrow> kstate \<Rightarrow> kstate option" where
  "ticks 0 s = Some s"
| "ticks (Suc n) s = do { t \<leftarrow> clkhandler s; ticks n t }"

lemma ticks_ok:
  assumes "kinv s" and "delays s" and "\<And>y. y \<in> set (sleepers s) \<Longrightarrow> 0 < ticks_left s y"
    and "p \<in> set (sleepers s)" and "int n \<le> ticks_left s p"
  shows "\<exists>t. ticks n s = Some t \<and> kinv t \<and> wake_frame s t \<and>
    (if int n = ticks_left s p then p \<notin> set (sleepers t) else p \<in> set (sleepers t) \<and> ticks_left t p = ticks_left s p - int n)"
  using assms
proof (induction n arbitrary: s)
  case 0
  have "0 < ticks_left s p" using 0(3,4) by blast
  then show ?case using 0(1,4) by (simp add: wake_frame_def)
next
  case (Suc n)
  obtain t where T: "clkhandler s = Some t" "kinv t" "delays t"
      "\<forall>y\<in>set (sleepers s). if ticks_left s y = 1 then y \<notin> set (sleepers t) \<and> runnable (pst t y)
       else y \<in> set (sleepers t) \<and> ticks_left t y = ticks_left s y - 1" "set (sleepers t) \<subseteq> set (sleepers s)" "wake_frame s t"
    using tick_ok [OF Suc.prems(1-3)] by blast
  have pos: "0 < ticks_left t y" if "y \<in> set (sleepers t)" for y
    using T(4,5) Suc.prems(3) [of y] that by (cases "ticks_left s y = 1") fastforce+
  show ?case
  proof (cases "ticks_left s p = 1")
    case True
    then have n: "n = 0" using Suc.prems(5) by simp
    then show ?thesis using T(1,2,4,6) Suc.prems(4) True by auto
  next
    case False
    then have p: "p \<in> set (sleepers t)" "ticks_left t p = ticks_left s p - 1" using T(4) Suc.prems(4) by auto
    then show ?thesis
      using Suc.IH [OF T(2,3) pos p(1)] Suc.prems(5) T(1) wake_frame_trans [OF T(6)] by (auto split: if_splits)
  qed
qed

definition sleepers_pos :: "kstate \<Rightarrow> bool" where
  "sleepers_pos s \<longleftrightarrow> delays s \<and> (\<forall>y\<in>set (sleepers s). 0 < ticks_left s y)"

lemma sleepms_ok:
  assumes k: "kinv s" and nn: "currpid s \<noteq> NULLPROC" and dl: "delay \<noteq> 0"
  obtains t where "sleepms delay s = Some (OK, t)" "kinv t" "pst t (currpid s) = PR_SLEEP" "currpid t = hd (readyq s)"
    "sleepers t = delta_insert (qk s) (currpid s) (sint delay) (sleepers s)"
    "\<And>y. y \<in> set (sleepers t) \<Longrightarrow> qk t y = delta_keys (qk s) (currpid s) (sint delay) (sleepers s) y"
    "sync s \<Longrightarrow> sync t \<and> top_prio t" "kmem t = kmem s"
proof -
  obtain qt' t where T: "insertd (currpid s) (sleepq s) (sint delay) s = Some (OK, set_qtab qt' s)"
    "resched (set_prstate (currpid s) PR_SLEEP (set_qtab qt' s)) = Some t" "kinv t"
    "sleepers t = delta_insert (qk s) (currpid s) (sint delay) (sleepers s)"
    "\<And>y. y \<in> set (sleepers t) \<Longrightarrow> qk t y = delta_keys (qk s) (currpid s) (sint delay) (sleepers s) y"
    "pst t (currpid s) = PR_SLEEP" "currpid t = hd (readyq s)"
    "sched_frame {} (set_prstate (currpid s) PR_SLEEP (set_qtab qt' s)) t" "sync s \<Longrightarrow> sync t \<and> top_prio t"
    by (rule timed_block [OF k nn, of PR_SLEEP "sint delay"]) blast+
  have r: "sleepms delay s = Some (OK, t)" using dl T(1,2) by (simp add: sleepms_def)
  have m: "kmem t = kmem s" using sched_frameD(11) [OF T(8)] by simp
  show thesis by (rule that [OF r T(3,6,7,4) _ _ m]) (use T(5,9) in blast)+
qed

lemma current_not_queued: "kinv s \<Longrightarrow> currpid s \<notin> set (qview s q)"
  using placedD [OF kinv_butD(3) [OF kinvD(1)], of s "currpid s" q] kinvD(2) [of s]
    wf_procsD(1) [OF kinv_butD(4) [OF kinvD(1)], of s] by auto

text \<open>Entering the delta list changes nobody else's wakeup.\<close>

lemma delta_block:
  assumes k: "kinv s" and p: "sleepers_pos s" and d: "0 < d"
    and t: "sleepers t = delta_insert (qk s) (currpid s) d (sleepers s)"
      "\<And>y. y \<in> set (sleepers t) \<Longrightarrow> qk t y = delta_keys (qk s) (currpid s) d (sleepers s) y"
  shows "sleepers_pos t" "set (sleepers t) = insert (currpid s) (set (sleepers s))" "ticks_left t (currpid s) = d"
    "currpid s \<in> set (sleepers t)" "\<And>y. y \<in> set (sleepers s) \<Longrightarrow> ticks_left t y = ticks_left s y"
proof -
  let ?c = "currpid s" and ?xs = "sleepers s"
  have dx: "distinct ?xs" using qview_distinct [OF kinv_butD(1) [OF kinvD(1) [OF k]]] .
  have cx: "?c \<notin> set ?xs" by (rule current_not_queued [OF k])
  show st: "set (sleepers t) = insert ?c (set ?xs)" and "?c \<in> set (sleepers t)" using t(1) by simp_all
  have w: "ticks_left t y = wake_time (delta_keys (qk s) ?c d ?xs) (delta_insert (qk s) ?c d ?xs) y" for y
    unfolding ticks_left_def t(1) [symmetric] by (rule wake_time_cong) (use t(2) in auto)
  show wc: "ticks_left t ?c = d" using w delta_insert_wake(1) [OF dx cx] by simp
  show wy: "ticks_left t y = ticks_left s y" if "y \<in> set ?xs" for y
    using w delta_insert_wake(2) [OF dx cx that] by (simp add: ticks_left_def)
  have "\<forall>y\<in>set (sleepers t). 0 \<le> delta_keys (qk s) ?c d ?xs y"
    unfolding t(1) by (rule delta_insert_pos) (use p d cx dx in \<open>auto simp: sleepers_pos_def delays_def\<close>)
  then show "sleepers_pos t" using t(2) st wc wy d p by (auto simp: sleepers_pos_def delays_def)
qed

text \<open>
  C5. A process that sleeps for \<open>d\<close> milliseconds (\<open>0 < d < 2 ^ 31\<close>) is asleep after every
  clock tick before the \<open>d\<close>-th and off the sleep queue at the \<open>d\<close>-th, whoever else is
  sleeping; the clock handler always comes back.
\<close>

theorem sleepms_duration:
  assumes "kinv s" and "currpid s \<noteq> NULLPROC" and "sleepers_pos s" and "0 < sint delay"
  shows "\<exists>t. sleepms delay s = Some (OK, t) \<and> kinv t \<and> pst t (currpid s) = PR_SLEEP \<and>
    (\<forall>n. int n \<le> sint delay \<longrightarrow>
      (\<exists>u. ticks n t = Some u \<and> kinv u \<and> (currpid s \<in> set (sleepers u) \<longleftrightarrow> int n < sint delay)))"
proof -
  have dz: "delay \<noteq> 0" using assms(4) by auto
  obtain t where T: "sleepms delay s = Some (OK, t)" "kinv t" "pst t (currpid s) = PR_SLEEP"
    "sleepers t = delta_insert (qk s) (currpid s) (sint delay) (sleepers s)"
    "\<And>y. y \<in> set (sleepers t) \<Longrightarrow> qk t y = delta_keys (qk s) (currpid s) (sint delay) (sleepers s) y"
    by (rule sleepms_ok [OF assms(1,2) dz]) blast
  note D = delta_block [OF assms(1,3,4) T(4,5)]
  have "\<exists>u. ticks n t = Some u \<and> kinv u \<and> (currpid s \<in> set (sleepers u) \<longleftrightarrow> int n < sint delay)" if n: "int n \<le> sint delay" for n
    using ticks_ok [OF T(2), of "currpid s" n] D(1,3,4) n by (fastforce simp: sleepers_pos_def split: if_splits)
  then show ?thesis using T by blast
qed

theorem sleepms_duration_witness:
  "\<exists>t u. sleepms 2 krun = Some (OK, t) \<and> ticks 1 t = Some u \<and> 1 \<in> set (sleepers u)"
proof -
  have p: "sleepers_pos krun" using krun_facts(7,8) by (simp add: sleepers_pos_def delays_def)
  have d: "0 < sint (2 :: uint32)" by simp
  have c: "currpid krun \<noteq> NULLPROC" using krun_facts(4) by (simp add: NULLPROC_def)
  obtain t where "sleepms 2 krun = Some (OK, t)" "\<forall>n. int n \<le> sint (2 :: uint32) \<longrightarrow>
      (\<exists>u. ticks n t = Some u \<and> kinv u \<and> (currpid krun \<in> set (sleepers u) \<longleftrightarrow> int n < sint (2 :: uint32)))"
    using sleepms_duration [OF krun_facts(1) c p d] by blast
  moreover have "int 1 \<le> sint (2 :: uint32)" "int 1 < sint (2 :: uint32)" by simp_all
  ultimately show ?thesis using krun_facts(4) by metis
qed

text \<open>
  \<^verbatim>\<open>unsleep\<close> takes a sleeping process out of the delta list and no other sleeper's wakeup
  moves: the ticks left to each of them stay the same.
\<close>

theorem unsleep_keeps_others:
  assumes "kinv s" and "p \<in> pids" and "pst s p = PR_SLEEP \<or> pst s p = PR_RECTIM"
  shows "\<exists>t. unsleep p s = (OK, t) \<and> sleepers t = remove1 p (sleepers s) \<and> p \<notin> set (sleepers t) \<and>
    (\<forall>y\<in>set (sleepers t). ticks_left t y = ticks_left s y) \<and> (\<forall>q. q \<noteq> sleepq s \<longrightarrow> qview t q = qview s q)"
proof -
  obtain qt' where U: "unsleep p s = (OK, set_qtab qt' s)"
    "qview (set_qtab qt' s) = (qview s)(sleepq s := remove1 p (sleepers s))"
    "\<And>y. y \<in> set (sleepers s) \<Longrightarrow> y \<noteq> p \<Longrightarrow>
       wake_time (\<lambda>j. qkey (qt' j)) (remove1 p (sleepers s)) y = wake_time (qk s) (sleepers s) y"
    by (rule unsleep_ok [OF kinvD(1) [OF assms(1)] assms(2,3)]) blast
  have d: "distinct (sleepers s)" using qview_distinct [OF kinv_butD(1) [OF kinvD(1) [OF assms(1)]]] .
  have "\<forall>y\<in>set (sleepers (set_qtab qt' s)). ticks_left (set_qtab qt' s) y = ticks_left s y"
    using U(2,3) d by (simp add: ticks_left_def)
  then show ?thesis using U(1,2) d by simp
qed

theorem unsleep_keeps_others_witness:
  "\<exists>t u. sleepms 5 krun = Some (OK, t) \<and> unsleep 1 t = (OK, u) \<and> sleepers u = []"
proof -
  have d: "(5 :: uint32) \<noteq> 0" by simp
  have c: "currpid krun \<noteq> NULLPROC" using krun_facts(4) by (simp add: NULLPROC_def)
  obtain t where T: "sleepms 5 krun = Some (OK, t)" "kinv t" "pst t (currpid krun) = PR_SLEEP"
    "sleepers t = delta_insert (qk krun) (currpid krun) (sint (5 :: uint32)) (sleepers krun)"
    by (rule sleepms_ok [OF krun_facts(1) c d]) blast
  have sl: "sleepers t = [1]" unfolding T(4) using krun_facts(4,7,8) by (simp add: delta_insert_def)
  have "(1::int) \<in> pids" by (simp add: size_defs)
  then show ?thesis using unsleep_keeps_others [OF T(2), of 1] T(1,3) krun_facts(4) sl by auto
qed

text \<open>
  \<^verbatim>\<open>sleep\<close> accepts delays up to \<^verbatim>\<open>MAXSECONDS\<close>, but a delay of \<open>2 ^ 31\<close> milliseconds or more
  turns into a negative key: the process is put at the head of the delta list and the
  next clock tick wakes it.
\<close>

theorem long_sleep_wakes_at_once:
  assumes "kinv s" and "currpid s \<noteq> NULLPROC" and "sleepers_pos s" and "delay \<le> MAXSECONDS" and "sint (1000 * delay) < 0"
  shows "\<exists>t u. sleep delay s = Some (OK, t) \<and> pst t (currpid s) = PR_SLEEP \<and> ticks 1 t = Some u \<and>
    currpid s \<notin> set (sleepers u) \<and> runnable (pst u (currpid s))"
proof -
  let ?c = "currpid s" and ?d = "1000 * delay"
  have dz: "?d \<noteq> 0" using assms(5) by auto
  obtain t where T: "sleepms ?d s = Some (OK, t)" "kinv t" "pst t ?c = PR_SLEEP"
    "sleepers t = delta_insert (qk s) ?c (sint ?d) (sleepers s)"
    "\<And>y. y \<in> set (sleepers t) \<Longrightarrow> qk t y = delta_keys (qk s) ?c (sint ?d) (sleepers s) y"
    by (rule sleepms_ok [OF assms(1,2) dz]) blast
  have pos: "\<forall>y\<in>set (sleepers s). 0 \<le> qk s y" using assms(3) by (simp add: sleepers_pos_def delays_def)
  have sp: "delta_split (qk s) (sint ?d) (sleepers s) = ([], sleepers s, sint ?d)"
    using pos assms(5) by (cases "sleepers s") auto
  have cx: "?c \<notin> set (sleepers s)" by (rule current_not_queued [OF assms(1)])
  have st: "sleepers t = ?c # sleepers s" using T(4) sp by (simp add: delta_insert_def)
  have "qk t ?c = sint ?d" using T(5) [of ?c] st sp cx by (auto simp: delta_keys_def split: list.splits)
  then have tk: "tick_keys t ?c \<le> 0" using st assms(5) by (simp add: tick_keys_def)
  obtain u where U: "clkhandler t = Some u" "kinv u"
      "sleepers u = dropWhile (\<lambda>x. tick_keys t x \<le> 0) (sleepers t)"
      "\<forall>x\<in>set (takeWhile (\<lambda>x. tick_keys t x \<le> 0) (sleepers t)). runnable (pst u x)"
    using clkhandler_ok [OF T(2)] by blast
  have "?c \<notin> set (sleepers u)" unfolding U(3) st using tk cx by (auto dest: set_dropWhileD)
  moreover have "runnable (pst u ?c)" using U(4) st tk by simp
  moreover have "sleep delay s = Some (OK, t)" using assms(4) T(1) by (simp add: sleep_def)
  ultimately show ?thesis using T(3) U(1) by auto
qed

theorem long_sleep_wakes_at_once_witness:
  "\<exists>t u. sleep 4000000 krun = Some (OK, t) \<and> ticks 1 t = Some u \<and> 1 \<notin> set (sleepers u)"
proof -
  have p: "sleepers_pos krun" using krun_facts(7,8) by (simp add: sleepers_pos_def delays_def)
  have c: "currpid krun \<noteq> NULLPROC" using krun_facts(4) by (simp add: NULLPROC_def)
  have d: "(4000000 :: uint32) \<le> MAXSECONDS" "sint (1000 * 4000000 :: uint32) < 0" by (simp_all add: MAXSECONDS_def)
  show ?thesis using long_sleep_wakes_at_once [OF krun_facts(1) c p d] krun_facts(4) by auto
qed

end
