(* ===== verification/Messages.thy ===== *)
theory Messages
  imports Clock
begin

text \<open>
  Message passing: \<^verbatim>\<open>system/send.c\<close>, \<^verbatim>\<open>receive.c\<close>, \<^verbatim>\<open>recvclr.c\<close> and \<^verbatim>\<open>recvtime.c\<close>. A call
  that reads the kernel's tables after it was blocked is split at the point where it may be
  switched out: \<open>receive\<close> runs up to there and gives \<open>Blocked\<close> when another process runs,
  and \<open>receive_cont p\<close> is the rest, run when process \<open>p\<close> is current again.
\<close>

section \<open>The operations\<close>

datatype 'a call = Ret 'a | Blocked

definition send :: "pid32 \<Rightarrow> umsg32 \<Rightarrow> kstate \<Rightarrow> (int \<times> kstate) option" where
  "send pid msg s =
    (if isbadpid s pid then Some (SYSERR, s)
     else if prhasmsg (proctab s pid) then Some (SYSERR, s)
     else
       let s1 = upd_proc pid (\<lambda>e. e\<lparr>prmsg := msg, prhasmsg := True\<rparr>) s in
       if prstate (proctab s1 pid) = PR_RECV then do { (_, s2) \<leftarrow> ready pid s1; Some (OK, s2) }
       else if prstate (proctab s1 pid) = PR_RECTIM then
         (let (_, s2) = unsleep pid s1 in do { (_, s3) \<leftarrow> ready pid s2; Some (OK, s3) })
       else Some (OK, s1))"

definition receive_cont :: "pid32 \<Rightarrow> kstate \<Rightarrow> umsg32 \<times> kstate" where
  "receive_cont p s = (prmsg (proctab s p), upd_proc p (\<lambda>e. e\<lparr>prhasmsg := False\<rparr>) s)"

definition receive :: "kstate \<Rightarrow> (umsg32 call \<times> kstate) option" where
  "receive s =
    (let p = currpid s in
     if \<not> prhasmsg (proctab s p) then do {
       s1 \<leftarrow> resched (set_prstate p PR_RECV s);
       if currpid s1 = p then (let (m, s2) = receive_cont p s1 in Some (Ret m, s2)) else Some (Blocked, s1)
     }
     else let (m, s2) = receive_cont p s in Some (Ret m, s2))"

definition recvclr :: "kstate \<Rightarrow> umsg32 \<times> kstate" where
  "recvclr s =
    (let p = currpid s in
     if prhasmsg (proctab s p) then (prmsg (proctab s p), upd_proc p (\<lambda>e. e\<lparr>prhasmsg := False\<rparr>) s)
     else (word_of_int OK, s))"

definition recvtime_cont :: "pid32 \<Rightarrow> kstate \<Rightarrow> umsg32 \<times> kstate" where
  "recvtime_cont p s =
    (if prhasmsg (proctab s p) then (prmsg (proctab s p), upd_proc p (\<lambda>e. e\<lparr>prhasmsg := False\<rparr>) s)
     else (word_of_int TIMEOUT, s))"

definition recvtime :: "int \<Rightarrow> kstate \<Rightarrow> (umsg32 call \<times> kstate) option" where
  "recvtime maxwait s =
    (if maxwait < 0 then Some (Ret (word_of_int SYSERR), s)
     else
       let p = currpid s in
       if \<not> prhasmsg (proctab s p) then do {
         (r, s1) \<leftarrow> insertd p (sleepq s) maxwait s;
         if r = SYSERR then Some (Ret (word_of_int SYSERR), s1)
         else do {
           s2 \<leftarrow> resched (set_prstate p PR_RECTIM s1);
           if currpid s2 = p then (let (m, s3) = recvtime_cont p s2 in Some (Ret m, s3)) else Some (Blocked, s2)
         }
       }
       else let (m, s3) = recvtime_cont p s in Some (Ret m, s3))"

section \<open>Sending\<close>

lemma kinv_msg:
  assumes k: "kinv s" and p: "p \<in> pids"
    and f: "\<And>e. prstate (f e) = prstate e" "\<And>e. prprio (f e) = prprio e" "\<And>e. prsem (f e) = prsem e"
  shows "kinv (upd_proc p f s)" "qview (upd_proc p f s) = qview s" "sync (upd_proc p f s) = sync s" "top_prio (upd_proc p f s) = top_prio s"
proof -
  note W = kinv_butD(4) [OF kinvD(1) [OF k], unfolded wf_procs_def]
  have h: "home (upd_proc p f s) p = home s p" by (rule home_cong) (simp_all add: f)
  have c: "pst s p = PR_CURR \<longleftrightarrow> p = currpid s" using W p kinvD(2) [OF k] by auto
  have r: "- 0x8000 \<le> prprio (proctab s p)" "prprio (proctab s p) < 0x8000" "pst s p = PR_WAIT \<longrightarrow> prsem (proctab s p) \<in> sems"
      "runnable (pst s NULLPROC)"
    using W p by blast+
  note U = kinv_upd_proc [OF k h, unfolded f, OF c r(1,2) r(3) [THEN mp]]
  show "kinv (upd_proc p f s)" and v: "qview (upd_proc p f s) = qview s" using U r(4) by auto
  show "sync (upd_proc p f s) = sync s" "top_prio (upd_proc p f s) = top_prio s"
    unfolding sync_def top_prio_def v by (auto simp: f)
qed

text \<open>\<open>msgs_same p s t\<close>: the messages of every process but \<open>p\<close> are as they were.\<close>

definition msgs_same :: "pid32 \<Rightarrow> kstate \<Rightarrow> kstate \<Rightarrow> bool" where
  "msgs_same p s t \<longleftrightarrow>
    (\<forall>x. x \<noteq> p \<longrightarrow> prmsg (proctab t x) = prmsg (proctab s x) \<and> prhasmsg (proctab t x) = prhasmsg (proctab s x)) \<and>
    kmem t = kmem s \<and> (\<forall>x. prstkbase (proctab t x) = prstkbase (proctab s x) \<and> prstklen (proctab t x) = prstklen (proctab s x)) \<and>
    prcount t = prcount s \<and> semtab t = semtab s \<and> nextpid t = nextpid s \<and> nextsem t = nextsem s"

lemma send_ok:
  assumes k: "kinv s" and p: "\<not> isbadpid s p" "\<not> prhasmsg (proctab s p)"
  obtains t where "send p m s = Some (OK, t)" "kinv t" "prmsg (proctab t p) = m" "prhasmsg (proctab t p)" "msgs_same p s t"
    "pst s p = PR_RECV \<or> pst s p = PR_RECTIM \<Longrightarrow> runnable (pst t p)"
    "pst s p \<noteq> PR_RECV \<Longrightarrow> pst s p \<noteq> PR_RECTIM \<Longrightarrow> t = upd_proc p (\<lambda>e. e\<lparr>prmsg := m, prhasmsg := True\<rparr>) s"
    "sync s \<Longrightarrow> top_prio s \<Longrightarrow> sync t \<and> top_prio t"
    "\<And>x. x \<noteq> p \<Longrightarrow> pst t x = pst s x \<or> runnable (pst s x) \<and> runnable (pst t x)"
proof -
  note result = that
  let ?f = "\<lambda>e. e\<lparr>prmsg := m, prhasmsg := True\<rparr>"
  let ?s1 = "upd_proc p ?f s"
  have pp: "p \<in> pids" using p(1) by (rule isbadpid_pids)
  have k1: "kinv ?s1" and v1: "qview ?s1 = qview s" and sy1: "sync ?s1 = sync s" "top_prio ?s1 = top_prio s"
    using kinv_msg [OF k pp, of ?f] by simp_all
  note K = kinvD [OF k1] and I = kinv_butD [OF kinvD(1) [OF k1]]
  have nn: "p \<noteq> NULLPROC \<or> runnable (pst ?s1 p)" using wf_procsD(5) [OF I(4)] by auto
  have d: "0 \<le> ndefers ?s1" using K(3) by simp
  have st1: "pst ?s1 p = pst s p" by simp
  have fin: thesis if u: "kinv_but X u" "X = {p} \<or> X = {} \<and> home u p = None" "u = set_qtab qt ?s1"
      "\<And>q. q \<noteq> sleepq s \<Longrightarrow> qview u q = qview s q" "sync u = sync s" "pst s p = PR_RECV \<or> pst s p = PR_RECTIM"
      "\<And>t. ready p u = Some (OK, t) \<Longrightarrow> send p m s = Some (OK, t)" for X u qt
  proof -
    have nb: "\<not> isbadpid u p" using p(1) u(3) by (simp add: isbadpid_def)
    have nn': "p \<noteq> NULLPROC \<or> runnable (pst u p)" using nn u(3) by simp
    have du: "ndefers u = 0" "0 \<le> ndefers u" using K(3) u(3) by simp_all
    obtain t where T: "ready p u = Some (OK, t)" "kinv_but {} t" "sched_frame {p} u t" "sync u \<Longrightarrow> sync t"
      "ndefers u = 0 \<Longrightarrow> pst t (currpid t) = PR_CURR \<and> (sync u \<longrightarrow> top_prio t)"
      by (rule ready_ok [OF u(1,2) nb nn' du(2)]) blast
    note F = sched_frameD [OF T(3)] and G = sched_frame_proc [OF T(3)]
    have c: "pst t (currpid t) = PR_CURR" "sync u \<longrightarrow> top_prio t" using T(5) du by simp_all
    have kt: "kinv t"
      by (rule kinv_same_sems [OF k T(2) c(1)]) (use F(5,7,17) du u(3,4) in simp_all)
    have ms: "msgs_same p s t" unfolding msgs_same_def using F G u(3) by simp
    show thesis
      by (rule result [OF u(7) [OF T(1)] kt _ _ ms])
        (use G u(3,5,6) F(15,16) T(4) c(2) in auto)
  qed
  show thesis
  proof (cases "pst s p")
    case PR_RECV
    show thesis
    proof (rule fin [of "{}" ?s1 "queuetab ?s1"])
      show "kinv_but {} ?s1" by (rule K(1))
      show "\<And>t. ready p ?s1 = Some (OK, t) \<Longrightarrow> send p m s = Some (OK, t)" using p PR_RECV by (simp add: send_def Let_def)
    qed (use PR_RECV v1 sy1 in \<open>simp_all\<close>)
  next
    case PR_RECTIM
    obtain qt' where U: "unsleep p ?s1 = (OK, set_qtab qt' ?s1)" "kinv_but {p} (set_qtab qt' ?s1)"
      "qview (set_qtab qt' ?s1) = (qview ?s1)(sleepq ?s1 := remove1 p (sleepers ?s1))"
      "\<And>y. y \<in> set (readyq ?s1) \<Longrightarrow> qkey (qt' y) = qk ?s1 y"
      by (rule unsleep_ok [OF K(1) pp]) (use PR_RECTIM in auto)
    have qr: "readylist s \<noteq> sleepq s" using wf_idsD(3) [OF I(2)] by simp
    show thesis
    proof (rule fin [of "{p}" "set_qtab qt' ?s1" qt'])
      show "kinv_but {p} (set_qtab qt' ?s1)" by (rule U(2))
      show "\<And>t. ready p (set_qtab qt' ?s1) = Some (OK, t) \<Longrightarrow> send p m s = Some (OK, t)"
        using p PR_RECTIM U(1) by (simp add: send_def Let_def)
      show "sync (set_qtab qt' ?s1) = sync s" using U(3,4) v1 qr by (auto simp: sync_def)
    qed (use PR_RECTIM v1 U(3) in simp_all)
  qed (rule that [of ?s1]; use p k1 sy1 in \<open>simp add: send_def Let_def msgs_same_def\<close>)+
qed

section \<open>Receiving\<close>

text \<open>The caller leaves the processor in a state that belongs to no queue.\<close>

lemma plain_block:
  assumes k: "kinv s" and nn: "currpid s \<noteq> NULLPROC" and st: "st = PR_RECV \<or> st = PR_SUSP \<or> st = PR_FREE"
  obtains t where "resched (set_prstate (currpid s) st s) = Some t" "kinv t" "pst t (currpid s) = st"
    "currpid t = hd (readyq s)" "currpid t \<noteq> currpid s" "sched_frame {} (set_prstate (currpid s) st s) t" "sync s \<Longrightarrow> sync t \<and> top_prio t"
    "\<And>q. q \<noteq> readylist s \<Longrightarrow> qview t q = qview s q"
proof -
  let ?p = "currpid s" and ?f = "prstate_update (\<lambda>_. st)"
  let ?s1 = "set_prstate ?p st s"
  note K = kinvD [OF k] and I = kinv_butD [OF kinvD(1) [OF k]]
  have pp: "?p \<in> pids" using wf_procsD(1) [OF I(4)] .
  have r: "- 0x8000 \<le> prprio (proctab s ?p)" "prprio (proctab s ?p) < 0x8000" using I(4) pp by (simp_all add: wf_procs_def)
  have h: "home ?s1 ?p = home s ?p" using K(2) st by (auto simp: home_def)
  have k1: "kinv_but {} ?s1" and v1: "qview ?s1 = qview s"
    using kinv_but_upd_proc [OF K(1) h] r st nn by auto
  have d1: "ndefers ?s1 = 0" "pst ?s1 (currpid ?s1) \<noteq> PR_CURR" using K(3) st by auto
  obtain t where T: "resched ?s1 = Some t" "kinv_but {} t" "pst t (currpid t) = PR_CURR" "sched_frame {} ?s1 t"
    "sync ?s1 \<Longrightarrow> sync t \<and> top_prio t" "pst ?s1 (currpid ?s1) \<noteq> PR_CURR \<Longrightarrow> currpid t = hd (readyq ?s1) \<and> readyq t = tl (readyq ?s1)"
    by (rule resched_ok [OF k1 d1(1)]) blast
  note F = sched_frameD [OF T(4)]
  have vt: "qview t q = qview s q" if "q \<noteq> readylist s" for q using F(17) [of q] v1 that by simp
  have kt: "kinv t" by (rule kinv_same_sems [OF k T(2,3)]) (use F(5,7) K(3) vt in simp_all)
  have pw: "pst t ?p = st" using F(16) [of ?p] st by auto
  have "currpid t \<noteq> ?p" using pw T(3) st by auto
  moreover have "sync ?s1 = sync s" using v1 by (auto simp: sync_def)
  moreover have "currpid t = hd (readyq s)" using T(6) d1(2) v1 by simp
  ultimately show thesis using that [OF T(1) kt pw _ _ T(4) _ vt] T(5) by blast
qed

lemma cont_facts:
  assumes "kinv s" and "p \<in> pids"
  shows "kinv (snd (receive_cont p s))" "kinv (snd (recvtime_cont p s))"
    "qview (snd (receive_cont p s)) = qview s" "qview (snd (recvtime_cont p s)) = qview s"
  using kinv_msg [OF assms, of "\<lambda>e. e\<lparr>prhasmsg := False\<rparr>"] assms(1) by (simp_all add: receive_cont_def recvtime_cont_def)

lemma receive_ok:
  assumes k: "kinv s" and nn: "currpid s \<noteq> NULLPROC"
  obtains (got) t where "receive s = Some (Ret (prmsg (proctab s (currpid s))), t)" "prhasmsg (proctab s (currpid s))" "kinv t"
      "t = snd (receive_cont (currpid s) s)"
  | (block) t where "receive s = Some (Blocked, t)" "\<not> prhasmsg (proctab s (currpid s))" "kinv t" "pst t (currpid s) = PR_RECV"
      "\<not> prhasmsg (proctab t (currpid s))" "currpid t = hd (readyq s)" "sched_frame {} (set_prstate (currpid s) PR_RECV s) t"
      "sync s \<Longrightarrow> sync t \<and> top_prio t"
proof (cases "prhasmsg (proctab s (currpid s))")
  case True
  have pp: "currpid s \<in> pids" using wf_procsD(1) [OF kinv_butD(4) [OF kinvD(1) [OF k]]] .
  show thesis using got [OF _ True cont_facts(1) [OF k pp] refl] True by (simp add: receive_def receive_cont_def Let_def)
next
  case False
  obtain t where T: "resched (set_prstate (currpid s) PR_RECV s) = Some t" "kinv t" "pst t (currpid s) = PR_RECV"
    "currpid t = hd (readyq s)" "currpid t \<noteq> currpid s" "sched_frame {} (set_prstate (currpid s) PR_RECV s) t" "sync s \<Longrightarrow> sync t \<and> top_prio t"
    by (rule plain_block [OF k nn, of PR_RECV]) blast+
  have h: "\<not> prhasmsg (proctab t (currpid s))" using sched_frame_proc(4) [OF T(6), of "currpid s"] False by simp
  have r: "receive s = Some (Blocked, t)" using False T(1,5) by (simp add: receive_def Let_def)
  show thesis by (rule block [OF r False T(2,3) h T(4,6,7)])
qed

lemma recvtime_ok:
  assumes k: "kinv s" and nn: "currpid s \<noteq> NULLPROC" and w: "0 \<le> maxwait"
  obtains (got) t where "recvtime maxwait s = Some (Ret (prmsg (proctab s (currpid s))), t)" "prhasmsg (proctab s (currpid s))" "kinv t"
      "t = snd (recvtime_cont (currpid s) s)"
  | (block) t where "recvtime maxwait s = Some (Blocked, t)" "\<not> prhasmsg (proctab s (currpid s))" "kinv t" "pst t (currpid s) = PR_RECTIM"
      "\<not> prhasmsg (proctab t (currpid s))" "currpid t = hd (readyq s)" "sync s \<Longrightarrow> sync t \<and> top_prio t"
      "sleepers t = delta_insert (qk s) (currpid s) maxwait (sleepers s)"
      "\<And>y. y \<in> set (sleepers t) \<Longrightarrow> qk t y = delta_keys (qk s) (currpid s) maxwait (sleepers s) y" "kmem t = kmem s"
proof (cases "prhasmsg (proctab s (currpid s))")
  case True
  have pp: "currpid s \<in> pids" using wf_procsD(1) [OF kinv_butD(4) [OF kinvD(1) [OF k]]] .
  show thesis using got [OF _ True cont_facts(2) [OF k pp] refl] True w by (simp add: recvtime_def recvtime_cont_def Let_def)
next
  case False
  obtain qt' t where T: "insertd (currpid s) (sleepq s) maxwait s = Some (OK, set_qtab qt' s)"
    "resched (set_prstate (currpid s) PR_RECTIM (set_qtab qt' s)) = Some t" "kinv t"
    "sleepers t = delta_insert (qk s) (currpid s) maxwait (sleepers s)"
    "\<And>y. y \<in> set (sleepers t) \<Longrightarrow> qk t y = delta_keys (qk s) (currpid s) maxwait (sleepers s) y"
    "pst t (currpid s) = PR_RECTIM" "currpid t = hd (readyq s)"
    "sched_frame {} (set_prstate (currpid s) PR_RECTIM (set_qtab qt' s)) t" "sync s \<Longrightarrow> sync t \<and> top_prio t"
    by (rule timed_block [OF k nn, of PR_RECTIM maxwait]) blast+
  have h: "\<not> prhasmsg (proctab t (currpid s))" using sched_frame_proc(4) [OF T(8), of "currpid s"] False by simp
  have ne: "currpid t \<noteq> currpid s" using T(6) kinvD(2) [OF T(3)] by auto
  have r: "recvtime maxwait s = Some (Blocked, t)" using False w T(1,2) ne by (simp add: recvtime_def Let_def)
  have m: "kmem t = kmem s" using sched_frameD(11) [OF T(8)] by simp
  show thesis by (rule block [OF r False T(3,6) h T(7,9,4,5) m])
qed

section \<open>Mailboxes\<close>

text \<open>The contract of message passing: every process has a mailbox for one message.\<close>

definition mailbox :: "kstate \<Rightarrow> pid32 \<rightharpoonup> umsg32" where
  "mailbox s = (\<lambda>p. if prhasmsg (proctab s p) then Some (prmsg (proctab s p)) else None)"

text \<open>
  C4. \<^verbatim>\<open>send\<close> implements the one-message mailbox: to a process with an empty mailbox it
  delivers the message, changes no other mailbox, and makes a receiver that was waiting
  runnable; a full mailbox is never overwritten, and then nothing changes at all.
\<close>

theorem send_refines_mailbox:
  assumes "kinv s" and "\<not> isbadpid s p"
  shows "case mailbox s p of
      Some _ \<Rightarrow> send p m s = Some (SYSERR, s)
    | None \<Rightarrow> (\<exists>t. send p m s = Some (OK, t) \<and> kinv t \<and> mailbox t = (mailbox s)(p \<mapsto> m) \<and>
        (pst s p = PR_RECV \<or> pst s p = PR_RECTIM \<longrightarrow> runnable (pst t p)))"
proof (cases "prhasmsg (proctab s p)")
  case True
  then show ?thesis using assms by (simp add: mailbox_def send_def)
next
  case False
  obtain t where T: "send p m s = Some (OK, t)" "kinv t" "prmsg (proctab t p) = m" "prhasmsg (proctab t p)" "msgs_same p s t"
    "pst s p = PR_RECV \<or> pst s p = PR_RECTIM \<Longrightarrow> runnable (pst t p)"
    by (rule send_ok [OF assms False]) blast
  have "mailbox t = (mailbox s)(p \<mapsto> m)" using T(3-5) by (auto simp: mailbox_def msgs_same_def fun_eq_iff)
  then show ?thesis using False T(1,2,6) by (auto simp: mailbox_def)
qed

theorem send_refines_mailbox_witness:
  "\<exists>t. send 1 42 krun = Some (OK, t) \<and> mailbox t 1 = Some 42"
proof -
  have "\<not> isbadpid krun 1" using krun_facts(14) by (simp add: isbadpid_def size_defs)
  moreover have "mailbox krun 1 = None" using krun_facts(17) by (simp add: mailbox_def)
  ultimately show ?thesis using send_refines_mailbox [OF krun_facts(1), of 1 42] by auto
qed

text \<open>
  Rendezvous: a process that calls \<^verbatim>\<open>receive\<close> with an empty mailbox blocks; whatever
  message is then sent to it makes it runnable, further sends are refused until it has
  run, and when it runs \<^verbatim>\<open>receive\<close> returns exactly that message and empties the mailbox.
\<close>

theorem receive_rendezvous:
  assumes "kinv s" and "currpid s \<noteq> NULLPROC" and "mailbox s (currpid s) = None"
  shows "\<exists>t. receive s = Some (Blocked, t) \<and> kinv t \<and> pst t (currpid s) = PR_RECV \<and>
    (\<forall>m. \<exists>u. send (currpid s) m t = Some (OK, u) \<and> kinv u \<and> runnable (pst u (currpid s)) \<and>
       (\<forall>m'. send (currpid s) m' u = Some (SYSERR, u)) \<and>
       fst (receive_cont (currpid s) u) = m \<and> mailbox (snd (receive_cont (currpid s) u)) (currpid s) = None)"
proof -
  let ?p = "currpid s"
  have nm: "\<not> prhasmsg (proctab s ?p)" using assms(3) by (simp add: mailbox_def split: if_splits)
  obtain t where T: "receive s = Some (Blocked, t)" "kinv t" "pst t ?p = PR_RECV" "\<not> prhasmsg (proctab t ?p)"
    by (rule receive_ok [OF assms(1,2)]) (use nm in auto)
  have pp: "?p \<in> pids" using wf_procsD(1) [OF kinv_butD(4) [OF kinvD(1) [OF assms(1)]]] .
  have nb: "\<not> isbadpid t ?p" using pp T(3) by (simp add: pids_notbad)
  have "\<exists>u. send ?p m t = Some (OK, u) \<and> kinv u \<and> runnable (pst u ?p) \<and> (\<forall>m'. send ?p m' u = Some (SYSERR, u)) \<and>
       fst (receive_cont ?p u) = m \<and> mailbox (snd (receive_cont ?p u)) ?p = None" for m
  proof -
    obtain u where U: "send ?p m t = Some (OK, u)" "kinv u" "prmsg (proctab u ?p) = m" "prhasmsg (proctab u ?p)"
      "pst t ?p = PR_RECV \<or> pst t ?p = PR_RECTIM \<Longrightarrow> runnable (pst u ?p)"
      by (rule send_ok [OF T(2) nb T(4)]) blast
    then show ?thesis using T(3) by (auto simp: send_def receive_cont_def mailbox_def)
  qed
  then show ?thesis using T by blast
qed

theorem receive_rendezvous_witness:
  "\<exists>t u. receive krun = Some (Blocked, t) \<and> send 1 7 t = Some (OK, u) \<and> fst (receive_cont 1 u) = 7"
  using receive_rendezvous [OF krun_facts(1)] krun_facts(4,17) by (force simp: mailbox_def NULLPROC_def)

text \<open>
  C18. Timed receive: with an empty mailbox \<^verbatim>\<open>recvtime d\<close> (\<open>d > 0\<close>) blocks. If no message comes
  it is off the sleep queue after exactly \<open>d\<close> ticks and returns \<^verbatim>\<open>TIMEOUT\<close>; if a message is
  sent first it leaves the sleep queue at once and returns the message.
\<close>

theorem recvtime_message_or_timeout:
  assumes "kinv s" and "currpid s \<noteq> NULLPROC" and "mailbox s (currpid s) = None" and "sleepers_pos s" and "0 < d"
  shows "\<exists>t. recvtime d s = Some (Blocked, t) \<and> kinv t \<and>
    (\<exists>u. ticks (nat d) t = Some u \<and> currpid s \<notin> set (sleepers u) \<and> fst (recvtime_cont (currpid s) u) = word_of_int TIMEOUT) \<and>
    (\<forall>n. int n < d \<longrightarrow> (\<exists>u. ticks n t = Some u \<and> currpid s \<in> set (sleepers u))) \<and>
    (\<forall>m. \<exists>u. send (currpid s) m t = Some (OK, u) \<and> currpid s \<notin> set (sleepers u) \<and> fst (recvtime_cont (currpid s) u) = m)"
proof -
  let ?p = "currpid s" and ?xs = "sleepers s"
  have nm: "\<not> prhasmsg (proctab s ?p)" using assms(3) by (simp add: mailbox_def split: if_splits)
  have pp: "?p \<in> pids" using wf_procsD(1) [OF kinv_butD(4) [OF kinvD(1) [OF assms(1)]]] .
  have w0: "0 \<le> d" using assms(5) by simp
  obtain t where T: "recvtime d s = Some (Blocked, t)" "kinv t" "pst t ?p = PR_RECTIM" "\<not> prhasmsg (proctab t ?p)"
    "sleepers t = delta_insert (qk s) ?p d ?xs" "\<And>y. y \<in> set (sleepers t) \<Longrightarrow> qk t y = delta_keys (qk s) ?p d ?xs y"
    by (rule recvtime_ok [OF assms(1,2) w0]) (use nm in auto)
  have tp: "delays t" "\<And>y. y \<in> set (sleepers t) \<Longrightarrow> 0 < ticks_left t y" "ticks_left t ?p = d" "?p \<in> set (sleepers t)"
    using delta_block [OF assms(1,4,5) T(5,6)] by (auto simp: sleepers_pos_def)
  have tk: "\<exists>u. ticks n t = Some u \<and> kinv u \<and> wake_frame t u \<and>
      (if int n = d then ?p \<notin> set (sleepers u) else ?p \<in> set (sleepers u) \<and> ticks_left u ?p = d - int n)" if "int n \<le> d" for n
    using ticks_ok [OF T(2) tp(1,2,4), of n] that unfolding tp(3) by blast
  obtain u where "ticks (nat d) t = Some u" "?p \<notin> set (sleepers u)" "wake_frame t u"
    using tk [of "nat d"] assms(5) by auto
  then have out: "\<exists>u. ticks (nat d) t = Some u \<and> ?p \<notin> set (sleepers u) \<and> fst (recvtime_cont ?p u) = word_of_int TIMEOUT"
    using T(4) by (auto simp: wake_frame_def recvtime_cont_def)
  have inn: "\<exists>u. ticks n t = Some u \<and> ?p \<in> set (sleepers u)" if "int n < d" for n
    using tk [of n] that by auto
  have nb: "\<not> isbadpid t ?p" using pp T(3) by (simp add: pids_notbad)
  have "\<exists>u. send ?p m t = Some (OK, u) \<and> ?p \<notin> set (sleepers u) \<and> fst (recvtime_cont ?p u) = m" for m
  proof -
    obtain u where U: "send ?p m t = Some (OK, u)" "kinv u" "prmsg (proctab u ?p) = m" "prhasmsg (proctab u ?p)"
      "pst t ?p = PR_RECV \<or> pst t ?p = PR_RECTIM \<Longrightarrow> runnable (pst u ?p)"
      by (rule send_ok [OF T(2) nb T(4)]) blast
    have "?p \<notin> set (sleepers u)"
      using placedD [OF kinv_butD(3) [OF kinvD(1) [OF U(2)]] pp, of "sleepq u"] U(5) T(3)
        wf_idsD(3) [OF kinv_butD(2) [OF kinvD(1) [OF U(2)]]] by (auto simp: runnable_def)
    then show ?thesis using U by (auto simp: recvtime_cont_def)
  qed
  then show ?thesis using T(1,2) out inn by blast
qed

theorem recvtime_message_or_timeout_witness:
  "\<exists>t u. recvtime 3 krun = Some (Blocked, t) \<and> ticks 3 t = Some u \<and> fst (recvtime_cont 1 u) = word_of_int TIMEOUT"
proof -
  have "sleepers_pos krun" using krun_facts(7,8) by (simp add: sleepers_pos_def delays_def)
  then show ?thesis
    using recvtime_message_or_timeout [OF krun_facts(1), of 3] krun_facts(4,17) by (auto simp: mailbox_def NULLPROC_def)
qed

end
