(* ===== verification/Semaphores.thy ===== *)
theory Semaphores
  imports Boot "HOL-Library.Sublist"
begin

text \<open>
  Counting semaphores: \<^verbatim>\<open>system/wait.c\<close>, \<^verbatim>\<open>signal.c\<close>, \<^verbatim>\<open>signaln.c\<close>, \<^verbatim>\<open>semcreate.c\<close>,
  \<^verbatim>\<open>semdelete.c\<close>, \<^verbatim>\<open>semreset.c\<close> and \<^verbatim>\<open>semcount.c\<close>. A call that blocks its caller gives the
  state in which the next process runs; the value is what the caller is returned when it
  runs again.
\<close>

section \<open>The operations\<close>

definition wait_sem :: "sid32 \<Rightarrow> kstate \<Rightarrow> (int \<times> kstate) option" where
  "wait_sem sem s =
    (if isbadsem sem then Some (SYSERR, s)
     else if sstate (semtab s sem) = S_FREE then Some (SYSERR, s)
     else
       let s1 = upd_sem sem (\<lambda>e. e\<lparr>scount := scount e - 1\<rparr>) s in
       if scount (semtab s1 sem) < 0 then
         (let s2 = upd_proc (currpid s1) (\<lambda>e. e\<lparr>prstate := PR_WAIT, prsem := sem\<rparr>) s1;
              (_, s3) = enqueue (currpid s2) (squeue (semtab s2 sem)) s2
          in do { s4 \<leftarrow> resched s3; Some (OK, s4) })
       else Some (OK, s1))"

definition signal :: "sid32 \<Rightarrow> kstate \<Rightarrow> (int \<times> kstate) option" where
  "signal sem s =
    (if isbadsem sem then Some (SYSERR, s)
     else if sstate (semtab s sem) = S_FREE then Some (SYSERR, s)
     else
       let s1 = upd_sem sem (\<lambda>e. e\<lparr>scount := scount e + 1\<rparr>) s in
       if scount (semtab s sem) < 0 then
         (let (p, s2) = dequeue (squeue (semtab s1 sem)) s1
          in do { (_, s3) \<leftarrow> ready p s2; Some (OK, s3) })
       else Some (OK, s1))"

fun signaln_loop :: "nat \<Rightarrow> sid32 \<Rightarrow> kstate \<Rightarrow> kstate option" where
  "signaln_loop 0 sem s = Some s"
| "signaln_loop (Suc n) sem s =
    (let s1 = upd_sem sem (\<lambda>e. e\<lparr>scount := scount e + 1\<rparr>) s in
     if scount (semtab s sem) < 0 then
       (let (p, s2) = dequeue (squeue (semtab s1 sem)) s1
        in do { (_, s3) \<leftarrow> ready p s2; signaln_loop n sem s3 })
     else signaln_loop n sem s1)"

definition signaln :: "sid32 \<Rightarrow> int \<Rightarrow> kstate \<Rightarrow> (int \<times> kstate) option" where
  "signaln sem count s =
    (if isbadsem sem \<or> count < 0 then Some (SYSERR, s)
     else if sstate (semtab s sem) = S_FREE then Some (SYSERR, s)
     else do {
       (_, s1) \<leftarrow> resched_cntl DEFER_START s;
       s2 \<leftarrow> signaln_loop (nat count) sem s1;
       (_, s3) \<leftarrow> resched_cntl DEFER_STOP s2;
       Some (OK, s3)
     })"

fun newsem_loop :: "nat \<Rightarrow> kstate \<Rightarrow> sid32 \<times> kstate" where
  "newsem_loop 0 s = (SYSERR, s)"
| "newsem_loop (Suc n) s =
    (let sem = nextsem s;
         s1 = s\<lparr>nextsem := nextsem s + 1\<rparr>;
         s2 = (if nextsem s1 \<ge> NSEM then s1\<lparr>nextsem := 0\<rparr> else s1)
     in if sstate (semtab s2 sem) = S_FREE then (sem, upd_sem sem (\<lambda>e. e\<lparr>sstate := S_USED\<rparr>) s2)
        else newsem_loop n s2)"

definition newsem :: "kstate \<Rightarrow> sid32 \<times> kstate" where
  "newsem s = newsem_loop (nat NSEM) s"

definition semcreate :: "int \<Rightarrow> kstate \<Rightarrow> sid32 \<times> kstate" where
  "semcreate count s =
    (if count < 0 then (SYSERR, s)
     else let (sem, s1) = newsem s in
       if sem = SYSERR then (SYSERR, s1)
       else (sem, upd_sem sem (\<lambda>e. e\<lparr>scount := count\<rparr>) s1))"

partial_function (option) semdelete_loop :: "sid32 \<Rightarrow> kstate \<Rightarrow> kstate option" where
  "semdelete_loop sem s =
    (let s1 = upd_sem sem (\<lambda>e. e\<lparr>scount := scount e + 1\<rparr>) s in
     if scount (semtab s sem) < 0 then
       (let (p, s2) = getfirst (squeue (semtab s1 sem)) s1
        in do { (_, s3) \<leftarrow> ready p s2; semdelete_loop sem s3 })
     else Some s1)"

definition semdelete :: "sid32 \<Rightarrow> kstate \<Rightarrow> (int \<times> kstate) option" where
  "semdelete sem s =
    (if isbadsem sem then Some (SYSERR, s)
     else if sstate (semtab s sem) = S_FREE then Some (SYSERR, s)
     else do {
       let s0 = upd_sem sem (\<lambda>e. e\<lparr>sstate := S_FREE\<rparr>) s;
       (_, s1) \<leftarrow> resched_cntl DEFER_START s0;
       s2 \<leftarrow> semdelete_loop sem s1;
       (_, s3) \<leftarrow> resched_cntl DEFER_STOP s2;
       Some (OK, s3)
     })"

partial_function (option) semreset_loop :: "qid16 \<Rightarrow> kstate \<Rightarrow> kstate option" where
  "semreset_loop q s =
    (let (pid, s1) = getfirst q s in
     if pid \<noteq> EMPTY then do { (_, s2) \<leftarrow> ready pid s1; semreset_loop q s2 } else Some s1)"

definition semreset :: "sid32 \<Rightarrow> int \<Rightarrow> kstate \<Rightarrow> (int \<times> kstate) option" where
  "semreset sem count s =
    (if count < 0 \<or> isbadsem sem \<or> sstate (semtab s sem) = S_FREE then Some (SYSERR, s)
     else do {
       let semqueue = squeue (semtab s sem);
       (_, s1) \<leftarrow> resched_cntl DEFER_START s;
       s2 \<leftarrow> semreset_loop semqueue s1;
       let s3 = upd_sem sem (\<lambda>e. e\<lparr>scount := count\<rparr>) s2;
       (_, s4) \<leftarrow> resched_cntl DEFER_STOP s3;
       Some (OK, s4)
     })"

definition semcount :: "sid32 \<Rightarrow> kstate \<Rightarrow> int" where
  "semcount sem s =
    (if isbadsem sem \<or> sstate (semtab s sem) = S_FREE then SYSERR else scount (semtab s sem))"

section \<open>Waking a waiter\<close>

lemma not_badsem: "\<not> isbadsem i \<longleftrightarrow> i \<in> sems"
  by (auto simp: isbadsem_def)

lemma kinv_but_upd_sem:
  assumes "kinv_but X s" and "\<And>e. squeue (f e) = squeue e"
  shows "kinv_but X (upd_sem i f s)" "qview (upd_sem i f s) = qview s"
  using kinv_but_cong [OF assms(1), of "upd_sem i f s"] qview_cong(1) [of "upd_sem i f s" s] assms(2) by simp_all

text \<open>What a semaphore operation leaves alone.\<close>

definition sem_frame :: "sid32 \<Rightarrow> kstate \<Rightarrow> kstate \<Rightarrow> bool" where
  "sem_frame i s t \<longleftrightarrow>
    readylist t = readylist s \<and> sleepq t = sleepq s \<and> ndefers t = ndefers s \<and> kmem t = kmem s \<and>
    (\<forall>j. semq t j = semq s j) \<and> (\<forall>j. j \<noteq> i \<longrightarrow> semtab t j = semtab s j) \<and>
    (\<forall>q. q \<noteq> readylist s \<longrightarrow> q \<noteq> semq s i \<longrightarrow> qview t q = qview s q)"

lemma sem_frame_trans: "sem_frame i s t \<Longrightarrow> sem_frame i t u \<Longrightarrow> sem_frame i s u"
  by (simp add: sem_frame_def)

lemma sem_frame_ok:
  assumes "sem_frame i s t" and "wf_ids s" and "i \<in> sems" "j \<in> sems" "j \<noteq> i" and "sem_ok s j"
  shows "sem_ok t j"
  using assms wf_idsD(6,8) [OF assms(2)] by (auto simp: sem_frame_def sem_ok_def)

lemma sched_sem_frame: "sched_frame X s t \<Longrightarrow> sem_frame i s t"
  using sched_frameD [of X s t] by (auto simp: sem_frame_def)

lemma upd_sem_sem_frame: "(\<And>e. squeue (f e) = squeue e) \<Longrightarrow> sem_frame i s (upd_sem i f s)"
  using qview_cong(1) [of "upd_sem i f s" s] by (simp add: sem_frame_def)

text \<open>
  One signal: \<open>bump i\<close> counts up, and a waiter, if there is one, is made ready.
\<close>

definition bump :: "sid32 \<Rightarrow> kstate \<Rightarrow> kstate" where
  "bump i = upd_sem i (\<lambda>e. e\<lparr>scount := scount e + 1\<rparr>)"

lemma bump_facts:
  assumes "kinv_but {} s"
  shows "kinv_but {} (bump i s)" "qview (bump i s) = qview s" "sem_frame i s (bump i s)"
    "sync (bump i s) = sync s" "top_prio (bump i s) = top_prio s"
    "semtab (bump i s) i = (semtab s i)\<lparr>scount := scount (semtab s i) + 1\<rparr>"
  using kinv_but_upd_sem [OF assms, of "\<lambda>e. e\<lparr>scount := scount e + 1\<rparr>" i]
    upd_sem_sem_frame [of "\<lambda>e. e\<lparr>scount := scount e + 1\<rparr>" i s]
  by (simp_all add: bump_def sync_def top_prio_def)

lemma bump_fields [simp]:
  "currpid (bump i s) = currpid s" "readylist (bump i s) = readylist s" "ndefers (bump i s) = ndefers s"
  "proctab (bump i s) = proctab s" "semq (bump i s) j = semq s j" "queuetab (bump i s) = queuetab s"
  by (simp_all add: bump_def)

definition woken :: "sid32 \<Rightarrow> pid32 \<Rightarrow> pid32 list \<Rightarrow> kstate \<Rightarrow> kstate \<Rightarrow> bool" where
  "woken i x xs s t \<longleftrightarrow>
    kinv_but {} t \<and> sem_frame i s t \<and> semtab t i = (semtab s i)\<lparr>scount := scount (semtab s i) + 1\<rparr> \<and>
    waiters t i = xs \<and> runnable (pst t x) \<and> (sync s \<longrightarrow> sync t) \<and>
    (ndefers s = 0 \<longrightarrow> pst t (currpid t) = PR_CURR \<and> (sync s \<longrightarrow> top_prio t)) \<and>
    (0 < ndefers s \<longrightarrow> pst s (currpid s) = PR_CURR \<longrightarrow> currpid t = currpid s \<and> attempt t \<and> pst t (currpid t) = PR_CURR) \<and>
    (\<forall>y. pst t y = PR_FREE \<longleftrightarrow> pst s y = PR_FREE)"

lemma wake_waiter:
  assumes inv: "kinv_but {} s" and d: "0 \<le> ndefers s" and i: "i \<in> sems" and w: "waiters s i = x # xs"
    and f: "f = dequeue \<or> f = getfirst"
  obtains s' t where "f (semq s i) (bump i s) = (x, s')" "ready x s' = Some (OK, t)" "woken i x xs s t"
proof -
  let ?b = "bump i s" and ?q = "semq s i"
  note I = kinv_butD [OF inv] and B = bump_facts [OF inv, of i]
  have nr: "?q \<noteq> readylist ?b" using wf_idsD(6) [OF I(2) i] by simp
  have v: "qview ?b ?q = x # xs" using B(2) w by simp
  have "\<exists>qt'. f ?q ?b = (x, set_qtab qt' ?b) \<and> wf_queues (set_qtab qt' ?b) \<and>
    qview (set_qtab qt' ?b) = (qview ?b)(?q := xs) \<and> (\<forall>j. qkey (qt' j) = qkey (queuetab ?b j))"
    using f dequeue_view [OF kinv_butD(1) [OF B(1)] v] getfirst_view [OF kinv_butD(1) [OF B(1)] v] by metis
  then obtain qt' where D: "f ?q ?b = (x, set_qtab qt' ?b)" "wf_queues (set_qtab qt' ?b)"
    "qview (set_qtab qt' ?b) = (qview ?b)(?q := xs)" "\<And>j. qkey (qt' j) = qkey (queuetab ?b j)" by blast
  have d1: "0 \<le> ndefers ?b" using d by simp
  obtain t where T: "ready x (set_qtab qt' ?b) = Some (OK, t)" "kinv_but {} t" "sched_frame {x} (set_qtab qt' ?b) t"
    "qview t ?q = xs" "\<And>r. r \<noteq> readylist ?b \<Longrightarrow> r \<noteq> ?q \<Longrightarrow> qview t r = qview ?b r" "sync ?b \<Longrightarrow> sync t"
    "ndefers ?b = 0 \<Longrightarrow> pst t (currpid t) = PR_CURR \<and> (sync ?b \<longrightarrow> top_prio t)"
    "0 < ndefers ?b \<Longrightarrow> currpid t = currpid ?b \<and> attempt t \<and> pst t (currpid ?b) = pst ?b (currpid ?b) \<or> x = currpid ?b"
    by (rule wake_taken [OF B(1) d1 v nr D(2-4)]) blast
  note F = sched_frameD [OF T(3)]
  have sf: "sem_frame i s t"
    using B(3) F(4,5,7,8,11) T(5) by (auto simp: sem_frame_def)
  have xc: "x \<noteq> currpid s" if "pst s (currpid s) = PR_CURR"
  proof
    assume "x = currpid s"
    moreover have "home s x = Some ?q"
      using placedD [OF I(3), of x ?q] w qview_pids [OF I(1), of x ?q] by simp
    ultimately show False using that by simp
  qed
  have st: "semtab t i = (semtab s i)\<lparr>scount := scount (semtab s i) + 1\<rparr>" using F(5) B(6) by simp
  have sw: "waiters t i = xs" using T(4) st by simp
  have w: "currpid t = currpid s \<and> attempt t \<and> pst t (currpid t) = PR_CURR" if a: "0 < ndefers s" "pst s (currpid s) = PR_CURR"
  proof -
    have "currpid t = currpid s \<and> attempt t \<and> pst t (currpid s) = pst s (currpid s)"
      using T(8) a(1) xc [OF a(2)] by auto
    then show ?thesis using a(2) by simp
  qed
  have sy: "sync s \<longrightarrow> sync t" "ndefers s = 0 \<longrightarrow> pst t (currpid t) = PR_CURR \<and> (sync s \<longrightarrow> top_prio t)"
    using T(6,7) B(4) by simp_all
  have rx: "runnable (pst t x)" using F(15) [of x] by simp
  have "home s x = Some ?q" using placedD [OF I(3), of x ?q] assms(4) qview_pids [OF I(1), of x ?q] by simp
  then have xf: "pst s x \<noteq> PR_FREE" by auto
  have "pst t y = PR_FREE \<longleftrightarrow> pst s y = PR_FREE" for y
    using F(16) [of y] rx xf by (cases "y = x") (auto simp: bump_def)
  with rx have "woken i x xs s t"
    using T(2) sf st sw sy w unfolding woken_def by blast
  then show thesis by (rule that [OF D(1) T(1)])
qed

section \<open>The operations keep the invariant\<close>

text \<open>An operation on semaphore \<open>i\<close> that leaves its count right keeps the whole invariant.\<close>

lemma kinv_after:
  assumes k: "kinv s" and i: "i \<in> sems" and f: "sem_frame i s t" and t: "kinv_but {} t" "pst t (currpid t) = PR_CURR"
    and ok: "sem_ok t i"
  shows "kinv t"
proof -
  have "sem_ok t j" if "j \<in> sems" for j
    using sem_frame_ok [OF f kinv_butD(2) [OF kinvD(1) [OF k]] i that _ kinvD(4) [OF k that]] ok by (cases "j = i") auto
  then show ?thesis using t f kinvD(3) [OF k] by (simp add: kinv_def sem_frame_def)
qed

lemma signal_wakes:
  assumes k: "kinv s" and i: "i \<in> sems" "sstate (semtab s i) = S_USED" and c: "scount (semtab s i) < 0"
  obtains t where "signal i s = Some (OK, t)" "kinv t" "waiters t i = tl (waiters s i)" "runnable (pst t (hd (waiters s i)))"
    "scount (semtab t i) = scount (semtab s i) + 1" "sem_frame i s t" "sync s \<Longrightarrow> sync t \<and> top_prio t" "waiters s i \<noteq> []"
    "sstate (semtab t i) = S_USED" "\<And>y. pst t y = PR_FREE \<longleftrightarrow> pst s y = PR_FREE"
proof -
  have "waiters s i \<noteq> []" using kinvD(4) [OF k i(1)] c by (auto simp: sem_ok_def)
  then obtain x xs where w: "waiters s i = x # xs" by (cases "waiters s i") auto
  have d: "0 \<le> ndefers s" using kinvD(3) [OF k] by simp
  obtain s' t where D: "dequeue (semq s i) (bump i s) = (x, s')" "ready x s' = Some (OK, t)" "woken i x xs s t"
    using wake_waiter [OF kinvD(1) [OF k] d i(1) w, of dequeue] by metis
  have T: "kinv_but {} t" "sem_frame i s t" "semtab t i = (semtab s i)\<lparr>scount := scount (semtab s i) + 1\<rparr>"
    "waiters t i = xs" "runnable (pst t x)" "sync s \<longrightarrow> sync t" "pst t (currpid t) = PR_CURR" "sync s \<longrightarrow> top_prio t"
    "\<forall>y. pst t y = PR_FREE \<longleftrightarrow> pst s y = PR_FREE"
    using D(3) kinvD(3) [OF k] unfolding woken_def by blast+
  have r: "signal i s = Some (OK, t)"
    using i c D(1,2) not_badsem [of i] by (simp add: signal_def Let_def bump_def)
  have ok: "sem_ok t i" using kinvD(4) [OF k i(1)] T(3,4) w c by (auto simp: sem_ok_def)
  have kt: "kinv t" by (rule kinv_after [OF k i(1) T(2,1,7) ok])
  have sy: "sync t \<and> top_prio t" if "sync s" using T(6,8) that by simp
  have h: "waiters t i = tl (waiters s i)" "runnable (pst t (hd (waiters s i)))"
    by (simp_all only: T(4,5) w list.sel)
  show thesis by (rule that [OF r kt h _ T(2) sy]) (simp_all add: T(3,9) w i(2))
qed

lemma signal_counts:
  assumes k: "kinv s" and i: "i \<in> sems" "sstate (semtab s i) = S_USED" and c: "0 \<le> scount (semtab s i)"
  shows "signal i s = Some (OK, bump i s)" "kinv (bump i s)"
proof -
  show "signal i s = Some (OK, bump i s)"
    using i c not_badsem [of i] by (simp add: signal_def Let_def bump_def)
  note B = bump_facts [OF kinvD(1) [OF k], of i]
  have "sem_ok (bump i s) i" using kinvD(4) [OF k i(1)] B(2,6) c by (auto simp: sem_ok_def)
  then show "kinv (bump i s)" using kinv_after [OF k i(1) B(3,1)] kinvD(2) [OF k] by simp
qed

text \<open>The loops run under a deferral: nobody is switched to until they end.\<close>

definition in_defer :: "sid32 \<Rightarrow> kstate \<Rightarrow> kstate \<Rightarrow> bool" where
  "in_defer i s t \<longleftrightarrow>
    kmid t \<and> sem_frame i s t \<and> (sync s \<longrightarrow> sync t) \<and> (attempt t \<or> (top_prio s \<longrightarrow> top_prio t)) \<and>
    sstate (semtab t i) = sstate (semtab s i)"

lemma in_defer_refl: "kmid s \<Longrightarrow> in_defer i s s"
  by (simp add: in_defer_def sem_frame_def)

lemma bump_in_defer: "kmid s \<Longrightarrow> in_defer i s (bump i s)"
  using bump_facts [of s i] by (auto simp: in_defer_def kmid_def)

lemma wake_in_defer:
  assumes m: "kmid s" and i: "i \<in> sems" and w: "waiters s i = x # xs" and f: "f = dequeue \<or> f = getfirst"
  obtains s' t where "f (semq s i) (bump i s) = (x, s')" "ready x s' = Some (OK, t)" "kmid t" "sem_frame i s t" "sync s \<longrightarrow> sync t"
    "attempt t" "waiters t i = xs" "semtab t i = (semtab s i)\<lparr>scount := scount (semtab s i) + 1\<rparr>"
proof -
  note M = kmidD [OF m]
  have d: "0 \<le> ndefers s" using M(3) by simp
  obtain s' t where D: "f (semq s i) (bump i s) = (x, s')" "ready x s' = Some (OK, t)" "woken i x xs s t"
    using wake_waiter [OF M(1) d i w f] by metis
  have T: "kinv_but {} t" "sem_frame i s t" "semtab t i = (semtab s i)\<lparr>scount := scount (semtab s i) + 1\<rparr>"
    "waiters t i = xs" "sync s \<longrightarrow> sync t" "attempt t" "pst t (currpid t) = PR_CURR"
    using D(3) M(2,3) unfolding woken_def by blast+
  have kt: "kmid t" using T(1,2,7) M(3) by (simp add: kmid_def sem_frame_def)
  show thesis by (rule that [OF D(1,2) kt T(2,5,6,4,3)])
qed

lemma in_defer_step:
  assumes "kmid t" "sem_frame i s t" "sync s \<longrightarrow> sync t" "attempt t" "in_defer i t u"
    and "attempt t \<Longrightarrow> attempt u" "sstate (semtab t i) = sstate (semtab s i)"
  shows "in_defer i s u"
  using assms sem_frame_trans [of i s t u] by (auto simp: in_defer_def)

lemma signaln_loop_ok:
  assumes "kmid s" and i: "i \<in> sems" and "int (length (waiters s i)) = max 0 (- scount (semtab s i))"
  shows "\<exists>t. signaln_loop n i s = Some t \<and> in_defer i s t \<and> (attempt s \<longrightarrow> attempt t) \<and>
    waiters t i = drop n (waiters s i) \<and> scount (semtab t i) = scount (semtab s i) + int n"
  using assms(1,3)
proof (induction n arbitrary: s)
  case 0
  then show ?case by (simp add: in_defer_refl)
next
  case (Suc n)
  note B = bump_facts [OF kmidD(1) [OF Suc.prems(1)], of i]
  show ?case
  proof (cases "scount (semtab s i) < 0")
    case True
    then obtain x xs where w: "waiters s i = x # xs" using Suc.prems(2) by (cases "waiters s i") auto
    obtain s' t where T: "dequeue (semq s i) (bump i s) = (x, s')" "ready x s' = Some (OK, t)" "kmid t" "sem_frame i s t" "sync s \<longrightarrow> sync t"
      "attempt t" "waiters t i = xs" "semtab t i = (semtab s i)\<lparr>scount := scount (semtab s i) + 1\<rparr>"
      using wake_in_defer [OF Suc.prems(1) i w, of dequeue] by blast
    have "int (length (waiters t i)) = max 0 (- scount (semtab t i))" using T(7,8) Suc.prems(2) w True by simp
    then obtain u where U: "signaln_loop n i t = Some u" "in_defer i t u" "attempt t \<longrightarrow> attempt u"
      "waiters u i = drop n (waiters t i)" "scount (semtab u i) = scount (semtab t i) + int n"
      using Suc.IH [OF T(3)] by blast
    have "signaln_loop (Suc n) i s = Some u"
      using True T(1,2) U(1) by (simp add: bump_def Let_def)
    moreover have "in_defer i s u"
      by (rule in_defer_step [OF T(3-6) U(2)]) (use U(3) T(8) in simp_all)
    ultimately show ?thesis using U(3-5) T(6-8) w by auto
  next
    case False
    let ?b = "bump i s"
    have m: "kmid ?b" using Suc.prems(1) B(1) by (simp add: kmid_def)
    have "int (length (waiters ?b i)) = max 0 (- scount (semtab ?b i))" using B(2,6) Suc.prems(2) False by simp
    then obtain u where U: "signaln_loop n i ?b = Some u" "in_defer i ?b u" "attempt ?b \<longrightarrow> attempt u"
      "waiters u i = drop n (waiters ?b i)" "scount (semtab u i) = scount (semtab ?b i) + int n"
      using Suc.IH [OF m] by blast
    have r: "signaln_loop (Suc n) i s = Some u" using False U(1) by (simp add: bump_def Let_def)
    have a: "attempt ?b = attempt s" by (simp add: bump_def)
    have "in_defer i s u"
      using U(2) B(3-6) sem_frame_trans [OF B(3)] by (auto simp: in_defer_def)
    moreover have "waiters s i = []" using Suc.prems(2) False by simp
    ultimately show ?thesis using r U(3-5) B(2,6) a by simp
  qed
qed

lemma semdelete_loop_ok:
  assumes "kmid s" and i: "i \<in> sems" and "int (length (waiters s i)) = max 0 (- scount (semtab s i))"
  shows "\<exists>t. semdelete_loop i s = Some t \<and> in_defer i s t \<and> (attempt s \<longrightarrow> attempt t) \<and>
    waiters t i = [] \<and> scount (semtab t i) = max 0 (scount (semtab s i)) + 1"
  using assms(1,3)
proof (induction "length (waiters s i)" arbitrary: s)
  case 0
  note B = bump_facts [OF kmidD(1) [OF 0(2)], of i]
  have c: "\<not> scount (semtab s i) < 0" and w: "waiters s i = []" using 0(1,3) by auto
  have "semdelete_loop i s = Some (bump i s)"
    by (subst semdelete_loop.simps) (use c in \<open>simp add: bump_def Let_def\<close>)
  moreover have "attempt (bump i s) = attempt s" by (simp add: bump_def)
  ultimately show ?case using bump_in_defer [OF 0(2), of i] B(2,6) w c by simp
next
  case (Suc n)
  obtain x xs where w: "waiters s i = x # xs" using Suc(2) by (cases "waiters s i") auto
  have c: "scount (semtab s i) < 0" using Suc(2,4) by simp
  obtain s' t where T: "getfirst (semq s i) (bump i s) = (x, s')" "ready x s' = Some (OK, t)" "kmid t" "sem_frame i s t" "sync s \<longrightarrow> sync t"
      "attempt t" "waiters t i = xs" "semtab t i = (semtab s i)\<lparr>scount := scount (semtab s i) + 1\<rparr>"
    by (rule wake_in_defer [OF Suc(3) i w, of getfirst]) simp_all
  have lt: "length (waiters t i) = length xs" by (simp only: T(7))
  then have l: "n = length (waiters t i)" using Suc(2) w by simp
  have "int (length xs) = max 0 (- scount (semtab t i))" using Suc(4) c w T(8) by simp
  then have e: "int (length (waiters t i)) = max 0 (- scount (semtab t i))" using lt by simp
  obtain u where U: "semdelete_loop i t = Some u" "in_defer i t u" "attempt t \<longrightarrow> attempt u" "waiters u i = []"
      "scount (semtab u i) = max 0 (scount (semtab t i)) + 1"
    using Suc(1) [OF l T(3) e] by blast
  have "semdelete_loop i s = Some u"
    by (subst semdelete_loop.simps) (use c T(1,2) U(1) in \<open>simp add: bump_def Let_def\<close>)
  moreover have "in_defer i s u" by (rule in_defer_step [OF T(3-6) U(2)]) (use U(3) T(8) in simp_all)
  ultimately show ?case using U(3-5) T(6,8) c by simp
qed

lemma semreset_loop_ok:
  assumes "kmid s" and i: "i \<in> sems"
  shows "\<exists>t. semreset_loop (semq s i) s = Some t \<and> in_defer i s t \<and> (attempt s \<longrightarrow> attempt t) \<and>
    waiters t i = [] \<and> semtab t = semtab s"
  using assms(1)
proof (induction "length (waiters s i)" arbitrary: s)
  case 0
  note I = kinv_butD [OF kmidD(1) [OF 0(2)]]
  have w: "waiters s i = []" using 0(1) by simp
  have "getfirst (semq s i) s = (EMPTY, s)" using getfirst_empty [OF I(1) wf_idsD(5) [OF I(2) i] w] .
  then have "semreset_loop (semq s i) s = Some s" by (subst semreset_loop.simps) simp
  then show ?case using in_defer_refl [OF 0(2), of i] w by simp
next
  case (Suc n)
  note I = kinv_butD [OF kmidD(1) [OF Suc(3)]] and M = kmidD [OF Suc(3)]
  obtain x xs where w: "waiters s i = x # xs" using Suc(2) by (cases "waiters s i") auto
  have nr: "semq s i \<noteq> readylist s" using wf_idsD(6) [OF I(2) i] .
  obtain qt' where D: "getfirst (semq s i) s = (x, set_qtab qt' s)" "wf_queues (set_qtab qt' s)"
      "qview (set_qtab qt' s) = (qview s)(semq s i := xs)" "\<And>j. qkey (qt' j) = qkey (queuetab s j)"
    by (rule getfirst_view [OF I(1) w]) blast
  have d: "0 \<le> ndefers s" using M(3) by simp
  obtain t where T: "ready x (set_qtab qt' s) = Some (OK, t)" "kinv_but {} t" "sched_frame {x} (set_qtab qt' s) t"
    "qview t (semq s i) = xs" "\<And>r. r \<noteq> readylist s \<Longrightarrow> r \<noteq> semq s i \<Longrightarrow> qview t r = qview s r" "sync s \<Longrightarrow> sync t"
    "0 < ndefers s \<Longrightarrow> currpid t = currpid s \<and> attempt t \<and> pst t (currpid s) = pst s (currpid s) \<or> x = currpid s"
    by (rule wake_taken [OF M(1) d w nr D(2-4)]) blast
  note F = sched_frameD [OF T(3)]
  have xp: "x \<in> pids" using qview_pids [OF I(1), of x "semq s i"] w by simp
  have "x \<noteq> currpid s" using placedD [OF I(3) xp, of "semq s i"] w M(2) by auto
  then have c: "currpid t = currpid s" "attempt t" "pst t (currpid s) = pst s (currpid s)" using T(7) M(3) by auto
  have st: "semtab t = semtab s" using F(5) by simp
  have kt: "kmid t" using T(2) c M F(7) by (simp add: kmid_def)
  have sf: "sem_frame i s t" using F(4,5,7,8,11) T(5) by (simp add: sem_frame_def)
  have l: "n = length (waiters t i)" using Suc(2) w T(4) st by simp
  obtain u where U: "semreset_loop (semq t i) t = Some u" "in_defer i t u" "attempt t \<longrightarrow> attempt u" "waiters u i = []"
      "semtab u = semtab t"
    using Suc(1) [OF l kt] by blast
  have xe: "x \<noteq> EMPTY" using xp by (auto simp: EMPTY_def)
  have "semreset_loop (semq s i) s = Some u"
    by (subst semreset_loop.simps) (use D(1) T(1) U(1) xe st in simp)
  moreover have "in_defer i s u" by (rule in_defer_step [OF kt sf _ c(2) U(2)]) (use U(3) T(6) st in simp_all)
  ultimately show ?case using U(3-5) c(2) st by simp
qed

text \<open>Ending the deferral.\<close>

lemma finish_defer:
  assumes k: "kinv s" and i: "i \<in> sems" and f: "sem_frame i s s0" and m: "in_defer i (s0\<lparr>ndefers := 1, attempt := False\<rparr>) u"
    and sy: "sync s0 = sync s" "top_prio s0 = top_prio s" and u: "u' = upd_sem i g u" "\<And>e. squeue (g e) = squeue e"
    "sem_ok u' i"
  obtains t where "resched_cntl DEFER_STOP u' = Some (OK, t)" "kinv t" "semtab t = semtab u'" "waiters t i = waiters u i"
    "sync s \<Longrightarrow> top_prio s \<Longrightarrow> sync t \<and> top_prio t" "kmem t = kmem s" "sem_frame i s t"
proof -
  let ?s1 = "s0\<lparr>ndefers := 1, attempt := False\<rparr>"
  have U: "kmid u" "sem_frame i ?s1 u" "sync ?s1 \<longrightarrow> sync u" "attempt u \<or> (top_prio ?s1 \<longrightarrow> top_prio u)"
    using m by (simp_all add: in_defer_def)
  note V = kinv_but_upd_sem [OF kmidD(1) [OF U(1)], of g i, OF u(2)]
  have fu: "sem_frame i u u'" using upd_sem_sem_frame [of g i u] u by simp
  have ku: "kmid u'" using V(1) U(1) u(1) by (simp add: kmid_def)
  have v1: "qview ?s1 = qview s0" by (rule qview_cong) simp_all
  have du: "ndefers u' = 1" using U(2) u(1) by (simp add: sem_frame_def)
  have syu: "sync u' = sync u" "top_prio u' = top_prio u" "attempt u' = attempt u"
    using V(2) u(1) by (simp_all add: sync_def top_prio_def)
  have sy1: "sync ?s1 = sync s" "top_prio ?s1 = top_prio s"
    using v1 sy by (simp_all add: sync_def top_prio_def)
  obtain t where T: "resched_cntl DEFER_STOP u' = Some (OK, t)" "kinv_but {} t" "pst t (currpid t) = PR_CURR"
    "ndefers t = 0" "sched_frame {} (u'\<lparr>ndefers := 0\<rparr>) t" "sync u' \<Longrightarrow> attempt u' \<or> top_prio u' \<Longrightarrow> sync t \<and> top_prio t"
    by (rule defer_stop [OF ku du]) blast
  let ?u0 = "u'\<lparr>ndefers := 0\<rparr>"
  have v0: "qview ?u0 = qview u'" by (rule qview_cong) simp_all
  have F: "sem_frame i s t"
    using f U(2) fu v1 v0 sched_sem_frame [OF T(5), of i] kinvD(3) [OF k] T(4) by (simp add: sem_frame_def)
  have st: "semtab t = semtab u'" using sched_frameD(5) [OF T(5)] by simp
  have wi: "wf_ids u'" using kinv_butD(2) [OF kmidD(1) [OF ku]] .
  have wt: "waiters t i = waiters u' i"
    using sched_frameD(17) [OF T(5), of "semq u' i"] wf_idsD(6) [OF wi i] v0 st by simp
  then have "sem_ok t i" using u(3) st by (simp add: sem_ok_def)
  then have kt: "kinv t" by (rule kinv_after [OF k i F T(2,3)])
  have w: "waiters t i = waiters u i" using wt V(2) u by simp
  have "sync t \<and> top_prio t" if "sync s" "top_prio s"
    using T(6) syu sy1 U(3,4) that by auto
  moreover have "kmem t = kmem s" using F by (simp add: sem_frame_def)
  ultimately show thesis using that [OF T(1) kt st w _ _ F] by blast
qed

lemma upd_sem_id: "upd_sem i (\<lambda>e. e) s = s"
  by (simp add: upd_sem_def)

lemma defer_sem_ok:
  assumes "kinv s" and "i \<in> sems"
  shows "int (length (waiters (s\<lparr>ndefers := n, attempt := b\<rparr>) i)) = max 0 (- scount (semtab s i))"
    "waiters (s\<lparr>ndefers := n, attempt := b\<rparr>) i = waiters s i"
proof -
  have v: "qview (s\<lparr>ndefers := n, attempt := b\<rparr>) = qview s" by (rule qview_cong) simp_all
  then show "waiters (s\<lparr>ndefers := n, attempt := b\<rparr>) i = waiters s i" by simp
  show "int (length (waiters (s\<lparr>ndefers := n, attempt := b\<rparr>) i)) = max 0 (- scount (semtab s i))"
    using kinvD(4) [OF assms] v by (simp add: sem_ok_def)
qed

lemma signaln_ok:
  assumes k: "kinv s" and i: "i \<in> sems" "sstate (semtab s i) = S_USED" and n: "0 \<le> n"
  obtains t where "signaln i n s = Some (OK, t)" "kinv t" "waiters t i = drop (nat n) (waiters s i)"
    "scount (semtab t i) = scount (semtab s i) + n" "sem_frame i s t" "sync s \<Longrightarrow> top_prio s \<Longrightarrow> sync t \<and> top_prio t"
proof -
  note K = kinvD [OF k]
  obtain s1 where S: "resched_cntl DEFER_START s = Some (OK, s1)" "kmid s1" "s1 = s\<lparr>ndefers := 1, attempt := False\<rparr>"
    by (rule kinv_defer [OF K(1-3)])
  note W = defer_sem_ok [OF k i(1), where n = 1 and b = False]
  obtain u where U: "signaln_loop (nat n) i s1 = Some u" "in_defer i s1 u" "waiters u i = drop (nat n) (waiters s1 i)"
      "scount (semtab u i) = scount (semtab s1 i) + int (nat n)"
    using signaln_loop_ok [OF S(2) i(1)] W S(3) by fastforce
  have wu: "waiters u i = drop (nat n) (waiters s i)" using U(3) W(2) S(3) by simp
  have cu: "scount (semtab u i) = scount (semtab s i) + n" using U(4) S(3) n by simp
  have su: "sstate (semtab u i) = S_USED" using U(2) i(2) S(3) by (simp add: in_defer_def)
  have ok: "sem_ok u i" using wu cu su K(4) [OF i(1)] n by (auto simp: sem_ok_def)
  have sf: "sem_frame i s s" by (simp add: sem_frame_def)
  obtain t where T: "resched_cntl DEFER_STOP u = Some (OK, t)" "kinv t" "semtab t = semtab u" "waiters t i = waiters u i"
      "sync s \<Longrightarrow> top_prio s \<Longrightarrow> sync t \<and> top_prio t" "sem_frame i s t"
    by (rule finish_defer [OF k i(1) sf U(2) [unfolded S(3)] refl refl upd_sem_id [symmetric] refl ok]) blast
  have "signaln i n s = Some (OK, t)" using i n S(1) U(1) T(1) not_badsem [of i] by (simp add: signaln_def)
  then show thesis by (rule that [OF _ T(2) _ _ T(6,5)]) (simp_all only: T(4) wu, simp add: T(3) cu)
qed

lemma semdelete_ok:
  assumes k: "kinv s" and i: "i \<in> sems" "sstate (semtab s i) = S_USED"
  obtains t where "semdelete i s = Some (OK, t)" "kinv t" "waiters t i = []" "sstate (semtab t i) = S_FREE"
    "sem_frame i s t" "sync s \<Longrightarrow> top_prio s \<Longrightarrow> sync t \<and> top_prio t"
proof -
  let ?f = "\<lambda>e. e\<lparr>sstate := S_FREE\<rparr>"
  let ?s0 = "upd_sem i ?f s"
  note K = kinvD [OF k]
  note V = kinv_but_upd_sem [OF K(1), of ?f i]
  have v0: "qview ?s0 = qview s" and k0: "kinv_but {} ?s0" using V by simp_all
  have f0: "sem_frame i s ?s0" using upd_sem_sem_frame [of ?f i s] by simp
  have sy0: "sync ?s0 = sync s" "top_prio ?s0 = top_prio s" using v0 by (simp_all add: sync_def top_prio_def)
  have c0: "pst ?s0 (currpid ?s0) = PR_CURR" "ndefers ?s0 = 0" using K(2,3) by simp_all
  obtain s1 where S: "resched_cntl DEFER_START ?s0 = Some (OK, s1)" "kmid s1" "s1 = ?s0\<lparr>ndefers := 1, attempt := False\<rparr>" "qview s1 = qview ?s0"
    by (rule kinv_defer [OF k0 c0])
  have "int (length (waiters s1 i)) = max 0 (- scount (semtab s1 i))"
    using K(4) [OF i(1)] S(3,4) v0 by (simp add: sem_ok_def)
  then obtain u where U: "semdelete_loop i s1 = Some u" "in_defer i s1 u" "waiters u i = []"
      "scount (semtab u i) = max 0 (scount (semtab s1 i)) + 1"
    using semdelete_loop_ok [OF S(2) i(1)] by blast
  have su: "sstate (semtab u i) = S_FREE" using U(2) S(3) by (simp add: in_defer_def)
  have ok: "sem_ok u i" using U(3,4) by (simp add: sem_ok_def)
  obtain t where T: "resched_cntl DEFER_STOP u = Some (OK, t)" "kinv t" "semtab t = semtab u" "waiters t i = waiters u i"
      "sync s \<Longrightarrow> top_prio s \<Longrightarrow> sync t \<and> top_prio t" "sem_frame i s t"
    by (rule finish_defer [OF k i(1) f0 U(2) [unfolded S(3)] sy0 upd_sem_id [symmetric] refl ok]) blast
  have "semdelete i s = Some (OK, t)" using i S(1) U(1) T(1) not_badsem [of i] by (simp add: semdelete_def Let_def)
  then show thesis by (rule that [OF _ T(2) _ _ T(6,5)]) (simp_all only: T(4) U(3), simp add: T(3) su)
qed

lemma semreset_ok:
  assumes k: "kinv s" and i: "i \<in> sems" "sstate (semtab s i) = S_USED" and n: "0 \<le> n"
  obtains t where "semreset i n s = Some (OK, t)" "kinv t" "waiters t i = []" "scount (semtab t i) = n"
    "sem_frame i s t" "sync s \<Longrightarrow> top_prio s \<Longrightarrow> sync t \<and> top_prio t" "semcount i t = n"
proof -
  note K = kinvD [OF k]
  let ?f = "\<lambda>e. e\<lparr>scount := n\<rparr>"
  obtain s1 where S: "resched_cntl DEFER_START s = Some (OK, s1)" "kmid s1" "s1 = s\<lparr>ndefers := 1, attempt := False\<rparr>"
    by (rule kinv_defer [OF K(1-3)])
  obtain u where U: "semreset_loop (semq s1 i) s1 = Some u" "in_defer i s1 u" "waiters u i = []" "semtab u = semtab s1"
    using semreset_loop_ok [OF S(2) i(1)] by blast
  have vu: "qview (upd_sem i ?f u) = qview u" by (rule qview_cong) simp_all
  have ok': "sem_ok (upd_sem i ?f u) i" using U(3) n vu by (simp add: sem_ok_def)
  have sf: "sem_frame i s s" by (simp add: sem_frame_def)
  obtain t where T: "resched_cntl DEFER_STOP (upd_sem i ?f u) = Some (OK, t)" "kinv t" "semtab t = semtab (upd_sem i ?f u)"
      "waiters t i = waiters u i" "sync s \<Longrightarrow> top_prio s \<Longrightarrow> sync t \<and> top_prio t" "sem_frame i s t"
    by (rule finish_defer [OF k i(1) sf U(2) [unfolded S(3)] refl refl refl _ ok']) (simp, blast)
  have r: "semreset i n s = Some (OK, t)"
    using i n S(1,3) U(1) T(1) not_badsem [of i] by (simp add: semreset_def Let_def)
  have c: "semcount i t = n" using T(3) U(4) S(3) i not_badsem [of i] by (simp add: semcount_def)
  show thesis by (rule that [OF r T(2) _ _ T(6,5) c]) (simp_all only: T(4) U(3), simp add: T(3))
qed

lemma wait_blocks:
  assumes k: "kinv s" and i: "i \<in> sems" "sstate (semtab s i) = S_USED" and c: "scount (semtab s i) \<le> 0"
    and nn: "currpid s \<noteq> NULLPROC"
  obtains t where "wait_sem i s = Some (OK, t)" "kinv t" "waiters t i = waiters s i @ [currpid s]"
    "pst t (currpid s) = PR_WAIT" "currpid t = hd (readyq s)" "scount (semtab t i) = scount (semtab s i) - 1"
    "sem_frame i s t" "sync s \<Longrightarrow> sync t \<and> top_prio t" "sstate (semtab t i) = S_USED"
    "\<And>y. pst t y = PR_FREE \<longleftrightarrow> pst s y = PR_FREE"
proof -
  let ?p = "currpid s" and ?g = "\<lambda>e. e\<lparr>scount := scount e - 1\<rparr>" and ?f = "\<lambda>e. e\<lparr>prstate := PR_WAIT, prsem := i\<rparr>"
  let ?s1 = "upd_sem i ?g s" and ?q = "semq s i"
  let ?s2 = "upd_proc ?p ?f ?s1"
  note K = kinvD [OF k]
  have k1: "kinv_but {} ?s1" and v1: "qview ?s1 = qview s" using kinv_but_upd_sem [OF K(1), of ?g i] by simp_all
  note I = kinv_butD [OF k1]
  have pp: "?p \<in> pids" using wf_procsD(1) [OF I(4)] by simp
  have hp: "home ?s1 ?p = None" using K(2) by simp
  have v2: "qview ?s2 = qview ?s1" "kqueues ?s2 = kqueues ?s1" "wf_queues ?s2" using qview_cong [of ?s2 ?s1] I(1) by simp_all
  have qk: "?q \<in> kqueues ?s2" "?q \<noteq> readylist ?s1" using wf_idsD(5,6) [OF I(2) i(1)] v2(2) by simp_all
  have nb: "\<not> isbadpid ?s2 ?p" using pp by (simp add: pids_notbad)
  have nq: "\<not> in_queue ?s2 ?p" using placed_in_queue [OF I(1,3) pp] hp v2(1) by (simp add: in_queue_iff)
  obtain qt' where E: "enqueue ?p ?q ?s2 = (?p, set_qtab qt' ?s2)" "wf_queues (set_qtab qt' ?s2)"
      "qview (set_qtab qt' ?s2) = (qview ?s2)(?q := qview ?s2 ?q @ [?p])" "\<And>j. qkey (qt' j) = qkey (queuetab ?s2 j)"
    by (rule enqueue_view [OF v2(3) qk(1) nb nq]) blast
  let ?s3 = "set_qtab qt' ?s2"
  have e1: "wf_queues (set_qtab qt' ?s1)" "qview (set_qtab qt' ?s1) = (qview ?s1)(?q := qview ?s1 ?q @ [?p])"
    using E(2,3) v2(1) qview_cong [of ?s3 "set_qtab qt' ?s1"] by simp_all
  have k3: "kinv_but {} ?s3" and v3: "qview ?s3 = (qview ?s1)(?q := qview ?s1 ?q @ [?p])"
    using kinv_but_enqueued [OF k1 _ pp nn qk(2) _ _ _ _ e1, of ?f] hp i(1) E(4) by simp_all
  have d3: "ndefers ?s3 = 0" "pst ?s3 (currpid ?s3) \<noteq> PR_CURR" using K(3) by simp_all
  have r3: "readyq ?s3 = readyq s" using v3 v1 qk(2) by simp
  obtain t where T: "resched ?s3 = Some t" "kinv_but {} t" "pst t (currpid t) = PR_CURR" "sched_frame {} ?s3 t"
    "sync ?s3 \<Longrightarrow> sync t \<and> top_prio t" "pst ?s3 (currpid ?s3) \<noteq> PR_CURR \<Longrightarrow> currpid t = hd (readyq ?s3) \<and> readyq t = tl (readyq ?s3)"
    by (rule resched_ok [OF k3 d3(1)]) blast
  note F = sched_frameD [OF T(4)]
  have r: "wait_sem i s = Some (OK, t)"
    using i c E(1) T(1) not_badsem [of i] by (simp add: wait_sem_def Let_def)
  have sf: "sem_frame i s t"
    using F(4,5,7,8,11,17) v3 v1 by (simp add: sem_frame_def)
  have w: "waiters t i = waiters s i @ [?p]" using F(5,17) qk(2) v3 v1 by simp
  have st: "semtab t i = (semtab s i)\<lparr>scount := scount (semtab s i) - 1\<rparr>" using F(5) by simp
  have ok: "sem_ok t i" unfolding sem_ok_def w using K(4) [OF i(1)] c st i(2) by (simp add: sem_ok_def)
  have kt: "kinv t" by (rule kinv_after [OF k i(1) sf T(2,3) ok])
  have pw: "pst t ?p = PR_WAIT" using F(16) [of ?p] by simp
  have "\<forall>y\<in>set (readyq s). y \<noteq> ?p" using placedD [OF I(3) pp] hp v1 by auto
  then have sy: "sync ?s3 = sync s" using r3 E(4) by (auto simp: sync_def)
  have fr: "pst t y = PR_FREE \<longleftrightarrow> pst s y = PR_FREE" for y
    using F(16) [of y] K(2) by (cases "y = ?p") auto
  show thesis
    by (rule that [OF r kt w pw _ _ sf]) (use T(5,6) sy d3 r3 st i(2) fr in auto)
qed

lemma wait_passes:
  assumes k: "kinv s" and i: "i \<in> sems" "sstate (semtab s i) = S_USED" and c: "0 < scount (semtab s i)"
  defines "t \<equiv> upd_sem i (\<lambda>e. e\<lparr>scount := scount e - 1\<rparr>) s"
  shows "wait_sem i s = Some (OK, t)" "kinv t" "sem_frame i s t" "qview t = qview s"
proof -
  let ?g = "\<lambda>e. e\<lparr>scount := scount e - 1\<rparr>"
  show "wait_sem i s = Some (OK, t)" using i c not_badsem [of i] by (simp add: wait_sem_def Let_def t_def)
  have k1: "kinv_but {} t" and v: "qview t = qview s"
    using kinv_but_upd_sem [OF kinvD(1) [OF k], of ?g i] by (simp_all add: t_def)
  show sf: "sem_frame i s t" using upd_sem_sem_frame [of ?g i s] by (simp add: t_def)
  show "qview t = qview s" by (rule v)
  have "sem_ok t i" using kinvD(4) [OF k i(1)] v c by (simp add: sem_ok_def t_def)
  then show "kinv t" using kinv_after [OF k i(1) sf k1] kinvD(2) [OF k] by (simp add: t_def)
qed

text \<open>Allocating a semaphore: the table is searched once round from \<^verbatim>\<open>nextsem\<close>.\<close>

lemma newsem_loop_ok:
  assumes "nextsem s \<in> sems"
  shows "case newsem_loop n s of (r, t) \<Rightarrow>
    nextsem t \<in> sems \<and>
    (r = SYSERR \<and> t = s\<lparr>nextsem := nextsem t\<rparr> \<and>
       (\<forall>j<n. sstate (semtab s ((nextsem s + int j) mod NSEM)) = S_USED) \<or>
     r \<in> sems \<and> sstate (semtab s r) = S_FREE \<and>
       t = upd_sem r (\<lambda>e. e\<lparr>sstate := S_USED\<rparr>) (s\<lparr>nextsem := nextsem t\<rparr>))"
  using assms
proof (induction n arbitrary: s)
  case 0
  then show ?case by simp
next
  case (Suc n)
  let ?m = "(nextsem s + 1) mod NSEM"
  let ?s = "s\<lparr>nextsem := ?m\<rparr>"
  have m: "?m = (if nextsem s + 1 \<ge> NSEM then 0 else nextsem s + 1)" "?m \<in> sems"
    using Suc.prems by (auto simp: mod_pos_pos_trivial) (smt (verit) mod_self)
  show ?case
  proof (cases "sstate (semtab s (nextsem s))")
    case S_FREE
    then show ?thesis using m Suc.prems by (auto simp: Let_def)
  next
    case S_USED
    have e: "newsem_loop (Suc n) s = newsem_loop n ?s" using S_USED m by (auto simp: Let_def)
    have sh: "(?m + int j) mod NSEM = (nextsem s + int (Suc j)) mod NSEM" for j
      by (simp add: mod_simps algebra_simps)
    obtain r t where rt: "newsem_loop n ?s = (r, t)" by (cases "newsem_loop n ?s")
    have ih: "nextsem t \<in> sems \<and> (r = SYSERR \<and> t = ?s\<lparr>nextsem := nextsem t\<rparr> \<and>
        (\<forall>j<n. sstate (semtab s ((?m + int j) mod NSEM)) = S_USED) \<or>
      r \<in> sems \<and> sstate (semtab s r) = S_FREE \<and> t = upd_sem r (\<lambda>e. e\<lparr>sstate := S_USED\<rparr>) (?s\<lparr>nextsem := nextsem t\<rparr>))"
      using Suc.IH [of ?s] m(2) rt by simp
    have z: "(nextsem s + int 0) mod NSEM = nextsem s" using Suc.prems by simp
    have "sstate (semtab s ((nextsem s + int j) mod NSEM)) = S_USED"
      if "\<forall>j<n. sstate (semtab s ((?m + int j) mod NSEM)) = S_USED" "j < Suc n" for j
      using that S_USED z sh by (cases j) auto
    then show ?thesis unfolding e rt using ih by auto
  qed
qed

lemma newsem_full:
  assumes "nextsem s \<in> sems" and "\<forall>j<nat NSEM. sstate (semtab s ((nextsem s + int j) mod NSEM)) = S_USED" and "i \<in> sems"
  shows "sstate (semtab s i) = S_USED"
proof -
  let ?j = "nat ((i - nextsem s) mod NSEM)"
  have "int ?j = (i - nextsem s) mod NSEM" "?j < nat NSEM" by (simp_all add: nat_less_iff)
  moreover have "(nextsem s + (i - nextsem s) mod NSEM) mod NSEM = i" using assms(3) by (simp add: mod_simps)
  ultimately show ?thesis using assms(2) by metis
qed

lemma semcreate_ok:
  assumes k: "kinv s" and nx: "nextsem s \<in> sems" and n: "0 \<le> n"
  shows "case semcreate n s of (r, t) \<Rightarrow> kinv t \<and> nextsem t \<in> sems \<and> qview t = qview s \<and>
    (r = SYSERR \<and> t = s\<lparr>nextsem := nextsem t\<rparr> \<and> (\<forall>i\<in>sems. sstate (semtab s i) = S_USED) \<or>
     r \<in> sems \<and> sstate (semtab s r) = S_FREE \<and> sem_frame r s t \<and>
       semtab t r = \<lparr>sstate = S_USED, scount = n, squeue = semq s r\<rparr> \<and> proctab t = proctab s \<and> currpid t = currpid s)"
proof -
  obtain r t where R: "newsem s = (r, t)" by (cases "newsem s")
  note N = newsem_loop_ok [OF nx, of "nat NSEM", folded newsem_def, unfolded R prod.case]
  have nt: "nextsem t \<in> sems" using N by blast
  show ?thesis
  proof (cases "r = SYSERR")
    case True
    then have t: "t = s\<lparr>nextsem := nextsem t\<rparr>" and full: "\<forall>j<nat NSEM. sstate (semtab s ((nextsem s + int j) mod NSEM)) = S_USED"
      using N by (auto simp: SYSERR_def)
    have v: "qview t = qview s" by (rule qview_cong) (subst t, simp)+
    have "kinv_but {} t" by (rule kinv_but_cong [OF kinvD(1) [OF k]]) (subst t, simp)+
    moreover have "proctab t = proctab s" "currpid t = currpid s" "ndefers t = ndefers s" "semtab t = semtab s" by (subst t, simp)+
    ultimately have "kinv t" using kinvD [OF k] v by (simp add: kinv_def sem_ok_def)
    then show ?thesis using R True n t nt v newsem_full [OF nx full] by (auto simp: semcreate_def)
  next
    case False
    then have r: "r \<in> sems" "sstate (semtab s r) = S_FREE" "t = upd_sem r (\<lambda>e. e\<lparr>sstate := S_USED\<rparr>) (s\<lparr>nextsem := nextsem t\<rparr>)"
      using N by auto
    let ?u = "upd_sem r (\<lambda>e. e\<lparr>scount := n\<rparr>) t"
    have e: "semcreate n s = (r, ?u)" using R False n by (simp add: semcreate_def)
    have tf: "queuetab t = queuetab s" "nextqid t = nextqid s" "proctab t = proctab s" "currpid t = currpid s" "readylist t = readylist s"
      "sleepq t = sleepq s" "ndefers t = ndefers s" "kmem t = kmem s" "semtab t = (semtab s)(r := (semtab s r)\<lparr>sstate := S_USED\<rparr>)"
      by (subst r(3), simp)+
    have v: "qview ?u = qview s" by (rule qview_cong) (simp_all add: tf)
    have kb: "kinv_but {} ?u" by (rule kinv_but_cong [OF kinvD(1) [OF k]]) (simp_all add: tf)
    have sf: "sem_frame r s ?u" using v tf by (simp add: sem_frame_def)
    have w: "waiters s r = []" using kinvD(4) [OF k r(1)] r(2) by (simp add: sem_ok_def)
    have ok: "sem_ok ?u r" using w v tf n by (simp add: sem_ok_def)
    have "kinv ?u" by (rule kinv_after [OF k r(1) sf kb _ ok]) (use kinvD(2) [OF k] tf in simp)
    moreover have "nextsem ?u \<in> sems" using nt by simp
    ultimately show ?thesis using e r v sf tf by simp
  qed
qed

section \<open>The semaphore as an interface\<close>

text \<open>
  A run of \<^verbatim>\<open>wait\<close> and \<^verbatim>\<open>signal\<close> calls on one semaphore, each made by whichever process is
  current: the processes that blocked, in order, the processes that were woken, in order,
  and the number of waits that passed at once.
\<close>

datatype semop = SWait | SSignal

primrec sem_run :: "('s \<Rightarrow> 's option) \<Rightarrow> ('s \<Rightarrow> 's option) \<Rightarrow> ('s \<Rightarrow> 'p list) \<Rightarrow> ('s \<Rightarrow> 'p) \<Rightarrow>
    semop list \<Rightarrow> 's \<Rightarrow> ('p list \<times> 'p list \<times> nat \<times> 's) option" where
  "sem_run w g q c [] s = Some ([], [], 0, s)"
| "sem_run w g q c (x # xs) s =
    (case x of
       SWait \<Rightarrow> do {
         t \<leftarrow> w s;
         (bl, wk, n, u) \<leftarrow> sem_run w g q c xs t;
         Some (if length (q s) < length (q t) then (c s # bl, wk, n, u) else (bl, wk, Suc n, u)) }
     | SSignal \<Rightarrow> do {
         t \<leftarrow> g s;
         (bl, wk, n, u) \<leftarrow> sem_run w g q c xs t;
         Some (if length (q t) < length (q s) then (bl, hd (q s) # wk, n, u) else (bl, wk, n, u)) })"

locale counting_semaphore =
  fixes ok :: "'s \<Rightarrow> bool"
    and wait :: "'s \<Rightarrow> 's option"
    and post :: "'s \<Rightarrow> 's option"
    and count :: "'s \<Rightarrow> int"
    and queue :: "'s \<Rightarrow> 'p list"
    and caller :: "'s \<Rightarrow> 'p"
  assumes wait_law: "ok s \<Longrightarrow> wait s = Some t \<Longrightarrow>
      ok t \<and> count t = count s - 1 \<and> queue t = (if count s \<le> 0 then queue s @ [caller s] else queue s)"
    and post_law: "ok s \<Longrightarrow> post s = Some t \<Longrightarrow>
      ok t \<and> count t = count s + 1 \<and> queue t = (if count s < 0 then tl (queue s) else queue s)"
    and balance: "ok s \<Longrightarrow> int (length (queue s)) = max 0 (- count s)"
begin

lemma run_laws:
  assumes "ok s" and "sem_run wait post queue caller ops s = Some (bl, wk, n, t)"
  shows "ok t \<and> queue s @ bl = wk @ queue t \<and>
    count t = count s + int (length (filter ((=) SSignal) ops)) - int (length (filter ((=) SWait) ops)) \<and>
    n + length bl = length (filter ((=) SWait) ops)"
  using assms
proof (induction ops arbitrary: s bl wk n)
  case Nil
  then show ?case by simp
next
  case (Cons x xs)
  show ?case
  proof (cases x)
    case SWait
    obtain s1 bl1 wk1 n1 where R: "wait s = Some s1" "sem_run wait post queue caller xs s1 = Some (bl1, wk1, n1, t)"
      "(bl, wk, n) = (if length (queue s) < length (queue s1) then (caller s # bl1, wk1, n1) else (bl1, wk1, Suc n1))"
      using Cons.prems(2) SWait by (auto split: Option.bind_splits if_splits)
    note L = wait_law [OF Cons.prems(1) R(1)]
    show ?thesis using Cons.IH [OF conjunct1 [OF L] R(2)] L R(3) SWait by (auto split: if_splits)
  next
    case SSignal
    obtain s1 bl1 wk1 n1 where R: "post s = Some s1" "sem_run wait post queue caller xs s1 = Some (bl1, wk1, n1, t)"
      "(bl, wk, n) = (if length (queue s1) < length (queue s) then (bl1, hd (queue s) # wk1, n1) else (bl1, wk1, n1))"
      using Cons.prems(2) SSignal by (auto split: Option.bind_splits if_splits)
    note L = post_law [OF Cons.prems(1) R(1)]
    have "queue s \<noteq> []" if "count s < 0" using balance [OF Cons.prems(1)] that by auto
    then show ?thesis
      using Cons.IH [OF conjunct1 [OF L] R(2)] L R(3) SSignal by (cases "queue s") (auto split: if_splits)
  qed
qed

text \<open>
  Waiters leave in the order they came, and from a fresh semaphore the waits that have got
  through are as many as the count allows, no more and no fewer.
\<close>

lemma admissions:
  assumes "ok s" and "sem_run wait post queue caller ops s = Some (bl, wk, n, t)" and "0 \<le> count s"
  shows "prefix wk bl"
    "int (n + length wk) = min (int (length (filter ((=) SWait) ops))) (count s + int (length (filter ((=) SSignal) ops)))"
proof -
  note R = run_laws [OF assms(1,2)]
  have q: "queue s = []" using balance [OF assms(1)] assms(3) by simp
  then show "prefix wk bl" using R by (simp add: prefix_def)
  have "length bl = length wk + length (queue t)" using R q by (metis append_Nil length_append)
  then show "int (n + length wk) = min (int (length (filter ((=) SWait) ops))) (count s + int (length (filter ((=) SSignal) ops)))"
    using R balance [of t] by auto
qed

end

definition wait_by :: "sid32 \<Rightarrow> kstate \<Rightarrow> kstate option" where
  "wait_by i s = (if currpid s = NULLPROC then None else map_option snd (wait_sem i s))"

definition signal_by :: "sid32 \<Rightarrow> kstate \<Rightarrow> kstate option" where
  "signal_by i s = map_option snd (signal i s)"

definition sem_ready :: "sid32 \<Rightarrow> kstate \<Rightarrow> bool" where
  "sem_ready i s \<longleftrightarrow> kinv s \<and> i \<in> sems \<and> sstate (semtab s i) = S_USED"

interpretation sem: counting_semaphore "sem_ready i" "wait_by i" "signal_by i" "\<lambda>s. scount (semtab s i)" "\<lambda>s. waiters s i" currpid
  for i :: sid32
proof
  fix s t
  assume r: "sem_ready i s"
  then have k: "kinv s" "i \<in> sems" "sstate (semtab s i) = S_USED" by (simp_all add: sem_ready_def)
  show "int (length (waiters s i)) = max 0 (- scount (semtab s i))" using kinvD(4) [OF k(1,2)] by (simp add: sem_ok_def)
  show "sem_ready i t \<and> scount (semtab t i) = scount (semtab s i) - 1 \<and>
    waiters t i = (if scount (semtab s i) \<le> 0 then waiters s i @ [currpid s] else waiters s i)" if w: "wait_by i s = Some t"
  proof (cases "scount (semtab s i) \<le> 0")
    case True
    have nn: "currpid s \<noteq> NULLPROC" using w by (auto simp: wait_by_def)
    show ?thesis
      by (rule wait_blocks [OF k True nn]) (use w nn True k(2) in \<open>auto simp: wait_by_def sem_ready_def\<close>)
  next
    case False
    then have c: "0 < scount (semtab s i)" by simp
    show ?thesis
      using wait_passes [OF k c] w c k by (auto simp: wait_by_def sem_ready_def split: if_splits)
  qed
  show "sem_ready i t \<and> scount (semtab t i) = scount (semtab s i) + 1 \<and>
    waiters t i = (if scount (semtab s i) < 0 then tl (waiters s i) else waiters s i)" if g: "signal_by i s = Some t"
  proof (cases "scount (semtab s i) < 0")
    case True
    show ?thesis
      by (rule signal_wakes [OF k True]) (use g True k(2) in \<open>auto simp: signal_by_def sem_ready_def\<close>)
  next
    case False
    then have c: "0 \<le> scount (semtab s i)" by simp
    show ?thesis
      using signal_counts [OF k c] bump_facts [OF kinvD(1) [OF k(1)], of i] g c k by (auto simp: signal_by_def sem_ready_def)
  qed
qed

text \<open>The system of \<open>krun\<close> with semaphore 0 created, its count 0.\<close>

definition ksem :: kstate where
  "ksem = snd (semcreate 0 krun)"

lemma ksem_facts:
  shows "kinv ksem" "sstate (semtab ksem 0) = S_USED" "scount (semtab ksem 0) = 0" "waiters ksem 0 = []"
    "currpid ksem = 1" "semcreate 0 krun = (0, ksem)" "readyq ksem = [NULLPROC]"
proof -
  have z: "(0::int) \<in> sems" by simp
  have "semcreate 0 krun = (0, snd (semcreate 0 krun))"
    using krun_facts(10) kboot_facts(8) [OF z] krun_facts(9)
    by (simp add: semcreate_def newsem_def NSEM_def numeral_eq_Suc Let_def SYSERR_def)
  then show e: "semcreate 0 krun = (0, ksem)" by (simp add: ksem_def)
  have nx: "nextsem krun \<in> sems" using krun_facts(10) by simp
  have R: "kinv ksem \<and> qview ksem = qview krun \<and> sem_frame 0 krun ksem \<and>
      semtab ksem 0 = \<lparr>sstate = S_USED, scount = 0, squeue = semq krun 0\<rparr> \<and> currpid ksem = currpid krun"
    using semcreate_ok [OF krun_facts(1) nx, of 0] e by (auto simp: SYSERR_def)
  show "kinv ksem" "sstate (semtab ksem 0) = S_USED" "scount (semtab ksem 0) = 0" "currpid ksem = 1"
    using R krun_facts(4) by simp_all
  have "semq krun 0 = 100" using kboot_facts(8) [OF z] krun_facts(9) by (simp add: size_defs)
  then show "waiters ksem 0 = []" "readyq ksem = [NULLPROC]"
    using R krun_facts(5,8) by (simp_all add: sem_frame_def)
qed

text \<open>
  C1. Over any run of \<^verbatim>\<open>wait\<close> and \<^verbatim>\<open>signal\<close> calls on a semaphore with a nonnegative count,
  blocked processes are woken in the order in which they blocked, and the number of waits
  that got through is exactly the smaller of the waits made and the count plus the signals
  sent: no process is let through too early and no wakeup is lost.
\<close>

theorem semaphore_admissions:
  assumes "sem_ready i s" and "0 \<le> scount (semtab s i)"
    and "sem_run (wait_by i) (signal_by i) (\<lambda>s. waiters s i) currpid ops s = Some (blocked, released, passed, t)"
  shows "prefix released blocked \<and>
    int (passed + length released) =
      min (int (length (filter ((=) SWait) ops))) (scount (semtab s i) + int (length (filter ((=) SSignal) ops))) \<and>
    kinv t"
  using sem.admissions [OF assms(1,3,2)] sem.run_laws [OF assms(1,3)] by (auto simp: sem_ready_def)

theorem semaphore_admissions_witness:
  "\<exists>u. sem_run (wait_by 0) (signal_by 0) (\<lambda>s. waiters s 0) currpid [SWait, SSignal] ksem = Some ([1], [1], 0, u) \<and> kinv u"
proof -
  obtain t where t: "wait_sem 0 ksem = Some (OK, t)" "kinv t" "waiters t 0 = waiters ksem 0 @ [currpid ksem]"
      "scount (semtab t 0) = scount (semtab ksem 0) - 1" "sstate (semtab t 0) = S_USED"
    by (rule wait_blocks [OF ksem_facts(1) _ ksem_facts(2)]) (use ksem_facts in \<open>auto simp: size_defs\<close>)
  have c: "scount (semtab t 0) < 0" using t(4) ksem_facts by simp
  obtain u where u: "signal 0 t = Some (OK, u)" "kinv u" "waiters u 0 = tl (waiters t 0)"
    by (rule signal_wakes [OF t(2) _ t(5) c]) (simp_all add: size_defs)
  have wt: "waiters t 0 = [1]" using t(3) ksem_facts by simp
  have wu: "waiters u 0 = []" by (simp only: u(3) wt list.sel)
  have nn: "currpid ksem \<noteq> NULLPROC" using ksem_facts by (simp add: NULLPROC_def)
  have r: "sem_run (wait_by 0) (signal_by 0) (\<lambda>s. waiters s 0) currpid [SWait, SSignal] ksem = Some ([1], [1], 0, u)"
    using t(1) u(1) wt wu nn ksem_facts by (simp add: wait_by_def signal_by_def)
  have "sem_ready 0 ksem" using ksem_facts by (simp add: sem_ready_def size_defs)
  then have "kinv u" using semaphore_admissions [OF _ _ r] ksem_facts(3) by simp
  with r show ?thesis by blast
qed

text \<open>
  \<^verbatim>\<open>wait\<close> on a semaphore whose count is not positive blocks the caller: it is appended to
  the semaphore's queue in state \<^verbatim>\<open>PR_WAIT\<close>, the head of the ready list runs instead, and
  the invariant holds again.
\<close>

theorem wait_blocks_caller:
  assumes "kinv s" and "i \<in> sems" and "sstate (semtab s i) = S_USED" and "scount (semtab s i) \<le> 0" and "currpid s \<noteq> NULLPROC"
  shows "\<exists>t. wait_sem i s = Some (OK, t) \<and> kinv t \<and> waiters t i = waiters s i @ [currpid s] \<and>
    pst t (currpid s) = PR_WAIT \<and> currpid t = hd (readyq s) \<and> scount (semtab t i) = scount (semtab s i) - 1"
  by (rule wait_blocks [OF assms]) blast

theorem wait_blocks_caller_witness:
  "\<exists>t. wait_sem 0 ksem = Some (OK, t) \<and> waiters t 0 = [1] \<and> currpid t = NULLPROC"
  using wait_blocks_caller [OF ksem_facts(1) _ ksem_facts(2)] ksem_facts
  by (auto simp: size_defs)

text \<open>
  \<^verbatim>\<open>signaln\<close> with \<open>n\<close> releases the first \<open>n\<close> waiters, or all of them if there are fewer,
  and leaves every other semaphore alone; the reschedule it defers happens once, at its
  end.
\<close>

theorem signaln_releases:
  assumes "kinv s" and "i \<in> sems" and "sstate (semtab s i) = S_USED" and "0 \<le> n"
  shows "\<exists>t. signaln i n s = Some (OK, t) \<and> kinv t \<and> waiters t i = drop (nat n) (waiters s i) \<and>
    scount (semtab t i) = scount (semtab s i) + n \<and> (\<forall>j\<in>sems - {i}. semtab t j = semtab s j \<and> waiters t j = waiters s j)"
proof -
  obtain t where T: "signaln i n s = Some (OK, t)" "kinv t" "waiters t i = drop (nat n) (waiters s i)"
      "scount (semtab t i) = scount (semtab s i) + n" "sem_frame i s t"
    by (rule signaln_ok [OF assms])
  have "semtab t j = semtab s j \<and> waiters t j = waiters s j" if "j \<in> sems - {i}" for j
    using that T(5) wf_idsD(6,8) [OF kinv_butD(2) [OF kinvD(1) [OF assms(1)]]] assms(2) by (auto simp: sem_frame_def)
  then show ?thesis using T by blast
qed

theorem signaln_releases_witness:
  "\<exists>t. signaln 0 3 ksem = Some (OK, t) \<and> kinv t \<and> scount (semtab t 0) = 3"
  using signaln_releases [OF ksem_facts(1) _ ksem_facts(2), of 3] ksem_facts(3) by auto

text \<open>
  \<^verbatim>\<open>semdelete\<close> and \<^verbatim>\<open>semreset\<close> always return, and leave no process waiting on the
  semaphore: the one frees it, the other gives it the new count.
\<close>

theorem semdelete_semreset_release_all:
  assumes "kinv s" and "i \<in> sems" and "sstate (semtab s i) = S_USED" and "0 \<le> n"
  shows "(\<exists>t. semdelete i s = Some (OK, t) \<and> kinv t \<and> waiters t i = [] \<and> sstate (semtab t i) = S_FREE) \<and>
    (\<exists>t. semreset i n s = Some (OK, t) \<and> kinv t \<and> waiters t i = [] \<and> semcount i t = n)"
proof
  show "\<exists>t. semdelete i s = Some (OK, t) \<and> kinv t \<and> waiters t i = [] \<and> sstate (semtab t i) = S_FREE"
    by (rule semdelete_ok [OF assms(1-3)]) blast
  show "\<exists>t. semreset i n s = Some (OK, t) \<and> kinv t \<and> waiters t i = [] \<and> semcount i t = n"
    by (rule semreset_ok [OF assms]) blast
qed

theorem semdelete_semreset_release_all_witness:
  "\<exists>t u. semdelete 0 ksem = Some (OK, t) \<and> sstate (semtab t 0) = S_FREE \<and> semreset 0 2 ksem = Some (OK, u) \<and> semcount 0 u = 2"
  using semdelete_semreset_release_all [OF ksem_facts(1) _ ksem_facts(2), of 2] by auto

text \<open>
  \<^verbatim>\<open>semcreate\<close> finds a free semaphore whenever there is one, gives it the count asked for
  and an empty queue, and touches nothing else; only when all of them are in use does it
  fail.
\<close>

theorem semcreate_allocates:
  assumes "kinv s" and "nextsem s \<in> sems" and "0 \<le> n"
  shows "\<exists>r t. semcreate n s = (r, t) \<and> kinv t \<and>
    (if \<forall>i\<in>sems. sstate (semtab s i) = S_USED then r = SYSERR
     else r \<in> sems \<and> sstate (semtab s r) = S_FREE \<and> semcount r t = n \<and> waiters t r = [] \<and>
       (\<forall>j. j \<noteq> r \<longrightarrow> semtab t j = semtab s j))"
proof -
  obtain r t where R: "semcreate n s = (r, t)" by (cases "semcreate n s")
  note S = semcreate_ok [OF assms, unfolded R prod.case]
  have "waiters s r = []" if "r \<in> sems" "sstate (semtab s r) = S_FREE"
    using kinvD(4) [OF assms(1) that(1)] that(2) by (simp add: sem_ok_def)
  then show ?thesis
    using R S not_badsem [of r] by (auto simp: semcount_def sem_frame_def)
qed

theorem semcreate_allocates_witness:
  "\<exists>t. semcreate 0 krun = (0, t) \<and> kinv t"
  using semcreate_allocates [OF krun_facts(1), of 0] krun_facts(10) ksem_facts(6) by auto

end
