(* ===== verification/Process.thy ===== *)
theory Process
  imports Messages Semaphores
begin

text \<open>
  The life of a process: \<^verbatim>\<open>system/create.c\<close>, \<^verbatim>\<open>kill.c\<close>, \<^verbatim>\<open>exit.c\<close>, \<^verbatim>\<open>userret.c\<close>,
  \<^verbatim>\<open>suspend.c\<close>, \<^verbatim>\<open>resume.c\<close>, \<^verbatim>\<open>chprio.c\<close> and \<^verbatim>\<open>getprio.c\<close>, and the half of
  \<^verbatim>\<open>platform/arm-qemu/ctxsw.S\<close> that starts a process from the stack frame \<^verbatim>\<open>create\<close> builds.

  Two things come from outside: \<open>initret\<close>, the address of \<^verbatim>\<open>userret\<close>, which the linker
  chooses, and \<open>dvclose\<close>, the entries of the generated device switch table that \<^verbatim>\<open>close\<close>
  calls. \<^verbatim>\<open>kill\<close> may be switched out when the message it sends wakes a parent of higher
  priority, and in the closing function of a device: \<open>kill_cont\<close> is what it does when it runs again.
  What \<^verbatim>\<open>kill\<close> as a whole achieves is in the theory \<open>Process_Exit\<close>.
\<close>

section \<open>Priorities, suspension\<close>

definition chprio :: "pid32 \<Rightarrow> pri16 \<Rightarrow> kstate \<Rightarrow> pri16 \<times> kstate" where
  "chprio pid newprio s =
    (if isbadpid s pid then (SYSERR, s)
     else
       let oldprio = prprio (proctab s pid)
       in (oldprio, upd_proc pid (\<lambda>e. e\<lparr>prprio := newprio\<rparr>) s))"

definition getprio :: "pid32 \<Rightarrow> kstate \<Rightarrow> int" where
  "getprio pid s = (if isbadpid s pid then SYSERR else prprio (proctab s pid))"

definition suspend_cont :: "pid32 \<Rightarrow> kstate \<Rightarrow> int" where
  "suspend_cont pid s = prprio (proctab s pid)"

definition suspend :: "pid32 \<Rightarrow> kstate \<Rightarrow> (int call \<times> kstate) option" where
  "suspend pid s =
    (if isbadpid s pid \<or> pid = NULLPROC then Some (Ret SYSERR, s)
     else if prstate (proctab s pid) \<noteq> PR_CURR \<and> prstate (proctab s pid) \<noteq> PR_READY then Some (Ret SYSERR, s)
     else if prstate (proctab s pid) = PR_READY then
       (let (_, s1) = getitem pid s;
            s2 = set_prstate pid PR_SUSP s1
        in Some (Ret (suspend_cont pid s2), s2))
     else do {
       s1 \<leftarrow> resched (set_prstate pid PR_SUSP s);
       if currpid s1 = currpid s then Some (Ret (suspend_cont pid s1), s1) else Some (Blocked, s1)
     })"

definition resume :: "pid32 \<Rightarrow> kstate \<Rightarrow> (pri16 \<times> kstate) option" where
  "resume pid s =
    (if isbadpid s pid then Some (SYSERR, s)
     else if prstate (proctab s pid) \<noteq> PR_SUSP then Some (SYSERR, s)
     else
       let prio = prprio (proctab s pid)
       in do { (_, s1) \<leftarrow> ready pid s; Some (prio, s1) })"

section \<open>Creating a process\<close>

definition MINSTK :: uint32 where "MINSTK = 400"
definition STACKMAGIC :: uint32 where "STACKMAGIC = 0x0A0AAAA9"
definition SERIAL0 :: did32 where "SERIAL0 = 11"
definition NDEVS :: int where "NDEVS = 13"
definition PNMLEN :: nat where "PNMLEN = 16"

definition roundew :: "uint32 \<Rightarrow> uint32" where
  "roundew x = (x + 3) AND (NOT 3)"

fun newpid_loop :: "nat \<Rightarrow> kstate \<Rightarrow> pid32 \<times> kstate" where
  "newpid_loop 0 s = (SYSERR, s)"
| "newpid_loop (Suc n) s =
    (let s1 = s\<lparr>nextpid := nextpid s mod NPROC\<rparr> in
     if prstate (proctab s1 (nextpid s1)) = PR_FREE then (nextpid s1, s1\<lparr>nextpid := nextpid s1 + 1\<rparr>)
     else newpid_loop n (s1\<lparr>nextpid := nextpid s1 + 1\<rparr>))"

definition newpid :: "kstate \<Rightarrow> pid32 \<times> kstate" where
  "newpid s = newpid_loop (nat NPROC) s"

text \<open>\<^verbatim>\<open>*--saddr = w\<close>, for each word of a list in turn.\<close>

definition push :: "uint32 \<Rightarrow> uint32 \<times> (uint32 \<Rightarrow> uint32) \<Rightarrow> uint32 \<times> (uint32 \<Rightarrow> uint32)" where
  "push w = (\<lambda>(sp, mem). (sp - 4, mem(sp - 4 := w)))"

text \<open>
  The words \<^verbatim>\<open>create\<close> pushes, in order: the arguments past the fourth, last first; the
  procedure's address; eight zeros for r11 to r4; the first four arguments (or zeros) for
  r3 to r0; the return address; the processor status.
\<close>

definition create_frame :: "uint32 \<Rightarrow> uint32 \<Rightarrow> uint32 list \<Rightarrow> uint32 list" where
  "create_frame initret procaddr args =
    rev (drop 4 args) @ [procaddr] @ replicate 8 0 @
    map (\<lambda>i. if i \<le> length args then args ! (i - 1) else 0) [4, 3, 2, 1] @ [initret, 0x0000015F]"

definition create ::
  "uint32 \<Rightarrow> uint32 \<Rightarrow> uint32 \<Rightarrow> pri16 \<Rightarrow> string \<Rightarrow> uint32 list \<Rightarrow> kstate \<Rightarrow> (pid32 \<times> kstate) option" where
  "create initret procaddr ssize0 priority name args s =
    do {
      let ssize = roundew (if ssize0 < MINSTK then MINSTK else ssize0);
      (saddr, m) \<leftarrow> getstk ssize (kmem s);
      let s1 = s\<lparr>kmem := m\<rparr>;
      if saddr = SYSERR_PTR then Some (SYSERR, s1)
      else
        let (pid, s2) = newpid s1 in
        if pid = SYSERR then Some (SYSERR, s2)
        else if priority < 1 then Some (SYSERR, s2)
        else
          let s3 = s2\<lparr>prcount := prcount s2 + 1\<rparr>;
              s4 = upd_proc pid (\<lambda>e. e\<lparr>prstate := PR_SUSP, prprio := priority, prstkbase := saddr,
                     prstklen := ssize, prname := take (PNMLEN - 1) name, prsem := - 1, prparent := getpid s3,
                     prhasmsg := False, prdesc := (prdesc e)[0 := SERIAL0, 1 := SERIAL0, 2 := SERIAL0]\<rparr>) s3;
              mem0 = (stkmem s4)(saddr := STACKMAGIC);
              (sp, mem) = fold push (create_frame initret procaddr args) (saddr, mem0);
              s5 = upd_proc pid (\<lambda>e. e\<lparr>prstkptr := sp\<rparr>) s4
          in Some (pid, s5\<lparr>stkmem := mem\<rparr>)
    }"

text \<open>The second half of \<^verbatim>\<open>ctxsw\<close>: the registers of a process picked up from its stack.\<close>

record regs =
  r_cpsr :: uint32
  r_lr :: uint32
  r_gpr :: "uint32 list"
  r_pc :: uint32
  r_sp :: uint32

definition ctxsw_resume :: "(uint32 \<Rightarrow> uint32) \<Rightarrow> uint32 \<Rightarrow> regs" where
  "ctxsw_resume mem sp =
    (let gpr = map (\<lambda>i. mem (sp + 8 + 4 * of_nat i)) [0..<13]
     in \<lparr>r_cpsr = mem sp, r_lr = mem (sp + 4), r_gpr = gpr, r_pc = gpr ! 12, r_sp = sp + 8 + 52\<rparr>)"

section \<open>Killing a process\<close>

definition xdone :: "kstate \<Rightarrow> 'a option" where
  "xdone s = None"

definition isbaddev :: "did32 \<Rightarrow> bool" where
  "isbaddev f \<longleftrightarrow> f < 0 \<or> f \<ge> NDEVS"

text \<open>
  The closing function of a driver may lose the processor, even several times: \<^verbatim>\<open>lflclose\<close> waits for the
  mutex of its file, and signals it at the end. \<open>dvclose d k s\<close> runs the function of device \<open>d\<close> from its
  control point \<open>k\<close> on, 0 being its entry: \<open>Inl r\<close> when it returns \<open>r\<close>, and \<open>Inr k'\<close> when another process
  is switched to, so that it goes on from the control point \<open>k'\<close> once its caller runs again.
\<close>

type_synonym dvcloser = "did32 \<Rightarrow> nat \<Rightarrow> kstate \<Rightarrow> (int + nat) \<times> kstate"

definition close :: "dvcloser \<Rightarrow> did32 \<Rightarrow> kstate \<Rightarrow> (int + nat) \<times> kstate" where
  "close dvclose descrp s = (if isbaddev descrp then (Inl SYSERR, s) else dvclose descrp 0 s)"

text \<open>
  Where a call of \<^verbatim>\<open>kill\<close> that lost the processor stands: behind \<^verbatim>\<open>send\<close>, or at the control point \<open>k\<close> of the
  closing function of device \<open>d\<close>, with \<open>n\<close> more descriptors to close. \<open>Gone\<close> is the end of a process that
  killed itself.
\<close>

datatype kill_at = After_send | In_close nat did32 nat

datatype kill_call = Killed int | Killing kill_at | Gone

text \<open>The loop over the last \<open>n\<close> of the three descriptors.\<close>

fun kill_close :: "dvcloser \<Rightarrow> pid32 \<Rightarrow> nat \<Rightarrow> kstate \<Rightarrow> kill_at option \<times> kstate" where
  "kill_close dvclose pid 0 s = (None, s)"
| "kill_close dvclose pid (Suc n) s =
    (let d = prdesc (proctab s pid) ! (2 - n) in
     case close dvclose d s of
       (Inl _, t) \<Rightarrow> kill_close dvclose pid n t
     | (Inr k, t) \<Rightarrow> (Some (In_close n d k), t))"

text \<open>From \<^verbatim>\<open>freestk\<close> on.\<close>

definition kill_end :: "pid32 \<Rightarrow> kstate \<Rightarrow> (kill_call \<times> kstate) option" where
  "kill_end pid s1 =
    do {
      (_, m) \<leftarrow> freestk (prstkbase (proctab s1 pid)) (prstklen (proctab s1 pid)) (kmem s1);
      let s2 = s1\<lparr>kmem := m\<rparr>;
      case prstate (proctab s2 pid) of
        PR_CURR \<Rightarrow> do {
          s3 \<leftarrow> resched (set_prstate pid PR_FREE s2);
          if currpid s3 \<noteq> currpid s2 then Some (Gone, s3)
          else let (_, s4) = unsleep pid s3 in Some (Killed OK, set_prstate pid PR_FREE s4)
        }
      | PR_SLEEP \<Rightarrow> let (_, s3) = unsleep pid s2 in Some (Killed OK, set_prstate pid PR_FREE s3)
      | PR_RECTIM \<Rightarrow> let (_, s3) = unsleep pid s2 in Some (Killed OK, set_prstate pid PR_FREE s3)
      | PR_WAIT \<Rightarrow>
          let s3 = upd_sem (prsem (proctab s2 pid)) (\<lambda>e. e\<lparr>scount := scount e + 1\<rparr>) s2;
              (_, s4) = getitem pid s3
          in Some (Killed OK, set_prstate pid PR_FREE s4)
      | PR_READY \<Rightarrow> let (_, s3) = getitem pid s2 in Some (Killed OK, set_prstate pid PR_FREE s3)
      | _ \<Rightarrow> Some (Killed OK, set_prstate pid PR_FREE s2)
    }"

definition kill_rest :: "dvcloser \<Rightarrow> pid32 \<Rightarrow> nat \<Rightarrow> kstate \<Rightarrow> (kill_call \<times> kstate) option" where
  "kill_rest dvclose pid n s =
    (case kill_close dvclose pid n s of
       (None, t) \<Rightarrow> kill_end pid t
     | (Some x, t) \<Rightarrow> Some (Killing x, t))"

definition kill_cont :: "dvcloser \<Rightarrow> pid32 \<Rightarrow> kill_at \<Rightarrow> kstate \<Rightarrow> (kill_call \<times> kstate) option" where
  "kill_cont dvclose pid x s =
    (case x of
       After_send \<Rightarrow> kill_rest dvclose pid 3 s
     | In_close n d k \<Rightarrow>
         (case dvclose d k s of
            (Inl _, t) \<Rightarrow> kill_rest dvclose pid n t
          | (Inr k', t) \<Rightarrow> Some (Killing (In_close n d k'), t)))"

definition kill :: "dvcloser \<Rightarrow> pid32 \<Rightarrow> kstate \<Rightarrow> (kill_call \<times> kstate) option" where
  "kill dvclose pid s =
    (if isbadpid s pid \<or> pid = NULLPROC \<or> prstate (proctab s pid) = PR_FREE then Some (Killed SYSERR, s)
     else
       let s1 = s\<lparr>prcount := prcount s - 1\<rparr> in
       if prcount s1 \<le> 1 then xdone s1
       else do {
         (_, s2) \<leftarrow> send (prparent (proctab s1 pid)) (word_of_int pid) s1;
         if currpid s2 = currpid s1 then kill_cont dvclose pid After_send s2 else Some (Killing After_send, s2)
       })"

definition exit_call :: "dvcloser \<Rightarrow> kstate \<Rightarrow> (kill_call \<times> kstate) option" where
  "exit_call dvclose s = kill dvclose (getpid s) s"

definition userret :: "dvcloser \<Rightarrow> kstate \<Rightarrow> (kill_call \<times> kstate) option" where
  "userret dvclose s = kill dvclose (getpid s) s"

section \<open>Taking a process off the queues for good\<close>

lemma key_sorted_remove1: "key_sorted qt xs \<Longrightarrow> key_sorted qt (remove1 x xs)"
proof (induction xs)
  case (Cons y ys)
  then show ?case by (auto simp: key_sorted_def keys_def dest: in_set_remove1 [THEN iffD1, rotated] set_remove1_subset [THEN subsetD])
qed (simp add: key_sorted_def keys_def)

lemma retire:
  assumes inv: "kinv_but X s" and X: "X = {p} \<or> X = {} \<and> home s p = None" and p: "p \<noteq> NULLPROC" and st: "st = PR_SUSP \<or> st = PR_FREE"
  shows "kinv_but {} (set_prstate p st s)" "qview (set_prstate p st s) = qview s"
proof -
  let ?t = "set_prstate p st s"
  note I = kinv_butD [OF inv]
  show v: "qview ?t = qview s" by (rule qview_cong) simp_all
  have vk: "kqueues ?t = kqueues s" "wf_queues ?t" using qview_cong [of ?t s] I(1) by simp_all
  have pl: "placed {p} s" using I(3) X placed_homeless [of "{}" s p] by auto
  have "placed {} ?t"
  proof (rule placed_out [OF pl v])
    show "home ?t p = None" using st by (auto simp: home_def)
    show "\<And>x. x \<in> pids \<Longrightarrow> x \<noteq> p \<Longrightarrow> home ?t x = home s x" by (rule home_cong) simp_all
  qed
  moreover have "wf_ids ?t" by (rule wf_ids_cong [OF I(2) vk(1)]) simp_all
  moreover have "wf_procs ?t" using I(4) st p by (auto simp: wf_procs_def)
  ultimately show "kinv_but {} ?t" using vk(2) v I(5) by (simp add: kinv_but_def)
qed

text \<open>\<^verbatim>\<open>getitem\<close> of a queued process.\<close>

lemma unqueue_item:
  assumes inv: "kinv_but {} s" and x: "x \<in> set (qview s q)" "x \<noteq> NULLPROC"
  obtains qt' where "getitem x s = (x, set_qtab qt' s)" "kinv_but {x} (set_qtab qt' s)"
    "qview (set_qtab qt' s) = (qview s)(q := remove1 x (qview s q))" "\<And>j. qkey (qt' j) = qk s j"
proof -
  note I = kinv_butD [OF inv]
  obtain qt' where G: "getitem x s = (x, set_qtab qt' s)" "wf_queues (set_qtab qt' s)"
    "qview (set_qtab qt' s) = (qview s)(q := remove1 x (qview s q))" "\<And>j. qkey (qt' j) = qkey (queuetab s j)"
    by (rule getitem_view [OF I(1) x(1)]) blast
  have d: "distinct (qview s q)" using qview_distinct [OF I(1)] .
  have kk: "key_sorted qt' ys = key_sorted (queuetab s) ys" for ys
    by (rule key_sorted_cong, rule keys_cong) (simp add: G(4))
  have srt: "key_sorted qt' (((qview s)(q := remove1 x (qview s q))) (readylist s))"
    unfolding kk using I(5) key_sorted_remove1 by auto
  have "kinv_but {x} (set_qtab qt' s)"
    by (rule kinv_but_unqueue [OF inv x G(2,3) _ srt]) (use d in auto)
  then show thesis by (rule that [OF G(1) _ G(3,4)])
qed

section \<open>Suspending and resuming\<close>

lemma suspend_ok:
  assumes k: "kinv s"
  shows "\<exists>r t. suspend p s = Some (r, t) \<and> kinv t \<and> kmem t = kmem s \<and> (sync s \<longrightarrow> top_prio s \<longrightarrow> sync t \<and> top_prio t) \<and>
    (isbadpid s p \<or> p = NULLPROC \<or> \<not> runnable (pst s p) \<longrightarrow> r = Ret SYSERR \<and> t = s) \<and>
    (\<not> isbadpid s p \<and> p \<noteq> NULLPROC \<and> runnable (pst s p) \<longrightarrow> pst t p = PR_SUSP \<and> (r = Blocked \<longleftrightarrow> p = currpid s) \<and>
       (p \<noteq> currpid s \<longrightarrow> r = Ret (prprio (proctab s p)) \<and> currpid t = currpid s))"
proof (cases "isbadpid s p \<or> p = NULLPROC \<or> \<not> runnable (pst s p)")
  case True
  then show ?thesis using k by (auto simp: suspend_def runnable_def)
next
  case False
  note K = kinvD [OF k] and I = kinv_butD [OF kinvD(1) [OF k]]
  have pp: "p \<in> pids" using False isbadpid_pids by blast
  have c: "pst s p = PR_CURR \<longleftrightarrow> p = currpid s" using wf_procsD(2) [OF I(4) pp] K(2) by auto
  show ?thesis
  proof (cases "p = currpid s")
    case True
    then have nn: "currpid s \<noteq> NULLPROC" using False by simp
    obtain t where T: "resched (set_prstate (currpid s) PR_SUSP s) = Some t" "kinv t" "pst t (currpid s) = PR_SUSP"
      "currpid t \<noteq> currpid s" "sched_frame {} (set_prstate (currpid s) PR_SUSP s) t" "sync s \<Longrightarrow> sync t \<and> top_prio t"
      by (rule plain_block [OF k nn, of PR_SUSP]) blast+
    have "kmem t = kmem s" using sched_frameD(11) [OF T(5)] by simp
    moreover have "suspend p s = Some (Blocked, t)" using False True c T(1,4) by (simp add: suspend_def)
    ultimately show ?thesis using False True T(2,3,6) by auto
  next
    case ne: False
    then have rd: "pst s p = PR_READY" using False c by (auto simp: runnable_def)
    have pin: "p \<in> set (readyq s)" using placedD [OF I(3) pp] rd by simp
    obtain qt' where G: "getitem p s = (p, set_qtab qt' s)" "kinv_but {p} (set_qtab qt' s)"
      "qview (set_qtab qt' s) = (qview s)(readylist s := remove1 p (readyq s))" "\<And>j. qkey (qt' j) = qk s j"
      by (rule unqueue_item [OF K(1) pin]) (use False in auto)
    let ?t = "set_prstate p PR_SUSP (set_qtab qt' s)"
    have R: "kinv_but {} ?t" "qview ?t = (qview s)(readylist s := remove1 p (readyq s))"
      using retire [OF G(2), of p PR_SUSP] G(3) False by auto
    have kt: "kinv ?t" by (rule kinv_same_sems [OF k R(1)]) (use ne K(2,3) R(2) in simp_all)
    have sub: "set (remove1 p (readyq s)) \<subseteq> set (readyq s)" by (rule set_remove1_subset)
    have d: "p \<notin> set (remove1 p (readyq s))" using qview_distinct [OF I(1), of "readylist s"] by simp
    have sy: "sync s \<longrightarrow> top_prio s \<longrightarrow> sync ?t \<and> top_prio ?t"
      using R(2) G(4) sub d ne by (auto simp: sync_def top_prio_def)
    have "suspend p s = Some (Ret (prprio (proctab s p)), ?t)"
      using False ne rd G(1) by (simp add: suspend_def suspend_cont_def)
    then show ?thesis using False ne kt sy by auto
  qed
qed

lemma resume_ok:
  assumes k: "kinv s"
  shows "\<exists>r t. resume p s = Some (r, t) \<and> kinv t \<and> kmem t = kmem s \<and> (sync s \<longrightarrow> top_prio s \<longrightarrow> sync t \<and> top_prio t) \<and>
    (if isbadpid s p \<or> pst s p \<noteq> PR_SUSP then r = SYSERR \<and> t = s
     else r = prprio (proctab s p) \<and> runnable (pst t p) \<and> sched_frame {p} s t)"
proof (cases "isbadpid s p \<or> pst s p \<noteq> PR_SUSP")
  case True
  then show ?thesis using k by (auto simp: resume_def)
next
  case False
  note K = kinvD [OF k]
  have h: "home s p = None" "p \<noteq> NULLPROC" using False wf_procsD(5) [OF kinv_butD(4) [OF K(1)]] by auto
  obtain t where T: "ready p s = Some (OK, t)" "kinv_but {} t" "sched_frame {p} s t" "sync s \<Longrightarrow> sync t"
      "ndefers s = 0 \<Longrightarrow> pst t (currpid t) = PR_CURR \<and> (sync s \<longrightarrow> top_prio t)"
    by (rule ready_ok [OF K(1)]) (use h K(3) False in auto)
  note F = sched_frameD [OF T(3)]
  have kt: "kinv t" by (rule kinv_same_sems [OF k T(2)]) (use T(5) F(5,7,17) K(3) in simp_all)
  have "resume p s = Some (prprio (proctab s p), t)" using False T(1) by (simp add: resume_def Let_def)
  then show ?thesis using False kt F(11,15) T(3-5) K(3) by auto
qed

section \<open>Stacks and the heap\<close>

text \<open>
  \<open>stacks_ok s bs\<close>: the heap is sound with free blocks \<open>bs\<close>, and the stacks of the live
  processes lie in the heap, away from its free bytes and from one another. The null
  process, which is never killed, is left out.
\<close>

definition stk_region :: "procent \<Rightarrow> nat set" where
  "stk_region e = {unat (prstkbase e) + 4 - reqsize (prstklen e)..<unat (prstkbase e) + 4}"

definition live :: "kstate \<Rightarrow> pid32 set" where
  "live s = {p \<in> pids. p \<noteq> NULLPROC \<and> pst s p \<noteq> PR_FREE}"

definition stack_ok :: "kstate \<Rightarrow> blocks \<Rightarrow> pid32 \<Rightarrow> bool" where
  "stack_ok s bs p \<longleftrightarrow>
    (let e = proctab s p in
     prstklen e \<noteq> 0 \<and> unat (prstklen e) \<le> 2 ^ 32 - 8 \<and> unat (minheap (kmem s)) + reqsize (prstklen e) \<le> unat (prstkbase e) + 4 \<and>
     unat (prstkbase e) + 4 \<le> unat (maxheap (kmem s)) \<and> stk_region e \<inter> free_bytes bs = {})"

definition stacks_ok :: "kstate \<Rightarrow> blocks \<Rightarrow> bool" where
  "stacks_ok s bs \<longleftrightarrow>
    heap_ok (kmem s) bs \<and> (\<forall>p\<in>live s. stack_ok s bs p) \<and>
    (\<forall>p\<in>live s. \<forall>q\<in>live s. p \<noteq> q \<longrightarrow> stk_region (proctab s p) \<inter> stk_region (proctab s q) = {})"

text \<open>What a state has to keep for its stacks to stay as they are.\<close>

definition stk_frame :: "kstate \<Rightarrow> kstate \<Rightarrow> bool" where
  "stk_frame s t \<longleftrightarrow>
    kmem t = kmem s \<and> (\<forall>p. prstkbase (proctab t p) = prstkbase (proctab s p) \<and> prstklen (proctab t p) = prstklen (proctab s p)) \<and>
    live t = live s"

lemma stk_frame_ok: "stk_frame s t \<Longrightarrow> stacks_ok t bs = stacks_ok s bs"
  by (simp add: stk_frame_def stacks_ok_def stack_ok_def stk_region_def Let_def)

lemma stk_frame_trans: "stk_frame s t \<Longrightarrow> stk_frame t u \<Longrightarrow> stk_frame s u"
  by (simp add: stk_frame_def)

lemma freestk_law:
  assumes h: "heap_ok m bs" and e: "len \<noteq> 0" "unat len \<le> 2 ^ 32 - 8" "unat (minheap m) + reqsize len \<le> unat base + 4"
    "unat base + 4 \<le> unat (maxheap m)" "{unat base + 4 - reqsize len..<unat base + 4} \<inter> free_bytes bs = {}"
  shows "\<exists>m' bs'. freestk base len m = Some (OK, m') \<and> heap_ok m' bs' \<and>
    free_bytes bs' = free_bytes bs \<union> {unat base + 4 - reqsize len..<unat base + 4} \<and>
    minheap m' = minheap m \<and> maxheap m' = maxheap m"
proof -
  let ?n = "roundmb len" and ?a = "base - roundmb len + 4"
  note R = roundmb_request [OF e(1,2)]
  have mx: "unat (maxheap m) < 2 ^ 32" by (rule unat_bound)
  have n: "?n \<noteq> 0" "unat ?n \<le> 2 ^ 32 - 8" using R e(2) by (auto simp: reqsize_def)
  obtain k where "reqsize len = 8 * k" using R(1,3) by (auto simp: dvd_def)
  then have rn: "reqsize ?n = reqsize len" using R(1) by (simp add: reqsize_def [of ?n])
  have b4: "unat (base + 4) = unat base + 4" using e(4) mx unat_add_noovf [of base 4] by simp
  have le: "?n \<le> base + 4" using e(3) b4 R(1) by (simp add: wle)
  have ae: "?a = base + 4 - ?n" by simp
  have ua: "unat ?a = unat base + 4 - reqsize len" unfolding ae using unat_sub_le [OF le] b4 R(1) by simp
  have reg: "{unat ?a..<unat ?a + reqsize ?n} = {unat base + 4 - reqsize len..<unat base + 4}"
    using ua rn e(3) by simp
  have lo: "minheap m \<le> ?a" using ua e(3) by (simp add: wle)
  have hi: "unat ?a + reqsize ?n \<le> unat (maxheap m)" using ua rn e(3,4) by simp
  show ?thesis
    using freemem_law [OF h lo n hi] e(5) unfolding reg freestk_def by auto
qed

section \<open>Creation\<close>

lemma newpid_loop_ok:
  assumes "0 \<le> nextpid s"
  shows "case newpid_loop n s of (r, t) \<Rightarrow>
    0 \<le> nextpid t \<and> t = s\<lparr>nextpid := nextpid t\<rparr> \<and>
    (r = SYSERR \<and> (\<forall>j<n. pst s ((nextpid s + int j) mod NPROC) \<noteq> PR_FREE) \<or> r \<in> pids \<and> pst s r = PR_FREE)"
  using assms
proof (induction n arbitrary: s)
  case 0
  then show ?case by simp
next
  case (Suc n)
  let ?m = "nextpid s mod NPROC"
  let ?s = "s\<lparr>nextpid := ?m + 1\<rparr>"
  have m: "0 \<le> ?m" "?m < NPROC" by simp_all
  show ?case
  proof (cases "pst s ?m = PR_FREE")
    case True
    then show ?thesis using m by (simp add: Let_def)
  next
    case False
    have e: "newpid_loop (Suc n) s = newpid_loop n ?s" using False by (simp add: Let_def)
    obtain r t where rt: "newpid_loop n ?s = (r, t)" by (cases "newpid_loop n ?s")
    have ih: "0 \<le> nextpid t \<and> t = ?s\<lparr>nextpid := nextpid t\<rparr> \<and>
        (r = SYSERR \<and> (\<forall>j<n. pst s ((?m + 1 + int j) mod NPROC) \<noteq> PR_FREE) \<or> r \<in> pids \<and> pst s r = PR_FREE)"
      using Suc.IH [of ?s] m rt by simp
    have sh: "(?m + 1 + int j) mod NPROC = (nextpid s + int (Suc j)) mod NPROC" for j
      using mod_add_left_eq [of "nextpid s" NPROC "1 + int j"] by (simp add: add.assoc)
    have "pst s ((nextpid s + int j) mod NPROC) \<noteq> PR_FREE"
      if "\<forall>j<n. pst s ((?m + 1 + int j) mod NPROC) \<noteq> PR_FREE" "j < Suc n" for j
      using that False sh by (cases j) auto
    then show ?thesis unfolding e rt using ih by auto
  qed
qed

lemma newpid_ok:
  assumes "0 \<le> nextpid s"
  obtains r t where "newpid s = (r, t)" "0 \<le> nextpid t" "t = s\<lparr>nextpid := nextpid t\<rparr>"
    "r = SYSERR \<and> (\<forall>p\<in>pids. pst s p \<noteq> PR_FREE) \<or> r \<in> pids \<and> pst s r = PR_FREE"
proof -
  obtain r t where N: "newpid s = (r, t)" by (cases "newpid s")
  note L = newpid_loop_ok [OF assms, of "nat NPROC", folded newpid_def, unfolded N prod.case]
  have "pst s p \<noteq> PR_FREE" if a: "\<forall>j<nat NPROC. pst s ((nextpid s + int j) mod NPROC) \<noteq> PR_FREE" "p \<in> pids" for p
  proof -
    let ?j = "nat ((p - nextpid s) mod NPROC)"
    have "int ?j = (p - nextpid s) mod NPROC" "?j < nat NPROC" by (simp_all add: nat_less_iff)
    moreover have "(nextpid s + (p - nextpid s) mod NPROC) mod NPROC = p" using a(2) by (simp add: mod_simps)
    ultimately show ?thesis using a(1) by metis
  qed
  then show thesis using that [OF N] L by blast
qed

lemma unat_roundew:
  assumes "unat x \<le> 2 ^ 32 - 8" and "MINSTK \<le> x"
  shows "roundew x \<noteq> 0" "unat (roundew x) \<le> 2 ^ 32 - 8" "unat x \<le> unat (roundew x)"
proof -
  have m: "(3 :: uint32) = mask 2" by (simp add: mask_eq_exp_minus_1)
  have "(x + 3) AND NOT 3 = push_bit 2 (drop_bit 2 (x + 3))"
    unfolding m by (rule bit_eqI) (auto simp: bit_simps simp del: add_2_eq_Suc add_2_eq_Suc')
  moreover have "push_bit 2 (drop_bit 2 (x + 3)) = (x + 3) - take_bit 2 (x + 3)"
    using bits_ident [of 2 "x + 3"] by (simp add: algebra_simps)
  moreover have "take_bit 2 (x + 3) = (x + 3) mod 4" by (simp add: take_bit_eq_mod)
  ultimately have e: "roundew x = (x + 3) - (x + 3) mod 4" by (simp add: roundew_def)
  have "unat (x + 3) = unat x + 3" using assms(1) by (simp add: unat_word_ariths)
  moreover have "unat ((x + 3) - (x + 3) mod 4) = unat (x + 3) - unat ((x + 3) mod 4)"
    by (rule unat_sub) (simp add: word_le_nat_alt unat_mod)
  ultimately have u: "unat (roundew x) = (unat x + 3) div 4 * 4" by (simp add: e unat_mod minus_mod_eq_div_mult)
  show "unat x \<le> unat (roundew x)" unfolding u by simp
  moreover have "400 \<le> unat x" using assms(2) by (simp add: MINSTK_def wle)
  ultimately show "roundew x \<noteq> 0" by auto
  show "unat (roundew x) \<le> 2 ^ 32 - 8" unfolding u using assms(1) by simp
qed

text \<open>
  A successful \<^verbatim>\<open>create\<close>: the new process is suspended, with a stack of its own taken from
  the free bytes, and nothing else in the process table has changed.
\<close>

definition stack_size :: "uint32 \<Rightarrow> uint32" where
  "stack_size ssize = roundew (if ssize < MINSTK then MINSTK else ssize)"

lemma stack_size_ok:
  assumes "unat ssize \<le> 2 ^ 32 - 8"
  shows "stack_size ssize \<noteq> 0" "unat (stack_size ssize) \<le> 2 ^ 32 - 8" "400 \<le> unat (stack_size ssize)" "unat ssize \<le> unat (stack_size ssize)"
proof -
  let ?x = "if ssize < MINSTK then MINSTK else ssize"
  have x: "unat ?x \<le> 2 ^ 32 - 8" "MINSTK \<le> ?x" "unat ssize \<le> unat ?x" using assms by (auto simp: MINSTK_def wless wle)
  note R = unat_roundew [OF x(1,2)]
  show "stack_size ssize \<noteq> 0" "unat (stack_size ssize) \<le> 2 ^ 32 - 8" using R by (simp_all add: stack_size_def)
  have "400 \<le> unat ?x" using x(2) by (simp add: MINSTK_def wle)
  then show "400 \<le> unat (stack_size ssize)" "unat ssize \<le> unat (stack_size ssize)"
    using R(3) x(3) by (simp_all add: stack_size_def)
qed

definition created :: "uint32 \<Rightarrow> uint32 \<Rightarrow> pri16 \<Rightarrow> uint32 list \<Rightarrow> pid32 \<Rightarrow> uint32 \<Rightarrow> uint32 \<Rightarrow> kstate \<Rightarrow> kstate \<Rightarrow> bool" where
  "created initret procaddr priority args p saddr ssize s t \<longleftrightarrow>
    pst t p = PR_SUSP \<and> prprio (proctab t p) = priority \<and> prstkbase (proctab t p) = saddr \<and> prstklen (proctab t p) = ssize \<and>
    prparent (proctab t p) = currpid s \<and> \<not> prhasmsg (proctab t p) \<and> (\<forall>q. q \<noteq> p \<longrightarrow> proctab t q = proctab s q) \<and>
    (prstkptr (proctab t p), stkmem t) = fold push (create_frame initret procaddr args) (saddr, (stkmem s)(saddr := STACKMAGIC)) \<and>
    currpid t = currpid s \<and> prcount t = prcount s + 1 \<and> semtab t = semtab s \<and> nextsem t = nextsem s \<and> qview t = qview s"

lemma kinv_upd_cong:
  assumes "kinv s" and "queuetab t = queuetab s" "nextqid t = nextqid s" "proctab t = proctab s" "currpid t = currpid s"
    "readylist t = readylist s" "sleepq t = sleepq s" "semtab t = semtab s" "ndefers t = ndefers s"
  shows "kinv t" "qview t = qview s" "sync t = sync s" "top_prio t = top_prio s"
proof -
  show v: "qview t = qview s" by (rule qview_cong [OF assms(2,3)])
  have "kinv_but {} t" by (rule kinv_but_cong [OF kinvD(1) [OF assms(1)]]) (simp_all add: assms)
  then show "kinv t" using kinvD [OF assms(1)] v assms by (simp add: kinv_def sem_ok_def)
  show "sync t = sync s" "top_prio t = top_prio s" using v assms by (simp_all add: sync_def top_prio_def)
qed

lemma create_ok:
  assumes k: "kinv s" and h: "heap_ok (kmem s) bs" and nx: "0 \<le> nextpid s" and sz: "unat ssize \<le> 2 ^ 32 - 8" and pr: "priority < 0x8000"
  obtains (nomem) "create initret procaddr ssize priority name args s = Some (SYSERR, s)"
      "getstk (stack_size ssize) (kmem s) = Some (SYSERR_PTR, kmem s)"
  | (fail) saddr bs' t where "create initret procaddr ssize priority name args s = Some (SYSERR, t)" "kinv t" "heap_ok (kmem t) bs'"
      "priority < 1 \<or> (\<forall>p\<in>pids. pst s p \<noteq> PR_FREE)" "getstk (stack_size ssize) (kmem s) = Some (saddr, kmem t)" "saddr \<noteq> SYSERR_PTR"
      "t = s\<lparr>kmem := kmem t, nextpid := nextpid t\<rparr>" "0 \<le> nextpid t"
      "{unat saddr + 4 - reqsize (stack_size ssize)..<unat saddr + 4} \<subseteq> free_bytes bs"
      "free_bytes bs' = free_bytes bs - {unat saddr + 4 - reqsize (stack_size ssize)..<unat saddr + 4}"
  | (made) p saddr bs' t where "create initret procaddr ssize priority name args s = Some (p, t)" "kinv t" "heap_ok (kmem t) bs'"
      "p \<in> pids" "pst s p = PR_FREE" "1 \<le> priority" "getstk (stack_size ssize) (kmem s) = Some (saddr, kmem t)" "saddr \<noteq> SYSERR_PTR"
      "created initret procaddr priority args p saddr (stack_size ssize) s t" "0 \<le> nextpid t"
      "minheap (kmem t) = minheap (kmem s)" "maxheap (kmem t) = maxheap (kmem s)"
      "{unat saddr + 4 - reqsize (stack_size ssize)..<unat saddr + 4} \<subseteq> free_bytes bs"
      "free_bytes bs' = free_bytes bs - {unat saddr + 4 - reqsize (stack_size ssize)..<unat saddr + 4}"
      "sync s \<Longrightarrow> top_prio s \<Longrightarrow> sync t \<and> top_prio t"
proof (cases rule: getstk_cases [OF h stack_size_ok(1,2) [OF sz]])
  case 1
  then show thesis using nomem by (simp add: create_def stack_size_def Let_def)
next
  case (2 saddr m bs')
  let ?s1 = "s\<lparr>kmem := m\<rparr>"
  obtain r s2 where N: "newpid ?s1 = (r, s2)" "0 \<le> nextpid s2" "s2 = ?s1\<lparr>nextpid := nextpid s2\<rparr>"
      "r = SYSERR \<and> (\<forall>p\<in>pids. pst ?s1 p \<noteq> PR_FREE) \<or> r \<in> pids \<and> pst ?s1 r = PR_FREE"
    by (rule newpid_ok [of ?s1]) (use nx in auto)
  have s2: "queuetab s2 = queuetab s" "nextqid s2 = nextqid s" "proctab s2 = proctab s" "currpid s2 = currpid s"
      "readylist s2 = readylist s" "sleepq s2 = sleepq s" "semtab s2 = semtab s" "ndefers s2 = ndefers s" "kmem s2 = m"
      "prcount s2 = prcount s" "stkmem s2 = stkmem s" "nextsem s2 = nextsem s" by (subst N(3), simp)+
  note K2 = kinv_upd_cong [OF k s2(1-8)]
  show thesis
  proof (cases "r = SYSERR \<or> priority < 1")
    case True
    then have e: "create initret procaddr ssize priority name args s = Some (SYSERR, s2)"
      using 2(1,2) N(1) by (auto simp: create_def stack_size_def Let_def)
    have "s2 = s\<lparr>kmem := kmem s2, nextpid := nextpid s2\<rparr>" by (subst N(3), simp add: s2)
    moreover have "priority < 1 \<or> (\<forall>p\<in>pids. pst s p \<noteq> PR_FREE)" using True N(4) by (auto simp: SYSERR_def)
    ultimately show thesis using fail [OF e K2(1), of bs' saddr] 2 N(2) s2(9) by simp
  next
    case False
    then have r: "r \<in> pids" "pst s r = PR_FREE" using N(4) by auto
    let ?size = "stack_size ssize"
    let ?f = "\<lambda>e. e\<lparr>prstate := PR_SUSP, prprio := priority, prstkbase := saddr,
                     prstklen := ?size, prname := take (PNMLEN - 1) name, prsem := - 1, prparent := currpid s,
                     prhasmsg := False, prdesc := (prdesc e)[0 := SERIAL0, 1 := SERIAL0, 2 := SERIAL0]\<rparr>"
    obtain sp mem where fp: "fold push (create_frame initret procaddr args) (saddr, (stkmem s)(saddr := STACKMAGIC)) = (sp, mem)"
      by (cases "fold push (create_frame initret procaddr args) (saddr, (stkmem s)(saddr := STACKMAGIC))")
    let ?s4 = "upd_proc r ?f (s2\<lparr>prcount := prcount s2 + 1\<rparr>)"
    let ?t = "upd_proc r (\<lambda>e. e\<lparr>prstkptr := sp\<rparr>) ?s4\<lparr>stkmem := mem\<rparr>"
    have e: "create initret procaddr ssize priority name args s = Some (r, ?t)"
      using 2(1,2) N(1) False fp s2 by (simp add: create_def stack_size_def Let_def getpid_def)
    have n: "r \<noteq> currpid s" "r \<noteq> NULLPROC" using r(2) kinvD(2) [OF k] wf_procsD(5) [OF kinv_butD(4) [OF kinvD(1) [OF k]]] by auto
    have k3: "kinv (s2\<lparr>prcount := prcount s2 + 1\<rparr>)" "qview (s2\<lparr>prcount := prcount s2 + 1\<rparr>) = qview s"
      using kinv_upd_cong [OF k, of "s2\<lparr>prcount := prcount s2 + 1\<rparr>"] s2 by simp_all
    have k4: "kinv ?s4" "qview ?s4 = qview s"
      using kinv_upd_proc [OF k3(1), of r ?f] k3(2) n r s2 False pr by (simp_all add: home_def)
    have k5: "kinv (upd_proc r (\<lambda>e. e\<lparr>prstkptr := sp\<rparr>) ?s4)" "qview (upd_proc r (\<lambda>e. e\<lparr>prstkptr := sp\<rparr>) ?s4) = qview s"
      using kinv_msg [OF k4(1) r(1), of "\<lambda>e. e\<lparr>prstkptr := sp\<rparr>"] k4(2) by simp_all
    have kt: "kinv ?t" "qview ?t = qview s" using kinv_upd_cong [OF k5(1), of ?t] k5(2) by simp_all
    have cr: "created initret procaddr priority args r saddr ?size s ?t"
      unfolding created_def using fp s2 kt(2) by simp
    have nr: "r \<notin> set (readyq s)" using placedD [OF kinv_butD(3) [OF kinvD(1) [OF k]] r(1), of "readylist s"] r(2) by simp
    have sy: "sync s \<Longrightarrow> top_prio s \<Longrightarrow> sync ?t \<and> top_prio ?t"
      using kt(2) s2 nr n by (auto simp: sync_def top_prio_def)
    show thesis
      by (rule made [OF e kt(1) _ r _ _ 2(2) cr _ _ _ 2(6,7) sy]) (use 2 s2 N(2) False in simp_all)
  qed
qed

section \<open>Death\<close>

definition others_same :: "pid32 \<Rightarrow> kstate \<Rightarrow> kstate \<Rightarrow> bool" where
  "others_same p s t \<longleftrightarrow> (\<forall>q. q \<noteq> p \<longrightarrow> (pst t q = PR_FREE \<longleftrightarrow> pst s q = PR_FREE) \<and>
     prstkbase (proctab t q) = prstkbase (proctab s q) \<and> prstklen (proctab t q) = prstklen (proctab s q)) \<and>
     prstkbase (proctab t p) = prstkbase (proctab s p) \<and> prstklen (proctab t p) = prstklen (proctab s p) \<and>
     nextpid t = nextpid s \<and> nextsem t = nextsem s"

lemma retire_kinv:
  assumes k: "kinv s" and u: "kinv_but X u" "X = {p} \<or> X = {} \<and> home u p = None" "u = set_qtab qt s"
    and p: "p \<noteq> NULLPROC" "p \<noteq> currpid s"
    and q: "\<And>q. q \<noteq> readylist s \<Longrightarrow> q \<noteq> sleepq s \<Longrightarrow> qview u q = qview s q"
    and r: "set (readyq u) \<subseteq> set (readyq s) - {p}" "\<And>y. y \<in> set (readyq u) \<Longrightarrow> qkey (qt y) = qk s y"
  shows "kinv (set_prstate p PR_FREE u)" "sync s \<longrightarrow> top_prio s \<longrightarrow> sync (set_prstate p PR_FREE u) \<and> top_prio (set_prstate p PR_FREE u)"
    "others_same p s (set_prstate p PR_FREE u)" "pst (set_prstate p PR_FREE u) p = PR_FREE" "kmem (set_prstate p PR_FREE u) = kmem s"
proof -
  let ?t = "set_prstate p PR_FREE u"
  note R = retire [OF u(1,2) p(1), of PR_FREE]
  show "kinv ?t" by (rule kinv_same_sems [OF k R(1)]) (use p(2) kinvD(2,3) [OF k] u(3) q R(2) in simp_all)
  show "sync s \<longrightarrow> top_prio s \<longrightarrow> sync ?t \<and> top_prio ?t"
    using R(2) r u(3) p(2) by (auto simp: sync_def top_prio_def subset_iff)
  show "others_same p s ?t" using u(3) by (simp add: others_same_def)
  show "pst ?t p = PR_FREE" by simp
  show "kmem ?t = kmem s" using u(3) by simp
qed

lemma kill_item:
  assumes k: "kinv s" and p: "p \<noteq> NULLPROC" "p \<noteq> currpid s" "p \<in> set (qview s q)" "q = readylist s \<or> q = sleepq s"
    and g: "g = getitem p \<and> q = readylist s \<or> g = unsleep p \<and> (pst s p = PR_SLEEP \<or> pst s p = PR_RECTIM)"
  shows "\<exists>t. set_prstate p PR_FREE (snd (g s)) = t \<and> kinv t \<and> (sync s \<longrightarrow> top_prio s \<longrightarrow> sync t \<and> top_prio t) \<and>
    others_same p s t \<and> pst t p = PR_FREE \<and> kmem t = kmem s"
proof -
  note K = kinvD [OF k] and I = kinv_butD [OF kinvD(1) [OF k]]
  have pp: "p \<in> pids" using qview_pids [OF I(1) p(3)] .
  have d: "p \<notin> set (remove1 p (readyq s))" using qview_distinct [OF I(1), of "readylist s"] by simp
  from g show ?thesis
  proof
    assume a: "g = getitem p \<and> q = readylist s"
    obtain qt' where G: "getitem p s = (p, set_qtab qt' s)" "kinv_but {p} (set_qtab qt' s)"
      "qview (set_qtab qt' s) = (qview s)(q := remove1 p (qview s q))" "\<And>j. qkey (qt' j) = qk s j"
      by (rule unqueue_item [OF K(1) p(3,1)]) blast
    have "set (remove1 p (readyq s)) \<subseteq> set (readyq s) - {p}" using d set_remove1_subset by fastforce
    then show ?thesis
      using retire_kinv [OF k G(2) _ refl p(1,2)] G(1,3,4) a by (simp add: fun_upd_def)
  next
    assume a: "g = unsleep p \<and> (pst s p = PR_SLEEP \<or> pst s p = PR_RECTIM)"
    obtain qt' where U: "unsleep p s = (OK, set_qtab qt' s)" "kinv_but {p} (set_qtab qt' s)"
      "qview (set_qtab qt' s) = (qview s)(sleepq s := remove1 p (sleepers s))" "\<And>y. y \<in> set (readyq s) \<Longrightarrow> qkey (qt' y) = qk s y"
      by (rule unsleep_ok [OF K(1) pp]) (use a in auto)
    have qr: "readylist s \<noteq> sleepq s" using wf_idsD(3) [OF I(2)] .
    have "p \<notin> set (readyq s)" using placedD [OF I(3) pp, of "readylist s"] a qr by auto
    then show ?thesis
      using retire_kinv [OF k U(2) _ refl p(1,2)] U(1,3,4) a qr by simp
  qed
qed

lemma kill_waiter:
  assumes k: "kinv s" and p: "p \<in> pids" "p \<noteq> NULLPROC" "pst s p = PR_WAIT"
  shows "\<exists>t. set_prstate p PR_FREE (snd (getitem p (bump (prsem (proctab s p)) s))) = t \<and> kinv t \<and>
    (sync s \<longrightarrow> top_prio s \<longrightarrow> sync t \<and> top_prio t) \<and> others_same p s t \<and> pst t p = PR_FREE \<and> kmem t = kmem s"
proof -
  let ?i = "prsem (proctab s p)"
  let ?b = "bump ?i s" and ?q = "semq s ?i"
  note K = kinvD [OF k] and I = kinv_butD [OF kinvD(1) [OF k]]
  note B = bump_facts [OF K(1), of ?i]
  have i: "?i \<in> sems" using wf_procsD(4) [OF I(4) p(1,3)] .
  have pin: "p \<in> set (qview s ?q)" using placedD [OF I(3) p(1), of ?q] p(3) by simp
  then have pin': "p \<in> set (qview ?b ?q)" using B(2) by simp
  obtain qt' where G: "getitem p ?b = (p, set_qtab qt' ?b)" "kinv_but {p} (set_qtab qt' ?b)"
      "qview (set_qtab qt' ?b) = (qview ?b)(?q := remove1 p (qview ?b ?q))" "\<And>j. qkey (qt' j) = qk ?b j"
    by (rule unqueue_item [OF B(1) pin' p(2)]) blast
  let ?t = "set_prstate p PR_FREE (set_qtab qt' ?b)"
  have R: "kinv_but {} ?t" "qview ?t = (qview s)(?q := remove1 p (qview s ?q))"
    using retire [OF G(2), of p PR_FREE] G(3) B(2) p(2) by simp_all
  have nr: "?q \<noteq> readylist s" using wf_idsD(6) [OF I(2) i] .
  have sf: "sem_frame ?i s ?t" using R(2) B(3) by (simp add: sem_frame_def)
  have cnt: "int (length (waiters s ?i)) = max 0 (- scount (semtab s ?i))" "sstate (semtab s ?i) \<noteq> S_FREE"
    using K(4) [OF i] pin by (auto simp: sem_ok_def)
  have "length (remove1 p (qview s ?q)) = length (qview s ?q) - 1" "0 < length (qview s ?q)" using pin by (auto simp: length_remove1)
  then have ok: "sem_ok ?t ?i" using cnt R(2) B(6) by (simp add: sem_ok_def)
  have pc: "p \<noteq> currpid s" using p(3) K(2) by auto
  have kt: "kinv ?t" by (rule kinv_after [OF k i sf R(1) _ ok]) (use K(2) pc in simp)
  have "p \<notin> set (readyq s)" using placedD [OF I(3) p(1), of "readylist s"] p(3) nr by simp
  then have sy: "sync s \<longrightarrow> top_prio s \<longrightarrow> sync ?t \<and> top_prio ?t"
    using R(2) G(4) nr pc by (auto simp: sync_def top_prio_def)
  have "others_same p s ?t" by (simp add: others_same_def bump_def)
  then show ?thesis using G(1) kt sy sf by (simp add: sem_frame_def)
qed

lemma kill_idle:
  assumes k: "kinv (s\<lparr>kmem := m\<rparr>)"
    and f: "freestk (prstkbase (proctab s p)) (prstklen (proctab s p)) (kmem s) = Some (x, m)" and p: "p \<noteq> NULLPROC"
    and st: "pst s p = PR_FREE \<or> pst s p = PR_RECV \<or> pst s p = PR_SUSP" and pc: "p \<noteq> currpid s"
    and sy: "sync (s\<lparr>kmem := m\<rparr>) = sync s" "top_prio (s\<lparr>kmem := m\<rparr>) = top_prio s"
    and os: "\<And>t. others_same p s t = others_same p (s\<lparr>kmem := m\<rparr>) t"
  shows "\<exists>r t. kill_end p s = Some (r, t) \<and> kinv t \<and> (sync s \<longrightarrow> top_prio s \<longrightarrow> sync t \<and> top_prio t) \<and>
    others_same p s t \<and> pst t p = PR_FREE \<and> kmem t = m \<and> r = (if p = currpid s then Gone else Killed OK)"
proof -
  let ?s = "s\<lparr>kmem := m\<rparr>"
  let ?t = "set_prstate p PR_FREE ?s"
  note K = kinvD [OF k] and I = kinv_butD [OF kinvD(1) [OF k]]
  have h: "home ?s p = None" using st by (auto simp: home_def)
  have e: "kill_end p s = Some (Killed OK, ?t)"
    using f st by (auto simp: kill_end_def Let_def)
  have nr: "p \<notin> set (readyq ?s)"
  proof
    assume "p \<in> set (readyq ?s)"
    moreover from this have "p \<in> pids" by (rule qview_pids [OF I(1)])
    ultimately show False using placedD [OF I(3), of p "readylist ?s"] h by simp
  qed
  have "set_qtab (queuetab ?s) ?s = ?s" by simp
  then have T: "kinv ?t" "sync ?s \<longrightarrow> top_prio ?s \<longrightarrow> sync ?t \<and> top_prio ?t" "others_same p ?s ?t" "pst ?t p = PR_FREE" "kmem ?t = kmem ?s"
    using retire_kinv [OF k K(1), of p "queuetab ?s"] h p pc nr by auto
  show ?thesis using e T sy os pc by simp
qed

lemma kill_end_ok:
  assumes k: "kinv s" and p: "p \<in> pids" "p \<noteq> NULLPROC"
    and f: "freestk (prstkbase (proctab s p)) (prstklen (proctab s p)) (kmem s) = Some (x, m)"
  shows "\<exists>r t. kill_end p s = Some (r, t) \<and> kinv t \<and> (sync s \<longrightarrow> top_prio s \<longrightarrow> sync t \<and> top_prio t) \<and>
    others_same p s t \<and> pst t p = PR_FREE \<and> kmem t = m \<and> r = (if p = currpid s then Gone else Killed OK)"
proof -
  let ?s = "s\<lparr>kmem := m\<rparr>"
  note K2 = kinv_upd_cong [OF k, of ?s, simplified]
  note K = kinvD [OF K2(1)] and I = kinv_butD [OF kinvD(1) [OF K2(1)]]
  have cur: "pst ?s p = PR_CURR \<longleftrightarrow> p = currpid ?s" using wf_procsD(2) [OF I(4) p(1)] K(2) by auto
  have os: "others_same p s t = others_same p ?s t" for t by (simp add: others_same_def)
  show ?thesis
  proof (cases "pst ?s p")
    case PR_CURR
    then have c: "p = currpid ?s" using cur by simp
    then have nn: "currpid ?s \<noteq> NULLPROC" using p(2) by simp
    obtain t where T: "resched (set_prstate (currpid ?s) PR_FREE ?s) = Some t" "kinv t" "pst t (currpid ?s) = PR_FREE"
      "currpid t \<noteq> currpid ?s" "sched_frame {} (set_prstate (currpid ?s) PR_FREE ?s) t" "sync ?s \<Longrightarrow> sync t \<and> top_prio t"
      by (rule plain_block [OF K2(1) nn, of PR_FREE]) blast+
    note F = sched_frameD [OF T(5)] and G = sched_frame_proc [OF T(5)]
    have "kill_end p s = Some (Gone, t)"
      using f PR_CURR c T(1,4) by (simp add: kill_end_def Let_def)
    moreover have "pst t q = PR_FREE \<longleftrightarrow> pst s q = PR_FREE" if "q \<noteq> p" for q using F(16) [of q] that c by auto
    then have "others_same p s t" using G F(2,6) by (simp add: others_same_def c)
    ultimately show ?thesis using T(2,3,6) F(11) c K2(3) by auto
  next
    case PR_WAIT
    then obtain t where T: "set_prstate p PR_FREE (snd (getitem p (bump (prsem (proctab ?s p)) ?s))) = t" "kinv t"
        "sync ?s \<longrightarrow> top_prio ?s \<longrightarrow> sync t \<and> top_prio t" "others_same p ?s t" "pst t p = PR_FREE" "kmem t = kmem ?s"
      using kill_waiter [OF K2(1) p] by blast
    have "kill_end p s = Some (Killed OK, t)"
      using f PR_WAIT T(1) by (simp add: kill_end_def Let_def bump_def case_prod_beta)
    moreover have "p \<noteq> currpid s" using cur PR_WAIT by auto
    ultimately show ?thesis using T(2-6) K2(3,4) os by simp
  next
    case PR_READY
    then have pin: "p \<in> set (qview ?s (readylist ?s))" using placedD [OF I(3) p(1)] by simp
    have pc: "p \<noteq> currpid ?s" using cur PR_READY by auto
    obtain t where T: "set_prstate p PR_FREE (snd (getitem p ?s)) = t" "kinv t"
        "sync ?s \<longrightarrow> top_prio ?s \<longrightarrow> sync t \<and> top_prio t" "others_same p ?s t" "pst t p = PR_FREE" "kmem t = kmem ?s"
      using kill_item [OF K2(1) p(2) pc pin, of "getitem p"] by blast
    have "kill_end p s = Some (Killed OK, t)"
      using f PR_READY T(1) by (simp add: kill_end_def Let_def case_prod_beta)
    then show ?thesis using T(2-6) K2(3,4) os pc by simp
  next
    case PR_SLEEP
    then have pin: "p \<in> set (qview ?s (sleepq ?s))" using placedD [OF I(3) p(1)] by simp
    have pc: "p \<noteq> currpid ?s" using cur PR_SLEEP by auto
    obtain t where T: "set_prstate p PR_FREE (snd (unsleep p ?s)) = t" "kinv t"
        "sync ?s \<longrightarrow> top_prio ?s \<longrightarrow> sync t \<and> top_prio t" "others_same p ?s t" "pst t p = PR_FREE" "kmem t = kmem ?s"
      using kill_item [OF K2(1) p(2) pc pin, of "unsleep p"] PR_SLEEP by blast
    have "kill_end p s = Some (Killed OK, t)"
      using f PR_SLEEP T(1) by (simp add: kill_end_def Let_def case_prod_beta)
    then show ?thesis using T(2-6) K2(3,4) os pc by simp
  next
    case PR_RECTIM
    then have pin: "p \<in> set (qview ?s (sleepq ?s))" using placedD [OF I(3) p(1)] by simp
    have pc: "p \<noteq> currpid ?s" using cur PR_RECTIM by auto
    obtain t where T: "set_prstate p PR_FREE (snd (unsleep p ?s)) = t" "kinv t"
        "sync ?s \<longrightarrow> top_prio ?s \<longrightarrow> sync t \<and> top_prio t" "others_same p ?s t" "pst t p = PR_FREE" "kmem t = kmem ?s"
      using kill_item [OF K2(1) p(2) pc pin, of "unsleep p"] PR_RECTIM by blast
    have "kill_end p s = Some (Killed OK, t)"
      using f PR_RECTIM T(1) by (simp add: kill_end_def Let_def case_prod_beta)
    then show ?thesis using T(2-6) K2(3,4) os pc by simp
  qed (rule kill_idle [OF K2(1) f p(2) _ _ K2(3,4) os]; use cur in simp)+
qed

lemma liveD: "p \<in> live s \<Longrightarrow> p \<in> pids \<and> p \<noteq> NULLPROC \<and> pst s p \<noteq> PR_FREE"
  by (simp add: live_def)

lemma stacks_okD:
  assumes "stacks_ok s bs"
  shows "heap_ok (kmem s) bs" "\<And>p. p \<in> live s \<Longrightarrow> stack_ok s bs p"
    "\<And>p q. p \<in> live s \<Longrightarrow> q \<in> live s \<Longrightarrow> p \<noteq> q \<Longrightarrow> stk_region (proctab s p) \<inter> stk_region (proctab s q) = {}"
  using assms by (auto simp: stacks_ok_def)

text \<open>Giving the stack of a process back, and forgetting the process, keeps the others' stacks.\<close>

lemma stacks_release:
  assumes so: "stacks_ok s bs" and p: "p \<in> live s"
  obtains m bs' where "freestk (prstkbase (proctab s p)) (prstklen (proctab s p)) (kmem s) = Some (OK, m)"
    "free_bytes bs' = free_bytes bs \<union> stk_region (proctab s p)"
    "\<And>t. others_same p s t \<Longrightarrow> pst t p = PR_FREE \<Longrightarrow> kmem t = m \<Longrightarrow> stacks_ok t bs'"
proof -
  let ?e = "proctab s p"
  note S = stacks_okD [OF so]
  have e: "prstklen ?e \<noteq> 0" "unat (prstklen ?e) \<le> 2 ^ 32 - 8" "unat (minheap (kmem s)) + reqsize (prstklen ?e) \<le> unat (prstkbase ?e) + 4"
    "unat (prstkbase ?e) + 4 \<le> unat (maxheap (kmem s))" "stk_region ?e \<inter> free_bytes bs = {}"
    using S(2) [OF p] by (simp_all add: stack_ok_def Let_def)
  obtain m bs' where m: "freestk (prstkbase ?e) (prstklen ?e) (kmem s) = Some (OK, m)" "heap_ok m bs'"
      "free_bytes bs' = free_bytes bs \<union> stk_region ?e" "minheap m = minheap (kmem s)" "maxheap m = maxheap (kmem s)"
    using freestk_law [OF S(1) e(1-4)] e(5) unfolding stk_region_def by blast
  have "stacks_ok t bs'" if t: "others_same p s t" "pst t p = PR_FREE" "kmem t = m" for t
  proof -
    have r: "stk_region (proctab t q) = stk_region (proctab s q)" for q
      using t(1) by (cases "q = p") (simp_all add: others_same_def stk_region_def)
    have l: "q \<in> live s \<and> q \<noteq> p" if "q \<in> live t" for q
      using that t(1,2) by (cases "q = p") (auto simp: live_def others_same_def)
    have "stack_ok t bs' q" if q: "q \<in> live t" for q
    proof -
      note L = l [OF q]
      have "stk_region (proctab s q) \<inter> free_bytes bs' = {}"
        using S(2) [of q] S(3) [of q p] L p m(3) by (auto simp: stack_ok_def Let_def)
      then show ?thesis using S(2) [of q] L t m(4,5) r [of q] by (simp add: stack_ok_def Let_def others_same_def)
    qed
    then show ?thesis using m(2) t(3) l S(3) r by (auto simp: stacks_ok_def)
  qed
  then show thesis using that [OF m(1,3)] by blast
qed

lemma send_stk_frame:
  assumes k: "kinv s"
  obtains r t where "send q x s = Some (r, t)" "kinv t" "stk_frame s t" "sync s \<Longrightarrow> top_prio s \<Longrightarrow> sync t \<and> top_prio t"
    "nextpid t = nextpid s" "nextsem t = nextsem s" "prcount t = prcount s"
proof (cases "isbadpid s q \<or> prhasmsg (proctab s q)")
  case True
  then show thesis using k by (intro that [of SYSERR s]) (auto simp: send_def Let_def stk_frame_def)
next
  case False
  obtain t where T: "send q x s = Some (OK, t)" "kinv t" "prmsg (proctab t q) = x" "prhasmsg (proctab t q)" "msgs_same q s t"
    "pst s q = PR_RECV \<or> pst s q = PR_RECTIM \<Longrightarrow> runnable (pst t q)"
    "pst s q \<noteq> PR_RECV \<Longrightarrow> pst s q \<noteq> PR_RECTIM \<Longrightarrow> t = upd_proc q (\<lambda>e. e\<lparr>prmsg := x, prhasmsg := True\<rparr>) s"
    "sync s \<Longrightarrow> top_prio s \<Longrightarrow> sync t \<and> top_prio t"
    "\<And>y. y \<noteq> q \<Longrightarrow> pst t y = pst s y \<or> runnable (pst s y) \<and> runnable (pst t y)"
    by (rule send_ok [OF k, of q x]) (use False in blast)+
  have "pst t y = PR_FREE \<longleftrightarrow> pst s y = PR_FREE" for y
    using T(6,7) T(9) [of y] by (cases "y = q"; cases "pst s q = PR_RECV \<or> pst s q = PR_RECTIM") auto
  then have "stk_frame s t" using T(5) by (simp add: stk_frame_def live_def msgs_same_def)
  then show thesis using that [OF T(1,2)] T(5,8) by (simp add: msgs_same_def)
qed

section \<open>The first context switch\<close>

lemma word_steps_inj: "4 * i < 2 ^ 32 \<Longrightarrow> 4 * j < 2 ^ 32 \<Longrightarrow> a - 4 * of_nat i = a - 4 * (of_nat j :: uint32) \<Longrightarrow> i = j"
proof -
  assume a: "4 * i < 2 ^ 32" "4 * j < 2 ^ 32" and "a - 4 * of_nat i = a - 4 * (of_nat j :: uint32)"
  then have "(of_nat (4 * i) :: uint32) = of_nat (4 * j)" by simp
  then have "unat (of_nat (4 * i) :: uint32) = unat (of_nat (4 * j) :: uint32)" by simp
  moreover have "unat (of_nat (4 * i) :: uint32) = 4 * i" "unat (of_nat (4 * j) :: uint32) = 4 * j"
    using a by (simp_all only: unat_of_nat take_bit_nat_eq_self_iff len_of_numeral_defs) simp_all
  ultimately show "i = j" by simp
qed

lemma fold_push:
  assumes "4 * length ws < 2 ^ 32" and "fold push ws (sp, mem) = (sp', mem')"
  shows "sp' = sp - 4 * of_nat (length ws) \<and> (\<forall>i<length ws. mem' (sp - 4 * of_nat (Suc i)) = ws ! i) \<and>
    (\<forall>a. (\<forall>i<length ws. a \<noteq> sp - 4 * of_nat (Suc i)) \<longrightarrow> mem' a = mem a)"
  using assms
proof (induction ws arbitrary: sp' mem' rule: rev_induct)
  case Nil
  then show ?case by simp
next
  case (snoc w ws)
  obtain sp1 mem1 where f: "fold push ws (sp, mem) = (sp1, mem1)" by (cases "fold push ws (sp, mem)")
  have l: "4 * length ws < 2 ^ 32" using snoc.prems(1) by simp
  note IH = snoc.IH [OF l f]
  let ?n = "length ws"
  have e: "sp' = sp - 4 * of_nat (Suc ?n)" "mem' = mem1(sp - 4 * of_nat (Suc ?n) := w)"
    using snoc.prems(2) IH unfolding fold_append comp_apply f by (auto simp: push_def algebra_simps)
  have ne: "sp - 4 * of_nat (Suc i) \<noteq> sp - 4 * (of_nat (Suc ?n) :: uint32)" if "i < ?n" for i
    using word_steps_inj [of "Suc i" "Suc ?n" sp] that snoc.prems(1) by auto
  have "mem' (sp - 4 * of_nat (Suc i)) = (ws @ [w]) ! i" if "i < length (ws @ [w])" for i
    using that IH ne unfolding e(2) by (cases "i = ?n") (auto simp: nth_append less_Suc_eq simp del: of_nat_Suc)
  moreover have "mem' a = mem a" if "\<forall>i<length (ws @ [w]). a \<noteq> sp - 4 * of_nat (Suc i)" for a
    using that IH unfolding e(2) by (simp del: of_nat_Suc)
  ultimately show ?case using e(1) by simp
qed

lemma create_frame_nth:
  fixes args :: "uint32 list" and initret procaddr :: uint32
  defines "k \<equiv> length args - 4" and "ws \<equiv> create_frame initret procaddr args"
  shows "length ws = k + 15" "\<And>i. i < k \<Longrightarrow> ws ! i = args ! (length args - 1 - i)" "ws ! k = procaddr"
    "\<And>i. i < 4 \<Longrightarrow> ws ! (k + 12 - i) = (if i < length args then args ! i else 0)" "ws ! (k + 13) = initret" "ws ! (k + 14) = 0x15F"
proof -
  show "length ws = k + 15" by (simp add: ws_def k_def create_frame_def)
  show "ws ! i = args ! (length args - 1 - i)" if "i < k" for i
    using that by (simp add: ws_def k_def create_frame_def nth_append rev_nth)
  have nk: "ws ! (k + j) = ([procaddr] @ replicate 8 0 @
    map (\<lambda>i. if i \<le> length args then args ! (i - 1) else 0) [4, 3, 2, 1] @ [initret, 0x15F]) ! j" for j
    by (simp add: ws_def k_def create_frame_def nth_append)
  show "ws ! k = procaddr" using nk [of 0] by simp
  show "ws ! (k + 13) = initret" "ws ! (k + 14) = 0x15F" using nk [of 13] nk [of 14] by (simp_all add: nth_append numeral_eq_Suc)
  show "ws ! (k + 12 - i) = (if i < length args then args ! i else 0)" if "i < 4" for i
  proof -
    have e: "ws ! (k + 12 - i) = ws ! (k + (12 - i))" using that by simp
    have "i = 0 \<or> i = 1 \<or> i = 2 \<or> i = 3" using that by auto
    then show ?thesis unfolding e nk by (elim disjE) (simp_all add: nth_append Suc_le_eq)
  qed
qed

lemma newpid_loop_frame: "newpid_loop n s = (r, t) \<Longrightarrow> stkmem t = stkmem s"
  by (induction n arbitrary: s) (auto simp: Let_def split: if_splits)

lemma create_stack:
  assumes "create initret procaddr ssize priority name args s = Some (p, t)" and "p \<noteq> SYSERR"
  obtains saddr where "fold push (create_frame initret procaddr args) (saddr, (stkmem s)(saddr := STACKMAGIC)) = (prstkptr (proctab t p), stkmem t)"
    "prstkbase (proctab t p) = saddr"
  using assms
  by (auto simp: create_def newpid_def Let_def dest: newpid_loop_frame split: Option.bind_splits prod.splits if_splits)

section \<open>Properties\<close>

text \<open>
  C6. Stacks stay private: from a state where the stacks of the live processes lie in the
  heap, away from its free bytes and from one another, \<^verbatim>\<open>create\<close> always returns, the
  kernel's invariant and this separation still hold, and a new process has a free table
  entry, the priority asked for, and a stack of at least the size asked for.
\<close>

theorem create_private_stack:
  assumes k: "kinv s" and so: "stacks_ok s bs" and n: "0 \<le> nextpid s" and sz: "unat ssize \<le> 2 ^ 32 - 8" and pr: "priority < 0x8000"
  shows "\<exists>p t bs'. create initret procaddr ssize priority name args s = Some (p, t) \<and> kinv t \<and> stacks_ok t bs' \<and>
    free_bytes bs' \<subseteq> free_bytes bs \<and>
    (if p = SYSERR then proctab t = proctab s
     else pst s p = PR_FREE \<and> pst t p = PR_SUSP \<and> prprio (proctab t p) = priority \<and> prparent (proctab t p) = currpid s \<and>
       unat ssize \<le> reqsize (prstklen (proctab t p)) \<and> (\<forall>q. q \<noteq> p \<longrightarrow> proctab t q = proctab s q))"
proof -
  note S = stacks_okD [OF so] and Z = stack_size_ok [OF sz]
  show ?thesis
  proof (cases rule: create_ok [OF k S(1) n sz pr, of initret procaddr name args])
    case nomem: 1
    show ?thesis using nomem k so by (intro exI [of _ SYSERR] exI [of _ s] exI [of _ bs]) auto
  next
    case fail: (2 saddr bs' t)
    have m: "minheap (kmem t) = minheap (kmem s)" "maxheap (kmem t) = maxheap (kmem s)" "proctab t = proctab s"
      using getstk_takes [OF S(1) Z(1,2) fail(5,6)] arg_cong [OF fail(7), of proctab] by auto
    have "stacks_ok t bs'" using fail(3,10) so m by (auto simp: stacks_ok_def stack_ok_def live_def Let_def)
    then show ?thesis using fail m(3) by (intro exI [of _ SYSERR] exI [of _ t] exI [of _ bs']) auto
  next
    case made: (3 p saddr bs' t)
    let ?e = "proctab t p" and ?r = "{unat saddr + 4 - reqsize (stack_size ssize)..<unat saddr + 4}"
    have e: "prstkbase ?e = saddr" "prstklen ?e = stack_size ssize" "stk_region ?e = ?r" and o: "\<And>q. q \<noteq> p \<Longrightarrow> proctab t q = proctab s q"
      and pn: "p \<noteq> SYSERR" using made(4,9) by (auto simp: created_def stk_region_def SYSERR_def)
    obtain r where r: "unat saddr + 4 = unat r + reqsize (stack_size ssize)" "extent r (roundmb (stack_size ssize)) = ?r"
        "unat (roundmb (stack_size ssize)) = reqsize (stack_size ssize)" "0 < reqsize (stack_size ssize)"
      using getstk_takes [OF S(1) Z(1,2) made(7,8)] roundmb_request [OF Z(1,2)] by (auto simp: extent_def wless)
    have rng: "free_bytes bs \<subseteq> {unat (minheap (kmem s))..<unat (maxheap (kmem s))}" using free_bytes_range heap_okD(2) [OF S(1)] .
    have in_heap: "unat (minheap (kmem s)) + reqsize (stack_size ssize) \<le> unat saddr + 4" "unat saddr + 4 \<le> unat (maxheap (kmem s))"
      using made(13) rng r(1,4) by (auto simp: subset_iff dest!: spec [of _ "unat r"] spec [of _ "unat saddr + 3"])
    have lv: "q \<in> live t \<Longrightarrow> q = p \<or> q \<in> live s \<and> q \<noteq> p" for q using o by (cases "q = p") (auto simp: live_def)
    have away: "stk_region (proctab s q) \<inter> stk_region ?e = {}" if "q \<in> live s" for q
      using S(2) [OF that] made(13) unfolding e(3) by (auto simp: stack_ok_def Let_def)
    have "stack_ok t bs' q" if q: "q \<in> live t" for q
      using lv [OF q] S(2) [of q] o made(11,12,14) Z in_heap e by (auto simp: stack_ok_def Let_def)
    moreover have "stk_region (proctab t q) \<inter> stk_region (proctab t q') = {}" if "q \<in> live t" "q' \<in> live t" "q \<noteq> q'" for q q'
    proof (cases "q = p \<or> q' = p")
      case True
      then show ?thesis using lv [OF that(1)] lv [OF that(2)] that(3) away o by (metis Int_commute)
    next
      case False
      then show ?thesis using lv [OF that(1)] lv [OF that(2)] that(3) S(3) o by simp
    qed
    ultimately have "stacks_ok t bs'" using made(3) by (simp add: stacks_ok_def)
    moreover have "unat ssize \<le> reqsize (stack_size ssize)" using Z(4) by (simp add: reqsize_def)
    ultimately show ?thesis using made e(2) o pn
      by (intro exI [of _ p] exI [of _ t] exI [of _ bs']) (auto simp: created_def)
  qed
qed

lemma stacks_ok_kboot: "\<exists>bs. stacks_ok kboot bs"
proof -
  have "live kboot = {}" using kboot_facts(6) by (auto simp: live_def)
  then show ?thesis using kboot_facts(5) by (simp add: stacks_ok_def)
qed

theorem create_private_stack_witness:
  "\<exists>p t bs'. create 0x8000 0x9000 1024 20 ''main'' [1, 2] kboot = Some (p, t) \<and> kinv t \<and> stacks_ok t bs'"
proof -
  obtain bs where "stacks_ok kboot bs" using stacks_ok_kboot by blast
  then show ?thesis
    using create_private_stack [OF kboot_facts(2), of bs 1024 20 "0x8000" "0x9000" "''main''" "[1, 2]"] kboot_facts(13) by auto
qed

text \<open>
  C19. A new process starts where \<^verbatim>\<open>create\<close> says: the frame it builds, read back by the first
  \<^verbatim>\<open>ctxsw\<close> to the process, gives the procedure's address in the program counter,
  \<^verbatim>\<open>userret\<close> as return address, the first four arguments in r0 to r3, the others on the
  stack in order.
\<close>

theorem create_ctxsw_starts:
  assumes c: "create initret procaddr ssize priority name args s = Some (p, t)" "p \<noteq> SYSERR" and l: "length args < 2 ^ 28"
  shows "let rs = ctxsw_resume (stkmem t) (prstkptr (proctab t p)) in
    r_pc rs = procaddr \<and> r_lr rs = initret \<and> r_cpsr rs = 0x15F \<and>
    (\<forall>i<4. r_gpr rs ! i = (if i < length args then args ! i else 0)) \<and>
    (\<forall>i. 4 \<le> i \<and> i < length args \<longrightarrow> stkmem t (r_sp rs + 4 * of_nat (i - 4)) = args ! i)"
proof -
  let ?ws = "create_frame initret procaddr args" and ?k = "length args - 4" and ?sp = "prstkptr (proctab t p)"
  obtain saddr where f: "fold push ?ws (saddr, (stkmem s)(saddr := STACKMAGIC)) = (?sp, stkmem t)"
    by (rule create_stack [OF c]) blast
  note N = create_frame_nth [where args = args and initret = initret and procaddr = procaddr]
  have "4 * length ?ws < 2 ^ 32" using l N(1) by simp
  note P = fold_push [OF this f]
  have rd: "stkmem t (?sp + 4 * of_nat j) = ?ws ! (?k + 14 - j)" if "j < ?k + 15" for j
  proof -
    have i: "?k + 14 - j < length ?ws" and e: "length ?ws = j + Suc (?k + 14 - j)" using that N(1) by simp_all
    have "?sp + 4 * of_nat j = saddr - 4 * of_nat (Suc (?k + 14 - j))"
      using P arg_cong [OF e, of "of_nat :: nat \<Rightarrow> uint32"] by (simp only: of_nat_add) (simp add: algebra_simps)
    then show ?thesis using P i by (simp only:)
  qed
  have g: "stkmem t (?sp + 8 + 4 * of_nat i) = ?ws ! (?k + 12 - i)" if "i < 13" for i
    using rd [of "i + 2"] that by (simp add: algebra_simps)
  have "stkmem t (?sp + 60 + 4 * of_nat (i - 4)) = args ! i" if "4 \<le> i" "i < length args" for i
  proof -
    have "stkmem t (?sp + 60 + 4 * of_nat (i - 4)) = ?ws ! (?k - 1 - (i - 4))"
      using rd [of "i - 4 + 15"] that by (simp add: algebra_simps)
    also have "\<dots> = args ! i" using N(2) [of "?k - 1 - (i - 4)"] that by simp
    finally show ?thesis .
  qed
  moreover have "stkmem t ?sp = 0x15F" "stkmem t (?sp + 4) = initret" using rd [of 0] rd [of 1] N(5,6) by (simp_all add: add.commute)
  moreover have "map (\<lambda>i. stkmem t (?sp + 8 + 4 * of_nat i)) [0..<13] ! i = ?ws ! (?k + 12 - i)" if "i < 13" for i
    using g that by (simp only: nth_map_upt length_map length_upt) simp
  moreover have "stkmem t (56 + ?sp) = procaddr" using g [of 12] N(3) by (simp add: algebra_simps)
  ultimately show ?thesis using N(3,4) by (simp add: ctxsw_resume_def Let_def)
qed

lemma kboot_heap: "heap_ok (kmem kboot) [(0x10000, 0xEE000)]"
proof -
  have h: "heap_ok (meminit 0x10000 0x100000 mem_zero) [(0x10000, 0xF0000)]"
    using meminit_ok [of "0x10000" "0x100000" mem_zero] by simp
  have al: "lf_alloc (roundmb NULLSTK) [(0x10000, 0xF0000)] = Some (0xFE000, [(0x10000, 0xEE000)])"
    by (simp add: NULLSTK_def roundmb_def)
  obtain m where g: "getstk NULLSTK (meminit 0x10000 0x100000 mem_zero) = Some (0xFE000 + roundmb NULLSTK - 4, m)" "heap_ok m [(0x10000, 0xEE000)]"
    by (rule getstk_success [OF h _ _ al]) (simp_all add: NULLSTK_def)
  have "kmem kboot = m" using kboot_facts(14) g(1) by auto
  then show ?thesis using g(2) by simp
qed

lemma getstk_kboot: "\<exists>a m. getstk 1024 (kmem kboot) = Some (a, m) \<and> a \<noteq> SYSERR_PTR"
proof -
  have "lf_alloc (roundmb 1024) [(0x10000, 0xEE000)] = Some (0xFDC00, [(0x10000, 0xEDC00)])" by (simp add: roundmb_def)
  then obtain m' where "getstk 1024 (kmem kboot) = Some (0xFDC00 + roundmb 1024 - 4, m')" "0xFDC00 + roundmb 1024 - 4 \<noteq> SYSERR_PTR"
    by (rule getstk_success [OF kboot_heap, rotated 2]) simp_all
  then show ?thesis by blast
qed

theorem create_ctxsw_starts_witness:
  "\<exists>p t. create 0x8000 0x9000 1024 20 ''main'' [1, 2] kboot = Some (p, t) \<and> p \<noteq> SYSERR \<and>
    r_pc (ctxsw_resume (stkmem t) (prstkptr (proctab t p))) = 0x9000"
proof -
  obtain bs where h: "heap_ok (kmem kboot) bs" using kboot_facts(5) by blast
  obtain a m where g: "getstk 1024 (kmem kboot) = Some (a, m)" "a \<noteq> SYSERR_PTR" using getstk_kboot by blast
  have sz: "stack_size 1024 = 1024" by (simp add: stack_size_def MINSTK_def roundew_def)
  have f: "\<not> (\<forall>p\<in>pids. pst kboot p \<noteq> PR_FREE)" using kboot_facts(6) [of 1] by (auto simp: size_defs NULLPROC_def)
  obtain p t where c: "create 0x8000 0x9000 1024 20 ''main'' [1, 2] kboot = Some (p, t)" "p \<in> pids"
    by (rule create_ok [OF kboot_facts(2) h, of 1024 20 "0x8000" "0x9000" "''main''" "[1, 2]"])
      (use kboot_facts(13) g sz f in auto)
  have "p \<noteq> SYSERR" using c(2) by (auto simp: SYSERR_def)
  then show ?thesis using c(1) create_ctxsw_starts [OF c(1)] by (auto simp: Let_def)
qed

text \<open>
  A refused \<^verbatim>\<open>create\<close> loses memory: when the priority is not positive or the table is
  full, the stack taken just before is not given back. The call returns \<^verbatim>\<open>SYSERR\<close>, the
  process table is unchanged, and the bytes are no longer free.
\<close>

theorem create_failure_leaks:
  assumes k: "kinv s" and h: "heap_ok (kmem s) bs" and n: "0 \<le> nextpid s" and sz: "unat ssize \<le> 2 ^ 32 - 8"
    and g: "getstk (stack_size ssize) (kmem s) = Some (saddr, m)" "saddr \<noteq> SYSERR_PTR" and pr: "priority < 1"
  shows "\<exists>t bs'. create initret procaddr ssize priority name args s = Some (SYSERR, t) \<and> proctab t = proctab s \<and>
    heap_ok (kmem t) bs' \<and> free_bytes bs' = free_bytes bs - {unat saddr + 4 - reqsize (stack_size ssize)..<unat saddr + 4} \<and>
    free_bytes bs' \<noteq> free_bytes bs"
proof -
  have p: "priority < 0x8000" using pr by simp
  show ?thesis
  proof (cases rule: create_ok [OF k h n sz p, of initret procaddr name args])
    case nomem: 1
    then show ?thesis using g by simp
  next
    case fail: (2 a bs' t)
    have e: "a = saddr" using fail(5) g(1) by simp
    have "0 < reqsize (stack_size ssize)"
      using stack_size_ok(3) [OF sz] by (simp add: reqsize_def)
    then have "unat saddr + 3 \<in> {unat saddr + 4 - reqsize (stack_size ssize)..<unat saddr + 4}" by simp
    then have "free_bytes bs' \<noteq> free_bytes bs" using fail(9,10) e by blast
    moreover have "proctab t = proctab s" using arg_cong [OF fail(7), of proctab] by simp
    ultimately show ?thesis using fail(1,3,10) e by blast
  next
    case (3 p a bs' t)
    then show ?thesis using pr by simp
  qed
qed

theorem create_failure_leaks_witness:
  "\<exists>t. create 0x8000 0x9000 1024 0 ''main'' [] kboot = Some (SYSERR, t) \<and> proctab t = proctab kboot \<and>
    (\<exists>bs bs'. heap_ok (kmem kboot) bs \<and> heap_ok (kmem t) bs' \<and> free_bytes bs' \<subset> free_bytes bs)"
proof -
  obtain bs where h: "heap_ok (kmem kboot) bs" using kboot_facts(5) by blast
  obtain a m where g: "getstk 1024 (kmem kboot) = Some (a, m)" "a \<noteq> SYSERR_PTR" using getstk_kboot by blast
  have sz: "stack_size 1024 = 1024" by (simp add: stack_size_def MINSTK_def roundew_def)
  obtain t bs' where "create 0x8000 0x9000 1024 0 ''main'' [] kboot = Some (SYSERR, t)" "proctab t = proctab kboot"
      "heap_ok (kmem t) bs'" "free_bytes bs' = free_bytes bs - {unat a + 4 - reqsize 1024..<unat a + 4}" "free_bytes bs' \<noteq> free_bytes bs"
    using create_failure_leaks [OF kboot_facts(2) h, of 1024 a m 0 "0x8000" "0x9000" "''main''" "[]"] g sz kboot_facts(13) by auto
  moreover from this have "free_bytes bs' \<subset> free_bytes bs" by blast
  ultimately show ?thesis using h by blast
qed

text \<open>Process 1, of priority 20, running; process 2, of priority 10, ready.\<close>

definition kpair :: kstate where
  "kpair = snd (the (ready 2 (with_proc 2 10 krun)))"

lemma kpair_facts:
  "kinv kpair" "sync kpair" "top_prio kpair" "currpid kpair = 1" "pst kpair 2 = PR_READY" "prprio (proctab kpair 2) = 10"
  "\<And>p. p \<in> pids \<Longrightarrow> p \<noteq> 0 \<Longrightarrow> p \<noteq> 1 \<Longrightarrow> p \<noteq> 2 \<Longrightarrow> pst kpair p = PR_FREE" "pst kpair 1 = PR_CURR"
proof -
  let ?s = "with_proc 2 10 krun"
  have p2: "(2::int) \<in> pids" "(1::int) \<in> pids" by (simp_all add: size_defs)
  have f2: "pst krun 2 = PR_FREE" using krun_facts(13) [OF p2(1)] by simp
  note W = with_proc_kinv [OF krun_facts(1) p2(1) f2, of 10]
  have ks: "kinv ?s" "qview ?s = qview krun" using W by simp_all
  have sy: "sync ?s" using ks(2) krun_facts(2,5,6) by (auto simp: sync_def with_proc_def NULLPROC_def)
  have nb: "\<not> isbadpid ?s 2" "home ?s 2 = None" using p2 by (simp_all add: pids_notbad with_proc_def)
  obtain t where T: "ready 2 ?s = Some (OK, t)" "kinv_but {} t" "sched_frame {2} ?s t" "sync ?s \<Longrightarrow> sync t"
    "ndefers ?s = 0 \<Longrightarrow> pst t (currpid t) = PR_CURR \<and> (sync ?s \<longrightarrow> top_prio t)"
    by (rule ready_ok [OF kinvD(1) [OF ks(1)] _ nb(1)]) (use nb(2) kinvD(3) [OF ks(1)] in \<open>auto simp: NULLPROC_def\<close>)
  have t: "kpair = t" using T(1) by (simp add: kpair_def)
  note F = sched_frameD [OF T(3)] and I = kinv_butD [OF T(2)] and G = sched_frame_proc [OF T(3)]
  have c: "pst t (currpid t) = PR_CURR" "top_prio t" using T(5) kinvD(3) [OF ks(1)] sy by simp_all
  have r: "runnable (pst t 2)" "runnable (pst t 1)" using F(15) [of 2] F(16) [of 1] krun_facts(14) by (auto simp: with_proc_def)
  have fr: "pst t p = PR_FREE" if "p \<in> pids" "p \<noteq> 0" "p \<noteq> 1" "p \<noteq> 2" for p
    using F(16) [of p] that krun_facts(13) [of p] by (simp add: with_proc_def)
  have pr: "prprio (proctab t 2) = 10" "prprio (proctab t 1) = 20" "prprio (proctab t 0) = 0"
    using G(1) krun_facts(18,19) by (simp_all add: with_proc_def)
  have c1: "currpid t = 1"
  proof (rule ccontr)
    assume n: "currpid t \<noteq> 1"
    have "pst t 1 = PR_READY" using n r(2) wf_procsD(2) [OF I(4) p2(2)] by (auto simp: runnable_def)
    then have "1 \<in> set (readyq t)" using placedD [OF I(3) p2(2)] by simp
    moreover have "currpid t = 0 \<or> currpid t = 2" using n c(1) fr [OF wf_procsD(1) [OF I(4)]] by auto
    ultimately show False using c(2) pr by (auto simp: top_prio_def)
  qed
  have kt: "kinv t" by (rule kinv_same_sems [OF ks(1) T(2) c(1)]) (use F(5,7,17) kinvD(3) [OF ks(1)] in simp_all)
  have "pst t 2 = PR_READY" using r(1) wf_procsD(2) [OF I(4) p2(1)] c1 by (auto simp: runnable_def)
  then show "kinv kpair" "sync kpair" "top_prio kpair" "currpid kpair = 1" "pst kpair 2 = PR_READY" "prprio (proctab kpair 2) = 10"
    "\<And>p. p \<in> pids \<Longrightarrow> p \<noteq> 0 \<Longrightarrow> p \<noteq> 1 \<Longrightarrow> p \<noteq> 2 \<Longrightarrow> pst kpair p = PR_FREE" "pst kpair 1 = PR_CURR"
    unfolding t using kt T(4) sy c c1 pr(1) fr by simp_all
qed

text \<open>
  C20. \<^verbatim>\<open>suspend\<close> then \<^verbatim>\<open>resume\<close> of a ready process: the first takes it off the ready list and
  returns its priority, a second \<^verbatim>\<open>suspend\<close> is refused, and \<^verbatim>\<open>resume\<close> makes it ready to run
  again with the same priority, the current process still being one of highest priority.
\<close>

theorem suspend_resume_roundtrip:
  assumes k: "kinv s" "sync s" "top_prio s" and p: "p \<in> pids" "p \<noteq> NULLPROC" "pst s p = PR_READY"
  shows "\<exists>t u. suspend p s = Some (Ret (prprio (proctab s p)), t) \<and> kinv t \<and> pst t p = PR_SUSP \<and> currpid t = currpid s \<and>
    suspend p t = Some (Ret SYSERR, t) \<and> resume p t = Some (prprio (proctab t p), u) \<and>
    kinv u \<and> sync u \<and> top_prio u \<and> runnable (pst u p) \<and> prprio (proctab u p) = prprio (proctab t p)"
proof -
  have c: "p \<noteq> currpid s" using kinvD(2) [OF k(1)] p(3) by auto
  have nb: "\<not> isbadpid s p" using p by (simp add: pids_notbad)
  obtain t where T: "suspend p s = Some (Ret (prprio (proctab s p)), t)" "kinv t" "sync t" "top_prio t" "pst t p = PR_SUSP" "currpid t = currpid s"
    using suspend_ok [OF k(1), of p] k(2,3) nb p c by (auto simp: runnable_def)
  have nb': "\<not> isbadpid t p" using p T(5) by (simp add: pids_notbad)
  obtain u where U: "resume p t = Some (prprio (proctab t p), u)" "kinv u" "sync u" "top_prio u" "runnable (pst u p)" "sched_frame {p} t u"
    using resume_ok [OF T(2), of p] nb' T by auto
  have "suspend p t = Some (Ret SYSERR, t)" using nb' p(2) T(5) by (simp add: suspend_def)
  then show ?thesis using T U sched_frame_proc(1) [OF U(6)] by auto
qed

theorem suspend_resume_roundtrip_witness:
  "\<exists>t u. suspend 2 kpair = Some (Ret 10, t) \<and> pst t 2 = PR_SUSP \<and> resume 2 t = Some (prprio (proctab t 2), u) \<and> kinv u \<and> top_prio u"
  using suspend_resume_roundtrip [OF kpair_facts(1-3), of 2] kpair_facts(5,6) by (auto simp: size_defs NULLPROC_def)

text \<open>
  \<^verbatim>\<open>chprio\<close> of a ready process changes its priority but not its place: the ready list and
  its keys stay as they were, so a scheduler that runs next picks by the old priority.
\<close>

theorem chprio_keeps_place:
  assumes k: "kinv s" and p: "p \<in> pids" "pst s p = PR_READY" and n: "newprio \<noteq> prprio (proctab s p)" "- 0x8000 \<le> newprio" "newprio < 0x8000"
    and sy: "sync s"
  shows "case chprio p newprio s of (old, t) \<Rightarrow> old = prprio (proctab s p) \<and> getprio p t = newprio \<and> kinv t \<and>
    readyq t = readyq s \<and> queuetab t = queuetab s \<and> \<not> sync t"
proof -
  let ?f = "\<lambda>e. e\<lparr>prprio := newprio\<rparr>"
  let ?t = "upd_proc p ?f s"
  have nb: "\<not> isbadpid s p" using p by (simp add: pids_notbad)
  have c: "chprio p newprio s = (prprio (proctab s p), ?t)" using nb by (simp add: chprio_def Let_def)
  note W = kinv_butD(4) [OF kinvD(1) [OF k]]
  have pc: "p \<noteq> currpid s" using kinvD(2) [OF k] p(2) by auto
  have h: "home ?t p = home s p" by (rule home_cong) simp_all
  have kt: "kinv ?t" "qview ?t = qview s"
    using kinv_upd_proc [OF k h] pc p(1,2) n(2,3) wf_procsD(5) [OF W] by simp_all
  have "p \<in> set (readyq s)" using placedD [OF kinv_butD(3) [OF kinvD(1) [OF k]] p(1)] p(2) by simp
  then have "\<not> sync ?t" using sy kt(2) n(1) by (auto simp: sync_def)
  moreover have "getprio p ?t = newprio" using nb by (simp add: getprio_def isbadpid_def)
  ultimately show ?thesis using c kt by simp
qed

theorem chprio_keeps_place_witness:
  "case chprio 2 50 kpair of (old, t) \<Rightarrow> old = 10 \<and> getprio 2 t = 50 \<and> kinv t \<and> readyq t = readyq kpair \<and> \<not> sync t"
  using chprio_keeps_place [OF kpair_facts(1), of 2 50] kpair_facts(2,5,6) by (auto simp: size_defs)

text \<open>
  \<open>kpair\<close> with stacks for its two processes at the top of a heap whose lower half is free.
\<close>

definition kstacks :: kstate where
  "kstacks = upd_proc 2 (\<lambda>e. e\<lparr>prstkbase := 0x2FFFC, prstklen := 4096\<rparr>)
    (upd_proc 1 (\<lambda>e. e\<lparr>prstkbase := 0x24FFC, prstklen := 4096\<rparr>)
      (kpair\<lparr>prcount := 3, kmem := (meminit 0x10000 0x20000 mem_zero)\<lparr>maxheap := 0x30000\<rparr>\<rparr>))"

lemma kstacks_facts: "kinv kstacks" "stacks_ok kstacks [(0x10000, 0x10000)]" "live kstacks = {1, 2}"
proof -
  let ?s = "kpair\<lparr>prcount := 3, kmem := (meminit 0x10000 0x20000 mem_zero)\<lparr>maxheap := 0x30000\<rparr>\<rparr>"
  let ?s1 = "upd_proc 1 (\<lambda>e. e\<lparr>prstkbase := 0x24FFC, prstklen := 4096\<rparr>) ?s"
  have p: "(1::int) \<in> pids" "(2::int) \<in> pids" by (simp_all add: size_defs)
  have "kinv ?s" using kinv_upd_cong(1) [OF kpair_facts(1), of ?s] by simp
  then have "kinv ?s1" using kinv_msg(1) [OF _ p(1), of ?s "\<lambda>e. e\<lparr>prstkbase := 0x24FFC, prstklen := 4096\<rparr>"] by simp
  then show "kinv kstacks" using kinv_msg(1) [OF _ p(2), of ?s1 "\<lambda>e. e\<lparr>prstkbase := 0x2FFFC, prstklen := 4096\<rparr>"]
    by (simp add: kstacks_def)
  have "q \<in> live kstacks \<longleftrightarrow> q = 1 \<or> q = 2" for q
    using kpair_facts(5,7,8) p by (cases "q = 1"; cases "q = 2") (auto simp: live_def kstacks_def NULLPROC_def)
  then show l: "live kstacks = {1, 2}" by auto
  have h: "heap_ok (kmem kstacks) [(0x10000, 0x10000)]"
    using meminit_ok [of "0x10000" "0x20000" mem_zero] by (simp add: kstacks_def heap_ok_def mabs_def meminit_def Let_def)
  have e: "prstkbase (proctab kstacks 1) = 0x24FFC" "prstklen (proctab kstacks 1) = 4096" "prstkbase (proctab kstacks 2) = 0x2FFFC"
      "prstklen (proctab kstacks 2) = 4096" "minheap (kmem kstacks) = 0x10000" "maxheap (kmem kstacks) = 0x30000"
    by (simp_all add: kstacks_def meminit_def Let_def)
  have r: "stk_region (proctab kstacks 1) = {0x24000..<0x25000}" "stk_region (proctab kstacks 2) = {0x2F000..<0x30000}"
      "free_bytes [(0x10000, 0x10000)] = {0x10000..<0x20000}"
    by (simp_all add: stk_region_def e reqsize_def extent_def)
  have d: "{0x24000..<0x25000} \<inter> {0x2F000..<0x30000} = ({} :: nat set)" "{0x24000..<0x25000} \<inter> {0x10000..<0x20000} = ({} :: nat set)"
      "{0x2F000..<0x30000} \<inter> {0x10000..<0x20000} = ({} :: nat set)" "{0x2F000..<0x30000} \<inter> {0x24000..<0x25000} = ({} :: nat set)"
    by (simp_all only: Int_atLeastLessThan) simp_all
  have "stack_ok kstacks [(0x10000, 0x10000)] 1" "stack_ok kstacks [(0x10000, 0x10000)] 2"
    unfolding stack_ok_def Let_def r d by (simp_all add: e reqsize_def)
  then show "stacks_ok kstacks [(0x10000, 0x10000)]"
    using h unfolding stacks_ok_def l by (simp add: r d)
qed

end
