(* ===== verification/Kernel_Frame.thy ===== *)
theory Kernel_Frame
  imports Process
begin

text \<open>
  What the kernel's calls leave alone, whatever state they start in: the heap, the stacks,
  the table cursors. Proved once from the definitions, for the components built on top of
  the calls and for the system as a whole.
\<close>

definition kframe :: "kstate \<Rightarrow> kstate \<Rightarrow> bool" where
  "kframe s t \<longleftrightarrow> nextsem t = nextsem s \<and> nextpid t = nextpid s \<and> kmem t = kmem s \<and> stkmem t = stkmem s \<and> prcount t = prcount s \<and>
    (\<forall>p. prstkbase (proctab t p) = prstkbase (proctab s p) \<and> prstklen (proctab t p) = prstklen (proctab s p) \<and>
       prparent (proctab t p) = prparent (proctab s p))"

lemma kframe_refl [simp]: "kframe s s"
  by (simp add: kframe_def)

lemma kframe_trans: "kframe s t \<Longrightarrow> kframe t u \<Longrightarrow> kframe s u"
  by (simp add: kframe_def)

lemma kframe_upd_sem: "kframe s (upd_sem i f s)"
  by (simp add: kframe_def)

lemma kframe_set_prstate: "kframe s (set_prstate p st s)"
  by (simp add: kframe_def)

lemma kframe_dequeue: "kframe s (snd (dequeue q s))" "kframe s (snd (getfirst q s))" "kframe s (snd (getitem p s))" "kframe s (snd (enqueue p q s))"
  by (simp_all add: kframe_def dequeue_def getfirst_def getitem_def enqueue_def Let_def case_prod_beta)

lemma kframe_insert_q: "insert_q p q k s = Some (r, t) \<Longrightarrow> kframe s t"
  by (auto simp: kframe_def insert_q_def Let_def split: if_splits Option.bind_splits)

lemma kframe_insertd: "insertd p q k s = Some (r, t) \<Longrightarrow> kframe s t"
  by (auto simp: kframe_def insertd_def Let_def split: if_splits Option.bind_splits)

lemma kframe_resched: "resched s = Some t \<Longrightarrow> kframe s t"
proof -
  assume r: "resched s = Some t"
  have fin: "kframe u (set_prstate new PR_CURR (u'\<lparr>currpid := new\<rparr>)\<lparr>preempt := QUANTUM\<rparr>)" if "dequeue (readylist u) u = (new, u')" for u new u'
    using kframe_dequeue(1) [of u "readylist u"] that by (simp add: kframe_def)
  have ins: "kframe s u" if "insert_q p q k (set_prstate p' st s) = Some (r', u)" for u p q k p' st r'
    using kframe_insert_q [OF that] by (simp add: kframe_def)
  show ?thesis
    using r fin ins unfolding resched_def Let_def
    by (auto split: if_splits Option.bind_splits prod.splits) (simp add: kframe_def, metis kframe_trans)
qed

lemma kframe_ready: "ready p s = Some (r, t) \<Longrightarrow> kframe s t"
proof -
  assume r: "ready p s = Some (r, t)"
  have "kframe s u" if "insert_q p' q k (set_prstate p PR_READY s) = Some (r', u)" for u p' q k r'
    using kframe_insert_q [OF that] by (simp add: kframe_def)
  then show ?thesis using r unfolding ready_def Let_def
    by (auto split: if_splits Option.bind_splits dest!: kframe_resched) (metis kframe_trans)
qed

lemma kframe_resched_cntl: "resched_cntl d s = Some (r, t) \<Longrightarrow> kframe s t"
proof -
  assume r: "resched_cntl d s = Some (r, t)"
  have "kframe s u" if "resched (s\<lparr>ndefers := n\<rparr>) = Some u" for u n
    using kframe_resched [OF that] by (simp add: kframe_def)
  then show ?thesis using r unfolding resched_cntl_def Let_def
    by (auto split: if_splits Option.bind_splits simp: kframe_def)
qed

lemma kframe_wait: "wait_sem i s = Some (r, t) \<Longrightarrow> kframe s t"
proof -
  assume w: "wait_sem i s = Some (r, t)"
  have "kframe s u" if "resched (snd (enqueue p q (upd_proc p' (\<lambda>e. e\<lparr>prstate := PR_WAIT, prsem := i\<rparr>) (upd_sem i f s)))) = Some u" for u p q p' f
    using kframe_resched [OF that] kframe_dequeue(4) [where p = p and q = q] by (simp add: kframe_def)
  then show ?thesis using w unfolding wait_sem_def Let_def
    by (auto split: if_splits Option.bind_splits simp: case_prod_beta kframe_upd_sem)
qed

lemma kframe_signal: "signal i s = Some (r, t) \<Longrightarrow> kframe s t"
proof -
  assume w: "signal i s = Some (r, t)"
  have "kframe s u" if "ready p (snd (dequeue q (upd_sem i f s))) = Some (r', u)" for u p q f r'
    using kframe_ready [OF that] kframe_dequeue(1) [of "upd_sem i f s" q] by (simp add: kframe_def)
  then show ?thesis using w unfolding signal_def Let_def
    by (auto split: if_splits Option.bind_splits simp: case_prod_beta kframe_upd_sem)
qed

end
