(* ===== verification/Sem_Tokens.thy ===== *)
theory Sem_Tokens
  imports Kernel_Frame
begin

text \<open>
  Accounting for a semaphore that guards a resource. Code that waits for a unit of a resource
  and then takes it is not atomic: a woken process holds a unit it has not taken yet. Its
  tokens count the units that may still be taken; \<^verbatim>\<open>wait\<close>, \<^verbatim>\<open>signal\<close> and \<^verbatim>\<open>semcreate\<close> are
  restated in terms of them for the components that use semaphores in this way.
\<close>

text \<open>
  The tokens of a semaphore: its count when positive, and the processes of \<open>A\<close>, those that
  have called \<^verbatim>\<open>wait\<close> on it and not yet gone on, that have been woken.
\<close>

definition tokens :: "kstate \<Rightarrow> sid32 \<Rightarrow> pid32 set \<Rightarrow> int" where
  "tokens k i A = max 0 (scount (semtab k i)) + int (card (A - set (waiters k i)))"

lemma sem_frame_other:
  assumes "sem_frame i k k'" and "kinv k" and "i \<in> sems" "j \<in> sems" "j \<noteq> i"
  shows "semtab k' j = semtab k j" "waiters k' j = waiters k j" "tokens k' j A = tokens k j A"
proof -
  note W = wf_idsD [OF kinv_butD(2) [OF kinvD(1) [OF assms(2)]]]
  show st: "semtab k' j = semtab k j" using assms(1,5) by (simp add: sem_frame_def)
  have "semq k j \<noteq> semq k i" "semq k j \<noteq> readylist k" using W(6,8) assms(3-5) by auto
  then show "waiters k' j = waiters k j" using assms(1) by (simp add: sem_frame_def)
  then show "tokens k' j A = tokens k j A" using st by (simp add: tokens_def)
qed

lemma tok_wait:
  assumes k: "kinv k" and i: "i \<in> sems" "sstate (semtab k i) = S_USED" and c: "currpid k \<noteq> NULLPROC" "currpid k \<notin> A"
  obtains (passes) k' where "wait_sem i k = Some (OK, k')" "kinv k'" "sem_frame i k k'" "sstate (semtab k' i) = S_USED" "currpid k' = currpid k"
      "waiters k' i = waiters k i" "tokens k' i A = tokens k i A - 1"
  | (blocks) k' where "wait_sem i k = Some (OK, k')" "kinv k'" "sem_frame i k k'" "sstate (semtab k' i) = S_USED" "currpid k' \<noteq> currpid k"
      "waiters k' i = waiters k i @ [currpid k]" "tokens k' i (insert (currpid k) A) = tokens k i A"
proof (cases "0 < scount (semtab k i)")
  case True
  note W = wait_passes [OF k i True]
  show thesis by (rule passes [OF W(1-3)]) (use W(4) True i in \<open>simp_all add: tokens_def\<close>)
next
  case False
  then have c0: "scount (semtab k i) \<le> 0" by simp
  obtain t where T: "wait_sem i k = Some (OK, t)" "kinv t" "waiters t i = waiters k i @ [currpid k]"
    "pst t (currpid k) = PR_WAIT" "currpid t = hd (readyq k)" "scount (semtab t i) = scount (semtab k i) - 1"
    "sem_frame i k t" "sstate (semtab t i) = S_USED"
    by (rule wait_blocks [OF k i c0 c(1)]) (use that in auto)
  have "currpid t \<noteq> currpid k" using kinvD(2) [OF T(2)] T(4) by auto
  moreover have "insert (currpid k) A - set (waiters t i) = A - set (waiters k i)" using T(3) c(2) by auto
  ultimately show thesis using blocks [OF T(1,2,7,8)] T(3,6) False by (simp add: tokens_def)
qed

lemma tok_signal:
  assumes k: "kinv k" and i: "i \<in> sems" "sstate (semtab k i) = S_USED" and A: "finite A" "set (waiters k i) \<subseteq> A"
  obtains k' where "signal i k = Some (OK, k')" "kinv k'" "sem_frame i k k'" "sstate (semtab k' i) = S_USED"
    "set (waiters k' i) \<subseteq> set (waiters k i)" "tokens k' i A = tokens k i A + 1"
proof (cases "scount (semtab k i) < 0")
  case True
  obtain t where T: "signal i k = Some (OK, t)" "kinv t" "waiters t i = tl (waiters k i)" "runnable (pst t (hd (waiters k i)))"
    "scount (semtab t i) = scount (semtab k i) + 1" "sem_frame i k t" "waiters k i \<noteq> []"
    "sstate (semtab t i) = S_USED"
    by (rule signal_wakes [OF k i True]) (rule that; assumption)
  obtain x xs where w: "waiters k i = x # xs" using T(7) by (cases "waiters k i") auto
  have x: "x \<notin> set xs" using qview_distinct [OF kinv_butD(1) [OF kinvD(1) [OF k]], of "semq k i"] w by simp
  have e: "A - set xs = insert x (A - set (x # xs))" using A(2) w x by auto
  have "card (A - set xs) = Suc (card (A - set (x # xs)))"
    unfolding e by (rule card_insert_disjoint) (use A(1) in simp_all)
  then have "tokens t i A = tokens k i A + 1" using T(3,5) w True by (simp add: tokens_def)
  moreover have "set (waiters t i) \<subseteq> set (waiters k i)" using T(3) w by auto
  ultimately show thesis using that [OF T(1,2,6,8)] by blast
next
  case False
  note S = signal_counts [OF k i] and B = bump_facts [OF kinvD(1) [OF k], of i]
  show thesis by (rule that [OF S]) (use False B i in \<open>simp_all add: tokens_def\<close>)
qed

lemma tokens_leave:
  assumes "c \<in> A" "finite A" "c \<notin> set (waiters k i)"
  shows "tokens k i (A - {c}) = tokens k i A - 1"
proof -
  have e: "A - {c} - set (waiters k i) = (A - set (waiters k i)) - {c}" by blast
  have "c \<in> A - set (waiters k i)" "finite (A - set (waiters k i))" using assms by auto
  then have "int (card ((A - set (waiters k i)) - {c})) = int (card (A - set (waiters k i))) - 1"
    using card_Diff_singleton card_gt_0_iff by (metis One_nat_def Suc_leI empty_iff int_ops(2) of_nat_diff)
  then show ?thesis unfolding tokens_def e by simp
qed

lemma semcreate_fresh:
  assumes k: "kinv k" "nextsem k \<in> sems" and n: "0 \<le> n" and c: "semcreate n k = (i, k')" "i \<noteq> SYSERR"
  shows "kinv k'" "nextsem k' \<in> sems" "i \<in> sems" "sstate (semtab k i) = S_FREE" "sstate (semtab k' i) = S_USED" "waiters k' i = []"
    "\<And>j. j \<noteq> i \<Longrightarrow> semtab k' j = semtab k j \<and> waiters k' j = waiters k j" "tokens k' i {} = n"
proof -
  have C: "kinv k'" "nextsem k' \<in> sems" "qview k' = qview k" "i \<in> sems" "sstate (semtab k i) = S_FREE" "sem_frame i k k'"
      "semtab k' i = \<lparr>sstate = S_USED, scount = n, squeue = semq k i\<rparr>"
    using semcreate_ok [OF k n] c by (auto simp del: atLeastLessThan_iff)
  have "sem_ok k' i" using kinvD(4) [OF C(1,4)] .
  then have "length (waiters k' i) = 0" using C(7) n by (simp add: sem_ok_def)
  then show w: "waiters k' i = []" by simp
  show "kinv k'" "nextsem k' \<in> sems" "i \<in> sems" "sstate (semtab k i) = S_FREE" "sstate (semtab k' i) = S_USED" using C by simp_all
  show "semtab k' j = semtab k j \<and> waiters k' j = waiters k j" if "j \<noteq> i" for j using C(3,6) that by (simp add: sem_frame_def)
  show "tokens k' i {} = n" using C(7) n by (simp add: tokens_def)
qed

end
