(* ===== verification/Ports.thy ===== *)
theory Ports
  imports Sem_Tokens
begin

text \<open>
  Ports (\<^verbatim>\<open>system/pt*.c\<close>, \<^verbatim>\<open>include/ports.h\<close>): bounded queues of one-word messages, each
  guarded by a semaphore for senders and one for receivers. The message nodes live in one
  array taken from the heap at start-up and are linked either into the free list or into
  one port's list.

  \<^verbatim>\<open>wait\<close>, \<^verbatim>\<open>signal\<close>, \<^verbatim>\<open>semreset\<close> and \<^verbatim>\<open>semdelete\<close> may hand the processor to another process.
  Where code follows such a call, the rest is an operation of its own (\<open>ptsend_cont\<close>,
  \<open>ptrecv_cont\<close>, \<open>ptclear_recv\<close>, \<open>ptclear_end\<close>), run when the process runs again. The function
  that disposes of messages is the caller's.
\<close>

section \<open>State\<close>

definition NPORTS :: int where "NPORTS = 30"

datatype ptstat = PT_FREE | PT_LIMBO | PT_ALLOC

record ptnode =
  ptmsg :: umsg32
  ptnext :: uint32

record ptentry =
  ptssem :: sid32
  ptrsem :: sid32
  ptstate :: ptstat
  ptmaxcnt :: int
  ptseq :: int
  pthead :: uint32
  pttail :: uint32

record portsys =
  pk :: kstate
  porttab :: "int \<Rightarrow> ptentry"
  ptfree :: uint32
  ptnextid :: int
  ptnodes :: "uint32 \<Rightarrow> ptnode"

definition isbadport :: "int \<Rightarrow> bool" where
  "isbadport portid \<longleftrightarrow> portid < 0 \<or> portid \<ge> NPORTS"

abbreviation upd_port :: "int \<Rightarrow> (ptentry \<Rightarrow> ptentry) \<Rightarrow> portsys \<Rightarrow> portsys" where
  "upd_port p f s \<equiv> s\<lparr>porttab := (porttab s)(p := f (porttab s p))\<rparr>"

abbreviation upd_node :: "uint32 \<Rightarrow> (ptnode \<Rightarrow> ptnode) \<Rightarrow> portsys \<Rightarrow> portsys" where
  "upd_node a f s \<equiv> s\<lparr>ptnodes := (ptnodes s)(a := f (ptnodes s a))\<rparr>"

section \<open>The operations\<close>

text \<open>\<^verbatim>\<open>for (curr=next=ptfree; --maxmsgs > 0; curr=next) curr->ptnext = ++next;\<close>\<close>

primrec ptinit_loop :: "nat \<Rightarrow> uint32 \<Rightarrow> portsys \<Rightarrow> uint32 \<times> portsys" where
  "ptinit_loop 0 cur s = (cur, s)"
| "ptinit_loop (Suc n) cur s = ptinit_loop n (cur + 8) (upd_node cur (\<lambda>e. e\<lparr>ptnext := cur + 8\<rparr>) s)"

definition ptinit_table :: "(int \<Rightarrow> ptentry) \<Rightarrow> int \<Rightarrow> ptentry" where
  "ptinit_table tab i = (if 0 \<le> i \<and> i < NPORTS then (tab i)\<lparr>ptstate := PT_FREE, ptseq := 0\<rparr> else tab i)"

definition ptinit :: "int \<Rightarrow> portsys \<Rightarrow> (int \<times> portsys) option" where
  "ptinit maxmsgs s = do {
     (a, m) \<leftarrow> getmem (word_of_int maxmsgs * 8) (kmem (pk s));
     let s1 = s\<lparr>pk := (pk s)\<lparr>kmem := m\<rparr>, ptfree := a\<rparr>;
     if a = SYSERR_PTR then None
     else
       let s2 = s1\<lparr>porttab := ptinit_table (porttab s1), ptnextid := 0\<rparr>;
           (cur, s3) = ptinit_loop (nat (maxmsgs - 1)) (ptfree s2) s2
       in Some (OK, upd_node cur (\<lambda>e. e\<lparr>ptnext := 0\<rparr>) s3) }"

primrec ptcreate_loop :: "nat \<Rightarrow> int \<Rightarrow> portsys \<Rightarrow> int \<times> portsys" where
  "ptcreate_loop 0 count s = (SYSERR, s)"
| "ptcreate_loop (Suc n) count s =
    (let ptnum = ptnextid s;
         s1 = s\<lparr>ptnextid := (if ptnextid s + 1 \<ge> NPORTS then 0 else ptnextid s + 1)\<rparr>
     in if ptstate (porttab s1 ptnum) = PT_FREE then
          let s2 = upd_port ptnum (\<lambda>e. e\<lparr>ptstate := PT_ALLOC\<rparr>) s1;
              (ss, k1) = semcreate count (pk s2);
              (rs, k2) = semcreate 0 k1
          in (ptnum, upd_port ptnum (\<lambda>e. e\<lparr>ptssem := ss, ptrsem := rs, pthead := 0, pttail := 0,
                ptseq := ptseq e + 1, ptmaxcnt := count mod 65536\<rparr>) (s2\<lparr>pk := k2\<rparr>))
        else ptcreate_loop n count s1)"

definition ptcreate :: "int \<Rightarrow> portsys \<Rightarrow> int \<times> portsys" where
  "ptcreate count s = (if count < 0 then (SYSERR, s) else ptcreate_loop (nat NPORTS) count s)"

definition ptsend_cont :: "int \<Rightarrow> int \<Rightarrow> umsg32 \<Rightarrow> int \<Rightarrow> portsys \<Rightarrow> (int \<times> portsys) option" where
  "ptsend_cont portid seq msg r s =
    (if r = SYSERR \<or> ptstate (porttab s portid) \<noteq> PT_ALLOC \<or> ptseq (porttab s portid) \<noteq> seq then Some (SYSERR, s)
     else if ptfree s = 0 then None
     else
       let msgnode = ptfree s;
           s1 = s\<lparr>ptfree := ptnext (ptnodes s msgnode)\<rparr>;
           s2 = upd_node msgnode (\<lambda>e. e\<lparr>ptnext := 0, ptmsg := msg\<rparr>) s1;
           tailnode = pttail (porttab s2 portid);
           s3 = (if tailnode = 0 then upd_port portid (\<lambda>e. e\<lparr>pttail := msgnode, pthead := msgnode\<rparr>) s2
                 else upd_port portid (\<lambda>e. e\<lparr>pttail := msgnode\<rparr>) (upd_node tailnode (\<lambda>e. e\<lparr>ptnext := msgnode\<rparr>) s2))
       in do { (_, k) \<leftarrow> signal (ptrsem (porttab s3 portid)) (pk s3); Some (OK, s3\<lparr>pk := k\<rparr>) })"

definition ptsend :: "int \<Rightarrow> umsg32 \<Rightarrow> portsys \<Rightarrow> (int call \<times> portsys) option" where
  "ptsend portid msg s =
    (if isbadport portid \<or> ptstate (porttab s portid) \<noteq> PT_ALLOC then Some (Ret SYSERR, s)
     else
       let seq = ptseq (porttab s portid) in do {
         (r, k) \<leftarrow> wait_sem (ptssem (porttab s portid)) (pk s);
         if currpid k \<noteq> currpid (pk s) then Some (Blocked, s\<lparr>pk := k\<rparr>)
         else do { (r', s1) \<leftarrow> ptsend_cont portid seq msg r (s\<lparr>pk := k\<rparr>); Some (Ret r', s1) } })"

definition ptrecv_cont :: "int \<Rightarrow> int \<Rightarrow> int \<Rightarrow> portsys \<Rightarrow> (umsg32 \<times> portsys) option" where
  "ptrecv_cont portid seq r s =
    (if r = SYSERR \<or> ptstate (porttab s portid) \<noteq> PT_ALLOC \<or> ptseq (porttab s portid) \<noteq> seq then Some (word_of_int SYSERR, s)
     else
       let e = porttab s portid;
           msgnode = pthead e;
           msg = ptmsg (ptnodes s msgnode);
           s1 = (if pthead e = pttail e then upd_port portid (\<lambda>e. e\<lparr>pthead := 0, pttail := 0\<rparr>) s
                 else upd_port portid (\<lambda>e. e\<lparr>pthead := ptnext (ptnodes s msgnode)\<rparr>) s);
           s2 = upd_node msgnode (\<lambda>e. e\<lparr>ptnext := ptfree s1\<rparr>) s1;
           s3 = s2\<lparr>ptfree := msgnode\<rparr>
       in do { (_, k) \<leftarrow> signal (ptssem (porttab s3 portid)) (pk s3); Some (msg, s3\<lparr>pk := k\<rparr>) })"

definition ptrecv :: "int \<Rightarrow> portsys \<Rightarrow> (umsg32 call \<times> portsys) option" where
  "ptrecv portid s =
    (if isbadport portid \<or> ptstate (porttab s portid) \<noteq> PT_ALLOC then Some (Ret (word_of_int SYSERR), s)
     else
       let seq = ptseq (porttab s portid) in do {
         (r, k) \<leftarrow> wait_sem (ptrsem (porttab s portid)) (pk s);
         if currpid k \<noteq> currpid (pk s) then Some (Blocked, s\<lparr>pk := k\<rparr>)
         else do { (msg, s1) \<leftarrow> ptrecv_cont portid seq r (s\<lparr>pk := k\<rparr>); Some (Ret msg, s1) } })"

definition ptcount :: "int \<Rightarrow> portsys \<Rightarrow> int" where
  "ptcount portid s =
    (if isbadport portid \<or> ptstate (porttab s portid) \<noteq> PT_ALLOC then SYSERR
     else
       let count = semcount (ptrsem (porttab s portid)) (pk s) in
       if count \<ge> 0 then
         let sndcnt = semcount (ptssem (porttab s portid)) (pk s)
         in if sndcnt < 0 then count + - sndcnt else count
       else count)"

partial_function (option) ptclear_walk :: "(umsg32 \<Rightarrow> portsys \<Rightarrow> portsys) \<Rightarrow> uint32 \<Rightarrow> portsys \<Rightarrow> portsys option" where
  "ptclear_walk dispose walk s =
    (if walk \<noteq> 0 then
       let s1 = dispose (ptmsg (ptnodes s walk)) s in ptclear_walk dispose (ptnext (ptnodes s1 walk)) s1
     else Some s)"

definition ptclear_end :: "int \<Rightarrow> ptstat \<Rightarrow> portsys \<Rightarrow> portsys" where
  "ptclear_end portid newstate s = upd_port portid (\<lambda>e. e\<lparr>ptstate := newstate\<rparr>) s"

definition ptclear_recv :: "int \<Rightarrow> ptstat \<Rightarrow> portsys \<Rightarrow> (unit call \<times> portsys) option" where
  "ptclear_recv portid newstate s =
    (let e = porttab s portid in do {
       (_, k) \<leftarrow> (if newstate = PT_ALLOC then semreset (ptrsem e) 0 (pk s) else semdelete (ptrsem e) (pk s));
       if currpid k \<noteq> currpid (pk s) then Some (Blocked, s\<lparr>pk := k\<rparr>)
       else Some (Ret (), ptclear_end portid newstate (s\<lparr>pk := k\<rparr>)) })"

definition ptclear :: "int \<Rightarrow> ptstat \<Rightarrow> (umsg32 \<Rightarrow> portsys \<Rightarrow> portsys) \<Rightarrow> portsys \<Rightarrow> (unit call \<times> portsys) option" where
  "ptclear portid newstate dispose s = do {
     let s1 = upd_port portid (\<lambda>e. e\<lparr>ptstate := PT_LIMBO, ptseq := ptseq e + 1\<rparr>) s;
     let walk = pthead (porttab s1 portid);
     s3 \<leftarrow> (if walk \<noteq> 0 then do {
              s2 \<leftarrow> ptclear_walk dispose walk s1;
              let s2' = upd_node (pttail (porttab s2 portid)) (\<lambda>e. e\<lparr>ptnext := ptfree s2\<rparr>) s2;
              Some (s2'\<lparr>ptfree := pthead (porttab s2' portid)\<rparr>) }
            else Some s1);
     let s4 = (if newstate = PT_ALLOC then upd_port portid (\<lambda>e. e\<lparr>pttail := 0, pthead := 0\<rparr>) s3 else s3);
     let e = porttab s4 portid;
     (_, k) \<leftarrow> (if newstate = PT_ALLOC then semreset (ptssem e) (ptmaxcnt e) (pk s4) else semdelete (ptssem e) (pk s4));
     if currpid k \<noteq> currpid (pk s4) then Some (Blocked, s4\<lparr>pk := k\<rparr>)
     else ptclear_recv portid newstate (s4\<lparr>pk := k\<rparr>) }"

definition ptreset :: "int \<Rightarrow> (umsg32 \<Rightarrow> portsys \<Rightarrow> portsys) \<Rightarrow> portsys \<Rightarrow> (int call \<times> portsys) option" where
  "ptreset portid disp s =
    (if isbadport portid \<or> ptstate (porttab s portid) \<noteq> PT_ALLOC then Some (Ret SYSERR, s)
     else do {
       (r, s1) \<leftarrow> ptclear portid PT_ALLOC disp s;
       Some (case r of Ret _ \<Rightarrow> Ret OK | Blocked \<Rightarrow> Blocked, s1) })"

definition ptdelete :: "int \<Rightarrow> (umsg32 \<Rightarrow> portsys \<Rightarrow> portsys) \<Rightarrow> portsys \<Rightarrow> (int call \<times> portsys) option" where
  "ptdelete portid disp s =
    (if isbadport portid \<or> ptstate (porttab s portid) \<noteq> PT_ALLOC then Some (Ret SYSERR, s)
     else do {
       (r, s1) \<leftarrow> ptclear portid PT_FREE disp s;
       Some (case r of Ret _ \<Rightarrow> (Ret OK, s1\<lparr>ptnextid := portid\<rparr>) | Blocked \<Rightarrow> (Blocked, s1)) })"

section \<open>Message lists\<close>

fun npath :: "(uint32 \<Rightarrow> ptnode) \<Rightarrow> uint32 \<Rightarrow> uint32 list \<Rightarrow> bool" where
  "npath N p [] \<longleftrightarrow> p = 0"
| "npath N p (a # as) \<longleftrightarrow> p = a \<and> a \<noteq> 0 \<and> npath N (ptnext (N a)) as"

definition lastz :: "uint32 list \<Rightarrow> uint32" where
  "lastz as = (if as = [] then 0 else last as)"

lemma npath_upd: "a \<notin> set as \<Longrightarrow> npath (N(a := e)) p as = npath N p as"
  by (induction as arbitrary: p) auto

lemma npath_cong: "(\<And>a. a \<in> set as \<Longrightarrow> ptnext (N' a) = ptnext (N a)) \<Longrightarrow> npath N' p as = npath N p as"
  by (induction as arbitrary: p) auto

lemma npath_nz: "npath N p as \<Longrightarrow> 0 \<notin> set as"
  by (induction as arbitrary: p) auto

lemma npath_snoc:
  assumes "npath N p as" "a \<noteq> 0" "a \<notin> set as" "distinct as" "ptnext (N a) = 0" "as \<noteq> []"
  shows "npath (N(last as := (N (last as))\<lparr>ptnext := a\<rparr>)) p (as @ [a])"
  using assms
proof (induction as arbitrary: p)
  case (Cons x xs)
  show ?case
  proof (cases "xs = []")
    case True
    then show ?thesis using Cons.prems by auto
  next
    case False
    then have l: "last xs \<noteq> x" using Cons.prems(4) by auto
    have "npath (N(last xs := (N (last xs))\<lparr>ptnext := a\<rparr>)) (ptnext (N x)) (xs @ [a])"
      by (rule Cons.IH) (use Cons.prems False in auto)
    then show ?thesis using Cons.prems(1) False l by (simp add: fun_upd_def)
  qed
qed simp

definition plist :: "portsys \<Rightarrow> int \<Rightarrow> uint32 list \<Rightarrow> bool" where
  "plist s p as \<longleftrightarrow> npath (ptnodes s) (pthead (porttab s p)) as \<and> pttail (porttab s p) = lastz as \<and> distinct as"

definition alloc_ports :: "portsys \<Rightarrow> int set" where
  "alloc_ports s = {p. \<not> isbadport p \<and> ptstate (porttab s p) = PT_ALLOC}"

text \<open>
  \<open>links s fl pl\<close>: \<open>fl\<close> is the free list, \<open>pl p\<close> the message list of each allocated port
  \<open>p\<close>, and no node is in two of them.
\<close>

definition links :: "portsys \<Rightarrow> uint32 list \<Rightarrow> (int \<Rightarrow> uint32 list) \<Rightarrow> bool" where
  "links s fl pl \<longleftrightarrow>
    npath (ptnodes s) (ptfree s) fl \<and> distinct fl \<and>
    (\<forall>p\<in>alloc_ports s. plist s p (pl p) \<and> set (pl p) \<inter> set fl = {} \<and>
       (\<forall>q\<in>alloc_ports s. q \<noteq> p \<longrightarrow> set (pl p) \<inter> set (pl q) = {}))"

definition pmsgs :: "portsys \<Rightarrow> uint32 list \<Rightarrow> umsg32 list" where
  "pmsgs s as = map (\<lambda>a. ptmsg (ptnodes s a)) as"

text \<open>The state just before \<^verbatim>\<open>ptsend\<close> and \<^verbatim>\<open>ptrecv\<close> signal the other side.\<close>

definition ptlink :: "int \<Rightarrow> umsg32 \<Rightarrow> portsys \<Rightarrow> portsys" where
  "ptlink portid msg s =
    (let msgnode = ptfree s;
         s1 = s\<lparr>ptfree := ptnext (ptnodes s msgnode)\<rparr>;
         s2 = upd_node msgnode (\<lambda>e. e\<lparr>ptnext := 0, ptmsg := msg\<rparr>) s1;
         tailnode = pttail (porttab s2 portid)
     in if tailnode = 0 then upd_port portid (\<lambda>e. e\<lparr>pttail := msgnode, pthead := msgnode\<rparr>) s2
        else upd_port portid (\<lambda>e. e\<lparr>pttail := msgnode\<rparr>) (upd_node tailnode (\<lambda>e. e\<lparr>ptnext := msgnode\<rparr>) s2))"

definition ptunlink :: "int \<Rightarrow> portsys \<Rightarrow> portsys" where
  "ptunlink portid s =
    (let e = porttab s portid;
         msgnode = pthead e;
         s1 = (if pthead e = pttail e then upd_port portid (\<lambda>e. e\<lparr>pthead := 0, pttail := 0\<rparr>) s
               else upd_port portid (\<lambda>e. e\<lparr>pthead := ptnext (ptnodes s msgnode)\<rparr>) s);
         s2 = upd_node msgnode (\<lambda>e. e\<lparr>ptnext := ptfree s1\<rparr>) s1
     in s2\<lparr>ptfree := msgnode\<rparr>)"

lemma ptsend_cont_link:
  "ptsend_cont p seq msg r s =
    (if r = SYSERR \<or> ptstate (porttab s p) \<noteq> PT_ALLOC \<or> ptseq (porttab s p) \<noteq> seq then Some (SYSERR, s)
     else if ptfree s = 0 then None
     else do { (_, k) \<leftarrow> signal (ptrsem (porttab s p)) (pk s); Some (OK, (ptlink p msg s)\<lparr>pk := k\<rparr>) })"
  by (simp add: ptsend_cont_def ptlink_def Let_def)

lemma ptrecv_cont_unlink:
  "ptrecv_cont p seq r s =
    (if r = SYSERR \<or> ptstate (porttab s p) \<noteq> PT_ALLOC \<or> ptseq (porttab s p) \<noteq> seq then Some (word_of_int SYSERR, s)
     else do { (_, k) \<leftarrow> signal (ptssem (porttab s p)) (pk s);
               Some (ptmsg (ptnodes s (pthead (porttab s p))), (ptunlink p s)\<lparr>pk := k\<rparr>) })"
  by (simp add: ptrecv_cont_def ptunlink_def Let_def)

lemma links_updI:
  assumes "npath (ptnodes t) (ptfree t) fl'" "distinct fl'" "plist t p as" "set as \<inter> set fl' = {}"
    and "\<And>q. q \<in> alloc_ports t \<Longrightarrow> q \<noteq> p \<Longrightarrow> plist t q (pl q) \<and> set (pl q) \<inter> set fl' = {} \<and> set (pl q) \<inter> set as = {}"
    and "\<And>q q'. q \<in> alloc_ports t \<Longrightarrow> q' \<in> alloc_ports t \<Longrightarrow> q \<noteq> q' \<Longrightarrow> q \<noteq> p \<Longrightarrow> q' \<noteq> p \<Longrightarrow> set (pl q) \<inter> set (pl q') = {}"
  shows "links t fl' (pl(p := as))"
proof -
  have "set as \<inter> set (pl q) = {}" if "q \<in> alloc_ports t" "q \<noteq> p" for q using assms(5) [OF that] by blast
  then show ?thesis unfolding links_def using assms by simp
qed

lemma ptlink_ok:
  assumes L: "links s (n # fl) pl" and p: "p \<in> alloc_ports s"
  shows "links (ptlink p msg s) fl (pl(p := pl p @ [n]))"
    "pmsgs (ptlink p msg s) (pl p @ [n]) = pmsgs s (pl p) @ [msg]"
    "q \<in> alloc_ports s \<Longrightarrow> q \<noteq> p \<Longrightarrow> pmsgs (ptlink p msg s) (pl q) = pmsgs s (pl q)"
proof -
  let ?t = "ptlink p msg s"
  let ?N = "(ptnodes s)(n := (ptnodes s n)\<lparr>ptnext := 0, ptmsg := msg\<rparr>)"
  have F: "ptfree s = n" "n \<noteq> 0" "npath (ptnodes s) (ptnext (ptnodes s n)) fl" "distinct fl" "n \<notin> set fl"
    using L by (auto simp: links_def)
  have P: "plist s q (pl q)" "set (pl q) \<inter> set (n # fl) = {}" if "q \<in> alloc_ports s" for q using L that by (auto simp: links_def)
  have D: "set (pl q) \<inter> set (pl q') = {}" if "q \<in> alloc_ports s" "q' \<in> alloc_ports s" "q \<noteq> q'" for q q' using L that by (auto simp: links_def)
  note Pp = P(1) [OF p, unfolded plist_def]
  have z: "pttail (porttab s p) = 0 \<longleftrightarrow> pl p = []" using Pp npath_nz [of "ptnodes s" "pthead (porttab s p)" "pl p"] by (auto simp: lastz_def) (metis last_in_set)
  have nn: "n \<notin> set (pl q)" if "q \<in> alloc_ports s" for q using P(2) [OF that] by auto
  have al: "alloc_ports ?t = alloc_ports s" by (auto simp: alloc_ports_def ptlink_def Let_def)
  have fr: "ptfree ?t = ptnext (ptnodes s n)" by (simp add: ptlink_def Let_def F)
  have tab: "porttab ?t q = porttab s q" if "q \<noteq> p" for q using that by (simp add: ptlink_def Let_def)
  have nd: "ptnext (ptnodes ?t a) = ptnext (ptnodes s a) \<and> ptmsg (ptnodes ?t a) = ptmsg (ptnodes s a)" if "a \<noteq> n" "a \<notin> set (pl p)" for a
    using that z Pp F(1) by (auto simp: ptlink_def Let_def lastz_def)
  have ms: "ptmsg (ptnodes ?t a) = (if a = n then msg else ptmsg (ptnodes s a))" for a
    using F(1) nn [OF p] Pp by (auto simp: ptlink_def Let_def lastz_def)
  have pp: "plist ?t p (pl p @ [n])"
  proof (cases "pl p = []")
    case True
    then show ?thesis using z F(1,2) by (simp add: plist_def ptlink_def Let_def lastz_def)
  next
    case False
    have "npath ?N (pthead (porttab s p)) (pl p)" using Pp nn [OF p] npath_upd by simp
    then have "npath (?N(last (pl p) := (?N (last (pl p)))\<lparr>ptnext := n\<rparr>)) (pthead (porttab s p)) (pl p @ [n])"
      by (rule npath_snoc) (use F(2) nn [OF p] Pp False in auto)
    moreover have "ptnodes ?t = ?N(last (pl p) := (?N (last (pl p)))\<lparr>ptnext := n\<rparr>)"
      using z False F(1) Pp by (simp add: ptlink_def Let_def lastz_def)
    ultimately show ?thesis using z False F(1) Pp nn [OF p] by (simp add: plist_def ptlink_def Let_def lastz_def)
  qed
  have qq: "plist ?t q (pl q)" if q: "q \<in> alloc_ports s" "q \<noteq> p" for q
  proof -
    have "a \<noteq> n \<and> a \<notin> set (pl p)" if "a \<in> set (pl q)" for a using nn [OF q(1)] D [OF q(1) p q(2)] that by blast
    then have "npath (ptnodes ?t) h (pl q) = npath (ptnodes s) h (pl q)" for h
      by (intro npath_cong) (use nd in blast)
    then show ?thesis using P(1) [OF q(1)] tab q(2) by (simp add: plist_def)
  qed
  have "npath (ptnodes ?t) (ptnext (ptnodes s n)) fl = npath (ptnodes s) (ptnext (ptnodes s n)) fl"
  proof (rule npath_cong)
    fix a assume "a \<in> set fl"
    then have "a \<noteq> n \<and> a \<notin> set (pl p)" using F(5) P(2) [OF p] by auto
    then show "ptnext (ptnodes ?t a) = ptnext (ptnodes s a)" using nd by blast
  qed
  then have fl: "npath (ptnodes ?t) (ptfree ?t) fl" using F(3) fr by simp
  show "links ?t fl (pl(p := pl p @ [n]))"
  proof (rule links_updI [OF fl F(4) pp], unfold al)
    show "set (pl p @ [n]) \<inter> set fl = {}" using P(2) [OF p] F(5) by auto
    show "plist ?t q (pl q) \<and> set (pl q) \<inter> set fl = {} \<and> set (pl q) \<inter> set (pl p @ [n]) = {}" if "q \<in> alloc_ports s" "q \<noteq> p" for q
      using qq [OF that] P(2) [OF that(1)] D [OF that(1) p that(2)] nn [OF that(1)] by auto
  qed (rule D)
  show "pmsgs ?t (pl p @ [n]) = pmsgs s (pl p) @ [msg]" using ms nn [OF p] by (auto simp: pmsgs_def)
  show "q \<in> alloc_ports s \<Longrightarrow> q \<noteq> p \<Longrightarrow> pmsgs ?t (pl q) = pmsgs s (pl q)" using ms nn by (auto simp: pmsgs_def)
qed

lemma ptunlink_ok:
  assumes L: "links s fl pl" and p: "p \<in> alloc_ports s" and n: "pl p = n # ns"
  shows "links (ptunlink p s) (n # fl) (pl(p := ns))" "pthead (porttab s p) = n"
    "pmsgs (ptunlink p s) as = pmsgs s as"
proof -
  let ?t = "ptunlink p s"
  have F: "npath (ptnodes s) (ptfree s) fl" "distinct fl" using L by (auto simp: links_def)
  have P: "plist s q (pl q)" "set (pl q) \<inter> set fl = {}" if "q \<in> alloc_ports s" for q using L that by (auto simp: links_def)
  have D: "set (pl q) \<inter> set (pl q') = {}" if "q \<in> alloc_ports s" "q' \<in> alloc_ports s" "q \<noteq> q'" for q q' using L that by (auto simp: links_def)
  note Pp = P(1) [OF p, unfolded plist_def n]
  have h: "pthead (porttab s p) = n" "n \<noteq> 0" "npath (ptnodes s) (ptnext (ptnodes s n)) ns" "n \<notin> set ns" "distinct ns"
    using Pp by auto
  have e: "pthead (porttab s p) = pttail (porttab s p) \<longleftrightarrow> ns = []"
    using Pp h by (auto simp: lastz_def)
  have al: "alloc_ports ?t = alloc_ports s" by (auto simp: alloc_ports_def ptunlink_def Let_def)
  have nd: "ptnodes ?t = (ptnodes s)(n := (ptnodes s n)\<lparr>ptnext := ptfree s\<rparr>)" "ptfree ?t = n"
    using h(1) by (simp_all add: ptunlink_def Let_def)
  have tab: "porttab ?t q = porttab s q" if "q \<noteq> p" for q using that by (simp add: ptunlink_def Let_def)
  have pp: "plist ?t p ns"
    using h e Pp npath_upd [of n ns "ptnodes s"] unfolding plist_def nd
    by (auto simp: ptunlink_def Let_def lastz_def)
  have nf: "n \<notin> set fl" using P(2) [OF p] n by auto
  have qq: "plist ?t q (pl q)" "n \<notin> set (pl q)" if q: "q \<in> alloc_ports s" "q \<noteq> p" for q
    using P(1) [OF q(1)] D [OF q(1) p q(2)] n npath_upd [of n "pl q" "ptnodes s"] tab [OF q(2)] unfolding plist_def nd by auto
  have "npath (ptnodes ?t) n (n # fl)" using F(1) h(2) nf npath_upd [of n fl "ptnodes s"] unfolding nd by simp
  then have fl: "npath (ptnodes ?t) (ptfree ?t) (n # fl)" "distinct (n # fl)" using nd(2) F(2) nf by simp_all
  show "links ?t (n # fl) (pl(p := ns))"
  proof (rule links_updI [OF fl pp], unfold al)
    show "set ns \<inter> set (n # fl) = {}" using P(2) [OF p] h(4) n by auto
    show "plist ?t q (pl q) \<and> set (pl q) \<inter> set (n # fl) = {} \<and> set (pl q) \<inter> set ns = {}" if "q \<in> alloc_ports s" "q \<noteq> p" for q
      using qq [OF that] P(2) [OF that(1)] D [OF that(1) p that(2)] n by auto
  qed (rule D)
  show "pthead (porttab s p) = n" by (rule h(1))
  show "pmsgs ?t as = pmsgs s as" by (simp add: pmsgs_def nd)
qed

section \<open>Balance of a port\<close>

text \<open>
  Of a port's capacity, \<open>a\<close> tokens have just been taken from its sender semaphore, and \<open>b\<close>
  from its receiver semaphore; the others are in the semaphores or are messages. \<open>S\<close> and
  \<open>R\<close> are the processes in the middle of sending and receiving.
\<close>

definition port_bal :: "kstate \<Rightarrow> ptentry \<Rightarrow> pid32 set \<Rightarrow> pid32 set \<Rightarrow> int \<Rightarrow> int \<Rightarrow> int \<Rightarrow> bool" where
  "port_bal k e S R n a b \<longleftrightarrow>
    set (waiters k (ptssem e)) \<subseteq> S \<and> set (waiters k (ptrsem e)) \<subseteq> R \<and> finite S \<and> finite R \<and>
    tokens k (ptssem e) S + a + n = ptmaxcnt e \<and> tokens k (ptrsem e) R + b = n"

definition balanced ::
  "portsys \<Rightarrow> (int \<Rightarrow> pid32 set) \<Rightarrow> (int \<Rightarrow> pid32 set) \<Rightarrow> (int \<Rightarrow> uint32 list) \<Rightarrow> int \<Rightarrow> int \<Rightarrow> int \<Rightarrow> bool" where
  "balanced s S R pl p0 a b \<longleftrightarrow>
    (\<forall>p\<in>alloc_ports s. port_bal (pk s) (porttab s p) (S p) (R p) (int (length (pl p)))
       (if p = p0 then a else 0) (if p = p0 then b else 0))"

definition port_sems :: "ptentry \<Rightarrow> sid32 set" where
  "port_sems e = {ptssem e, ptrsem e}"

definition sems_ok :: "portsys \<Rightarrow> bool" where
  "sems_ok s \<longleftrightarrow>
    (\<forall>p\<in>alloc_ports s. ptssem (porttab s p) \<noteq> ptrsem (porttab s p) \<and>
       (\<forall>i\<in>port_sems (porttab s p). i \<in> sems \<and> sstate (semtab (pk s) i) = S_USED) \<and>
       (\<forall>q\<in>alloc_ports s. q \<noteq> p \<longrightarrow> port_sems (porttab s p) \<inter> port_sems (porttab s q) = {}))"

lemma sems_okD:
  assumes "sems_ok s" and "p \<in> alloc_ports s"
  shows "ptssem (porttab s p) \<noteq> ptrsem (porttab s p)" "ptssem (porttab s p) \<in> sems" "ptrsem (porttab s p) \<in> sems"
    "sstate (semtab (pk s) (ptssem (porttab s p))) = S_USED" "sstate (semtab (pk s) (ptrsem (porttab s p))) = S_USED"
    "\<And>q. q \<in> alloc_ports s \<Longrightarrow> q \<noteq> p \<Longrightarrow> ptssem (porttab s q) \<notin> port_sems (porttab s p) \<and> ptrsem (porttab s q) \<notin> port_sems (porttab s p)"
proof -
  have e: "\<forall>i\<in>port_sems (porttab s p). i \<in> sems \<and> sstate (semtab (pk s) i) = S_USED" using assms by (simp add: sems_ok_def)
  then show "ptssem (porttab s p) \<in> sems" "ptrsem (porttab s p) \<in> sems"
    "sstate (semtab (pk s) (ptssem (porttab s p))) = S_USED" "sstate (semtab (pk s) (ptrsem (porttab s p))) = S_USED"
    by (auto simp: port_sems_def)
  show "ptssem (porttab s p) \<noteq> ptrsem (porttab s p)" using assms by (simp add: sems_ok_def)
  show "ptssem (porttab s q) \<notin> port_sems (porttab s p) \<and> ptrsem (porttab s q) \<notin> port_sems (porttab s p)"
    if "q \<in> alloc_ports s" "q \<noteq> p" for q
  proof -
    have "port_sems (porttab s p) \<inter> port_sems (porttab s q) = {}" using assms that unfolding sems_ok_def by blast
    then show ?thesis by (auto simp: port_sems_def)
  qed
qed

lemma sems_ok_kernel:
  assumes "sems_ok s" and "sem_frame i (pk s) k'" and "sstate (semtab k' i) = S_USED"
  shows "sems_ok (s\<lparr>pk := k'\<rparr>)"
proof -
  have "sstate (semtab k' j) = S_USED" if "sstate (semtab (pk s) j) = S_USED" for j
    using assms(2,3) that by (cases "j = i") (simp_all add: sem_frame_def)
  then show ?thesis using assms(1) unfolding sems_ok_def alloc_ports_def by simp
qed

lemma alloc_ports_kernel [simp]: "alloc_ports (s\<lparr>pk := k\<rparr>) = alloc_ports s"
  by (simp add: alloc_ports_def)

lemma port_bal_other:
  assumes "sem_frame i k k'" "kinv k" "i \<in> sems" "ptssem e \<in> sems" "ptrsem e \<in> sems" "i \<notin> port_sems e"
  shows "port_bal k' e S R n a b = port_bal k e S R n a b"
  using sem_frame_other [OF assms(1-3), of "ptssem e"] sem_frame_other [OF assms(1-3), of "ptrsem e"] assms(4-6)
  by (auto simp: port_bal_def port_sems_def)

text \<open>A semaphore operation on the sender side of \<open>p\<close> that moves \<open>d\<close> tokens, and on the receiver side.\<close>

lemma balanced_ssem:
  assumes k: "kinv (pk s)" and so: "sems_ok s" and p: "p \<in> alloc_ports s" and b: "balanced s S R pl p a b"
    and f: "sem_frame (ptssem (porttab s p)) (pk s) k'"
    and t: "tokens k' (ptssem (porttab s p)) A = tokens (pk s) (ptssem (porttab s p)) (S p) + d"
    and w: "set (waiters k' (ptssem (porttab s p))) \<subseteq> A" "finite A"
  shows "balanced (s\<lparr>pk := k'\<rparr>) (S(p := A)) R pl p (a - d) b"
proof -
  note O = sems_okD [OF so p]
  have "port_bal k' (porttab s q) (S q) (R q) (int (length (pl q))) 0 0" if q: "q \<in> alloc_ports s" "q \<noteq> p" for q
    using b q port_bal_other [OF f k O(2) sems_okD(2,3) [OF so q(1)]] O(6) [OF q] sems_okD(6) [OF so q(1) p] q(2)
    by (auto simp: balanced_def)
  moreover have "port_bal (pk s) (porttab s p) (S p) (R p) (int (length (pl p))) a b" using b p by (auto simp: balanced_def)
  then have "port_bal k' (porttab s p) A (R p) (int (length (pl p))) (a - d) b"
    using t w sem_frame_other [OF f k O(2,3)] O(1) by (auto simp: port_bal_def)
  ultimately show ?thesis by (auto simp: balanced_def)
qed

lemma balanced_rsem:
  assumes k: "kinv (pk s)" and so: "sems_ok s" and p: "p \<in> alloc_ports s" and b: "balanced s S R pl p a b"
    and f: "sem_frame (ptrsem (porttab s p)) (pk s) k'"
    and t: "tokens k' (ptrsem (porttab s p)) A = tokens (pk s) (ptrsem (porttab s p)) (R p) + d"
    and w: "set (waiters k' (ptrsem (porttab s p))) \<subseteq> A" "finite A"
  shows "balanced (s\<lparr>pk := k'\<rparr>) S (R(p := A)) pl p a (b - d)"
proof -
  note O = sems_okD [OF so p]
  have "port_bal k' (porttab s q) (S q) (R q) (int (length (pl q))) 0 0" if q: "q \<in> alloc_ports s" "q \<noteq> p" for q
    using b q port_bal_other [OF f k O(3) sems_okD(2,3) [OF so q(1)]] O(6) [OF q] sems_okD(6) [OF so q(1) p] q(2)
    by (auto simp: balanced_def)
  moreover have "port_bal (pk s) (porttab s p) (S p) (R p) (int (length (pl p))) a b" using b p by (auto simp: balanced_def)
  then have "port_bal k' (porttab s p) (S p) A (int (length (pl p))) a (b - d)"
    using t w sem_frame_other [OF f k O(3,2)] O(1) by (auto simp: port_bal_def)
  ultimately show ?thesis by (auto simp: balanced_def)
qed

lemma balanced_zero: "balanced s S R pl p 0 0 \<longleftrightarrow> balanced s S R pl q 0 0"
  by (simp add: balanced_def)

text \<open>What sending and receiving keep of the port table.\<close>

definition pt_frame :: "portsys \<Rightarrow> portsys \<Rightarrow> bool" where
  "pt_frame s t \<longleftrightarrow> (\<forall>p. ptssem (porttab t p) = ptssem (porttab s p) \<and> ptrsem (porttab t p) = ptrsem (porttab s p) \<and>
     ptstate (porttab t p) = ptstate (porttab s p) \<and> ptmaxcnt (porttab t p) = ptmaxcnt (porttab s p) \<and>
     ptseq (porttab t p) = ptseq (porttab s p))"

lemma pt_frame_link: "pt_frame s (ptlink p msg s)" "pk (ptlink p msg s) = pk s"
  by (auto simp: pt_frame_def ptlink_def Let_def)

lemma pt_frame_unlink: "pt_frame s (ptunlink p s)" "pk (ptunlink p s) = pk s"
  by (auto simp: pt_frame_def ptunlink_def Let_def)

lemma pt_frame_alloc: "pt_frame s t \<Longrightarrow> alloc_ports t = alloc_ports s"
  by (simp add: pt_frame_def alloc_ports_def)

lemma pt_frame_sems: "pt_frame s t \<Longrightarrow> pk t = pk s \<Longrightarrow> sems_ok t = sems_ok s"
  by (simp add: sems_ok_def pt_frame_alloc port_sems_def) (simp add: pt_frame_def)

lemma pt_frame_balanced:
  assumes "pt_frame s t" "pk t = pk s" "balanced s S R pl p a b" "int (length as) = int (length (pl p)) + d"
  shows "balanced t S R (pl(p := as)) p (a - d) (b + d)"
  using assms unfolding balanced_def pt_frame_alloc [OF assms(1)] by (auto simp: port_bal_def pt_frame_def)

lemma send_finish:
  assumes k: "kinv (pk s)" and so: "sems_ok s" and l: "links s fl pl" and p: "p \<in> alloc_ports s" and b: "balanced s S R pl p 1 0"
    and c: "ptsend_cont p (ptseq (porttab s p)) msg OK s = Some (r, t)"
  shows "r = OK \<and> kinv (pk t) \<and> sems_ok t \<and> pt_frame s t \<and> (\<exists>n fl'. fl = n # fl' \<and> links t fl' (pl(p := pl p @ [n])) \<and>
    balanced t S R (pl(p := pl p @ [n])) p 0 0 \<and> pmsgs t (pl p @ [n]) = pmsgs s (pl p) @ [msg] \<and>
    (\<forall>q\<in>alloc_ports s. q \<noteq> p \<longrightarrow> pmsgs t (pl q) = pmsgs s (pl q)))"
proof -
  have st: "ptstate (porttab s p) = PT_ALLOC" using p by (simp add: alloc_ports_def)
  obtain k' where K: "signal (ptrsem (porttab s p)) (pk s) = Some (k')" "ptfree s \<noteq> 0" "r = OK" "t = (ptlink p msg s)\<lparr>pk := snd k'\<rparr>"
    using c st unfolding ptsend_cont_link by (auto split: Option.bind_splits if_splits prod.splits)
  obtain n fl' where fl: "fl = n # fl'" using l K(2) by (cases fl) (auto simp: links_def)
  let ?u = "ptlink p msg s" and ?pl = "pl(p := pl p @ [n])"
  note F = pt_frame_link [where s = s and p = p and msg = msg] and L = ptlink_ok [OF l [unfolded fl] p, where msg = msg]
  have u: "alloc_ports ?u = alloc_ports s" "sems_ok ?u" "kinv (pk ?u)" using pt_frame_alloc F pt_frame_sems so k by auto
  have pu: "p \<in> alloc_ports ?u" using u(1) p by simp
  have bu: "balanced ?u S R ?pl p 0 1" using pt_frame_balanced [OF F b, of "pl p @ [n]" 1] by simp
  then have R: "finite (R p)" "set (waiters (pk ?u) (ptrsem (porttab ?u p))) \<subseteq> R p" using pu by (auto simp: balanced_def port_bal_def)
  note O = sems_okD [OF u(2) pu]
  have e: "ptrsem (porttab ?u p) = ptrsem (porttab s p)" using F(1) by (simp add: pt_frame_def)
  obtain k2 where S: "signal (ptrsem (porttab ?u p)) (pk ?u) = Some (OK, k2)" "kinv k2" "sem_frame (ptrsem (porttab ?u p)) (pk ?u) k2"
      "sstate (semtab k2 (ptrsem (porttab ?u p))) = S_USED" "set (waiters k2 (ptrsem (porttab ?u p))) \<subseteq> set (waiters (pk ?u) (ptrsem (porttab ?u p)))"
      "tokens k2 (ptrsem (porttab ?u p)) (R p) = tokens (pk ?u) (ptrsem (porttab ?u p)) (R p) + 1"
    by (rule tok_signal [OF u(3) O(3,5) R])
  have kk: "snd k' = k2" using S(1) K(1) e F(2) by simp
  have "balanced (?u\<lparr>pk := k2\<rparr>) S (R(p := R p)) ?pl p 0 (1 - 1)"
    by (rule balanced_rsem [OF u(3,2) pu bu S(3,6)]) (use S(5) R in auto)
  moreover have "links (?u\<lparr>pk := k2\<rparr>) fl' ?pl" using L(1) by (simp add: links_def plist_def)
  moreover have "sems_ok (?u\<lparr>pk := k2\<rparr>)" by (rule sems_ok_kernel [OF u(2) S(3,4)])
  moreover have "pmsgs (?u\<lparr>pk := k2\<rparr>) as = pmsgs ?u as" for as by (simp add: pmsgs_def)
  ultimately show ?thesis using K(3,4) kk S(2) fl F(1) L(2,3) by (simp add: pt_frame_def)
qed

lemma recv_finish:
  assumes k: "kinv (pk s)" and so: "sems_ok s" and l: "links s fl pl" and p: "p \<in> alloc_ports s" and b: "balanced s S R pl p 0 1"
  shows "\<exists>n ns t. pl p = n # ns \<and> ptrecv_cont p (ptseq (porttab s p)) OK s = Some (ptmsg (ptnodes s n), t) \<and>
    kinv (pk t) \<and> sems_ok t \<and> pt_frame s t \<and> links t (n # fl) (pl(p := ns)) \<and> balanced t S R (pl(p := ns)) p 0 0 \<and>
    (\<forall>as. pmsgs t as = pmsgs s as)"
proof -
  have st: "ptstate (porttab s p) = PT_ALLOC" using p by (simp add: alloc_ports_def)
  have "1 \<le> int (length (pl p))" using b p by (auto simp: balanced_def port_bal_def tokens_def)
  then obtain n ns where n: "pl p = n # ns" by (cases "pl p") auto
  let ?u = "ptunlink p s" and ?pl = "pl(p := ns)"
  note F = pt_frame_unlink [where s = s and p = p] and L = ptunlink_ok [OF l p n]
  have u: "alloc_ports ?u = alloc_ports s" "sems_ok ?u" "kinv (pk ?u)" using pt_frame_alloc F pt_frame_sems so k by auto
  have pu: "p \<in> alloc_ports ?u" using u(1) p by simp
  have bu: "balanced ?u S R ?pl p 1 0" using pt_frame_balanced [OF F b, of ns "- 1"] n by simp
  then have R: "finite (S p)" "set (waiters (pk ?u) (ptssem (porttab ?u p))) \<subseteq> S p" using pu by (auto simp: balanced_def port_bal_def)
  note O = sems_okD [OF u(2) pu]
  have e: "ptssem (porttab ?u p) = ptssem (porttab s p)" using F(1) by (simp add: pt_frame_def)
  obtain k2 where S: "signal (ptssem (porttab ?u p)) (pk ?u) = Some (OK, k2)" "kinv k2" "sem_frame (ptssem (porttab ?u p)) (pk ?u) k2"
      "sstate (semtab k2 (ptssem (porttab ?u p))) = S_USED" "set (waiters k2 (ptssem (porttab ?u p))) \<subseteq> set (waiters (pk ?u) (ptssem (porttab ?u p)))"
      "tokens k2 (ptssem (porttab ?u p)) (S p) = tokens (pk ?u) (ptssem (porttab ?u p)) (S p) + 1"
    by (rule tok_signal [OF u(3) O(2,4) R])
  have "balanced (?u\<lparr>pk := k2\<rparr>) (S(p := S p)) R ?pl p (1 - 1) 0"
    by (rule balanced_ssem [OF u(3,2) pu bu S(3,6)]) (use S(5) R in auto)
  moreover have "links (?u\<lparr>pk := k2\<rparr>) (n # fl) ?pl" using L(1) by (simp add: links_def plist_def)
  moreover have "sems_ok (?u\<lparr>pk := k2\<rparr>)" by (rule sems_ok_kernel [OF u(2) S(3,4)])
  moreover have "pmsgs (?u\<lparr>pk := k2\<rparr>) as = pmsgs s as" for as using L(3) by (simp add: pmsgs_def)
  moreover have "ptrecv_cont p (ptseq (porttab s p)) OK s = Some (ptmsg (ptnodes s n), ?u\<lparr>pk := k2\<rparr>)"
    using st S(1) e F(2) L(2) by (simp add: ptrecv_cont_unlink)
  ultimately show ?thesis using n S(2) F(1) by (simp add: pt_frame_def)
qed

section \<open>Processes using ports\<close>

text \<open>
  The processes that use ports, without resetting or deleting any: the kernel, the ports, and
  for each process that was switched out in the middle of \<^verbatim>\<open>ptsend\<close> or \<^verbatim>\<open>ptrecv\<close> the call it
  has to finish. A step of \<open>port_use\<close> is a call of \<^verbatim>\<open>ptsend\<close> or \<^verbatim>\<open>ptrecv\<close> by the current process (not the null
  process, which makes none), the end of such a call that it was in the middle of, a call of
  \<^verbatim>\<open>ptcreate\<close>, or anything else the kernel does that leaves the semaphores and their queues
  alone, such as a context switch. A call of \<^verbatim>\<open>ptcreate\<close> fails, or both semaphores are granted and
  the size fits the 16 bits of \<^verbatim>\<open>ptmaxcnt\<close>. Not in the relation are \<^verbatim>\<open>ptreset\<close> and \<^verbatim>\<open>ptdelete\<close>; a creation
  that gets a port but not its semaphores, which the code does not check for; and sizes from 65536 on, for which see
  \<open>ptcreate_truncates\<close>.
\<close>

datatype ptkont = KSend int int umsg32 | KRecv int int

record ptm =
  psys :: portsys
  pend :: "pid32 \<Rightarrow> ptkont option"

abbreviation pcurr :: "ptm \<Rightarrow> pid32" where "pcurr m \<equiv> currpid (pk (psys m))"

abbreviation pseq :: "ptm \<Rightarrow> int \<Rightarrow> int" where "pseq m p \<equiv> ptseq (porttab (psys m) p)"

inductive port_use :: "ptm \<Rightarrow> ptm \<Rightarrow> bool" where
  send: "pcurr m \<noteq> NULLPROC \<Longrightarrow> pend m (pcurr m) = None \<Longrightarrow> ptsend p msg (psys m) = Some (Ret r, t) \<Longrightarrow> port_use m (m\<lparr>psys := t\<rparr>)"
| send_block: "pcurr m \<noteq> NULLPROC \<Longrightarrow> pend m (pcurr m) = None \<Longrightarrow> ptsend p msg (psys m) = Some (Blocked, t) \<Longrightarrow>
    port_use m \<lparr>psys = t, pend = (pend m)(pcurr m \<mapsto> KSend p (pseq m p) msg)\<rparr>"
| send_end: "pend m (pcurr m) = Some (KSend p seq msg) \<Longrightarrow> ptsend_cont p seq msg OK (psys m) = Some (r, t) \<Longrightarrow>
    port_use m \<lparr>psys = t, pend = (pend m)(pcurr m := None)\<rparr>"
| recv: "pcurr m \<noteq> NULLPROC \<Longrightarrow> pend m (pcurr m) = None \<Longrightarrow> ptrecv p (psys m) = Some (Ret r', t) \<Longrightarrow> port_use m (m\<lparr>psys := t\<rparr>)"
| recv_block: "pcurr m \<noteq> NULLPROC \<Longrightarrow> pend m (pcurr m) = None \<Longrightarrow> ptrecv p (psys m) = Some (Blocked, t) \<Longrightarrow>
    port_use m \<lparr>psys = t, pend = (pend m)(pcurr m \<mapsto> KRecv p (pseq m p))\<rparr>"
| recv_end: "pend m (pcurr m) = Some (KRecv p seq) \<Longrightarrow> ptrecv_cont p seq OK (psys m) = Some (r', t) \<Longrightarrow>
    port_use m \<lparr>psys = t, pend = (pend m)(pcurr m := None)\<rparr>"
| create: "ptcreate count (psys m) = (p, t) \<Longrightarrow> p \<noteq> SYSERR \<Longrightarrow> count < 65536 \<Longrightarrow>
    ptssem (porttab t p) \<noteq> SYSERR \<Longrightarrow> ptrsem (porttab t p) \<noteq> SYSERR \<Longrightarrow> port_use m (m\<lparr>psys := t\<rparr>)"
| create_fail: "ptcreate count (psys m) = (SYSERR, t) \<Longrightarrow> port_use m (m\<lparr>psys := t\<rparr>)"
| switch: "kinv k \<Longrightarrow> semtab k = semtab (pk (psys m)) \<Longrightarrow> nextsem k = nextsem (pk (psys m)) \<Longrightarrow>
    (\<forall>i\<in>sems. waiters k i = waiters (pk (psys m)) i) \<Longrightarrow> port_use m (m\<lparr>psys := (psys m)\<lparr>pk := k\<rparr>\<rparr>)"

definition senders :: "ptm \<Rightarrow> int \<Rightarrow> pid32 set" where
  "senders m p = {q. \<exists>msg. pend m q = Some (KSend p (pseq m p) msg)}"

definition receivers :: "ptm \<Rightarrow> int \<Rightarrow> pid32 set" where
  "receivers m p = {q. pend m q = Some (KRecv p (pseq m p))}"

definition pend_ok :: "ptm \<Rightarrow> bool" where
  "pend_ok m \<longleftrightarrow> (\<forall>q. pend m q \<noteq> None \<longrightarrow> q \<in> pids) \<and>
    (\<forall>q p seq msg. pend m q = Some (KSend p seq msg) \<longrightarrow> \<not> isbadport p \<and> seq \<le> pseq m p) \<and>
    (\<forall>q p seq. pend m q = Some (KRecv p seq) \<longrightarrow> \<not> isbadport p \<and> seq \<le> pseq m p)"

definition ptinv :: "ptm \<Rightarrow> uint32 list \<Rightarrow> (int \<Rightarrow> uint32 list) \<Rightarrow> bool" where
  "ptinv m fl pl \<longleftrightarrow> kinv (pk (psys m)) \<and> sems_ok (psys m) \<and> links (psys m) fl pl \<and> pend_ok m \<and>
    balanced (psys m) (senders m) (receivers m) pl 0 0 0 \<and> nextsem (pk (psys m)) \<in> sems \<and>
    0 \<le> ptnextid (psys m) \<and> ptnextid (psys m) < NPORTS"

lemma finite_pending: "pend_ok m \<Longrightarrow> finite (senders m p)" "pend_ok m \<Longrightarrow> finite (receivers m p)"
proof -
  assume "pend_ok m"
  then have "senders m p \<subseteq> pids" "receivers m p \<subseteq> pids" by (auto simp: pend_ok_def senders_def receivers_def)
  moreover have "finite pids" by (simp add: pids_def)
  ultimately show "finite (senders m p)" "finite (receivers m p)" using finite_subset by blast+
qed

lemma balanced_leave:
  assumes "balanced s S R pl p 0 0" "c \<in> S p" "c \<notin> set (waiters (pk s) (ptssem (porttab s p)))" "p \<in> alloc_ports s"
  shows "balanced s (S(p := S p - {c})) R pl p 1 0"
  using assms tokens_leave [of c "S p" "pk s" "ptssem (porttab s p)"]
  by (fastforce simp: balanced_def port_bal_def)

lemma balanced_leave_recv:
  assumes "balanced s S R pl p 0 0" "c \<in> R p" "c \<notin> set (waiters (pk s) (ptrsem (porttab s p)))" "p \<in> alloc_ports s"
  shows "balanced s S (R(p := R p - {c})) pl p 0 1"
  using assms tokens_leave [of c "R p" "pk s" "ptrsem (porttab s p)"]
  by (fastforce simp: balanced_def port_bal_def)

lemma ptinvD:
  assumes "ptinv m fl pl"
  shows "kinv (pk (psys m))" "sems_ok (psys m)" "links (psys m) fl pl" "pend_ok m"
    "\<And>p. balanced (psys m) (senders m) (receivers m) pl p 0 0" "nextsem (pk (psys m)) \<in> sems"
    "0 \<le> ptnextid (psys m)" "ptnextid (psys m) < NPORTS"
  using assms balanced_zero unfolding ptinv_def by blast+

lemma pending_upd:
  assumes "pt_frame (psys m) t"
  shows "pend m c = None \<Longrightarrow> senders \<lparr>psys = t, pend = (pend m)(c \<mapsto> KSend p (pseq m p) msg)\<rparr> = (senders m)(p := insert c (senders m p))"
    "pend m c = None \<Longrightarrow> receivers \<lparr>psys = t, pend = (pend m)(c \<mapsto> KRecv p (pseq m p))\<rparr> = (receivers m)(p := insert c (receivers m p))"
    "pend m c = None \<Longrightarrow> receivers \<lparr>psys = t, pend = (pend m)(c \<mapsto> KSend p (pseq m p) msg)\<rparr> = receivers m"
    "pend m c = None \<Longrightarrow> senders \<lparr>psys = t, pend = (pend m)(c \<mapsto> KRecv p (pseq m p))\<rparr> = senders m"
    "pend m c = Some (KSend p seq msg) \<Longrightarrow> senders \<lparr>psys = t, pend = (pend m)(c := None)\<rparr> = (senders m)(p := senders m p - {c})"
    "pend m c = Some (KSend p seq msg) \<Longrightarrow> receivers \<lparr>psys = t, pend = (pend m)(c := None)\<rparr> = receivers m"
    "pend m c = Some (KRecv p seq) \<Longrightarrow> receivers \<lparr>psys = t, pend = (pend m)(c := None)\<rparr> = (receivers m)(p := receivers m p - {c})"
    "pend m c = Some (KRecv p seq) \<Longrightarrow> senders \<lparr>psys = t, pend = (pend m)(c := None)\<rparr> = senders m"
    "senders (m\<lparr>psys := t\<rparr>) = senders m" "receivers (m\<lparr>psys := t\<rparr>) = receivers m"
  using assms by (auto simp: senders_def receivers_def pt_frame_def fun_eq_iff)

lemma pend_ok_upd:
  assumes "pend_ok m" "pt_frame (psys m) t"
  shows "pend_ok (m\<lparr>psys := t\<rparr>)" "pend_ok \<lparr>psys = t, pend = (pend m)(c := None)\<rparr>"
    "c \<in> pids \<Longrightarrow> \<not> isbadport p \<Longrightarrow> pend_ok \<lparr>psys = t, pend = (pend m)(c \<mapsto> KSend p (pseq m p) msg)\<rparr>"
    "c \<in> pids \<Longrightarrow> \<not> isbadport p \<Longrightarrow> pend_ok \<lparr>psys = t, pend = (pend m)(c \<mapsto> KRecv p (pseq m p))\<rparr>"
  using assms by (auto simp: pend_ok_def pt_frame_def)

lemma ptinvI:
  assumes "kinv (pk t)" "sems_ok t" "links t fl pl" "pend_ok \<lparr>psys = t, pend = pd\<rparr>"
    "balanced t (senders \<lparr>psys = t, pend = pd\<rparr>) (receivers \<lparr>psys = t, pend = pd\<rparr>) pl p 0 0"
    "nextsem (pk t) \<in> sems" "0 \<le> ptnextid t" "ptnextid t < NPORTS"
  shows "ptinv \<lparr>psys = t, pend = pd\<rparr> fl pl"
  using assms balanced_zero [of t "senders \<lparr>psys = t, pend = pd\<rparr>" "receivers \<lparr>psys = t, pend = pd\<rparr>" pl p 0] unfolding ptinv_def by simp

text \<open>The fields outside the kernel that sending and receiving keep.\<close>

lemma cont_frames:
  "ptsend_cont p seq msg r s = Some (x, t) \<Longrightarrow> pt_frame s t \<and> kframe (pk s) (pk t) \<and> ptnextid t = ptnextid s"
  "ptrecv_cont p seq r s = Some (y, t) \<Longrightarrow> pt_frame s t \<and> kframe (pk s) (pk t) \<and> ptnextid t = ptnextid s"
proof -
  have "ptnextid (ptlink p msg s) = ptnextid s" "ptnextid (ptunlink p s) = ptnextid s" by (simp_all add: ptlink_def ptunlink_def Let_def)
  then show "ptsend_cont p seq msg r s = Some (x, t) \<Longrightarrow> pt_frame s t \<and> kframe (pk s) (pk t) \<and> ptnextid t = ptnextid s"
    "ptrecv_cont p seq r s = Some (y, t) \<Longrightarrow> pt_frame s t \<and> kframe (pk s) (pk t) \<and> ptnextid t = ptnextid s"
    using pt_frame_link(1) [where s = s and p = p and msg = msg] pt_frame_unlink(1) [where s = s and p = p]
    unfolding ptsend_cont_link ptrecv_cont_unlink
    by (auto split: if_splits Option.bind_splits dest: kframe_signal simp: pt_frame_def)
qed

lemma in_alloc: "p \<in> alloc_ports s \<longleftrightarrow> \<not> (isbadport p \<or> ptstate (porttab s p) \<noteq> PT_ALLOC)"
  by (auto simp: alloc_ports_def)

lemma send_step:
  assumes I: "ptinv m fl pl" and c: "pcurr m \<noteq> NULLPROC" "pend m (pcurr m) = None"
  shows "ptsend p msg (psys m) = Some (Ret r, t) \<Longrightarrow> \<exists>fl' pl'. ptinv (m\<lparr>psys := t\<rparr>) fl' pl'"
    "ptsend p msg (psys m) = Some (Blocked, t) \<Longrightarrow> \<exists>fl' pl'. ptinv \<lparr>psys = t, pend = (pend m)(pcurr m \<mapsto> KSend p (pseq m p) msg)\<rparr> fl' pl'"
proof -
  let ?s = "psys m" and ?i = "ptssem (porttab (psys m) p)"
  note D = ptinvD [OF I]
  have me: "m\<lparr>psys := u\<rparr> = \<lparr>psys = u, pend = pend m\<rparr>" for u by simp
  have cn: "pcurr m \<notin> senders m p" using c(2) by (simp add: senders_def)
  have cp: "pcurr m \<in> pids" using wf_procsD(1) [OF kinv_butD(4) [OF kinvD(1) [OF D(1)]]] .
  show "\<exists>fl' pl'. ptinv (m\<lparr>psys := t\<rparr>) fl' pl'" if a: "ptsend p msg ?s = Some (Ret r, t)"
  proof (cases "p \<in> alloc_ports ?s")
    case False
    then have "t = ?s" using a by (auto simp: ptsend_def in_alloc)
    then show ?thesis using I by (cases m) auto
  next
    case True
    note O = sems_okD [OF D(2) True]
    show ?thesis
    proof (cases rule: tok_wait [OF D(1) O(2,4) c(1) cn])
      case passes: (1 k')
      let ?u = "?s\<lparr>pk := k'\<rparr>"
      have e: "ptsend_cont p (ptseq (porttab ?u p)) msg OK ?u = Some (r, t)"
        using a True passes(1,5) by (auto simp: ptsend_def in_alloc Let_def split: Option.bind_splits)
      have "balanced ?u ((senders m)(p := senders m p)) (receivers m) pl p (0 - (- 1)) 0"
        by (rule balanced_ssem [OF D(1,2) True D(5) passes(3)])
          (use passes(6,7) finite_pending [OF D(4)] D(5) True in \<open>auto simp: balanced_def port_bal_def\<close>)
      then have b: "balanced ?u (senders m) (receivers m) pl p 1 0" by simp
      have pu: "p \<in> alloc_ports ?u" using True by simp
      have ku: "kinv (pk ?u)" "sems_ok ?u" "links ?u fl pl"
        using passes(2) sems_ok_kernel [OF D(2) passes(3,4)] D(3) by (simp_all add: links_def plist_def)
      note F = cont_frames(1) [OF e]
      have pf: "pt_frame ?s t" using F by (simp add: pt_frame_def)
      have ns: "nextsem (pk t) = nextsem (pk ?s)" "ptnextid t = ptnextid ?s"
        using F kframe_wait [OF passes(1)] by (simp_all add: kframe_def)
      obtain n fl' where G: "kinv (pk t)" "sems_ok t" "links t fl' (pl(p := pl p @ [n]))" "balanced t (senders m) (receivers m) (pl(p := pl p @ [n])) p 0 0"
        using send_finish [OF ku pu b e] by blast
      have "ptinv \<lparr>psys = t, pend = pend m\<rparr> fl' (pl(p := pl p @ [n]))"
        by (rule ptinvI [OF G(1-3), where p = p])
          (use G(4) pending_upd(9,10) [OF pf] pend_ok_upd(1) [OF D(4) pf] D(6-8) ns in \<open>simp_all add: me\<close>)
      then show ?thesis by (auto simp: me)
    next
      case blocks: (2 k')
      then show ?thesis using a True by (auto simp: ptsend_def in_alloc Let_def)
    qed
  qed
  show "\<exists>fl' pl'. ptinv \<lparr>psys = t, pend = (pend m)(pcurr m \<mapsto> KSend p (pseq m p) msg)\<rparr> fl' pl'"
    if a: "ptsend p msg ?s = Some (Blocked, t)"
  proof -
    have p: "p \<in> alloc_ports ?s" using a by (auto simp: ptsend_def in_alloc split: if_splits)
    note O = sems_okD [OF D(2) p]
    show ?thesis
    proof (cases rule: tok_wait [OF D(1) O(2,4) c(1) cn])
      case passes: (1 k')
      then show ?thesis using a p by (auto simp: ptsend_def in_alloc Let_def split: Option.bind_splits)
    next
      case blocks: (2 k')
      have t: "t = ?s\<lparr>pk := k'\<rparr>" using a p blocks(1,5) by (auto simp: ptsend_def in_alloc Let_def)
      have pf: "pt_frame ?s t" by (simp add: t pt_frame_def)
      have nb: "\<not> isbadport p" using p by (simp add: alloc_ports_def)
      have w: "set (waiters (pk ?s) ?i) \<subseteq> senders m p" using D(5) [of p] p by (auto simp: balanced_def port_bal_def)
      have "balanced t ((senders m)(p := insert (pcurr m) (senders m p))) (receivers m) pl p (0 - 0) 0"
        unfolding t by (rule balanced_ssem [OF D(1,2) p D(5) blocks(3)])
          (use blocks(6,7) finite_pending [OF D(4)] w in auto)
      then have b: "balanced t (senders \<lparr>psys = t, pend = (pend m)(pcurr m \<mapsto> KSend p (pseq m p) msg)\<rparr>)
          (receivers \<lparr>psys = t, pend = (pend m)(pcurr m \<mapsto> KSend p (pseq m p) msg)\<rparr>) pl p 0 0"
        using pending_upd(1,3) [OF pf] c(2) by simp
      have "ptinv \<lparr>psys = t, pend = (pend m)(pcurr m \<mapsto> KSend p (pseq m p) msg)\<rparr> fl pl"
      proof (rule ptinvI [OF _ _ _ pend_ok_upd(3) [OF D(4) pf cp nb] b])
        show "kinv (pk t)" "sems_ok t" "links t fl pl"
          using blocks(2) sems_ok_kernel [OF D(2) blocks(3,4)] D(3) by (simp_all add: t links_def plist_def)
        show "nextsem (pk t) \<in> sems" "0 \<le> ptnextid t" "ptnextid t < NPORTS"
          using kframe_wait [OF blocks(1)] D(6-8) by (simp_all add: t kframe_def)
      qed
      then show ?thesis by blast
    qed
  qed
qed

lemma recv_step:
  assumes I: "ptinv m fl pl" and c: "pcurr m \<noteq> NULLPROC" "pend m (pcurr m) = None"
  shows "ptrecv p (psys m) = Some (Ret r, t) \<Longrightarrow> \<exists>fl' pl'. ptinv (m\<lparr>psys := t\<rparr>) fl' pl'"
    "ptrecv p (psys m) = Some (Blocked, t) \<Longrightarrow> \<exists>fl' pl'. ptinv \<lparr>psys = t, pend = (pend m)(pcurr m \<mapsto> KRecv p (pseq m p))\<rparr> fl' pl'"
proof -
  let ?s = "psys m" and ?i = "ptrsem (porttab (psys m) p)"
  note D = ptinvD [OF I]
  have me: "m\<lparr>psys := u\<rparr> = \<lparr>psys = u, pend = pend m\<rparr>" for u by simp
  have cn: "pcurr m \<notin> receivers m p" using c(2) by (simp add: receivers_def)
  have cp: "pcurr m \<in> pids" using wf_procsD(1) [OF kinv_butD(4) [OF kinvD(1) [OF D(1)]]] .
  show "\<exists>fl' pl'. ptinv (m\<lparr>psys := t\<rparr>) fl' pl'" if a: "ptrecv p ?s = Some (Ret r, t)"
  proof (cases "p \<in> alloc_ports ?s")
    case False
    then have "t = ?s" using a by (auto simp: ptrecv_def in_alloc)
    then show ?thesis using I by (cases m) auto
  next
    case True
    note O = sems_okD [OF D(2) True]
    show ?thesis
    proof (cases rule: tok_wait [OF D(1) O(3,5) c(1) cn])
      case passes: (1 k')
      let ?u = "?s\<lparr>pk := k'\<rparr>"
      have "balanced ?u (senders m) ((receivers m)(p := receivers m p)) pl p 0 (0 - (- 1))"
        by (rule balanced_rsem [OF D(1,2) True D(5) passes(3)])
          (use passes(6,7) finite_pending [OF D(4)] D(5) True in \<open>auto simp: balanced_def port_bal_def\<close>)
      then have b: "balanced ?u (senders m) (receivers m) pl p 0 1" by simp
      have pu: "p \<in> alloc_ports ?u" using True by simp
      have ku: "kinv (pk ?u)" "sems_ok ?u" "links ?u fl pl"
        using passes(2) sems_ok_kernel [OF D(2) passes(3,4)] D(3) by (simp_all add: links_def plist_def)
      obtain n ns t' where G0: "ptrecv_cont p (ptseq (porttab ?u p)) OK ?u = Some (ptmsg (ptnodes ?u n), t')"
          "kinv (pk t')" "sems_ok t'" "links t' (n # fl) (pl(p := ns))" "balanced t' (senders m) (receivers m) (pl(p := ns)) p 0 0"
        using recv_finish [OF ku pu b] by blast
      have "t = t'" using a True passes(1,5) G0(1) by (auto simp: ptrecv_def in_alloc Let_def split: Option.bind_splits)
      note G = G0(2-5) [folded this] and e = G0(1) [folded this]
      note F = cont_frames(2) [OF e]
      have pf: "pt_frame ?s t" using F by (simp add: pt_frame_def)
      have ns: "nextsem (pk t) = nextsem (pk ?s)" "ptnextid t = ptnextid ?s"
        using F kframe_wait [OF passes(1)] by (simp_all add: kframe_def)
      have "ptinv \<lparr>psys = t, pend = pend m\<rparr> (n # fl) (pl(p := ns))"
        by (rule ptinvI [OF G(1-3), where p = p])
          (use G(4) pending_upd(9,10) [OF pf] pend_ok_upd(1) [OF D(4) pf] D(6-8) ns in \<open>simp_all add: me\<close>)
      then show ?thesis by (auto simp: me)
    next
      case blocks: (2 k')
      then show ?thesis using a True by (auto simp: ptrecv_def in_alloc Let_def)
    qed
  qed
  show "\<exists>fl' pl'. ptinv \<lparr>psys = t, pend = (pend m)(pcurr m \<mapsto> KRecv p (pseq m p))\<rparr> fl' pl'"
    if a: "ptrecv p ?s = Some (Blocked, t)"
  proof -
    have p: "p \<in> alloc_ports ?s" using a by (auto simp: ptrecv_def in_alloc split: if_splits)
    note O = sems_okD [OF D(2) p]
    show ?thesis
    proof (cases rule: tok_wait [OF D(1) O(3,5) c(1) cn])
      case passes: (1 k')
      then show ?thesis using a p by (auto simp: ptrecv_def in_alloc Let_def split: Option.bind_splits)
    next
      case blocks: (2 k')
      have t: "t = ?s\<lparr>pk := k'\<rparr>" using a p blocks(1,5) by (auto simp: ptrecv_def in_alloc Let_def)
      have pf: "pt_frame ?s t" by (simp add: t pt_frame_def)
      have nb: "\<not> isbadport p" using p by (simp add: alloc_ports_def)
      have w: "set (waiters (pk ?s) ?i) \<subseteq> receivers m p" using D(5) [of p] p by (auto simp: balanced_def port_bal_def)
      have "balanced t (senders m) ((receivers m)(p := insert (pcurr m) (receivers m p))) pl p 0 (0 - 0)"
        unfolding t by (rule balanced_rsem [OF D(1,2) p D(5) blocks(3)])
          (use blocks(6,7) finite_pending [OF D(4)] w in auto)
      then have b: "balanced t (senders \<lparr>psys = t, pend = (pend m)(pcurr m \<mapsto> KRecv p (pseq m p))\<rparr>)
          (receivers \<lparr>psys = t, pend = (pend m)(pcurr m \<mapsto> KRecv p (pseq m p))\<rparr>) pl p 0 0"
        using pending_upd(2,4) [OF pf] c(2) by simp
      have "ptinv \<lparr>psys = t, pend = (pend m)(pcurr m \<mapsto> KRecv p (pseq m p))\<rparr> fl pl"
      proof (rule ptinvI [OF _ _ _ pend_ok_upd(4) [OF D(4) pf cp nb] b])
        show "kinv (pk t)" "sems_ok t" "links t fl pl"
          using blocks(2) sems_ok_kernel [OF D(2) blocks(3,4)] D(3) by (simp_all add: t links_def plist_def)
        show "nextsem (pk t) \<in> sems" "0 \<le> ptnextid t" "ptnextid t < NPORTS"
          using kframe_wait [OF blocks(1)] D(6-8) by (simp_all add: t kframe_def)
      qed
      then show ?thesis by blast
    qed
  qed
qed


lemma stale_pending:
  assumes "pend m c = Some (KSend p seq msg) \<or> pend m c = Some (KRecv p seq)" "p \<notin> alloc_ports (psys m) \<or> seq \<noteq> pseq m p"
  shows "q \<in> alloc_ports (psys m) \<Longrightarrow> senders \<lparr>psys = psys m, pend = (pend m)(c := None)\<rparr> q = senders m q"
    "q \<in> alloc_ports (psys m) \<Longrightarrow> receivers \<lparr>psys = psys m, pend = (pend m)(c := None)\<rparr> q = receivers m q"
  using assms by (auto simp: senders_def receivers_def)

lemma stale_end:
  assumes I: "ptinv m fl pl" and p: "pend m c = Some (KSend p seq msg) \<or> pend m c = Some (KRecv p seq)"
    "p \<notin> alloc_ports (psys m) \<or> seq \<noteq> pseq m p"
  shows "ptinv \<lparr>psys = psys m, pend = (pend m)(c := None)\<rparr> fl pl"
proof -
  note D = ptinvD [OF I]
  have "pt_frame (psys m) (psys m)" by (simp add: pt_frame_def)
  note P = pend_ok_upd(2) [OF D(4) this, of c]
  have "balanced (psys m) (senders \<lparr>psys = psys m, pend = (pend m)(c := None)\<rparr>) (receivers \<lparr>psys = psys m, pend = (pend m)(c := None)\<rparr>) pl 0 0 0"
    using D(5) [of 0] stale_pending [OF p] by (simp add: balanced_def)
  then show ?thesis by (rule ptinvI [OF D(1-3) P _ D(6-8)])
qed

lemma send_end_step:
  assumes I: "ptinv m fl pl" and p: "pend m (pcurr m) = Some (KSend p seq msg)" and e: "ptsend_cont p seq msg OK (psys m) = Some (r, t)"
  shows "\<exists>fl' pl'. ptinv \<lparr>psys = t, pend = (pend m)(pcurr m := None)\<rparr> fl' pl'"
proof (cases "p \<in> alloc_ports (psys m) \<and> seq = pseq m p")
  case False
  note D = ptinvD [OF I]
  have "\<not> isbadport p" using D(4) p unfolding pend_ok_def by blast
  then have "t = psys m" using False e by (auto simp: ptsend_cont_def alloc_ports_def)
  then show ?thesis using stale_end [OF I] p False by blast
next
  case True
  let ?s = "psys m"
  note D = ptinvD [OF I]
  have c: "pcurr m \<in> senders m p" "pcurr m \<notin> set (waiters (pk ?s) (ptssem (porttab ?s p)))"
    using p True current_not_queued [OF D(1)] by (auto simp: senders_def)
  note b = balanced_leave [OF D(5) c conjunct1 [OF True]]
  have e': "ptsend_cont p (ptseq (porttab ?s p)) msg OK ?s = Some (r, t)" using e True by simp
  note F = cont_frames(1) [OF e]
  have pf: "pt_frame ?s t" using F by simp
  obtain n fl' where G: "kinv (pk t)" "sems_ok t" "links t fl' (pl(p := pl p @ [n]))"
      "balanced t ((senders m)(p := senders m p - {pcurr m})) (receivers m) (pl(p := pl p @ [n])) p 0 0"
    using send_finish [OF D(1-3) conjunct1 [OF True] b e'] by blast
  have "ptinv \<lparr>psys = t, pend = (pend m)(pcurr m := None)\<rparr> fl' (pl(p := pl p @ [n]))"
    by (rule ptinvI [OF G(1-3) pend_ok_upd(2) [OF D(4) pf], where p = p])
      (use G(4) pending_upd(5,6) [OF pf p] D(6-8) F in \<open>simp_all add: kframe_def\<close>)
  then show ?thesis by blast
qed

lemma recv_end_ok:
  assumes I: "ptinv m fl pl" and p: "pend m (pcurr m) = Some (KRecv p seq)" and a: "p \<in> alloc_ports (psys m)" "seq = pseq m p"
  shows "\<exists>n ns t. pl p = n # ns \<and> ptrecv_cont p seq OK (psys m) = Some (ptmsg (ptnodes (psys m) n), t) \<and>
    ptinv \<lparr>psys = t, pend = (pend m)(pcurr m := None)\<rparr> (n # fl) (pl(p := ns)) \<and> (\<forall>as. pmsgs t as = pmsgs (psys m) as)"
proof -
  let ?s = "psys m"
  note D = ptinvD [OF I]
  have c: "pcurr m \<in> receivers m p" "pcurr m \<notin> set (waiters (pk ?s) (ptrsem (porttab ?s p)))"
    using p a current_not_queued [OF D(1)] by (auto simp: receivers_def)
  note b = balanced_leave_recv [OF D(5) c a(1)]
  obtain n ns t where G: "pl p = n # ns" "ptrecv_cont p seq OK ?s = Some (ptmsg (ptnodes ?s n), t)" "kinv (pk t)" "sems_ok t" "pt_frame ?s t"
      "links t (n # fl) (pl(p := ns))" "balanced t (senders m) ((receivers m)(p := receivers m p - {pcurr m})) (pl(p := ns)) p 0 0"
      "\<forall>as. pmsgs t as = pmsgs ?s as"
    using recv_finish [OF D(1-3) a(1) b] a(2) by blast
  note F = cont_frames(2) [OF G(2)]
  have "ptinv \<lparr>psys = t, pend = (pend m)(pcurr m := None)\<rparr> (n # fl) (pl(p := ns))"
    by (rule ptinvI [OF G(3,4,6) pend_ok_upd(2) [OF D(4) G(5)], where p = p])
      (use G(7) pending_upd(7,8) [OF G(5) p] D(6-8) F in \<open>simp_all add: kframe_def\<close>)
  then show ?thesis using G by blast
qed

lemma recv_end_step:
  assumes I: "ptinv m fl pl" and p: "pend m (pcurr m) = Some (KRecv p seq)" and e: "ptrecv_cont p seq OK (psys m) = Some (r, t)"
  shows "\<exists>fl' pl'. ptinv \<lparr>psys = t, pend = (pend m)(pcurr m := None)\<rparr> fl' pl'"
proof (cases "p \<in> alloc_ports (psys m) \<and> seq = pseq m p")
  case False
  note D = ptinvD [OF I]
  have "\<not> isbadport p" using D(4) p unfolding pend_ok_def by blast
  then have "t = psys m" using False e by (auto simp: ptrecv_cont_def alloc_ports_def)
  then show ?thesis using stale_end [OF I] p False by blast
next
  case True
  then show ?thesis using recv_end_ok [OF I p] e by auto
qed

lemma switch_step:
  assumes I: "ptinv m fl pl" and k: "kinv k" "semtab k = semtab (pk (psys m))" "nextsem k = nextsem (pk (psys m))"
    "\<forall>i\<in>sems. waiters k i = waiters (pk (psys m)) i"
  shows "ptinv (m\<lparr>psys := (psys m)\<lparr>pk := k\<rparr>\<rparr>) fl pl"
proof -
  let ?t = "(psys m)\<lparr>pk := k\<rparr>"
  note D = ptinvD [OF I]
  have pf: "pt_frame (psys m) ?t" by (simp add: pt_frame_def)
  have tk: "tokens k i A = tokens (pk (psys m)) i A" if "i \<in> sems" for i A using k(2,4) that by (simp add: tokens_def)
  have "port_bal k (porttab (psys m) p) A B n 0 0" if "p \<in> alloc_ports (psys m)" "port_bal (pk (psys m)) (porttab (psys m) p) A B n 0 0" for p A B n
    using that(2) sems_okD(2,3) [OF D(2) that(1)] tk k(4) by (simp add: port_bal_def del: atLeastLessThan_iff)
  then have "balanced ?t (senders m) (receivers m) pl 0 0 0" using D(5) [of 0] by (simp add: balanced_def)
  moreover have "sems_ok ?t" using D(2) k(2) by (simp add: sems_ok_def)
  moreover have "links ?t fl pl" using D(3) by (simp add: links_def plist_def)
  ultimately show ?thesis
    using k(1,3) D(6-8) pending_upd(9,10) [OF pf] pend_ok_upd(1) [OF D(4) pf] by (simp add: ptinv_def)
qed

lemma ptcreate_loop_ok:
  assumes "0 \<le> ptnextid s" "ptnextid s < NPORTS" "ptcreate_loop n count s = (p, t)" "p \<noteq> SYSERR"
  shows "0 \<le> ptnextid t \<and> ptnextid t < NPORTS \<and> \<not> isbadport p \<and> ptstate (porttab s p) = PT_FREE \<and>
    (\<exists>ss rs k1 k2. semcreate count (pk s) = (ss, k1) \<and> semcreate 0 k1 = (rs, k2) \<and>
       pk t = k2 \<and> ptnodes t = ptnodes s \<and> ptfree t = ptfree s \<and> (\<forall>q. q \<noteq> p \<longrightarrow> porttab t q = porttab s q) \<and>
       porttab t p = (porttab s p)\<lparr>ptstate := PT_ALLOC, ptssem := ss, ptrsem := rs, pthead := 0, pttail := 0,
         ptseq := ptseq (porttab s p) + 1, ptmaxcnt := count mod 65536\<rparr>)"
  using assms
proof (induction n arbitrary: s)
  case (Suc n)
  let ?s1 = "s\<lparr>ptnextid := (if ptnextid s + 1 \<ge> NPORTS then 0 else ptnextid s + 1)\<rparr>"
  have r: "0 \<le> ptnextid ?s1" "ptnextid ?s1 < NPORTS" using Suc.prems(1,2) by (auto simp: NPORTS_def)
  show ?case
  proof (cases "ptstate (porttab s (ptnextid s)) = PT_FREE")
    case True
    obtain ss k1 where a: "semcreate count (pk s) = (ss, k1)" by (cases "semcreate count (pk s)")
    obtain rs k2 where b: "semcreate 0 k1 = (rs, k2)" by (cases "semcreate 0 k1")
    show ?thesis using Suc.prems True a b r by (auto simp: Let_def isbadport_def)
  next
    case False
    then have "ptcreate_loop n count ?s1 = (p, t)" using Suc.prems(3) by (simp add: Let_def)
    then show ?thesis using Suc.IH [OF r _ Suc.prems(4)] by auto
  qed
qed simp

lemma create_step:
  assumes I: "ptinv m fl pl" and c: "ptcreate count (psys m) = (p, t)" "p \<noteq> SYSERR" "count < 65536"
    and ok: "ptssem (porttab t p) \<noteq> SYSERR" "ptrsem (porttab t p) \<noteq> SYSERR"
  shows "ptinv (m\<lparr>psys := t\<rparr>) fl (pl(p := []))"
proof -
  let ?s = "psys m"
  note D = ptinvD [OF I]
  have n: "0 \<le> count" and l: "ptcreate_loop (nat NPORTS) count ?s = (p, t)" using c by (auto simp: ptcreate_def split: if_splits)
  obtain ss rs k1 k2 where C: "0 \<le> ptnextid t" "ptnextid t < NPORTS" "\<not> isbadport p" "ptstate (porttab ?s p) = PT_FREE"
      "semcreate count (pk ?s) = (ss, k1)" "semcreate 0 k1 = (rs, k2)"
    and T: "porttab t p = (porttab ?s p)\<lparr>ptstate := PT_ALLOC, ptssem := ss, ptrsem := rs, pthead := 0, pttail := 0,
      ptseq := pseq m p + 1, ptmaxcnt := count mod 65536\<rparr>" "\<And>q. q \<noteq> p \<Longrightarrow> porttab t q = porttab ?s q"
      "pk t = k2" "ptnodes t = ptnodes ?s" "ptfree t = ptfree ?s"
    using ptcreate_loop_ok [OF D(7,8) l c(2)] by blast
  have z: "ss \<noteq> SYSERR" "rs \<noteq> SYSERR" using ok T(1) by simp_all
  note A = semcreate_fresh [OF D(1,6) n C(5) z(1)]
  note B = semcreate_fresh [OF A(1,2) order_refl C(6) z(2)]
  have sr: "rs \<noteq> ss" using A(5) B(4) by auto
  have al: "alloc_ports t = insert p (alloc_ports ?s)" "p \<notin> alloc_ports ?s"
  proof -
    have "q \<in> alloc_ports t \<longleftrightarrow> q = p \<or> q \<in> alloc_ports ?s" for q
      using C(3,4) T(1) T(2) [of q] by (cases "q = p") (simp_all add: alloc_ports_def)
    then show "alloc_ports t = insert p (alloc_ports ?s)" by blast
    show "p \<notin> alloc_ports ?s" using C(4) by (simp add: alloc_ports_def)
  qed
  have used: "j \<notin> {ss, rs}" if "sstate (semtab (pk ?s) j) = S_USED" for j
    using that A(4) B(4) A(7) [of j] by (cases "j = ss") auto
  have old: "ptssem (porttab ?s q) \<notin> {ss, rs}" "ptrsem (porttab ?s q) \<notin> {ss, rs}" if "q \<in> alloc_ports ?s" for q
    using sems_okD(4,5) [OF D(2) that] used by blast+
  have oth: "semtab k2 j = semtab (pk ?s) j \<and> waiters k2 j = waiters (pk ?s) j" if "j \<notin> {ss, rs}" for j
    using A(7) [of j] B(7) [of j] that by (metis insertCI)
  have us: "sstate (semtab k2 ss) = S_USED" using A(5) B(7) [of ss] sr by auto
  have so: "sems_ok t"
  proof -
    have p1: "ptssem (porttab t q) \<noteq> ptrsem (porttab t q) \<and> (\<forall>i\<in>port_sems (porttab t q). i \<in> sems \<and> sstate (semtab k2 i) = S_USED)"
      if "q \<in> alloc_ports t" for q
      using that al T(1,2) sr A(3) B(3,5) us sems_okD [OF D(2), of q] old [of q] oth
      by (cases "q = p") (auto simp: port_sems_def simp del: atLeastLessThan_iff)
    have p2: "port_sems (porttab t q) \<inter> port_sems (porttab t q') = {}" if "q \<in> alloc_ports t" "q' \<in> alloc_ports t" "q' \<noteq> q" for q q'
      using that al T(1,2) old [of q] old [of q'] sems_okD(6) [OF D(2), of q q']
      by (cases "q = p"; cases "q' = p") (auto simp: port_sems_def)
    show ?thesis unfolding sems_ok_def T(3) using p1 p2 by blast
  qed
  have lk: "links t fl (pl(p := []))"
  proof (rule links_updI)
    show "npath (ptnodes t) (ptfree t) fl" "distinct fl" using D(3) T(4,5) by (simp_all add: links_def)
    show "plist t p []" using T(1) by (simp add: plist_def lastz_def)
    show "plist t q (pl q) \<and> set (pl q) \<inter> set fl = {} \<and> set (pl q) \<inter> set [] = {}" if "q \<in> alloc_ports t" "q \<noteq> p" for q
      using D(3) that al T(2,4) by (auto simp: links_def plist_def)
    show "set (pl q) \<inter> set (pl q') = {}" if "q \<in> alloc_ports t" "q' \<in> alloc_ports t" "q \<noteq> q'" "q \<noteq> p" "q' \<noteq> p" for q q'
      using D(3) that al unfolding links_def by auto
  qed simp
  let ?m = "\<lparr>psys = t, pend = pend m\<rparr>"
  have sq: "seq \<le> pseq m p" if "pend m q = Some (KSend p seq msg) \<or> pend m q = Some (KRecv p seq)" for q seq msg
    using D(4) that unfolding pend_ok_def by blast
  have pq: "pseq ?m p = pseq m p + 1" "\<And>q. q \<noteq> p \<Longrightarrow> pseq ?m q = pseq m q" using T(1,2) by simp_all
  have S0: "senders ?m p = {}" "receivers ?m p = {}"
    unfolding senders_def receivers_def pq(1) using sq by (auto, fastforce+)
  have S1: "senders ?m q = senders m q" "receivers ?m q = receivers m q" if "q \<noteq> p" for q
    unfolding senders_def receivers_def pq(2) [OF that] by simp_all
  have S: "senders ?m q = (if q = p then {} else senders m q)" "receivers ?m q = (if q = p then {} else receivers m q)" for q
    using S0 S1 [of q] by simp_all
  have le: "pseq m q \<le> pseq ?m q" for q using T(1) T(2) [of q] by (cases "q = p") simp_all
  have po: "pend_ok ?m" using D(4) le order_trans unfolding pend_ok_def by (simp, blast)
  have tk: "tokens k2 ss {} = count" using A(8) B(7) [of ss] sr by (auto simp: tokens_def)
  have "port_bal k2 (porttab t q) (senders ?m q) (receivers ?m q) (int (length ((pl(p := [])) q))) 0 0" if q: "q \<in> alloc_ports t" for q
  proof (cases "q = p")
    case True
    have "waiters k2 ss = []" using A(6) B(7) [of ss] sr by auto
    then show ?thesis using True T(1) S [of p] tk B(6,8) n c(3) by (simp add: port_bal_def)
  next
    case False
    then have qa: "q \<in> alloc_ports ?s" using q al by simp
    have "port_bal (pk ?s) (porttab ?s q) (senders m q) (receivers m q) (int (length (pl q))) 0 0"
      using D(5) [of 0] qa by (auto simp: balanced_def)
    moreover have w: "waiters k2 j = waiters (pk ?s) j" "tokens k2 j X = tokens (pk ?s) j X" if "j \<notin> {ss, rs}" for j X
    proof -
      have c: "scount (semtab k2 j) = scount (semtab (pk ?s) j)" using conjunct1 [OF oth [OF that]] by simp
      show v: "waiters k2 j = waiters (pk ?s) j" using oth [OF that] by blast
      show "tokens k2 j X = tokens (pk ?s) j X" unfolding tokens_def v c ..
    qed
    ultimately show ?thesis
      using False unfolding T(2) [OF False] S1 [OF False] port_bal_def w(1) [OF old(1) [OF qa]] w(1) [OF old(2) [OF qa]]
        w(2) [OF old(1) [OF qa]] w(2) [OF old(2) [OF qa]] by simp
  qed
  then have bal: "balanced t (senders ?m) (receivers ?m) (pl(p := [])) p 0 0" by (simp add: balanced_def T(3))
  have me: "m\<lparr>psys := t\<rparr> = ?m" by simp
  show ?thesis unfolding me by (rule ptinvI [OF _ so lk po bal]) (use B(1,2) T(3) C(1,2) in simp_all)
qed

text \<open>A creation that fails has only moved the cursor.\<close>

lemma ptcreate_loop_fail:
  assumes "0 \<le> ptnextid s" "ptnextid s < NPORTS" "ptcreate_loop n count s = (SYSERR, t)"
  shows "\<exists>i. 0 \<le> i \<and> i < NPORTS \<and> t = s\<lparr>ptnextid := i\<rparr>"
  using assms
proof (induction n arbitrary: s)
  case 0
  then show ?case by (intro exI [of _ "ptnextid s"]) simp
next
  case (Suc n)
  let ?s1 = "s\<lparr>ptnextid := (if ptnextid s + 1 \<ge> NPORTS then 0 else ptnextid s + 1)\<rparr>"
  have r: "0 \<le> ptnextid ?s1" "ptnextid ?s1 < NPORTS" using Suc.prems(1,2) by (auto simp: NPORTS_def)
  have "ptstate (porttab s (ptnextid s)) \<noteq> PT_FREE"
    using Suc.prems(1,3) by (auto simp: Let_def case_prod_beta SYSERR_def)
  then have "ptcreate_loop n count ?s1 = (SYSERR, t)" using Suc.prems(3) by (simp add: Let_def)
  from Suc.IH [OF r this] show ?case by auto
qed

lemma create_fail_step:
  assumes I: "ptinv m fl pl" and c: "ptcreate count (psys m) = (SYSERR, t)"
  shows "ptinv (m\<lparr>psys := t\<rparr>) fl pl"
proof -
  note D = ptinvD [OF I]
  have "\<exists>i. 0 \<le> i \<and> i < NPORTS \<and> t = (psys m)\<lparr>ptnextid := i\<rparr>"
  proof (cases "count < 0")
    case True
    then show ?thesis using c D(7,8) by (intro exI [of _ "ptnextid (psys m)"]) (simp add: ptcreate_def)
  next
    case False
    then show ?thesis using ptcreate_loop_fail [OF D(7,8)] c by (simp add: ptcreate_def)
  qed
  then obtain i where i: "0 \<le> i" "i < NPORTS" "t = (psys m)\<lparr>ptnextid := i\<rparr>" by blast
  have "senders (m\<lparr>psys := t\<rparr>) = senders m" "receivers (m\<lparr>psys := t\<rparr>) = receivers m"
    by (simp_all add: fun_eq_iff senders_def receivers_def i(3))
  then show ?thesis
    using I i by (simp add: ptinv_def sems_ok_def links_def plist_def balanced_def alloc_ports_def pend_ok_def)
qed

text \<open>
  \<^verbatim>\<open>ptmaxcnt\<close> has 16 bits, the count of the semaphore 32: a port of 65536 messages or more lets all of them in, though the
  limit it records is smaller.
\<close>

lemma ptcreate_truncates:
  assumes "kinv (pk s)" "nextsem (pk s) \<in> sems" "0 \<le> ptnextid s" "ptnextid s < NPORTS"
    and c: "ptcreate count s = (p, t)" "p \<noteq> SYSERR" "65536 \<le> count" "ptssem (porttab t p) \<noteq> SYSERR" "ptrsem (porttab t p) \<noteq> SYSERR"
  shows "scount (semtab (pk t) (ptssem (porttab t p))) = count \<and> ptmaxcnt (porttab t p) = count mod 65536 \<and> count mod 65536 < count"
proof -
  have n: "0 \<le> count" and l: "ptcreate_loop (nat NPORTS) count s = (p, t)" using c by (auto simp: ptcreate_def split: if_splits)
  obtain ss rs k1 k2 where C: "semcreate count (pk s) = (ss, k1)" "semcreate 0 k1 = (rs, k2)" "pk t = k2"
      "ptssem (porttab t p) = ss" "ptrsem (porttab t p) = rs" "ptmaxcnt (porttab t p) = count mod 65536"
    using ptcreate_loop_ok [OF assms(3,4) l c(2)] by auto
  have z: "ss \<noteq> SYSERR" "rs \<noteq> SYSERR" using c(4,5) C(4,5) by simp_all
  note A = semcreate_fresh [OF assms(1,2) n C(1) z(1)]
  note B = semcreate_fresh [OF A(1,2) order_refl C(2) z(2)]
  have "rs \<noteq> ss" using A(5) B(4) by auto
  then have "semtab k2 ss = semtab k1 ss" using B(7) [of ss] by auto
  moreover have "scount (semtab k1 ss) = count" using A(6,8) n c(3) by (auto simp: tokens_def)
  ultimately show ?thesis using C c(3) pos_mod_bound [of 65536 count] by simp
qed

lemma port_use_inv: "port_use m m' \<Longrightarrow> \<exists>fl pl. ptinv m fl pl \<Longrightarrow> \<exists>fl pl. ptinv m' fl pl"
proof (induction rule: port_use.induct)
  case (send m p msg r t)
  then show ?case using send_step(1) by blast
next
  case (send_block m p msg t)
  then show ?case using send_step(2) by blast
next
  case (send_end m p seq msg r t)
  then show ?case using send_end_step by blast
next
  case (recv m p r' t)
  then show ?case using recv_step(1) by blast
next
  case (recv_block m p t)
  then show ?case using recv_step(2) by blast
next
  case (recv_end m p seq r' t)
  then show ?case using recv_end_step by blast
next
  case (create count m p t)
  then show ?case using create_step by blast
next
  case (create_fail count m t)
  then show ?case using create_fail_step by blast
next
  case (switch k m)
  then show ?case using switch_step by blast
qed

section \<open>Initialization\<close>

lemma ptinit_loop_nodes:
  "ptinit_loop n cur s = (c, t) \<Longrightarrow> c = cur + 8 * of_nat n \<and>
    porttab t = porttab s \<and> pk t = pk s \<and> ptfree t = ptfree s \<and> ptnextid t = ptnextid s \<and>
    (8 * n < 2 ^ 32 \<longrightarrow> (\<forall>i<n. ptnext (ptnodes t (cur + 8 * of_nat i)) = cur + 8 * of_nat (Suc i)))"
proof (induction n arbitrary: cur s)
  case (Suc n)
  let ?s = "upd_node cur (\<lambda>e. e\<lparr>ptnext := cur + 8\<rparr>) s"
  have other: "ptnodes t a = ptnodes s a" if "ptinit_loop k b s = (c', t)" "\<And>j. j < k \<Longrightarrow> a \<noteq> b + 8 * of_nat j" for k a b s c'
    using that
  proof (induction k arbitrary: b s)
    case (Suc k)
    have "a \<noteq> b" using Suc.prems(2) [of 0] by simp
    moreover have "a \<noteq> b + 8 + 8 * of_nat j" if "j < k" for j using Suc.prems(2) [of "Suc j"] that by (simp add: algebra_simps)
    ultimately show ?case using Suc.IH [of "b + 8"] Suc.prems(1) by fastforce
  qed simp
  have e: "ptinit_loop n (cur + 8) ?s = (c, t)" using Suc.prems by simp
  note IH = Suc.IH [OF e]
  have "ptnext (ptnodes t (cur + 8 * of_nat i)) = cur + 8 * of_nat (Suc i)" if "8 * Suc n < 2 ^ 32" "i < Suc n" for i
  proof (cases i)
    case 0
    have "cur \<noteq> cur + 8 + 8 * of_nat j" if j: "j < n" for j
    proof
      assume "cur = cur + 8 + 8 * of_nat j"
      then have "(of_nat (8 * Suc j) :: uint32) = 0" by (simp add: algebra_simps)
      then have "unat (of_nat (8 * Suc j) :: uint32) = 0" by (simp only: unsigned_0)
      moreover have "8 * Suc j < 2 ^ 32" using j \<open>8 * Suc n < 2 ^ 32\<close> by simp
      ultimately show False by (simp only: unat_of_nat take_bit_nat_eq_self_iff) (simp add: take_bit_nat_eq_self)
    qed
    then have "ptnodes t cur = ptnodes ?s cur" using other [OF e] by blast
    then show ?thesis using 0 by simp
  next
    case (Suc k)
    then show ?thesis using IH that by (simp add: algebra_simps)
  qed
  then show ?case using IH by (simp add: algebra_simps)
qed simp

lemma npath_array:
  assumes "\<And>i. i < n \<Longrightarrow> a + 8 * of_nat i \<noteq> 0" "\<And>i. Suc i < n \<Longrightarrow> ptnext (N (a + 8 * of_nat i)) = a + 8 * of_nat (Suc i)"
    "0 < n" "ptnext (N (a + 8 * of_nat (n - 1))) = 0" "i < n"
  shows "npath N (a + 8 * of_nat i) (map (\<lambda>i. a + 8 * of_nat i) [i..<n])"
  using assms(5)
proof (induction "n - i" arbitrary: i)
  case (Suc k)
  have u: "[i..<n] = i # [Suc i..<n]" using Suc.prems by (simp add: upt_conv_Cons)
  show ?case
  proof (cases "Suc i < n")
    case True
    then show ?thesis unfolding u using Suc.hyps(1) [of "Suc i"] Suc.hyps(2) assms(1,2) Suc.prems by simp
  next
    case False
    then have "i = n - 1" using Suc.prems by simp
    then show ?thesis unfolding u using assms(1) [of i] assms(3,4) False Suc.prems by simp
  qed
qed simp

lemma ptinit_inv:
  assumes k: "kinv (pk s)" and h: "heap_ok (kmem (pk s)) bs" and nx: "nextsem (pk s) \<in> sems" and n: "0 < n" "8 * n \<le> 2 ^ 32 - 8"
    and i: "ptinit n s = Some (r, t)"
  shows "r = OK \<and> ptinv \<lparr>psys = t, pend = \<lambda>_. None\<rparr> (map (\<lambda>i. ptfree t + 8 * of_nat i) [0..<nat n]) (\<lambda>_. []) \<and> alloc_ports t = {}"
proof -
  obtain N where N: "n = int (Suc N)" using n(1) by (metis int_nat_eq gr0_implies_Suc nat_eq_iff2 nat_0_less_mult_iff zless_nat_conj zero_less_imp_eq_int)
  have sz: "(word_of_int n * 8 :: uint32) = of_nat (8 * Suc N)" by (simp add: N)
  have us: "unat (of_nat (8 * Suc N) :: uint32) = 8 * Suc N"
    using n(2) N by (simp only: unat_of_nat take_bit_nat_eq_self_iff) (simp add: take_bit_nat_eq_self)
  obtain a m where g: "getmem (of_nat (8 * Suc N)) (kmem (pk s)) = Some (a, m)" "a \<noteq> SYSERR_PTR"
    using i unfolding ptinit_def sz by (auto simp: Let_def split: Option.bind_splits if_splits)
  let ?k = "(pk s)\<lparr>kmem := m\<rparr>"
  let ?s2 = "s\<lparr>pk := ?k, ptfree := a, porttab := ptinit_table (porttab s), ptnextid := 0\<rparr>"
  obtain c u where L: "ptinit_loop N a ?s2 = (c, u)" by (cases "ptinit_loop N a ?s2")
  note U = ptinit_loop_nodes [OF L]
  have t: "r = OK" "t = upd_node c (\<lambda>e. e\<lparr>ptnext := 0\<rparr>) u"
    using i g L unfolding ptinit_def sz by (simp_all add: Let_def N)
  have nz: "(of_nat (8 * Suc N) :: uint32) \<noteq> 0" using us by (metis unsigned_0 mult_is_0 nat.distinct(1) zero_neq_numeral)
  have rq: "reqsize (of_nat (8 * Suc N)) = 8 * Suc N" unfolding reqsize_def us by simp
  obtain bs' where G: "{unat a..<unat a + 8 * Suc N} \<subseteq> free_bytes bs"
    using getmem_law [OF h nz _ g] us n(2) N rq by auto
  have "free_bytes bs \<subseteq> {unat (minheap (kmem (pk s)))..<unat (maxheap (kmem (pk s)))}" using free_bytes_range heap_okD(2) [OF h] .
  then have "unat a \<in> {unat (minheap (kmem (pk s)))..<unat (maxheap (kmem (pk s)))}" "unat a + 8 * N + 7 \<in> {unat (minheap (kmem (pk s)))..<unat (maxheap (kmem (pk s)))}"
    using G by (auto simp: subset_iff)
  then have ua: "0 < unat a" "unat a + 8 * N + 7 < 2 ^ 32"
    using heap_okD(3) [OF h] unat_bound [of "maxheap (kmem (pk s))"] by auto
  have un: "unat (a + 8 * of_nat j) = unat a + 8 * j" if "j < Suc N" for j
  proof -
    have "unat (of_nat (8 * j) :: uint32) = 8 * j"
      using that ua(2) by (simp only: unat_of_nat take_bit_nat_eq_self_iff) (simp add: take_bit_nat_eq_self)
    then show ?thesis using unat_add_noovf [of a "of_nat (8 * j)"] that ua(2) by simp
  qed
  have ne: "a + 8 * of_nat j \<noteq> 0" if "j < Suc N" for j using un [OF that] ua(1) by (metis add_gr_0 less_irrefl unsigned_0)
  have inj: "a + 8 * of_nat j = a + 8 * of_nat j' \<Longrightarrow> j = j'" if "j < Suc N" "j' < Suc N" for j j' using un that by (metis add_left_cancel nat_mult_eq_cancel_disj zero_neq_numeral)
  have c: "c = a + 8 * of_nat N" using U by simp
  have "npath (ptnodes t) (a + 8 * of_nat 0) (map (\<lambda>i. a + 8 * of_nat i) [0..<Suc N])"
  proof (rule npath_array)
    show "ptnext (ptnodes t (a + 8 * of_nat j)) = a + 8 * of_nat (Suc j)" if "Suc j < Suc N" for j
      using that U ua(2) inj [of j N] c by (auto simp: t)
    show "ptnext (ptnodes t (a + 8 * of_nat (Suc N - 1))) = 0" by (simp add: t c)
  qed (use ne in simp_all)
  moreover have "distinct (map (\<lambda>i. a + 8 * of_nat i) [0..<Suc N])" unfolding distinct_map using inj by (auto simp: inj_on_def)
  moreover have al: "alloc_ports t = {}" using U by (auto simp: t alloc_ports_def isbadport_def ptinit_table_def)
  moreover have "kinv ?k" using kinv_upd_cong(1) [OF k, of ?k] by simp
  moreover have nn: "nat n = Suc N" using N by simp
  ultimately show ?thesis
    using U nx t(1) by (simp add: ptinv_def links_def sems_ok_def balanced_def pend_ok_def t NPORTS_def del: upt_Suc)
qed

section \<open>Properties\<close>

lemma ptinv_facts:
  assumes I: "ptinv m fl pl" and p: "p \<in> alloc_ports (psys m)"
  shows "plist (psys m) p (pl p)" "int (length (pl p)) \<le> ptmaxcnt (porttab (psys m) p)"
proof -
  note D = ptinvD [OF I]
  show "plist (psys m) p (pl p)" using D(3) p by (simp add: links_def)
  have "port_bal (pk (psys m)) (porttab (psys m) p) (senders m p) (receivers m p) (int (length (pl p))) 0 0"
    using D(5) [of 0] p by (auto simp: balanced_def)
  then show "int (length (pl p)) \<le> ptmaxcnt (porttab (psys m) p)" by (auto simp: port_bal_def tokens_def)
qed

text \<open>
  C22. Ports are bounded FIFO queues, whatever the interleaving of the processes that use them: after \<^verbatim>\<open>ptinit\<close>, in
  every state the processes can reach by calls of \<^verbatim>\<open>ptcreate\<close>, \<^verbatim>\<open>ptsend\<close> and \<^verbatim>\<open>ptrecv\<close>, with any context switches in
  between, the messages of each port form a well formed list never longer than the port's limit \<^verbatim>\<open>ptmaxcnt\<close>; and a process
  that blocked in \<^verbatim>\<open>ptrecv\<close> and runs again finds the port's list not empty, and returns its first message. The runs are those
  of \<open>port_use\<close>: no port is reset or deleted, sizes are below 65536, and a creation that succeeds got both its
  semaphores. For larger sizes the limit does not hold: \<open>ptcreate_truncates\<close>.
\<close>

theorem ports_safe:
  assumes "kinv (pk s)" and "heap_ok (kmem (pk s)) bs" and "nextsem (pk s) \<in> sems" and "0 < n" and "8 * n \<le> 2 ^ 32 - 8"
    and "ptinit n s = Some (r, t)" and "port_use\<^sup>*\<^sup>* \<lparr>psys = t, pend = \<lambda>_. None\<rparr> m"
  shows "(\<forall>p\<in>alloc_ports (psys m). \<exists>as. plist (psys m) p as \<and> int (length as) \<le> ptmaxcnt (porttab (psys m) p)) \<and>
    (\<forall>p seq. pend m (pcurr m) = Some (KRecv p seq) \<and> p \<in> alloc_ports (psys m) \<and> seq = pseq m p \<longrightarrow>
       (\<exists>a as t'. plist (psys m) p (a # as) \<and> ptrecv_cont p seq OK (psys m) = Some (ptmsg (ptnodes (psys m) a), t') \<and> plist t' p as))"
proof -
  have "\<exists>fl pl. ptinv m fl pl"
    using assms(7)
  proof (induction rule: rtranclp_induct)
    case base
    then show ?case using ptinit_inv [OF assms(1-6)] by blast
  next
    case (step y z)
    then show ?case using port_use_inv by blast
  qed
  then obtain fl pl where I: "ptinv m fl pl" by blast
  have "\<exists>a as t'. plist (psys m) p (a # as) \<and> ptrecv_cont p seq OK (psys m) = Some (ptmsg (ptnodes (psys m) a), t') \<and> plist t' p as"
    if q: "pend m (pcurr m) = Some (KRecv p seq)" "p \<in> alloc_ports (psys m)" "seq = pseq m p" for p seq
  proof -
    obtain a as t' where E: "pl p = a # as" "ptrecv_cont p seq OK (psys m) = Some (ptmsg (ptnodes (psys m) a), t')"
        "ptinv \<lparr>psys = t', pend = (pend m)(pcurr m := None)\<rparr> (a # fl) (pl(p := as))"
      using recv_end_ok [OF I q] by blast
    have "p \<in> alloc_ports t'" using pt_frame_alloc cont_frames(2) [OF E(2)] q(2) by blast
    then have "plist t' p as" using ptinv_facts(1) [OF E(3), of p] by simp
    then show ?thesis using E(1,2) ptinv_facts(1) [OF I q(2)] by auto
  qed
  then show ?thesis using ptinv_facts [OF I] by blast
qed

text \<open>The kernel with process 1 running, the port tables still zero.\<close>

definition kports :: portsys where
  "kports = \<lparr>pk = krun, porttab = (\<lambda>_. \<lparr>ptssem = 0, ptrsem = 0, ptstate = PT_FREE, ptmaxcnt = 0, ptseq = 0, pthead = 0, pttail = 0\<rparr>),
     ptfree = 0, ptnextid = 0, ptnodes = (\<lambda>_. \<lparr>ptmsg = 0, ptnext = 0\<rparr>)\<rparr>"

lemma kports_init: "\<exists>r t. ptinit 10 kports = Some (r, t)"
proof -
  have "\<exists>a m bs'. getmem 80 (kmem krun) = Some (a, m) \<and> heap_ok m bs' \<and> {unat a..<unat a + reqsize 80} \<subseteq> free_bytes [(0x10000, 0xEE000)]"
    using getmem_cases [OF kboot_heap, of 80] krun_facts(12) by (auto simp: reqsize_def)
  then obtain a m where g: "getmem 80 (kmem krun) = Some (a, m)" "{unat a..<unat a + reqsize 80} \<subseteq> free_bytes [(0x10000, 0xEE000)]" by blast
  have "unat a \<in> {unat a..<unat a + reqsize 80}" by (simp add: reqsize_def)
  then have "unat a < 0x100000" using g(2) by (auto simp: extent_def)
  moreover have "unat SYSERR_PTR = 0xFFFFFFFF" by (simp add: SYSERR_PTR_def unsigned_minus_1_eq_mask mask_eq_exp_minus_1)
  ultimately have "a \<noteq> SYSERR_PTR" by auto
  then show ?thesis using g(1) by (simp add: ptinit_def kports_def Let_def case_prod_beta)
qed

text \<open>The first port, for five messages.\<close>

lemma kports_create:
  assumes t: "ptinit 10 kports = Some (r, t)"
  obtains u where "port_use \<lparr>psys = t, pend = \<lambda>_. None\<rparr> \<lparr>psys = u, pend = \<lambda>_. None\<rparr>" "0 \<in> alloc_ports u" "ptmaxcnt (porttab u 0) = 5"
proof -
  obtain a m where g: "getmem 80 (kmem krun) = Some (a, m)" "a \<noteq> SYSERR_PTR"
    using t by (auto simp: ptinit_def kports_def Let_def split: Option.bind_splits if_splits)
  let ?k = "krun\<lparr>kmem := m\<rparr>"
  let ?s2 = "kports\<lparr>pk := ?k, ptfree := a, porttab := ptinit_table (porttab kports), ptnextid := 0\<rparr>"
  obtain c v where L: "ptinit_loop 9 a ?s2 = (c, v)" by (cases "ptinit_loop 9 a ?s2")
  have e: "t = upd_node c (\<lambda>e. e\<lparr>ptnext := 0\<rparr>) v" using t g L by (simp add: ptinit_def kports_def Let_def)
  note U = ptinit_loop_nodes [OF L]
  have T: "pk t = ?k" "ptnextid t = 0" "ptstate (porttab t 0) = PT_FREE" using U by (simp_all add: e ptinit_table_def NPORTS_def)
  have fr: "sstate (semtab krun i) = S_FREE" if "i \<in> sems" for i using kboot_facts(8) [OF that] krun_facts(9) by simp
  have z: "(0 :: int) \<in> sems" "(1 :: int) \<in> sems" "nat NSEM = Suc 99" by (simp_all add: size_defs)
  have nw: "newsem s = (nextsem s, upd_sem (nextsem s) (\<lambda>e. e\<lparr>sstate := S_USED\<rparr>) (s\<lparr>nextsem := nextsem s + 1\<rparr>))"
    if "sstate (semtab s (nextsem s)) = S_FREE" "nextsem s + 1 < NSEM" for s
    unfolding newsem_def z(3) newsem_loop.simps using that by (simp add: Let_def)
  obtain ss k1 where A: "semcreate 5 ?k = (ss, k1)" "ss = 0" "nextsem k1 = 1" "semtab k1 1 = semtab krun 1"
    using nw [of ?k] fr [OF z(1)] krun_facts(10) by (simp add: semcreate_def NSEM_def SYSERR_def)
  obtain rs k2 where B: "semcreate 0 k1 = (rs, k2)" "rs = 1"
    using nw [of k1] fr [OF z(2)] A(3,4) by (simp add: semcreate_def NSEM_def SYSERR_def)
  let ?u = "snd (ptcreate 5 t)"
  have c: "ptcreate 5 t = (0, ?u)" "porttab ?u 0 = (porttab t 0)\<lparr>ptstate := PT_ALLOC, ptssem := ss, ptrsem := rs, pthead := 0, pttail := 0,
       ptseq := ptseq (porttab t 0) + 1, ptmaxcnt := 5\<rparr>"
    using T A(1) B(1) by (simp_all add: ptcreate_def NPORTS_def numeral_eq_Suc Let_def)
  have "port_use \<lparr>psys = t, pend = \<lambda>_. None\<rparr> (\<lparr>psys = t, pend = \<lambda>_. None\<rparr>\<lparr>psys := ?u\<rparr>)"
    by (rule port_use.create [where count = 5 and p = 0]) (use c A(2) B(2) in \<open>simp_all add: SYSERR_def\<close>)
  then show thesis using that [of ?u] c(2) by (simp add: alloc_ports_def isbadport_def NPORTS_def)
qed

theorem ports_safe_witness:
  "\<exists>r t u. ptinit 10 kports = Some (r, t) \<and> port_use\<^sup>*\<^sup>* \<lparr>psys = t, pend = \<lambda>_. None\<rparr> \<lparr>psys = u, pend = \<lambda>_. None\<rparr> \<and> 0 \<in> alloc_ports u \<and>
    (\<exists>as. plist u 0 as \<and> length as \<le> 5)"
proof -
  obtain r t where t: "ptinit 10 kports = Some (r, t)" using kports_init by blast
  have k: "kinv (pk kports)" "heap_ok (kmem (pk kports)) [(0x10000, 0xEE000)]" "nextsem (pk kports) \<in> sems"
    using krun_facts(1,10,12) kboot_heap by (simp_all add: kports_def)
  obtain u where u: "port_use \<lparr>psys = t, pend = \<lambda>_. None\<rparr> \<lparr>psys = u, pend = \<lambda>_. None\<rparr>" "0 \<in> alloc_ports u" "ptmaxcnt (porttab u 0) = 5"
    by (rule kports_create [OF t])
  have run: "port_use\<^sup>*\<^sup>* \<lparr>psys = t, pend = \<lambda>_. None\<rparr> \<lparr>psys = u, pend = \<lambda>_. None\<rparr>" using u(1) by blast
  have "\<forall>p\<in>alloc_ports u. \<exists>as. plist u p as \<and> int (length as) \<le> ptmaxcnt (porttab u p)"
    using ports_safe [OF k _ _ t run] by simp
  from bspec [OF this u(2)] obtain as where "plist u 0 as" "int (length as) \<le> 5" using u(3) by auto
  then have "plist u 0 as \<and> length as \<le> 5" by simp
  then show ?thesis using t run u(2) by blast
qed

end
