(* ===== verification/Process_Exit.thy ===== *)
theory Process_Exit
  imports Kernel_Frame
begin

text \<open>
  The end of a process: what a call of \<^verbatim>\<open>kill\<close> (\<^verbatim>\<open>system/kill.c\<close>) achieves, over all the times it loses
  the processor, to the parent that its message wakes and in the closing functions of the devices.
\<close>

section \<open>What the closing functions promise\<close>

text \<open>
  The contract of the device table: called by a process other than the null process in a state that satisfies the invariant, a closing function keeps the
  invariant, the heap, the stacks and the set of live processes. It returns to its caller, or loses
  the processor at a later control point, of which it has at most \<open>N\<close>. Semaphores, queues and process states may change.
\<close>

definition closes :: "nat \<Rightarrow> dvcloser \<Rightarrow> bool" where
  "closes N dvclose \<longleftrightarrow>
    (\<forall>d k s. \<not> isbaddev d \<longrightarrow> k \<le> N \<longrightarrow> kinv s \<longrightarrow> currpid s \<noteq> NULLPROC \<longrightarrow>
       (case dvclose d k s of (r, t) \<Rightarrow>
          kinv t \<and> stk_frame s t \<and> (case r of Inl _ \<Rightarrow> currpid t = currpid s | Inr k' \<Rightarrow> k < k' \<and> k' \<le> N)))"

lemma closesD:
  assumes "closes N dvclose" "\<not> isbaddev d" "k \<le> N" "kinv s" "currpid s \<noteq> NULLPROC" "dvclose d k s = (r, t)"
  shows "kinv t" "stk_frame s t" "\<And>x. r = Inl x \<Longrightarrow> currpid t = currpid s" "\<And>j. r = Inr j \<Longrightarrow> k < j \<and> j \<le> N"
  using assms unfolding closes_def by fastforce+

lemma stk_frame_refl: "stk_frame s s"
  by (simp add: stk_frame_def)

text \<open>How far a paused call still has to go: \<open>N + 2\<close> for every descriptor that is not closed.\<close>

fun kill_left :: "nat \<Rightarrow> kill_at \<Rightarrow> nat" where
  "kill_left N After_send = 3 * (N + 2)"
| "kill_left N (In_close n d k) = n * (N + 2) + (N + 1 - k)"

fun pause_ok :: "nat \<Rightarrow> kill_at \<Rightarrow> bool" where
  "pause_ok N After_send = True"
| "pause_ok N (In_close n d k) \<longleftrightarrow> \<not> isbaddev d \<and> k \<le> N"

lemma kill_close_ok:
  assumes c: "closes N dvclose"
  shows "kinv s \<Longrightarrow> currpid s \<noteq> NULLPROC \<Longrightarrow> kill_close dvclose p n s = (r, t) \<Longrightarrow>
    kinv t \<and> stk_frame s t \<and> (r = None \<longrightarrow> currpid t = currpid s) \<and>
    (\<forall>x. r = Some x \<longrightarrow> pause_ok N x \<and> kill_left N x < n * (N + 2))"
proof (induction n arbitrary: s)
  case 0
  then show ?case by (simp add: stk_frame_refl)
next
  case (Suc n)
  let ?d = "prdesc (proctab s p) ! (2 - n)"
  obtain r1 t1 where e: "close dvclose ?d s = (r1, t1)" by (cases "close dvclose ?d s")
  show ?case
  proof (cases "isbaddev ?d")
    case True
    then have "kill_close dvclose p n s = (r, t)" using Suc.prems(3) by (simp add: close_def)
    from Suc.IH [OF Suc.prems(1,2) this] show ?thesis by auto
  next
    case False
    then have "dvclose ?d 0 s = (r1, t1)" using e by (simp add: close_def)
    note D = closesD [OF c False le0 Suc.prems(1,2) this]
    show ?thesis
    proof (cases r1)
      case (Inl x)
      then have k: "kill_close dvclose p n t1 = (r, t)" using Suc.prems(3) e by (simp add: Let_def)
      have "currpid t1 \<noteq> NULLPROC" using D(3) [OF Inl] Suc.prems(2) by simp
      from Suc.IH [OF D(1) this k] show ?thesis using D(2,3) Inl stk_frame_trans by auto
    next
      case (Inr j)
      then have "r = Some (In_close n ?d j)" "t = t1" using Suc.prems(3) e by (simp_all add: Let_def)
      then show ?thesis using D Inr False by auto
    qed
  qed
qed

section \<open>A resumed call\<close>

text \<open>\<open>u\<close> is a state in which a process is being killed by a process that runs; \<open>killed p u bs r t\<close>: the call ended, from \<open>u\<close>, in \<open>t\<close>.\<close>

definition resumable :: "pid32 \<Rightarrow> kstate \<Rightarrow> bool" where
  "resumable p u \<longleftrightarrow> kinv u \<and> currpid u \<noteq> NULLPROC \<and> p \<in> live u \<and> (\<exists>bs. stacks_ok u bs)"

definition killed :: "pid32 \<Rightarrow> kstate \<Rightarrow> blocks \<Rightarrow> kill_call \<Rightarrow> kstate \<Rightarrow> bool" where
  "killed p u bs r t \<longleftrightarrow>
    kinv t \<and> pst t p = PR_FREE \<and> r = (if p = currpid u then Gone else Killed OK) \<and>
    (\<exists>bs'. stacks_ok t bs' \<and> free_bytes bs' = free_bytes bs \<union> stk_region (proctab u p))"

definition kill_paused :: "nat \<Rightarrow> pid32 \<Rightarrow> kstate \<Rightarrow> kill_at \<Rightarrow> kstate \<Rightarrow> bool" where
  "kill_paused N p u x t \<longleftrightarrow> kinv t \<and> stk_frame u t \<and> pause_ok N x"

lemma stk_frame_region: "stk_frame s t \<Longrightarrow> stk_region (proctab t p) = stk_region (proctab s p)"
  by (simp add: stk_frame_def stk_region_def)

lemma kill_end_killed:
  assumes k: "kinv t" and so: "stacks_ok u bs" and fr: "stk_frame u t" and p: "p \<in> live u" and c: "currpid t = currpid u"
  obtains r w where "kill_end p t = Some (r, w)" "killed p u bs r w"
proof -
  have so': "stacks_ok t bs" "p \<in> live t" using stk_frame_ok [OF fr] so p fr by (auto simp: stk_frame_def)
  obtain m bs' where R: "freestk (prstkbase (proctab t p)) (prstklen (proctab t p)) (kmem t) = Some (OK, m)"
    "free_bytes bs' = free_bytes bs \<union> stk_region (proctab t p)"
    "\<And>w. others_same p t w \<Longrightarrow> pst w p = PR_FREE \<Longrightarrow> kmem w = m \<Longrightarrow> stacks_ok w bs'"
    by (rule stacks_release [OF so']) blast
  obtain r w where T: "kill_end p t = Some (r, w)" "kinv w" "others_same p t w" "pst w p = PR_FREE" "kmem w = m"
      "r = (if p = currpid t then Gone else Killed OK)"
    using kill_end_ok [OF k _ _ R(1)] liveD [OF so'(2)] by blast
  have "killed p u bs r w"
    unfolding killed_def using T(2,4,6) R(2) R(3) [OF T(3-5)] c stk_frame_region [OF fr] by auto
  then show thesis using that T(1) by blast
qed

lemma kill_rest_ok:
  assumes c: "closes N dvclose" and t: "kinv t" "currpid t = currpid u" and u: "resumable p u" and so: "stacks_ok u bs" and fr: "stk_frame u t"
  shows "\<exists>r w. kill_rest dvclose p n t = Some (r, w) \<and>
    (killed p u bs r w \<or> (\<exists>x. r = Killing x \<and> kill_paused N p u x w \<and> kill_left N x < n * (N + 2)))"
proof -
  have U: "currpid u \<noteq> NULLPROC" "p \<in> live u" using u by (simp_all add: resumable_def)
  obtain x t1 where e: "kill_close dvclose p n t = (x, t1)" by (cases "kill_close dvclose p n t")
  have nn: "currpid t \<noteq> NULLPROC" using t(2) U(1) by simp
  note K = kill_close_ok [OF c t(1) nn e]
  have fr1: "stk_frame u t1" using K fr stk_frame_trans by blast
  show ?thesis
  proof (cases x)
    case None
    have k1: "kinv t1" "currpid t1 = currpid u" using K None t(2) by auto
    obtain r w where "kill_end p t1 = Some (r, w)" "killed p u bs r w" by (rule kill_end_killed [OF k1(1) so fr1 U(2) k1(2)])
    then show ?thesis using e None by (auto simp: kill_rest_def)
  next
    case (Some y)
    then show ?thesis using e K fr1 by (auto simp: kill_rest_def kill_paused_def)
  qed
qed

lemma kill_cont_ok:
  assumes c: "closes N dvclose" and u: "resumable p u" and so: "stacks_ok u bs" and x: "pause_ok N x"
  shows "\<exists>r w. kill_cont dvclose p x u = Some (r, w) \<and>
    (killed p u bs r w \<or> (\<exists>y. r = Killing y \<and> kill_paused N p u y w \<and> kill_left N y < kill_left N x))"
proof (cases x)
  case After_send
  have "kinv u" using u by (simp add: resumable_def)
  from kill_rest_ok [OF c this refl u so stk_frame_refl, of 3] show ?thesis by (simp add: After_send kill_cont_def)
next
  case (In_close n d k)
  obtain r1 t where e: "dvclose d k u = (r1, t)" by (cases "dvclose d k u")
  have U: "kinv u" "currpid u \<noteq> NULLPROC" "\<not> isbaddev d" "k \<le> N" using u x In_close by (simp_all add: resumable_def)
  note D = closesD [OF c U(3,4,1,2) e]
  show ?thesis
  proof (cases r1)
    case (Inl z)
    from kill_rest_ok [OF c D(1) D(3) [OF Inl] u so D(2), of n] show ?thesis
      using e Inl In_close by (fastforce simp: kill_cont_def)
  next
    case (Inr j)
    then show ?thesis using e In_close D U(3) by (auto simp: kill_cont_def kill_paused_def)
  qed
qed

text \<open>
  The call is resumed in the states of a list, one after the other, until it ends; the result is the state of the last
  resumption, and how the call ended from there. Between two resumptions other processes run, and may do anything that leaves the state \<open>resumable\<close>.
\<close>

fun kill_runs :: "dvcloser \<Rightarrow> pid32 \<Rightarrow> kill_at \<Rightarrow> kstate list \<Rightarrow> (kstate \<times> kill_call \<times> kstate) option" where
  "kill_runs dvclose p x [] = None"
| "kill_runs dvclose p x (u # us) =
    (case kill_cont dvclose p x u of
       None \<Rightarrow> None
     | Some (Killing y, _) \<Rightarrow> kill_runs dvclose p y us
     | Some (r, t) \<Rightarrow> Some (u, r, t))"

lemma killed_not_killing: "killed p u bs r t \<Longrightarrow> r \<noteq> Killing x"
  by (auto simp: killed_def)

lemma kill_runs_ok:
  assumes c: "closes N dvclose"
  shows "pause_ok N x \<Longrightarrow> kill_left N x \<le> length us \<Longrightarrow> \<forall>u\<in>set us. resumable p u \<Longrightarrow>
    \<exists>u r t. u \<in> set us \<and> kill_runs dvclose p x us = Some (u, r, t) \<and> (\<forall>bs. stacks_ok u bs \<longrightarrow> killed p u bs r t)"
proof (induction us arbitrary: x)
  case Nil
  then have "kill_left N x = 0" by simp
  then show ?case using Nil.prems(1) by (cases x) auto
next
  case (Cons u us)
  have u: "resumable p u" using Cons.prems(3) by simp
  then obtain bs where so: "stacks_ok u bs" by (auto simp: resumable_def)
  obtain r w where K: "kill_cont dvclose p x u = Some (r, w)"
      "killed p u bs r w \<or> (\<exists>y. r = Killing y \<and> kill_paused N p u y w \<and> kill_left N y < kill_left N x)"
    using kill_cont_ok [OF c u so Cons.prems(1)] by blast
  show ?case
  proof (cases "\<exists>y. r = Killing y")
    case True
    then obtain y where y: "r = Killing y" ..
    then have "kill_paused N p u y w" "kill_left N y < kill_left N x" using K(2) by (auto dest: killed_not_killing)
    then show ?thesis using Cons.IH [of y] Cons.prems(2,3) K(1) y by (auto simp: kill_paused_def)
  next
    case False
    have "killed p u b r w" if b: "stacks_ok u b" for b
      using kill_cont_ok [OF c u b Cons.prems(1)] K(1) False by auto
    moreover have "kill_runs dvclose p x (u # us) = Some (u, r, w)" using K(1) False by (cases r) auto
    ultimately show ?thesis by fastforce
  qed
qed

section \<open>The call as a whole\<close>

lemma kill_ok:
  assumes k: "kinv s" and nn: "currpid s \<noteq> NULLPROC" and so: "stacks_ok s bs" and c: "closes N dvclose" and p: "p \<in> live s" and n: "2 < prcount s"
  shows "\<exists>r t. kill dvclose p s = Some (r, t) \<and>
    (killed p s bs r t \<or> (\<exists>x. r = Killing x \<and> kill_paused N p s x t \<and> kill_left N x \<le> 3 * (N + 2)))"
proof -
  note L = liveD [OF p]
  let ?s1 = "s\<lparr>prcount := prcount s - 1\<rparr>"
  note K1 = kinv_upd_cong [OF k, of ?s1, simplified]
  obtain x u where S: "send (prparent (proctab s p)) (word_of_int p) ?s1 = Some (x, u)" "kinv u" "stk_frame ?s1 u"
      "sync ?s1 \<Longrightarrow> top_prio ?s1 \<Longrightarrow> sync u \<and> top_prio u" "nextpid u = nextpid ?s1" "nextsem u = nextsem ?s1" "prcount u = prcount ?s1"
    by (rule send_stk_frame [OF K1(1)]) blast
  have e: "kill dvclose p s = (if currpid u = currpid s then kill_cont dvclose p After_send u else Some (Killing After_send, u))"
    using L S(1) n pids_notbad [of p s] by (auto simp: kill_def Let_def)
  have fr: "stk_frame s u" using S(3) by (simp add: stk_frame_def live_def)
  show ?thesis
  proof (cases "currpid u = currpid s")
    case True
    have r: "resumable p s" using k nn p so by (auto simp: resumable_def)
    have "kill dvclose p s = kill_rest dvclose p 3 u" using e True by (simp add: kill_cont_def)
    then show ?thesis using kill_rest_ok [OF c S(2) True r so fr, of 3] less_imp_le by metis
  next
    case False
    then show ?thesis using e S(2) fr by (auto simp: kill_paused_def)
  qed
qed

section \<open>Closing a local file\<close>

text \<open>\<^verbatim>\<open>wait\<close> and \<^verbatim>\<open>signal\<close>, called on any semaphore, keep what the contract asks for.\<close>

lemma stk_frame_kframe: "kframe s t \<Longrightarrow> (\<And>y. pst t y = PR_FREE \<longleftrightarrow> pst s y = PR_FREE) \<Longrightarrow> stk_frame s t"
  by (simp add: stk_frame_def kframe_def live_def)

lemma wait_stk_frame:
  assumes k: "kinv s" and nn: "currpid s \<noteq> NULLPROC"
  obtains r t where "wait_sem i s = Some (r, t)" "kinv t" "stk_frame s t"
proof (cases "isbadsem i \<or> sstate (semtab s i) = S_FREE")
  case True
  then show thesis using that [of SYSERR s] k by (auto simp: wait_sem_def stk_frame_refl)
next
  case False
  then have i: "i \<in> sems" "sstate (semtab s i) = S_USED" using not_badsem [of i] by (cases "sstate (semtab s i)"; simp)+
  show thesis
  proof (cases "0 < scount (semtab s i)")
    case True
    note W = wait_passes [OF k i True]
    show thesis by (rule that [OF W(1,2)]) (rule stk_frame_kframe [OF kframe_wait [OF W(1)]], simp)
  next
    case False
    then have c: "scount (semtab s i) \<le> 0" by simp
    obtain t where T: "wait_sem i s = Some (OK, t)" "kinv t" "\<And>y. pst t y = PR_FREE \<longleftrightarrow> pst s y = PR_FREE"
      by (rule wait_blocks [OF k i c nn]) (rule that; assumption)
    show thesis by (rule that [OF T(1,2)]) (rule stk_frame_kframe [OF kframe_wait [OF T(1)] T(3)])
  qed
qed

lemma signal_stk_frame:
  assumes k: "kinv s"
  obtains r t where "signal i s = Some (r, t)" "kinv t" "stk_frame s t"
proof (cases "isbadsem i \<or> sstate (semtab s i) = S_FREE")
  case True
  then show thesis using that [of SYSERR s] k by (auto simp: signal_def stk_frame_refl)
next
  case False
  then have i: "i \<in> sems" "sstate (semtab s i) = S_USED" using not_badsem [of i] by (cases "sstate (semtab s i)"; simp)+
  show thesis
  proof (cases "scount (semtab s i) < 0")
    case True
    obtain t where T: "signal i s = Some (OK, t)" "kinv t" "\<And>y. pst t y = PR_FREE \<longleftrightarrow> pst s y = PR_FREE"
      by (rule signal_wakes [OF k i True]) (rule that; assumption)
    show thesis by (rule that [OF T(1,2)]) (rule stk_frame_kframe [OF kframe_signal [OF T(1)] T(3)])
  next
    case False
    then have c: "0 \<le> scount (semtab s i)" by simp
    note S = signal_counts [OF k i c]
    show thesis by (rule that [OF S]) (rule stk_frame_kframe [OF kframe_signal [OF S(1)]], simp add: bump_def)
  qed
qed

text \<open>
  What \<^verbatim>\<open>lflclose\<close> does for a file that is not open: it waits for the mutex of the file, signals it and returns
  \<^verbatim>\<open>SYSERR\<close>; it may lose the processor in \<^verbatim>\<open>wait\<close> and in \<^verbatim>\<open>signal\<close>. \<open>mutex\<close> gives the semaphore of each device;
  the other devices have \<^verbatim>\<open>ionull\<close>.
\<close>

definition unlock_file :: "sid32 \<Rightarrow> kstate \<Rightarrow> (int + nat) \<times> kstate" where
  "unlock_file i s =
    (case signal i s of None \<Rightarrow> (Inl SYSERR, s) | Some (_, t) \<Rightarrow> (if currpid t = currpid s then Inl SYSERR else Inr 2, t))"

definition close_unopened :: "(did32 \<Rightarrow> sid32 option) \<Rightarrow> dvcloser" where
  "close_unopened mutex d k s =
    (case mutex d of
       None \<Rightarrow> (Inl OK, s)
     | Some i \<Rightarrow>
         if k = 0 then
           (case wait_sem i s of None \<Rightarrow> (Inl SYSERR, s) | Some (_, t) \<Rightarrow> if currpid t = currpid s then unlock_file i t else (Inr 1, t))
         else if k = 1 then unlock_file i s
         else (Inl SYSERR, s))"

lemma unlock_file_ok:
  assumes "kinv s" and "unlock_file i s = (r, t)"
  shows "kinv t \<and> stk_frame s t \<and> (case r of Inl _ \<Rightarrow> currpid t = currpid s | Inr k \<Rightarrow> k = 2)"
  by (rule signal_stk_frame [OF assms(1), of i]) (use assms(2) in \<open>auto simp: unlock_file_def split: if_splits\<close>)

lemma close_unopened_closes: "closes 2 (close_unopened mutex)"
  unfolding closes_def
proof (intro allI impI)
  fix d k s
  assume k2: "k \<le> (2 :: nat)" and k: "kinv s" and nn: "currpid s \<noteq> NULLPROC"
  obtain r t where e: "close_unopened mutex d k s = (r, t)" by (cases "close_unopened mutex d k s")
  have "kinv t \<and> stk_frame s t \<and> (case r of Inl _ \<Rightarrow> currpid t = currpid s | Inr j \<Rightarrow> k < j \<and> j \<le> 2)"
  proof (cases "mutex d")
    case None
    then show ?thesis using e k by (auto simp: close_unopened_def stk_frame_refl)
  next
    case (Some i)
    obtain rw w where W: "wait_sem i s = Some (rw, w)" "kinv w" "stk_frame s w" by (rule wait_stk_frame [OF k nn])
    consider "k = 0" "currpid w = currpid s" | "k = 0" "currpid w \<noteq> currpid s" | "k = 1" | "k = 2" using k2 by linarith
    then show ?thesis
    proof cases
      case 1
      then have "unlock_file i w = (r, t)" using e Some W(1) by (simp add: close_unopened_def)
      from unlock_file_ok [OF W(2) this] show ?thesis using 1 stk_frame_trans [OF W(3)] by (auto split: sum.splits)
    next
      case 2
      then show ?thesis using e Some W by (auto simp: close_unopened_def)
    next
      case 3
      then have "unlock_file i s = (r, t)" using e Some by (simp add: close_unopened_def)
      from unlock_file_ok [OF k this] show ?thesis using 3 by (auto split: sum.splits)
    next
      case 4
      then show ?thesis using e Some k by (auto simp: close_unopened_def stk_frame_refl)
    qed
  qed
  then show "case close_unopened mutex d k s of (r, t) \<Rightarrow>
      kinv t \<and> stk_frame s t \<and> (case r of Inl _ \<Rightarrow> currpid t = currpid s | Inr j \<Rightarrow> k < j \<and> j \<le> 2)"
    using e by simp
qed

section \<open>The property\<close>

text \<open>
  C7. \<^verbatim>\<open>kill\<close> of a live process by a process other than the null process, when more than two processes are counted (so that the
  machine is not stopped), over a device table whose closing functions keep the contract \<open>closes N\<close>: they keep the
  invariant, the heap, the stacks and the set of live processes, may wait and signal, and pause at most \<open>N\<close>
  times each. The call then either ends at once, or pauses, after the message to the parent or in a closing function, with the process alive
  and every stack as it was. Resumed again and again, whatever the other processes did in between, as long as each of those states satisfies the
  invariant and still has the process alive and the stacks in order, the call ends after at most \<open>3 * (N + 2)\<close> resumptions.
  When it ends, the process is free, exactly its stack has joined the free bytes, and every other stack is private as before.
\<close>

theorem kill_releases_stack:
  assumes "kinv s" and "currpid s \<noteq> NULLPROC" and "stacks_ok s bs" and "closes N dvclose" and "p \<in> live s" and "2 < prcount s"
  shows "\<exists>r t. kill dvclose p s = Some (r, t) \<and>
    (killed p s bs r t \<or>
     (\<exists>x. r = Killing x \<and> kinv t \<and> p \<in> live t \<and> stacks_ok t bs \<and>
        (\<forall>us. (\<forall>u\<in>set us. resumable p u) \<and> 3 * (N + 2) \<le> length us \<longrightarrow>
           (\<exists>u r' t'. u \<in> set us \<and> kill_runs dvclose p x us = Some (u, r', t') \<and> (\<forall>bs'. stacks_ok u bs' \<longrightarrow> killed p u bs' r' t')))))"
proof -
  obtain r t where K: "kill dvclose p s = Some (r, t)"
      "killed p s bs r t \<or> (\<exists>x. r = Killing x \<and> kill_paused N p s x t \<and> kill_left N x \<le> 3 * (N + 2))"
    using kill_ok [OF assms] by blast
  from K(2) show ?thesis
  proof
    assume "killed p s bs r t"
    then show ?thesis using K(1) by blast
  next
    assume "\<exists>x. r = Killing x \<and> kill_paused N p s x t \<and> kill_left N x \<le> 3 * (N + 2)"
    then obtain x where x: "r = Killing x" "kinv t" "stk_frame s t" "pause_ok N x" "kill_left N x \<le> 3 * (N + 2)"
      by (auto simp: kill_paused_def)
    have "stacks_ok t bs" "p \<in> live t" using stk_frame_ok [OF x(3)] assms(3,5) x(3) by (auto simp: stk_frame_def)
    then show ?thesis using K(1) x(1,2) kill_runs_ok [OF assms(4) x(4)] x(5) le_trans by blast
  qed
qed

text \<open>Two processes besides the null process; the serial device, which every process has open, is \<^verbatim>\<open>ionull\<close>, the others wait for semaphore 0.\<close>

theorem kill_releases_stack_witness:
  "\<exists>r t. kill (close_unopened (\<lambda>d. if d = SERIAL0 then None else Some 0)) 2 kstacks = Some (r, t) \<and> kinv t"
proof -
  have "currpid kstacks \<noteq> NULLPROC" "2 < prcount kstacks" "2 \<in> live kstacks"
    using kpair_facts(4) kstacks_facts(3) by (simp_all add: kstacks_def NULLPROC_def)
  from kill_releases_stack [OF kstacks_facts(1) this(1) kstacks_facts(2) close_unopened_closes [of "\<lambda>d. if d = SERIAL0 then None else Some 0"] this(3,2)]
  show ?thesis unfolding killed_def by blast
qed

end
