(* ===== verification/Buffer_Pool.thy ===== *)
theory Buffer_Pool
  imports Sem_Tokens
begin

text \<open>
  Buffer pools (\<^verbatim>\<open>system/bufinit.c\<close>, \<^verbatim>\<open>mkbufpool.c\<close>, \<^verbatim>\<open>getbuf.c\<close>, \<^verbatim>\<open>freebuf.c\<close>, \<^verbatim>\<open>include/bufpool.h\<close>).
  A pool is one piece of the heap cut into buffers of equal size, the free ones linked through
  their first word; a semaphore counts them. A buffer that is handed out holds the number of
  its pool in that word, and the caller gets the address behind it.

  The words of the buffers are \<open>bword\<close>. \<^verbatim>\<open>getbuf\<close> may lose the processor in \<^verbatim>\<open>wait\<close>; what it does
  afterwards is \<open>getbuf_cont\<close>.
\<close>

section \<open>State and operations\<close>

record bpentry =
  bpnext :: uint32
  bpsem :: sid32
  bpsize :: uint32

record bufsys =
  bk :: kstate
  buftab :: "int \<Rightarrow> bpentry"
  nbpools :: int
  bword :: "uint32 \<Rightarrow> uint32"

definition NBPOOLS :: int where "NBPOOLS = 20"
definition BP_MAXB :: int where "BP_MAXB = 8192"
definition BP_MINB :: int where "BP_MINB = 8"
definition BP_MAXN :: int where "BP_MAXN = 2048"

abbreviation upd_pool :: "int \<Rightarrow> (bpentry \<Rightarrow> bpentry) \<Rightarrow> bufsys \<Rightarrow> bufsys" where
  "upd_pool p f s \<equiv> s\<lparr>buftab := (buftab s)(p := f (buftab s p))\<rparr>"

abbreviation upd_bword :: "uint32 \<Rightarrow> uint32 \<Rightarrow> bufsys \<Rightarrow> bufsys" where
  "upd_bword a v s \<equiv> s\<lparr>bword := (bword s)(a := v)\<rparr>"

definition bufinit :: "bufsys \<Rightarrow> int \<times> bufsys" where
  "bufinit s = (OK, s\<lparr>nbpools := 0\<rparr>)"

text \<open>The loop that links the buffers; \<open>n\<close> is \<^verbatim>\<open>numbufs\<close> after its first decrement.\<close>

primrec link_bufs :: "nat \<Rightarrow> uint32 \<Rightarrow> uint32 \<Rightarrow> bufsys \<Rightarrow> bufsys" where
  "link_bufs 0 bufsiz buf s = upd_bword buf 0 s"
| "link_bufs (Suc n) bufsiz buf s = link_bufs n bufsiz (buf + bufsiz) (upd_bword buf (buf + bufsiz) s)"

definition round4 :: "int \<Rightarrow> int" where
  "round4 b = (b + 3) AND (NOT 3)"

definition mkbufpool :: "int \<Rightarrow> int \<Rightarrow> bufsys \<Rightarrow> (int \<times> bufsys) option" where
  "mkbufpool bufsiz0 numbufs s =
    (if bufsiz0 < BP_MINB \<or> bufsiz0 > BP_MAXB \<or> numbufs < 1 \<or> numbufs > BP_MAXN \<or> nbpools s \<ge> NBPOOLS then Some (SYSERR, s)
     else
       let bufsiz = round4 bufsiz0 in do {
         (buf, m) \<leftarrow> getmem (word_of_int (numbufs * (bufsiz + 4))) (kmem (bk s));
         let s1 = s\<lparr>bk := (bk s)\<lparr>kmem := m\<rparr>\<rparr>;
         if buf = SYSERR_PTR then Some (SYSERR, s1)
         else
           let poolid = nbpools s1;
               s2 = upd_pool poolid (\<lambda>e. e\<lparr>bpnext := buf, bpsize := word_of_int bufsiz\<rparr>) (s1\<lparr>nbpools := poolid + 1\<rparr>);
               (sem, k) = semcreate numbufs (bk s2);
               s3 = upd_pool poolid (\<lambda>e. e\<lparr>bpsem := sem\<rparr>) (s2\<lparr>bk := k\<rparr>)
           in if sem = SYSERR then Some (SYSERR, s3\<lparr>nbpools := nbpools s3 - 1\<rparr>)
              else Some (poolid, link_bufs (nat (numbufs - 1)) (word_of_int (bufsiz + 4)) buf s3) })"

definition getbuf_cont :: "int \<Rightarrow> bufsys \<Rightarrow> uint32 \<times> bufsys" where
  "getbuf_cont poolid s =
    (let bufptr = bpnext (buftab s poolid);
         s1 = upd_pool poolid (\<lambda>e. e\<lparr>bpnext := bword s bufptr\<rparr>) s;
         s2 = upd_bword bufptr (word_of_int poolid) s1
     in (4 + bufptr, s2))"

definition getbuf :: "int \<Rightarrow> bufsys \<Rightarrow> (uint32 call \<times> bufsys) option" where
  "getbuf poolid s =
    (if poolid < 0 \<or> poolid \<ge> nbpools s then Some (Ret SYSERR_PTR, s)
     else do {
       (_, k) \<leftarrow> wait_sem (bpsem (buftab s poolid)) (bk s);
       if currpid k \<noteq> currpid (bk s) then Some (Blocked, s\<lparr>bk := k\<rparr>)
       else let (a, t) = getbuf_cont poolid (s\<lparr>bk := k\<rparr>) in Some (Ret a, t) })"

definition freebuf :: "uint32 \<Rightarrow> bufsys \<Rightarrow> (int \<times> bufsys) option" where
  "freebuf bufaddr0 s =
    (let bufaddr = bufaddr0 - 4;
         poolid = sint (bword s bufaddr)
     in if poolid < 0 \<or> poolid \<ge> nbpools s then Some (SYSERR, s)
        else
          let s1 = upd_bword bufaddr (bpnext (buftab s poolid)) s;
              s2 = upd_pool poolid (\<lambda>e. e\<lparr>bpnext := bufaddr\<rparr>) s1
          in do { (_, k) \<leftarrow> signal (bpsem (buftab s2 poolid)) (bk s2); Some (OK, s2\<lparr>bk := k\<rparr>) })"

section \<open>The buffers in memory\<close>

fun bpath :: "(uint32 \<Rightarrow> uint32) \<Rightarrow> uint32 \<Rightarrow> uint32 list \<Rightarrow> bool" where
  "bpath W p [] \<longleftrightarrow> p = 0"
| "bpath W p (a # as) \<longleftrightarrow> p = a \<and> a \<noteq> 0 \<and> bpath W (W a) as"

lemma bpath_upd [simp]: "a \<notin> set as \<Longrightarrow> bpath (W(a := v)) p as = bpath W p as"
  by (induction as arbitrary: p) auto

lemma bpath_cong: "(\<And>a. a \<in> set as \<Longrightarrow> W' a = W a) \<Longrightarrow> bpath W' p as = bpath W p as"
  by (induction as arbitrary: p) auto

text \<open>The bytes of a buffer of \<open>sz\<close> bytes with its header.\<close>

definition node_bytes :: "uint32 \<Rightarrow> uint32 \<Rightarrow> nat set" where
  "node_bytes a sz = {unat a..<unat a + unat sz + 4}"

abbreviation bpools :: "bufsys \<Rightarrow> int set" where "bpools s \<equiv> {0..<nbpools s}"

abbreviation psize :: "bufsys \<Rightarrow> int \<Rightarrow> uint32" where "psize s p \<equiv> bpsize (buftab s p)"

text \<open>
  \<open>layout s R area\<close>: the buffers \<open>R p\<close> of every pool \<open>p\<close> lie in \<open>area\<close> and do not overlap.
\<close>

definition layout :: "bufsys \<Rightarrow> (int \<Rightarrow> uint32 set) \<Rightarrow> nat set \<Rightarrow> bool" where
  "layout s R area \<longleftrightarrow> (\<forall>p\<in>bpools s. \<forall>a\<in>R p.
     a \<noteq> 0 \<and> unat a + unat (psize s p) + 4 < 2 ^ 32 \<and> node_bytes a (psize s p) \<subseteq> area \<and>
     (\<forall>q\<in>bpools s. \<forall>b\<in>R q. (p, a) \<noteq> (q, b) \<longrightarrow> node_bytes a (psize s p) \<inter> node_bytes b (psize s q) = {}))"

text \<open>The free list \<open>F p\<close> of a pool, and the tag in the buffers that are out.\<close>

definition pool_list :: "bufsys \<Rightarrow> int \<Rightarrow> uint32 set \<Rightarrow> uint32 list \<Rightarrow> bool" where
  "pool_list s p A fl \<longleftrightarrow> bpath (bword s) (bpnext (buftab s p)) fl \<and> distinct fl \<and> set fl \<subseteq> A \<and>
     (\<forall>a\<in>A - set fl. bword s a = word_of_int p)"

definition out :: "bufsys \<Rightarrow> (int \<Rightarrow> uint32 set) \<Rightarrow> (int \<Rightarrow> uint32 list) \<Rightarrow> uint32 set" where
  "out s R F = (\<Union>p\<in>bpools s. (+) 4 ` (R p - set (F p)))"

definition bmem :: "bufsys \<Rightarrow> (int \<Rightarrow> uint32 set) \<Rightarrow> (int \<Rightarrow> uint32 list) \<Rightarrow> nat set \<Rightarrow> bool" where
  "bmem s R F area \<longleftrightarrow> 0 \<le> nbpools s \<and> nbpools s \<le> NBPOOLS \<and> layout s R area \<and> (\<forall>p\<in>bpools s. pool_list s p (R p) (F p))"

lemma layoutD:
  assumes "layout s R area" "p \<in> bpools s" "a \<in> R p"
  shows "a \<noteq> 0" "unat a + unat (psize s p) + 4 < 2 ^ 32" "node_bytes a (psize s p) \<subseteq> area"
    "\<And>q b. q \<in> bpools s \<Longrightarrow> b \<in> R q \<Longrightarrow> (p, a) \<noteq> (q, b) \<Longrightarrow> node_bytes a (psize s p) \<inter> node_bytes b (psize s q) = {}"
  using assms unfolding layout_def by blast+

lemma node_in: "unat a \<in> node_bytes a sz"
  by (simp add: node_bytes_def)

lemma layout_disjoint:
  assumes "layout s R area" "p \<in> bpools s" "q \<in> bpools s" "p \<noteq> q"
  shows "R p \<inter> R q = {}"
  using layoutD(4) [OF assms(1,2) _ assms(3)] assms(4) node_in by blast

lemma out_iff: "4 + a \<in> out s R F \<longleftrightarrow> (\<exists>p\<in>bpools s. a \<in> R p \<and> a \<notin> set (F p))"
  by (auto simp: out_def image_iff)

lemma out_upd:
  assumes "layout s R area" "p \<in> bpools s" "nbpools t = nbpools s" "a \<in> R p"
  shows "a \<notin> set (F p) \<Longrightarrow> out t R (F(p := a # F p)) = out s R F - {4 + a}"
    "F p = a # fl \<Longrightarrow> a \<notin> set fl \<Longrightarrow> out t R (F(p := fl)) = insert (4 + a) (out s R F)"
    "a \<in> set (F p) \<Longrightarrow> 4 + a \<notin> out s R F"
proof -
  define rest where "rest = (\<Union>q\<in>bpools s - {p}. (+) 4 ` (R q - set (F q)))"
  have s: "out s R F = (+) 4 ` (R p - set (F p)) \<union> rest" using assms(2) by (auto simp: out_def rest_def)
  have b: "bpools s = insert p (bpools s - {p})" using assms(2) by auto
  have t: "out t R (F(p := l)) = (+) 4 ` (R p - set l) \<union> rest" for l
  proof -
    have "(\<Union>q\<in>bpools s - {p}. (+) 4 ` (R q - set ((F(p := l)) q))) = rest" unfolding rest_def by (rule SUP_cong) auto
    then show ?thesis unfolding out_def assms(3) by (subst b) (simp only: UN_insert fun_upd_same)
  qed
  have "a \<notin> R q" if "q \<in> bpools s" "q \<noteq> p" for q using layout_disjoint [OF assms(1,2) that(1)] that(2) assms(4) by blast
  then have "4 + a \<notin> rest" by (auto simp: rest_def)
  then show "a \<notin> set (F p) \<Longrightarrow> out t R (F(p := a # F p)) = out s R F - {4 + a}"
    "F p = a # fl \<Longrightarrow> a \<notin> set fl \<Longrightarrow> out t R (F(p := fl)) = insert (4 + a) (out s R F)"
    "a \<in> set (F p) \<Longrightarrow> 4 + a \<notin> out s R F"
    using assms(4) unfolding s t by auto
qed

lemma bmemD:
  assumes "bmem s R F area" "p \<in> bpools s"
  shows "bpath (bword s) (bpnext (buftab s p)) (F p)" "distinct (F p)" "set (F p) \<subseteq> R p"
    "\<And>a. a \<in> R p \<Longrightarrow> a \<notin> set (F p) \<Longrightarrow> bword s a = word_of_int p"
  using assms by (auto simp: bmem_def pool_list_def)

lemma layout_frame: "nbpools t = nbpools s \<Longrightarrow> (\<And>p. psize t p = psize s p) \<Longrightarrow> layout t R area = layout s R area"
  by (simp add: layout_def)

text \<open>Writing one word of a buffer of pool \<open>p\<close> keeps the other pools.\<close>

lemma pool_list_other:
  assumes "bmem s R F area" "p \<in> bpools s" "a \<in> R p" "q \<in> bpools s" "q \<noteq> p" "buftab t q = buftab s q" "bword t = (bword s)(a := v)"
  shows "pool_list t q (R q) (F q)"
proof -
  have "layout s R area" using assms(1) by (simp add: bmem_def)
  then have a: "a \<notin> R q" using layout_disjoint assms(2-5) by blast
  then have "a \<notin> set (F q)" using bmemD(3) [OF assms(1,4)] by blast
  then show ?thesis using a bmemD [OF assms(1,4)] assms(6,7) by (auto simp: pool_list_def)
qed

lemma getbuf_mem:
  assumes I: "bmem s R F area" and p: "p \<in> bpools s" and f: "F p = a # fl"
  obtains t where "getbuf_cont p s = (4 + a, t)" "bmem t R (F(p := fl)) area" "bk t = bk s" "nbpools t = nbpools s"
    "\<And>q. bpsem (buftab t q) = bpsem (buftab s q)" "\<And>q. psize t q = psize s q"
    "out t R (F(p := fl)) = insert (4 + a) (out s R F)" "4 + a \<notin> out s R F"
    "\<And>w. w \<noteq> a \<Longrightarrow> bword t w = bword s w"
proof -
  note D = bmemD [OF I p, unfolded f]
  let ?t = "upd_bword a (word_of_int p) (upd_pool p (\<lambda>e. e\<lparr>bpnext := bword s a\<rparr>) s)"
  have e: "getbuf_cont p s = (4 + a, ?t)" using D(1) by (simp add: getbuf_cont_def Let_def)
  have a: "a \<in> R p" "a \<notin> set fl" using D(2,3) by auto
  have lay: "layout s R area" using I by (simp add: bmem_def)
  have "pool_list ?t p (R p) fl" using D a by (auto simp: pool_list_def)
  moreover have "pool_list ?t q (R q) (F q)" if "q \<in> bpools s" "q \<noteq> p" for q
    by (rule pool_list_other [OF I p a(1) that]) (use that in simp_all)
  ultimately have m: "bmem ?t R (F(p := fl)) area" using I lay layout_frame [of ?t s R area] by (simp add: bmem_def)
  have o: "out ?t R (F(p := fl)) = insert (4 + a) (out s R F)" "4 + a \<notin> out s R F"
    using out_upd(2,3) [OF lay p, where a = a and F = F] a f by simp_all
  show thesis by (rule that [OF e m _ _ _ _ o]) auto
qed

lemma freebuf_mem:
  assumes I: "bmem s R F area" and p: "p \<in> bpools s" and a: "a \<in> R p" "a \<notin> set (F p)"
  defines "t \<equiv> upd_pool p (\<lambda>e. e\<lparr>bpnext := a\<rparr>) (upd_bword a (bpnext (buftab s p)) s)"
  shows "bmem t R (F(p := a # F p)) area" "out t R (F(p := a # F p)) = out s R F - {4 + a}" "sint (bword s a) = p"
proof -
  note D = bmemD [OF I p]
  have lay: "layout s R area" using I by (simp add: bmem_def)
  have nz: "a \<noteq> 0" using layoutD(1) [OF lay p a(1)] .
  have N: "0 \<le> p" "p < 20" using p I by (auto simp: bmem_def NBPOOLS_def)
  have "sint (word_of_int p :: uint32) = p"
    using N by (simp add: signed_of_int signed_take_bit_int_eq_self)
  then show "sint (bword s a) = p" using D(4) [OF a] by simp
  have "pool_list t p (R p) (a # F p)" using D a nz by (auto simp: pool_list_def t_def)
  moreover have "pool_list t q (R q) (F q)" if "q \<in> bpools s" "q \<noteq> p" for q
    by (rule pool_list_other [OF I p a(1) that]) (use that in \<open>simp_all add: t_def\<close>)
  ultimately show "bmem t R (F(p := a # F p)) area" using I layout_frame [of t s R area] by (simp add: bmem_def t_def)
  show "out t R (F(p := a # F p)) = out s R F - {4 + a}"
    using out_upd(1) [OF lay p, where a = a and F = F and t = t] a by (simp add: t_def)
qed

text \<open>A write by the holder of a buffer, behind its header.\<close>

lemma write_mem:
  assumes I: "bmem s R F area" and p: "p \<in> bpools s" and a: "a \<in> R p" "a \<notin> set (F p)" and j: "4 \<le> j" "j < unat (psize s p) + 4"
  shows "bmem (upd_bword (a + of_nat j) v s) R F area"
proof -
  have lay: "layout s R area" using I by (simp add: bmem_def)
  note L = layoutD [OF lay p a(1)]
  have w: "unat (a + of_nat j) = unat a + j" using L(2) j by (simp add: unat_word_ariths unat_of_nat)
  have wn: "a + of_nat j \<noteq> b" if "q \<in> bpools s" "b \<in> R q" for q b
  proof (cases "(p, a) = (q, b)")
    case True
    then show ?thesis using w j(1) by (metis add_diff_cancel_left' diff_self_eq_0 le_zero_eq prod.inject zero_neq_numeral)
  next
    case False
    have "unat (a + of_nat j) \<in> node_bytes a (psize s p)" using w j(2) by (simp add: node_bytes_def)
    then show ?thesis using L(4) [OF that False] node_in [of b "psize s q"] by blast
  qed
  have "pool_list (upd_bword (a + of_nat j) v s) q (R q) (F q)" if q: "q \<in> bpools s" for q
  proof -
    have n: "a + of_nat j \<notin> set (F q)" "a + of_nat j \<notin> R q" using bmemD(3) [OF I q] wn [OF q] by blast+
    show ?thesis using bmemD [OF I q] n by (auto simp: pool_list_def)
  qed
  then show ?thesis using I layout_frame [of "upd_bword (a + of_nat j) v s" s R area] by (simp add: bmem_def)
qed

section \<open>Making a pool\<close>

lemma link_bufs_frame [simp]:
  "bk (link_bufs n z b s) = bk s" "buftab (link_bufs n z b s) = buftab s" "nbpools (link_bufs n z b s) = nbpools s"
  by (induction n arbitrary: b s) simp_all

definition pool_nodes :: "uint32 \<Rightarrow> uint32 \<Rightarrow> nat \<Rightarrow> uint32 list" where
  "pool_nodes buf siz n = map (\<lambda>i. buf + of_nat i * siz) [0..<n]"

lemma pool_nodes_Suc: "pool_nodes buf siz (Suc n) = buf # pool_nodes (buf + siz) siz n"
  by (simp add: pool_nodes_def upt_conv_Cons map_Suc_upt [symmetric] algebra_simps del: upt_Suc)

lemma pool_nodes_length [simp]: "length (pool_nodes buf siz n) = n"
  by (simp add: pool_nodes_def)

lemma unat_node:
  fixes buf siz :: uint32
  assumes "unat buf + n * unat siz < 2 ^ 32" "i < n"
  shows "unat (buf + of_nat i * siz) = unat buf + i * unat siz"
proof -
  have "i * unat siz \<le> n * unat siz" using assms(2) by simp
  then have "unat buf + i * unat siz < 2 ^ 32" using assms(1) by linarith
  moreover have "buf + of_nat i * siz = of_nat (unat buf + i * unat siz)" by simp
  ultimately show ?thesis by (simp only: unat_of_nat take_bit_nat_eq_self) (simp add: take_bit_nat_eq_self)
qed

lemma link_bufs_path:
  assumes "unat buf + Suc n * unat siz < 2 ^ 32" "buf \<noteq> 0" "0 < unat siz"
  shows "bpath (bword (link_bufs n siz buf s)) buf (pool_nodes buf siz (Suc n)) \<and>
    (\<forall>w. w \<notin> set (pool_nodes buf siz (Suc n)) \<longrightarrow> bword (link_bufs n siz buf s) w = bword s w)"
  using assms
proof (induction n arbitrary: buf s)
  case 0
  then show ?case by (simp add: pool_nodes_def)
next
  case (Suc n)
  have u: "unat (buf + siz) = unat buf + unat siz" using Suc.prems(1) by (simp add: unat_word_ariths)
  have b: "buf \<notin> set (pool_nodes (buf + siz) siz (Suc n))"
  proof
    assume "buf \<in> set (pool_nodes (buf + siz) siz (Suc n))"
    then obtain i where i: "i < Suc n" "buf = (buf + siz) + of_nat i * siz"
      unfolding pool_nodes_def set_map set_upt by (elim imageE) (metis atLeastLessThan_iff)
    have "unat ((buf + siz) + of_nat i * siz) = unat buf + unat siz + i * unat siz"
      using unat_node [of "buf + siz" "Suc n" siz i] i(1) u Suc.prems(1) by simp
    with arg_cong [OF i(2), of unat] have "unat buf = unat buf + unat siz + i * unat siz" by (rule trans)
    then show False using Suc.prems(3) by simp
  qed
  have nz: "buf + siz \<noteq> 0" using u Suc.prems(3) by auto
  have "unat (buf + siz) + Suc n * unat siz < 2 ^ 32" using u Suc.prems(1) by simp
  note IH = Suc.IH [OF this nz Suc.prems(3), of "upd_bword buf (buf + siz) s"]
  have "bword (link_bufs (Suc n) siz buf s) buf = buf + siz" using IH b by simp
  then show ?case using IH Suc.prems(2) pool_nodes_Suc [of buf siz "Suc n"] by simp
qed

lemma pool_nodes_props:
  assumes "unat buf + n * (unat sz + 4) < 2 ^ 32" "siz = sz + 4" "unat siz = unat sz + 4" "buf \<noteq> 0"
  shows "distinct (pool_nodes buf siz n)"
    "a \<in> set (pool_nodes buf siz n) \<Longrightarrow> a \<noteq> 0 \<and> node_bytes a sz \<subseteq> {unat buf..<unat buf + n * (unat sz + 4)}"
    "a \<in> set (pool_nodes buf siz n) \<Longrightarrow> b \<in> set (pool_nodes buf siz n) \<Longrightarrow> a \<noteq> b \<Longrightarrow> node_bytes a sz \<inter> node_bytes b sz = {}"
proof -
  let ?z = "unat sz + 4"
  have e: "unat (buf + of_nat i * siz) = unat buf + i * ?z" if "i < n" for i
    using unat_node [of buf n siz i] assms(1,3) that by simp
  have mem: "\<exists>i<n. a = buf + of_nat i * siz \<and> unat a = unat buf + i * ?z" if "a \<in> set (pool_nodes buf siz n)" for a
    using that e by (auto simp: pool_nodes_def)
  have "i = j" if "i < n" "j < n" "buf + of_nat i * siz = buf + of_nat j * siz" for i j
  proof -
    have "i * ?z = j * ?z" using e that by (metis add_left_cancel)
    then show ?thesis by simp
  qed
  then show "distinct (pool_nodes buf siz n)"
    unfolding pool_nodes_def by (auto simp: distinct_map inj_on_def)
  have lt: "i * ?z + ?z \<le> j * ?z" if "i < j" for i j
    using mult_le_mono1 [of "Suc i" j ?z] that by simp
  show "a \<noteq> 0 \<and> node_bytes a sz \<subseteq> {unat buf..<unat buf + n * ?z}" if a: "a \<in> set (pool_nodes buf siz n)"
  proof -
    obtain i where i: "i < n" "unat a = unat buf + i * ?z" using mem [OF a] by blast
    have "0 < unat buf" using assms(4) by (simp add: unat_gt_0)
    then have "a \<noteq> 0" using i(2) by auto
    moreover have "node_bytes a sz \<subseteq> {unat buf..<unat buf + n * ?z}" using lt [OF i(1)] i(2) by (auto simp: node_bytes_def)
    ultimately show ?thesis by blast
  qed
  show "node_bytes a sz \<inter> node_bytes b sz = {}"
    if ab: "a \<in> set (pool_nodes buf siz n)" "b \<in> set (pool_nodes buf siz n)" "a \<noteq> b"
  proof -
    obtain i j where ij: "a = buf + of_nat i * siz" "unat a = unat buf + i * ?z" "b = buf + of_nat j * siz" "unat b = unat buf + j * ?z"
      using mem [OF ab(1)] mem [OF ab(2)] by blast
    have "i \<noteq> j" using ab(3) ij(1,3) by auto
    then have "i < j \<or> j < i" by linarith
    then have "unat a + ?z \<le> unat b \<or> unat b + ?z \<le> unat a" using lt [of i j] lt [of j i] ij(2,4) by auto
    then show ?thesis by (auto simp: node_bytes_def)
  qed
qed

lemma layout_insert:
  assumes lay: "layout s R area" and t: "bpools t = insert p (bpools s)" "p \<notin> bpools s" "\<And>q. psize t q = (if q = p then sz else psize s q)"
    and L: "\<And>a. a \<in> L \<Longrightarrow> a \<noteq> 0 \<and> unat a + unat sz + 4 < 2 ^ 32 \<and> node_bytes a sz \<subseteq> A"
      "\<And>a b. a \<in> L \<Longrightarrow> b \<in> L \<Longrightarrow> a \<noteq> b \<Longrightarrow> node_bytes a sz \<inter> node_bytes b sz = {}" and A: "A \<inter> area = {}"
  shows "layout t (R(p := L)) (area \<union> A)"
proof -
  have old: "q \<in> bpools s" "a \<in> R q" "psize t q = psize s q" if "q \<in> bpools t" "a \<in> (R(p := L)) q" "q \<noteq> p" for q a
    using that t by auto
  have new: "a \<in> L" "psize t q = sz" if "a \<in> (R(p := L)) q" "q = p" for q a using that t(3) by auto
  have nn: "node_bytes a sz \<inter> node_bytes b (psize s q) = {}" if "a \<in> L" "q \<in> bpools s" "b \<in> R q" for a q b
    using L(1) [OF that(1)] layoutD(3) [OF lay that(2,3)] A by blast
  show ?thesis
    unfolding layout_def
  proof (intro ballI conjI impI)
    fix q a assume q: "q \<in> bpools t" "a \<in> (R(p := L)) q"
    show "a \<noteq> 0" "unat a + unat (psize t q) + 4 < 2 ^ 32" "node_bytes a (psize t q) \<subseteq> area \<union> A"
      using L(1) [OF new(1) [OF q(2)]] new(2) [OF q(2)] old [OF q] layoutD(1-3) [OF lay old(1,2) [OF q]] by (cases "q = p"; auto)+
    fix q' b assume q': "q' \<in> bpools t" "b \<in> (R(p := L)) q'" and ne: "(q, a) \<noteq> (q', b)"
    show "node_bytes a (psize t q) \<inter> node_bytes b (psize t q') = {}"
    proof (cases "q = p"; cases "q' = p")
      assume c: "q = p" "q' = p"
      show ?thesis using L(2) [OF new(1) [OF q(2) c(1)] new(1) [OF q'(2) c(2)]] new(2) [OF q(2) c(1)] new(2) [OF q'(2) c(2)] ne c by simp
    next
      assume c: "q = p" "q' \<noteq> p"
      show ?thesis using nn [OF new(1) [OF q(2) c(1)] old(1,2) [OF q' c(2)]] new(2) [OF q(2) c(1)] old(3) [OF q' c(2)] by simp
    next
      assume c: "q \<noteq> p" "q' = p"
      show ?thesis using nn [OF new(1) [OF q'(2) c(2)] old(1,2) [OF q c(1)]] new(2) [OF q'(2) c(2)] old(3) [OF q c(1)] by (simp add: Int_commute)
    next
      assume c: "q \<noteq> p" "q' \<noteq> p"
      show ?thesis using layoutD(4) [OF lay old(1,2) [OF q c(1)] old(1,2) [OF q' c(2)] ne] old(3) [OF q c(1)] old(3) [OF q' c(2)] by simp
    qed
  qed
qed

text \<open>The pools after one more has been made in memory that was free.\<close>

lemma mkbufpool_mem:
  assumes I: "bmem s R F area" and N: "nbpools s < NBPOOLS"
    and e: "buftab s (nbpools s) = \<lparr>bpnext = buf, bpsem = sem, bpsize = sz\<rparr>"
    and fit: "unat buf + Suc n * (unat sz + 4) < 2 ^ 32" "unat siz = unat sz + 4" "siz = sz + 4" "buf \<noteq> 0"
    and fresh: "{unat buf..<unat buf + Suc n * (unat sz + 4)} \<inter> area = {}"
  defines "t \<equiv> link_bufs n siz buf (s\<lparr>nbpools := nbpools s + 1\<rparr>)" and "l \<equiv> pool_nodes buf siz (Suc n)" and "p \<equiv> nbpools s"
  shows "bmem t (R(p := set l)) (F(p := l)) (area \<union> {unat buf..<unat buf + Suc n * (unat sz + 4)})"
    "out t (R(p := set l)) (F(p := l)) = out s R F"
proof -
  let ?A = "{unat buf..<unat buf + Suc n * (unat sz + 4)}"
  have lay: "layout s R area" and N0: "0 \<le> nbpools s" using I by (auto simp: bmem_def)
  have P: "distinct l" "\<And>a. a \<in> set l \<Longrightarrow> a \<noteq> 0 \<and> node_bytes a sz \<subseteq> ?A"
      "\<And>a b. a \<in> set l \<Longrightarrow> b \<in> set l \<Longrightarrow> a \<noteq> b \<Longrightarrow> node_bytes a sz \<inter> node_bytes b sz = {}"
    unfolding l_def using pool_nodes_props [OF fit(1,3,2,4)] by blast+
  have bp: "bpools t = insert p (bpools s)" using N0 by (auto simp: t_def p_def)
  have pn: "p \<notin> bpools s" by (simp add: p_def)
  have W: "bpath (bword t) buf l" "\<And>w. w \<notin> set l \<Longrightarrow> bword t w = bword s w"
    using link_bufs_path [of buf n siz "s\<lparr>nbpools := nbpools s + 1\<rparr>"] fit by (simp_all add: t_def l_def)
  have sz: "psize t q = (if q = p then sz else psize s q)" for q using e by (simp add: t_def p_def)
  have other: "a \<notin> set l" if "q \<in> bpools s" "a \<in> R q" for q a
    using layoutD(3) [OF lay that] fresh P(2) [of a] node_in [of a] by blast
  have top: "unat a + unat sz + 4 < 2 ^ 32" if "a \<in> set l" for a
  proof -
    have "unat a + unat sz + 3 \<in> node_bytes a sz" by (simp add: node_bytes_def)
    then have "unat a + unat sz + 3 < unat buf + Suc n * (unat sz + 4)" using P(2) [OF that] by auto
    then show ?thesis using fit(1) by linarith
  qed
  have "layout t (R(p := set l)) (area \<union> ?A)"
    by (rule layout_insert [OF lay bp pn sz _ P(3) fresh]) (use P(2) top in blast)
  moreover have "pool_list t p (set l) l" using W(1) P(1) e by (simp add: pool_list_def t_def p_def)
  moreover have "pool_list t q (R q) (F q)" if q: "q \<in> bpools s" for q
  proof -
    note D = bmemD [OF I q]
    have "bpath (bword t) (bpnext (buftab t q)) (F q) = bpath (bword s) (bpnext (buftab s q)) (F q)"
    proof -
      have "bword t a = bword s a" if "a \<in> set (F q)" for a using W(2) other [OF q] that D(3) by blast
      then have "bpath (bword t) x (F q) = bpath (bword s) x (F q)" for x
        by (rule bpath_cong)
      then show ?thesis by (simp add: t_def)
    qed
    then show ?thesis using D W(2) other [OF q] by (auto simp: pool_list_def)
  qed
  ultimately show "bmem t (R(p := set l)) (F(p := l)) (area \<union> ?A)"
    unfolding bmem_def bp using N N0 pn by (auto simp: t_def)
  have "out t (R(p := set l)) (F(p := l)) = (\<Union>q\<in>bpools s. (+) 4 ` ((R(p := set l)) q - set ((F(p := l)) q)))"
    unfolding out_def bp by simp
  also have "\<dots> = out s R F" unfolding out_def by (rule SUP_cong) (use pn in auto)
  finally show "out t (R(p := set l)) (F(p := l)) = out s R F" .
qed

section \<open>The semaphores of the pools\<close>

text \<open>
  \<open>pool_bal k P sm A n\<close>: each pool \<open>p\<close> of \<open>P\<close> has a semaphore \<open>sm p\<close> of its own with \<open>n p\<close> tokens, and only
  processes of \<open>A p\<close> wait for it.
\<close>

definition pool_bal :: "kstate \<Rightarrow> int set \<Rightarrow> (int \<Rightarrow> sid32) \<Rightarrow> (int \<Rightarrow> pid32 set) \<Rightarrow> (int \<Rightarrow> int) \<Rightarrow> bool" where
  "pool_bal k P sm A n \<longleftrightarrow> inj_on sm P \<and> (\<forall>p\<in>P. sm p \<in> sems \<and> sstate (semtab k (sm p)) = S_USED \<and>
     set (waiters k (sm p)) \<subseteq> A p \<and> tokens k (sm p) (A p) = n p)"

lemma pool_balD:
  assumes "pool_bal k P sm A n" "p \<in> P"
  shows "sm p \<in> sems" "sstate (semtab k (sm p)) = S_USED" "set (waiters k (sm p)) \<subseteq> A p" "tokens k (sm p) (A p) = n p"
  using assms by (auto simp: pool_bal_def simp del: atLeastLessThan_iff)

lemma pool_bal_upd:
  assumes b: "pool_bal k P sm A n" and k: "kinv k" and p: "p \<in> P" and f: "sem_frame (sm p) k k'"
    and u: "sstate (semtab k' (sm p)) = S_USED" "set (waiters k' (sm p)) \<subseteq> B" "tokens k' (sm p) B = v"
  shows "pool_bal k' P sm (A(p := B)) (n(p := v))"
proof -
  note D = pool_balD [OF b]
  have "sm q \<noteq> sm p" if "q \<in> P" "q \<noteq> p" for q using b p that by (auto simp: pool_bal_def inj_on_def)
  note O = sem_frame_other [OF f k D(1) [OF p] D(1) this]
  show ?thesis
    unfolding pool_bal_def
  proof (intro conjI ballI)
    show "inj_on sm P" using b by (simp add: pool_bal_def)
    fix q assume q: "q \<in> P"
    show "sm q \<in> sems" using D(1) [OF q] .
    show "sstate (semtab k' (sm q)) = S_USED" "set (waiters k' (sm q)) \<subseteq> (A(p := B)) q" "tokens k' (sm q) ((A(p := B)) q) = (n(p := v)) q"
      using u D(2-4) [OF q] O [OF q q] by (cases "q = p"; simp)+
  qed
qed

lemma pool_bal_cong:
  assumes "pool_bal k P sm A n" "\<And>p. p \<in> P \<Longrightarrow> sm' p = sm p \<and> A' p = A p \<and> n' p = n p"
  shows "pool_bal k P sm' A' n'"
proof -
  have "inj_on sm' P = inj_on sm P" by (rule inj_on_cong) (use assms(2) in blast)
  then show ?thesis using assms by (simp add: pool_bal_def del: atLeastLessThan_iff)
qed

lemma pool_bal_insert:
  assumes "pool_bal k P sm A n" "p \<notin> P" "i \<notin> sm ` P" "i \<in> sems" "sstate (semtab k i) = S_USED" "waiters k i = []" "tokens k i (A p) = v"
  shows "pool_bal k (insert p P) (sm(p := i)) A (n(p := v))"
  unfolding pool_bal_def
proof (intro conjI ballI)
  have "inj_on (sm(p := i)) P" using assms(1,2) by (auto simp: pool_bal_def inj_on_def)
  moreover have "(sm(p := i)) ` P = sm ` P" using assms(2) by (intro image_cong) auto
  ultimately show "inj_on (sm(p := i)) (insert p P)" using assms(2,3) by simp
  fix q assume q: "q \<in> insert p P"
  show "(sm(p := i)) q \<in> sems" "sstate (semtab k ((sm(p := i)) q)) = S_USED"
    "set (waiters k ((sm(p := i)) q)) \<subseteq> A q" "tokens k ((sm(p := i)) q) (A q) = (n(p := v)) q"
    using q assms(4-7) pool_balD [OF assms(1), of q] by (cases "q = p"; simp del: atLeastLessThan_iff)+
qed

section \<open>Processes using pools\<close>

text \<open>
  The system of all processes that use pools: the kernel and the pools, the pool for which each
  process that was switched out in \<^verbatim>\<open>getbuf\<close> waits, the buffers that have been handed out, and
  the memory the pools have taken from the heap. A step is a call by the current process, the
  end of a \<^verbatim>\<open>getbuf\<close> it was in the middle of, a write into a buffer that is out, or
  anything else the kernel does that leaves the semaphores and the memory of the pools alone.
\<close>

record bpm =
  bsys :: bufsys
  bpend :: "pid32 \<Rightarrow> int option"
  bheld :: "uint32 set"
  barea :: "nat set"

abbreviation bcurr :: "bpm \<Rightarrow> pid32" where "bcurr m \<equiv> currpid (bk (bsys m))"

text \<open>The pool a buffer says it belongs to.\<close>

abbreviation pool_of :: "bufsys \<Rightarrow> uint32 \<Rightarrow> int" where "pool_of s a \<equiv> sint (bword s (a - 4))"

inductive bpstep :: "bpm \<Rightarrow> bpm \<Rightarrow> bool" where
  mk: "mkbufpool z n (bsys m) = Some (p, t) \<Longrightarrow> p \<noteq> SYSERR \<Longrightarrow>
    bpstep m (m\<lparr>bsys := t, barea := barea m \<union> {unat (bpnext (buftab t p))..<unat (bpnext (buftab t p)) + nat n * (unat (psize t p) + 4)}\<rparr>)"
| mk_fail: "mkbufpool z n (bsys m) = Some (SYSERR, t) \<Longrightarrow> bpstep m (m\<lparr>bsys := t\<rparr>)"
| get: "bcurr m \<noteq> NULLPROC \<Longrightarrow> bpend m (bcurr m) = None \<Longrightarrow> p \<in> bpools (bsys m) \<Longrightarrow> getbuf p (bsys m) = Some (Ret a, t) \<Longrightarrow>
    bpstep m (m\<lparr>bsys := t, bheld := insert a (bheld m)\<rparr>)"
| get_block: "bcurr m \<noteq> NULLPROC \<Longrightarrow> bpend m (bcurr m) = None \<Longrightarrow> getbuf p (bsys m) = Some (Blocked, t) \<Longrightarrow>
    bpstep m (m\<lparr>bsys := t, bpend := (bpend m)(bcurr m \<mapsto> p)\<rparr>)"
| get_end: "bpend m (bcurr m) = Some p \<Longrightarrow> getbuf_cont p (bsys m) = (a, t) \<Longrightarrow>
    bpstep m (m\<lparr>bsys := t, bpend := (bpend m)(bcurr m := None), bheld := insert a (bheld m)\<rparr>)"
| free: "a \<in> bheld m \<Longrightarrow> freebuf a (bsys m) = Some (r, t) \<Longrightarrow> bpstep m (m\<lparr>bsys := t, bheld := bheld m - {a}\<rparr>)"
| fill: "a \<in> bheld m \<Longrightarrow> 4 dvd j \<Longrightarrow> j + 4 \<le> unat (psize (bsys m) (pool_of (bsys m) a)) \<Longrightarrow> bpstep m (m\<lparr>bsys := upd_bword (a + of_nat j) v (bsys m)\<rparr>)"
| switch: "kinv k \<Longrightarrow> semtab k = semtab (bk (bsys m)) \<Longrightarrow> nextsem k = nextsem (bk (bsys m)) \<Longrightarrow>
    (\<forall>i\<in>sems. waiters k i = waiters (bk (bsys m)) i) \<Longrightarrow> heap_ok (kmem k) bs \<Longrightarrow> free_bytes bs \<inter> barea m = {} \<Longrightarrow>
    bpstep m (m\<lparr>bsys := (bsys m)\<lparr>bk := k\<rparr>\<rparr>)"

definition waiting :: "bpm \<Rightarrow> int \<Rightarrow> pid32 set" where
  "waiting m p = {q. bpend m q = Some p}"

definition free_count :: "(int \<Rightarrow> uint32 list) \<Rightarrow> int \<Rightarrow> int" where
  "free_count F p = int (length (F p))"

abbreviation psem :: "bufsys \<Rightarrow> int \<Rightarrow> sid32" where "psem s p \<equiv> bpsem (buftab s p)"

definition binv :: "bpm \<Rightarrow> (int \<Rightarrow> uint32 set) \<Rightarrow> (int \<Rightarrow> uint32 list) \<Rightarrow> bool" where
  "binv m R F \<longleftrightarrow> kinv (bk (bsys m)) \<and> nextsem (bk (bsys m)) \<in> sems \<and>
    (\<exists>bs. heap_ok (kmem (bk (bsys m))) bs \<and> free_bytes bs \<inter> barea m = {}) \<and>
    bmem (bsys m) R F (barea m) \<and> bheld m = out (bsys m) R F \<and>
    (\<forall>q p. bpend m q = Some p \<longrightarrow> q \<in> pids \<and> p \<in> bpools (bsys m)) \<and>
    pool_bal (bk (bsys m)) (bpools (bsys m)) (psem (bsys m)) (waiting m) (free_count F)"

lemma binvD:
  assumes "binv m R F"
  shows "kinv (bk (bsys m))" "nextsem (bk (bsys m)) \<in> sems" "\<exists>bs. heap_ok (kmem (bk (bsys m))) bs \<and> free_bytes bs \<inter> barea m = {}"
    "bmem (bsys m) R F (barea m)" "bheld m = out (bsys m) R F"
    "\<And>q p. bpend m q = Some p \<Longrightarrow> q \<in> pids \<and> p \<in> bpools (bsys m)"
    "pool_bal (bk (bsys m)) (bpools (bsys m)) (psem (bsys m)) (waiting m) (free_count F)"
  using assms unfolding binv_def by blast+

lemma waiting_finite: "binv m R F \<Longrightarrow> finite (waiting m p)"
  by (rule finite_subset [of _ pids]) (auto simp: waiting_def pids_def dest: binvD(6))

lemma waiting_upd:
  "waiting (m\<lparr>bsys := t\<rparr>) = waiting m" "waiting (m\<lparr>bsys := t, bheld := H\<rparr>) = waiting m"
  "bpend m c = None \<Longrightarrow> waiting (m\<lparr>bsys := t, bpend := (bpend m)(c \<mapsto> p)\<rparr>) = (waiting m)(p := insert c (waiting m p))"
  "bpend m c = Some p \<Longrightarrow> waiting (m\<lparr>bsys := t, bpend := (bpend m)(c := None), bheld := H\<rparr>) = (waiting m)(p := waiting m p - {c})"
  by (auto simp: waiting_def fun_eq_iff)

lemma waiting_area: "waiting (m\<lparr>bsys := t, barea := A\<rparr>) = waiting m"
  by (auto simp: waiting_def)

lemma free_count_upd: "free_count (F(p := l)) = (free_count F)(p := int (length l))"
  by (auto simp: free_count_def)

lemma bmem_kernel [simp]: "bmem (s\<lparr>bk := k\<rparr>) R F area = bmem s R F area" "out (s\<lparr>bk := k\<rparr>) R F = out s R F"
  by (simp_all add: bmem_def layout_def pool_list_def out_def)

text \<open>A process that may go on in \<^verbatim>\<open>getbuf\<close> finds a buffer.\<close>

lemma take_ok:
  assumes k: "kinv (bk u)" "nextsem (bk u) \<in> sems" "heap_ok (kmem (bk u)) bs" "free_bytes bs \<inter> area = {}" and M: "bmem u R F area"
    and p: "p \<in> bpools u" and P: "\<forall>q p. pd q = Some p \<longrightarrow> q \<in> pids \<and> p \<in> bpools u"
    and b: "pool_bal (bk u) (bpools u) (psem u) A ((free_count F)(p := free_count F p - 1))" and fin: "finite (A p)"
    and A: "\<And>q. {c. pd c = Some q} = A q"
  obtains a fl t where "F p = a # fl" "getbuf_cont p u = (4 + a, t)" "4 + a \<notin> out u R F"
    "binv \<lparr>bsys = t, bpend = pd, bheld = insert (4 + a) (out u R F), barea = area\<rparr> R (F(p := fl))"
    "\<And>w. w \<noteq> a \<Longrightarrow> bword t w = bword u w" "bk t = bk u" "nbpools t = nbpools u" "\<And>q. psize t q = psize u q"
proof -
  have "0 \<le> tokens (bk u) (psem u p) (A p)" by (simp add: tokens_def)
  then have "F p \<noteq> []" using pool_balD(4) [OF b p] by (auto simp: free_count_def)
  then obtain a fl where f: "F p = a # fl" by (cases "F p") auto
  obtain t where T: "getbuf_cont p u = (4 + a, t)" "bmem t R (F(p := fl)) area" "bk t = bk u" "nbpools t = nbpools u"
    "\<And>q. psem t q = psem u q" "\<And>q. psize t q = psize u q"
    "out t R (F(p := fl)) = insert (4 + a) (out u R F)" "4 + a \<notin> out u R F" "\<And>w. w \<noteq> a \<Longrightarrow> bword t w = bword u w"
    by (rule getbuf_mem [OF M p f]) (rule that; assumption)
  have "pool_bal (bk t) (bpools t) (psem t) (waiting \<lparr>bsys = t, bpend = pd, bheld = insert (4 + a) (out u R F), barea = area\<rparr>) (free_count (F(p := fl)))"
    using b f unfolding T(3-5) free_count_upd waiting_def bpm.simps A by (simp add: free_count_def)
  then have "binv \<lparr>bsys = t, bpend = pd, bheld = insert (4 + a) (out u R F), barea = area\<rparr> R (F(p := fl))"
    unfolding binv_def bpm.simps T(3,4,7) using k T(2) P by blast
  then show thesis using that f T by blast
qed

lemma bpm_eq: "m\<lparr>bsys := t, bheld := H\<rparr> = \<lparr>bsys = t, bpend = bpend m, bheld = H, barea = barea m\<rparr>"
  "m\<lparr>bsys := t, bpend := pd\<rparr> = \<lparr>bsys = t, bpend = pd, bheld = bheld m, barea = barea m\<rparr>"
  "m\<lparr>bsys := t, bpend := pd, bheld := H\<rparr> = \<lparr>bsys = t, bpend = pd, bheld = H, barea = barea m\<rparr>"
  by simp_all

lemma get_step:
  assumes I: "binv m R F" and c: "bcurr m \<noteq> NULLPROC" "bpend m (bcurr m) = None" and p: "p \<in> bpools (bsys m)"
  shows "(\<exists>a fl t. F p = a # fl \<and> getbuf p (bsys m) = Some (Ret (4 + a), t) \<and> 4 + a \<notin> bheld m \<and>
      binv (m\<lparr>bsys := t, bheld := insert (4 + a) (bheld m)\<rparr>) R (F(p := fl)) \<and> (\<forall>w. w \<noteq> a \<longrightarrow> bword t w = bword (bsys m) w)) \<or>
    (\<exists>k. getbuf p (bsys m) = Some (Blocked, (bsys m)\<lparr>bk := k\<rparr>) \<and>
      binv (m\<lparr>bsys := (bsys m)\<lparr>bk := k\<rparr>, bpend := (bpend m)(bcurr m \<mapsto> p)\<rparr>) R F)"
proof -
  let ?s = "bsys m"
  note D = binvD [OF I] and B = pool_balD [OF binvD(7) [OF I] p]
  obtain bs where bs: "heap_ok (kmem (bk ?s)) bs" "free_bytes bs \<inter> barea m = {}" using D(3) by blast
  have cn: "bcurr m \<notin> waiting m p" using c(2) by (simp add: waiting_def)
  have cp: "bcurr m \<in> pids" using wf_procsD(1) [OF kinv_butD(4) [OF kinvD(1) [OF D(1)]]] .
  have npr: "\<not> (p < 0 \<or> p \<ge> nbpools ?s)" using p by auto
  show ?thesis
  proof (cases rule: tok_wait [OF D(1) B(1,2) c(1) cn])
    case passes: (1 k')
    let ?u = "?s\<lparr>bk := k'\<rparr>"
    have K: "kinv (bk ?u)" "nextsem (bk ?u) \<in> sems" "heap_ok (kmem (bk ?u)) bs" "bmem ?u R F (barea m)" "p \<in> bpools ?u"
      using passes(2) kframe_wait [OF passes(1)] D(2,4) bs p by (simp_all add: kframe_def)
    have "pool_bal k' (bpools ?s) (psem ?s) ((waiting m)(p := waiting m p)) ((free_count F)(p := free_count F p - 1))"
      by (rule pool_bal_upd [OF D(7,1) p passes(3,4)]) (use passes(6,7) B in simp_all)
    then have b: "pool_bal (bk ?u) (bpools ?u) (psem ?u) (waiting m) ((free_count F)(p := free_count F p - 1))" by simp
    have P: "\<forall>q p'. bpend m q = Some p' \<longrightarrow> q \<in> pids \<and> p' \<in> bpools ?u" using D(6) by simp
    obtain a fl t where T: "F p = a # fl" "getbuf_cont p ?u = (4 + a, t)" "4 + a \<notin> out ?u R F"
        "binv \<lparr>bsys = t, bpend = bpend m, bheld = insert (4 + a) (out ?u R F), barea = barea m\<rparr> R (F(p := fl))"
        "\<And>w. w \<noteq> a \<Longrightarrow> bword t w = bword ?u w"
      by (rule take_ok [where pd = "bpend m", OF K(1-3) bs(2) K(4,5) P b waiting_finite [OF I] waiting_def [symmetric]]) (rule that; assumption)
    have "getbuf p ?s = Some (Ret (4 + a), t)" using npr passes(1,5) T(2) by (simp add: getbuf_def)
    then show ?thesis using T D(5) unfolding bpm_eq by auto
  next
    case blocks: (2 k')
    let ?u = "?s\<lparr>bk := k'\<rparr>" and ?m = "m\<lparr>bsys := ?s\<lparr>bk := k'\<rparr>, bpend := (bpend m)(bcurr m \<mapsto> p)\<rparr>"
    have e: "getbuf p ?s = Some (Blocked, ?u)" using npr blocks(1,5) by (simp add: getbuf_def)
    have "pool_bal k' (bpools ?s) (psem ?s) ((waiting m)(p := insert (bcurr m) (waiting m p))) ((free_count F)(p := free_count F p))"
      by (rule pool_bal_upd [OF D(7,1) p blocks(3,4)]) (use blocks(6,7) B in auto)
    then have "pool_bal (bk ?u) (bpools ?u) (psem ?u) (waiting ?m) (free_count F)"
      unfolding waiting_upd(3) [OF c(2)] by simp
    moreover have "kinv k'" "nextsem k' \<in> sems" "heap_ok (kmem k') bs"
      using blocks(2) kframe_wait [OF blocks(1)] D(2) bs by (simp_all add: kframe_def)
    moreover have "q \<in> pids \<and> p' \<in> bpools ?s" if "((bpend m)(bcurr m \<mapsto> p)) q = Some p'" for q p'
      using that D(6) [of q p'] cp p by (cases "q = bcurr m") simp_all
    ultimately have "binv ?m R F" using D(4,5) bs(2) by (auto simp: binv_def)
    then show ?thesis using e by blast
  qed
qed

lemma get_end_step:
  assumes I: "binv m R F" and p: "bpend m (bcurr m) = Some p"
  shows "\<exists>a fl t. F p = a # fl \<and> getbuf_cont p (bsys m) = (4 + a, t) \<and> 4 + a \<notin> bheld m \<and>
    binv (m\<lparr>bsys := t, bpend := (bpend m)(bcurr m := None), bheld := insert (4 + a) (bheld m)\<rparr>) R (F(p := fl)) \<and>
    (\<forall>w. w \<noteq> a \<longrightarrow> bword t w = bword (bsys m) w)"
proof -
  let ?s = "bsys m"
  note D = binvD [OF I]
  have pp: "p \<in> bpools ?s" using D(6) [OF p] by blast
  note B = pool_balD [OF D(7) pp]
  obtain bs where bs: "heap_ok (kmem (bk ?s)) bs" "free_bytes bs \<inter> barea m = {}" using D(3) by blast
  have c: "bcurr m \<in> waiting m p" "bcurr m \<notin> set (waiters (bk ?s) (psem ?s p))"
    using p current_not_queued [OF D(1)] by (auto simp: waiting_def)
  have f: "sem_frame (psem ?s p) (bk ?s) (bk ?s)" by (simp add: sem_frame_def)
  have b: "pool_bal (bk ?s) (bpools ?s) (psem ?s) ((waiting m)(p := waiting m p - {bcurr m})) ((free_count F)(p := free_count F p - 1))"
    by (rule pool_bal_upd [OF D(7,1) pp f B(2)]) (use B(3,4) c tokens_leave [OF c(1) waiting_finite [OF I] c(2)] in auto)
  have P: "\<forall>q p'. ((bpend m)(bcurr m := None)) q = Some p' \<longrightarrow> q \<in> pids \<and> p' \<in> bpools ?s" using D(6) by simp
  have A: "{c. ((bpend m)(bcurr m := None)) c = Some q} = ((waiting m)(p := waiting m p - {bcurr m})) q" for q
    using p by (auto simp: waiting_def)
  have fin: "finite (((waiting m)(p := waiting m p - {bcurr m})) p)" using waiting_finite [OF I] by simp
  obtain a fl t where T: "F p = a # fl" "getbuf_cont p ?s = (4 + a, t)" "4 + a \<notin> out ?s R F"
      "binv \<lparr>bsys = t, bpend = (bpend m)(bcurr m := None), bheld = insert (4 + a) (out ?s R F), barea = barea m\<rparr> R (F(p := fl))"
      "\<And>w. w \<noteq> a \<Longrightarrow> bword t w = bword ?s w"
    by (rule take_ok [where pd = "(bpend m)(bcurr m := None)", OF D(1,2) bs D(4) pp P b fin A]) (rule that; assumption)
  then show ?thesis using D(5) unfolding bpm_eq by auto
qed

lemma free_step:
  assumes I: "binv m R F" and a: "4 + a \<in> bheld m"
  shows "\<exists>p\<in>bpools (bsys m). \<exists>t. a \<in> R p \<and> freebuf (4 + a) (bsys m) = Some (OK, t) \<and>
    binv (m\<lparr>bsys := t, bheld := bheld m - {4 + a}\<rparr>) R (F(p := a # F p)) \<and> (\<forall>w. w \<noteq> a \<longrightarrow> bword t w = bword (bsys m) w)"
proof -
  let ?s = "bsys m"
  note D = binvD [OF I]
  obtain p where p: "p \<in> bpools ?s" "a \<in> R p" "a \<notin> set (F p)" using a D(5) out_iff by auto
  let ?t = "upd_pool p (\<lambda>e. e\<lparr>bpnext := a\<rparr>) (upd_bword a (bpnext (buftab ?s p)) ?s)"
  note M = freebuf_mem [OF D(4) p] and B = pool_balD [OF D(7) p(1)]
  obtain bs where bs: "heap_ok (kmem (bk ?s)) bs" "free_bytes bs \<inter> barea m = {}" using D(3) by blast
  obtain k where K: "signal (psem ?s p) (bk ?s) = Some (OK, k)" "kinv k" "sem_frame (psem ?s p) (bk ?s) k" "sstate (semtab k (psem ?s p)) = S_USED"
      "set (waiters k (psem ?s p)) \<subseteq> set (waiters (bk ?s) (psem ?s p))" "tokens k (psem ?s p) (waiting m p) = tokens (bk ?s) (psem ?s p) (waiting m p) + 1"
    by (rule tok_signal [OF D(1) B(1,2) waiting_finite [OF I] B(3)]) (rule that; assumption)
  have e: "freebuf (4 + a) ?s = Some (OK, ?t\<lparr>bk := k\<rparr>)" using M(3) p(1) K(1) by (auto simp: freebuf_def Let_def)
  have "pool_bal k (bpools ?s) (psem ?s) ((waiting m)(p := waiting m p)) ((free_count F)(p := free_count F p + 1))"
    by (rule pool_bal_upd [OF D(7,1) p(1) K(3,4)]) (use K(5,6) B in auto)
  then have "pool_bal k (bpools ?s) (psem ?s) (waiting m) (free_count (F(p := a # F p)))"
    by (simp add: free_count_upd) (simp add: free_count_def add.commute)
  then have b: "pool_bal k (bpools ?s) (psem (?t\<lparr>bk := k\<rparr>)) (waiting (m\<lparr>bsys := ?t\<lparr>bk := k\<rparr>, bheld := bheld m - {4 + a}\<rparr>)) (free_count (F(p := a # F p)))"
    unfolding waiting_upd by (rule pool_bal_cong) auto
  have "nextsem k \<in> sems" "heap_ok (kmem k) bs" using kframe_signal [OF K(1)] D(2) bs by (simp_all add: kframe_def)
  then have "binv (m\<lparr>bsys := ?t\<lparr>bk := k\<rparr>, bheld := bheld m - {4 + a}\<rparr>) R (F(p := a # F p))"
    using K(2) b M(1,2) D(5,6) bs(2) unfolding binv_def by auto
  then show ?thesis using e p by auto
qed

lemma bmem_frame:
  assumes "nbpools t = nbpools s" "bword t = bword s" "\<And>p. p \<in> bpools s \<Longrightarrow> buftab t p = buftab s p"
  shows "bmem t R F area = bmem s R F area" "out t R F = out s R F"
proof -
  have "layout t R area = layout s R area" unfolding layout_def assms(1) using assms(3) by (intro ball_cong refl) auto
  moreover have "(\<forall>p\<in>bpools s. pool_list t p (R p) (F p)) = (\<forall>p\<in>bpools s. pool_list s p (R p) (F p))"
    by (rule ball_cong) (use assms(2,3) in \<open>simp_all add: pool_list_def\<close>)
  ultimately show "bmem t R F area = bmem s R F area" unfolding bmem_def assms(1) by simp
  show "out t R F = out s R F" by (simp add: out_def assms(1))
qed

lemma pool_bal_kernel:
  assumes "pool_bal k P sm A n" "\<And>i. i \<in> sems \<Longrightarrow> sstate (semtab k i) = S_USED \<Longrightarrow> semtab k' i = semtab k i \<and> waiters k' i = waiters k i"
  shows "pool_bal k' P sm A n"
proof -
  have "semtab k' (sm p) = semtab k (sm p)" "waiters k' (sm p) = waiters k (sm p)" if "p \<in> P" for p
    using assms(2) [OF pool_balD(1,2) [OF assms(1) that]] by blast+
  then show ?thesis using assms(1) by (simp add: pool_bal_def tokens_def del: atLeastLessThan_iff)
qed

lemma round4_bounds:
  assumes "8 \<le> b" "b \<le> 8192"
  shows "8 \<le> round4 b" "b \<le> round4 b" "round4 b \<le> 8192"
proof -
  have m: "(3 :: int) = mask 2" by (simp add: mask_eq_exp_minus_1)
  have "Suc (Suc (i - 2)) = i" if "\<not> i < 2" for i using that by simp
  then have "(b + 3) AND NOT 3 = push_bit 2 (drop_bit 2 (b + 3))" unfolding m by (intro bit_eqI) (auto simp: bit_simps)
  then have "round4 b = (b + 3) div 4 * 4" by (simp add: round4_def push_bit_eq_mult drop_bit_eq_div)
  moreover have "(b + 3) div 4 \<le> 8195 div 4" by (rule zdiv_mono1) (use assms in auto)
  then have "(b + 3) div 4 * 4 \<le> 8192" by simp
  ultimately show "8 \<le> round4 b" "b \<le> round4 b" "round4 b \<le> 8192" using assms by linarith+
qed

lemma unat_word_of_int: "0 \<le> q \<Longrightarrow> q < 2 ^ 32 \<Longrightarrow> unat (word_of_int q :: uint32) = nat q"
  by (simp add: unsigned_of_int take_bit_int_eq_self)

lemma mkbufpool_eq:
  assumes "\<not> (z < BP_MINB \<or> z > BP_MAXB \<or> n < 1 \<or> n > BP_MAXN \<or> nbpools s \<ge> NBPOOLS)"
  shows "mkbufpool z n s = do {
    (buf, m) \<leftarrow> getmem (word_of_int (n * (round4 z + 4))) (kmem (bk s));
    if buf = SYSERR_PTR then Some (SYSERR, s\<lparr>bk := (bk s)\<lparr>kmem := m\<rparr>\<rparr>)
    else let (sem, k) = semcreate n ((bk s)\<lparr>kmem := m\<rparr>);
             u = s\<lparr>bk := k, buftab := (buftab s)(nbpools s := \<lparr>bpnext = buf, bpsem = sem, bpsize = word_of_int (round4 z)\<rparr>)\<rparr>
         in if sem = SYSERR then Some (SYSERR, u)
            else Some (nbpools s, link_bufs (nat (n - 1)) (word_of_int (round4 z + 4)) buf (u\<lparr>nbpools := nbpools s + 1\<rparr>)) }"
proof -
  have e: "e\<lparr>bpnext := a, bpsize := y, bpsem := i\<rparr> = \<lparr>bpnext = a, bpsem = i, bpsize = y\<rparr>" for e :: bpentry and a y i
    by (cases e) simp
  show ?thesis
  proof (cases "getmem (word_of_int (n * (round4 z + 4))) (kmem (bk s))")
    case None
    then show ?thesis using assms by (simp add: mkbufpool_def Let_def)
  next
    case (Some g)
    obtain buf m where g: "g = (buf, m)" by (cases g)
    obtain sem k where sc: "semcreate n ((bk s)\<lparr>kmem := m\<rparr>) = (sem, k)" by (cases "semcreate n ((bk s)\<lparr>kmem := m\<rparr>)")
    show ?thesis using assms Some sc unfolding g by (cases s) (simp add: mkbufpool_def Let_def e)
  qed
qed

text \<open>The outcomes of \<^verbatim>\<open>mkbufpool\<close>; in the last failure, for want of a semaphore, the memory is not given back.\<close>

lemma mkbufpool_cases:
  assumes c: "mkbufpool z n s = Some (p, t)" and k: "kinv (bk s)" "nextsem (bk s) \<in> sems" and h: "heap_ok (kmem (bk s)) bs" and N: "0 \<le> nbpools s"
  obtains (refused) "p = SYSERR" "t = s"
  | (no_mem) k' bs' where "p = SYSERR" "t = s\<lparr>bk := (bk s)\<lparr>kmem := k'\<rparr>\<rparr>" "heap_ok k' bs'" "free_bytes bs' \<subseteq> free_bytes bs"
  | (no_sem) e k' bs' where "p = SYSERR" "t = s\<lparr>bk := k', buftab := (buftab s)(nbpools s := e)\<rparr>" "kinv k'" "nextsem k' \<in> sems"
      "heap_ok (kmem k') bs'" "free_bytes bs' \<subseteq> free_bytes bs" "semtab k' = semtab (bk s)" "\<forall>i. waiters k' i = waiters (bk s) i" "currpid k' = currpid (bk s)"
  | (made) buf m bs' sem k' where "p = nbpools s" "p \<noteq> SYSERR" "nbpools s < NBPOOLS" "8 \<le> z" "z \<le> 8192" "1 \<le> n" "n \<le> 2048" "heap_ok m bs'"
      "{unat buf..<unat buf + nat n * nat (round4 z + 4)} \<subseteq> free_bytes bs" "free_bytes bs' \<subseteq> free_bytes bs - {unat buf..<unat buf + nat n * nat (round4 z + 4)}"
      "semcreate n ((bk s)\<lparr>kmem := m\<rparr>) = (sem, k')" "sem \<noteq> SYSERR"
      "t = link_bufs (nat (n - 1)) (word_of_int (round4 z + 4)) buf
        (s\<lparr>bk := k', buftab := (buftab s)(p := \<lparr>bpnext = buf, bpsem = sem, bpsize = word_of_int (round4 z)\<rparr>), nbpools := p + 1\<rparr>)"
proof (cases "z < BP_MINB \<or> z > BP_MAXB \<or> n < 1 \<or> n > BP_MAXN \<or> nbpools s \<ge> NBPOOLS")
  case True
  then show thesis using c refused by (auto simp: mkbufpool_def)
next
  case False
  then have z: "8 \<le> z" "z \<le> 8192" "1 \<le> n" "n \<le> 2048" "nbpools s < NBPOOLS" by (auto simp: BP_MINB_def BP_MAXB_def BP_MAXN_def)
  note R = round4_bounds [OF z(1,2)]
  let ?q = "n * (round4 z + 4)"
  have q: "0 < ?q" "?q \<le> 2048 * 8196"
    using z(3,4) R mult_mono [of n 2048 "round4 z + 4" 8196] by simp_all
  have uq: "unat (word_of_int ?q :: uint32) = nat ?q" by (rule unat_word_of_int) (use q in simp_all)
  have nq: "nat ?q = nat n * nat (round4 z + 4)" using z(3) by (simp add: nat_mult_distrib)
  have nz: "(word_of_int ?q :: uint32) \<noteq> 0" using uq q(1) by auto
  have small: "unat (word_of_int ?q :: uint32) \<le> 2 ^ 32 - 8" unfolding uq using q by simp
  have rq: "nat ?q \<le> reqsize (word_of_int ?q)" unfolding reqsize_def uq by linarith
  obtain buf m where g: "getmem (word_of_int ?q) (kmem (bk s)) = Some (buf, m)"
    using c unfolding mkbufpool_eq [OF False] by (auto split: Option.bind_splits)
  show thesis
  proof (cases "buf = SYSERR_PTR")
    case True
    have "\<exists>bs'. heap_ok m bs' \<and> free_bytes bs' \<subseteq> free_bytes bs" using getmem_cases [OF h nz small] g h by auto
    moreover have "p = SYSERR" "t = s\<lparr>bk := (bk s)\<lparr>kmem := m\<rparr>\<rparr>" using c g True unfolding mkbufpool_eq [OF False] by simp_all
    ultimately show thesis using no_mem by blast
  next
    case nf: False
    obtain bs' where B: "heap_ok m bs'" "{unat buf..<unat buf + reqsize (word_of_int ?q)} \<subseteq> free_bytes bs"
        "free_bytes bs' = free_bytes bs - {unat buf..<unat buf + reqsize (word_of_int ?q)}"
      using getmem_law [OF h nz small g nf] by blast
    have "{unat buf..<unat buf + nat ?q} \<subseteq> {unat buf..<unat buf + reqsize (word_of_int ?q)}" using rq by auto
    then have sub: "{unat buf..<unat buf + nat n * nat (round4 z + 4)} \<subseteq> free_bytes bs"
        "free_bytes bs' \<subseteq> free_bytes bs - {unat buf..<unat buf + nat n * nat (round4 z + 4)}"
      using B(2,3) unfolding nq by blast+
    let ?k = "(bk s)\<lparr>kmem := m\<rparr>"
    have kk: "kinv ?k" "nextsem ?k \<in> sems" using k kinv_upd_cong(1) [OF k(1), of ?k] by simp_all
    obtain sem k' where sc: "semcreate n ?k = (sem, k')" by (cases "semcreate n ?k")
    have ex: "(if sem = SYSERR then Some (SYSERR, s\<lparr>bk := k', buftab := (buftab s)(nbpools s := \<lparr>bpnext = buf, bpsem = sem, bpsize = word_of_int (round4 z)\<rparr>)\<rparr>)
       else Some (nbpools s, link_bufs (nat (n - 1)) (word_of_int (round4 z + 4)) buf
        (s\<lparr>bk := k', buftab := (buftab s)(nbpools s := \<lparr>bpnext = buf, bpsem = sem, bpsize = word_of_int (round4 z)\<rparr>), nbpools := nbpools s + 1\<rparr>))) = Some (p, t)"
      using c g nf sc unfolding mkbufpool_eq [OF False] by (simp add: Let_def)
    note S = semcreate_ok [OF kk order_trans [OF zero_le_one z(3)], unfolded sc prod.case]
    show thesis
    proof (cases "sem = SYSERR")
      case True
      then have "SYSERR \<notin> sems" by (simp add: SYSERR_def)
      then have kt: "k' = ?k\<lparr>nextsem := nextsem k'\<rparr>" using S True by (auto simp del: atLeastLessThan_iff)
      have "semtab k' = semtab (bk s)" "kmem k' = m" "currpid k' = currpid (bk s)" by (subst kt, simp)+
      moreover have "\<forall>i. waiters k' i = waiters (bk s) i" using S kinv_upd_cong(2) [OF k(1), of ?k] by (simp add: \<open>semtab k' = semtab (bk s)\<close>)
      ultimately show thesis
        using no_sem [of "\<lparr>bpnext = buf, bpsem = sem, bpsize = word_of_int (round4 z)\<rparr>" k' bs'] ex True S B by simp
    next
      case False
      then have "p = nbpools s" "p \<noteq> SYSERR" using ex N by (auto simp: SYSERR_def)
      then show thesis using made [where buf = buf and m = m and bs' = bs' and sem = sem and k' = k'] ex False z B(1) sub sc by auto
    qed
  qed
qed

lemma mk_step:
  assumes I: "binv m R F" and c: "mkbufpool z n (bsys m) = Some (p, t)"
  shows "p = SYSERR \<Longrightarrow> binv (m\<lparr>bsys := t\<rparr>) R F"
    "p \<noteq> SYSERR \<Longrightarrow> \<exists>R' F'. binv (m\<lparr>bsys := t, barea := barea m \<union> {unat (bpnext (buftab t p))..<unat (bpnext (buftab t p)) + nat n * (unat (psize t p) + 4)}\<rparr>) R' F' \<and>
       bheld m = out t R' F' \<and> length (F' p) = nat n"
proof -
  let ?s = "bsys m"
  note D = binvD [OF I]
  obtain bs where bs: "heap_ok (kmem (bk ?s)) bs" "free_bytes bs \<inter> barea m = {}" using D(3) by blast
  have N: "0 \<le> nbpools ?s" using D(4) by (simp add: bmem_def)
  show "binv (m\<lparr>bsys := t\<rparr>) R F" if e: "p = SYSERR"
  proof (cases rule: mkbufpool_cases [OF c D(1,2) bs(1) N])
    case 1
    then show ?thesis using I by simp
  next
    case (2 k' bs')
    let ?k = "(bk ?s)\<lparr>kmem := k'\<rparr>"
    have K: "kinv ?k" "qview ?k = qview (bk ?s)" using kinv_upd_cong(1,2) [OF D(1), of ?k] by simp_all
    have "pool_bal ?k (bpools ?s) (psem ?s) (waiting m) (free_count F)" by (rule pool_bal_kernel [OF D(7)]) (simp add: K(2))
    moreover have "free_bytes bs' \<inter> barea m = {}" using 2(4) bs(2) by blast
    ultimately show ?thesis using D(2,4-6) K(1) 2(2,3) by (auto simp: binv_def waiting_upd)
  next
    case (3 e k' bs')
    have "pool_bal k' (bpools ?s) (psem ?s) (waiting m) (free_count F)" by (rule pool_bal_kernel [OF D(7)]) (use 3 in simp)
    then have "pool_bal k' (bpools ?s) (psem t) (waiting m) (free_count F)" by (rule pool_bal_cong) (use 3(2) in auto)
    moreover have "bmem t R F (barea m)" "out t R F = out ?s R F" using bmem_frame [of t ?s] 3(2) D(4) by auto
    moreover have "bk t = k'" "nbpools t = nbpools ?s" using 3(2) by simp_all
    moreover have "free_bytes bs' \<inter> barea m = {}" using 3(6) bs(2) by blast
    ultimately show ?thesis using D(5,6) 3(3-5) unfolding binv_def by (auto simp: waiting_upd)
  next
    case 4
    then show ?thesis using e by blast
  qed
  assume ne: "p \<noteq> SYSERR"
  show "\<exists>R' F'. binv (m\<lparr>bsys := t, barea := barea m \<union> {unat (bpnext (buftab t p))..<unat (bpnext (buftab t p)) + nat n * (unat (psize t p) + 4)}\<rparr>) R' F' \<and>
       bheld m = out t R' F' \<and> length (F' p) = nat n"
  proof (cases rule: mkbufpool_cases [OF c D(1,2) bs(1) N])
    case (4 buf mm bs' sem k')
    note Z = round4_bounds [OF 4(4,5)]
    let ?z = "word_of_int (round4 z) :: uint32" and ?e = "\<lparr>bpnext = buf, bpsem = sem, bpsize = word_of_int (round4 z)\<rparr>" and ?n = "nat (n - 1)"
    let ?u = "?s\<lparr>bk := k', buftab := (buftab ?s)(p := ?e)\<rparr>"
    have uz: "unat ?z = nat (round4 z)" "unat (word_of_int (round4 z + 4) :: uint32) = unat ?z + 4"
      using unat_word_of_int [of "round4 z"] unat_word_of_int [of "round4 z + 4"] Z by simp_all
    have zz: "nat (round4 z + 4) = unat ?z + 4" using uz(1) Z by simp
    have nn: "nat n = Suc ?n" using 4(6) by simp
    let ?A = "{unat buf..<unat buf + Suc ?n * (unat ?z + 4)}"
    have A: "?A \<subseteq> free_bytes bs" "free_bytes bs' \<subseteq> free_bytes bs - ?A" using 4(9,10) unfolding zz nn by blast+
    have fr: "free_bytes bs \<subseteq> {unat (minheap (kmem (bk ?s)))..<unat (maxheap (kmem (bk ?s)))}" using free_bytes_range heap_okD(2) [OF bs(1)] .
    have "unat buf \<in> ?A" "unat buf + Suc ?n * (unat ?z + 4) - 1 \<in> ?A" by auto
    then have bnd: "0 < unat buf" "unat buf + Suc ?n * (unat ?z + 4) - 1 < unat (maxheap (kmem (bk ?s)))"
      using A(1) fr heap_okD(3) [OF bs(1)] by (meson atLeastLessThan_iff order_less_le_trans subsetD)+
    have fit: "unat buf + Suc ?n * (unat ?z + 4) < 2 ^ 32" using bnd(2) unat_bound [of "maxheap (kmem (bk ?s))"] by linarith
    have bnz: "buf \<noteq> 0" using bnd(1) by auto
    have mu: "bmem ?u R F (barea m)" "out ?u R F = out ?s R F"
      using bmem_frame [of ?u ?s] D(4) 4(1) by auto
    define l where "l = pool_nodes buf (word_of_int (round4 z + 4)) (Suc ?n)"
    have t: "t = link_bufs ?n (word_of_int (round4 z + 4)) buf (?u\<lparr>nbpools := nbpools ?u + 1\<rparr>)" using 4(1,13) by simp
    have M: "bmem t (R(p := set l)) (F(p := l)) (barea m \<union> ?A)" "out t (R(p := set l)) (F(p := l)) = out ?s R F"
    proof -
      have "nbpools ?u < NBPOOLS" "buftab ?u (nbpools ?u) = \<lparr>bpnext = buf, bpsem = sem, bpsize = ?z\<rparr>" "?A \<inter> barea m = {}"
        "(word_of_int (round4 z + 4) :: uint32) = ?z + 4" using 4(1,3) A(1) bs(2) by auto
      note X = mkbufpool_mem [OF mu(1) this(1,2) fit uz(2) this(4) bnz this(3)]
      show "bmem t (R(p := set l)) (F(p := l)) (barea m \<union> ?A)" "out t (R(p := set l)) (F(p := l)) = out ?s R F"
        using X mu(2) 4(1) unfolding t l_def by simp_all
    qed
    let ?k = "(bk ?s)\<lparr>kmem := mm\<rparr>"
    have K: "kinv ?k" "qview ?k = qview (bk ?s)" using kinv_upd_cong(1,2) [OF D(1), of ?k] by simp_all
    have K2: "nextsem ?k \<in> sems" "0 \<le> n" using D(2) 4(6) by simp_all
    note S = semcreate_fresh [OF K(1) K2 4(11,12)]
    have km: "kmem k' = mm" using semcreate_ok [OF K(1) K2] 4(11,12) by (auto simp: sem_frame_def simp del: atLeastLessThan_iff)
    have st: "i \<noteq> sem" if "sstate (semtab (bk ?s) i) = S_USED" for i using S(4) that by auto
    have "pool_bal k' (bpools ?s) (psem ?s) (waiting m) (free_count F)"
    proof (rule pool_bal_kernel [OF D(7)])
      fix i assume "sstate (semtab (bk ?s) i) = S_USED"
      then have j: "semtab k' i = semtab ?k i" "waiters k' i = waiters ?k i" using S(7) st by blast+
      have "waiters k' i = waiters (bk ?s) i" unfolding j(2) K(2) by simp
      then show "semtab k' i = semtab (bk ?s) i \<and> waiters k' i = waiters (bk ?s) i" using j(1) by simp
    qed
    moreover have w: "waiting m p = {}" using D(6) 4(1) by (auto simp: waiting_def)
    moreover have "sem \<notin> psem ?s ` bpools ?s" using st pool_balD(2) [OF D(7)] by blast
    moreover have "tokens k' sem {} = int (length l)" "sem \<in> sems" using S(3,8) 4(6) by (simp_all add: l_def del: atLeastLessThan_iff)
    ultimately have "pool_bal k' (insert p (bpools ?s)) ((psem ?s)(p := sem)) (waiting m) ((free_count F)(p := int (length l)))"
      using S(5,6) 4(1) by (intro pool_bal_insert) simp_all
    then have "pool_bal k' (insert p (bpools ?s)) (psem ?u) (waiting m) (free_count (F(p := l)))"
      by (rule pool_bal_cong) (simp add: free_count_def)
    moreover have tt: "bk t = k'" "bpools t = insert p (bpools ?s)" "buftab t = (buftab ?s)(p := ?e)"
      using 4(1) N by (auto simp: t)
    ultimately have b: "pool_bal (bk t) (bpools t) (psem t) (waiting m) (free_count (F(p := l)))" by simp
    have ar: "{unat (bpnext (buftab t p))..<unat (bpnext (buftab t p)) + nat n * (unat (psize t p) + 4)} = ?A" using tt(3) nn by simp
    have fb: "heap_ok (kmem k') bs'" "free_bytes bs' \<inter> (barea m \<union> ?A) = {}" using 4(8) km A(2) bs(2) by auto
    have "binv (m\<lparr>bsys := t, barea := barea m \<union> ?A\<rparr>) (R(p := set l)) (F(p := l))"
      unfolding binv_def using b M D(5,6) S(1,2) fb tt(1,2) by (auto simp: waiting_area)
    then show ?thesis unfolding ar using M(2) D(5) nn by (auto simp: l_def intro!: exI [of _ "R(p := set l)"] exI [of _ "F(p := l)"])
  qed (use ne in blast)+
qed

lemma held_tag:
  assumes I: "binv m R F" and a: "a \<in> bheld m"
  shows "pool_of (bsys m) a \<in> bpools (bsys m)" "a - 4 \<in> R (pool_of (bsys m) a)" "a - 4 \<notin> set (F (pool_of (bsys m) a))"
proof -
  note D = binvD [OF I]
  have "4 + (a - 4) \<in> out (bsys m) R F" using a D(5) by simp
  then obtain p where p: "p \<in> bpools (bsys m)" "a - 4 \<in> R p" "a - 4 \<notin> set (F p)" unfolding out_iff by blast
  then have "pool_of (bsys m) a = p" using freebuf_mem(3) [OF D(4)] by simp
  then show "pool_of (bsys m) a \<in> bpools (bsys m)" "a - 4 \<in> R (pool_of (bsys m) a)" "a - 4 \<notin> set (F (pool_of (bsys m) a))" using p by simp_all
qed

lemma fill_step:
  assumes I: "binv m R F" and a: "a \<in> bheld m" and j: "j + 4 \<le> unat (psize (bsys m) (pool_of (bsys m) a))"
  shows "binv (m\<lparr>bsys := upd_bword (a + of_nat j) v (bsys m)\<rparr>) R F"
proof -
  note D = binvD [OF I] and H = held_tag [OF I a]
  have e: "a + of_nat j = (a - 4) + of_nat (j + 4)" by simp
  have "bmem (upd_bword (a + of_nat j) v (bsys m)) R F (barea m)"
    unfolding e by (rule write_mem [OF D(4) H]) (use j in simp_all)
  moreover have "out (upd_bword (a + of_nat j) v (bsys m)) R F = out (bsys m) R F" by (simp add: out_def)
  ultimately show ?thesis using D by (simp add: binv_def waiting_upd del: atLeastLessThan_iff)
qed

lemma bswitch_step:
  assumes I: "binv m R F" and k: "kinv k" "semtab k = semtab (bk (bsys m))" "nextsem k = nextsem (bk (bsys m))"
    "\<forall>i\<in>sems. waiters k i = waiters (bk (bsys m)) i" "heap_ok (kmem k) bs" "free_bytes bs \<inter> barea m = {}"
  shows "binv (m\<lparr>bsys := (bsys m)\<lparr>bk := k\<rparr>\<rparr>) R F"
proof -
  note D = binvD [OF I]
  have "pool_bal k (bpools (bsys m)) (psem (bsys m)) (waiting m) (free_count F)"
    by (rule pool_bal_kernel [OF D(7)]) (use k(2,4) in auto)
  then show ?thesis using D(2,4-6) k by (auto simp: binv_def waiting_upd)
qed

lemma bpstep_inv: "bpstep m m' \<Longrightarrow> binv m R F \<Longrightarrow> \<exists>R F. binv m' R F"
proof (induction rule: bpstep.induct)
  case (mk z n m p t)
  then show ?case using mk_step(2) by blast
next
  case (mk_fail z n m t)
  then show ?case using mk_step(1) by blast
next
  case (get m p a t)
  then show ?case using get_step [OF get(5,1-3)] by auto
next
  case (get_block m p t)
  have "p \<in> bpools (bsys m)" using get_block(3) by (auto simp: getbuf_def split: if_splits)
  then show ?case using get_step [OF get_block(4,1,2), of p] get_block(3) by auto
next
  case (get_end m p a t)
  then show ?case using get_end_step [OF get_end(3,1)] by auto
next
  case (free a m r t)
  have "4 + (a - 4) \<in> bheld m" using free(1) by simp
  then show ?case using free_step [OF free(3), of "a - 4"] free(2) by auto
next
  case (fill a m j v)
  then show ?case using fill_step by blast
next
  case (switch k m bs)
  then show ?case using bswitch_step by blast
qed

lemma bpsteps_inv:
  assumes "kinv (bk s)" "heap_ok (kmem (bk s)) bs" "nextsem (bk s) \<in> sems" "bufinit s = (r, t)"
    and "bpstep\<^sup>*\<^sup>* \<lparr>bsys = t, bpend = \<lambda>_. None, bheld = {}, barea = {}\<rparr> m"
  shows "\<exists>R F. binv m R F"
  using assms(5)
proof (induction rule: rtranclp_induct)
  case base
  have "binv \<lparr>bsys = t, bpend = \<lambda>_. None, bheld = {}, barea = {}\<rparr> (\<lambda>_. {}) (\<lambda>_. [])"
    using assms(1-4) by (auto simp: binv_def bufinit_def bmem_def layout_def out_def pool_bal_def NBPOOLS_def)
  then show ?case by blast
next
  case (step y z)
  then show ?case using bpstep_inv by blast
qed

section \<open>Properties\<close>

text \<open>
  C31. Buffer pools are safe under every interleaving of the processes that use them. From
  \<^verbatim>\<open>bufinit\<close> on, whatever pools are made, buffers got, filled and freed, with any context
  switches in between: the buffers that are out occupy disjoint bytes of the pools'
  memory; the free buffers of every pool form a well formed list, none of
  them out, whose length is the count of the pool's semaphore plus the number of processes that have been woken
  in \<^verbatim>\<open>getbuf\<close> and not yet taken theirs; and such a process, when it runs, takes a buffer that is not out.
\<close>

theorem bufpool_safe:
  assumes "kinv (bk s)" and "heap_ok (kmem (bk s)) bs" and "nextsem (bk s) \<in> sems" and "bufinit s = (r, t)"
    and "bpstep\<^sup>*\<^sup>* \<lparr>bsys = t, bpend = \<lambda>_. None, bheld = {}, barea = {}\<rparr> m"
  shows "(\<forall>a\<in>bheld m. \<forall>b\<in>bheld m. a \<noteq> b \<longrightarrow>
      node_bytes (a - 4) (psize (bsys m) (pool_of (bsys m) a)) \<inter> node_bytes (b - 4) (psize (bsys m) (pool_of (bsys m) b)) = {}) \<and>
    (\<forall>p\<in>bpools (bsys m). \<exists>fl. bpath (bword (bsys m)) (bpnext (buftab (bsys m) p)) fl \<and> distinct fl \<and>
      (\<forall>a\<in>set fl. 4 + a \<notin> bheld m) \<and> int (length fl) = tokens (bk (bsys m)) (psem (bsys m) p) (waiting m p)) \<and>
    (\<forall>p. bpend m (bcurr m) = Some p \<longrightarrow> (\<exists>a t'. getbuf_cont p (bsys m) = (a, t') \<and> a \<notin> bheld m))"
proof -
  obtain R F where I: "binv m R F" using bpsteps_inv [OF assms] by blast
  note D = binvD [OF I]
  have lay: "layout (bsys m) R (barea m)" using D(4) by (simp add: bmem_def)
  have "node_bytes (a - 4) (psize (bsys m) (pool_of (bsys m) a)) \<inter> node_bytes (b - 4) (psize (bsys m) (pool_of (bsys m) b)) = {}"
    if "a \<in> bheld m" "b \<in> bheld m" "a \<noteq> b" for a b
    by (rule layoutD(4) [OF lay held_tag(1,2) [OF I that(1)] held_tag(1,2) [OF I that(2)]]) (use that(3) in auto)
  moreover have "\<exists>fl. bpath (bword (bsys m)) (bpnext (buftab (bsys m) p)) fl \<and> distinct fl \<and>
      (\<forall>a\<in>set fl. 4 + a \<notin> bheld m) \<and> int (length fl) = tokens (bk (bsys m)) (psem (bsys m) p) (waiting m p)"
    if p: "p \<in> bpools (bsys m)" for p
  proof -
    note B = bmemD [OF D(4) p]
    have "4 + a \<notin> bheld m" if "a \<in> set (F p)" for a using out_upd(3) [OF lay p refl, of a F] B(3) that D(5) by auto
    then show ?thesis using B(1,2) pool_balD(4) [OF D(7) p] by (auto simp: free_count_def)
  qed
  moreover have "\<exists>a t'. getbuf_cont p (bsys m) = (a, t') \<and> a \<notin> bheld m" if "bpend m (bcurr m) = Some p" for p
    using get_end_step [OF I that] by blast
  ultimately show ?thesis by blast
qed

text \<open>A kernel with a running process, the pool table still zero, and a pool of two buffers of sixteen bytes.\<close>

definition kbufs :: bufsys where
  "kbufs = \<lparr>bk = krun, buftab = (\<lambda>_. \<lparr>bpnext = 0, bpsem = 0, bpsize = 0\<rparr>), nbpools = 0, bword = (\<lambda>_. 0)\<rparr>"

lemma kbufs_facts: "kinv (bk kbufs)" "heap_ok (kmem (bk kbufs)) [(0x10000, 0xEE000)]" "nextsem (bk kbufs) \<in> sems" "bufinit kbufs = (OK, kbufs)"
  using krun_facts(1,10,12) kboot_heap by (simp_all add: kbufs_def bufinit_def NSEM_def)

lemma kbufs_pool: "\<exists>t. mkbufpool 16 2 kbufs = Some (0, t)"
proof -
  have ok: "\<not> (16 < BP_MINB \<or> 16 > BP_MAXB \<or> (2 :: int) < 1 \<or> 2 > BP_MAXN \<or> nbpools kbufs \<ge> NBPOOLS)"
    by (simp add: BP_MINB_def BP_MAXB_def BP_MAXN_def NBPOOLS_def kbufs_def)
  have r4: "round4 16 = 16" by (simp add: round4_def)
  have "\<exists>a m bs'. getmem 40 (kmem krun) = Some (a, m) \<and> heap_ok m bs' \<and> {unat a..<unat a + reqsize 40} \<subseteq> free_bytes [(0x10000, 0xEE000)]"
    using getmem_cases [OF kboot_heap, of 40] krun_facts(12) by (auto simp: reqsize_def)
  then obtain a m where g: "getmem 40 (kmem krun) = Some (a, m)" "{unat a..<unat a + reqsize 40} \<subseteq> free_bytes [(0x10000, 0xEE000)]" by blast
  have "unat a \<in> {unat a..<unat a + reqsize 40}" by (simp add: reqsize_def)
  then have "unat a < 0x100000" using g(2) by (auto simp: extent_def)
  moreover have "unat SYSERR_PTR = 0xFFFFFFFF" by (simp add: SYSERR_PTR_def unsigned_minus_1_eq_mask mask_eq_exp_minus_1)
  ultimately have nf: "a \<noteq> SYSERR_PTR" by auto
  let ?k = "krun\<lparr>kmem := m\<rparr>"
  have K: "kinv ?k" "nextsem ?k \<in> sems" using kinv_upd_cong(1) [OF krun_facts(1), of ?k] krun_facts(10) by (simp_all add: NSEM_def)
  obtain i k where sc: "semcreate 2 ?k = (i, k)" by (cases "semcreate 2 ?k")
  have z: "0 \<in> sems" "SYSERR \<notin> sems" by (simp_all add: NSEM_def SYSERR_def)
  have "i \<noteq> SYSERR" using semcreate_ok [OF K, of 2] sc kboot_facts(8) [OF z(1)] krun_facts(9) z by (auto simp del: atLeastLessThan_iff)
  then show ?thesis using g(1) nf sc unfolding mkbufpool_eq [OF ok] by (simp add: r4 Let_def) (simp add: kbufs_def)
qed

definition kpool :: bufsys where "kpool = snd (the (mkbufpool 16 2 kbufs))"

lemma kpool_step:
  "\<exists>A. bpstep \<lparr>bsys = kbufs, bpend = \<lambda>_. None, bheld = {}, barea = {}\<rparr> \<lparr>bsys = kpool, bpend = \<lambda>_. None, bheld = {}, barea = A\<rparr>"
proof -
  obtain t where t: "mkbufpool 16 2 kbufs = Some (0, t)" using kbufs_pool by blast
  have k: "kpool = t" using t by (simp add: kpool_def)
  let ?m = "\<lparr>bsys = kbufs, bpend = \<lambda>_. None, bheld = {}, barea = {}\<rparr>"
  have "bpstep ?m (?m\<lparr>bsys := t, barea := barea ?m \<union> {unat (bpnext (buftab t 0))..<unat (bpnext (buftab t 0)) + nat 2 * (unat (psize t 0) + 4)}\<rparr>)"
    by (rule bpstep.mk) (use t in \<open>simp_all add: SYSERR_def\<close>)
  then show ?thesis unfolding k by auto
qed

lemma kpool_facts: "nbpools kpool = 1" "psize kpool 0 = 16" "currpid (bk kpool) = 1" "scount (semtab (bk kpool) (psem kpool 0)) = 2"
proof -
  obtain t where t: "mkbufpool 16 2 kbufs = Some (0, t)" using kbufs_pool by blast
  have k: "kpool = t" using t by (simp add: kpool_def)
  have N: "0 \<le> nbpools kbufs" by (simp add: kbufs_def)
  have "nbpools t = 1 \<and> psize t 0 = 16 \<and> currpid (bk t) = 1 \<and> scount (semtab (bk t) (psem t 0)) = 2"
  proof (cases rule: mkbufpool_cases [OF t kbufs_facts(1,3,2) N])
    case (4 buf m bs' sem k')
    let ?k = "(bk kbufs)\<lparr>kmem := m\<rparr>"
    have K: "kinv ?k" "nextsem ?k \<in> sems" using kinv_upd_cong(1) [OF kbufs_facts(1), of ?k] kbufs_facts(3) by simp_all
    have "currpid k' = 1" "scount (semtab k' sem) = 2"
      using semcreate_ok [OF K, of 2] 4(11,12) krun_facts(4) by (auto simp: kbufs_def simp del: atLeastLessThan_iff)
    then show ?thesis using 4(13) by (simp add: kbufs_def round4_def)
  qed (simp_all add: SYSERR_def)
  then show "nbpools kpool = 1" "psize kpool 0 = 16" "currpid (bk kpool) = 1" "scount (semtab (bk kpool) (psem kpool 0)) = 2"
    using k by simp_all
qed

theorem bufpool_safe_witness:
  "\<exists>fl. bpath (bword kpool) (bpnext (buftab kpool 0)) fl \<and> distinct fl \<and> int (length fl) = tokens (bk kpool) (psem kpool 0) {}"
proof -
  obtain A where "bpstep \<lparr>bsys = kbufs, bpend = \<lambda>_. None, bheld = {}, barea = {}\<rparr> \<lparr>bsys = kpool, bpend = \<lambda>_. None, bheld = {}, barea = A\<rparr>"
    using kpool_step by blast
  from bufpool_safe [OF kbufs_facts r_into_rtranclp [of bpstep, OF this]]
  have "\<forall>p\<in>bpools kpool. \<exists>fl. bpath (bword kpool) (bpnext (buftab kpool p)) fl \<and> distinct fl \<and> int (length fl) = tokens (bk kpool) (psem kpool p) {}"
    by (auto simp: waiting_def)
  then show ?thesis using kpool_facts(1) by auto
qed

end
