(* ===== verification/Lib_String.thy ===== *)
theory Lib_String
  imports Xinu_Prelude
begin

text \<open>
  The byte and string routines of \<^verbatim>\<open>lib/\<close>, on a memory of bytes addressed by 32-bit
  pointers. On ARM a plain \<^verbatim>\<open>char\<close> is unsigned, so a character is an \<open>8 word\<close> and
  comparisons are unsigned. A loop that looks for a terminating zero may run over all of
  memory for ever: such loops are partial functions, and the lemmas show that they return
  on a zero-terminated string. A loop counted by \<^verbatim>\<open>i < n\<close> recurses on the iterations left.

  Each routine is related to an operation on lists: \<open>cstr m p xs\<close> says that the string at
  \<open>p\<close> is \<open>xs\<close>, \<open>put m p xs\<close> is the memory with \<open>xs\<close> written at \<open>p\<close>.
\<close>

unbundle bit_operations_syntax

type_synonym uchar = "8 word"
type_synonym bytes = "uint32 \<Rightarrow> uchar"

section \<open>The routines\<close>

subsection \<open>Strings\<close>

partial_function (option) strlen_loop :: "bytes \<Rightarrow> uint32 \<Rightarrow> uint32 \<Rightarrow> uint32 option" where
  "strlen_loop m str len = (if m str \<noteq> 0 then strlen_loop m (str + 1) (len + 1) else Some len)"

definition strlen :: "bytes \<Rightarrow> uint32 \<Rightarrow> uint32 option" where
  "strlen m str = strlen_loop m str 0"

text \<open>The test reads \<^verbatim>\<open>*s\<close> before it compares \<^verbatim>\<open>n\<close> with \<^verbatim>\<open>len\<close>.\<close>

function strnlen_loop :: "bytes \<Rightarrow> uint32 \<Rightarrow> uint32 \<Rightarrow> uint32 \<Rightarrow> uint32" where
  "strnlen_loop m s len n = (if m s \<noteq> 0 \<and> n < len then strnlen_loop m (s + 1) len (n + 1) else n)"
  by auto
termination
proof (relation "measure (\<lambda>(m, s, len, n). unat len - unat n)")
  show "((m, s + 1, len, n + 1), (m, s, len, n)) \<in> measure (\<lambda>(m, s, len, n). unat len - unat n)"
    if "m s \<noteq> 0 \<and> n < len" for m :: bytes and s len n :: uint32
  proof -
    have "n < len" using that by simp
    moreover from this have "unat (n + 1) = unat n + 1"
      using unat_bound [of len] by (simp add: word_less_nat_alt unat_word_ariths)
    ultimately show ?thesis by (simp add: word_less_nat_alt)
  qed
qed simp

definition strnlen :: "bytes \<Rightarrow> uint32 \<Rightarrow> uint32 \<Rightarrow> uint32" where
  "strnlen m s len = strnlen_loop m s len 0"

partial_function (option) strcpy_loop :: "bytes \<Rightarrow> uint32 \<Rightarrow> uint32 \<Rightarrow> bytes option" where
  "strcpy_loop m tar src =
    (let m1 = m(tar := m src) in
     if m src \<noteq> 0 then strcpy_loop m1 (tar + 1) (src + 1) else Some m1)"

definition strcpy :: "bytes \<Rightarrow> uint32 \<Rightarrow> uint32 \<Rightarrow> (int \<times> bytes) option" where
  "strcpy m tar src = do { m1 \<leftarrow> strcpy_loop m tar src; Some (0, m1) }"

primrec strncpy_pad :: "nat \<Rightarrow> bytes \<Rightarrow> uint32 \<Rightarrow> bytes" where
  "strncpy_pad 0 m s1 = m"
| "strncpy_pad (Suc k) m s1 = strncpy_pad k (m(s1 := 0)) (s1 + 1)"

primrec strncpy_loop :: "nat \<Rightarrow> bytes \<Rightarrow> uint32 \<Rightarrow> uint32 \<Rightarrow> bytes" where
  "strncpy_loop 0 m s1 s2 = m"
| "strncpy_loop (Suc k) m s1 s2 =
    (let m1 = m(s1 := m s2) in
     if m s2 = 0 then strncpy_pad k m1 (s1 + 1) else strncpy_loop k m1 (s1 + 1) (s2 + 1))"

definition strncpy :: "bytes \<Rightarrow> uint32 \<Rightarrow> uint32 \<Rightarrow> int \<Rightarrow> uint32 \<times> bytes" where
  "strncpy m s1 s2 n = (s1, strncpy_loop (nat n) m s1 s2)"

partial_function (option) strcmp :: "bytes \<Rightarrow> uint32 \<Rightarrow> uint32 \<Rightarrow> int option" where
  "strcmp m str1 str2 =
    (if m str1 = m str2 then (if m str1 = 0 then Some 0 else strcmp m (str1 + 1) (str2 + 1))
     else Some (if m str1 < m str2 then - 1 else 1))"

text \<open>\<open>k\<close> is the number of characters still to be compared, \<^verbatim>\<open>n\<close> before its decrement.\<close>

primrec strncmp_loop :: "nat \<Rightarrow> bytes \<Rightarrow> uint32 \<Rightarrow> uint32 \<Rightarrow> int" where
  "strncmp_loop 0 m s1 s2 = 0"
| "strncmp_loop (Suc k) m s1 s2 =
    (if m s1 = m s2 then (if m s1 = 0 then 0 else strncmp_loop k m (s1 + 1) (s2 + 1))
     else uint (m s1) - uint (m s2))"

definition strncmp :: "bytes \<Rightarrow> uint32 \<Rightarrow> uint32 \<Rightarrow> int \<Rightarrow> int" where
  "strncmp m s1 s2 n = strncmp_loop (nat n) m s1 s2"

partial_function (option) strend :: "bytes \<Rightarrow> uint32 \<Rightarrow> uint32 option" where
  "strend m s1 = (if m s1 \<noteq> 0 then strend m (s1 + 1) else Some s1)"

partial_function (option) strncat_loop :: "bytes \<Rightarrow> uint32 \<Rightarrow> uint32 \<Rightarrow> int \<Rightarrow> bytes option" where
  "strncat_loop m s1 s2 n =
    (let m1 = m(s1 := m s2) in
     if m s2 \<noteq> 0 then
       (if n - 1 < 0 then Some (m1(s1 := 0)) else strncat_loop m1 (s1 + 1) (s2 + 1) (n - 1))
     else Some m1)"

definition strncat :: "bytes \<Rightarrow> uint32 \<Rightarrow> uint32 \<Rightarrow> int \<Rightarrow> (uint32 \<times> bytes) option" where
  "strncat m s1 s2 n = do { e \<leftarrow> strend m s1; m1 \<leftarrow> strncat_loop m e s2 n; Some (s1, m1) }"

partial_function (option) strchr :: "bytes \<Rightarrow> uint32 \<Rightarrow> uchar \<Rightarrow> uint32 option" where
  "strchr m s c =
    (if m s \<noteq> 0 then (if m s = c then Some s else strchr m (s + 1) c)
     else if c = m s then Some s else Some 0)"

partial_function (option) strrchr_loop :: "bytes \<Rightarrow> uint32 \<Rightarrow> uchar \<Rightarrow> uint32 \<Rightarrow> uint32 option" where
  "strrchr_loop m s c r =
    (if m s \<noteq> 0 then strrchr_loop m (s + 1) c (if m s = c then s else r)
     else if c = m s then Some s else Some r)"

definition strrchr :: "bytes \<Rightarrow> uint32 \<Rightarrow> uchar \<Rightarrow> uint32 option" where
  "strrchr m s c = strrchr_loop m s c 0"

partial_function (option) strstr_match :: "bytes \<Rightarrow> uint32 \<Rightarrow> uint32 \<Rightarrow> uint32 option" where
  "strstr_match m cq cr =
    (if m cq \<noteq> 0 \<and> m cr \<noteq> 0 \<and> m cq = m cr then strstr_match m (cq + 1) (cr + 1) else Some cr)"

partial_function (option) strstr :: "bytes \<Rightarrow> uint32 \<Rightarrow> uint32 \<Rightarrow> uint32 option" where
  "strstr m cs ct =
    (if m cs \<noteq> 0 then
       (if m cs = m ct then
          do { cr \<leftarrow> strstr_match m cs ct; if m cr = 0 then Some cs else strstr m (cs + 1) ct }
        else strstr m (cs + 1) ct)
     else Some 0)"

subsection \<open>Blocks of memory\<close>

primrec memcpy_loop :: "nat \<Rightarrow> bytes \<Rightarrow> uint32 \<Rightarrow> uint32 \<Rightarrow> bytes" where
  "memcpy_loop 0 m dst src = m"
| "memcpy_loop (Suc k) m dst src = memcpy_loop k (m(dst := m src)) (dst + 1) (src + 1)"

definition memcpy :: "bytes \<Rightarrow> uint32 \<Rightarrow> uint32 \<Rightarrow> int \<Rightarrow> uint32 \<times> bytes" where
  "memcpy m s ct n = (s, memcpy_loop (nat n) m s ct)"

primrec memset_loop :: "nat \<Rightarrow> bytes \<Rightarrow> uint32 \<Rightarrow> uchar \<Rightarrow> bytes" where
  "memset_loop 0 m cp c = m"
| "memset_loop (Suc k) m cp c = memset_loop k (m(cp := c)) (cp + 1) c"

definition memset :: "bytes \<Rightarrow> uint32 \<Rightarrow> int \<Rightarrow> int \<Rightarrow> uint32 \<times> bytes" where
  "memset m s c n = (s, memset_loop (nat n) m s (word_of_int c))"

text \<open>The \<^verbatim>\<open>do ... while (--n)\<close> of \<^verbatim>\<open>bzero\<close>, entered with \<^verbatim>\<open>n = Suc k\<close>.\<close>

primrec bzero_loop :: "nat \<Rightarrow> bytes \<Rightarrow> uint32 \<Rightarrow> bytes" where
  "bzero_loop 0 m pch = m(pch := 0)"
| "bzero_loop (Suc k) m pch = bzero_loop k (m(pch := 0)) (pch + 1)"

definition bzero :: "bytes \<Rightarrow> uint32 \<Rightarrow> int \<Rightarrow> bytes" where
  "bzero m p len = (if len \<le> 0 then m else bzero_loop (nat (len - 1)) m p)"

primrec memcmp_loop :: "nat \<Rightarrow> bytes \<Rightarrow> uint32 \<Rightarrow> uint32 \<Rightarrow> int" where
  "memcmp_loop 0 m c1 c2 = 0"
| "memcmp_loop (Suc k) m c1 c2 =
    (if m c1 \<noteq> m c2 then uint (m c1) - uint (m c2) else memcmp_loop k m (c1 + 1) (c2 + 1))"

definition memcmp :: "bytes \<Rightarrow> uint32 \<Rightarrow> uint32 \<Rightarrow> int \<Rightarrow> int" where
  "memcmp m s1 s2 n = memcmp_loop (nat n) m s1 s2"

partial_function (option) memchr_loop :: "bytes \<Rightarrow> uint32 \<Rightarrow> uchar \<Rightarrow> uint32 option" where
  "memchr_loop m cp c =
    (if m cp \<noteq> 0 then (if m cp = c then Some cp else memchr_loop m (cp + 1) c) else Some 0)"

definition memchr :: "bytes \<Rightarrow> uint32 \<Rightarrow> uchar \<Rightarrow> int \<Rightarrow> uint32 option" where
  "memchr m cs c n = memchr_loop m cs c"

subsection \<open>Numbers\<close>

definition abs_int :: "uint32 \<Rightarrow> uint32" where
  "abs_int arg = (if sint arg < 0 then - arg else arg)"

definition labs :: "uint32 \<Rightarrow> uint32" where
  "labs arg = (if sint arg < 0 then - arg else arg)"

text \<open>
  \<^verbatim>\<open>atoi\<close> first skips blanks, then takes at most one sign, then digits. Characters are
  their ASCII codes: tab 9, space 32, plus 43, minus 45, digits 48 to 57.
\<close>

partial_function (option) atoi_blanks :: "bytes \<Rightarrow> uint32 \<Rightarrow> uint32 option" where
  "atoi_blanks m p = (if m p = 32 \<or> m p = 9 then atoi_blanks m (p + 1) else Some p)"

partial_function (option) atoi_digits :: "bytes \<Rightarrow> uint32 \<Rightarrow> uint32 \<Rightarrow> uint32 option" where
  "atoi_digits m p n =
    (if 48 \<le> m p \<and> m p \<le> 57 then atoi_digits m (p + 1) (n * 10 + ucast (m p) - 48) else Some n)"

definition atoi :: "bytes \<Rightarrow> uint32 \<Rightarrow> uint32 option" where
  "atoi m p = do {
     p1 \<leftarrow> atoi_blanks m p;
     let f = (if m p1 = 45 then 1 else 0 :: int);
     let p2 = (if m p1 = 45 \<or> m p1 = 43 then p1 + 1 else p1);
     n \<leftarrow> atoi_digits m p2 0;
     Some (if f \<noteq> 0 then - n else n) }"

definition atol :: "bytes \<Rightarrow> uint32 \<Rightarrow> uint32 option" where
  "atol m p = do {
     p1 \<leftarrow> atoi_blanks m p;
     let f = (if m p1 = 45 then 1 else 0 :: int);
     let p2 = (if m p1 = 45 \<or> m p1 = 43 then p1 + 1 else p1);
     n \<leftarrow> atoi_digits m p2 0;
     Some (if f \<noteq> 0 then - n else n) }"

definition srand :: "uint32 \<Rightarrow> uint32 \<Rightarrow> uint32" where
  "srand x randx = x"

definition rand :: "uint32 \<Rightarrow> uint32 \<times> uint32" where
  "rand randx = (let r = randx * 1103515245 + 12345 in (drop_bit 16 r AND 0x7FFF, r))"

section \<open>Strings and blocks as lists\<close>

fun cstr :: "bytes \<Rightarrow> uint32 \<Rightarrow> uchar list \<Rightarrow> bool" where
  "cstr m p [] \<longleftrightarrow> m p = 0"
| "cstr m p (x # xs) \<longleftrightarrow> m p = x \<and> x \<noteq> 0 \<and> cstr m (p + 1) xs"

fun put :: "bytes \<Rightarrow> uint32 \<Rightarrow> uchar list \<Rightarrow> bytes" where
  "put m p [] = m"
| "put m p (x # xs) = put (m(p := x)) (p + 1) xs"

primrec block :: "bytes \<Rightarrow> uint32 \<Rightarrow> nat \<Rightarrow> uchar list" where
  "block m p 0 = []"
| "block m p (Suc n) = m p # block m (p + 1) n"

text \<open>The \<open>n\<close> bytes at \<open>p\<close> and the \<open>k\<close> bytes at \<open>q\<close> do not overlap.\<close>

definition apart :: "uint32 \<Rightarrow> nat \<Rightarrow> uint32 \<Rightarrow> nat \<Rightarrow> bool" where
  "apart p n q k \<longleftrightarrow> (\<forall>i<n. \<forall>j<k. p + of_nat i \<noteq> q + of_nat j)"

lemma apart_step:
  assumes "apart p (Suc n) q (Suc k)"
  shows "apart (p + 1) n (q + 1) k" "\<And>j. j \<le> k \<Longrightarrow> p \<noteq> q + of_nat j"
proof -
  show "apart (p + 1) n (q + 1) k"
    unfolding apart_def
  proof (intro allI impI)
    fix i j assume "i < n" "j < k"
    then have "p + of_nat (Suc i) \<noteq> q + of_nat (Suc j)" using assms unfolding apart_def by blast
    then show "p + 1 + of_nat i \<noteq> q + 1 + of_nat j" by (simp add: algebra_simps)
  qed
  show "p \<noteq> q + of_nat j" if "j \<le> k" for j
  proof -
    have "p + of_nat 0 \<noteq> q + of_nat j"
      by (rule assms [unfolded apart_def, rule_format]) (use that in simp_all)
    then show ?thesis by simp
  qed
qed

lemma apart_mono: "apart p n q k \<Longrightarrow> n' \<le> n \<Longrightarrow> k' \<le> k \<Longrightarrow> apart p n' q k'"
  by (meson apart_def less_le_trans)

lemma apart_sym: "apart p n q k \<Longrightarrow> apart q k p n"
  by (metis apart_def)

lemma shift_ne: "(\<And>j. j \<le> Suc n \<Longrightarrow> a \<noteq> p + of_nat j) \<Longrightarrow> j \<le> n \<Longrightarrow> a \<noteq> p + 1 + (of_nat j :: uint32)"
  by (metis Suc_le_mono add.assoc of_nat_Suc)

lemma cstr_upd: "(\<And>j. j \<le> length xs \<Longrightarrow> a \<noteq> p + of_nat j) \<Longrightarrow> cstr (m(a := x)) p xs = cstr m p xs"
proof (induction xs arbitrary: p)
  case Nil
  then show ?case using Nil [of 0] by simp
next
  case (Cons y xs)
  have "a \<noteq> p" using Cons.prems [of 0] by simp
  moreover have "cstr (m(a := x)) (p + 1) xs = cstr m (p + 1) xs"
    by (rule Cons.IH) (rule shift_ne [of "length xs"], use Cons.prems in auto)
  ultimately show ?case by (simp add: fun_upd_def)
qed

lemma put_other: "(\<And>j. j < length xs \<Longrightarrow> a \<noteq> p + of_nat j) \<Longrightarrow> put m p xs a = m a"
proof (induction xs arbitrary: m p)
  case (Cons x xs)
  have "a \<noteq> p" using Cons.prems [of 0] by simp
  moreover have "a \<noteq> p + 1 + of_nat j" if "j < length xs" for j
    using Cons.prems [of "Suc j"] that by (simp add: algebra_simps)
  ultimately show ?case using Cons.IH [of "p + 1" "m(p := x)"] by (simp add: fun_upd_def)
qed simp

lemma step_ne:
  assumes "j < n" "n < 2 ^ 32"
  shows "p \<noteq> p + 1 + (of_nat j :: uint32)"
proof
  assume "p = p + 1 + (of_nat j :: uint32)"
  then have "of_nat (Suc j) = (0 :: uint32)" by (simp add: algebra_simps)
  then have "unat (of_nat (Suc j) :: uint32) = 0" by (simp only: unsigned_0)
  then show False using assms by (simp only: unat_of_nat take_bit_nat_eq_self_iff) (simp add: take_bit_nat_eq_self)
qed

lemma put_head: "length xs < 2 ^ 32 \<Longrightarrow> put m p (x # xs) p = x"
  using put_other [of xs p "p + 1" "m(p := x)"] step_ne [of _ "length xs" p] by (simp add: fun_upd_def)

lemma put_cstr:
  assumes "length xs < 2 ^ 32" "0 \<notin> set xs"
  shows "cstr (put m p (xs @ [0])) p xs"
  using assms
proof (induction xs arbitrary: m p)
  case (Cons x xs)
  have "put m p ((x # xs) @ [0]) p = x" using put_head [of "xs @ [0]"] Cons.prems by simp
  then show ?case using Cons.IH [of "m(p := x)" "p + 1"] Cons.prems by (simp add: fun_upd_def)
qed simp

lemma put_put_other:
  "(\<And>j. j < length xs \<Longrightarrow> a \<noteq> p + of_nat j) \<Longrightarrow> put (m(a := x)) p xs = (put m p xs)(a := x)"
proof (induction xs arbitrary: m p)
  case (Cons y xs)
  have "a \<noteq> p" using Cons.prems [of 0] by simp
  then have "m(a := x, p := y) = m(p := y, a := x)" by auto
  moreover have "a \<noteq> p + 1 + of_nat j" if "j < length xs" for j
    using Cons.prems [of "Suc j"] that by (simp add: algebra_simps)
  ultimately show ?case using Cons.IH [of "p + 1" "m(p := y)"] by (simp only: put.simps) blast
qed simp

lemma put_append: "put m p (xs @ ys) = put (put m p xs) (p + of_nat (length xs)) ys"
  by (induction xs arbitrary: m p) (simp_all add: algebra_simps)

lemma block_upd: "(\<And>j. j < n \<Longrightarrow> a \<noteq> p + of_nat j) \<Longrightarrow> block (m(a := x)) p n = block m p n"
proof (induction n arbitrary: p)
  case (Suc n)
  have "a \<noteq> p" using Suc.prems [of 0] by simp
  moreover have "a \<noteq> p + 1 + of_nat j" if "j < n" for j
    using Suc.prems [of "Suc j"] that by (simp add: algebra_simps)
  ultimately show ?case using Suc.IH [of "p + 1"] by (simp add: fun_upd_def)
qed simp

lemma length_block [simp]: "length (block m p n) = n"
  by (induction n arbitrary: p) simp_all

lemma block_put: "length xs \<le> 2 ^ 32 \<Longrightarrow> block (put m p xs) p (length xs) = xs"
proof (induction xs arbitrary: m p)
  case (Cons x xs)
  then show ?case using put_head [of xs m p x] by simp
qed simp

section \<open>What the string routines compute\<close>

lemma strlen_loop_cstr: "cstr m s xs \<Longrightarrow> strlen_loop m s n = Some (n + of_nat (length xs))"
proof (induction xs arbitrary: s n)
  case Nil
  then show ?case by (subst strlen_loop.simps) simp
next
  case (Cons x xs)
  then show ?case by (subst strlen_loop.simps) (simp add: algebra_simps)
qed

lemma strlen_cstr: "cstr m s xs \<Longrightarrow> strlen m s = Some (of_nat (length xs))"
  by (simp add: strlen_def strlen_loop_cstr)

lemma strnlen_loop_cstr:
  "cstr m s xs \<Longrightarrow> unat n + length xs < 2 ^ 32 \<Longrightarrow> n \<le> len \<Longrightarrow>
   unat (strnlen_loop m s len n) = min (unat n + length xs) (unat len)"
proof (induction xs arbitrary: s n)
  case Nil
  then show ?case by (subst strnlen_loop.simps) (simp add: wle)
next
  case (Cons x xs)
  show ?case
  proof (cases "n < len")
    case True
    have u: "unat (n + 1) = unat n + 1" using Cons.prems(2) by (simp add: unat_add_noovf)
    have "unat (strnlen_loop m (s + 1) len (n + 1)) = min (unat (n + 1) + length xs) (unat len)"
      by (rule Cons.IH) (use Cons.prems True u in \<open>simp_all add: wle wless\<close>)
    then show ?thesis using Cons.prems True u by (subst strnlen_loop.simps) simp
  next
    case False
    then show ?thesis using Cons.prems by (subst strnlen_loop.simps) (simp add: wle wless)
  qed
qed

lemma strnlen_cstr: "cstr m s xs \<Longrightarrow> length xs < 2 ^ 32 \<Longrightarrow> unat (strnlen m s len) = min (length xs) (unat len)"
  using strnlen_loop_cstr [of m s xs 0 len] by (simp add: strnlen_def)

lemma strcpy_loop_cstr:
  "cstr m src xs \<Longrightarrow> apart tar (Suc (length xs)) src (Suc (length xs)) \<Longrightarrow> strcpy_loop m tar src = Some (put m tar (xs @ [0]))"
proof (induction xs arbitrary: m tar src)
  case Nil
  then show ?case by (subst strcpy_loop.simps) simp
next
  case (Cons x xs)
  note A = apart_step [OF Cons.prems(2) [simplified]]
  have "cstr (m(tar := x)) (src + 1) xs"
    using Cons.prems(1) cstr_upd [of xs tar "src + 1" m x, OF shift_ne [of "length xs" tar src]] A(2) by simp
  then have "strcpy_loop (m(tar := x)) (tar + 1) (src + 1) = Some (put (m(tar := x)) (tar + 1) (xs @ [0]))"
    by (rule Cons.IH) (use A(1) in simp)
  then show ?case using Cons.prems(1) by (subst strcpy_loop.simps) simp
qed

lemma strcpy_cstr:
  assumes "cstr m src xs" and "apart tar (Suc (length xs)) src (Suc (length xs))"
  shows "strcpy m tar src = Some (0, put m tar (xs @ [0]))"
  using strcpy_loop_cstr [OF assms] by (simp add: strcpy_def)

lemma strncpy_pad_put: "strncpy_pad k m s1 = put m s1 (replicate k 0)"
  by (induction k arbitrary: m s1) simp_all

lemma strncpy_loop_cstr:
  "cstr m s2 xs \<Longrightarrow> apart s1 k s2 (Suc (length xs)) \<Longrightarrow>
   strncpy_loop k m s1 s2 = put m s1 (take k (xs @ replicate (k - length xs) 0))"
proof (induction k arbitrary: m s1 s2 xs)
  case 0
  then show ?case by simp
next
  case (Suc k)
  show ?case
  proof (cases xs)
    case Nil
    then show ?thesis using Suc.prems by (simp add: strncpy_pad_put)
  next
    case (Cons x ys)
    note A = apart_step [OF Suc.prems(2) [unfolded Cons, simplified]]
    have "cstr (m(s1 := x)) (s2 + 1) ys"
      using Suc.prems(1) Cons cstr_upd [of ys s1 "s2 + 1" m x, OF shift_ne [of "length ys" s1 s2]] A(2) by simp
    then have "strncpy_loop k (m(s1 := x)) (s1 + 1) (s2 + 1) = put (m(s1 := x)) (s1 + 1) (take k (ys @ replicate (k - length ys) 0))"
      by (rule Suc.IH) (use A(1) in simp)
    then show ?thesis using Suc.prems(1) Cons by simp
  qed
qed

lemma strncpy_cstr:
  assumes "cstr m s2 xs" and "apart s1 (nat n) s2 (Suc (length xs))"
  shows "strncpy m s1 s2 n = (s1, put m s1 (take (nat n) (xs @ replicate (nat n - length xs) 0)))"
  using strncpy_loop_cstr [OF assms] by (simp add: strncpy_def)

lemma strend_cstr: "cstr m s xs \<Longrightarrow> strend m s = Some (s + of_nat (length xs))"
proof (induction xs arbitrary: s)
  case Nil
  then show ?case by (subst strend.simps) simp
next
  case (Cons x xs)
  then show ?case by (subst strend.simps) (simp add: algebra_simps)
qed

lemma strncat_loop_cstr:
  "cstr m s2 ys \<Longrightarrow> apart s1 (Suc (length ys)) s2 (Suc (length ys)) \<Longrightarrow>
   strncat_loop m s1 s2 n = Some (put m s1 (take (nat n) ys @ [0]))"
proof (induction ys arbitrary: m s1 s2 n)
  case Nil
  then show ?case by (subst strncat_loop.simps) simp
next
  case (Cons y ys)
  note A = apart_step [OF Cons.prems(2) [simplified]]
  show ?case
  proof (cases "n - 1 < 0")
    case True
    then show ?thesis using Cons.prems(1) by (subst strncat_loop.simps) simp
  next
    case False
    then have n: "nat n = Suc (nat (n - 1))" by simp
    have "cstr (m(s1 := y)) (s2 + 1) ys"
      using Cons.prems(1) cstr_upd [of ys s1 "s2 + 1" m y, OF shift_ne [of "length ys" s1 s2]] A(2) by simp
    then have "strncat_loop (m(s1 := y)) (s1 + 1) (s2 + 1) (n - 1) = Some (put (m(s1 := y)) (s1 + 1) (take (nat (n - 1)) ys @ [0]))"
      by (rule Cons.IH) (use A(1) in simp)
    then show ?thesis using False Cons.prems(1) n by (subst strncat_loop.simps) (simp del: nat_diff_distrib')
  qed
qed

lemma strncat_cstr:
  assumes "cstr m s1 xs" and "cstr m s2 ys" and "apart (s1 + of_nat (length xs)) (Suc (length ys)) s2 (Suc (length ys))"
  shows "strncat m s1 s2 n = Some (s1, put m (s1 + of_nat (length xs)) (take (nat n) ys @ [0]))"
  using strend_cstr [OF assms(1)] strncat_loop_cstr [OF assms(2,3), of n] by (simp add: strncat_def)

text \<open>Lexicographic comparison of zero-terminated lists.\<close>

fun lexcmp :: "uchar list \<Rightarrow> uchar list \<Rightarrow> int" where
  "lexcmp [] [] = 0"
| "lexcmp [] (y # ys) = - 1"
| "lexcmp (x # xs) [] = 1"
| "lexcmp (x # xs) (y # ys) = (if x = y then lexcmp xs ys else if x < y then - 1 else 1)"

lemma lexcmp_eq_0: "lexcmp xs ys = 0 \<longleftrightarrow> xs = ys"
  by (induction xs ys rule: lexcmp.induct) auto

lemma strcmp_cstr: "cstr m s1 xs \<Longrightarrow> cstr m s2 ys \<Longrightarrow> strcmp m s1 s2 = Some (lexcmp xs ys)"
proof (induction xs ys arbitrary: s1 s2 rule: lexcmp.induct)
  case 1
  then show ?case by (subst strcmp.simps) simp
next
  case (2 y ys)
  then show ?case by (subst strcmp.simps) (simp add: word_gt_0)
next
  case (3 x xs)
  then show ?case by (subst strcmp.simps) simp
next
  case (4 x xs y ys)
  then show ?case by (subst strcmp.simps) simp
qed

lemma strncmp_cstr:
  "cstr m s1 xs \<Longrightarrow> cstr m s2 ys \<Longrightarrow> sgn (strncmp m s1 s2 n) = lexcmp (take (nat n) xs) (take (nat n) ys)"
proof -
  have u: "uint x - uint y = 0 \<longleftrightarrow> x = y" "sgn (uint x - uint y) = (if x = y then 0 else if x < y then - 1 else 1)" for x y :: uchar
    by (auto simp: sgn_if word_less_def intro: word_uint_eqI)
  have "sgn (strncmp_loop k m s1 s2) = lexcmp (take k xs) (take k ys)" if "cstr m s1 xs" "cstr m s2 ys" for k
    using that
  proof (induction k arbitrary: s1 s2 xs ys)
    case (Suc k)
    show ?case
    proof (cases xs)
      case Nil
      then show ?thesis using Suc.prems by (cases ys) (auto simp: u word_gt_0)
    next
      case (Cons x xs')
      then show ?thesis using Suc by (cases ys) (auto simp: u word_gt_0)
    qed
  qed simp
  then show "cstr m s1 xs \<Longrightarrow> cstr m s2 ys \<Longrightarrow> ?thesis" by (simp add: strncmp_def)
qed

text \<open>Searching: the first or last position of a character, the first of a string.\<close>

fun index_of :: "uchar \<Rightarrow> uchar list \<Rightarrow> nat option" where
  "index_of c [] = None"
| "index_of c (x # xs) = (if x = c then Some 0 else map_option Suc (index_of c xs))"

definition at_or_null :: "uint32 \<Rightarrow> nat option \<Rightarrow> uint32" where
  "at_or_null s i = (case i of None \<Rightarrow> 0 | Some k \<Rightarrow> s + of_nat k)"

lemma at_or_null_Suc: "at_or_null (s + 1) i = at_or_null s (map_option Suc i)"
  by (cases i) (simp_all add: at_or_null_def algebra_simps)

lemma strchr_cstr: "cstr m s xs \<Longrightarrow> strchr m s c = Some (at_or_null s (index_of c (xs @ [0])))"
proof (induction xs arbitrary: s)
  case Nil
  then show ?case by (subst strchr.simps) (auto simp: at_or_null_def)
next
  case (Cons x xs)
  then show ?case
    by (subst strchr.simps) (auto simp: at_or_null_Suc, simp add: at_or_null_def)
qed

lemma strrchr_loop_cstr:
  "cstr m s xs \<Longrightarrow> strrchr_loop m s c r =
    Some (case index_of c (rev (xs @ [0])) of None \<Rightarrow> r | Some k \<Rightarrow> s + of_nat (length xs - k))"
proof (induction xs arbitrary: s r)
  case Nil
  then show ?case by (subst strrchr_loop.simps) auto
next
  case (Cons x xs)
  have app: "index_of c (ys @ [x]) = (case index_of c ys of None \<Rightarrow> if x = c then Some (length ys) else None | Some k \<Rightarrow> Some k)" for ys
    by (induction ys) (auto split: option.splits)
  have bd: "index_of c ys = Some k \<Longrightarrow> k < length ys" for ys k
    by (induction ys arbitrary: k) (auto split: if_splits)
  have sub: "s + 1 + of_nat (length xs - k) = s + of_nat (Suc (length xs) - k)" if "k \<le> length xs" for k
    using that by (simp add: Suc_diff_le algebra_simps)
  have IH: "strrchr_loop m (s + 1) c r' =
      Some (case index_of c (rev (xs @ [0])) of None \<Rightarrow> r' | Some k \<Rightarrow> s + 1 + of_nat (length xs - k))" for r'
    using Cons.IH [of "s + 1"] Cons.prems by simp
  have e: "rev ((x # xs) @ [0]) = rev (xs @ [0]) @ [x]" by simp
  show ?case
    using Cons.prems bd [of "rev (xs @ [0])"] sub
    by (subst strrchr_loop.simps, unfold e app IH) (auto split: option.splits simp: less_Suc_eq_le)
qed

lemma strrchr_cstr:
  "cstr m s xs \<Longrightarrow> strrchr m s c =
    Some (case index_of c (rev (xs @ [0])) of None \<Rightarrow> 0 | Some k \<Rightarrow> s + of_nat (length xs - k))"
  by (simp add: strrchr_def strrchr_loop_cstr)

lemma strstr_match_cstr:
  "cstr m cq xs \<Longrightarrow> cstr m cr ys \<Longrightarrow> \<exists>e. strstr_match m cq cr = Some e \<and> (m e = 0 \<longleftrightarrow> take (length ys) xs = ys)"
proof (induction ys arbitrary: cq cr xs)
  case Nil
  then show ?case by (subst strstr_match.simps) simp
next
  case (Cons y ys)
  show ?case
  proof (cases xs)
    case Nil
    then show ?thesis using Cons.prems by (subst strstr_match.simps) simp
  next
    case (Cons x zs)
    then show ?thesis
      using Cons.IH [of "cq + 1" zs "cr + 1"] Cons.prems by (subst strstr_match.simps) auto
  qed
qed

fun find_sub :: "uchar list \<Rightarrow> uchar list \<Rightarrow> nat option" where
  "find_sub ys [] = None"
| "find_sub ys (x # xs) = (if take (length ys) (x # xs) = ys then Some 0 else map_option Suc (find_sub ys xs))"

lemma all_le_Suc2: "(\<forall>i\<le>Suc n. P i) \<longleftrightarrow> P 0 \<and> (\<forall>i\<le>n. P (Suc i))"
  by (metis Suc_le_mono le0 not0_implies_Suc)

lemma find_sub_spec:
  "ys \<noteq> [] \<Longrightarrow> (case find_sub ys xs of
      None \<Rightarrow> \<forall>i\<le>length xs. take (length ys) (drop i xs) \<noteq> ys
    | Some i \<Rightarrow> take (length ys) (drop i xs) = ys \<and> (\<forall>j<i. take (length ys) (drop j xs) \<noteq> ys))"
proof (induction xs)
  case (Cons x xs)
  then show ?case
    by (cases "find_sub ys xs") (auto simp: all_le_Suc2 All_less_Suc2)
qed simp

lemma strstr_cstr:
  "cstr m cs xs \<Longrightarrow> cstr m ct ys \<Longrightarrow> ys \<noteq> [] \<Longrightarrow> strstr m cs ct = Some (at_or_null cs (find_sub ys xs))"
proof (induction xs arbitrary: cs)
  case Nil
  then show ?case by (subst strstr.simps) (simp add: at_or_null_def)
next
  case (Cons x xs)
  obtain y zs where ys: "ys = y # zs" using Cons.prems(3) by (cases ys) auto
  obtain e where e: "strstr_match m cs ct = Some e" "m e = 0 \<longleftrightarrow> take (length ys) (x # xs) = ys"
    using strstr_match_cstr [OF Cons.prems(1,2)] by blast
  have IH: "strstr m (cs + 1) ct = Some (at_or_null cs (map_option Suc (find_sub ys xs)))"
    using Cons.IH [of "cs + 1"] Cons.prems by (simp add: at_or_null_Suc)
  have z: "at_or_null cs (Some 0) = cs" by (simp add: at_or_null_def)
  have "x \<noteq> y \<Longrightarrow> take (length ys) (x # xs) \<noteq> ys" by (simp add: ys)
  then show ?case using Cons.prems(1,2) e IH z ys by (subst strstr.simps) auto
qed

section \<open>What the memory routines compute\<close>

lemma memcpy_loop_put:
  "apart s n ct n \<Longrightarrow> memcpy_loop n m s ct = put m s (block m ct n)"
proof (induction n arbitrary: m s ct)
  case (Suc n)
  note A = apart_step [OF Suc.prems]
  have "block (m(s := m ct)) (ct + 1) n = block m (ct + 1) n"
  proof (rule block_upd)
    show "s \<noteq> ct + 1 + of_nat j" if "j < n" for j using A(2) [of "Suc j"] that by (simp add: algebra_simps)
  qed
  then show ?case using Suc.IH [OF A(1), of "m(s := m ct)"] by (simp only: memcpy_loop.simps block.simps put.simps)
qed simp

lemma memcpy_put: "apart s (nat n) ct (nat n) \<Longrightarrow> memcpy m s ct n = (s, put m s (block m ct (nat n)))"
  by (simp add: memcpy_def memcpy_loop_put)

lemma memset_put: "memset m s c n = (s, put m s (replicate (nat n) (word_of_int c)))"
proof -
  have "memset_loop k m s x = put m s (replicate k x)" for k x by (induction k arbitrary: m s) simp_all
  then show ?thesis by (simp add: memset_def)
qed

lemma bzero_put: "bzero m p n = put m p (replicate (nat n) 0)"
proof -
  have "bzero_loop k m p = put m p (replicate (Suc k) 0)" for k by (induction k arbitrary: m p) simp_all
  moreover have "nat n = Suc (nat (n - 1))" if "\<not> n \<le> 0" using that by simp
  ultimately show ?thesis by (simp add: bzero_def del: nat_diff_distrib')
qed

lemma memcmp_block: "memcmp m s1 s2 n = 0 \<longleftrightarrow> block m s1 (nat n) = block m s2 (nat n)"
proof -
  have "memcmp_loop k m s1 s2 = 0 \<longleftrightarrow> block m s1 k = block m s2 k" for k
    by (induction k arbitrary: s1 s2) (auto simp: word_uint_eq_iff)
  then show ?thesis by (simp add: memcmp_def)
qed

lemma memchr_cstr: "cstr m s xs \<Longrightarrow> memchr m s c n = Some (at_or_null s (index_of c xs))"
proof -
  have "memchr_loop m s c = Some (at_or_null s (index_of c xs))" if "cstr m s xs"
    using that
  proof (induction xs arbitrary: s)
    case Nil
    then show ?case by (subst memchr_loop.simps) (simp add: at_or_null_def)
  next
    case (Cons x xs)
    then show ?case by (subst memchr_loop.simps) (auto simp: at_or_null_Suc, simp add: at_or_null_def)
  qed
  then show "cstr m s xs \<Longrightarrow> ?thesis" by (simp add: memchr_def)
qed

lemma rand_range: "fst (rand x) < 0x8000"
proof -
  have "fst (rand x) = take_bit 15 (drop_bit 16 (x * 1103515245 + 12345))"
    by (simp add: rand_def Let_def take_bit_eq_mask mask_eq_exp_minus_1 and.commute)
  then show ?thesis by (simp add: take_bit_eq_mod word_less_nat_alt unat_mod)
qed

section \<open>Decimal numbers\<close>

fun dec :: "nat \<Rightarrow> uchar list" where
  "dec n = (if n < 10 then [48 + of_nat n] else dec (n div 10) @ [48 + of_nat (n mod 10)])"

declare dec.simps [simp del]

definition digit :: "uchar \<Rightarrow> bool" where
  "digit c \<longleftrightarrow> 48 \<le> c \<and> c \<le> 57"

definition dval :: "uint32 \<Rightarrow> uchar list \<Rightarrow> uint32" where
  "dval = foldl (\<lambda>n d. n * 10 + ucast d - 48)"

lemma digit_of: "d < 10 \<Longrightarrow> digit (48 + of_nat d) \<and> ucast (48 + of_nat d :: uchar) = (48 + of_nat d :: uint32)"
proof -
  assume d: "d < 10"
  then have "d \<in> {0, 1, 2, 3, 4, 5, 6, 7, 8, 9}" by auto
  then show ?thesis by (auto simp: digit_def)
qed

lemma dec_ok: "(\<forall>c\<in>set (dec n). digit c) \<and> dval 0 (dec n) = of_nat n \<and> dec n \<noteq> []"
proof (induction n rule: dec.induct)
  case (1 n)
  show ?case
  proof (cases "n < 10")
    case True
    then show ?thesis using digit_of [of n] by (simp add: dec.simps [of n] dval_def)
  next
    case False
    have d: "digit (48 + of_nat (n mod 10))" "ucast (48 + of_nat (n mod 10) :: uchar) = (48 + of_nat (n mod 10) :: uint32)"
      using digit_of [of "n mod 10"] by simp_all
    have "of_nat (n div 10) * 10 + of_nat (n mod 10) = (of_nat n :: uint32)"
      by (metis div_mult_mod_eq of_nat_add of_nat_mult of_nat_numeral)
    then show ?thesis using 1 [OF False] False d by (auto simp: dec.simps [of n] dval_def)
  qed
qed

lemma atoi_digits_cstr: "cstr m p ds \<Longrightarrow> \<forall>c\<in>set ds. digit c \<Longrightarrow> atoi_digits m p n = Some (dval n ds)"
proof (induction ds arbitrary: p n)
  case Nil
  then show ?case by (subst atoi_digits.simps) (simp add: dval_def)
next
  case (Cons d ds)
  then show ?case by (subst atoi_digits.simps) (simp add: dval_def digit_def)
qed

lemma atoi_blanks_cstr:
  "cstr m p (bl @ xs) \<Longrightarrow> set bl \<subseteq> {32, 9} \<Longrightarrow> hd (xs @ [0]) \<notin> {32, 9} \<Longrightarrow>
   atoi_blanks m p = Some (p + of_nat (length bl)) \<and> cstr m (p + of_nat (length bl)) xs"
proof (induction bl arbitrary: p)
  case Nil
  then show ?case by (subst atoi_blanks.simps) (cases xs; simp)
next
  case (Cons b bl)
  have e: "p + of_nat (length (b # bl)) = p + 1 + of_nat (length bl)" by (simp add: algebra_simps)
  have "atoi_blanks m p = atoi_blanks m (p + 1)" using Cons.prems by (subst atoi_blanks.simps) auto
  then show ?case unfolding e using Cons.IH [of "p + 1"] Cons.prems by simp
qed

lemma atoi_value:
  assumes "cstr m p (bl @ sg @ dec n)" and "set bl \<subseteq> {32, 9}" and "sg = [] \<or> sg = [43] \<or> sg = [45]"
  shows "atoi m p = Some (if sg = [45] then - of_nat n else of_nat n)"
proof -
  obtain d ds where dn: "dec n = d # ds" and dg: "48 \<le> d" using dec_ok [of n] by (cases "dec n") (auto simp: digit_def)
  have nb: "d \<noteq> 32" "d \<noteq> 9" "d \<noteq> 43" "d \<noteq> 45" using dg by auto
  have "hd ((sg @ dec n) @ [0]) \<notin> {32, 9}" using assms(3) nb dn by auto
  note B = atoi_blanks_cstr [OF assms(1,2) this]
  let ?q = "p + of_nat (length bl)"
  have C: "cstr m ?q (sg @ dec n)" using B by simp
  have D: "atoi_digits m r 0 = Some (of_nat n)" if "cstr m r (dec n)" for r
    using atoi_digits_cstr [OF that] dec_ok [of n] by simp
  from assms(3) show ?thesis
  proof (elim disjE)
    assume "sg = []"
    then show ?thesis using B C D [of ?q] nb dn by (simp add: atoi_def)
  next
    assume "sg = [43]"
    then show ?thesis using B C D [of "?q + 1"] by (simp add: atoi_def)
  next
    assume "sg = [45]"
    then show ?thesis using B C D [of "?q + 1"] by (simp add: atoi_def)
  qed
qed

section \<open>Properties\<close>

text \<open>
  C23. \<^verbatim>\<open>atoi\<close> reads back what is printed: on any number of blanks, an optional sign and the
  decimal digits of \<open>n\<close>, it returns the number, negated after a minus, modulo \<open>2 ^ 32\<close>.
\<close>

theorem atoi_roundtrip:
  assumes "cstr m p (bl @ sg @ dec n)" and "set bl \<subseteq> {32, 9}" and "sg = [] \<or> sg = [43] \<or> sg = [45]"
  shows "atoi m p = Some (if sg = [45] then - of_nat n else of_nat n)"
  using assms by (rule atoi_value)

theorem atoi_roundtrip_witness:
  "atoi (put (\<lambda>_. 0) 100 [32, 45, 52, 50, 0]) 100 = Some (- 42)"
proof -
  have d: "dec 42 = [52, 50]" by (simp add: dec.simps)
  have "cstr (put (\<lambda>_. 0) 100 ([32] @ [45] @ dec 42)) 100 ([32] @ [45] @ dec 42)" by (simp add: d)
  moreover have "put (\<lambda>_. 0) 100 [32, 45, 52, 50, 0] = put (\<lambda>_. 0) 100 ([32] @ [45] @ dec 42)"
    by (simp add: d fun_eq_iff)
  ultimately show ?thesis using atoi_roundtrip [of _ 100 "[32]" "[45]" 42] by simp
qed

text \<open>
  \<^verbatim>\<open>strcpy\<close> of a string to a place that does not overlap it: afterwards \<^verbatim>\<open>strcmp\<close> finds the
  two equal, \<^verbatim>\<open>strlen\<close> is the same, and no byte outside the target has changed.
\<close>

theorem strcpy_copies:
  assumes c: "cstr m src xs" and a: "apart tar (Suc (length xs)) src (Suc (length xs))" and l: "length xs < 2 ^ 32"
  shows "\<exists>m1. strcpy m tar src = Some (0, m1) \<and> strcmp m1 tar src = Some 0 \<and> strlen m1 tar = strlen m src \<and>
    (\<forall>b. (\<forall>i\<le>length xs. b \<noteq> tar + of_nat i) \<longrightarrow> m1 b = m b)"
proof -
  let ?m = "put m tar (xs @ [0])"
  have fr: "?m b = m b" if "\<forall>i\<le>length xs. b \<noteq> tar + of_nat i" for b
    by (rule put_other) (use that in simp)
  have z: "0 \<notin> set ys" if "cstr m q ys" for q ys using that by (induction ys arbitrary: q) auto
  have t: "cstr ?m tar xs" using put_cstr [OF l z [OF c]] .
  have same: "cstr ?m q ys" if "cstr m q ys" "\<And>j. j \<le> length ys \<Longrightarrow> ?m (q + of_nat j) = m (q + of_nat j)" for q ys
    using that
  proof (induction ys arbitrary: q)
    case Nil
    then show ?case using Nil(2) [of 0] by simp
  next
    case (Cons y ys)
    have "cstr ?m (q + 1) ys" by (rule Cons.IH) (use Cons.prems(1) Cons.prems(2) [of "Suc _"] in \<open>simp_all add: algebra_simps\<close>)
    then show ?case using Cons.prems(1) Cons.prems(2) [of 0] by simp
  qed
  have s: "cstr ?m src xs"
    by (rule same [OF c], rule fr) (use a in \<open>auto simp: apart_def less_Suc_eq_le\<close>, metis)
  show ?thesis
    using strcpy_cstr [OF c a] strcmp_cstr [OF t s] strlen_cstr [OF t] strlen_cstr [OF c] fr by (auto simp: lexcmp_eq_0)
qed

theorem strcpy_copies_witness:
  "\<exists>m1. strcpy (put (\<lambda>_. 0) 100 [104, 105]) 200 100 = Some (0, m1) \<and> strcmp m1 200 100 = Some 0"
proof -
  have c: "cstr (put (\<lambda>_. 0) 100 [104, 105]) 100 [104, 105]" by simp
  have a: "apart 200 (Suc (length [104, 105 :: uchar])) 100 (Suc (length [104, 105 :: uchar]))"
    by (simp add: apart_def All_less_Suc2)
  have l: "length [104, 105 :: uchar] < 2 ^ 32" by simp
  obtain m1 where "strcpy (put (\<lambda>_. 0) 100 [104, 105]) 200 100 = Some (0, m1)" "strcmp m1 200 100 = Some 0"
    using strcpy_copies [OF c a] l by blast
  then show ?thesis by blast
qed

text \<open>
  C24. \<^verbatim>\<open>strstr\<close> with a nonempty pattern finds its first occurrence: it always returns, a null
  pointer when the pattern occurs nowhere in the string, and otherwise the address of an
  occurrence before which there is none.
\<close>

theorem strstr_first_occurrence:
  assumes "cstr m cs xs" and "cstr m ct ys" and "ys \<noteq> []"
  shows "strstr m cs ct = Some 0 \<and> (\<forall>i\<le>length xs. take (length ys) (drop i xs) \<noteq> ys) \<or>
    (\<exists>i. strstr m cs ct = Some (cs + of_nat i) \<and> take (length ys) (drop i xs) = ys \<and>
       (\<forall>j<i. take (length ys) (drop j xs) \<noteq> ys))"
  using strstr_cstr [OF assms] find_sub_spec [OF assms(3), of xs]
  by (cases "find_sub ys xs") (auto simp: at_or_null_def)

theorem strstr_first_occurrence_witness:
  "strstr (put (put (\<lambda>_. 0) 100 [97, 98, 98]) 200 [98]) 100 200 = Some 101"
proof -
  let ?m = "put (put (\<lambda>_. 0) 100 [97, 98, 98]) 200 [98] :: bytes"
  have c: "cstr ?m 100 [97, 98, 98]" "cstr ?m 200 [98]" by simp_all
  have n: "\<not> (\<forall>i\<le>length [97, 98, 98 :: uchar]. take (length [98 :: uchar]) (drop i [97, 98, 98]) \<noteq> [98])"
    by (auto intro!: exI [of _ 1])
  let ?P = "\<lambda>i. take (length [98 :: uchar]) (drop i [97, 98, 98 :: uchar]) = [98]"
  obtain i where i: "strstr ?m 100 200 = Some (100 + of_nat i)" "?P i" "\<forall>j<i. \<not> ?P j"
    using strstr_first_occurrence [OF c] n by blast
  have "i \<noteq> 0" using i(2) by (cases i) simp_all
  moreover have "\<not> 1 < i" using i(3) by (auto dest!: spec [of _ 1])
  ultimately have "i = 1" by simp
  then show ?thesis using i(1) by simp
qed

text \<open>An empty pattern, which occurs at the start of every string, is never found.\<close>

lemma strstr_empty_pattern: "cstr m cs xs \<Longrightarrow> m ct = 0 \<Longrightarrow> strstr m cs ct = Some 0"
proof (induction xs arbitrary: cs)
  case Nil
  then show ?case by (subst strstr.simps) simp
next
  case (Cons x xs)
  then show ?case by (subst strstr.simps) auto
qed

text \<open>
  \<^verbatim>\<open>memchr\<close> ignores its length: a character whose first occurrence lies at or past the
  \<open>n\<close> bytes to be searched is still reported.
\<close>

theorem memchr_ignores_length:
  assumes "cstr m s xs" and "index_of c xs = Some k" and "n \<le> int k"
  shows "memchr m s c n = Some (s + of_nat k)"
  using memchr_cstr [OF assms(1), of c n] assms(2) by (simp add: at_or_null_def)

theorem memchr_ignores_length_witness:
  "memchr (put (\<lambda>_. 0) 100 [97, 98, 99]) 100 99 1 = Some 102"
  using memchr_ignores_length [of "put (\<lambda>_. 0) 100 [97, 98, 99]" 100 "[97, 98, 99]" 99 2 1] by simp

end
