(* ===== verification/Block_Store.thy ===== *)
theory Block_Store
  imports Memory Lib_String
begin

text \<open>
  The in-memory block device of \<^verbatim>\<open>system/bs.c\<close> and the free-block mask of \<^verbatim>\<open>system/fs.c\<close>, with
  the layout of C structures in byte memory they need: 32-bit integers are four bytes, low
  byte first, and a region of memory is read as the list of its bytes, so that a write into
  a region is a splice of that list.

  The static variables of the file system with a C structure layout (\<^verbatim>\<open>fsd\<close>,
  \<^verbatim>\<open>block_cache\<close>) live in byte memory at the addresses \<open>fsd\<close> and \<open>block_cache\<close> of the
  state; the heap that \<^verbatim>\<open>getmem\<close> manages is the one of theory \<open>Memory\<close>, whose list nodes are
  kept apart from the byte memory. A computation yields \<^term>\<open>None\<close> when it leaves what C
  defines: an index outside an array, a division by zero, a signed overflow, or a store
  through the error pointer of a failed \<^verbatim>\<open>getmem\<close> (a data abort).
\<close>

unbundle bit_operations_syntax

section \<open>Regions of bytes\<close>

definition splice_at :: "nat \<Rightarrow> 'a list \<Rightarrow> 'a list \<Rightarrow> 'a list" where
  "splice_at i xs ys = take i ys @ xs @ drop (i + length xs) ys"

lemma length_splice_at [simp]: "i + length xs \<le> length ys \<Longrightarrow> length (splice_at i xs ys) = length ys"
  by (simp add: splice_at_def)

lemma nth_splice_at:
  assumes "i + length xs \<le> length ys" "j < length ys"
  shows "splice_at i xs ys ! j = (if i \<le> j \<and> j < i + length xs then xs ! (j - i) else ys ! j)"
  using assms by (auto simp: splice_at_def nth_append min_def)

lemma splice_at_read [simp]:
  "i + length xs \<le> length ys \<Longrightarrow> take (length xs) (drop i (splice_at i xs ys)) = xs"
  by (simp add: splice_at_def)

lemma splice_at_read_other:
  assumes "i + length xs \<le> length ys" "j + k \<le> length ys" "j + k \<le> i \<or> i + length xs \<le> j"
  shows "take k (drop j (splice_at i xs ys)) = take k (drop j ys)"
  by (rule nth_equalityI) (use assms in \<open>auto simp: nth_splice_at\<close>)

lemma of_nat_word_inj: "(i :: nat) < 2 ^ 32 \<Longrightarrow> j < 2 ^ 32 \<Longrightarrow> (of_nat i :: uint32) = of_nat j \<longleftrightarrow> i = j"
  by (simp add: word_of_nat_eq_iff take_bit_nat_eq_self)

lemma nth_block: "j < n \<Longrightarrow> block m p n ! j = m (p + of_nat j)"
proof (induction n arbitrary: p j)
  case (Suc n)
  then show ?case by (cases j) (simp_all add: algebra_simps)
qed simp

lemma block_eq_iff: "block m p n = block m' p n \<longleftrightarrow> (\<forall>j<n. m (p + of_nat j) = m' (p + of_nat j))"
  by (simp add: list_eq_iff_nth_eq nth_block)

lemma block_sub: "i + k \<le> n \<Longrightarrow> block m (p + of_nat i) k = take k (drop i (block m p n))"
  by (rule nth_equalityI) (simp_all add: nth_block algebra_simps)

lemma put_nth: "length xs \<le> 2 ^ 32 \<Longrightarrow> j < length xs \<Longrightarrow> put m p xs (p + of_nat j) = xs ! j"
  using block_put [of xs m p] by (metis nth_block)

lemma block_put_apart: "apart q k p (length xs) \<Longrightarrow> block (put m p xs) q k = block m q k"
  by (auto simp: block_eq_iff apart_def intro!: put_other)

lemma apart_sub:
  assumes "apart p n q k" "i + n' \<le> n" "j + k' \<le> k"
  shows "apart (p + of_nat i) n' (q + of_nat j) k'"
  unfolding apart_def
proof (intro allI impI)
  fix a b assume "a < n'" "b < k'"
  then have "p + of_nat (i + a) \<noteq> q + of_nat (j + b)"
    using assms unfolding apart_def by (metis add.commute add_less_mono1 less_le_trans nat_add_left_cancel_less)
  then show "p + of_nat i + of_nat a \<noteq> q + of_nat j + of_nat b" by (simp add: algebra_simps)
qed

lemma apart_within:
  assumes "i + n \<le> j \<or> j + k \<le> i" "i + n \<le> 2 ^ 32" "j + k \<le> 2 ^ 32"
  shows "apart (p + of_nat i) n (p + of_nat j) k"
  unfolding apart_def
proof (intro allI impI)
  fix a b assume "a < n" "b < k"
  then have "(of_nat (i + a) :: uint32) \<noteq> of_nat (j + b)" using assms by (subst of_nat_word_inj) auto
  then show "p + of_nat i + of_nat a \<noteq> p + of_nat j + (of_nat b :: uint32)" by (simp add: add.assoc)
qed

lemma block_put_in:
  assumes "i + length xs \<le> n" "n \<le> 2 ^ 32"
  shows "block (put m (p + of_nat i) xs) p n = splice_at i xs (block m p n)"
proof (rule nth_equalityI)
  fix j assume j: "j < length (block (put m (p + of_nat i) xs) p n)"
  show "block (put m (p + of_nat i) xs) p n ! j = splice_at i xs (block m p n) ! j"
  proof (cases "i \<le> j \<and> j < i + length xs")
    case True
    then have "put m (p + of_nat i) xs (p + of_nat i + of_nat (j - i)) = xs ! (j - i)"
      using assms by (intro put_nth) auto
    then show ?thesis using True assms j by (simp add: nth_block nth_splice_at add.assoc flip: of_nat_add)
  next
    case False
    have "p + of_nat j \<noteq> p + of_nat i + (of_nat a :: uint32)" if "a < length xs" for a
      using False that assms j of_nat_word_inj [of j "i + a"] by (auto simp: add.assoc)
    then show ?thesis using put_other [of xs "p + of_nat j"] False assms j by (auto simp: nth_block nth_splice_at)
  qed
qed (use assms in simp)

section \<open>Integers in memory\<close>

definition s32 :: "int \<Rightarrow> int" where "s32 = signed_take_bit 31"
definition u32 :: "int \<Rightarrow> int" where "u32 = take_bit 32"

definition le32 :: "int \<Rightarrow> uchar list" where
  "le32 v = [word_of_int v, word_of_int (v div 2 ^ 8), word_of_int (v div 2 ^ 16), word_of_int (v div 2 ^ 24)]"

definition of_le32 :: "uchar list \<Rightarrow> int" where
  "of_le32 b = s32 (uint (b ! 0) + 2 ^ 8 * uint (b ! 1) + 2 ^ 16 * uint (b ! 2) + 2 ^ 24 * uint (b ! 3))"

definition le16 :: "int \<Rightarrow> uchar list" where
  "le16 v = [word_of_int v, word_of_int (v div 2 ^ 8)]"

definition of_le16 :: "uchar list \<Rightarrow> int" where
  "of_le16 b = signed_take_bit 15 (uint (b ! 0) + 2 ^ 8 * uint (b ! 1))"

definition int32 :: "int \<Rightarrow> bool" where "int32 v \<longleftrightarrow> - (2 ^ 31) \<le> v \<and> v < 2 ^ 31"
definition int16 :: "int \<Rightarrow> bool" where "int16 v \<longleftrightarrow> - (2 ^ 15) \<le> v \<and> v < 2 ^ 15"

lemma length_le32 [simp]: "length (le32 v) = 4" and length_le16 [simp]: "length (le16 v) = 2"
  by (simp_all add: le32_def le16_def)

lemma s32_id: "int32 v \<Longrightarrow> s32 v = v"
  by (simp add: s32_def int32_def signed_take_bit_int_eq_self_iff)

lemma int32_s32 [simp]: "int32 (s32 v)"
  using signed_take_bit_int_greater_eq_minus_exp [of 31 v] signed_take_bit_int_less_exp [of 31 v]
  by (simp add: s32_def int32_def)

lemma u32_id: "0 \<le> v \<Longrightarrow> v < 2 ^ 32 \<Longrightarrow> u32 v = v"
  by (simp add: u32_def take_bit_int_eq_self)

lemma signed_mod: "signed_take_bit n (v mod 2 ^ Suc n) = signed_take_bit n (v :: int)"
  using signed_take_bit_take_bit [of n "Suc n" v] by (simp only: take_bit_eq_mod) simp

lemma uint_byte: "uint (word_of_int v :: uchar) = v mod 2 ^ 8"
  by (simp add: uint_word_of_int take_bit_eq_mod)

lemma mod_low_byte: "(v :: int) mod 2 ^ (8 + n) = 2 ^ 8 * (v div 2 ^ 8 mod 2 ^ n) + v mod 2 ^ 8"
  unfolding power_add by (rule zmod_zmult2_eq) simp

lemma div_low_byte: "(v :: int) div 2 ^ n div 2 ^ 8 = v div 2 ^ (n + 8)"
  unfolding power_add by (rule zdiv_zmult2_eq [symmetric]) simp

lemma mod_four_bytes:
  "v mod 2 ^ 8 + 2 ^ 8 * (v div 2 ^ 8 mod 2 ^ 8) + 2 ^ 16 * (v div 2 ^ 16 mod 2 ^ 8) + 2 ^ 24 * (v div 2 ^ 24 mod 2 ^ 8) = (v :: int) mod 2 ^ 32"
proof -
  have n: "(32 :: nat) = 8 + 24" "(24 :: nat) = 8 + 16" "(16 :: nat) = 8 + 8" by simp_all
  have gen: "c0 + 2 ^ 8 * c1 + 2 ^ 16 * c2 + 2 ^ 24 * c3 = A"
    if "A = 2 ^ 8 * B + c0" "B = 2 ^ 8 * C + c1" "C = 2 ^ 8 * c3 + c2" for A B C c0 c1 c2 c3 :: int
    using that by simp
  have d: "v div 2 ^ 8 div 2 ^ 8 = v div 2 ^ 16" "v div 2 ^ 16 div 2 ^ 8 = v div 2 ^ 24"
    using div_low_byte [of v 8] div_low_byte [of v 16] by (simp_all only: numeral_plus_numeral add_num_simps)
  show ?thesis
  proof (rule gen)
    show "v mod 2 ^ 32 = 2 ^ 8 * (v div 2 ^ 8 mod 2 ^ 24) + v mod 2 ^ 8"
      using mod_low_byte [of v 24] by (simp only: numeral_plus_numeral add_num_simps)
    show "v div 2 ^ 8 mod 2 ^ 24 = 2 ^ 8 * (v div 2 ^ 16 mod 2 ^ 16) + v div 2 ^ 8 mod 2 ^ 8"
      using mod_low_byte [of "v div 2 ^ 8" 16] by (simp only: numeral_plus_numeral add_num_simps d)
    show "v div 2 ^ 16 mod 2 ^ 16 = 2 ^ 8 * (v div 2 ^ 24 mod 2 ^ 8) + v div 2 ^ 16 mod 2 ^ 8"
      using mod_low_byte [of "v div 2 ^ 16" 8] by (simp only: numeral_plus_numeral add_num_simps d)
  qed
qed

lemma of_le32_le32: "int32 v \<Longrightarrow> of_le32 (le32 v) = v"
proof -
  assume v: "int32 v"
  have "of_le32 [a, b, c, d] = s32 (uint a + 2 ^ 8 * uint b + 2 ^ 16 * uint c + 2 ^ 24 * uint d)" for a b c d
    by (simp add: of_le32_def)
  then have "of_le32 (le32 v) = s32 (v mod 2 ^ 32)" by (simp only: le32_def uint_byte mod_four_bytes)
  then show ?thesis using v signed_mod [of 31 v] by (simp add: s32_id flip: s32_def)
qed

lemma of_le16_le16: "int16 v \<Longrightarrow> of_le16 (le16 v) = v"
proof -
  assume v: "int16 v"
  have "of_le16 [a, b] = signed_take_bit 15 (2 ^ 8 * uint b + uint a)" for a b by (simp add: of_le16_def add.commute)
  then have "of_le16 (le16 v) = signed_take_bit 15 (v mod 2 ^ (8 + 8))" by (simp only: le16_def uint_byte mod_low_byte)
  then show ?thesis using v signed_mod [of 15 v] by (simp add: int16_def signed_take_bit_int_eq_self_iff)
qed

definition ldint :: "bytes \<Rightarrow> uint32 \<Rightarrow> int" where
  "ldint m a = of_le32 (block m a 4)"

definition stint :: "bytes \<Rightarrow> uint32 \<Rightarrow> int \<Rightarrow> bytes" where
  "stint m a v = put m a (le32 v)"

lemma ldint_stint: "int32 v \<Longrightarrow> ldint (stint m a v) a = v"
  using block_put [of "le32 v" m a] by (simp add: ldint_def stint_def of_le32_le32)

lemma int32_ldint [simp]: "int32 (ldint m a)"
  by (simp add: ldint_def of_le32_def)

lemma block_stint_apart: "apart q k a 4 \<Longrightarrow> block (stint m a v) q k = block m q k"
  by (simp add: stint_def block_put_apart)

lemma ldint_put_apart: "apart a 4 p (length xs) \<Longrightarrow> ldint (put m p xs) a = ldint m a"
  by (simp add: ldint_def block_put_apart)

section \<open>State\<close>

text \<open>\<^verbatim>\<open>struct inode\<close>: 64 bytes in a block; its array \<^verbatim>\<open>blocks\<close> has 12 entries.\<close>

record inode =
  iid :: int
  itype :: int
  nlink :: int
  idevice :: int
  isize :: int
  iblocks :: "int list"

text \<open>\<^verbatim>\<open>struct filetable\<close>, an entry of the open file table \<^verbatim>\<open>oft\<close>.\<close>

record filetable =
  fstate :: int
  fileptr :: int
  fde :: uint32
  fin :: inode

record fsstate =
  fheap :: memstate
  fmem :: bytes
  dev0_numblocks :: int
  dev0_blocksize :: int
  dev0_blocks :: uint32
  fsd :: uint32
  block_cache :: uint32
  oft :: "int \<Rightarrow> filetable"
  next_open_fd :: int

text \<open>The fields of \<^verbatim>\<open>struct fsystem\<close> at \<^verbatim>\<open>fsd\<close>, by their offsets; its size is 604 bytes.\<close>

definition nblocks :: "fsstate \<Rightarrow> int" where "nblocks s = ldint (fmem s) (fsd s)"
definition blocksz :: "fsstate \<Rightarrow> int" where "blocksz s = ldint (fmem s) (fsd s + 4)"
definition ninodes :: "fsstate \<Rightarrow> int" where "ninodes s = ldint (fmem s) (fsd s + 8)"
definition inodes_used :: "fsstate \<Rightarrow> int" where "inodes_used s = ldint (fmem s) (fsd s + 12)"
definition freemaskbytes :: "fsstate \<Rightarrow> int" where "freemaskbytes s = ldint (fmem s) (fsd s + 16)"
definition freemask :: "fsstate \<Rightarrow> uint32" where "freemask s = word_of_int (ldint (fmem s) (fsd s + 20))"
definition numentries :: "fsstate \<Rightarrow> int" where "numentries s = ldint (fmem s) (fsd s + 24)"
definition entry :: "fsstate \<Rightarrow> int \<Rightarrow> uint32" where "entry s i = fsd s + 28 + word_of_int (36 * i)"

lemmas fsd_fields = nblocks_def blocksz_def ninodes_def inodes_used_def freemaskbytes_def freemask_def numentries_def

definition set_fsd :: "uint32 \<Rightarrow> int \<Rightarrow> fsstate \<Rightarrow> fsstate" where
  "set_fsd off v s = s\<lparr>fmem := stint (fmem s) (fsd s + off) v\<rparr>"

section \<open>The block device\<close>

definition MDEV_BLOCK_SIZE :: int where "MDEV_BLOCK_SIZE = 512"
definition MDEV_NUM_BLOCKS :: int where "MDEV_NUM_BLOCKS = 512"

definition bs_mkdev :: "int \<Rightarrow> int \<Rightarrow> int \<Rightarrow> fsstate \<Rightarrow> (int \<times> fsstate) option" where
  "bs_mkdev dev blocksize numblocks s =
    (if dev \<noteq> 0 then Some (SYSERR, s)
     else
       let s1 = s\<lparr>dev0_blocksize := (if blocksize \<noteq> 0 then blocksize else MDEV_BLOCK_SIZE)\<rparr>;
           s2 = s1\<lparr>dev0_numblocks := (if numblocks \<noteq> 0 then numblocks else MDEV_NUM_BLOCKS)\<rparr>
       in do {
         (a, h) \<leftarrow> getmem (word_of_int (dev0_numblocks s2 * dev0_blocksize s2)) (fheap s2);
         let s3 = s2\<lparr>dev0_blocks := a, fheap := h\<rparr>;
         Some (if a = SYSERR_PTR then SYSERR else OK, s3)
       })"

definition bs_bread :: "int \<Rightarrow> int \<Rightarrow> int \<Rightarrow> uint32 \<Rightarrow> int \<Rightarrow> fsstate \<Rightarrow> int \<times> fsstate" where
  "bs_bread dev blk offset buf len s =
    (if dev \<noteq> 0 then (SYSERR, s)
     else if offset \<ge> dev0_blocksize s then (SYSERR, s)
     else
       let bbase = dev0_blocks s + word_of_int (blk * dev0_blocksize s)
       in (OK, s\<lparr>fmem := snd (memcpy (fmem s) buf (bbase + word_of_int offset) len)\<rparr>))"

definition bs_bwrite :: "int \<Rightarrow> int \<Rightarrow> int \<Rightarrow> uint32 \<Rightarrow> int \<Rightarrow> fsstate \<Rightarrow> int \<times> fsstate" where
  "bs_bwrite dev blk offset buf len s =
    (if dev \<noteq> 0 then (SYSERR, s)
     else if offset \<ge> dev0_blocksize s then (SYSERR, s)
     else
       let bbase = dev0_blocks s + word_of_int (blk * dev0_blocksize s)
       in (OK, s\<lparr>fmem := snd (memcpy (fmem s) (bbase + word_of_int offset) buf len)\<rparr>))"

section \<open>The free-block mask\<close>

definition fs_setmaskbit :: "int \<Rightarrow> fsstate \<Rightarrow> int \<times> fsstate" where
  "fs_setmaskbit b s =
    (let a = freemask s + word_of_int (b sdiv 8); mbit = nat (b smod 8)
     in (OK, s\<lparr>fmem := (fmem s)(a := fmem s a OR drop_bit mbit 0x80)\<rparr>))"

definition fs_getmaskbit :: "int \<Rightarrow> fsstate \<Rightarrow> int" where
  "fs_getmaskbit b s =
    (let a = freemask s + word_of_int (b sdiv 8); mbit = nat (b smod 8)
     in drop_bit 7 (push_bit mbit (uint (fmem s a)) AND 0x80))"

definition fs_clearmaskbit :: "int \<Rightarrow> fsstate \<Rightarrow> int \<times> fsstate" where
  "fs_clearmaskbit b s =
    (let a = freemask s + word_of_int (b sdiv 8); mbit = nat (b smod 8);
         invb = NOT (drop_bit mbit 0x80) AND (0xFF :: int)
     in (OK, s\<lparr>fmem := (fmem s)(a := fmem s a AND word_of_int invb)\<rparr>))"

section \<open>The mask is a set of blocks\<close>

definition maskaddr :: "fsstate \<Rightarrow> nat \<Rightarrow> uint32" where
  "maskaddr s n = freemask s + of_nat (n div 8)"

definition inuse :: "fsstate \<Rightarrow> nat \<Rightarrow> bool" where
  "inuse s n \<longleftrightarrow> bit (fmem s (maskaddr s n)) (7 - n mod 8)"

lemma mask_index:
  "freemask s + word_of_int (int n sdiv 8) = maskaddr s n" "nat (int n smod 8) = n mod 8"
proof -
  have "int n sdiv 8 = int (n div 8)" "int n smod 8 = int (n mod 8)"
    by (simp_all add: sdiv_nonneg smod_nonneg zdiv_int zmod_int)
  then show "freemask s + word_of_int (int n sdiv 8) = maskaddr s n" "nat (int n smod 8) = n mod 8"
    by (simp_all add: maskaddr_def)
qed

lemma bit_80: "bit (0x80 :: uchar) k \<longleftrightarrow> k = 7" "bit (0x80 :: int) k \<longleftrightarrow> k = 7"
  using bit_exp_iff [of 7 k, where ?'a = "uchar"] bit_exp_iff [of 7 k, where ?'a = int] by (auto simp: possible_bit_word)

lemma fs_getmaskbit_inuse: "fs_getmaskbit (int n) s = of_bool (inuse s n)"
proof (rule bit_eqI)
  fix i
  show "bit (fs_getmaskbit (int n) s) i = bit (of_bool (inuse s n)) i"
    by (auto simp: fs_getmaskbit_def mask_index inuse_def bit_simps bit_80 bit_unsigned_iff)
qed

lemma bit_setmask: "k < 8 \<Longrightarrow> j < 8 \<Longrightarrow> bit (w OR drop_bit k 0x80 :: uchar) (7 - j) \<longleftrightarrow> bit w (7 - j) \<or> j = k"
  by (auto simp: bit_simps bit_80)

lemma bit_clearmask:
  assumes "k < 8" "j < 8"
  shows "bit (w AND word_of_int (NOT (drop_bit k 0x80) AND (0xFF :: int)) :: uchar) (7 - j) \<longleftrightarrow> bit w (7 - j) \<and> j \<noteq> k"
proof -
  have f: "bit (0xFF :: int) i \<longleftrightarrow> i < 8" for i
    using bit_mask_iff [of 8 i, where ?'a = int] by (simp add: mask_eq_exp_minus_1)
  show ?thesis using assms by (auto simp: bit_simps bit_80 f)
qed

text \<open>
  The mask lies apart from \<^verbatim>\<open>fsd\<close>, where its address and size are, so that setting a bit
  changes neither.
\<close>

definition mask_ok :: "fsstate \<Rightarrow> bool" where
  "mask_ok s \<longleftrightarrow> 0 \<le> freemaskbytes s \<and> apart (fsd s) 604 (freemask s) (nat (freemaskbytes s))"

definition mbits :: "fsstate \<Rightarrow> nat" where
  "mbits s = 8 * nat (freemaskbytes s)"

definition same_fsd :: "fsstate \<Rightarrow> fsstate \<Rightarrow> bool" where
  "same_fsd s t \<longleftrightarrow> fsd t = fsd s \<and> block (fmem t) (fsd s) 604 = block (fmem s) (fsd s) 604"

lemma same_fsd_ld: "same_fsd s t \<Longrightarrow> k + 4 \<le> 604 \<Longrightarrow> ldint (fmem t) (fsd t + of_nat k) = ldint (fmem s) (fsd s + of_nat k)"
  unfolding ldint_def same_fsd_def by (simp add: block_sub [of k 4 604])

lemma same_fsd_fields:
  assumes "same_fsd s t"
  shows "nblocks t = nblocks s" "blocksz t = blocksz s" "ninodes t = ninodes s" "inodes_used t = inodes_used s"
    "freemaskbytes t = freemaskbytes s" "freemask t = freemask s" "numentries t = numentries s" "fsd t = fsd s" "entry t = entry s"
  using same_fsd_ld [OF assms, of 0] same_fsd_ld [OF assms, of 4] same_fsd_ld [OF assms, of 8] same_fsd_ld [OF assms, of 12]
    same_fsd_ld [OF assms, of 16] same_fsd_ld [OF assms, of 20] same_fsd_ld [OF assms, of 24] assms
  by (simp_all add: fsd_fields same_fsd_def entry_def fun_eq_iff)

lemma same_fsd_refl [simp]: "same_fsd s s" by (simp add: same_fsd_def)

lemma same_fsd_trans: "same_fsd s t \<Longrightarrow> same_fsd t u \<Longrightarrow> same_fsd s u" by (simp add: same_fsd_def)

lemma mask_upd_same_fsd:
  assumes "mask_ok s" "n < mbits s"
  shows "same_fsd s (s\<lparr>fmem := (fmem s)(maskaddr s n := w)\<rparr>)"
proof -
  have "n div 8 < nat (freemaskbytes s)" using assms(2) by (simp add: mbits_def less_mult_imp_div_less mult.commute)
  then have "maskaddr s n \<noteq> fsd s + of_nat j" if "j < 604" for j
    using assms(1) that unfolding mask_ok_def apart_def maskaddr_def by metis
  then show ?thesis by (simp add: same_fsd_def block_upd)
qed

lemma maskaddr_eq:
  assumes "mask_ok s" "n < mbits s" "k < mbits s"
  shows "maskaddr s n = maskaddr s k \<longleftrightarrow> n div 8 = k div 8"
proof -
  have "freemaskbytes s < 2 ^ 32" using int32_ldint [of "fmem s" "fsd s + 16"] by (simp add: int32_def freemaskbytes_def)
  then have "n div 8 < 2 ^ 32" "k div 8 < 2 ^ 32" using assms by (auto simp: mbits_def)
  then show ?thesis using of_nat_word_inj by (simp add: maskaddr_def)
qed

lemma inuse_upd:
  assumes "mask_ok s" "n < mbits s" "k < mbits s"
  shows "inuse (s\<lparr>fmem := (fmem s)(maskaddr s n := w)\<rparr>) k \<longleftrightarrow> (if n div 8 = k div 8 then bit w (7 - k mod 8) else inuse s k)"
  using maskaddr_eq [OF assms] same_fsd_fields(6) [OF mask_upd_same_fsd [OF assms(1,2), of w]]
  by (auto simp: inuse_def maskaddr_def)

lemma div_mod_8_eq: "n div 8 = k div 8 \<Longrightarrow> n mod 8 = k mod 8 \<longleftrightarrow> n = (k :: nat)"
  by (metis div_mult_mod_eq)

locale bitmap =
  fixes test :: "'s \<Rightarrow> nat \<Rightarrow> bool" and mark clear :: "nat \<Rightarrow> 's \<Rightarrow> 's"
    and bits :: "'s \<Rightarrow> nat" and wf :: "'s \<Rightarrow> bool"
  assumes wf_mark: "wf s \<Longrightarrow> n < bits s \<Longrightarrow> wf (mark n s)"
    and wf_clear: "wf s \<Longrightarrow> n < bits s \<Longrightarrow> wf (clear n s)"
    and bits_mark: "wf s \<Longrightarrow> n < bits s \<Longrightarrow> bits (mark n s) = bits s"
    and bits_clear: "wf s \<Longrightarrow> n < bits s \<Longrightarrow> bits (clear n s) = bits s"
    and test_mark: "wf s \<Longrightarrow> n < bits s \<Longrightarrow> k < bits s \<Longrightarrow> test (mark n s) k \<longleftrightarrow> k = n \<or> test s k"
    and test_clear: "wf s \<Longrightarrow> n < bits s \<Longrightarrow> k < bits s \<Longrightarrow> test (clear n s) k \<longleftrightarrow> k \<noteq> n \<and> test s k"
begin

definition used :: "'s \<Rightarrow> nat set" where
  "used s = {k. k < bits s \<and> test s k}"

lemma used_mark: "wf s \<Longrightarrow> n < bits s \<Longrightarrow> used (mark n s) = insert n (used s)"
  by (auto simp: used_def bits_mark test_mark)

lemma used_clear: "wf s \<Longrightarrow> n < bits s \<Longrightarrow> used (clear n s) = used s - {n}"
  by (auto simp: used_def bits_clear test_clear)

lemma used_clear_mark: "wf s \<Longrightarrow> n < bits s \<Longrightarrow> n \<notin> used s \<Longrightarrow> used (clear n (mark n s)) = used s"
  by (subst used_clear) (auto simp: wf_mark bits_mark used_mark)

lemma used_bound: "used s \<subseteq> {..<bits s}"
  by (auto simp: used_def)

end

lemma same_fsd_mask: "same_fsd s t \<Longrightarrow> mask_ok t = mask_ok s" "same_fsd s t \<Longrightarrow> mbits t = mbits s"
  using same_fsd_fields [of s t] by (auto simp: mask_ok_def mbits_def)

lemma setmask_form: "snd (fs_setmaskbit (int n) s) = s\<lparr>fmem := (fmem s)(maskaddr s n := fmem s (maskaddr s n) OR drop_bit (n mod 8) 0x80)\<rparr>"
  by (simp add: fs_setmaskbit_def mask_index Let_def)

lemma clearmask_form: "snd (fs_clearmaskbit (int n) s) = s\<lparr>fmem := (fmem s)(maskaddr s n := fmem s (maskaddr s n) AND word_of_int (NOT (drop_bit (n mod 8) 0x80) AND 0xFF))\<rparr>"
  by (simp add: fs_clearmaskbit_def mask_index Let_def)

lemma setmask_same_fsd: "mask_ok s \<Longrightarrow> n < mbits s \<Longrightarrow> same_fsd s (snd (fs_setmaskbit (int n) s))"
  unfolding setmask_form by (rule mask_upd_same_fsd)

lemma clearmask_same_fsd: "mask_ok s \<Longrightarrow> n < mbits s \<Longrightarrow> same_fsd s (snd (fs_clearmaskbit (int n) s))"
  unfolding clearmask_form by (rule mask_upd_same_fsd)

interpretation fm: bitmap inuse "\<lambda>n s. snd (fs_setmaskbit (int n) s)" "\<lambda>n s. snd (fs_clearmaskbit (int n) s)" mbits mask_ok
proof
  fix s n k assume s: "mask_ok s" and n: "n < mbits s"
  show "mask_ok (snd (fs_setmaskbit (int n) s))" "mbits (snd (fs_setmaskbit (int n) s)) = mbits s"
    "mask_ok (snd (fs_clearmaskbit (int n) s))" "mbits (snd (fs_clearmaskbit (int n) s)) = mbits s"
    using same_fsd_mask [OF setmask_same_fsd [OF s n]] same_fsd_mask [OF clearmask_same_fsd [OF s n]] s by simp_all
  assume k: "k < mbits s"
  have e: "maskaddr s n = maskaddr s k" if "n div 8 = k div 8" using that by (simp add: maskaddr_def)
  have d: "k = n \<longleftrightarrow> n div 8 = k div 8 \<and> k mod 8 = n mod 8" using div_mod_8_eq [of n k] by auto
  show "inuse (snd (fs_setmaskbit (int n) s)) k \<longleftrightarrow> k = n \<or> inuse s k"
    unfolding setmask_form inuse_upd [OF s n k] by (simp only: d bit_setmask mod_less_divisor zero_less_numeral) (use e in \<open>auto simp: inuse_def\<close>)
  show "inuse (snd (fs_clearmaskbit (int n) s)) k \<longleftrightarrow> k \<noteq> n \<and> inuse s k"
    unfolding clearmask_form inuse_upd [OF s n k] by (simp only: d bit_clearmask mod_less_divisor zero_less_numeral) (use e in \<open>auto simp: inuse_def\<close>)
qed

end
