(* ===== verification/Loopback.thy ===== *)
theory Loopback
  imports Sem_Tokens Block_Store
begin

text \<open>
  The loopback device of \<^verbatim>\<open>device/loopback\<close>: a ring of 1024 characters whose semaphore counts the characters in it. A call that loses the
  processor returns \<open>Blocked\<close>, or the index at which it goes on, and what remains of it is a function of its own. A store outside
  the ring yields \<^term>\<open>None\<close>.
\<close>

unbundle bit_operations_syntax

section \<open>The driver\<close>

definition LOOP_BUFFER :: int where "LOOP_BUFFER = 1024"
definition LOOP_STATE_FREE :: int where "LOOP_STATE_FREE = 0"
definition LOOP_STATE_ALLOC :: int where "LOOP_STATE_ALLOC = 1"
definition LOOP_CTRL_SET_FLAG :: int where "LOOP_CTRL_SET_FLAG = 1"
definition LOOP_CTRL_CLR_FLAG :: int where "LOOP_CTRL_CLR_FLAG = 2"
definition LOOP_NONBLOCK :: uint32 where "LOOP_NONBLOCK = 1"

lemmas loop_defs = LOOP_BUFFER_def LOOP_STATE_FREE_def LOOP_STATE_ALLOC_def LOOP_CTRL_SET_FLAG_def LOOP_CTRL_CLR_FLAG_def LOOP_NONBLOCK_def

record loopback =
  lb_state :: int
  lb_index :: int
  lb_flags :: uint32
  lb_sem :: sid32
  lb_buffer :: "uchar list"

text \<open>The system around the device: the kernel, the table of devices by minor number, and the memory of the callers.\<close>

record loopsys =
  lk :: kstate
  looptab :: "int \<Rightarrow> loopback"
  lmem :: bytes

definition upd_lb :: "int \<Rightarrow> (loopback \<Rightarrow> loopback) \<Rightarrow> loopsys \<Rightarrow> loopsys" where
  "upd_lb dv f s = s\<lparr>looptab := (looptab s)(dv := f (looptab s dv))\<rparr>"

lemma upd_lb_simps [simp]:
  "lk (upd_lb dv f s) = lk s" "lmem (upd_lb dv f s) = lmem s" "looptab (upd_lb dv f s) dv = f (looptab s dv)"
  by (simp_all add: upd_lb_def)

datatype io = Done int | Paused uint32

definition loopbackInit :: "int \<Rightarrow> loopsys \<Rightarrow> int \<times> loopsys" where
  "loopbackInit dv s = (OK, upd_lb dv (\<lambda>e. e\<lparr>lb_state := LOOP_STATE_FREE, lb_index := 0\<rparr>) s)"

definition loopbackOpen :: "int \<Rightarrow> loopsys \<Rightarrow> int \<times> loopsys" where
  "loopbackOpen dv s =
    (if LOOP_STATE_FREE \<noteq> lb_state (looptab s dv) then (SYSERR, s)
     else let (sem, k) = semcreate 0 (lk s);
              s1 = upd_lb dv (\<lambda>e. e\<lparr>lb_sem := sem\<rparr>) (s\<lparr>lk := k\<rparr>)
       in if SYSERR = sem then (SYSERR, s1)
          else (OK, upd_lb dv (\<lambda>e. e\<lparr>lb_buffer := replicate (nat LOOP_BUFFER) 0, lb_flags := 0, lb_state := LOOP_STATE_ALLOC\<rparr>) s1))"

definition loopbackClose_cont :: "int \<Rightarrow> loopsys \<Rightarrow> int \<times> loopsys" where
  "loopbackClose_cont dv s = (OK, upd_lb dv (\<lambda>e. e\<lparr>lb_state := LOOP_STATE_FREE\<rparr>) s)"

definition loopbackClose :: "int \<Rightarrow> loopsys \<Rightarrow> (int call \<times> loopsys) option" where
  "loopbackClose dv s =
    (if LOOP_STATE_ALLOC \<noteq> lb_state (looptab s dv) then Some (Ret SYSERR, s)
     else do {
       (_, k) \<leftarrow> semdelete (lb_sem (looptab s dv)) (lk s);
       if currpid k \<noteq> currpid (lk s) then Some (Blocked, s\<lparr>lk := k\<rparr>)
       else let (r, t) = loopbackClose_cont dv (s\<lparr>lk := k\<rparr>) in Some (Ret r, t) })"

definition loopbackGetc_cont :: "int \<Rightarrow> loopsys \<Rightarrow> (int \<times> loopsys) option" where
  "loopbackGetc_cont dv s =
    (let e = looptab s dv in
     if lb_index e < 0 \<or> lb_index e \<ge> int (length (lb_buffer e)) then None
     else Some (uint (lb_buffer e ! nat (lb_index e)), upd_lb dv (\<lambda>e. e\<lparr>lb_index := (lb_index e + 1) smod LOOP_BUFFER\<rparr>) s))"

definition loopbackGetc :: "int \<Rightarrow> loopsys \<Rightarrow> (int call \<times> loopsys) option" where
  "loopbackGetc dv s =
    (let e = looptab s dv in
     if LOOP_NONBLOCK = lb_flags e AND LOOP_NONBLOCK \<and> semcount (lb_sem e) (lk s) \<le> 0 then Some (Ret EOF, s)
     else do {
       (_, k) \<leftarrow> wait_sem (lb_sem e) (lk s);
       if currpid k \<noteq> currpid (lk s) then Some (Blocked, s\<lparr>lk := k\<rparr>)
       else do { (c, t) \<leftarrow> loopbackGetc_cont dv (s\<lparr>lk := k\<rparr>); Some (Ret c, t) } })"

definition loopbackPutc :: "int \<Rightarrow> uchar \<Rightarrow> loopsys \<Rightarrow> (int \<times> loopsys) option" where
  "loopbackPutc dv ch s =
    (let e = looptab s dv in
     if LOOP_BUFFER \<le> semcount (lb_sem e) (lk s) then Some (SYSERR, s)
     else
       let i = (lb_index e + semcount (lb_sem e) (lk s)) smod LOOP_BUFFER in
       if i < 0 \<or> i \<ge> int (length (lb_buffer e)) then None
       else
         let s1 = upd_lb dv (\<lambda>e. e\<lparr>lb_buffer := (lb_buffer e)[nat i := ch]\<rparr>) s in
         do { (_, k) \<leftarrow> signal (lb_sem e) (lk s1); Some (uint ch, s1\<lparr>lk := k\<rparr>) })"

text \<open>The loops of read and write, with the number of turns left; after \<open>Paused i\<close> the call goes on with index \<open>i\<close>.\<close>

primrec lbread_loop :: "nat \<Rightarrow> int \<Rightarrow> uint32 \<Rightarrow> uint32 \<Rightarrow> loopsys \<Rightarrow> (io \<times> loopsys) option" where
  "lbread_loop 0 dv buffer i s = Some (Done (sint i), s)"
| "lbread_loop (Suc n) dv buffer i s = do {
     (c, t) \<leftarrow> loopbackGetc dv s;
     case c of Blocked \<Rightarrow> Some (Paused i, t)
     | Ret ret \<Rightarrow> if ret = EOF then Some (Done (sint i), t)
         else lbread_loop n dv buffer (i + 1) (t\<lparr>lmem := (lmem t)(buffer + i := word_of_int ret)\<rparr>) }"

definition loopbackRead :: "int \<Rightarrow> uint32 \<Rightarrow> uint32 \<Rightarrow> loopsys \<Rightarrow> (io \<times> loopsys) option" where
  "loopbackRead dv buf len s =
    (if LOOP_STATE_ALLOC \<noteq> lb_state (looptab s dv) then Some (Done SYSERR, s) else lbread_loop (unat len) dv buf 0 s)"

definition loopbackRead_cont :: "int \<Rightarrow> uint32 \<Rightarrow> uint32 \<Rightarrow> uint32 \<Rightarrow> loopsys \<Rightarrow> (io \<times> loopsys) option" where
  "loopbackRead_cont dv buf len i s = do {
     (ret, t) \<leftarrow> loopbackGetc_cont dv s;
     lbread_loop (unat len - unat i - 1) dv buf (i + 1) (t\<lparr>lmem := (lmem t)(buf + i := word_of_int ret)\<rparr>) }"

primrec lbwrite_loop :: "nat \<Rightarrow> int \<Rightarrow> uint32 \<Rightarrow> uint32 \<Rightarrow> loopsys \<Rightarrow> (io \<times> loopsys) option" where
  "lbwrite_loop 0 dv buffer i s = Some (Done (sint i), s)"
| "lbwrite_loop (Suc n) dv buffer i s = do {
     (r, t) \<leftarrow> loopbackPutc dv (lmem s (buffer + i)) s;
     if SYSERR = r then Some (Done (if i = 0 then SYSERR else sint i), t)
     else if currpid (lk t) \<noteq> currpid (lk s) then Some (Paused (i + 1), t)
     else lbwrite_loop n dv buffer (i + 1) t }"

definition loopbackWrite :: "int \<Rightarrow> uint32 \<Rightarrow> uint32 \<Rightarrow> loopsys \<Rightarrow> (io \<times> loopsys) option" where
  "loopbackWrite dv buf len s =
    (if LOOP_STATE_ALLOC \<noteq> lb_state (looptab s dv) then Some (Done SYSERR, s) else lbwrite_loop (unat len) dv buf 0 s)"

definition loopbackControl :: "int \<Rightarrow> int \<Rightarrow> uint32 \<Rightarrow> uint32 \<Rightarrow> loopsys \<Rightarrow> int \<times> loopsys" where
  "loopbackControl dv func arg1 arg2 s =
    (let e = looptab s dv in
     if LOOP_STATE_ALLOC \<noteq> lb_state e then (SYSERR, s)
     else if func = LOOP_CTRL_SET_FLAG then (sint (lb_flags e), upd_lb dv (\<lambda>e. e\<lparr>lb_flags := lb_flags e OR arg1\<rparr>) s)
     else if func = LOOP_CTRL_CLR_FLAG then (sint (lb_flags e AND arg1), upd_lb dv (\<lambda>e. e\<lparr>lb_flags := lb_flags e AND NOT arg1\<rparr>) s)
     else (SYSERR, s))"

section \<open>The ring as a queue\<close>

definition loop_rep :: "int \<Rightarrow> loopsys \<Rightarrow> uchar list \<Rightarrow> bool" where
  "loop_rep dv s xs \<longleftrightarrow> kinv (lk s) \<and> lb_state (looptab s dv) = LOOP_STATE_ALLOC \<and> lb_sem (looptab s dv) \<in> sems \<and>
     sstate (semtab (lk s) (lb_sem (looptab s dv))) = S_USED \<and> scount (semtab (lk s) (lb_sem (looptab s dv))) = int (length xs) \<and>
     length (lb_buffer (looptab s dv)) = 1024 \<and> length xs \<le> 1024 \<and> 0 \<le> lb_index (looptab s dv) \<and> lb_index (looptab s dv) < 1024 \<and>
     (\<forall>j<length xs. lb_buffer (looptab s dv) ! nat ((lb_index (looptab s dv) + int j) mod 1024) = xs ! j)"

lemma semcount_used: "i \<in> sems \<Longrightarrow> sstate (semtab k i) = S_USED \<Longrightarrow> semcount i k = scount (semtab k i)"
  using not_badsem [of i] by (simp add: semcount_def)

lemma ring_inj:
  fixes x :: int
  assumes "a < 1024" "b < 1024" "(x + int a) mod 1024 = (x + int b) mod 1024"
  shows "a = b"
proof -
  have "1024 dvd int a - int b" using assms(3) by (simp add: mod_eq_dvd_iff)
  then have "int a - int b = 0" using assms(1,2) dvd_imp_le_int [of "int a - int b" 1024] by (cases "int a - int b = 0") auto
  then show ?thesis by simp
qed

lemma putc_ok:
  assumes R: "loop_rep dv s xs" and l: "length xs < 1024"
  shows "\<exists>t. loopbackPutc dv ch s = Some (uint ch, t) \<and> loop_rep dv t (xs @ [ch]) \<and> lmem t = lmem s \<and> currpid (lk t) = currpid (lk s)"
proof -
  define e i where "e = looptab s dv" and "i = (lb_index e + int (length xs)) mod 1024"
  have r: "kinv (lk s)" "lb_state e = LOOP_STATE_ALLOC" "lb_sem e \<in> sems" "sstate (semtab (lk s) (lb_sem e)) = S_USED"
      "scount (semtab (lk s) (lb_sem e)) = int (length xs)" "length (lb_buffer e) = 1024" "0 \<le> lb_index e" "lb_index e < 1024"
      "\<And>j. j < length xs \<Longrightarrow> lb_buffer e ! nat ((lb_index e + int j) mod 1024) = xs ! j"
    using R by (simp_all add: loop_rep_def e_def)
  have i: "0 \<le> i" "i < 1024" by (simp_all add: i_def)
  have c: "0 \<le> scount (semtab (lk s) (lb_sem e))" using r(5) by simp
  define t where "t = (upd_lb dv (\<lambda>e. e\<lparr>lb_buffer := (lb_buffer e)[nat i := ch]\<rparr>) s)\<lparr>lk := bump (lb_sem e) (lk s)\<rparr>"
  note S = signal_counts [OF r(1,3,4) c]
  have p: "loopbackPutc dv ch s = Some (uint ch, t)"
    using l i r(6,7) S(1) by (simp add: loopbackPutc_def e_def [symmetric] semcount_used [OF r(3,4)] r(5) LOOP_BUFFER_def smod_nonneg i_def [symmetric] t_def Let_def)
  have "(lb_buffer e)[nat i := ch] ! nat ((lb_index e + int j) mod 1024) = (xs @ [ch]) ! j" if "j < Suc (length xs)" for j
  proof (cases "j = length xs")
    case True
    then show ?thesis using i r(6) by (simp add: i_def [symmetric])
  next
    case False
    then have "nat ((lb_index e + int j) mod 1024) \<noteq> nat i" using ring_inj [of j "length xs" "lb_index e"] that l i by (auto simp: i_def eq_nat_nat_iff)
    then show ?thesis using False that r(9) by (simp add: nth_append)
  qed
  then have "loop_rep dv t (xs @ [ch])"
    using r S(2) l by (simp add: loop_rep_def t_def e_def [symmetric] bump_def)
  then show ?thesis using p by (simp add: t_def bump_def)
qed

lemma putc_full: "loop_rep dv s xs \<Longrightarrow> length xs = 1024 \<Longrightarrow> loopbackPutc dv ch s = Some (SYSERR, s)"
  by (simp add: loopbackPutc_def loop_rep_def semcount_used LOOP_BUFFER_def Let_def del: atLeastLessThan_iff)

lemma getc_ok:
  assumes R: "loop_rep dv s (c # cs)"
  shows "\<exists>t. loopbackGetc dv s = Some (Ret (uint c), t) \<and> loop_rep dv t cs \<and> lmem t = lmem s \<and> currpid (lk t) = currpid (lk s)"
proof -
  define e where "e = looptab s dv"
  have r: "kinv (lk s)" "lb_state e = LOOP_STATE_ALLOC" "lb_sem e \<in> sems" "sstate (semtab (lk s) (lb_sem e)) = S_USED"
      "scount (semtab (lk s) (lb_sem e)) = int (length (c # cs))" "length (lb_buffer e) = 1024" "0 \<le> lb_index e" "lb_index e < 1024" "length (c # cs) \<le> 1024"
      "\<And>j. j < length (c # cs) \<Longrightarrow> lb_buffer e ! nat ((lb_index e + int j) mod 1024) = (c # cs) ! j"
    using R unfolding loop_rep_def e_def [symmetric] by blast+
  have p: "0 < scount (semtab (lk s) (lb_sem e))" using r(5) by simp
  define k where "k = upd_sem (lb_sem e) (\<lambda>e. e\<lparr>scount := scount e - 1\<rparr>) (lk s)"
  define t where "t = upd_lb dv (\<lambda>e. e\<lparr>lb_index := (lb_index e + 1) mod 1024\<rparr>) (s\<lparr>lk := k\<rparr>)"
  have W: "wait_sem (lb_sem e) (lk s) = Some (OK, k)" "kinv k" using wait_passes(1,2) [OF r(1,3,4) p] by (simp_all add: k_def)
  have h: "lb_buffer e ! nat (lb_index e) = c" using r(10) [of 0] r(7,8) by simp
  have cp: "currpid k = currpid (lk s)" by (simp add: k_def)
  have "loopbackGetc_cont dv (s\<lparr>lk := k\<rparr>) = Some (uint c, t)"
    using r(6-8) h by (simp add: loopbackGetc_cont_def e_def [symmetric] smod_nonneg LOOP_BUFFER_def t_def Let_def upd_lb_def)
  then have g: "loopbackGetc dv s = Some (Ret (uint c), t)"
    using W(1) p cp unfolding loopbackGetc_def e_def [symmetric] Let_def semcount_used [OF r(3,4)] by simp
  have "lb_buffer e ! nat (((lb_index e + 1) mod 1024 + int j) mod 1024) = cs ! j" if "j < length cs" for j
    using r(10) [of "Suc j"] that by (simp add: mod_simps algebra_simps)
  then have "loop_rep dv t cs" using r W(2) by (simp add: loop_rep_def t_def e_def [symmetric] k_def)
  then show ?thesis using g by (simp add: t_def k_def)
qed

lemma getc_empty:
  assumes R: "loop_rep dv s []"
  shows "lb_flags (looptab s dv) AND LOOP_NONBLOCK = LOOP_NONBLOCK \<Longrightarrow> loopbackGetc dv s = Some (Ret EOF, s)"
    "lb_flags (looptab s dv) AND LOOP_NONBLOCK \<noteq> LOOP_NONBLOCK \<Longrightarrow> currpid (lk s) \<noteq> NULLPROC \<Longrightarrow> \<exists>t. loopbackGetc dv s = Some (Blocked, t) \<and> kinv (lk t)"
proof -
  have r: "kinv (lk s)" "lb_sem (looptab s dv) \<in> sems" "sstate (semtab (lk s) (lb_sem (looptab s dv))) = S_USED" "scount (semtab (lk s) (lb_sem (looptab s dv))) = 0"
    using R by (simp_all add: loop_rep_def)
  show "loopbackGetc dv s = Some (Ret EOF, s)" if "lb_flags (looptab s dv) AND LOOP_NONBLOCK = LOOP_NONBLOCK"
    using that r(4) by (simp add: loopbackGetc_def semcount_used [OF r(2,3)] Let_def)
  assume n: "lb_flags (looptab s dv) AND LOOP_NONBLOCK \<noteq> LOOP_NONBLOCK" "currpid (lk s) \<noteq> NULLPROC"
  obtain k where K: "wait_sem (lb_sem (looptab s dv)) (lk s) = Some (OK, k)" "kinv k" "pst k (currpid (lk s)) = PR_WAIT"
    by (rule wait_blocks [OF r(1-3) _ n(2)]) (use r(4) in auto)
  have "currpid k \<noteq> currpid (lk s)" using kinvD(2) [OF K(2)] K(3) by auto
  then show "\<exists>t. loopbackGetc dv s = Some (Blocked, t) \<and> kinv (lk t)" using n(1) K(1,2) by (auto simp: loopbackGetc_def Let_def)
qed

lemma loop_rep_lmem [simp]: "loop_rep dv (s\<lparr>lmem := m\<rparr>) xs = loop_rep dv s xs"
  by (simp add: loop_rep_def)

lemma index_words: "a < 2 ^ 31 \<Longrightarrow> (of_nat a :: uint32) = 0 \<longleftrightarrow> a = 0" "a < 2 ^ 31 \<Longrightarrow> sint (of_nat a :: uint32) = int a"
  using sint_below [of "of_nat a"] by (auto simp: word_of_nat_eq_0_iff unsigned_of_nat take_bit_nat_eq_self take_bit_int_eq_self dest: dvd_imp_le)

lemma lbwrite_loop_ok:
  assumes "loop_rep dv s xs" "block (lmem s) (buffer + of_nat a) (length ys) = ys" "a + length ys < 2 ^ 31"
  shows "\<exists>t. lbwrite_loop (length ys) dv buffer (of_nat a) s =
      Some (Done (if length xs = 1024 \<and> ys \<noteq> [] \<and> a = 0 then SYSERR else int (a + min (length ys) (1024 - length xs))), t) \<and>
    loop_rep dv t (xs @ take (1024 - length xs) ys) \<and> lmem t = lmem s"
  using assms
proof (induction ys arbitrary: s xs a)
  case Nil
  then show ?case by (simp add: index_words)
next
  case (Cons y ys)
  have y: "lmem s (buffer + of_nat a) = y" "block (lmem s) (buffer + of_nat (Suc a)) (length ys) = ys" using Cons.prems(2) by (simp_all add: algebra_simps)
  have l: "length xs \<le> 1024" using Cons.prems(1) by (simp add: loop_rep_def)
  show ?case
  proof (cases "length xs = 1024")
    case True
    then show ?thesis using putc_full [OF Cons.prems(1) True, of y] Cons.prems(1,3) y(1) by (simp add: index_words)
  next
    case False
    obtain t where t: "loopbackPutc dv y s = Some (uint y, t)" "loop_rep dv t (xs @ [y])" "lmem t = lmem s" "currpid (lk t) = currpid (lk s)"
      using putc_ok [OF Cons.prems(1)] False l by fastforce
    have n: "SYSERR \<noteq> uint y" using SYSERR_neg(1) uint_ge_0 [of y] by linarith
    have e: "1024 - length xs = Suc (1024 - length (xs @ [y]))" using False l by simp
    obtain u where u: "lbwrite_loop (length ys) dv buffer (of_nat (Suc a)) t = Some (Done (int (Suc a + min (length ys) (1024 - length (xs @ [y])))), u)"
        "loop_rep dv u ((xs @ [y]) @ take (1024 - length (xs @ [y])) ys)" "lmem u = lmem t"
      using Cons.IH [OF t(2), of "Suc a"] y(2) t(3) Cons.prems(3) by auto
    then show ?thesis using t n False y(1) unfolding e by (auto simp: add.commute)
  qed
qed

lemma lbread_loop_ok:
  assumes "loop_rep dv s xs" "n \<le> length xs" "a + n < 2 ^ 31"
  shows "\<exists>t. lbread_loop n dv buffer (of_nat a) s = Some (Done (int (a + n)), t) \<and> loop_rep dv t (drop n xs) \<and> lmem t = put (lmem s) (buffer + of_nat a) (take n xs)"
  using assms
proof (induction n arbitrary: s xs a)
  case 0
  then show ?case by (simp add: index_words)
next
  case (Suc n)
  obtain c cs where xs: "xs = c # cs" using Suc.prems(2) by (cases xs) auto
  obtain t where t: "loopbackGetc dv s = Some (Ret (uint c), t)" "loop_rep dv t cs" "lmem t = lmem s" using getc_ok Suc.prems(1) unfolding xs by blast
  have n: "uint c \<noteq> EOF" using uint_ge_0 [of c] unfolding EOF_def by linarith
  define t' where "t' = t\<lparr>lmem := (lmem t)(buffer + of_nat a := c)\<rparr>"
  have R: "loop_rep dv t' cs" using t(2) by (simp add: t'_def)
  obtain u where u: "lbread_loop n dv buffer (of_nat (Suc a)) t' = Some (Done (int (Suc a + n)), u)" "loop_rep dv u (drop n cs)"
      "lmem u = put (lmem t') (buffer + of_nat (Suc a)) (take n cs)"
    using Suc.IH [OF R, of "Suc a"] Suc.prems(2,3) unfolding xs by auto
  have "lbread_loop (Suc n) dv buffer (of_nat a) s = Some (Done (int (a + Suc n)), u)" using t(1) n u(1) by (simp add: t'_def add.commute)
  moreover have "lmem u = put (lmem s) (buffer + of_nat a) (take (Suc n) xs)" using u(3) t(3) by (simp add: t'_def xs algebra_simps)
  ultimately show ?case using u(2) xs by simp
qed

text \<open>Opening a free device whose index is in range gives an empty ring, unless no semaphore is left.\<close>

lemma open_ok:
  assumes k: "kinv (lk s)" "nextsem (lk s) \<in> sems" and f: "lb_state (looptab s dv) = LOOP_STATE_FREE" "0 \<le> lb_index (looptab s dv)" "lb_index (looptab s dv) < 1024"
    and o: "loopbackOpen dv s = (r, t)"
  shows "r = SYSERR \<or> r = OK \<and> loop_rep dv t [] \<and> currpid (lk t) = currpid (lk s) \<and> lb_index (looptab t dv) = lb_index (looptab s dv) \<and> lb_flags (looptab t dv) = 0"
proof -
  obtain i k' where c: "semcreate 0 (lk s) = (i, k')" by fastforce
  show ?thesis
  proof (cases "i = SYSERR")
    case True
    then show ?thesis using o f(1) c by (auto simp: loopbackOpen_def)
  next
    case False
    then have C: "kinv k'" "i \<in> sems" "semtab k' i = \<lparr>sstate = S_USED, scount = 0, squeue = semq (lk s) i\<rparr>" "currpid k' = currpid (lk s)"
      using semcreate_ok [OF k, of 0] c by (auto simp del: atLeastLessThan_iff)
    then show ?thesis using o f c False by (auto simp: loopbackOpen_def Let_def loop_rep_def LOOP_BUFFER_def simp del: atLeastLessThan_iff)
  qed
qed

section \<open>Properties\<close>

text \<open>
  C39. The device is a bounded queue of bytes: when no reader waits, \<^verbatim>\<open>write\<close> adds as many bytes as there is room for behind those in the ring
  and returns their number, or \<^verbatim>\<open>SYSERR\<close> when there is no room for any, and \<^verbatim>\<open>read\<close> of what the ring then holds stores exactly
  these bytes in order, wherever in the ring they lie, and leaves it empty.
\<close>

theorem loopback_write_read:
  assumes "loop_rep dv s xs" "block (lmem s) buf (length ys) = ys" "length ys < 2 ^ 31" "zs = xs @ take (1024 - length xs) ys"
  shows "\<exists>t u. loopbackWrite dv buf (of_nat (length ys)) s =
      Some (Done (if length xs = 1024 \<and> ys \<noteq> [] then SYSERR else int (min (length ys) (1024 - length xs))), t) \<and> loop_rep dv t zs \<and>
    loopbackRead dv dst (of_nat (length zs)) t = Some (Done (int (length zs)), u) \<and> lmem u = put (lmem s) dst zs \<and> loop_rep dv u []"
proof -
  have l: "length zs \<le> 1024" using assms(1,4) by (auto simp: loop_rep_def)
  have un: "unat (of_nat n :: uint32) = n" if "n < 2 ^ 31" for n using that by (simp add: unsigned_of_nat take_bit_nat_eq_self)
  have a: "lb_state (looptab s dv) = LOOP_STATE_ALLOC" using assms(1) by (simp add: loop_rep_def)
  obtain t where t: "lbwrite_loop (length ys) dv buf 0 s = Some (Done (if length xs = 1024 \<and> ys \<noteq> [] then SYSERR else int (min (length ys) (1024 - length xs))), t)"
      "loop_rep dv t zs" "lmem t = lmem s"
    using lbwrite_loop_ok [OF assms(1), of buf 0 ys] assms(2-4) by auto
  have b: "lb_state (looptab t dv) = LOOP_STATE_ALLOC" using t(2) by (simp add: loop_rep_def)
  obtain u where u: "lbread_loop (length zs) dv dst 0 t = Some (Done (int (length zs)), u)" "loop_rep dv u []" "lmem u = put (lmem t) dst zs"
    using lbread_loop_ok [OF t(2), of "length zs" 0 dst] l by auto
  show ?thesis using t u un [OF assms(3)] un [of "length zs"] l a b by (simp add: loopbackWrite_def loopbackRead_def)
qed

text \<open>A device that has just been opened.\<close>

definition lfresh :: loopsys where
  "lfresh = snd (loopbackOpen 0 (snd (loopbackInit 0 \<lparr>lk = krun,
     looptab = (\<lambda>_. \<lparr>lb_state = 0, lb_index = 0, lb_flags = 0, lb_sem = 0, lb_buffer = replicate 1024 0\<rparr>), lmem = (\<lambda>_. 0)\<rparr>)))"

lemma lfresh_facts: "loop_rep 0 lfresh []" "currpid (lk lfresh) = 1" "lb_index (looptab lfresh 0) = 0" "lb_flags (looptab lfresh 0) = 0" "lmem lfresh = (\<lambda>_. 0)"
proof -
  define s where "s = snd (loopbackInit 0 \<lparr>lk = krun,
     looptab = (\<lambda>_. \<lparr>lb_state = 0, lb_index = 0, lb_flags = 0, lb_sem = 0, lb_buffer = replicate 1024 0\<rparr>), lmem = (\<lambda>_. 0)\<rparr>)"
  have s: "lk s = krun" "lb_state (looptab s 0) = LOOP_STATE_FREE" "lb_index (looptab s 0) = 0" "lmem s = (\<lambda>_. 0)" by (simp_all add: s_def loopbackInit_def)
  have e: "loopbackOpen 0 s = (fst (loopbackOpen 0 s), lfresh)" by (simp add: lfresh_def s_def)
  have "fst (loopbackOpen 0 s) \<noteq> SYSERR" using s ksem_facts(6) by (simp add: loopbackOpen_def Let_def SYSERR_def OK_def)
  then show "loop_rep 0 lfresh []" "currpid (lk lfresh) = 1" "lb_index (looptab lfresh 0) = 0" "lb_flags (looptab lfresh 0) = 0"
    using open_ok [OF _ _ s(2) _ _ e] s krun_facts(1,4,10) by (auto simp: size_defs)
  show "lmem lfresh = (\<lambda>_. 0)" using s ksem_facts(6) by (simp add: lfresh_def s_def [symmetric] loopbackOpen_def Let_def SYSERR_def)
qed

theorem loopback_write_read_witness:
  "\<exists>t u. loopbackWrite 0 0x1000 2 (lfresh\<lparr>lmem := put (\<lambda>_. 0) 0x1000 [72, 105]\<rparr>) = Some (Done 2, t) \<and>
     loopbackRead 0 0x2000 2 t = Some (Done 2, u) \<and> lmem u 0x2001 = 105"
  using loopback_write_read [where dv = 0 and s = "lfresh\<lparr>lmem := put (\<lambda>_. 0) 0x1000 [72, 105]\<rparr>" and xs = "[]" and buf = "0x1000"
    and ys = "[72, 105]" and zs = "[72, 105]" and dst = "0x2000"] lfresh_facts(1) by auto

text \<open>
  C40. While readers wait, the count of the semaphore is negative and \<^verbatim>\<open>putc\<close> computes its place from it all the same. It either stores outside
  the ring, or stores the character before the place where the reader it wakes looks, so that this reader gets what the ring held there before.
\<close>

theorem loopback_waiting_reader:
  assumes k: "kinv (lk s)" and i: "lb_sem (looptab s dv) \<in> sems" "sstate (semtab (lk s) (lb_sem (looptab s dv))) = S_USED"
    and n: "scount (semtab (lk s) (lb_sem (looptab s dv))) = - n" "0 < n" "n < 1024"
    and b: "length (lb_buffer (looptab s dv)) = 1024" "0 \<le> lb_index (looptab s dv)" "lb_index (looptab s dv) < 1024"
  shows "if lb_index (looptab s dv) < n then loopbackPutc dv ch s = None
    else \<exists>t u. loopbackPutc dv ch s = Some (uint ch, t) \<and> kinv (lk t) \<and> waiters (lk t) (lb_sem (looptab s dv)) = tl (waiters (lk s) (lb_sem (looptab s dv))) \<and>
      loopbackGetc_cont dv t = Some (uint (lb_buffer (looptab s dv) ! nat (lb_index (looptab s dv))), u)"
proof -
  define e where "e = looptab s dv"
  note r = i [folded e_def] n [folded e_def] b [folded e_def]
  have sc: "semcount (lb_sem e) (lk s) = - n" using semcount_used [OF r(1,2)] r(3) by simp
  show ?thesis
  proof (cases "lb_index e < n")
    case True
    then have "(lb_index e - n) smod 1024 < 0" using r(4-8) by (simp add: signed_modulo_int_def sgn_if)
    then show ?thesis unfolding e_def [symmetric] using True r(4) by (simp add: loopbackPutc_def e_def [symmetric] sc LOOP_BUFFER_def Let_def)
  next
    case False
    have c: "scount (semtab (lk s) (lb_sem e)) < 0" using r(3,4) by simp
    obtain k' where K: "signal (lb_sem e) (lk s) = Some (OK, k')" "kinv k'" "waiters k' (lb_sem e) = tl (waiters (lk s) (lb_sem e))"
      by (rule signal_wakes [OF k r(1,2) c]) (rule that; assumption)
    have m: "(lb_index e - n) smod 1024 = lb_index e - n" using False r(4-8) by (simp add: smod_nonneg)
    define t where "t = (upd_lb dv (\<lambda>x. x\<lparr>lb_buffer := (lb_buffer x)[nat (lb_index e - n) := ch]\<rparr>) s)\<lparr>lk := k'\<rparr>"
    have "loopbackPutc dv ch s = Some (uint ch, t)"
      using False r(4-8) K(1) by (simp add: loopbackPutc_def e_def [symmetric] sc LOOP_BUFFER_def Let_def m t_def)
    moreover have "nat (lb_index e - n) \<noteq> nat (lb_index e)" using False r(4,7) by simp
    then have "\<exists>u. loopbackGetc_cont dv t = Some (uint (lb_buffer e ! nat (lb_index e)), u)"
      using r(6-8) by (simp add: loopbackGetc_cont_def t_def e_def [symmetric] Let_def)
    ultimately show ?thesis unfolding e_def [symmetric] using False K(2,3) by (simp add: t_def)
  qed
qed

theorem loopback_waiting_reader_witness:
  "\<exists>t. loopbackGetc 0 lfresh = Some (Blocked, t) \<and> loopbackPutc 0 65 t = None"
proof -
  let ?i = "lb_sem (looptab lfresh 0)"
  have r: "kinv (lk lfresh)" "?i \<in> sems" "sstate (semtab (lk lfresh) ?i) = S_USED" "scount (semtab (lk lfresh) ?i) = 0" "length (lb_buffer (looptab lfresh 0)) = 1024"
    using lfresh_facts(1) unfolding loop_rep_def by simp_all
  have nn: "currpid (lk lfresh) \<noteq> NULLPROC" using lfresh_facts(2) by (simp add: NULLPROC_def)
  obtain k where K: "wait_sem ?i (lk lfresh) = Some (OK, k)" "kinv k" "pst k (currpid (lk lfresh)) = PR_WAIT"
      "scount (semtab k ?i) = scount (semtab (lk lfresh) ?i) - 1" "sstate (semtab k ?i) = S_USED"
    by (rule wait_blocks [OF r(1-3) _ nn]) (use r(4) in auto)
  have "currpid k \<noteq> currpid (lk lfresh)" using kinvD(2) [OF K(2)] K(3) by auto
  then have "loopbackGetc 0 lfresh = Some (Blocked, lfresh\<lparr>lk := k\<rparr>)" using K(1) lfresh_facts(4) by (simp add: loopbackGetc_def Let_def LOOP_NONBLOCK_def)
  moreover have "loopbackPutc 0 65 (lfresh\<lparr>lk := k\<rparr>) = None"
    using loopback_waiting_reader [of "lfresh\<lparr>lk := k\<rparr>" 0 1 65] K r lfresh_facts(3) by (simp del: atLeastLessThan_iff)
  ultimately show ?thesis by blast
qed

end
