(* ===== verification/Devices.thy ===== *)
theory Devices
  imports Lib_String
begin

text \<open>
  The device-independent calls of \<^verbatim>\<open>system/\<close>: each finds the driver's function in the device switch table and calls it. The table is
  generated from the configuration and its functions are the drivers; both are parameters here. A driver works on a state of
  any type and may not return.
\<close>

section \<open>The calls\<close>

definition NDEVS :: int where "NDEVS = 13"
definition DEVNAMLEN :: int where "DEVNAMLEN = 16"

definition isbaddev :: "did32 \<Rightarrow> bool" where
  "isbaddev f \<longleftrightarrow> f < 0 \<or> f \<ge> NDEVS"

text \<open>A driver's function gets the number of the table entry where the code passes its address.\<close>

record 's dentry =
  dvnum :: int
  dvminor :: int
  dvname :: uint32
  dvinit :: "did32 \<Rightarrow> 's \<Rightarrow> (int \<times> 's) option"
  dvopen :: "did32 \<Rightarrow> uint32 \<Rightarrow> uint32 \<Rightarrow> 's \<Rightarrow> (int \<times> 's) option"
  dvclose :: "did32 \<Rightarrow> 's \<Rightarrow> (int \<times> 's) option"
  dvread :: "did32 \<Rightarrow> uint32 \<Rightarrow> uint32 \<Rightarrow> 's \<Rightarrow> (int \<times> 's) option"
  dvwrite :: "did32 \<Rightarrow> uint32 \<Rightarrow> uint32 \<Rightarrow> 's \<Rightarrow> (int \<times> 's) option"
  dvseek :: "did32 \<Rightarrow> int \<Rightarrow> 's \<Rightarrow> (int \<times> 's) option"
  dvgetc :: "did32 \<Rightarrow> 's \<Rightarrow> (int \<times> 's) option"
  dvputc :: "did32 \<Rightarrow> uchar \<Rightarrow> 's \<Rightarrow> (int \<times> 's) option"
  dvcntl :: "did32 \<Rightarrow> int \<Rightarrow> int \<Rightarrow> int \<Rightarrow> 's \<Rightarrow> (int \<times> 's) option"

type_synonym 's devices = "did32 \<Rightarrow> 's dentry"

definition init :: "'s devices \<Rightarrow> did32 \<Rightarrow> 's \<Rightarrow> (int \<times> 's) option" where
  "init devtab descrp s = (if isbaddev descrp then Some (SYSERR, s) else dvinit (devtab descrp) descrp s)"

definition open_dev :: "'s devices \<Rightarrow> did32 \<Rightarrow> uint32 \<Rightarrow> uint32 \<Rightarrow> 's \<Rightarrow> (int \<times> 's) option" where
  "open_dev devtab descrp name mode s = (if isbaddev descrp then Some (SYSERR, s) else dvopen (devtab descrp) descrp name mode s)"

definition close :: "'s devices \<Rightarrow> did32 \<Rightarrow> 's \<Rightarrow> (int \<times> 's) option" where
  "close devtab descrp s = (if isbaddev descrp then Some (SYSERR, s) else dvclose (devtab descrp) descrp s)"

definition read_dev :: "'s devices \<Rightarrow> did32 \<Rightarrow> uint32 \<Rightarrow> uint32 \<Rightarrow> 's \<Rightarrow> (int \<times> 's) option" where
  "read_dev devtab descrp buffer count s = (if isbaddev descrp then Some (SYSERR, s) else dvread (devtab descrp) descrp buffer count s)"

definition write_dev :: "'s devices \<Rightarrow> did32 \<Rightarrow> uint32 \<Rightarrow> uint32 \<Rightarrow> 's \<Rightarrow> (int \<times> 's) option" where
  "write_dev devtab descrp buffer count s = (if isbaddev descrp then Some (SYSERR, s) else dvwrite (devtab descrp) descrp buffer count s)"

text \<open>The position is unsigned in the call and signed in the driver.\<close>

definition seek :: "'s devices \<Rightarrow> did32 \<Rightarrow> uint32 \<Rightarrow> 's \<Rightarrow> (int \<times> 's) option" where
  "seek devtab descrp pos s = (if isbaddev descrp then Some (SYSERR, s) else dvseek (devtab descrp) descrp (sint pos) s)"

definition getc :: "'s devices \<Rightarrow> did32 \<Rightarrow> 's \<Rightarrow> (int \<times> 's) option" where
  "getc devtab descrp s = (if isbaddev descrp then Some (SYSERR, s) else dvgetc (devtab descrp) descrp s)"

definition putc :: "'s devices \<Rightarrow> did32 \<Rightarrow> uchar \<Rightarrow> 's \<Rightarrow> (int \<times> 's) option" where
  "putc devtab descrp ch s = (if isbaddev descrp then Some (SYSERR, s) else dvputc (devtab descrp) descrp ch s)"

definition control :: "'s devices \<Rightarrow> did32 \<Rightarrow> int \<Rightarrow> int \<Rightarrow> int \<Rightarrow> 's \<Rightarrow> (int \<times> 's) option" where
  "control devtab descrp func arg1 arg2 s = (if isbaddev descrp then Some (SYSERR, s) else dvcntl (devtab descrp) descrp func arg1 arg2 s)"

definition ioerr :: "'s \<Rightarrow> (int \<times> 's) option" where "ioerr s = Some (SYSERR, s)"
definition ionull :: "'s \<Rightarrow> (int \<times> 's) option" where "ionull s = Some (OK, s)"

text \<open>The search for a device by name, from \<open>i\<close> on.\<close>

function getdev_loop :: "bytes \<Rightarrow> 's devices \<Rightarrow> uint32 \<Rightarrow> did32 \<Rightarrow> did32" where
  "getdev_loop m devtab devname i =
    (if i < NDEVS then (if strncmp m devname (dvname (devtab i)) DEVNAMLEN \<noteq> 0 then i else getdev_loop m devtab devname (i + 1)) else SYSERR)"
  by pat_completeness auto
termination by (relation "measure (\<lambda>(m, devtab, devname, i). nat (NDEVS - i))") auto

declare getdev_loop.simps [simp del]

definition getdev :: "bytes \<Rightarrow> 's devices \<Rightarrow> uint32 \<Rightarrow> did32" where
  "getdev m devtab devname = getdev_loop m devtab devname 0"

section \<open>Properties\<close>

text \<open>
  \<^verbatim>\<open>getdev\<close> takes the result of \<^verbatim>\<open>strncmp\<close> for a truth value: it returns the first device whose name is \<^emph>\<open>not\<close> the one asked for. As
  the first two devices have different names, every name leads to one of these two, and never to the device it names.
\<close>

lemma getdev_wrong_device:
  assumes "cstr m devname xs" "cstr m (dvname (devtab 0)) ys" "cstr m (dvname (devtab 1)) zs" "take 16 ys \<noteq> take 16 zs"
  shows "getdev m devtab devname = (if take 16 xs = take 16 ys then 1 else 0) \<and>
    strncmp m devname (dvname (devtab (getdev m devtab devname))) DEVNAMLEN \<noteq> 0"
proof -
  have e: "strncmp m devname (dvname (devtab i)) DEVNAMLEN = 0 \<longleftrightarrow> take 16 xs = take 16 ws" if "cstr m (dvname (devtab i)) ws" for i ws
    using strncmp_cstr [OF assms(1) that, of DEVNAMLEN] lexcmp_eq_0 [of "take 16 xs" "take 16 ws"] sgn_eq_0_iff by (metis DEVNAMLEN_def nat_numeral)
  have "getdev m devtab devname = (if take 16 xs = take 16 ys then 1 else 0)"
    using e [OF assms(2)] e [OF assms(3)] assms(4)
    by (simp add: getdev_def getdev_loop.simps [of m devtab devname 0] getdev_loop.simps [of m devtab devname 1] NDEVS_def)
  then show ?thesis using e [OF assms(2)] e [OF assms(3)] assms(4) by auto
qed

end
