(* ===== verification/Startup.thy ===== *)
theory Startup
  imports Buffer_Pool Loopback Devices
begin

text \<open>
  The start of the system: \<^verbatim>\<open>sysinit\<close> of \<^verbatim>\<open>system/initialize.c\<close> as a whole. Its kernel parts are those of the theory
  \<open>Boot\<close>; here it goes on through \<^verbatim>\<open>bufinit\<close> and the loop that initializes every device, with the initializers of the
  devices of \<^verbatim>\<open>config/Configuration.arm-qemu\<close>: \<^verbatim>\<open>device/tty/ttyinit.c\<close>, \<^verbatim>\<open>nam/naminit.c\<close> (with \<^verbatim>\<open>nam/mount.c\<close>),
  \<^verbatim>\<open>ram/raminit.c\<close>, \<^verbatim>\<open>lfs/lfsinit.c\<close>, \<^verbatim>\<open>lfs/lflinit.c\<close>, \<^verbatim>\<open>uart/uartInit.c\<close> and \<^verbatim>\<open>loopback/loopbackInit.c\<close>. The device switch
  table itself is generated from that file and is a parameter. The registers of the devices, the interrupt vector, \<^verbatim>\<open>platinit\<close>
  and \<^verbatim>\<open>setstk\<close> are not modelled.
\<close>

section \<open>The control blocks of the devices\<close>

text \<open>A pointer into a buffer of the block is its offset there; the character buffers of the tty and the uart, which no initializer writes, are left out.\<close>

record ttycblk =
  tyihead :: nat
  tyitail :: nat
  tyisem :: sid32
  tyohead :: nat
  tyotail :: nat
  tyosem :: sid32
  tyehead :: nat
  tyetail :: nat
  tyimode :: char
  tyiecho :: bool
  tyieback :: bool
  tyevis :: bool
  tyecrlf :: bool
  tyicrlf :: bool
  tyierase :: bool
  tyierasec :: int
  tyeof :: bool
  tyeofch :: int
  tyikill :: bool
  tyikillc :: int
  tyicursor :: int
  tyoflow :: bool
  tyoheld :: bool
  tyostop :: int
  tyostart :: int
  tyocrlf :: bool
  tyifullc :: int

record lfdata =
  lf_dskdev :: did32
  lf_mutex :: sid32
  lf_dir :: "uchar list"
  lf_dirpresent :: bool
  lf_dirdirty :: bool

record lflcblk =
  lfstate :: int
  lfdev :: did32
  lfmutex :: sid32
  lfdirptr :: uint32
  lfmode :: int
  lfpos :: uint32
  lfname :: "uchar list"
  lfinum :: int
  lfiblock :: "uchar list"
  lfdnum :: int
  lfdblock :: "uchar list"
  lfbyte :: nat
  lfibdirty :: bool
  lfdbdirty :: bool

record uart =
  u_csr :: uint32
  u_dev :: did32
  u_cout :: uint32
  u_cin :: uint32
  u_lserr :: uint32
  u_ovrrn :: uint32
  u_iirq :: uint32
  u_oirq :: uint32
  u_iflags :: uchar
  u_isema :: sid32
  u_istart :: int
  u_icount :: int
  u_oflags :: uchar
  u_osema :: sid32
  u_ostart :: int
  u_ocount :: int
  u_oidle :: bool

record nmentry =
  nprefix :: string
  nreplace :: string
  ndevice :: did32

record namespace =
  nametab :: "int \<Rightarrow> nmentry"
  nnames :: int

text \<open>The kernel with the buffer pools, and the tables of the devices by minor number; \<open>Ram\<close> is the memory of the disk.\<close>

record xinu =
  xbuf :: bufsys
  ttytab :: "int \<Rightarrow> ttycblk"
  Lf_data :: lfdata
  lfltab :: "int \<Rightarrow> lflcblk"
  uarttab :: "int \<Rightarrow> uart"
  xlooptab :: "int \<Rightarrow> loopback"
  xnames :: namespace
  Ram :: bytes

abbreviation xk :: "xinu \<Rightarrow> kstate" where "xk s \<equiv> bk (xbuf s)"

abbreviation set_xk :: "kstate \<Rightarrow> xinu \<Rightarrow> xinu" where "set_xk k s \<equiv> s\<lparr>xbuf := (xbuf s)\<lparr>bk := k\<rparr>\<rparr>"

section \<open>The initializers\<close>

definition TY_OBUFLEN :: int where "TY_OBUFLEN = 64"
definition UART_OBLEN :: int where "UART_OBLEN = 1024"
definition LF_BLKSIZ :: nat where "LF_BLKSIZ = 512"
definition RM_BYTES :: int where "RM_BYTES = 512 * 200"

definition ttyinit :: "int \<Rightarrow> xinu \<Rightarrow> (int \<times> xinu) option" where
  "ttyinit dv s =
    (let (isem, k1) = semcreate 0 (xk s);
         (osem, k2) = semcreate TY_OBUFLEN k1;
         e = (ttytab s dv)\<lparr>tyihead := 0, tyitail := 0, tyisem := isem, tyohead := 0, tyotail := 0, tyosem := osem,
               tyehead := 0, tyetail := 0, tyimode := CHR ''C'', tyiecho := True, tyieback := True, tyevis := True,
               tyecrlf := True, tyicrlf := True, tyierase := True, tyierasec := 8, tyeof := True, tyeofch := 4,
               tyikill := True, tyikillc := 21, tyicursor := 0, tyoflow := True, tyoheld := False, tyostop := 19,
               tyostart := 17, tyocrlf := True, tyifullc := 7\<rparr>
     in Some (OK, (set_xk k2 s)\<lparr>ttytab := (ttytab s)(dv := e)\<rparr>))"

definition NM_PRELEN :: nat where "NM_PRELEN = 64"
definition NM_REPLLEN :: nat where "NM_REPLLEN = 96"
definition NNAMES :: int where "NNAMES = 40"

definition namlen :: "string \<Rightarrow> nat \<Rightarrow> int" where
  "namlen name maxlen = (if length name < maxlen then int (length name) + 1 else SYSERR)"

definition mount :: "string \<Rightarrow> string \<Rightarrow> did32 \<Rightarrow> namespace \<Rightarrow> int \<times> namespace" where
  "mount pre rep device s =
    (let psiz = namlen pre NM_PRELEN; rsiz = namlen rep NM_REPLLEN in
     if psiz = SYSERR \<or> rsiz = SYSERR \<or> Devices.isbaddev device \<or> nnames s \<ge> NNAMES then (SYSERR, s)
     else (OK, s\<lparr>nametab := (nametab s)(nnames s := \<lparr>nprefix = pre, nreplace = rep, ndevice = device\<rparr>), nnames := nnames s + 1\<rparr>))"

definition lower_case :: "char \<Rightarrow> char" where
  "lower_case ch =
    (let c = (of_char ch :: nat) in
     if of_char CHR ''A'' \<le> c \<and> c \<le> of_char CHR ''Z'' then char_of (c + 32) else ch)"

text \<open>The names and numbers of the devices, as \<^verbatim>\<open>Configuration\<close> declares them and \<^verbatim>\<open>conf.h\<close> lists them.\<close>

definition dev_names :: "string list" where
  "dev_names = [''CONSOLE'', ''NULLDEV'', ''NAMESPACE'', ''RAM0'', ''LFILESYS'', ''LFILE0'', ''LFILE1'', ''LFILE2'', ''LFILE3'',
     ''LFILE4'', ''LFILE5'', ''SERIAL0'', ''LOOP0'']"

definition naminit :: "xinu \<Rightarrow> (int \<times> xinu) option" where
  "naminit s =
    (let n1 = (xnames s)\<lparr>nnames := 0\<rparr>;
         n2 = fold (\<lambda>i n. snd (mount (''/dev/'' @ map lower_case (dev_names ! nat i)) '''' i n)) [0..Devices.NDEVS - 1] n1;
         n3 = fold (\<lambda>(pre, rep, dv) n. snd (mount pre rep dv n))
           [(''/dev/null'', '''', 1), (''/remote/'', ''remote:'', SYSERR), (''/local/'', '''', 4), (''/dev/'', '''', SYSERR),
            (''~/'', '''', 4), (''/'', ''root:'', SYSERR), ('''', '''', 4)] n2
     in Some (OK, s\<lparr>xnames := n3\<rparr>))"

definition raminit :: "xinu \<Rightarrow> (int \<times> xinu) option" where
  "raminit s = Some (OK, s\<lparr>Ram := snd (memcpy (put (Ram s) 0 (map of_char ''hopeless'')) 8 0 (RM_BYTES - 8))\<rparr>)"

definition lfsinit :: "xinu \<Rightarrow> (int \<times> xinu) option" where
  "lfsinit s =
    (let (sem, k) = semcreate 1 (xk s)
     in Some (OK, (set_xk k s)\<lparr>Lf_data := \<lparr>lf_dskdev = 3, lf_mutex = sem, lf_dir = replicate 512 0, lf_dirpresent = False, lf_dirdirty = False\<rparr>\<rparr>))"

definition lflinit :: "int \<Rightarrow> did32 \<Rightarrow> xinu \<Rightarrow> (int \<times> xinu) option" where
  "lflinit dv num s =
    (let (sem, k) = semcreate 1 (xk s);
         e = (lfltab s dv)\<lparr>lfstate := 0, lfdev := num, lfmutex := sem, lfdirptr := 0, lfpos := 0, lfname := replicate 16 0, lfinum := - 1,
               lfiblock := replicate 72 0, lfdnum := 0, lfdblock := replicate LF_BLKSIZ 0, lfbyte := LF_BLKSIZ,
               lfibdirty := False, lfdbdirty := False\<rparr>
     in Some (OK, (set_xk k s)\<lparr>lfltab := (lfltab s)(dv := e)\<rparr>))"

text \<open>\<^verbatim>\<open>uartHwInit\<close> of \<^verbatim>\<open>device/uart-pl011\<close> programs the registers and returns \<^verbatim>\<open>OK\<close>.\<close>

definition uartHwInit :: int where "uartHwInit = OK"

definition uartInit :: "int \<Rightarrow> did32 \<Rightarrow> uint32 \<Rightarrow> xinu \<Rightarrow> (int \<times> xinu) option" where
  "uartInit dv dev csr s =
    (let upd = (\<lambda>f t. t\<lparr>uarttab := (uarttab t)(dv := f (uarttab t dv))\<rparr>);
         (isem, k1) = semcreate 0 (xk s);
         s1 = upd (\<lambda>e. e\<lparr>u_cout := 0, u_cin := 0, u_lserr := 0, u_ovrrn := 0, u_iirq := 0, u_oirq := 0,
                u_isema := isem, u_iflags := 2 OR 8, u_istart := 0, u_icount := 0\<rparr>) (set_xk k1 s)
     in if isbadsem isem then Some (SYSERR, s1)
        else
          let (osem, k2) = semcreate UART_OBLEN (xk s1);
              s2 = upd (\<lambda>e. e\<lparr>u_osema := osem, u_oflags := 0, u_ostart := 0, u_ocount := 0, u_oidle := True\<rparr>) (set_xk k2 s1)
          in if isbadsem osem then do { (_, k3) \<leftarrow> semdelete isem (xk s2); Some (SYSERR, set_xk k3 s2) }
             else if OK \<noteq> uartHwInit then do {
               (_, k3) \<leftarrow> semdelete isem (xk s2);
               (_, k4) \<leftarrow> semdelete osem k3;
               Some (SYSERR, set_xk k4 s2)
             }
             else Some (OK, upd (\<lambda>e. e\<lparr>u_dev := dev, u_csr := csr\<rparr>) s2))"

definition loop_init :: "int \<Rightarrow> xinu \<Rightarrow> (int \<times> xinu) option" where
  "loop_init dv s =
    (let (r, l) = loopbackInit dv \<lparr>lk = xk s, looptab = xlooptab s, lmem = Ram s\<rparr>
     in Some (r, (set_xk (lk l) s)\<lparr>xlooptab := looptab l\<rparr>))"

section \<open>The loop over the devices\<close>

text \<open>
  The entry \<^verbatim>\<open>-i\<close> of each device of \<^verbatim>\<open>Configuration.arm-qemu\<close>; the six local files have the minor numbers 0 to 5, every
  other device is the only one of its type.
\<close>

definition conf_init :: "did32 \<Rightarrow> did32 \<Rightarrow> xinu \<Rightarrow> (int \<times> xinu) option" where
  "conf_init i d =
    (if i = 0 then ttyinit 0
     else if i = 1 then Devices.ionull
     else if i = 2 then naminit
     else if i = 3 then raminit
     else if i = 4 then lfsinit
     else if i \<le> 10 then lflinit (i - 5) d
     else if i = 11 then uartInit 0 d 0x101F1000
     else loop_init 0)"

definition configured :: "xinu devices \<Rightarrow> bool" where
  "configured devtab \<longleftrightarrow> (\<forall>i\<in>{0..<Devices.NDEVS}. dvinit (devtab i) = conf_init i)"

fun init_loop :: "xinu devices \<Rightarrow> did32 list \<Rightarrow> xinu \<Rightarrow> xinu option" where
  "init_loop devtab [] s = Some s"
| "init_loop devtab (i # is) s = do { (_, t) \<leftarrow> init devtab i s; init_loop devtab is t }"

definition sysinit :: "xinu devices \<Rightarrow> uint32 \<Rightarrow> uint32 \<Rightarrow> xinu \<Rightarrow> xinu option" where
  "sysinit devtab lo hi s =
    do {
      k \<leftarrow> sysinit_tables lo hi (xk s);
      let (_, b) = bufinit ((xbuf s)\<lparr>bk := k\<rparr>);
      let b1 = b\<lparr>bk := sysinit_queues (bk b)\<rparr>;
      init_loop devtab [0..Devices.NDEVS - 1] (s\<lparr>xbuf := b1\<rparr>)
    }"

section \<open>The semaphores taken so far\<close>

text \<open>
  \<open>booted ids cs bs k\<close>: a kernel with no process but the null process, every queue empty, the free blocks \<open>bs\<close>, and
  exactly the semaphores \<open>ids\<close> in use, with the counts \<open>cs\<close>.
\<close>

definition booted :: "sid32 list \<Rightarrow> int list \<Rightarrow> blocks \<Rightarrow> kstate \<Rightarrow> bool" where
  "booted ids cs bs k \<longleftrightarrow>
    kinv k \<and> nextsem k \<in> sems \<and> heap_ok (kmem k) bs \<and> (\<forall>q. qview k q = []) \<and> currpid k = NULLPROC \<and>
    (\<forall>p\<in>pids. pst k p = (if p = NULLPROC then PR_CURR else PR_FREE)) \<and>
    distinct ids \<and> set ids \<subseteq> sems \<and> map (\<lambda>i. scount (semtab k i)) ids = cs \<and>
    (\<forall>i\<in>sems. sstate (semtab k i) = (if i \<in> set ids then S_USED else S_FREE))"

lemma semcreate_booted:
  assumes b: "booted ids cs bs k" and n: "0 \<le> n" and l: "length ids < 100"
  shows "\<exists>r t. semcreate n k = (r, t) \<and> booted (ids @ [r]) (cs @ [n]) bs t \<and> \<not> isbadsem r"
proof -
  have B: "kinv k" "nextsem k \<in> sems" "heap_ok (kmem k) bs" "\<And>q. qview k q = []" "currpid k = NULLPROC"
    "\<And>p. p \<in> pids \<Longrightarrow> pst k p = (if p = NULLPROC then PR_CURR else PR_FREE)"
    "distinct ids" "set ids \<subseteq> sems" "map (\<lambda>i. scount (semtab k i)) ids = cs"
    "\<And>i. i \<in> sems \<Longrightarrow> sstate (semtab k i) = (if i \<in> set ids then S_USED else S_FREE)"
    using b unfolding booted_def by blast+
  obtain r t where e: "semcreate n k = (r, t)" by (cases "semcreate n k")
  have "\<not> sems \<subseteq> set ids"
  proof
    assume "sems \<subseteq> set ids"
    then have "card sems \<le> length ids" using card_mono [of "set ids" sems] card_length [of ids] by simp
    then show False using l by (simp add: size_defs)
  qed
  then obtain i where "i \<in> sems" "i \<notin> set ids" by blast
  then have "i \<in> sems" "sstate (semtab k i) = S_FREE" using B(10) by simp_all
  then have C: "kinv t" "nextsem t \<in> sems" "qview t = qview k" "r \<in> sems" "sstate (semtab k r) = S_FREE" "sem_frame r k t"
      "semtab t r = \<lparr>sstate = S_USED, scount = n, squeue = semq k r\<rparr>" "proctab t = proctab k" "currpid t = currpid k"
    using semcreate_ok [OF B(1,2) n] e by auto
  have r: "r \<notin> set ids" using C(4,5) B(10) by auto
  have o: "semtab t j = semtab k j" if "j \<noteq> r" for j using C(6) that by (simp add: sem_frame_def)
  have m: "map (\<lambda>i. scount (semtab t i)) ids = cs" using B(9) o r by (metis (mono_tags, lifting) map_eq_conv)
  have "sstate (semtab t j) = (if j \<in> set (ids @ [r]) then S_USED else S_FREE)" if "j \<in> sems" for j
    using B(10) [OF that] o [of j] C(7) by (cases "j = r") simp_all
  then have st: "\<forall>j\<in>sems. sstate (semtab t j) = (if j \<in> set (ids @ [r]) then S_USED else S_FREE)" by blast
  have "kmem t = kmem k" using C(6) by (simp add: sem_frame_def)
  then have "booted (ids @ [r]) (cs @ [n]) bs t"
    unfolding booted_def using B(3-8) C(1-4,7-9) r m st by simp
  moreover have "\<not> isbadsem r" using C(4) not_badsem [of r] by simp
  ultimately show ?thesis using e by blast
qed

section \<open>What each initializer does to the kernel\<close>

text \<open>The semaphores of the devices, in the order in which the initializers ask for them, and their counts.\<close>

definition dev_sems :: "xinu \<Rightarrow> sid32 list" where
  "dev_sems s =
    [tyisem (ttytab s 0), tyosem (ttytab s 0), lf_mutex (Lf_data s), lfmutex (lfltab s 0), lfmutex (lfltab s 1), lfmutex (lfltab s 2),
     lfmutex (lfltab s 3), lfmutex (lfltab s 4), lfmutex (lfltab s 5), u_isema (uarttab s 0), u_osema (uarttab s 0)]"

definition dev_counts :: "int list" where
  "dev_counts = [0, TY_OBUFLEN, 1, 1, 1, 1, 1, 1, 1, 0, UART_OBLEN]"

definition stage :: "nat \<Rightarrow> blocks \<Rightarrow> xinu \<Rightarrow> bool" where
  "stage n bs s \<longleftrightarrow> booted (take n (dev_sems s)) (take n dev_counts) bs (xk s) \<and> nbpools (xbuf s) = 0"

lemmas stage_simps = stage_def dev_sems_def dev_counts_def TY_OBUFLEN_def UART_OBLEN_def

lemma ttyinit_stage:
  assumes "stage 0 bs s"
  shows "\<exists>t. ttyinit 0 s = Some (OK, t) \<and> stage 2 bs t"
proof -
  have b: "booted [] [] bs (xk s)" "nbpools (xbuf s) = 0" using assms by (simp_all add: stage_def)
  obtain i k1 where I: "semcreate 0 (xk s) = (i, k1)" "booted [i] [0] bs k1"
    using semcreate_booted [OF b(1), of 0] by auto
  obtain j k2 where J: "semcreate 64 k1 = (j, k2)" "booted [i, j] [0, 64] bs k2"
    using semcreate_booted [OF I(2), of 64] by auto
  show ?thesis using I(1) J b(2) by (simp add: ttyinit_def stage_simps numeral_2_eq_2)
qed

lemma lfsinit_stage:
  assumes "stage 2 bs s"
  shows "\<exists>t. lfsinit s = Some (OK, t) \<and> stage 3 bs t"
proof -
  let ?ids = "[tyisem (ttytab s 0), tyosem (ttytab s 0)]"
  have b: "booted ?ids [0, 64] bs (xk s)" "nbpools (xbuf s) = 0" using assms by (simp_all add: stage_simps numeral_eq_Suc)
  obtain i k1 where I: "semcreate 1 (xk s) = (i, k1)" "booted (?ids @ [i]) ([0, 64] @ [1]) bs k1"
    using semcreate_booted [OF b(1), of 1] by auto
  show ?thesis using I b(2) by (simp add: lfsinit_def stage_simps numeral_eq_Suc)
qed

lemma lflinit_stage:
  assumes s: "stage (3 + j) bs s" and j: "j < 6"
  shows "\<exists>t. lflinit (int j) d s = Some (OK, t) \<and> stage (4 + j) bs t"
proof -
  let ?ids = "take (3 + j) (dev_sems s)" and ?cs = "take (3 + j) dev_counts"
  have b: "booted ?ids ?cs bs (xk s)" "nbpools (xbuf s) = 0" using s by (simp_all add: stage_def)
  obtain i k1 where I: "semcreate 1 (xk s) = (i, k1)" "booted (?ids @ [i]) (?cs @ [1]) bs k1"
    using semcreate_booted [OF b(1), of 1] j by (auto simp: dev_sems_def)
  consider "j = 0" | "j = 1" | "j = 2" | "j = 3" | "j = 4" | "j = 5" using j by linarith
  then show ?thesis
    by cases (use I b(2) in \<open>simp_all add: lflinit_def stage_simps numeral_eq_Suc\<close>)
qed

lemma uartInit_stage:
  assumes "stage 9 bs s"
  shows "\<exists>t. uartInit 0 d csr s = Some (OK, t) \<and> stage 11 bs t"
proof -
  let ?ids = "take 9 (dev_sems s)" and ?cs = "take 9 dev_counts"
  have b: "booted ?ids ?cs bs (xk s)" "nbpools (xbuf s) = 0" using assms by (simp_all add: stage_def)
  obtain i k1 where I: "semcreate 0 (xk s) = (i, k1)" "booted (?ids @ [i]) (?cs @ [0]) bs k1" "\<not> isbadsem i"
    using semcreate_booted [OF b(1), of 0] by (auto simp: dev_sems_def)
  obtain j k2 where J: "semcreate UART_OBLEN k1 = (j, k2)" "booted ((?ids @ [i]) @ [j]) ((?cs @ [0]) @ [UART_OBLEN]) bs k2" "\<not> isbadsem j"
    using semcreate_booted [OF I(2), of UART_OBLEN] by (auto simp: dev_sems_def UART_OBLEN_def)
  show ?thesis using I(1,3) J b(2) by (simp add: uartInit_def uartHwInit_def Let_def stage_def dev_sems_def dev_counts_def numeral_eq_Suc)
qed

text \<open>The other initializers do not touch the kernel.\<close>

lemma quiet_inits_stage:
  "stage n bs s \<Longrightarrow> \<exists>t. naminit s = Some (OK, t) \<and> stage n bs t"
  "stage n bs s \<Longrightarrow> \<exists>t. raminit s = Some (OK, t) \<and> stage n bs t"
  "stage n bs s \<Longrightarrow> \<exists>t. loop_init 0 s = Some (OK, t) \<and> stage n bs t"
  by (simp_all add: naminit_def raminit_def loop_init_def loopbackInit_def stage_def dev_sems_def Let_def)

lemma init_conf:
  assumes "configured devtab" and "0 \<le> i" "i < 13"
  shows "init devtab i s = conf_init i i s"
  using assms by (simp add: configured_def init_def Devices.isbaddev_def Devices.NDEVS_def)

lemma init_loop_stage:
  assumes c: "configured devtab" and s: "stage 0 bs s"
  shows "\<exists>t. init_loop devtab [0..Devices.NDEVS - 1] s = Some t \<and> stage 11 bs t"
proof -
  note L = init_conf [OF c]
  have fl: "\<exists>t. init devtab (int j + 5) u = Some (OK, t) \<and> stage (4 + j) bs t" if "stage (3 + j) bs u" "j < 6" for j u
    using lflinit_stage [OF that, of "int j + 5"] L [of "int j + 5" u] that(2) by (auto simp: conf_init_def)
  obtain s0 where s0: "init devtab 0 s = Some (OK, s0)" "stage 2 bs s0"
    using ttyinit_stage [OF s] L [of 0 s] by (auto simp: conf_init_def)
  have s1: "init devtab 1 s0 = Some (OK, s0)" using L [of 1 s0] by (simp add: conf_init_def Devices.ionull_def)
  obtain s2 where s2: "init devtab 2 s0 = Some (OK, s2)" "stage 2 bs s2"
    using quiet_inits_stage(1) [OF s0(2)] L [of 2 s0] by (auto simp: conf_init_def)
  obtain s3 where s3: "init devtab 3 s2 = Some (OK, s3)" "stage 2 bs s3"
    using quiet_inits_stage(2) [OF s2(2)] L [of 3 s2] by (auto simp: conf_init_def)
  obtain s4 where s4: "init devtab 4 s3 = Some (OK, s4)" "stage 3 bs s4"
    using lfsinit_stage [OF s3(2)] L [of 4 s3] by (auto simp: conf_init_def)
  obtain s5 where s5: "init devtab 5 s4 = Some (OK, s5)" "stage 4 bs s5" using fl [of 0 s4] s4(2) by auto
  obtain s6 where s6: "init devtab 6 s5 = Some (OK, s6)" "stage 5 bs s6" using fl [of 1 s5] s5(2) by auto
  obtain s7 where s7: "init devtab 7 s6 = Some (OK, s7)" "stage 6 bs s7" using fl [of 2 s6] s6(2) by auto
  obtain s8 where s8: "init devtab 8 s7 = Some (OK, s8)" "stage 7 bs s8" using fl [of 3 s7] s7(2) by auto
  obtain s9 where s9: "init devtab 9 s8 = Some (OK, s9)" "stage 8 bs s9" using fl [of 4 s8] s8(2) by auto
  obtain sa where sa: "init devtab 10 s9 = Some (OK, sa)" "stage 9 bs sa" using fl [of 5 s9] s9(2) by auto
  obtain sb where sb: "init devtab 11 sa = Some (OK, sb)" "stage 11 bs sb"
    using uartInit_stage [OF sa(2)] L [of 11 sa] by (fastforce simp: conf_init_def)
  obtain sc where sc: "init devtab 12 sb = Some (OK, sc)" "stage 11 bs sc"
    using quiet_inits_stage(3) [OF sb(2)] L [of 12 sb] by (auto simp: conf_init_def)
  have "[0..Devices.NDEVS - 1] = [0, 1, 2, 3, 4, 5, 6, 7, 8, 9, 10, 11, 12]" by (simp add: Devices.NDEVS_def upto_rec1)
  then show ?thesis using s0 s1 s2 s3 s4 s5 s6 s7 s8 s9 sa sb sc by simp
qed

section \<open>The property\<close>

text \<open>
  C8. \<^verbatim>\<open>sysinit\<close> as a whole, with \<^verbatim>\<open>bufinit\<close> and the initializers of all devices, run on the loaded image over a heap \<open>lo\<close> to \<open>hi\<close> and a
  device table whose initializers are those of \<^verbatim>\<open>Configuration.arm-qemu\<close>: it always finishes, in a state where the kernel's
  invariant holds, the heap is a sound free list, every queue is empty, the null process is the current and only process, there is no buffer
  pool, and the semaphores in use are eleven different ones, those of the devices: for the console (counts 0 and 64), the file system (1), the six
  local files (1 each) and the serial line (0 and 1024).
\<close>

theorem sysinit_establishes_kinv:
  assumes "configured devtab" and "nextqid (xk s) = NPROC" and "nextsem (xk s) \<in> sems" and "0 < lo" and "lo < hi" and "8 dvd unat (hi - lo)"
  shows "\<exists>t bs. sysinit devtab lo hi s = Some t \<and> kinv (xk t) \<and> heap_ok (kmem (xk t)) bs \<and> (\<forall>q. qview (xk t) q = []) \<and>
    currpid (xk t) = NULLPROC \<and> (\<forall>p\<in>pids. p \<noteq> NULLPROC \<longrightarrow> isbadpid (xk t) p) \<and> nbpools (xbuf t) = 0 \<and>
    distinct (dev_sems t) \<and> map (\<lambda>i. scount (semtab (xk t) i)) (dev_sems t) = [0, 64, 1, 1, 1, 1, 1, 1, 1, 0, 1024] \<and>
    (\<forall>i\<in>sems. sstate (semtab (xk t) i) = (if i \<in> set (dev_sems t) then S_USED else S_FREE))"
proof -
  obtain k bs where K: "kernel_start lo hi (xk s) = Some k" "kinv k" "\<And>q. qview k q = []" "heap_ok (kmem k) bs"
    "\<And>p. p \<in> pids \<Longrightarrow> pst k p = (if p = NULLPROC then PR_CURR else PR_FREE)" "currpid k = NULLPROC"
    "\<And>i. i \<in> sems \<Longrightarrow> semtab k i = \<lparr>sstate = S_FREE, scount = 0, squeue = NPROC + 2 * i\<rparr>" "nextsem k = nextsem (xk s)"
    by (rule kernel_start_ok [OF assms(2,4-6)]) (rule that; assumption)
  obtain k0 where k0: "sysinit_tables lo hi (xk s) = Some k0" "k = sysinit_queues k0" using K(1) by (auto simp: kernel_start_def)
  let ?s = "s\<lparr>xbuf := (xbuf s)\<lparr>nbpools := 0, bk := k\<rparr>\<rparr>"
  have "booted [] [] bs k" unfolding booted_def using K(2-8) assms(3) by simp
  then have "stage 0 bs ?s" by (simp add: stage_def)
  then obtain t where T: "init_loop devtab [0..Devices.NDEVS - 1] ?s = Some t" "stage 11 bs t"
    using init_loop_stage [OF assms(1)] by blast
  have r: "sysinit devtab lo hi s = Some t" using k0 T(1) by (simp add: sysinit_def bufinit_def)
  have d: "take 11 (dev_sems t) = dev_sems t" "take 11 dev_counts = dev_counts" by (simp_all add: dev_sems_def dev_counts_def)
  have B: "kinv (xk t)" "heap_ok (kmem (xk t)) bs" "\<forall>q. qview (xk t) q = []" "currpid (xk t) = NULLPROC"
    "\<forall>p\<in>pids. pst (xk t) p = (if p = NULLPROC then PR_CURR else PR_FREE)" "distinct (dev_sems t)"
    "map (\<lambda>i. scount (semtab (xk t) i)) (dev_sems t) = dev_counts"
    "\<forall>i\<in>sems. sstate (semtab (xk t) i) = (if i \<in> set (dev_sems t) then S_USED else S_FREE)" "nbpools (xbuf t) = 0"
    using T(2) unfolding stage_def booted_def d by blast+
  have "\<forall>p\<in>pids. p \<noteq> NULLPROC \<longrightarrow> isbadpid (xk t) p" using B(5) by (simp add: pids_notbad)
  then show ?thesis using r B by (auto simp: dev_counts_def TY_OBUFLEN_def UART_OBLEN_def)
qed

text \<open>The loaded image, its tables all zero, and a device table as the configuration gives it.\<close>

definition xload :: xinu where
  "xload = \<lparr>xbuf = \<lparr>bk = kload, buftab = (\<lambda>_. \<lparr>bpnext = 0, bpsem = 0, bpsize = 0\<rparr>), nbpools = 0, bword = (\<lambda>_. 0)\<rparr>,
     ttytab = (\<lambda>_. \<lparr>tyihead = 0, tyitail = 0, tyisem = 0, tyohead = 0, tyotail = 0, tyosem = 0, tyehead = 0, tyetail = 0,
       tyimode = CHR 0x00, tyiecho = False, tyieback = False, tyevis = False, tyecrlf = False, tyicrlf = False, tyierase = False,
       tyierasec = 0, tyeof = False, tyeofch = 0, tyikill = False, tyikillc = 0, tyicursor = 0, tyoflow = False, tyoheld = False,
       tyostop = 0, tyostart = 0, tyocrlf = False, tyifullc = 0\<rparr>),
     Lf_data = \<lparr>lf_dskdev = 0, lf_mutex = 0, lf_dir = [], lf_dirpresent = False, lf_dirdirty = False\<rparr>,
     lfltab = (\<lambda>_. \<lparr>lfstate = 0, lfdev = 0, lfmutex = 0, lfdirptr = 0, lfmode = 0, lfpos = 0, lfname = [], lfinum = 0, lfiblock = [], lfdnum = 0,
       lfdblock = [], lfbyte = 0, lfibdirty = False, lfdbdirty = False\<rparr>),
     uarttab = (\<lambda>_. \<lparr>u_csr = 0, u_dev = 0, u_cout = 0, u_cin = 0, u_lserr = 0, u_ovrrn = 0, u_iirq = 0, u_oirq = 0, u_iflags = 0,
       u_isema = 0, u_istart = 0, u_icount = 0, u_oflags = 0, u_osema = 0, u_ostart = 0, u_ocount = 0, u_oidle = False\<rparr>),
     xlooptab = (\<lambda>_. \<lparr>lb_state = 0, lb_index = 0, lb_flags = 0, lb_sem = 0, lb_buffer = []\<rparr>),
     xnames = \<lparr>nametab = (\<lambda>_. \<lparr>nprefix = [], nreplace = [], ndevice = 0\<rparr>), nnames = 0\<rparr>, Ram = (\<lambda>_. 0)\<rparr>"

definition conf_table :: "xinu devices" where
  "conf_table i = \<lparr>dvnum = i, dvminor = (if 5 \<le> i \<and> i \<le> 10 then i - 5 else 0), dvname = 0, dvinit = conf_init i,
     dvopen = (\<lambda>_ _ _. ioerr), dvclose = (\<lambda>_. ioerr), dvread = (\<lambda>_ _ _. ioerr), dvwrite = (\<lambda>_ _ _. ioerr), dvseek = (\<lambda>_ _. ioerr),
     dvgetc = (\<lambda>_. ioerr), dvputc = (\<lambda>_ _. ioerr), dvcntl = (\<lambda>_ _ _ _. ioerr)\<rparr>"

theorem sysinit_establishes_kinv_witness:
  "\<exists>t. sysinit conf_table 0x10000 0x100000 xload = Some t \<and> kinv (xk t) \<and> distinct (dev_sems t)"
proof -
  have "configured conf_table" by (simp add: configured_def conf_table_def)
  moreover have "nextqid (xk xload) = NPROC" "nextsem (xk xload) \<in> sems" by (simp_all add: xload_def kload_def size_defs)
  ultimately show ?thesis using sysinit_establishes_kinv [of conf_table xload "0x10000" "0x100000"] by auto
qed

end
