(* ===== verification/Xmalloc.thy ===== *)
theory Xmalloc
  imports Buffer_Pool
begin

text \<open>
  The size-class allocator of \<^verbatim>\<open>system/xmalloc.c\<close>, \<^verbatim>\<open>include/xmalloc.h\<close>: ten buffer pools whose sizes
  double, a binary search for the smallest that fits, and statistics per pool. The size that was asked for
  is kept in the last word of the buffer. \<^verbatim>\<open>getbuf\<close> and \<^verbatim>\<open>freebuf\<close> may lose the processor; what
  follows them is \<open>xmalloc_cont\<close> and \<open>xfree_cont\<close>. The messages printed on errors are not modelled.
\<close>

section \<open>State and operations\<close>

record xsys =
  xb :: bufsys
  poolnum :: int
  bufsize :: "int \<Rightarrow> int"
  bufnumb :: "int \<Rightarrow> int"
  allocBy :: "int \<Rightarrow> int"
  allocBf :: "int \<Rightarrow> int"
  fragmBy :: "int \<Rightarrow> int"

text \<open>The first loop of \<^verbatim>\<open>xmalloc_init\<close>, with \<open>n\<close> turns left: sizes and numbers of the buffers.\<close>

primrec xinit_sizes :: "nat \<Rightarrow> int \<Rightarrow> xsys \<Rightarrow> xsys" where
  "xinit_sizes 0 poolid s = s"
| "xinit_sizes (Suc n) poolid s =
    (let s1 = s\<lparr>bufsize := (bufsize s)(poolid := push_bit (nat poolid) 16 - 4)\<rparr>;
         nb = (if bufsize s1 poolid \<le> 128 then 2048 else if bufsize s1 poolid \<le> 2048 then 2048 else 2);
         s2 = s1\<lparr>bufnumb := (bufnumb s1)(poolid := nb)\<rparr>
     in xinit_sizes n (poolid + 1) (s2\<lparr>allocBy := (allocBy s2)(poolid := 0), allocBf := (allocBf s2)(poolid := 0)\<rparr>))"

text \<open>The second loop: the pools. It gives up at the first that cannot be made.\<close>

primrec xinit_pools :: "nat \<Rightarrow> int \<Rightarrow> xsys \<Rightarrow> xsys option" where
  "xinit_pools 0 poolid s = Some s"
| "xinit_pools (Suc n) poolid s = do {
     let bufsiz = bufsize s poolid + 4;
     (pid, b) \<leftarrow> mkbufpool bufsiz (bufnumb s poolid) (xb s);
     if pid = SYSERR then Some (s\<lparr>xb := b\<rparr>) else xinit_pools n (poolid + 1) (s\<lparr>xb := b\<rparr>) }"

definition xmalloc_init :: "xsys \<Rightarrow> xsys option" where
  "xmalloc_init s =
    (let (st, b) = bufinit (xb s); s1 = s\<lparr>xb := b\<rparr> in
     if st = SYSERR then Some s1
     else
       let s2 = s1\<lparr>poolnum := 10\<rparr>;
           s3 = xinit_sizes (nat (poolnum s2)) 0 s2
       in xinit_pools (nat (poolnum s3)) 0 s3)"

function closest_loop :: "(int \<Rightarrow> int) \<Rightarrow> int \<Rightarrow> int \<Rightarrow> int \<Rightarrow> int \<times> int" where
  "closest_loop sizes siz start stop =
    (if start + 1 < stop then
       let mid = start + (stop - start) div 2 in
       if sizes mid < siz then closest_loop sizes siz mid stop else closest_loop sizes siz start mid
     else (start, stop))"
  by pat_completeness auto
termination by (relation "measure (\<lambda>(_, _, start, stop). nat (stop - start))") auto

declare closest_loop.simps [simp del]

definition findClosestIndex :: "int \<Rightarrow> xsys \<Rightarrow> int" where
  "findClosestIndex siz s =
    (if siz \<le> 0 \<or> siz > bufsize s (nbpools (xb s) - 1) then SYSERR
     else if siz \<le> bufsize s 0 then 0
     else
       let (start, stop) = closest_loop (bufsize s) siz 0 (nbpools (xb s) - 1) in
       if bufsize s start \<ge> siz then start
       else if bufsize s stop \<ge> siz then stop
       else SYSERR)"

abbreviation upd_frag :: "int \<Rightarrow> xsys \<Rightarrow> xsys" where
  "upd_frag p s \<equiv> s\<lparr>fragmBy := (fragmBy s)(p := bufsize s p * allocBf s p - allocBy s p)\<rparr>"

definition xmalloc_cont :: "int \<Rightarrow> int \<Rightarrow> uint32 \<Rightarrow> xsys \<Rightarrow> uint32 \<times> xsys" where
  "xmalloc_cont poolid siz bufptr s =
    (if bufptr = SYSERR_PTR then (0, s)
     else
       let addr = bufptr + bpsize (buftab (xb s) poolid) - 4;
           s1 = s\<lparr>xb := upd_bword addr (word_of_int siz) (xb s)\<rparr>;
           s2 = s1\<lparr>allocBy := (allocBy s1)(poolid := allocBy s1 poolid + siz)\<rparr>;
           s3 = s2\<lparr>allocBf := (allocBf s2)(poolid := allocBf s2 poolid + 1)\<rparr>
       in (bufptr, upd_frag poolid s3))"

definition xmalloc :: "int \<Rightarrow> xsys \<Rightarrow> (uint32 call \<times> xsys) option" where
  "xmalloc siz s =
    (if siz \<le> 0 \<or> siz > bufsize s (nbpools (xb s) - 1) then Some (Ret 0, s)
     else
       let poolid = findClosestIndex siz s in
       if poolid = SYSERR then Some (Ret 0, s)
       else if bpnext (buftab (xb s) poolid) = 0 then Some (Ret 0, s)
       else do {
         (r, b) \<leftarrow> getbuf poolid (xb s);
         case r of
           Blocked \<Rightarrow> Some (Blocked, s\<lparr>xb := b\<rparr>)
         | Ret bufptr \<Rightarrow> let (a, t) = xmalloc_cont poolid siz bufptr (s\<lparr>xb := b\<rparr>) in Some (Ret a, t) })"

definition xfree_cont :: "int \<Rightarrow> int \<Rightarrow> int \<Rightarrow> xsys \<Rightarrow> xsys" where
  "xfree_cont poolid siz st s =
    (if st = SYSERR then s
     else
       let s1 = s\<lparr>allocBy := (allocBy s)(poolid := allocBy s poolid - siz)\<rparr>;
           s2 = s1\<lparr>allocBf := (allocBf s1)(poolid := allocBf s1 poolid - 1)\<rparr>
       in upd_frag poolid s2)"

definition xfree :: "uint32 \<Rightarrow> xsys \<Rightarrow> (unit call \<times> xsys) option" where
  "xfree bufaddr s =
    (if bufaddr = 0 then Some (Ret (), s)
     else
       let addr = bufaddr - 4;
           poolid = sint (bword (xb s) addr)
       in if poolid < 0 \<or> poolid \<ge> nbpools (xb s) then Some (Ret (), s)
          else
            let addr' = addr + (4 + bpsize (buftab (xb s) poolid) - 4);
                siz = sint (bword (xb s) addr')
            in do {
              (st, b) \<leftarrow> freebuf bufaddr (xb s);
              if currpid (bk b) \<noteq> currpid (bk (xb s)) then Some (Blocked, s\<lparr>xb := b\<rparr>)
              else Some (Ret (), xfree_cont poolid siz st (s\<lparr>xb := b\<rparr>)) })"

section \<open>The search\<close>

text \<open>\<open>a[lo]\<close> to \<open>a[hi]\<close> ascend.\<close>

definition ascending :: "(int \<Rightarrow> int) \<Rightarrow> int \<Rightarrow> int \<Rightarrow> bool" where
  "ascending a lo hi \<longleftrightarrow> (\<forall>i j. lo \<le> i \<longrightarrow> i \<le> j \<longrightarrow> j \<le> hi \<longrightarrow> a i \<le> a j)"

lemma closest_loop_inv:
  "closest_loop a siz lo hi = (i, j) \<Longrightarrow> lo < hi \<Longrightarrow> a lo < siz \<Longrightarrow> siz \<le> a hi \<Longrightarrow>
   lo \<le> i \<and> j = i + 1 \<and> j \<le> hi \<and> a i < siz \<and> siz \<le> a j"
proof (induction a siz lo hi rule: closest_loop.induct)
  case (1 a siz lo hi)
  let ?mid = "lo + (hi - lo) div 2"
  show ?case
  proof (cases "lo + 1 < hi")
    case True
    have m: "lo < ?mid" "?mid < hi" using True by linarith+
    show ?thesis
    proof (cases "a ?mid < siz")
      case c: True
      then have "closest_loop a siz ?mid hi = (i, j)" using 1(3) True by (simp add: Let_def closest_loop.simps [of a siz lo hi])
      then show ?thesis using 1(1) [OF True refl c] m 1(6) c by auto
    next
      case c: False
      then have "closest_loop a siz lo ?mid = (i, j)" using 1(3) True by (simp add: Let_def closest_loop.simps [of a siz lo hi])
      then show ?thesis using 1(2) [OF True refl c] m 1(5) c by auto
    qed
  next
    case False
    then have "i = lo" "j = hi" using 1(3) by (simp_all add: closest_loop.simps [of a siz lo hi])
    then show ?thesis using False 1(4-) by simp
  qed
qed

lemma findClosestIndex_props:
  assumes "ascending (bufsize s) 0 (nbpools (xb s) - 1)" and "0 < nbpools (xb s)"
    and "0 < siz" and "siz \<le> bufsize s (nbpools (xb s) - 1)"
  defines "r \<equiv> findClosestIndex siz s"
  shows "0 \<le> r" "r < nbpools (xb s)" "siz \<le> bufsize s r" "\<And>i. 0 \<le> i \<Longrightarrow> i < r \<Longrightarrow> bufsize s i < siz"
proof -
  let ?n = "nbpools (xb s) - 1"
  have asc: "bufsize s i \<le> bufsize s j" if "0 \<le> i" "i \<le> j" "j \<le> ?n" for i j using assms(1) that by (simp add: ascending_def)
  have "0 \<le> r \<and> r \<le> ?n \<and> siz \<le> bufsize s r \<and> (\<forall>i. 0 \<le> i \<longrightarrow> i < r \<longrightarrow> bufsize s i < siz)"
  proof (cases "siz \<le> bufsize s 0")
    case True
    then show ?thesis using assms(2-4) by (simp add: findClosestIndex_def r_def)
  next
    case False
    obtain i j where l: "closest_loop (bufsize s) siz 0 ?n = (i, j)" by (cases "closest_loop (bufsize s) siz 0 ?n")
    have "0 < ?n" using False assms(2,4) by (cases "?n = 0") auto
    then have L: "0 \<le> i" "j = i + 1" "j \<le> ?n" "bufsize s i < siz" "siz \<le> bufsize s j"
      using closest_loop_inv [OF l] False assms(4) by auto
    have r: "r = j" using l L(4,5) False assms(3,4) by (simp add: findClosestIndex_def r_def)
    have "bufsize s k < siz" if "0 \<le> k" "k < j" for k using asc [of k i] that L by simp
    then show ?thesis using r L by auto
  qed
  then show "0 \<le> r" "r < nbpools (xb s)" "siz \<le> bufsize s r" "\<And>i. 0 \<le> i \<Longrightarrow> i < r \<Longrightarrow> bufsize s i < siz" by auto
qed

text \<open>
  C33. The binary search of \<^verbatim>\<open>findClosestIndex\<close> finds what a linear search would: over ascending
  sizes, for a size within them, the first pool that is large enough.
\<close>

theorem findClosestIndex_first:
  assumes "ascending (bufsize s) 0 (nbpools (xb s) - 1)" and "0 < nbpools (xb s)"
    and "0 < siz" and "siz \<le> bufsize s (nbpools (xb s) - 1)"
  shows "findClosestIndex siz s = (LEAST i. 0 \<le> i \<and> siz \<le> bufsize s i)"
proof -
  note P = findClosestIndex_props [OF assms]
  have "findClosestIndex siz s \<le> i" if "0 \<le> i \<and> siz \<le> bufsize s i" for i
    using P(4) [of i] that by (cases "i < findClosestIndex siz s") auto
  then show ?thesis using P by (intro Least_equality [symmetric]) auto
qed

definition xsizes :: xsys where
  "xsizes = \<lparr>xb = kbufs\<lparr>nbpools := 10\<rparr>, poolnum = 10, bufsize = (\<lambda>i. 2 ^ nat (i + 4) - 4), bufnumb = (\<lambda>_. 0), allocBy = (\<lambda>_. 0), allocBf = (\<lambda>_. 0), fragmBy = (\<lambda>_. 0)\<rparr>"

theorem findClosestIndex_first_witness: "findClosestIndex 100 xsizes = (LEAST i. 0 \<le> i \<and> 100 \<le> bufsize xsizes i)"
proof (rule findClosestIndex_first)
  have "(2 :: int) ^ nat (i + 4) - 4 \<le> 2 ^ nat (j + 4) - 4" if "i \<le> j" for i j :: int
    using that by (simp add: power_increasing)
  then show "ascending (bufsize xsizes) 0 (nbpools (xb xsizes) - 1)" by (simp add: ascending_def xsizes_def)
qed (simp_all add: xsizes_def)

section \<open>Initialization\<close>

lemma xinit_sizes_eq:
  "xb (xinit_sizes n p s) = xb s \<and> poolnum (xinit_sizes n p s) = poolnum s \<and>
   bufsize (xinit_sizes n p s) = (\<lambda>i. if p \<le> i \<and> i < p + int n then push_bit (nat i) 16 - 4 else bufsize s i) \<and>
   (\<forall>i. p \<le> i \<longrightarrow> i < p + int n \<longrightarrow> bufnumb (xinit_sizes n p s) i \<in> {2, 2048} \<and> allocBy (xinit_sizes n p s) i = 0 \<and> allocBf (xinit_sizes n p s) i = 0) \<and>
   (\<forall>i. i < p \<longrightarrow> bufnumb (xinit_sizes n p s) i = bufnumb s i \<and> allocBy (xinit_sizes n p s) i = allocBy s i \<and> allocBf (xinit_sizes n p s) i = allocBf s i)"
proof (induction n arbitrary: p s)
  case (Suc n)
  let ?nb = "if push_bit (nat p) (16 :: int) - 4 \<le> 128 then 2048 else if push_bit (nat p) (16 :: int) - 4 \<le> 2048 then 2048 else (2 :: int)"
  let ?t = "s\<lparr>bufsize := (bufsize s)(p := push_bit (nat p) 16 - 4), bufnumb := (bufnumb s)(p := ?nb), allocBy := (allocBy s)(p := 0), allocBf := (allocBf s)(p := 0)\<rparr>"
  have e: "xinit_sizes (Suc n) p s = xinit_sizes n (p + 1) ?t" by (simp add: Let_def)
  note IH = Suc.IH [of "p + 1" ?t]
  have "p \<le> i \<and> i < p + int (Suc n) \<longleftrightarrow> i = p \<or> p + 1 \<le> i \<and> i < p + 1 + int n" for i by auto
  note c = this
  have b: "bufsize (xinit_sizes n (p + 1) ?t) = (\<lambda>i. if p \<le> i \<and> i < p + int (Suc n) then push_bit (nat i) 16 - 4 else bufsize s i)"
    using IH unfolding c by (auto simp: fun_eq_iff)
  have d: "bufnumb (xinit_sizes n (p + 1) ?t) i \<in> {2, 2048} \<and> allocBy (xinit_sizes n (p + 1) ?t) i = 0 \<and> allocBf (xinit_sizes n (p + 1) ?t) i = 0"
    if "p \<le> i" "i < p + int (Suc n)" for i
    using IH that by (cases "i = p") auto
  show ?case unfolding e using IH b d by simp
qed (auto simp: fun_eq_iff)

text \<open>The sizes of the pools, and that those made so far have them.\<close>

definition sizes_ok :: "xsys \<Rightarrow> bool" where
  "sizes_ok x \<longleftrightarrow> (\<forall>i. 0 \<le> i \<longrightarrow> i < 10 \<longrightarrow> bufsize x i = 2 ^ nat (i + 4) - 4) \<and> nbpools (xb x) \<le> 10 \<and>
    (\<forall>p\<in>bpools (xb x). int (unat (psize (xb x) p)) = bufsize x p + 4)"

lemma mkbufpool_total:
  assumes "heap_ok (kmem (bk s)) bs"
  shows "\<exists>p t. mkbufpool z n s = Some (p, t)"
proof (cases "z < BP_MINB \<or> z > BP_MAXB \<or> n < 1 \<or> n > BP_MAXN \<or> nbpools s \<ge> NBPOOLS")
  case True
  then show ?thesis by (auto simp: mkbufpool_def)
next
  case False
  then have z: "8 \<le> z" "z \<le> 8192" "1 \<le> n" "n \<le> 2048" by (auto simp: BP_MINB_def BP_MAXB_def BP_MAXN_def)
  have q: "0 < n * (round4 z + 4)" "n * (round4 z + 4) \<le> 2048 * 8196"
    using z(3,4) round4_bounds [OF z(1,2)] mult_mono [of n 2048 "round4 z + 4" 8196] by simp_all
  have u: "unat (word_of_int (n * (round4 z + 4)) :: uint32) = nat (n * (round4 z + 4))" by (rule unat_word_of_int) (use q in simp_all)
  have "word_of_int (n * (round4 z + 4)) \<noteq> (0 :: uint32)" "unat (word_of_int (n * (round4 z + 4)) :: uint32) \<le> 2 ^ 32 - 8"
    using u q by auto
  then obtain b m where "getmem (word_of_int (n * (round4 z + 4))) (kmem (bk s)) = Some (b, m)"
    using getmem_cases [OF assms] by blast
  then show ?thesis unfolding mkbufpool_eq [OF False] by (simp add: Let_def case_prod_beta)
qed

lemma mkbufpool_sizes:
  assumes c: "mkbufpool z n (bsys m) = Some (p, t)" and I: "binv m R F"
  shows "p = SYSERR \<Longrightarrow> nbpools t = nbpools (bsys m) \<and> (\<forall>q\<in>bpools (bsys m). psize t q = psize (bsys m) q)"
    "p \<noteq> SYSERR \<Longrightarrow> nbpools t = nbpools (bsys m) + 1 \<and> psize t (nbpools (bsys m)) = word_of_int (round4 z) \<and>
       (\<forall>q\<in>bpools (bsys m). psize t q = psize (bsys m) q)"
proof -
  note D = binvD [OF I]
  obtain bs where bs: "heap_ok (kmem (bk (bsys m))) bs" using D(3) by blast
  have N: "0 \<le> nbpools (bsys m)" using D(4) by (simp add: bmem_def)
  have "(p = SYSERR \<longrightarrow> nbpools t = nbpools (bsys m) \<and> (\<forall>q\<in>bpools (bsys m). psize t q = psize (bsys m) q)) \<and>
    (p \<noteq> SYSERR \<longrightarrow> nbpools t = nbpools (bsys m) + 1 \<and> psize t (nbpools (bsys m)) = word_of_int (round4 z) \<and>
       (\<forall>q\<in>bpools (bsys m). psize t q = psize (bsys m) q))"
    by (cases rule: mkbufpool_cases [OF c D(1,2) bs N]) auto
  then show "p = SYSERR \<Longrightarrow> nbpools t = nbpools (bsys m) \<and> (\<forall>q\<in>bpools (bsys m). psize t q = psize (bsys m) q)"
    "p \<noteq> SYSERR \<Longrightarrow> nbpools t = nbpools (bsys m) + 1 \<and> psize t (nbpools (bsys m)) = word_of_int (round4 z) \<and>
       (\<forall>q\<in>bpools (bsys m). psize t q = psize (bsys m) q)" by blast+
qed

text \<open>The memory of a new pool was free, and the caller keeps the processor.\<close>

lemma mkbufpool_use:
  assumes c: "mkbufpool z n (bsys m) = Some (p, t)" and I: "binv m R F" and h: "heap_ok (kmem (bk (bsys m))) bs"
  shows "\<exists>bs'. heap_ok (kmem (bk t)) bs' \<and> free_bytes bs' \<subseteq> free_bytes bs" "currpid (bk t) = currpid (bk (bsys m))"
    "p \<noteq> SYSERR \<Longrightarrow> {unat (bpnext (buftab t p))..<unat (bpnext (buftab t p)) + nat n * (unat (psize t p) + 4)} \<subseteq> free_bytes bs"
proof -
  note D = binvD [OF I]
  have N: "0 \<le> nbpools (bsys m)" using D(4) by (simp add: bmem_def)
  have "(\<exists>bs'. heap_ok (kmem (bk t)) bs' \<and> free_bytes bs' \<subseteq> free_bytes bs) \<and> currpid (bk t) = currpid (bk (bsys m)) \<and>
    (p \<noteq> SYSERR \<longrightarrow> {unat (bpnext (buftab t p))..<unat (bpnext (buftab t p)) + nat n * (unat (psize t p) + 4)} \<subseteq> free_bytes bs)"
  proof (cases rule: mkbufpool_cases [OF c D(1,2) h N])
    case 1
    then show ?thesis using h by auto
  next
    case (2 k' bs')
    then show ?thesis by auto
  next
    case (3 e k' bs')
    then show ?thesis by auto
  next
    case (4 buf mm bs' sem k')
    have "kinv ((bk (bsys m))\<lparr>kmem := mm\<rparr>)" using kinv_upd_cong(1) [OF D(1), of "(bk (bsys m))\<lparr>kmem := mm\<rparr>"] by simp
    then have "kmem k' = mm" "currpid k' = currpid (bk (bsys m))"
      using semcreate_ok [of "(bk (bsys m))\<lparr>kmem := mm\<rparr>" n] D(2) 4(6,11,12) by (auto simp: sem_frame_def simp del: atLeastLessThan_iff)
    moreover have "unat (word_of_int (round4 z) :: uint32) + 4 = nat (round4 z + 4)"
      using unat_word_of_int [of "round4 z"] round4_bounds [OF 4(4,5)] by simp
    ultimately show ?thesis using 4 by auto
  qed
  then show "\<exists>bs'. heap_ok (kmem (bk t)) bs' \<and> free_bytes bs' \<subseteq> free_bytes bs" "currpid (bk t) = currpid (bk (bsys m))"
    "p \<noteq> SYSERR \<Longrightarrow> {unat (bpnext (buftab t p))..<unat (bpnext (buftab t p)) + nat n * (unat (psize t p) + 4)} \<subseteq> free_bytes bs" by blast+
qed

lemma pow_pool:
  assumes "0 \<le> i" "i < 10"
  shows "16 \<le> (2 :: int) ^ nat (i + 4)" "(2 :: int) ^ nat (i + 4) \<le> 8192" "round4 (2 ^ nat (i + 4)) = 2 ^ nat (i + 4)"
proof -
  have "i = 0 \<or> i = 1 \<or> i = 2 \<or> i = 3 \<or> i = 4 \<or> i = 5 \<or> i = 6 \<or> i = 7 \<or> i = 8 \<or> i = 9" using assms by presburger
  then show "16 \<le> (2 :: int) ^ nat (i + 4)" "(2 :: int) ^ nat (i + 4) \<le> 8192" "round4 (2 ^ nat (i + 4)) = 2 ^ nat (i + 4)"
    by (auto simp: round4_def)
qed

lemma xinit_pools_ok:
  assumes "binv m R F" "bsys m = xb x" "sizes_ok x" "nbpools (xb x) + int n \<le> 10" "heap_ok (kmem (bk (xb x))) bs"
  shows "\<exists>y m' R' F' bs'. xinit_pools n (nbpools (xb x)) x = Some y \<and> binv m' R' F' \<and> bsys m' = xb y \<and> bpend m' = bpend m \<and> bheld m' = bheld m \<and>
    sizes_ok y \<and> y = x\<lparr>xb := xb y\<rparr> \<and> heap_ok (kmem (bk (xb y))) bs' \<and> free_bytes bs' \<subseteq> free_bytes bs \<and> barea m' \<subseteq> barea m \<union> free_bytes bs \<and>
    currpid (bk (xb y)) = currpid (bk (xb x))"
  using assms
proof (induction n arbitrary: m R F x bs)
  case 0
  then show ?case by auto
next
  case (Suc n)
  let ?i = "nbpools (xb x)"
  note D = binvD [OF Suc.prems(1)]
  have bs: "heap_ok (kmem (bk (xb x))) bs" by (rule Suc.prems(5))
  obtain p b where c: "mkbufpool (bufsize x ?i + 4) (bufnumb x ?i) (xb x) = Some (p, b)" using mkbufpool_total [OF bs] by blast
  have c': "mkbufpool (bufsize x ?i + 4) (bufnumb x ?i) (bsys m) = Some (p, b)" using c Suc.prems(2) by simp
  note S = mkbufpool_sizes [OF c' Suc.prems(1), unfolded Suc.prems(2)]
  have bs': "heap_ok (kmem (bk (bsys m))) bs" using bs Suc.prems(2) by simp
  note W = mkbufpool_use [OF c' Suc.prems(1) bs', unfolded Suc.prems(2)]
  obtain cs where cs: "heap_ok (kmem (bk b)) cs" "free_bytes cs \<subseteq> free_bytes bs" using W(1) by blast
  have N: "0 \<le> ?i" "?i < 10" using D(4) Suc.prems(2,4) by (auto simp: bmem_def)
  have sz: "bufsize x ?i + 4 = 2 ^ nat (?i + 4)" using Suc.prems(3) N by (simp add: sizes_ok_def)
  show ?case
  proof (cases "p = SYSERR")
    case True
    have "binv (m\<lparr>bsys := b\<rparr>) R F" using mk_step(1) [OF Suc.prems(1) c' True] .
    moreover have "sizes_ok (x\<lparr>xb := b\<rparr>)" using S(1) [OF True] Suc.prems(3) by (simp add: sizes_ok_def)
    ultimately show ?thesis using c True cs W(2)
      by (intro exI [of _ "x\<lparr>xb := b\<rparr>"] exI [of _ "m\<lparr>bsys := b\<rparr>"] exI [of _ R] exI [of _ F] exI [of _ cs]) (auto simp: Let_def)
  next
    case False
    note P = pow_pool [OF N]
    have u: "int (unat (word_of_int (2 ^ nat (?i + 4)) :: uint32)) = 2 ^ nat (?i + 4)"
      using unat_word_of_int [of "2 ^ nat (?i + 4)"] P by simp
    have "int (unat (psize b q)) = bufsize x q + 4" if "q \<in> bpools b" for q
      using S(2) [OF False] Suc.prems(3) that sz P(3) u by (cases "q = ?i") (auto simp: sizes_ok_def)
    then have so: "sizes_ok (x\<lparr>xb := b\<rparr>)" using S(2) [OF False] Suc.prems(3) N by (simp add: sizes_ok_def)
    let ?A = "barea m \<union> {unat (bpnext (buftab b p))..<unat (bpnext (buftab b p)) + nat (bufnumb x ?i) * (unat (psize b p) + 4)}"
    obtain R' F' where B: "binv (m\<lparr>bsys := b, barea := ?A\<rparr>) R' F'" using mk_step(2) [OF Suc.prems(1) c' False] by blast
    have nb: "nbpools b = ?i + 1" using S(2) [OF False] by simp
    obtain y m' R'' F'' ds where Y: "xinit_pools n (nbpools b) (x\<lparr>xb := b\<rparr>) = Some y" "binv m' R'' F''" "bsys m' = xb y" "bpend m' = bpend m" "bheld m' = bheld m"
        "sizes_ok y" "y = x\<lparr>xb := b\<rparr>\<lparr>xb := xb y\<rparr>" "heap_ok (kmem (bk (xb y))) ds" "free_bytes ds \<subseteq> free_bytes cs" "barea m' \<subseteq> ?A \<union> free_bytes cs"
        "currpid (bk (xb y)) = currpid (bk b)"
      using Suc.IH [OF B _ so _ , of cs] Suc.prems(4) nb cs(1) by auto
    have Z: "free_bytes ds \<subseteq> free_bytes bs" "barea m' \<subseteq> barea m \<union> free_bytes bs" "currpid (bk (xb y)) = currpid (bk (xb x))"
      using Y(9-11) cs(2) W(2) W(3) [OF False] by auto
    have "xinit_pools (Suc n) ?i x = Some y" using c False Y(1) nb by (simp add: Let_def)
    then show ?thesis using Y Z by auto
  qed
qed

lemma xmalloc_init_inv:
  assumes "kinv (bk (xb x))" and "heap_ok (kmem (bk (xb x))) bs" and "nextsem (bk (xb x)) \<in> sems"
  shows "\<exists>y m R F cs. xmalloc_init x = Some y \<and> binv m R F \<and> bsys m = xb y \<and> bheld m = {} \<and> (\<forall>q. bpend m q = None) \<and>
    sizes_ok y \<and> (\<forall>p\<in>bpools (xb y). allocBy y p = 0 \<and> allocBf y p = 0) \<and>
    heap_ok (kmem (bk (xb y))) cs \<and> free_bytes cs \<subseteq> free_bytes bs \<and> barea m \<subseteq> free_bytes bs \<and> currpid (bk (xb y)) = currpid (bk (xb x))"
proof -
  define x2 where "x2 = x\<lparr>xb := (xb x)\<lparr>nbpools := 0\<rparr>, poolnum := 10\<rparr>"
  define x3 where "x3 = xinit_sizes 10 0 x2"
  let ?m = "\<lparr>bsys = xb x3, bpend = \<lambda>_. None, bheld = {}, barea = {}\<rparr>"
  note E = xinit_sizes_eq [of 10 0 x2, folded x3_def]
  have b3: "xb x3 = (xb x)\<lparr>nbpools := 0\<rparr>" "poolnum x3 = 10" using E by (simp_all add: x2_def)
  have e: "xmalloc_init x = xinit_pools 10 0 x3" using b3(2) by (simp add: xmalloc_init_def bufinit_def SYSERR_def OK_def x3_def x2_def Let_def)
  have "bufinit (xb x) = (OK, xb x3)" by (simp add: bufinit_def b3)
  then obtain R F where I: "binv ?m R F" using bpsteps_inv [OF assms] by blast
  have sz: "bufsize x3 i = 2 ^ nat (i + 4) - 4" if "0 \<le> i" "i < 10" for i
    using E that by (simp add: push_bit_eq_mult nat_add_distrib power_add)
  have so: "sizes_ok x3" using sz by (auto simp: sizes_ok_def b3)
  have h3: "heap_ok (kmem (bk (xb x3))) bs" "currpid (bk (xb x3)) = currpid (bk (xb x))" using assms(2) by (simp_all add: b3)
  obtain y m R' F' cs where Y: "xinit_pools 10 0 x3 = Some y" "binv m R' F'" "bsys m = xb y" "bpend m = bpend ?m" "bheld m = bheld ?m" "sizes_ok y" "y = x3\<lparr>xb := xb y\<rparr>"
      "heap_ok (kmem (bk (xb y))) cs" "free_bytes cs \<subseteq> free_bytes bs" "barea m \<subseteq> free_bytes bs" "currpid (bk (xb y)) = currpid (bk (xb x3))"
    using xinit_pools_ok [OF I _ so _ h3(1), of 10] by (auto simp: b3)
  have "allocBy y = allocBy x3" "allocBf y = allocBf x3" by (subst Y(7), simp)+
  moreover have "nbpools (xb y) \<le> 10" using Y(6) by (simp add: sizes_ok_def)
  ultimately have "\<forall>p\<in>bpools (xb y). allocBy y p = 0 \<and> allocBf y p = 0" using E by auto
  moreover have "\<forall>q. bpend m q = None" "bheld m = {}" using Y(4,5) by simp_all
  ultimately show ?thesis using e Y(1-3,6,8-11) h3(2) by metis
qed

text \<open>
  C34. \<^verbatim>\<open>xmalloc_init\<close> always ends and leaves the allocator consistent, also when the memory does not last for
  all ten pools: the pools made so far are well formed buffer pools whose sizes ascend from 16 by
  powers of two, each one word larger than the size it serves, and nothing is allocated.
\<close>

theorem xmalloc_init_ok:
  assumes "kinv (bk (xb x))" and "heap_ok (kmem (bk (xb x))) bs" and "nextsem (bk (xb x)) \<in> sems"
  shows "\<exists>y m R F. xmalloc_init x = Some y \<and> binv m R F \<and> bsys m = xb y \<and> bheld m = {} \<and> (\<forall>q. bpend m q = None) \<and>
    sizes_ok y \<and> (\<forall>p\<in>bpools (xb y). allocBy y p = 0 \<and> allocBf y p = 0)"
  using xmalloc_init_inv [OF assms] by blast

definition kxm :: xsys where
  "kxm = \<lparr>xb = kbufs, poolnum = 0, bufsize = (\<lambda>_. 0), bufnumb = (\<lambda>_. 0), allocBy = (\<lambda>_. 0), allocBf = (\<lambda>_. 0), fragmBy = (\<lambda>_. 0)\<rparr>"

theorem xmalloc_init_ok_witness: "\<exists>y m R F. xmalloc_init kxm = Some y \<and> binv m R F \<and> bsys m = xb y \<and> sizes_ok y"
  using xmalloc_init_ok [of kxm "[(0x10000, 0xEE000)]"] kbufs_facts by (auto simp: kxm_def)

section \<open>Allocation and release\<close>

lemma sizes_ascending:
  assumes "sizes_ok x"
  shows "ascending (bufsize x) 0 (nbpools (xb x) - 1)"
  unfolding ascending_def
proof (intro allI impI)
  fix i j :: int assume ij: "0 \<le> i" "i \<le> j" "j \<le> nbpools (xb x) - 1"
  have "bufsize x i = 2 ^ nat (i + 4) - 4" "bufsize x j = 2 ^ nat (j + 4) - 4" using assms ij by (auto simp: sizes_ok_def)
  moreover have "(2 :: int) ^ nat (i + 4) \<le> 2 ^ nat (j + 4)" using ij by (intro power_increasing) auto
  ultimately show "bufsize x i \<le> bufsize x j" by simp
qed

lemma sem_restore: "upd_sem i (\<lambda>e. e\<lparr>scount := scount e + 1\<rparr>) (upd_sem i (\<lambda>e. e\<lparr>scount := scount e - 1\<rparr>) k) = k"
  by (cases k) (simp add: fun_upd_def fun_eq_iff)

text \<open>A request served at once: the first free buffer of the smallest pool that fits.\<close>

lemma xmalloc_serves:
  assumes I: "binv m R F" and xm: "xb x = bsys m" and so: "sizes_ok x" and N: "0 < nbpools (xb x)"
    and z: "0 < siz" "siz \<le> bufsize x (nbpools (xb x) - 1)"
  defines "p \<equiv> findClosestIndex siz x"
  defines "a \<equiv> bpnext (buftab (xb x) p)" and "i \<equiv> psem (xb x) p"
  assumes c: "0 < scount (semtab (bk (xb x)) i)"
  defines "k \<equiv> upd_sem i (\<lambda>e. e\<lparr>scount := scount e - 1\<rparr>) (bk (xb x))"
  defines "b \<equiv> upd_bword (a + psize (xb x) p) (word_of_int siz)
      (upd_bword a (word_of_int p) (upd_pool p (\<lambda>e. e\<lparr>bpnext := bword (xb x) a\<rparr>) ((xb x)\<lparr>bk := k\<rparr>)))"
  shows "xmalloc siz x = Some (Ret (4 + a), upd_frag p (x\<lparr>xb := b, allocBy := (allocBy x)(p := allocBy x p + siz), allocBf := (allocBf x)(p := allocBf x p + 1)\<rparr>))"
    "p \<in> bpools (xb x)" "4 + a \<notin> bheld m" "4 + a \<noteq> 0" "a + psize (xb x) p \<noteq> a" "siz < 2 ^ 31" "sstate (semtab (bk (xb x)) i) = S_USED" "i \<in> sems"
    "kinv k" "0 \<le> p" "p < 10"
    "getbuf p (xb x) = Some (Ret (4 + a), upd_bword a (word_of_int p) (upd_pool p (\<lambda>e. e\<lparr>bpnext := bword (xb x) a\<rparr>) ((xb x)\<lparr>bk := k\<rparr>)))"
proof -
  note D = binvD [OF I, folded xm]
  note P = findClosestIndex_props [OF sizes_ascending [OF so] N z, folded p_def]
  show p: "p \<in> bpools (xb x)" "0 \<le> p" "p < 10" using P so by (auto simp: sizes_ok_def)
  note B = pool_balD [OF D(7) p(1), folded i_def]
  show "sstate (semtab (bk (xb x)) i) = S_USED" "i \<in> sems" using B by simp_all
  note W = wait_passes [OF D(1) B(1,2) c, folded k_def]
  show "kinv k" by (rule W(2))
  have "0 < tokens (bk (xb x)) i (waiting m p)" using c by (simp add: tokens_def)
  then obtain a' fl where F: "F p = a' # fl" using B(4) by (cases "F p") (auto simp: free_count_def)
  note M = bmemD [OF D(4) p(1), unfolded F]
  have a: "a' = a" "a \<noteq> 0" "a \<in> R p" "a \<in> set (F p)" using M F by (auto simp: a_def)
  have lay: "layout (xb x) R (barea m)" using D(4) by (simp add: bmem_def)
  note L = layoutD [OF lay p(1) a(3)]
  show "4 + a \<notin> bheld m" using out_upd(3) [OF lay p(1) refl, of a F] a(3,4) D(5) by simp
  have psz: "int (unat (psize (xb x) p)) = 2 ^ nat (p + 4)" using so p by (simp add: sizes_ok_def)
  note Q = pow_pool [OF p(2,3)]
  have ps: "16 \<le> unat (psize (xb x) p)" using psz Q(1) by linarith
  have "siz \<le> 2 ^ nat (p + 4) - 4" using P(3) so p by (simp add: sizes_ok_def)
  then show "siz < 2 ^ 31" using Q(2) by simp
  have u4: "unat (4 + a) = 4 + unat a" using L(2) by (simp add: unat_word_ariths)
  have e4: "4 + a \<noteq> SYSERR_PTR"
  proof
    assume "4 + a = SYSERR_PTR"
    then have "unat SYSERR_PTR = 4 + unat a" using u4 by metis
    then have "4 + unat a = 2 ^ 32 - 1" by (simp add: SYSERR_PTR_def unsigned_minus_1_eq_mask mask_eq_exp_minus_1)
    then show False using L(2) ps by simp
  qed
  show "4 + a \<noteq> 0" using u4 by auto
  have "psize (xb x) p \<noteq> 0" using ps by auto
  then show "a + psize (xb x) p \<noteq> a" by simp
  have ns: "p \<noteq> SYSERR" using p(2) by (simp add: SYSERR_def)
  show g: "getbuf p (xb x) = Some (Ret (4 + a), upd_bword a (word_of_int p) (upd_pool p (\<lambda>e. e\<lparr>bpnext := bword (xb x) a\<rparr>) ((xb x)\<lparr>bk := k\<rparr>)))"
    using p(1) W(1) by (simp add: getbuf_def i_def [symmetric] getbuf_cont_def Let_def a_def [symmetric]) (simp add: k_def)
  have ad: "4 + a + psize (xb x) p - 4 = a + psize (xb x) p" by simp
  show "xmalloc siz x = Some (Ret (4 + a), upd_frag p (x\<lparr>xb := b, allocBy := (allocBy x)(p := allocBy x p + siz), allocBf := (allocBf x)(p := allocBf x p + 1)\<rparr>))"
    using z ns a(2) g e4 by (simp add: xmalloc_def Let_def p_def [symmetric] a_def [symmetric] xmalloc_cont_def ad b_def)
qed

text \<open>
  C32. \<^verbatim>\<open>xmalloc\<close> serves a request from the smallest pool that fits, with a buffer that is not in use, and
  \<^verbatim>\<open>xfree\<close> undoes it: kernel, free lists and counts are as they were, and all that remains is the size
  in the last word of the freed buffer and a fresh figure for the fragmentation of its pool.
\<close>

theorem xmalloc_xfree_roundtrip:
  assumes "binv m R F" and "xb x = bsys m" and "sizes_ok x" and "0 < nbpools (xb x)"
    and "0 < siz" and "siz \<le> bufsize x (nbpools (xb x) - 1)"
    and "p = findClosestIndex siz x" and "0 < scount (semtab (bk (xb x)) (psem (xb x) p))"
  shows "\<exists>a y w. xmalloc siz x = Some (Ret a, y) \<and> a \<notin> bheld m \<and> a \<noteq> 0 \<and> siz \<le> bufsize y p \<and> allocBf y p = allocBf x p + 1 \<and>
    allocBy y p = allocBy x p + siz \<and> fragmBy y p = bufsize x p * allocBf y p - allocBy y p \<and>
    xfree a y = Some (Ret (), upd_frag p (x\<lparr>xb := upd_bword w (word_of_int siz) (xb x)\<rparr>))"
proof -
  let ?i = "psem (xb x) p" and ?a = "bpnext (buftab (xb x) p)"
  let ?w = "?a + psize (xb x) p" and ?k = "upd_sem ?i (\<lambda>e. e\<lparr>scount := scount e - 1\<rparr>) (bk (xb x))"
  let ?b0 = "upd_pool p (\<lambda>e. e\<lparr>bpnext := bword (xb x) ?a\<rparr>) ((xb x)\<lparr>bk := ?k\<rparr>)"
  let ?b = "upd_bword ?w (word_of_int siz) (upd_bword ?a (word_of_int p) ?b0)"
  let ?y = "upd_frag p (x\<lparr>xb := ?b, allocBy := (allocBy x)(p := allocBy x p + siz), allocBf := (allocBf x)(p := allocBf x p + 1)\<rparr>)"
  note X = xmalloc_serves [OF assms(1-6), folded assms(7), OF assms(8)]
  have sp: "sint (word_of_int p :: uint32) = p" "sint (word_of_int siz :: uint32) = siz"
    using X(6,10,11) assms(5) by (simp_all add: signed_of_int signed_take_bit_int_eq_self)
  have cnt: "0 \<le> scount (semtab ?k ?i)" "sstate (semtab ?k ?i) = S_USED" using assms(8) X(7) by simp_all
  note G = signal_counts(1) [OF X(9,8) cnt(2,1), unfolded bump_def sem_restore]
  have pe: "(buftab (xb x) p)\<lparr>bpnext := ?a\<rparr> = buftab (xb x) p" by (cases "buftab (xb x) p") simp
  have bw: "f(w := v, a := f a) = f(w := v)" if "w \<noteq> a" for f :: "uint32 \<Rightarrow> uint32" and w v a
    using that by (auto simp: fun_eq_iff)
  have f: "freebuf (4 + ?a) ?b = Some (OK, upd_bword ?w (word_of_int siz) (xb x))"
    using X(2,5) sp(1) G by (cases "xb x") (simp add: freebuf_def Let_def pe bw)
  have "xfree (4 + ?a) ?y = Some (Ret (), upd_frag p (x\<lparr>xb := upd_bword ?w (word_of_int siz) (xb x)\<rparr>))"
    using X(2,4,5) sp f by (cases x) (simp add: xfree_def Let_def xfree_cont_def OK_def SYSERR_def)
  moreover have "siz \<le> bufsize ?y p" using findClosestIndex_props(3) [OF sizes_ascending [OF assms(3)] assms(4-6)] assms(7) by simp
  ultimately show ?thesis using X(1,3,4) by (intro exI [of _ "4 + ?a"] exI [of _ ?y] exI [of _ ?w]) simp
qed

theorem xmalloc_xfree_roundtrip_witness:
  "\<exists>x a y w. 0 < nbpools (xb x) \<and> xmalloc 5 x = Some (Ret a, y) \<and> a \<noteq> 0 \<and> allocBy y 0 = 5 \<and>
    xfree a y = Some (Ret (), upd_frag 0 (x\<lparr>xb := upd_bword w 5 (xb x)\<rparr>))"
proof -
  let ?x = "xsizes\<lparr>xb := kpool\<rparr>"
  obtain A where st: "bpstep \<lparr>bsys = kbufs, bpend = \<lambda>_. None, bheld = {}, barea = {}\<rparr> \<lparr>bsys = kpool, bpend = \<lambda>_. None, bheld = {}, barea = A\<rparr>"
    using kpool_step by blast
  obtain R F where I: "binv \<lparr>bsys = kpool, bpend = \<lambda>_. None, bheld = {}, barea = A\<rparr> R F"
    using bpsteps_inv [OF kbufs_facts r_into_rtranclp [of bpstep, OF st]] by blast
  have "{0..<1 :: int} = {0}" by auto
  then have so: "sizes_ok ?x" "0 < nbpools (xb ?x)" using kpool_facts(1,2) by (simp_all add: sizes_ok_def xsizes_def)
  have p: "0 = findClosestIndex 5 ?x" using kpool_facts by (simp add: findClosestIndex_def xsizes_def)
  have "0 < scount (semtab (bk (xb ?x)) (psem (xb ?x) 0))" "5 \<le> bufsize ?x (nbpools (xb ?x) - 1)"
    using kpool_facts by (simp_all add: xsizes_def)
  then obtain a y w where X: "xmalloc 5 ?x = Some (Ret a, y)" "a \<noteq> 0" "allocBy y 0 = allocBy ?x 0 + 5"
      "xfree a y = Some (Ret (), upd_frag 0 (?x\<lparr>xb := upd_bword w (word_of_int 5) (xb ?x)\<rparr>))"
    using xmalloc_xfree_roundtrip [OF I _ so _ _ p] by auto
  moreover have "allocBy y 0 = 5" using X(3) by (simp add: xsizes_def)
  ultimately show ?thesis using so(2) X(1,2,4) by (intro exI [of _ ?x] exI [of _ a] exI [of _ y] exI [of _ w]) simp
qed

end
