(* ===== verification/KV_Store.thy ===== *)
theory KV_Store
  imports Xmalloc Lib_String
begin

text \<open>
  The key-value store of \<^verbatim>\<open>system/kv_store.c\<close>, \<^verbatim>\<open>include/kv.h\<close>: a hash table of chained nodes that own copies of
  key and value, and a cache of the most recently used keys, which is a linked list whose
  backward links are kept in a second hash table.

  The nodes of the three kinds of list are three maps from addresses (structures of
  different types do not overlap), the strings a memory of bytes. A null pointer to a node that the code follows, and
  a table read at index \<open>-1\<close>, give \<^term>\<open>None\<close>, as does a loop that does not end. \<^verbatim>\<open>getmem\<close> reports failure by an address that the
  code does not test for, and the model writes there as the code does. A call
  of \<^verbatim>\<open>xmalloc\<close> or \<^verbatim>\<open>xfree\<close> in which the caller would lose the processor gives \<^term>\<open>None\<close>: the model is of a
  store whose pools no other process waits for. The counters do not wrap around, and messages printed are not modelled.
\<close>

section \<open>State\<close>

definition MAX_KEY_SIZE :: nat where "MAX_KEY_SIZE = 64"
definition HASH_TAB_SIZE :: int where "HASH_TAB_SIZE = 512"
definition LRU_CACHE_SIZE :: int where "LRU_CACHE_SIZE = 128"

record KVNode =
  kv_key :: uint32
  kv_val :: uint32
  kv_count :: int
  kv_next :: uint32

record LRUEntry =
  le_key :: uint32
  le_val :: uint32
  le_next :: uint32

record LRUNode =
  ln_key :: uint32
  ln_prev :: uint32
  ln_next :: uint32

record kvsys =
  kx :: xsys
  kbytes :: bytes
  kvn :: "uint32 \<Rightarrow> KVNode"
  lre :: "uint32 \<Rightarrow> LRUEntry"
  lrn :: "uint32 \<Rightarrow> LRUNode"
  kvHashTab :: "int \<Rightarrow> uint32"
  lruHashTab :: "int \<Rightarrow> uint32"
  headLRU :: uint32
  tailLRU :: uint32
  counterLRU :: int
  totalHits :: int
  totalAccesses :: int
  totalSetSuccess :: int
  totalEvictions :: int

abbreviation upd_kvn :: "uint32 \<Rightarrow> (KVNode \<Rightarrow> KVNode) \<Rightarrow> kvsys \<Rightarrow> kvsys" where
  "upd_kvn a f s \<equiv> s\<lparr>kvn := (kvn s)(a := f (kvn s a))\<rparr>"

abbreviation upd_lre :: "uint32 \<Rightarrow> (LRUEntry \<Rightarrow> LRUEntry) \<Rightarrow> kvsys \<Rightarrow> kvsys" where
  "upd_lre a f s \<equiv> s\<lparr>lre := (lre s)(a := f (lre s a))\<rparr>"

abbreviation upd_lrn :: "uint32 \<Rightarrow> (LRUNode \<Rightarrow> LRUNode) \<Rightarrow> kvsys \<Rightarrow> kvsys" where
  "upd_lrn a f s \<equiv> s\<lparr>lrn := (lrn s)(a := f (lrn s a))\<rparr>"

text \<open>The heap, \<^verbatim>\<open>xmalloc\<close> and \<^verbatim>\<open>xfree\<close> as the store calls them.\<close>

definition kv_getmem :: "uint32 \<Rightarrow> kvsys \<Rightarrow> (uint32 \<times> kvsys) option" where
  "kv_getmem n s = do {
     (a, m) \<leftarrow> getmem n (kmem (bk (xb (kx s))));
     Some (a, s\<lparr>kx := (kx s)\<lparr>xb := (xb (kx s))\<lparr>bk := (bk (xb (kx s)))\<lparr>kmem := m\<rparr>\<rparr>\<rparr>\<rparr>) }"

definition kv_xmalloc :: "int \<Rightarrow> kvsys \<Rightarrow> (uint32 \<times> kvsys) option" where
  "kv_xmalloc n s = do {
     (r, x) \<leftarrow> xmalloc n (kx s);
     case r of Ret a \<Rightarrow> Some (a, s\<lparr>kx := x\<rparr>) | Blocked \<Rightarrow> None }"

definition kv_xfree :: "uint32 \<Rightarrow> kvsys \<Rightarrow> kvsys option" where
  "kv_xfree a s = do {
     (r, x) \<leftarrow> xfree a (kx s);
     case r of Ret _ \<Rightarrow> Some (s\<lparr>kx := x\<rparr>) | Blocked \<Rightarrow> None }"

section \<open>Hashing and chains\<close>

primrec hash_loop :: "nat \<Rightarrow> bytes \<Rightarrow> uint32 \<Rightarrow> int \<Rightarrow> int" where
  "hash_loop 0 m key hashCode = hashCode"
| "hash_loop (Suc i) m key hashCode =
    (if m key = 0 then hashCode else hash_loop i m (key + 1) ((hashCode * 31 + uint (m key)) mod HASH_TAB_SIZE))"

definition hashFunc :: "bytes \<Rightarrow> uint32 \<Rightarrow> int" where
  "hashFunc m key = (if key = 0 \<or> m key = 0 then - 1 else hash_loop MAX_KEY_SIZE m key 0)"

text \<open>
  The loops over a chain of either table, for the links \<open>nxt\<close> and the keys \<open>ky\<close> of its nodes: the node
  with a key (or null), the node before it (or null), and the last node.
\<close>

partial_function (option) chain_find ::
  "(uint32 \<Rightarrow> uint32) \<Rightarrow> (uint32 \<Rightarrow> uint32) \<Rightarrow> bytes \<Rightarrow> uint32 \<Rightarrow> int \<Rightarrow> uint32 \<Rightarrow> uint32 option" where
  "chain_find nxt ky m key keyLen p =
    (if p = 0 then None
     else if nxt p \<noteq> 0 then
       (if strncmp m (ky (nxt p)) key keyLen = 0 then Some (nxt p) else chain_find nxt ky m key keyLen (nxt p))
     else Some 0)"

partial_function (option) chain_before ::
  "(uint32 \<Rightarrow> uint32) \<Rightarrow> (uint32 \<Rightarrow> uint32) \<Rightarrow> bytes \<Rightarrow> uint32 \<Rightarrow> int \<Rightarrow> uint32 \<Rightarrow> uint32 option" where
  "chain_before nxt ky m key keyLen p =
    (if p = 0 then None
     else if nxt p \<noteq> 0 then
       (if strncmp m (ky (nxt p)) key keyLen = 0 then Some p else chain_before nxt ky m key keyLen (nxt p))
     else Some 0)"

partial_function (option) chain_last :: "(uint32 \<Rightarrow> uint32) \<Rightarrow> uint32 \<Rightarrow> uint32 option" where
  "chain_last nxt p = (if p = 0 then None else if nxt p \<noteq> 0 then chain_last nxt (nxt p) else Some p)"

text \<open>The length of a string with its terminator, as an \<^verbatim>\<open>int\<close>.\<close>

definition strsize :: "bytes \<Rightarrow> uint32 \<Rightarrow> int option" where
  "strsize m p = do { n \<leftarrow> strlen m p; Some (sint (n + 1)) }"

text \<open>\<^verbatim>\<open>strncmp\<close> with a string literal as its second argument.\<close>

fun strncmp_lit :: "nat \<Rightarrow> bytes \<Rightarrow> uint32 \<Rightarrow> uchar list \<Rightarrow> int" where
  "strncmp_lit 0 m p cs = 0"
| "strncmp_lit (Suc k) m p [] = (if m p = 0 then 0 else uint (m p))"
| "strncmp_lit (Suc k) m p (c # cs) = (if m p = c then strncmp_lit k m (p + 1) cs else uint (m p) - uint c)"

definition lit :: "string \<Rightarrow> uchar list" where
  "lit cs = map (\<lambda>c. word_of_nat (of_char c)) cs"

section \<open>The table of nodes\<close>

definition createKVNode :: "uint32 \<Rightarrow> uint32 \<Rightarrow> kvsys \<Rightarrow> (uint32 \<times> kvsys) option" where
  "createKVNode key val s = do {
     keyLen \<leftarrow> strsize (kbytes s) key;
     valLen \<leftarrow> strsize (kbytes s) val;
     (keyAlloc, s1) \<leftarrow> kv_getmem (word_of_int keyLen) s;
     if keyAlloc = 0 then Some (0, s1)
     else do {
       (valAlloc, s2) \<leftarrow> kv_xmalloc valLen s1;
       if valAlloc = 0 then Some (0, s2)
       else do {
         let m1 = snd (memset (kbytes s2) keyAlloc 0 keyLen);
         let m2 = snd (memset m1 valAlloc 0 valLen);
         let m3 = snd (strncpy m2 keyAlloc key keyLen);
         let m4 = snd (strncpy m3 valAlloc val valLen);
         (kvNode, s3) \<leftarrow> kv_getmem 16 (s2\<lparr>kbytes := m4\<rparr>);
         if kvNode = 0 then Some (0, s3)
         else Some (kvNode, upd_kvn kvNode (\<lambda>_. \<lparr>kv_key = keyAlloc, kv_val = valAlloc, kv_count = 0, kv_next = 0\<rparr>) s3) } } }"

definition updateKVNode :: "uint32 \<Rightarrow> uint32 \<Rightarrow> kvsys \<Rightarrow> (int \<times> kvsys) option" where
  "updateKVNode kvNode val s = do {
     valLen \<leftarrow> strsize (kbytes s) val;
     (valAlloc, s1) \<leftarrow> kv_xmalloc valLen s;
     if valAlloc = 0 then Some (1, s1)
     else
       let m1 = snd (memset (kbytes s1) valAlloc 0 valLen);
           m2 = snd (strncpy m1 valAlloc val valLen)
       in Some (0, upd_kvn kvNode (\<lambda>e. e\<lparr>kv_val := valAlloc\<rparr>) (s1\<lparr>kbytes := m2\<rparr>)) }"

definition getKVHashTab :: "uint32 \<Rightarrow> kvsys \<Rightarrow> uint32 option" where
  "getKVHashTab key s = do {
     let hashCode = hashFunc (kbytes s) key;
     if hashCode < 0 then None
     else do {
       keyLen \<leftarrow> strsize (kbytes s) key;
       chain_find (\<lambda>a. kv_next (kvn s a)) (\<lambda>a. kv_key (kvn s a)) (kbytes s) key keyLen (kvHashTab s hashCode) } }"

definition setKVHashTab :: "uint32 \<Rightarrow> uint32 \<Rightarrow> kvsys \<Rightarrow> (uint32 \<times> kvsys) option" where
  "setKVHashTab key val s = do {
     kvNode \<leftarrow> getKVHashTab key s;
     if kvNode \<noteq> 0 then do {
       s1 \<leftarrow> kv_xfree (kv_val (kvn s kvNode)) s;
       (_, s2) \<leftarrow> updateKVNode kvNode val s1;
       Some (kvNode, s2) }
     else do {
       (kvNode, s1) \<leftarrow> createKVNode key val s;
       let hashCode = hashFunc (kbytes s1) key;
       kvHead \<leftarrow> chain_last (\<lambda>a. kv_next (kvn s1 a)) (kvHashTab s1 hashCode);
       Some (kvNode, upd_kvn kvHead (\<lambda>e. e\<lparr>kv_next := kvNode\<rparr>) s1) } }"

definition delKVHashTab :: "uint32 \<Rightarrow> kvsys \<Rightarrow> (int \<times> kvsys) option" where
  "delKVHashTab key s = do {
     keyLen \<leftarrow> strsize (kbytes s) key;
     let hashCode = hashFunc (kbytes s) key;
     if hashCode < 0 then None
     else do {
       p \<leftarrow> chain_before (\<lambda>a. kv_next (kvn s a)) (\<lambda>a. kv_key (kvn s a)) (kbytes s) key keyLen (kvHashTab s hashCode);
       if p = 0 then Some (1, s)
       else do {
         s1 \<leftarrow> kv_xfree (kv_val (kvn s (kv_next (kvn s p)))) s;
         Some (0, upd_kvn p (\<lambda>e. e\<lparr>kv_next := kv_next (kvn s1 (kv_next (kvn s1 p)))\<rparr>) s1) } } }"

section \<open>The table of the cache\<close>

definition createLRUNode :: "uint32 \<Rightarrow> uint32 \<Rightarrow> kvsys \<Rightarrow> (uint32 \<times> kvsys) option" where
  "createLRUNode key prev s = do {
     (lruNode, s1) \<leftarrow> kv_getmem 12 s;
     if lruNode = 0 then Some (0, s1)
     else Some (lruNode, upd_lrn lruNode (\<lambda>_. \<lparr>ln_key = key, ln_prev = prev, ln_next = 0\<rparr>) s1) }"

definition getLRUHashTab :: "uint32 \<Rightarrow> kvsys \<Rightarrow> uint32 option" where
  "getLRUHashTab key s = do {
     let hashCode = hashFunc (kbytes s) key;
     if hashCode < 0 then None
     else do {
       keyLen \<leftarrow> strsize (kbytes s) key;
       chain_find (\<lambda>a. ln_next (lrn s a)) (\<lambda>a. ln_key (lrn s a)) (kbytes s) key keyLen (lruHashTab s hashCode) } }"

definition setLRUHashTab :: "uint32 \<Rightarrow> uint32 \<Rightarrow> kvsys \<Rightarrow> (int \<times> kvsys) option" where
  "setLRUHashTab key prev s = do {
     lruNode \<leftarrow> getLRUHashTab key s;
     if lruNode \<noteq> 0 then Some (0, upd_lrn lruNode (\<lambda>e. e\<lparr>ln_prev := prev\<rparr>) s)
     else do {
       (lruNode, s1) \<leftarrow> createLRUNode key prev s;
       let hashCode = hashFunc (kbytes s1) key;
       lruHead \<leftarrow> chain_last (\<lambda>a. ln_next (lrn s1 a)) (lruHashTab s1 hashCode);
       Some (0, upd_lrn lruHead (\<lambda>e. e\<lparr>ln_next := lruNode\<rparr>) s1) } }"

definition delLRUHashTab :: "uint32 \<Rightarrow> kvsys \<Rightarrow> (int \<times> kvsys) option" where
  "delLRUHashTab key s = do {
     keyLen \<leftarrow> strsize (kbytes s) key;
     let hashCode = hashFunc (kbytes s) key;
     if hashCode < 0 then None
     else do {
       p \<leftarrow> chain_before (\<lambda>a. ln_next (lrn s a)) (\<lambda>a. ln_key (lrn s a)) (kbytes s) key keyLen (lruHashTab s hashCode);
       if p = 0 then Some (1, s)
       else Some (0, upd_lrn p (\<lambda>e. e\<lparr>ln_next := ln_next (lrn s (ln_next (lrn s p)))\<rparr>) s) } }"

section \<open>The cache\<close>

definition createLRUEntry :: "uint32 \<Rightarrow> uint32 \<Rightarrow> kvsys \<Rightarrow> (uint32 \<times> kvsys) option" where
  "createLRUEntry key val s = do {
     (lruEntry, s1) \<leftarrow> kv_getmem 12 s;
     if lruEntry = 0 then Some (0, s1)
     else Some (lruEntry, upd_lre lruEntry (\<lambda>_. \<lparr>le_key = key, le_val = val, le_next = 0\<rparr>) s1) }"

text \<open>\<^verbatim>\<open>getLRUHashTab(key)->prev = prev\<close>\<close>

definition set_prev :: "uint32 \<Rightarrow> uint32 \<Rightarrow> kvsys \<Rightarrow> kvsys option" where
  "set_prev key prev s = do {
     n \<leftarrow> getLRUHashTab key s;
     if n = 0 then None else Some (upd_lrn n (\<lambda>e. e\<lparr>ln_prev := prev\<rparr>) s) }"

definition movLRUCache :: "uint32 \<Rightarrow> kvsys \<Rightarrow> kvsys option" where
  "movLRUCache prev s =
    (if prev = 0 then None
     else
       let cur = le_next (lre s prev) in
       if cur = tailLRU s then Some s
       else if cur = 0 \<or> tailLRU s = 0 then None
       else
         let s1 = upd_lre prev (\<lambda>e. e\<lparr>le_next := le_next (lre s cur)\<rparr>) s;
             s2 = upd_lre (tailLRU s1) (\<lambda>e. e\<lparr>le_next := cur\<rparr>) s1;
             nx = le_next (lre s2 prev)
         in if nx = 0 then None
            else do {
              s3 \<leftarrow> set_prev (le_key (lre s2 nx)) prev s2;
              s4 \<leftarrow> set_prev (le_key (lre s3 cur)) (tailLRU s3) s3;
              Some (s4\<lparr>tailLRU := cur\<rparr>) })"

definition getLRUCache :: "uint32 \<Rightarrow> kvsys \<Rightarrow> (uint32 \<times> kvsys) option" where
  "getLRUCache key s = do {
     let s1 = s\<lparr>totalAccesses := totalAccesses s + 1\<rparr>;
     kvNode \<leftarrow> getKVHashTab key s1;
     let s2 = (if kvNode \<noteq> 0 then upd_kvn kvNode (\<lambda>e. e\<lparr>kv_count := kv_count e + 1\<rparr>) s1 else s1);
     lruNode \<leftarrow> getLRUHashTab key s2;
     if lruNode = 0 then Some (0, s2)
     else do {
       let s3 = s2\<lparr>totalHits := totalHits s2 + 1\<rparr>;
       s4 \<leftarrow> movLRUCache (ln_prev (lrn s3 lruNode)) s3;
       Some (tailLRU s4, s4) } }"

definition setLRUCache :: "uint32 \<Rightarrow> uint32 \<Rightarrow> kvsys \<Rightarrow> (int \<times> kvsys) option" where
  "setLRUCache key val s = do {
     let s1 = s\<lparr>totalSetSuccess := totalSetSuccess s + 1\<rparr>;
     (cur, s2) \<leftarrow> getLRUCache key s1;
     if cur \<noteq> 0 then Some (0, upd_lre cur (\<lambda>e. e\<lparr>le_val := val\<rparr>) s2)
     else if counterLRU s2 < LRU_CACHE_SIZE then do {
       (cur, s3) \<leftarrow> createLRUEntry key val (s2\<lparr>counterLRU := counterLRU s2 + 1\<rparr>);
       if tailLRU s3 = 0 then None
       else do {
         let s4 = upd_lre (tailLRU s3) (\<lambda>e. e\<lparr>le_next := cur\<rparr>) s3;
         (_, s5) \<leftarrow> setLRUHashTab key (tailLRU s4) s4;
         Some (0, s5\<lparr>tailLRU := cur\<rparr>) } }
     else do {
       let head = le_next (lre s2 (headLRU s2));
       if headLRU s2 = 0 \<or> head = 0 then None
       else do {
         (_, s3) \<leftarrow> delLRUHashTab (le_key (lre s2 head)) s2;
         let s4 = upd_lre head (\<lambda>e. e\<lparr>le_key := key, le_val := val\<rparr>) s3;
         (_, s5) \<leftarrow> setLRUHashTab key (headLRU s4) s4;
         s6 \<leftarrow> movLRUCache (headLRU s5) s5;
         Some (0, s6\<lparr>totalEvictions := totalEvictions s6 + 1\<rparr>) } } }"

definition delLRUCache :: "uint32 \<Rightarrow> kvsys \<Rightarrow> (int \<times> kvsys) option" where
  "delLRUCache key s = do {
     lruNode \<leftarrow> getLRUHashTab key s;
     if lruNode = 0 then Some (1, s)
     else do {
       let prev = ln_prev (lrn s lruNode);
       let cur = le_next (lre s prev);
       if prev = 0 \<or> cur = 0 then None
       else do {
         s1 \<leftarrow> (if cur = tailLRU s then Some (s\<lparr>tailLRU := prev\<rparr>)
                else if le_next (lre s cur) = 0 then None
                else set_prev (le_key (lre s (le_next (lre s cur)))) prev s);
         (_, s2) \<leftarrow> delLRUHashTab key s1;
         Some (0, upd_lre prev (\<lambda>e. e\<lparr>le_next := le_next (lre s2 cur)\<rparr>) s2) } } }"

section \<open>The interface\<close>

definition kv_set :: "uint32 \<Rightarrow> uint32 \<Rightarrow> kvsys \<Rightarrow> (int \<times> kvsys) option" where
  "kv_set key val s = do {
     (kvNode, s1) \<leftarrow> setKVHashTab key val s;
     if kvNode = 0 then None
     else do {
       (_, s2) \<leftarrow> setLRUCache (kv_key (kvn s1 kvNode)) (kv_val (kvn s1 kvNode)) s1;
       Some (0, s2) } }"

definition kv_get :: "uint32 \<Rightarrow> kvsys \<Rightarrow> (uint32 \<times> kvsys) option" where
  "kv_get key s = do {
     (lruEntry, s1) \<leftarrow> getLRUCache key s;
     if lruEntry \<noteq> 0 then Some (le_val (lre s1 lruEntry), s1)
     else do {
       kvNode \<leftarrow> getKVHashTab key s1;
       if kvNode \<noteq> 0 then Some (kv_val (kvn s1 kvNode), s1) else Some (0, s1) } }"

definition kv_delete :: "uint32 \<Rightarrow> kvsys \<Rightarrow> (int \<times> kvsys) option" where
  "kv_delete key s = do {
     (_, s1) \<leftarrow> delLRUCache key s;
     delKVHashTab key s1 }"

text \<open>The heads of the two tables, with \<open>n\<close> turns of the loop left. The result is what \<^verbatim>\<open>kv_init\<close> returns.\<close>

primrec kv_init_tabs :: "nat \<Rightarrow> int \<Rightarrow> kvsys \<Rightarrow> (int \<times> kvsys) option" where
  "kv_init_tabs 0 i s = Some (0, s)"
| "kv_init_tabs (Suc n) i s = do {
     (kvNode, s1) \<leftarrow> kv_getmem 16 s;
     if kvNode = 0 then Some (1, s1)
     else do {
       let s2 = upd_kvn kvNode (\<lambda>_. \<lparr>kv_key = 0, kv_val = 0, kv_count = 0, kv_next = 0\<rparr>) s1;
       let s3 = s2\<lparr>kvHashTab := (kvHashTab s2)(i := kvNode)\<rparr>;
       (lruNode, s4) \<leftarrow> kv_getmem 12 s3;
       if lruNode = 0 then Some (1, s4)
       else
         let s5 = upd_lrn lruNode (\<lambda>_. \<lparr>ln_key = 0, ln_prev = 0, ln_next = 0\<rparr>) s4
         in kv_init_tabs n (i + 1) (s5\<lparr>lruHashTab := (lruHashTab s5)(i := lruNode)\<rparr>) } }"

definition kv_init :: "kvsys \<Rightarrow> (int \<times> kvsys) option" where
  "kv_init s = do {
     x \<leftarrow> xmalloc_init (kx s);
     let s1 = s\<lparr>kx := x, counterLRU := 0, totalHits := 0, totalAccesses := 0, totalSetSuccess := 0, totalEvictions := 0\<rparr>;
     (h, s2) \<leftarrow> kv_getmem 12 s1;
     if h = 0 then Some (1, s2\<lparr>headLRU := h\<rparr>)
     else kv_init_tabs (nat HASH_TAB_SIZE) 0 (s2\<lparr>headLRU := h, tailLRU := h\<rparr>) }"

text \<open>The loops of \<^verbatim>\<open>kv_reset\<close>: over the cache, over one chain of each table, and over the tables.\<close>

partial_function (option) reset_lru :: "(uint32 \<Rightarrow> LRUEntry) \<Rightarrow> uint32 \<Rightarrow> unit option" where
  "reset_lru es p = (if p \<noteq> 0 then reset_lru es (le_next (es p)) else Some ())"

partial_function (option) reset_kv_chain :: "uint32 \<Rightarrow> kvsys \<Rightarrow> kvsys option" where
  "reset_kv_chain p s =
    (if p \<noteq> 0 then
       let e = kvn s p in do {
         _ \<leftarrow> (if kv_key e \<noteq> 0 then strsize (kbytes s) (kv_key e) else Some 0);
         s1 \<leftarrow> (if kv_val e \<noteq> 0 then kv_xfree (kv_val e) s else Some s);
         reset_kv_chain (kv_next e) s1 }
     else Some s)"

partial_function (option) reset_lru_chain :: "(uint32 \<Rightarrow> LRUNode) \<Rightarrow> uint32 \<Rightarrow> unit option" where
  "reset_lru_chain ns p = (if p \<noteq> 0 then reset_lru_chain ns (ln_next (ns p)) else Some ())"

primrec reset_tabs :: "nat \<Rightarrow> int \<Rightarrow> kvsys \<Rightarrow> kvsys option" where
  "reset_tabs 0 i s = Some s"
| "reset_tabs (Suc n) i s = do {
     s1 \<leftarrow> reset_kv_chain (kvHashTab s i) s;
     let s2 = s1\<lparr>kvHashTab := (kvHashTab s1)(i := 0)\<rparr>;
     _ \<leftarrow> reset_lru_chain (lrn s2) (lruHashTab s2 i);
     reset_tabs n (i + 1) (s2\<lparr>lruHashTab := (lruHashTab s2)(i := 0)\<rparr>) }"

definition kv_reset :: "kvsys \<Rightarrow> kvsys option" where
  "kv_reset s = do {
     let s1 = s\<lparr>counterLRU := 0, totalHits := 0, totalAccesses := 0, totalSetSuccess := 0, totalEvictions := 0\<rparr>;
     _ \<leftarrow> reset_lru (lre s1) (headLRU s1);
     reset_tabs (nat HASH_TAB_SIZE) 0 (s1\<lparr>headLRU := 0, tailLRU := 0\<rparr>) }"

definition get_cache_info :: "uint32 \<Rightarrow> kvsys \<Rightarrow> int" where
  "get_cache_info kind s =
    (if strncmp_lit 20 (kbytes s) kind (lit ''total_hits'') = 0 then totalHits s
     else if strncmp_lit 20 (kbytes s) kind (lit ''total_accesses'') = 0 then totalAccesses s
     else if strncmp_lit 20 (kbytes s) kind (lit ''total_set_success'') = 0 then totalSetSuccess s
     else if strncmp_lit 20 (kbytes s) kind (lit ''cache_size'') = 0 then LRU_CACHE_SIZE
     else if strncmp_lit 20 (kbytes s) kind (lit ''num_keys'') = 0 then counterLRU s
     else if strncmp_lit 20 (kbytes s) kind (lit ''total_evictions'') = 0 then totalEvictions s
     else - 1)"

end
