(* ===== verification/KV_Chains.thy ===== *)
theory KV_Chains
  imports KV_Store
begin

text \<open>
  The data structures of the key-value store as lists. A chain of a hash table behind its head
  node is a list of nodes; a table of chains is a finite map from strings to nodes; the
  cache is a doubly clinked list, whose backward links are found through a table.
\<close>

section \<open>Strings and their hash codes\<close>

definition hash_step :: "int \<Rightarrow> uchar \<Rightarrow> int" where
  "hash_step h c = (h * 31 + uint c) mod HASH_TAB_SIZE"

definition hashS :: "uchar list \<Rightarrow> int" where
  "hashS xs = foldl hash_step 0 (take MAX_KEY_SIZE xs)"

lemma hash_loop_cstr: "cstr m p xs \<Longrightarrow> hash_loop n m p h = foldl hash_step h (take n xs)"
proof (induction n arbitrary: p h xs)
  case (Suc n)
  then show ?case by (cases xs) (auto simp: hash_step_def)
qed simp

lemma hashFunc_cstr: "cstr m p xs \<Longrightarrow> xs \<noteq> [] \<Longrightarrow> p \<noteq> 0 \<Longrightarrow> hashFunc m p = hashS xs"
  by (cases xs) (simp_all add: hashFunc_def hashS_def hash_loop_cstr [of m p xs] del: cstr.simps, auto)

lemma hashS_range: "0 \<le> hashS xs" "hashS xs < 512"
proof -
  have "foldl hash_step h ys \<in> {0..<512}" if "h \<in> {0..<512}" for h ys
    using that by (induction ys arbitrary: h) (auto simp: hash_step_def HASH_TAB_SIZE_def)
  from this [of 0 "take MAX_KEY_SIZE xs"] show "0 \<le> hashS xs" "hashS xs < 512" by (auto simp: hashS_def)
qed

definition key_ok :: "uchar list \<Rightarrow> bool" where
  "key_ok xs \<longleftrightarrow> xs \<noteq> [] \<and> length xs < 2 ^ 31 - 1"

lemma strsize_cstr: "cstr m p xs \<Longrightarrow> length xs < 2 ^ 31 - 1 \<Longrightarrow> strsize m p = Some (int (length xs) + 1)"
proof -
  assume a: "cstr m p xs" "length xs < 2 ^ 31 - 1"
  have "sint (of_nat (length xs + 1) :: uint32) = int (length xs + 1)"
    using a(2) by (simp only: signed_of_nat) (simp add: signed_take_bit_int_eq_self)
  moreover have "(of_nat (length xs) + 1 :: uint32) = of_nat (length xs + 1)" by simp
  ultimately show ?thesis using strlen_cstr [OF a(1)] by (simp add: strsize_def add.commute)
qed

lemma strncmp_key:
  assumes "cstr m a xs" "cstr m key ys"
  shows "strncmp m a key (int (length ys) + 1) = 0 \<longleftrightarrow> xs = ys"
proof -
  have n: "nat (int (length ys) + 1) = length ys + 1" by simp
  have "strncmp m a key (int (length ys) + 1) = 0 \<longleftrightarrow> lexcmp (take (length ys + 1) xs) (take (length ys + 1) ys) = 0"
    using strncmp_cstr [OF assms, of "int (length ys) + 1"] unfolding n by (metis sgn_0_0)
  also have "\<dots> \<longleftrightarrow> take (length ys + 1) xs = ys" by (simp add: lexcmp_eq_0)
  also have "\<dots> \<longleftrightarrow> xs = ys"
  proof
    assume e: "take (length ys + 1) xs = ys"
    then have "min (length xs) (length ys + 1) = length ys" by (metis length_take)
    then have "length xs = length ys" by simp
    then show "xs = ys" using e by simp
  qed simp
  finally show ?thesis .
qed

section \<open>Chains\<close>

fun cpath :: "(uint32 \<Rightarrow> uint32) \<Rightarrow> uint32 \<Rightarrow> uint32 list \<Rightarrow> bool" where
  "cpath nxt p [] \<longleftrightarrow> nxt p = 0"
| "cpath nxt p (a # as) \<longleftrightarrow> nxt p = a \<and> a \<noteq> 0 \<and> cpath nxt a as"

lemma cpath_nz: "cpath nxt p as \<Longrightarrow> 0 \<notin> set as"
  by (induction as arbitrary: p) auto

lemma cpath_cong: "(\<And>a. a \<in> insert p (set as) \<Longrightarrow> nxt' a = nxt a) \<Longrightarrow> cpath nxt' p as = cpath nxt p as"
  by (induction as arbitrary: p) auto

lemma cpath_upd: "a \<notin> insert p (set as) \<Longrightarrow> cpath (nxt(a := q)) p as = cpath nxt p as"
  by (rule cpath_cong) auto

lemma cpath_snoc:
  assumes "cpath nxt p as" "distinct (p # as)" "a \<notin> insert p (set as)" "a \<noteq> 0" "nxt a = 0"
  shows "cpath (nxt(last (p # as) := a)) p (as @ [a])"
  using assms
proof (induction as arbitrary: p)
  case (Cons b as)
  have "cpath (nxt(last (b # as) := a)) b (as @ [a])" by (rule Cons.IH) (use Cons.prems in auto)
  moreover have "last (b # as) \<noteq> p" using Cons.prems(2) by (metis distinct.simps(2) last_in_set list.simps(3))
  ultimately show ?case using Cons.prems by (simp add: fun_upd_def)
qed simp

lemma cpath_unlink:
  assumes "cpath nxt p (as @ a # bs)" "distinct (p # as @ a # bs)"
  shows "cpath (nxt(last (p # as) := nxt a)) p (as @ bs)"
  using assms
proof (induction as arbitrary: p)
  case Nil
  have "cpath (nxt(p := nxt a)) a bs = cpath nxt a bs" by (rule cpath_upd) (use Nil in auto)
  then show ?case using Nil by (cases bs) (auto simp: fun_upd_def)
next
  case (Cons b as)
  have "cpath (nxt(last (b # as) := nxt a)) b (as @ bs)" by (rule Cons.IH) (use Cons.prems in auto)
  moreover have "last (b # as) \<noteq> p" using Cons.prems(2) by (auto simp: last_in_set split: if_splits)
  ultimately show ?case using Cons.prems by (simp add: fun_upd_def)
qed

lemma cpath_last: "cpath nxt p (as @ a # bs) \<Longrightarrow> nxt (last (p # as)) = a"
  by (induction as arbitrary: p) auto

definition node_or_null :: "uint32 option \<Rightarrow> uint32" where
  "node_or_null r = (case r of None \<Rightarrow> 0 | Some a \<Rightarrow> a)"

lemma chain_find_path:
  assumes "p \<noteq> 0" "cpath nxt p as" "\<And>a. a \<in> set as \<Longrightarrow> cstr m (ky a) (S (ky a))" "cstr m key x"
  shows "chain_find nxt ky m key (int (length x) + 1) p = Some (node_or_null (find (\<lambda>a. S (ky a) = x) as))"
  using assms(1-3)
proof (induction as arbitrary: p)
  case Nil
  then show ?case by (subst chain_find.simps) (simp add: node_or_null_def)
next
  case (Cons a as)
  have "strncmp m (ky a) key (int (length x) + 1) = 0 \<longleftrightarrow> S (ky a) = x" using strncmp_key Cons.prems(3) assms(4) by simp
  then show ?case using Cons by (subst chain_find.simps) (auto simp: node_or_null_def)
qed

lemma chain_before_path:
  assumes "p \<noteq> 0" "cpath nxt p (as @ bs)" "\<And>a. a \<in> set (as @ bs) \<Longrightarrow> cstr m (ky a) (S (ky a))" "cstr m key x"
    and "\<And>a. a \<in> set as \<Longrightarrow> S (ky a) \<noteq> x" "bs \<noteq> [] \<Longrightarrow> S (ky (hd bs)) = x"
  shows "chain_before nxt ky m key (int (length x) + 1) p = Some (if bs = [] then 0 else last (p # as))"
  using assms(1-3,5)
proof (induction as arbitrary: p)
  case Nil
  show ?case
  proof (cases bs)
    case Nil
    then show ?thesis using Nil.prems by (subst chain_before.simps) simp
  next
    case (Cons b bs')
    have "strncmp m (ky b) key (int (length x) + 1) = 0 \<longleftrightarrow> S (ky b) = x" using strncmp_key Nil.prems(3) [of b] assms(4) Cons by simp
    then show ?thesis using Nil.prems Cons assms(6) by (subst chain_before.simps) simp
  qed
next
  case (Cons a as)
  have "strncmp m (ky a) key (int (length x) + 1) = 0 \<longleftrightarrow> S (ky a) = x" using strncmp_key Cons.prems(3) assms(4) by simp
  moreover have "chain_before nxt ky m key (int (length x) + 1) a = Some (if bs = [] then 0 else last (a # as))"
    by (rule Cons.IH) (use Cons.prems in auto)
  ultimately show ?case using Cons.prems by (subst chain_before.simps) auto
qed

lemma chain_last_path: "p \<noteq> 0 \<Longrightarrow> cpath nxt p as \<Longrightarrow> chain_last nxt p = Some (last (p # as))"
proof (induction as arbitrary: p)
  case Nil
  then show ?case by (subst chain_last.simps) simp
next
  case (Cons a as)
  then show ?case by (subst chain_last.simps) simp
qed

section \<open>Tables as maps\<close>

text \<open>
  \<open>table T nxt str C\<close>: the chain behind the head \<open>T h\<close> is \<open>C h\<close>, for each hash code \<open>h\<close>; the nodes are all
  different; and node \<open>a\<close>, whose key is \<open>str a\<close>, is in the chain of its hash code.
\<close>

abbreviation codes :: "int set" where "codes \<equiv> {0..<512}"

definition nodes :: "(int \<Rightarrow> uint32 list) \<Rightarrow> uint32 set" where
  "nodes C = (\<Union>h\<in>codes. set (C h))"

definition table :: "(int \<Rightarrow> uint32) \<Rightarrow> (uint32 \<Rightarrow> uint32) \<Rightarrow> (uint32 \<Rightarrow> uchar list) \<Rightarrow> (int \<Rightarrow> uint32 list) \<Rightarrow> bool" where
  "table T nxt str C \<longleftrightarrow>
    (\<forall>h\<in>codes. T h \<noteq> 0 \<and> cpath nxt (T h) (C h) \<and> distinct (T h # C h) \<and> (\<forall>a\<in>set (C h). hashS (str a) = h) \<and>
       (\<forall>h'\<in>codes. h' \<noteq> h \<longrightarrow> set (T h # C h) \<inter> set (T h' # C h') = {})) \<and>
    inj_on str (nodes C)"

definition lookup :: "(uint32 \<Rightarrow> uchar list) \<Rightarrow> (int \<Rightarrow> uint32 list) \<Rightarrow> uchar list \<Rightarrow> uint32 option" where
  "lookup str C x = find (\<lambda>a. str a = x) (C (hashS x))"

lemma tableD:
  assumes "table T nxt str C" "h \<in> codes"
  shows "T h \<noteq> 0" "cpath nxt (T h) (C h)" "distinct (T h # C h)" "\<And>a. a \<in> set (C h) \<Longrightarrow> hashS (str a) = h"
    "\<And>h'. h' \<in> codes \<Longrightarrow> h' \<noteq> h \<Longrightarrow> set (T h # C h) \<inter> set (T h' # C h') = {}"
  using assms unfolding table_def by blast+

lemma hash_code: "hashS x \<in> codes"
  using hashS_range by simp

lemma lookup_iff:
  assumes "table T nxt str C"
  shows "lookup str C x = Some a \<longleftrightarrow> a \<in> nodes C \<and> str a = x"
proof
  assume "lookup str C x = Some a"
  then have "a \<in> set (C (hashS x))" "str a = x" unfolding lookup_def by (auto simp: find_Some_iff)
  then show "a \<in> nodes C \<and> str a = x" using hash_code by (auto simp: nodes_def simp del: atLeastLessThan_iff)
next
  assume a: "a \<in> nodes C \<and> str a = x"
  then obtain h where h: "h \<in> codes" "a \<in> set (C h)" by (auto simp: nodes_def)
  then have hx: "h = hashS x" using tableD(4) [OF assms] a by blast
  show "lookup str C x = Some a"
  proof (cases "lookup str C x")
    case None
    then show ?thesis using h(2) a unfolding lookup_def hx by (auto simp: find_None_iff)
  next
    case (Some b)
    then have "b \<in> set (C (hashS x))" "str b = x" unfolding lookup_def by (auto simp: find_Some_iff)
    then have "b \<in> nodes C" using hash_code by (auto simp: nodes_def simp del: atLeastLessThan_iff)
    then have "b = a" using assms a \<open>str b = x\<close> by (auto simp: table_def inj_on_def)
    then show ?thesis using Some by simp
  qed
qed

lemma lookup_None: "table T nxt str C \<Longrightarrow> lookup str C x = None \<longleftrightarrow> x \<notin> str ` nodes C"
  using lookup_iff [of T nxt str C x] by (metis imageE imageI not_None_eq)

lemma nodes_nz: "table T nxt str C \<Longrightarrow> 0 \<notin> nodes C"
  using cpath_nz tableD(2) by (fastforce simp: nodes_def)

lemma table_cong:
  assumes "table T nxt str C" "\<And>a. a \<in> nodes C \<union> T ` codes \<Longrightarrow> nxt' a = nxt a" "\<And>a. a \<in> nodes C \<Longrightarrow> str' a = str a"
  shows "table T nxt' str' C"
proof -
  have "cpath nxt' (T h) (C h) = cpath nxt (T h) (C h)" if "h \<in> codes" for h
  proof (rule cpath_cong)
    fix a assume "a \<in> insert (T h) (set (C h))"
    then have "a \<in> nodes C \<union> T ` codes" using that unfolding nodes_def by blast
    then show "nxt' a = nxt a" by (rule assms(2))
  qed
  moreover have "inj_on str' (nodes C) = inj_on str (nodes C)" by (rule inj_on_cong) (use assms(3) in simp)
  moreover have "hashS (str' a) = hashS (str a)" if "h \<in> codes" "a \<in> set (C h)" for h a
  proof -
    have "a \<in> nodes C" using that unfolding nodes_def by blast
    then show ?thesis using assms(3) by simp
  qed
  ultimately show ?thesis using assms(1) unfolding table_def by simp
qed

lemma nodes_upd: "h \<in> codes \<Longrightarrow> nodes (C(h := l)) = set l \<union> (\<Union>k\<in>codes - {h}. set (C k))"
proof -
  assume h: "h \<in> codes"
  then have c: "codes = insert h (codes - {h})" by auto
  have "nodes (C(h := l)) = (\<Union>k\<in>insert h (codes - {h}). set ((C(h := l)) k))" unfolding nodes_def using c by simp
  also have "\<dots> = set l \<union> (\<Union>k\<in>codes - {h}. set ((C(h := l)) k))" by (simp only: UN_insert fun_upd_same)
  also have "(\<Union>k\<in>codes - {h}. set ((C(h := l)) k)) = (\<Union>k\<in>codes - {h}. set (C k))" by (rule SUP_cong) auto
  finally show ?thesis .
qed

lemma nodes_split: "h \<in> codes \<Longrightarrow> nodes C = set (C h) \<union> (\<Union>k\<in>codes - {h}. set (C k))"
  using nodes_upd [of h C "C h"] by simp

text \<open>Replacing the chain of one hash code.\<close>

lemma table_upd:
  assumes t: "table T nxt str C" and h: "h \<in> codes"
    and p: "cpath nxt' (T h) l" "distinct (T h # l)" "\<And>a. a \<in> set l \<Longrightarrow> hashS (str' a) = h"
    and o: "\<And>a k. k \<in> codes \<Longrightarrow> k \<noteq> h \<Longrightarrow> a \<in> set (T k # C k) \<Longrightarrow> nxt' a = nxt a \<and> a \<notin> set l"
    and s: "\<And>a k. k \<in> codes \<Longrightarrow> k \<noteq> h \<Longrightarrow> a \<in> set (C k) \<Longrightarrow> str' a = str a"
    and i: "inj_on str' (nodes (C(h := l)))"
  shows "table T nxt' str' (C(h := l))"
proof -
  note D = tableD [OF t]
  have hk: "set (T h # l) \<inter> set (T k # C k) = {}" if "k \<in> codes" "k \<noteq> h" for k
    using o [OF that] D(5) [OF h that] by auto
  have path: "cpath nxt' (T k) (C k)" if "k \<in> codes" "k \<noteq> h" for k
    using D(2) [OF that(1)] cpath_cong [of "T k" "C k" nxt' nxt] o [OF that] by auto
  have one: "T k \<noteq> 0 \<and> cpath nxt' (T k) ((C(h := l)) k) \<and> distinct (T k # (C(h := l)) k) \<and> (\<forall>a\<in>set ((C(h := l)) k). hashS (str' a) = k)"
    if k: "k \<in> codes" for k
  proof (cases "k = h")
    case True
    then show ?thesis using p D(1) [OF h] by simp
  next
    case False
    then show ?thesis using path [OF k] D(1,3,4) [OF k] s [OF k] by simp
  qed
  have two: "set (T k # (C(h := l)) k) \<inter> set (T k' # (C(h := l)) k') = {}" if k: "k \<in> codes" "k' \<in> codes" "k' \<noteq> k" for k k'
  proof (cases "k = h"; cases "k' = h")
    assume "k = h" "k' \<noteq> h" then show ?thesis using hk [OF k(2)] by simp
  next
    assume "k \<noteq> h" "k' = h" then show ?thesis using hk [OF k(1)] by (auto simp: Int_commute)
  next
    assume "k \<noteq> h" "k' \<noteq> h" then show ?thesis using D(5) [OF k] by simp
  qed (use k in simp)
  show ?thesis unfolding table_def using one two i by blast
qed

lemma table_disjoint:
  assumes "table T nxt str C" "h \<in> codes" "k \<in> codes" "k \<noteq> h" "a \<in> set (T h # C h)"
  shows "a \<notin> set (T k # C k)"
  using tableD(5) [OF assms(1-4)] assms(5) by blast

lemma table_insert:
  assumes t: "table T nxt str C" and a: "a \<noteq> 0" "a \<notin> nodes C" "a \<notin> T ` codes" "nxt a = 0"
    and x: "x \<notin> str ` nodes C" "str' a = x" "\<And>b. b \<in> nodes C \<Longrightarrow> str' b = str b"
  defines "h \<equiv> hashS x"
  shows "table T (nxt(last (T h # C h) := a)) str' (C(h := C h @ [a]))" "nodes (C(h := C h @ [a])) = insert a (nodes C)"
proof -
  note D = tableD [OF t]
  have h: "h \<in> codes" unfolding h_def by (rule hash_code)
  have sub: "set (C k) \<subseteq> nodes C" if "k \<in> codes" for k using that unfolding nodes_def by blast
  have an: "a \<notin> set (T k # C k)" if "k \<in> codes" for k using a(2,3) sub [OF that] that by auto
  show n: "nodes (C(h := C h @ [a])) = insert a (nodes C)"
    unfolding nodes_upd [OF h] using nodes_split [OF h, of C] by auto
  show "table T (nxt(last (T h # C h) := a)) str' (C(h := C h @ [a]))"
  proof (rule table_upd [OF t h])
    show "cpath (nxt(last (T h # C h) := a)) (T h) (C h @ [a])"
      by (rule cpath_snoc [OF D(2,3) [OF h]]) (use an [OF h] a in auto)
    show "distinct (T h # C h @ [a])" using D(3) [OF h] an [OF h] by auto
    show "hashS (str' b) = h" if "b \<in> set (C h @ [a])" for b
      using that x(2,3) D(4) [OF h] sub [OF h] by (auto simp: h_def)
    show "(nxt(last (T h # C h) := a)) b = nxt b \<and> b \<notin> set (C h @ [a])" if k: "k \<in> codes" "k \<noteq> h" "b \<in> set (T k # C k)" for b k
    proof -
      have "b \<notin> set (T h # C h)" using table_disjoint [OF t k(1) h _ k(3)] k(2) by auto
      moreover from this have "b \<noteq> last (T h # C h)" using last_in_set [of "T h # C h"] by auto
      ultimately show ?thesis using an [OF k(1)] k(3) by auto
    qed
    show "str' b = str b" if "k \<in> codes" "k \<noteq> h" "b \<in> set (C k)" for b k using x(3) sub that by blast
    have "inj_on str (nodes C)" using t by (simp add: table_def)
    then show "inj_on str' (nodes (C(h := C h @ [a])))"
      unfolding n using x inj_on_cong [of "nodes C" str' str] a(2) by (auto simp: inj_on_insert)
  qed
qed

lemma table_remove:
  assumes t: "table T nxt str C" and C: "C (hashS (str a)) = A @ a # B"
  defines "h \<equiv> hashS (str a)"
  shows "table T (nxt(last (T h # A) := nxt a)) str (C(h := A @ B))" "nodes (C(h := A @ B)) = nodes C - {a}"
proof -
  note D = tableD [OF t] and C = C [folded h_def]
  have h: "h \<in> codes" unfolding h_def by (rule hash_code)
  have d: "distinct (T h # A @ a # B)" using D(3) [OF h] C by simp
  have ao: "a \<notin> set (C k)" if "k \<in> codes" "k \<noteq> h" for k using table_disjoint [OF t h that, of a] C by simp
  have "set (A @ B) = set (C h) - {a}" using d C by auto
  moreover have "(\<Union>k\<in>codes - {h}. set (C k)) = (\<Union>k\<in>codes - {h}. set (C k)) - {a}" using ao by blast
  ultimately show n: "nodes (C(h := A @ B)) = nodes C - {a}"
    unfolding nodes_upd [OF h] using nodes_split [OF h, of C] by (metis Un_Diff)
  show "table T (nxt(last (T h # A) := nxt a)) str (C(h := A @ B))"
  proof (rule table_upd [OF t h])
    show "cpath (nxt(last (T h # A) := nxt a)) (T h) (A @ B)"
      by (rule cpath_unlink) (use D(2) [OF h] d C in auto)
    show "distinct (T h # A @ B)" using d by auto
    show "hashS (str b) = h" if "b \<in> set (A @ B)" for b using that D(4) [OF h] C by auto
    show "(nxt(last (T h # A) := nxt a)) b = nxt b \<and> b \<notin> set (A @ B)" if k: "k \<in> codes" "k \<noteq> h" "b \<in> set (T k # C k)" for b k
    proof -
      have b: "b \<notin> set (T h # C h)" using table_disjoint [OF t k(1) h _ k(3)] k(2) by auto
      have "last (T h # A) \<in> set (T h # A)" by (rule last_in_set) simp
      then have "b \<noteq> last (T h # A)" using b C by auto
      then show ?thesis using b C by auto
    qed
    show "inj_on str (nodes (C(h := A @ B)))" unfolding n using t by (auto simp: table_def intro: inj_on_subset)
  qed simp
qed

lemma lookup_insert:
  assumes "table T nxt str C" "table T nxt' str' C'" "nodes C' = insert a (nodes C)" "a \<notin> nodes C" "\<And>b. b \<in> nodes C \<Longrightarrow> str' b = str b" "str' a \<notin> str ` nodes C"
  shows "lookup str' C' = (lookup str C)(str' a \<mapsto> a)"
proof
  fix y
  show "lookup str' C' y = ((lookup str C)(str' a \<mapsto> a)) y"
  proof (cases "y = str' a")
    case True
    then show ?thesis using lookup_iff [OF assms(2), of y a] assms(3) by simp
  next
    case False
    then have "lookup str' C' y = Some b \<longleftrightarrow> lookup str C y = Some b" for b
      using lookup_iff [OF assms(2), of y b] lookup_iff [OF assms(1), of y b] assms(3-5) by auto
    then show ?thesis using False by (cases "lookup str C y"; cases "lookup str' C' y") auto
  qed
qed

lemma lookup_remove:
  assumes "table T nxt str C" "table T nxt' str C'" "nodes C' = nodes C - {a}" "a \<in> nodes C"
  shows "lookup str C' = (lookup str C)(str a := None)"
proof
  fix y
  have inj: "inj_on str (nodes C)" using assms(1) by (simp add: table_def)
  have "lookup str C' y = Some b \<longleftrightarrow> lookup str C y = Some b \<and> y \<noteq> str a" for b
    using lookup_iff [OF assms(2), of y b] lookup_iff [OF assms(1), of y b] assms(3,4) inj by (auto simp: inj_on_def)
  then show "lookup str C' y = ((lookup str C)(str a := None)) y"
    by (cases "lookup str C y"; cases "lookup str C' y") auto
qed

section \<open>Doubly linked lists\<close>

fun clinked :: "(uint32 \<Rightarrow> uint32) \<Rightarrow> (uint32 \<Rightarrow> uint32) \<Rightarrow> uint32 \<Rightarrow> uint32 list \<Rightarrow> bool" where
  "clinked nx pv h [] \<longleftrightarrow> True"
| "clinked nx pv h (e # es) \<longleftrightarrow> nx h = e \<and> pv e = h \<and> clinked nx pv e es"

lemma clinked_append: "clinked nx pv h (as @ bs) \<longleftrightarrow> clinked nx pv h as \<and> clinked nx pv (last (h # as)) bs"
  by (induction as arbitrary: h) auto

lemma clinked_cong:
  assumes "\<And>e. e \<in> set (butlast (h # es)) \<Longrightarrow> nx' e = nx e" "\<And>e. e \<in> set es \<Longrightarrow> pv' e = pv e"
  shows "clinked nx' pv' h es = clinked nx pv h es"
  using assms by (induction es arbitrary: h) auto

lemma clinked_pv: "clinked nx pv h (as @ c # bs) \<Longrightarrow> pv c = last (h # as) \<and> nx (last (h # as)) = c"
  by (simp add: clinked_append)

lemma butlast_not_last: "distinct xs \<Longrightarrow> xs \<noteq> [] \<Longrightarrow> e \<in> set (butlast xs) \<Longrightarrow> e \<noteq> last xs"
  using append_butlast_last_id [of xs] by (metis disjoint_insert(1) distinct_append list.set(2))

text \<open>A node \<open>c\<close> added at the end; taken out; moved to the end.\<close>

lemma clinked_push:
  assumes "clinked nx pv h es" "distinct (h # es)" "c \<notin> set (h # es)" "t = last (h # es)"
  shows "clinked (nx(t := c)) (pv(c := t)) h (es @ [c])"
proof -
  have "clinked (nx(t := c)) (pv(c := t)) h es"
    using assms(1)
  proof (rule clinked_cong [THEN iffD2, rotated -1])
    show "(nx(t := c)) e = nx e" if "e \<in> set (butlast (h # es))" for e
      using butlast_not_last [OF assms(2) _ that] assms(4) by auto
    show "(pv(c := t)) e = pv e" if "e \<in> set es" for e using that assms(3) by auto
  qed
  then show ?thesis using assms(4) by (simp add: clinked_append)
qed

lemma clinked_remove:
  assumes "clinked nx pv h (as @ c # bs)" "distinct (h # as @ c # bs)" "q = last (h # as)"
  shows "clinked (nx(q := nx c)) (if bs = [] then pv else pv(hd bs := q)) h (as @ bs)"
proof -
  let ?nx = "nx(q := nx c)" and ?pv = "if bs = [] then pv else pv(hd bs := q)"
  have L: "clinked nx pv h as" "clinked nx pv c bs" using assms(1) by (simp_all add: clinked_append)
  have "q \<in> set (h # as)" unfolding assms(3) by (rule last_in_set) simp
  then have q: "q \<notin> set (c # bs)" using assms(2) by auto
  have "clinked ?nx ?pv h as"
    using L(1)
  proof (rule clinked_cong [THEN iffD2, rotated -1])
    show "?nx e = nx e" if "e \<in> set (butlast (h # as))" for e
      using butlast_not_last [OF _ _ that] assms(2,3) by auto
    show "?pv e = pv e" if "e \<in> set as" for e using that assms(2) by (cases bs) auto
  qed
  moreover have "clinked ?nx ?pv q bs"
  proof (cases bs)
    case (Cons b cs)
    have "clinked ?nx ?pv b cs = clinked nx pv b cs"
    proof (rule clinked_cong)
      show "?nx e = nx e" if "e \<in> set (butlast (b # cs))" for e using in_set_butlastD [OF that] q Cons by auto
      show "?pv e = pv e" if "e \<in> set cs" for e using that assms(2) Cons by auto
    qed
    then show ?thesis using L(2) Cons by simp
  qed simp
  ultimately show ?thesis using assms(3) by (simp add: clinked_append)
qed

lemma clinked_move:
  assumes l: "clinked nx pv h (as @ c # b # bs)" and d: "distinct (h # as @ c # b # bs)" and q: "q = last (h # as)" and t: "t = last (b # bs)"
  shows "clinked (nx(q := b, t := c)) (pv(b := q, c := t)) h (as @ b # bs @ [c])"
proof -
  have nc: "nx c = b" using l by (simp add: clinked_append)
  have "clinked (nx(q := b)) (pv(b := q)) h (as @ b # bs)" using clinked_remove [OF l d q] nc by simp
  then have "clinked (nx(q := b, t := c)) (pv(b := q, c := t)) h ((as @ b # bs) @ [c])"
    by (rule clinked_push) (use d t in auto)
  then show ?thesis by simp
qed

end
