(* ===== verification/KV_Cache.thy ===== *)
theory KV_Cache
  imports KV_Chains
begin

text \<open>
  The invariant of the key-value store and the operations that look keys up: what the two tables and the cache
  hold as maps and lists, and that a lookup returns the value of its key and makes the key the most recent one.
\<close>

section \<open>The shape of the store\<close>

definition knext :: "kvsys \<Rightarrow> uint32 \<Rightarrow> uint32" where "knext s a = kv_next (kvn s a)"
definition kkey :: "kvsys \<Rightarrow> uint32 \<Rightarrow> uint32" where "kkey s a = kv_key (kvn s a)"
definition kval :: "kvsys \<Rightarrow> uint32 \<Rightarrow> uint32" where "kval s a = kv_val (kvn s a)"
definition lnext :: "kvsys \<Rightarrow> uint32 \<Rightarrow> uint32" where "lnext s a = ln_next (lrn s a)"
definition lkey :: "kvsys \<Rightarrow> uint32 \<Rightarrow> uint32" where "lkey s a = ln_key (lrn s a)"
definition lprev :: "kvsys \<Rightarrow> uint32 \<Rightarrow> uint32" where "lprev s a = ln_prev (lrn s a)"
definition enext :: "kvsys \<Rightarrow> uint32 \<Rightarrow> uint32" where "enext s a = le_next (lre s a)"
definition ekey :: "kvsys \<Rightarrow> uint32 \<Rightarrow> uint32" where "ekey s a = le_key (lre s a)"
definition eval :: "kvsys \<Rightarrow> uint32 \<Rightarrow> uint32" where "eval s a = le_val (lre s a)"

lemmas accessors = knext_def kkey_def kval_def lnext_def lkey_def lprev_def enext_def ekey_def eval_def

text \<open>
  What the store represents: the chains of both tables, the entries of the cache from the least to the most recent,
  and the string behind each pointer to a key or a value.
\<close>

record kvghost =
  gC :: "int \<Rightarrow> uint32 list"
  gL :: "int \<Rightarrow> uint32 list"
  gE :: "uint32 list"
  gS :: "uint32 \<Rightarrow> uchar list"
  gV :: "uint32 \<Rightarrow> uchar list"

abbreviation kstr :: "kvsys \<Rightarrow> kvghost \<Rightarrow> uint32 \<Rightarrow> uchar list" where "kstr s g a \<equiv> gS g (kkey s a)"
abbreviation lstr :: "kvsys \<Rightarrow> kvghost \<Rightarrow> uint32 \<Rightarrow> uchar list" where "lstr s g a \<equiv> gS g (lkey s a)"
abbreviation estr :: "kvsys \<Rightarrow> kvghost \<Rightarrow> uint32 \<Rightarrow> uchar list" where "estr s g a \<equiv> gS g (ekey s a)"

text \<open>The nodes of a key in the two tables, and the backward link of a cache entry.\<close>

definition kvof :: "kvsys \<Rightarrow> kvghost \<Rightarrow> uchar list \<Rightarrow> uint32 option" where
  "kvof s g = lookup (kstr s g) (gC g)"

definition lruof :: "kvsys \<Rightarrow> kvghost \<Rightarrow> uchar list \<Rightarrow> uint32 option" where
  "lruof s g = lookup (lstr s g) (gL g)"

definition epv :: "kvsys \<Rightarrow> kvghost \<Rightarrow> uint32 \<Rightarrow> uint32" where
  "epv s g e = lprev s (the (lruof s g (estr s g e)))"

definition kvkeys :: "kvsys \<Rightarrow> kvghost \<Rightarrow> uint32 set" where
  "kvkeys s g = kkey s ` nodes (gC g)"

definition cache_ok :: "kvsys \<Rightarrow> kvghost \<Rightarrow> bool" where
  "cache_ok s g \<longleftrightarrow> distinct (headLRU s # gE g) \<and> headLRU s \<noteq> 0 \<and> 0 \<notin> set (gE g) \<and> tailLRU s = last (headLRU s # gE g) \<and>
     clinked (enext s) (epv s g) (headLRU s) (gE g) \<and> inj_on (estr s g) (set (gE g)) \<and> lstr s g ` nodes (gL g) = estr s g ` set (gE g)"

definition kvshape :: "kvsys \<Rightarrow> kvghost \<Rightarrow> bool" where
  "kvshape s g \<longleftrightarrow>
    table (kvHashTab s) (knext s) (kstr s g) (gC g) \<and> table (lruHashTab s) (lnext s) (lstr s g) (gL g) \<and> cache_ok s g \<and>
    (\<forall>p\<in>kvkeys s g. p \<noteq> 0 \<and> cstr (kbytes s) p (gS g p) \<and> key_ok (gS g p)) \<and>
    (\<forall>a\<in>nodes (gL g). lkey s a \<in> kvkeys s g) \<and>
    (\<forall>e\<in>set (gE g). ekey s e \<in> kvkeys s g)"

lemma kvshapeD:
  assumes "kvshape s g"
  shows "table (kvHashTab s) (knext s) (kstr s g) (gC g)" "table (lruHashTab s) (lnext s) (lstr s g) (gL g)" "cache_ok s g"
    "\<And>p. p \<in> kvkeys s g \<Longrightarrow> p \<noteq> 0 \<and> cstr (kbytes s) p (gS g p) \<and> key_ok (gS g p)"
    "\<And>a. a \<in> nodes (gL g) \<Longrightarrow> lkey s a \<in> kvkeys s g"
    "\<And>e. e \<in> set (gE g) \<Longrightarrow> ekey s e \<in> kvkeys s g"
  using assms unfolding kvshape_def by blast+

lemma cache_okD:
  assumes "cache_ok s g"
  shows "distinct (headLRU s # gE g)" "headLRU s \<noteq> 0" "0 \<notin> set (gE g)" "tailLRU s = last (headLRU s # gE g)"
    "clinked (enext s) (epv s g) (headLRU s) (gE g)" "inj_on (estr s g) (set (gE g))" "lstr s g ` nodes (gL g) = estr s g ` set (gE g)"
  using assms unfolding cache_ok_def by blast+

lemma kvshape_cong:
  assumes "knext t = knext s" "kkey t = kkey s" "lnext t = lnext s" "lkey t = lkey s" "lprev t = lprev s"
    "enext t = enext s" "ekey t = ekey s" "kbytes t = kbytes s" "kvHashTab t = kvHashTab s" "lruHashTab t = lruHashTab s"
    "headLRU t = headLRU s" "tailLRU t = tailLRU s"
  shows "kvshape t g = kvshape s g" "kvof t g = kvof s g" "lruof t g = lruof s g"
proof -
  show l: "lruof t g = lruof s g" and "kvof t g = kvof s g" using assms by (simp_all add: kvof_def lruof_def)
  have "epv t g = epv s g" using assms l by (simp add: epv_def fun_eq_iff)
  then show "kvshape t g = kvshape s g" using assms by (simp add: kvshape_def cache_ok_def kvkeys_def)
qed

section \<open>Looking up\<close>

text \<open>A key as a caller passes it.\<close>

definition is_key :: "kvsys \<Rightarrow> uint32 \<Rightarrow> uchar list \<Rightarrow> bool" where
  "is_key s key x \<longleftrightarrow> key \<noteq> 0 \<and> cstr (kbytes s) key x \<and> key_ok x"

lemma is_key_own: "kvshape s g \<Longrightarrow> p \<in> kvkeys s g \<Longrightarrow> is_key s p (gS g p)"
  using kvshapeD(4) by (auto simp: is_key_def)

lemma is_keyD:
  assumes "is_key s key x"
  shows "hashFunc (kbytes s) key = hashS x" "strsize (kbytes s) key = Some (int (length x) + 1)" "cstr (kbytes s) key x"
  using assms hashFunc_cstr strsize_cstr by (auto simp: is_key_def key_ok_def)

lemma chain_keys:
  assumes "kvshape s g" "h \<in> codes"
  shows "a \<in> set (gC g h) \<Longrightarrow> cstr (kbytes s) (kkey s a) (kstr s g a)" "a \<in> set (gL g h) \<Longrightarrow> cstr (kbytes s) (lkey s a) (lstr s g a)"
proof -
  have "a \<in> nodes (gC g)" if "a \<in> set (gC g h)" using that assms(2) unfolding nodes_def by blast
  then show "a \<in> set (gC g h) \<Longrightarrow> cstr (kbytes s) (kkey s a) (kstr s g a)"
    using kvshapeD(4) [OF assms(1), of "kkey s a"] by (simp add: kvkeys_def)
  have "a \<in> nodes (gL g)" if "a \<in> set (gL g h)" using that assms(2) unfolding nodes_def by blast
  then show "a \<in> set (gL g h) \<Longrightarrow> cstr (kbytes s) (lkey s a) (lstr s g a)"
    using kvshapeD(4) [OF assms(1), of "lkey s a"] kvshapeD(5) [OF assms(1)] by simp
qed

lemma getKVHashTab_ok:
  assumes I: "kvshape s g" and k: "is_key s key x"
  shows "getKVHashTab key s = Some (node_or_null (kvof s g x))"
proof -
  note K = is_keyD [OF k] and T = tableD [OF kvshapeD(1) [OF I] hash_code [of x]]
  have "chain_find (knext s) (kkey s) (kbytes s) key (int (length x) + 1) (kvHashTab s (hashS x)) = Some (node_or_null (kvof s g x))"
    unfolding kvof_def lookup_def by (rule chain_find_path [where S = "gS g" and ky = "kkey s", OF T(1,2) chain_keys(1) [OF I hash_code] K(3)])
  then show ?thesis using K hashS_range [of x] by (simp add: getKVHashTab_def knext_def [abs_def] kkey_def [abs_def])
qed

lemma getLRUHashTab_ok:
  assumes I: "kvshape s g" and k: "is_key s key x"
  shows "getLRUHashTab key s = Some (node_or_null (lruof s g x))"
proof -
  note K = is_keyD [OF k] and T = tableD [OF kvshapeD(2) [OF I] hash_code [of x]]
  have "chain_find (lnext s) (lkey s) (kbytes s) key (int (length x) + 1) (lruHashTab s (hashS x)) = Some (node_or_null (lruof s g x))"
    unfolding lruof_def lookup_def by (rule chain_find_path [where S = "gS g" and ky = "lkey s", OF T(1,2) chain_keys(2) [OF I hash_code] K(3)])
  then show ?thesis using K hashS_range [of x] by (simp add: getLRUHashTab_def lnext_def [abs_def] lkey_def [abs_def])
qed

lemma lruof_iff: "kvshape s g \<Longrightarrow> lruof s g x = Some l \<longleftrightarrow> l \<in> nodes (gL g) \<and> lstr s g l = x"
  unfolding lruof_def by (rule lookup_iff [OF kvshapeD(2)])

lemma kvof_iff: "kvshape s g \<Longrightarrow> kvof s g x = Some n \<longleftrightarrow> n \<in> nodes (gC g) \<and> kstr s g n = x"
  unfolding kvof_def by (rule lookup_iff [OF kvshapeD(1)])

lemma lruof_dom: "kvshape s g \<Longrightarrow> lruof s g x \<noteq> None \<longleftrightarrow> x \<in> estr s g ` set (gE g)"
  using lookup_None [OF kvshapeD(2), of s g x] cache_okD(7) [OF kvshapeD(3), of s g] by (simp add: lruof_def)

lemma lru_node_nz: "kvshape s g \<Longrightarrow> lruof s g x = Some l \<Longrightarrow> l \<noteq> 0"
  using lruof_iff nodes_nz [OF kvshapeD(2)] by metis

lemma entry_key:
  assumes "kvshape s g" "e \<in> set (gE g)"
  shows "ekey s e \<in> kvkeys s g" "is_key s (ekey s e) (estr s g e)" "\<exists>l. lruof s g (estr s g e) = Some l"
proof -
  show k: "ekey s e \<in> kvkeys s g" using kvshapeD(6) [OF assms] .
  then show "is_key s (ekey s e) (estr s g e)" by (rule is_key_own [OF assms(1)])
  show "\<exists>l. lruof s g (estr s g e) = Some l" using lruof_dom [OF assms(1)] assms(2) by blast
qed

lemma entry_node_eq:
  assumes I: "kvshape s g" and e: "e \<in> set (gE g)" "e' \<in> set (gE g)" "lruof s g (estr s g e) = Some l" "lruof s g (estr s g e') = Some l'"
  shows "l = l' \<longleftrightarrow> e = e'"
proof
  assume "l = l'"
  then have "estr s g e = estr s g e'" using lruof_iff [OF I] e(3,4) by metis
  then show "e = e'" using cache_okD(6) [OF kvshapeD(3) [OF I]] e(1,2) by (auto simp: inj_on_def)
qed (use e(3,4) in simp)

section \<open>Moving an entry to the end\<close>

lemma set_prev_ok:
  assumes "kvshape s g" "e \<in> set (gE g)" "lruof s g (estr s g e) = Some l" "kbytes t = kbytes s" "lnext t = lnext s" "lkey t = lkey s" "lruHashTab t = lruHashTab s"
  shows "set_prev (ekey s e) p t = Some (upd_lrn l (\<lambda>e. e\<lparr>ln_prev := p\<rparr>) t)"
proof -
  have "(\<lambda>a. ln_next (lrn t a)) = (\<lambda>a. ln_next (lrn s a))" "(\<lambda>a. ln_key (lrn t a)) = (\<lambda>a. ln_key (lrn s a))"
    using assms(5,6) by (simp_all add: lnext_def [abs_def] lkey_def [abs_def])
  then have "getLRUHashTab (ekey s e) t = getLRUHashTab (ekey s e) s" using assms(4,7) by (simp add: getLRUHashTab_def Let_def)
  then have "getLRUHashTab (ekey s e) t = Some l" using getLRUHashTab_ok [OF assms(1) entry_key(2) [OF assms(1,2)]] assms(3) by (simp add: node_or_null_def)
  then show ?thesis using lru_node_nz [OF assms(1,3)] by (simp add: set_prev_def)
qed

text \<open>Only the links between the entries of the cache differ.\<close>

definition same_nodes :: "kvsys \<Rightarrow> kvsys \<Rightarrow> bool" where
  "same_nodes s t \<longleftrightarrow> knext t = knext s \<and> kkey t = kkey s \<and> kval t = kval s \<and> lnext t = lnext s \<and> lkey t = lkey s \<and> ekey t = ekey s \<and> eval t = eval s"

lemma same_nodesD:
  assumes "same_nodes s t"
  shows "knext t = knext s" "kkey t = kkey s" "kval t = kval s" "lnext t = lnext s" "lkey t = lkey s" "ekey t = ekey s" "eval t = eval s"
  using assms by (simp_all add: same_nodes_def)

lemma movLRUCache_ok:
  assumes I: "kvshape s g" and E: "gE g = as @ c # bs" and q: "q = last (headLRU s # as)"
  obtains s' where "movLRUCache q s = Some s'" "kvshape s' (g\<lparr>gE := as @ bs @ [c]\<rparr>)" "tailLRU s' = c"
    "s' = s\<lparr>lre := lre s', lrn := lrn s', tailLRU := c\<rparr>" "same_nodes s s'" "bs \<noteq> [] \<Longrightarrow> enext s' c = hd bs"
proof -
  note C = cache_okD [OF kvshapeD(3) [OF I]]
  have nx: "enext s q = c" "epv s g c = q" using clinked_pv [of "enext s" "epv s g" "headLRU s" as c bs] C(5) E q by simp_all
  have qin: "q \<in> set (headLRU s # as)" unfolding q by (rule last_in_set) simp
  have q0: "q \<noteq> 0" "c \<noteq> 0" "q \<noteq> c" using qin C(1-3) E by auto
  show thesis
  proof (cases bs)
    case Nil
    then have "c = tailLRU s" using C(4) E by simp
    then have "movLRUCache q s = Some s" using nx(1) q0(1) by (simp add: movLRUCache_def enext_def)
    moreover have "g\<lparr>gE := as @ bs @ [c]\<rparr> = g" using Nil E by (cases g) simp
    ultimately show thesis by (intro that) (use I Nil \<open>c = tailLRU s\<close> in \<open>simp_all add: same_nodes_def\<close>)
  next
    case (Cons b bs')
    define t where "t = tailLRU s"
    have t: "t = last (b # bs')" using C(4) E Cons by (simp add: t_def)
    then have tin: "t \<in> set (b # bs')" by (metis last_in_set list.simps(3))
    have d: "distinct (headLRU s # as @ c # b # bs')" using C(1) E Cons by simp
    have tn: "t \<noteq> 0" "t \<noteq> q" "t \<noteq> c" "b \<noteq> 0" "b \<noteq> c" using tin C(3) E Cons d qin by auto
    have nc: "enext s c = b" using C(5) E Cons by (simp add: clinked_append)
    have inE: "b \<in> set (gE g)" "c \<in> set (gE g)" using E Cons by auto
    obtain lb lc where l: "lruof s g (estr s g b) = Some lb" "lruof s g (estr s g c) = Some lc" using entry_key(3) [OF I] inE by blast
    have lbc: "lb \<noteq> lc" using entry_node_eq [OF I inE l] tn(5) by simp
    define s2 where "s2 = upd_lre t (\<lambda>e. e\<lparr>le_next := c\<rparr>) (upd_lre q (\<lambda>e. e\<lparr>le_next := b\<rparr>) s)"
    define s3 where "s3 = upd_lrn lb (\<lambda>e. e\<lparr>ln_prev := q\<rparr>) s2"
    define s4 where "s4 = upd_lrn lc (\<lambda>e. e\<lparr>ln_prev := t\<rparr>) s3"
    have ek: "le_key (lre s2 e) = ekey s e" for e by (simp add: s2_def ekey_def)
    have "set_prev (ekey s b) q s2 = Some s3"
      unfolding s3_def by (rule set_prev_ok [OF I inE(1) l(1)]) (simp_all add: fun_eq_iff accessors s2_def)
    moreover have "set_prev (ekey s c) t s3 = Some s4"
      unfolding s4_def by (rule set_prev_ok [OF I inE(2) l(2)]) (simp_all add: fun_eq_iff accessors s3_def s2_def)
    ultimately have sp: "set_prev (ekey s b) q s2 = Some s3" "set_prev (ekey s c) t s3 = Some s4" by blast+
    have "movLRUCache q s = do {
        s3 \<leftarrow> set_prev (le_key (lre s2 (le_next (lre s2 q)))) q s2;
        s4 \<leftarrow> set_prev (le_key (lre s3 c)) (tailLRU s3) s3;
        Some (s4\<lparr>tailLRU := c\<rparr>) }"
      using q0 tn nx(1) nc by (simp add: movLRUCache_def Let_def enext_def t_def s2_def)
    moreover have "le_next (lre s2 q) = b" "le_key (lre s3 c) = ekey s c" "tailLRU s3 = t"
      using tn ek [of c] by (simp_all add: s2_def s3_def t_def)
    ultimately have mv: "movLRUCache q s = Some (s4\<lparr>tailLRU := c\<rparr>)" using sp ek [of b] by simp
    let ?u = "s4\<lparr>tailLRU := c\<rparr>" and ?g = "g\<lparr>gE := as @ bs @ [c]\<rparr>"
    have acc: "knext ?u = knext s" "kkey ?u = kkey s" "kval ?u = kval s" "lnext ?u = lnext s" "lkey ?u = lkey s" "ekey ?u = ekey s" "eval ?u = eval s"
        "enext ?u = (enext s)(q := b, t := c)" "lprev ?u = (lprev s)(lb := q, lc := t)"
      by (auto simp: fun_eq_iff accessors s4_def s3_def s2_def)
    have fld: "kbytes ?u = kbytes s" "kvHashTab ?u = kvHashTab s" "lruHashTab ?u = lruHashTab s" "headLRU ?u = headLRU s"
      by (simp_all add: s4_def s3_def s2_def)
    have lo: "lruof ?u ?g = lruof s g" by (simp add: lruof_def acc)
    have ep: "epv ?u ?g e = ((epv s g)(b := q, c := t)) e" if e: "e \<in> set (gE g)" for e
    proof -
      obtain le where le: "lruof s g (estr s g e) = Some le" using entry_key(3) [OF I e] by blast
      have "le = lb \<longleftrightarrow> e = b" "le = lc \<longleftrightarrow> e = c"
        using entry_node_eq [OF I e inE(1) le l(1)] entry_node_eq [OF I e inE(2) le l(2)] by blast+
      then show ?thesis using le l lbc by (simp add: epv_def lo acc)
    qed
    have "clinked (enext ?u) (epv ?u ?g) (headLRU s) (as @ b # bs' @ [c]) = clinked (enext ?u) ((epv s g)(b := q, c := t)) (headLRU s) (as @ b # bs' @ [c])"
      by (rule clinked_cong) (use ep E Cons in auto)
    moreover have "clinked ((enext s)(q := b, t := c)) ((epv s g)(b := q, c := t)) (headLRU s) (as @ b # bs' @ [c])"
      by (rule clinked_move) (use C(5) E Cons d q t in auto)
    ultimately have lk: "clinked (enext ?u) (epv ?u ?g) (headLRU ?u) (gE ?g)" using Cons fld acc by simp
    have se: "set (gE ?g) = set (gE g)" "distinct (headLRU ?u # gE ?g)" "tailLRU ?u = last (headLRU ?u # gE ?g)" using E d Cons fld by auto
    have "cache_ok ?u ?g" unfolding cache_ok_def using lk se C fld acc by simp
    then have "kvshape ?u ?g" using I se(1) unfolding kvshape_def kvkeys_def by (simp add: acc fld)
    moreover have "enext ?u c = hd bs" using acc(8) q0(3) tn(3) nc Cons by simp
    ultimately show thesis by (intro that [OF mv]) (simp_all add: acc same_nodes_def, simp add: s4_def s3_def s2_def)
  qed
qed


section \<open>The cache as a list of keys\<close>

text \<open>The keys of the cache from the least to the most recent, and what an access to a key does to them.\<close>

definition recent :: "kvsys \<Rightarrow> kvghost \<Rightarrow> uchar list list" where
  "recent s g = map (estr s g) (gE g)"

definition touch :: "'a \<Rightarrow> 'a list \<Rightarrow> 'a list" where
  "touch x q = (if x \<in> set q then remove1 x q @ [x] else q)"

lemma remove1_map:
  assumes "inj_on f (set (as @ e # bs))" "distinct (as @ e # bs)"
  shows "remove1 (f e) (map f (as @ e # bs)) = map f (as @ bs)"
proof -
  have "f e \<notin> f ` set as" using assms by (auto simp: inj_on_def)
  then show ?thesis by (simp add: remove1_append)
qed

lemma recent_distinct: "kvshape s g \<Longrightarrow> distinct (recent s g)"
  using cache_okD(1,6) [OF kvshapeD(3), of s g] by (simp add: recent_def distinct_map)

lemma recent_set: "kvshape s g \<Longrightarrow> x \<in> set (recent s g) \<longleftrightarrow> lruof s g x \<noteq> None"
  using lruof_dom [of s g x] by (simp add: recent_def)

lemma entry_split:
  assumes I: "kvshape s g" and x: "lruof s g x = Some l"
  obtains as e bs where "gE g = as @ e # bs" "estr s g e = x" "lprev s l = last (headLRU s # as)" "recent s g = map (estr s g) as @ x # map (estr s g) bs"
    "remove1 x (recent s g) = map (estr s g) (as @ bs)"
proof -
  note C = cache_okD [OF kvshapeD(3) [OF I]]
  obtain e where e: "e \<in> set (gE g)" "estr s g e = x" using lruof_dom [OF I, of x] x by auto
  then obtain as bs where E: "gE g = as @ e # bs" by (meson split_list)
  have "epv s g e = last (headLRU s # as)" using clinked_pv [of "enext s" "epv s g" "headLRU s" as e bs] C(5) E by simp
  then have lp: "lprev s l = last (headLRU s # as)" using x e(2) by (simp add: epv_def)
  have rm: "remove1 x (recent s g) = map (estr s g) (as @ bs)"
    using remove1_map [of "estr s g" as e bs] C(1,6) E e(2) by (simp add: recent_def)
  have "recent s g = map (estr s g) as @ x # map (estr s g) bs" by (simp add: recent_def E e(2))
  then show thesis by (rule that [OF E e(2) lp _ rm])
qed

lemma getLRUCache_ok:
  assumes I: "kvshape s g" and k: "is_key s key x"
  obtains s' es where "getLRUCache key s = Some (if x \<in> set (recent s g) then tailLRU s' else 0, s')" "kvshape s' (g\<lparr>gE := es\<rparr>)" "set es = set (gE g)"
    "recent s' (g\<lparr>gE := es\<rparr>) = touch x (recent s g)" "x \<in> set (recent s g) \<Longrightarrow> es \<noteq> [] \<and> tailLRU s' = last es \<and> estr s g (last es) = x"
    "same_nodes s s'" "s' = s\<lparr>kvn := kvn s', lre := lre s', lrn := lrn s', tailLRU := tailLRU s', totalAccesses := totalAccesses s + 1,
       totalHits := totalHits s + (if x \<in> set (recent s g) then 1 else 0)\<rparr>"
    "x \<in> set (recent s g) \<Longrightarrow> x \<noteq> last (recent s g) \<Longrightarrow> enext s' (last es) \<in> set es"
proof -
  define s1 where "s1 = s\<lparr>totalAccesses := totalAccesses s + 1\<rparr>"
  define n where "n = node_or_null (kvof s g x)"
  define s2 where "s2 = (if n \<noteq> 0 then upd_kvn n (\<lambda>e. e\<lparr>kv_count := kv_count e + 1\<rparr>) s1 else s1)"
  have I1: "kvshape s1 g" "kvof s1 g = kvof s g" using I kvshape_cong [of s1 s g] by (simp_all add: s1_def fun_eq_iff accessors)
  have f: "kbytes s1 = kbytes s" "kbytes s2 = kbytes s" "headLRU s2 = headLRU s" by (simp_all add: s1_def s2_def)
  then have k1: "is_key s1 key x" "is_key s2 key x" using k by (simp_all add: is_key_def)
  have a2: "same_nodes s s2" by (auto simp: same_nodes_def s1_def s2_def fun_eq_iff accessors)
  have a3: "lprev s2 = lprev s" by (simp add: s1_def s2_def fun_eq_iff accessors)
  have I2: "kvshape s2 g" "lruof s2 g = lruof s g"
    using I kvshape_cong [of s2 s g] a2 a3 by (simp_all add: same_nodes_def s1_def s2_def fun_eq_iff accessors)
  have rc: "recent s2 g = recent s g" using a2 by (simp add: recent_def same_nodes_def)
  have g1: "getKVHashTab key s1 = Some n" using getKVHashTab_ok [OF I1(1) k1(1)] I1(2) by (simp add: n_def)
  have g2: "getLRUHashTab key s2 = Some (node_or_null (lruof s g x))" using getLRUHashTab_ok [OF I2(1) k1(2)] I2(2) by simp
  have e: "getLRUCache key s = (if node_or_null (lruof s g x) = 0 then Some (0, s2) else
      do { s4 \<leftarrow> movLRUCache (lprev s2 (node_or_null (lruof s g x))) (s2\<lparr>totalHits := totalHits s2 + 1\<rparr>); Some (tailLRU s4, s4) })"
    using g1 g2 by (simp add: getLRUCache_def Let_def s1_def [symmetric] s2_def [symmetric] lprev_def)
  show thesis
  proof (cases "lruof s g x")
    case None
    then have "x \<notin> set (recent s g)" using recent_set [OF I] by simp
    moreover have "g\<lparr>gE := gE g\<rparr> = g" by simp
    ultimately show thesis using that [of s2 "gE g"] e None I2 a2 rc by (simp add: node_or_null_def touch_def) (simp add: s2_def s1_def)
  next
    case (Some l)
    let ?s3 = "s2\<lparr>totalHits := totalHits s2 + 1\<rparr>"
    have I3: "kvshape ?s3 g" using I2(1) kvshape_cong(1) [of ?s3 s2 g] by (simp add: fun_eq_iff accessors)
    have x: "x \<in> set (recent s g)" using recent_set [OF I] Some by simp
    have l0: "l \<noteq> 0" by (rule lru_node_nz [OF I Some])
    obtain as c bs where E: "gE g = as @ c # bs" "estr s g c = x" "lprev s l = last (headLRU s # as)"
        "recent s g = map (estr s g) as @ x # map (estr s g) bs" "remove1 x (recent s g) = map (estr s g) (as @ bs)"
      by (rule entry_split [OF I Some]) (rule that; assumption)
    have q: "lprev s2 l = last (headLRU ?s3 # as)" using E(3) a3 f(3) by simp
    obtain s' where M: "movLRUCache (lprev s2 l) ?s3 = Some s'" "kvshape s' (g\<lparr>gE := as @ bs @ [c]\<rparr>)" "tailLRU s' = c"
        "s' = ?s3\<lparr>lre := lre s', lrn := lrn s', tailLRU := c\<rparr>" "same_nodes ?s3 s'" "bs \<noteq> [] \<Longrightarrow> enext s' c = hd bs"
      by (rule movLRUCache_ok [OF I3 E(1) q]) (rule that; assumption)
    have sn: "same_nodes s s'" using M(5) a2 by (simp add: same_nodes_def fun_eq_iff accessors)
    have "recent s' (g\<lparr>gE := as @ bs @ [c]\<rparr>) = touch x (recent s g)"
      using x E(2,5) same_nodesD [OF sn] by (simp add: touch_def) (simp add: recent_def)
    moreover have "s' = s\<lparr>kvn := kvn s', lre := lre s', lrn := lrn s', tailLRU := tailLRU s', totalAccesses := totalAccesses s + 1, totalHits := totalHits s + 1\<rparr>"
    proof -
      obtain L N where "s' = ?s3\<lparr>lre := L, lrn := N, tailLRU := c\<rparr>" using M(4) by blast
      then show ?thesis by (cases "n = 0") (simp_all add: s2_def s1_def)
    qed
    moreover have "bs \<noteq> []" if "x \<noteq> last (recent s g)" using that E(4) by auto
    then have "enext s' c \<in> set (as @ bs @ [c])" if "x \<noteq> last (recent s g)" using that M(6) by simp
    ultimately show thesis using that [of s' "as @ bs @ [c]"] e Some l0 M(1-3) x sn E(1,2) by (simp add: node_or_null_def)
  qed
qed

end
