(* ===== verification/KV_Update.thy ===== *)
theory KV_Update
  imports KV_Cache
begin

text \<open>
  The operations that change the tables and the cache of the key-value store: removing a node from a chain,
  adding one, taking an entry out of the cache, adding one and evicting the least recent one.
\<close>

section \<open>Removing from a table\<close>

lemma find_split: "find P xs = Some a \<Longrightarrow> \<exists>as bs. xs = as @ a # bs \<and> P a \<and> (\<forall>b\<in>set as. \<not> P b)"
proof (induction xs)
  case (Cons y ys)
  show ?case
  proof (cases "P y")
    case True
    then show ?thesis using Cons.prems by (intro exI [of _ "[]"] exI [of _ ys]) simp
  next
    case False
    then obtain as bs where "ys = as @ a # bs" "P a" "\<forall>b\<in>set as. \<not> P b" using Cons by auto
    then show ?thesis using False by (intro exI [of _ "y # as"] exI [of _ bs]) simp
  qed
qed simp

lemma chain_before_ok:
  assumes t: "table T nxt (\<lambda>a. S (ky a)) C" and ks: "\<forall>a\<in>nodes C. cstr m (ky a) (S (ky a))" and k: "cstr m key x"
  defines "h \<equiv> hashS x"
  shows "lookup (\<lambda>a. S (ky a)) C x = None \<Longrightarrow> chain_before nxt ky m key (int (length x) + 1) (T h) = Some 0"
    "lookup (\<lambda>a. S (ky a)) C x = Some l \<Longrightarrow> \<exists>A B. C h = A @ l # B \<and> S (ky l) = x \<and> last (T h # A) \<noteq> 0 \<and> nxt (last (T h # A)) = l \<and>
      chain_before nxt ky m key (int (length x) + 1) (T h) = Some (last (T h # A))"
proof -
  have h: "h \<in> codes" unfolding h_def by (rule hash_code)
  note D = tableD [OF t h]
  have sub: "a \<in> nodes C" if "a \<in> set (C h)" for a using that h unfolding nodes_def by blast
  {
    assume "lookup (\<lambda>a. S (ky a)) C x = None"
    then have n: "S (ky a) \<noteq> x" if "a \<in> set (C h)" for a using that by (auto simp: lookup_def find_None_iff h_def)
    show "chain_before nxt ky m key (int (length x) + 1) (T h) = Some 0"
      using chain_before_path [where bs = "[]" and S = S, OF D(1) _ _ k] D(2) ks sub n by simp
  next
    assume f: "lookup (\<lambda>a. S (ky a)) C x = Some l"
    then obtain A B where C: "C h = A @ l # B" and A: "\<forall>a\<in>set A. S (ky a) \<noteq> x" and l: "S (ky l) = x"
      using find_split [of _ "C h" l] unfolding lookup_def h_def [symmetric] by blast
    have "chain_before nxt ky m key (int (length x) + 1) (T h) = Some (last (T h # A))"
      using chain_before_path [where as = A and bs = "l # B" and S = S, OF D(1) _ _ k] D(2) C ks sub A l by simp
    moreover have "last (T h # A) \<in> set (T h # A)" by (rule last_in_set) simp
    then have "last (T h # A) \<noteq> 0" using D(1) cpath_nz [OF D(2)] C by auto
    moreover have "nxt (last (T h # A)) = l" using D(2) C cpath_last [of nxt "T h" A l B] by simp
    ultimately show "\<exists>A B. C h = A @ l # B \<and> S (ky l) = x \<and> last (T h # A) \<noteq> 0 \<and> nxt (last (T h # A)) = l \<and>
        chain_before nxt ky m key (int (length x) + 1) (T h) = Some (last (T h # A))"
      using C l by blast
  }
qed

lemma delLRUHashTab_ok:
  assumes t: "table (lruHashTab s) (lnext s) (\<lambda>a. S (lkey s a)) L" and ks: "\<forall>a\<in>nodes L. cstr (kbytes s) (lkey s a) (S (lkey s a))"
    and k: "is_key s key x" and l: "lookup (\<lambda>a. S (lkey s a)) L x = Some l"
  obtains s' L' where "delLRUHashTab key s = Some (0, s')" "table (lruHashTab s) (lnext s') (\<lambda>a. S (lkey s a)) L'" "nodes L' = nodes L - {l}"
    "lookup (\<lambda>a. S (lkey s a)) L' = (lookup (\<lambda>a. S (lkey s a)) L)(x := None)" "s' = s\<lparr>lrn := lrn s'\<rparr>" "lkey s' = lkey s" "lprev s' = lprev s"
proof -
  note K = is_keyD [OF k]
  let ?h = "hashS x"
  obtain A B where C: "L ?h = A @ l # B" "S (lkey s l) = x" "last (lruHashTab s ?h # A) \<noteq> 0" "lnext s (last (lruHashTab s ?h # A)) = l"
      "chain_before (lnext s) (lkey s) (kbytes s) key (int (length x) + 1) (lruHashTab s ?h) = Some (last (lruHashTab s ?h # A))"
    using chain_before_ok(2) [where S = S and ky = "lkey s", OF t ks K(3) l] by blast
  define p where "p = last (lruHashTab s ?h # A)"
  let ?s = "upd_lrn p (\<lambda>e. e\<lparr>ln_next := lnext s l\<rparr>) s"
  have e: "delLRUHashTab key s = Some (0, ?s)"
    using K hashS_range [of x] C(3-5) by (simp add: delLRUHashTab_def Let_def lnext_def [abs_def] lkey_def [abs_def] p_def)
  have nx: "lnext ?s = (lnext s)(p := lnext s l)" by (auto simp: accessors)
  have ac: "lkey ?s = lkey s" "lprev ?s = lprev s" by (simp_all add: fun_eq_iff accessors)
  note R = table_remove [OF t, of l A B, unfolded C(2), OF C(1), folded p_def]
  have ln: "l \<in> nodes L" using lookup_iff [OF t] l by simp
  note U = lookup_remove [OF t R ln, unfolded C(2)]
  show thesis by (rule that [OF e _ R(2) U _ ac]) (use R(1) nx in simp_all)
qed


section \<open>Taking an entry out of the cache\<close>

text \<open>A change of the cache that leaves the table of nodes alone.\<close>

lemma kvshape_lru:
  assumes I: "kvshape s g" and u: "kvHashTab u = kvHashTab s" "knext u = knext s" "kkey u = kkey s" "kbytes u = kbytes s"
    and t: "table (lruHashTab u) (lnext u) (lstr u g) L" and c: "cache_ok u (g\<lparr>gE := es, gL := L\<rparr>)"
    and k: "\<forall>a\<in>nodes L. lkey u a \<in> kvkeys s g" "\<forall>e\<in>set es. ekey u e \<in> kvkeys s g"
  shows "kvshape u (g\<lparr>gE := es, gL := L\<rparr>)"
proof -
  have "kvkeys u (g\<lparr>gE := es, gL := L\<rparr>) = kvkeys s g" using u(3) by (simp add: kvkeys_def)
  then show ?thesis using I u t c k unfolding kvshape_def by simp
qed

lemma image_remove:
  assumes "inj_on f (set (as @ c # bs))" "distinct (as @ c # bs)"
  shows "f ` set (as @ bs) = f ` set (as @ c # bs) - {f c}"
  using assms by (auto simp: inj_on_def)

text \<open>The first part of \<^verbatim>\<open>delLRUCache\<close>: the tail pointer, or the backward link of the entry that follows.\<close>

definition del_relink :: "uint32 \<Rightarrow> uint32 \<Rightarrow> kvsys \<Rightarrow> kvsys option" where
  "del_relink prev cur s =
    (if cur = tailLRU s then Some (s\<lparr>tailLRU := prev\<rparr>)
     else if le_next (lre s cur) = 0 then None
     else set_prev (le_key (lre s (le_next (lre s cur)))) prev s)"

lemma delLRUCache_relink:
  assumes "getLRUHashTab key s = Some l" "l \<noteq> 0" "ln_prev (lrn s l) = q" "q \<noteq> 0" "le_next (lre s q) = c" "c \<noteq> 0"
  shows "delLRUCache key s = do { s1 \<leftarrow> del_relink q c s; (_, s2) \<leftarrow> delLRUHashTab key s1; Some (0, upd_lre q (\<lambda>e. e\<lparr>le_next := le_next (lre s2 c)\<rparr>) s2) }"
  using assms by (simp add: delLRUCache_def del_relink_def Let_def)

lemma del_relink_ok:
  assumes I: "kvshape s g" and E: "gE g = as @ c # bs" and q: "q = last (headLRU s # as)"
  obtains s1 where "del_relink q c s = Some s1" "s1 = s\<lparr>lrn := lrn s1, tailLRU := tailLRU s1\<rparr>" "lnext s1 = lnext s" "lkey s1 = lkey s"
    "tailLRU s1 = last (headLRU s # as @ bs)"
    "\<And>e l. e \<in> set (as @ bs) \<Longrightarrow> lruof s g (estr s g e) = Some l \<Longrightarrow> lprev s1 l = (if bs = [] then epv s g else (epv s g)(hd bs := q)) e"
proof -
  note C = cache_okD [OF kvshapeD(3) [OF I]]
  show thesis
  proof (cases bs)
    case Nil
    then have "c = tailLRU s" using C(4) E by simp
    then have "del_relink q c s = Some (s\<lparr>tailLRU := q\<rparr>)" by (simp add: del_relink_def)
    then show thesis by (rule that) (use Nil q in \<open>auto simp: fun_eq_iff accessors epv_def\<close>)
  next
    case (Cons b bs')
    have d: "distinct (as @ c # b # bs')" "0 \<notin> set (gE g)" using C(1,3) E Cons by auto
    have t: "tailLRU s = last (b # bs')" using C(4) E Cons by simp
    then have "tailLRU s \<in> set (b # bs')" by (metis last_in_set list.simps(3))
    then have ct: "c \<noteq> tailLRU s" "b \<noteq> 0" using d E Cons by auto
    have nc: "enext s c = b" using C(5) E Cons by (simp add: clinked_append)
    have bE: "b \<in> set (gE g)" using E Cons by simp
    obtain lb where lb: "lruof s g (estr s g b) = Some lb" using entry_key(3) [OF I bE] by blast
    let ?s = "upd_lrn lb (\<lambda>e. e\<lparr>ln_prev := q\<rparr>) s"
    have "set_prev (ekey s b) q s = Some ?s" by (rule set_prev_ok [OF I bE lb]) simp_all
    then have e: "del_relink q c s = Some ?s" using ct nc by (simp add: del_relink_def accessors)
    have pv: "lprev ?s l = ((epv s g)(b := q)) e" if "e \<in> set (as @ bs)" "lruof s g (estr s g e) = Some l" for e l
    proof -
      have eE: "e \<in> set (gE g)" using that(1) E by auto
      have "l = lb \<longleftrightarrow> e = b" by (rule entry_node_eq [OF I eE bE that(2) lb])
      then show ?thesis using that(2) by (simp add: accessors epv_def)
    qed
    show thesis by (rule that [OF e]) (use Cons t pv in \<open>simp_all add: fun_eq_iff accessors\<close>)
  qed
qed

lemma delLRUCache_ok:
  assumes I: "kvshape s g" and k: "is_key s key x" and l: "lruof s g x = Some l"
  obtains s' es L where "delLRUCache key s = Some (0, s')" "kvshape s' (g\<lparr>gE := es, gL := L\<rparr>)" "recent s' (g\<lparr>gE := es, gL := L\<rparr>) = remove1 x (recent s g)"
    "set es \<subseteq> set (gE g)" "nodes L \<subseteq> nodes (gL g)" "s' = s\<lparr>lre := lre s', lrn := lrn s', tailLRU := tailLRU s'\<rparr>" "ekey s' = ekey s" "eval s' = eval s"
proof -
  note C = cache_okD [OF kvshapeD(3) [OF I]] and K = kvshapeD [OF I]
  obtain as c bs where E: "gE g = as @ c # bs" "estr s g c = x" "lprev s l = last (headLRU s # as)" "recent s g = map (estr s g) as @ x # map (estr s g) bs"
      "remove1 x (recent s g) = map (estr s g) (as @ bs)"
    by (rule entry_split [OF I l]) (rule that; assumption)
  define q where "q = last (headLRU s # as)"
  have qin: "q \<in> set (headLRU s # as)" unfolding q_def by (rule last_in_set) simp
  have d: "distinct (headLRU s # as @ c # bs)" using C(1) E by simp
  have q0: "q \<noteq> 0" "c \<noteq> 0" using qin C(2,3) E by auto
  have nq: "enext s q = c" using clinked_pv [of "enext s" "epv s g" "headLRU s" as c bs] C(5) E(1) by (simp add: q_def)
  obtain s1 where R: "del_relink q c s = Some s1" "s1 = s\<lparr>lrn := lrn s1, tailLRU := tailLRU s1\<rparr>" "lnext s1 = lnext s" "lkey s1 = lkey s"
      "tailLRU s1 = last (headLRU s # as @ bs)"
      "\<And>e l. e \<in> set (as @ bs) \<Longrightarrow> lruof s g (estr s g e) = Some l \<Longrightarrow> lprev s1 l = (if bs = [] then epv s g else (epv s g)(hd bs := q)) e"
    by (rule del_relink_ok [OF I E(1) q_def]) (rule that; assumption)
  have f1: "kbytes s1 = kbytes s" "lruHashTab s1 = lruHashTab s" "lre s1 = lre s" "headLRU s1 = headLRU s" by (subst R(2), simp)+
  have t1: "table (lruHashTab s1) (lnext s1) (lstr s1 g) (gL g)" using K(2) by (simp add: R(3,4) f1)
  have k1: "is_key s1 key x" using k by (simp add: is_key_def f1)
  have c1: "\<forall>a\<in>nodes (gL g). cstr (kbytes s1) (lkey s1 a) (lstr s1 g a)" using K(4) [OF K(5)] by (simp add: f1 R(4))
  have l1: "lookup (lstr s1 g) (gL g) x = Some l" using l by (simp add: lruof_def R(4))
  obtain s2 L where D: "delLRUHashTab key s1 = Some (0, s2)" "table (lruHashTab s1) (lnext s2) (lstr s1 g) L" "nodes L = nodes (gL g) - {l}"
      "lookup (lstr s1 g) L = (lookup (lstr s1 g) (gL g))(x := None)" "s2 = s1\<lparr>lrn := lrn s2\<rparr>" "lkey s2 = lkey s1" "lprev s2 = lprev s1"
    by (rule delLRUHashTab_ok [where S = "gS g", OF t1 c1 k1 l1]) (rule that; assumption)
  have f2: "lre s2 = lre s" "kvn s2 = kvn s" "kbytes s2 = kbytes s" "kvHashTab s2 = kvHashTab s" "lruHashTab s2 = lruHashTab s" "headLRU s2 = headLRU s"
      "tailLRU s2 = tailLRU s1"
    by (subst D(5), subst R(2), simp)+
  let ?u = "upd_lre q (\<lambda>e. e\<lparr>le_next := enext s c\<rparr>) s2" and ?g = "g\<lparr>gE := as @ bs, gL := L\<rparr>"
  have lp: "ln_prev (lrn s l) = q" using E(3) by (simp add: q_def lprev_def)
  have nq': "le_next (lre s q) = c" using nq by (simp add: enext_def)
  have g1: "getLRUHashTab key s = Some l" "l \<noteq> 0" using getLRUHashTab_ok [OF I k] l lru_node_nz [OF I l] by (simp_all add: node_or_null_def)
  have e: "delLRUCache key s = Some (0, ?u)"
    using delLRUCache_relink [OF g1 lp q0(1) nq' q0(2)] R(1) D(1) f2(1) by (simp add: enext_def)
  have acc: "knext ?u = knext s" "kkey ?u = kkey s" "ekey ?u = ekey s" "eval ?u = eval s" "enext ?u = (enext s)(q := enext s c)" "lnext ?u = lnext s2" "lkey ?u = lkey s" "lprev ?u = lprev s1"
    using D(6,7) R(4) by (auto simp: fun_eq_iff accessors f2)
  have lo: "lruof ?u ?g = (lruof s g)(x := None)" using D(4) R(4) by (simp add: lruof_def acc)
  let ?pv = "if bs = [] then epv s g else (epv s g)(hd bs := q)"
  have ep: "epv ?u ?g e = ?pv e" if e: "e \<in> set (as @ bs)" for e
  proof -
    have eE: "e \<in> set (gE g)" "e \<noteq> c" using e E(1) d by auto
    then have "estr s g e \<noteq> x" using C(6) E(1,2) by (auto simp: inj_on_def)
    moreover obtain le where le: "lruof s g (estr s g e) = Some le" using entry_key(3) [OF I eE(1)] by blast
    ultimately show ?thesis using R(6) [OF e le] by (simp add: epv_def lo acc)
  qed
  have "clinked (enext ?u) (epv ?u ?g) (headLRU s) (as @ bs) = clinked (enext ?u) ?pv (headLRU s) (as @ bs)" by (rule clinked_cong) (use ep in auto)
  moreover have "clinked ((enext s)(q := enext s c)) ?pv (headLRU s) (as @ bs)" by (rule clinked_remove) (use C(5) E(1) d q_def in auto)
  ultimately have lk: "clinked (enext ?u) (epv ?u ?g) (headLRU ?u) (gE ?g)" using f2(6) acc(5) by simp
  have im: "lstr ?u ?g ` nodes L = estr s g ` set (as @ bs)"
  proof -
    have "lstr s g ` nodes L = estr s g ` set (gE g) - {x}"
    proof (rule set_eqI)
      fix y
      have "y \<in> lstr s g ` nodes L \<longleftrightarrow> lookup (lstr s g) L y \<noteq> None" using lookup_None [OF D(2), of y] R(4) by simp
      also have "\<dots> \<longleftrightarrow> y \<noteq> x \<and> lruof s g y \<noteq> None" using D(4) R(4) by (simp add: lruof_def)
      also have "\<dots> \<longleftrightarrow> y \<in> estr s g ` set (gE g) - {x}" using lruof_dom [OF I, of y] by blast
      finally show "y \<in> lstr s g ` nodes L \<longleftrightarrow> y \<in> estr s g ` set (gE g) - {x}" .
    qed
    then show ?thesis using image_remove [of "estr s g" as c bs] C(6) E(1,2) d acc by simp
  qed
  have co: "cache_ok ?u ?g" unfolding cache_ok_def
  proof (intro conjI)
    show "inj_on (estr ?u ?g) (set (gE ?g))" using C(6) E(1) acc by (auto intro: inj_on_subset)
    show "tailLRU ?u = last (headLRU ?u # gE ?g)" using R(5) f2 by simp
  qed (use lk im acc C(2,3) E(1) d f2 in auto)
  have sh: "kvshape ?u ?g"
  proof (rule kvshape_lru [OF I _ _ _ _ _ co])
    show "table (lruHashTab ?u) (lnext ?u) (lstr ?u g) L" using D(2) by (simp only: acc R(4)) (simp add: f1 f2)
    show "\<forall>a\<in>nodes L. lkey ?u a \<in> kvkeys s g" using K(5) D(3) by (simp only: acc) simp
    show "\<forall>e\<in>set (as @ bs). ekey ?u e \<in> kvkeys s g" using K(6) E(1) by (simp only: acc) simp
  qed (use acc f2 in simp_all)
  have rc: "recent ?u ?g = remove1 x (recent s g)" using E(5) by (simp add: recent_def acc)
  have fr: "?u = s\<lparr>lre := lre ?u, lrn := lrn ?u, tailLRU := tailLRU ?u\<rparr>"
  proof -
    obtain N T N' where "s1 = s\<lparr>lrn := N, tailLRU := T\<rparr>" "s2 = s1\<lparr>lrn := N'\<rparr>" using R(2) D(5) by blast
    then show ?thesis by simp
  qed
  show thesis by (rule that [OF e sh rc _ _ fr acc(3,4)]) (use D(3) E(1) in auto)
qed


section \<open>Adding to the table of the cache\<close>

text \<open>\<^verbatim>\<open>getmem\<close> as a function of the allocators alone.\<close>

definition kx_getmem :: "uint32 \<Rightarrow> xsys \<Rightarrow> (uint32 \<times> xsys) option" where
  "kx_getmem n x = do { (a, m) \<leftarrow> getmem n (kmem (bk (xb x))); Some (a, x\<lparr>xb := (xb x)\<lparr>bk := (bk (xb x))\<lparr>kmem := m\<rparr>\<rparr>\<rparr>) }"

lemma kv_getmem_kx: "kx_getmem n (kx s) = Some (a, x) \<Longrightarrow> kv_getmem n s = Some (a, s\<lparr>kx := x\<rparr>)"
  by (auto simp: kx_getmem_def kv_getmem_def split: Option.bind_splits)

lemma setLRUHashTab_new:
  assumes t: "table (lruHashTab s) (lnext s) (\<lambda>a. S (lkey s a)) L" and ks: "\<forall>a\<in>nodes L. cstr (kbytes s) (lkey s a) (S (lkey s a))"
    and k: "is_key s key x" "S key = x" and n: "lookup (\<lambda>a. S (lkey s a)) L x = None"
    and gm: "kx_getmem 12 (kx s) = Some (a, x1)" and a: "a \<noteq> 0" "a \<notin> nodes L" "a \<notin> lruHashTab s ` codes"
  obtains s' L' where "setLRUHashTab key prev s = Some (0, s')" "s' = s\<lparr>kx := x1, lrn := lrn s'\<rparr>" "table (lruHashTab s) (lnext s') (\<lambda>a. S (lkey s' a)) L'"
    "nodes L' = insert a (nodes L)" "lkey s' = (lkey s)(a := key)" "lprev s' = (lprev s)(a := prev)"
    "lookup (\<lambda>a. S (lkey s' a)) L' = (lookup (\<lambda>a. S (lkey s a)) L)(x \<mapsto> a)"
proof -
  note K = is_keyD [OF k(1)]
  define h where "h = hashS x"
  have h: "h \<in> codes" unfolding h_def by (rule hash_code)
  define s2 where "s2 = upd_lrn a (\<lambda>_. \<lparr>ln_key = key, ln_prev = prev, ln_next = 0\<rparr>) (s\<lparr>kx := x1\<rparr>)"
  define p where "p = last (lruHashTab s h # L h)"
  define s3 where "s3 = upd_lrn p (\<lambda>e. e\<lparr>ln_next := a\<rparr>) s2"
  have ac2: "lnext s2 = (lnext s)(a := 0)" "lkey s2 = (lkey s)(a := key)" "lprev s2 = (lprev s)(a := prev)" by (auto simp: s2_def accessors)
  have sub: "set (L h) \<subseteq> nodes L" using h unfolding nodes_def by blast
  have str: "S (lkey s2 b) = S (lkey s b)" if "b \<in> nodes L" for b using that a(2) ac2(2) by auto
  have t2: "table (lruHashTab s) (lnext s2) (\<lambda>a. S (lkey s a)) L" by (rule table_cong [OF t]) (use a ac2 in auto)
  have xn: "x \<notin> (\<lambda>a. S (lkey s a)) ` nodes L" using lookup_None [OF t] n by blast
  have sx: "S (lkey s2 a) = x" "lnext s2 a = 0" using ac2 k(2) by simp_all
  note T = table_insert [where str' = "\<lambda>a. S (lkey s2 a)", OF t2 a sx(2) xn sx(1) str, folded h_def, folded p_def]
  have cf: "chain_find (lnext s) (lkey s) (kbytes s) key (int (length x) + 1) (lruHashTab s h) = Some 0"
    using chain_find_path [where S = S and ky = "lkey s", OF tableD(1,2) [OF t h] _ K(3)] ks sub n
    by (simp add: lookup_def h_def [symmetric] node_or_null_def subset_iff)
  have g0: "getLRUHashTab key s = Some 0"
    using cf K hashS_range [of x] by (simp add: getLRUHashTab_def Let_def lnext_def [abs_def] lkey_def [abs_def] h_def)
  have cl: "chain_last (lnext s2) (lruHashTab s h) = Some p" unfolding p_def by (rule chain_last_path [OF tableD(1,2) [OF t2 h]])
  have cr: "createLRUNode key prev s = Some (a, s2)" using kv_getmem_kx [OF gm] a(1) by (simp add: createLRUNode_def s2_def)
  have "kbytes s2 = kbytes s" "lruHashTab s2 = lruHashTab s" by (simp_all add: s2_def)
  then have e: "setLRUHashTab key prev s = Some (0, s3)"
    using g0 cr cl K(1) by (simp add: setLRUHashTab_def Let_def lnext_def [abs_def] s3_def h_def)
  have ac3: "lnext s3 = (lnext s2)(p := a)" "lkey s3 = lkey s2" "lprev s3 = lprev s2" by (auto simp: s3_def accessors)
  have fr: "s3 = s\<lparr>kx := x1, lrn := lrn s3\<rparr>" by (simp add: s3_def s2_def)
  have lk: "lookup (\<lambda>a. S (lkey s3 a)) (L(h := L h @ [a])) = (lookup (\<lambda>a. S (lkey s a)) L)(x \<mapsto> a)"
    using lookup_insert [OF t2 T(1,2) a(2) str] xn sx(1) ac3(2) by simp
  have "table (lruHashTab s) (lnext s3) (\<lambda>a. S (lkey s3 a)) (L(h := L h @ [a]))" using T(1) by (simp only: ac3)
  then show thesis by (rule that [OF e fr _ T(2) _ _ lk]) (use ac2 ac3 in simp_all)
qed


section \<open>A new entry in the cache\<close>

text \<open>
  The cache in a state whose entries \<open>es\<close> carry the key \<open>x\<close> at the entry \<open>c\<close>, whose backward link is in the
  new node \<open>a\<close>, and are otherwise those of \<open>s\<close>.
\<close>

lemma cache_new_key:
  assumes I: "kvshape s g" and x: "x \<notin> estr s g ` (set es - {c})" and c: "c \<in> set es" and a: "a \<notin> nodes (gL g)"
    and es: "set es - {c} \<subseteq> set (gE g)" "distinct (headLRU s # es)" "0 \<notin> set es"
    and u: "headLRU u = headLRU s" "tailLRU u = last (headLRU s # es)" "lkey u = (lkey s)(a := key)" "ekey u = (ekey s)(c := key)" "lprev u = (lprev s)(a := q)"
    and k: "gS g key = x" and L: "lookup (lstr u g) L = lo(x \<mapsto> a)" "\<And>y. y \<in> estr s g ` (set es - {c}) \<Longrightarrow> lo y = lruof s g y"
    "\<And>y. y \<in> lstr u g ` nodes L \<longleftrightarrow> y = x \<or> y \<in> estr s g ` (set es - {c})"
    and lk: "clinked (enext u) ((epv s g)(c := q)) (headLRU s) es"
  shows "cache_ok u (g\<lparr>gE := es, gL := L\<rparr>)"
proof -
  let ?g = "g\<lparr>gE := es, gL := L\<rparr>"
  note C = cache_okD [OF kvshapeD(3) [OF I]]
  have st: "estr u ?g e = (if e = c then x else estr s g e)" for e using u(4) k by simp
  have ep: "epv u ?g e = ((epv s g)(c := q)) e" if e: "e \<in> set es" for e
  proof (cases "e = c")
    case True
    then show ?thesis using st L(1) u(3,5) by (simp add: epv_def lruof_def)
  next
    case False
    then have eE: "e \<in> set (gE g)" "estr s g e \<noteq> x" "lo (estr s g e) = lruof s g (estr s g e)" using e es(1) x L(2) by auto
    obtain l where l: "lruof s g (estr s g e) = Some l" using entry_key(3) [OF I eE(1)] by blast
    then have "l \<noteq> a" using lruof_iff [OF I] a by blast
    moreover have "lruof u ?g (estr u ?g e) = Some l" using False eE l L(1) u(4) by (simp add: lruof_def)
    ultimately show ?thesis using False l u(5) by (simp add: epv_def)
  qed
  have "clinked (enext u) (epv u ?g) (headLRU s) es = clinked (enext u) ((epv s g)(c := q)) (headLRU s) es" by (rule clinked_cong) (use ep in auto)
  moreover have "inj_on (estr u ?g) (set es)"
  proof -
    have "inj_on (estr s g) (set es - {c})" using C(6) es(1) by (rule inj_on_subset)
    moreover have "estr s g e \<noteq> x" if "e \<in> set es" "e \<noteq> c" for e using x that by blast
    ultimately show ?thesis using st unfolding inj_on_def by auto
  qed
  moreover have "lstr u ?g ` nodes L = estr u ?g ` set es"
  proof (rule set_eqI)
    fix y
    have "estr u ?g ` set es = insert x (estr s g ` (set es - {c}))" using c st by (auto simp: image_iff)
    then show "y \<in> lstr u ?g ` nodes L \<longleftrightarrow> y \<in> estr u ?g ` set es" using L(3) [of y] by simp
  qed
  ultimately show ?thesis using es(2,3) u(1,2) lk C(2) by (simp add: cache_ok_def)
qed

definition lru_insert :: "uint32 \<Rightarrow> uint32 \<Rightarrow> kvsys \<Rightarrow> (int \<times> kvsys) option" where
  "lru_insert key val s = do {
     (cur, s3) \<leftarrow> createLRUEntry key val (s\<lparr>counterLRU := counterLRU s + 1\<rparr>);
     if tailLRU s3 = 0 then None
     else do {
       let s4 = upd_lre (tailLRU s3) (\<lambda>e. e\<lparr>le_next := cur\<rparr>) s3;
       (_, s5) \<leftarrow> setLRUHashTab key (tailLRU s4) s4;
       Some (0, s5\<lparr>tailLRU := cur\<rparr>) } }"

lemma lru_insert_ok:
  assumes I: "kvshape s g" and k: "is_key s key x" "gS g key = x" "key \<in> kvkeys s g" and n: "x \<notin> set (recent s g)"
    and m: "kx_getmem 12 (kx s) = Some (c, x1)" "kx_getmem 12 x1 = Some (a, x2)"
    and c: "c \<noteq> 0" "c \<notin> set (headLRU s # gE g)" and a: "a \<noteq> 0" "a \<notin> nodes (gL g)" "a \<notin> lruHashTab s ` codes"
  obtains s' L where "lru_insert key val s = Some (0, s')" "kvshape s' (g\<lparr>gE := gE g @ [c], gL := L\<rparr>)" "nodes L = insert a (nodes (gL g))"
    "recent s' (g\<lparr>gE := gE g @ [c], gL := L\<rparr>) = recent s g @ [x]" "ekey s' = (ekey s)(c := key)" "eval s' = (eval s)(c := val)"
    "s' = s\<lparr>kx := x2, lre := lre s', lrn := lrn s', tailLRU := c, counterLRU := counterLRU s + 1\<rparr>"
proof -
  note C = cache_okD [OF kvshapeD(3) [OF I]] and K = kvshapeD [OF I]
  define t where "t = tailLRU s"
  have "t \<in> set (headLRU s # gE g)" unfolding t_def C(4) by (rule last_in_set) simp
  then have t: "t \<noteq> 0" "t \<noteq> c" "t = last (headLRU s # gE g)" using C(2,3,4) c by (auto simp: t_def)
  define s3 where "s3 = upd_lre c (\<lambda>_. \<lparr>le_key = key, le_val = val, le_next = 0\<rparr>) (s\<lparr>counterLRU := counterLRU s + 1, kx := x1\<rparr>)"
  define s4 where "s4 = upd_lre t (\<lambda>e. e\<lparr>le_next := c\<rparr>) s3"
  have f4: "lrn s4 = lrn s" "kvn s4 = kvn s" "kbytes s4 = kbytes s" "lruHashTab s4 = lruHashTab s" "kx s4 = x1" "tailLRU s3 = t" "tailLRU s4 = t" by (simp_all add: s4_def s3_def t_def)
  have a4: "lnext s4 = lnext s" "lkey s4 = lkey s" "lprev s4 = lprev s" "ekey s4 = (ekey s)(c := key)" "eval s4 = (eval s)(c := val)" "enext s4 = ((enext s)(c := 0))(t := c)"
    using t(2) by (auto simp: fun_eq_iff accessors f4 s4_def s3_def)
  have cr: "createLRUEntry key val (s\<lparr>counterLRU := counterLRU s + 1\<rparr>) = Some (c, s3)"
    using kv_getmem_kx [of 12 "s\<lparr>counterLRU := counterLRU s + 1\<rparr>" c x1] m(1) c(1) by (simp add: createLRUEntry_def s3_def)
  have n': "lookup (lstr s4 g) (gL g) x = None" using n recent_set [OF I] by (simp add: lruof_def a4)
  have t4: "table (lruHashTab s4) (lnext s4) (lstr s4 g) (gL g)" "\<forall>a\<in>nodes (gL g). cstr (kbytes s4) (lkey s4 a) (lstr s4 g a)" "is_key s4 key x" "a \<notin> lruHashTab s4 ` codes"
    using K(2) K(4) [OF K(5)] k(1) a(3) by (simp_all add: f4 a4 is_key_def)
  have g4: "kx_getmem 12 (kx s4) = Some (a, x2)" by (simp add: f4 m(2))
  obtain s5 L where S: "setLRUHashTab key t s4 = Some (0, s5)" "s5 = s4\<lparr>kx := x2, lrn := lrn s5\<rparr>" "table (lruHashTab s4) (lnext s5) (lstr s5 g) L"
      "nodes L = insert a (nodes (gL g))" "lkey s5 = (lkey s4)(a := key)" "lprev s5 = (lprev s4)(a := t)" "lookup (lstr s5 g) L = (lookup (lstr s4 g) (gL g))(x \<mapsto> a)"
    by (rule setLRUHashTab_new [where S = "gS g" and prev = t, OF t4(1-3) k(2) n' g4 a(1,2) t4(4)]) (rule that; assumption)
  let ?u = "s5\<lparr>tailLRU := c\<rparr>" and ?g = "g\<lparr>gE := gE g @ [c], gL := L\<rparr>"
  have e: "lru_insert key val s = Some (0, ?u)" using cr t(1) f4 S(1) by (simp add: lru_insert_def Let_def s4_def)
  have f5: "lre s5 = lre s4" "kvn s5 = kvn s" "kbytes s5 = kbytes s" "kvHashTab s5 = kvHashTab s" "lruHashTab s5 = lruHashTab s" "headLRU s5 = headLRU s"
    by (subst S(2), simp add: s4_def s3_def)+
  have acc: "knext ?u = knext s" "kkey ?u = kkey s" "ekey ?u = (ekey s)(c := key)" "eval ?u = (eval s)(c := val)" "enext ?u = ((enext s)(c := 0))(t := c)"
      "lkey ?u = (lkey s)(a := key)" "lprev ?u = (lprev s)(a := t)" "lnext ?u = lnext s5"
    using a4 S(5,6) by (simp_all add: fun_eq_iff accessors f5)
  have lo: "lookup (lstr s5 g) L = (lruof s g)(x \<mapsto> a)" using S(7) by (simp add: lruof_def a4)
  have lu: "lkey ?u = lkey s5" by (simp add: fun_eq_iff accessors)
  have tb: "table (lruHashTab ?u) (lnext ?u) (lstr ?u g) L" using S(3) by (simp add: f4 f5 acc(8) lu)
  have co: "cache_ok ?u ?g"
  proof (rule cache_new_key [OF I, where c = c and a = a and x = x and key = key and q = t and lo = "lruof s g"])
    have "clinked ((enext s)(c := 0)) (epv s g) (headLRU s) (gE g) = clinked (enext s) (epv s g) (headLRU s) (gE g)"
    proof (rule clinked_cong)
      show "((enext s)(c := 0)) e = enext s e" if "e \<in> set (butlast (headLRU s # gE g))" for e using in_set_butlastD [OF that] c(2) by auto
    qed simp
    then have "clinked ((enext s)(c := 0)) (epv s g) (headLRU s) (gE g)" using C(5) by blast
    then show "clinked (enext ?u) ((epv s g)(c := t)) (headLRU s) (gE g @ [c])" unfolding acc(5) by (rule clinked_push) (use C(1) c(2) t(3) in auto)
    show "y \<in> lstr ?u g ` nodes L \<longleftrightarrow> y = x \<or> y \<in> estr s g ` (set (gE g @ [c]) - {c})" for y
    proof -
      have "y \<in> lstr ?u g ` nodes L \<longleftrightarrow> lookup (lstr ?u g) L y \<noteq> None" by (simp only: lookup_None [OF tb] not_not)
      also have "\<dots> \<longleftrightarrow> y = x \<or> lruof s g y \<noteq> None" using lo by (simp add: lu)
      also have "\<dots> \<longleftrightarrow> y = x \<or> y \<in> estr s g ` set (gE g)" using lruof_dom [OF I] by simp
      finally show ?thesis using c(2) by simp
    qed
    show "lookup (lstr ?u g) L = (lruof s g)(x \<mapsto> a)" using lo by (simp add: lu)
  qed (use n c a C k(2) f5(6) acc in \<open>auto simp: recent_def\<close>)
  have sh: "kvshape ?u ?g"
    by (rule kvshape_lru [OF I _ _ _ _ tb co]) (use K(5,6) k(3) S(4) f5 acc c(2) in auto)
  have rc: "recent ?u ?g = recent s g @ [x]" using c(2) k(2) by (auto simp: recent_def acc)
  have fr: "?u = s\<lparr>kx := x2, lre := lre ?u, lrn := lrn ?u, tailLRU := c, counterLRU := counterLRU s + 1\<rparr>"
  proof -
    obtain N where "s5 = s4\<lparr>kx := x2, lrn := N\<rparr>" using S(2) by auto
    then show ?thesis by (simp add: s4_def s3_def)
  qed
  show thesis by (rule that [OF e sh S(4) rc acc(3,4) fr])
qed


section \<open>Eviction\<close>

definition lru_evict :: "uint32 \<Rightarrow> uint32 \<Rightarrow> kvsys \<Rightarrow> (int \<times> kvsys) option" where
  "lru_evict key val s2 = do {
     let head = le_next (lre s2 (headLRU s2));
     if headLRU s2 = 0 \<or> head = 0 then None
     else do {
       (_, s3) \<leftarrow> delLRUHashTab (le_key (lre s2 head)) s2;
       let s4 = upd_lre head (\<lambda>e. e\<lparr>le_key := key, le_val := val\<rparr>) s3;
       (_, s5) \<leftarrow> setLRUHashTab key (headLRU s4) s4;
       s6 \<leftarrow> movLRUCache (headLRU s5) s5;
       Some (0, s6\<lparr>totalEvictions := totalEvictions s6 + 1\<rparr>) } }"

lemma lru_evict_ok:
  assumes I: "kvshape s g" and k: "is_key s key x" "gS g key = x" "key \<in> kvkeys s g" and n: "x \<notin> set (recent s g)"
    and m: "kx_getmem 12 (kx s) = Some (a, x1)" and E: "gE g = c # bs" and a: "a \<noteq> 0" "a \<notin> nodes (gL g)" "a \<notin> lruHashTab s ` codes"
  obtains s' L where "lru_evict key val s = Some (0, s')" "kvshape s' (g\<lparr>gE := bs @ [c], gL := L\<rparr>)" "nodes L \<subseteq> insert a (nodes (gL g))"
    "recent s' (g\<lparr>gE := bs @ [c], gL := L\<rparr>) = tl (recent s g) @ [x]" "ekey s' = (ekey s)(c := key)" "eval s' = (eval s)(c := val)"
    "s' = s\<lparr>kx := x1, lre := lre s', lrn := lrn s', tailLRU := tailLRU s', totalEvictions := totalEvictions s + 1\<rparr>"
proof -
  note C = cache_okD [OF kvshapeD(3) [OF I]] and K = kvshapeD [OF I]
  have d: "distinct (headLRU s # c # bs)" "0 \<notin> set (c # bs)" "clinked (enext s) (epv s g) (headLRU s) (c # bs)" using C(1,3,5) E by simp_all
  have cE: "c \<in> set (gE g)" using E by simp
  obtain lc where lc: "lruof s g (estr s g c) = Some lc" using entry_key(3) [OF I cE] by blast
  have ks: "\<forall>a\<in>nodes (gL g). cstr (kbytes s) (lkey s a) (lstr s g a)" using K(4) [OF K(5)] by simp
  obtain s3 L1 where D: "delLRUHashTab (ekey s c) s = Some (0, s3)" "table (lruHashTab s) (lnext s3) (lstr s g) L1" "nodes L1 = nodes (gL g) - {lc}"
      "lookup (lstr s g) L1 = (lookup (lstr s g) (gL g))(estr s g c := None)" "s3 = s\<lparr>lrn := lrn s3\<rparr>" "lkey s3 = lkey s" "lprev s3 = lprev s"
    by (rule delLRUHashTab_ok [where S = "gS g", OF K(2) ks entry_key(2) [OF I cE] lc [unfolded lruof_def]]) (rule that; assumption)
  have f3: "lre s3 = lre s" "headLRU s3 = headLRU s" "kbytes s3 = kbytes s" "lruHashTab s3 = lruHashTab s" "kx s3 = kx s" by (subst D(5), simp)+
  define s4 where "s4 = upd_lre c (\<lambda>e. e\<lparr>le_key := key, le_val := val\<rparr>) s3"
  have f4: "headLRU s4 = headLRU s" "kbytes s4 = kbytes s" "lruHashTab s4 = lruHashTab s" "kx s4 = kx s" by (simp_all add: s4_def f3)
  have a4: "lnext s4 = lnext s3" "lkey s4 = lkey s" "lprev s4 = lprev s" using D(6,7) by (simp_all add: fun_eq_iff accessors s4_def)
  have xo: "x \<notin> estr s g ` set (gE g)" using n by (simp add: recent_def)
  have n4: "lookup (lstr s4 g) L1 x = None" using xo lruof_dom [OF I, of x] D(4) by (simp add: a4 lruof_def)
  have t4: "table (lruHashTab s4) (lnext s4) (lstr s4 g) L1" "\<forall>a\<in>nodes L1. cstr (kbytes s4) (lkey s4 a) (lstr s4 g a)" "is_key s4 key x"
      "a \<notin> nodes L1" "a \<notin> lruHashTab s4 ` codes" "kx_getmem 12 (kx s4) = Some (a, x1)"
    using D(2,3) ks k(1) a(2,3) m by (simp_all add: f4 a4 is_key_def)
  obtain s5 L where S: "setLRUHashTab key (headLRU s) s4 = Some (0, s5)" "s5 = s4\<lparr>kx := x1, lrn := lrn s5\<rparr>" "table (lruHashTab s4) (lnext s5) (lstr s5 g) L"
      "nodes L = insert a (nodes L1)" "lkey s5 = (lkey s4)(a := key)" "lprev s5 = (lprev s4)(a := headLRU s)" "lookup (lstr s5 g) L = (lookup (lstr s4 g) L1)(x \<mapsto> a)"
    by (rule setLRUHashTab_new [where S = "gS g" and prev = "headLRU s", OF t4(1-3) k(2) n4 t4(6) a(1) t4(4,5)]) (rule that; assumption)
  have f5: "lre s5 = lre s4" "kvn s5 = kvn s" "kbytes s5 = kbytes s" "kvHashTab s5 = kvHashTab s" "lruHashTab s5 = lruHashTab s" "headLRU s5 = headLRU s" "tailLRU s5 = tailLRU s"
  proof -
    obtain N N' where "s3 = s\<lparr>lrn := N\<rparr>" "s5 = s4\<lparr>kx := x1, lrn := N'\<rparr>" using D(5) S(2) by blast
    then show "lre s5 = lre s4" "kvn s5 = kvn s" "kbytes s5 = kbytes s" "kvHashTab s5 = kvHashTab s" "lruHashTab s5 = lruHashTab s" "headLRU s5 = headLRU s"
      "tailLRU s5 = tailLRU s" by (simp_all add: s4_def)
  qed
  have acc: "knext s5 = knext s" "kkey s5 = kkey s" "ekey s5 = (ekey s)(c := key)" "eval s5 = (eval s)(c := val)" "enext s5 = enext s"
      "lkey s5 = (lkey s)(a := key)" "lprev s5 = (lprev s)(a := headLRU s)"
    using S(5,6) a4 by (auto simp: fun_eq_iff accessors f5 s4_def f3)
  have lo: "lookup (lstr s5 g) L = ((lruof s g)(estr s g c := None))(x \<mapsto> a)" using S(7) D(4) by (simp add: a4 lruof_def)
  have tb: "table (lruHashTab s5) (lnext s5) (lstr s5 g) L" using S(3) by (simp add: f4 f5)
  let ?g = "g\<lparr>gE := c # bs, gL := L\<rparr>"
  have ne: "estr s g c \<notin> estr s g ` set bs" using C(6) E d(1) by (auto simp: inj_on_def)
  have co: "cache_ok s5 ?g"
  proof (rule cache_new_key [OF I, where c = c and a = a and x = x and key = key and q = "headLRU s" and lo = "(lruof s g)(estr s g c := None)"])
    have "clinked (enext s5) ((epv s g)(c := headLRU s)) (headLRU s) (c # bs) = clinked (enext s) (epv s g) (headLRU s) (c # bs)"
      by (rule clinked_cong) (use d(3) acc(5) in auto)
    then show "clinked (enext s5) ((epv s g)(c := headLRU s)) (headLRU s) (c # bs)" using d(3) by blast
    show "y \<in> lstr s5 g ` nodes L \<longleftrightarrow> y = x \<or> y \<in> estr s g ` (set (c # bs) - {c})" for y
    proof -
      have "y \<in> lstr s5 g ` nodes L \<longleftrightarrow> lookup (lstr s5 g) L y \<noteq> None" by (simp only: lookup_None [OF tb] not_not)
      also have "\<dots> \<longleftrightarrow> y = x \<or> y \<noteq> estr s g c \<and> lruof s g y \<noteq> None" using lo by simp
      also have "\<dots> \<longleftrightarrow> y = x \<or> y \<in> estr s g ` set bs" using lruof_dom [OF I, of y] E ne by auto
      finally show ?thesis using d(1) by simp
    qed
    show "((lruof s g)(estr s g c := None)) y = lruof s g y" if "y \<in> estr s g ` (set (c # bs) - {c})" for y
    proof -
      have "y \<in> estr s g ` set bs" using that by auto
      then have "y \<noteq> estr s g c" using ne by blast
      then show ?thesis by simp
    qed
  qed (use xo E d a C(4) k(2) f5 acc lo in auto)
  have sh: "kvshape s5 ?g"
    by (rule kvshape_lru [OF I _ _ _ _ tb co]) (use K(5,6) k(3) S(4) D(3) E f5 acc in auto)
  have rc: "recent s5 ?g = x # tl (recent s g)" using d(1) k(2) E by (simp add: recent_def acc)
  obtain s6 where M: "movLRUCache (headLRU s5) s5 = Some s6" "kvshape s6 (?g\<lparr>gE := [] @ bs @ [c]\<rparr>)" "tailLRU s6 = c"
      "s6 = s5\<lparr>lre := lre s6, lrn := lrn s6, tailLRU := c\<rparr>" "same_nodes s5 s6"
    by (rule movLRUCache_ok [OF sh, where as = "[]" and c = c and bs = bs and q = "headLRU s5"]) (simp_all add: that)
  let ?u = "s6\<lparr>totalEvictions := totalEvictions s6 + 1\<rparr>"
  have hd: "le_next (lre s (headLRU s)) = c" "c \<noteq> 0" using d(2,3) by (simp_all add: accessors)
  have e: "lru_evict key val s = Some (0, ?u)"
    using hd C(2) D(1) S(1) M(1) f5(6) f4(1) f3(2) by (simp add: lru_evict_def Let_def s4_def [symmetric] ekey_def)
  have "kvshape s6 (g\<lparr>gE := bs @ [c], gL := L\<rparr>)" using M(2) by (cases g) simp
  then have su: "kvshape ?u (g\<lparr>gE := bs @ [c], gL := L\<rparr>)" using kvshape_cong(1) [of ?u s6 "g\<lparr>gE := bs @ [c], gL := L\<rparr>"] by (simp add: fun_eq_iff accessors)
  have au: "ekey ?u = (ekey s)(c := key)" "eval ?u = (eval s)(c := val)" using same_nodesD(6,7) [OF M(5)] acc by (simp_all add: fun_eq_iff accessors)
  have ru: "recent ?u (g\<lparr>gE := bs @ [c], gL := L\<rparr>) = tl (recent s g) @ [x]" using d(1) k(2) E by (simp add: recent_def au)
  have fr: "?u = s\<lparr>kx := x1, lre := lre ?u, lrn := lrn ?u, tailLRU := tailLRU ?u, totalEvictions := totalEvictions s + 1\<rparr>"
  proof -
    obtain N N' N'' L' where "s3 = s\<lparr>lrn := N\<rparr>" "s5 = s4\<lparr>kx := x1, lrn := N'\<rparr>" "s6 = s5\<lparr>lre := L', lrn := N'', tailLRU := c\<rparr>" using D(5) S(2) M(4) by blast
    then show ?thesis by (simp add: s4_def)
  qed
  show thesis by (rule that [OF e su _ ru au fr]) (use S(4) D(3) in auto)
qed

end
