(* ===== verification/KV_Heap.thy ===== *)
theory KV_Heap
  imports KV_Update
begin

text \<open>
  The memory of the key-value store. Nodes and keys come from \<^verbatim>\<open>getmem\<close>, values from \<^verbatim>\<open>xmalloc\<close>. What the store
  relies on is stated here as facts of the two allocators together: memory they hand out is not in use, and
  stays apart from all other memory until it is released.
\<close>

section \<open>Free memory\<close>

text \<open>There is a free block of at least \<open>r\<close> bytes.\<close>

definition room :: "xsys \<Rightarrow> nat \<Rightarrow> bool" where
  "room x r \<longleftrightarrow> (\<exists>bs. heap_ok (kmem (bk (xb x))) bs \<and> (\<exists>(a, l)\<in>set bs. r \<le> unat l))"

lemma ff_alloc_room:
  assumes al: "ff_alloc n bs = Some (a, bs')" and b: "(c, k) \<in> set bs" "unat n + r \<le> unat k" "0 < r"
  shows "\<exists>(c, k)\<in>set bs'. r \<le> unat k"
proof -
  obtain as l cs where s: "bs = as @ (a, l) # cs" "n \<le> l" "bs' = as @ (if l = n then cs else (a + n, l - n) # cs)"
    using ff_alloc_split [OF al] by metis
  show ?thesis
  proof (cases "(c, k) = (a, l)")
    case True
    then have "l \<noteq> n" using b(2,3) by auto
    moreover have "unat (l - n) = unat l - unat n" using s(2) by (rule unat_sub)
    ultimately show ?thesis using True b(2) s(3) by auto
  next
    case False
    then have "(c, k) \<in> set bs'" using b(1) s by auto
    then show ?thesis using b(2) by (intro bexI [of _ "(c, k)"]) auto
  qed
qed

section \<open>The two allocators\<close>

text \<open>
  \<open>hp x U H\<close>: the allocators are consistent, the bytes \<open>U\<close> are neither free nor part of a buffer pool, and \<open>H\<close> are the
  buffers in use. The processes that use the pools do not wait for them.
\<close>

definition hp :: "xsys \<Rightarrow> nat set \<Rightarrow> uint32 set \<Rightarrow> bool" where
  "hp x U H \<longleftrightarrow> (\<exists>m R F bs. binv m R F \<and> bsys m = xb x \<and> (\<forall>q. bpend m q = None) \<and> bheld m = H \<and> bcurr m \<noteq> NULLPROC \<and> sizes_ok x \<and>
     heap_ok (kmem (bk (xb x))) bs \<and> free_bytes bs \<inter> U = {} \<and> free_bytes bs \<inter> barea m = {} \<and> U \<inter> barea m = {})"

text \<open>The bytes a buffer can hold.\<close>

definition vcap :: "xsys \<Rightarrow> uint32 \<Rightarrow> nat" where
  "vcap x a = nat (bufsize x (pool_of (xb x) a))"

definition vbytes :: "xsys \<Rightarrow> uint32 \<Rightarrow> nat set" where
  "vbytes x a = {unat a..<unat a + vcap x a}"

lemma kinv_kmem: "kinv k \<Longrightarrow> kinv (k\<lparr>kmem := m\<rparr>)" "kinv k \<Longrightarrow> qview (k\<lparr>kmem := m\<rparr>) = qview k"
  using kinv_upd_cong(1,2) [of k "k\<lparr>kmem := m\<rparr>"] by simp_all

lemma held_node:
  assumes I: "binv m R F" and x: "bsys m = xb x" "sizes_ok x" and a: "a \<in> bheld m"
  shows "unat a = unat (a - 4) + 4" "a \<noteq> 0" "unat a + vcap x a < 2 ^ 32" "vbytes x a \<subseteq> node_bytes (a - 4) (psize (xb x) (pool_of (xb x) a))"
    "node_bytes (a - 4) (psize (xb x) (pool_of (xb x) a)) \<subseteq> barea m"
proof -
  note T = held_tag [OF I a, unfolded x(1)]
  have lay: "layout (xb x) R (barea m)" using binvD(4) [OF I] x(1) by (simp add: bmem_def)
  note L = layoutD [OF lay T(1,2)]
  have "unat (4 + (a - 4)) = 4 + unat (a - 4)" using L(2) by (simp only: unat_word_ariths) simp
  then show u: "unat a = unat (a - 4) + 4" by simp
  then show "a \<noteq> 0" by auto
  have c: "int (unat (psize (xb x) (pool_of (xb x) a))) = bufsize x (pool_of (xb x) a) + 4" using x(2) T(1) unfolding sizes_ok_def by blast
  then have v: "vcap x a \<le> unat (psize (xb x) (pool_of (xb x) a))" unfolding vcap_def by linarith
  then show "unat a + vcap x a < 2 ^ 32" using L(2) u by simp
  show "vbytes x a \<subseteq> node_bytes (a - 4) (psize (xb x) (pool_of (xb x) a))" using u v by (auto simp: vbytes_def node_bytes_def)
  show "node_bytes (a - 4) (psize (xb x) (pool_of (xb x) a)) \<subseteq> barea m" by (rule L(3))
qed

lemma hp_held:
  assumes "hp x U H" "a \<in> H"
  shows "a \<noteq> 0" "unat a + vcap x a < 2 ^ 32" "vbytes x a \<inter> U = {}" "\<And>b. b \<in> H \<Longrightarrow> b \<noteq> a \<Longrightarrow> vbytes x a \<inter> vbytes x b = {}"
proof -
  obtain m R F bs where I: "binv m R F" "bsys m = xb x" "bheld m = H" "sizes_ok x" "U \<inter> barea m = {}" using assms(1) unfolding hp_def by blast
  note N = held_node [OF I(1,2,4)]
  have a: "a \<in> bheld m" using assms(2) I(3) by simp
  show "a \<noteq> 0" "unat a + vcap x a < 2 ^ 32" using N(2,3) [OF a] .
  show "vbytes x a \<inter> U = {}" using N(4,5) [OF a] I(5) by blast
  fix b assume b: "b \<in> H" "b \<noteq> a"
  then have b': "b \<in> bheld m" using I(3) by simp
  have lay: "layout (xb x) R (barea m)" using binvD(4) [OF I(1)] I(2) by (simp add: bmem_def)
  have "node_bytes (a - 4) (psize (xb x) (pool_of (xb x) a)) \<inter> node_bytes (b - 4) (psize (xb x) (pool_of (xb x) b)) = {}"
    by (rule layoutD(4) [OF lay]) (use held_tag(1,2) [OF I(1) a] held_tag(1,2) [OF I(1) b'] I(2) b(2) in auto)
  then show "vbytes x a \<inter> vbytes x b = {}" using N(4) [OF a] N(4) [OF b'] by blast
qed

lemma hp_mono: "hp x U H \<Longrightarrow> V \<subseteq> U \<Longrightarrow> hp x V H"
  unfolding hp_def by blast

subsection \<open>\<^verbatim>\<open>getmem\<close>\<close>

lemma hp_getmem:
  assumes I: "hp x U H" and n: "n \<noteq> 0" "unat n \<le> 2 ^ 32 - 8" and r: "room x (reqsize n + r)" "0 < r"
  obtains a y where "kx_getmem n x = Some (a, y)" "hp y (U \<union> {unat a..<unat a + reqsize n}) H" "{unat a..<unat a + reqsize n} \<inter> U = {}" "a \<noteq> 0"
    "unat a + reqsize n < 2 ^ 32" "room y r" "vcap y = vcap x" "y = x\<lparr>xb := (xb x)\<lparr>bk := (bk (xb x))\<lparr>kmem := kmem (bk (xb y))\<rparr>\<rparr>\<rparr>"
proof -
  obtain m R F bs where B: "binv m R F" "bsys m = xb x" "\<forall>q. bpend m q = None" "bheld m = H" "bcurr m \<noteq> NULLPROC" "sizes_ok x"
      "heap_ok (kmem (bk (xb x))) bs" "free_bytes bs \<inter> U = {}" "free_bytes bs \<inter> barea m = {}" "U \<inter> barea m = {}"
    using I unfolding hp_def by blast
  let ?n = "roundmb n" and ?mm = "kmem (bk (xb x))"
  note Q = roundmb_request [OF n] and O = heap_okD [OF B(7)]
  obtain c l where c: "(c, l) \<in> set bs" "reqsize n + r \<le> unat l" using r(1) heap_ok_unique [OF B(7)] unfolding room_def by blast
  have "ff_alloc ?n bs \<noteq> None"
  proof
    assume "ff_alloc ?n bs = None"
    then have "l < ?n" using c(1) unfolding ff_alloc_None by blast
    then show False using c(2) Q(1) by (simp add: wless)
  qed
  then obtain a bs' where al: "ff_alloc ?n bs = Some (a, bs')" by fastforce
  have mx: "unat (maxheap ?mm) < 2 ^ 32" by (rule unat_bound)
  obtain m' where m': "getmem n ?mm = Some (a, m')" "mabs m' bs'" "minheap m' = minheap ?mm" "maxheap m' = maxheap ?mm"
    using getmem_some [OF O(1,2) mx n(1) refl Q(2) al] by auto
  note A = ff_alloc_ok [OF O(2) mx Q(2,3) al, unfolded extent_def Q(1)]
  have h': "heap_ok m' bs'" using m' A(1) B(7) by (simp add: heap_ok_def)
  let ?e = "{unat a..<unat a + reqsize n}"
  let ?y = "x\<lparr>xb := (xb x)\<lparr>bk := (bk (xb x))\<lparr>kmem := m'\<rparr>\<rparr>\<rparr>"
  have g: "kx_getmem n x = Some (a, ?y)" using m'(1) by (simp add: kx_getmem_def)
  have fb: "free_bytes bs' \<subseteq> free_bytes bs" "?e \<subseteq> free_bytes bs" "free_bytes bs' \<inter> ?e = {}" using A(2,3) by auto
  have b': "binv (m\<lparr>bsys := (bsys m)\<lparr>bk := (bk (bsys m))\<lparr>kmem := m'\<rparr>\<rparr>\<rparr>) R F"
    by (rule bswitch_step [OF B(1), where bs = bs']) (use h' fb B(9) kinv_kmem [OF binvD(1) [OF B(1)], of m'] in auto)
  have "hp ?y (U \<union> ?e) H"
    unfolding hp_def
    by (rule exI [of _ "m\<lparr>bsys := (bsys m)\<lparr>bk := (bk (bsys m))\<lparr>kmem := m'\<rparr>\<rparr>\<rparr>"], rule exI [of _ R], rule exI [of _ F], rule exI [of _ bs'])
      (use b' B fb h' in \<open>auto simp: sizes_ok_def\<close>)
  moreover have "?e \<inter> U = {}" using fb(2) B(8) by blast
  moreover have "unat a \<in> ?e" using Q(1,2) by (simp add: wless)
  then have "unat a \<in> free_bytes bs" using fb(2) by blast
  then obtain a0 l0 where a0: "(a0, l0) \<in> set bs" "unat a \<in> extent a0 l0" unfolding free_bytes_def by blast
  have "a \<noteq> 0" using wf_blocks_bound [OF O(2) a0(1)] a0(2) O(3) by (auto simp: extent_def)
  moreover have "unat a + reqsize n < 2 ^ 32"
  proof -
    have "unat a + reqsize n - 1 \<in> ?e" using Q(1,2) by (simp add: wless)
    then have "unat a + reqsize n - 1 \<in> free_bytes bs" using fb(2) by blast
    then obtain a1 l1 where a1: "(a1, l1) \<in> set bs" "unat a + reqsize n - 1 \<in> extent a1 l1" unfolding free_bytes_def by blast
    then show ?thesis using wf_blocks_bound [OF O(2) a1(1)] mx by (auto simp: extent_def)
  qed
  moreover have "room ?y r" using h' ff_alloc_room [OF al c(1) _ r(2)] c(2) Q(1) unfolding room_def by auto
  moreover have "vcap ?y = vcap x" by (simp add: vcap_def fun_eq_iff)
  ultimately show thesis using that [OF g] by simp
qed


subsection \<open>\<^verbatim>\<open>xmalloc\<close> and \<^verbatim>\<open>xfree\<close>\<close>

text \<open>A request of \<open>siz\<close> bytes can be served: some pool is large enough, and the smallest such has a free buffer.\<close>

definition serves :: "xsys \<Rightarrow> int \<Rightarrow> bool" where
  "serves x siz \<longleftrightarrow> 0 < siz \<and> 0 < nbpools (xb x) \<and> siz \<le> bufsize x (nbpools (xb x) - 1) \<and>
     0 < scount (semtab (bk (xb x)) (psem (xb x) (findClosestIndex siz x)))"

lemma pool_of_same:
  assumes "binv m R F" "binv m' R F'" "nbpools (bsys m') = nbpools (bsys m)" "b \<in> bheld m" "b \<in> bheld m'"
  shows "pool_of (bsys m') b = pool_of (bsys m) b"
proof (rule ccontr)
  assume ne: "pool_of (bsys m') b \<noteq> pool_of (bsys m) b"
  have lay: "layout (bsys m) R (barea m)" using binvD(4) [OF assms(1)] by (simp add: bmem_def)
  note T = held_tag(1,2) [OF assms(1,4)] and T' = held_tag(1,2) [OF assms(2,5), unfolded assms(3)]
  show False using layout_disjoint [OF lay T'(1) T(1) ne] T(2) T'(2) by blast
qed

lemma hp_xmalloc:
  assumes I: "hp x U H" and z: "serves x siz"
  obtains a y where "xmalloc siz x = Some (Ret a, y)" "hp y U (insert a H)" "a \<notin> H" "nat siz \<le> vcap y a" "\<And>b. b \<in> H \<Longrightarrow> vcap y b = vcap x b"
    "\<And>r. room y r = room x r"
proof -
  obtain m R F bs where B: "binv m R F" "bsys m = xb x" "\<forall>q. bpend m q = None" "bheld m = H" "bcurr m \<noteq> NULLPROC" "sizes_ok x"
      "heap_ok (kmem (bk (xb x))) bs" "free_bytes bs \<inter> U = {}" "free_bytes bs \<inter> barea m = {}" "U \<inter> barea m = {}"
    using I unfolding hp_def by blast
  define p where "p = findClosestIndex siz x"
  have S: "0 < siz" "0 < nbpools (xb x)" "siz \<le> bufsize x (nbpools (xb x) - 1)" "0 < scount (semtab (bk (xb x)) (psem (xb x) p))"
    using z by (simp_all add: serves_def p_def)
  note X = xmalloc_serves [OF B(1) B(2) [symmetric] B(6) S(2,1,3), folded p_def, OF S(4)]
  let ?a = "bpnext (buftab (xb x) p)" and ?i = "psem (xb x) p"
  let ?k = "upd_sem ?i (\<lambda>e. e\<lparr>scount := scount e - 1\<rparr>) (bk (xb x))"
  let ?g = "upd_bword ?a (word_of_int p) (upd_pool p (\<lambda>e. e\<lparr>bpnext := bword (xb x) ?a\<rparr>) ((xb x)\<lparr>bk := ?k\<rparr>))"
  let ?b = "upd_bword (?a + psize (xb x) p) (word_of_int siz) ?g"
  let ?y = "upd_frag p (x\<lparr>xb := ?b, allocBy := (allocBy x)(p := allocBy x p + siz), allocBf := (allocBf x)(p := allocBf x p + 1)\<rparr>)"
  have pb: "p \<in> bpools (bsys m)" using X(2) B(2) by simp
  have gb: "getbuf p (bsys m) = Some (Ret (4 + ?a), ?g)" using X(12) B(2) by simp
  have bp: "bpend m (bcurr m) = None" using B(3) by simp
  obtain fl where G: "binv (m\<lparr>bsys := ?g, bheld := insert (4 + ?a) (bheld m)\<rparr>) R (F(p := fl))"
    using get_step [OF B(1,5) bp pb] gb by auto
  let ?m = "m\<lparr>bsys := ?g, bheld := insert (4 + ?a) (bheld m)\<rparr>"
  have tg: "pool_of ?g (4 + ?a) = p" using X(10,11) by (simp add: signed_of_int signed_take_bit_int_eq_self)
  have ps: "int (unat (psize (xb x) p)) = bufsize x p + 4" using B(6) X(2) unfolding sizes_ok_def by blast
  have ps4: "4 \<le> unat (psize (xb x) p)" using ps findClosestIndex_props(3) [OF sizes_ascending [OF B(6)] S(2,1,3)] S(1) unfolding p_def by linarith
  have "binv (?m\<lparr>bsys := upd_bword ((4 + ?a) + of_nat (unat (psize (xb x) p) - 4)) (word_of_int siz) (bsys ?m)\<rparr>) R (F(p := fl))"
    by (rule fill_step [OF G]) (use tg ps4 in simp_all)
  moreover have "(4 + ?a) + of_nat (unat (psize (xb x) p) - 4) = ?a + psize (xb x) p" using ps4 by (simp add: of_nat_diff)
  ultimately have Y: "binv (m\<lparr>bsys := ?b, bheld := insert (4 + ?a) (bheld m)\<rparr>) R (F(p := fl))" by (cases m) simp
  let ?m' = "m\<lparr>bsys := ?b, bheld := insert (4 + ?a) (bheld m)\<rparr>"
  have so: "sizes_ok ?y" using B(6) by (simp add: sizes_ok_def)
  have "hp ?y U (insert (4 + ?a) H)"
    unfolding hp_def
    by (rule exI [of _ ?m'], rule exI [of _ R], rule exI [of _ "F(p := fl)"], rule exI [of _ bs]) (use Y B so in simp)
  moreover have "4 + ?a \<notin> H" using X(3) B(4) by simp
  moreover have "nat siz \<le> vcap ?y (4 + ?a)"
    using X(5,10,11) findClosestIndex_props(3) [OF sizes_ascending [OF B(6)] S(2,1,3)]
    by (simp add: vcap_def p_def [symmetric] signed_of_int signed_take_bit_int_eq_self)
  moreover have "vcap ?y b = vcap x b" if "b \<in> H" for b
  proof -
    have "pool_of (bsys ?m') b = pool_of (bsys m) b" by (rule pool_of_same [OF B(1) Y]) (use that B(2,4) in simp_all)
    then show ?thesis using B(2) by (simp add: vcap_def)
  qed
  moreover have "room ?y r = room x r" for r by (simp add: room_def)
  ultimately show thesis using that [OF X(1)] by blast
qed


lemma hp_xfree:
  assumes I: "hp x U H" and a: "a \<in> H"
  obtains y where "xfree a x = Some (Ret (), y)" "hp y U (H - {a})" "\<And>b. b \<in> H \<Longrightarrow> b \<noteq> a \<Longrightarrow> vcap y b = vcap x b" "\<And>r. room y r = room x r"
    "\<And>siz. serves x siz \<Longrightarrow> serves y siz"
proof -
  obtain m R F bs where B: "binv m R F" "bsys m = xb x" "\<forall>q. bpend m q = None" "bheld m = H" "bcurr m \<noteq> NULLPROC" "sizes_ok x"
      "heap_ok (kmem (bk (xb x))) bs" "free_bytes bs \<inter> U = {}" "free_bytes bs \<inter> barea m = {}" "U \<inter> barea m = {}"
    using I unfolding hp_def by blast
  note D = binvD [OF B(1)]
  define p where "p = pool_of (xb x) a"
  have ah: "a \<in> bheld m" using a B(4) by simp
  note T = held_tag [OF B(1) ah, unfolded B(2), folded p_def]
  have pp: "\<not> (p < 0 \<or> p \<ge> nbpools (xb x))" using T(1) by auto
  note Q = pool_balD [OF D(7), unfolded B(2), OF T(1)]
  let ?i = "psem (xb x) p"
  have "waiting m p = {}" using B(3) by (simp add: waiting_def)
  then have "waiters (bk (xb x)) ?i = []" using Q(3) by simp
  then have sc: "0 \<le> scount (semtab (bk (xb x)) ?i)" using kinvD(4) [OF D(1) [unfolded B(2)] Q(1)] by (auto simp: sem_ok_def)
  note G = signal_counts [OF D(1) [unfolded B(2)] Q(1,2) sc]
  let ?t = "(upd_pool p (\<lambda>e. e\<lparr>bpnext := a - 4\<rparr>) (upd_bword (a - 4) (bpnext (buftab (xb x) p)) (xb x)))\<lparr>bk := bump ?i (bk (xb x))\<rparr>"
  have f: "freebuf a (xb x) = Some (OK, ?t)" using pp G(1) by (simp add: freebuf_def Let_def p_def [symmetric])
  have "4 + (a - 4) \<in> bheld m" using ah by simp
  then obtain F' where Y: "binv (m\<lparr>bsys := ?t, bheld := bheld m - {a}\<rparr>) R F'"
    using free_step [OF B(1), of "a - 4"] f B(2) by auto
  define siz where "siz = sint (bword (xb x) (a - 4 + (4 + psize (xb x) p - 4)))"
  let ?y = "xfree_cont p siz OK (x\<lparr>xb := ?t\<rparr>)"
  have nz: "a \<noteq> 0" by (rule hp_held(1) [OF I a])
  have e: "xfree a x = Some (Ret (), ?y)" using nz pp f by (simp add: xfree_def Let_def p_def [symmetric] siz_def bump_def)
  have y: "xb ?y = ?t" "bufsize ?y = bufsize x" by (simp_all add: xfree_cont_def Let_def)
  have ps: "psize ?t q = psize (xb x) q" "psem ?t q = psem (xb x) q" for q by simp_all
  let ?m = "m\<lparr>bsys := ?t, bheld := bheld m - {a}\<rparr>"
  have so: "sizes_ok ?y" using B(6) unfolding sizes_ok_def y ps by simp
  have km: "kmem (bk ?t) = kmem (bk (xb x))" "currpid (bk ?t) = currpid (bk (xb x))" by (simp_all add: bump_def)
  have "hp ?y U (H - {a})"
    unfolding hp_def y(1)
    by (rule exI [of _ ?m], rule exI [of _ R], rule exI [of _ F'], rule exI [of _ bs]) (use Y B so km in simp)
  moreover have "vcap ?y b = vcap x b" if "b \<in> H" "b \<noteq> a" for b
  proof -
    have "pool_of (bsys ?m) b = pool_of (bsys m) b" by (rule pool_of_same [OF B(1) Y]) (use that B(2,4) in simp_all)
    then show ?thesis using B(2) y by (simp add: vcap_def)
  qed
  moreover have "room ?y r = room x r" for r using km(1) y(1) by (simp add: room_def)
  moreover have "serves ?y z" if "serves x z" for z
  proof -
    have fc: "findClosestIndex z ?y = findClosestIndex z x" unfolding findClosestIndex_def y by simp
    show ?thesis using that unfolding serves_def fc y by (auto simp: bump_def)
  qed
  ultimately show thesis using that [OF e] by blast
qed

end
