(* ===== verification/KV_Refine.thy ===== *)
theory KV_Refine
  imports KV_Heap
begin

text \<open>
  The key-value store as a map. The invariant ties the nodes, the cache and the memory of the store together; what a state stands for
  is a map from keys to values and the list of cached keys in order of use. Each operation of the
  interface is shown to do to them what it should.
\<close>

section \<open>Strings in memory\<close>

definition span :: "uint32 \<Rightarrow> nat \<Rightarrow> nat set" where
  "span p n = {unat p..<unat p + n}"

lemma unat_off:
  fixes p :: uint32
  assumes "unat p + n \<le> 2 ^ 32" "j < n"
  shows "unat (p + of_nat j) = unat p + j"
proof -
  have "p + of_nat j = of_nat (unat p + j)" by simp
  then show ?thesis using assms by (simp only: unat_of_nat) (simp add: take_bit_nat_eq_self)
qed

lemma put_out:
  assumes "unat p + length xs \<le> 2 ^ 32" "unat a \<notin> span p (length xs)"
  shows "put m p xs a = m a"
proof (rule put_other)
  show "a \<noteq> p + of_nat j" if "j < length xs" for j
  proof
    assume a: "a = p + of_nat j"
    then have "unat a = unat p + j" using unat_off [OF assms(1) that] by simp
    then show False using assms(2) that by (simp add: span_def)
  qed
qed

lemma apart_span:
  assumes "unat p + n \<le> 2 ^ 32" "unat q + k \<le> 2 ^ 32" "span p n \<inter> span q k = {}"
  shows "apart p n q k"
  unfolding apart_def
proof (intro allI impI notI)
  fix i j assume ij: "i < n" "j < k" "p + of_nat i = q + of_nat j"
  have "unat p + i = unat q + j" using arg_cong [OF ij(3), of unat] unat_off [OF assms(1) ij(1)] unat_off [OF assms(2) ij(2)] by simp
  then have "unat p + i \<in> span p n \<inter> span q k" using ij(1,2) by (auto simp: span_def)
  then show False using assms(3) by simp
qed

lemma cstr_cong:
  assumes "cstr m p xs" "unat p + length xs + 1 \<le> 2 ^ 32" "\<forall>a. unat a \<in> span p (length xs + 1) \<longrightarrow> m' a = m a"
  shows "cstr m' p xs"
  using assms
proof (induction xs arbitrary: p)
  case Nil
  then show ?case by (simp add: span_def)
next
  case (Cons x xs)
  have u: "unat (p + 1) = unat p + 1" using unat_off [of p "length xs + 2" 1] Cons.prems(2) by simp
  have "cstr m' (p + 1) xs" by (rule Cons.IH) (use Cons.prems u in \<open>auto simp: span_def\<close>)
  moreover have "m' p = m p" using Cons.prems(3) by (simp add: span_def)
  ultimately show ?case using Cons.prems(1) by simp
qed

lemma cstr_no_zero: "cstr m p xs \<Longrightarrow> 0 \<notin> set xs"
  by (induction xs arbitrary: p) auto

text \<open>Copying a string with its terminator to another place.\<close>

lemma strncpy_string:
  assumes s: "cstr m src xs" and d: "unat dst + length xs + 1 \<le> 2 ^ 32" "unat src + length xs + 1 \<le> 2 ^ 32"
    and a: "span dst (length xs + 1) \<inter> span src (length xs + 1) = {}"
  defines "m' \<equiv> snd (strncpy m dst src (int (length xs) + 1))"
  shows "cstr m' dst xs" "\<And>b. unat b \<notin> span dst (length xs + 1) \<Longrightarrow> m' b = m b"
proof -
  have n: "nat (int (length xs) + 1) = length xs + 1" by simp
  have "apart dst (length xs + 1) src (length xs + 1)" by (rule apart_span) (use d a in auto)
  then have "strncpy m dst src (int (length xs) + 1) = (dst, put m dst (xs @ [0]))"
    using strncpy_cstr [of m src xs dst "int (length xs) + 1"] s unfolding n by simp
  then have m': "m' = put m dst (xs @ [0])" by (simp add: m'_def)
  show "cstr m' dst xs" unfolding m' by (rule put_cstr) (use d(1) cstr_no_zero [OF s] in auto)
  show "m' b = m b" if "unat b \<notin> span dst (length xs + 1)" for b
    unfolding m' by (rule put_out) (use d(1) that in auto)
qed

lemma memset_frame: "unat p + nat n \<le> 2 ^ 32 \<Longrightarrow> unat b \<notin> span p (nat n) \<Longrightarrow> snd (memset m p 0 n) b = m b"
  using put_out [of p "replicate (nat n) 0" b m] by (simp add: memset_put)

section \<open>The invariant\<close>

definition key_span :: "kvsys \<Rightarrow> kvghost \<Rightarrow> uint32 \<Rightarrow> nat set" where
  "key_span s g n = span (kkey s n) (length (kstr s g n) + 1)"

definition owned :: "kvsys \<Rightarrow> kvghost \<Rightarrow> nat set \<Rightarrow> uint32 set \<Rightarrow> bool" where
  "owned s g U H \<longleftrightarrow>
    (\<forall>a\<in>nodes (gC g) \<union> kvHashTab s ` codes. unat a \<in> U) \<and> (\<forall>a\<in>nodes (gL g) \<union> lruHashTab s ` codes. unat a \<in> U) \<and>
    (\<forall>a\<in>set (headLRU s # gE g). unat a \<in> U) \<and>
    (\<forall>n\<in>nodes (gC g). key_span s g n \<subseteq> U \<and> unat (kkey s n) + length (kstr s g n) + 1 \<le> 2 ^ 32)"

text \<open>The values: each node owns a buffer that holds its string.\<close>

definition values_ok :: "kvsys \<Rightarrow> kvghost \<Rightarrow> uint32 set \<Rightarrow> bool" where
  "values_ok s g H \<longleftrightarrow> inj_on (kval s) (nodes (gC g)) \<and>
    (\<forall>n\<in>nodes (gC g). kval s n \<in> H \<and> cstr (kbytes s) (kval s n) (gV g (kval s n)) \<and> length (gV g (kval s n)) < vcap (kx s) (kval s n))"

text \<open>The cache agrees with the table on every key outside \<open>D\<close>.\<close>

definition cached :: "kvsys \<Rightarrow> kvghost \<Rightarrow> uchar list set \<Rightarrow> bool" where
  "cached s g D \<longleftrightarrow> (\<forall>e\<in>set (gE g). \<forall>n\<in>nodes (gC g). estr s g e \<notin> D \<longrightarrow> kstr s g n = estr s g e \<longrightarrow> eval s e = kval s n)"

definition kvinv_but :: "uchar list set \<Rightarrow> kvsys \<Rightarrow> kvghost \<Rightarrow> nat set \<Rightarrow> uint32 set \<Rightarrow> bool" where
  "kvinv_but D s g U H \<longleftrightarrow> hp (kx s) U H \<and> kvshape s g \<and> owned s g U H \<and> values_ok s g H \<and> cached s g D \<and>
     int (length (gE g)) \<le> counterLRU s \<and> counterLRU s \<le> LRU_CACHE_SIZE"

abbreviation kvinv :: "kvsys \<Rightarrow> kvghost \<Rightarrow> nat set \<Rightarrow> uint32 set \<Rightarrow> bool" where
  "kvinv \<equiv> kvinv_but {}"

lemmas kvinv_def = kvinv_but_def

lemma kvinvD:
  assumes "kvinv_but D s g U H"
  shows "hp (kx s) U H" "kvshape s g" "owned s g U H" "values_ok s g H" "cached s g D" "int (length (gE g)) \<le> counterLRU s" "counterLRU s \<le> LRU_CACHE_SIZE"
  using assms by (simp_all add: kvinv_def)

definition kvmap :: "kvsys \<Rightarrow> kvghost \<Rightarrow> uchar list \<rightharpoonup> uchar list" where
  "kvmap s g x = map_option (\<lambda>n. gV g (kval s n)) (kvof s g x)"

text \<open>The state \<open>s\<close> stands for the map \<open>A\<close> and the cached keys \<open>Q\<close>; the bytes \<open>U\<close> belong to the store and its callers.\<close>

definition kvrel :: "kvsys \<Rightarrow> nat set \<Rightarrow> (uchar list \<rightharpoonup> uchar list) \<Rightarrow> uchar list list \<Rightarrow> bool" where
  "kvrel s U A Q \<longleftrightarrow> (\<exists>g H. kvinv s g U H \<and> A = kvmap s g \<and> Q = recent s g)"

lemma cached_node:
  assumes I: "kvshape s g" and x: "x \<in> set (recent s g)"
  obtains n where "kvof s g x = Some n" "n \<in> nodes (gC g)" "kstr s g n = x"
proof -
  obtain e where e: "e \<in> set (gE g)" "estr s g e = x" using x by (auto simp: recent_def)
  then obtain n where "n \<in> nodes (gC g)" "kkey s n = ekey s e" using entry_key(1) [OF I e(1)] by (auto simp: kvkeys_def)
  then show thesis using that kvof_iff [OF I] e(2) by auto
qed

lemma kvrel_cached: "kvrel s U A Q \<Longrightarrow> distinct Q \<and> set Q \<subseteq> dom A \<and> int (length Q) \<le> counterLRU s \<and> counterLRU s \<le> LRU_CACHE_SIZE"
proof -
  assume "kvrel s U A Q"
  then obtain g H where I: "kvinv s g U H" and A: "A = kvmap s g" "Q = recent s g" unfolding kvrel_def by blast
  note D = kvinvD [OF I]
  have "set Q \<subseteq> dom A"
  proof
    fix x assume x: "x \<in> set Q"
    obtain n where "kvof s g x = Some n" by (rule cached_node [OF D(2), of x]) (use x A in auto)
    then show "x \<in> dom A" using A by (simp add: kvmap_def dom_def)
  qed
  then show ?thesis using recent_distinct [OF D(2)] D(6,7) A(2) by (simp add: recent_def)
qed

section \<open>Looking up\<close>

text \<open>The order of the cached keys may change without changing anything else.\<close>

lemma kvinv_reorder:
  assumes I: "kvinv_but D s g U H" and s: "kvshape t (g\<lparr>gE := es\<rparr>)" "set es = set (gE g)" "same_nodes s t" and d: "length es = length (gE g)"
    and f: "kx t = kx s" "kbytes t = kbytes s" "kvHashTab t = kvHashTab s" "lruHashTab t = lruHashTab s" "headLRU t = headLRU s" "counterLRU t = counterLRU s"
  shows "kvinv_but D t (g\<lparr>gE := es\<rparr>) U H" "kvmap t (g\<lparr>gE := es\<rparr>) = kvmap s g"
proof -
  note J = kvinvD [OF I] and S = same_nodesD [OF s(3)]
  have "owned t (g\<lparr>gE := es\<rparr>) U H" using J(3) f s(2) unfolding owned_def key_span_def by (simp add: S)
  moreover have "values_ok t (g\<lparr>gE := es\<rparr>) H" using J(4) f unfolding values_ok_def by (simp add: S)
  moreover have "cached t (g\<lparr>gE := es\<rparr>) D" using J(5) s(2) unfolding cached_def by (simp add: S)
  ultimately show "kvinv_but D t (g\<lparr>gE := es\<rparr>) U H" using J s(1) f d by (simp add: kvinv_def)
  show "kvmap t (g\<lparr>gE := es\<rparr>) = kvmap s g" by (simp add: kvmap_def kvof_def S fun_eq_iff)
qed

lemma getLRUCache_inv:
  assumes I: "kvinv_but D s g U H" and k: "is_key s key x"
  obtains t g' where "getLRUCache key s = Some (if x \<in> set (recent s g) then tailLRU t else 0, t)" "kvinv_but D t g' U H" "kvmap t g' = kvmap s g"
    "recent t g' = touch x (recent s g)" "x \<in> set (recent s g) \<Longrightarrow> gE g' \<noteq> [] \<and> tailLRU t = last (gE g') \<and> estr t g' (last (gE g')) = x"
    "same_nodes s t" "gC g' = gC g" "gS g' = gS g" "kx t = kx s" "counterLRU t = counterLRU s" "kbytes t = kbytes s" "totalAccesses t = totalAccesses s + 1" "totalHits t = totalHits s + (if x \<in> set (recent s g) then 1 else 0)"
    "x \<in> set (recent s g) \<Longrightarrow> x \<noteq> last (recent s g) \<Longrightarrow> enext t (last (gE g')) \<in> set (gE g')"
proof -
  note J = kvinvD [OF I]
  obtain t es where T: "getLRUCache key s = Some (if x \<in> set (recent s g) then tailLRU t else 0, t)" "kvshape t (g\<lparr>gE := es\<rparr>)" "set es = set (gE g)"
      "recent t (g\<lparr>gE := es\<rparr>) = touch x (recent s g)" "x \<in> set (recent s g) \<Longrightarrow> es \<noteq> [] \<and> tailLRU t = last es \<and> estr s g (last es) = x"
      "same_nodes s t" "t = s\<lparr>kvn := kvn t, lre := lre t, lrn := lrn t, tailLRU := tailLRU t, totalAccesses := totalAccesses s + 1,
         totalHits := totalHits s + (if x \<in> set (recent s g) then 1 else 0)\<rparr>"
      "x \<in> set (recent s g) \<Longrightarrow> x \<noteq> last (recent s g) \<Longrightarrow> enext t (last es) \<in> set es"
    by (rule getLRUCache_ok [OF J(2) k]) (rule that; assumption)
  have f: "kx t = kx s" "kbytes t = kbytes s" "kvHashTab t = kvHashTab s" "lruHashTab t = lruHashTab s" "headLRU t = headLRU s" "counterLRU t = counterLRU s"
      "totalAccesses t = totalAccesses s + 1" "totalHits t = totalHits s + (if x \<in> set (recent s g) then 1 else 0)"
    by (subst T(7), simp)+
  have "distinct es" "distinct (gE g)" using cache_okD(1) [OF kvshapeD(3) [OF T(2)]] cache_okD(1) [OF kvshapeD(3) [OF J(2)]] by simp_all
  then have "length es = length (gE g)" using T(3) by (metis distinct_card)
  note R = kvinv_reorder [OF I T(2,3,6) this f(1-6)]
  show thesis by (rule that [OF T(1) R T(4) _ T(6)]) (use T(5,8) f same_nodesD [OF T(6)] in auto)
qed

lemma kv_get_inv:
  assumes I: "kvinv s g U H" and k: "is_key s key x"
  obtains v t g' where "kv_get key s = Some (v, t)" "kvinv t g' U H" "kvmap t g' = kvmap s g" "recent t g' = touch x (recent s g)"
    "case kvmap s g x of None \<Rightarrow> v = 0 | Some w \<Rightarrow> v \<noteq> 0 \<and> cstr (kbytes t) v w" "kbytes t = kbytes s"
    "totalAccesses t = totalAccesses s + 1" "totalHits t = totalHits s + (if x \<in> set (recent s g) then 1 else 0)"
    "x \<in> set (recent s g) \<Longrightarrow> x \<noteq> last (recent s g) \<Longrightarrow> enext t (last (gE g')) \<in> set (gE g')"
proof -
  obtain t g' where T: "getLRUCache key s = Some (if x \<in> set (recent s g) then tailLRU t else 0, t)" "kvinv t g' U H" "kvmap t g' = kvmap s g"
      "recent t g' = touch x (recent s g)" "x \<in> set (recent s g) \<Longrightarrow> gE g' \<noteq> [] \<and> tailLRU t = last (gE g') \<and> estr t g' (last (gE g')) = x"
      "kbytes t = kbytes s" "totalAccesses t = totalAccesses s + 1" "totalHits t = totalHits s + (if x \<in> set (recent s g) then 1 else 0)"
      "x \<in> set (recent s g) \<Longrightarrow> x \<noteq> last (recent s g) \<Longrightarrow> enext t (last (gE g')) \<in> set (gE g')"
    by (rule getLRUCache_inv [OF I k]) (rule that; assumption)
  note D = kvinvD [OF T(2)]
  have val: "cstr (kbytes t) (kval t n) (gV g' (kval t n)) \<and> kval t n \<noteq> 0" if "n \<in> nodes (gC g')" for n
    using D(4) that hp_held(1) [OF D(1)] unfolding values_ok_def by simp
  show thesis
  proof (cases "x \<in> set (recent s g)")
    case True
    then have x': "x \<in> set (recent t g')" using T(4) by (simp add: touch_def)
    obtain n where n: "kvof t g' x = Some n" "n \<in> nodes (gC g')" "kstr t g' n = x" by (rule cached_node [OF D(2) x']) (rule that; assumption)
    note L = T(5) [OF True]
    have le: "last (gE g') \<in> set (gE g')" using L by simp
    have ev: "eval t (last (gE g')) = kval t n" using D(5) le n(2,3) L unfolding cached_def by simp
    have "last (gE g') \<noteq> 0" using cache_okD(3) [OF kvshapeD(3) [OF D(2)]] le by metis
    then have e: "kv_get key s = Some (kval t n, t)" using T(1) True L ev by (simp add: kv_get_def eval_def)
    have "kvmap s g x = Some (gV g' (kval t n))" using T(3) n(1) by (metis kvmap_def option.simps(9))
    then show thesis using that [OF e T(2-4) _ T(6-9)] val [OF n(2)] by simp
  next
    case False
    have "is_key t key x" using k T(6) by (simp add: is_key_def)
    then have g: "getKVHashTab key t = Some (node_or_null (kvof t g' x))" by (rule getKVHashTab_ok [OF D(2)])
    show thesis
    proof (cases "kvof t g' x")
      case None
      then have e: "kv_get key s = Some (0, t)" using T(1) False g by (simp add: kv_get_def node_or_null_def)
      have "kvmap s g x = None" using T(3) None by (metis kvmap_def option.simps(8))
      then show thesis using that [OF e T(2-4) _ T(6-9)] by simp
    next
      case (Some n)
      then have n: "n \<in> nodes (gC g')" using kvof_iff [OF D(2)] by simp
      then have "n \<noteq> 0" using nodes_nz [OF kvshapeD(1) [OF D(2)]] by metis
      then have e: "kv_get key s = Some (kval t n, t)" using T(1) False g Some by (simp add: kv_get_def node_or_null_def kval_def)
      have "kvmap s g x = Some (gV g' (kval t n))" using T(3) Some by (metis kvmap_def option.simps(9))
      then show thesis using that [OF e T(2-4) _ T(6-9)] val [OF n] by simp
    qed
  qed
qed


section \<open>Deleting\<close>

lemma delLRUCache_inv:
  assumes I: "kvinv s g U H" and k: "is_key s key x"
  obtains r t g' where "delLRUCache key s = Some (r, t)" "kvinv t g' U H" "kvmap t g' = kvmap s g" "recent t g' = remove1 x (recent s g)" "kbytes t = kbytes s"
proof (cases "lruof s g x")
  case None
  then have "delLRUCache key s = Some (1, s)" using getLRUHashTab_ok [OF kvinvD(2) [OF I] k] by (simp add: delLRUCache_def node_or_null_def)
  moreover have "x \<notin> set (recent s g)" using recent_set [OF kvinvD(2) [OF I]] None by simp
  ultimately show thesis using that I by (metis remove1_idem)
next
  case (Some l)
  note D = kvinvD [OF I]
  obtain t es L where T: "delLRUCache key s = Some (0, t)" "kvshape t (g\<lparr>gE := es, gL := L\<rparr>)" "recent t (g\<lparr>gE := es, gL := L\<rparr>) = remove1 x (recent s g)"
      "set es \<subseteq> set (gE g)" "nodes L \<subseteq> nodes (gL g)" "t = s\<lparr>lre := lre t, lrn := lrn t, tailLRU := tailLRU t\<rparr>" "ekey t = ekey s" "eval t = eval s"
    by (rule delLRUCache_ok [OF D(2) k Some]) (rule that; assumption)
  let ?g = "g\<lparr>gE := es, gL := L\<rparr>"
  have f: "kx t = kx s" "kbytes t = kbytes s" "kvHashTab t = kvHashTab s" "lruHashTab t = lruHashTab s" "headLRU t = headLRU s" "counterLRU t = counterLRU s" "kvn t = kvn s"
    by (subst T(6), simp)+
  then have a: "knext t = knext s" "kkey t = kkey s" "kval t = kval s" by (simp_all add: fun_eq_iff accessors)
  have "owned t ?g U H" using D(3) f T(4,5) unfolding owned_def key_span_def by (auto simp: a)
  moreover have "values_ok t ?g H" using D(4) f unfolding values_ok_def by (simp add: a)
  moreover have "cached t ?g {}" using D(5) T(4) unfolding cached_def by (auto simp: a T(7,8))
  moreover have "length es \<le> length (gE g)"
  proof -
    have "distinct es" "distinct (gE g)" using cache_okD(1) [OF kvshapeD(3) [OF T(2)]] cache_okD(1) [OF kvshapeD(3) [OF D(2)]] by simp_all
    then show ?thesis using card_mono [OF _ T(4)] by (simp add: distinct_card)
  qed
  ultimately have "kvinv t ?g U H" using D T(2) f by (simp add: kvinv_def)
  moreover have "kvmap t ?g = kvmap s g" by (simp add: kvmap_def kvof_def a fun_eq_iff)
  ultimately show thesis using that [OF T(1)] T(3) f(2) by blast
qed

text \<open>Removing the node of a key that is not cached.\<close>

lemma kvshape_del:
  assumes I: "kvshape s g" and n: "kvof s g x = Some n" "x \<notin> set (recent s g)" and C: "gC g (hashS x) = A @ n # B"
    and u: "knext t = (knext s)(last (kvHashTab s (hashS x) # A) := knext s n)" "kkey t = kkey s"
    and f: "lrn t = lrn s" "lre t = lre s" "kbytes t = kbytes s" "kvHashTab t = kvHashTab s" "lruHashTab t = lruHashTab s" "headLRU t = headLRU s" "tailLRU t = tailLRU s"
  defines "g' \<equiv> g\<lparr>gC := (gC g)(hashS x := A @ B)\<rparr>"
  shows "kvshape t g'" "nodes (gC g') = nodes (gC g) - {n}" "kvof t g' = (kvof s g)(x := None)"
proof -
  note K = kvshapeD [OF I] and N = kvof_iff [OF I, of x n, THEN iffD1, OF n(1)]
  have sx: "kstr s g n = x" using N by simp
  note R = table_remove [OF K(1), of n A B, unfolded sx, OF C]
  show nd: "nodes (gC g') = nodes (gC g) - {n}" using R(2) by (simp add: g'_def)
  have t1: "table (kvHashTab t) (knext t) (kstr t g') (gC g')" using R(1) by (simp add: g'_def u f)
  have a: "lnext t = lnext s" "lkey t = lkey s" "lprev t = lprev s" "ekey t = ekey s" "enext t = enext s" using f by (simp_all add: fun_eq_iff accessors)
  have lo: "lruof t g' = lruof s g" by (simp add: lruof_def g'_def a)
  have "epv t g' = epv s g" using lo by (simp add: epv_def fun_eq_iff a g'_def)
  then have co: "cache_ok t g'" using K(3) by (simp add: cache_ok_def a f g'_def)
  have keep: "p \<in> kvkeys t g'" if p: "p \<in> kvkeys s g" "gS g p \<noteq> x" for p
    using p sx nd by (auto simp: kvkeys_def u)
  have le: "estr s g e \<noteq> x" if "e \<in> set (gE g)" for e using that n(2) by (auto simp: recent_def)
  have ll: "lstr s g l \<noteq> x" if "l \<in> nodes (gL g)" for l
  proof
    assume "lstr s g l = x"
    then have "x \<in> estr s g ` set (gE g)" using that cache_okD(7) [OF K(3)] by blast
    then show False using n(2) by (simp add: recent_def)
  qed
  have "kvkeys t g' \<subseteq> kvkeys s g" using nd by (auto simp: kvkeys_def u)
  then have "\<forall>p\<in>kvkeys t g'. p \<noteq> 0 \<and> cstr (kbytes t) p (gS g' p) \<and> key_ok (gS g' p)" using K(4) f by (auto simp: g'_def)
  moreover have "\<forall>l\<in>nodes (gL g'). lkey t l \<in> kvkeys t g'" using keep [OF K(5) ll] by (simp add: a g'_def)
  moreover have "\<forall>e\<in>set (gE g'). ekey t e \<in> kvkeys t g'" using keep [OF K(6) le] by (simp add: a g'_def)
  moreover have "table (lruHashTab t) (lnext t) (lstr t g') (gL g')" using K(2) by (simp add: a f g'_def)
  ultimately show "kvshape t g'" using t1 co unfolding kvshape_def by blast
  have ks: "kstr t g' = kstr s g" by (simp add: u g'_def)
  show "kvof t g' = (kvof s g)(x := None)"
    using lookup_remove [OF K(1) t1 [unfolded ks f], of n] nd N sx by (simp add: kvof_def ks)
qed

lemma delKVHashTab_inv:
  assumes I: "kvinv s g U H" and k: "is_key s key x" and x: "x \<notin> set (recent s g)"
  obtains t g' H' where "delKVHashTab key s = Some (if x \<in> dom (kvmap s g) then 0 else 1, t)" "kvinv t g' U H'" "kvmap t g' = (kvmap s g)(x := None)"
    "recent t g' = recent s g" "kbytes t = kbytes s"
proof -
  note D = kvinvD [OF I] and K = kvshapeD [OF kvinvD(2) [OF I]] and Q = is_keyD [OF k]
  have ks: "\<forall>a\<in>nodes (gC g). cstr (kbytes s) (kkey s a) (kstr s g a)" using K(4) by (simp add: kvkeys_def)
  note B = chain_before_ok [where S = "gS g" and ky = "kkey s", OF K(1) ks Q(3)]
  show thesis
  proof (cases "kvof s g x")
    case None
    then have "delKVHashTab key s = Some (1, s)"
      using B(1) Q hashS_range [of x] by (simp add: delKVHashTab_def Let_def kvof_def knext_def [abs_def] kkey_def [abs_def])
    moreover have "x \<notin> dom (kvmap s g)" "(kvmap s g)(x := None) = kvmap s g" using None by (auto simp: kvmap_def)
    ultimately show thesis using that I by auto
  next
    case (Some n)
    obtain A Z where C: "gC g (hashS x) = A @ n # Z" "last (kvHashTab s (hashS x) # A) \<noteq> 0" "knext s (last (kvHashTab s (hashS x) # A)) = n"
        "chain_before (knext s) (kkey s) (kbytes s) key (int (length x) + 1) (kvHashTab s (hashS x)) = Some (last (kvHashTab s (hashS x) # A))"
      using B(2) Some unfolding kvof_def by blast
    define p where "p = last (kvHashTab s (hashS x) # A)"
    have n: "n \<in> nodes (gC g)" "kstr s g n = x" using kvof_iff [OF D(2)] Some by auto
    have vH: "kval s n \<in> H" using D(4) n(1) unfolding values_ok_def by simp
    obtain y where Y: "xfree (kval s n) (kx s) = Some (Ret (), y)" "hp y U (H - {kval s n})" "\<And>b. b \<in> H \<Longrightarrow> b \<noteq> kval s n \<Longrightarrow> vcap y b = vcap (kx s) b"
      by (rule hp_xfree [OF D(1) vH]) (rule that; assumption)
    define t where "t = upd_kvn p (\<lambda>e. e\<lparr>kv_next := knext s n\<rparr>) (s\<lparr>kx := y\<rparr>)"
    have e: "delKVHashTab key s = Some (0, t)"
      using C(2-4) [folded p_def] Y(1) Q hashS_range [of x]
      by (simp add: delKVHashTab_def Let_def knext_def [abs_def] kkey_def [abs_def] kval_def kv_xfree_def t_def)
    have a: "knext t = (knext s)(p := knext s n)" "kkey t = kkey s" "kval t = kval s" "ekey t = ekey s" "eval t = eval s"
      by (auto simp: t_def fun_eq_iff accessors)
    have f: "lrn t = lrn s" "lre t = lre s" "kbytes t = kbytes s" "kvHashTab t = kvHashTab s" "lruHashTab t = lruHashTab s" "headLRU t = headLRU s" "tailLRU t = tailLRU s"
        "kx t = y" "counterLRU t = counterLRU s"
      by (simp_all add: t_def)
    let ?g = "g\<lparr>gC := (gC g)(hashS x := A @ Z)\<rparr>"
    note S = kvshape_del [OF D(2) Some x C(1) a(1) [unfolded p_def] a(2) f(1-7)]
    have "owned t ?g U (H - {kval s n})" using D(3) unfolding owned_def key_span_def S(2) by (auto simp: a f)
    moreover have "values_ok t ?g (H - {kval s n})"
    proof -
      have inj: "inj_on (kval s) (nodes (gC g))" using D(4) by (simp add: values_ok_def)
      have "kval s b \<noteq> kval s n" if "b \<in> nodes (gC g) - {n}" for b using inj that n(1) by (auto simp: inj_on_def)
      then show ?thesis using D(4) Y(3) unfolding values_ok_def S(2) a f by (auto intro: inj_on_subset)
    qed
    moreover have "cached t ?g {}" using D(5) unfolding cached_def S(2) by (simp add: a)
    ultimately have i: "kvinv t ?g U (H - {kval s n})" using D(6,7) S(1) Y(2) f by (simp add: kvinv_def)
    have "x \<in> dom (kvmap s g)" using Some by (simp add: kvmap_def dom_def)
    moreover have "kvmap t ?g = (kvmap s g)(x := None)" unfolding kvmap_def [abs_def] S(3) a by (auto simp: fun_eq_iff)
    moreover have "recent t ?g = recent s g" by (simp add: recent_def a)
    ultimately show thesis using that [OF _ i] e f(3) by simp
  qed
qed


section \<open>The cache after a change of a value\<close>

text \<open>The keys in the cache after a set: \<open>c\<close> entries have been made.\<close>

definition lru_set :: "int \<Rightarrow> 'a \<Rightarrow> 'a list \<Rightarrow> 'a list" where
  "lru_set c x q = (if x \<in> set q then touch x q else if c < LRU_CACHE_SIZE then q @ [x] else tl q @ [x])"

lemma setLRUCache_split:
  "setLRUCache key val s = do {
     (cur, s2) \<leftarrow> getLRUCache key (s\<lparr>totalSetSuccess := totalSetSuccess s + 1\<rparr>);
     if cur \<noteq> 0 then Some (0, upd_lre cur (\<lambda>e. e\<lparr>le_val := val\<rparr>) s2)
     else if counterLRU s2 < LRU_CACHE_SIZE then lru_insert key val s2 else lru_evict key val s2 }"
proof (cases "getLRUCache key (s\<lparr>totalSetSuccess := totalSetSuccess s + 1\<rparr>)")
  case None
  then show ?thesis by (simp add: setLRUCache_def Let_def)
next
  case (Some r)
  then show ?thesis by (cases r) (simp add: setLRUCache_def lru_insert_def lru_evict_def Let_def)
qed

text \<open>A change of the cache after which the entry of \<open>x\<close> has the value of the node of \<open>x\<close>.\<close>

lemma kvinv_lru_change:
  assumes I: "kvinv_but {x} s g U H" and n: "kvof s g x = Some n" and s: "kvshape t (g\<lparr>gE := es, gL := L\<rparr>)"
    and U: "hp (kx t) V H" "U \<subseteq> V" "\<forall>a\<in>nodes L. a \<in> nodes (gL g) \<or> unat a \<in> V" "\<forall>e\<in>set es. e \<in> set (gE g) \<or> unat e \<in> V"
    and e: "\<forall>e\<in>set es. if estr t g e = x then eval t e = kval s n else e \<in> set (gE g) \<and> ekey t e = ekey s e \<and> eval t e = eval s e"
    and f: "kvn t = kvn s" "kbytes t = kbytes s" "kvHashTab t = kvHashTab s" "lruHashTab t = lruHashTab s" "headLRU t = headLRU s" "vcap (kx t) = vcap (kx s)"
    and c: "int (length es) \<le> counterLRU t" "counterLRU t \<le> LRU_CACHE_SIZE"
  shows "kvinv t (g\<lparr>gE := es, gL := L\<rparr>) V H" "kvmap t (g\<lparr>gE := es, gL := L\<rparr>) = kvmap s g"
proof -
  let ?g = "g\<lparr>gE := es, gL := L\<rparr>"
  note J = kvinvD [OF I]
  have a: "knext t = knext s" "kkey t = kkey s" "kval t = kval s" using f(1) by (simp_all add: fun_eq_iff accessors)
  have "owned t ?g V H" using J(3) U(2-4) unfolding owned_def key_span_def by (simp add: a f) blast
  moreover have "values_ok t ?g H" using J(4) unfolding values_ok_def by (simp add: a f)
  moreover have "cached t ?g {}"
    unfolding cached_def
  proof (intro ballI impI)
    fix e' m assume e': "e' \<in> set (gE ?g)" and m: "m \<in> nodes (gC ?g)" "kstr t ?g m = estr t ?g e'"
    show "eval t e' = kval t m"
    proof (cases "estr t g e' = x")
      case True
      then have "kvof s g x = Some m" using m kvof_iff [OF J(2)] by (simp add: a)
      then show ?thesis using n e e' True by (simp add: a)
    next
      case False
      then have o: "e' \<in> set (gE g)" "ekey t e' = ekey s e'" "eval t e' = eval s e'" using e e' by auto
      then show ?thesis using J(5) m False unfolding cached_def by (simp add: a)
    qed
  qed
  ultimately show "kvinv t ?g V H" using s U(1) c by (simp add: kvinv_def)
  show "kvmap t ?g = kvmap s g" by (simp add: kvmap_def kvof_def a fun_eq_iff)
qed

lemma setLRUCache_hit:
  assumes I: "kvinv_but {x} t g U H" and n: "kvof t g x = Some n"
    and L: "gE g \<noteq> []" "c = last (gE g)" "estr t g c = x"
  defines "u \<equiv> upd_lre c (\<lambda>e. e\<lparr>le_val := kval t n\<rparr>) t"
  shows "kvinv u g U H" "kvmap u g = kvmap t g" "recent u g = recent t g"
proof -
  note J = kvinvD [OF I]
  have a: "ekey u = ekey t" "enext u = enext t" "eval u = (eval t)(c := kval t n)" by (auto simp: u_def fun_eq_iff accessors)
  have s: "kvshape u g" using J(2) kvshape_cong(1) [of u t g] by (simp add: u_def fun_eq_iff accessors)
  have g: "g\<lparr>gE := gE g, gL := gL g\<rparr> = g" by simp
  have "estr t g e \<noteq> x" if "e \<in> set (gE g)" "e \<noteq> c" for e
    using cache_okD(6) [OF kvshapeD(3) [OF J(2)]] that L by (auto simp: inj_on_def)
  then have "\<forall>e\<in>set (gE g). if estr u g e = x then eval u e = kval t n else e \<in> set (gE g) \<and> ekey u e = ekey t e \<and> eval u e = eval t e"
    using L(3) by (auto simp: a)
  then show "kvinv u g U H" "kvmap u g = kvmap t g"
    using kvinv_lru_change [OF I n, where t = u and es = "gE g" and L = "gL g" and V = U] s J(1,6,7) unfolding g by (simp_all add: u_def)
  show "recent u g = recent t g" by (simp add: recent_def a)
qed

lemma reqsize_12: "reqsize 12 = 16"
  by (simp add: reqsize_def)

lemma span_start: "0 < k \<Longrightarrow> unat a \<in> {unat a..<unat a + k}"
  by simp

lemma fresh_addr:
  assumes "owned s g U H" "unat a \<notin> U"
  shows "a \<notin> nodes (gC g)" "a \<notin> kvHashTab s ` codes" "a \<notin> nodes (gL g)" "a \<notin> lruHashTab s ` codes" "a \<notin> set (headLRU s # gE g)"
  using assms unfolding owned_def by blast+

lemma lru_insert_inv:
  assumes I: "kvinv_but {x} s g U H" and n: "kvof s g x = Some n" and x: "x \<notin> set (recent s g)" and r: "room (kx s) (32 + r)" "0 < r"
    and c: "counterLRU s < LRU_CACHE_SIZE"
  obtains t g' V where "lru_insert (kkey s n) (kval s n) s = Some (0, t)" "kvinv t g' V H" "U \<subseteq> V" "kvmap t g' = kvmap s g" "recent t g' = recent s g @ [x]"
    "kbytes t = kbytes s" "counterLRU t = counterLRU s + 1"
proof -
  note J = kvinvD [OF I]
  have nn: "n \<in> nodes (gC g)" "kstr s g n = x" using kvof_iff [OF J(2)] n by auto
  have kk: "kkey s n \<in> kvkeys s g" using nn(1) by (simp add: kvkeys_def)
  have key: "is_key s (kkey s n) x" using is_key_own [OF J(2) kk] nn(2) by simp
  have z: "(12 :: uint32) \<noteq> 0" "unat (12 :: uint32) \<le> 2 ^ 32 - 8" by simp_all
  have r1: "room (kx s) (reqsize 12 + (16 + r))" "0 < 16 + r" using r by (simp_all add: reqsize_12 add.assoc)
  obtain c y1 where C: "kx_getmem 12 (kx s) = Some (c, y1)" "hp y1 (U \<union> {unat c..<unat c + reqsize 12}) H" "{unat c..<unat c + reqsize 12} \<inter> U = {}" "c \<noteq> 0"
      "room y1 (16 + r)" "vcap y1 = vcap (kx s)"
    by (rule hp_getmem [OF J(1) z r1]) (rule that; assumption)
  let ?U = "U \<union> {unat c..<unat c + reqsize 12}"
  have r2: "room y1 (reqsize 12 + r)" using C(5) by (simp add: reqsize_12)
  obtain a y2 where A: "kx_getmem 12 y1 = Some (a, y2)" "hp y2 (?U \<union> {unat a..<unat a + reqsize 12}) H" "{unat a..<unat a + reqsize 12} \<inter> ?U = {}" "a \<noteq> 0"
      "vcap y2 = vcap y1"
    by (rule hp_getmem [OF C(2) z r2 r(2)]) (rule that; assumption)
  let ?V = "?U \<union> {unat a..<unat a + reqsize 12}"
  have p16: "0 < reqsize 12" by (simp add: reqsize_12)
  have cU: "unat c \<notin> U" and aU: "unat a \<notin> U" using C(3) A(3) span_start [OF p16] by blast+
  note fc = fresh_addr(5) [OF J(3) cU] and fa = fresh_addr(3,4) [OF J(3) aU]
  obtain t L where T: "lru_insert (kkey s n) (kval s n) s = Some (0, t)" "kvshape t (g\<lparr>gE := gE g @ [c], gL := L\<rparr>)" "nodes L = insert a (nodes (gL g))"
      "recent t (g\<lparr>gE := gE g @ [c], gL := L\<rparr>) = recent s g @ [x]" "ekey t = (ekey s)(c := kkey s n)" "eval t = (eval s)(c := kval s n)"
      "t = s\<lparr>kx := y2, lre := lre t, lrn := lrn t, tailLRU := c, counterLRU := counterLRU s + 1\<rparr>"
    by (rule lru_insert_ok [where val = "kval s n", OF J(2) key nn(2) kk x C(1) A(1) C(4) fc A(4) fa]) (rule that; assumption)
  have f: "kvn t = kvn s" "kbytes t = kbytes s" "kvHashTab t = kvHashTab s" "lruHashTab t = lruHashTab s" "headLRU t = headLRU s" "kx t = y2" "counterLRU t = counterLRU s + 1"
    by (subst T(7), simp)+
  have "estr s g e \<noteq> x" if "e \<in> set (gE g)" for e using that x by (auto simp: recent_def)
  then have e: "\<forall>e\<in>set (gE g @ [c]). if estr t g e = x then eval t e = kval s n else e \<in> set (gE g) \<and> ekey t e = ekey s e \<and> eval t e = eval s e"
    using fc nn(2) by (auto simp: T(5,6))
  have V: "hp (kx t) ?V H" "\<forall>b\<in>nodes L. b \<in> nodes (gL g) \<or> unat b \<in> ?V" "\<forall>e\<in>set (gE g @ [c]). e \<in> set (gE g) \<or> unat e \<in> ?V"
    using A(2) f T(3) span_start [OF p16, of a] span_start [OF p16, of c] by auto
  have "vcap (kx t) = vcap (kx s)" using f(6) A(5) C(6) by simp
  note R = kvinv_lru_change [OF I n T(2) V(1) _ V(2,3) e f(1-5) this]
  show thesis by (rule that [OF T(1) R(1)]) (use R(2) J(6,7) c f T(4) in auto)
qed

lemma lru_evict_inv:
  assumes I: "kvinv_but {x} s g U H" and n: "kvof s g x = Some n" and x: "x \<notin> set (recent s g)" and r: "room (kx s) (32 + r)" "0 < r" and c: "recent s g \<noteq> []"
  obtains t g' V where "lru_evict (kkey s n) (kval s n) s = Some (0, t)" "kvinv t g' V H" "U \<subseteq> V" "kvmap t g' = kvmap s g" "recent t g' = tl (recent s g) @ [x]"
    "kbytes t = kbytes s" "counterLRU t = counterLRU s"
proof -
  note J = kvinvD [OF I]
  have nn: "n \<in> nodes (gC g)" "kstr s g n = x" using kvof_iff [OF J(2)] n by auto
  have kk: "kkey s n \<in> kvkeys s g" using nn(1) by (simp add: kvkeys_def)
  have key: "is_key s (kkey s n) x" using is_key_own [OF J(2) kk] nn(2) by simp
  have z: "(12 :: uint32) \<noteq> 0" "unat (12 :: uint32) \<le> 2 ^ 32 - 8" by simp_all
  have r1: "room (kx s) (reqsize 12 + (16 + r))" "0 < 16 + r" using r by (simp_all add: reqsize_12 add.assoc)
  obtain a y where A: "kx_getmem 12 (kx s) = Some (a, y)" "hp y (U \<union> {unat a..<unat a + reqsize 12}) H" "{unat a..<unat a + reqsize 12} \<inter> U = {}" "a \<noteq> 0"
      "vcap y = vcap (kx s)"
    by (rule hp_getmem [OF J(1) z r1]) (rule that; assumption)
  let ?V = "U \<union> {unat a..<unat a + reqsize 12}"
  have p16: "0 < reqsize 12" by (simp add: reqsize_12)
  have aU: "unat a \<notin> U" using A(3) span_start [OF p16] by blast
  note fa = fresh_addr(3,4) [OF J(3) aU]
  obtain h bs where E: "gE g = h # bs" using c by (cases "gE g") (auto simp: recent_def)
  obtain t L where T: "lru_evict (kkey s n) (kval s n) s = Some (0, t)" "kvshape t (g\<lparr>gE := bs @ [h], gL := L\<rparr>)" "nodes L \<subseteq> insert a (nodes (gL g))"
      "recent t (g\<lparr>gE := bs @ [h], gL := L\<rparr>) = tl (recent s g) @ [x]" "ekey t = (ekey s)(h := kkey s n)" "eval t = (eval s)(h := kval s n)"
      "t = s\<lparr>kx := y, lre := lre t, lrn := lrn t, tailLRU := tailLRU t, totalEvictions := totalEvictions s + 1\<rparr>"
    by (rule lru_evict_ok [where val = "kval s n", OF J(2) key nn(2) kk x A(1) E A(4) fa]) (rule that; assumption)
  have f: "kvn t = kvn s" "kbytes t = kbytes s" "kvHashTab t = kvHashTab s" "lruHashTab t = lruHashTab s" "headLRU t = headLRU s" "kx t = y" "counterLRU t = counterLRU s"
    by (subst T(7), simp)+
  have "estr s g e \<noteq> x" if "e \<in> set (gE g)" for e using that x by (auto simp: recent_def)
  then have e: "\<forall>e\<in>set (bs @ [h]). if estr t g e = x then eval t e = kval s n else e \<in> set (gE g) \<and> ekey t e = ekey s e \<and> eval t e = eval s e"
    using nn(2) E by (auto simp: T(5,6))
  have V: "hp (kx t) ?V H" "\<forall>b\<in>nodes L. b \<in> nodes (gL g) \<or> unat b \<in> ?V" "\<forall>e\<in>set (bs @ [h]). e \<in> set (gE g) \<or> unat e \<in> ?V"
    using A(2) f T(3) span_start [OF p16, of a] E by auto
  have "vcap (kx t) = vcap (kx s)" using f(6) A(5) by simp
  note R = kvinv_lru_change [OF I n T(2) V(1) _ V(2,3) e f(1-5) this]
  show thesis by (rule that [OF T(1) R(1)]) (use R(2) J(6,7) E f T(4) in auto)
qed

lemma setLRUCache_inv:
  assumes I: "kvinv_but {x} s g U H" and n: "kvof s g x = Some n" and r: "room (kx s) (32 + r)" "0 < r" and c: "counterLRU s < LRU_CACHE_SIZE \<or> recent s g \<noteq> []"
  obtains t g' V where "setLRUCache (kkey s n) (kval s n) s = Some (0, t)" "kvinv t g' V H" "U \<subseteq> V" "kvmap t g' = kvmap s g"
    "recent t g' = lru_set (counterLRU s) x (recent s g)" "kbytes t = kbytes s"
    "counterLRU t = counterLRU s + (if x \<notin> set (recent s g) \<and> counterLRU s < LRU_CACHE_SIZE then 1 else 0)"
proof -
  let ?s = "s\<lparr>totalSetSuccess := totalSetSuccess s + 1\<rparr>" and ?key = "kkey s n" and ?val = "kval s n"
  have eqs: "knext ?s = knext s" "kkey ?s = kkey s" "kval ?s = kval s" "lnext ?s = lnext s" "lkey ?s = lkey s" "lprev ?s = lprev s" "enext ?s = enext s"
      "ekey ?s = ekey s" "eval ?s = eval s"
    by (simp_all add: fun_eq_iff accessors)
  note J0 = kvinvD [OF I]
  have I1: "kvinv_but {x} ?s g U H"
    using J0 kvshape_cong(1) [of ?s s g] by (simp add: kvinv_def owned_def key_span_def values_ok_def cached_def eqs)
  have same1: "kvof ?s g = kvof s g" "recent ?s g = recent s g" "kvmap ?s g = kvmap s g" by (simp_all add: kvof_def recent_def kvmap_def eqs fun_eq_iff)
  have nn: "n \<in> nodes (gC g)" "kstr s g n = x" using kvof_iff [OF J0(2)] n by auto
  have kk: "kkey s n \<in> kvkeys s g" using nn(1) by (simp add: kvkeys_def)
  have "is_key s ?key x" using is_key_own [OF J0(2) kk] nn(2) by simp
  then have key: "is_key ?s ?key x" by (simp add: is_key_def)
  obtain t g' where T: "getLRUCache ?key ?s = Some (if x \<in> set (recent s g) then tailLRU t else 0, t)" "kvinv_but {x} t g' U H" "kvmap t g' = kvmap s g"
      "recent t g' = touch x (recent s g)" "x \<in> set (recent s g) \<Longrightarrow> gE g' \<noteq> [] \<and> tailLRU t = last (gE g') \<and> estr t g' (last (gE g')) = x"
      "same_nodes ?s t" "gC g' = gC g" "gS g' = gS g" "kx t = kx ?s" "counterLRU t = counterLRU ?s" "kbytes t = kbytes ?s"
    by (rule getLRUCache_inv [OF I1 key, unfolded same1]) (rule that; assumption)
  note J = kvinvD [OF T(2)] and S = same_nodesD [OF T(6), unfolded eqs]
  have f: "kx t = kx s" "counterLRU t = counterLRU s" "kbytes t = kbytes s" using T(9-11) by simp_all
  have n': "kvof t g' x = Some n" using n by (simp add: kvof_def S T(7,8))
  have key': "is_key t ?key x" "gS g' ?key = x" "?key \<in> kvkeys t g'" using key nn by (simp_all add: is_key_def f T(7,8) kvkeys_def S)
  show thesis
  proof (cases "x \<in> set (recent s g)")
    case True
    let ?c = "last (gE g')"
    have L: "gE g' \<noteq> []" "tailLRU t = ?c" "estr t g' ?c = x" using T(5) [OF True] by simp_all
    note A = setLRUCache_hit [OF T(2) n' L(1) refl L(3), unfolded S(3)]
    have "?c \<noteq> 0" using cache_okD(3) [OF kvshapeD(3) [OF J(2)]] L by (metis last_in_set)
    then have e: "setLRUCache ?key ?val s = Some (0, upd_lre ?c (\<lambda>e. e\<lparr>le_val := ?val\<rparr>) t)" using T(1) True L by (simp add: setLRUCache_split)
    show thesis
      by (rule that [OF e A(1)]) (use A(2,3) T(3,4) True f in \<open>simp_all add: lru_set_def\<close>)
  next
    case False
    then have x': "x \<notin> set (recent t g')" "recent t g' = recent s g" using T(4) by (simp_all add: touch_def)
    have e: "setLRUCache ?key ?val s = (if counterLRU s < LRU_CACHE_SIZE then lru_insert (kkey t n) (kval t n) t else lru_evict (kkey t n) (kval t n) t)"
      using T(1) False f(2) by (simp add: setLRUCache_split S)
    have r': "room (kx t) (32 + r)" using r(1) f(1) by simp
    show thesis
    proof (cases "counterLRU s < LRU_CACHE_SIZE")
      case True
      then have True': "counterLRU t < LRU_CACHE_SIZE" using f(2) by simp
      obtain u g'' V where R: "lru_insert (kkey t n) (kval t n) t = Some (0, u)" "kvinv u g'' V H" "U \<subseteq> V" "kvmap u g'' = kvmap t g'" "recent u g'' = recent t g' @ [x]"
          "kbytes u = kbytes t" "counterLRU u = counterLRU t + 1"
        by (rule lru_insert_inv [OF T(2) n' x'(1) r' r(2) True']) (rule that; assumption)
      show thesis by (rule that [OF _ R(2,3)]) (use e R f x' T(3) True False in \<open>simp_all add: lru_set_def\<close>)
    next
      case full: False
      then have ne: "recent t g' \<noteq> []" using c x'(2) by simp
      obtain u g'' V where R: "lru_evict (kkey t n) (kval t n) t = Some (0, u)" "kvinv u g'' V H" "U \<subseteq> V" "kvmap u g'' = kvmap t g'" "recent u g'' = tl (recent t g') @ [x]"
          "kbytes u = kbytes t" "counterLRU u = counterLRU t"
        by (rule lru_evict_inv [OF T(2) n' x'(1) r' r(2) ne]) (rule that; assumption)
      show thesis by (rule that [OF _ R(2,3)]) (use e R f x' T(3) full False in \<open>simp_all add: lru_set_def\<close>)
    qed
  qed
qed

end
