(* ===== verification/KV_Set.thy ===== *)
theory KV_Set
  imports KV_Refine
begin

text \<open>
  Setting a key: the memory a new node, its key and its value take, and the update of the value of a node.
\<close>

section \<open>Memory\<close>

text \<open>The two strings are copied to memory that is not in use.\<close>

definition write_kv :: "bytes \<Rightarrow> uint32 \<Rightarrow> uint32 \<Rightarrow> int \<Rightarrow> uint32 \<Rightarrow> uint32 \<Rightarrow> int \<Rightarrow> bytes" where
  "write_kv m ka key kl va val vl =
    (let m1 = snd (memset m ka 0 kl); m2 = snd (memset m1 va 0 vl); m3 = snd (strncpy m2 ka key kl) in snd (strncpy m3 va val vl))"

lemma span_mono: "k \<le> n \<Longrightarrow> span p k \<subseteq> span p n"
  by (auto simp: span_def)

lemma write_kv_ok:
  assumes k: "cstr m key x" "span key (length x + 1) \<subseteq> U" "unat key + length x + 1 \<le> 2 ^ 32"
    and v: "cstr m val v" "span val (length v + 1) \<subseteq> U" "unat val + length v + 1 \<le> 2 ^ 32"
    and ka: "span ka (length x + 1) \<inter> U = {}" "unat ka + length x + 1 \<le> 2 ^ 32" and va: "span va (length v + 1) \<inter> U = {}" "unat va + length v + 1 \<le> 2 ^ 32"
    and d: "span ka (length x + 1) \<inter> span va (length v + 1) = {}"
  defines "m' \<equiv> write_kv m ka key (int (length x) + 1) va val (int (length v) + 1)"
  shows "cstr m' ka x" "cstr m' va v" "\<And>b. unat b \<notin> span ka (length x + 1) \<union> span va (length v + 1) \<Longrightarrow> m' b = m b"
proof -
  define m1 where "m1 = snd (memset m ka 0 (int (length x) + 1))"
  define m2 where "m2 = snd (memset m1 va 0 (int (length v) + 1))"
  define m3 where "m3 = snd (strncpy m2 ka key (int (length x) + 1))"
  have m': "m' = snd (strncpy m3 va val (int (length v) + 1))" by (simp add: m'_def write_kv_def m3_def m2_def m1_def Let_def)
  have n: "nat (int (length x) + 1) = length x + 1" "nat (int (length v) + 1) = length v + 1" by simp_all
  have f1: "m1 b = m b" if "unat b \<notin> span ka (length x + 1)" for b
    unfolding m1_def by (rule memset_frame) (use that ka(2) n in simp_all)
  have f2: "m2 b = m1 b" if "unat b \<notin> span va (length v + 1)" for b
    unfolding m2_def by (rule memset_frame) (use that va(2) n in simp_all)
  have u2: "m2 b = m b" if "unat b \<in> U" for b using that f1 f2 ka(1) va(1) by (metis disjoint_iff)
  have k2: "cstr m2 key x" by (rule cstr_cong [OF k(1,3)]) (use u2 k(2) in blast)
  have dk: "span ka (length x + 1) \<inter> span key (length x + 1) = {}" "span va (length v + 1) \<inter> span val (length v + 1) = {}" using k(2) v(2) ka(1) va(1) by blast+
  note S3 = strncpy_string [OF k2 ka(2) k(3) dk(1), folded m3_def]
  have u3: "m3 b = m b" if "unat b \<in> U" for b using that S3(2) u2 ka(1) by (metis disjoint_iff)
  have v3: "cstr m3 val v" by (rule cstr_cong [OF v(1,3)]) (use u3 v(2) in blast)
  note S4 = strncpy_string [OF v3 va(2) v(3) dk(2), folded m']
  show "cstr m' va v" by (rule S4(1))
  show "cstr m' ka x" by (rule cstr_cong [OF S3(1) ka(2)]) (use S4(2) d in blast)
  show "m' b = m b" if "unat b \<notin> span ka (length x + 1) \<union> span va (length v + 1)" for b using that S4(2) S3(2) f2 f1 by simp
qed

lemma write_v_ok:
  assumes v: "cstr m val v" "span val (length v + 1) \<subseteq> U" "unat val + length v + 1 \<le> 2 ^ 32"
    and va: "span va (length v + 1) \<inter> U = {}" "unat va + length v + 1 \<le> 2 ^ 32"
  defines "m' \<equiv> snd (strncpy (snd (memset m va 0 (int (length v) + 1))) va val (int (length v) + 1))"
  shows "cstr m' va v" "\<And>b. unat b \<notin> span va (length v + 1) \<Longrightarrow> m' b = m b"
proof -
  define m1 where "m1 = snd (memset m va 0 (int (length v) + 1))"
  have f1: "m1 b = m b" if "unat b \<notin> span va (length v + 1)" for b
    unfolding m1_def by (rule memset_frame) (use that va(2) in \<open>simp_all add: nat_add_distrib\<close>)
  have d: "span va (length v + 1) \<inter> span val (length v + 1) = {}" using v(2) va(1) by blast
  have v1: "cstr m1 val v" by (rule cstr_cong [OF v(1,3)]) (use f1 d in blast)
  note S = strncpy_string [OF v1 va(2) v(3) d]
  show "cstr m' va v" using S(1) by (simp add: m'_def m1_def)
  show "m' b = m b" if "unat b \<notin> span va (length v + 1)" for b using S(2) [OF that] f1 [OF that] by (simp add: m'_def m1_def)
qed

text \<open>Writing outside \<open>U\<close>, to a value, or to counters keeps the shape.\<close>

lemma kvshape_mem:
  assumes I: "kvshape s g" "owned s g U H"
    and t: "knext t = knext s" "kkey t = kkey s" "lnext t = lnext s" "lkey t = lkey s" "lprev t = lprev s" "enext t = enext s" "ekey t = ekey s"
      "kvHashTab t = kvHashTab s" "lruHashTab t = lruHashTab s" "headLRU t = headLRU s" "tailLRU t = tailLRU s"
    and m: "\<forall>a. unat a \<in> U \<longrightarrow> kbytes t a = kbytes s a"
    and g: "gC g' = gC g" "gL g' = gL g" "gE g' = gE g" "gS g' = gS g"
  shows "kvshape t g'" "kvof t g' = kvof s g" "recent t g' = recent s g" "owned t g' U H'"
proof -
  show ko: "kvof t g' = kvof s g" and "recent t g' = recent s g" by (simp_all add: kvof_def recent_def t g)
  have "lruof t g' = lruof s g" by (simp add: lruof_def t g)
  then have "epv t g' = epv s g" by (simp add: epv_def fun_eq_iff t g)
  then have "cache_ok t g'" using kvshapeD(3) [OF I(1)] by (simp add: cache_ok_def t g)
  moreover have kk: "kvkeys t g' = kvkeys s g" by (simp add: kvkeys_def t g)
  moreover have "cstr (kbytes t) p (gS g' p)" if p: "p \<in> kvkeys s g" for p
  proof -
    obtain n where n: "n \<in> nodes (gC g)" "p = kkey s n" using p by (auto simp: kvkeys_def)
    then have "span p (length (gS g p) + 1) \<subseteq> U" "unat p + length (gS g p) + 1 \<le> 2 ^ 32" using I(2) by (simp_all add: owned_def key_span_def)
    then show ?thesis using cstr_cong [of "kbytes s" p "gS g p" "kbytes t"] kvshapeD(4) [OF I(1) p] m g(4) by auto
  qed
  ultimately show "kvshape t g'" using kvshapeD [OF I(1)] unfolding kvshape_def by (simp add: t g)
  show "owned t g' U H'" using I(2) by (simp add: owned_def key_span_def t g)
qed

text \<open>The values survive a write that touches no buffer in use but \<open>a\<close>.\<close>

lemma value_kept:
  assumes h: "hp x U H" "w \<in> H" "a \<in> H" "w \<noteq> a" and c: "cstr m w xs" "length xs < vcap x w" and l: "k \<le> vcap x a"
    and m: "\<And>b. unat b \<notin> E \<union> span a k \<Longrightarrow> m' b = m b" and E: "E \<subseteq> U"
  shows "cstr m' w xs"
proof -
  note W = hp_held [OF h(1,2)]
  have "span w (length xs + 1) \<subseteq> vbytes x w" using c(2) by (auto simp: span_def vbytes_def)
  moreover have "span a k \<subseteq> vbytes x a" using l by (auto simp: span_def vbytes_def)
  ultimately have d: "span w (length xs + 1) \<inter> (E \<union> span a k) = {}" using W(3) W(4) [OF h(3)] h(4) E by blast
  show ?thesis by (rule cstr_cong [OF c(1)]) (use W(2) c(2) d m in auto)
qed

section \<open>A new value for a node\<close>

lemma updateKVNode_inv:
  assumes I: "kvinv s g U H" and n: "kvof s g x = Some n" and v: "cstr (kbytes s) val v" "span val (length v + 1) \<subseteq> U" "unat val + length v + 1 \<le> 2 ^ 32" "length v < 2 ^ 31 - 1"
    and z: "serves (kx s) (int (length v) + 1)"
  obtains s1 r t g' H' where "kv_xfree (kval s n) s = Some s1" "updateKVNode n val s1 = Some (r, t)" "kvinv_but {x} t g' U H'" "kvof t g' x = Some n"
    "kvmap t g' = (kvmap s g)(x \<mapsto> v)" "recent t g' = recent s g" "counterLRU t = counterLRU s" "\<And>r. room (kx t) r = room (kx s) r" "\<forall>a. unat a \<in> U \<longrightarrow> kbytes t a = kbytes s a"
proof -
  note J = kvinvD [OF I]
  have nn: "n \<in> nodes (gC g)" "kstr s g n = x" using kvof_iff [OF J(2)] n by auto
  have V: "kval s m \<in> H \<and> cstr (kbytes s) (kval s m) (gV g (kval s m)) \<and> length (gV g (kval s m)) < vcap (kx s) (kval s m)" if "m \<in> nodes (gC g)" for m
    using J(4) that by (simp add: values_ok_def)
  have inj: "inj_on (kval s) (nodes (gC g))" using J(4) by (simp add: values_ok_def)
  define old where "old = kval s n"
  have oH: "old \<in> H" using V [OF nn(1)] by (simp add: old_def)
  obtain y1 where Y: "xfree old (kx s) = Some (Ret (), y1)" "hp y1 U (H - {old})" "\<And>b. b \<in> H \<Longrightarrow> b \<noteq> old \<Longrightarrow> vcap y1 b = vcap (kx s) b"
      "\<And>r. room y1 r = room (kx s) r" "\<And>siz. serves (kx s) siz \<Longrightarrow> serves y1 siz"
    by (rule hp_xfree [OF J(1) oH]) (rule that; assumption)
  obtain a y2 where A: "xmalloc (int (length v) + 1) y1 = Some (Ret a, y2)" "hp y2 U (insert a (H - {old}))" "a \<notin> H - {old}" "nat (int (length v) + 1) \<le> vcap y2 a"
      "\<And>b. b \<in> H - {old} \<Longrightarrow> vcap y2 b = vcap y1 b" "\<And>r. room y2 r = room y1 r"
    by (rule hp_xmalloc [OF Y(2) Y(5) [OF z]]) (rule that; assumption)
  note W = hp_held [OF A(2), of a]
  have sa: "span a (length v + 1) \<subseteq> vbytes y2 a" using A(4) by (auto simp: span_def vbytes_def nat_add_distrib)
  have da: "span a (length v + 1) \<inter> U = {}" "unat a + length v + 1 \<le> 2 ^ 32" using sa W(2,3) A(4) by (auto simp: nat_add_distrib)
  let ?H = "insert a (H - {old})"
  define m where "m = snd (strncpy (snd (memset (kbytes s) a 0 (int (length v) + 1))) a val (int (length v) + 1))"
  note M = write_v_ok [OF v(1-3) da, folded m_def]
  define t where "t = upd_kvn n (\<lambda>e. e\<lparr>kv_val := a\<rparr>) (s\<lparr>kx := y2, kbytes := m\<rparr>)"
  let ?g = "g\<lparr>gV := (gV g)(a := v)\<rparr>"
  have sl: "strsize (kbytes s) val = Some (int (length v) + 1)" by (rule strsize_cstr [OF v(1,4)])
  have e1: "kv_xfree (kval s n) s = Some (s\<lparr>kx := y1\<rparr>)" using Y(1) by (simp add: kv_xfree_def old_def)
  have e2: "updateKVNode n val (s\<lparr>kx := y1\<rparr>) = Some (0, t)"
    using sl A(1) W(1) by (simp add: updateKVNode_def kv_xmalloc_def Let_def t_def m_def)
  have ac: "knext t = knext s" "kkey t = kkey s" "kval t = (kval s)(n := a)" "lnext t = lnext s" "lkey t = lkey s" "lprev t = lprev s" "enext t = enext s" "ekey t = ekey s" "eval t = eval s"
    by (auto simp: t_def fun_eq_iff accessors)
  have f: "kx t = y2" "kbytes t = m" "counterLRU t = counterLRU s" by (simp_all add: t_def)
  have mU: "\<forall>b. unat b \<in> U \<longrightarrow> kbytes t b = kbytes s b" using M(2) da(1) f(2) by blast
  have S: "kvshape t ?g" "kvof t ?g = kvof s g" "recent t ?g = recent s g" "owned t ?g U ?H"
    by (rule kvshape_mem [OF J(2,3) ac(1,2,4-8)]; (rule mU | simp add: t_def))+
  have other: "kval s b \<in> H - {old}" "kval s b \<noteq> a" if "b \<in> nodes (gC g)" "b \<noteq> n" for b
    using V [OF that(1)] inj that nn(1) A(3) by (auto simp: inj_on_def old_def)
  have "values_ok t ?g ?H"
    unfolding values_ok_def
  proof (intro conjI ballI)
    show "inj_on (kval t) (nodes (gC ?g))" using inj other(2) by (auto simp: ac inj_on_def)
    fix b assume b: "b \<in> nodes (gC ?g)"
    have "kval t b \<in> ?H \<and> cstr (kbytes t) (kval t b) (gV ?g (kval t b)) \<and> length (gV ?g (kval t b)) < vcap (kx t) (kval t b)"
    proof (cases "b = n")
      case True
      then show ?thesis using M(1) A(4) by (simp add: ac f)
    next
      case False
      have b': "b \<in> nodes (gC g)" using b by simp
      note O = other [OF b' False] and Vb = V [OF b']
      have cap: "vcap y2 (kval s b) = vcap (kx s) (kval s b)" using A(5) [OF O(1)] Y(3) O(1) by simp
      have "cstr m (kval s b) (gV g (kval s b))"
        by (rule value_kept [OF A(2), where w = "kval s b" and a = a and m = "kbytes s" and k = "length v + 1" and E = "{}"]) (use O Vb cap M(2) A(4) in \<open>auto simp: nat_add_distrib\<close>)
      then show ?thesis using False O Vb cap by (simp add: ac f)
    qed
    then show "kval t b \<in> ?H" "cstr (kbytes t) (kval t b) (gV ?g (kval t b))" "length (gV ?g (kval t b)) < vcap (kx t) (kval t b)" by blast+
  qed
  moreover have "cached t ?g {x}"
    using J(5) nn(2) unfolding cached_def by (auto simp: ac)
  ultimately have i: "kvinv_but {x} t ?g U ?H" using S(1,4) A(2) J(6,7) f by (simp add: kvinv_def)
  have km: "kvmap t ?g = (kvmap s g)(x \<mapsto> v)"
  proof
    fix z
    show "kvmap t ?g z = ((kvmap s g)(x \<mapsto> v)) z"
    proof (cases "z = x")
      case True
      then show ?thesis using n S(2) by (simp add: kvmap_def ac)
    next
      case False
      have "gV ?g (kval t b) = gV g (kval s b)" if "kvof s g z = Some b" for b
      proof -
        have "b \<in> nodes (gC g)" "b \<noteq> n" using that kvof_iff [OF J(2)] nn(2) False by auto
        then show ?thesis using other(2) by (simp add: ac)
      qed
      then show ?thesis using False S(2) by (cases "kvof s g z") (simp_all add: kvmap_def)
    qed
  qed
  show thesis by (rule that [OF e1 e2 i _ km S(3) f(3) _ mU]) (use n S(2) f A(6) Y(4) in simp_all)
qed


section \<open>A new node\<close>

lemma lookup_cong:
  assumes "\<And>a. a \<in> nodes C \<Longrightarrow> str' a = str a"
  shows "lookup str' C = lookup str C"
proof
  fix x
  have "a \<in> nodes C" if "a \<in> set (C (hashS x))" for a using that hash_code unfolding nodes_def by blast
  then have "str' a = str a" if "a \<in> set (C (hashS x))" for a using that assms by blast
  then show "lookup str' C x = lookup str C x" unfolding lookup_def by (intro find_cong) auto
qed

lemma kvshape_ins:
  assumes I: "kvshape s g" and n: "n \<noteq> 0" "n \<notin> nodes (gC g)" "n \<notin> kvHashTab s ` codes" and x: "kvof s g x = None" "is_key s ka x" "ka \<notin> kvkeys s g"
  defines "h \<equiv> hashS x"
  assumes t: "knext t = ((knext s)(n := 0))(last (kvHashTab s h # gC g h) := n)" "kkey t = (kkey s)(n := ka)"
    and f: "lrn t = lrn s" "lre t = lre s" "kbytes t = kbytes s" "kvHashTab t = kvHashTab s" "lruHashTab t = lruHashTab s" "headLRU t = headLRU s" "tailLRU t = tailLRU s"
  defines "g' \<equiv> g\<lparr>gC := (gC g)(h := gC g h @ [n]), gS := (gS g)(ka := x)\<rparr>"
  shows "kvshape t g'" "nodes (gC g') = insert n (nodes (gC g))" "kvof t g' = (kvof s g)(x \<mapsto> n)" "recent t g' = recent s g"
    "\<And>b. b \<in> nodes (gC g) \<Longrightarrow> kstr t g' b = kstr s g b" "\<And>e. e \<in> set (gE g) \<Longrightarrow> estr t g' e = estr s g e"
proof -
  note K = kvshapeD [OF I]
  have a: "lnext t = lnext s" "lkey t = lkey s" "lprev t = lprev s" "ekey t = ekey s" "enext t = enext s" using f by (simp_all add: fun_eq_iff accessors)
  have gs: "gS g' p = gS g p" if "p \<in> kvkeys s g" for p using that x(3) by (auto simp: g'_def)
  show ks: "kstr t g' b = kstr s g b" if "b \<in> nodes (gC g)" for b
  proof -
    have "b \<noteq> n" "kkey s b \<in> kvkeys s g" using that n(2) by (auto simp: kvkeys_def)
    then show ?thesis using gs by (simp add: t)
  qed
  show es: "estr t g' e = estr s g e" if "e \<in> set (gE g)" for e using gs [OF K(6) [OF that]] by (simp add: a)
  have ls: "lstr t g' l = lstr s g l" if "l \<in> nodes (gL g)" for l using gs [OF K(5) [OF that]] by (simp add: a)
  have xn: "x \<notin> kstr s g ` nodes (gC g)" using lookup_None [OF K(1)] x(1) by (simp add: kvof_def)
  have t2: "table (kvHashTab s) ((knext s)(n := 0)) (kstr s g) (gC g)" by (rule table_cong [OF K(1)]) (use n in auto)
  have sx: "kstr t g' n = x" by (simp add: t g'_def)
  note T = table_insert [OF t2 n _ xn sx ks, folded h_def]
  have nd: "gC g' = (gC g)(h := gC g h @ [n])" by (simp add: g'_def)
  have t1: "table (kvHashTab t) (knext t) (kstr t g') (gC g')" unfolding nd f t(1) by (rule T(1)) simp
  show nn: "nodes (gC g') = insert n (nodes (gC g))" unfolding nd by (rule T(2)) simp
  show "kvof t g' = (kvof s g)(x \<mapsto> n)"
    using lookup_insert [OF K(1) t1 [unfolded f] nn n(2) ks] xn sx by (simp add: kvof_def)
  show rc: "recent t g' = recent s g" using es by (simp add: recent_def g'_def)
  have gl: "gL g' = gL g" "gE g' = gE g" by (simp_all add: g'_def)
  have lo: "lruof t g' = lruof s g" unfolding lruof_def gl by (rule lookup_cong) (rule ls)
  have ep: "epv t g' e = epv s g e" if "e \<in> set (gE g)" for e using es [OF that] lo by (simp add: epv_def a)
  have "clinked (enext t) (epv t g') (headLRU t) (gE g) = clinked (enext s) (epv s g) (headLRU s) (gE g)"
    unfolding f a by (rule clinked_cong) (use ep in auto)
  moreover have "inj_on (estr t g') (set (gE g)) = inj_on (estr s g) (set (gE g))" by (rule inj_on_cong) (use es in simp)
  moreover have "estr t g' ` set (gE g) = estr s g ` set (gE g)" by (rule image_cong) (use es in simp_all)
  moreover have "lstr t g' ` nodes (gL g) = lstr s g ` nodes (gL g)" by (rule image_cong) (use ls in simp_all)
  ultimately have co: "cache_ok t g'" using K(3) unfolding cache_ok_def gl f by simp
  have kk: "kvkeys t g' = insert ka (kvkeys s g)"
  proof -
    have "kkey t ` nodes (gC g) = kkey s ` nodes (gC g)" by (rule image_cong) (use n(2) in \<open>auto simp: t\<close>)
    moreover have "kkey t n = ka" by (simp add: t)
    ultimately show ?thesis unfolding kvkeys_def nn image_insert by simp
  qed
  have "\<forall>p\<in>kvkeys t g'. p \<noteq> 0 \<and> cstr (kbytes t) p (gS g' p) \<and> key_ok (gS g' p)"
    using K(4) gs x(2) unfolding kk is_key_def f by (auto simp: g'_def)
  moreover have "table (lruHashTab t) (lnext t) (lstr t g') (gL g')" unfolding gl f a(1) by (rule table_cong [OF K(2)]) (use ls in simp_all)
  ultimately show "kvshape t g'" unfolding kvshape_def gl kk using t1 co K(5,6) by (simp add: a)
qed

lemma createKVNode_eq:
  assumes "strsize (kbytes s) key = Some kl" "strsize (kbytes s) val = Some vl" "kx_getmem (word_of_int kl) (kx s) = Some (ka, y1)" "ka \<noteq> 0"
    "xmalloc vl y1 = Some (Ret va, y2)" "va \<noteq> 0" "kx_getmem 16 y2 = Some (n, y3)" "n \<noteq> 0"
  shows "createKVNode key val s = Some (n, upd_kvn n (\<lambda>_. \<lparr>kv_key = ka, kv_val = va, kv_count = 0, kv_next = 0\<rparr>)
    (s\<lparr>kx := y3, kbytes := write_kv (kbytes s) ka key kl va val vl\<rparr>))"
proof -
  let ?m = "write_kv (kbytes s) ka key kl va val vl"
  have "kv_getmem (word_of_int kl) s = Some (ka, s\<lparr>kx := y1\<rparr>)" by (rule kv_getmem_kx [OF assms(3)])
  moreover have "kv_getmem 16 (s\<lparr>kx := y2, kbytes := ?m\<rparr>) = Some (n, (s\<lparr>kx := y2, kbytes := ?m\<rparr>)\<lparr>kx := y3\<rparr>)" by (rule kv_getmem_kx) (simp add: assms(7))
  ultimately show ?thesis
    using assms by (cases s) (simp add: createKVNode_def kv_xmalloc_def Let_def write_kv_def)
qed


lemma serves_kmem: "serves (x\<lparr>xb := (xb x)\<lparr>bk := (bk (xb x))\<lparr>kmem := m\<rparr>\<rparr>\<rparr>) siz = serves x siz"
proof -
  have "findClosestIndex siz (x\<lparr>xb := (xb x)\<lparr>bk := (bk (xb x))\<lparr>kmem := m\<rparr>\<rparr>\<rparr>) = findClosestIndex siz x"
    by (simp add: findClosestIndex_def split: prod.split)
  then show ?thesis by (simp add: serves_def)
qed

lemma room_mono: "room x r \<Longrightarrow> k \<le> r \<Longrightarrow> room x k"
proof -
  assume "room x r" "k \<le> r"
  then obtain bs a l where "heap_ok (kmem (bk (xb x))) bs" "(a, l) \<in> set bs" "k \<le> unat l" unfolding room_def by force
  then show "room x k" unfolding room_def by blast
qed

lemma reqsize_bound: "unat n \<le> reqsize n" "reqsize n \<le> unat n + 7"
  by (auto simp: reqsize_def)

text \<open>The memory of a new node, its key and its value.\<close>

lemma new_node_mem:
  assumes h: "hp x U H" and k: "l < 2 ^ 31 - 1" and z: "serves x siz" and r: "room x (l + 64)"
  obtains ka y1 va y2 n y3 V where "kx_getmem (word_of_int (int l + 1)) x = Some (ka, y1)" "xmalloc siz y1 = Some (Ret va, y2)" "kx_getmem 16 y2 = Some (n, y3)"
    "ka \<noteq> 0" "va \<noteq> 0" "n \<noteq> 0" "span ka (l + 1) \<inter> U = {}" "unat ka + l + 1 \<le> 2 ^ 32" "unat n \<notin> U" "hp y3 V (insert va H)" "U \<union> span ka (l + 1) \<subseteq> V" "unat n \<in> V"
    "va \<notin> H" "nat siz \<le> vcap y3 va" "\<And>b. b \<in> H \<Longrightarrow> vcap y3 b = vcap x b" "room y3 33"
proof -
  define kn :: uint32 where "kn = word_of_int (int l + 1)"
  have kn: "unat kn = l + 1" using unat_word_of_int [of "int l + 1"] k by (simp add: kn_def nat_add_distrib)
  have kz: "kn \<noteq> 0" "unat kn \<le> 2 ^ 32 - 8" using kn k by auto
  note Q = reqsize_bound [of kn]
  have r1: "room x (reqsize kn + 56)" "(0 :: nat) < 56" using room_mono [OF r] Q(2) kn by simp_all
  obtain ka y1 where A: "kx_getmem kn x = Some (ka, y1)" "hp y1 (U \<union> {unat ka..<unat ka + reqsize kn}) H" "{unat ka..<unat ka + reqsize kn} \<inter> U = {}" "ka \<noteq> 0"
      "unat ka + reqsize kn < 2 ^ 32" "room y1 56" "vcap y1 = vcap x" "y1 = x\<lparr>xb := (xb x)\<lparr>bk := (bk (xb x))\<lparr>kmem := kmem (bk (xb y1))\<rparr>\<rparr>\<rparr>"
    by (rule hp_getmem [OF h kz r1]) (rule that; assumption)
  let ?U = "U \<union> {unat ka..<unat ka + reqsize kn}"
  have z1: "serves y1 siz" using z by (subst A(8), subst serves_kmem)
  obtain va y2 where B: "xmalloc siz y1 = Some (Ret va, y2)" "hp y2 ?U (insert va H)" "va \<notin> H" "nat siz \<le> vcap y2 va" "\<And>b. b \<in> H \<Longrightarrow> vcap y2 b = vcap y1 b" "\<And>r. room y2 r = room y1 r"
    by (rule hp_xmalloc [OF A(2) z1]) (rule that; assumption)
  have n16: "(16 :: uint32) \<noteq> 0" "unat (16 :: uint32) \<le> 2 ^ 32 - 8" "reqsize 16 = 16" by (simp_all add: reqsize_def)
  have r2: "room y2 (reqsize 16 + 33)" "(0 :: nat) < 33" using B(6) room_mono [OF A(6), of 49] n16(3) by simp_all
  obtain n y3 where N: "kx_getmem 16 y2 = Some (n, y3)" "hp y3 (?U \<union> {unat n..<unat n + reqsize 16}) (insert va H)" "{unat n..<unat n + reqsize 16} \<inter> ?U = {}" "n \<noteq> 0"
      "room y3 33" "vcap y3 = vcap y2"
    by (rule hp_getmem [OF B(2) n16(1,2) r2]) (rule that; assumption)
  have sk: "span ka (l + 1) \<subseteq> {unat ka..<unat ka + reqsize kn}" using Q(1) kn by (auto simp: span_def)
  have nn: "unat n \<in> {unat n..<unat n + reqsize 16}" using n16(3) by simp
  have nU: "unat n \<notin> U" using nn N(3) by blast
  have kU: "span ka (l + 1) \<inter> U = {}" "U \<union> span ka (l + 1) \<subseteq> ?U \<union> {unat n..<unat n + reqsize 16}" using sk A(3) by blast+
  have nV: "unat n \<in> ?U \<union> {unat n..<unat n + reqsize 16}" using nn by blast
  have v0: "va \<noteq> 0" using hp_held(1) [OF B(2), of va] by simp
  show thesis
    by (rule that [OF A(1) [unfolded kn_def] B(1) N(1) A(4) v0 N(4) kU(1) _ nU N(2) kU(2) nV B(3) _ _ N(5)])
      (use A(5,7) N(6) B(4,5) Q(1) kn in auto)
qed

lemma createKVNode_inv:
  assumes I: "kvinv s g U H" and x: "kvof s g x = None" and k: "is_key s key x" "span key (length x + 1) \<subseteq> U" "unat key + length x + 1 \<le> 2 ^ 32"
    and v: "cstr (kbytes s) val v" "span val (length v + 1) \<subseteq> U" "unat val + length v + 1 \<le> 2 ^ 32" "length v < 2 ^ 31 - 1"
    and z: "serves (kx s) (int (length v) + 1)" and r: "room (kx s) (length x + 64)"
  obtains n t g' V H' where "setKVHashTab key val s = Some (n, t)" "kvinv_but {x} t g' V H'" "U \<subseteq> V" "kvof t g' x = Some n" "kvmap t g' = (kvmap s g)(x \<mapsto> v)"
    "recent t g' = recent s g" "counterLRU t = counterLRU s" "room (kx t) 33" "\<forall>a. unat a \<in> U \<longrightarrow> kbytes t a = kbytes s a"
proof -
  note J = kvinvD [OF I] and K = is_keyD [OF k(1)]
  have kl: "length x < 2 ^ 31 - 1" "x \<noteq> []" using k(1) by (auto simp: is_key_def key_ok_def)
  obtain ka y1 va y2 n y3 V where N: "kx_getmem (word_of_int (int (length x) + 1)) (kx s) = Some (ka, y1)" "xmalloc (int (length v) + 1) y1 = Some (Ret va, y2)" "kx_getmem 16 y2 = Some (n, y3)"
      "ka \<noteq> 0" "va \<noteq> 0" "n \<noteq> 0" "span ka (length x + 1) \<inter> U = {}" "unat ka + length x + 1 \<le> 2 ^ 32" "unat n \<notin> U" "hp y3 V (insert va H)" "U \<union> span ka (length x + 1) \<subseteq> V" "unat n \<in> V"
      "va \<notin> H" "nat (int (length v) + 1) \<le> vcap y3 va" "\<And>b. b \<in> H \<Longrightarrow> vcap y3 b = vcap (kx s) b" "room y3 33"
    by (rule new_node_mem [OF J(1) kl(1) z r]) (rule that; assumption)
  let ?H = "insert va H"
  have W: "unat va + vcap y3 va < 2 ^ 32" "vbytes y3 va \<inter> V = {}" using hp_held(2,3) [OF N(10)] by simp_all
  have sv: "span va (length v + 1) \<subseteq> vbytes y3 va" "unat va + length v + 1 \<le> 2 ^ 32" using N(14) W(1) by (auto simp: span_def vbytes_def nat_add_distrib)
  have dv: "span va (length v + 1) \<inter> U = {}" "span ka (length x + 1) \<inter> span va (length v + 1) = {}" using sv(1) W(2) N(11) by blast+
  define m where "m = write_kv (kbytes s) ka key (int (length x) + 1) va val (int (length v) + 1)"
  note M = write_kv_ok [OF K(3) k(2,3) v(1-3) N(7,8) dv(1) sv(2) dv(2), folded m_def]
  have mU: "m b = kbytes s b" if "unat b \<in> U" for b using that M(3) N(7) dv(1) by blast
  define u where "u = s\<lparr>kx := y3, kbytes := m\<rparr>"
  define t0 where "t0 = upd_kvn n (\<lambda>_. \<lparr>kv_key = ka, kv_val = va, kv_count = 0, kv_next = 0\<rparr>) u"
  have cr: "createKVNode key val s = Some (n, t0)"
    using createKVNode_eq [OF K(2) strsize_cstr [OF v(1,4)] N(1,4,2,5,3,6)] by (simp add: t0_def u_def m_def)
  have au: "knext u = knext s" "kkey u = kkey s" "kval u = kval s" "lnext u = lnext s" "lkey u = lkey s" "lprev u = lprev s" "enext u = enext s" "ekey u = ekey s" "eval u = eval s"
    by (simp_all add: u_def fun_eq_iff accessors)
  have mu: "\<forall>b. unat b \<in> U \<longrightarrow> kbytes u b = kbytes s b" using mU by (simp add: u_def)
  have S: "kvshape u g" "kvof u g = kvof s g" "recent u g = recent s g" "owned u g U H"
    by (rule kvshape_mem [OF J(2,3) au(1,2,4-8)]; (rule mu | simp add: u_def))+
  define h where "h = hashS x"
  define p where "p = last (kvHashTab s h # gC g h)"
  define t where "t = upd_kvn p (\<lambda>e. e\<lparr>kv_next := n\<rparr>) t0"
  note F = fresh_addr [OF J(3) N(9)]
  have a0: "knext t0 = (knext s)(n := 0)" by (auto simp: t0_def u_def fun_eq_iff accessors)
  have at: "knext t = ((knext s)(n := 0))(p := n)" "kkey t = (kkey s)(n := ka)" "kval t = (kval s)(n := va)" "ekey t = ekey s" "eval t = eval s"
    by (auto simp: t_def t0_def u_def fun_eq_iff accessors)
  have ft: "kx t = y3" "kbytes t = m" "counterLRU t = counterLRU s" by (simp_all add: t_def t0_def u_def)
  have t2: "table (kvHashTab s) (knext t0) (kstr s g) (gC g)" unfolding a0 by (rule table_cong [OF kvshapeD(1) [OF J(2)]]) (use F(1,2) in auto)
  have cl: "chain_last (knext t0) (kvHashTab s h) = Some p"
    unfolding p_def by (rule chain_last_path [OF tableD(1,2) [OF t2]]) (use hash_code in \<open>simp_all only: h_def\<close>)
  have "is_key t0 key x"
  proof -
    have "cstr m key x" by (rule cstr_cong [OF K(3) k(3)]) (use mU k(2) in blast)
    then show ?thesis using k(1) by (simp add: is_key_def t0_def u_def)
  qed
  note K0 = is_keyD(1) [OF this]
  have g0: "getKVHashTab key s = Some 0" using getKVHashTab_ok [OF J(2) k(1)] x by (simp add: node_or_null_def)
  have kt: "kvHashTab t0 = kvHashTab s" by (simp add: t0_def u_def)
  have e: "setKVHashTab key val s = Some (n, t)"
    using g0 cr K0 cl kt by (simp add: setKVHashTab_def Let_def knext_def [abs_def] t_def h_def)
  have ku: "is_key u ka x" using M(1) N(4) k(1) by (simp add: is_key_def u_def)
  have kf: "ka \<notin> kvkeys u g"
  proof
    assume "ka \<in> kvkeys u g"
    then obtain b where "b \<in> nodes (gC g)" "ka = kkey s b" by (auto simp: kvkeys_def au)
    then have "key_span s g b \<subseteq> U" "unat ka \<in> key_span s g b" using J(3) unfolding owned_def by (auto simp: key_span_def span_def)
    moreover have "unat ka \<in> span ka (length x + 1)" by (simp add: span_def)
    ultimately show False using N(7) by blast
  qed
  let ?g1 = "g\<lparr>gC := (gC g)(h := gC g h @ [n]), gS := (gS g)(ka := x)\<rparr>" and ?g = "g\<lparr>gC := (gC g)(h := gC g h @ [n]), gS := (gS g)(ka := x), gV := (gV g)(va := v)\<rparr>"
  have hu: "kvHashTab u = kvHashTab s" by (simp add: u_def)
  have fu: "n \<notin> kvHashTab u ` codes" "kvof u g x = None" "knext t = ((knext u)(n := 0))(last (kvHashTab u (hashS x) # gC g (hashS x)) := n)" "kkey t = (kkey u)(n := ka)"
    using F(2) S(2) x at by (simp_all add: hu au p_def h_def)
  have fl: "lrn t = lrn u" "lre t = lre u" "kbytes t = kbytes u" "kvHashTab t = kvHashTab u" "lruHashTab t = lruHashTab u" "headLRU t = headLRU u" "tailLRU t = tailLRU u"
    by (simp_all add: t_def t0_def)
  note P = kvshape_ins [OF S(1) N(6) F(1) fu(1,2) ku kf fu(3,4) fl, folded h_def]
  let ?n = "nodes (gC ?g)"
  have nd: "?n = insert n (nodes (gC g))" using P(2) by simp
  have shp: "kvshape t ?g" "kvof t ?g = (kvof s g)(x \<mapsto> n)" "recent t ?g = recent s g"
  proof -
    have "kvshape t ?g = kvshape t ?g1" by (simp add: kvshape_def cache_ok_def kvkeys_def epv_def [abs_def] lruof_def)
    then show "kvshape t ?g" using P(1) by blast
    show "kvof t ?g = (kvof s g)(x \<mapsto> n)" using P(3) S(2) by (simp add: kvof_def)
    show "recent t ?g = recent s g" using P(4) S(3) by (simp add: recent_def)
  qed
  have ks: "kstr t ?g b = kstr s g b" if "b \<in> nodes (gC g)" for b using P(5) [OF that] by (simp add: au)
  have es: "estr t ?g e = estr s g e" if "e \<in> set (gE g)" for e using P(6) [OF that] by (simp add: au)
  have ne: "b \<noteq> n" if "b \<in> nodes (gC g)" for b using that F(1) by blast
  have "owned t ?g V ?H"
  proof -
    have kn: "key_span t ?g n \<subseteq> V" "unat (kkey t n) + length (kstr t ?g n) + 1 \<le> 2 ^ 32" using N(8,11) by (simp_all add: key_span_def at)
    have ko: "key_span t ?g b \<subseteq> V" "unat (kkey t b) + length (kstr t ?g b) + 1 \<le> 2 ^ 32" if "b \<in> nodes (gC g)" for b
    proof -
      have e: "key_span t ?g b = key_span s g b" "kkey t b = kkey s b" using ks [OF that] ne [OF that] by (simp_all add: key_span_def at)
      have o: "key_span s g b \<subseteq> U" "unat (kkey s b) + length (kstr s g b) + 1 \<le> 2 ^ 32" using J(3) that unfolding owned_def by blast+
      show "key_span t ?g b \<subseteq> V" unfolding e(1) using o(1) N(11) by blast
      show "unat (kkey t b) + length (kstr t ?g b) + 1 \<le> 2 ^ 32" using o(2) ks [OF that] e(2) by metis
    qed
    have "\<forall>a\<in>?n \<union> kvHashTab t ` codes. unat a \<in> V" unfolding nd using J(3) N(11,12) unfolding owned_def by (simp add: t_def t0_def u_def) blast
    moreover have "\<forall>a\<in>nodes (gL ?g) \<union> lruHashTab t ` codes. unat a \<in> V" "\<forall>a\<in>set (headLRU t # gE ?g). unat a \<in> V"
      using J(3) N(11) unfolding owned_def by (simp_all add: t_def t0_def u_def) blast+
    ultimately show ?thesis unfolding owned_def nd using kn ko by blast
  qed
  moreover have "values_ok t ?g ?H"
    unfolding values_ok_def nd
  proof (intro conjI ballI)
    have V: "kval s b \<in> H \<and> cstr (kbytes s) (kval s b) (gV g (kval s b)) \<and> length (gV g (kval s b)) < vcap (kx s) (kval s b)" if "b \<in> nodes (gC g)" for b
      using J(4) that by (simp add: values_ok_def)
    have va: "kval s b \<noteq> va" if "b \<in> nodes (gC g)" for b using V [OF that] N(13) by blast
    show "inj_on (kval t) (insert n (nodes (gC g)))"
    proof -
      have "inj_on (kval s) (nodes (gC g))" using J(4) by (simp add: values_ok_def)
      then show ?thesis using va ne unfolding inj_on_def by (auto simp: at)
    qed
    fix b assume "b \<in> insert n (nodes (gC g))"
    then have "kval t b \<in> ?H \<and> cstr (kbytes t) (kval t b) (gV ?g (kval t b)) \<and> length (gV ?g (kval t b)) < vcap (kx t) (kval t b)"
    proof
      assume "b = n"
      then show ?thesis using M(2) N(14) by (simp add: at ft)
    next
      assume b: "b \<in> nodes (gC g)"
      note Vb = V [OF b]
      have cap: "vcap y3 (kval s b) = vcap (kx s) (kval s b)" using N(15) Vb by blast
      have vl: "length v + 1 \<le> vcap y3 va" using N(14) by (simp add: nat_add_distrib)
      have sk: "span ka (length x + 1) \<subseteq> V" using N(11) by blast
      have "cstr m (kval s b) (gV g (kval s b))"
        by (rule value_kept [OF N(10) _ _ va [OF b], where m = "kbytes s" and k = "length v + 1" and E = "span ka (length x + 1)"]) (use Vb cap vl M(3) sk in auto)
      then show ?thesis using ne [OF b] va [OF b] Vb cap by (simp add: at ft)
    qed
    then show "kval t b \<in> ?H" "cstr (kbytes t) (kval t b) (gV ?g (kval t b))" "length (gV ?g (kval t b)) < vcap (kx t) (kval t b)" by blast+
  qed
  moreover have "cached t ?g {x}"
    unfolding cached_def nd
  proof (intro ballI impI)
    fix e' b assume e': "e' \<in> set (gE ?g)" and b: "b \<in> insert n (nodes (gC g))" and q: "estr t ?g e' \<notin> {x}" "kstr t ?g b = estr t ?g e'"
    have e2: "e' \<in> set (gE g)" using e' by simp
    have "b \<noteq> n" using q by (auto simp: at)
    then have b': "b \<in> nodes (gC g)" using b by blast
    show "eval t e' = kval t b" using J(5) e2 b' q es [OF e2] ks [OF b'] ne [OF b'] unfolding cached_def by (simp add: at)
  qed
  ultimately have i: "kvinv_but {x} t ?g V ?H" using shp(1) N(10) J(6,7) ft by (simp add: kvinv_def)
  have km: "kvmap t ?g = (kvmap s g)(x \<mapsto> v)"
  proof
    fix y
    show "kvmap t ?g y = ((kvmap s g)(x \<mapsto> v)) y"
    proof (cases "y = x")
      case True
      then show ?thesis using shp(2) by (simp add: kvmap_def at)
    next
      case False
      have "gV ?g (kval t b) = gV g (kval s b)" if "kvof s g y = Some b" for b
      proof -
        have b: "b \<in> nodes (gC g)" using that kvof_iff [OF J(2)] by auto
        then have "kval s b \<noteq> va" using J(4) N(13) by (auto simp: values_ok_def)
        then show ?thesis using ne [OF b] by (simp add: at)
      qed
      then show ?thesis using False shp(2) by (cases "kvof s g y") (simp_all add: kvmap_def)
    qed
  qed
  show thesis by (rule that [OF e i _ _ km shp(3) ft(3)]) (use N(11,16) shp(2) mU ft in auto)
qed


section \<open>The whole operation\<close>

lemma serves_small:
  assumes "hp x U H" "serves x (int l + 1)"
  shows "l < 2 ^ 31 - 1"
proof -
  obtain m R F where B: "binv m R F" "bsys m = xb x" "sizes_ok x" using assms(1) unfolding hp_def by blast
  let ?n = "nbpools (xb x) - 1"
  have n: "0 \<le> ?n" "?n < 10" "int l + 1 \<le> bufsize x ?n" using assms(2) B(3) by (auto simp: serves_def sizes_ok_def)
  then have "bufsize x ?n = 2 ^ nat (?n + 4) - 4" using B(3) by (simp add: sizes_ok_def)
  then have "int l + 1 \<le> 8192" using n(3) pow_pool(2) [OF n(1,2)] by linarith
  then show ?thesis by simp
qed

lemma setKVHashTab_inv:
  assumes I: "kvinv s g U H" and k: "is_key s key x" "span key (length x + 1) \<subseteq> U" "unat key + length x + 1 \<le> 2 ^ 32"
    and v: "cstr (kbytes s) val v" "span val (length v + 1) \<subseteq> U" "unat val + length v + 1 \<le> 2 ^ 32"
    and z: "serves (kx s) (int (length v) + 1)" and r: "room (kx s) (length x + 64)"
  obtains n t g' V H' where "setKVHashTab key val s = Some (n, t)" "kvinv_but {x} t g' V H'" "U \<subseteq> V" "kvof t g' x = Some n" "kvmap t g' = (kvmap s g)(x \<mapsto> v)"
    "recent t g' = recent s g" "counterLRU t = counterLRU s" "room (kx t) 33" "\<forall>a. unat a \<in> U \<longrightarrow> kbytes t a = kbytes s a"
proof (cases "kvof s g x")
  case None
  show thesis by (rule createKVNode_inv [OF I None k v serves_small [OF kvinvD(1) [OF I] z] z r]) (rule that; assumption)
next
  case (Some n)
  note J = kvinvD [OF I]
  obtain s1 q t g' H' where T: "kv_xfree (kval s n) s = Some s1" "updateKVNode n val s1 = Some (q, t)" "kvinv_but {x} t g' U H'" "kvof t g' x = Some n"
      "kvmap t g' = (kvmap s g)(x \<mapsto> v)" "recent t g' = recent s g" "counterLRU t = counterLRU s" "\<And>r. room (kx t) r = room (kx s) r" "\<forall>a. unat a \<in> U \<longrightarrow> kbytes t a = kbytes s a"
    by (rule updateKVNode_inv [OF I Some v serves_small [OF J(1) z] z]) (rule that; assumption)
  have "n \<noteq> 0" using kvof_iff [OF J(2)] Some nodes_nz [OF kvshapeD(1) [OF J(2)]] by metis
  then have e: "setKVHashTab key val s = Some (n, t)"
    using getKVHashTab_ok [OF J(2) k(1)] Some T(1,2) by (simp add: setKVHashTab_def node_or_null_def kval_def)
  have "room (kx t) 33" using T(8) room_mono [OF r, of 33] by simp
  then show thesis by (rule that [OF e T(3) order_refl T(4-7) _ T(9)])
qed

lemma kv_set_inv:
  assumes I: "kvinv s g U H" and k: "is_key s key x" "span key (length x + 1) \<subseteq> U" "unat key + length x + 1 \<le> 2 ^ 32"
    and v: "cstr (kbytes s) val v" "span val (length v + 1) \<subseteq> U" "unat val + length v + 1 \<le> 2 ^ 32"
    and z: "serves (kx s) (int (length v) + 1)" and r: "room (kx s) (length x + 64)" and c: "counterLRU s < LRU_CACHE_SIZE \<or> recent s g \<noteq> []"
  obtains t g' V H' where "kv_set key val s = Some (0, t)" "kvinv t g' V H'" "U \<subseteq> V" "kvmap t g' = (kvmap s g)(x \<mapsto> v)"
    "recent t g' = lru_set (counterLRU s) x (recent s g)" "\<forall>a. unat a \<in> U \<longrightarrow> kbytes t a = kbytes s a"
    "counterLRU t = counterLRU s + (if x \<notin> set (recent s g) \<and> counterLRU s < LRU_CACHE_SIZE then 1 else 0)"
proof -
  obtain n s1 g1 V1 H1 where S: "setKVHashTab key val s = Some (n, s1)" "kvinv_but {x} s1 g1 V1 H1" "U \<subseteq> V1" "kvof s1 g1 x = Some n" "kvmap s1 g1 = (kvmap s g)(x \<mapsto> v)"
      "recent s1 g1 = recent s g" "counterLRU s1 = counterLRU s" "room (kx s1) 33" "\<forall>a. unat a \<in> U \<longrightarrow> kbytes s1 a = kbytes s a"
    by (rule setKVHashTab_inv [OF I k v z r]) (rule that; assumption)
  have J: "kvshape s1 g1" using kvinvD(2) [OF S(2)] .
  have r1: "room (kx s1) (32 + 1)" "(0 :: nat) < 1" using S(8) by simp_all
  have c1: "counterLRU s1 < LRU_CACHE_SIZE \<or> recent s1 g1 \<noteq> []" using c S(6,7) by simp
  obtain t g' V where T: "setLRUCache (kkey s1 n) (kval s1 n) s1 = Some (0, t)" "kvinv t g' V H1" "V1 \<subseteq> V" "kvmap t g' = kvmap s1 g1"
      "recent t g' = lru_set (counterLRU s1) x (recent s1 g1)" "kbytes t = kbytes s1"
      "counterLRU t = counterLRU s1 + (if x \<notin> set (recent s1 g1) \<and> counterLRU s1 < LRU_CACHE_SIZE then 1 else 0)"
    by (rule setLRUCache_inv [OF S(2,4) r1 c1]) (rule that; assumption)
  have "n \<noteq> 0" using kvof_iff [OF J] S(4) nodes_nz [OF kvshapeD(1) [OF J]] by metis
  then have e: "kv_set key val s = Some (0, t)" using S(1) T(1) by (simp add: kv_set_def kkey_def kval_def)
  show thesis by (rule that [OF e T(2)]) (use S T in auto)
qed

end
