(* ===== verification/KV_Service.thy ===== *)
theory KV_Service
  imports KV_Set
begin

text \<open>
  The interface of the key-value store: initialization, and what set, get, delete and reset do
  to the map and to the cached keys.
\<close>

section \<open>Initialization\<close>

lemma xmalloc_init_hp:
  assumes "kinv (bk (xb x))" "heap_ok (kmem (bk (xb x))) bs" "nextsem (bk (xb x)) \<in> sems" "currpid (bk (xb x)) \<noteq> NULLPROC" "U \<inter> free_bytes bs = {}"
  shows "\<exists>y. xmalloc_init x = Some y \<and> hp y U {}"
proof -
  obtain y m R F cs where Y: "xmalloc_init x = Some y" "binv m R F" "bsys m = xb y" "bheld m = {}" "\<forall>q. bpend m q = None" "sizes_ok y"
      "heap_ok (kmem (bk (xb y))) cs" "free_bytes cs \<subseteq> free_bytes bs" "barea m \<subseteq> free_bytes bs" "currpid (bk (xb y)) = currpid (bk (xb x))"
    using xmalloc_init_inv [OF assms(1-3)] by blast
  obtain ds where "heap_ok (kmem (bk (xb y))) ds" "free_bytes ds \<inter> barea m = {}" using binvD(3) [OF Y(2)] Y(3) by auto
  then have "free_bytes cs \<inter> barea m = {}" using heap_ok_unique [OF Y(7)] by blast
  then have "hp y U {}" unfolding hp_def
    by (intro exI [of _ m] exI [of _ R] exI [of _ F] exI [of _ cs]) (use Y assms(4,5) in auto)
  then show ?thesis using Y(1) by blast
qed

text \<open>The heads of the tables from \<open>i\<close> on are new, different and end their chains.\<close>

definition heads_ok :: "kvsys \<Rightarrow> int set \<Rightarrow> nat set \<Rightarrow> nat set \<Rightarrow> bool" where
  "heads_ok t J U V \<longleftrightarrow> inj_on (kvHashTab t) J \<and> inj_on (lruHashTab t) J \<and>
    (\<forall>j\<in>J. kvHashTab t j \<noteq> 0 \<and> knext t (kvHashTab t j) = 0 \<and> unat (kvHashTab t j) \<in> V - U \<and>
       lruHashTab t j \<noteq> 0 \<and> lnext t (lruHashTab t j) = 0 \<and> unat (lruHashTab t j) \<in> V - U)"

lemma heads_ok_insert:
  assumes h: "heads_ok t J W V" and i: "i \<notin> J" "kvHashTab t i \<noteq> 0" "knext t (kvHashTab t i) = 0" "unat (kvHashTab t i) \<in> W - U"
    "lruHashTab t i \<noteq> 0" "lnext t (lruHashTab t i) = 0" "unat (lruHashTab t i) \<in> W - U" and W: "U \<subseteq> W" "W \<subseteq> V"
  shows "heads_ok t (insert i J) U V"
proof -
  have "kvHashTab t i \<notin> kvHashTab t ` J" "lruHashTab t i \<notin> lruHashTab t ` J" using h i(4,7) unfolding heads_ok_def by force+
  then show ?thesis using h i W unfolding heads_ok_def by auto
qed

lemma kv_init_tabs_ok:
  assumes "hp (kx s) U H" "room (kx s) (32 * n + r)" "0 \<le> i" "0 < r"
  shows "\<exists>t V. kv_init_tabs n i s = Some (0, t) \<and> hp (kx t) V H \<and> U \<subseteq> V \<and> heads_ok t {i..<i + int n} U V \<and>
    (\<forall>a. unat a \<in> U \<longrightarrow> kvn t a = kvn s a \<and> lrn t a = lrn s a) \<and> (\<forall>j. j < i \<longrightarrow> kvHashTab t j = kvHashTab s j \<and> lruHashTab t j = lruHashTab s j) \<and>
    t = s\<lparr>kx := kx t, kvn := kvn t, lrn := lrn t, kvHashTab := kvHashTab t, lruHashTab := lruHashTab t\<rparr> \<and>
    room (kx t) r \<and> (\<forall>z. serves (kx t) z = serves (kx s) z)"
  using assms
proof (induction n arbitrary: s U i)
  case 0
  then show ?case by (intro exI [of _ s] exI [of _ U]) (simp add: heads_ok_def)
next
  case (Suc n)
  have z: "(16 :: uint32) \<noteq> 0" "unat (16 :: uint32) \<le> 2 ^ 32 - 8" "reqsize 16 = 16" "(12 :: uint32) \<noteq> 0" "unat (12 :: uint32) \<le> 2 ^ 32 - 8" "reqsize 12 = 16"
    by (simp_all add: reqsize_def)
  have r1: "room (kx s) (reqsize 16 + (16 + (32 * n + r)))" "0 < 16 + (32 * n + r)" using Suc.prems(2,4) z(3) by (simp_all add: algebra_simps)
  obtain a y1 where A: "kx_getmem 16 (kx s) = Some (a, y1)" "hp y1 (U \<union> {unat a..<unat a + reqsize 16}) H" "{unat a..<unat a + reqsize 16} \<inter> U = {}" "a \<noteq> 0" "room y1 (16 + (32 * n + r))"
      "y1 = (kx s)\<lparr>xb := (xb (kx s))\<lparr>bk := (bk (xb (kx s)))\<lparr>kmem := kmem (bk (xb y1))\<rparr>\<rparr>\<rparr>"
    by (rule hp_getmem [OF Suc.prems(1) z(1,2) r1]) (rule that; assumption)
  let ?U1 = "U \<union> {unat a..<unat a + reqsize 16}"
  have r2: "room y1 (reqsize 12 + (32 * n + r))" "0 < 32 * n + r" using A(5) z(6) Suc.prems(4) by simp_all
  obtain b y2 where B: "kx_getmem 12 y1 = Some (b, y2)" "hp y2 (?U1 \<union> {unat b..<unat b + reqsize 12}) H" "{unat b..<unat b + reqsize 12} \<inter> ?U1 = {}" "b \<noteq> 0" "room y2 (32 * n + r)"
      "y2 = y1\<lparr>xb := (xb y1)\<lparr>bk := (bk (xb y1))\<lparr>kmem := kmem (bk (xb y2))\<rparr>\<rparr>\<rparr>"
    by (rule hp_getmem [OF A(2) z(4,5) r2]) (rule that; assumption)
  let ?U2 = "?U1 \<union> {unat b..<unat b + reqsize 12}"
  have ab: "unat a \<in> {unat a..<unat a + reqsize 16}" "unat b \<in> {unat b..<unat b + reqsize 12}" using z(3,6) by simp_all
  then have abU: "unat a \<in> ?U2 - U" "unat b \<in> ?U2 - U" using A(3) B(3) by blast+
  define s3 where "s3 = (upd_kvn a (\<lambda>_. \<lparr>kv_key = 0, kv_val = 0, kv_count = 0, kv_next = 0\<rparr>) (s\<lparr>kx := y1\<rparr>))\<lparr>kvHashTab := (kvHashTab s)(i := a)\<rparr>"
  define s6 where "s6 = (upd_lrn b (\<lambda>_. \<lparr>ln_key = 0, ln_prev = 0, ln_next = 0\<rparr>) (s3\<lparr>kx := y2\<rparr>))\<lparr>lruHashTab := (lruHashTab s)(i := b)\<rparr>"
  have k3: "kx s3 = y1" by (simp add: s3_def)
  have e: "kv_init_tabs (Suc n) i s = kv_init_tabs n (i + 1) s6"
    using kv_getmem_kx [OF A(1)] kv_getmem_kx [of 12 s3 b y2] B(1) A(4) B(4) k3 by (simp add: Let_def s3_def s6_def)
  have sv: "serves y2 z = serves (kx s) z" for z
  proof -
    have "serves y2 z = serves y1 z" by (subst B(6), rule serves_kmem)
    also have "\<dots> = serves (kx s) z" by (subst A(6), rule serves_kmem)
    finally show ?thesis .
  qed
  have p6: "hp (kx s6) ?U2 H" "room (kx s6) (32 * n + r)" "0 \<le> i + 1" using B(2,5) Suc.prems(3) by (simp_all add: s6_def)
  obtain t V where T: "kv_init_tabs n (i + 1) s6 = Some (0, t)" "hp (kx t) V H" "?U2 \<subseteq> V" "heads_ok t {i + 1..<i + 1 + int n} ?U2 V"
      "\<forall>c. unat c \<in> ?U2 \<longrightarrow> kvn t c = kvn s6 c \<and> lrn t c = lrn s6 c" "\<forall>j. j < i + 1 \<longrightarrow> kvHashTab t j = kvHashTab s6 j \<and> lruHashTab t j = lruHashTab s6 j"
      "t = s6\<lparr>kx := kx t, kvn := kvn t, lrn := lrn t, kvHashTab := kvHashTab t, lruHashTab := lruHashTab t\<rparr>" "room (kx t) r" "\<forall>z. serves (kx t) z = serves (kx s6) z"
    using Suc.IH [OF p6 Suc.prems(4)] by blast
  have hi: "kvHashTab t i = a" "lruHashTab t i = b" using T(6) by (simp_all add: s6_def s3_def)
  have "kvn t a = kvn s6 a" "lrn t b = lrn s6 b" using T(5) abU by blast+
  then have nx: "knext t a = 0" "lnext t b = 0" by (simp_all add: accessors s6_def s3_def)
  have J: "insert i {i + 1..<i + 1 + int n} = {i..<i + int (Suc n)}" by auto
  have "heads_ok t (insert i {i + 1..<i + 1 + int n}) U V"
    by (rule heads_ok_insert [OF T(4)]) (use hi nx A(4) B(4) abU T(3) in auto)
  moreover have "kvn t c = kvn s c \<and> lrn t c = lrn s c" if c: "unat c \<in> U" for c
  proof -
    have "c \<noteq> a" "c \<noteq> b" using c abU by auto
    moreover have "kvn t c = kvn s6 c \<and> lrn t c = lrn s6 c" using T(5) c by blast
    ultimately show ?thesis by (simp add: s6_def s3_def)
  qed
  moreover have "t = s\<lparr>kx := kx t, kvn := kvn t, lrn := lrn t, kvHashTab := kvHashTab t, lruHashTab := lruHashTab t\<rparr>"
  proof -
    obtain X1 X2 X3 X4 X5 where "t = s6\<lparr>kx := X1, kvn := X2, lrn := X3, kvHashTab := X4, lruHashTab := X5\<rparr>" using T(7) by blast
    then show ?thesis by (cases s) (simp add: s6_def s3_def)
  qed
  moreover have "U \<subseteq> V" using T(3) by blast
  moreover have "\<forall>j. j < i \<longrightarrow> kvHashTab t j = kvHashTab s j \<and> lruHashTab t j = lruHashTab s j" using T(6) by (simp add: s6_def s3_def)
  moreover have "\<forall>z. serves (kx t) z = serves (kx s) z" using T(9) sv by (simp add: s6_def)
  ultimately show ?case unfolding J e using T(1,2,8) by blast
qed

definition no_keys :: kvghost where
  "no_keys = \<lparr>gC = \<lambda>_. [], gL = \<lambda>_. [], gE = [], gS = \<lambda>_. [], gV = \<lambda>_. []\<rparr>"

lemma empty_store:
  assumes h: "heads_ok s codes U V" "hp (kx s) V H" "headLRU s \<noteq> 0" "unat (headLRU s) \<in> V" "tailLRU s = headLRU s" "counterLRU s = 0"
  shows "kvrel s V Map.empty []"
proof -
  have n: "nodes (\<lambda>_. []) = {}" by (simp add: nodes_def)
  have D: "kvHashTab s j \<noteq> 0" "knext s (kvHashTab s j) = 0" "unat (kvHashTab s j) \<in> V" "lruHashTab s j \<noteq> 0" "lnext s (lruHashTab s j) = 0" "unat (lruHashTab s j) \<in> V"
    if "j \<in> codes" for j using h(1) that unfolding heads_ok_def by blast+
  have inj: "kvHashTab s j \<noteq> kvHashTab s i" "lruHashTab s j \<noteq> lruHashTab s i" if "i \<in> codes" "j \<in> codes" "j \<noteq> i" for i j
    using h(1) that unfolding heads_ok_def inj_on_def by blast+
  have t: "table (kvHashTab s) (knext s) f (\<lambda>_. [])" "table (lruHashTab s) (lnext s) f (\<lambda>_. [])" for f
    using D inj unfolding table_def n by (simp_all del: atLeastLessThan_iff)
  have "kvshape s no_keys" unfolding kvshape_def cache_ok_def kvkeys_def no_keys_def using t h(3,5) by (simp add: n)
  moreover have "owned s no_keys V H" unfolding owned_def no_keys_def using D(3,6) h(4) by (simp add: n del: atLeastLessThan_iff)
  ultimately have "kvinv s no_keys V H"
    using h(2,6) unfolding kvinv_def values_ok_def cached_def by (simp add: no_keys_def n LRU_CACHE_SIZE_def)
  moreover have "kvmap s no_keys = Map.empty" "recent s no_keys = []"
    by (simp_all add: kvmap_def kvof_def lookup_def no_keys_def fun_eq_iff recent_def)
  ultimately show ?thesis unfolding kvrel_def by metis
qed

text \<open>Initialization behind \<^verbatim>\<open>xmalloc_init\<close>.\<close>

definition kv_tables :: "kvsys \<Rightarrow> (int \<times> kvsys) option" where
  "kv_tables s1 = do {
     (h, s2) \<leftarrow> kv_getmem 12 s1;
     if h = 0 then Some (1, s2\<lparr>headLRU := h\<rparr>)
     else kv_init_tabs (nat HASH_TAB_SIZE) 0 (s2\<lparr>headLRU := h, tailLRU := h\<rparr>) }"

lemma kv_tables_ok:
  assumes h: "hp (kx s) U H" and r: "room (kx s) (16400 + r)" "0 < r" and c: "counterLRU s = 0"
  obtains t V where "kv_tables s = Some (0, t)" "kvrel t V Map.empty []" "U \<subseteq> V" "kbytes t = kbytes s" "counterLRU t = 0" "room (kx t) r"
    "\<And>z. serves (kx t) z = serves (kx s) z"
proof -
  have z: "(12 :: uint32) \<noteq> 0" "unat (12 :: uint32) \<le> 2 ^ 32 - 8" "room (kx s) (reqsize 12 + (16384 + r))" "0 < 16384 + r" using r by (simp_all add: reqsize_12)
  obtain a y where A: "kx_getmem 12 (kx s) = Some (a, y)" "hp y (U \<union> {unat a..<unat a + reqsize 12}) H" "a \<noteq> 0" "room y (16384 + r)"
      "y = (kx s)\<lparr>xb := (xb (kx s))\<lparr>bk := (bk (xb (kx s)))\<lparr>kmem := kmem (bk (xb y))\<rparr>\<rparr>\<rparr>"
    by (rule hp_getmem [OF h z]) (rule that; assumption)
  let ?s = "s\<lparr>kx := y, headLRU := a, tailLRU := a\<rparr>" and ?U = "U \<union> {unat a..<unat a + reqsize 12}"
  have p: "hp (kx ?s) ?U H" "room (kx ?s) (32 * 512 + r)" "(0 :: int) \<le> 0" using A by simp_all
  obtain t V where T: "kv_init_tabs 512 0 ?s = Some (0, t)" "hp (kx t) V H" "?U \<subseteq> V" "heads_ok t {0..<0 + int 512} ?U V"
      "t = ?s\<lparr>kx := kx t, kvn := kvn t, lrn := lrn t, kvHashTab := kvHashTab t, lruHashTab := lruHashTab t\<rparr>" "room (kx t) r" "\<forall>z. serves (kx t) z = serves (kx ?s) z"
    using kv_init_tabs_ok [OF p r(2)] by blast
  have "serves y z = serves (kx s) z" for z by (subst A(5), rule serves_kmem)
  then have sv: "serves (kx t) z = serves (kx s) z" for z using T(7) by simp
  have f: "headLRU t = a" "tailLRU t = a" "counterLRU t = 0" "kbytes t = kbytes s" by (subst T(5), simp add: c)+
  have "kv_tables s = Some (0, t)" using kv_getmem_kx [OF A(1)] A(3) T(1) by (simp add: kv_tables_def HASH_TAB_SIZE_def)
  moreover have "kvrel t V Map.empty []"
    by (rule empty_store [OF _ T(2), of ?U]) (use T(3,4) f A(3) in \<open>auto simp: reqsize_12\<close>)
  ultimately show thesis using that T(3,6) f(3,4) sv by blast
qed

lemma kv_init_tables:
  "xmalloc_init (kx s) = Some x \<Longrightarrow>
   kv_init s = kv_tables (s\<lparr>kx := x, counterLRU := 0, totalHits := 0, totalAccesses := 0, totalSetSuccess := 0, totalEvictions := 0\<rparr>)"
  by (simp add: kv_init_def kv_tables_def Let_def)


section \<open>Reset\<close>

text \<open>A walk that stays among nodes that are not null does not end.\<close>

lemma reset_lru_loops:
  assumes "p \<in> S" "0 \<notin> S" "\<And>a. a \<in> S \<Longrightarrow> le_next (es a) \<in> S"
  shows "reset_lru es p = None"
proof -
  have *: "p \<notin> S" if r: "reset_lru es' p = Some r" "es' = es" for es' p r
    using r(2)
  proof (induction rule: reset_lru.raw_induct [OF _ r(1)])
    case (1 f es' p r)
    then show ?case using assms(2,3) by (auto split: if_splits)
  qed
  show ?thesis using assms(1) * by (cases "reset_lru es p") auto
qed

lemma clinked_next: "clinked nx pv h es \<Longrightarrow> e \<in> set (butlast (h # es)) \<Longrightarrow> nx e \<in> set es"
  by (induction es arbitrary: h) (auto split: if_splits)

lemma kv_reset_loops:
  assumes I: "kvshape s g" and e: "gE g \<noteq> []" "enext s (last (gE g)) \<in> set (gE g)"
  shows "kv_reset s = None"
proof -
  note C = cache_okD [OF kvshapeD(3) [OF I]]
  have "reset_lru (lre s) (headLRU s) = None"
  proof (rule reset_lru_loops [where S = "set (headLRU s # gE g)"])
    show "0 \<notin> set (headLRU s # gE g)" using C(2,3) by simp
    fix a assume a: "a \<in> set (headLRU s # gE g)"
    have "enext s a \<in> set (gE g)"
    proof (cases "a = last (headLRU s # gE g)")
      case True
      then show ?thesis using e by simp
    next
      case False
      then have "a \<in> set (butlast (headLRU s # gE g))" using a append_butlast_last_id [of "headLRU s # gE g"] by (metis list.simps(3) rotate1.simps(2) set_ConsD set_rotate1)
      then show ?thesis by (rule clinked_next [OF C(5)])
    qed
    then show "le_next (lre s a) \<in> set (headLRU s # gE g)" by (simp add: enext_def)
  qed simp
  then show ?thesis by (simp add: kv_reset_def Let_def)
qed


section \<open>A small store\<close>

text \<open>
  A store over the pool of two buffers of sixteen bytes, with two strings below the heap, and the store after one
  key has been set.
\<close>

definition kvs0 :: kvsys where
  "kvs0 = \<lparr>kx = xsizes\<lparr>xb := kpool\<rparr>, kbytes = (\<lambda>_. 0)(0x100 := 107, 0x200 := 118),
     kvn = (\<lambda>_. \<lparr>kv_key = 0, kv_val = 0, kv_count = 0, kv_next = 0\<rparr>), lre = (\<lambda>_. \<lparr>le_key = 0, le_val = 0, le_next = 0\<rparr>),
     lrn = (\<lambda>_. \<lparr>ln_key = 0, ln_prev = 0, ln_next = 0\<rparr>), kvHashTab = (\<lambda>_. 0), lruHashTab = (\<lambda>_. 0), headLRU = 0, tailLRU = 0,
     counterLRU = 0, totalHits = 0, totalAccesses = 0, totalSetSuccess = 0, totalEvictions = 0\<rparr>"

lemma kvs0_strings: "is_key kvs0 0x100 [107]" "cstr (kbytes kvs0) 0x200 [118]"
  by (simp_all add: is_key_def key_ok_def kvs0_def)

lemma kpool_made: "mkbufpool 16 2 kbufs = Some (0, kpool)"
  using kbufs_pool by (auto simp: kpool_def)

lemma kpool_room: "room (kx kvs0) 0xE0000"
proof -
  have ok: "\<not> (16 < BP_MINB \<or> 16 > BP_MAXB \<or> (2 :: int) < 1 \<or> 2 > BP_MAXN \<or> nbpools kbufs \<ge> NBPOOLS)"
    by (simp add: BP_MINB_def BP_MAXB_def BP_MAXN_def NBPOOLS_def kbufs_def)
  have r4: "round4 16 = 16" by (simp add: round4_def)
  note O = heap_okD [OF kbufs_facts(2)]
  have n: "(40 :: uint32) \<noteq> 0" "unat (40 :: uint32) \<le> 2 ^ 32 - 8" by simp_all
  have rq: "reqsize 40 = 40" by (simp add: reqsize_def)
  note Q = roundmb_request [OF n, unfolded rq]
  have "ff_alloc (roundmb 40) [(0x10000, 0xEE000)] \<noteq> None" unfolding ff_alloc_None using Q(1) by (simp add: wless)
  then obtain a bs where al: "ff_alloc (roundmb 40) [(0x10000, 0xEE000)] = Some (a, bs)" by auto
  have mx: "unat (maxheap (kmem (bk kbufs))) < 2 ^ 32" by (rule unat_bound)
  obtain m where g: "getmem 40 (kmem (bk kbufs)) = Some (a, m)" "mabs m bs" "minheap m = minheap (kmem (bk kbufs))" "maxheap m = maxheap (kmem (bk kbufs))"
    using getmem_some [OF O(1,2) mx n(1) refl Q(2) al] by auto
  have h: "heap_ok m bs" using g(2-4) ff_alloc_ok(1) [OF O(2) mx Q(2,3) al] kbufs_facts(2) by (simp add: heap_ok_def)
  have big: "\<exists>(c, k)\<in>set bs. 0xE0000 \<le> unat k" by (rule ff_alloc_room [OF al, of "0x10000" "0xEE000"]) (simp_all add: Q(1))
  let ?k = "(bk kbufs)\<lparr>kmem := m\<rparr>"
  obtain i k where sc: "semcreate 2 ?k = (i, k)" by (cases "semcreate 2 ?k")
  have "kinv ?k" "nextsem ?k \<in> sems" "(0 :: int) \<le> 2" using kinv_kmem(1) [OF kbufs_facts(1)] kbufs_facts(3) by simp_all
  from semcreate_ok [OF this] have "(\<exists>x. k = ?k\<lparr>nextsem := x\<rparr>) \<or> sem_frame i ?k k" unfolding sc prod.case by blast
  then have "kmem k = m" by (auto simp: sem_frame_def)
  moreover have "a \<noteq> SYSERR_PTR" "i \<noteq> SYSERR"
    using kpool_made g(1) sc unfolding mkbufpool_eq [OF ok] by (auto simp: r4 Let_def SYSERR_def split: if_splits)
  then have "bk kpool = k" using g(1) sc by (simp add: kpool_def mkbufpool_eq [OF ok] r4 Let_def)
  ultimately show ?thesis using h big by (auto simp: room_def kvs0_def)
qed

lemma kvs0_hp: "hp (kx kvs0) {0..<0x10000} {}"
proof -
  let ?m = "\<lparr>bsys = kbufs, bpend = \<lambda>_. None, bheld = {}, barea = {}\<rparr>"
  let ?A = "barea ?m \<union> {unat (bpnext (buftab kpool 0))..<unat (bpnext (buftab kpool 0)) + nat 2 * (unat (psize kpool 0) + 4)}"
  have B0: "binv ?m (\<lambda>_. {}) (\<lambda>_. [])"
    using kbufs_facts(1-3) by (auto simp: binv_def bmem_def layout_def out_def pool_bal_def NBPOOLS_def kbufs_def)
  have mk: "mkbufpool 16 2 (bsys ?m) = Some (0, kpool)" "(0 :: int) \<noteq> SYSERR" using kpool_made by (simp_all add: SYSERR_def)
  obtain R F where B: "binv (?m\<lparr>bsys := kpool, barea := ?A\<rparr>) R F" using mk_step(2) [OF B0 mk] by blast
  have hb: "heap_ok (kmem (bk (bsys ?m))) [(0x10000, 0xEE000)]" using kbufs_facts(2) by simp
  note U = mkbufpool_use [OF mk(1) B0 hb]
  have low: "free_bytes [(0x10000, 0xEE000)] \<inter> {0..<0x10000} = {}" by (auto simp: free_bytes_def extent_def)
  have "?A \<subseteq> free_bytes [(0x10000, 0xEE000)]" using U(3) [OF mk(2)] by simp
  then have A: "?A \<inter> {0..<0x10000} = {}" using low by blast
  obtain cs where cs: "heap_ok (kmem (bk kpool)) cs" "free_bytes cs \<subseteq> free_bytes [(0x10000, 0xEE000)]" using U(1) by blast
  obtain ds where "heap_ok (kmem (bk kpool)) ds" "free_bytes ds \<inter> ?A = {}" using binvD(3) [OF B] by auto
  then have cA: "free_bytes cs \<inter> ?A = {}" using heap_ok_unique [OF cs(1)] by blast
  have "{0..<1 :: int} = {0}" by auto
  then have so: "sizes_ok (xsizes\<lparr>xb := kpool\<rparr>)" using kpool_facts(1,2) by (simp add: sizes_ok_def xsizes_def)
  show ?thesis
    unfolding hp_def
    by (rule exI [of _ "?m\<lparr>bsys := kpool, barea := ?A\<rparr>"], rule exI [of _ R], rule exI [of _ F], rule exI [of _ cs])
      (use B so cs cA A low kpool_facts(3) in \<open>auto simp: kvs0_def NULLPROC_def\<close>)
qed

lemma kvs0_serves: "serves (kx kvs0) 2"
  using kpool_facts by (simp add: serves_def kvs0_def xsizes_def findClosestIndex_def)


lemma kvs_empty:
  obtains s V where "kvrel s V Map.empty []" "{0..<0x10000} \<subseteq> V" "kbytes s = kbytes kvs0" "counterLRU s = 0" "room (kx s) 0x1000" "serves (kx s) 2"
proof -
  have r: "room (kx kvs0) (16400 + 0x1000)" "(0 :: nat) < 0x1000" using room_mono [OF kpool_room] by simp_all
  have c: "counterLRU kvs0 = 0" by (simp add: kvs0_def)
  obtain t V where T: "kv_tables kvs0 = Some (0, t)" "kvrel t V Map.empty []" "{0..<0x10000} \<subseteq> V" "kbytes t = kbytes kvs0" "counterLRU t = 0" "room (kx t) 0x1000"
      "\<And>z. serves (kx t) z = serves (kx kvs0) z"
    by (rule kv_tables_ok [OF kvs0_hp r c]) (rule that; assumption)
  show thesis by (rule that [OF T(2-6)]) (use T(7) kvs0_serves in simp)
qed

lemma kvs_one:
  obtains s V where "kvrel s V [[107] \<mapsto> [118]] [[107]]" "is_key s 0x100 [107]" "kbytes s 0x200 = 118"
proof -
  obtain s V where S: "kvrel s V Map.empty []" "{0..<0x10000} \<subseteq> V" "kbytes s = kbytes kvs0" "counterLRU s = 0" "room (kx s) 0x1000" "serves (kx s) 2"
    by (rule kvs_empty) (rule that; assumption)
  obtain g H where G: "kvinv s g V H" "Map.empty = kvmap s g" "[] = recent s g" using S(1) unfolding kvrel_def by blast
  have k: "is_key s 0x100 [107]" "span 0x100 (length [107 :: uchar] + 1) \<subseteq> V" "unat (0x100 :: uint32) + length [107 :: uchar] + 1 \<le> 2 ^ 32"
    using kvs0_strings(1) S(2,3) by (auto simp: is_key_def span_def)
  have v: "cstr (kbytes s) 0x200 [118]" "span 0x200 (length [118 :: uchar] + 1) \<subseteq> V" "unat (0x200 :: uint32) + length [118 :: uchar] + 1 \<le> 2 ^ 32"
    using kvs0_strings(2) S(2,3) by (auto simp: span_def)
  have z: "serves (kx s) (int (length [118 :: uchar]) + 1)" "room (kx s) (length [107 :: uchar] + 64)" "counterLRU s < LRU_CACHE_SIZE \<or> recent s g \<noteq> []"
    using S(4,6) room_mono [OF S(5), of 65] by (simp_all add: LRU_CACHE_SIZE_def)
  obtain t g' V' H' where T: "kv_set 0x100 0x200 s = Some (0, t)" "kvinv t g' V' H'" "V \<subseteq> V'" "kvmap t g' = (kvmap s g)([107] \<mapsto> [118])"
      "recent t g' = lru_set (counterLRU s) [107] (recent s g)" "\<forall>a. unat a \<in> V \<longrightarrow> kbytes t a = kbytes s a"
    by (rule kv_set_inv [OF G(1) k v z]) (rule that; assumption)
  have "kvrel t V' [[107] \<mapsto> [118]] [[107]]"
    unfolding kvrel_def using T(2,4,5) G(2,3) S(4) by (intro exI [of _ g'] exI [of _ H']) (simp add: lru_set_def LRU_CACHE_SIZE_def)
  moreover have "kbytes t a = kbytes kvs0 a" if "unat a < 0x10000" for a using T(6) S(2,3) that by auto
  then have "is_key t 0x100 [107]" "kbytes t 0x200 = 118" using kvs0_strings by (simp_all add: is_key_def)
  ultimately show thesis by (rule that)
qed


definition head_at :: "int \<Rightarrow> uint32" where
  "head_at h = word_of_int (h + 1000)"

lemma uint_head_at: "h \<in> codes \<Longrightarrow> uint (head_at h) = h + 1000"
  unfolding head_at_def by (subst uint_word_of_int) simp

text \<open>A store with two cached keys, the older one first.\<close>

definition kvs2 :: kvsys where
  "kvs2 = kvs0\<lparr>kbytes := (\<lambda>_. 0)(0x100 := 107, 0x110 := 108),
     kvn := (\<lambda>_. \<lparr>kv_key = 0, kv_val = 0, kv_count = 0, kv_next = 0\<rparr>)(1107 := \<lparr>kv_key = 0, kv_val = 0, kv_count = 0, kv_next = 5001\<rparr>,
       1108 := \<lparr>kv_key = 0, kv_val = 0, kv_count = 0, kv_next = 5002\<rparr>,
       5001 := \<lparr>kv_key = 0x100, kv_val = 0, kv_count = 0, kv_next = 0\<rparr>, 5002 := \<lparr>kv_key = 0x110, kv_val = 0, kv_count = 0, kv_next = 0\<rparr>),
     lrn := (\<lambda>_. \<lparr>ln_key = 0, ln_prev = 0, ln_next = 0\<rparr>)(1107 := \<lparr>ln_key = 0, ln_prev = 0, ln_next = 6001\<rparr>,
       1108 := \<lparr>ln_key = 0, ln_prev = 0, ln_next = 6002\<rparr>,
       6001 := \<lparr>ln_key = 0x100, ln_prev = 7000, ln_next = 0\<rparr>, 6002 := \<lparr>ln_key = 0x110, ln_prev = 7001, ln_next = 0\<rparr>),
     lre := (\<lambda>_. \<lparr>le_key = 0, le_val = 0, le_next = 0\<rparr>)(7000 := \<lparr>le_key = 0, le_val = 0, le_next = 7001\<rparr>,
       7001 := \<lparr>le_key = 0x100, le_val = 0, le_next = 7002\<rparr>, 7002 := \<lparr>le_key = 0x110, le_val = 0, le_next = 0\<rparr>),
     kvHashTab := head_at, lruHashTab := head_at, headLRU := 7000, tailLRU := 7002, counterLRU := 2\<rparr>"

definition kvs2_ghost :: kvghost where
  "kvs2_ghost = \<lparr>gC = (\<lambda>_. [])(107 := [5001], 108 := [5002]), gL = (\<lambda>_. [])(107 := [6001], 108 := [6002]), gE = [7001, 7002],
     gS = (\<lambda>_. [])(0x100 := [107], 0x110 := [108]), gV = (\<lambda>_. [])\<rparr>"

lemma two_chains:
  fixes n1 n2 :: uint32
  assumes n: "n1 \<noteq> 0" "n2 \<noteq> 0" "n1 \<noteq> n2" "2000 < uint n1" "2000 < uint n2" and s: "str n1 = [107]" "str n2 = [108]"
    and x: "\<And>h. h \<in> codes \<Longrightarrow> nxt (head_at h) = (if h = 107 then n1 else if h = 108 then n2 else 0)" "nxt n1 = 0" "nxt n2 = 0"
  shows "table head_at nxt str ((\<lambda>_. [])(107 := [n1], 108 := [n2]))" "nodes ((\<lambda>_. [])(107 := [n1], 108 := [n2])) = {n1, n2}"
proof -
  let ?C = "(\<lambda>_ :: int. [])(107 := [n1], 108 := [n2])"
  note w = uint_head_at
  have wn: "head_at h \<noteq> 0" "head_at h \<noteq> n1" "head_at h \<noteq> n2" if "h \<in> codes" for h
    using w [OF that] n(4,5) that by auto
  have wi: "head_at h \<noteq> head_at k" if "h \<in> codes" "k \<in> codes" "k \<noteq> h" for h k
    using w [OF that(1)] w [OF that(2)] that(3) by auto
  have hs: "hashS [107] = 107" "hashS [108] = 108" by (simp_all add: hashS_def hash_step_def MAX_KEY_SIZE_def HASH_TAB_SIZE_def)
  show nd: "nodes ?C = {n1, n2}"
  proof
    show "nodes ?C \<subseteq> {n1, n2}" unfolding nodes_def by (auto split: if_splits)
    have "n1 \<in> set (?C 107)" "n2 \<in> set (?C 108)" "(107 :: int) \<in> codes" "(108 :: int) \<in> codes" by simp_all
    then show "{n1, n2} \<subseteq> nodes ?C" unfolding nodes_def by blast
  qed
  have "head_at h \<noteq> 0 \<and> cpath nxt (head_at h) (?C h) \<and> distinct (head_at h # ?C h) \<and>
      (\<forall>a\<in>set (?C h). hashS (str a) = h) \<and> (\<forall>k\<in>codes. k \<noteq> h \<longrightarrow> set (head_at h # ?C h) \<inter> set (head_at k # ?C k) = {})"
    if h: "h \<in> codes" for h
  proof -
    have "set (head_at h # ?C h) \<inter> set (head_at k # ?C k) = {}" if k: "k \<in> codes" "k \<noteq> h" for k
      using wi [OF h k] wn [OF h] wn [OF k(1)] n(3) k(2) by auto
    then show ?thesis using wn [OF h] x(1) [OF h] x(2,3) n(1,2) s hs by auto
  qed
  moreover have "inj_on str {n1, n2}" using s n(3) by (simp add: inj_on_def)
  ultimately show "table head_at nxt str ?C" unfolding table_def nd by blast
qed

lemma kvs2_shape: "kvshape kvs2 kvs2_ghost" "is_key kvs2 0x100 [107]" "recent kvs2 kvs2_ghost = [[107], [108]]"
proof -
  let ?g = kvs2_ghost
  note w = uint_head_at
  have e: "head_at h = v \<longleftrightarrow> h + 1000 = uint v" if "h \<in> codes" for h v using w [OF that] by (metis word_uint_eqI)
  have ne: "head_at h = 1107 \<longleftrightarrow> h = 107" "head_at h = 1108 \<longleftrightarrow> h = 108" "head_at h \<noteq> 5001" "head_at h \<noteq> 5002" "head_at h \<noteq> 6001" "head_at h \<noteq> 6002"
    if "h \<in> codes" for h using that unfolding e [OF that] by auto
  have h2: "head_at 107 = 1107" "head_at 108 = 1108" by (simp_all add: head_at_def)
  have kn: "knext kvs2 (head_at h) = (if h = 107 then 5001 else if h = 108 then 5002 else 0)" if "h \<in> codes" for h
    using ne [OF that] h2 by (simp add: kvs2_def knext_def)
  have ln: "lnext kvs2 (head_at h) = (if h = 107 then 6001 else if h = 108 then 6002 else 0)" if "h \<in> codes" for h
    using ne [OF that] h2 by (simp add: kvs2_def lnext_def)
  have C: "table (kvHashTab kvs2) (knext kvs2) (kstr kvs2 ?g) (gC ?g)" "nodes (gC ?g) = {5001, 5002}"
    using two_chains [of 5001 5002 "kstr kvs2 ?g" "knext kvs2", OF _ _ _ _ _ _ _ kn] by (simp_all add: kvs2_def kvs2_ghost_def kkey_def knext_def)
  have L: "table (lruHashTab kvs2) (lnext kvs2) (lstr kvs2 ?g) (gL ?g)" "nodes (gL ?g) = {6001, 6002}"
    using two_chains [of 6001 6002 "lstr kvs2 ?g" "lnext kvs2", OF _ _ _ _ _ _ _ ln] by (simp_all add: kvs2_def kvs2_ghost_def lkey_def lnext_def)
  have ls: "lstr kvs2 ?g 6001 = [107]" "lstr kvs2 ?g 6002 = [108]" "estr kvs2 ?g 7001 = [107]" "estr kvs2 ?g 7002 = [108]"
    by (simp_all add: kvs2_def kvs2_ghost_def lkey_def ekey_def)
  have lo: "lruof kvs2 ?g [107] = Some 6001" "lruof kvs2 ?g [108] = Some 6002"
    unfolding lruof_def lookup_iff [OF L(1)] L(2) using ls by simp_all
  have ep: "epv kvs2 ?g 7001 = 7000" "epv kvs2 ?g 7002 = 7001" using lo ls by (simp_all add: epv_def) (simp_all add: kvs2_def lprev_def)
  have f: "headLRU kvs2 = 7000" "tailLRU kvs2 = 7002" "gE ?g = [7001, 7002]" by (simp_all add: kvs2_def kvs2_ghost_def)
  have n: "enext kvs2 7000 = 7001" "enext kvs2 7001 = 7002" by (simp_all add: kvs2_def enext_def)
  have "cache_ok kvs2 ?g"
    unfolding cache_ok_def L(2) f using ls ep n by simp
  then show "kvshape kvs2 ?g"
    unfolding kvshape_def kvkeys_def C(2) L(2) using C(1) L(1) by (simp add: kvs2_def kvs2_ghost_def kkey_def lkey_def ekey_def key_ok_def)
  show "is_key kvs2 0x100 [107]" by (simp add: kvs2_def is_key_def key_ok_def)
  show "recent kvs2 ?g = [[107], [108]]" using ls by (simp add: recent_def) (simp add: kvs2_ghost_def)
qed


text \<open>A kernel whose heap is too small for the first pool but large enough for the tables.\<close>

definition kvsmall :: kvsys where
  "kvsmall = kvs0\<lparr>kx := kxm\<lparr>xb := kbufs\<lparr>bk := krun\<lparr>kmem := meminit 0x10000 0x16000 (kmem krun)\<rparr>\<rparr>\<rparr>\<rparr>"

lemma kvsmall_facts:
  shows "kinv (bk (xb (kx kvsmall)))" "heap_ok (kmem (bk (xb (kx kvsmall)))) [(0x10000, 0x6000)]" "nextsem (bk (xb (kx kvsmall))) \<in> sems"
    "currpid (bk (xb (kx kvsmall))) \<noteq> NULLPROC" "\<exists>x. xmalloc_init (kx kvsmall) = Some x \<and> room x (16400 + 0x1000)"
proof -
  show "kinv (bk (xb (kx kvsmall)))" "nextsem (bk (xb (kx kvsmall))) \<in> sems" "currpid (bk (xb (kx kvsmall))) \<noteq> NULLPROC"
    using kinv_kmem(1) [OF krun_facts(1)] krun_facts(4,10) by (simp_all add: kvsmall_def NSEM_def NULLPROC_def)
  let ?m = "meminit 0x10000 0x16000 (kmem krun)"
  have h: "heap_ok ?m [(0x10000, 0x6000)]" using meminit_ok [of "0x10000" "0x16000" "kmem krun"] by simp
  then show "heap_ok (kmem (bk (xb (kx kvsmall)))) [(0x10000, 0x6000)]" by (simp add: kvsmall_def)
  define x3 where "x3 = xinit_sizes 10 0 ((kx kvsmall)\<lparr>xb := (xb (kx kvsmall))\<lparr>nbpools := 0\<rparr>, poolnum := 10\<rparr>)"
  have x3: "xb x3 = (xb (kx kvsmall))\<lparr>nbpools := 0\<rparr>" "poolnum x3 = 10" "bufsize x3 0 = 12" "bufnumb x3 0 = 2048"
    by (simp_all add: x3_def numeral_eq_Suc Let_def)
  have i: "xmalloc_init (kx kvsmall) = xinit_pools 10 0 x3"
    using x3(2) by (simp add: xmalloc_init_def bufinit_def Let_def OK_def SYSERR_def x3_def)
  have "roundmb 40960 = 40960" by (simp add: roundmb_def)
  then have "getmem 40960 ?m = Some (SYSERR_PTR, ?m)" using heap_okD(1) [OF h] by (intro getmem_none) auto
  then have "mkbufpool 16 2048 (xb x3) = Some (SYSERR, xb x3)"
    by (subst mkbufpool_eq) (simp_all add: BP_MINB_def BP_MAXB_def BP_MAXN_def NBPOOLS_def x3(1) kvsmall_def round4_def)
  then have "xmalloc_init (kx kvsmall) = Some x3" using x3(3,4) unfolding i by (simp add: numeral_eq_Suc)
  moreover have "room x3 (16400 + 0x1000)" unfolding room_def using h by (intro exI [of _ "[(0x10000, 0x6000)]"]) (simp add: x3(1) kvsmall_def)
  ultimately show "\<exists>x. xmalloc_init (kx kvsmall) = Some x \<and> room x (16400 + 0x1000)" by blast
qed


section \<open>The operations refine a map with a queue of cached keys\<close>

text \<open>
  C16. \<^verbatim>\<open>kv_init\<close> with memory for the heads of its tables after \<^verbatim>\<open>xmalloc_init\<close> returns 0 and leaves a store that stands for
  the empty map with no cached key; the bytes its callers own stay theirs and the memory that was not needed is still free.
\<close>

theorem kv_init_ok:
  assumes "kinv (bk (xb (kx s)))" and "heap_ok (kmem (bk (xb (kx s)))) bs" and "nextsem (bk (xb (kx s))) \<in> sems" and "currpid (bk (xb (kx s))) \<noteq> NULLPROC"
    and "U \<inter> free_bytes bs = {}" and "xmalloc_init (kx s) = Some x" and "room x (16400 + r)" and "0 < r"
  shows "\<exists>t V. kv_init s = Some (0, t) \<and> kvrel t V Map.empty [] \<and> U \<subseteq> V \<and> kbytes t = kbytes s \<and> counterLRU t = 0 \<and> room (kx t) r"
proof -
  have h: "hp x U {}" using xmalloc_init_hp [OF assms(1-5)] assms(6) by auto
  let ?s = "s\<lparr>kx := x, counterLRU := 0, totalHits := 0, totalAccesses := 0, totalSetSuccess := 0, totalEvictions := 0\<rparr>"
  have p: "hp (kx ?s) U {}" "room (kx ?s) (16400 + r)" "counterLRU ?s = 0" using h assms(7) by simp_all
  obtain t V where "kv_tables ?s = Some (0, t)" "kvrel t V Map.empty []" "U \<subseteq> V" "kbytes t = kbytes ?s" "counterLRU t = 0" "room (kx t) r"
    by (rule kv_tables_ok [OF p(1,2) assms(8) p(3)]) (rule that; assumption)
  then show ?thesis unfolding kv_init_tables [OF assms(6)] by auto
qed

theorem kv_init_ok_witness: "\<exists>t V. kv_init kvsmall = Some (0, t) \<and> kvrel t V Map.empty [] \<and> kbytes t = kbytes kvsmall \<and> room (kx t) 0x1000"
proof -
  note F = kvsmall_facts
  obtain x where x: "xmalloc_init (kx kvsmall) = Some x" "room x (16400 + 0x1000)" using F(5) by blast
  show ?thesis using kv_init_ok [OF F(1-4), of "{}", OF _ x] by auto
qed

text \<open>
  C9. With a buffer for the value and memory for a new node, \<^verbatim>\<open>kv_set\<close> returns 0 and binds the key to the string of the value in
  the map; the key becomes the most recent of the cached ones, in place of the least recent one when the cache is
  full; and no byte of the callers changes. The number of cached keys stays within the cache.
\<close>

theorem kv_set_refines:
  assumes "kvrel s U A Q" and "is_key s key x" and "span key (length x + 1) \<subseteq> U" and "unat key + length x + 1 \<le> 2 ^ 32"
    and "cstr (kbytes s) val v" and "span val (length v + 1) \<subseteq> U" and "unat val + length v + 1 \<le> 2 ^ 32"
    and "serves (kx s) (int (length v) + 1)" and "room (kx s) (length x + 64)" and "counterLRU s < LRU_CACHE_SIZE \<or> Q \<noteq> []"
  shows "\<exists>t V. kv_set key val s = Some (0, t) \<and> kvrel t V (A(x \<mapsto> v)) (lru_set (counterLRU s) x Q) \<and> U \<subseteq> V \<and>
    (\<forall>a. unat a \<in> U \<longrightarrow> kbytes t a = kbytes s a) \<and> int (length (lru_set (counterLRU s) x Q)) \<le> LRU_CACHE_SIZE"
proof -
  obtain g H where G: "kvinv s g U H" "A = kvmap s g" "Q = recent s g" using assms(1) unfolding kvrel_def by blast
  have c: "counterLRU s < LRU_CACHE_SIZE \<or> recent s g \<noteq> []" using assms(10) G(3) by simp
  obtain t g' V H' where T: "kv_set key val s = Some (0, t)" "kvinv t g' V H'" "U \<subseteq> V" "kvmap t g' = (kvmap s g)(x \<mapsto> v)"
      "recent t g' = lru_set (counterLRU s) x (recent s g)" "\<forall>a. unat a \<in> U \<longrightarrow> kbytes t a = kbytes s a"
    by (rule kv_set_inv [OF G(1) assms(2-9) c]) (rule that; assumption)
  have "kvrel t V (A(x \<mapsto> v)) (lru_set (counterLRU s) x Q)" unfolding kvrel_def using T(2,4,5) G(2,3) by metis
  moreover have "int (length (recent t g')) \<le> LRU_CACHE_SIZE" using T(2) by (simp add: kvinv_def recent_def)
  then have "int (length (lru_set (counterLRU s) x Q)) \<le> LRU_CACHE_SIZE" using T(5) G(3) by simp
  ultimately show ?thesis using T(1,3,6) by blast
qed

theorem kv_set_refines_witness: "\<exists>s t V. kvrel s V Map.empty [] \<and> (\<exists>W. kv_set 0x100 0x200 s = Some (0, t) \<and> kvrel t W [[107] \<mapsto> [118]] [[107]])"
proof -
  obtain s V where S: "kvrel s V Map.empty []" "{0..<0x10000} \<subseteq> V" "kbytes s = kbytes kvs0" "counterLRU s = 0" "room (kx s) 0x1000" "serves (kx s) 2"
    by (rule kvs_empty) (rule that; assumption)
  have k: "is_key s 0x100 [107]" "span 0x100 (length [107 :: uchar] + 1) \<subseteq> V" "unat (0x100 :: uint32) + length [107 :: uchar] + 1 \<le> 2 ^ 32"
    using kvs0_strings(1) S(2,3) by (auto simp: is_key_def span_def)
  have v: "cstr (kbytes s) 0x200 [118]" "span 0x200 (length [118 :: uchar] + 1) \<subseteq> V" "unat (0x200 :: uint32) + length [118 :: uchar] + 1 \<le> 2 ^ 32"
    using kvs0_strings(2) S(2,3) by (auto simp: span_def)
  have z: "serves (kx s) (int (length [118 :: uchar]) + 1)" "room (kx s) (length [107 :: uchar] + 64)" "counterLRU s < LRU_CACHE_SIZE \<or> [] \<noteq> ([] :: uchar list list)"
    using S(4,6) room_mono [OF S(5), of 65] by (simp_all add: LRU_CACHE_SIZE_def)
  show ?thesis using kv_set_refines [OF S(1) k v z] S(1,4) by (auto simp: lru_set_def LRU_CACHE_SIZE_def)
qed

text \<open>
  C10. \<^verbatim>\<open>kv_get\<close> returns a pointer to the string the map has for the key, or null when it has none. The map does not
  change; a cached key becomes the most recent one. Every call adds one to \<^verbatim>\<open>totalAccesses\<close>; \<^verbatim>\<open>totalHits\<close> grows only when the key is
  cached. A successful get of a stored key that is not cached leaves \<^verbatim>\<open>totalHits\<close> as it was, although \<^verbatim>\<open>kv.h\<close> and the comments in \<^verbatim>\<open>kv_store.c\<close>
  describe it as the total number of successful get requests: the code counts cache hits.
\<close>

theorem kv_get_refines:
  assumes "kvrel s U A Q" and "is_key s key x"
  shows "\<exists>v t. kv_get key s = Some (v, t) \<and> kvrel t U A (touch x Q) \<and> kbytes t = kbytes s \<and>
    (case A x of None \<Rightarrow> v = 0 | Some w \<Rightarrow> v \<noteq> 0 \<and> cstr (kbytes t) v w) \<and>
    totalAccesses t = totalAccesses s + 1 \<and> totalHits t = totalHits s + (if x \<in> set Q then 1 else 0)"
proof -
  obtain g H where G: "kvinv s g U H" "A = kvmap s g" "Q = recent s g" using assms(1) unfolding kvrel_def by blast
  obtain v t g' where T: "kv_get key s = Some (v, t)" "kvinv t g' U H" "kvmap t g' = kvmap s g" "recent t g' = touch x (recent s g)"
      "case kvmap s g x of None \<Rightarrow> v = 0 | Some w \<Rightarrow> v \<noteq> 0 \<and> cstr (kbytes t) v w" "kbytes t = kbytes s"
      "totalAccesses t = totalAccesses s + 1" "totalHits t = totalHits s + (if x \<in> set (recent s g) then 1 else 0)"
    by (rule kv_get_inv [OF G(1) assms(2)]) (rule that; assumption)
  have "kvrel t U A (touch x Q)" unfolding kvrel_def using T(2-4) G(2,3) by metis
  then show ?thesis using T(1,5-8) G(2,3) by auto
qed

theorem kv_get_refines_witness: "\<exists>s V v t. kvrel s V [[107] \<mapsto> [118]] [[107]] \<and> kv_get 0x100 s = Some (v, t) \<and> v \<noteq> 0 \<and> cstr (kbytes t) v [118] \<and> totalHits t = totalHits s + 1"
proof -
  obtain s V where S: "kvrel s V [[107] \<mapsto> [118]] [[107]]" "is_key s 0x100 [107]" "kbytes s 0x200 = 118" by (rule kvs_one)
  show ?thesis using kv_get_refines [OF S(1,2)] S(1) by (auto simp: touch_def)
qed

text \<open>
  C11. \<^verbatim>\<open>kv_delete\<close> removes a stored key from the map and from the cached keys and returns 0; when the map has no such key it
  returns 1 and changes neither. The result is the reverse of what \<^verbatim>\<open>kv.h\<close> and the assignment specify, true for a successful deletion and
  false if the key was not found: this theorem states what the code does.
\<close>

theorem kv_delete_refines:
  assumes "kvrel s U A Q" and "is_key s key x"
  shows "\<exists>t. kv_delete key s = Some (if x \<in> dom A then 0 else 1, t) \<and> kvrel t U (A(x := None)) (remove1 x Q) \<and> kbytes t = kbytes s"
proof -
  obtain g H where G: "kvinv s g U H" "A = kvmap s g" "Q = recent s g" using assms(1) unfolding kvrel_def by blast
  obtain r s1 g1 where S: "delLRUCache key s = Some (r, s1)" "kvinv s1 g1 U H" "kvmap s1 g1 = kvmap s g" "recent s1 g1 = remove1 x (recent s g)" "kbytes s1 = kbytes s"
    by (rule delLRUCache_inv [OF G(1) assms(2)]) (rule that; assumption)
  have k: "is_key s1 key x" using assms(2) S(5) by (simp add: is_key_def)
  have "distinct (recent s g)" by (rule recent_distinct [OF kvinvD(2) [OF G(1)]])
  then have x: "x \<notin> set (recent s1 g1)" unfolding S(4) by simp
  obtain t g' H' where T: "delKVHashTab key s1 = Some (if x \<in> dom (kvmap s1 g1) then 0 else 1, t)" "kvinv t g' U H'" "kvmap t g' = (kvmap s1 g1)(x := None)"
      "recent t g' = recent s1 g1" "kbytes t = kbytes s1"
    by (rule delKVHashTab_inv [OF S(2) k x]) (rule that; assumption)
  have "kvrel t U (A(x := None)) (remove1 x Q)" unfolding kvrel_def using T(2-4) S(3,4) G(2,3) by metis
  then show ?thesis using S(1,3,5) T(1,5) G(2) by (simp add: kv_delete_def)
qed

theorem kv_delete_refines_witness: "\<exists>s V t. kvrel s V [[107] \<mapsto> [118]] [[107]] \<and> kv_delete 0x100 s = Some (0, t) \<and> kvrel t V Map.empty []"
proof -
  obtain s V where S: "kvrel s V [[107] \<mapsto> [118]] [[107]]" "is_key s 0x100 [107]" "kbytes s 0x200 = 118" by (rule kvs_one)
  show ?thesis using kv_delete_refines [OF S(1,2)] S(1) by auto
qed

text \<open>
  C17. After \<^verbatim>\<open>kv_get\<close> of a cached key that was not the most recent one, \<^verbatim>\<open>kv_reset\<close> never returns: \<^verbatim>\<open>movLRUCache\<close> leaves the
  entry it moves to the end with the link it had, so the cache is a cycle from there on.
\<close>

theorem kv_reset_hangs:
  assumes "kvshape s g" and "is_key s key x" and "x \<in> set (recent s g)" and "x \<noteq> last (recent s g)"
  shows "\<exists>v t. kv_get key s = Some (v, t) \<and> kv_reset t = None"
proof -
  obtain t es where T: "getLRUCache key s = Some (if x \<in> set (recent s g) then tailLRU t else 0, t)" "kvshape t (g\<lparr>gE := es\<rparr>)"
      "x \<in> set (recent s g) \<Longrightarrow> es \<noteq> [] \<and> tailLRU t = last es \<and> estr s g (last es) = x"
      "x \<in> set (recent s g) \<Longrightarrow> x \<noteq> last (recent s g) \<Longrightarrow> enext t (last es) \<in> set es"
    by (rule getLRUCache_ok [OF assms(1,2)]) (rule that; assumption)
  have e: "es \<noteq> []" "tailLRU t = last es" "enext t (last es) \<in> set es" using T(3,4) assms(3,4) by simp_all
  have "kv_reset t = None" by (rule kv_reset_loops [OF T(2)]) (use e in simp_all)
  moreover have "tailLRU t \<noteq> 0" using cache_okD(3) [OF kvshapeD(3) [OF T(2)]] e(2) last_in_set [OF e(1)] by auto
  then have "\<exists>v. kv_get key s = Some (v, t)" using T(1) assms(3) by (simp add: kv_get_def)
  ultimately show ?thesis by blast
qed

theorem kv_reset_hangs_witness: "\<exists>v t. kv_get 0x100 kvs2 = Some (v, t) \<and> kv_reset t = None"
  using kv_reset_hangs [OF kvs2_shape(1,2)] kvs2_shape(3) by simp

end
