(* ===== verification/Futures.thy ===== *)
theory Futures
  imports Kernel_Frame
begin

text \<open>
  Futures, \<^verbatim>\<open>system/future.c\<close> and \<^verbatim>\<open>include/future.h\<close>: cells that one process sets and another gets, in three modes.

  The structures of the three types live in three maps from addresses. \<^verbatim>\<open>future_get\<close> and \<^verbatim>\<open>future_set\<close> lose the processor
  in \<^verbatim>\<open>suspend\<close> and may lose it in \<^verbatim>\<open>resume\<close>; they run up to there and give the continuation with which the process
  goes on when it runs again. A null pointer that the code follows gives \<^term>\<open>None\<close>; the address with which \<^verbatim>\<open>getmem\<close>
  reports failure is written to where the code does not test for it.
\<close>

section \<open>Data\<close>

record qnode_t =
  qn_pid :: pid32
  qn_next :: uint32
  qn_prev :: uint32

record queue_t =
  q_head :: uint32
  q_tail :: uint32

datatype future_state_t = FUTURE_EMPTY | FUTURE_WAITING | FUTURE_READY

text \<open>The modes are numbers: a call may be made with one that the type does not name.\<close>

definition FUTURE_EXCLUSIVE :: int where "FUTURE_EXCLUSIVE = 0"
definition FUTURE_SHARED :: int where "FUTURE_SHARED = 1"
definition FUTURE_QUEUE :: int where "FUTURE_QUEUE = 2"

record future_t =
  f_value :: int
  f_state :: future_state_t
  f_mode :: int
  f_pid :: pid32
  f_set_queue :: uint32
  f_get_queue :: uint32

record futsys =
  fk :: kstate
  fut :: "uint32 \<Rightarrow> future_t"
  fqs :: "uint32 \<Rightarrow> queue_t"
  fns :: "uint32 \<Rightarrow> qnode_t"

abbreviation upd_fut :: "uint32 \<Rightarrow> (future_t \<Rightarrow> future_t) \<Rightarrow> futsys \<Rightarrow> futsys" where
  "upd_fut a g s \<equiv> s\<lparr>fut := (fut s)(a := g (fut s a))\<rparr>"

abbreviation upd_fq :: "uint32 \<Rightarrow> (queue_t \<Rightarrow> queue_t) \<Rightarrow> futsys \<Rightarrow> futsys" where
  "upd_fq a g s \<equiv> s\<lparr>fqs := (fqs s)(a := g (fqs s a))\<rparr>"

abbreviation upd_fn :: "uint32 \<Rightarrow> (qnode_t \<Rightarrow> qnode_t) \<Rightarrow> futsys \<Rightarrow> futsys" where
  "upd_fn a g s \<equiv> s\<lparr>fns := (fns s)(a := g (fns s a))\<rparr>"

text \<open>Calls of the kernel as the futures make them.\<close>

definition fut_getmem :: "uint32 \<Rightarrow> futsys \<Rightarrow> (uint32 \<times> futsys) option" where
  "fut_getmem n s = do { (a, m) \<leftarrow> getmem n (kmem (fk s)); Some (a, s\<lparr>fk := (fk s)\<lparr>kmem := m\<rparr>\<rparr>) }"

definition fut_freemem :: "uint32 \<Rightarrow> uint32 \<Rightarrow> futsys \<Rightarrow> futsys option" where
  "fut_freemem a n s = do { (_, m) \<leftarrow> freemem a n (kmem (fk s)); Some (s\<lparr>fk := (fk s)\<lparr>kmem := m\<rparr>\<rparr>) }"

section \<open>Queues of processes\<close>

definition newNode :: "pid32 \<Rightarrow> futsys \<Rightarrow> (uint32 \<times> futsys) option" where
  "newNode pid s = do {
     (new_node, s1) \<leftarrow> fut_getmem 12 s;
     Some (new_node, upd_fn new_node (\<lambda>_. \<lparr>qn_pid = pid, qn_next = 0, qn_prev = 0\<rparr>) s1) }"

definition freeNode :: "uint32 \<Rightarrow> futsys \<Rightarrow> futsys option" where
  "freeNode node s = fut_freemem node 12 s"

definition initial_queue :: "futsys \<Rightarrow> (uint32 \<times> futsys) option" where
  "initial_queue s = do {
     (q, s1) \<leftarrow> fut_getmem 8 s;
     Some (q, upd_fq q (\<lambda>_. \<lparr>q_head = 0, q_tail = 0\<rparr>) s1) }"

definition is_empty :: "uint32 \<Rightarrow> futsys \<Rightarrow> int" where
  "is_empty q s = (if q_head (fqs s q) = 0 then 1 else 0)"

definition fenqueue :: "uint32 \<Rightarrow> pid32 \<Rightarrow> futsys \<Rightarrow> futsys option" where
  "fenqueue q pid s = do {
     (node, s1) \<leftarrow> newNode pid s;
     let s2 = upd_fn node (\<lambda>e. e\<lparr>qn_next := 0, qn_prev := q_tail (fqs s1 q)\<rparr>) s1;
     let s3 = (if q_tail (fqs s2 q) \<noteq> 0 then upd_fn (q_tail (fqs s2 q)) (\<lambda>e. e\<lparr>qn_next := node\<rparr>) s2 else s2);
     let s4 = upd_fq q (\<lambda>e. e\<lparr>q_tail := node\<rparr>) s3;
     Some (if q_head (fqs s4 q) = 0 then upd_fq q (\<lambda>e. e\<lparr>q_head := node\<rparr>) s4 else s4) }"

definition fdequeue :: "uint32 \<Rightarrow> futsys \<Rightarrow> (pid32 \<times> futsys) option" where
  "fdequeue q s =
    (let node = q_head (fqs s q) in
     if node = 0 then None
     else do {
       let pid = qn_pid (fns s node);
       let s1 = upd_fq q (\<lambda>e. e\<lparr>q_head := qn_next (fns s node)\<rparr>) s;
       let s2 = (if q_head (fqs s1 q) \<noteq> 0 then upd_fn (q_head (fqs s1 q)) (\<lambda>e. e\<lparr>qn_prev := 0\<rparr>) s1 else s1);
       let s3 = (if q_head (fqs s2 q) = 0 then upd_fq q (\<lambda>e. e\<lparr>q_tail := 0\<rparr>) s2 else s2);
       s4 \<leftarrow> freeNode node s3;
       Some (pid, s4) })"

section \<open>Allocation\<close>

text \<open>A future takes 24 bytes of the heap, with enumerations of one byte or of four.\<close>

definition future_alloc :: "int \<Rightarrow> futsys \<Rightarrow> (uint32 \<times> futsys) option" where
  "future_alloc mode s = do {
     (addr, s1) \<leftarrow> fut_getmem 24 s;
     if addr \<noteq> SYSERR_PTR then do {
       let s2 = upd_fut addr (\<lambda>e. e\<lparr>f_state := FUTURE_EMPTY, f_mode := mode\<rparr>) s1;
       (q1, s3) \<leftarrow> initial_queue s2;
       let s4 = upd_fut addr (\<lambda>e. e\<lparr>f_set_queue := q1\<rparr>) s3;
       (q2, s5) \<leftarrow> initial_queue s4;
       Some (addr, upd_fut addr (\<lambda>e. e\<lparr>f_get_queue := q2\<rparr>) s5) }
     else Some (0, s1) }"

definition future_free :: "uint32 \<Rightarrow> futsys \<Rightarrow> (int \<times> futsys) option" where
  "future_free f s = do { s1 \<leftarrow> fut_freemem f 24 s; Some (OK, s1) }"

section \<open>Getting and setting\<close>

text \<open>Where a process goes on that has lost the processor, and how a call ends: with its status and the value it got.\<close>

datatype fkont = GetExclusive uint32 | GetShared uint32 | GetQueue uint32 | GetQueueEnd uint32 | SetShared uint32 | SetQueue uint32 int

datatype fres = Done int "int option" | Pause fkont

definition fut_suspend :: "pid32 \<Rightarrow> fkont \<Rightarrow> (futsys \<Rightarrow> (fres \<times> futsys) option) \<Rightarrow> futsys \<Rightarrow> (fres \<times> futsys) option" where
  "fut_suspend pid k c s = do {
     (r, t) \<leftarrow> suspend pid (fk s);
     if r = Blocked then Some (Pause k, s\<lparr>fk := t\<rparr>) else c (s\<lparr>fk := t\<rparr>) }"

definition get_exclusive_cont :: "uint32 \<Rightarrow> futsys \<Rightarrow> (fres \<times> futsys) option" where
  "get_exclusive_cont f s =
    (if f_state (fut s f) = FUTURE_READY
     then Some (Done OK (Some (f_value (fut s f))), upd_fut f (\<lambda>e. e\<lparr>f_state := FUTURE_EMPTY\<rparr>) s)
     else Some (Done SYSERR None, s))"

definition get_shared_cont :: "uint32 \<Rightarrow> futsys \<Rightarrow> (fres \<times> futsys) option" where
  "get_shared_cont f s =
    Some (Done OK (Some (f_value (fut s f))),
      if is_empty (f_get_queue (fut s f)) s = 1 then upd_fut f (\<lambda>e. e\<lparr>f_state := FUTURE_EMPTY\<rparr>) s else s)"

definition get_queue_end :: "uint32 \<Rightarrow> futsys \<Rightarrow> (fres \<times> futsys) option" where
  "get_queue_end f s = Some (Done OK (Some (f_value (fut s f))), upd_fut f (\<lambda>e. e\<lparr>f_state := FUTURE_EMPTY\<rparr>) s)"

definition get_queue_cont :: "uint32 \<Rightarrow> futsys \<Rightarrow> (fres \<times> futsys) option" where
  "get_queue_cont f s =
    (if f_state (fut s f) = FUTURE_EMPTY then do {
       let pid = getpid (fk s);
       s1 \<leftarrow> fenqueue (f_get_queue (fut s f)) pid s;
       fut_suspend pid (GetQueueEnd f) (get_queue_end f) s1 }
     else get_queue_end f s)"

definition future_get :: "uint32 \<Rightarrow> futsys \<Rightarrow> (fres \<times> futsys) option" where
  "future_get f s =
    (if f_mode (fut s f) = FUTURE_EXCLUSIVE then
       (if f_state (fut s f) = FUTURE_EMPTY then
          let pid = getpid (fk s);
              s1 = upd_fut f (\<lambda>e. e\<lparr>f_pid := pid, f_state := FUTURE_WAITING\<rparr>) s
          in fut_suspend pid (GetExclusive f) (get_exclusive_cont f) s1
        else get_exclusive_cont f s)
     else if f_mode (fut s f) = FUTURE_SHARED then
       (if f_state (fut s f) \<noteq> FUTURE_READY then do {
          let s1 = upd_fut f (\<lambda>e. e\<lparr>f_state := FUTURE_WAITING\<rparr>) s;
          let pid = getpid (fk s);
          s2 \<leftarrow> fenqueue (f_get_queue (fut s1 f)) pid s1;
          fut_suspend pid (GetShared f) (get_shared_cont f) s2 }
        else get_shared_cont f s)
     else if f_mode (fut s f) = FUTURE_QUEUE then
       (if is_empty (f_set_queue (fut s f)) s = 0 then do {
          (pid, s1) \<leftarrow> fdequeue (f_set_queue (fut s f)) s;
          (_, t) \<leftarrow> resume pid (fk s1);
          if currpid t = currpid (fk s1) then get_queue_cont f (s1\<lparr>fk := t\<rparr>) else Some (Pause (GetQueue f), s1\<lparr>fk := t\<rparr>) }
        else get_queue_cont f s)
     else Some (Done SYSERR None, s))"

text \<open>The loop of \<^verbatim>\<open>future_set\<close> that resumes all readers of a shared future, and the end of the call on a queue.\<close>

partial_function (option) set_shared_loop :: "uint32 \<Rightarrow> futsys \<Rightarrow> (fres \<times> futsys) option" where
  "set_shared_loop f s =
    (if is_empty (f_get_queue (fut s f)) s = 0 then do {
       (pid, s1) \<leftarrow> fdequeue (f_get_queue (fut s f)) s;
       (_, t) \<leftarrow> resume pid (fk s1);
       if currpid t = currpid (fk s1) then set_shared_loop f (s1\<lparr>fk := t\<rparr>) else Some (Pause (SetShared f), s1\<lparr>fk := t\<rparr>) }
     else Some (Done OK None, s))"

definition set_queue_cont :: "uint32 \<Rightarrow> int \<Rightarrow> futsys \<Rightarrow> (fres \<times> futsys) option" where
  "set_queue_cont f v s = do {
     let s1 = upd_fut f (\<lambda>e. e\<lparr>f_value := v, f_state := FUTURE_READY\<rparr>) s;
     (pid, s2) \<leftarrow> fdequeue (f_get_queue (fut s1 f)) s1;
     (_, t) \<leftarrow> resume pid (fk s2);
     Some (Done OK None, s2\<lparr>fk := t\<rparr>) }"

definition future_set :: "uint32 \<Rightarrow> int \<Rightarrow> futsys \<Rightarrow> (fres \<times> futsys) option" where
  "future_set f v s =
    (if f_mode (fut s f) = FUTURE_EXCLUSIVE then
       (if f_state (fut s f) = FUTURE_EMPTY then
          Some (Done OK None, upd_fut f (\<lambda>e. e\<lparr>f_value := v, f_state := FUTURE_READY\<rparr>) s)
        else if f_state (fut s f) = FUTURE_WAITING then do {
          let s1 = upd_fut f (\<lambda>e. e\<lparr>f_value := v, f_state := FUTURE_READY\<rparr>) s;
          (_, t) \<leftarrow> resume (f_pid (fut s1 f)) (fk s1);
          Some (Done OK None, s1\<lparr>fk := t\<rparr>) }
        else Some (Done SYSERR None, s))
     else if f_mode (fut s f) = FUTURE_SHARED then
       (if f_state (fut s f) \<noteq> FUTURE_READY
        then set_shared_loop f (upd_fut f (\<lambda>e. e\<lparr>f_value := v, f_state := FUTURE_READY\<rparr>) s)
        else Some (Done SYSERR None, s))
     else if f_mode (fut s f) = FUTURE_QUEUE then
       (if is_empty (f_get_queue (fut s f)) s = 1 then do {
          let pid = getpid (fk s);
          s1 \<leftarrow> fenqueue (f_set_queue (fut s f)) pid s;
          fut_suspend pid (SetQueue f v) (set_queue_cont f v) s1 }
        else set_queue_cont f v s)
     else Some (Done SYSERR None, s))"

definition future_run :: "fkont \<Rightarrow> futsys \<Rightarrow> (fres \<times> futsys) option" where
  "future_run k s =
    (case k of GetExclusive f \<Rightarrow> get_exclusive_cont f s | GetShared f \<Rightarrow> get_shared_cont f s
     | GetQueue f \<Rightarrow> get_queue_cont f s | GetQueueEnd f \<Rightarrow> get_queue_end f s
     | SetShared f \<Rightarrow> set_shared_loop f s | SetQueue f v \<Rightarrow> set_queue_cont f v s)"


section \<open>The queues are first-in first-out\<close>

primrec fpath :: "(uint32 \<Rightarrow> qnode_t) \<Rightarrow> uint32 \<Rightarrow> uint32 list \<Rightarrow> bool" where
  "fpath ns h [] \<longleftrightarrow> h = 0"
| "fpath ns h (a # as) \<longleftrightarrow> h = a \<and> a \<noteq> 0 \<and> fpath ns (qn_next (ns a)) as"

lemma fpath_cong: "(\<And>a. a \<in> set as \<Longrightarrow> qn_next (ns' a) = qn_next (ns a)) \<Longrightarrow> fpath ns' h as = fpath ns h as"
  by (induction as arbitrary: h) auto

lemma fpath_snoc:
  assumes "fpath ns h as" "distinct as" "b \<notin> set as" "b \<noteq> 0" "as \<noteq> []" "qn_next (ns' (last as)) = b" "qn_next (ns' b) = 0"
    "\<And>a. a \<in> set (butlast as) \<Longrightarrow> qn_next (ns' a) = qn_next (ns a)"
  shows "fpath ns' h (as @ [b])"
  using assms
proof (induction as arbitrary: h)
  case (Cons a as)
  show ?case
  proof (cases "as = []")
    case True
    then show ?thesis using Cons.prems by simp
  next
    case False
    have "fpath ns' (qn_next (ns a)) (as @ [b])" by (rule Cons.IH) (use Cons.prems False in auto)
    moreover have "qn_next (ns' a) = qn_next (ns a)" using Cons.prems(8) [of a] False by simp
    ultimately show ?thesis using Cons.prems(1) by simp
  qed
qed simp

text \<open>
  The nodes \<open>A\<close> are blocks of the heap in use, apart from one another. \<open>futq s Q N\<close>: each queue of \<open>Q\<close> links its nodes \<open>N q\<close>.
\<close>

definition nspan :: "uint32 \<Rightarrow> nat set" where
  "nspan a = {unat a..<unat a + 16}"

definition nodes_held :: "memstate \<Rightarrow> uint32 set \<Rightarrow> bool" where
  "nodes_held m A \<longleftrightarrow> (\<exists>bs. heap_ok m bs \<and>
    (\<forall>a\<in>A. minheap m \<le> a \<and> unat a + 16 \<le> unat (maxheap m) \<and> nspan a \<inter> free_bytes bs = {}) \<and>
    (\<forall>a\<in>A. \<forall>b\<in>A. a \<noteq> b \<longrightarrow> nspan a \<inter> nspan b = {}))"

definition futq :: "futsys \<Rightarrow> uint32 set \<Rightarrow> (uint32 \<Rightarrow> uint32 list) \<Rightarrow> bool" where
  "futq s Q N \<longleftrightarrow> nodes_held (kmem (fk s)) (\<Union>q\<in>Q. set (N q)) \<and>
    (\<forall>q\<in>Q. fpath (fns s) (q_head (fqs s q)) (N q) \<and> q_tail (fqs s q) = (if N q = [] then 0 else last (N q)) \<and> distinct (N q)) \<and>
    (\<forall>q\<in>Q. \<forall>q'\<in>Q. q \<noteq> q' \<longrightarrow> set (N q) \<inter> set (N q') = {})"

text \<open>The queues of \<open>Q\<close> hold the processes \<open>L q\<close>, first one first.\<close>

definition fifos :: "uint32 set \<Rightarrow> futsys \<Rightarrow> (uint32 \<Rightarrow> pid32 list) \<Rightarrow> bool" where
  "fifos Q s L \<longleftrightarrow> (\<exists>N. futq s Q N \<and> (\<forall>q\<in>Q. L q = map (\<lambda>a. qn_pid (fns s a)) (N q)))"

definition node_room :: "futsys \<Rightarrow> bool" where
  "node_room s \<longleftrightarrow> (\<exists>bs. heap_ok (kmem (fk s)) bs \<and> (\<exists>(a, l)\<in>set bs. 16 \<le> unat l))"

lemma futqD:
  assumes "futq s Q N" "q \<in> Q"
  shows "fpath (fns s) (q_head (fqs s q)) (N q)" "q_tail (fqs s q) = (if N q = [] then 0 else last (N q))" "distinct (N q)"
    "\<And>q'. q' \<in> Q \<Longrightarrow> q' \<noteq> q \<Longrightarrow> set (N q') \<inter> set (N q) = {}" "nodes_held (kmem (fk s)) (\<Union>q\<in>Q. set (N q))" "q_head (fqs s q) = (if N q = [] then 0 else hd (N q))"
    "0 \<notin> set (N q)"
proof -
  show f: "fpath (fns s) (q_head (fqs s q)) (N q)" "q_tail (fqs s q) = (if N q = [] then 0 else last (N q))" "distinct (N q)"
    "\<And>q'. q' \<in> Q \<Longrightarrow> q' \<noteq> q \<Longrightarrow> set (N q') \<inter> set (N q) = {}" "nodes_held (kmem (fk s)) (\<Union>q\<in>Q. set (N q))"
    using assms unfolding futq_def by blast+
  show "q_head (fqs s q) = (if N q = [] then 0 else hd (N q))" using f(1) by (cases "N q") auto
  have "0 \<notin> set as" if "fpath ns h as" for ns h as using that by (induction as arbitrary: h) auto
  then show "0 \<notin> set (N q)" using f(1) by blast
qed

lemma is_empty_fifos: "fifos Q s L \<Longrightarrow> q \<in> Q \<Longrightarrow> is_empty q s = (if L q = [] then 1 else 0)"
  unfolding fifos_def is_empty_def using futqD(6,7) by (metis (no_types, lifting) hd_in_set list.map_disc_iff)

subsection \<open>Taking and giving back a node\<close>

lemma node_size: "reqsize 12 = 16" "(12 :: uint32) \<noteq> 0" "unat (12 :: uint32) \<le> 2 ^ 32 - 8"
  by (simp_all add: reqsize_def)

lemma nspan_ne: "nspan a \<noteq> {}" "unat a \<in> nspan a"
  by (auto simp: nspan_def)

lemma take_node:
  assumes I: "nodes_held m A" and r: "heap_ok m bs" "(c, l) \<in> set bs" "16 \<le> unat l"
  obtains a m' where "getmem 12 m = Some (a, m')" "nodes_held m' (insert a A)" "a \<notin> A" "a \<noteq> 0"
proof -
  have B: "minheap m \<le> a" "unat a + 16 \<le> unat (maxheap m)" "nspan a \<inter> free_bytes bs = {}" "\<And>b. b \<in> A \<Longrightarrow> a \<noteq> b \<Longrightarrow> nspan a \<inter> nspan b = {}"
    if "a \<in> A" for a using I heap_ok_unique [OF r(1)] that unfolding nodes_held_def by blast+
  have rq: "reqsize 12 \<le> unat l" using r(3) node_size(1) by simp
  obtain a m' bs' where M: "getmem 12 m = Some (a, m')" "heap_ok m' bs'" "{unat a..<unat a + reqsize 12} \<subseteq> free_bytes bs"
      "free_bytes bs' = free_bytes bs - {unat a..<unat a + reqsize 12}" "minheap m' = minheap m" "maxheap m' = maxheap m"
      "minheap m \<le> a" "unat a + reqsize 12 \<le> unat (maxheap m)" "a \<noteq> 0"
    by (rule getmem_block [OF r(1) node_size(2,3) r(2) rq]) (rule that; assumption)
  have s: "nspan a \<subseteq> free_bytes bs" "nspan a \<inter> free_bytes bs' = {}" "free_bytes bs' \<subseteq> free_bytes bs" using M(3,4) by (auto simp: nspan_def node_size(1))
  have n: "a \<notin> A" using B(3) s(1) nspan_ne by blast
  have "nspan b \<inter> free_bytes bs' = {}" if "b \<in> insert a A" for b using B(3) s that by blast
  then have "\<forall>b\<in>insert a A. minheap m' \<le> b \<and> unat b + 16 \<le> unat (maxheap m') \<and> nspan b \<inter> free_bytes bs' = {}"
    using B(1,2) M(5-8) by (auto simp: node_size(1))
  moreover have "\<forall>b\<in>insert a A. \<forall>b'\<in>insert a A. b \<noteq> b' \<longrightarrow> nspan b \<inter> nspan b' = {}" using B(3,4) s(1) by blast
  ultimately have "nodes_held m' (insert a A)" using M(2) unfolding nodes_held_def by blast
  then show thesis using that M(1,9) n by blast
qed

text \<open>Free blocks do not touch, so free bytes in a row lie in one of them.\<close>

lemma free_run:
  assumes "wf_blocks lo hi bs" "{x..<x + n} \<subseteq> free_bytes bs" "0 < n"
  shows "\<exists>(a, l)\<in>set bs. n \<le> unat l"
  using assms
proof (induction bs arbitrary: lo)
  case (Cons b bs)
  obtain a l where b: "b = (a, l)" by (cases b)
  have w: "wf_blocks (unat a + unat l + 1) hi bs" "free_bytes (b # bs) = extent a l \<union> free_bytes bs" using Cons.prems(1) b by (auto simp: free_bytes_def)
  have g: "free_bytes bs \<subseteq> {unat a + unat l + 1..<hi}" by (rule free_bytes_range [OF w(1)])
  show ?case
  proof (cases "x < unat a + unat l")
    case True
    have "unat a + unat l \<notin> extent a l \<union> free_bytes bs" using g by (auto simp: extent_def)
    then have "unat a + unat l \<notin> {x..<x + n}" using Cons.prems(2) unfolding w(2) by blast
    moreover have "x \<in> extent a l" using Cons.prems(2,3) w(2) g True by fastforce
    ultimately have "n \<le> unat l" using True by (auto simp: extent_def)
    then show ?thesis using b by auto
  next
    case False
    then have "{x..<x + n} \<subseteq> free_bytes bs" using Cons.prems(2) w(2) by (fastforce simp: extent_def)
    then show ?thesis using Cons.IH [OF w(1) _ Cons.prems(3)] by auto
  qed
qed (simp add: free_bytes_def)

lemma drop_node:
  assumes I: "nodes_held m A" and a: "a \<in> A"
  obtains m' r bs' where "freemem a 12 m = Some (r, m')" "nodes_held m' (A - {a})" "heap_ok m' bs'" "\<exists>(c, l)\<in>set bs'. 16 \<le> unat l"
proof -
  obtain bs where B: "heap_ok m bs" "\<forall>a\<in>A. minheap m \<le> a \<and> unat a + 16 \<le> unat (maxheap m) \<and> nspan a \<inter> free_bytes bs = {}"
      "\<forall>a\<in>A. \<forall>b\<in>A. a \<noteq> b \<longrightarrow> nspan a \<inter> nspan b = {}"
    using I unfolding nodes_held_def by blast
  have lo: "minheap m \<le> a" "unat a + reqsize 12 \<le> unat (maxheap m)" using B(2) a node_size(1) by auto
  note F = freemem_law [OF B(1) lo(1) node_size(2,3) lo(2)]
  have "{unat a..<unat a + reqsize 12} = nspan a" by (simp add: nspan_def node_size(1))
  then obtain m' bs' where M: "freemem a 12 m = Some (OK, m')" "heap_ok m' bs'" "free_bytes bs' = free_bytes bs \<union> nspan a" "minheap m' = minheap m" "maxheap m' = maxheap m"
    using F B(2) a by auto
  have "nspan b \<inter> free_bytes bs' = {}" if "b \<in> A - {a}" for b using B(2,3) a that unfolding M(3) by blast
  then have "\<forall>b\<in>A - {a}. minheap m' \<le> b \<and> unat b + 16 \<le> unat (maxheap m') \<and> nspan b \<inter> free_bytes bs' = {}"
    using B(2) M(4,5) by auto
  moreover have "\<forall>b\<in>A - {a}. \<forall>b'\<in>A - {a}. b \<noteq> b' \<longrightarrow> nspan b \<inter> nspan b' = {}" using B(3) by blast
  ultimately have "nodes_held m' (A - {a})" using M(2) unfolding nodes_held_def by blast
  moreover have "{unat a..<unat a + 16} \<subseteq> free_bytes bs'" using M(3) by (simp add: nspan_def)
  then have "\<exists>(c, l)\<in>set bs'. 16 \<le> unat l" by (rule free_run [OF heap_okD(2) [OF M(2)]]) simp
  ultimately show thesis using that M(1,2) by blast
qed

text \<open>The fields an operation on a queue leaves alone.\<close>

definition queue_frame :: "futsys \<Rightarrow> futsys \<Rightarrow> bool" where
  "queue_frame s t \<longleftrightarrow> fut t = fut s \<and> (\<exists>m. fk t = (fk s)\<lparr>kmem := m\<rparr>)"

lemma queue_frameD:
  assumes "queue_frame s t"
  shows "fut t = fut s" "kinv (fk s) \<Longrightarrow> kinv (fk t)" "currpid (fk t) = currpid (fk s)" "proctab (fk t) = proctab (fk s)" "kinv (fk s) \<Longrightarrow> readyq (fk t) = readyq (fk s)"
    "readylist (fk t) = readylist (fk s)"
proof -
  obtain m where m: "fk t = (fk s)\<lparr>kmem := m\<rparr>" "fut t = fut s" using assms unfolding queue_frame_def by blast
  show "fut t = fut s" "currpid (fk t) = currpid (fk s)" "proctab (fk t) = proctab (fk s)" "readylist (fk t) = readylist (fk s)" using m by simp_all
  show "kinv (fk t)" "readyq (fk t) = readyq (fk s)" if "kinv (fk s)" using kinv_upd_cong(1,2) [OF that, of "fk t"] m by simp_all
qed

lemma fenqueue_ok:
  assumes F: "fifos Q s L" and q: "q \<in> Q" and r: "node_room s"
  obtains t where "fenqueue q p s = Some t" "fifos Q t (L(q := L q @ [p]))" "queue_frame s t"
proof -
  obtain N where N: "futq s Q N" "\<forall>q\<in>Q. L q = map (\<lambda>a. qn_pid (fns s a)) (N q)" using F unfolding fifos_def by blast
  note D = futqD [OF N(1)]
  obtain bs c l where r': "heap_ok (kmem (fk s)) bs" "(c, l) \<in> set bs" "16 \<le> unat l" using r unfolding node_room_def by blast
  let ?A = "\<Union>q\<in>Q. set (N q)"
  obtain a m' where A: "getmem 12 (kmem (fk s)) = Some (a, m')" "nodes_held m' (insert a ?A)" "a \<notin> ?A" "a \<noteq> 0"
    by (rule take_node [OF D(5) [OF q] r']) (rule that; assumption)
  define ns where "ns = (let n1 = (fns s)(a := \<lparr>qn_pid = p, qn_next = 0, qn_prev = q_tail (fqs s q)\<rparr>) in
     if N q = [] then n1 else n1(last (N q) := (n1 (last (N q)))\<lparr>qn_next := a\<rparr>))"
  define t where "t = s\<lparr>fk := (fk s)\<lparr>kmem := m'\<rparr>, fns := ns, 
    fqs := (fqs s)(q := (if N q = [] then (fqs s q)\<lparr>q_tail := a, q_head := a\<rparr> else (fqs s q)\<lparr>q_tail := a\<rparr>))\<rparr>"
  have tl: "q_tail (fqs s q) = 0 \<longleftrightarrow> N q = []" "q_head (fqs s q) = 0 \<longleftrightarrow> N q = []" using D(2,6,7) [OF q] by (auto dest: last_in_set hd_in_set)
  have aN: "a \<notin> set (N q')" if "q' \<in> Q" for q' using A(3) that by blast
  have e: "fenqueue q p s = Some t"
  proof (cases "N q = []")
    case True
    then show ?thesis using A(1) tl by (cases s) (simp add: fenqueue_def newNode_def fut_getmem_def Let_def t_def ns_def)
  next
    case False
    then show ?thesis using A(1) tl D(2) [OF q] by (cases s) (simp add: fenqueue_def newNode_def fut_getmem_def Let_def t_def ns_def)
  qed
  let ?N = "N(q := N q @ [a])"
  have pid: "qn_pid (ns b) = (if b = a then p else qn_pid (fns s b))" for b using aN [OF q] by (auto simp: ns_def Let_def)
  have nx: "qn_next (ns b) = qn_next (fns s b)" if "b \<noteq> a" "N q = [] \<or> b \<noteq> last (N q)" for b using that by (auto simp: ns_def Let_def)
  have q1: "fpath ns (q_head (fqs t q)) (?N q) \<and> q_tail (fqs t q) = last (?N q) \<and> distinct (?N q)"
  proof (cases "N q = []")
    case True
    then show ?thesis using A(4) by (simp add: t_def ns_def)
  next
    case False
    have l: "last (N q) \<noteq> a" using aN [OF q] last_in_set [OF False] by auto
    have "fpath ns (q_head (fqs s q)) (N q @ [a])"
    proof (rule fpath_snoc [OF D(1,3) [OF q] aN [OF q] A(4) False])
      show "qn_next (ns (last (N q))) = a" "qn_next (ns a) = 0" using False l by (auto simp: ns_def Let_def)
      show "qn_next (ns b) = qn_next (fns s b)" if b: "b \<in> set (butlast (N q))" for b
      proof (rule nx)
        show "b \<noteq> a" using in_set_butlastD [OF b] aN [OF q] by auto
        have "distinct (butlast (N q) @ [last (N q)])" using D(3) [OF q] False by simp
        then show "N q = [] \<or> b \<noteq> last (N q)" using b by auto
      qed
    qed
    then show ?thesis using False D(3) [OF q] aN [OF q] by (simp add: t_def)
  qed
  have q2: "fpath ns (q_head (fqs t q')) (?N q') \<and> q_tail (fqs t q') = (if ?N q' = [] then 0 else last (?N q')) \<and> distinct (?N q')" if q': "q' \<in> Q" for q'
  proof (cases "q' = q")
    case True
    then show ?thesis using q1 by simp
  next
    case False
    have "b \<noteq> last (N q) \<or> N q = []" if "b \<in> set (N q')" for b using D(4) [OF q q' False] that last_in_set by fastforce
    then have "fpath ns (q_head (fqs s q')) (N q') = fpath (fns s) (q_head (fqs s q')) (N q')" using aN [OF q'] by (intro fpath_cong nx) auto
    then show ?thesis using False D(1-3) [OF q'] by (simp add: t_def)
  qed
  have "(\<Union>q\<in>Q. set (?N q)) = insert a ?A" using q by (auto split: if_splits)
  moreover have "kmem (fk t) = m'" "fns t = ns" by (simp_all add: t_def)
  moreover have "\<forall>q1\<in>Q. \<forall>q2\<in>Q. q1 \<noteq> q2 \<longrightarrow> set (?N q1) \<inter> set (?N q2) = {}" using D(4) aN by auto
  ultimately have "futq t Q ?N" unfolding futq_def using A(2) q2 by auto
  moreover have "\<forall>q'\<in>Q. (L(q := L q @ [p])) q' = map (\<lambda>b. qn_pid (fns t b)) (?N q')" using N(2) pid aN q by (auto simp: t_def)
  ultimately have "fifos Q t (L(q := L q @ [p]))" unfolding fifos_def by blast
  moreover have "queue_frame s t" by (auto simp: queue_frame_def t_def)
  ultimately show thesis using that e by blast
qed


lemma fdequeue_ok:
  assumes F: "fifos Q s L" and q: "q \<in> Q" and l: "L q = p # ps"
  obtains t where "fdequeue q s = Some (p, t)" "fifos Q t (L(q := ps))" "queue_frame s t" "node_room t"
proof -
  obtain N where N: "futq s Q N" "\<forall>q\<in>Q. L q = map (\<lambda>a. qn_pid (fns s a)) (N q)" using F unfolding fifos_def by blast
  note D = futqD [OF N(1)]
  have "L q = map (\<lambda>a. qn_pid (fns s a)) (N q)" using N(2) q by blast
  then obtain a as where as: "N q = a # as" "qn_pid (fns s a) = p" "ps = map (\<lambda>a. qn_pid (fns s a)) as" using l by (cases "N q") auto
  let ?A = "\<Union>q\<in>Q. set (N q)"
  have "a \<in> ?A" using q as(1) by (auto intro!: bexI [of _ q])
  then obtain m' r bs' where M: "freemem a 12 (kmem (fk s)) = Some (r, m')" "nodes_held m' (?A - {a})" "heap_ok m' bs'" "\<exists>(c, l)\<in>set bs'. 16 \<le> unat l"
    using drop_node [OF D(5) [OF q]] by metis
  have a: "a \<noteq> 0" "q_head (fqs s q) = a" "fpath (fns s) (qn_next (fns s a)) as" "a \<notin> set as" "distinct as" "0 \<notin> set as" using D(1,3,7) [OF q] as(1) by auto
  have h: "qn_next (fns s a) = (if as = [] then 0 else hd as)" using a(3) by (cases as) auto
  define ns where "ns = (if as = [] then fns s else (fns s)(hd as := (fns s (hd as))\<lparr>qn_prev := 0\<rparr>))"
  define t where "t = s\<lparr>fk := (fk s)\<lparr>kmem := m'\<rparr>, fns := ns,
    fqs := (fqs s)(q := (if as = [] then (fqs s q)\<lparr>q_head := 0, q_tail := 0\<rparr> else (fqs s q)\<lparr>q_head := hd as\<rparr>))\<rparr>"
  have e: "fdequeue q s = Some (p, t)"
  proof (cases "as = []")
    case True
    then show ?thesis using M(1) a(1,2) h as(2) by (cases s) (simp add: fdequeue_def freeNode_def fut_freemem_def Let_def t_def ns_def)
  next
    case False
    then have "hd as \<noteq> 0" using a(6) hd_in_set by metis
    then show ?thesis using M(1) a(1,2) h as(2) False by (cases s) (simp add: fdequeue_def freeNode_def fut_freemem_def Let_def t_def ns_def)
  qed
  have same: "qn_pid (ns b) = qn_pid (fns s b)" "qn_next (ns b) = qn_next (fns s b)" for b by (simp_all add: ns_def)
  then have fp: "fpath ns = fpath (fns s)" by (intro ext fpath_cong) auto
  let ?N = "N(q := as)"
  have q2: "fpath ns (q_head (fqs t q')) (?N q') \<and> q_tail (fqs t q') = (if ?N q' = [] then 0 else last (?N q')) \<and> distinct (?N q')" if q': "q' \<in> Q" for q'
    using D(1-3) [OF q'] a h as(1) unfolding fp by (auto simp: t_def)
  have "(\<Union>q\<in>Q. set (?N q)) = ?A - {a}" 
  proof -
    let ?R = "\<Union>q'\<in>Q - {q}. set (N q')"
    have "a \<notin> set (N q')" if "q' \<in> Q" "q' \<noteq> q" for q' using D(4) [OF q that] as(1) by auto
    then have "a \<notin> ?R" by blast
    moreover have "?A = insert a (set as \<union> ?R)" using q as(1) by (subst insert_Diff [OF q, symmetric]) auto
    moreover have "(\<Union>q\<in>Q. set (?N q)) = set as \<union> ?R" using q by (auto split: if_splits)
    ultimately show ?thesis using a(4) by auto
  qed
  moreover have "kmem (fk t) = m'" "fns t = ns" by (simp_all add: t_def)
  moreover have "\<forall>q1\<in>Q. \<forall>q2\<in>Q. q1 \<noteq> q2 \<longrightarrow> set (?N q1) \<inter> set (?N q2) = {}"
  proof (intro ballI impI)
    fix q1 q2 assume h: "q1 \<in> Q" "q2 \<in> Q" "q1 \<noteq> q2"
    have "set (?N x) \<subseteq> set (N x)" for x using as(1) by auto
    then show "set (?N q1) \<inter> set (?N q2) = {}" using D(4) [OF h(2) h(1) h(3)] by blast
  qed
  ultimately have "futq t Q ?N" unfolding futq_def using M(2) q2 by auto
  moreover have "\<forall>q'\<in>Q. (L(q := ps)) q' = map (\<lambda>b. qn_pid (fns t b)) (?N q')" using N(2) as(3) same by (simp add: t_def)
  ultimately have "fifos Q t (L(q := ps))" unfolding fifos_def by blast
  moreover have "queue_frame s t" by (auto simp: queue_frame_def t_def)
  moreover have "node_room t" using M(3,4) by (auto simp: node_room_def t_def)
  ultimately show thesis using that e by blast
qed

text \<open>Only the heap, the nodes and the queues count.\<close>

lemma fifos_cong: "kmem (fk t) = kmem (fk s) \<Longrightarrow> fqs t = fqs s \<Longrightarrow> fns t = fns s \<Longrightarrow> fifos Q t L = fifos Q s L"
  by (simp add: fifos_def futq_def)


subsection \<open>The queues as an interface\<close>

text \<open>
  What the futures rely on: a family of queues \<open>Q\<close>, each holding its elements in order. The state \<open>s\<close> holds the
  lists \<open>L\<close>; an element can be put in when there is \<open>room\<close>.
\<close>

locale fifo_family =
  fixes rep :: "'s \<Rightarrow> ('q \<Rightarrow> 'p list) \<Rightarrow> bool" and Q :: "'q set" and enq :: "'q \<Rightarrow> 'p \<Rightarrow> 's \<Rightarrow> 's option"
    and deq :: "'q \<Rightarrow> 's \<Rightarrow> ('p \<times> 's) option" and emp :: "'q \<Rightarrow> 's \<Rightarrow> bool" and room :: "'s \<Rightarrow> bool" and same :: "'s \<Rightarrow> 's \<Rightarrow> bool"
  assumes emp_law: "rep s L \<Longrightarrow> q \<in> Q \<Longrightarrow> emp q s \<longleftrightarrow> L q = []"
    and enq_law: "rep s L \<Longrightarrow> q \<in> Q \<Longrightarrow> room s \<Longrightarrow> \<exists>t. enq q p s = Some t \<and> rep t (L(q := L q @ [p])) \<and> same s t"
    and deq_law: "rep s L \<Longrightarrow> q \<in> Q \<Longrightarrow> L q = p # ps \<Longrightarrow> \<exists>t. deq q s = Some (p, t) \<and> rep t (L(q := ps)) \<and> same s t"
    and same_trans: "same s t \<Longrightarrow> same t u \<Longrightarrow> same s u"
begin

primrec drain :: "nat \<Rightarrow> 'q \<Rightarrow> 's \<Rightarrow> ('p list \<times> 's) option" where
  "drain 0 q s = Some ([], s)"
| "drain (Suc n) q s = do { (p, t) \<leftarrow> deq q s; (ps, u) \<leftarrow> drain n q t; Some (p # ps, u) }"

text \<open>Whoever is put in comes out behind exactly those who were in the queue.\<close>

lemma drain_order:
  assumes "rep s L" "q \<in> Q" "n \<le> length (L q)"
  shows "\<exists>t. drain n q s = Some (take n (L q), t) \<and> rep t (L(q := drop n (L q)))"
  using assms
proof (induction n arbitrary: s L)
  case (Suc n)
  then obtain p ps where l: "L q = p # ps" by (cases "L q") auto
  then obtain t where t: "deq q s = Some (p, t)" "rep t (L(q := ps))" using deq_law [OF Suc.prems(1,2) l] by blast
  have n: "n \<le> length ((L(q := ps)) q)" using Suc.prems(3) l by simp
  obtain u where u: "drain n q t = Some (take n ps, u)" "rep u ((L(q := ps))(q := drop n ps))"
    using Suc.IH [OF t(2) Suc.prems(2) n] unfolding fun_upd_same by blast
  then have "rep u (L(q := drop n ps))" by (simp only: fun_upd_upd)
  moreover have "drain (Suc n) q s = Some (take (Suc n) (L q), u)" using t(1) u(1) l by simp
  ultimately show ?case unfolding l drop_Suc_Cons by blast
qed simp

lemma enq_then_served:
  assumes "rep s L" "q \<in> Q" "room s"
  shows "\<exists>t u v. enq q p s = Some t \<and> drain (length (L q)) q t = Some (L q, u) \<and> deq q u = Some (p, v) \<and> rep v (L(q := []))"
proof -
  obtain t where t: "enq q p s = Some t" "rep t (L(q := L q @ [p]))" using enq_law [OF assms] by blast
  obtain u where u: "drain (length (L q)) q t = Some (L q, u)" "rep u ((L(q := L q @ [p]))(q := [p]))"
    using drain_order [OF t(2) assms(2), of "length (L q)"] unfolding fun_upd_same by auto
  have "\<exists>v. deq q u = Some (p, v) \<and> rep v (L(q := []))" using deq_law [OF u(2) assms(2), of p "[]"] unfolding fun_upd_same fun_upd_upd by blast
  then show ?thesis using t(1) u(1) by blast
qed

end

lemma queue_frame_trans: "queue_frame s t \<Longrightarrow> queue_frame t u \<Longrightarrow> queue_frame s u"
  by (auto simp: queue_frame_def)

interpretation fq: fifo_family "fifos Q" Q fenqueue fdequeue "\<lambda>q s. is_empty q s = 1" node_room queue_frame for Q
proof
  fix s L q p ps assume F: "fifos Q s L" and q: "q \<in> Q"
  show "is_empty q s = 1 \<longleftrightarrow> L q = []" using is_empty_fifos [OF F q] by simp
  show "\<exists>t. fenqueue q p s = Some t \<and> fifos Q t (L(q := L q @ [p])) \<and> queue_frame s t" if "node_room s" using fenqueue_ok [OF F q that] by metis
  show "\<exists>t. fdequeue q s = Some (p, t) \<and> fifos Q t (L(q := ps)) \<and> queue_frame s t" if "L q = p # ps" using fdequeue_ok [OF F q that] by metis
qed (rule queue_frame_trans)

end
