(* ===== verification/Future_Calls.thy ===== *)
theory Future_Calls
  imports Futures
begin

text \<open>
  What \<^verbatim>\<open>future_get\<close> and \<^verbatim>\<open>future_set\<close> do to the processes that wait for a future, in each of the three modes.
\<close>

section \<open>Resuming a process of lower priority\<close>

text \<open>The current process has a higher priority than every ready one.\<close>

definition leads :: "kstate \<Rightarrow> bool" where
  "leads k \<longleftrightarrow> (\<forall>y\<in>set (readyq k). prprio (proctab k y) < prprio (proctab k (currpid k)))"

lemma leads_top: "leads k \<Longrightarrow> top_prio k"
  by (force simp: leads_def top_prio_def)

lemma ready_iff:
  assumes "kinv k" "p \<in> pids"
  shows "p \<in> set (readyq k) \<longleftrightarrow> pst k p = PR_READY" "pst k p = PR_CURR \<longleftrightarrow> p = currpid k"
proof -
  note K = kinvD [OF assms(1)] and I = kinv_butD [OF kinvD(1) [OF assms(1)]]
  have "home k p = Some (readylist k) \<longleftrightarrow> pst k p = PR_READY"
    using wf_idsD(4,6) [OF I(2)] wf_procsD(4) [OF I(4) assms(2)] by (cases "pst k p") (auto simp: home_def)
  then show "p \<in> set (readyq k) \<longleftrightarrow> pst k p = PR_READY" using placedD [OF I(3) assms(2)] by simp
  show "pst k p = PR_CURR \<longleftrightarrow> p = currpid k" using wf_procsD(2) [OF I(4) assms(2)] K(2) by auto
qed

lemma runnable_iff: "kinv k \<Longrightarrow> p \<in> pids \<Longrightarrow> runnable (pst k p) \<longleftrightarrow> p \<in> set (readyq k) \<or> p = currpid k"
  using ready_iff [of k p] by (auto simp: runnable_def)

lemma curr_pids: "kinv k \<Longrightarrow> currpid k \<in> pids"
  using wf_procsD(1) [OF kinv_butD(4) [OF kinvD(1)]] .

lemma susp_not_null: "kinv k \<Longrightarrow> pst k p = PR_SUSP \<Longrightarrow> p \<noteq> NULLPROC"
  using wf_procsD(5) [OF kinv_butD(4) [OF kinvD(1)], of k] by auto

lemma resume_lower:
  assumes k: "kinv k" "sync k" "leads k" and p: "p \<in> pids" "pst k p = PR_SUSP" "prprio (proctab k p) < prprio (proctab k (currpid k))"
  obtains r t where "resume p k = Some (r, t)" "kinv t" "sync t" "leads t" "currpid t = currpid k" "pst t p = PR_READY" "sched_frame {p} k t"
proof -
  have nb: "\<not> isbadpid k p" using p(1,2) pids_notbad by simp
  obtain r t where T: "resume p k = Some (r, t)" "kinv t" "sync t" "top_prio t" "sched_frame {p} k t"
    using resume_ok [OF k(1), of p] k(2) leads_top [OF k(3)] nb p(2) by auto
  note F = sched_frameD [OF T(5)] and P = sched_frame_proc(1) [OF T(5)]
  have low: "prprio (proctab k y) < prprio (proctab k (currpid k))" if y: "y \<in> pids" "runnable (pst t y)" "y \<noteq> currpid k" for y
  proof (cases "y = p")
    case False
    then have "runnable (pst k y)" using F(16) [of y] y(2) by auto
    then show ?thesis using runnable_iff [OF k(1) y(1)] y(3) k(3) unfolding leads_def by blast
  qed (use p(3) in simp)
  have c: "currpid t = currpid k"
  proof (rule ccontr)
    assume ne: "currpid t \<noteq> currpid k"
    have "currpid k \<noteq> p" using p(2) kinvD(2) [OF k(1)] by auto
    then have "runnable (pst t (currpid k))" using F(16) [of "currpid k"] kinvD(2) [OF k(1)] by auto
    then have "currpid k \<in> set (readyq t)" using runnable_iff [OF T(2) curr_pids [OF k(1)]] ne by simp
    then have "prprio (proctab k (currpid k)) \<le> prprio (proctab k (currpid t))" using T(4) P unfolding top_prio_def by metis
    moreover have "prprio (proctab k (currpid t)) < prprio (proctab k (currpid k))" by (rule low [OF curr_pids [OF T(2)]]) (use kinvD(2) [OF T(2)] ne in auto)
    ultimately show False by simp
  qed
  have pt: "pst t p = PR_READY" using F(15) [of p] ready_iff(2) [OF T(2) p(1)] c p(2) kinvD(2) [OF k(1)] by (auto simp: runnable_def)
  have "leads t"
    unfolding leads_def c P
  proof
    fix y assume y: "y \<in> set (readyq t)"
    then have yp: "y \<in> pids" using qview_pids [OF kinv_butD(1) [OF kinvD(1) [OF T(2)]]] by blast
    have "runnable (pst t y)" "y \<noteq> currpid k" using ready_iff [OF T(2) yp] y c by (auto simp: runnable_def)
    then show "prprio (proctab k y) < prprio (proctab k (currpid k))" by (rule low [OF yp])
  qed
  then show thesis using that T(1-3,5) c pt by blast
qed


lemma resume_higher:
  assumes k: "kinv k" "sync k" "top_prio k" and p: "p \<in> pids" "pst k p = PR_SUSP" "prprio (proctab k (currpid k)) < prprio (proctab k p)"
  obtains r t where "resume p k = Some (r, t)" "kinv t" "currpid t = p" "sched_frame {p} k t"
proof -
  have nb: "\<not> isbadpid k p" using p(1,2) pids_notbad by simp
  obtain r t where T: "resume p k = Some (r, t)" "kinv t" "sync t" "top_prio t" "sched_frame {p} k t"
    using resume_ok [OF k(1), of p] k(2,3) nb p(2) by auto
  note F = sched_frameD [OF T(5)] and P = sched_frame_proc(1) [OF T(5)]
  have "currpid t = p"
  proof (rule ccontr)
    assume ne: "currpid t \<noteq> p"
    have "runnable (pst k (currpid t))" using F(16) [of "currpid t"] ne kinvD(2) [OF T(2)] by auto
    then have "currpid t \<in> set (readyq k) \<or> currpid t = currpid k" using runnable_iff [OF k(1) curr_pids [OF T(2)]] by simp
    then have "prprio (proctab k (currpid t)) \<le> prprio (proctab k (currpid k))" using k(3) unfolding top_prio_def by auto
    moreover have "p \<in> set (readyq t)" using runnable_iff [OF T(2) p(1)] F(15) [of p] ne by auto
    then have "prprio (proctab k p) \<le> prprio (proctab k (currpid t))" using T(4) P unfolding top_prio_def by metis
    ultimately show False using p(3) by simp
  qed
  then show thesis using that T(1,2,5) by blast
qed

lemma suspend_self:
  assumes k: "kinv k" "currpid k \<noteq> NULLPROC"
  obtains t where "suspend (currpid k) k = Some (Blocked, t)" "kinv t" "pst t (currpid k) = PR_SUSP" "currpid t \<noteq> currpid k" "kmem t = kmem k"
    "\<And>p. p \<noteq> currpid k \<Longrightarrow> pst t p = pst k p \<or> runnable (pst k p) \<and> runnable (pst t p)" "\<And>p. prprio (proctab t p) = prprio (proctab k p)"
proof -
  obtain t where T: "resched (set_prstate (currpid k) PR_SUSP k) = Some t" "kinv t" "pst t (currpid k) = PR_SUSP"
      "currpid t \<noteq> currpid k" "sched_frame {} (set_prstate (currpid k) PR_SUSP k) t"
    by (rule plain_block [OF k, of PR_SUSP]) blast+
  note F = sched_frameD [OF T(5)]
  have "\<not> isbadpid k (currpid k)" using pids_notbad [OF curr_pids [OF k(1)]] kinvD(2) [OF k(1)] by simp
  then have "suspend (currpid k) k = Some (Blocked, t)" using k(2) kinvD(2) [OF k(1)] T(1,4) by (simp add: suspend_def)
  moreover have "pst t p = pst k p \<or> runnable (pst k p) \<and> runnable (pst t p)" if "p \<noteq> currpid k" for p using F(16) [of p] that by simp
  ultimately show thesis using that T(2-4) F(11) sched_frame_proc(1) [OF T(5)] by (simp add: fun_upd_def)
qed

section \<open>Shared futures\<close>

text \<open>All readers in the queue are made ready, in order, before the writer goes on.\<close>

lemma set_shared_loop_ok:
  assumes "fifos Q s L" "f_get_queue (fut s f) \<in> Q" "L (f_get_queue (fut s f)) = ps" "distinct ps" "kinv (fk s)" "sync (fk s)" "leads (fk s)"
    "\<forall>p\<in>set ps. p \<in> pids \<and> pst (fk s) p = PR_SUSP \<and> prprio (proctab (fk s) p) < prprio (proctab (fk s) (currpid (fk s)))"
  shows "\<exists>t. set_shared_loop f s = Some (Done OK None, t) \<and> fifos Q t (L(f_get_queue (fut s f) := [])) \<and> fut t = fut s \<and> kinv (fk t) \<and>
    currpid (fk t) = currpid (fk s) \<and> (\<forall>p\<in>set ps. pst (fk t) p = PR_READY) \<and> (\<forall>p. p \<notin> set ps \<longrightarrow> runnable (pst (fk t) p) = runnable (pst (fk s) p))"
  using assms
proof (induction ps arbitrary: s L)
  case Nil
  then have "is_empty (f_get_queue (fut s f)) s = 1" using fq.emp_law by metis
  moreover have "L(f_get_queue (fut s f) := []) = L" using Nil.prems(3) by (metis fun_upd_triv)
  ultimately show ?case using Nil.prems by (subst set_shared_loop.simps) simp
next
  case (Cons p ps)
  let ?q = "f_get_queue (fut s f)" and ?k = "fk s"
  obtain s1 where S1: "fdequeue ?q s = Some (p, s1)" "fifos Q s1 (L(?q := ps))" "queue_frame s s1" using fq.deq_law [OF Cons.prems(1-3)] by blast
  note F1 = queue_frameD [OF S1(3)]
  have k1: "kinv (fk s1)" "sync (fk s1)" "leads (fk s1)"
    using F1 Cons.prems(5-7) S1(3) by (auto simp: sync_def leads_def queue_frame_def)
  have p: "p \<in> pids" "pst (fk s1) p = PR_SUSP" "prprio (proctab (fk s1) p) < prprio (proctab (fk s1) (currpid (fk s1)))" using Cons.prems(8) F1(3,4) by auto
  obtain r t where T: "resume p (fk s1) = Some (r, t)" "kinv t" "sync t" "leads t" "currpid t = currpid (fk s1)" "pst t p = PR_READY" "sched_frame {p} (fk s1) t"
    by (rule resume_lower [OF k1 p]) (rule that; assumption)
  note F = sched_frameD [OF T(7)] and P = sched_frame_proc(1) [OF T(7)]
  let ?s2 = "s1\<lparr>fk := t\<rparr>"
  have fu: "fut ?s2 = fut s" using F1(1) by simp
  have f2: "fifos Q ?s2 (L(?q := ps))" using fifos_cong [of ?s2 s1 Q] S1(2) F(11) by simp
  have rest: "\<forall>p'\<in>set ps. p' \<in> pids \<and> pst (fk ?s2) p' = PR_SUSP \<and> prprio (proctab (fk ?s2) p') < prprio (proctab (fk ?s2) (currpid (fk ?s2)))"
  proof
    fix p' assume p': "p' \<in> set ps"
    then have "p' \<noteq> p" using Cons.prems(4) by auto
    then have "pst t p' = PR_SUSP" using F(16) [of p'] Cons.prems(8) p' F1(4) by auto
    then show "p' \<in> pids \<and> pst (fk ?s2) p' = PR_SUSP \<and> prprio (proctab (fk ?s2) p') < prprio (proctab (fk ?s2) (currpid (fk ?s2)))"
      using Cons.prems(8) p' P T(5) F1(3,4) by simp
  qed
  have q2: "f_get_queue (fut ?s2 f) \<in> Q" "(L(?q := ps)) (f_get_queue (fut ?s2 f)) = ps" "distinct ps" using Cons.prems(2,4) F1(1) by simp_all
  have k2: "kinv (fk ?s2)" "sync (fk ?s2)" "leads (fk ?s2)" using T(2-4) by simp_all
  obtain u where U: "set_shared_loop f ?s2 = Some (Done OK None, u)" "fifos Q u ((L(?q := ps))(f_get_queue (fut ?s2 f) := []))" "fut u = fut ?s2" "kinv (fk u)"
      "currpid (fk u) = currpid (fk ?s2)" "\<forall>p\<in>set ps. pst (fk u) p = PR_READY" "\<forall>p. p \<notin> set ps \<longrightarrow> runnable (pst (fk u) p) = runnable (pst (fk ?s2) p)"
    using Cons.IH [OF f2 q2 k2 rest] by blast
  have "is_empty ?q s = 0" using is_empty_fifos [OF Cons.prems(1,2)] Cons.prems(3) by simp
  then have "set_shared_loop f s = Some (Done OK None, u)" using S1(1) T(1,5) U(1) by (subst set_shared_loop.simps) simp
  moreover have "fifos Q u (L(?q := []))" using U(2) unfolding fu fun_upd_upd .
  moreover have "runnable (pst (fk u) p)" using U(7) T(6) Cons.prems(4) by simp
  then have "pst (fk u) p = PR_READY" using ready_iff(2) [OF U(4) p(1)] U(5) T(5,6) kinvD(2) [OF k1(1)] p(2) by (auto simp: runnable_def)
  moreover have "runnable (pst (fk u) x) = runnable (pst ?k x)" if "x \<notin> set (p # ps)" for x
    using U(7) that F(16) [of x] F1(4) by auto
  ultimately show ?case using U(3-6) fu T(5) F1(3) by (auto simp del: fun_upd_apply)
qed


text \<open>
  C13. \<^verbatim>\<open>future_set\<close> on a shared future that has no value yet, by a process whose priority is above that of every ready process and
  of every waiting reader, stores the value, takes every waiting reader out of the queue and makes it ready, and goes on running. Each of
  these readers, when it runs again, returns with the value, provided that the value of the future is still that one: a value set before a
  reader runs replaces it (\<open>shared_overwritten\<close>).
\<close>

theorem future_shared_broadcast:
  assumes "f_mode (fut s f) = FUTURE_SHARED" and "f_state (fut s f) \<noteq> FUTURE_READY" and "fifos Q s L" and "f_get_queue (fut s f) \<in> Q"
    and "distinct (L (f_get_queue (fut s f)))" and "kinv (fk s)" and "sync (fk s)" and "leads (fk s)"
    and "\<forall>p\<in>set (L (f_get_queue (fut s f))). p \<in> pids \<and> pst (fk s) p = PR_SUSP \<and> prprio (proctab (fk s) p) < prprio (proctab (fk s) (currpid (fk s)))"
  shows "\<exists>t. future_set f v s = Some (Done OK None, t) \<and> kinv (fk t) \<and> currpid (fk t) = currpid (fk s) \<and>
    fifos Q t (L(f_get_queue (fut s f) := [])) \<and> (\<forall>p\<in>set (L (f_get_queue (fut s f))). pst (fk t) p = PR_READY) \<and>
    fut t = (fut s)(f := (fut s f)\<lparr>f_value := v, f_state := FUTURE_READY\<rparr>) \<and>
    (\<forall>u. f_value (fut u f) = f_value (fut t f) \<longrightarrow> (\<exists>w. get_shared_cont f u = Some (Done OK (Some v), w) \<and> f_value (fut w f) = v))"
proof -
  let ?s = "upd_fut f (\<lambda>e. e\<lparr>f_value := v, f_state := FUTURE_READY\<rparr>) s" and ?q = "f_get_queue (fut s f)"
  have q: "f_get_queue (fut ?s f) = ?q" by simp
  have "fifos Q ?s L" using fifos_cong [of ?s s Q] assms(3) by simp
  then obtain t where T: "set_shared_loop f ?s = Some (Done OK None, t)" "fifos Q t (L(?q := []))" "fut t = fut ?s" "kinv (fk t)"
      "currpid (fk t) = currpid (fk s)" "\<forall>p\<in>set (L ?q). pst (fk t) p = PR_READY"
    using set_shared_loop_ok [of Q ?s L f "L ?q", unfolded q] assms(4-9) by (auto simp del: fun_upd_apply)
  have "future_set f v s = Some (Done OK None, t)" using T(1) assms(1,2) by (simp add: future_set_def FUTURE_EXCLUSIVE_def FUTURE_SHARED_def)
  moreover have "\<exists>w. get_shared_cont f u = Some (Done OK (Some v), w) \<and> f_value (fut w f) = v" if "f_value (fut u f) = f_value (fut t f)" for u
    using that T(3) by (simp add: get_shared_cont_def)
  ultimately show ?thesis using T(2-6) by (auto simp del: fun_upd_apply)
qed

text \<open>A value set before the last reader has run replaces the one it was woken for.\<close>

lemma shared_overwritten:
  assumes "f_mode (fut s f) = FUTURE_SHARED" "fifos Q s L" "f_get_queue (fut s f) \<in> Q" "L (f_get_queue (fut s f)) = []"
  shows "\<exists>t u w. get_shared_cont f s = Some (Done OK (Some (f_value (fut s f))), t) \<and> future_set f v t = Some (Done OK None, u) \<and>
    get_shared_cont f u = Some (Done OK (Some v), w)"
proof -
  have e: "is_empty (f_get_queue (fut s f)) s = 1" using fq.emp_law [OF assms(2,3)] assms(4) by simp
  then have e': "q_head (fqs s (f_get_queue (fut s f))) = 0" by (simp add: is_empty_def split: if_splits)
  show ?thesis using assms(1) e e'
    by (simp add: get_shared_cont_def future_set_def FUTURE_EXCLUSIVE_def FUTURE_SHARED_def set_shared_loop.simps is_empty_def)
qed

section \<open>Futures with queues\<close>

text \<open>
  C14. \<^verbatim>\<open>future_get\<close> on an empty future with queues, by a process whose priority is above that of the first waiting writer and of every
  ready process, when no other reader waits, takes that writer out of its queue, makes it ready and waits in the other queue. When the writer
  goes on, with the future and its queues still in that state, it takes the reader out, resumes it and ends its call, and the reader
  returns with the value of that writer. A reader of lower priority than the writer does not get this far: there the writer
  finds the queue of the readers empty.
\<close>

theorem future_queue_rendezvous:
  fixes f s
  defines "sq \<equiv> f_set_queue (fut s f)" and "gq \<equiv> f_get_queue (fut s f)" and "c \<equiv> currpid (fk s)"
  assumes "f_mode (fut s f) = FUTURE_QUEUE" and "f_state (fut s f) = FUTURE_EMPTY" and "fifos {sq, gq} s L" and "sq \<noteq> gq"
    and "L sq = p # ps" and "L gq = []" and "kinv (fk s)" and "sync (fk s)" and "leads (fk s)" and "c \<noteq> NULLPROC"
    and "p \<in> pids" and "pst (fk s) p = PR_SUSP" and "prprio (proctab (fk s) p) < prprio (proctab (fk s) c)"
  shows "\<exists>t. future_get f s = Some (Pause (GetQueueEnd f), t) \<and> kinv (fk t) \<and> pst (fk t) c = PR_SUSP \<and> runnable (pst (fk t) p) \<and>
    fut t = fut s \<and> fifos {sq, gq} t (L(sq := ps, gq := [c])) \<and>
    (\<forall>u. fut u f = fut t f \<longrightarrow> fifos {sq, gq} u (L(sq := ps, gq := [c])) \<longrightarrow> kinv (fk u) \<longrightarrow> pst (fk u) c = PR_SUSP \<longrightarrow>
      (\<exists>w x. set_queue_cont f v u = Some (Done OK None, w) \<and> runnable (pst (fk w) c) \<and> fifos {sq, gq} w (L(sq := ps)) \<and>
        get_queue_end f w = Some (Done OK (Some v), x) \<and> f_state (fut x f) = FUTURE_EMPTY))"
proof -
  note A = assms(4-)
  have qin: "sq \<in> {sq, gq}" "gq \<in> {sq, gq}" by simp_all
  obtain s1 where S1: "fdequeue sq s = Some (p, s1)" "fifos {sq, gq} s1 (L(sq := ps))" "queue_frame s s1" "node_room s1"
    by (rule fdequeue_ok [OF A(3) qin(1) A(5)]) (rule that; assumption)
  note F1 = queue_frameD [OF S1(3)]
  have k1: "kinv (fk s1)" "sync (fk s1)" "leads (fk s1)" using F1 A(7-9) S1(3) by (auto simp: sync_def leads_def queue_frame_def)
  have p: "pst (fk s1) p = PR_SUSP" "prprio (proctab (fk s1) p) < prprio (proctab (fk s1) (currpid (fk s1)))" using A(12,13) F1(3,4) by (auto simp: c_def)
  obtain r k where T: "resume p (fk s1) = Some (r, k)" "kinv k" "currpid k = currpid (fk s1)" "pst k p = PR_READY" "sched_frame {p} (fk s1) k"
    by (rule resume_lower [OF k1 A(11) p]) (rule that; assumption)
  let ?s2 = "s1\<lparr>fk := k\<rparr>"
  have mk: "kmem k = kmem (fk s1)" by (rule sched_frameD(11) [OF T(5)])
  have f2: "fifos {sq, gq} ?s2 (L(sq := ps))" "node_room ?s2" using fifos_cong [of ?s2 s1] S1(2,4) mk by (simp_all add: node_room_def)
  obtain s3 where S3: "fenqueue gq c ?s2 = Some s3" "fifos {sq, gq} s3 ((L(sq := ps))(gq := (L(sq := ps)) gq @ [c]))" "queue_frame ?s2 s3"
    using fq.enq_law [OF f2(1) qin(2) f2(2)] by blast
  note F3 = queue_frameD [OF S3(3)]
  have k3: "kinv (fk s3)" "currpid (fk s3) = c" "currpid (fk s3) \<noteq> NULLPROC" using F3(2,3) T(2,3) F1(3) A(10) by (simp_all add: c_def)
  obtain k' where K: "suspend c (fk s3) = Some (Blocked, k')" "kinv k'" "pst k' c = PR_SUSP" "kmem k' = kmem (fk s3)"
      "\<And>p. p \<noteq> c \<Longrightarrow> pst k' p = pst (fk s3) p \<or> runnable (pst (fk s3) p) \<and> runnable (pst k' p)"
    by (rule suspend_self [OF k3(1,3), unfolded k3(2)]) (rule that; assumption)
  let ?t = "s3\<lparr>fk := k'\<rparr>"
  have l: "(L(sq := ps))(gq := (L(sq := ps)) gq @ [c]) = L(sq := ps, gq := [c])" using A(4,6) by simp
  have fu: "fut ?t = fut s" using F3(1) F1(1) by simp
  have "p \<noteq> c" using A(12) kinvD(2) [OF A(7)] by (auto simp: c_def)
  then have rp: "runnable (pst k' p)" using K(5) [of p] T(4) F3(4) by auto
  have ft: "fifos {sq, gq} ?t (L(sq := ps, gq := [c]))" using fifos_cong [of ?t s3] S3(2) K(4) unfolding l by simp
  have "is_empty sq s = 0" using is_empty_fifos [OF A(3), of sq] A(5) by simp
  then have g: "future_get f s = Some (Pause (GetQueueEnd f), ?t)"
    using A(1,2) S1(1) T(1,3) S3(1) K(1) F1(1) F3(1) T(3) F1(3)
    by (simp add: future_get_def get_queue_cont_def fut_suspend_def FUTURE_EXCLUSIVE_def FUTURE_SHARED_def FUTURE_QUEUE_def sq_def gq_def c_def getpid_def)
  have "\<exists>w x. set_queue_cont f v u = Some (Done OK None, w) \<and> runnable (pst (fk w) c) \<and> fifos {sq, gq} w (L(sq := ps)) \<and>
        get_queue_end f w = Some (Done OK (Some v), x) \<and> f_state (fut x f) = FUTURE_EMPTY"
    if u: "fut u f = fut ?t f" "fifos {sq, gq} u (L(sq := ps, gq := [c]))" "kinv (fk u)" "pst (fk u) c = PR_SUSP" for u
  proof -
    let ?u = "upd_fut f (\<lambda>e. e\<lparr>f_value := v, f_state := FUTURE_READY\<rparr>) u"
    have fq: "f_get_queue (fut u f) = gq" using u(1) fu by (simp add: gq_def)
    have "fifos {sq, gq} ?u (L(sq := ps, gq := [c]))" using fifos_cong [of ?u u] u(2) by simp
    then obtain u1 where U1: "fdequeue gq ?u = Some (c, u1)" "fifos {sq, gq} u1 ((L(sq := ps, gq := [c]))(gq := []))" "queue_frame ?u u1"
      using fq.deq_law [of "{sq, gq}" ?u "L(sq := ps, gq := [c])" gq c "[]"] by auto
    have l': "(L(sq := ps, gq := [c]))(gq := []) = L(sq := ps)" using A(4,6) by auto
    note FU = queue_frameD [OF U1(3)]
    have ku: "kinv (fk u1)" "pst (fk u1) c = PR_SUSP" using FU(2,4) u(3,4) by simp_all
    have "\<not> isbadpid (fk u1) c" using ku pids_notbad [OF curr_pids [OF A(7)]] by (simp add: c_def)
    then obtain r' k'' where R: "resume c (fk u1) = Some (r', k'')" "runnable (pst k'' c)" "sched_frame {c} (fk u1) k''" using resume_ok [OF ku(1), of c] ku(2) by auto
    let ?w = "u1\<lparr>fk := k''\<rparr>"
    have "set_queue_cont f v u = Some (Done OK None, ?w)" using U1(1) R(1) fq by (simp add: set_queue_cont_def)
    moreover have "fifos {sq, gq} ?w (L(sq := ps))" using fifos_cong [of ?w u1] U1(2) sched_frameD(11) [OF R(3)] unfolding l' by simp
    moreover have "f_value (fut ?w f) = v" using FU(1) by simp
    ultimately show ?thesis using R(2) by (simp add: get_queue_end_def)
  qed
  then show ?thesis using g K(2,3) rp fu ft by (intro exI [of _ ?t]) (auto simp del: fun_upd_apply)
qed


text \<open>
  C15. When the first waiting writer has a higher priority than the reader, \<^verbatim>\<open>future_get\<close> loses the processor to it before
  it has put itself into the queue of readers, and the writer takes the first node of that
  empty queue: it follows a null pointer.
\<close>

theorem future_queue_null:
  assumes "f_mode (fut s f) = FUTURE_QUEUE" and "fifos {f_set_queue (fut s f), f_get_queue (fut s f)} s L"
    and "L (f_set_queue (fut s f)) = p # ps" and "f_set_queue (fut s f) \<noteq> f_get_queue (fut s f)" and "L (f_get_queue (fut s f)) = []"
    and "kinv (fk s)" and "sync (fk s)" and "top_prio (fk s)" and "p \<in> pids" and "pst (fk s) p = PR_SUSP"
    and "prprio (proctab (fk s) (currpid (fk s))) < prprio (proctab (fk s) p)"
  shows "\<exists>t. future_get f s = Some (Pause (GetQueue f), t) \<and> kinv (fk t) \<and> currpid (fk t) = p \<and> set_queue_cont f v t = None"
proof -
  let ?sq = "f_set_queue (fut s f)" and ?gq = "f_get_queue (fut s f)"
  have qin: "?sq \<in> {?sq, ?gq}" "?gq \<in> {?sq, ?gq}" by simp_all
  obtain s1 where S1: "fdequeue ?sq s = Some (p, s1)" "fifos {?sq, ?gq} s1 (L(?sq := ps))" "queue_frame s s1"
    using fq.deq_law [OF assms(2) qin(1) assms(3)] by blast
  note F1 = queue_frameD [OF S1(3)]
  have k1: "kinv (fk s1)" "sync (fk s1)" "top_prio (fk s1)" using F1 assms(6-8) S1(3) by (auto simp: sync_def top_prio_def queue_frame_def)
  have p: "pst (fk s1) p = PR_SUSP" "prprio (proctab (fk s1) (currpid (fk s1))) < prprio (proctab (fk s1) p)" using assms(10,11) F1(3,4) by auto
  obtain r k where T: "resume p (fk s1) = Some (r, k)" "kinv k" "currpid k = p" "sched_frame {p} (fk s1) k"
    by (rule resume_higher [OF k1 assms(9) p]) (rule that; assumption)
  let ?t = "s1\<lparr>fk := k\<rparr>"
  have ne: "p \<noteq> currpid (fk s1)" using p(2) by auto
  have "is_empty ?sq s = 0" using is_empty_fifos [OF assms(2) qin(1)] assms(3) by simp
  then have "future_get f s = Some (Pause (GetQueue f), ?t)"
    using assms(1) S1(1) T(1,3) ne by (simp add: future_get_def FUTURE_EXCLUSIVE_def FUTURE_SHARED_def FUTURE_QUEUE_def)
  moreover have "is_empty ?gq s1 = 1" using fq.emp_law [OF S1(2) qin(2)] assms(4,5) by simp
  then have "q_head (fqs s1 ?gq) = 0" by (simp add: is_empty_def split: if_splits)
  then have "set_queue_cont f v ?t = None" using F1(1) by (simp add: set_queue_cont_def fdequeue_def)
  ultimately show ?thesis using T(2,3) by auto
qed

section \<open>A process waiting for a future\<close>

text \<open>The kernel with process 2 suspended, and all futures empty, of one mode.\<close>

definition kfut :: "pri16 \<Rightarrow> int \<Rightarrow> futsys" where
  "kfut prio mode = \<lparr>fk = with_proc 2 prio krun,
     fut = (\<lambda>_. \<lparr>f_value = 0, f_state = FUTURE_EMPTY, f_mode = mode, f_pid = 0, f_set_queue = 0x100, f_get_queue = 0x200\<rparr>),
     fqs = (\<lambda>_. \<lparr>q_head = 0, q_tail = 0\<rparr>), fns = (\<lambda>_. \<lparr>qn_pid = 0, qn_next = 0, qn_prev = 0\<rparr>)\<rparr>"

lemma kfut_facts:
  assumes "prio = 10 \<or> prio = 30"
  shows "kinv (fk (kfut prio mode))" "sync (fk (kfut prio mode))" "leads (fk (kfut prio mode))" "currpid (fk (kfut prio mode)) = 1"
    "pst (fk (kfut prio mode)) 2 = PR_SUSP" "prprio (proctab (fk (kfut prio mode)) 2) = prio" "prprio (proctab (fk (kfut prio mode)) 1) = 20"
    "fifos Q (kfut prio mode) (\<lambda>_. [])" "node_room (kfut prio mode)"
proof -
  have p2: "(2 :: int) \<in> pids" by (simp add: size_defs)
  note W = with_proc_kinv [OF krun_facts(1) p2 krun_facts(13) [OF p2], of prio]
  show "kinv (fk (kfut prio mode))" using W(1) assms by (auto simp: kfut_def)
  have q: "qview (with_proc 2 prio krun) = qview krun" "readylist (with_proc 2 prio krun) = readylist krun" "currpid (with_proc 2 prio krun) = 1"
    using W(2) assms krun_facts(4) by (auto simp: with_proc_def)
  have r: "readyq (with_proc 2 prio krun) = [0]" using q(1,2) krun_facts(5) by (simp add: NULLPROC_def)
  have pr: "proctab (with_proc 2 prio krun) x = proctab krun x" if "x \<noteq> 2" for x using that by (simp add: with_proc_def)
  show "sync (fk (kfut prio mode))" using krun_facts(2,5) r by (auto simp: kfut_def sync_def with_proc_def NULLPROC_def)
  show "leads (fk (kfut prio mode))" unfolding leads_def kfut_def futsys.select_convs r q(3) using krun_facts(18,19) pr by simp
  show "currpid (fk (kfut prio mode)) = 1" "prprio (proctab (fk (kfut prio mode)) 1) = 20" using q(3) krun_facts(18) pr by (simp_all add: kfut_def)
  show "pst (fk (kfut prio mode)) 2 = PR_SUSP" "prprio (proctab (fk (kfut prio mode)) 2) = prio" by (simp_all add: kfut_def with_proc_def)
  have h: "heap_ok (kmem (fk (kfut prio mode))) [(0x10000, 0xEE000)]" using kboot_heap krun_facts(12) by (simp add: kfut_def with_proc_def)
  then have "futq (kfut prio mode) Q (\<lambda>_. [])" by (auto simp: futq_def nodes_held_def) (simp_all add: kfut_def)
  then show "fifos Q (kfut prio mode) (\<lambda>_. [])" unfolding fifos_def by (intro exI [of _ "\<lambda>_. []"]) simp
  show "node_room (kfut prio mode)" using h by (auto simp: node_room_def intro!: exI [of _ "[(0x10000, 0xEE000)]"])
qed

lemma kfut_waiting:
  assumes "prio = 10 \<or> prio = 30" "q \<in> Q"
  obtains s where "fifos Q s ((\<lambda>_. [])(q := [2]))" "fut s = fut (kfut prio mode)" "kinv (fk s)" "sync (fk s)" "leads (fk s)" "currpid (fk s) = 1"
    "pst (fk s) 2 = PR_SUSP" "prprio (proctab (fk s) 2) = prio" "prprio (proctab (fk s) 1) = 20"
proof -
  note K = kfut_facts [OF assms(1), where mode = mode]
  obtain s where S: "fenqueue q 2 (kfut prio mode) = Some s" "fifos Q s ((\<lambda>_. [])(q := [] @ [2]))" "queue_frame (kfut prio mode) s"
    using fq.enq_law [OF K(8) assms(2) K(9), of 2] by blast
  note F = queue_frameD [OF S(3)]
  have "sync (fk s)" "leads (fk s)" using F(2-6) K(1-3) S(3) by (auto simp: sync_def leads_def queue_frame_def)
  then show thesis using that [OF S(2) [unfolded append_Nil] F(1) F(2) [OF K(1)]] F(3,4) K(4-7) by simp
qed

theorem future_shared_broadcast_witness:
  "\<exists>s t. pst (fk s) 2 = PR_SUSP \<and> future_set 0x300 7 s = Some (Done OK None, t) \<and> pst (fk t) 2 = PR_READY \<and> f_value (fut t 0x300) = 7 \<and> currpid (fk t) = 1"
proof -
  have pq: "(10 :: int) = 10 \<or> (10 :: int) = 30" "(0x200 :: uint32) \<in> {0x200}" by simp_all
  obtain s where S: "fifos {0x200} s ((\<lambda>_. [])(0x200 := [2]))" "fut s = fut (kfut 10 FUTURE_SHARED)" "kinv (fk s)" "sync (fk s)" "leads (fk s)" "currpid (fk s) = 1"
      "pst (fk s) 2 = PR_SUSP" "prprio (proctab (fk s) 2) = 10" "prprio (proctab (fk s) 1) = 20"
    by (rule kfut_waiting [OF pq, of FUTURE_SHARED]) (rule that; assumption)
  have f: "f_mode (fut s 0x300) = FUTURE_SHARED" "f_state (fut s 0x300) \<noteq> FUTURE_READY" "f_get_queue (fut s 0x300) = 0x200" by (simp_all add: S(2) kfut_def)
  have "(2 :: int) \<in> pids" by (simp add: size_defs)
  then show ?thesis using future_shared_broadcast [OF f(1,2) S(1), unfolded f(3), of 7] S(3-9) by (auto simp del: mem_pids)
qed

theorem future_queue_rendezvous_witness:
  "\<exists>s t. pst (fk s) 2 = PR_SUSP \<and> future_get 0x300 s = Some (Pause (GetQueueEnd 0x300), t) \<and> pst (fk t) 1 = PR_SUSP \<and> runnable (pst (fk t) 2)"
proof -
  have pq: "(10 :: int) = 10 \<or> (10 :: int) = 30" "(0x100 :: uint32) \<in> {0x100, 0x200}" by simp_all
  obtain s where S: "fifos {0x100, 0x200} s ((\<lambda>_. [])(0x100 := [2]))" "fut s = fut (kfut 10 FUTURE_QUEUE)" "kinv (fk s)" "sync (fk s)" "leads (fk s)" "currpid (fk s) = 1"
      "pst (fk s) 2 = PR_SUSP" "prprio (proctab (fk s) 2) = 10" "prprio (proctab (fk s) 1) = 20"
    by (rule kfut_waiting [OF pq, of FUTURE_QUEUE]) (rule that; assumption)
  have f: "f_mode (fut s 0x300) = FUTURE_QUEUE" "f_state (fut s 0x300) = FUTURE_EMPTY" "f_get_queue (fut s 0x300) = 0x200" "f_set_queue (fut s 0x300) = 0x100" by (simp_all add: S(2) kfut_def)
  have "(2 :: int) \<in> pids" by (simp add: size_defs)
  then show ?thesis using future_queue_rendezvous [where s = s and f = "0x300" and L = "(\<lambda>_. [])(0x100 := [2])" and p = 2 and ps = "[]" and v = 7, unfolded f S(6)] S(1,3-9)
    by (auto simp del: mem_pids simp: NULLPROC_def)
qed

theorem future_queue_null_witness:
  "\<exists>s t. pst (fk s) 2 = PR_SUSP \<and> future_get 0x300 s = Some (Pause (GetQueue 0x300), t) \<and> currpid (fk t) = 2 \<and> set_queue_cont 0x300 7 t = None"
proof -
  have pq: "(30 :: int) = 10 \<or> (30 :: int) = 30" "(0x100 :: uint32) \<in> {0x100, 0x200}" by simp_all
  obtain s where S: "fifos {0x100, 0x200} s ((\<lambda>_. [])(0x100 := [2]))" "fut s = fut (kfut 30 FUTURE_QUEUE)" "kinv (fk s)" "sync (fk s)" "leads (fk s)" "currpid (fk s) = 1"
      "pst (fk s) 2 = PR_SUSP" "prprio (proctab (fk s) 2) = 30" "prprio (proctab (fk s) 1) = 20"
    by (rule kfut_waiting [OF pq, of FUTURE_QUEUE]) (rule that; assumption)
  have f: "f_mode (fut s 0x300) = FUTURE_QUEUE" "f_get_queue (fut s 0x300) = 0x200" "f_set_queue (fut s 0x300) = 0x100" by (simp_all add: S(2) kfut_def)
  have "(2 :: int) \<in> pids" by (simp add: size_defs)
  then show ?thesis using future_queue_null [where s = s and f = "0x300" and L = "(\<lambda>_. [])(0x100 := [2])" and p = 2 and ps = "[]" and v = 7, unfolded f S(6)] S(1,3-9) leads_top
    by (auto simp del: mem_pids)
qed

end
