(* ===== verification/Future_Runs.thy ===== *)
theory Future_Runs
  imports Future_Calls
begin

text \<open>
  Exclusive futures under every interleaving. Processes call \<^verbatim>\<open>future_set\<close> and \<^verbatim>\<open>future_get\<close>, wait, and go on when they are
  scheduled again; between their steps the kernel may do anything that suspends and resumes no process.
\<close>

section \<open>Runs\<close>

record fm =
  fsys :: futsys
  fpend :: "pid32 \<Rightarrow> fkont option"

abbreviation fcurr :: "fm \<Rightarrow> pid32" where "fcurr m \<equiv> currpid (fk (fsys m))"

abbreviation exclusive :: "fm \<Rightarrow> uint32 \<Rightarrow> bool" where "exclusive m f \<equiv> f_mode (fut (fsys m) f) = FUTURE_EXCLUSIVE"

text \<open>What can be seen of a step: a value that was set, one that was returned, or nothing.\<close>

datatype fev = Quiet | SetTo uint32 int | Got uint32 int

definition got :: "uint32 \<Rightarrow> int option \<Rightarrow> fev" where
  "got f x = (case x of None \<Rightarrow> Quiet | Some v \<Rightarrow> Got f v)"

inductive fstep :: "fm \<Rightarrow> fev \<Rightarrow> fm \<Rightarrow> bool" where
  set: "fcurr m \<noteq> NULLPROC \<Longrightarrow> fpend m (fcurr m) = None \<Longrightarrow> exclusive m f \<Longrightarrow> future_set f v (fsys m) = Some (Done r x, t) \<Longrightarrow>
    fstep m (if r = OK then SetTo f v else Quiet) (m\<lparr>fsys := t\<rparr>)"
| get: "fcurr m \<noteq> NULLPROC \<Longrightarrow> fpend m (fcurr m) = None \<Longrightarrow> exclusive m f \<Longrightarrow> future_get f (fsys m) = Some (Done r x, t) \<Longrightarrow>
    fstep m (got f x) (m\<lparr>fsys := t\<rparr>)"
| wait: "fcurr m \<noteq> NULLPROC \<Longrightarrow> fpend m (fcurr m) = None \<Longrightarrow> exclusive m f \<Longrightarrow> future_get f (fsys m) = Some (Pause k, t) \<Longrightarrow>
    fstep m Quiet \<lparr>fsys = t, fpend = (fpend m)(fcurr m \<mapsto> k)\<rparr>"
| run: "fpend m (fcurr m) = Some (GetExclusive f) \<Longrightarrow> future_run (GetExclusive f) (fsys m) = Some (Done r x, t) \<Longrightarrow>
    fstep m (got f x) \<lparr>fsys = t, fpend = (fpend m)(fcurr m := None)\<rparr>"
| kernel: "kinv k \<Longrightarrow> \<forall>p. pst k p = PR_SUSP \<longleftrightarrow> pst (fk (fsys m)) p = PR_SUSP \<Longrightarrow> fstep m Quiet (m\<lparr>fsys := (fsys m)\<lparr>fk := k\<rparr>\<rparr>)"

inductive fruns :: "fm \<Rightarrow> fev list \<Rightarrow> fm \<Rightarrow> bool" where
  start: "fruns m [] m"
| step: "fruns m es m' \<Longrightarrow> fstep m' e m'' \<Longrightarrow> fruns m (es @ [e]) m''"

definition sets_of :: "uint32 \<Rightarrow> fev list \<Rightarrow> int list" where
  "sets_of f es = List.map_filter (\<lambda>e. case e of SetTo g v \<Rightarrow> if g = f then Some v else None | _ \<Rightarrow> None) es"

definition gots_of :: "uint32 \<Rightarrow> fev list \<Rightarrow> int list" where
  "gots_of f es = List.map_filter (\<lambda>e. case e of Got g v \<Rightarrow> if g = f then Some v else None | _ \<Rightarrow> None) es"

section \<open>The invariant\<close>

text \<open>
  The process a future waits for is suspended in \<^verbatim>\<open>future_get\<close> of that future, and a process suspended there is the one the future
  waits for: nobody sleeps through a value.
\<close>

definition finv :: "fm \<Rightarrow> bool" where
  "finv m \<longleftrightarrow> kinv (fk (fsys m)) \<and>
    (\<forall>f. exclusive m f \<longrightarrow> f_state (fut (fsys m) f) = FUTURE_WAITING \<longrightarrow> f_pid (fut (fsys m) f) \<in> pids \<and>
       pst (fk (fsys m)) (f_pid (fut (fsys m) f)) = PR_SUSP \<and> fpend m (f_pid (fut (fsys m) f)) = Some (GetExclusive f)) \<and>
    (\<forall>p f. fpend m p = Some (GetExclusive f) \<longrightarrow> exclusive m f \<and>
       (pst (fk (fsys m)) p = PR_SUSP \<longrightarrow> f_state (fut (fsys m) f) = FUTURE_WAITING \<and> f_pid (fut (fsys m) f) = p))"

text \<open>What a step does to the buffer: the value in it, if any.\<close>

definition held :: "futsys \<Rightarrow> uint32 \<Rightarrow> int list" where
  "held s f = (if f_state (fut s f) = FUTURE_READY then [f_value (fut s f)] else [])"

lemma finvD:
  assumes "finv m"
  shows "kinv (fk (fsys m))"
    "\<And>f. exclusive m f \<Longrightarrow> f_state (fut (fsys m) f) = FUTURE_WAITING \<Longrightarrow> f_pid (fut (fsys m) f) \<in> pids"
    "\<And>f. exclusive m f \<Longrightarrow> f_state (fut (fsys m) f) = FUTURE_WAITING \<Longrightarrow> pst (fk (fsys m)) (f_pid (fut (fsys m) f)) = PR_SUSP"
    "\<And>f. exclusive m f \<Longrightarrow> f_state (fut (fsys m) f) = FUTURE_WAITING \<Longrightarrow> fpend m (f_pid (fut (fsys m) f)) = Some (GetExclusive f)"
    "\<And>p f. fpend m p = Some (GetExclusive f) \<Longrightarrow> exclusive m f"
    "\<And>p f. fpend m p = Some (GetExclusive f) \<Longrightarrow> pst (fk (fsys m)) p = PR_SUSP \<Longrightarrow> f_state (fut (fsys m) f) = FUTURE_WAITING \<and> f_pid (fut (fsys m) f) = p"
  using assms unfolding finv_def by blast+

lemma no_sleeper:
  assumes "finv m" "f_state (fut (fsys m) f) \<noteq> FUTURE_WAITING" "fpend m p = Some (GetExclusive f)"
  shows "pst (fk (fsys m)) p \<noteq> PR_SUSP"
  using finvD(6) [OF assms(1,3)] assms(2) by blast

text \<open>
  One future changes, and with it at most the process \<open>c\<close>: its state and what it waits in. The conditions say
  that the future and the process agree afterwards.
\<close>

lemma finv_change:
  assumes I: "finv m" and m': "fut (fsys m') = (fut (fsys m))(f := e)" "kinv (fk (fsys m'))" "f_mode e = FUTURE_EXCLUSIVE"
    and other: "\<And>p. p \<noteq> c \<Longrightarrow> fpend m' p = fpend m p \<and> (pst (fk (fsys m')) p = PR_SUSP \<longleftrightarrow> pst (fk (fsys m)) p = PR_SUSP)"
    and here: "fpend m c = Some (GetExclusive f) \<or> fpend m c = None"
    and wait: "f_state e = FUTURE_WAITING \<Longrightarrow> f_pid e \<in> pids \<and> pst (fk (fsys m')) (f_pid e) = PR_SUSP \<and> fpend m' (f_pid e) = Some (GetExclusive f)"
    and pend: "\<And>p. p \<noteq> c \<Longrightarrow> fpend m p = Some (GetExclusive f) \<Longrightarrow> pst (fk (fsys m)) p = PR_SUSP \<Longrightarrow> f_state e = FUTURE_WAITING \<and> f_pid e = p"
    and mine: "fpend m' c = None \<or> fpend m' c = Some (GetExclusive f) \<and> (pst (fk (fsys m')) c = PR_SUSP \<longrightarrow> f_state e = FUTURE_WAITING \<and> f_pid e = c)"
  shows "finv m'"
  unfolding finv_def
proof (intro conjI allI impI m'(2))
  fix g assume g: "exclusive m' g" "f_state (fut (fsys m') g) = FUTURE_WAITING"
  let ?p = "f_pid (fut (fsys m') g)"
  have "?p \<in> pids \<and> pst (fk (fsys m')) ?p = PR_SUSP \<and> fpend m' ?p = Some (GetExclusive g)"
  proof (cases "g = f")
    case True
    then show ?thesis using wait g m'(1) by simp
  next
    case False
    then have e: "fut (fsys m') g = fut (fsys m) g" using m'(1) by simp
    then have h: "exclusive m g" "f_state (fut (fsys m) g) = FUTURE_WAITING" using g by simp_all
    note J = finvD(2-4) [OF I h]
    have "?p \<noteq> c" using J(3) here False e by auto
    then show ?thesis using J other [of ?p] e by simp
  qed
  then show "?p \<in> pids" "pst (fk (fsys m')) ?p = PR_SUSP" "fpend m' ?p = Some (GetExclusive g)" by blast+
next
  fix p g assume p: "fpend m' p = Some (GetExclusive g)"
  have "exclusive m' g \<and> (pst (fk (fsys m')) p = PR_SUSP \<longrightarrow> f_state (fut (fsys m') g) = FUTURE_WAITING \<and> f_pid (fut (fsys m') g) = p)"
  proof (cases "p = c")
    case True
    then show ?thesis using mine p m'(1,3) by auto
  next
    case False
    then have o: "fpend m p = Some (GetExclusive g)" "pst (fk (fsys m')) p = PR_SUSP \<longleftrightarrow> pst (fk (fsys m)) p = PR_SUSP" using other p by auto
    show ?thesis using finvD(5,6) [OF I o(1)] o pend [OF False] m'(1,3) by (cases "g = f") auto
  qed
  then show "exclusive m' g" "pst (fk (fsys m')) p = PR_SUSP \<Longrightarrow> f_state (fut (fsys m') g) = FUTURE_WAITING" "pst (fk (fsys m')) p = PR_SUSP \<Longrightarrow> f_pid (fut (fsys m') g) = p" by blast+
qed

lemma map_filter_snoc: "List.map_filter g (xs @ [x]) = List.map_filter g xs @ (case g x of None \<Rightarrow> [] | Some y \<Rightarrow> [y])"
  by (simp add: List.map_filter_def split: option.splits)

text \<open>The end of \<^verbatim>\<open>future_get\<close>, right after the call or when the process runs again.\<close>

lemma get_end:
  assumes I: "finv m" and f: "exclusive m f" and g: "get_exclusive_cont f (fsys m) = Some (Done r x, t)"
    and pd: "fpend m (fcurr m) = None \<or> fpend m (fcurr m) = Some (GetExclusive f)"
  shows "finv \<lparr>fsys = t, fpend = (fpend m)(fcurr m := None)\<rparr> \<and> (\<forall>g. f_mode (fut t g) = f_mode (fut (fsys m) g)) \<and>
    (\<forall>g. held (fsys m) g @ sets_of g [got f x] = gots_of g [got f x] @ held t g)"
proof (cases "f_state (fut (fsys m) f) = FUTURE_READY")
  let ?m = "\<lparr>fsys = t, fpend = (fpend m)(fcurr m := None)\<rparr>"
  case True
  let ?e = "(fut (fsys m) f)\<lparr>f_state := FUTURE_EMPTY\<rparr>"
  have t: "t = upd_fut f (\<lambda>e. e\<lparr>f_state := FUTURE_EMPTY\<rparr>) (fsys m)" "x = Some (f_value (fut (fsys m) f))"
    using g True by (simp_all add: get_exclusive_cont_def)
  have "finv ?m"
    by (rule finv_change [OF I, where f = f and e = ?e and c = "fcurr m"]) (use t finvD(1) [OF I] f pd no_sleeper [OF I, of f] True in auto)
  then show ?thesis using t True by (auto simp: sets_of_def gots_of_def held_def List.map_filter_def got_def)
next
  let ?m = "\<lparr>fsys = t, fpend = (fpend m)(fcurr m := None)\<rparr>"
  case False
  then have t: "t = fsys m" "x = None" using g by (simp_all add: get_exclusive_cont_def)
  have cs: "pst (fk (fsys m)) (fcurr m) \<noteq> PR_SUSP" using kinvD(2) [OF finvD(1) [OF I]] by simp
  have "finv ?m"
  proof (rule finv_change [OF I, where f = f and e = "fut (fsys m) f" and c = "fcurr m"])
    assume w: "f_state (fut (fsys m) f) = FUTURE_WAITING"
    then have "f_pid (fut (fsys m) f) \<noteq> fcurr m" using finvD(3) [OF I f w] cs by auto
    then show "f_pid (fut (fsys m) f) \<in> pids \<and> pst (fk (fsys ?m)) (f_pid (fut (fsys m) f)) = PR_SUSP \<and> fpend ?m (f_pid (fut (fsys m) f)) = Some (GetExclusive f)"
      using finvD(2-4) [OF I f w] t by simp
  qed (use t finvD(1,6) [OF I] f pd in auto)
  then show ?thesis using t by (auto simp: sets_of_def gots_of_def List.map_filter_def got_def)
qed

text \<open>A step keeps the invariant and acts on the buffer as its event says.\<close>

lemma fstep_inv:
  assumes "fstep m e m'" and I: "finv m"
  shows "finv m' \<and> (\<forall>f. exclusive m' f = exclusive m f) \<and>
    (\<forall>f. exclusive m f \<longrightarrow> held (fsys m) f @ sets_of f [e] = gots_of f [e] @ held (fsys m') f)"
  using assms(1)
proof cases
  case (set f v r x t)
  note J = finvD [OF I] and ev = sets_of_def gots_of_def held_def List.map_filter_def FUTURE_EXCLUSIVE_def
  let ?s = "fsys m"
  let ?e = "(fut ?s f)\<lparr>f_value := v, f_state := FUTURE_READY\<rparr>"
  have cs: "pst (fk ?s) (fcurr m) \<noteq> PR_SUSP" using kinvD(2) [OF J(1)] by simp
  show ?thesis
  proof (cases "f_state (fut ?s f)")
    case FUTURE_EMPTY
    have t: "t = upd_fut f (\<lambda>e. e\<lparr>f_value := v, f_state := FUTURE_READY\<rparr>) ?s" "r = OK" using set(6) set(5) FUTURE_EMPTY by (simp_all add: future_set_def)
    have "finv (m\<lparr>fsys := t\<rparr>)"
      by (rule finv_change [OF I, where f = f and e = ?e and c = "fcurr m"]) (use t J(1) set(4,5) no_sleeper [OF I, of f] FUTURE_EMPTY in auto)
    then show ?thesis using set(1,2) t FUTURE_EMPTY by (auto simp: ev)
  next
    case FUTURE_WAITING
    let ?p = "f_pid (fut ?s f)"
    note W = J(2-4) [OF set(5) FUTURE_WAITING]
    have nb: "\<not> isbadpid (fk ?s) ?p" using W(1,2) pids_notbad by simp
    obtain r' k where R: "resume ?p (fk ?s) = Some (r', k)" "kinv k" "sched_frame {?p} (fk ?s) k" using resume_ok [OF J(1), of ?p] W(2) nb by auto
    note F = sched_frameD [OF R(3)]
    have t: "t = (upd_fut f (\<lambda>e. e\<lparr>f_value := v, f_state := FUTURE_READY\<rparr>) ?s)\<lparr>fk := k\<rparr>" "r = OK"
      using set(6) set(5) FUTURE_WAITING R(1) by (simp_all add: future_set_def)
    have sp: "pst k q = PR_SUSP \<longleftrightarrow> pst (fk ?s) q = PR_SUSP" if "q \<noteq> ?p" for q using F(16) [of q] that by auto
    have "finv (m\<lparr>fsys := t\<rparr>)"
      by (rule finv_change [OF I, where f = f and e = ?e and c = ?p]) (use t R(2) set(5) sp W(3) F(15) [of ?p] J(6) in \<open>auto simp: runnable_def\<close>)
    then show ?thesis using set(1,2) t FUTURE_WAITING by (auto simp: ev)
  next
    case FUTURE_READY
    then have "t = ?s" "r = SYSERR" using set(6) set(5) by (simp_all add: future_set_def)
    then show ?thesis using set(1,2) I by (auto simp: ev OK_def SYSERR_def)
  qed
next
  case (get f r x t)
  have ne: "f_state (fut (fsys m) f) \<noteq> FUTURE_EMPTY"
  proof
    assume e: "f_state (fut (fsys m) f) = FUTURE_EMPTY"
    obtain k where "suspend (fcurr m) (fk (fsys m)) = Some (Blocked, k)" by (rule suspend_self [OF finvD(1) [OF I] get(3)])
    then show False using get(5,6) e by (simp add: future_get_def fut_suspend_def getpid_def Let_def)
  qed
  then have "get_exclusive_cont f (fsys m) = Some (Done r x, t)" using get(5,6) by (simp add: future_get_def)
  note E = get_end [OF I get(5) this] and pd = fun_upd_triv [of "fpend m" "fcurr m", unfolded get(4)]
  have "m\<lparr>fsys := t\<rparr> = \<lparr>fsys = t, fpend = (fpend m)(fcurr m := None)\<rparr>" unfolding pd by simp
  then show ?thesis using E get(1,2,4) by auto
next
  case (wait f k t)
  let ?s = "fsys m" and ?c = "fcurr m"
  have e: "f_state (fut ?s f) = FUTURE_EMPTY"
    using wait(5,6) by (auto simp: future_get_def get_exclusive_cont_def split: if_splits)
  obtain k' where K: "suspend ?c (fk ?s) = Some (Blocked, k')" "kinv k'" "pst k' ?c = PR_SUSP"
      "\<And>p. p \<noteq> ?c \<Longrightarrow> pst k' p = pst (fk ?s) p \<or> runnable (pst (fk ?s) p) \<and> runnable (pst k' p)"
    by (rule suspend_self [OF finvD(1) [OF I] wait(3)]) (rule that; assumption)
  let ?e = "(fut ?s f)\<lparr>f_pid := ?c, f_state := FUTURE_WAITING\<rparr>"
  have t: "t = (upd_fut f (\<lambda>e. e\<lparr>f_pid := ?c, f_state := FUTURE_WAITING\<rparr>) ?s)\<lparr>fk := k'\<rparr>" "k = GetExclusive f"
    using wait(5,6) e K(1) by (simp_all add: future_get_def fut_suspend_def getpid_def Let_def)
  have sp: "pst k' p = PR_SUSP \<longleftrightarrow> pst (fk ?s) p = PR_SUSP" if "p \<noteq> ?c" for p using K(4) [OF that] by auto
  have "finv m'" unfolding wait(2)
    by (rule finv_change [OF I, where f = f and e = ?e and c = ?c])
      (use t K(2,3) sp wait(4,5) no_sleeper [OF I, of f] e curr_pids [OF finvD(1) [OF I]] in \<open>auto simp del: mem_pids\<close>)
  then show ?thesis using wait(1,2) t e by (auto simp: sets_of_def gots_of_def held_def List.map_filter_def)
next
  case (run f r x t)
  have g: "get_exclusive_cont f (fsys m) = Some (Done r x, t)" using run(4) by (simp add: future_run_def)
  show ?thesis using get_end [OF I finvD(5) [OF I run(3)] g] run(1-3) by auto
next
  case (kernel k)
  then show ?thesis using finvD [OF I] unfolding finv_def by (auto simp: sets_of_def gots_of_def held_def List.map_filter_def got_def)
qed


lemma fruns_inv:
  assumes "fruns m es m'" "finv m" "exclusive m f"
  shows "finv m' \<and> exclusive m' f \<and> held (fsys m) f @ sets_of f es = gots_of f es @ held (fsys m') f"
  using assms
proof (induction rule: fruns.induct)
  case (start m)
  then show ?case by (simp add: sets_of_def gots_of_def List.map_filter_def)
next
  case (step m es m' e m'')
  note S = fstep_inv [OF step.hyps(2)]
  have "held (fsys m) f @ sets_of f (es @ [e]) = gots_of f es @ held (fsys m') f @ sets_of f [e]" using step by (simp add: sets_of_def List.map_filter_def)
  also have "\<dots> = gots_of f (es @ [e]) @ held (fsys m'') f" using S step by (simp add: gots_of_def List.map_filter_def)
  finally show ?case using S step by blast
qed

text \<open>
  C12. An exclusive future is a buffer of one place, whatever the interleaving of the processes that use it: the values set
  with success come out in order and once each, at most one of them is still in the future, and a process that
  is suspended in \<^verbatim>\<open>future_get\<close> is the one the future waits for, so that the next \<^verbatim>\<open>future_set\<close> resumes it.
\<close>

theorem exclusive_one_place:
  assumes "fruns m0 es m" and "kinv (fk (fsys m0))" and "\<forall>p. fpend m0 p = None" and "\<forall>g. f_state (fut (fsys m0) g) = FUTURE_EMPTY"
    and "f_mode (fut (fsys m0) f) = FUTURE_EXCLUSIVE"
  shows "sets_of f es = gots_of f es @ (if f_state (fut (fsys m) f) = FUTURE_READY then [f_value (fut (fsys m) f)] else []) \<and>
    kinv (fk (fsys m)) \<and>
    (\<forall>p. fpend m p = Some (GetExclusive f) \<longrightarrow> pst (fk (fsys m)) p = PR_SUSP \<longrightarrow>
       f_state (fut (fsys m) f) = FUTURE_WAITING \<and> f_pid (fut (fsys m) f) = p) \<and>
    (f_state (fut (fsys m) f) = FUTURE_WAITING \<longrightarrow> (\<exists>t. future_set f v (fsys m) = Some (Done OK None, t) \<and>
       runnable (pst (fk t) (f_pid (fut (fsys m) f)))))"
proof -
  have "finv m0" using assms(2-4) by (simp add: finv_def)
  then have R: "finv m" "exclusive m f" "held (fsys m0) f @ sets_of f es = gots_of f es @ held (fsys m) f" using fruns_inv [OF assms(1) _ assms(5)] by blast+
  have "\<exists>t. future_set f v (fsys m) = Some (Done OK None, t) \<and> runnable (pst (fk t) (f_pid (fut (fsys m) f)))" if w: "f_state (fut (fsys m) f) = FUTURE_WAITING"
  proof -
    note W = finvD(2,3) [OF R(1,2) w]
    have "\<not> isbadpid (fk (fsys m)) (f_pid (fut (fsys m) f))" using W pids_notbad by simp
    then obtain r k where "resume (f_pid (fut (fsys m) f)) (fk (fsys m)) = Some (r, k)" "runnable (pst k (f_pid (fut (fsys m) f)))"
      using resume_ok [OF finvD(1) [OF R(1)], of "f_pid (fut (fsys m) f)"] W(2) by auto
    then show ?thesis using R(2) w by (simp add: future_set_def)
  qed
  moreover have "sets_of f es = gots_of f es @ (if f_state (fut (fsys m) f) = FUTURE_READY then [f_value (fut (fsys m) f)] else [])"
    using R(3) assms(4) by (simp add: held_def)
  ultimately show ?thesis using finvD(1,6) [OF R(1)] by blast
qed

theorem exclusive_one_place_witness:
  "\<exists>m. fruns \<lparr>fsys = kfut 10 FUTURE_EXCLUSIVE, fpend = \<lambda>_. None\<rparr> [SetTo 0x300 7, Got 0x300 7] m \<and>
     sets_of 0x300 [SetTo 0x300 7, Got 0x300 7] = gots_of 0x300 [SetTo 0x300 7, Got 0x300 7] \<and> kinv (fk (fsys m))"
proof -
  let ?s0 = "kfut 10 FUTURE_EXCLUSIVE"
  let ?m0 = "\<lparr>fsys = ?s0, fpend = \<lambda>_. None\<rparr>"
  have pr: "(10 :: int) = 10 \<or> (10 :: int) = 30" by simp
  note K = kfut_facts(1,4) [OF pr, where mode = FUTURE_EXCLUSIVE]
  have f: "f_mode (fut ?s0 0x300) = FUTURE_EXCLUSIVE" "\<forall>g. f_state (fut ?s0 g) = FUTURE_EMPTY" by (simp_all add: kfut_def)
  let ?s1 = "upd_fut 0x300 (\<lambda>e. e\<lparr>f_value := 7, f_state := FUTURE_READY\<rparr>) ?s0"
  let ?s2 = "upd_fut 0x300 (\<lambda>e. e\<lparr>f_state := FUTURE_EMPTY\<rparr>) ?s1"
  have "fstep ?m0 (if OK = OK then SetTo 0x300 7 else Quiet) (?m0\<lparr>fsys := ?s1\<rparr>)"
    by (rule fstep.set) (use K f in \<open>auto simp: NULLPROC_def future_set_def\<close>)
  moreover have "fstep (?m0\<lparr>fsys := ?s1\<rparr>) (got 0x300 (Some 7)) ((?m0\<lparr>fsys := ?s1\<rparr>)\<lparr>fsys := ?s2\<rparr>)"
    by (rule fstep.get [where r = OK]) (use K f in \<open>auto simp: NULLPROC_def future_get_def get_exclusive_cont_def\<close>)
  ultimately have "fruns ?m0 (([] @ [SetTo 0x300 7]) @ [Got 0x300 7]) ((?m0\<lparr>fsys := ?s1\<rparr>)\<lparr>fsys := ?s2\<rparr>)"
    by (intro fruns.step [OF fruns.step [OF fruns.start]]) (simp_all add: got_def)
  then have r: "fruns ?m0 [SetTo 0x300 7, Got 0x300 7] (?m0\<lparr>fsys := ?s2\<rparr>)" by simp
  then show ?thesis using exclusive_one_place [OF r, of "0x300" 0] K(1) f by auto
qed

end
