(* ===== verification/File_System.thy ===== *)
theory File_System
  imports Block_Store
begin

text \<open>
  The file system of \<^verbatim>\<open>system/fs.c\<close> over the block device: inodes in blocks 2 and up, a flat
  directory in \<^verbatim>\<open>fsd\<close>, the open file table, and creation, opening, seeking, reading and
  writing of files. A \<^verbatim>\<open>struct inode\<close> that the code keeps in memory obtained from
  \<^verbatim>\<open>getmem\<close> is a value of the record, and the call of \<^verbatim>\<open>getmem\<close>, whose memory is never
  given back, changes the heap. \<^verbatim>\<open>printf\<close> is left out. File names are addresses of
  zero-terminated strings, buffers are addresses in the same byte memory.
\<close>

section \<open>Inodes\<close>

definition O_CREAT :: int where "O_CREAT = 11"
definition O_RDONLY :: int where "O_RDONLY = 0"
definition O_WRONLY :: int where "O_WRONLY = 1"
definition O_RDWR :: int where "O_RDWR = 2"
definition FILENAMELEN :: int where "FILENAMELEN = 32"
definition INODEBLOCKS :: int where "INODEBLOCKS = 12"
definition DIRECTORY_SIZE :: int where "DIRECTORY_SIZE = 16"
definition DEFAULT_NUM_INODES :: int where "DEFAULT_NUM_INODES = MDEV_NUM_BLOCKS div 4"
definition INODE_TYPE_FILE :: int where "INODE_TYPE_FILE = 1"
definition FSTATE_CLOSED :: int where "FSTATE_CLOSED = 0"
definition FSTATE_OPEN :: int where "FSTATE_OPEN = 1"
definition NUM_FD :: int where "NUM_FD = 16"
definition FIRST_INODE_BLOCK :: int where "FIRST_INODE_BLOCK = 2"
definition SB_BLK :: int where "SB_BLK = 0"
definition BM_BLK :: int where "BM_BLK = 1"
definition dev0 :: int where "dev0 = 0"
definition SIZEOF_INODE :: int where "SIZEOF_INODE = 64"
definition SIZEOF_DIRENT :: int where "SIZEOF_DIRENT = 36"
definition SIZEOF_FSYSTEM :: int where "SIZEOF_FSYSTEM = 604"

lemmas fs_consts = O_CREAT_def O_RDONLY_def O_WRONLY_def O_RDWR_def FILENAMELEN_def INODEBLOCKS_def
  DIRECTORY_SIZE_def INODE_TYPE_FILE_def FSTATE_CLOSED_def FSTATE_OPEN_def NUM_FD_def FIRST_INODE_BLOCK_def
  SB_BLK_def BM_BLK_def dev0_def SIZEOF_INODE_def SIZEOF_DIRENT_def SIZEOF_FSYSTEM_def

text \<open>The layout of \<^verbatim>\<open>struct inode\<close>.\<close>

definition inode_bytes :: "inode \<Rightarrow> uchar list" where
  "inode_bytes n = le32 (iid n) @ le16 (itype n) @ le16 (nlink n) @ le32 (idevice n) @ le32 (isize n)
     @ concat (map le32 (iblocks n))"

primrec of_le32s :: "nat \<Rightarrow> uchar list \<Rightarrow> int list" where
  "of_le32s 0 b = []"
| "of_le32s (Suc k) b = of_le32 b # of_le32s k (drop 4 b)"

definition inode_of :: "uchar list \<Rightarrow> inode" where
  "inode_of b = \<lparr>iid = of_le32 b, itype = of_le16 (drop 4 b), nlink = of_le16 (drop 6 b),
     idevice = of_le32 (drop 8 b), isize = of_le32 (drop 12 b), iblocks = of_le32s 12 (drop 16 b)\<rparr>"

text \<open>Unsigned 32-bit quotients, as \<^verbatim>\<open>sizeof\<close> makes them.\<close>

definition INODES_PER_BLOCK :: "fsstate \<Rightarrow> int" where
  "INODES_PER_BLOCK s = u32 (blocksz s) div SIZEOF_INODE"

definition NUM_INODE_BLOCKS :: "fsstate \<Rightarrow> int" where
  "NUM_INODE_BLOCKS s =
    (if u32 (ninodes s) mod INODES_PER_BLOCK s = 0 then u32 (ninodes s) div INODES_PER_BLOCK s
     else u32 (ninodes s) div INODES_PER_BLOCK s + 1)"

definition fs_fileblock_to_diskblock :: "int \<Rightarrow> int \<Rightarrow> int \<Rightarrow> fsstate \<Rightarrow> int option" where
  "fs_fileblock_to_diskblock dev fd fileblock s =
    (if fileblock \<ge> INODEBLOCKS - 2 then Some SYSERR
     else if fileblock < 0 \<or> fd < 0 \<or> fd \<ge> NUM_FD then None
     else Some (iblocks (fin (oft s fd)) ! nat fileblock))"

definition fs_get_inode_by_num :: "int \<Rightarrow> int \<Rightarrow> inode \<Rightarrow> fsstate \<Rightarrow> (int \<times> inode \<times> fsstate) option" where
  "fs_get_inode_by_num dev inode_number n s =
    (if dev \<noteq> 0 then Some (SYSERR, n, s)
     else if inode_number > ninodes s then Some (SYSERR, n, s)
     else if INODES_PER_BLOCK s = 0 then None
     else
       let bl = s32 (u32 inode_number div INODES_PER_BLOCK s);
           inn = s32 (u32 inode_number mod INODES_PER_BLOCK s);
           bl = bl + FIRST_INODE_BLOCK;
           inode_off = s32 (u32 inn * SIZEOF_INODE);
           (_, s1) = bs_bread dev0 bl 0 (block_cache s) (blocksz s) s
       in Some (OK, inode_of (block (fmem s1) (block_cache s1 + word_of_int inode_off) 64), s1))"

definition fs_put_inode_by_num :: "int \<Rightarrow> int \<Rightarrow> inode \<Rightarrow> fsstate \<Rightarrow> (int \<times> fsstate) option" where
  "fs_put_inode_by_num dev inode_number n s =
    (if dev \<noteq> 0 then Some (SYSERR, s)
     else if inode_number > ninodes s then Some (SYSERR, s)
     else if INODES_PER_BLOCK s = 0 then None
     else
       let bl = s32 (u32 inode_number div INODES_PER_BLOCK s);
           inn = s32 (u32 inode_number mod INODES_PER_BLOCK s);
           bl = bl + FIRST_INODE_BLOCK;
           (_, s1) = bs_bread dev0 bl 0 (block_cache s) (blocksz s) s;
           s2 = s1\<lparr>fmem := put (fmem s1) (block_cache s1 + word_of_int (u32 inn * SIZEOF_INODE)) (inode_bytes n)\<rparr>;
           (_, s3) = bs_bwrite dev0 bl 0 (block_cache s2) (blocksz s2) s2
       in Some (OK, s3))"

section \<open>Making a file system\<close>

function mkfs_round :: "int \<Rightarrow> int" where
  "mkfs_round i = (if i smod 8 \<noteq> 0 then mkfs_round (i + 1) else i)"
  by auto
termination
proof (relation "measure (\<lambda>i. nat ((- i) mod 8))")
  fix i :: int assume "i smod 8 \<noteq> 0"
  then have "i mod 8 \<noteq> 0" by (auto simp: signed_modulo_int_def dvd_eq_mod_eq_0 [symmetric])
  then have "(- (i + 1)) mod 8 < (- i) mod 8" by presburger
  moreover have "0 \<le> (- (i + 1)) mod 8" by simp
  ultimately show "(i + 1, i) \<in> measure (\<lambda>i. nat ((- i) mod 8))" by (simp add: nat_less_eq_zless)
qed simp

primrec mkfs_zero :: "nat \<Rightarrow> int \<Rightarrow> fsstate \<Rightarrow> fsstate" where
  "mkfs_zero 0 i s = s"
| "mkfs_zero (Suc k) i s = mkfs_zero k (i + 1) (s\<lparr>fmem := (fmem s)(freemask s + word_of_int i := 0)\<rparr>)"

definition fs_mkfs :: "int \<Rightarrow> int \<Rightarrow> fsstate \<Rightarrow> (int \<times> fsstate) option" where
  "fs_mkfs dev num_inodes s =
    (if dev = 0 then do {
       let s = set_fsd 4 (dev0_blocksize s) (set_fsd 0 (dev0_numblocks s) s);
       let s = set_fsd 8 (if num_inodes < 1 then DEFAULT_NUM_INODES else num_inodes) s;
       let s = set_fsd 16 (mkfs_round (nblocks s) sdiv 8) s;
       (a, h) \<leftarrow> getmem (word_of_int (freemaskbytes s)) (fheap s);
       let s = set_fsd 20 (sint a) (s\<lparr>fheap := h\<rparr>);
       if a = SYSERR_PTR then Some (SYSERR, s)
       else
         let s = mkfs_zero (nat (freemaskbytes s)) 0 s;
             s = set_fsd 12 0 s;
             s = snd (fs_setmaskbit SB_BLK s);
             s = snd (bs_bwrite dev0 SB_BLK 0 (fsd s) SIZEOF_FSYSTEM s);
             s = snd (fs_setmaskbit BM_BLK s);
             s = snd (bs_bwrite dev0 BM_BLK 0 (freemask s) (freemaskbytes s) s)
         in Some (1, s)
     } else Some (SYSERR, s))"

section \<open>Files\<close>

text \<open>The loop over the directory: the index of the first entry with the name, or the number of entries.\<close>

primrec fs_find :: "nat \<Rightarrow> int \<Rightarrow> uint32 \<Rightarrow> int \<Rightarrow> fsstate \<Rightarrow> int" where
  "fs_find 0 i filename len s = i"
| "fs_find (Suc k) i filename len s =
    (if strncmp (fmem s) (entry s i + 4) filename len = 0 then i else fs_find k (i + 1) filename len s)"

definition fs_open :: "uint32 \<Rightarrow> int \<Rightarrow> fsstate \<Rightarrow> (int \<times> fsstate) option" where
  "fs_open filename flags s = do {
     l \<leftarrow> strlen (fmem s) filename;
     let len = s32 (uint (l + 1));
     if len > FILENAMELEN then Some (SYSERR, s)
     else if flags \<noteq> O_RDONLY \<and> flags \<noteq> O_WRONLY \<and> flags \<noteq> O_RDWR then Some (SYSERR, s)
     else
       let numEntr = numentries s; i = fs_find (nat numEntr) 0 filename len s
       in if i = numEntr then Some (SYSERR, s)
       else if next_open_fd s \<ge> NUM_FD then Some (SYSERR, s)
       else do {
         let fd = next_open_fd s;
         let s = s\<lparr>next_open_fd := next_open_fd s + 1\<rparr>;
         let inodeNum = ldint (fmem s) (entry s i);
         (a, h) \<leftarrow> getmem (word_of_int SIZEOF_INODE) (fheap s);
         (rval, inodePtr, s) \<leftarrow> fs_get_inode_by_num dev0 inodeNum (inode_of (block (fmem s) a 64)) (s\<lparr>fheap := h\<rparr>);
         if rval = SYSERR then Some (SYSERR, s)
         else if a = SYSERR_PTR then None
         else if isize inodePtr = 0 \<and> flags = O_RDONLY then Some (SYSERR, s)
         else
           let filePtr = (if isize inodePtr \<noteq> 0 \<and> flags = O_WRONLY then isize inodePtr else 0)
           in Some (fd, s\<lparr>oft := (oft s)(fd := \<lparr>fstate = FSTATE_OPEN, fileptr = filePtr, fde = entry s i, fin = inodePtr\<rparr>)\<rparr>)
       }
   }"

definition fs_close :: "int \<Rightarrow> fsstate \<Rightarrow> (int \<times> fsstate) option" where
  "fs_close fd s =
    (if fd \<ge> NUM_FD then Some (SYSERR, s)
     else if fd < 0 then None
     else if fstate (oft s fd) \<noteq> FSTATE_OPEN then Some (SYSERR, s)
     else Some (OK, s\<lparr>oft := (oft s)(fd := (oft s fd)\<lparr>fstate := FSTATE_CLOSED\<rparr>)\<rparr>))"

definition fs_create :: "uint32 \<Rightarrow> int \<Rightarrow> fsstate \<Rightarrow> (int \<times> fsstate) option" where
  "fs_create filename mode s = do {
     l \<leftarrow> strlen (fmem s) filename;
     let len = s32 (uint (l + 1));
     if len > FILENAMELEN then Some (SYSERR, s)
     else if mode \<noteq> O_CREAT then Some (SYSERR, s)
     else
       let numEntr = numentries s; i = fs_find (nat numEntr) 0 filename len s
       in if i < numEntr then Some (SYSERR, s)
       else if numEntr \<ge> DIRECTORY_SIZE then Some (SYSERR, s)
       else do {
         (a, h) \<leftarrow> getmem (word_of_int SIZEOF_INODE) (fheap s);
         let s = s\<lparr>fheap := h\<rparr>;
         if a = SYSERR_PTR then Some (SYSERR, s)
         else do {
           let id = inodes_used s;
           let s = set_fsd 12 (id + 1) s;
           let fileInode = (inode_of (block (fmem s) a 64))\<lparr>iid := id, itype := INODE_TYPE_FILE, idevice := dev0, isize := 0\<rparr>;
           (rval, s) \<leftarrow> fs_put_inode_by_num dev0 id fileInode s;
           if rval = SYSERR then Some (SYSERR, s)
           else do {
             (d, h) \<leftarrow> getmem (word_of_int SIZEOF_DIRENT) (fheap s);
             let s = s\<lparr>fheap := h\<rparr>;
             if d = SYSERR_PTR then Some (SYSERR, s)
             else
               let s = s\<lparr>fmem := stint (fmem s) d id\<rparr>;
                   s = s\<lparr>fmem := snd (strncpy (fmem s) (d + 4) filename len)\<rparr>;
                   s = s\<lparr>fmem := snd (memcpy (fmem s) (entry s numEntr) d SIZEOF_DIRENT)\<rparr>;
                   s = set_fsd 24 (numentries s + 1) s
               in fs_open filename O_RDWR s
           }
         }
       }
   }"

definition fs_seek :: "int \<Rightarrow> int \<Rightarrow> fsstate \<Rightarrow> (int \<times> fsstate) option" where
  "fs_seek fd offset s =
    (if fd \<ge> NUM_FD then Some (SYSERR, s)
     else if fd < 0 then None
     else if fstate (oft s fd) \<noteq> FSTATE_OPEN then Some (SYSERR, s)
     else do {
       (a, h) \<leftarrow> getmem (word_of_int SIZEOF_INODE) (fheap s);
       let s = s\<lparr>fheap := h\<rparr>;
       let filePtr = fileptr (oft s fd) + offset;
       if a = SYSERR_PTR \<or> \<not> int32 filePtr then None
       else if filePtr < 0 \<or> filePtr > isize (fin (oft s fd)) then Some (SYSERR, s)
       else Some (OK, s\<lparr>oft := (oft s)(fd := (oft s fd)\<lparr>fileptr := filePtr\<rparr>)\<rparr>)
     })"

text \<open>\<open>last_block p\<close>: the block of the byte before \<open>p\<close>, computed as the code does for its three block numbers.\<close>

definition last_block :: "int \<Rightarrow> fsstate \<Rightarrow> int" where
  "last_block p s = (if p smod blocksz s = 0 then p sdiv blocksz s - 1 else p sdiv blocksz s)"

definition chunk :: "int \<Rightarrow> int \<Rightarrow> int \<Rightarrow> int \<Rightarrow> int \<Rightarrow> fsstate \<Rightarrow> int \<times> int" where
  "chunk i start en ptr newSize s =
    (if i = start + 1 then (ptr smod blocksz s, blocksz s - ptr smod blocksz s)
     else if i = en then (0, newSize smod blocksz s)
     else (0, blocksz s))"

primrec fs_read_blocks :: "nat \<Rightarrow> int \<Rightarrow> int \<Rightarrow> int \<Rightarrow> int \<Rightarrow> int \<Rightarrow> inode \<Rightarrow> uint32 \<Rightarrow> fsstate \<Rightarrow> fsstate option" where
  "fs_read_blocks 0 i start en ptr newSize n bufPtr s = Some s"
| "fs_read_blocks (Suc k) i start en ptr newSize n bufPtr s =
    (if i < 0 \<or> i \<ge> INODEBLOCKS then None
     else
       let blk = iblocks n ! nat i; (offset, sz) = chunk i start en ptr newSize s;
           s = snd (bs_bread dev0 blk offset bufPtr sz s)
       in fs_read_blocks k (i + 1) start en ptr newSize n (bufPtr + word_of_int sz) s)"

definition fs_read :: "int \<Rightarrow> uint32 \<Rightarrow> int \<Rightarrow> fsstate \<Rightarrow> (int \<times> fsstate) option" where
  "fs_read fd buf nbytes s =
    (if fd \<ge> NUM_FD then Some (SYSERR, s)
     else if nbytes \<le> 0 then Some (0, s)
     else if fd < 0 then None
     else if fstate (oft s fd) \<noteq> FSTATE_OPEN then Some (SYSERR, s)
     else do {
       (a, h) \<leftarrow> getmem (word_of_int SIZEOF_INODE) (fheap s);
       let s = s\<lparr>fheap := h\<rparr>;
       let inodePtr = fin (oft s fd);
       let fileSize = isize inodePtr;
       let ptr = fileptr (oft s fd);
       if a = SYSERR_PTR \<or> \<not> int32 (ptr + nbytes) \<or> blocksz s = 0 then None
       else do {
         let (nbytes, newSize) = (if ptr + nbytes > fileSize then (fileSize - ptr, fileSize) else (nbytes, ptr + nbytes));
         let start = last_block ptr s;
         let en = last_block newSize s;
         s \<leftarrow> fs_read_blocks (nat (en - start)) (start + 1) start en ptr newSize inodePtr buf s;
         Some (nbytes, s\<lparr>oft := (oft s)(fd := (oft s fd)\<lparr>fileptr := newSize\<rparr>)\<rparr>)
       }
     })"

text \<open>The search for a free block, from \<open>j\<close> up to \<^verbatim>\<open>nblocks\<close>.\<close>

primrec fs_find_free :: "nat \<Rightarrow> int \<Rightarrow> fsstate \<Rightarrow> int" where
  "fs_find_free 0 j s = j"
| "fs_find_free (Suc k) j s = (if fs_getmaskbit j s = 0 then j else fs_find_free k (j + 1) s)"

text \<open>The allocation of new blocks; \<^term>\<open>Inl\<close> is the return of \<^verbatim>\<open>SYSERR\<close> when no block is free.\<close>

primrec fs_alloc :: "nat \<Rightarrow> int \<Rightarrow> inode \<Rightarrow> fsstate \<Rightarrow> (fsstate + inode \<times> fsstate) option" where
  "fs_alloc 0 i n s = Some (Inr (n, s))"
| "fs_alloc (Suc k) i n s =
    (let j0 = s32 (FIRST_INODE_BLOCK + NUM_INODE_BLOCKS s); j = fs_find_free (nat (nblocks s - j0)) j0 s
     in if j = nblocks s then Some (Inl s)
     else if i < 0 \<or> i \<ge> INODEBLOCKS then None
     else fs_alloc k (i + 1) (n\<lparr>iblocks := (iblocks n)[nat i := j]\<rparr>) (snd (fs_setmaskbit j s)))"

primrec fs_write_blocks :: "nat \<Rightarrow> int \<Rightarrow> int \<Rightarrow> int \<Rightarrow> int \<Rightarrow> int \<Rightarrow> inode \<Rightarrow> uint32 \<Rightarrow> fsstate \<Rightarrow> fsstate option" where
  "fs_write_blocks 0 i start en ptr newSize n bufPtr s = Some s"
| "fs_write_blocks (Suc k) i start en ptr newSize n bufPtr s =
    (if i < 0 \<or> i \<ge> INODEBLOCKS then None
     else
       let blk = iblocks n ! nat i; (offset, sz) = chunk i start en ptr newSize s;
           s = snd (bs_bwrite dev0 blk offset bufPtr sz s)
       in fs_write_blocks k (i + 1) start en ptr newSize n (bufPtr + word_of_int sz) s)"

text \<open>The update of the size at the end of a write.\<close>

definition grown :: "inode \<Rightarrow> int \<Rightarrow> inode" where
  "grown n newSize = (if newSize > isize n then n\<lparr>isize := newSize\<rparr> else n)"

definition fs_write :: "int \<Rightarrow> uint32 \<Rightarrow> int \<Rightarrow> fsstate \<Rightarrow> (int \<times> fsstate) option" where
  "fs_write fd buf nbytes s =
    (if fd \<ge> NUM_FD then Some (SYSERR, s)
     else if nbytes \<le> 0 then Some (0, s)
     else if fd < 0 then None
     else if fstate (oft s fd) \<noteq> FSTATE_OPEN then Some (SYSERR, s)
     else do {
       (a, h) \<leftarrow> getmem (word_of_int SIZEOF_INODE) (fheap s);
       let s = s\<lparr>fheap := h\<rparr>;
       let inodePtr = fin (oft s fd);
       let ptr = fileptr (oft s fd);
       let newSize = ptr + nbytes;
       if a = SYSERR_PTR \<or> \<not> int32 newSize \<or> \<not> int32 (blocksz s * INODEBLOCKS) \<or> blocksz s = 0 then None
       else if newSize \<ge> blocksz s * INODEBLOCKS then Some (SYSERR, s)
       else do {
         let start = last_block ptr s;
         let en = last_block newSize s;
         let cur = last_block (isize inodePtr) s;
         r \<leftarrow> fs_alloc (nat (en - cur)) (cur + 1) inodePtr s;
         case r of
           Inl s \<Rightarrow> Some (SYSERR, s)
         | Inr (inodePtr, s) \<Rightarrow> do {
             s \<leftarrow> fs_write_blocks (nat (en - start)) (start + 1) start en ptr newSize inodePtr buf s;
             Some (nbytes, s\<lparr>oft := (oft s)(fd := (oft s fd)\<lparr>fileptr := newSize, fin := grown inodePtr newSize\<rparr>)\<rparr>)
           }
       }
     })"

section \<open>The geometry of a mounted file system\<close>

text \<open>
  Block size \<open>B\<close> and number of blocks \<open>N\<close>: the device, the mask, \<^verbatim>\<open>fsd\<close> and the block cache
  lie apart, the mask has a bit for every block, and the inode blocks are below \<open>d\<close>.
\<close>

definition geom :: "fsstate \<Rightarrow> nat \<Rightarrow> nat \<Rightarrow> nat \<Rightarrow> bool" where
  "geom s B N d \<longleftrightarrow>
     blocksz s = int B \<and> dev0_blocksize s = int B \<and> nblocks s = int N \<and> 64 \<le> B \<and> B \<le> 512 \<and> N * B < 2 ^ 31
     \<and> mask_ok s \<and> N \<le> mbits s
     \<and> apart (fsd s) 604 (dev0_blocks s) (N * B)
     \<and> apart (freemask s) (nat (freemaskbytes s)) (dev0_blocks s) (N * B)
     \<and> apart (block_cache s) 512 (dev0_blocks s) (N * B)
     \<and> apart (block_cache s) 512 (fsd s) 604
     \<and> apart (block_cache s) 512 (freemask s) (nat (freemaskbytes s))
     \<and> FIRST_INODE_BLOCK + NUM_INODE_BLOCKS s = int d \<and> 2 \<le> d \<and> d \<le> N"

lemma geomD:
  assumes "geom s B N d"
  shows "blocksz s = int B" "dev0_blocksize s = int B" "nblocks s = int N" "64 \<le> B" "B \<le> 512" "N * B < 2 ^ 31"
    "mask_ok s" "N \<le> mbits s" "apart (fsd s) 604 (dev0_blocks s) (N * B)"
    "apart (freemask s) (nat (freemaskbytes s)) (dev0_blocks s) (N * B)"
    "apart (block_cache s) 512 (dev0_blocks s) (N * B)"
    "s32 (FIRST_INODE_BLOCK + NUM_INODE_BLOCKS s) = int d" "d \<le> N" "0 < B" "FIRST_INODE_BLOCK + NUM_INODE_BLOCKS s = int d"
proof -
  have g: "N * B < 2 ^ 31" "64 \<le> B" "d \<le> N" "FIRST_INODE_BLOCK + NUM_INODE_BLOCKS s = int d" using assms unfolding geom_def by simp_all
  have "N * 1 \<le> N * B" by (rule mult_le_mono2) (use g(2) in simp)
  then have "d < 2 ^ 31" using g(1,3) by linarith
  then have "int32 (int d)" by (simp add: int32_def)
  then show "s32 (FIRST_INODE_BLOCK + NUM_INODE_BLOCKS s) = int d" using g(4) by (simp add: s32_id)
qed (use assms in \<open>simp_all add: geom_def\<close>)

text \<open>States that differ in memory outside \<^verbatim>\<open>fsd\<close>, in the heap and in the file table only.\<close>

definition same_dev :: "fsstate \<Rightarrow> fsstate \<Rightarrow> bool" where
  "same_dev s t \<longleftrightarrow> same_fsd s t \<and> dev0_blocksize t = dev0_blocksize s \<and> dev0_blocks t = dev0_blocks s
     \<and> block_cache t = block_cache s"

lemma same_dev_fields:
  assumes "same_dev s t"
  shows "nblocks t = nblocks s" "blocksz t = blocksz s" "ninodes t = ninodes s" "inodes_used t = inodes_used s"
    "freemaskbytes t = freemaskbytes s" "freemask t = freemask s" "numentries t = numentries s" "fsd t = fsd s" "entry t = entry s"
    "dev0_blocksize t = dev0_blocksize s" "dev0_blocks t = dev0_blocks s" "block_cache t = block_cache s"
  using same_fsd_fields [of s t] assms by (simp_all add: same_dev_def)

lemma same_dev_geom:
  assumes "same_dev s t" "geom s B N d"
  shows "geom t B N d"
proof -
  have m: "mask_ok t = mask_ok s" "mbits t = mbits s"
    using same_fsd_mask [of s t] assms(1) by (simp_all only: same_dev_def)
  have "NUM_INODE_BLOCKS t = NUM_INODE_BLOCKS s"
    by (simp only: NUM_INODE_BLOCKS_def INODES_PER_BLOCK_def same_dev_fields [OF assms(1)])
  then show ?thesis using assms(2) by (simp only: geom_def m same_dev_fields [OF assms(1)])
qed

lemma same_dev_refl [simp]: "same_dev s s" by (simp add: same_dev_def)

lemma same_dev_trans: "same_dev s t \<Longrightarrow> same_dev t u \<Longrightarrow> same_dev s u"
  by (auto simp: same_dev_def intro: same_fsd_trans)

lemma same_dev_heap [simp]: "same_dev s (s\<lparr>fheap := h\<rparr>)" and same_dev_oft [simp]: "same_dev s (s\<lparr>oft := f\<rparr>)"
  by (simp_all add: same_dev_def same_fsd_def)

abbreviation daddr :: "fsstate \<Rightarrow> nat \<Rightarrow> uint32" where
  "daddr s x \<equiv> dev0_blocks s + of_nat x"

lemma block_in_dev: "b < N \<Longrightarrow> b * B + B \<le> N * (B :: nat)"
  by (metis Suc_leI mult_Suc mult_le_mono1 add.commute)

lemma bs_bwrite_put:
  assumes "geom s B N d" "b < N" "off + sz \<le> B" "off < B" "apart buf sz (dev0_blocks s) (N * B)"
  shows "bs_bwrite dev0 (int b) (int off) buf (int sz) s
    = (OK, s\<lparr>fmem := put (fmem s) (daddr s (b * B + off)) (block (fmem s) buf sz)\<rparr>)"
proof -
  have "apart (buf + of_nat 0) sz (dev0_blocks s + of_nat (b * B + off)) sz"
    by (rule apart_sub [OF assms(5)]) (use assms(3) block_in_dev [OF assms(2), of B] in auto)
  then have "apart (daddr s (b * B + off)) sz buf sz" by (simp add: apart_sym)
  then show ?thesis
    using assms(4) geomD(2) [OF assms(1)] by (simp add: bs_bwrite_def dev0_def memcpy_put add.assoc)
qed

lemma bs_bread_put:
  assumes "geom s B N d" "b < N" "off + sz \<le> B" "off < B" "apart buf sz (dev0_blocks s) (N * B)"
  shows "bs_bread dev0 (int b) (int off) buf (int sz) s
    = (OK, s\<lparr>fmem := put (fmem s) buf (block (fmem s) (daddr s (b * B + off)) sz)\<rparr>)"
proof -
  have "apart (buf + of_nat 0) sz (dev0_blocks s + of_nat (b * B + off)) sz"
    by (rule apart_sub [OF assms(5)]) (use assms(3) block_in_dev [OF assms(2), of B] in auto)
  then have "apart buf sz (daddr s (b * B + off)) sz" by simp
  then show ?thesis
    using assms(4) geomD(2) [OF assms(1)] by (simp add: bs_bread_def dev0_def memcpy_put add.assoc)
qed

lemma same_dev_put:
  assumes "apart (fsd s) 604 p (length xs)"
  shows "same_dev s (s\<lparr>fmem := put (fmem s) p xs\<rparr>)"
  using block_put_apart [OF assms] by (simp add: same_dev_def same_fsd_def)

lemma same_dev_put_dev:
  assumes "geom s B N d" "x + length xs \<le> N * B"
  shows "same_dev s (s\<lparr>fmem := put (fmem s) (daddr s x) xs\<rparr>)"
proof (rule same_dev_put)
  have "apart (fsd s + of_nat 0) 604 (daddr s x) (length xs)"
    by (rule apart_sub [OF geomD(9) [OF assms(1)]]) (use assms in auto)
  then show "apart (fsd s) 604 (daddr s x) (length xs)" by simp
qed

section \<open>Transfers between a buffer and a file's blocks\<close>

text \<open>
  \<open>plan\<close>: the loop of a transfer over \<open>k\<close> blocks from file block \<open>i\<close> on moves, in its step \<open>j\<close>,
  \<open>sz j\<close> bytes at offset \<open>off j\<close> of disk block \<open>bk j\<close>.
\<close>

definition plan ::
  "fsstate \<Rightarrow> nat \<Rightarrow> nat \<Rightarrow> nat \<Rightarrow> nat \<Rightarrow> int \<Rightarrow> int \<Rightarrow> int \<Rightarrow> int \<Rightarrow> inode \<Rightarrow> (nat \<Rightarrow> nat) \<Rightarrow> (nat \<Rightarrow> nat) \<Rightarrow> (nat \<Rightarrow> nat) \<Rightarrow> bool" where
  "plan s B N k i start en ptr newSize n bk off sz \<longleftrightarrow> i + k \<le> 12 \<and>
     (\<forall>j<k. chunk (int (i + j)) start en ptr newSize s = (int (off j), int (sz j)) \<and> off j < B \<and> off j + sz j \<le> B
        \<and> iblocks n ! (i + j) = int (bk j) \<and> bk j < N)"

lemma chunk_cong: "blocksz t = blocksz s \<Longrightarrow> chunk i start en ptr newSize t = chunk i start en ptr newSize s"
  by (simp add: chunk_def)

lemma plan_Suc:
  assumes "plan s B N (Suc k) i start en ptr newSize n bk off sz" "blocksz t = blocksz s"
  shows "plan t B N k (Suc i) start en ptr newSize n (bk \<circ> Suc) (off \<circ> Suc) (sz \<circ> Suc)"
    "chunk (int i) start en ptr newSize s = (int (off 0), int (sz 0))" "off 0 < B" "off 0 + sz 0 \<le> B"
    "iblocks n ! i = int (bk 0)" "bk 0 < N" "i < 12"
proof -
  show "plan t B N k (Suc i) start en ptr newSize n (bk \<circ> Suc) (off \<circ> Suc) (sz \<circ> Suc)"
    unfolding plan_def
  proof (intro conjI allI impI)
    fix j assume "j < k"
    then have "chunk (int (i + Suc j)) start en ptr newSize s = (int (off (Suc j)), int (sz (Suc j))) \<and> off (Suc j) < B
      \<and> off (Suc j) + sz (Suc j) \<le> B \<and> iblocks n ! (i + Suc j) = int (bk (Suc j)) \<and> bk (Suc j) < N"
      using assms(1) unfolding plan_def by (blast intro: Suc_less_eq [THEN iffD2])
    then show "chunk (int (Suc i + j)) start en ptr newSize t = (int ((off \<circ> Suc) j), int ((sz \<circ> Suc) j))"
      "(off \<circ> Suc) j < B" "(off \<circ> Suc) j + (sz \<circ> Suc) j \<le> B"
      "iblocks n ! (Suc i + j) = int ((bk \<circ> Suc) j)" "(bk \<circ> Suc) j < N"
      using chunk_cong [OF assms(2)] by simp_all
  qed (use assms in \<open>simp add: plan_def\<close>)
qed (use assms in \<open>auto simp: plan_def\<close>)

lemma plan_sum:
  assumes "plan s B N k i start en ptr newSize n bk off sz" "j < k" "r < sz j"
  shows "(\<Sum>l<j. sz l) + r < k * B"
proof -
  have c: "sz l \<le> B" if "l < k" for l using assms(1) that by (auto simp: plan_def)
  have "(\<Sum>l<j. sz l) \<le> (\<Sum>l<j. B)" by (rule sum_mono) (use c assms(2) in auto)
  then have "(\<Sum>l<j. sz l) + r < j * B + B" using c [OF assms(2)] assms(3) by simp
  also have "\<dots> \<le> k * B" using block_in_dev [OF assms(2), of B] .
  finally show ?thesis .
qed

lemma all_less_Suc0: "(\<forall>j<Suc k. P j) \<longleftrightarrow> P 0 \<and> (\<forall>j<k. P (Suc j))"
  using less_Suc_eq_0_disj by auto

lemma apart_ne: "apart p n q k \<Longrightarrow> i < n \<Longrightarrow> j < k \<Longrightarrow> p + of_nat i \<noteq> q + of_nat j"
  by (simp add: apart_def)

lemma in_block: "b < N \<Longrightarrow> r < B \<Longrightarrow> b * B + r < N * (B :: nat)"
  using block_in_dev [of b N B] by simp

lemma daddr_ne:
  assumes "geom s B N d" "b < N" "c < N" "b \<noteq> c" "r < B" "q < B"
  shows "daddr s (b * B + r) \<noteq> daddr s (c * B + q)"
proof -
  have "b * B + r \<noteq> c * B + q"
    using assms(4-6) by (metis div_mult_self3 div_less add.commute add_0_right gr_implies_not0)
  moreover have "b * B + r < 2 ^ 32" "c * B + q < 2 ^ 32"
    using in_block [OF assms(2,5)] in_block [OF assms(3,6)] geomD(6) [OF assms(1)] by simp_all
  ultimately have "(of_nat (b * B + r) :: uint32) \<noteq> of_nat (c * B + q)" by (simp only: of_nat_word_inj not_False_eq_True)
  then show ?thesis by simp
qed

lemma write_blocks:
  assumes "geom s B N d" "plan s B N k i start en ptr newSize n bk off sz" "inj_on bk {..<k}"
    "apart buf (k * B) (dev0_blocks s) (N * B)"
  shows "\<exists>m'. fs_write_blocks k (int i) start en ptr newSize n buf s = Some (s\<lparr>fmem := m'\<rparr>)
    \<and> (\<forall>j<k. \<forall>r < sz j. m' (daddr s (bk j * B + (off j + r))) = fmem s (buf + of_nat ((\<Sum>l<j. sz l) + r)))
    \<and> (\<forall>a. (\<forall>j<k. \<forall>r < sz j. a \<noteq> daddr s (bk j * B + (off j + r))) \<longrightarrow> m' a = fmem s a)"
  using assms
proof (induction k arbitrary: s i bk off sz buf)
  case 0
  then show ?case by (simp add: exI [of _ "fmem s"])
next
  case (Suc k)
  let ?x = "bk 0 * B + off 0"
  let ?s1 = "s\<lparr>fmem := put (fmem s) (daddr s ?x) (block (fmem s) buf (sz 0))\<rparr>"
  note P = plan_Suc [OF Suc.prems(2) refl]
  have x: "?x + sz 0 \<le> N * B" using block_in_dev [OF P(6), of B] P(4) by simp
  have sd: "same_dev s ?s1" by (rule same_dev_put_dev [OF Suc.prems(1)]) (use x in simp)
  have B: "apart (buf + of_nat 0) (sz 0) (dev0_blocks s + of_nat 0) (N * B)"
    by (rule apart_sub [OF Suc.prems(4)]) (use P(4) in auto)
  have A: "apart (buf + of_nat (sz 0)) (k * B) (dev0_blocks s + of_nat 0) (N * B)"
    by (rule apart_sub [OF Suc.prems(4)]) (use P(4) in auto)
  have w: "bs_bwrite dev0 (int (bk 0)) (int (off 0)) buf (int (sz 0)) s = (OK, ?s1)"
    using bs_bwrite_put [OF Suc.prems(1) P(6,4,3)] B by simp
  have inj: "inj_on (bk \<circ> Suc) {..<k}" using Suc.prems(3) by (auto simp: inj_on_def)
  obtain m' where m': "fs_write_blocks k (int (Suc i)) start en ptr newSize n (buf + of_nat (sz 0)) ?s1 = Some (?s1\<lparr>fmem := m'\<rparr>)"
    "\<forall>j<k. \<forall>r < sz (Suc j). m' (daddr s (bk (Suc j) * B + (off (Suc j) + r))) = fmem ?s1 (buf + of_nat (sz 0) + of_nat ((\<Sum>l<j. sz (Suc l)) + r))"
    "\<forall>a. (\<forall>j<k. \<forall>r < sz (Suc j). a \<noteq> daddr s (bk (Suc j) * B + (off (Suc j) + r))) \<longrightarrow> m' a = fmem ?s1 a"
    using Suc.IH [OF same_dev_geom [OF sd Suc.prems(1)] plan_Suc(1) [OF Suc.prems(2) same_dev_fields(2) [OF sd]] inj, of "buf + of_nat (sz 0)"] A
    by auto
  have run: "fs_write_blocks (Suc k) (int i) start en ptr newSize n buf s = Some (s\<lparr>fmem := m'\<rparr>)"
    using m'(1) P(2,5,7) w by (simp add: INODEBLOCKS_def Let_def add.commute)
  have out: "fmem ?s1 a = fmem s a" if "\<forall>r < sz 0. a \<noteq> daddr s (?x + r)" for a
    using that by (auto simp: add.assoc intro!: put_other)
  have src: "fmem ?s1 (buf + of_nat y) = fmem s (buf + of_nat y)" if "y < Suc k * B" for y
  proof (rule out, intro allI impI)
    fix r assume "r < sz 0"
    then show "buf + of_nat y \<noteq> daddr s (?x + r)" using apart_ne [OF Suc.prems(4) that, of "?x + r"] x by simp
  qed
  have sum: "(\<Sum>l<j. sz (Suc l)) + r < k * B" if "j < k" "r < sz (Suc j)" for j r
    using plan_sum [OF P(1), of j r] that by simp
  have first: "m' (daddr s (bk 0 * B + (off 0 + r))) = fmem s (buf + of_nat r)" if "r < sz 0" for r
  proof -
    have "daddr s (bk 0 * B + (off 0 + r)) \<noteq> daddr s (bk (Suc j) * B + (off (Suc j) + q))" if "j < k" "q < sz (Suc j)" for j q
    proof (rule daddr_ne [OF Suc.prems(1)])
      show "bk 0 \<noteq> bk (Suc j)" using Suc.prems(3) \<open>j < k\<close> by (auto simp: inj_on_def)
      show "bk 0 < N" "off 0 + r < B" using P(4,6) \<open>r < sz 0\<close> by simp_all
      show "bk (Suc j) < N" "off (Suc j) + q < B"
        using Suc.prems(2) that by (auto simp: plan_def dest!: spec [of _ "Suc j"])
    qed
    then have "m' (daddr s (bk 0 * B + (off 0 + r))) = fmem ?s1 (daddr s (bk 0 * B + (off 0 + r)))" using m'(3) by blast
    also have "\<dots> = fmem s (buf + of_nat r)"
      using put_nth [of "block (fmem s) buf (sz 0)" r "fmem s" "daddr s ?x"] that P(4) geomD(5) [OF Suc.prems(1)]
      by (simp add: nth_block add.assoc)
    finally show ?thesis .
  qed
  have rest: "m' (daddr s (bk (Suc j) * B + (off (Suc j) + r))) = fmem s (buf + of_nat ((\<Sum>l<Suc j. sz l) + r))"
    if "j < k" "r < sz (Suc j)" for j r
  proof -
    have "sz 0 + ((\<Sum>l<j. sz (Suc l)) + r) < Suc k * B" using sum [OF that] P(4) by simp
    then show ?thesis using m'(2) that src [of "sz 0 + ((\<Sum>l<j. sz (Suc l)) + r)"]
      by (simp add: sum.lessThan_Suc_shift add.assoc del: sum.lessThan_Suc)
  qed
  show ?case
  proof (intro exI conjI)
    show "fs_write_blocks (Suc k) (int i) start en ptr newSize n buf s = Some (s\<lparr>fmem := m'\<rparr>)" by (rule run)
    show "\<forall>j<Suc k. \<forall>r < sz j. m' (daddr s (bk j * B + (off j + r))) = fmem s (buf + of_nat ((\<Sum>l<j. sz l) + r))"
      unfolding all_less_Suc0 using first rest by simp
    show "\<forall>a. (\<forall>j<Suc k. \<forall>r < sz j. a \<noteq> daddr s (bk j * B + (off j + r))) \<longrightarrow> m' a = fmem s a"
      unfolding all_less_Suc0 using m'(3) out by (simp add: add.assoc)
  qed
qed

lemma read_blocks:
  assumes "geom s B N d" "plan s B N k i start en ptr newSize n bk off sz"
    "apart buf (k * B) (dev0_blocks s) (N * B)" "apart (fsd s) 604 buf (k * B)" "i + k \<le> 12"
  shows "\<exists>m'. fs_read_blocks k (int i) start en ptr newSize n buf s = Some (s\<lparr>fmem := m'\<rparr>)
    \<and> (\<forall>j<k. \<forall>r < sz j. m' (buf + of_nat ((\<Sum>l<j. sz l) + r)) = fmem s (daddr s (bk j * B + (off j + r))))
    \<and> (\<forall>a. (\<forall>y < \<Sum>l<k. sz l. a \<noteq> buf + of_nat y) \<longrightarrow> m' a = fmem s a)"
  using assms
proof (induction k arbitrary: s i bk off sz buf)
  case 0
  then show ?case by (simp add: exI [of _ "fmem s"])
next
  case (Suc k)
  let ?x = "bk 0 * B + off 0"
  let ?xs = "block (fmem s) (daddr s ?x) (sz 0)"
  let ?s1 = "s\<lparr>fmem := put (fmem s) buf ?xs\<rparr>"
  note P = plan_Suc [OF Suc.prems(2) refl]
  have small: "Suc k * B < 2 ^ 32"
  proof -
    have "Suc k * B \<le> 12 * 512" by (rule mult_le_mono) (use Suc.prems(5) geomD(5) [OF Suc.prems(1)] in auto)
    then show ?thesis by simp
  qed
  have x: "?x + sz 0 \<le> N * B" using block_in_dev [OF P(6), of B] P(4) by simp
  have F: "apart (fsd s + of_nat 0) 604 (buf + of_nat 0) (sz 0)" "apart (fsd s + of_nat 0) 604 (buf + of_nat (sz 0)) (k * B)"
    by (rule apart_sub [OF Suc.prems(4)]; use P(4) in auto)+
  have A: "apart (buf + of_nat 0) (sz 0) (dev0_blocks s + of_nat 0) (N * B)" "apart (buf + of_nat (sz 0)) (k * B) (dev0_blocks s + of_nat 0) (N * B)"
    by (rule apart_sub [OF Suc.prems(3)]; use P(4) in auto)+
  have sd: "same_dev s ?s1" by (rule same_dev_put) (use F(1) in simp)
  have rd: "bs_bread dev0 (int (bk 0)) (int (off 0)) buf (int (sz 0)) s = (OK, ?s1)"
    using bs_bread_put [OF Suc.prems(1) P(6,4,3)] A(1) by simp
  obtain m' where m': "fs_read_blocks k (int (Suc i)) start en ptr newSize n (buf + of_nat (sz 0)) ?s1 = Some (?s1\<lparr>fmem := m'\<rparr>)"
    "\<forall>j<k. \<forall>r < sz (Suc j). m' (buf + of_nat (sz 0) + of_nat ((\<Sum>l<j. sz (Suc l)) + r)) = fmem ?s1 (daddr s (bk (Suc j) * B + (off (Suc j) + r)))"
    "\<forall>a. (\<forall>y < \<Sum>l<k. sz (Suc l). a \<noteq> buf + of_nat (sz 0) + of_nat y) \<longrightarrow> m' a = fmem ?s1 a"
    using Suc.IH [OF same_dev_geom [OF sd Suc.prems(1)] plan_Suc(1) [OF Suc.prems(2) same_dev_fields(2) [OF sd]], of "buf + of_nat (sz 0)"] A F Suc.prems(5)
    by auto
  have run: "fs_read_blocks (Suc k) (int i) start en ptr newSize n buf s = Some (s\<lparr>fmem := m'\<rparr>)"
    using m'(1) P(2,5,7) rd by (simp add: INODEBLOCKS_def Let_def add.commute)
  have out: "fmem ?s1 a = fmem s a" if "\<forall>r < sz 0. a \<noteq> buf + of_nat r" for a
    using that by (auto intro!: put_other)
  have first: "m' (buf + of_nat r) = fmem s (daddr s (bk 0 * B + (off 0 + r)))" if "r < sz 0" for r
  proof -
    have "buf + of_nat r \<noteq> buf + of_nat (sz 0) + (of_nat y :: uint32)" if y: "y < (\<Sum>l<k. sz (Suc l))" for y
    proof -
      have "(\<Sum>l<k. sz (Suc l)) \<le> (\<Sum>l<k. B)"
        by (rule sum_mono) (use Suc.prems(2) in \<open>auto simp: plan_def\<close>)
      then have "sz 0 + y < 2 ^ 32" using y small P(4) by simp
      moreover have "r < 2 ^ 32" "r \<noteq> sz 0 + y" using \<open>r < sz 0\<close> \<open>sz 0 + y < 2 ^ 32\<close> by simp_all
      ultimately have "(of_nat r :: uint32) \<noteq> of_nat (sz 0 + y)" by (simp only: of_nat_word_inj not_False_eq_True)
      then show ?thesis by (simp add: add.assoc)
    qed
    then have "m' (buf + of_nat r) = fmem ?s1 (buf + of_nat r)" using m'(3) by blast
    also have "\<dots> = ?xs ! r" using put_nth [of ?xs r "fmem s" buf] that P(4) geomD(5) [OF Suc.prems(1)] by simp
    finally show ?thesis using that by (simp add: nth_block add.assoc)
  qed
  have rest: "m' (buf + of_nat ((\<Sum>l<Suc j. sz l) + r)) = fmem s (daddr s (bk (Suc j) * B + (off (Suc j) + r)))"
    if "j < k" "r < sz (Suc j)" for j r
  proof -
    have "fmem ?s1 (daddr s (bk (Suc j) * B + (off (Suc j) + r))) = fmem s (daddr s (bk (Suc j) * B + (off (Suc j) + r)))"
    proof (rule out, intro allI impI)
      fix q assume "q < sz 0"
      have "bk (Suc j) * B + (off (Suc j) + r) < N * B"
        by (rule in_block) (use Suc.prems(2) that in \<open>auto simp: plan_def dest!: spec [of _ "Suc j"]\<close>)
      then show "daddr s (bk (Suc j) * B + (off (Suc j) + r)) \<noteq> buf + of_nat q"
        using apart_ne [OF A(1) \<open>q < sz 0\<close>, of "bk (Suc j) * B + (off (Suc j) + r)"] by (simp add: eq_commute)
    qed
    then show ?thesis using m'(2) that by (simp add: sum.lessThan_Suc_shift add.assoc del: sum.lessThan_Suc)
  qed
  show ?case
  proof (intro exI conjI)
    show "fs_read_blocks (Suc k) (int i) start en ptr newSize n buf s = Some (s\<lparr>fmem := m'\<rparr>)" by (rule run)
    show "\<forall>j<Suc k. \<forall>r < sz j. m' (buf + of_nat ((\<Sum>l<j. sz l) + r)) = fmem s (daddr s (bk j * B + (off j + r)))"
      unfolding all_less_Suc0 using first rest by simp
    show "\<forall>a. (\<forall>y < \<Sum>l<Suc k. sz l. a \<noteq> buf + of_nat y) \<longrightarrow> m' a = fmem s a"
    proof (intro allI impI)
      fix a assume a: "\<forall>y < \<Sum>l<Suc k. sz l. a \<noteq> buf + of_nat y"
      have "a \<noteq> buf + of_nat (sz 0) + of_nat y" if "y < (\<Sum>l<k. sz (Suc l))" for y
        using a [rule_format, of "sz 0 + y"] that by (simp add: sum.lessThan_Suc_shift add.assoc del: sum.lessThan_Suc)
      moreover have "a \<noteq> buf + of_nat r" if "r < sz 0" for r
        using a [rule_format, of r] that by (simp add: sum.lessThan_Suc_shift del: sum.lessThan_Suc)
      ultimately show "m' a = fmem s a" using m'(3) out by auto
    qed
  qed
qed

section \<open>Allocation of blocks\<close>

lemma find_free:
  "\<exists>r. fs_find_free k (int j) s = int r \<and> j \<le> r \<and> r \<le> j + k \<and> (r < j + k \<longrightarrow> \<not> inuse s r) \<and> (\<forall>x. j \<le> x \<and> x < r \<longrightarrow> inuse s x)"
proof (induction k arbitrary: j)
  case 0
  then show ?case by auto
next
  case (Suc k)
  show ?case
  proof (cases "inuse s j")
    case True
    obtain r where r: "fs_find_free k (int (Suc j)) s = int r" "Suc j \<le> r" "r \<le> Suc j + k" "r < Suc j + k \<longrightarrow> \<not> inuse s r"
      "\<forall>x. Suc j \<le> x \<and> x < r \<longrightarrow> inuse s x"
      using Suc.IH [of "Suc j"] by blast
    have "inuse s x" if "j \<le> x" "x < r" for x using r(5) True that by (cases "x = j") auto
    then show ?thesis using True r by (intro exI [of _ r]) (auto simp: fs_getmaskbit_inuse add.commute)
  next
    case False
    then show ?thesis by (intro exI [of _ j]) (auto simp: fs_getmaskbit_inuse)
  qed
qed

definition in_mask :: "fsstate \<Rightarrow> uint32 \<Rightarrow> bool" where
  "in_mask s a \<longleftrightarrow> (\<exists>x<nat (freemaskbytes s). a = freemask s + of_nat x)"

text \<open>Only bytes of the mask differ.\<close>

definition only_mask :: "fsstate \<Rightarrow> fsstate \<Rightarrow> bool" where
  "only_mask s t \<longleftrightarrow> same_dev s t \<and> t = s\<lparr>fmem := fmem t\<rparr> \<and> (\<forall>a. \<not> in_mask s a \<longrightarrow> fmem t a = fmem s a)"

lemma only_mask_refl [simp]: "only_mask s s" by (simp add: only_mask_def)

lemma only_mask_trans: "only_mask s t \<Longrightarrow> only_mask t u \<Longrightarrow> only_mask s u"
  unfolding only_mask_def in_mask_def using same_dev_trans same_dev_fields(5,6) [of s t]
  by (metis (no_types, lifting) fsstate.update_convs(2) fsstate.surjective)

lemma setmask_only:
  assumes "mask_ok s" "n < mbits s"
  shows "only_mask s (snd (fs_setmaskbit (int n) s))"
proof -
  have "n div 8 < nat (freemaskbytes s)" using assms(2) by (simp add: mbits_def less_mult_imp_div_less mult.commute)
  then have "in_mask s (maskaddr s n)" unfolding in_mask_def maskaddr_def by blast
  moreover have "same_dev s (snd (fs_setmaskbit (int n) s))"
    using setmask_same_fsd [OF assms] by (simp add: same_dev_def setmask_form)
  ultimately show ?thesis by (auto simp: only_mask_def setmask_form)
qed

text \<open>What \<open>fs_alloc\<close> does to an inode: blocks \<open>i\<close> to \<open>i + k - 1\<close> become distinct free data blocks.\<close>

definition fresh_blocks :: "fsstate \<Rightarrow> nat \<Rightarrow> nat \<Rightarrow> nat \<Rightarrow> nat \<Rightarrow> inode \<Rightarrow> inode \<Rightarrow> (nat \<Rightarrow> nat) \<Rightarrow> bool" where
  "fresh_blocks s d N k i n n' bk \<longleftrightarrow>
     n' = n\<lparr>iblocks := iblocks n'\<rparr> \<and> length (iblocks n') = 12 \<and> inj_on bk {..<k}
     \<and> (\<forall>j<k. iblocks n' ! (i + j) = int (bk j) \<and> d \<le> bk j \<and> bk j < N \<and> bk j \<notin> fm.used s)
     \<and> (\<forall>x. x < i \<or> i + k \<le> x \<longrightarrow> iblocks n' ! x = iblocks n ! x)"

lemma alloc_blocks:
  assumes "geom s B N d" "length (iblocks n) = 12" "i + k \<le> 12"
  shows "\<exists>t. (fs_alloc k (int i) n s = Some (Inl t) \<and> only_mask s t \<and> fm.used s \<subseteq> fm.used t \<and> card ({d..<N} - fm.used s) < k)
    \<or> (\<exists>n' bk. fs_alloc k (int i) n s = Some (Inr (n', t)) \<and> only_mask s t \<and> fm.used t = fm.used s \<union> bk ` {..<k}
        \<and> fresh_blocks s d N k i n n' bk)"
  using assms
proof (induction k arbitrary: s i n)
  case 0
  then show ?case by (simp add: fresh_blocks_def)
next
  case (Suc k)
  note G = geomD [OF Suc.prems(1)]
  obtain r where r: "fs_find_free (N - d) (int d) s = int r" "d \<le> r" "r \<le> d + (N - d)"
      "r < d + (N - d) \<longrightarrow> \<not> inuse s r" "\<forall>x. d \<le> x \<and> x < r \<longrightarrow> inuse s x"
    using find_free [of "N - d" d s] by blast
  have f: "fs_find_free (nat (nblocks s - s32 (FIRST_INODE_BLOCK + NUM_INODE_BLOCKS s))) (s32 (FIRST_INODE_BLOCK + NUM_INODE_BLOCKS s)) s = int r"
    using r(1) G(13) by (simp add: G(3,12) flip: of_nat_diff)
  show ?case
  proof (cases "r = N")
    case True
    then have "{d..<N} - fm.used s = {}" using r(5) G(8) by (auto simp: fm.used_def)
    then have "card ({d..<N} - fm.used s) < Suc k" by (simp only: card.empty zero_less_Suc)
    then show ?thesis using f True G(3) by (auto simp: Let_def intro!: exI [of _ s])
  next
    case False
    then have rN: "r < N" "r < mbits s" "r \<notin> fm.used s" using r(3,4) G(8,13) by (auto simp: fm.used_def)
    let ?s = "snd (fs_setmaskbit (int r) s)" and ?n = "n\<lparr>iblocks := (iblocks n)[i := int r]\<rparr>"
    have om: "only_mask s ?s" by (rule setmask_only [OF G(7) rN(2)])
    have u: "fm.used ?s = insert r (fm.used s)" by (rule fm.used_mark [OF G(7) rN(2)])
    have g: "geom ?s B N d" using same_dev_geom [OF _ Suc.prems(1)] om unfolding only_mask_def by blast
    have step: "fs_alloc (Suc k) (int i) n s = fs_alloc k (int (Suc i)) ?n ?s"
      using f rN(1) G(3) Suc.prems(3) by (simp add: Let_def INODEBLOCKS_def add.commute)
    obtain t where t: "(fs_alloc k (int (Suc i)) ?n ?s = Some (Inl t) \<and> only_mask ?s t \<and> fm.used ?s \<subseteq> fm.used t \<and> card ({d..<N} - fm.used ?s) < k)
      \<or> (\<exists>n' bk. fs_alloc k (int (Suc i)) ?n ?s = Some (Inr (n', t)) \<and> only_mask ?s t \<and> fm.used t = fm.used ?s \<union> bk ` {..<k}
          \<and> fresh_blocks ?s d N k (Suc i) ?n n' bk)"
      using Suc.IH [OF g, of ?n "Suc i"] Suc.prems(2,3) by auto
    then show ?thesis
    proof (elim disjE exE conjE)
      assume A: "fs_alloc k (int (Suc i)) ?n ?s = Some (Inl t)" "only_mask ?s t" "fm.used ?s \<subseteq> fm.used t" "card ({d..<N} - fm.used ?s) < k"
      have "{d..<N} - fm.used s = insert r ({d..<N} - fm.used ?s)" using u rN(1,3) r(2) by auto
      then have "card ({d..<N} - fm.used s) \<le> Suc (card ({d..<N} - fm.used ?s))" by (simp only: card_insert_le_m1 card_insert_if)
      then have "card ({d..<N} - fm.used s) < Suc k" using A(4) by linarith
      moreover have "fm.used s \<subseteq> fm.used t" using A(3) u by blast
      moreover have "fs_alloc (Suc k) (int i) n s = Some (Inl t)" by (simp only: step A(1))
      ultimately show ?thesis using only_mask_trans [OF om A(2)] by blast
    next
      fix n' bk assume A: "fs_alloc k (int (Suc i)) ?n ?s = Some (Inr (n', t))" "only_mask ?s t"
        "fm.used t = fm.used ?s \<union> bk ` {..<k}" "fresh_blocks ?s d N k (Suc i) ?n n' bk"
      let ?bk = "case_nat r bk"
      have im: "?bk ` {..<Suc k} = insert r (bk ` {..<k})" by (auto simp: lessThan_Suc_eq_insert_0 image_image)
      have inj: "inj_on ?bk {..<Suc k}"
        using A(4) u by (auto simp: fresh_blocks_def inj_on_def split: nat.splits)
      have "fresh_blocks s d N (Suc k) i n n' ?bk"
        unfolding fresh_blocks_def all_less_Suc0
      proof (intro conjI inj)
        show "n' = n\<lparr>iblocks := iblocks n'\<rparr>" using A(4) by (simp add: fresh_blocks_def)
        show "\<forall>x. x < i \<or> i + Suc k \<le> x \<longrightarrow> iblocks n' ! x = iblocks n ! x"
          using A(4) by (simp add: fresh_blocks_def)
        have "iblocks n' ! i = iblocks ?n ! i" using A(4) unfolding fresh_blocks_def by blast
        then show "iblocks n' ! (i + 0) = int (?bk 0)" using Suc.prems(2,3) by simp
      qed (use A(4) rN r(2) u in \<open>auto simp: fresh_blocks_def\<close>)
      moreover have "fm.used t = fm.used s \<union> ?bk ` {..<Suc k}" using A(3) u im by auto
      moreover have "fs_alloc (Suc k) (int i) n s = Some (Inr (n', t))" by (simp only: step A(1))
      ultimately show ?thesis using only_mask_trans [OF om A(2)] by blast
    qed
  qed
qed

section \<open>Open files\<close>

text \<open>The number of blocks that \<open>p\<close> bytes take.\<close>

definition cdiv :: "nat \<Rightarrow> nat \<Rightarrow> nat" where "cdiv p B = (p + B - 1) div B"

lemma cdiv_less: "0 < B \<Longrightarrow> x < cdiv p B \<longleftrightarrow> x * B < p"
  by (auto simp: cdiv_def less_eq_div_iff_mult_less_eq Suc_le_eq [symmetric])

lemma cdiv_le: "0 < B \<Longrightarrow> p \<le> c * B \<Longrightarrow> cdiv p B \<le> c"
  by (meson cdiv_less not_less)

lemma cdiv_cases: "0 < B \<Longrightarrow> cdiv p B = (if p mod B = 0 then p div B else p div B + 1)"
proof -
  assume B: "0 < B"
  have "x < cdiv p B \<longleftrightarrow> x < (if p mod B = 0 then p div B else p div B + 1)" for x
  proof (cases "p mod B = 0")
    case True
    then have "p = p div B * B" using div_mult_mod_eq [of p B] by simp
    then have "x * B < p \<longleftrightarrow> x < p div B" using B by (metis mult_less_cancel2)
    then show ?thesis using True B by (simp add: cdiv_less)
  next
    case False
    then have "x * B < p \<longleftrightarrow> x \<le> p div B"
      using B by (metis less_eq_div_iff_mult_less_eq mod_mult_self2_is_0 nless_le mult.commute)
    then show ?thesis using False B by (simp add: cdiv_less less_Suc_eq_le)
  qed
  moreover have "(\<And>x. x < a \<longleftrightarrow> x < b) \<Longrightarrow> a = b" for a b :: nat by (metis less_irrefl nat_neq_iff)
  ultimately show ?thesis by blast
qed

lemma cdiv_mono: "p \<le> q \<Longrightarrow> cdiv p B \<le> cdiv q B" by (simp add: cdiv_def div_le_mono)

lemma last_block_cdiv: "geom s B N d \<Longrightarrow> last_block (int p) s = int (cdiv p B) - 1"
  using geomD(1,14) [of s B N d] by (simp add: last_block_def cdiv_cases sdiv_nonneg smod_nonneg zdiv_int flip: of_nat_mod)

definition fblk :: "inode \<Rightarrow> nat \<Rightarrow> nat" where
  "fblk n x = nat (iblocks n ! x)"

definition owned :: "nat \<Rightarrow> inode \<Rightarrow> nat set" where
  "owned B n = fblk n ` {..<cdiv (nat (isize n)) B}"

text \<open>An inode whose blocks up to its size are distinct data blocks marked in the mask.\<close>

definition inode_ok :: "fsstate \<Rightarrow> nat \<Rightarrow> nat \<Rightarrow> nat \<Rightarrow> inode \<Rightarrow> bool" where
  "inode_ok s B N d n \<longleftrightarrow> length (iblocks n) = 12 \<and> 0 \<le> isize n \<and> isize n < 12 * int B
     \<and> inj_on (fblk n) {..<cdiv (nat (isize n)) B} \<and> (\<forall>x<cdiv (nat (isize n)) B. 0 \<le> iblocks n ! x)
     \<and> owned B n \<subseteq> {d..<N} \<inter> fm.used s"

definition is_open :: "fsstate \<Rightarrow> int \<Rightarrow> bool" where
  "is_open s fd \<longleftrightarrow> 0 \<le> fd \<and> fd < NUM_FD \<and> fstate (oft s fd) = FSTATE_OPEN"

abbreviation finode :: "fsstate \<Rightarrow> int \<Rightarrow> inode" where "finode s fd \<equiv> fin (oft s fd)"

definition fsinv :: "fsstate \<Rightarrow> nat \<Rightarrow> nat \<Rightarrow> nat \<Rightarrow> bool" where
  "fsinv s B N d \<longleftrightarrow> geom s B N d
     \<and> (\<forall>fd. is_open s fd \<longrightarrow> inode_ok s B N d (finode s fd) \<and> 0 \<le> fileptr (oft s fd) \<and> fileptr (oft s fd) \<le> isize (finode s fd))
     \<and> (\<forall>fd fd'. is_open s fd \<and> is_open s fd' \<and> fd \<noteq> fd' \<longrightarrow> owned B (finode s fd) \<inter> owned B (finode s fd') = {})"

text \<open>The bytes of a file.\<close>

definition contents :: "fsstate \<Rightarrow> nat \<Rightarrow> inode \<Rightarrow> uchar list" where
  "contents s B n = map (\<lambda>p. fmem s (daddr s (fblk n (p div B) * B + p mod B))) [0..<nat (isize n)]"

definition coff :: "nat \<Rightarrow> nat \<Rightarrow> nat \<Rightarrow> nat" where
  "coff B ptr j = (if j = 0 then ptr mod B else 0)"

definition csz :: "nat \<Rightarrow> nat \<Rightarrow> nat \<Rightarrow> nat \<Rightarrow> nat \<Rightarrow> nat" where
  "csz B k ptr new j = (if j = 0 then B - ptr mod B else if Suc j = k then new mod B else B)"

lemma chunk_nat:
  assumes "geom s B N d" "k = cdiv new B - cdiv ptr B" "j < k"
  shows "chunk (int (cdiv ptr B + j)) (last_block (int ptr) s) (last_block (int new) s) (int ptr) (int new) s
    = (int (coff B ptr j), int (csz B k ptr new j))"
proof -
  have B: "0 < B" "blocksz s = int B" using geomD [OF assms(1)] by simp_all
  have m: "int p smod int B = int (p mod B)" for p by (simp add: smod_nonneg zmod_int)
  have "int B - int (ptr mod B) = int (B - ptr mod B)" using B by (simp add: of_nat_diff less_imp_le)
  moreover have "int (cdiv ptr B + j) = last_block (int new) s \<longleftrightarrow> Suc j = k"
    using assms(2,3) by (auto simp: last_block_cdiv [OF assms(1)])
  moreover have "int (cdiv ptr B + j) = last_block (int ptr) s + 1 \<longleftrightarrow> j = 0" by (simp add: last_block_cdiv [OF assms(1)])
  ultimately show ?thesis by (simp add: chunk_def m B coff_def csz_def)
qed

lemma plan_nat:
  assumes "geom s B N d" "k = cdiv new B - cdiv ptr B" "new < 12 * B" "ptr \<le> new"
    "\<forall>x<cdiv new B. 0 \<le> iblocks n ! x \<and> fblk n x < N"
  shows "plan s B N k (cdiv ptr B) (last_block (int ptr) s) (last_block (int new) s) (int ptr) (int new) n
    (\<lambda>j. fblk n (cdiv ptr B + j)) (coff B ptr) (csz B k ptr new)"
    "inj_on (fblk n) {..<cdiv new B} \<Longrightarrow> inj_on (\<lambda>j. fblk n (cdiv ptr B + j)) {..<k}"
    "cdiv ptr B + k = cdiv new B" "cdiv new B \<le> 12"
proof -
  have B: "0 < B" using geomD [OF assms(1)] by simp
  show 12: "cdiv new B \<le> 12" by (rule cdiv_le [OF B]) (use assms(3) in simp)
  show k: "cdiv ptr B + k = cdiv new B" using assms(2) cdiv_mono [OF assms(4), of B] by simp
  show "inj_on (\<lambda>j. fblk n (cdiv ptr B + j)) {..<k}" if inj: "inj_on (fblk n) {..<cdiv new B}"
  proof (rule inj_onI)
    fix x y assume "x \<in> {..<k}" "y \<in> {..<k}" "fblk n (cdiv ptr B + x) = fblk n (cdiv ptr B + y)"
    then show "x = y" using inj_onD [OF inj, of "cdiv ptr B + x" "cdiv ptr B + y"] k by simp
  qed
  show "plan s B N k (cdiv ptr B) (last_block (int ptr) s) (last_block (int new) s) (int ptr) (int new) n
    (\<lambda>j. fblk n (cdiv ptr B + j)) (coff B ptr) (csz B k ptr new)"
    unfolding plan_def
  proof (intro conjI allI impI)
    fix j assume j: "j < k"
    show "chunk (int (cdiv ptr B + j)) (last_block (int ptr) s) (last_block (int new) s) (int ptr) (int new) s
      = (int (coff B ptr j), int (csz B k ptr new j))" by (rule chunk_nat [OF assms(1,2) j])
    show "coff B ptr j < B" "coff B ptr j + csz B k ptr new j \<le> B" using B by (simp_all add: coff_def csz_def less_imp_le)
    show "iblocks n ! (cdiv ptr B + j) = int (fblk n (cdiv ptr B + j))" "fblk n (cdiv ptr B + j) < N"
      using assms(5) j k by (simp_all add: fblk_def)
  qed (use k 12 in simp)
qed

text \<open>
  Writing: either no data block is free, or the new blocks are taken from the free ones and
  the bytes go to the file's blocks, and nothing else changes.
\<close>

definition write_result ::
  "fsstate \<Rightarrow> nat \<Rightarrow> nat \<Rightarrow> nat \<Rightarrow> int \<Rightarrow> uint32 \<Rightarrow> nat \<Rightarrow> nat \<Rightarrow> memstate \<Rightarrow> inode \<Rightarrow> bytes \<Rightarrow> bool" where
  "write_result s B N d fd buf ptr new h n' m' \<longleftrightarrow>
     (let n = finode s fd; k = cdiv new B - cdiv ptr B;
          t = s\<lparr>fheap := h, fmem := m', oft := (oft s)(fd := (oft s fd)\<lparr>fileptr := int new, fin := n'\<rparr>)\<rparr>
      in n' = (grown n (int new))\<lparr>iblocks := iblocks n'\<rparr> \<and> inode_ok t B N d n' \<and> same_dev s t
       \<and> (\<forall>x<cdiv (nat (isize n)) B. fblk n' x = fblk n x)
       \<and> owned B n' \<inter> fm.used s \<subseteq> owned B n \<and> fm.used t = fm.used s \<union> owned B n'
       \<and> (\<forall>j<k. \<forall>r < csz B k ptr new j. m' (daddr s (fblk n' (cdiv ptr B + j) * B + (coff B ptr j + r)))
             = fmem s (buf + of_nat ((\<Sum>l<j. csz B k ptr new l) + r)))
       \<and> (\<forall>a. \<not> in_mask s a \<and> (\<forall>j<k. \<forall>r < csz B k ptr new j. a \<noteq> daddr s (fblk n' (cdiv ptr B + j) * B + (coff B ptr j + r)))
             \<longrightarrow> m' a = fmem s a))"

lemma fresh_inode:
  assumes "inode_ok s B N d n" "fresh_blocks s d N k c n n' bk" "c = cdiv (nat (isize n)) B"
  shows "\<forall>x<c. fblk n' x = fblk n x" "inj_on (fblk n') {..<c + k}" "\<forall>x<c + k. 0 \<le> iblocks n' ! x"
    "fblk n' ` {..<c + k} = owned B n \<union> bk ` {..<k}"
proof -
  have old: "fblk n' x = fblk n x" "0 \<le> iblocks n' ! x" "fblk n x \<in> fm.used s" if "x < c" for x
    using assms that by (auto simp: fresh_blocks_def fblk_def inode_ok_def owned_def)
  have new: "fblk n' (c + j) = bk j" "0 \<le> iblocks n' ! (c + j)" "bk j \<notin> fm.used s" if "j < k" for j
    using assms(2) that by (auto simp: fresh_blocks_def fblk_def)
  have split: "x < c \<or> (\<exists>j<k. x = c + j)" if "x < c + k" for x
    using that by (metis add_less_cancel_left le_Suc_ex not_less)
  show "\<forall>x<c. fblk n' x = fblk n x" using old by simp
  show "\<forall>x<c + k. 0 \<le> iblocks n' ! x" using old new split by blast
  show "fblk n' ` {..<c + k} = owned B n \<union> bk ` {..<k}"
  proof -
    have "{..<c + k} = {..<c} \<union> (\<lambda>j. c + j) ` {..<k}" using split by auto
    then have "fblk n' ` {..<c + k} = fblk n' ` {..<c} \<union> (\<lambda>j. fblk n' (c + j)) ` {..<k}"
      by (simp only: image_Un image_image)
    also have "\<dots> = fblk n ` {..<c} \<union> bk ` {..<k}" using old(1) new(1) by simp
    finally show ?thesis using assms(3) by (simp add: owned_def)
  qed
  have "inj_on (fblk n) {..<c}" "inj_on bk {..<k}" using assms by (simp_all add: inode_ok_def fresh_blocks_def)
  show "inj_on (fblk n') {..<c + k}"
  proof (rule inj_onI)
    fix x y assume "x \<in> {..<c + k}" "y \<in> {..<c + k}" and e: "fblk n' x = fblk n' y"
    then consider "x < c" "y < c" | j where "x < c" "j < k" "y = c + j" | j where "y < c" "j < k" "x = c + j"
      | i j where "i < k" "x = c + i" "j < k" "y = c + j"
      using split by blast
    then show "x = y"
    proof cases
      case 1
      then show ?thesis using e old(1) inj_onD [OF \<open>inj_on (fblk n) {..<c}\<close>, of x y] by simp
    next
      case (2 j)
      then show ?thesis using e old(1,3) [of x] new(1,3) [of j] by simp
    next
      case (3 j)
      then show ?thesis using e old(1,3) [of y] new(1,3) [of j] by simp
    next
      case (4 i j)
      then show ?thesis using e new(1) inj_onD [OF \<open>inj_on bk {..<k}\<close>, of i j] by simp
    qed
  qed
qed

lemma used_cong:
  assumes "same_dev s t" "\<And>a. in_mask s a \<Longrightarrow> fmem t a = fmem s a"
  shows "fm.used t = fm.used s"
proof -
  have "mbits t = mbits s" using same_dev_fields(5) [OF assms(1)] by (simp add: mbits_def)
  moreover have "inuse t k = inuse s k" if "k < mbits s" for k
  proof -
    have "k div 8 < nat (freemaskbytes s)" using that by (simp add: mbits_def less_mult_imp_div_less mult.commute)
    then have "in_mask s (maskaddr s k)" unfolding in_mask_def maskaddr_def by blast
    then show ?thesis using assms(2) same_dev_fields(6) [OF assms(1)] by (simp add: inuse_def maskaddr_def)
  qed
  ultimately show ?thesis by (auto simp: fm.used_def)
qed

lemma used_heap [simp]: "fm.used (s\<lparr>fheap := h\<rparr>) = fm.used s" and used_oft [simp]: "fm.used (s\<lparr>oft := f\<rparr>) = fm.used s"
  by (rule used_cong; simp)+

lemma mask_not_dev:
  assumes "geom s B N d" "in_mask s a" "x < N * B"
  shows "a \<noteq> daddr s x"
proof -
  obtain y where "y < nat (freemaskbytes s)" "a = freemask s + of_nat y" using assms(2) unfolding in_mask_def by blast
  then show ?thesis using apart_ne [OF geomD(10) [OF assms(1)] _ assms(3)] by simp
qed

text \<open>The hypotheses of a write: an open file, a granted inode buffer, a buffer apart from device and mask.\<close>

definition write_pre :: "fsstate \<Rightarrow> nat \<Rightarrow> nat \<Rightarrow> nat \<Rightarrow> int \<Rightarrow> uint32 \<Rightarrow> nat \<Rightarrow> nat \<Rightarrow> memstate \<Rightarrow> bool" where
  "write_pre s B N d fd buf ptr new h \<longleftrightarrow> fsinv s B N d \<and> is_open s fd \<and> fileptr (oft s fd) = int ptr \<and> ptr < new \<and> new < 12 * B
     \<and> (\<exists>a. getmem 64 (fheap s) = Some (a, h) \<and> a \<noteq> SYSERR_PTR)
     \<and> apart buf ((cdiv new B - cdiv ptr B) * B) (dev0_blocks s) (N * B)
     \<and> apart buf ((cdiv new B - cdiv ptr B) * B) (freemask s) (nat (freemaskbytes s))"

lemma write_preD:
  assumes "write_pre s B N d fd buf ptr new h"
  shows "geom s B N d" "is_open s fd" "inode_ok s B N d (finode s fd)" "fileptr (oft s fd) = int ptr" "ptr < new" "new < 12 * B"
    "\<exists>a. getmem 64 (fheap s) = Some (a, h) \<and> a \<noteq> SYSERR_PTR"
    "apart buf ((cdiv new B - cdiv ptr B) * B) (dev0_blocks s) (N * B)"
    "apart buf ((cdiv new B - cdiv ptr B) * B) (freemask s) (nat (freemaskbytes s))"
  using assms unfolding write_pre_def fsinv_def by blast+

lemma write_unfold:
  assumes "write_pre s B N d fd buf ptr new h"
  defines "c \<equiv> cdiv (nat (isize (finode s fd))) B"
  shows "fs_write fd buf (int (new - ptr)) s =
    (fs_alloc (cdiv new B - c) (int c) (finode s fd) (s\<lparr>fheap := h\<rparr>) \<bind> (\<lambda>r. case r of
       Inl t \<Rightarrow> Some (SYSERR, t)
     | Inr (n, t) \<Rightarrow>
        do { t \<leftarrow> fs_write_blocks (cdiv new B - cdiv ptr B) (int (cdiv ptr B)) (last_block (int ptr) s) (last_block (int new) s) (int ptr) (int new) n buf t;
             Some (int (new - ptr), t\<lparr>oft := (oft t)(fd := (oft t fd)\<lparr>fileptr := int new, fin := grown n (int new)\<rparr>)\<rparr>) }))"
proof -
  let ?s = "s\<lparr>fheap := h\<rparr>"
  note W = write_preD [OF assms(1)]
  have g: "geom ?s B N d" by (rule same_dev_geom [OF same_dev_heap W(1)])
  have B: "B \<le> 512" "0 < B" using geomD(5,14) [OF W(1)] by simp_all
  have bz: "blocksz ?s = int B" using geomD(1) [OF g] .
  have nw: "int new < 12 * int B" using W(6) by linarith
  have i32: "int32 (int new)" "int32 (int B * 12)" using nw B by (simp_all add: int32_def)
  have sz: "isize (finode s fd) = int (nat (isize (finode s fd)))" using W(3) by (simp add: inode_ok_def)
  have lb: "last_block p ?s = last_block p s" for p using bz geomD(1) [OF W(1)] by (simp add: last_block_def)
  have l: "last_block (int p) s = int (cdiv p B) - 1" for p by (rule last_block_cdiv [OF W(1)])
  have lc: "last_block (isize (finode s fd)) s = int c - 1" using l [of "nat (isize (finode s fd))"] sz by (simp add: c_def)
  obtain a where a: "getmem 64 (fheap s) = Some (a, h)" "a \<noteq> SYSERR_PTR" using W(7) by blast
  have o: "fd < NUM_FD" "0 \<le> fd" "fstate (oft s fd) = FSTATE_OPEN" using W(2) by (simp_all add: is_open_def)
  have np: "int ptr + int (new - ptr) = int new" using W(5) by simp
  have nd: "nat (int p - int q) = p - q" for p q by simp
  show ?thesis
    using o a i32 W(4,5) nw np B
    by (simp add: fs_write_def SIZEOF_INODE_def INODEBLOCKS_def bz lb l lc Let_def mult.commute nd of_nat_diff)
qed

lemma cdiv_max: "cdiv (max p q) B = max (cdiv p B) (cdiv q B)"
  by (metis cdiv_mono max_absorb1 max_absorb2 nat_le_linear)

lemma grown_facts:
  "iblocks (grown n v) = iblocks n" "isize (grown n v) = max (isize n) v" "fblk (grown n v) = fblk n"
  by (auto simp: grown_def fblk_def fun_eq_iff)

lemma grown_upd: "grown (n\<lparr>iblocks := b\<rparr>) v = (grown n v)\<lparr>iblocks := b\<rparr>"
  by (simp add: grown_def)

lemma nat_max_int: "0 \<le> a \<Longrightarrow> nat (max a (int b)) = max (nat a) b"
  by simp

lemma write_resultI:
  assumes W: "write_pre s B N d fd buf ptr new h"
  defines "n \<equiv> finode s fd" and "k \<equiv> cdiv new B - cdiv ptr B"
  defines "c \<equiv> cdiv (nat (isize n)) B"
  assumes A: "only_mask (s\<lparr>fheap := h\<rparr>) t" "fm.used t = fm.used (s\<lparr>fheap := h\<rparr>) \<union> bk ` {..<cdiv new B - c}"
      "fresh_blocks (s\<lparr>fheap := h\<rparr>) d N (cdiv new B - c) c n n1 bk"
    and M: "\<And>j r. j < k \<Longrightarrow> r < csz B k ptr new j \<Longrightarrow>
         m' (daddr s (fblk n1 (cdiv ptr B + j) * B + (coff B ptr j + r))) = fmem t (buf + of_nat ((\<Sum>l<j. csz B k ptr new l) + r))"
      "\<And>a. (\<forall>j<k. \<forall>r < csz B k ptr new j. a \<noteq> daddr s (fblk n1 (cdiv ptr B + j) * B + (coff B ptr j + r))) \<Longrightarrow> m' a = fmem t a"
    and P: "plan t B N k (cdiv ptr B) st en (int ptr) (int new) n1 (\<lambda>j. fblk n1 (cdiv ptr B + j)) (coff B ptr) (csz B k ptr new)"
  shows "write_result s B N d fd buf ptr new h (grown n1 (int new)) m'"
proof -
  let ?n' = "grown n1 (int new)"
  let ?t = "s\<lparr>fheap := h, fmem := m', oft := (oft s)(fd := (oft s fd)\<lparr>fileptr := int new, fin := ?n'\<rparr>)\<rparr>"
  note D = write_preD [OF W]
  have io: "inode_ok (s\<lparr>fheap := h\<rparr>) B N d n" using D(3) by (simp add: inode_ok_def n_def)
  note F = fresh_inode [OF io A(3) c_def [THEN meta_eq_to_obj_eq]]
  have n1: "n1 = n\<lparr>iblocks := iblocks n1\<rparr>" "length (iblocks n1) = 12" "isize n1 = isize n"
    using A(3) unfolding fresh_blocks_def by (metis inode.select_convs(5) inode.surjective inode.update_convs(6))+
  have sz: "0 \<le> isize n" "isize n < 12 * int B" using io by (simp_all add: inode_ok_def)
  have cd: "cdiv (nat (isize ?n')) B = c + (cdiv new B - c)"
    using sz(1) by (simp add: grown_facts n1(3) nat_max_int cdiv_max c_def)
  have own: "owned B ?n' = owned B n \<union> bk ` {..<cdiv new B - c}"
    using F(4) unfolding owned_def cd grown_facts(3) .
  have on: "owned B n \<subseteq> {d..<N} \<inter> fm.used s" using io by (simp add: inode_ok_def)
  have fr: "bk ` {..<cdiv new B - c} \<subseteq> {d..<N} - fm.used s" using A(3) by (auto simp: fresh_blocks_def)
  have tm: "fmem t a = fmem s a" if "\<not> in_mask s a" for a
    using A(1) that by (auto simp: only_mask_def in_mask_def fsd_fields)
  have dst: "fblk n1 (cdiv ptr B + j) * B + (coff B ptr j + r) < N * B" if "j < k" "r < csz B k ptr new j" for j r
    using P that unfolding plan_def by (intro in_block) (auto dest!: spec [of _ j])
  have mask: "m' a = fmem t a" if "in_mask s a" for a
    using mask_not_dev [OF D(1) that dst] by (intro M(2)) blast
  have sdt: "same_dev s t" using A(1) same_dev_trans [OF same_dev_heap] unfolding only_mask_def by blast
  have fsdm: "m' (fsd s + of_nat i) = fmem s (fsd s + of_nat i)" if "i < 604" for i
  proof -
    have "m' (fsd s + of_nat i) = fmem t (fsd s + of_nat i)"
      using apart_ne [OF geomD(9) [OF D(1)] that] dst by (intro M(2)) blast
    then show ?thesis using sdt that by (simp add: same_dev_def same_fsd_def block_eq_iff)
  qed
  have sd: "same_dev s ?t" using fsdm by (simp add: same_dev_def same_fsd_def block_eq_iff)
  have us: "fm.used ?t = fm.used s \<union> owned B ?n'"
  proof -
    have "same_dev t ?t" using sdt sd by (auto simp: same_dev_def same_fsd_def)
    then have "fm.used ?t = fm.used t"
      by (rule used_cong) (use mask same_dev_fields(5,6) [OF sdt] in \<open>auto simp: in_mask_def\<close>)
    then show ?thesis using A(2) own on by auto
  qed
  have buf: "fmem t (buf + of_nat y) = fmem s (buf + of_nat y)" if "y < k * B" for y
    using tm apart_ne [OF D(9)] that unfolding in_mask_def k_def by blast
  have 1: "?n' = (grown n (int new))\<lparr>iblocks := iblocks ?n'\<rparr>"
  proof -
    define b where "b = iblocks n1"
    have "n1 = n\<lparr>iblocks := b\<rparr>" using n1(1) by (simp add: b_def)
    then show ?thesis by (simp add: grown_upd)
  qed
  have 2: "inode_ok ?t B N d ?n'"
    unfolding inode_ok_def cd us using F(2,3) n1(2) sz D(6) own on fr by (auto simp: grown_facts n1(3))
  have 3: "\<forall>x<c. fblk ?n' x = fblk n x" "owned B ?n' \<inter> fm.used s \<subseteq> owned B n"
    using F(1) own fr by (auto simp: grown_facts)
  have 4: "\<forall>j<k. \<forall>r < csz B k ptr new j. m' (daddr s (fblk ?n' (cdiv ptr B + j) * B + (coff B ptr j + r)))
      = fmem s (buf + of_nat ((\<Sum>l<j. csz B k ptr new l) + r))"
    using M(1) buf plan_sum [OF P] by (simp only: grown_facts) metis
  have 5: "\<forall>a. \<not> in_mask s a \<and> (\<forall>j<k. \<forall>r < csz B k ptr new j. a \<noteq> daddr s (fblk ?n' (cdiv ptr B + j) * B + (coff B ptr j + r)))
      \<longrightarrow> m' a = fmem s a"
    using M(2) tm by (simp only: grown_facts) metis
  show ?thesis
    unfolding write_result_def Let_def by (fold n_def k_def) (intro conjI 1 2 sd 3(1) [unfolded c_def] 3(2) us 4 5)
qed

lemma write_cases:
  assumes W: "write_pre s B N d fd buf ptr new h"
  shows "(\<exists>t. fs_write fd buf (int (new - ptr)) s = Some (SYSERR, t) \<and> only_mask (s\<lparr>fheap := h\<rparr>) t \<and> fm.used s \<subseteq> fm.used t
        \<and> card ({d..<N} - fm.used s) < cdiv new B - cdiv (nat (isize (finode s fd))) B)
    \<or> (\<exists>n' m'. fs_write fd buf (int (new - ptr)) s
         = Some (int (new - ptr), s\<lparr>fheap := h, fmem := m', oft := (oft s)(fd := (oft s fd)\<lparr>fileptr := int new, fin := n'\<rparr>)\<rparr>)
       \<and> write_result s B N d fd buf ptr new h n' m')"
proof -
  let ?s = "s\<lparr>fheap := h\<rparr>" and ?n = "finode s fd"
  define c where "c = cdiv (nat (isize ?n)) B"
  let ?k = "cdiv new B - c" and ?j = "cdiv new B - cdiv ptr B"
  note D = write_preD [OF W] and U = write_unfold [OF W, folded c_def]
  have B: "0 < B" by (rule geomD(14) [OF D(1)])
  have g: "geom ?s B N d" by (rule same_dev_geom [OF same_dev_heap D(1)])
  have io: "inode_ok ?s B N d ?n" using D(3) by (simp add: inode_ok_def)
  have sz: "0 \<le> isize ?n" "length (iblocks ?n) = 12" "nat (isize ?n) < 12 * B" using D(3) by (simp_all add: inode_ok_def nat_less_iff)
  have c12: "c \<le> 12" "cdiv new B \<le> 12" unfolding c_def using sz(3) D(6) by (auto intro!: cdiv_le B)
  have ck: "c + ?k \<le> 12" using c12 by simp
  obtain t where t: "(fs_alloc ?k (int c) ?n ?s = Some (Inl t) \<and> only_mask ?s t \<and> fm.used ?s \<subseteq> fm.used t \<and> card ({d..<N} - fm.used ?s) < ?k)
    \<or> (\<exists>n1 bk. fs_alloc ?k (int c) ?n ?s = Some (Inr (n1, t)) \<and> only_mask ?s t \<and> fm.used t = fm.used ?s \<union> bk ` {..<?k}
        \<and> fresh_blocks ?s d N ?k c ?n n1 bk)"
    using alloc_blocks [OF g sz(2), of c ?k] ck by blast
  then show ?thesis
  proof (elim disjE exE conjE)
    assume "fs_alloc ?k (int c) ?n ?s = Some (Inl t)" "only_mask ?s t" "fm.used ?s \<subseteq> fm.used t" "card ({d..<N} - fm.used ?s) < ?k"
    then show ?thesis using U by (intro disjI1 exI [of _ t]) (simp add: c_def)
  next
    fix n1 bk assume A: "fs_alloc ?k (int c) ?n ?s = Some (Inr (n1, t))" "only_mask ?s t"
      "fm.used t = fm.used ?s \<union> bk ` {..<?k}" "fresh_blocks ?s d N ?k c ?n n1 bk"
    note F = fresh_inode [OF io A(4) c_def]
    have sdt: "same_dev ?s t" "same_dev s t" using A(2) same_dev_trans [OF same_dev_heap] by (auto simp: only_mask_def)
    have gt: "geom t B N d" by (rule same_dev_geom [OF sdt(1) g])
    have own: "owned B ?n \<subseteq> {d..<N} \<inter> fm.used s" using D(3) by (simp add: inode_ok_def)
    have bkN: "bk ` {..<?k} \<subseteq> {d..<N} - fm.used s" using A(4) by (auto simp: fresh_blocks_def)
    have blkN: "\<forall>x<cdiv new B. 0 \<le> iblocks n1 ! x \<and> fblk n1 x < N"
    proof (intro allI impI)
      fix x assume "x < cdiv new B"
      then have "x < c + ?k" by simp
      then have "fblk n1 x \<in> owned B ?n \<union> bk ` {..<?k}" using F(4) by blast
      then show "0 \<le> iblocks n1 ! x \<and> fblk n1 x < N" using F(3) \<open>x < c + ?k\<close> own bkN by auto
    qed
    note Pl = plan_nat [OF gt refl D(6) less_imp_le [OF D(5)] blkN]
    have lb: "last_block p t = last_block p s" for p using same_dev_fields(2) [OF sdt(2)] by (simp add: last_block_def)
    have inj: "inj_on (fblk n1) {..<cdiv new B}" by (rule inj_on_subset [OF F(2)]) auto
    have dv: "dev0_blocks t = dev0_blocks s" by (rule same_dev_fields(11) [OF sdt(2)])
    obtain m' where m': "fs_write_blocks ?j (int (cdiv ptr B)) (last_block (int ptr) s) (last_block (int new) s) (int ptr) (int new) n1 buf t = Some (t\<lparr>fmem := m'\<rparr>)"
      "\<forall>j<?j. \<forall>r < csz B ?j ptr new j. m' (daddr s (fblk n1 (cdiv ptr B + j) * B + (coff B ptr j + r))) = fmem t (buf + of_nat ((\<Sum>l<j. csz B ?j ptr new l) + r))"
      "\<forall>a. (\<forall>j<?j. \<forall>r < csz B ?j ptr new j. a \<noteq> daddr s (fblk n1 (cdiv ptr B + j) * B + (coff B ptr j + r))) \<longrightarrow> m' a = fmem t a"
      using write_blocks [OF gt Pl(1) Pl(2) [OF inj], of buf] D(8) unfolding lb dv by blast
    let ?n' = "grown n1 (int new)"
    let ?t = "s\<lparr>fheap := h, fmem := m', oft := (oft s)(fd := (oft s fd)\<lparr>fileptr := int new, fin := ?n'\<rparr>)\<rparr>"
    have te: "t = ?s\<lparr>fmem := fmem t\<rparr>" and tm: "\<And>a. \<not> in_mask s a \<Longrightarrow> fmem t a = fmem s a"
      using A(2) by (auto simp: only_mask_def in_mask_def fsd_fields)
    have "fs_write fd buf (int (new - ptr)) s = Some (int (new - ptr), t\<lparr>fmem := m', oft := (oft t)(fd := (oft t fd)\<lparr>fileptr := int new, fin := ?n'\<rparr>)\<rparr>)"
      using U A(1) m'(1) by simp
    moreover have "t\<lparr>fmem := m', oft := (oft t)(fd := (oft t fd)\<lparr>fileptr := int new, fin := ?n'\<rparr>)\<rparr> = ?t"
      by (subst (1 2 3) te) simp
    ultimately have run: "fs_write fd buf (int (new - ptr)) s = Some (int (new - ptr), ?t)" by simp
    have "write_result s B N d fd buf ptr new h ?n' m'"
      by (rule write_resultI [OF W A(2-4) [unfolded c_def]]) (use m'(2,3) Pl(1) in blast)+
    then show ?thesis using run by blast
  qed
qed

section \<open>What a write does to files\<close>

lemma contents_cong:
  assumes "0 < B" "dev0_blocks t = dev0_blocks s"
    "\<And>b r. b \<in> owned B n \<Longrightarrow> r < B \<Longrightarrow> fmem t (daddr s (b * B + r)) = fmem s (daddr s (b * B + r))"
  shows "contents t B n = contents s B n"
  unfolding contents_def
proof (rule map_cong [OF refl])
  fix p assume "p \<in> set [0..<nat (isize n)]"
  then have "p div B * B < nat (isize n)" using le_less_trans [OF div_times_less_eq_dividend [of p B]] by simp
  then have "fblk n (p div B) \<in> owned B n" unfolding owned_def using cdiv_less [OF assms(1)] by blast
  then show "fmem t (daddr t (fblk n (p div B) * B + p mod B)) = fmem s (daddr s (fblk n (p div B) * B + p mod B))"
    using assms by simp
qed

lemma inode_ok_mono: "inode_ok s B N d n \<Longrightarrow> fm.used s \<subseteq> fm.used t \<Longrightarrow> inode_ok t B N d n"
  unfolding inode_ok_def by blast

lemma fsinvD:
  assumes "fsinv s B N d"
  shows "geom s B N d" "is_open s fd \<Longrightarrow> inode_ok s B N d (finode s fd)" "is_open s fd \<Longrightarrow> 0 \<le> fileptr (oft s fd)"
    "is_open s fd \<Longrightarrow> fileptr (oft s fd) \<le> isize (finode s fd)"
    "is_open s fd \<Longrightarrow> is_open s fd' \<Longrightarrow> fd \<noteq> fd' \<Longrightarrow> owned B (finode s fd) \<inter> owned B (finode s fd') = {}"
  using assms unfolding fsinv_def by blast+

lemma fsinv_same_oft:
  assumes "fsinv s B N d" "same_dev s t" "oft t = oft s" "fm.used s \<subseteq> fm.used t"
  shows "fsinv t B N d"
proof -
  have "is_open t = is_open s" using assms(3) by (simp add: is_open_def fun_eq_iff)
  then show ?thesis
    using assms(1,3) same_dev_geom [OF assms(2)] inode_ok_mono [OF _ assms(4)] unfolding fsinv_def by metis
qed

lemma write_resultD:
  assumes "write_result s B N d fd buf ptr new h n' m'"
  defines "n \<equiv> finode s fd" and "k \<equiv> cdiv new B - cdiv ptr B"
    and "t \<equiv> s\<lparr>fheap := h, fmem := m', oft := (oft s)(fd := (oft s fd)\<lparr>fileptr := int new, fin := n'\<rparr>)\<rparr>"
  shows "n' = (grown n (int new))\<lparr>iblocks := iblocks n'\<rparr>" "inode_ok t B N d n'" "same_dev s t"
    "\<And>x. x < cdiv (nat (isize n)) B \<Longrightarrow> fblk n' x = fblk n x"
    "owned B n' \<inter> fm.used s \<subseteq> owned B n" "fm.used t = fm.used s \<union> owned B n'"
    "\<And>j r. j < k \<Longrightarrow> r < csz B k ptr new j \<Longrightarrow> m' (daddr s (fblk n' (cdiv ptr B + j) * B + (coff B ptr j + r)))
        = fmem s (buf + of_nat ((\<Sum>l<j. csz B k ptr new l) + r))"
    "\<And>a. \<not> in_mask s a \<Longrightarrow> (\<forall>j<k. \<forall>r < csz B k ptr new j. a \<noteq> daddr s (fblk n' (cdiv ptr B + j) * B + (coff B ptr j + r)))
        \<Longrightarrow> m' a = fmem s a"
    "isize n' = max (isize n) (int new)"
proof -
  note W = assms(1) [unfolded write_result_def Let_def, folded n_def k_def, folded t_def]
  show 1: "n' = (grown n (int new))\<lparr>iblocks := iblocks n'\<rparr>" using W by blast
  then show "isize n' = max (isize n) (int new)" by (metis grown_facts(2) inode.select_convs(5) inode.surjective inode.update_convs(6))
qed (use assms(1) [unfolded write_result_def Let_def, folded n_def k_def, folded t_def] in blast)+

lemma step_in_block:
  assumes "0 < B" "j < cdiv new B - cdiv ptr B" "r < csz B (cdiv new B - cdiv ptr B) ptr new j"
  shows "coff B ptr j + r < B" "cdiv ptr B + j < cdiv new B"
  using assms less_trans [OF _ mod_less_divisor [OF assms(1), of new], of r]
  by (auto simp: coff_def csz_def split: if_splits)

lemma write_elsewhere:
  assumes W: "write_pre s B N d fd buf ptr new h" and R: "write_result s B N d fd buf ptr new h n' m'"
    and b: "b < N" "b \<notin> owned B n'" "r < B"
  shows "m' (daddr s (b * B + r)) = fmem s (daddr s (b * B + r))"
proof (rule write_resultD(8) [OF R])
  note D = write_preD [OF W] and E = write_resultD [OF R]
  have B: "0 < B" by (rule geomD(14) [OF D(1)])
  show "\<not> in_mask s (daddr s (b * B + r))" using mask_not_dev [OF D(1) _ in_block [OF b(1,3)]] by blast
  show "\<forall>j<cdiv new B - cdiv ptr B. \<forall>q < csz B (cdiv new B - cdiv ptr B) ptr new j.
      daddr s (b * B + r) \<noteq> daddr s (fblk n' (cdiv ptr B + j) * B + (coff B ptr j + q))"
  proof (intro allI impI)
    fix j q assume j: "j < cdiv new B - cdiv ptr B" "q < csz B (cdiv new B - cdiv ptr B) ptr new j"
    have "cdiv new B \<le> cdiv (nat (isize n')) B" using E(9) by (intro cdiv_mono) simp
    then have o: "fblk n' (cdiv ptr B + j) \<in> owned B n'" using step_in_block(2) [OF B j] unfolding owned_def by auto
    then have "fblk n' (cdiv ptr B + j) < N" using E(2) unfolding inode_ok_def by auto
    moreover have "b \<noteq> fblk n' (cdiv ptr B + j)" using o b(2) by blast
    ultimately show "daddr s (b * B + r) \<noteq> daddr s (fblk n' (cdiv ptr B + j) * B + (coff B ptr j + q))"
      by (intro daddr_ne [OF D(1) b(1) _ _ b(3) step_in_block(1) [OF B j]])
  qed
qed

lemma write_fsinv:
  assumes W: "write_pre s B N d fd buf ptr new h" and R: "write_result s B N d fd buf ptr new h n' m'"
  defines "t \<equiv> s\<lparr>fheap := h, fmem := m', oft := (oft s)(fd := (oft s fd)\<lparr>fileptr := int new, fin := n'\<rparr>)\<rparr>"
  shows "fsinv t B N d"
proof -
  note E = write_resultD [OF R, folded t_def]
  have I: "fsinv s B N d" using W by (simp add: write_pre_def)
  have op: "is_open t fd' = is_open s fd'" for fd' by (simp add: is_open_def t_def)
  have fi: "finode t fd' = (if fd' = fd then n' else finode s fd')" "fileptr (oft t fd') = (if fd' = fd then int new else fileptr (oft s fd'))" for fd'
    by (simp_all add: t_def)
  have u: "fm.used s \<subseteq> fm.used t" using E(6) by blast
  have dj: "owned B n' \<inter> owned B (finode s fd') = {}" if "is_open s fd'" "fd' \<noteq> fd" for fd'
  proof -
    have "owned B (finode s fd') \<subseteq> fm.used s" using fsinvD(2) [OF I that(1)] by (simp add: inode_ok_def)
    then show ?thesis using E(5) fsinvD(5) [OF I write_preD(2) [OF W] that(1)] that(2) by blast
  qed
  show ?thesis
    unfolding fsinv_def op fi
  proof (intro conjI allI impI)
    show "geom t B N d" by (rule same_dev_geom [OF E(3) fsinvD(1) [OF I]])
    show "inode_ok t B N d (if fd' = fd then n' else finode s fd')"
      "0 \<le> (if fd' = fd then int new else fileptr (oft s fd'))"
      "(if fd' = fd then int new else fileptr (oft s fd')) \<le> isize (if fd' = fd then n' else finode s fd')" if "is_open s fd'" for fd'
      using E(2,9) inode_ok_mono [OF fsinvD(2) [OF I that] u] fsinvD(3,4) [OF I that] by auto
    show "owned B (if fd1 = fd then n' else finode s fd1) \<inter> owned B (if fd2 = fd then n' else finode s fd2) = {}"
      if "is_open s fd1 \<and> is_open s fd2 \<and> fd1 \<noteq> fd2" for fd1 fd2
      using that dj [of fd1] dj [of fd2] fsinvD(5) [OF I, of fd1 fd2] by (auto simp: Int_commute)
  qed
qed

lemma only_mask_keeps:
  assumes "fsinv s B N d" "only_mask (s\<lparr>fheap := h\<rparr>) t" "fm.used s \<subseteq> fm.used t"
  shows "fsinv t B N d" "oft t = oft s" "dev0_blocks t = dev0_blocks s" "\<And>x. x < N * B \<Longrightarrow> fmem t (daddr s x) = fmem s (daddr s x)"
proof -
  have sd: "same_dev s t" using assms(2) same_dev_trans [OF same_dev_heap] unfolding only_mask_def by blast
  show o: "oft t = oft s" using assms(2) unfolding only_mask_def by (metis fsstate.select_convs(8) fsstate.surjective fsstate.update_convs(1,2))
  show "fsinv t B N d" by (rule fsinv_same_oft [OF assms(1) sd o assms(3)])
  show "dev0_blocks t = dev0_blocks s" by (rule same_dev_fields(11) [OF sd])
  fix x assume "x < N * B"
  then have "\<not> in_mask (s\<lparr>fheap := h\<rparr>) (daddr s x)"
    using mask_not_dev [OF fsinvD(1) [OF assms(1)]] by (auto simp: in_mask_def fsd_fields)
  then show "fmem t (daddr s x) = fmem s (daddr s x)" using assms(2) by (simp add: only_mask_def)
qed

lemma split_block: "0 < B \<Longrightarrow> x < d * B \<Longrightarrow> x div B < d \<and> x = x div B * B + x mod (B :: nat)"
  by (simp add: less_mult_imp_div_less)

text \<open>
  Neither the inode blocks nor the other blocks below the data blocks are written: \<^verbatim>\<open>fs_write\<close> brings only the copy of the inode in the
  open file table up to date, although the comment ``save inode back in block'' and the report on the assignment
  (``update inode in inode block'') say that the inode is written to its block.
\<close>

lemma fs_write_inode_blocks_stale:
  assumes W: "write_pre s B N d fd buf ptr new h" and r: "fs_write fd buf (int (new - ptr)) s = Some (r, t)" and x: "x < d * B"
  shows "fmem t (daddr s x) = fmem s (daddr s x)"
proof -
  note D = write_preD [OF W]
  have I: "fsinv s B N d" using W by (simp add: write_pre_def)
  have B: "0 < B" "d \<le> N" by (rule geomD [OF D(1)])+
  consider "only_mask (s\<lparr>fheap := h\<rparr>) t" "fm.used s \<subseteq> fm.used t"
    | n' m' where "t = s\<lparr>fheap := h, fmem := m', oft := (oft s)(fd := (oft s fd)\<lparr>fileptr := int new, fin := n'\<rparr>)\<rparr>"
       "write_result s B N d fd buf ptr new h n' m'"
    using write_cases [OF W] r by auto
  then show ?thesis
  proof cases
    case 1
    then show ?thesis using only_mask_keeps(4) [OF I] x B(2) by (meson less_le_trans mult_le_mono1)
  next
    case (2 n' m')
    have "owned B n' \<subseteq> {d..<N}" using write_resultD(2) [OF 2(2)] by (simp add: inode_ok_def)
    then have "m' (daddr s x) = fmem s (daddr s x)"
      using split_block [OF B(1) x] write_elsewhere [OF W 2(2), of "x div B" "x mod B"] B
      by (metis atLeastLessThan_iff less_le_trans mod_less_divisor not_less subsetD)
    then show ?thesis using 2(1) by simp
  qed
qed

text \<open>What a write of a size within the limit does to the other files and to the blocks in use.\<close>

lemma write_isolated:
  assumes "write_pre s B N d fd buf ptr new h"
  shows "\<exists>r t. fs_write fd buf (int (new - ptr)) s = Some (r, t) \<and> (r = int (new - ptr) \<or> r = SYSERR \<and> card ({d..<N} - fm.used s) < cdiv new B - cdiv (nat (isize (finode s fd))) B)
    \<and> fsinv t B N d
    \<and> (\<forall>fd'. is_open s fd' \<and> fd' \<noteq> fd \<longrightarrow> is_open t fd' \<and> finode t fd' = finode s fd' \<and> contents t B (finode t fd') = contents s B (finode s fd'))
    \<and> (\<forall>b\<in>{d..<N} \<inter> fm.used s - owned B (finode s fd). block (fmem t) (daddr s (b * B)) B = block (fmem s) (daddr s (b * B)) B)"
proof -
  note D = write_preD [OF assms]
  have I: "fsinv s B N d" using assms by (simp add: write_pre_def)
  have B: "0 < B" "d \<le> N" by (rule geomD [OF D(1)])+
  have own: "owned B (finode s fd') \<subseteq> {d..<N} \<inter> fm.used s" if "is_open s fd'" for fd'
    using fsinvD(2) [OF I that] by (simp add: inode_ok_def)
  have bl: "block m (daddr s (b * B)) B = block m' (daddr s (b * B)) B"
    if "\<And>r. r < B \<Longrightarrow> m (daddr s (b * B + r)) = m' (daddr s (b * B + r))" for m m' b
    using that by (simp add: block_eq_iff add.assoc)
  consider t where "fs_write fd buf (int (new - ptr)) s = Some (SYSERR, t)" "only_mask (s\<lparr>fheap := h\<rparr>) t" "fm.used s \<subseteq> fm.used t"
        "card ({d..<N} - fm.used s) < cdiv new B - cdiv (nat (isize (finode s fd))) B"
    | n' m' where "fs_write fd buf (int (new - ptr)) s
         = Some (int (new - ptr), s\<lparr>fheap := h, fmem := m', oft := (oft s)(fd := (oft s fd)\<lparr>fileptr := int new, fin := n'\<rparr>)\<rparr>)"
       "write_result s B N d fd buf ptr new h n' m'"
    using write_cases [OF assms] by blast
  then show ?thesis
  proof cases
    case (1 t)
    note K = only_mask_keeps [OF I 1(2,3)]
    have "contents t B (finode s fd') = contents s B (finode s fd')" if "is_open s fd'" for fd'
      by (rule contents_cong [OF B(1) K(3)], rule K(4), rule in_block) (use own [OF that] in auto)
    moreover have "is_open t fd' = is_open s fd'" for fd' by (simp add: is_open_def K(2))
    moreover have "block (fmem t) (daddr s (b * B)) B = block (fmem s) (daddr s (b * B)) B" if "b < N" for b
      by (rule bl, rule K(4), rule in_block) (use that in simp_all)
    ultimately show ?thesis using 1(1,4) K(1,2) by (intro exI [of _ SYSERR] exI [of _ t]) auto
  next
    case (2 n' m')
    let ?t = "s\<lparr>fheap := h, fmem := m', oft := (oft s)(fd := (oft s fd)\<lparr>fileptr := int new, fin := n'\<rparr>)\<rparr>"
    note E = write_resultD [OF 2(2)] and el = write_elsewhere [OF assms 2(2)]
    have "contents ?t B (finode s fd') = contents s B (finode s fd')" if "is_open s fd'" "fd' \<noteq> fd" for fd'
    proof (rule contents_cong [OF B(1)])
      fix b r assume b: "b \<in> owned B (finode s fd')" "r < B"
      have "b \<notin> owned B n'" using b(1) own [OF that(1)] E(5) fsinvD(5) [OF I D(2) that(1)] that(2) by blast
      then show "fmem ?t (daddr s (b * B + r)) = fmem s (daddr s (b * B + r))" using el [of b r] b own [OF that(1)] by auto
    qed simp
    moreover have "block m' (daddr s (b * B)) B = block (fmem s) (daddr s (b * B)) B"
      if b: "b \<in> {d..<N} \<inter> fm.used s - owned B (finode s fd)" for b
    proof (rule bl)
      have "b \<notin> owned B n'" "b < N" using b E(5) by auto
      then show "m' (daddr s (b * B + r)) = fmem s (daddr s (b * B + r))" if "r < B" for r using el [of b r] that by simp
    qed
    moreover have "is_open ?t fd' = is_open s fd'" for fd' by (simp add: is_open_def)
    ultimately show ?thesis using 2(1) write_fsinv [OF assms 2(2)] by (intro exI [of _ "int (new - ptr)"] exI [of _ ?t]) auto
  qed
qed

text \<open>The hypotheses of a write of any size that an \<^verbatim>\<open>int\<close> can count.\<close>

definition write_req :: "fsstate \<Rightarrow> nat \<Rightarrow> nat \<Rightarrow> nat \<Rightarrow> int \<Rightarrow> uint32 \<Rightarrow> nat \<Rightarrow> nat \<Rightarrow> memstate \<Rightarrow> bool" where
  "write_req s B N d fd buf ptr new h \<longleftrightarrow> fsinv s B N d \<and> is_open s fd \<and> fileptr (oft s fd) = int ptr \<and> ptr < new \<and> new < 2 ^ 31
     \<and> (\<exists>a. getmem 64 (fheap s) = Some (a, h) \<and> a \<noteq> SYSERR_PTR)
     \<and> apart buf ((cdiv new B - cdiv ptr B) * B) (dev0_blocks s) (N * B)
     \<and> apart buf ((cdiv new B - cdiv ptr B) * B) (freemask s) (nat (freemaskbytes s))"

lemma write_req_pre: "write_req s B N d fd buf ptr new h \<Longrightarrow> new < 12 * B \<Longrightarrow> write_pre s B N d fd buf ptr new h"
  by (simp add: write_req_def write_pre_def)

lemma write_pre_req:
  assumes "write_pre s B N d fd buf ptr new h"
  shows "write_req s B N d fd buf ptr new h"
proof -
  have "B \<le> 512" using geomD(5) [OF write_preD(1) [OF assms]] .
  then show ?thesis using assms by (simp add: write_req_def write_pre_def)
qed

text \<open>A file has twelve blocks; a write that would fill them all is refused before anything is done but for the inode buffer.\<close>

lemma write_too_big:
  assumes W: "write_req s B N d fd buf ptr new h" and n: "12 * B \<le> new"
  shows "fs_write fd buf (int (new - ptr)) s = Some (SYSERR, s\<lparr>fheap := h\<rparr>)"
proof -
  let ?s = "s\<lparr>fheap := h\<rparr>"
  have R: "fsinv s B N d" "is_open s fd" "fileptr (oft s fd) = int ptr" "ptr < new" "new < 2 ^ 31"
    "\<exists>a. getmem 64 (fheap s) = Some (a, h) \<and> a \<noteq> SYSERR_PTR"
    using W unfolding write_req_def by blast+
  have g: "geom s B N d" by (rule fsinvD(1) [OF R(1)])
  have B: "B \<le> 512" "0 < B" using geomD(5,14) [OF g] by simp_all
  have bz: "blocksz ?s = int B" using geomD(1) [OF same_dev_geom [OF same_dev_heap g]] .
  have nw: "int B * 12 \<le> int new" using n by linarith
  have i32: "int32 (int new)" "int32 (int B * 12)" using R(5) B by (simp_all add: int32_def)
  obtain a where a: "getmem 64 (fheap s) = Some (a, h)" "a \<noteq> SYSERR_PTR" using R(6) by blast
  have o: "fd < NUM_FD" "0 \<le> fd" "fstate (oft s fd) = FSTATE_OPEN" using R(2) by (simp_all add: is_open_def)
  have np: "int ptr + int (new - ptr) = int new" using R(4) by simp
  show ?thesis
    using o a i32 R(3,4) nw np B by (simp add: fs_write_def SIZEOF_INODE_def INODEBLOCKS_def bz Let_def of_nat_diff)
qed

text \<open>
  C25. Files do not interfere: a write to an open file, of a size that an \<^verbatim>\<open>int\<close> can count, from a buffer apart from the device and the mask
  and with the inode buffer granted by \<^verbatim>\<open>getmem\<close>, always returns: the number of bytes or, when the file would reach the limit of twelve
  blocks or when fewer data blocks are free than it needs, \<^verbatim>\<open>SYSERR\<close>. In every case it keeps the invariant of the file system,
  leaves the contents of every other open file as they were, and changes no data block that is in use and not a block of the file.
\<close>

theorem fs_write_isolated:
  assumes "write_req s B N d fd buf ptr new h"
  shows "\<exists>r t. fs_write fd buf (int (new - ptr)) s = Some (r, t)
    \<and> (r = int (new - ptr) \<and> new < 12 * B
       \<or> r = SYSERR \<and> (12 * B \<le> new \<or> card ({d..<N} - fm.used s) < cdiv new B - cdiv (nat (isize (finode s fd))) B))
    \<and> fsinv t B N d
    \<and> (\<forall>fd'. is_open s fd' \<and> fd' \<noteq> fd \<longrightarrow> is_open t fd' \<and> finode t fd' = finode s fd' \<and> contents t B (finode t fd') = contents s B (finode s fd'))
    \<and> (\<forall>b\<in>{d..<N} \<inter> fm.used s - owned B (finode s fd). block (fmem t) (daddr s (b * B)) B = block (fmem s) (daddr s (b * B)) B)"
proof (cases "new < 12 * B")
  case True
  then show ?thesis using write_isolated [OF write_req_pre [OF assms True]] by fastforce
next
  case False
  have I: "fsinv s B N d" using assms by (simp add: write_req_def)
  have "same_dev s (s\<lparr>fheap := h\<rparr>)" by (rule same_dev_heap)
  then have "fsinv (s\<lparr>fheap := h\<rparr>) B N d" by (rule fsinv_same_oft [OF I]) simp_all
  then show ?thesis using write_too_big [OF assms] False
    by (intro exI [of _ SYSERR] exI [of _ "s\<lparr>fheap := h\<rparr>"]) (simp add: is_open_def contents_def)
qed

text \<open>
  A transfer at a block boundary is one block per step, so that byte \<open>q\<close> of the buffer belongs to
  byte \<open>ptr + q\<close> of the file, unless it ends at a later block boundary.
\<close>

definition whole :: "nat \<Rightarrow> nat \<Rightarrow> nat \<Rightarrow> bool" where
  "whole B ptr new \<longleftrightarrow> ptr mod B = 0 \<and> (new mod B \<noteq> 0 \<or> new \<le> ptr + B)"

lemma whole_step:
  assumes B: "0 < B" and w: "whole B ptr new" and q: "q < new - ptr"
  defines "k \<equiv> cdiv new B - cdiv ptr B" and "j \<equiv> q div B"
  shows "j < k" "q mod B < csz B k ptr new j" "(\<Sum>l<j. csz B k ptr new l) + q mod B = q" "coff B ptr j = 0"
    "(ptr + q) div B = cdiv ptr B + j" "(ptr + q) mod B = q mod B"
proof -
  have p: "ptr mod B = 0" "cdiv ptr B = ptr div B" "ptr = ptr div B * B" using w B by (auto simp: whole_def cdiv_cases)
  show d: "(ptr + q) div B = cdiv ptr B + j" "(ptr + q) mod B = q mod B"
    using B p by (metis div_mult_self3 j_def less_irrefl, metis add.commute mod_mult_self1)
  have "(cdiv ptr B + j) * B \<le> ptr + q" using d(1) by (metis div_times_less_eq_dividend)
  then have "cdiv ptr B + j < cdiv new B" using q by (subst cdiv_less [OF B]) simp
  then show j: "j < k" by (simp add: k_def)
  show "coff B ptr j = 0" using p by (simp add: coff_def)
  have "csz B k ptr new l = B" if "l < j" for l using that j p by (auto simp: csz_def)
  then have "(\<Sum>l<j. csz B k ptr new l) = j * B" by simp
  then show "(\<Sum>l<j. csz B k ptr new l) + q mod B = q" by (simp add: j_def)
  show "q mod B < csz B k ptr new j"
  proof (cases "j = 0 \<or> Suc j \<noteq> k")
    case True
    then show ?thesis using B p by (auto simp: csz_def)
  next
    case False
    have "\<not> new \<le> ptr + B"
    proof
      assume "new \<le> ptr + B"
      then have "q < B" using q by simp
      then show False using False by (simp add: j_def)
    qed
    then have nz: "new mod B \<noteq> 0" using w by (simp add: whole_def)
    then have "k = new div B + 1 - ptr div B" using B p by (simp add: k_def cdiv_cases)
    then have "new div B = (ptr + q) div B" using False d(1) p(2) by arith
    then have "(ptr + q) div B * B + (ptr + q) mod B < (ptr + q) div B * B + new mod B"
      using q by (metis div_mult_mod_eq less_diff_conv add.commute)
    then show ?thesis using False d(2) by (simp add: csz_def)
  qed
qed

lemma write_before:
  assumes W: "write_pre s B N d fd buf ptr new h" and R: "write_result s B N d fd buf ptr new h n' m'"
    and p: "p < ptr" "ptr mod B = 0"
  shows "m' (daddr s (fblk n' (p div B) * B + p mod B)) = fmem s (daddr s (fblk (finode s fd) (p div B) * B + p mod B))"
proof -
  note D = write_preD [OF W] and E = write_resultD [OF R]
  have B: "0 < B" by (rule geomD(14) [OF D(1)])
  have ps: "int ptr \<le> isize (finode s fd)" using W D(2,4) fsinvD(4) [of s B N d fd] by (simp add: write_pre_def)
  have c: "cdiv ptr B = ptr div B" using p B by (simp add: cdiv_cases)
  have pb: "p div B < cdiv ptr B" using le_less_trans [OF div_times_less_eq_dividend p(1)] by (simp add: cdiv_less [OF B])
  then have pc: "p div B < cdiv (nat (isize (finode s fd))) B" using cdiv_mono [of ptr "nat (isize (finode s fd))" B] ps by linarith
  have cm: "cdiv ptr B \<le> cdiv new B" "cdiv new B \<le> cdiv (nat (isize n')) B" using D(5) E(9) by (auto intro!: cdiv_mono)
  have inr: "fblk n' x < N" if "x < cdiv new B" for x
  proof -
    have "fblk n' x \<in> owned B n'" using that cm(2) unfolding owned_def by (intro imageI) simp
    then show ?thesis using E(2) unfolding inode_ok_def by auto
  qed
  have "m' (daddr s (fblk n' (p div B) * B + p mod B)) = fmem s (daddr s (fblk n' (p div B) * B + p mod B))"
  proof (rule E(8))
    have "fblk n' (p div B) * B + p mod B < N * B" using inr pb cm B by (intro in_block) auto
    then show "\<not> in_mask s (daddr s (fblk n' (p div B) * B + p mod B))" using mask_not_dev [OF D(1)] by blast
    show "\<forall>j<cdiv new B - cdiv ptr B. \<forall>r < csz B (cdiv new B - cdiv ptr B) ptr new j.
      daddr s (fblk n' (p div B) * B + p mod B) \<noteq> daddr s (fblk n' (cdiv ptr B + j) * B + (coff B ptr j + r))"
    proof (intro allI impI)
      fix j r assume j: "j < cdiv new B - cdiv ptr B" "r < csz B (cdiv new B - cdiv ptr B) ptr new j"
      note S = step_in_block [OF B j]
      have "inj_on (fblk n') {..<cdiv (nat (isize n')) B}" using E(2) by (simp add: inode_ok_def)
      then have "fblk n' (p div B) \<noteq> fblk n' (cdiv ptr B + j)" using pb S(2) cm by (auto dest!: inj_onD)
      then show "daddr s (fblk n' (p div B) * B + p mod B) \<noteq> daddr s (fblk n' (cdiv ptr B + j) * B + (coff B ptr j + r))"
        using inr pb cm S B by (intro daddr_ne [OF D(1)]) auto
    qed
  qed
  then show ?thesis using E(4) [OF pc] by simp
qed

lemma extends_contents:
  assumes W: "write_pre s B N d fd buf ptr new h" and R: "write_result s B N d fd buf ptr new h n' m'"
    and w: "whole B ptr new" and sz: "isize (finode s fd) \<le> int new"
    and t: "fmem t = m'" "dev0_blocks t = dev0_blocks s"
  shows "contents t B n' = take ptr (contents s B (finode s fd)) @ block (fmem s) buf (new - ptr)"
proof (rule nth_equalityI)
  note D = write_preD [OF W] and E = write_resultD [OF R]
  have B: "0 < B" by (rule geomD(14) [OF D(1)])
  have isz: "nat (isize n') = new" and psn: "ptr \<le> nat (isize (finode s fd))"
    using E(9) sz W D(2,4) fsinvD(4) [of s B N d fd] by (simp_all add: write_pre_def)
  show "length (contents t B n') = length (take ptr (contents s B (finode s fd)) @ block (fmem s) buf (new - ptr))"
    using isz psn D(5) by (simp add: contents_def min.absorb2)
  fix p assume "p < length (contents t B n')"
  then have p: "p < new" by (simp add: contents_def isz)
  show "contents t B n' ! p = (take ptr (contents s B (finode s fd)) @ block (fmem s) buf (new - ptr)) ! p"
  proof (cases "p < ptr")
    case True
    then show ?thesis using write_before [OF W R True] w p psn
      by (simp add: contents_def isz nth_append min.absorb2 whole_def t)
  next
    case False
    then have q: "p - ptr < new - ptr" using p by simp
    note S = whole_step [OF B w q]
    have "contents t B n' ! p = m' (daddr s (fblk n' (p div B) * B + p mod B))" using p by (simp add: contents_def isz t)
    also have "\<dots> = fmem s (buf + of_nat (p - ptr))" using E(7) [OF S(1,2)] S(3-6) False by simp
    finally show ?thesis using False p psn by (simp add: nth_append nth_block contents_def min.absorb2)
  qed
qed

text \<open>
  C26. A write that starts at a block boundary, at or before the end of the file, and reaches
  to its end or further truncates the file there and appends the bytes of the buffer, provided that it does not
  end at a block boundary more than one block on (such a write loses its last block: \<open>fs_write_full_last_block_lost\<close>). The buffer is apart
  from the device and the mask, and \<^verbatim>\<open>getmem\<close> grants the inode buffer. The write fails exactly with \<^verbatim>\<open>SYSERR\<close>, and only when the file would reach
  the limit of twelve blocks or when fewer data blocks are free than it needs.
\<close>

theorem fs_write_extends:
  assumes W: "write_req s B N d fd buf ptr new h" and w: "whole B ptr new" and sz: "isize (finode s fd) \<le> int new"
  shows "\<exists>r t. fs_write fd buf (int (new - ptr)) s = Some (r, t) \<and>
    (r = SYSERR \<and> (12 * B \<le> new \<or> card ({d..<N} - fm.used s) < cdiv new B - cdiv (nat (isize (finode s fd))) B) \<or>
     r = int (new - ptr) \<and> contents t B (finode t fd) = take ptr (contents s B (finode s fd)) @ block (fmem s) buf (new - ptr))"
proof (cases "new < 12 * B")
  case True
  note P = write_req_pre [OF W True]
  show ?thesis using write_cases [OF P] extends_contents [OF P _ w sz] by fastforce
next
  case False
  then show ?thesis using write_too_big [OF W] by simp
qed

section \<open>Reading\<close>

definition read_pre :: "fsstate \<Rightarrow> nat \<Rightarrow> nat \<Rightarrow> nat \<Rightarrow> int \<Rightarrow> uint32 \<Rightarrow> nat \<Rightarrow> nat \<Rightarrow> nat \<Rightarrow> memstate \<Rightarrow> bool" where
  "read_pre s B N d fd buf nbytes ptr new h \<longleftrightarrow> fsinv s B N d \<and> is_open s fd \<and> fileptr (oft s fd) = int ptr
     \<and> 0 < nbytes \<and> ptr + nbytes < 2 ^ 31 \<and> new = min (ptr + nbytes) (nat (isize (finode s fd)))
     \<and> (\<exists>a. getmem 64 (fheap s) = Some (a, h) \<and> a \<noteq> SYSERR_PTR)
     \<and> apart buf ((cdiv new B - cdiv ptr B) * B) (dev0_blocks s) (N * B)
     \<and> apart (fsd s) 604 buf ((cdiv new B - cdiv ptr B) * B)"

lemma read_preD:
  assumes "read_pre s B N d fd buf nbytes ptr new h"
  shows "fsinv s B N d" "is_open s fd" "fileptr (oft s fd) = int ptr" "0 < nbytes" "ptr + nbytes < 2 ^ 31"
    "new = min (ptr + nbytes) (nat (isize (finode s fd)))"
    "\<exists>a. getmem 64 (fheap s) = Some (a, h) \<and> a \<noteq> SYSERR_PTR"
    "apart buf ((cdiv new B - cdiv ptr B) * B) (dev0_blocks s) (N * B)"
    "apart (fsd s) 604 buf ((cdiv new B - cdiv ptr B) * B)"
    "ptr \<le> new" "new < 12 * B"
proof -
  note R = assms [unfolded read_pre_def]
  show o: "fsinv s B N d" "is_open s fd" "fileptr (oft s fd) = int ptr" "0 < nbytes" "ptr + nbytes < 2 ^ 31"
    "new = min (ptr + nbytes) (nat (isize (finode s fd)))" "\<exists>a. getmem 64 (fheap s) = Some (a, h) \<and> a \<noteq> SYSERR_PTR"
    "apart buf ((cdiv new B - cdiv ptr B) * B) (dev0_blocks s) (N * B)" "apart (fsd s) 604 buf ((cdiv new B - cdiv ptr B) * B)"
    using R by blast+
  have "int ptr \<le> isize (finode s fd)" "isize (finode s fd) < 12 * int B"
    using fsinvD(4) [OF o(1,2)] fsinvD(2) [OF o(1,2)] o(3) by (simp_all add: inode_ok_def)
  then show "ptr \<le> new" "new < 12 * B" using o(6) by auto
qed

lemma read_unfold:
  assumes "read_pre s B N d fd buf nbytes ptr new h"
  shows "fs_read fd buf (int nbytes) s =
    do { t \<leftarrow> fs_read_blocks (cdiv new B - cdiv ptr B) (int (cdiv ptr B)) (last_block (int ptr) s) (last_block (int new) s) (int ptr) (int new) (finode s fd) buf (s\<lparr>fheap := h\<rparr>);
         Some (int (new - ptr), t\<lparr>oft := (oft t)(fd := (oft t fd)\<lparr>fileptr := int new\<rparr>)\<rparr>) }"
proof -
  let ?s = "s\<lparr>fheap := h\<rparr>"
  note R = read_preD [OF assms]
  have g: "geom s B N d" by (rule fsinvD(1) [OF R(1)])
  have bz: "blocksz ?s = int B" using geomD(1) [OF same_dev_geom [OF same_dev_heap g]] .
  have sz: "0 \<le> isize (finode s fd)" using fsinvD(2) [OF R(1,2)] by (simp add: inode_ok_def)
  have lb: "last_block p ?s = last_block p s" for p using bz geomD(1) [OF g] by (simp add: last_block_def)
  have l: "last_block (int p) s = int (cdiv p B) - 1" for p by (rule last_block_cdiv [OF g])
  obtain a where a: "getmem 64 (fheap s) = Some (a, h)" "a \<noteq> SYSERR_PTR" using R(7) by blast
  have o: "fd < NUM_FD" "0 \<le> fd" "fstate (oft s fd) = FSTATE_OPEN" using R(2) by (simp_all add: is_open_def)
  have i32: "int32 (int ptr + int nbytes)" using R(5) by (simp add: int32_def)
  have nd: "nat (int p - int q) = p - q" for p q by simp
  show ?thesis
  proof (cases "int ptr + int nbytes > isize (finode s fd)")
    case True
    then have "isize (finode s fd) = int new" using R(6) sz by auto
    then show ?thesis
      using True o a i32 R(3,4,10) geomD(14) [OF g] by (simp add: fs_read_def SIZEOF_INODE_def bz lb l Let_def nd of_nat_diff)
  next
    case False
    then have "int ptr + int nbytes = int new" "int nbytes = int (new - ptr)" using R(6) by auto
    then show ?thesis
      using False o a i32 R(3,4) geomD(14) [OF g] by (simp add: fs_read_def SIZEOF_INODE_def bz lb l Let_def nd)
  qed
qed

text \<open>
  A read that starts at a block boundary and does not end at a later one returns the
  number of bytes from the file pointer on, up to the number asked for or to the end of
  the file, and puts exactly those bytes of the file at the start of the buffer; the file
  pointer moves past them. Memory outside the buffer, rounded up to whole blocks, and the
  file itself stay as they were.
\<close>

lemma read_whole:
  assumes R: "read_pre s B N d fd buf nbytes ptr new h" and w: "whole B ptr new"
  shows "\<exists>t. fs_read fd buf (int nbytes) s = Some (int (new - ptr), t)
    \<and> block (fmem t) buf (new - ptr) = take nbytes (drop ptr (contents s B (finode s fd)))
    \<and> oft t = (oft s)(fd := (oft s fd)\<lparr>fileptr := int new\<rparr>)
    \<and> (\<forall>a. (\<forall>y<(cdiv new B - cdiv ptr B) * B. a \<noteq> buf + of_nat y) \<longrightarrow> fmem t a = fmem s a)"
proof -
  let ?s = "s\<lparr>fheap := h\<rparr>" and ?n = "finode s fd" and ?k = "cdiv new B - cdiv ptr B"
  note D = read_preD [OF R]
  have g: "geom ?s B N d" by (rule same_dev_geom [OF same_dev_heap fsinvD(1) [OF D(1)]])
  have B: "0 < B" by (rule geomD(14) [OF g])
  have io: "inode_ok s B N d ?n" by (rule fsinvD(2) [OF D(1,2)])
  have blkN: "\<forall>x<cdiv new B. 0 \<le> iblocks ?n ! x \<and> fblk ?n x < N"
  proof (intro allI impI)
    fix x assume "x < cdiv new B"
    then have x: "x < cdiv (nat (isize ?n)) B" using cdiv_mono [of new "nat (isize ?n)" B] D(6) by simp
    then have "fblk ?n x \<in> owned B ?n" unfolding owned_def by simp
    then show "0 \<le> iblocks ?n ! x \<and> fblk ?n x < N" using io x unfolding inode_ok_def by auto
  qed
  note P = plan_nat [OF g refl D(11,10) blkN]
  have lb: "last_block p ?s = last_block p s" for p by (simp add: last_block_def fsd_fields)
  obtain m' where m': "fs_read_blocks ?k (int (cdiv ptr B)) (last_block (int ptr) s) (last_block (int new) s) (int ptr) (int new) ?n buf ?s = Some (?s\<lparr>fmem := m'\<rparr>)"
    "\<forall>j<?k. \<forall>r < csz B ?k ptr new j. m' (buf + of_nat ((\<Sum>l<j. csz B ?k ptr new l) + r)) = fmem s (daddr s (fblk ?n (cdiv ptr B + j) * B + (coff B ptr j + r)))"
    "\<forall>a. (\<forall>y < \<Sum>l<?k. csz B ?k ptr new l. a \<noteq> buf + of_nat y) \<longrightarrow> m' a = fmem s a"
    using read_blocks [OF g P(1), of buf] D(8,9) P(3,4) unfolding lb by auto
  let ?t = "?s\<lparr>fmem := m', oft := (oft s)(fd := (oft s fd)\<lparr>fileptr := int new\<rparr>)\<rparr>"
  have run: "fs_read fd buf (int nbytes) s = Some (int (new - ptr), ?t)" using read_unfold [OF R] m'(1) by simp
  have data: "block m' buf (new - ptr) = take nbytes (drop ptr (contents s B ?n))"
  proof (rule nth_equalityI)
    show "length (block m' buf (new - ptr)) = length (take nbytes (drop ptr (contents s B ?n)))"
      using D(6) by (simp add: contents_def)
  next
    fix q assume "q < length (block m' buf (new - ptr))"
    then have q: "q < new - ptr" by simp
    note S = whole_step [OF B w q]
    have "m' (buf + of_nat q) = fmem s (daddr s (fblk ?n ((ptr + q) div B) * B + (ptr + q) mod B))"
      using m'(2) S by (metis add_0)
    moreover have "ptr + q < nat (isize ?n)" "q < nbytes" using q D(6) by simp_all
    ultimately show "block m' buf (new - ptr) ! q = take nbytes (drop ptr (contents s B ?n)) ! q"
      using q by (simp add: nth_block contents_def)
  qed
  have "(\<Sum>l<?k. csz B ?k ptr new l) \<le> (\<Sum>l<?k. B)" by (rule sum_mono) (use P(1) in \<open>auto simp: plan_def\<close>)
  then have "m' a = fmem s a" if "\<forall>y<?k * B. a \<noteq> buf + of_nat y" for a using m'(3) that by simp
  then show ?thesis using run data by (intro exI [of _ ?t]) simp
qed

lemma fsinv_seek:
  assumes "fsinv s B N d" "0 \<le> p" "p \<le> isize (finode s fd)"
  shows "fsinv (s\<lparr>fheap := h, oft := (oft s)(fd := (oft s fd)\<lparr>fileptr := p\<rparr>)\<rparr>) B N d" (is "fsinv ?t B N d")
proof -
  have e: "is_open ?t x = is_open s x" "finode ?t x = finode s x" "fileptr (oft ?t x) = (if x = fd then p else fileptr (oft s x))" for x
    by (simp_all add: is_open_def)
  have sd: "same_dev s ?t" by (simp add: same_dev_def same_fsd_def)
  have "fm.used ?t = fm.used s" by (rule used_cong [OF sd]) simp
  then have io: "inode_ok ?t B N d n = inode_ok s B N d n" for n by (simp only: inode_ok_def)
  show ?thesis
    unfolding fsinv_def e io
    using same_dev_geom [OF sd fsinvD(1) [OF assms(1)]] fsinvD(2-5) [OF assms(1)] assms(2,3) by simp
qed

lemma seek_back:
  assumes "is_open s fd" "getmem 64 (fheap s) = Some (a, h)" "a \<noteq> SYSERR_PTR" "fileptr (oft s fd) + off = int p"
    "int p \<le> isize (finode s fd)" "isize (finode s fd) < 2 ^ 31"
  shows "fs_seek fd off s = Some (OK, s\<lparr>fheap := h, oft := (oft s)(fd := (oft s fd)\<lparr>fileptr := int p\<rparr>)\<rparr>)"
  using assms by (auto simp: fs_seek_def is_open_def SIZEOF_INODE_def int32_def Let_def)

text \<open>
  C27. What is written is read back, for a write that starts at a block boundary, reaches at least the end of the file, does not
  end at a block boundary more than one block on, and stays below the limit of twelve blocks: when it succeeded, seeking back by the number of
  bytes written and reading that many bytes returns them all. The three calls are granted their inode buffers by \<^verbatim>\<open>getmem\<close>, and the buffer that is read into
  is apart from the device and from \<^verbatim>\<open>fsd\<close>. A write that starts inside a block is not covered: one that also ends there is lost.
\<close>

theorem fs_write_read_roundtrip:
  assumes W: "write_pre s B N d fd buf ptr new h1" and w: "whole B ptr new" and sz: "isize (finode s fd) \<le> int new"
    and ok: "fs_write fd buf (int (new - ptr)) s = Some (int (new - ptr), t1)"
    and h2: "getmem 64 h1 = Some (a2, h2)" "a2 \<noteq> SYSERR_PTR" and h3: "getmem 64 h2 = Some (a3, h3)" "a3 \<noteq> SYSERR_PTR"
    and buf2: "apart buf2 ((cdiv new B - cdiv ptr B) * B) (dev0_blocks s) (N * B)" "apart (fsd s) 604 buf2 ((cdiv new B - cdiv ptr B) * B)"
  shows "\<exists>t2 t3. fs_seek fd (int ptr - int new) t1 = Some (OK, t2) \<and> fs_read fd buf2 (int (new - ptr)) t2 = Some (int (new - ptr), t3)
    \<and> block (fmem t3) buf2 (new - ptr) = block (fmem s) buf (new - ptr)"
proof -
  note D = write_preD [OF W]
  have B: "0 < B" "B \<le> 512" by (rule geomD [OF D(1)])+
  have "int (new - ptr) \<noteq> SYSERR" by (simp add: SYSERR_def)
  then obtain n' m' where t1: "t1 = s\<lparr>fheap := h1, fmem := m', oft := (oft s)(fd := (oft s fd)\<lparr>fileptr := int new, fin := n'\<rparr>)\<rparr>"
      and R: "write_result s B N d fd buf ptr new h1 n' m'"
    using write_cases [OF W] ok by auto
  note E = write_resultD [OF R, folded t1]
  have I: "fsinv t1 B N d" using write_fsinv [OF W R] by (simp only: t1)
  have op: "is_open t1 fd" using D(2) by (simp add: is_open_def t1)
  have isz: "isize n' = int new" using E(9) sz by simp
  let ?t2 = "t1\<lparr>fheap := h2, oft := (oft t1)(fd := (oft t1 fd)\<lparr>fileptr := int ptr\<rparr>)\<rparr>"
  have seek: "fs_seek fd (int ptr - int new) t1 = Some (OK, ?t2)"
    by (rule seek_back [OF op _ h2(2)]) (use h2 isz D(5,6) B in \<open>simp_all add: t1\<close>)
  have fi: "finode ?t2 fd = n'" by (simp add: t1)
  have sd: "same_dev s ?t2" using E(3) by (auto simp: same_dev_def same_fsd_def t1)
  have I2: "fsinv ?t2 B N d" by (rule fsinv_seek [OF I]) (use isz D(5) in \<open>simp_all add: t1\<close>)
  have rp: "read_pre ?t2 B N d fd buf2 (new - ptr) ptr new h3"
    unfolding read_pre_def using I2 op h3 D(5,6) B buf2 isz same_dev_fields(8,11) [OF sd] by (simp add: is_open_def t1)
  obtain t3 where "fs_read fd buf2 (int (new - ptr)) ?t2 = Some (int (new - ptr), t3)"
    "block (fmem t3) buf2 (new - ptr) = take (new - ptr) (drop ptr (contents ?t2 B n'))"
    using read_whole [OF rp w] fi by auto
  moreover have "take (new - ptr) (drop ptr (contents ?t2 B n')) = block (fmem s) buf (new - ptr)"
  proof -
    have "ptr \<le> nat (isize (finode s fd))" using W D(2,4) fsinvD(4) [of s B N d fd] by (simp add: write_pre_def)
    then show ?thesis
      using extends_contents [OF W R w sz, of ?t2] by (simp add: t1 contents_def [of s] min.absorb2)
  qed
  ultimately show ?thesis using seek by auto
qed

section \<open>Inodes on the device\<close>

definition inode_rep :: "inode \<Rightarrow> bool" where
  "inode_rep n \<longleftrightarrow> int32 (iid n) \<and> int16 (itype n) \<and> int16 (nlink n) \<and> int32 (idevice n) \<and> int32 (isize n)
     \<and> length (iblocks n) = 12 \<and> (\<forall>b\<in>set (iblocks n). int32 b)"

lemma of_le32_append: "of_le32 (le32 v @ ys) = of_le32 (le32 v)" and of_le16_append: "of_le16 (le16 v @ ys) = of_le16 (le16 v)"
  by (simp_all add: of_le32_def le32_def of_le16_def le16_def)

lemma of_le32s_concat: "\<forall>b\<in>set bs. int32 b \<Longrightarrow> of_le32s (length bs) (concat (map le32 bs)) = bs"
  by (induction bs) (simp_all add: of_le32_append of_le32_le32)

lemma length_concat_le32: "length (concat (map le32 bs)) = 4 * length bs"
  by (induction bs) simp_all

lemma length_inode_bytes: "length (iblocks n) = 12 \<Longrightarrow> length (inode_bytes n) = 64"
  by (simp add: inode_bytes_def length_concat_le32)

lemma inode_of_bytes:
  assumes "inode_rep n"
  shows "inode_of (inode_bytes n) = n"
  using assms of_le32s_concat [of "iblocks n"]
  by (simp add: inode_rep_def inode_of_def inode_bytes_def of_le32_append of_le16_append of_le32_le32 of_le16_le16)

text \<open>Inode \<open>k\<close> as the device has it.\<close>

definition ipos :: "nat \<Rightarrow> nat \<Rightarrow> nat" where
  "ipos B k = (2 + k div (B div 64)) * B + k mod (B div 64) * 64"

definition dinode :: "fsstate \<Rightarrow> nat \<Rightarrow> nat \<Rightarrow> inode" where
  "dinode s B k = inode_of (block (fmem s) (daddr s (ipos B k)) 64)"

lemma int_div_mod: "int a div int b = int (a div b)" "int a mod int b = int (a mod b)"
  by (simp_all add: zdiv_int zmod_int)

lemma inode_block:
  assumes "geom s B N d" "int k < ninodes s" "p = B div 64"
  shows "2 + k div p < d" "INODES_PER_BLOCK s = int p" "0 < p" "k mod p * 64 + 64 \<le> B"
    "u32 (int k) = int k" "s32 (int (k div p)) = int (k div p)" "s32 (int (k mod p)) = int (k mod p)"
    "u32 (int (k mod p)) = int (k mod p)" "s32 (int (k mod p) * 64) = int (k mod p * 64)"
proof -
  note G = geomD [OF assms(1)]
  have i: "ninodes s < 2 ^ 31" using int32_ldint [of "fmem s" "fsd s + 8"] by (simp add: ninodes_def int32_def)
  show ipb: "INODES_PER_BLOCK s = int p" using G(1,5) by (simp add: INODES_PER_BLOCK_def SIZEOF_INODE_def u32_id zdiv_int assms(3))
  show p: "0 < p" using G(4) by (simp add: div_greater_zero_iff assms(3))
  define n where "n = nat (ninodes s)"
  have n: "ninodes s = int n" "k < n" "n < 2 ^ 31" using assms(2) i by (simp_all add: n_def)
  show "u32 (int k) = int k" using n by (intro u32_id) simp_all
  have num: "NUM_INODE_BLOCKS s = int (cdiv n p)"
    using n p by (simp add: NUM_INODE_BLOCKS_def ipb u32_id cdiv_cases int_div_mod)
  have "d = 2 + cdiv n p" using G(15) by (simp add: FIRST_INODE_BLOCK_def num)
  moreover have "k div p < cdiv n p"
    using le_less_trans [OF div_times_less_eq_dividend n(2)] by (simp add: cdiv_less [OF p])
  ultimately show "2 + k div p < d" by simp
  have "k mod p + 1 \<le> p" using p by (simp add: Suc_leI)
  then have "(k mod p + 1) * 64 \<le> p * 64" by (rule mult_le_mono1)
  also have "\<dots> \<le> B" by (simp add: assms(3))
  finally show r: "k mod p * 64 + 64 \<le> B" by simp
  have "k div p < 2 ^ 31" "k mod p < 2 ^ 31" using div_le_dividend [of k p] mod_less_eq_dividend [of k p] n by linarith+
  then have "int32 (int (k div p))" "int32 (int (k mod p))" "int (k mod p) < 2 ^ 32" "int32 (int (k mod p * 64))"
    using n r G(5) by (simp_all add: int32_def del: of_nat_mod of_nat_div)
  then show "s32 (int (k div p)) = int (k div p)" "s32 (int (k mod p)) = int (k mod p)"
    "u32 (int (k mod p)) = int (k mod p)" "s32 (int (k mod p) * 64) = int (k mod p * 64)"
    by (simp_all only: s32_id u32_id of_nat_0_le_iff of_nat_mult of_nat_numeral)
qed

lemma word_mult: "dev0_blocks s + word_of_int ((int b + 2) * int B) = daddr s ((2 + b) * B)"
proof -
  have "(int b + 2) * int B = int ((2 + b) * B)" by (simp add: algebra_simps)
  then show ?thesis by (simp only: of_int_of_nat_eq)
qed

lemma get_unfold:
  assumes "geom s B N d" "int k < ninodes s" "p = B div 64"
  shows "fs_get_inode_by_num 0 (int k) x s
    = Some (OK, dinode s B k, s\<lparr>fmem := put (fmem s) (block_cache s) (block (fmem s) (daddr s ((2 + k div p) * B)) B)\<rparr>)"
    (is "_ = Some (OK, _, ?t)")
proof -
  note I = inode_block [OF assms] and G = geomD [OF assms(1)]
  have q: "2 + k div p < N" using I(1) G(13) by simp
  have r: "bs_bread dev0 (int (k div p) + 2) 0 (block_cache s) (int B) s = (OK, ?t)"
    using bs_bread_put [OF assms(1) q, of 0 B "block_cache s"] G(14,5) apart_mono [OF G(11), of B "N * B"]
    by (simp add: add.commute del: of_nat_div)
  have "block (fmem ?t) (block_cache s + of_nat (k mod p * 64)) 64 = take 64 (drop (k mod p * 64) (block (fmem s) (daddr s ((2 + k div p) * B)) B))"
    using block_sub [OF I(4), of "fmem ?t" "block_cache s"] block_put [of "block (fmem s) (daddr s ((2 + k div p) * B)) B" "fmem s" "block_cache s"] G(5) by simp
  also have "\<dots> = block (fmem s) (daddr s (ipos B k)) 64"
    using block_sub [OF I(4), of "fmem s" "daddr s ((2 + k div p) * B)"] by (simp add: ipos_def add.assoc assms(3))
  finally show ?thesis
    using I assms(2) G(1) r
    by (simp add: fs_get_inode_by_num_def dinode_def SIZEOF_INODE_def FIRST_INODE_BLOCK_def Let_def int_div_mod del: of_nat_div of_nat_mod)
qed

lemma put_unfold:
  assumes "geom s B N d" "int k < ninodes s" "p = B div 64" "length (inode_bytes n) = 64"
  defines "D \<equiv> daddr s ((2 + k div p) * B)"
  shows "\<exists>t. fs_put_inode_by_num 0 (int k) n s = Some (OK, t) \<and> same_dev s t
    \<and> block (fmem t) D B = splice_at (k mod p * 64) (inode_bytes n) (block (fmem s) D B)
    \<and> (\<forall>b<N. b \<noteq> 2 + k div p \<longrightarrow> block (fmem t) (daddr s (b * B)) B = block (fmem s) (daddr s (b * B)) B)"
proof -
  note I = inode_block [OF assms(1-3)] and G = geomD [OF assms(1)]
  have q: "2 + k div p < N" using I(1) G(13) by simp
  let ?C = "block_cache s"
  let ?m1 = "put (fmem s) ?C (block (fmem s) D B)"
  let ?m2 = "put ?m1 (?C + of_nat (k mod p * 64)) (inode_bytes n)"
  let ?m3 = "put ?m2 D (block ?m2 ?C B)"
  have cd: "apart ?C B (dev0_blocks s) (N * B)" "apart ?C B (fsd s) 604"
    using apart_mono [OF G(11), of B "N * B"] assms(1) G(5) apart_mono [of ?C 512 "fsd s" 604 B 604] by (simp_all add: geom_def)
  have blk: "(2 + k div p) * B + B \<le> N * B" by (rule block_in_dev [OF q])
  have r: "bs_bread dev0 (int (k div p) + 2) 0 ?C (int B) s = (OK, s\<lparr>fmem := ?m1\<rparr>)"
    using bs_bread_put [OF assms(1) q, of 0 B ?C] G(14) cd(1) by (simp add: D_def add.commute del: of_nat_div)
  have f: "apart (fsd s) 604 (?C + of_nat i) j" if "i + j \<le> B" for i j
    using apart_sub [OF apart_sym [OF cd(2)], of 0 604 i j] that by simp
  have s1: "same_dev s (s\<lparr>fmem := ?m1\<rparr>)" by (rule same_dev_put) (use f [of 0 B] in simp)
  have s12: "same_dev (s\<lparr>fmem := ?m1\<rparr>) (s\<lparr>fmem := ?m1\<rparr>\<lparr>fmem := put (fmem (s\<lparr>fmem := ?m1\<rparr>)) (?C + of_nat (k mod p * 64)) (inode_bytes n)\<rparr>)"
    by (rule same_dev_put) (use f [OF I(4)] assms(4) in simp)
  then have s2: "same_dev s (s\<lparr>fmem := ?m2\<rparr>)" using same_dev_trans [OF s1] by simp
  note g2 = same_dev_geom [OF s2 assms(1)]
  have w: "bs_bwrite dev0 (int (k div p) + 2) 0 ?C (int B) (s\<lparr>fmem := ?m2\<rparr>) = (OK, s\<lparr>fmem := ?m3\<rparr>)"
    using bs_bwrite_put [OF g2 q, of 0 B ?C] G(14) cd(1) by (simp add: D_def add.commute del: of_nat_div)
  have bz: "blocksz (s\<lparr>fmem := ?m2\<rparr>) = int B" using geomD(1) [OF g2] .
  have run: "fs_put_inode_by_num 0 (int k) n s = Some (OK, s\<lparr>fmem := ?m3\<rparr>)"
    using I assms(2) G(1) r w bz
    by (simp add: fs_put_inode_by_num_def SIZEOF_INODE_def FIRST_INODE_BLOCK_def Let_def int_div_mod del: of_nat_div of_nat_mod)
  have s3: "same_dev (s\<lparr>fmem := ?m2\<rparr>) (s\<lparr>fmem := ?m3\<rparr>)"
    using same_dev_put_dev [OF g2, of "(2 + k div p) * B" "block ?m2 ?C B"] blk by (simp add: D_def)
  have c1: "block ?m1 ?C B = block (fmem s) D B"
    using block_put [of "block (fmem s) D B" "fmem s" ?C] G(5) by simp
  have "block ?m3 D B = block ?m2 ?C B" using block_put [of "block ?m2 ?C B" ?m2 D] G(5) by simp
  also have "\<dots> = splice_at (k mod p * 64) (inode_bytes n) (block (fmem s) D B)"
    using block_put_in [of "k mod p * 64" "inode_bytes n" B ?m1 ?C] I(4) assms(4) G(5) c1 by simp
  finally have same: "block ?m3 D B = splice_at (k mod p * 64) (inode_bytes n) (block (fmem s) D B)" .
  have other: "block ?m3 (daddr s (b * B)) B = block (fmem s) (daddr s (b * B)) B" if b: "b < N" "b \<noteq> 2 + k div p" for b
  proof -
    have "b * B + B \<le> (2 + k div p) * B \<or> (2 + k div p) * B + B \<le> b * B"
      using b(2) by (metis Suc_leI add.commute linorder_neqE_nat mult_Suc mult_le_mono1)
    then have "apart (daddr s (b * B)) B D B"
      unfolding D_def using block_in_dev [OF b(1), of B] blk G(6) by (intro apart_within) auto
    moreover have "apart (daddr s (b * B)) B (?C + of_nat i) j" if "i + j \<le> B" for i j
      using apart_sub [OF apart_sym [OF cd(1)], of "b * B" B i j] block_in_dev [OF b(1), of B] that by simp
    from this [of 0 B] this [OF I(4)] have "apart (daddr s (b * B)) B ?C B" "apart (daddr s (b * B)) B (?C + of_nat (k mod p * 64)) 64" by simp_all
    ultimately show ?thesis using assms(4) by (simp add: block_put_apart)
  qed
  have e: "fmem (s\<lparr>fmem := m\<rparr>) = m" for m by simp
  show ?thesis
    by (intro exI [of _ "s\<lparr>fmem := ?m3\<rparr>"] conjI run same_dev_trans [OF s2 s3]; (unfold e)?) (use same other in blast)+
qed

text \<open>
  Inodes are a store: an inode written under a number is read back under it unchanged,
  whatever it holds, and every other inode of the file system stays as it was.
\<close>

theorem fs_inode_store:
  assumes "geom s B N d" "int k < ninodes s" "inode_rep n"
  shows "\<exists>t. fs_put_inode_by_num 0 (int k) n s = Some (OK, t) \<and> geom t B N d
    \<and> (\<exists>u. fs_get_inode_by_num 0 (int k) x t = Some (OK, n, u))
    \<and> (\<forall>j. j \<noteq> k \<and> int j < ninodes s \<longrightarrow> dinode t B j = dinode s B j)"
proof -
  define p where "p = B div 64"
  have len: "length (inode_bytes n) = 64" using assms(3) by (simp add: inode_rep_def length_inode_bytes)
  obtain t where t: "fs_put_inode_by_num 0 (int k) n s = Some (OK, t)" "same_dev s t"
    "block (fmem t) (daddr s ((2 + k div p) * B)) B = splice_at (k mod p * 64) (inode_bytes n) (block (fmem s) (daddr s ((2 + k div p) * B)) B)"
    "\<forall>b<N. b \<noteq> 2 + k div p \<longrightarrow> block (fmem t) (daddr s (b * B)) B = block (fmem s) (daddr s (b * B)) B"
    using put_unfold [OF assms(1,2) p_def len] by blast
  note F = same_dev_fields [OF t(2)] and gt = same_dev_geom [OF t(2) assms(1)] and I = inode_block [OF assms(1) _ p_def]
  have di: "dinode u B j = inode_of (take 64 (drop (j mod p * 64) (block (fmem u) (daddr s ((2 + j div p) * B)) B)))"
    if "int j < ninodes s" "dev0_blocks u = dev0_blocks s" for u j
    using block_sub [OF I(4) [OF that(1)], of "fmem u" "daddr s ((2 + j div p) * B)"] that(2)
    by (simp add: dinode_def ipos_def p_def add.assoc)
  have "dinode t B k = n"
    using di [OF assms(2) F(11)] t(3) I(4) [OF assms(2)] len splice_at_read [of "k mod p * 64" "inode_bytes n"] inode_of_bytes [OF assms(3)]
    by simp
  moreover have "\<exists>u. fs_get_inode_by_num 0 (int k) x t = Some (OK, dinode t B k, u)"
    using get_unfold [OF gt _ refl] assms(2) F(3) by auto
  moreover have "dinode t B j = dinode s B j" if j: "j \<noteq> k" "int j < ninodes s" for j
  proof (cases "j div p = k div p")
    case True
    then have "j mod p \<noteq> k mod p" using j(1) by (metis div_mult_mod_eq)
    then have "j mod p * 64 + 64 \<le> k mod p * 64 \<or> k mod p * 64 + 64 \<le> j mod p * 64" by linarith
    then show ?thesis
      using di [OF j(2) F(11)] di [OF j(2) refl] t(3) True I(4) [OF j(2)] I(4) [OF assms(2)] len
      by (simp add: splice_at_read_other)
  next
    case False
    have "2 + j div p < N" using I(1) [OF j(2)] geomD(13) [OF assms(1)] by simp
    then have "block (fmem t) (daddr s ((2 + j div p) * B)) B = block (fmem s) (daddr s ((2 + j div p) * B)) B"
      using False by (intro t(4) [rule_format]) simp_all
    then show ?thesis by (simp only: di [OF j(2) F(11)] di [OF j(2) refl])
  qed
  ultimately show ?thesis using t(1) gt by auto
qed

section \<open>Bytes that a write loses\<close>

text \<open>
  C28. A write that starts inside a block and ends in it is lost: it reports all its bytes as
  written and moves the file pointer and the size, but not one byte of memory changes.
\<close>

theorem fs_write_unaligned_lost:
  assumes W: "write_pre s B N d fd buf ptr new h" and c: "cdiv new B = cdiv ptr B"
  shows "\<exists>t. fs_write fd buf (int (new - ptr)) s = Some (int (new - ptr), t) \<and> fmem t = fmem s
    \<and> fileptr (oft t fd) = int new \<and> isize (finode t fd) = max (isize (finode s fd)) (int new)"
proof -
  note D = write_preD [OF W]
  have "int ptr \<le> isize (finode s fd)" using W D(2,4) fsinvD(4) [of s B N d fd] by (simp add: write_pre_def)
  then have "cdiv new B \<le> cdiv (nat (isize (finode s fd))) B" using c cdiv_mono [of ptr "nat (isize (finode s fd))" B] by simp
  then show ?thesis using write_unfold [OF W] c by (simp add: grown_facts)
qed

text \<open>
  A write over more than one block that ends at a block boundary leaves its last block as
  it was: the loop transfers \<^verbatim>\<open>newSize % blocksz\<close> bytes there, which is 0.
\<close>

lemma fs_write_full_last_block_lost:
  assumes W: "write_pre s B N d fd buf ptr new h" and c: "new mod B = 0" "cdiv ptr B + 1 < cdiv new B"
    and ok: "fs_write fd buf (int (new - ptr)) s = Some (int (new - ptr), t)" and r: "r < B"
  defines "x \<equiv> fblk (finode t fd) (cdiv new B - 1) * B + r"
  shows "fmem t (daddr s x) = fmem s (daddr s x)"
proof -
  note D = write_preD [OF W]
  have B: "0 < B" by (rule geomD(14) [OF D(1)])
  have "int (new - ptr) \<noteq> SYSERR" by (simp add: SYSERR_def)
  then obtain n' m' where t: "t = s\<lparr>fheap := h, fmem := m', oft := (oft s)(fd := (oft s fd)\<lparr>fileptr := int new, fin := n'\<rparr>)\<rparr>"
      and R: "write_result s B N d fd buf ptr new h n' m'"
    using write_cases [OF W] ok by auto
  note E = write_resultD [OF R]
  have cm: "cdiv new B \<le> cdiv (nat (isize n')) B" using E(9) by (intro cdiv_mono) simp
  have inr: "fblk n' y \<in> {d..<N}" if "y < cdiv new B" for y
  proof -
    have "fblk n' y \<in> owned B n'" using that cm unfolding owned_def by (intro imageI) simp
    then show ?thesis using E(2) unfolding inode_ok_def by blast
  qed
  have inj: "inj_on (fblk n') {..<cdiv (nat (isize n')) B}" using E(2) by (simp add: inode_ok_def)
  have "m' (daddr s x) = fmem s (daddr s x)"
  proof (rule E(8))
    have "x < N * B" unfolding x_def t using inr [of "cdiv new B - 1"] r c(2) by (intro in_block) auto
    then show "\<not> in_mask s (daddr s x)" using mask_not_dev [OF D(1)] by blast
    show "\<forall>j<cdiv new B - cdiv ptr B. \<forall>q < csz B (cdiv new B - cdiv ptr B) ptr new j.
      daddr s x \<noteq> daddr s (fblk n' (cdiv ptr B + j) * B + (coff B ptr j + q))"
    proof (intro allI impI)
      fix j q assume j: "j < cdiv new B - cdiv ptr B" "q < csz B (cdiv new B - cdiv ptr B) ptr new j"
      note S = step_in_block [OF B j]
      have "Suc j \<noteq> cdiv new B - cdiv ptr B" using j(2) c by (auto simp: csz_def split: if_splits)
      then have "cdiv new B - 1 \<noteq> cdiv ptr B + j" using j(1) c(2) by simp
      then have "fblk n' (cdiv new B - 1) \<noteq> fblk n' (cdiv ptr B + j)" using inj_onD [OF inj] S(2) cm c(2) by fastforce
      then show "daddr s x \<noteq> daddr s (fblk n' (cdiv ptr B + j) * B + (coff B ptr j + q))"
        unfolding x_def t using inr S r c(2) by (intro daddr_ne [OF D(1)]) auto
    qed
  qed
  then show ?thesis by (simp add: t)
qed

section \<open>Descriptors\<close>

text \<open>
  Descriptors are handed out in order and never given back: once sixteen have been used,
  no file can be opened any more, and closing files does not help.
\<close>

lemma fs_open_exhausted:
  assumes "next_open_fd s \<ge> NUM_FD" "fs_open filename flags s = Some (r, t)"
  shows "r = SYSERR \<and> t = s"
  using assms by (auto simp: fs_open_def Let_def elim!: bind_SomeE split: if_splits)

lemma fs_close_keeps_next: "fs_close fd s = Some (r, t) \<Longrightarrow> next_open_fd t = next_open_fd s"
  by (auto simp: fs_close_def split: if_splits)

lemma fs_close_open:
  assumes "is_open s fd" "fsinv s B N d"
  shows "\<exists>t. fs_close fd s = Some (OK, t) \<and> \<not> is_open t fd \<and> fsinv t B N d"
proof -
  let ?t = "s\<lparr>oft := (oft s)(fd := (oft s fd)\<lparr>fstate := FSTATE_CLOSED\<rparr>)\<rparr>"
  have e: "is_open ?t x = (x \<noteq> fd \<and> is_open s x)" "finode ?t x = finode s x" "fileptr (oft ?t x) = fileptr (oft s x)" for x
    by (auto simp: is_open_def fs_consts)
  have io: "inode_ok ?t B N d n = inode_ok s B N d n" for n by (simp only: inode_ok_def used_oft)
  have "fsinv ?t B N d"
    unfolding fsinv_def e io using same_dev_geom [OF same_dev_oft fsinvD(1) [OF assms(2)]] fsinvD(2-5) [OF assms(2)] by simp
  moreover have "fs_close fd s = Some (OK, ?t)" using assms(1) by (simp add: fs_close_def is_open_def)
  ultimately show ?thesis using e(1) by auto
qed

section \<open>An example\<close>

text \<open>A file system of 24 blocks of 512 bytes, one inode block, and one open, empty file.\<close>

definition exfs :: fsstate where
  "exfs = \<lparr>fheap = meminit 0x200000 0x300000 mem_zero,
     fmem = stint (stint (stint (stint (stint (\<lambda>_. 0) 0x1000 24) 0x1004 512) 0x1008 8) 0x1010 3) 0x1014 0x3000,
     dev0_numblocks = 24, dev0_blocksize = 512, dev0_blocks = 0x10000, fsd = 0x1000, block_cache = 0x2000,
     oft = (\<lambda>fd. \<lparr>fstate = (if fd = 0 then FSTATE_OPEN else FSTATE_CLOSED), fileptr = 0, fde = 0,
       fin = \<lparr>iid = 0, itype = 1, nlink = 0, idevice = 0, isize = 0, iblocks = replicate 12 0\<rparr>\<rparr>),
     next_open_fd = 1\<rparr>"

lemma apart_unat:
  assumes "unat p + n \<le> unat q \<or> unat q + k \<le> unat p" "unat p + n \<le> 2 ^ 32" "unat q + k \<le> 2 ^ 32"
  shows "apart p n q k"
proof -
  have "apart (0 + of_nat (unat p)) n (0 + of_nat (unat q)) k" by (rule apart_within) (use assms in auto)
  then show ?thesis by simp
qed

lemma ldint_stint_ne:
  "unat a + 4 \<le> unat b \<or> unat b + 4 \<le> unat a \<Longrightarrow> unat a + 4 \<le> 2 ^ 32 \<Longrightarrow> unat b + 4 \<le> 2 ^ 32 \<Longrightarrow> ldint (stint m b v) a = ldint m a"
  unfolding stint_def by (rule ldint_put_apart) (auto intro: apart_unat)

lemma exfs_fields:
  "nblocks exfs = 24" "blocksz exfs = 512" "ninodes exfs = 8" "freemaskbytes exfs = 3" "freemask exfs = 0x3000"
  by (simp_all add: fsd_fields exfs_def ldint_stint ldint_stint_ne int32_def)

lemma exfs_geom: "geom exfs 512 24 3"
proof -
  have a: "dev0_blocksize exfs = 512" "dev0_blocks exfs = 0x10000" "fsd exfs = 0x1000" "block_cache exfs = 0x2000" by (simp_all add: exfs_def)
  have d: "FIRST_INODE_BLOCK + NUM_INODE_BLOCKS exfs = 3"
    by (simp add: NUM_INODE_BLOCKS_def INODES_PER_BLOCK_def fs_consts exfs_fields u32_def)
  show ?thesis unfolding geom_def mask_ok_def mbits_def a exfs_fields d
    by (intro conjI apart_unat) simp_all
qed

lemma exfs_inv: "fsinv exfs 512 24 3"
proof -
  have "owned 512 (finode exfs fd) = {}" for fd by (simp add: exfs_def owned_def cdiv_def)
  moreover have "inode_ok exfs 512 24 3 (finode exfs fd)" "fileptr (oft exfs fd) = 0" "isize (finode exfs fd) = 0" for fd
    by (simp_all add: inode_ok_def exfs_def owned_def cdiv_def)
  ultimately show ?thesis unfolding fsinv_def using exfs_geom by simp
qed

lemma exheap:
  "\<exists>h1 h2 h3. (\<exists>a. getmem 64 (fheap exfs) = Some (a, h1) \<and> a \<noteq> SYSERR_PTR)
     \<and> (\<exists>a. getmem 64 h1 = Some (a, h2) \<and> a \<noteq> SYSERR_PTR) \<and> (\<exists>a. getmem 64 h2 = Some (a, h3) \<and> a \<noteq> SYSERR_PTR)"
  by (simp add: exfs_def getmem_def getmem_loop.simps meminit_def mem_zero_def roundmb_def SYSERR_PTR_def sub_free_def Let_def)

lemma exfs_write_pre:
  assumes "\<exists>a. getmem 64 (fheap exfs) = Some (a, h) \<and> a \<noteq> SYSERR_PTR" "0 < n" "n \<le> 1536"
  shows "write_pre exfs 512 24 3 0 0x8000 0 n h"
proof -
  have a: "dev0_blocks exfs = 0x10000" "fileptr (oft exfs 0) = 0" "is_open exfs 0" by (simp_all add: exfs_def is_open_def fs_consts)
  have c: "cdiv n 512 \<le> 3" "cdiv 0 512 = 0" using assms(3) by (auto intro!: cdiv_le simp: cdiv_def)
  show ?thesis
    unfolding write_pre_def a exfs_fields c(2) using exfs_inv assms c(1) a(3) by (intro conjI apart_unat) simp_all
qed

theorem fs_write_isolated_witness:
  "\<exists>r t. fs_write 0 0x8000 1200 exfs = Some (r, t) \<and> fsinv t 512 24 3"
proof -
  obtain h where "\<exists>a. getmem 64 (fheap exfs) = Some (a, h) \<and> a \<noteq> SYSERR_PTR" using exheap by blast
  from fs_write_isolated [OF write_pre_req [OF exfs_write_pre [OF this, of 1200]]] show ?thesis by auto
qed

lemma stint_ne:
  assumes "unat b + 4 \<le> unat a"
  shows "stint m b v a = m a"
proof -
  have "apart a 1 b 4" using assms unat_bound [of a] by (intro apart_unat) auto
  then have "a \<noteq> b + of_nat j" if "j < 4" for j using apart_ne [of a 1 b 4 0 j] that by simp
  then show ?thesis unfolding stint_def by (intro put_other) simp
qed

lemma exfs_used: "fm.used exfs = {}"
proof -
  have "fmem exfs (0x3000 + of_nat (x div 8)) = 0" if "x < 24" for x
  proof -
    have "x div 8 = 0 \<or> x div 8 = 1 \<or> x div 8 = 2" using that by auto
    then show ?thesis by (elim disjE) (simp_all add: exfs_def stint_ne)
  qed
  then show ?thesis by (auto simp: fm.used_def inuse_def maskaddr_def mbits_def exfs_fields)
qed

lemma exfs_size: "isize (finode exfs 0) = 0" "dev0_blocks exfs = 0x10000" "fsd exfs = 0x1000" "contents exfs B (finode exfs 0) = []"
  by (simp_all add: exfs_def contents_def)

theorem fs_write_extends_witness:
  "\<exists>t. fs_write 0 0x8000 1200 exfs = Some (1200, t) \<and> contents t 512 (finode t 0) = block (fmem exfs) 0x8000 1200"
proof -
  obtain h where "\<exists>a. getmem 64 (fheap exfs) = Some (a, h) \<and> a \<noteq> SYSERR_PTR" using exheap by blast
  from fs_write_extends [OF write_pre_req [OF exfs_write_pre [OF this, of 1200]]] show ?thesis
    by (auto simp: whole_def exfs_used exfs_size cdiv_def)
qed

theorem fs_write_read_roundtrip_witness:
  "\<exists>t1 t2 t3. fs_write 0 0x8000 1200 exfs = Some (1200, t1) \<and> fs_seek 0 (- 1200) t1 = Some (OK, t2)
    \<and> fs_read 0 0x9000 1200 t2 = Some (1200, t3) \<and> block (fmem t3) 0x9000 1200 = block (fmem exfs) 0x8000 1200"
proof -
  obtain h1 h2 h3 a2 a3 where h: "\<exists>a. getmem 64 (fheap exfs) = Some (a, h1) \<and> a \<noteq> SYSERR_PTR"
    "getmem 64 h1 = Some (a2, h2)" "a2 \<noteq> SYSERR_PTR" "getmem 64 h2 = Some (a3, h3)" "a3 \<noteq> SYSERR_PTR" using exheap by blast
  have W: "write_pre exfs 512 24 3 0 0x8000 0 1200 h1" by (rule exfs_write_pre [OF h(1)]) simp_all
  obtain t1 where t1: "fs_write 0 0x8000 (int (1200 - 0)) exfs = Some (int (1200 - 0), t1)"
    using write_cases [OF W] by (auto simp: exfs_used exfs_size cdiv_def)
  have "apart (0x9000 :: uint32) ((cdiv 1200 512 - cdiv 0 512) * 512) (dev0_blocks exfs) (24 * 512)"
    "apart (fsd exfs) 604 0x9000 ((cdiv 1200 512 - cdiv 0 512) * 512)"
    unfolding exfs_size by (rule apart_unat; simp add: cdiv_def)+
  from fs_write_read_roundtrip [OF W _ _ t1 h(2-5) this] show ?thesis
    using t1 by (simp add: whole_def exfs_size)
qed

text \<open>Two writes of ten bytes, the second of which is lost.\<close>

theorem fs_write_unaligned_lost_witness:
  "\<exists>t1 t2. fs_write 0 0x8000 10 exfs = Some (10, t1) \<and> fs_write 0 0x8000 10 t1 = Some (10, t2) \<and> fmem t2 = fmem t1"
proof -
  obtain h1 h2 where h: "\<exists>a. getmem 64 (fheap exfs) = Some (a, h1) \<and> a \<noteq> SYSERR_PTR"
    "\<exists>a. getmem 64 h1 = Some (a, h2) \<and> a \<noteq> SYSERR_PTR" using exheap by blast
  have W: "write_pre exfs 512 24 3 0 0x8000 0 10 h1" by (rule exfs_write_pre [OF h(1)]) simp_all
  obtain n' m' where w: "fs_write 0 0x8000 (int (10 - 0)) exfs
      = Some (int (10 - 0), exfs\<lparr>fheap := h1, fmem := m', oft := (oft exfs)(0 := (oft exfs 0)\<lparr>fileptr := int 10, fin := n'\<rparr>)\<rparr>)"
    and R: "write_result exfs 512 24 3 0 0x8000 0 10 h1 n' m'"
    using write_cases [OF W] by (auto simp: exfs_used exfs_size cdiv_def)
  define t1 where "t1 = exfs\<lparr>fheap := h1, fmem := m', oft := (oft exfs)(0 := (oft exfs 0)\<lparr>fileptr := int 10, fin := n'\<rparr>)\<rparr>"
  have "same_dev exfs t1" using write_resultD(3) [OF R] by (simp add: t1_def)
  note F = same_dev_fields [OF this]
  have "write_pre t1 512 24 3 0 0x8000 10 20 h2"
    unfolding write_pre_def F exfs_size exfs_fields
  proof (intro conjI)
    show "fsinv t1 512 24 3" using write_fsinv [OF W R] by (simp only: t1_def)
    show "is_open t1 0" "fileptr (oft t1 0) = int 10" by (simp_all add: t1_def is_open_def exfs_def fs_consts)
    show "\<exists>a. getmem 64 (fheap t1) = Some (a, h2) \<and> a \<noteq> SYSERR_PTR" using h(2) by (simp add: t1_def)
  qed (simp_all add: cdiv_def apart_def)
  from fs_write_unaligned_lost [OF this] show ?thesis using w by (auto simp: cdiv_def t1_def)
qed

theorem fs_inode_store_witness:
  "\<exists>t u. fs_put_inode_by_num 0 5 (finode exfs 0) exfs = Some (OK, t) \<and> fs_get_inode_by_num 0 5 (finode exfs 1) t = Some (OK, finode exfs 0, u)"
proof -
  have "int 5 < ninodes exfs" "inode_rep (finode exfs 0)"
    by (simp_all add: exfs_fields inode_rep_def int32_def int16_def) (simp_all add: exfs_def)
  from fs_inode_store [OF exfs_geom this, of "finode exfs 1"] show ?thesis by auto
qed

end
