(* ===== verification/Lib_Sort.thy ===== *)
theory Lib_Sort
  imports Block_Store "HOL-Library.Multiset"
begin

text \<open>
  The quicksort of the C library, \<^verbatim>\<open>lib/qsort.c\<close>, on a memory of bytes: an array of elements of \<open>es\<close> bytes each, with the comparison
  function as a parameter that reads the memory. The globals \<^verbatim>\<open>qscmp\<close> and \<^verbatim>\<open>qses\<close> are arguments here, and pointers are 32-bit words.
\<close>

section \<open>The code\<close>

type_synonym comparison = "bytes \<Rightarrow> uint32 \<Rightarrow> uint32 \<Rightarrow> int"

text \<open>The exchange of two elements and the rotation of three, byte by byte.\<close>

primrec qsexc_loop :: "nat \<Rightarrow> uint32 \<Rightarrow> uint32 \<Rightarrow> bytes \<Rightarrow> bytes" where
  "qsexc_loop 0 ri rj m = m"
| "qsexc_loop (Suc n) ri rj m =
    (let c = m ri; m1 = m(ri := m rj); m2 = m1(rj := c) in qsexc_loop n (ri + 1) (rj + 1) m2)"

definition qsexc :: "uint32 \<Rightarrow> uint32 \<Rightarrow> uint32 \<Rightarrow> bytes \<Rightarrow> bytes" where
  "qsexc es i j m = qsexc_loop (unat (es - 1) + 1) i j m"

primrec qstexc_loop :: "nat \<Rightarrow> uint32 \<Rightarrow> uint32 \<Rightarrow> uint32 \<Rightarrow> bytes \<Rightarrow> bytes" where
  "qstexc_loop 0 ri rj rk m = m"
| "qstexc_loop (Suc n) ri rj rk m =
    (let c = m ri; m1 = m(ri := m rk); m2 = m1(rk := m1 rj); m3 = m2(rj := c)
     in qstexc_loop n (ri + 1) (rj + 1) (rk + 1) m3)"

definition qstexc :: "uint32 \<Rightarrow> uint32 \<Rightarrow> uint32 \<Rightarrow> uint32 \<Rightarrow> bytes \<Rightarrow> bytes" where
  "qstexc es i j k m = qstexc_loop (unat (es - 1) + 1) i j k m"

text \<open>
  The loop that partitions, one round from its head or, when the flag is set, from the label \<^verbatim>\<open>loop\<close>: it goes on, or ends with
  the memory and the bounds of the elements equal to the pivot.
\<close>

datatype qround = Again bool uint32 uint32 uint32 uint32 bytes | Parted bytes uint32 uint32

definition qs_round :: "comparison \<Rightarrow> uint32 \<Rightarrow> bool \<Rightarrow> uint32 \<Rightarrow> uint32 \<Rightarrow> uint32 \<Rightarrow> uint32 \<Rightarrow> bytes \<Rightarrow> qround" where
  "qs_round fc es inner i lp hp j m =
    (if \<not> inner \<and> i < lp then
       let c = fc m i lp in
       if c = 0 then Again False i (lp - es) hp j (qsexc es i (lp - es) m)
       else if c < 0 then Again False (i + es) lp hp j m
       else Again True i lp hp j m
     else if j > hp then
       let c = fc m hp j in
       if c = 0 then Again True i lp (hp + es) j (qsexc es (hp + es) j m)
       else if c > 0 then
         (if i = lp then Again True (lp + es) (lp + es) (hp + es) j (qstexc es i (hp + es) j m)
          else Again False (i + es) lp hp (j - es) (qsexc es i j m))
       else Again True i lp hp (j - es) m
     else if i = lp then Parted m lp hp
     else Again False i (lp - es) (hp - es) (hp - es) (qstexc es j (lp - es) i m))"

partial_function (option) qs_part :: "comparison \<Rightarrow> uint32 \<Rightarrow> qround \<Rightarrow> (bytes \<times> uint32 \<times> uint32) option" where
  "qs_part fc es r =
    (case r of Again inner i lp hp j m \<Rightarrow> qs_part fc es (qs_round fc es inner i lp hp j m)
     | Parted m lp hp \<Rightarrow> Some (m, lp, hp))"

partial_function (option) qs1 :: "comparison \<Rightarrow> uint32 \<Rightarrow> uint32 \<Rightarrow> uint32 \<Rightarrow> bytes \<Rightarrow> bytes option" where
  "qs1 fc es a l m =
    (let n = l - a in
     if n \<le> es then Some m
     else let n' = es * (n div (2 * es)) in do {
       (m1, lp, hp) \<leftarrow> qs_part fc es (Again False a (a + n') (a + n') (l - es) m);
       if sint (lp - a) \<ge> sint (l - hp) then do { m2 \<leftarrow> qs1 fc es (hp + es) l m1; qs1 fc es a lp m2 }
       else do { m2 \<leftarrow> qs1 fc es a lp m1; qs1 fc es (hp + es) l m2 } })"

definition qsort :: "uint32 \<Rightarrow> uint32 \<Rightarrow> uint32 \<Rightarrow> comparison \<Rightarrow> bytes \<Rightarrow> bytes option" where
  "qsort a n es fc m = qs1 fc es a (a + n * es) m"

section \<open>Exchanges\<close>

lemma qsexc_loop_same: "qsexc_loop n p p m = m"
  by (induction n arbitrary: p m) (simp_all add: Let_def)

lemma qstexc_loop_pair: "p \<noteq> q \<Longrightarrow> qstexc_loop n p q q m = qsexc_loop n p q m"
  by (induction n arbitrary: p q m) (simp_all add: Let_def)

lemma qsexc_loop_blocks:
  assumes "apart p n q n" "n \<le> 2 ^ 32"
  shows "block (qsexc_loop n p q m) p n = block m q n \<and> block (qsexc_loop n p q m) q n = block m p n \<and>
    (\<forall>x. (\<forall>j<n. x \<noteq> p + of_nat j \<and> x \<noteq> q + of_nat j) \<longrightarrow> qsexc_loop n p q m x = m x)"
  using assms
proof (induction n arbitrary: p q m)
  case (Suc n)
  note A = apart_step [OF Suc.prems(1)] and A' = apart_step [OF apart_sym [OF Suc.prems(1)]]
  define m' where "m' = m(p := m q, q := m p)"
  have pq: "p \<noteq> q" using A(2) [of 0] by simp
  have e: "qsexc_loop (Suc n) p q m = qsexc_loop n (p + 1) (q + 1) m'" by (simp add: Let_def m'_def)
  have IH: "block (qsexc_loop n (p + 1) (q + 1) m') (p + 1) n = block m' (q + 1) n" "block (qsexc_loop n (p + 1) (q + 1) m') (q + 1) n = block m' (p + 1) n"
      "\<And>x. (\<forall>j<n. x \<noteq> p + 1 + of_nat j \<and> x \<noteq> q + 1 + of_nat j) \<Longrightarrow> qsexc_loop n (p + 1) (q + 1) m' x = m' x"
    using Suc.IH [OF A(1), of m'] Suc.prems(2) by simp_all
  have ne: "r \<noteq> r + 1 + of_nat j" if "j < n" for r :: uint32 and j using step_ne [of j n r] that Suc.prems(2) by (simp add: add.commute add.left_commute)
  have np: "p \<noteq> q + 1 + of_nat j" "q \<noteq> p + 1 + of_nat j" if "j < n" for j
    using A(2) [of "Suc j"] A'(2) [of "Suc j"] that by (simp_all add: algebra_simps)
  have b: "block m' (q + 1) n = block m (q + 1) n" "block m' (p + 1) n = block m (p + 1) n"
    using ne np by (simp_all add: block_upd m'_def)
  have at: "qsexc_loop n (p + 1) (q + 1) m' p = m q" "qsexc_loop n (p + 1) (q + 1) m' q = m p" using IH(3) [of p] IH(3) [of q] ne np pq by (auto simp: m'_def)
  have "qsexc_loop n (p + 1) (q + 1) m' x = m x" if x: "\<forall>j<Suc n. x \<noteq> p + of_nat j \<and> x \<noteq> q + of_nat j" for x
  proof -
    have "x \<noteq> p" "x \<noteq> q" using x [rule_format, of 0] by simp_all
    moreover have "x \<noteq> p + 1 + of_nat j \<and> x \<noteq> q + 1 + of_nat j" if "j < n" for j using x [rule_format, of "Suc j"] that by (simp add: algebra_simps)
    ultimately show ?thesis using IH(3) [of x] by (simp add: m'_def)
  qed
  then show ?case unfolding e using IH(1,2) b at by simp
qed simp


lemma qstexc_loop_blocks:
  assumes "apart p n q n" "apart p n r n" "apart q n r n" "n \<le> 2 ^ 32"
  shows "block (qstexc_loop n p q r m) p n = block m r n \<and> block (qstexc_loop n p q r m) r n = block m q n \<and> block (qstexc_loop n p q r m) q n = block m p n \<and>
    (\<forall>x. (\<forall>j<n. x \<noteq> p + of_nat j \<and> x \<noteq> q + of_nat j \<and> x \<noteq> r + of_nat j) \<longrightarrow> qstexc_loop n p q r m x = m x)"
  using assms
proof (induction n arbitrary: p q r m)
  case (Suc n)
  note A = Suc.prems(1-3) [THEN apart_step(1)]
  have away: "a \<noteq> b + 1 + of_nat j" "b \<noteq> a + 1 + of_nat j" "a \<noteq> b" if "apart a (Suc n) b (Suc n)" "j < n" for a b j
    using apart_step(2) [OF that(1), of "Suc j"] apart_step(2) [OF apart_sym [OF that(1)], of "Suc j"] apart_step(2) [OF that(1), of 0] that(2) by (simp_all add: algebra_simps)
  have pq: "p \<noteq> q" "p \<noteq> r" "q \<noteq> r" using Suc.prems(1-3) [THEN apart_step(2), of 0] by simp_all
  define m' where "m' = m(p := m r, r := m q, q := m p)"
  have e: "qstexc_loop (Suc n) p q r m = qstexc_loop n (p + 1) (q + 1) (r + 1) m'" using pq by (simp add: Let_def m'_def)
  have IH: "block (qstexc_loop n (p + 1) (q + 1) (r + 1) m') (p + 1) n = block m' (r + 1) n" "block (qstexc_loop n (p + 1) (q + 1) (r + 1) m') (r + 1) n = block m' (q + 1) n"
      "block (qstexc_loop n (p + 1) (q + 1) (r + 1) m') (q + 1) n = block m' (p + 1) n"
      "\<And>x. (\<forall>j<n. x \<noteq> p + 1 + of_nat j \<and> x \<noteq> q + 1 + of_nat j \<and> x \<noteq> r + 1 + of_nat j) \<Longrightarrow> qstexc_loop n (p + 1) (q + 1) (r + 1) m' x = m' x"
    using Suc.IH [OF A, of m'] Suc.prems(4) by simp_all
  have ne: "r \<noteq> r + 1 + of_nat j" if "j < n" for r :: uint32 and j using step_ne [of j n r] that Suc.prems(4) by (simp add: add.commute add.left_commute)
  have b: "block m' (p + 1) n = block m (p + 1) n" "block m' (q + 1) n = block m (q + 1) n" "block m' (r + 1) n = block m (r + 1) n"
    using ne away(1,2) [OF Suc.prems(1)] away(1,2) [OF Suc.prems(2)] away(1,2) [OF Suc.prems(3)] by (simp_all add: block_upd m'_def)
  have at: "qstexc_loop n (p + 1) (q + 1) (r + 1) m' p = m r" "qstexc_loop n (p + 1) (q + 1) (r + 1) m' r = m q" "qstexc_loop n (p + 1) (q + 1) (r + 1) m' q = m p"
    using IH(4) [of p] IH(4) [of q] IH(4) [of r] ne away(1,2) [OF Suc.prems(1)] away(1,2) [OF Suc.prems(2)] away(1,2) [OF Suc.prems(3)] pq by (auto simp: m'_def)
  have "qstexc_loop n (p + 1) (q + 1) (r + 1) m' x = m x" if x: "\<forall>j<Suc n. x \<noteq> p + of_nat j \<and> x \<noteq> q + of_nat j \<and> x \<noteq> r + of_nat j" for x
  proof -
    have "x \<noteq> p" "x \<noteq> q" "x \<noteq> r" using x [rule_format, of 0] by simp_all
    moreover have "x \<noteq> p + 1 + of_nat j \<and> x \<noteq> q + 1 + of_nat j \<and> x \<noteq> r + 1 + of_nat j" if "j < n" for j
      using x [rule_format, of "Suc j"] that by (simp add: algebra_simps)
    ultimately show ?thesis using IH(4) [of x] by (simp add: m'_def)
  qed
  then show ?case unfolding e using IH(1-3) b at by simp
qed simp

section \<open>Arrays of elements\<close>

text \<open>The array at \<open>a\<close> of \<open>N\<close> elements of \<open>es\<close> bytes, which does not run past the end of the address space.\<close>

definition eptr :: "uint32 \<Rightarrow> uint32 \<Rightarrow> nat \<Rightarrow> uint32" where
  "eptr a es k = a + of_nat (k * unat es)"

definition elem :: "uint32 \<Rightarrow> uint32 \<Rightarrow> bytes \<Rightarrow> nat \<Rightarrow> uchar list" where
  "elem a es m k = block m (eptr a es k) (unat es)"

definition in_space :: "uint32 \<Rightarrow> uint32 \<Rightarrow> nat \<Rightarrow> bool" where
  "in_space a es N \<longleftrightarrow> 0 < unat es \<and> unat a + N * unat es < 2 ^ 32"

text \<open>From \<open>m\<close> to \<open>m'\<close> only the elements \<open>A\<close> up to \<open>B\<close> have been moved about.\<close>

definition shuffled :: "uint32 \<Rightarrow> uint32 \<Rightarrow> nat \<Rightarrow> nat \<Rightarrow> nat \<Rightarrow> bytes \<Rightarrow> bytes \<Rightarrow> bool" where
  "shuffled a es N A B m m' \<longleftrightarrow>
    image_mset (elem a es m') (mset_set {A..<B}) = image_mset (elem a es m) (mset_set {A..<B}) \<and>
    (\<forall>k<N. k \<notin> {A..<B} \<longrightarrow> elem a es m' k = elem a es m k) \<and>
    (\<forall>x. (\<forall>j<N * unat es. x \<noteq> a + of_nat j) \<longrightarrow> m' x = m x)"

lemma shuffled_refl: "shuffled a es N A B m m"
  by (simp add: shuffled_def)

lemma shuffled_trans: "shuffled a es N A B m m' \<Longrightarrow> shuffled a es N A B m' m'' \<Longrightarrow> shuffled a es N A B m m''"
  by (simp add: shuffled_def)

lemma unat_eptr:
  assumes "in_space a es N" "k \<le> N"
  shows "unat (eptr a es k) = unat a + k * unat es"
proof -
  have "k * unat es \<le> N * unat es" using assms(2) by (rule mult_le_mono1)
  moreover have "unat a + N * unat es < 2 ^ 32" using assms(1) by (simp add: in_space_def)
  ultimately have b: "k * unat es < 2 ^ 32" "unat a + k * unat es < 2 ^ 32" by linarith+
  have "unat (of_nat n :: uint32) = n" if "n < 2 ^ 32" for n using that by (simp add: unat_of_nat)
  then have u: "unat (of_nat (k * unat es) :: uint32) = k * unat es" using b(1) by blast
  show ?thesis unfolding eptr_def using unat_add_noovf [of a "of_nat (k * unat es)"] b(2) unfolding u by simp
qed

lemma eptr_less: "in_space a es N \<Longrightarrow> x \<le> N \<Longrightarrow> y \<le> N \<Longrightarrow> eptr a es x < eptr a es y \<longleftrightarrow> x < y"
  using unat_eptr [of a es N x] unat_eptr [of a es N y] by (simp add: word_less_nat_alt in_space_def)

lemma eptr_eq: "in_space a es N \<Longrightarrow> x \<le> N \<Longrightarrow> y \<le> N \<Longrightarrow> eptr a es x = eptr a es y \<longleftrightarrow> x = y"
  using eptr_less [of a es N x y] eptr_less [of a es N y x] by (metis linorder_less_linear order_less_irrefl)

lemma eptr_step: "eptr a es x + es = eptr a es (Suc x)" "0 < x \<Longrightarrow> eptr a es x - es = eptr a es (x - 1)"
proof -
  show *: "eptr a es x + es = eptr a es (Suc x)" for x by (simp add: eptr_def algebra_simps)
  show "eptr a es x - es = eptr a es (x - 1)" if "0 < x" using * [of "x - 1"] that by (metis Suc_diff_1 add_diff_cancel_right')
qed

lemma eptr_apart:
  assumes "in_space a es N" "x < N" "y < N" "x \<noteq> y"
  shows "apart (eptr a es x) (unat es) (eptr a es y) (unat es)"
proof -
  let ?w = "unat es"
  have b: "Suc x * ?w \<le> N * ?w" "Suc y * ?w \<le> N * ?w" using assms(2,3) by (simp_all only: mult_le_mono1 Suc_leI)
  have "Suc x \<le> y \<or> Suc y \<le> x" using assms(4) by auto
  then have "Suc x * ?w \<le> y * ?w \<or> Suc y * ?w \<le> x * ?w" by (metis mult_le_mono1)
  then show ?thesis unfolding eptr_def using assms(1) b by (intro apart_within) (auto simp: in_space_def)
qed

lemma eptr_inside:
  assumes "x < N" "j < unat es" "z = eptr a es x + of_nat j"
  shows "\<exists>i<N * unat es. z = a + of_nat i"
proof -
  have "x * unat es + j < Suc x * unat es" using assms(2) by simp
  also have "\<dots> \<le> N * unat es" using assms(1) by (simp only: mult_le_mono1 Suc_leI)
  finally show ?thesis using assms(3) by (intro exI [of _ "x * unat es + j"]) (simp add: eptr_def add.assoc)
qed


lemma eptr_outside: "\<forall>i<N * unat es. z \<noteq> a + of_nat i \<Longrightarrow> x < N \<Longrightarrow> j < unat es \<Longrightarrow> z \<noteq> eptr a es x + of_nat j"
  using eptr_inside [of x N j es z a] by blast

lemma count_es: "0 < unat es \<Longrightarrow> unat (es - 1) + 1 = unat es"
  by (subst unat_minus_one) (auto simp: unat_gt_0)

definition swapped :: "nat \<Rightarrow> nat \<Rightarrow> (nat \<Rightarrow> 'a) \<Rightarrow> nat \<Rightarrow> 'a" where
  "swapped x y e = e(x := e y, y := e x)"

lemma mset_swapped:
  assumes "x \<in> {A..<B}" "y \<in> {A..<B}"
  shows "image_mset (swapped x y e) (mset_set {A..<B}) = image_mset e (mset_set {A..<B})"
proof (cases "x = y")
  case False
  let ?R = "{A..<B} - {x} - {y}"
  have m: "mset_set {A..<B} = add_mset x (add_mset y (mset_set ?R))"
    using mset_set.remove [of "{A..<B}" x] mset_set.remove [of "{A..<B} - {x}" y] assms False by simp
  have "image_mset (swapped x y e) (mset_set ?R) = image_mset e (mset_set ?R)" by (rule image_mset_cong) (simp add: swapped_def)
  then show ?thesis unfolding m using False by (simp add: swapped_def add_mset_commute)
qed (simp add: swapped_def)

lemma qsexc_elems:
  assumes I: "in_space a es N" and xy: "x < N" "y < N"
  shows "\<And>k. k < N \<Longrightarrow> elem a es (qsexc es (eptr a es x) (eptr a es y) m) k = swapped x y (elem a es m) k"
    "A \<le> x \<Longrightarrow> x < B \<Longrightarrow> A \<le> y \<Longrightarrow> y < B \<Longrightarrow> B \<le> N \<Longrightarrow> shuffled a es N A B m (qsexc es (eptr a es x) (eptr a es y) m)"
proof -
  let ?w = "unat es" and ?m = "qsexc es (eptr a es x) (eptr a es y) m"
  have w: "0 < ?w" "?w \<le> 2 ^ 32" using I unat_bound [of es] by (auto simp: in_space_def)
  have *: "(\<forall>k<N. elem a es ?m k = swapped x y (elem a es m) k) \<and> (\<forall>z. (\<forall>j<N * ?w. z \<noteq> a + of_nat j) \<longrightarrow> ?m z = m z)"
  proof (cases "x = y")
    case True
    then show ?thesis by (simp add: qsexc_def qsexc_loop_same swapped_def)
  next
    case False
    have Q: "block ?m (eptr a es x) ?w = block m (eptr a es y) ?w" "block ?m (eptr a es y) ?w = block m (eptr a es x) ?w"
        "\<And>z. (\<forall>j<?w. z \<noteq> eptr a es x + of_nat j \<and> z \<noteq> eptr a es y + of_nat j) \<Longrightarrow> ?m z = m z"
      using qsexc_loop_blocks [OF eptr_apart [OF I xy False] w(2), of m] unfolding qsexc_def count_es [OF w(1)] by blast+
    have o: "elem a es ?m k = elem a es m k" if "k < N" "k \<noteq> x" "k \<noteq> y" for k
      unfolding elem_def block_eq_iff using eptr_apart [OF I that(1) xy(1) that(2)] eptr_apart [OF I that(1) xy(2) that(3)] by (auto simp: apart_def intro!: Q(3))
    have "?m z = m z" if z: "\<forall>j<N * ?w. z \<noteq> a + of_nat j" for z by (rule Q(3)) (use eptr_outside [OF z] xy in simp)
    then show ?thesis using Q(1,2) o False by (auto simp: swapped_def elem_def)
  qed
  then show e: "\<And>k. k < N \<Longrightarrow> elem a es ?m k = swapped x y (elem a es m) k" by blast
  show "shuffled a es N A B m ?m" if "A \<le> x" "x < B" "A \<le> y" "y < B" "B \<le> N"
  proof -
    have "image_mset (elem a es ?m) (mset_set {A..<B}) = image_mset (swapped x y (elem a es m)) (mset_set {A..<B})"
      by (rule image_mset_cong) (use e that(5) in auto)
    also have "\<dots> = image_mset (elem a es m) (mset_set {A..<B})" by (rule mset_swapped) (use that in auto)
    finally show ?thesis unfolding shuffled_def using * that by (auto simp: swapped_def)
  qed
qed


text \<open>The rotation of three elements is two exchanges; the second and third may be the same.\<close>

lemma qstexc_elems:
  fixes m :: bytes
  assumes I: "in_space a es N" and xyz: "x < N" "y < N" "z < N" "x \<noteq> y" "x \<noteq> z"
  defines "m' \<equiv> qstexc es (eptr a es x) (eptr a es y) (eptr a es z) m"
  shows "\<And>k. k < N \<Longrightarrow> elem a es m' k = swapped z y (swapped x z (elem a es m)) k"
    "A \<le> x \<Longrightarrow> x < B \<Longrightarrow> A \<le> y \<Longrightarrow> y < B \<Longrightarrow> A \<le> z \<Longrightarrow> z < B \<Longrightarrow> B \<le> N \<Longrightarrow> shuffled a es N A B m m'"
proof -
  let ?w = "unat es"
  have w: "0 < ?w" "?w \<le> 2 ^ 32" using I unat_bound [of es] by (auto simp: in_space_def)
  have *: "(\<forall>k<N. elem a es m' k = swapped z y (swapped x z (elem a es m)) k) \<and> (\<forall>u. (\<forall>j<N * ?w. u \<noteq> a + of_nat j) \<longrightarrow> m' u = m u)"
  proof (cases "y = z")
    case True
    have "eptr a es x \<noteq> eptr a es z" using eptr_eq [OF I, of x z] xyz by simp
    then have e: "m' = qsexc es (eptr a es x) (eptr a es z) m" unfolding m'_def True qsexc_def qstexc_def by (rule qstexc_loop_pair)
    have "shuffled a es N 0 N m m'" unfolding e by (rule qsexc_elems(2) [OF I xyz(1,3)]) (use xyz in simp_all)
    then show ?thesis using qsexc_elems(1) [OF I xyz(1,3), of _ m] True unfolding e shuffled_def by (simp add: swapped_def)
  next
    case False
    have Q: "block m' (eptr a es x) ?w = block m (eptr a es z) ?w" "block m' (eptr a es z) ?w = block m (eptr a es y) ?w" "block m' (eptr a es y) ?w = block m (eptr a es x) ?w"
        "\<And>u. (\<forall>j<?w. u \<noteq> eptr a es x + of_nat j \<and> u \<noteq> eptr a es y + of_nat j \<and> u \<noteq> eptr a es z + of_nat j) \<Longrightarrow> m' u = m u"
      using qstexc_loop_blocks [OF eptr_apart [OF I xyz(1,2,4)] eptr_apart [OF I xyz(1,3,5)] eptr_apart [OF I xyz(2,3) False] w(2), of m]
      unfolding m'_def qstexc_def count_es [OF w(1)] by blast+
    have o: "elem a es m' k = elem a es m k" if "k < N" "k \<noteq> x" "k \<noteq> y" "k \<noteq> z" for k
      unfolding elem_def block_eq_iff
      using eptr_apart [OF I that(1) xyz(1) that(2)] eptr_apart [OF I that(1) xyz(2) that(3)] eptr_apart [OF I that(1) xyz(3) that(4)] by (auto simp: apart_def intro!: Q(4))
    have "m' u = m u" if u: "\<forall>j<N * ?w. u \<noteq> a + of_nat j" for u
      by (rule Q(4)) (use eptr_outside [OF u] xyz(1-3) in simp)
    moreover have ex: "elem a es m' x = elem a es m z" "elem a es m' z = elem a es m y" "elem a es m' y = elem a es m x" using Q(1-3) by (simp_all add: elem_def)
    have "elem a es m' k = swapped z y (swapped x z (elem a es m)) k" if "k < N" for k
      using o [OF that] ex False xyz(4,5) by (cases "k = x"; cases "k = y"; cases "k = z") (simp_all add: swapped_def)
    ultimately show ?thesis by blast
  qed
  then show e: "\<And>k. k < N \<Longrightarrow> elem a es m' k = swapped z y (swapped x z (elem a es m)) k" by blast
  show "shuffled a es N A B m m'" if "A \<le> x" "x < B" "A \<le> y" "y < B" "A \<le> z" "z < B" "B \<le> N"
  proof -
    have "image_mset (elem a es m') (mset_set {A..<B}) = image_mset (swapped z y (swapped x z (elem a es m))) (mset_set {A..<B})"
      by (rule image_mset_cong) (use e that(7) in auto)
    also have "\<dots> = image_mset (swapped x z (elem a es m)) (mset_set {A..<B})" by (rule mset_swapped) (use that in auto)
    also have "\<dots> = image_mset (elem a es m) (mset_set {A..<B})" by (rule mset_swapped) (use that in auto)
    finally show ?thesis unfolding shuffled_def using * that by (auto simp: swapped_def)
  qed
qed

section \<open>Partitioning\<close>

text \<open>What the documentation asks of a comparison function: a total preorder, told by the sign.\<close>

definition comparison_ok :: "(uchar list \<Rightarrow> uchar list \<Rightarrow> int) \<Rightarrow> bool" where
  "comparison_ok cmp \<longleftrightarrow> (\<forall>x y. 0 < cmp y x \<longleftrightarrow> cmp x y < 0) \<and> (\<forall>x y z. cmp x y \<le> 0 \<longrightarrow> cmp y z \<le> 0 \<longrightarrow> cmp x z \<le> 0)"

lemma comparison_okD:
  assumes "comparison_ok cmp"
  shows "0 < cmp y x \<longleftrightarrow> cmp x y < 0" "cmp y x = 0 \<longleftrightarrow> cmp x y = 0" "cmp y x < 0 \<longleftrightarrow> 0 < cmp x y"
    "cmp x y \<le> 0 \<Longrightarrow> cmp y z \<le> 0 \<Longrightarrow> cmp x z \<le> 0"
    "cmp x p = 0 \<Longrightarrow> cmp y x = 0 \<longleftrightarrow> cmp y p = 0" "cmp x p = 0 \<Longrightarrow> cmp y x < 0 \<longleftrightarrow> cmp y p < 0"
    "cmp x p = 0 \<Longrightarrow> cmp x y = 0 \<longleftrightarrow> cmp y p = 0" "cmp x p = 0 \<Longrightarrow> 0 < cmp x y \<longleftrightarrow> cmp y p < 0"
proof -
  have s: "0 < cmp y x \<longleftrightarrow> cmp x y < 0" for x y using assms by (simp add: comparison_ok_def)
  show t: "cmp x y \<le> 0 \<Longrightarrow> cmp y z \<le> 0 \<Longrightarrow> cmp x z \<le> 0" for x y z using assms by (simp add: comparison_ok_def)
  have z: "cmp y x = 0 \<longleftrightarrow> cmp x y = 0" for x y using s [of x y] s [of y x] by auto
  show "0 < cmp y x \<longleftrightarrow> cmp x y < 0" "cmp y x = 0 \<longleftrightarrow> cmp x y = 0" "cmp y x < 0 \<longleftrightarrow> 0 < cmp x y" using s z by auto
  assume xp: "cmp x p = 0"
  then have px: "cmp p x = 0" using z by simp
  have le: "cmp y x \<le> 0 \<longleftrightarrow> cmp y p \<le> 0" "cmp x y \<le> 0 \<longleftrightarrow> cmp p y \<le> 0"
    using t [of y x p] t [of y p x] t [of x p y] t [of p x y] xp px by auto
  have q: "cmp u v = 0 \<longleftrightarrow> cmp u v \<le> 0 \<and> cmp v u \<le> 0" "cmp u v < 0 \<longleftrightarrow> \<not> cmp v u \<le> 0" for u v using s [of u v] s [of v u] z [of u v] by auto
  show "cmp y x = 0 \<longleftrightarrow> cmp y p = 0" "cmp y x < 0 \<longleftrightarrow> cmp y p < 0" "cmp x y = 0 \<longleftrightarrow> cmp y p = 0" "0 < cmp x y \<longleftrightarrow> cmp y p < 0"
    using le q s [of x y] by auto
qed


text \<open>
  The state of the partition of \<open>A\<close> up to \<open>B\<close>: smaller elements below \<open>i\<close>, elements equal to the pivot from \<open>lp\<close> to \<open>hp\<close>, larger
  ones above \<open>j\<close>; those in between have not been looked at.
\<close>

definition parting :: "(uchar list \<Rightarrow> uchar list \<Rightarrow> int) \<Rightarrow> (nat \<Rightarrow> uchar list) \<Rightarrow> nat \<Rightarrow> nat \<Rightarrow> uchar list \<Rightarrow> nat \<Rightarrow> nat \<Rightarrow> nat \<Rightarrow> nat \<Rightarrow> bool" where
  "parting cmp e A B pv i lp hp j \<longleftrightarrow> A \<le> i \<and> i \<le> lp \<and> lp \<le> hp \<and> hp \<le> j \<and> j < B \<and>
    (\<forall>k. A \<le> k \<and> k < i \<longrightarrow> cmp (e k) pv < 0) \<and> (\<forall>k. lp \<le> k \<and> k \<le> hp \<longrightarrow> cmp (e k) pv = 0) \<and> (\<forall>k. j < k \<and> k < B \<longrightarrow> 0 < cmp (e k) pv)"

lemma partingD:
  assumes "parting cmp e A B pv i lp hp j"
  shows "A \<le> i" "i \<le> lp" "lp \<le> hp" "hp \<le> j" "j < B" "\<And>k. A \<le> k \<Longrightarrow> k < i \<Longrightarrow> cmp (e k) pv < 0"
    "\<And>k. lp \<le> k \<Longrightarrow> k \<le> hp \<Longrightarrow> cmp (e k) pv = 0" "\<And>k. j < k \<Longrightarrow> k < B \<Longrightarrow> 0 < cmp (e k) pv"
  using assms unfolding parting_def by blast+

lemma parting_cong: "(\<And>k. k < B \<Longrightarrow> e k = e' k) \<Longrightarrow> parting cmp e A B pv i lp hp j = parting cmp e' A B pv i lp hp j"
  unfolding parting_def by (intro conj_cong refl) auto

text \<open>A round that goes on leaves such a state again, nearer to the end.\<close>

definition qs_advances :: "(uchar list \<Rightarrow> uchar list \<Rightarrow> int) \<Rightarrow> comparison \<Rightarrow> uint32 \<Rightarrow> uint32 \<Rightarrow> nat \<Rightarrow> nat \<Rightarrow> nat \<Rightarrow> uchar list \<Rightarrow>
    bool \<Rightarrow> nat \<Rightarrow> nat \<Rightarrow> nat \<Rightarrow> nat \<Rightarrow> bytes \<Rightarrow> bool" where
  "qs_advances cmp fc a es N A B pv inner i lp hp j m \<longleftrightarrow> (\<exists>inner' i' lp' hp' j' m2.
     qs_round fc es inner (eptr a es i) (eptr a es lp) (eptr a es hp) (eptr a es j) m = Again inner' (eptr a es i') (eptr a es lp') (eptr a es hp') (eptr a es j') m2 \<and>
     parting cmp (elem a es m2) A B pv i' lp' hp' j' \<and> (inner' \<longrightarrow> i' < lp' \<longrightarrow> 0 < cmp (elem a es m2 i') pv) \<and> shuffled a es N A B m m2 \<and>
     2 * ((lp' - i') + (j' - hp')) + (if inner' then 0 else 1 :: nat) < 2 * ((lp - i) + (j - hp)) + (if inner then 0 else 1))"

lemma qs_advancesI:
  assumes "qs_round fc es inner (eptr a es i) (eptr a es lp) (eptr a es hp) (eptr a es j) m = Again inner' (eptr a es i') (eptr a es lp') (eptr a es hp') (eptr a es j') mm"
    "parting cmp (elem a es mm) A B pv i' lp' hp' j'" "inner' \<Longrightarrow> i' < lp' \<Longrightarrow> 0 < cmp (elem a es mm i') pv" "shuffled a es N A B m mm"
    "2 * ((lp' - i') + (j' - hp')) + (if inner' then 0 else 1 :: nat) < 2 * ((lp - i) + (j - hp)) + (if inner then 0 else 1)"
  shows "qs_advances cmp fc a es N A B pv inner i lp hp j m"
  unfolding qs_advances_def using assms by blast

lemma qs_round_low:
  assumes I: "in_space a es N" and N: "B \<le> N" and C: "comparison_ok cmp" and fc: "\<And>m p q. fc m p q = cmp (block m p (unat es)) (block m q (unat es))"
    and P: "parting cmp (elem a es m) A B pv i lp hp j" "inner \<Longrightarrow> i < lp \<Longrightarrow> 0 < cmp (elem a es m i) pv"
    and out: "\<not> inner \<and> i < lp"
  shows "qs_advances cmp fc a es N A B pv inner i lp hp j m"
proof -
  note D = partingD [OF P(1)] and c = comparison_okD [OF C] and lt = eptr_less [OF I] and eq = eptr_eq [OF I]
  let ?p = "eptr a es" and ?e = "elem a es m"
  have b: "i \<le> N" "lp \<le> N" "hp \<le> N" "j \<le> N" using D N by simp_all
  have cm: "fc m (?p x) (?p y) = cmp (?e x) (?e y)" for x y by (simp add: fc elem_def)
  have piv: "cmp (?e lp) pv = 0" "cmp (?e hp) pv = 0" using D(3,7) by simp_all
  note go = qs_advancesI [where fc = fc and es = es and inner = inner and a = a and i = i and lp = lp and hp = hp and j = j and m = m]
  have il: "i < lp" "0 < lp" "lp - 1 < N" "i < N" using b out by auto
  consider (eq) "cmp (?e i) (?e lp) = 0" | (less) "cmp (?e i) (?e lp) < 0" | (greater) "0 < cmp (?e i) (?e lp)" by linarith
  then show ?thesis
  proof cases
    case eq
    let ?m2 = "qsexc es (?p i) (?p (lp - 1)) m"
    note E = qsexc_elems(1) [OF I il(4,3), of _ m]
    have "parting cmp (elem a es ?m2) A B pv i (lp - 1) hp j = parting cmp (swapped i (lp - 1) ?e) A B pv i (lp - 1) hp j" by (rule parting_cong) (use E N in auto)
    moreover have "cmp (?e i) pv = 0" using c(5) [OF piv(1)] eq by simp
    ultimately have "parting cmp (elem a es ?m2) A B pv i (lp - 1) hp j" using D il(1) by (auto simp: parting_def swapped_def)
    then show ?thesis
      by (rule go [rotated]) (use eq out il D N in \<open>auto simp: qs_round_def lt b cm eptr_step(2) intro!: qsexc_elems(2) [OF I]\<close>)
  next
    case less
    then have "cmp (?e i) pv < 0" using c(6) [OF piv(1)] by simp
    then have "parting cmp ?e A B pv (Suc i) lp hp j" using D il(1) by (auto simp: parting_def less_Suc_eq)
    then show ?thesis by (rule go [rotated]) (use less out il in \<open>auto simp: qs_round_def lt b cm eptr_step(1) shuffled_refl\<close>)
  next
    case greater
    then have "cmp (?e i) pv \<noteq> 0" "\<not> cmp (?e i) pv < 0" using c(5) [OF piv(1), of "?e i"] c(6) [OF piv(1), of "?e i"] by simp_all
    then have "0 < cmp (?e i) pv" by linarith
    then show ?thesis using P(1) by (intro go [where inner' = True and i' = i and lp' = lp and hp' = hp and j' = j and mm = m]) (use greater out il in \<open>auto simp: qs_round_def lt b cm shuffled_refl\<close>)
  qed
qed

lemma qs_round_high:
  assumes I: "in_space a es N" and N: "B \<le> N" and C: "comparison_ok cmp" and fc: "\<And>m p q. fc m p q = cmp (block m p (unat es)) (block m q (unat es))"
    and P: "parting cmp (elem a es m) A B pv i lp hp j" "inner \<Longrightarrow> i < lp \<Longrightarrow> 0 < cmp (elem a es m i) pv"
    and inn: "\<not> (\<not> inner \<and> i < lp)" and hj: "hp < j"
  shows "qs_advances cmp fc a es N A B pv inner i lp hp j m"
proof -
  note D = partingD [OF P(1)] and c = comparison_okD [OF C] and lt = eptr_less [OF I] and eq = eptr_eq [OF I]
  let ?p = "eptr a es" and ?e = "elem a es m"
  have b: "i \<le> N" "lp \<le> N" "hp \<le> N" "j \<le> N" using D N by simp_all
  have cm: "fc m (?p x) (?p y) = cmp (?e x) (?e y)" for x y by (simp add: fc elem_def)
  have piv: "cmp (?e lp) pv = 0" "cmp (?e hp) pv = 0" using D(3,7) by simp_all
  note go = qs_advancesI [where fc = fc and es = es and inner = inner and a = a and i = i and lp = lp and hp = hp and j = j and m = m]
  have gi: "0 < cmp (?e i) pv" if "i < lp" using P(2) inn that by blast
  have hn: "hp + 1 < N" "j < N" "0 < j" using D(5) N hj by auto
  consider (eq) "cmp (?e hp) (?e j) = 0" | (less) "cmp (?e hp) (?e j) < 0" | (tri) "0 < cmp (?e hp) (?e j)" "i = lp" | (greater) "0 < cmp (?e hp) (?e j)" "i \<noteq> lp" by linarith
  then show ?thesis
  proof cases
    case eq
    let ?m2 = "qsexc es (?p (hp + 1)) (?p j) m"
    note E = qsexc_elems(1) [OF I hn(1,2), of _ m]
    have "parting cmp (elem a es ?m2) A B pv i lp (hp + 1) j = parting cmp (swapped (hp + 1) j ?e) A B pv i lp (hp + 1) j" by (rule parting_cong) (use E N in auto)
    moreover have ej: "cmp (?e j) pv = 0" using c(7) [OF piv(2)] eq by simp
    moreover have "cmp (swapped (hp + 1) j ?e k) pv = 0" if "lp \<le> k" "k \<le> hp + 1" for k
      using D(7) [of k] ej that hj by (cases "k = hp + 1") (auto simp: swapped_def)
    ultimately have "parting cmp (elem a es ?m2) A B pv i lp (hp + 1) j" using D(1-6,8) hj by (auto simp: parting_def swapped_def)
    moreover have "elem a es ?m2 i = ?e i" if "i < lp" using E [of i] b D that hj by (simp add: swapped_def)
    ultimately show ?thesis
      by (intro go [where inner' = True and i' = i and lp' = lp and hp' = "hp + 1" and j' = j and mm = ?m2]) (use eq inn gi hj D N in \<open>auto simp: qs_round_def lt b cm eptr_step(1) intro!: qsexc_elems(2) [OF I]\<close>)
  next
    case less
    have "0 < cmp (?e j) pv" using c(7,8) [OF piv(2), of "?e j"] less by linarith
    moreover have "k = j \<or> j < k" if "j - 1 < k" for k using that by auto
    ultimately have "parting cmp ?e A B pv i lp hp (j - 1)" using D hj by (auto simp: parting_def)
    then show ?thesis
      by (intro go [where inner' = True and i' = i and lp' = lp and hp' = hp and j' = "j - 1" and mm = m]) (use less inn gi hj hn in \<open>auto simp: qs_round_def lt b cm eptr_step(2) shuffled_refl\<close>)
  next
    case tri
    let ?m2 = "qstexc es (?p i) (?p (hp + 1)) (?p j) m"
    have x: "i < N" "i \<noteq> hp + 1" "i \<noteq> j" using tri(2) D(3) b hj hn by auto
    note E = qstexc_elems(1) [OF I x(1) hn(1,2) x(2,3), of _ m]
    let ?e2 = "swapped j (hp + 1) (swapped i j ?e)"
    have "parting cmp (elem a es ?m2) A B pv (lp + 1) (lp + 1) (hp + 1) j = parting cmp ?e2 A B pv (lp + 1) (lp + 1) (hp + 1) j" by (rule parting_cong) (use E N in auto)
    moreover have ej: "cmp (?e j) pv < 0" using c(8) [OF piv(2)] tri(1) by simp
    moreover have "cmp (?e2 k) pv = 0" if "lp + 1 \<le> k" "k \<le> hp + 1" for k
      using D(7) [of k] piv that hj tri(2) by (cases "k = hp + 1") (auto simp: swapped_def)
    moreover have "cmp (?e2 k) pv < 0" if "A \<le> k" "k < lp + 1" for k
      using D(6) [of k] ej that hj tri(2) D(3) by (cases "k = i") (auto simp: swapped_def)
    ultimately have "parting cmp (elem a es ?m2) A B pv (lp + 1) (lp + 1) (hp + 1) j" using D(1-5,8) hj tri(2) by (auto simp: parting_def swapped_def)
    then show ?thesis
      by (intro go [where inner' = True and i' = "lp + 1" and lp' = "lp + 1" and hp' = "hp + 1" and j' = j and mm = ?m2]) (use tri inn hj D N x in \<open>auto simp: qs_round_def lt b cm eptr_step(1) intro!: qstexc_elems(2) [OF I]\<close>)
  next
    case greater
    let ?m2 = "qsexc es (?p i) (?p j) m"
    have x: "i < N" "i < lp" using greater(2) D(2) b by auto
    note E = qsexc_elems(1) [OF I x(1) hn(2), of _ m]
    have "parting cmp (elem a es ?m2) A B pv (i + 1) lp hp (j - 1) = parting cmp (swapped i j ?e) A B pv (i + 1) lp hp (j - 1)" by (rule parting_cong) (use E N in auto)
    moreover have ej: "cmp (?e j) pv < 0" using c(8) [OF piv(2)] greater(1) by simp
    moreover have "cmp (swapped i j ?e k) pv < 0" if "A \<le> k" "k < i + 1" for k
      using D(6) [of k] ej that hj x D(3) by (cases "k = i") (auto simp: swapped_def)
    moreover have "0 < cmp (swapped i j ?e k) pv" if "j - 1 < k" "k < B" for k
      using D(8) [of k] gi [OF x(2)] that hj x D(3) by (cases "k = j") (auto simp: swapped_def)
    moreover have "cmp (swapped i j ?e k) pv = 0" if "lp \<le> k" "k \<le> hp" for k using D(7) [of k] that hj x by (auto simp: swapped_def)
    ultimately have "parting cmp (elem a es ?m2) A B pv (i + 1) lp hp (j - 1)" using D(1-5) hj x by (auto simp: parting_def)
    then show ?thesis
      by (intro go [where inner' = False and i' = "i + 1" and lp' = lp and hp' = hp and j' = "j - 1" and mm = ?m2]) (use greater inn hj D N x hn in \<open>auto simp: qs_round_def lt eq b cm eptr_step intro!: qsexc_elems(2) [OF I]\<close>)
  qed
qed

lemma qs_round_last:
  assumes I: "in_space a es N" and N: "B \<le> N" and C: "comparison_ok cmp" and fc: "\<And>m p q. fc m p q = cmp (block m p (unat es)) (block m q (unat es))"
    and P: "parting cmp (elem a es m) A B pv i lp hp j" "inner \<Longrightarrow> i < lp \<Longrightarrow> 0 < cmp (elem a es m i) pv"
    and inn: "\<not> (\<not> inner \<and> i < lp)" and hj: "\<not> hp < j" and False: "i \<noteq> lp"
  shows "qs_advances cmp fc a es N A B pv inner i lp hp j m"
proof -
  note D = partingD [OF P(1)] and c = comparison_okD [OF C] and lt = eptr_less [OF I] and eq = eptr_eq [OF I]
  let ?p = "eptr a es" and ?e = "elem a es m"
  have b: "i \<le> N" "lp \<le> N" "hp \<le> N" "j \<le> N" using D N by simp_all
  have cm: "fc m (?p x) (?p y) = cmp (?e x) (?e y)" for x y by (simp add: fc elem_def)
  have piv: "cmp (?e lp) pv = 0" "cmp (?e hp) pv = 0" using D(3,7) by simp_all
  note go = qs_advancesI [where fc = fc and es = es and inner = inner and a = a and i = i and lp = lp and hp = hp and j = j and m = m]
  have gi: "0 < cmp (?e i) pv" if "i < lp" using P(2) inn that by blast
  have hj': "hp = j" using D(4) hj by simp
  let ?m2 = "qstexc es (?p j) (?p (lp - 1)) (?p i) m"
  have x: "i < lp" "j < N" "lp - 1 < N" "i < N" "j \<noteq> lp - 1" "j \<noteq> i" "0 < lp" "0 < hp" using False D b N by auto
  note E = qstexc_elems(1) [OF I x(2,3,4,5,6), of _ m]
  let ?e2 = "swapped i (lp - 1) (swapped j i ?e)"
  have "parting cmp (elem a es ?m2) A B pv i (lp - 1) (hp - 1) (hp - 1) = parting cmp ?e2 A B pv i (lp - 1) (hp - 1) (hp - 1)" by (rule parting_cong) (use E N in auto)
  moreover have "cmp (?e2 k) pv = 0" if "lp - 1 \<le> k" "k \<le> hp - 1" for k
    using D(7) [of k] piv that hj' x by (cases "k = lp - 1") (auto simp: swapped_def)
  moreover have "0 < cmp (?e2 k) pv" if "hp - 1 < k" "k < B" for k
    using D(8) [of k] gi [OF x(1)] that hj' x D(3) by (cases "k = hp") (auto simp: swapped_def)
  moreover have "cmp (?e2 k) pv < 0" if "A \<le> k" "k < i" for k using D(6) [of k] that x hj' D(3) by (auto simp: swapped_def)
  ultimately have "parting cmp (elem a es ?m2) A B pv i (lp - 1) (hp - 1) (hp - 1)" using D(1-5) x by (auto simp: parting_def)
  then show ?thesis
    by (intro go [where inner' = False and i' = i and lp' = "lp - 1" and hp' = "hp - 1" and j' = "hp - 1" and mm = ?m2]) (use False inn hj hj' D N x in \<open>auto simp: qs_round_def lt eq b cm eptr_step(2) intro!: qstexc_elems(2) [OF I]\<close>)
qed

lemma qs_part_ok:
  assumes I: "in_space a es N" and N: "B \<le> N" and C: "comparison_ok cmp" and fc: "\<And>m p q. fc m p q = cmp (block m p (unat es)) (block m q (unat es))"
    and P: "parting cmp (elem a es m) A B pv i lp hp j" "inner \<Longrightarrow> i < lp \<Longrightarrow> 0 < cmp (elem a es m i) pv"
  shows "\<exists>m' l h. qs_part fc es (Again inner (eptr a es i) (eptr a es lp) (eptr a es hp) (eptr a es j) m) = Some (m', eptr a es l, eptr a es h) \<and>
    parting cmp (elem a es m') A B pv l l h h \<and> shuffled a es N A B m m'"
  using P
proof (induction "2 * ((lp - i) + (j - hp)) + (if inner then 0 else 1 :: nat)" arbitrary: inner i lp hp j m rule: less_induct)
  case less
  note D = partingD [OF less.prems(1)] and lt = eptr_less [OF I]
  let ?p = "eptr a es"
  have b: "i \<le> N" "lp \<le> N" "hp \<le> N" "j \<le> N" using D N by simp_all
  show ?case
  proof (cases "\<not> (\<not> inner \<and> i < lp) \<and> \<not> hp < j \<and> i = lp")
    case True
    then have "qs_round fc es inner (?p i) (?p lp) (?p hp) (?p j) m = Parted m (?p lp) (?p hp)" by (simp add: qs_round_def lt b)
    moreover have "parting cmp (elem a es m) A B pv lp lp hp hp" using less.prems(1) True D(4) by simp
    ultimately show ?thesis using shuffled_refl by (subst qs_part.simps) (force simp: qs_part.simps)
  next
    case False
    then have "qs_advances cmp fc a es N A B pv inner i lp hp j m"
      using qs_round_low [OF I N C fc less.prems] qs_round_high [OF I N C fc less.prems] qs_round_last [OF I N C fc less.prems] by blast
    then obtain inner' i' lp' hp' j' m2 where r: "qs_round fc es inner (?p i) (?p lp) (?p hp) (?p j) m = Again inner' (?p i') (?p lp') (?p hp') (?p j') m2"
        and p: "parting cmp (elem a es m2) A B pv i' lp' hp' j'" "inner' \<Longrightarrow> i' < lp' \<Longrightarrow> 0 < cmp (elem a es m2 i') pv" and s: "shuffled a es N A B m m2"
        and me: "2 * ((lp' - i') + (j' - hp')) + (if inner' then 0 else 1 :: nat) < 2 * ((lp - i) + (j - hp)) + (if inner then 0 else 1)"
      unfolding qs_advances_def by blast
    obtain m' l h where "qs_part fc es (Again inner' (?p i') (?p lp') (?p hp') (?p j') m2) = Some (m', ?p l, ?p h)"
        "parting cmp (elem a es m') A B pv l l h h" "shuffled a es N A B m2 m'"
      using less.hyps [OF me p] by blast
    then show ?thesis using shuffled_trans [OF s] r by (subst qs_part.simps) auto
  qed
qed

section \<open>Sorting\<close>

lemma shuffled_mono:
  assumes S: "shuffled a es N A' B' m m'" and r: "A \<le> A'" "A' \<le> B'" "B' \<le> B" "B \<le> N"
  shows "shuffled a es N A B m m'"
proof -
  have s: "{A..<B} = {A'..<B'} \<union> ({A..<A'} \<union> {B'..<B})" using r by auto
  have m: "mset_set {A..<B} = mset_set {A'..<B'} + mset_set ({A..<A'} \<union> {B'..<B})"
    unfolding s by (rule mset_set_Union) (use r in auto)
  have "image_mset (elem a es m') (mset_set ({A..<A'} \<union> {B'..<B})) = image_mset (elem a es m) (mset_set ({A..<A'} \<union> {B'..<B}))"
    by (rule image_mset_cong) (use S r in \<open>auto simp: shuffled_def\<close>)
  then show ?thesis using S r unfolding shuffled_def m by auto
qed

lemma shuffled_all:
  assumes S: "shuffled a es N A B m m'" and P: "\<And>k. A \<le> k \<Longrightarrow> k < B \<Longrightarrow> P (elem a es m k)" and k: "A \<le> k" "k < B"
  shows "P (elem a es m' k)"
proof -
  have "set_mset (image_mset (elem a es m') (mset_set {A..<B})) = set_mset (image_mset (elem a es m) (mset_set {A..<B}))" using S by (simp add: shuffled_def)
  then have "elem a es m' ` {A..<B} = elem a es m ` {A..<B}" by simp
  then have "elem a es m' k \<in> elem a es m ` {A..<B}" using k by (metis atLeastLessThan_iff image_eqI)
  then show ?thesis using P by auto
qed

definition ascending_elems :: "(uchar list \<Rightarrow> uchar list \<Rightarrow> int) \<Rightarrow> (nat \<Rightarrow> uchar list) \<Rightarrow> nat \<Rightarrow> nat \<Rightarrow> bool" where
  "ascending_elems cmp e A B \<longleftrightarrow> (\<forall>x y. A \<le> x \<and> x < y \<and> y < B \<longrightarrow> cmp (e x) (e y) \<le> 0)"

lemma ascending_join:
  assumes C: "comparison_ok cmp" and P: "parting cmp e A B pv l l h h" and s: "ascending_elems cmp e A l" "ascending_elems cmp e (Suc h) B"
  shows "ascending_elems cmp e A B"
  unfolding ascending_elems_def
proof (intro allI impI)
  fix x y assume xy: "A \<le> x \<and> x < y \<and> y < B"
  note D = partingD [OF P] and c = comparison_okD [OF C]
  show "cmp (e x) (e y) \<le> 0"
  proof (cases "y < l \<or> h < x")
    case True
    then show ?thesis using s xy unfolding ascending_elems_def by auto
  next
    case False
    have "cmp (e x) pv \<le> 0" using D(6,7) [of x] xy False by (cases "x < l") auto
    moreover have "cmp (e y) pv \<ge> 0" using D(7,8) [of y] xy False by (cases "y \<le> h") force+
    then have "cmp pv (e y) \<le> 0" using c(1) [of pv "e y"] c(2) [of pv "e y"] by linarith
    ultimately show ?thesis by (rule c(4))
  qed
qed

text \<open>A side of the partition stays on its side when its elements are shuffled.\<close>

lemma parting_shuffled:
  assumes P: "parting cmp (elem a es m) A B pv l l h h" and N: "B \<le> N" and S: "shuffled a es N A l m m' \<or> shuffled a es N (Suc h) B m m'"
  shows "parting cmp (elem a es m') A B pv l l h h"
proof -
  note D = partingD [OF P]
  show ?thesis using S
  proof
    assume S: "shuffled a es N A l m m'"
    have o: "elem a es m' k = elem a es m k" if "l \<le> k" "k < B" for k using S that N by (auto simp: shuffled_def)
    have "cmp (elem a es m' k) pv < 0" if "A \<le> k" "k < l" for k by (rule shuffled_all [OF S _ that, of "\<lambda>x. cmp x pv < 0"]) (rule D(6))
    then show ?thesis using D(1-5,7,8) o by (auto simp: parting_def)
  next
    assume S: "shuffled a es N (Suc h) B m m'"
    have o: "elem a es m' k = elem a es m k" if "k \<le> h" for k using S that D(5) N by (auto simp: shuffled_def)
    have "0 < cmp (elem a es m' k) pv" if "h < k" "k < B" for k by (rule shuffled_all [OF S, of "\<lambda>x. 0 < cmp x pv"]) (use D(8) that in auto)
    then show ?thesis using D(1-7) o by (auto simp: parting_def)
  qed
qed

lemma ascending_cong: "(\<And>k. A \<le> k \<Longrightarrow> k < B \<Longrightarrow> e k = e' k) \<Longrightarrow> ascending_elems cmp e A B = ascending_elems cmp e' A B"
  unfolding ascending_elems_def by (intro all_cong1 imp_cong refl) simp

lemma range_words:
  assumes I: "in_space a es N" and r: "A \<le> B" "B \<le> N"
  shows "eptr a es B - eptr a es A \<le> es \<longleftrightarrow> B - A \<le> 1"
    "2 \<le> B - A \<Longrightarrow> eptr a es A + es * ((eptr a es B - eptr a es A) div (2 * es)) = eptr a es (A + (B - A) div 2)"
proof -
  let ?w = "unat es" and ?n = "eptr a es B - eptr a es A"
  have le: "eptr a es A \<le> eptr a es B" using eptr_less [OF I, of B A] r by (simp add: not_less [symmetric])
  have u: "unat ?n = (B - A) * ?w"
    using unat_sub_le [OF le] unat_eptr [OF I, of A] unat_eptr [OF I, of B] r by (simp add: diff_mult_distrib)
  have w: "0 < ?w" using I by (simp add: in_space_def)
  show "?n \<le> es \<longleftrightarrow> B - A \<le> 1" unfolding word_le_nat_alt u using w by (metis mult_le_cancel2 nat_mult_1)
  assume two: "2 \<le> B - A"
  have "(B - A) * ?w \<le> N * ?w" using r by (intro mult_le_mono1) simp
  moreover have "unat a + N * ?w < 2 ^ 32" using I by (simp add: in_space_def)
  ultimately have nb: "(B - A) * ?w < 2 ^ 32" by linarith
  have "2 * ?w \<le> (B - A) * ?w" using two by (rule mult_le_mono1)
  then have "2 * ?w < 2 ^ 32" using nb by linarith
  then have u2: "unat (2 * es) = 2 * ?w" by (simp add: unat_word_ariths)
  have ud: "unat (?n div (2 * es)) = (B - A) div 2" unfolding unat_div_distrib u u2 using w by simp
  have "?n div (2 * es) = of_nat ((B - A) div 2)" by (simp flip: ud)
  then show "eptr a es A + es * (?n div (2 * es)) = eptr a es (A + (B - A) div 2)" by (simp add: eptr_def algebra_simps)
qed

lemma qs1_ok:
  assumes I: "in_space a es N" and C: "comparison_ok cmp" and fc: "\<And>m p q. fc m p q = cmp (block m p (unat es)) (block m q (unat es))"
    and "A \<le> B" "B \<le> N"
  shows "\<exists>m'. qs1 fc es (eptr a es A) (eptr a es B) m = Some m' \<and> shuffled a es N A B m m' \<and> ascending_elems cmp (elem a es m') A B"
  using assms(4,5)
proof (induction "B - A" arbitrary: A B m rule: less_induct)
  case less
  let ?p = "eptr a es"
  note R = range_words [OF I less.prems]
  show ?case
  proof (cases "B - A \<le> 1")
    case True
    then have "qs1 fc es (?p A) (?p B) m = Some m" using R(1) by (subst qs1.simps) (simp add: Let_def)
    moreover have "ascending_elems cmp (elem a es m) A B" using True by (auto simp: ascending_elems_def)
    ultimately show ?thesis using shuffled_refl by blast
  next
    case False
    let ?mid = "A + (B - A) div 2"
    have md: "A \<le> ?mid" "?mid \<le> B - 1" "B - 1 < B" "0 < B" using False by auto
    have "cmp (elem a es m ?mid) (elem a es m ?mid) = 0" using comparison_okD(1) [OF C, of "elem a es m ?mid" "elem a es m ?mid"] by linarith
    then have P0: "parting cmp (elem a es m) A B (elem a es m ?mid) A ?mid ?mid (B - 1)" using md by (auto simp: parting_def)
    obtain m1 l h where M1: "qs_part fc es (Again False (?p A) (?p ?mid) (?p ?mid) (?p (B - 1)) m) = Some (m1, ?p l, ?p h)"
        "parting cmp (elem a es m1) A B (elem a es m ?mid) l l h h" "shuffled a es N A B m m1"
      using qs_part_ok [OF I less.prems(2) C fc P0, of False] by blast
    note D = partingD(1-5) [OF M1(2)]
    have sz: "B - Suc h < B - A" "l - A < B - A" "Suc h \<le> B" "l \<le> N" "l \<le> B" using D less.prems(2) by auto
    have q: "qs1 fc es (?p A) (?p B) m = (if sint (?p l - ?p A) \<ge> sint (?p B - ?p h) then do { m2 \<leftarrow> qs1 fc es (?p (Suc h)) (?p B) m1; qs1 fc es (?p A) (?p l) m2 }
        else do { m2 \<leftarrow> qs1 fc es (?p A) (?p l) m1; qs1 fc es (?p (Suc h)) (?p B) m2 })"
      using R False M1(1) md(4) by (subst qs1.simps) (simp add: Let_def eptr_step)
    have ends: ?thesis if "qs1 fc es (?p A) (?p B) m = Some m3" "parting cmp (elem a es m3) A B (elem a es m ?mid) l l h h" "shuffled a es N A B m1 m3"
      "ascending_elems cmp (elem a es m3) A l" "ascending_elems cmp (elem a es m3) (Suc h) B" for m3
      using that shuffled_trans [OF M1(3)] ascending_join [OF C that(2,4,5)] by blast
    have left: "\<exists>m3. qs1 fc es (?p A) (?p l) m2 = Some m3 \<and> shuffled a es N A l m2 m3 \<and> ascending_elems cmp (elem a es m3) A l" for m2
      by (rule less.hyps [OF sz(2) D(1) sz(4)])
    have right: "\<exists>m3. qs1 fc es (?p (Suc h)) (?p B) m2 = Some m3 \<and> shuffled a es N (Suc h) B m2 m3 \<and> ascending_elems cmp (elem a es m3) (Suc h) B" for m2
      by (rule less.hyps [OF sz(1,3) less.prems(2)])
    have up: "shuffled a es N A l x y \<Longrightarrow> shuffled a es N A B x y" "shuffled a es N (Suc h) B x y \<Longrightarrow> shuffled a es N A B x y" for x y
      using shuffled_mono [of a es N A l x y A B] shuffled_mono [of a es N "Suc h" B x y A B] D sz less.prems(2) by auto
    show ?thesis
    proof (cases "sint (?p l - ?p A) \<ge> sint (?p B - ?p h)")
      case True
      obtain m2 where M2: "qs1 fc es (?p (Suc h)) (?p B) m1 = Some m2" "shuffled a es N (Suc h) B m1 m2" "ascending_elems cmp (elem a es m2) (Suc h) B" using right by blast
      obtain m3 where M3: "qs1 fc es (?p A) (?p l) m2 = Some m3" "shuffled a es N A l m2 m3" "ascending_elems cmp (elem a es m3) A l" using left by blast
      have "ascending_elems cmp (elem a es m3) (Suc h) B = ascending_elems cmp (elem a es m2) (Suc h) B"
        by (rule ascending_cong) (use M3(2) D less.prems(2) in \<open>auto simp: shuffled_def\<close>)
      then have s: "ascending_elems cmp (elem a es m3) (Suc h) B" using M2(3) by simp
      have P2: "parting cmp (elem a es m2) A B (elem a es m ?mid) l l h h" by (rule parting_shuffled [OF M1(2) less.prems(2)]) (rule disjI2 [OF M2(2)])
      have P3: "parting cmp (elem a es m3) A B (elem a es m ?mid) l l h h" by (rule parting_shuffled [OF P2 less.prems(2)]) (rule disjI1 [OF M3(2)])
      have "qs1 fc es (?p A) (?p B) m = Some m3" unfolding q using True M2(1) M3(1) by simp
      then show ?thesis by (rule ends [OF _ P3 shuffled_trans [OF up(2) [OF M2(2)] up(1) [OF M3(2)]] M3(3) s])
    next
      case False
      obtain m2 where M2: "qs1 fc es (?p A) (?p l) m1 = Some m2" "shuffled a es N A l m1 m2" "ascending_elems cmp (elem a es m2) A l" using left by blast
      obtain m3 where M3: "qs1 fc es (?p (Suc h)) (?p B) m2 = Some m3" "shuffled a es N (Suc h) B m2 m3" "ascending_elems cmp (elem a es m3) (Suc h) B" using right by blast
      have "ascending_elems cmp (elem a es m3) A l = ascending_elems cmp (elem a es m2) A l"
        by (rule ascending_cong) (use M3(2) D less.prems(2) in \<open>auto simp: shuffled_def\<close>)
      then have s: "ascending_elems cmp (elem a es m3) A l" using M2(3) by simp
      have P2: "parting cmp (elem a es m2) A B (elem a es m ?mid) l l h h" by (rule parting_shuffled [OF M1(2) less.prems(2)]) (rule disjI1 [OF M2(2)])
      have P3: "parting cmp (elem a es m3) A B (elem a es m ?mid) l l h h" by (rule parting_shuffled [OF P2 less.prems(2)]) (rule disjI2 [OF M3(2)])
      have "qs1 fc es (?p A) (?p B) m = Some m3" unfolding q using False M2(1) M3(1) by simp
      then show ?thesis by (rule ends [OF _ P3 shuffled_trans [OF up(1) [OF M2(2)] up(2) [OF M3(2)]] s M3(3)])
    qed
  qed
qed


text \<open>
  C35. \<^verbatim>\<open>qsort\<close> always returns, for every array that lies in the address space and every comparison function that is a total
  preorder on the bytes of the elements: afterwards the array holds the same elements in
  ascending order, and no byte outside the array has changed.
\<close>

theorem qsort_sorts:
  assumes "0 < unat es" and "unat a + unat n * unat es < 2 ^ 32" and "comparison_ok cmp"
    and "\<And>m p q. fc m p q = cmp (block m p (unat es)) (block m q (unat es))"
  shows "\<exists>m'. qsort a n es fc m = Some m' \<and>
    mset (map (elem a es m') [0..<unat n]) = mset (map (elem a es m) [0..<unat n]) \<and>
    sorted_wrt (\<lambda>x y. cmp x y \<le> 0) (map (elem a es m') [0..<unat n]) \<and>
    (\<forall>x. (\<forall>j<unat n * unat es. x \<noteq> a + of_nat j) \<longrightarrow> m' x = m x)"
proof -
  have I: "in_space a es (unat n)" using assms(1,2) by (simp add: in_space_def)
  have e: "eptr a es 0 = a" "eptr a es (unat n) = a + n * es" by (simp_all add: eptr_def)
  obtain m' where M: "qs1 fc es a (a + n * es) m = Some m'" "shuffled a es (unat n) 0 (unat n) m m'" "ascending_elems cmp (elem a es m') 0 (unat n)"
    using qs1_ok [OF I assms(3,4), of 0 "unat n" m] unfolding e by auto
  have "sorted_wrt (\<lambda>x y. cmp x y \<le> 0) (map (elem a es m') [0..<unat n])" using M(3) by (simp add: sorted_wrt_iff_nth_less ascending_elems_def)
  then show ?thesis using M(1,2) by (auto simp: qsort_def shuffled_def simp flip: mset_upt)
qed

definition byte_order :: "uchar list \<Rightarrow> uchar list \<Rightarrow> int" where
  "byte_order x y = uint (hd x) - uint (hd y)"

theorem qsort_sorts_witness:
  "\<exists>m'. qsort 0x1000 3 1 (\<lambda>m p q. byte_order (block m p 1) (block m q 1)) (put (\<lambda>_. 0) 0x1000 [3, 1, 2]) = Some m' \<and>
     mset (map (elem 0x1000 1 m') [0..<3]) = {#[1], [2], [3]#} \<and> sorted_wrt (\<lambda>x y. byte_order x y \<le> 0) (map (elem 0x1000 1 m') [0..<3])"
proof -
  let ?m = "put (\<lambda>_. 0) 0x1000 [3, 1, 2]"
  have "comparison_ok byte_order" by (auto simp: comparison_ok_def byte_order_def)
  moreover have "mset (map (elem 0x1000 1 ?m) [0..<3]) = {#[1], [2], [3]#}" by (simp add: elem_def eptr_def numeral_eq_Suc)
  ultimately show ?thesis using qsort_sorts [of 1 "0x1000" 3 byte_order "\<lambda>m p q. byte_order (block m p 1) (block m q 1)" ?m] by (simp del: upt.simps) blast
qed

end
