(* ===== verification/Lib_Number.thy ===== *)
theory Lib_Number
  imports Block_Store
begin

text \<open>
  The number parsers of \<^verbatim>\<open>lib/strtol.c\<close> with the character classes of \<^verbatim>\<open>lib/ctype_.c\<close> and \<^verbatim>\<open>include/ctype.h\<close>. Both parsers contain the
  same scanning code, which is modelled once; they differ in their limits and in what they do on overflow. A character beyond the
  table of classes yields \<^term>\<open>None\<close>. Positive results are related to the value of a list of digits.
\<close>

section \<open>The code\<close>

definition CT_U :: uchar where "CT_U = 0x01"
definition CT_L :: uchar where "CT_L = 0x02"
definition CT_N :: uchar where "CT_N = 0x04"
definition CT_S :: uchar where "CT_S = 0x08"

text \<open>The table, from the entry for the end of file.\<close>

definition ctype_tab :: "uchar list" where
  "ctype_tab = (let U = 0x01; L = 0x02; N = 0x04; S = 0x08; P = 0x10; C = 0x20; X = 0x40 in
    [0,
     C, C, C, C, C, C, C, C,
     C, S, S, S, S, S, C, C,
     C, C, C, C, C, C, C, C,
     C, C, C, C, C, C, C, C,
     S, P, P, P, P, P, P, P,
     P, P, P, P, P, P, P, P,
     N, N, N, N, N, N, N, N,
     N, N, P, P, P, P, P, P,
     P, U OR X, U OR X, U OR X, U OR X, U OR X, U OR X,
     U,
     U, U, U, U, U, U, U, U,
     U, U, U, U, U, U, U, U,
     U, U, U, P, P, P, P, P,
     P, L OR X, L OR X, L OR X, L OR X, L OR X, L OR X,
     L,
     L, L, L, L, L, L, L, L,
     L, L, L, L, L, L, L, L,
     L, L, L, P, P, P, P, C])"

definition ctype :: "int \<Rightarrow> uchar option" where
  "ctype c = (if - 1 \<le> c \<and> nat (c + 1) < length ctype_tab then Some (ctype_tab ! nat (c + 1)) else None)"

text \<open>The first character that is not white space, and the pointer past it.\<close>

partial_function (option) strtol_blanks :: "bytes \<Rightarrow> uint32 \<Rightarrow> (int \<times> uint32) option" where
  "strtol_blanks m s = do {
     let c = uint (m s);
     t \<leftarrow> ctype c;
     if t AND CT_S \<noteq> 0 then strtol_blanks m (s + 1) else Some (c, s + 1) }"

definition strtol_sign :: "bytes \<Rightarrow> int \<Rightarrow> uint32 \<Rightarrow> bool \<times> int \<times> uint32" where
  "strtol_sign m c s = (if c = 45 then (True, uint (m s), s + 1) else if c = 43 then (False, uint (m s), s + 1) else (False, c, s))"

definition strtol_prefix :: "bytes \<Rightarrow> int \<Rightarrow> int \<Rightarrow> uint32 \<Rightarrow> int \<times> int \<times> uint32" where
  "strtol_prefix m base c s =
    (let (base, c, s) =
       (if (base = 0 \<or> base = 16) \<and> c = 48 \<and> (m s = 120 \<or> m s = 88) then (16, uint (m (s + 1)), s + 2)
        else if (base = 0 \<or> base = 2) \<and> c = 48 \<and> (m s = 98 \<or> m s = 66) then (2, uint (m (s + 1)), s + 2)
        else (base, c, s))
     in (if base = 0 then (if c = 48 then 8 else 10) else base, c, s))"

text \<open>The value of a digit or a letter of class \<open>t\<close>.\<close>

definition strtol_char :: "uchar \<Rightarrow> int \<Rightarrow> int" where
  "strtol_char t c = (if t AND CT_N \<noteq> 0 then c - 48 else c - (if t AND CT_U \<noteq> 0 then 65 - 10 else 97 - 10))"

text \<open>The loop over the digits, with \<^verbatim>\<open>any\<close> as a number: 0 before the first digit, -1 after an overflow.\<close>

partial_function (option) strtol_digits ::
  "bytes \<Rightarrow> int \<Rightarrow> uint32 \<Rightarrow> int \<Rightarrow> uint32 \<Rightarrow> int \<Rightarrow> uint32 \<Rightarrow> int \<Rightarrow> (uint32 \<times> int \<times> uint32) option" where
  "strtol_digits m base cutoff cutlim s c acc any = do {
     t \<leftarrow> ctype c;
     if t AND CT_N = 0 \<and> t AND (CT_U OR CT_L) = 0 then Some (acc, any, s)
     else
       let c = strtol_char t c in
       if c \<ge> base then Some (acc, any, s)
       else if any < 0 \<or> acc > cutoff \<or> acc = cutoff \<and> c > cutlim
       then strtol_digits m base cutoff cutlim (s + 1) (uint (m s)) acc (- 1)
       else strtol_digits m base cutoff cutlim (s + 1) (uint (m s)) (acc * word_of_int base + word_of_int c) 1 }"

definition LONG_MAX :: uint32 where "LONG_MAX = 2147483647"
definition LONG_MIN :: uint32 where "LONG_MIN = - LONG_MAX - 1"
definition ULONG_MAX :: uint32 where "ULONG_MAX = 2 * LONG_MAX + 1"

definition strtol :: "bytes \<Rightarrow> uint32 \<Rightarrow> uint32 \<Rightarrow> int \<Rightarrow> (int \<times> bytes) option" where
  "strtol m nptr endptr base = do {
     (c, s) \<leftarrow> strtol_blanks m nptr;
     let (neg, c, s) = strtol_sign m c s;
     let (base, c, s) = strtol_prefix m base c s;
     let cutoff = (if neg then - LONG_MIN else LONG_MAX);
     let cutlim = sint (cutoff mod word_of_int base);
     let cutoff = cutoff div word_of_int base;
     (acc, any, s) \<leftarrow> strtol_digits m base cutoff cutlim s c 0 0;
     let acc = (if any < 0 then (if neg then LONG_MIN else LONG_MAX) else if neg then - acc else acc);
     let m = (if endptr \<noteq> 0 then stint m endptr (sint (if any \<noteq> 0 then s - 1 else nptr)) else m);
     Some (sint acc, m) }"

definition strtoul :: "bytes \<Rightarrow> uint32 \<Rightarrow> uint32 \<Rightarrow> int \<Rightarrow> (uint32 \<times> bytes) option" where
  "strtoul m nptr endptr base = do {
     (c, s) \<leftarrow> strtol_blanks m nptr;
     let (neg, c, s) = strtol_sign m c s;
     let (base, c, s) = strtol_prefix m base c s;
     let cutoff = ULONG_MAX div word_of_int base;
     let cutlim = sint (ULONG_MAX mod word_of_int base);
     (acc, any, s) \<leftarrow> strtol_digits m base cutoff cutlim s c 0 0;
     let acc = (if any < 0 then ULONG_MAX else if neg then - acc else acc);
     let m = (if endptr \<noteq> 0 then stint m endptr (sint (if any \<noteq> 0 then s - 1 else nptr)) else m);
     Some (acc, m) }"

section \<open>Character classes\<close>

text \<open>The value of a digit or letter, 36 for everything else, and white space.\<close>

definition digit_val :: "int \<Rightarrow> int" where
  "digit_val c = (if 48 \<le> c \<and> c \<le> 57 then c - 48 else if 65 \<le> c \<and> c \<le> 90 then c - 55 else if 97 \<le> c \<and> c \<le> 122 then c - 87 else 36)"

definition blank :: "int \<Rightarrow> bool" where
  "blank c \<longleftrightarrow> 9 \<le> c \<and> c \<le> 13 \<or> c = 32"

definition class_ok :: "int \<Rightarrow> bool" where
  "class_ok c \<longleftrightarrow> (case ctype c of None \<Rightarrow> False | Some t \<Rightarrow>
     (t AND CT_S \<noteq> 0) = blank c \<and> (t AND CT_N = 0 \<and> t AND (CT_U OR CT_L) = 0) = (digit_val c = 36) \<and>
     (digit_val c \<noteq> 36 \<longrightarrow> strtol_char t c = digit_val c))"

lemma ctype_classes: "list_all class_ok [0..127]"
  by code_simp

lemma ctype_class: "0 \<le> c \<Longrightarrow> c < 128 \<Longrightarrow> class_ok c"
  using ctype_classes by (simp add: list_all_iff)

section \<open>The loops on strings\<close>

lemma strtol_blanks_step:
  assumes "m s < 128"
  shows "strtol_blanks m s = (if blank (uint (m s)) then strtol_blanks m (s + 1) else Some (uint (m s), s + 1))"
proof -
  have "class_ok (uint (m s))" using assms by (intro ctype_class) (simp_all add: word_less_def)
  then show ?thesis by (subst strtol_blanks.simps) (auto simp: class_ok_def split: option.splits)
qed

lemma strtol_blanks_cstr:
  "cstr m p (bl @ xs) \<Longrightarrow> \<forall>c\<in>set bl. blank (uint c) \<Longrightarrow> hd (xs @ [0]) < 128 \<Longrightarrow> \<not> blank (uint (hd (xs @ [0]))) \<Longrightarrow>
   strtol_blanks m p = Some (uint (hd (xs @ [0])), p + of_nat (length bl) + 1) \<and> cstr m (p + of_nat (length bl)) xs"
proof (induction bl arbitrary: p)
  case Nil
  have "m p = hd (xs @ [0])" using Nil by (cases xs) simp_all
  then show ?case using Nil strtol_blanks_step [of m p] by simp
next
  case (Cons b bl)
  have e: "p + of_nat (length (b # bl)) = p + 1 + of_nat (length bl)" by (simp add: algebra_simps)
  have "blank (uint b)" using Cons.prems by simp
  moreover have "b < 128" using calculation by (auto simp: blank_def word_less_def)
  ultimately have "strtol_blanks m p = strtol_blanks m (p + 1)" using Cons.prems strtol_blanks_step [of m p] by simp
  then show ?case unfolding e using Cons.IH [of "p + 1"] Cons.prems by simp
qed

lemma strtol_digits_step:
  assumes "0 \<le> c" "c < 128" "base \<le> 36"
  shows "strtol_digits m base cutoff cutlim s c acc any =
    (if digit_val c \<ge> base then Some (acc, any, s)
     else if any < 0 \<or> acc > cutoff \<or> acc = cutoff \<and> digit_val c > cutlim
     then strtol_digits m base cutoff cutlim (s + 1) (uint (m s)) acc (- 1)
     else strtol_digits m base cutoff cutlim (s + 1) (uint (m s)) (acc * word_of_int base + word_of_int (digit_val c)) 1)"
proof -
  obtain t where t: "ctype c = Some t" and k: "(t AND CT_N = 0 \<and> t AND (CT_U OR CT_L) = 0) = (digit_val c = 36)"
      "digit_val c \<noteq> 36 \<Longrightarrow> strtol_char t c = digit_val c"
    using ctype_class [OF assms(1,2)] unfolding class_ok_def by (auto split: option.splits)
  show ?thesis
  proof (cases "digit_val c = 36")
    case True
    then show ?thesis using k(1) assms(3) by (subst strtol_digits.simps) (simp add: t)
  next
    case False
    then have n: "(t AND CT_N = 0 \<and> t AND (CT_U OR CT_L) = 0) = False" using k(1) by simp
    show ?thesis by (subst strtol_digits.simps) (simp only: t bind.bind_lunit n k(2) [OF False] Let_def if_False)
  qed
qed

text \<open>The value of a list of digits, continued from \<open>v\<close>.\<close>

definition num_val :: "int \<Rightarrow> int \<Rightarrow> uchar list \<Rightarrow> int" where
  "num_val b v ds = foldl (\<lambda>a c. a * b + digit_val (uint c)) v ds"

lemma num_val_simps [simp]: "num_val b v [] = v" "num_val b v (c # ds) = num_val b (v * b + digit_val (uint c)) ds"
  by (simp_all add: num_val_def)

lemma digit_val_nonneg: "0 \<le> digit_val c"
  by (simp add: digit_val_def)

lemma num_val_mono: "1 \<le> b \<Longrightarrow> 0 \<le> v \<Longrightarrow> v \<le> num_val b v ds"
proof (induction ds arbitrary: v)
  case (Cons c ds)
  have "v * 1 \<le> v * b" using Cons.prems by (intro mult_left_mono)
  then have "v \<le> v * b + digit_val (uint c)" using digit_val_nonneg [of "uint c"] by simp
  then show ?case using Cons.IH [of "v * b + digit_val (uint c)"] Cons.prems by simp
qed simp

lemma num_val_append_digits:
  assumes "0 \<le> v" "v \<le> lim" "lim < 2 ^ 32" "2 \<le> b" "b \<le> 36" "digit_val c < b"
  shows "word_of_int v > (word_of_int lim div word_of_int b :: uint32) \<or> word_of_int v = (word_of_int lim div word_of_int b :: uint32) \<and> digit_val c > lim mod b
    \<longleftrightarrow> v * b + digit_val c > lim"
proof -
  have "uint (word_of_int lim div word_of_int b :: uint32) = lim div b" "uint (word_of_int v :: uint32) = v"
    using assms by (simp_all add: uint_div uint_word_of_int)
  then have "word_of_int v > (word_of_int lim div word_of_int b :: uint32) \<longleftrightarrow> v > lim div b" "word_of_int v = (word_of_int lim div word_of_int b :: uint32) \<longleftrightarrow> v = lim div b"
    by (simp_all add: word_less_def word_uint_eq_iff)
  moreover have "v * b + digit_val c > lim \<longleftrightarrow> v > lim div b \<or> v = lim div b \<and> digit_val c > lim mod b"
  proof (cases v "lim div b" rule: linorder_cases)
    case less
    then have "(v + 1) * b \<le> lim div b * b" using assms(4) by (intro mult_right_mono) simp_all
    then have "v * b + b \<le> lim div b * b" by (simp add: algebra_simps)
    then show ?thesis using less assms(4,6) div_mult_mod_eq [of lim b] pos_mod_sign [of b lim] by linarith
  next
    case equal
    have "lim < lim div b * b + digit_val c \<longleftrightarrow> lim mod b < digit_val c" by (subst div_mult_mod_eq [of lim b, symmetric]) (simp only: add_less_cancel_left)
    then show ?thesis using equal by simp
  next
    case greater
    then have "(lim div b + 1) * b \<le> v * b" using assms(4) by (intro mult_right_mono) simp_all
    then have "lim div b * b + b \<le> v * b" by (simp add: algebra_simps)
    then show ?thesis using greater assms(4) digit_val_nonneg [of c] div_mult_mod_eq [of lim b] pos_mod_bound [of b lim] by linarith
  qed
  ultimately show ?thesis by simp
qed

lemma strtol_digits_over:
  assumes "cstr m q (ds @ rest)" "\<forall>c\<in>set ds. c < 128 \<and> digit_val (uint c) < b" "hd (rest @ [0]) < 128" "b \<le> digit_val (uint (hd (rest @ [0])))" "b \<le> 36"
  shows "strtol_digits m b cutoff cutlim (q + 1) (uint (m q)) acc (- 1) = Some (acc, - 1, q + of_nat (length ds) + 1)"
  using assms(1,2)
proof (induction ds arbitrary: q)
  case Nil
  then have "m q = hd (rest @ [0])" by (cases rest) simp_all
  then show ?case using assms(3-5) strtol_digits_step [of "uint (m q)" b m cutoff cutlim "q + 1" acc "- 1"] by (simp add: word_less_def)
next
  case (Cons c ds)
  have "strtol_digits m b cutoff cutlim (q + 1) (uint (m q)) acc (- 1) = strtol_digits m b cutoff cutlim (q + 1 + 1) (uint (m (q + 1))) acc (- 1)"
    using Cons.prems assms(5) strtol_digits_step [of "uint (m q)" b m cutoff cutlim "q + 1" acc "- 1"] by (auto simp: word_less_def)
  then show ?case using Cons.IH [of "q + 1"] Cons.prems by (simp add: algebra_simps)
qed

lemma strtol_digits_cstr:
  assumes "cstr m q (ds @ rest)" "\<forall>c\<in>set ds. c < 128 \<and> digit_val (uint c) < b" "hd (rest @ [0]) < 128" "b \<le> digit_val (uint (hd (rest @ [0])))" "2 \<le> b" "b \<le> 36"
    and "0 \<le> v" "v \<le> lim" "lim < 2 ^ 32" "0 \<le> any"
  shows "\<exists>acc any'. strtol_digits m b (word_of_int lim div word_of_int b) (lim mod b) (q + 1) (uint (m q)) (word_of_int v) any = Some (acc, any', q + of_nat (length ds) + 1) \<and>
    (num_val b v ds \<le> lim \<longrightarrow> acc = word_of_int (num_val b v ds) \<and> any' = (if ds = [] then any else 1)) \<and> (num_val b v ds > lim \<longrightarrow> any' = - 1)"
  using assms(1,2,7,8,10)
proof (induction ds arbitrary: q v any)
  case Nil
  then have "m q = hd (rest @ [0])" by (cases rest) simp_all
  then show ?case using Nil assms(3,4,6) strtol_digits_step [of "uint (m q)" b m _ _ "q + 1"] by (simp add: word_less_def)
next
  case (Cons c ds)
  let ?d = "digit_val (uint c)" and ?v = "v * b + digit_val (uint c)" and ?co = "word_of_int lim div word_of_int b :: uint32"
  have c: "m q = c" "c < 128" "?d < b" using Cons.prems by simp_all
  have A: "word_of_int v > ?co \<or> word_of_int v = ?co \<and> ?d > lim mod b \<longleftrightarrow> ?v > lim"
    using num_val_append_digits [of v lim b "uint c"] Cons.prems assms(5,6,9) c(3) by blast
  have st: "strtol_digits m b ?co (lim mod b) (q + 1) (uint (m q)) (word_of_int v) any =
      (if ?v > lim then strtol_digits m b ?co (lim mod b) (q + 1 + 1) (uint (m (q + 1))) (word_of_int v) (- 1)
       else strtol_digits m b ?co (lim mod b) (q + 1 + 1) (uint (m (q + 1))) (word_of_int ?v) 1)"
    using strtol_digits_step [of "uint (m q)" b m ?co "lim mod b" "q + 1" "word_of_int v" any] c A Cons.prems(5) assms(6) by (simp add: word_less_def)
  have p: "0 \<le> ?v" using Cons.prems(3) assms(5) digit_val_nonneg by simp
  show ?case
  proof (cases "?v > lim")
    case True
    have "num_val b ?v ds > lim" using num_val_mono [of b ?v ds] p True assms(5) by simp
    then show ?thesis using st True strtol_digits_over [OF _ _ assms(3,4,6), of m "q + 1" ds] Cons.prems by (simp add: algebra_simps)
  next
    case False
    then show ?thesis unfolding st using Cons.IH [of "q + 1" ?v 1] Cons.prems p by (simp add: algebra_simps) 
  qed
qed

section \<open>Signs and bases\<close>

text \<open>The base \<open>b\<close> in which the digits are read, when the caller asks for \<open>base\<close> and the digits follow the prefix \<open>pre\<close>.\<close>

definition radix :: "int \<Rightarrow> uchar list \<Rightarrow> uchar list \<Rightarrow> int \<Rightarrow> bool" where
  "radix base pre ds b \<longleftrightarrow> pre = [] \<and> base = b \<and> 2 \<le> b \<and> b \<le> 36 \<or> pre = [] \<and> base = 0 \<and> b = (if hd ds = 48 then 8 else 10) \<or>
     (pre = [48, 120] \<or> pre = [48, 88]) \<and> (base = 0 \<or> base = 16) \<and> b = 16 \<or> (pre = [48, 98] \<or> pre = [48, 66]) \<and> (base = 0 \<or> base = 2) \<and> b = 2"

lemma radix_range: "radix base pre ds b \<Longrightarrow> 2 \<le> b \<and> b \<le> 36"
  by (auto simp: radix_def split: if_splits)

text \<open>A numeral: blanks, a sign, a prefix, digits of the base, and what follows them.\<close>

definition numeral_at :: "bytes \<Rightarrow> uint32 \<Rightarrow> int \<Rightarrow> uchar list \<Rightarrow> uchar list \<Rightarrow> uchar list \<Rightarrow> uchar list \<Rightarrow> int \<Rightarrow> uchar list \<Rightarrow> bool" where
  "numeral_at m p base bl sg pre ds b rest \<longleftrightarrow> cstr m p (bl @ sg @ pre @ ds @ rest) \<and> (\<forall>c\<in>set bl. blank (uint c)) \<and> sg \<in> {[], [43], [45]} \<and>
     radix base pre ds b \<and> ds \<noteq> [] \<and> (\<forall>c\<in>set ds. c < 128 \<and> digit_val (uint c) < b) \<and>
     hd (rest @ [0]) < 128 \<and> b \<le> digit_val (uint (hd (rest @ [0]))) \<and> hd (rest @ [0]) \<notin> {98, 66, 120, 88}"

lemma digit_not_blank: "digit_val c < 36 \<Longrightarrow> \<not> blank c \<and> c \<noteq> 43 \<and> c \<noteq> 45"
  by (auto simp: digit_val_def blank_def split: if_splits)

lemma strtol_sign_cstr:
  assumes "cstr m q (sg @ xs)" "sg \<in> {[], [43], [45]}" "xs \<noteq> []" "hd xs \<noteq> 43" "hd xs \<noteq> 45"
  shows "strtol_sign m (uint (hd (sg @ xs))) (q + 1) = (sg = [45], uint (m (q + of_nat (length sg))), q + of_nat (length sg) + 1)
    \<and> cstr m (q + of_nat (length sg)) xs"
proof (cases "sg = []")
  case True
  have "uint (hd xs) \<noteq> 43" "uint (hd xs) \<noteq> 45" using assms(4,5) by (simp_all add: word_uint_eq_iff)
  then show ?thesis using assms True by (cases xs) (simp_all add: strtol_sign_def)
next
  case False
  then show ?thesis using assms by (auto simp: strtol_sign_def)
qed

lemma strtol_prefix_cstr:
  assumes "cstr m q (pre @ ds @ rest)" "radix base pre ds b" "ds \<noteq> []" "\<forall>c\<in>set ds. digit_val (uint c) < b" "hd (rest @ [0]) \<notin> {98, 66, 120, 88}"
  shows "strtol_prefix m base (uint (m q)) (q + 1) = (b, uint (m (q + of_nat (length pre))), q + of_nat (length pre) + 1)
    \<and> cstr m (q + of_nat (length pre)) (ds @ rest)"
proof (cases "pre = []")
  case True
  obtain d ds' where ds: "ds = d # ds'" using assms(3) by (cases ds) auto
  have q: "m q = d" "m (q + 1) = hd (ds' @ rest @ [0])" using assms(1) True ds by (cases ds'; cases rest; simp)+
  have x: "m (q + 1) \<notin> {120, 88}" if "b \<le> 33"
    using q(2) assms(4,5) that ds by (cases ds') (auto simp: digit_val_def)
  have y: "m (q + 1) \<notin> {98, 66}" if "b \<le> 11"
    using q(2) assms(4,5) that ds by (cases ds') (auto simp: digit_val_def)
  have z: "uint (m q) = 48 \<longleftrightarrow> m q = 48" by (simp add: word_uint_eq_iff)
  consider "base = b" "2 \<le> b" | "base = 0" "b = (if m q = 48 then 8 else 10)" using assms(2) True ds q(1) by (auto simp: radix_def)
  then show ?thesis
  proof cases
    case 1
    then show ?thesis using assms(1) True x y ds by (auto simp: strtol_prefix_def)
  next
    case 2
    then show ?thesis using assms(1) True x y ds z by (auto simp: strtol_prefix_def)
  qed
next
  case False
  then have r: "(pre = [48, 120] \<or> pre = [48, 88]) \<and> (base = 0 \<or> base = 16) \<and> b = 16 \<or> (pre = [48, 98] \<or> pre = [48, 66]) \<and> (base = 0 \<or> base = 2) \<and> b = 2"
    using assms(2) by (simp add: radix_def)
  then obtain x where x: "pre = [48, x]" by blast
  have m: "m q = 48" "m (q + 1) = x" "cstr m (q + 2) (ds @ rest)" using assms(1) x by (simp_all add: add.commute [of 2 q])
  have e: "q + of_nat (length pre) = q + 2" "q + 1 + 1 = q + 2" "q + 1 + 2 = q + 2 + 1" using x by simp_all
  show ?thesis unfolding strtol_prefix_def e using r m x by (elim disjE conjE) (simp_all add: e)
qed

text \<open>Where the scan of the digits starts.\<close>

lemma strtol_head:
  assumes N: "numeral_at m p base bl sg pre ds b rest"
  obtains c s c' s' q where "strtol_blanks m p = Some (c, s)" "strtol_sign m c s = (sg = [45], c', s')" "strtol_prefix m base c' s' = (b, uint (m q), q + 1)"
    "cstr m q (ds @ rest)" "q + of_nat (length ds) = p + of_nat (length (bl @ sg @ pre @ ds))"
proof -
  have s: "cstr m p (bl @ sg @ pre @ ds @ rest)" "\<forall>c\<in>set bl. blank (uint c)" "sg \<in> {[], [43], [45]}" "radix base pre ds b" "ds \<noteq> []"
      "\<forall>c\<in>set ds. c < 128 \<and> digit_val (uint c) < b" "hd (rest @ [0]) \<notin> {98, 66, 120, 88}"
    using N unfolding numeral_at_def by blast+
  have d: "hd ds \<in> set ds" "digit_val (uint (hd ds)) < 36" using s(5,6) radix_range [OF s(4)] by (auto simp: neq_Nil_conv)
  have h: "hd (pre @ ds @ rest) < 128 \<and> digit_val (uint (hd (pre @ ds @ rest))) < 36"
    using s(4-6) d by (cases "pre = []") (auto simp: radix_def digit_val_def)
  then have hn: "\<not> blank (uint (hd (pre @ ds @ rest)))" "hd (pre @ ds @ rest) \<noteq> 43" "hd (pre @ ds @ rest) \<noteq> 45" using digit_not_blank by fastforce+
  have e: "hd ((sg @ pre @ ds @ rest) @ [0]) = hd (sg @ pre @ ds @ rest)" using s(5) by (cases sg; cases pre; cases ds) simp_all
  have f: "hd (sg @ pre @ ds @ rest) < 128" "\<not> blank (uint (hd (sg @ pre @ ds @ rest)))" using s(3) h hn(1) by (auto simp: blank_def)
  let ?q = "p + of_nat (length bl)" and ?r = "p + of_nat (length bl) + of_nat (length sg)"
  have B: "strtol_blanks m p = Some (uint (hd (sg @ pre @ ds @ rest)), ?q + 1)" "cstr m ?q (sg @ pre @ ds @ rest)"
    using strtol_blanks_cstr [OF s(1,2)] f unfolding e by simp_all
  have S: "strtol_sign m (uint (hd (sg @ pre @ ds @ rest))) (?q + 1) = (sg = [45], uint (m ?r), ?r + 1)" "cstr m ?r (pre @ ds @ rest)"
    using strtol_sign_cstr [OF B(2) s(3) _ hn(2,3)] s(5) by simp_all
  have P: "strtol_prefix m base (uint (m ?r)) (?r + 1) = (b, uint (m (?r + of_nat (length pre))), ?r + of_nat (length pre) + 1)"
      "cstr m (?r + of_nat (length pre)) (ds @ rest)"
    using strtol_prefix_cstr [OF S(2) s(4,5) _ s(7)] s(6) by simp_all
  show ?thesis by (rule that [OF B(1) S(1) P]) (simp add: algebra_simps)
qed

lemma strtol_scan:
  assumes N: "numeral_at m p base bl sg pre ds b rest" and "0 \<le> lim" "lim < 2 ^ 32" and q: "cstr m q (ds @ rest)"
  shows "\<exists>acc any. strtol_digits m b (word_of_int lim div word_of_int b) (sint (word_of_int lim mod word_of_int b :: uint32)) (q + 1) (uint (m q)) 0 0 =
      Some (acc, any, q + of_nat (length ds) + 1) \<and>
    any \<noteq> 0 \<and> (any < 0 \<longleftrightarrow> lim < num_val b 0 ds) \<and> (num_val b 0 ds \<le> lim \<longrightarrow> acc = word_of_int (num_val b 0 ds))"
proof -
  have s: "radix base pre ds b" "ds \<noteq> []" "\<forall>c\<in>set ds. c < 128 \<and> digit_val (uint c) < b" "hd (rest @ [0]) < 128" "b \<le> digit_val (uint (hd (rest @ [0])))"
    using N unfolding numeral_at_def by blast+
  have b: "2 \<le> b" "b \<le> 36" using radix_range [OF s(1)] by simp_all
  have "uint (word_of_int lim mod word_of_int b :: uint32) = lim mod b" using assms(2,3) b by (simp add: uint_mod uint_word_of_int)
  moreover have "lim mod b < 2 ^ 31" using b by (intro order.strict_trans [OF pos_mod_bound]) simp_all
  ultimately have "sint (word_of_int lim mod word_of_int b :: uint32) = lim mod b" by (subst sint_below) simp_all
  then obtain acc any where D: "strtol_digits m b (word_of_int lim div word_of_int b) (sint (word_of_int lim mod word_of_int b :: uint32)) (q + 1) (uint (m q)) 0 0 =
      Some (acc, any, q + of_nat (length ds) + 1)" and R: "num_val b 0 ds \<le> lim \<Longrightarrow> acc = word_of_int (num_val b 0 ds) \<and> any = 1" "lim < num_val b 0 ds \<Longrightarrow> any = - 1"
    using strtol_digits_cstr [OF q s(3-5) b _ _ assms(3), of 0 0] assms(2) s(2) by auto
  show ?thesis
  proof (cases "num_val b 0 ds \<le> lim")
    case True
    then show ?thesis using D R(1) by simp
  next
    case False
    then show ?thesis using D R(2) by simp
  qed
qed

lemma sint_word_of_int: "- (2 ^ 31) \<le> k \<Longrightarrow> k < 2 ^ 31 \<Longrightarrow> sint (word_of_int k :: uint32) = k"
  by (simp add: signed_of_int signed_take_bit_int_eq_self)

text \<open>Both functions, with the pointer they store.\<close>

definition end_stored :: "uint32 \<Rightarrow> uint32 \<Rightarrow> bytes \<Rightarrow> bytes" where
  "end_stored endptr e m = (if endptr \<noteq> 0 then stint m endptr (sint e) else m)"

lemma strtol_numeral:
  assumes N: "numeral_at m p base bl sg pre ds b rest"
  shows "strtol m p endptr base = Some (max (- (2 ^ 31)) (min (2 ^ 31 - 1) (if sg = [45] then - num_val b 0 ds else num_val b 0 ds)),
    end_stored endptr (p + of_nat (length (bl @ sg @ pre @ ds))) m)"
proof -
  define V lim where "V = num_val b 0 ds" and "lim = (if sg = [45] then 2 ^ 31 else 2 ^ 31 - 1 :: int)"
  obtain c s c' s' q where H: "strtol_blanks m p = Some (c, s)" "strtol_sign m c s = (sg = [45], c', s')" "strtol_prefix m base c' s' = (b, uint (m q), q + 1)"
    and q: "cstr m q (ds @ rest)" and e: "q + of_nat (length ds) = p + of_nat (length (bl @ sg @ pre @ ds))" by (rule strtol_head [OF N])
  have V: "0 \<le> V" using num_val_mono [of b 0 ds] N radix_range by (fastforce simp: numeral_at_def V_def)
  have lim: "0 \<le> lim" "lim < 2 ^ 32" "(if sg = [45] then - LONG_MIN else LONG_MAX) = word_of_int lim" by (simp_all add: lim_def LONG_MIN_def LONG_MAX_def)
  obtain acc any where A: "strtol_digits m b (word_of_int lim div word_of_int b) (sint (word_of_int lim mod word_of_int b :: uint32)) (q + 1) (uint (m q)) 0 0 =
      Some (acc, any, q + of_nat (length ds) + 1)" "any \<noteq> 0" "any < 0 \<longleftrightarrow> lim < V" "V \<le> lim \<longrightarrow> acc = word_of_int V"
    using strtol_scan [OF N lim(1,2) q] unfolding V_def by blast
  have "strtol m p endptr base = Some (sint (if any < 0 then (if sg = [45] then LONG_MIN else LONG_MAX) else if sg = [45] then - acc else acc),
      end_stored endptr (q + of_nat (length ds)) m)"
    unfolding strtol_def H bind.bind_lunit Let_def prod.case lim(3) A(1) using A(2) by (simp add: end_stored_def)
  moreover have "sint (if any < 0 then (if sg = [45] then LONG_MIN else LONG_MAX) else if sg = [45] then - acc else acc) =
      max (- (2 ^ 31)) (min (2 ^ 31 - 1) (if sg = [45] then - V else V))"
  proof (cases "lim < V")
    case True
    then show ?thesis using A(3) by (auto simp: LONG_MIN_def LONG_MAX_def lim_def)
  next
    case False
    then have "acc = word_of_int V" "\<not> any < 0" "V \<le> lim" using A(3,4) by simp_all
    then show ?thesis using V sint_word_of_int [of V] sint_word_of_int [of "- V"] by (auto simp: lim_def split: if_splits)
  qed
  ultimately show ?thesis unfolding e V_def by simp
qed

lemma strtoul_numeral:
  assumes N: "numeral_at m p base bl sg pre ds b rest"
  shows "strtoul m p endptr base = Some (if 2 ^ 32 \<le> num_val b 0 ds then ULONG_MAX
      else if sg = [45] then - word_of_int (num_val b 0 ds) else word_of_int (num_val b 0 ds),
    end_stored endptr (p + of_nat (length (bl @ sg @ pre @ ds))) m)"
proof -
  define V lim where "V = num_val b 0 ds" and "lim = (2 ^ 32 - 1 :: int)"
  obtain c s c' s' q where H: "strtol_blanks m p = Some (c, s)" "strtol_sign m c s = (sg = [45], c', s')" "strtol_prefix m base c' s' = (b, uint (m q), q + 1)"
    and q: "cstr m q (ds @ rest)" and e: "q + of_nat (length ds) = p + of_nat (length (bl @ sg @ pre @ ds))" by (rule strtol_head [OF N])
  have lim: "0 \<le> lim" "lim < 2 ^ 32" "ULONG_MAX = word_of_int lim" by (simp_all add: lim_def ULONG_MAX_def LONG_MAX_def)
  obtain acc any where A: "strtol_digits m b (word_of_int lim div word_of_int b) (sint (word_of_int lim mod word_of_int b :: uint32)) (q + 1) (uint (m q)) 0 0 =
      Some (acc, any, q + of_nat (length ds) + 1)" "any \<noteq> 0" "any < 0 \<longleftrightarrow> lim < V" "V \<le> lim \<longrightarrow> acc = word_of_int V"
    using strtol_scan [OF N lim(1,2) q] unfolding V_def by blast
  have "strtoul m p endptr base = Some (if any < 0 then word_of_int lim else if sg = [45] then - acc else acc, end_stored endptr (q + of_nat (length ds)) m)"
    unfolding strtoul_def H bind.bind_lunit Let_def prod.case lim(3) A(1) using A(2) by (simp add: end_stored_def)
  moreover have "any < 0 \<longleftrightarrow> 2 ^ 32 \<le> V" using A(3) zless_imp_add1_zle [of lim V] by (auto simp: lim_def)
  ultimately show ?thesis using A(3,4) unfolding e V_def lim(3) by auto
qed

section \<open>Properties\<close>

text \<open>
  C38. On blanks, an optional sign, the prefix of the base, and digits of that base (up to 36, either case) that end before another
  character, \<^verbatim>\<open>strtol\<close> returns the number, or the nearest representable one when it is out of range, and \<^verbatim>\<open>strtoul\<close> returns it
  modulo \<open>2 ^ 32\<close> with its sign, or the largest one when it is out of range; both leave the end of the digits in \<^verbatim>\<open>endptr\<close>.
\<close>

theorem strtol_value:
  assumes "numeral_at m p base bl sg pre ds b rest"
  shows "\<exists>m'. strtol m p endptr base = Some (max (- (2 ^ 31)) (min (2 ^ 31 - 1) (if sg = [45] then - num_val b 0 ds else num_val b 0 ds)), m') \<and>
    strtoul m p endptr base = Some (if 2 ^ 32 \<le> num_val b 0 ds then ULONG_MAX
      else if sg = [45] then - word_of_int (num_val b 0 ds) else word_of_int (num_val b 0 ds), m') \<and>
    (if endptr = 0 then m' = m else word_of_int (ldint m' endptr) = p + of_nat (length (bl @ sg @ pre @ ds)))"
proof -
  let ?e = "p + of_nat (length (bl @ sg @ pre @ ds))"
  have "int32 (sint ?e)" using sint_range_size [of ?e] by (simp add: int32_def word_size)
  then have "if endptr = 0 then end_stored endptr ?e m = m else word_of_int (ldint (end_stored endptr ?e m) endptr) = ?e"
    by (simp add: end_stored_def ldint_stint)
  then show ?thesis using strtol_numeral [OF assms, of endptr] strtoul_numeral [OF assms, of endptr] by blast
qed

theorem strtol_value_witness:
  "\<exists>m'. strtol (put (\<lambda>_. 0) 0x1000 [32, 45, 48, 120, 49, 102, 59, 0]) 0x1000 0x2000 0 = Some (- 31, m') \<and> word_of_int (ldint m' 0x2000) = (0x1006 :: uint32)"
proof -
  have "numeral_at (put (\<lambda>_. 0) 0x1000 [32, 45, 48, 120, 49, 102, 59, 0]) 0x1000 0 [32] [45] [48, 120] [49, 102] 16 [59]"
    by (simp add: numeral_at_def radix_def blank_def digit_val_def)
  from strtol_value [OF this, of "0x2000"] show ?thesis by (auto simp: digit_val_def)
qed

end
