(* ===== verification/Dates.thy ===== *)
theory Dates
  imports Xinu_Prelude
begin

text \<open>
  The calendar of \<^verbatim>\<open>system/ascdate.c\<close> and \<^verbatim>\<open>include/date.h\<close>: seconds since the start of 1970 to a date, a day of the week and a time
  of day, with daylight saving time. The last step of the code prints with \<^verbatim>\<open>sprintf\<close>; the model returns the arguments of
  that call. The reference is the Gregorian calendar.
\<close>

section \<open>The code\<close>

definition SECPERDY :: uint32 where "SECPERDY = 86400"
definition SECPERHR :: uint32 where "SECPERHR = 3600"
definition SECPERMN :: uint32 where "SECPERMN = 60"
definition DATE_DST_OFF :: int where "DATE_DST_OFF = 0"
definition DATE_DST_ON :: int where "DATE_DST_ON = 1"
definition DATE_DST_AUTO :: int where "DATE_DST_AUTO = 2"

lemmas date_defs = SECPERDY_def SECPERHR_def SECPERMN_def DATE_DST_OFF_def DATE_DST_ON_def DATE_DST_AUTO_def

definition isleap :: "int \<Rightarrow> bool" where "isleap x \<longleftrightarrow> x smod 4 = 0"

record dateinfo =
  dt_boot :: uint32
  dt_bootvalid :: bool
  dt_daylight :: int
  dt_msize :: "int list"
  dt_mnam :: "string list"
  dt_dnam :: "string list"

definition Date :: dateinfo where
  "Date = \<lparr>dt_boot = 0, dt_bootvalid = False, dt_daylight = DATE_DST_AUTO,
     dt_msize = [31, 28, 31, 30, 31, 30, 31, 31, 30, 31, 30, 31],
     dt_mnam = [''Jan'', ''Feb'', ''Mar'', ''Apr'', ''May'', ''Jun'', ''Jul'', ''Aug'', ''Sep'', ''Oct'', ''Nov'', ''Dec''],
     dt_dnam = [''Sun'', ''Mon'', ''Tue'', ''Wed'', ''Thu'', ''Fri'', ''Sat'']\<rparr>"

text \<open>The arguments of the final \<^verbatim>\<open>sprintf\<close>.\<close>

record dateargs =
  da_dnam :: string
  da_mnam :: string
  da_day :: int
  da_hour :: int
  da_minute :: int
  da_second :: int
  da_zone :: string
  da_year :: int

text \<open>The year: whole years are taken off while there are any. The seconds left decrease.\<close>

definition year_secs :: "int \<Rightarrow> uint32" where
  "year_secs year = (if isleap year then 366 else 365) * SECPERDY"

lemma year_secs_cases: "year_secs year = (if isleap year then 31622400 else 31536000)"
  by (simp add: year_secs_def date_defs)

function date_year :: "int \<Rightarrow> uint32 \<Rightarrow> int \<times> uint32" where
  "date_year year now = (if year_secs year > now then (year, now) else date_year (year + 1) (now - year_secs year))"
  by pat_completeness auto
termination
proof (relation "measure (\<lambda>(year, now). unat now)")
  fix year and now :: uint32
  assume "\<not> now < year_secs year"
  then have "year_secs year \<le> now" by simp
  moreover have "0 < unat (year_secs year)" by (simp add: year_secs_cases)
  ultimately show "((year + 1, now - year_secs year), year, now) \<in> measure (\<lambda>(year, now). unat now)"
    by (simp add: unat_sub_le wle)
qed simp

declare date_year.simps [simp del]

text \<open>The month, 12 when the seconds exceed the year.\<close>

definition month_secs :: "dateinfo \<Rightarrow> int \<Rightarrow> int \<Rightarrow> uint32" where
  "month_secs d year month =
    (let tmp = word_of_int (dt_msize d ! nat month) * SECPERDY in if month = 1 \<and> isleap year then tmp + SECPERDY else tmp)"

function date_month :: "dateinfo \<Rightarrow> int \<Rightarrow> int \<Rightarrow> uint32 \<Rightarrow> int \<times> uint32" where
  "date_month d year month now =
    (if month < 12 then
       if month_secs d year month > now then (month, now)
       else date_month d year (month + 1) (now - month_secs d year month)
     else (month, now))"
  by pat_completeness auto
termination by (relation "measure (\<lambda>(d, year, month, now). nat (12 - month))") auto

declare date_month.simps [simp del]

text \<open>Daylight saving time; \<open>jan1\<close> is the day of the week of January 1.\<close>

definition date_marss :: "dateinfo \<Rightarrow> int \<Rightarrow> int \<Rightarrow> int" where
  "date_marss d year jan1 =
    (let mar1 = (jan1 + dt_msize d ! 0 + dt_msize d ! 1 + of_bool (isleap year)) smod 7 in if mar1 = 0 then 8 else 15 - mar1)"

definition date_novfs :: "dateinfo \<Rightarrow> int \<Rightarrow> int \<Rightarrow> int" where
  "date_novfs d year jan1 =
    (let nov1 = foldl (\<lambda>n i. n + dt_msize d ! i) jan1 [0..<10];
         nov1 = (if isleap year then nov1 + 1 else nov1);
         nov1 = nov1 smod 7
     in if nov1 = 0 then 1 else 8 - nov1)"

definition date_dst :: "dateinfo \<Rightarrow> int \<Rightarrow> int \<Rightarrow> int \<Rightarrow> int \<Rightarrow> int \<Rightarrow> bool" where
  "date_dst d year jan1 month day hour =
    (if dt_daylight d = DATE_DST_ON then True
     else if dt_daylight d = DATE_DST_AUTO then
       let marss = date_marss d year jan1;
           novfs = date_novfs d year jan1
       in if month = 11 \<or> month = 0 \<or> month = 1 then False
          else if month > 2 \<and> month < 10 then True
          else if month = 2 then (if day > marss then True else if day = marss \<and> hour \<ge> 2 then True else False)
          else if month = 10 then (if day > novfs then False else if day = novfs \<and> hour \<ge> 1 then False else True)
          else False
     else False)"

definition date_ahead :: "dateinfo \<Rightarrow> int \<Rightarrow> int \<Rightarrow> int \<Rightarrow> int \<times> int \<times> int" where
  "date_ahead d month day hour =
    (let hour = hour + 1 in
     if hour > 23 then
       let hour = 0; day = day + 1 in
       if day > dt_msize d ! nat month then (month + 1, 1, hour) else (month, day, hour)
     else (month, day, hour))"

text \<open>The value \<^term>\<open>None\<close> stands for reading the arrays of months past their end.\<close>

definition ascdate :: "dateinfo \<Rightarrow> uint32 \<Rightarrow> (int \<times> dateargs) option" where
  "ascdate d now =
    (let (year, now) = date_year 1970 now;
         days = now div SECPERDY;
         (month, now) = date_month d year 0 now;
         day = sint (now div SECPERDY) + 1;
         now = now mod SECPERDY;
         hour = sint (now div SECPERHR);
         now = now mod SECPERHR;
         minute = sint (now div SECPERMN);
         now = now mod SECPERMN;
         second = sint now;
         leapyrs = word_of_int ((year - 1969) sdiv 4) :: uint32;
         shift = 4 + word_of_int (year - 1970) + leapyrs;
         jan1 = sint (shift mod 7);
         shift = shift + days;
         dayofweek = shift mod 7;
         dst = date_dst d year jan1 month day hour
     in if month \<ge> 12 then None
        else let (month, day, hour) = (if dst then date_ahead d month day hour else (month, day, hour))
          in if month \<ge> 12 then None
             else Some (OK, \<lparr>da_dnam = dt_dnam d ! unat dayofweek, da_mnam = dt_mnam d ! nat month, da_day = day, da_hour = hour,
               da_minute = minute, da_second = second, da_zone = (if dst then ''EDT'' else ''EST''), da_year = year\<rparr>))"

section \<open>The Gregorian calendar\<close>

definition greg_leap :: "int \<Rightarrow> bool" where
  "greg_leap y \<longleftrightarrow> y mod 4 = 0 \<and> (y mod 100 \<noteq> 0 \<or> y mod 400 = 0)"

definition greg_month :: "int \<Rightarrow> int \<Rightarrow> int" where
  "greg_month y m = (if m = 1 then (if greg_leap y then 29 else 28) else if m \<in> {3, 5, 8, 10} then 30 else 31)"

definition greg_year :: "int \<Rightarrow> int" where
  "greg_year y = (if greg_leap y then 366 else 365)"

text \<open>The number of a day, counted from January 1, 1970, and the day of the week, from Sunday.\<close>

definition day_number :: "int \<Rightarrow> int \<Rightarrow> int \<Rightarrow> int" where
  "day_number y m d = (\<Sum>k\<in>{1970..<y}. greg_year k) + (\<Sum>k\<in>{0..<m}. greg_month y k) + (d - 1)"

definition weekday :: "int \<Rightarrow> int" where
  "weekday n = (n + 4) mod 7"

definition date_secs :: "int \<Rightarrow> int \<Rightarrow> int \<Rightarrow> int \<Rightarrow> int \<Rightarrow> int \<Rightarrow> int" where
  "date_secs y m d h mi s = 86400 * day_number y m d + 3600 * h + 60 * mi + s"

definition valid_date :: "int \<Rightarrow> int \<Rightarrow> int \<Rightarrow> int \<Rightarrow> int \<Rightarrow> int \<Rightarrow> bool" where
  "valid_date y m d h mi s \<longleftrightarrow> 1970 \<le> y \<and> 0 \<le> m \<and> m < 12 \<and> 1 \<le> d \<and> d \<le> greg_month y m \<and>
     0 \<le> h \<and> h < 24 \<and> 0 \<le> mi \<and> mi < 60 \<and> 0 \<le> s \<and> s < 60"

lemma isleap_greg:
  assumes "1970 \<le> y" "y < 2100"
  shows "isleap y = greg_leap y"
proof -
  have "y = 2000" if "y mod 100 = 0"
  proof -
    have "y = 100 * (y div 100)" using that div_mult_mod_eq [of y 100] by simp
    then obtain q where "y = 100 * q" by blast
    then show ?thesis using assms by presburger
  qed
  then show ?thesis using assms(1) by (auto simp: isleap_def greg_leap_def smod_nonneg)
qed

section \<open>The loops\<close>

lemma date_sub: "b \<le> a \<Longrightarrow> uint (a - b :: uint32) = uint a - uint b"
  by (simp add: uint_sub_if_size word_le_def)

definition code_year :: "int \<Rightarrow> int" where
  "code_year y = (if isleap y then 366 else 365)"

lemma year_secs_uint: "uint (year_secs y) = 86400 * code_year y"
  by (simp add: year_secs_cases code_year_def)

lemma date_year_spec:
  "date_year y now = (y', n) \<Longrightarrow> y \<le> y' \<and> uint n < 86400 * code_year y' \<and> uint now = uint n + 86400 * (\<Sum>k\<in>{y..<y'}. code_year k)"
proof (induction y now rule: date_year.induct)
  case (1 y now)
  show ?case
  proof (cases "year_secs y > now")
    case True
    then show ?thesis using "1.prems" by (simp add: date_year.simps [of y now] word_less_def year_secs_uint)
  next
    case False
    have "date_year y now = date_year (y + 1) (now - year_secs y)" using False by (subst date_year.simps) (rule if_not_P)
    then have e: "date_year (y + 1) (now - year_secs y) = (y', n)" using "1.prems" by (rule subst)
    have I: "y + 1 \<le> y'" "uint n < 86400 * code_year y'" "uint (now - year_secs y) = uint n + 86400 * (\<Sum>k\<in>{y + 1..<y'}. code_year k)"
      using "1.IH" [OF False e] by simp_all
    have "{y..<y'} = insert y {y + 1..<y'}" using I(1) by auto
    moreover have "uint (now - year_secs y) = uint now - 86400 * code_year y" using False by (simp add: date_sub year_secs_uint)
    ultimately show ?thesis using I by simp
  qed
qed

definition code_month :: "int \<Rightarrow> int \<Rightarrow> int" where
  "code_month y m = dt_msize Date ! nat m + of_bool (m = 1 \<and> isleap y)"

lemma months:
  assumes "0 \<le> m" "m < 12"
  shows "m \<in> {0, 1, 2, 3, 4, 5, 6, 7, 8, 9, 10, 11 :: int}"
proof -
  have "m \<in> set [0..11]" using assms by simp
  moreover have "[0..11] = [0, 1, 2, 3, 4, 5, 6, 7, 8, 9, 10, 11 :: int]" by code_simp
  ultimately show ?thesis by (simp only: set_simps)
qed

lemma month_secs_uint:
  assumes "0 \<le> m" "m < 12"
  assumes "dt_msize d = dt_msize Date"
  shows "uint (month_secs d y m) = 86400 * code_month y m"
  using months [OF assms(1,2)] assms(3) by (auto simp: month_secs_def Date_def SECPERDY_def code_month_def)

lemma date_month_spec:
  assumes "dt_msize d = dt_msize Date" "0 \<le> m" "m \<le> 12" "date_month d y m now = (m', n)"
  shows "m \<le> m' \<and> m' \<le> 12 \<and> (m' < 12 \<longrightarrow> uint n < 86400 * code_month y m') \<and> uint now = uint n + 86400 * (\<Sum>k\<in>{m..<m'}. code_month y k)"
  using assms
proof (induction d y m now rule: date_month.induct)
  case (1 d y m now)
  show ?case
  proof (cases "m < 12 \<and> \<not> now < month_secs d y m")
    case False
    then show ?thesis using "1.prems" month_secs_uint [of m d y] by (auto simp: date_month.simps [of d y m now] word_less_def split: if_splits)
  next
    case True
    then have e: "date_month d y (m + 1) (now - month_secs d y m) = (m', n)" using "1.prems" by (simp add: date_month.simps [of d y m now])
    have I: "m + 1 \<le> m' \<and> m' \<le> 12 \<and> (m' < 12 \<longrightarrow> uint n < 86400 * code_month y m') \<and>
        uint (now - month_secs d y m) = uint n + 86400 * (\<Sum>k\<in>{m + 1..<m'}. code_month y k)"
      by (rule "1.IH") (use True "1.prems" e in auto)
    then have "{m..<m'} = insert m {m + 1..<m'}" by auto
    moreover have "uint (now - month_secs d y m) = uint now - 86400 * code_month y m"
      using True "1.prems" month_secs_uint [of m d y] by (simp add: date_sub not_less)
    ultimately show ?thesis using I by simp
  qed
qed

section \<open>Years, months and days of the week\<close>

lemma code_year_greg: "1970 \<le> y \<Longrightarrow> y < 2100 \<Longrightarrow> code_year y = greg_year y"
  by (simp add: code_year_def greg_year_def isleap_greg)

lemma code_month_greg:
  assumes "1970 \<le> y" "y < 2100" "0 \<le> m" "m < 12"
  shows "code_month y m = greg_month y m"
  using months [OF assms(3,4)] isleap_greg [OF assms(1,2)] by (auto simp: code_month_def greg_month_def Date_def)

lemma sum_upto_step: "a \<le> b \<Longrightarrow> (\<Sum>k\<in>{a..<b + 1}. f k) = (\<Sum>k\<in>{a..<b}. f k) + (f b :: int)" for a b :: int
proof -
  assume "a \<le> b"
  then have "{a..<b + 1} = insert b {a..<b}" by auto
  then show ?thesis by simp
qed

lemma code_years: "1970 \<le> y \<Longrightarrow> (\<Sum>k\<in>{1970..<y}. code_year k) = 365 * (y - 1970) + (y - 1969) div 4"
proof (induction y rule: int_ge_induct)
  case (step y)
  have "isleap y \<longleftrightarrow> y mod 4 = 0" using step.hyps by (simp add: isleap_def smod_nonneg)
  moreover have "(y mod 4 = 0 \<longrightarrow> (y - 1968) div 4 = (y - 1969) div 4 + 1) \<and> (y mod 4 \<noteq> 0 \<longrightarrow> (y - 1968) div 4 = (y - 1969) div 4)" by presburger
  ultimately have "code_year y = 365 + ((y - 1968) div 4 - (y - 1969) div 4)" by (simp add: code_year_def)
  then show ?case using sum_upto_step [OF step.hyps, of code_year] step.IH by simp
qed simp

lemma greg_years:
  assumes "1970 \<le> y" "y \<le> 2100"
  shows "(\<Sum>k\<in>{1970..<y}. greg_year k) = 365 * (y - 1970) + (y - 1969) div 4"
proof -
  have "(\<Sum>k\<in>{1970..<y}. greg_year k) = (\<Sum>k\<in>{1970..<y}. code_year k)" using assms(2) by (intro sum.cong) (simp_all add: code_year_greg)
  then show ?thesis using code_years [OF assms(1)] by simp
qed

lemma month_sums:
  fixes f :: "int \<Rightarrow> int"
  shows "(\<Sum>k\<in>{0..<1}. f k) = f 0" "(\<Sum>k\<in>{0..<2}. f k) = f 0 + f 1" "(\<Sum>k\<in>{0..<3}. f k) = f 0 + f 1 + f 2"
    "(\<Sum>k\<in>{0..<4}. f k) = f 0 + f 1 + f 2 + f 3" "(\<Sum>k\<in>{0..<5}. f k) = f 0 + f 1 + f 2 + f 3 + f 4"
    "(\<Sum>k\<in>{0..<6}. f k) = f 0 + f 1 + f 2 + f 3 + f 4 + f 5" "(\<Sum>k\<in>{0..<7}. f k) = f 0 + f 1 + f 2 + f 3 + f 4 + f 5 + f 6"
    "(\<Sum>k\<in>{0..<8}. f k) = f 0 + f 1 + f 2 + f 3 + f 4 + f 5 + f 6 + f 7"
    "(\<Sum>k\<in>{0..<9}. f k) = f 0 + f 1 + f 2 + f 3 + f 4 + f 5 + f 6 + f 7 + f 8"
    "(\<Sum>k\<in>{0..<10}. f k) = f 0 + f 1 + f 2 + f 3 + f 4 + f 5 + f 6 + f 7 + f 8 + f 9"
    "(\<Sum>k\<in>{0..<11}. f k) = f 0 + f 1 + f 2 + f 3 + f 4 + f 5 + f 6 + f 7 + f 8 + f 9 + f 10"
    "(\<Sum>k\<in>{0..<12}. f k) = f 0 + f 1 + f 2 + f 3 + f 4 + f 5 + f 6 + f 7 + f 8 + f 9 + f 10 + f 11"
  using sum_upto_step [of 0 0 f] sum_upto_step [of 0 1 f] sum_upto_step [of 0 2 f] sum_upto_step [of 0 3 f] sum_upto_step [of 0 4 f]
    sum_upto_step [of 0 5 f] sum_upto_step [of 0 6 f] sum_upto_step [of 0 7 f] sum_upto_step [of 0 8 f] sum_upto_step [of 0 9 f]
    sum_upto_step [of 0 10 f] sum_upto_step [of 0 11 f] by simp_all

lemma code_year_months: "(\<Sum>k\<in>{0..<12}. code_month y k) = code_year y"
  by (simp add: month_sums code_month_def code_year_def Date_def)

lemma sint_div: "2 \<le> uint k \<Longrightarrow> sint (w div k :: uint32) = uint w div uint k"
proof -
  assume "2 \<le> uint k"
  then have "uint w div uint k \<le> uint w div 2" by (intro zdiv_mono2) simp_all
  moreover have "uint w < 4294967296" using uint_lt2p [of w] by simp
  ultimately have "uint w div uint k < 2 ^ 31" by simp
  then show ?thesis by (subst sint_below) (simp_all add: uint_div)
qed

lemma sint_mod: "0 < uint k \<Longrightarrow> uint k \<le> 2 ^ 31 \<Longrightarrow> sint (w mod k :: uint32) = uint w mod uint k"
  by (subst sint_below) (simp_all add: uint_mod order.strict_trans2 [OF pos_mod_bound])

text \<open>Once the fields of standard time are known, the rest of \<^verbatim>\<open>ascdate\<close> is the same for every setting.\<close>

definition standard :: "uint32 \<Rightarrow> int \<Rightarrow> int \<Rightarrow> int \<Rightarrow> int \<Rightarrow> int \<Rightarrow> int \<Rightarrow> bool" where
  "standard now y m dd h mi s \<longleftrightarrow> valid_date y m dd h mi s \<and> y < 2100 \<and> date_secs y m dd h mi s = uint now"

lemma standard_days: "standard now y m dd h mi s \<Longrightarrow> day_number y m dd = uint now div 86400"
  unfolding standard_def valid_date_def date_secs_def by (elim conjE) linarith

lemma date_loops:
  assumes now: "uint now < 4102444800" and d: "dt_msize d = dt_msize Date"
  obtains y n1 m n2 where "date_year 1970 now = (y, n1)" "date_month d y 0 n1 = (m, n2)" "1970 \<le> y" "y < 2100" "0 \<le> m" "m < 12"
    "uint n2 < 86400 * greg_month y m" "uint n1 div 86400 = (\<Sum>k\<in>{0..<m}. greg_month y k) + uint n2 div 86400"
    "uint n1 < 31622400" "uint now = uint n2 + 86400 * ((\<Sum>k\<in>{1970..<y}. greg_year k) + (\<Sum>k\<in>{0..<m}. greg_month y k))"
proof -
  obtain y n1 where Y: "date_year 1970 now = (y, n1)" by fastforce
  obtain m n2 where M: "date_month d y 0 n1 = (m, n2)" by fastforce
  have y: "1970 \<le> y" "uint n1 < 86400 * code_year y" "uint now = uint n1 + 86400 * (\<Sum>k\<in>{1970..<y}. code_year k)"
    using date_year_spec [OF Y] by simp_all
  have "365 * (y - 1970) + (y - 1969) div 4 < 47482" using y(3) now code_years [OF y(1)] uint_ge_0 [of n1] by linarith
  then have y2: "y < 2100" using zdiv_mono1 [of 131 "y - 1969" 4] by (cases "y < 2100") simp_all
  have m: "0 \<le> m" "m \<le> 12" "m < 12 \<Longrightarrow> uint n2 < 86400 * code_month y m" "uint n1 = uint n2 + 86400 * (\<Sum>k\<in>{0..<m}. code_month y k)"
    using date_month_spec [OF d _ _ M] by simp_all
  have "m \<noteq> 12" using m(4) y(2) code_year_months [of y] uint_ge_0 [of n2] by auto
  then have m2: "m < 12" using m(2) by simp
  have sy: "(\<Sum>k\<in>{1970..<y}. code_year k) = (\<Sum>k\<in>{1970..<y}. greg_year k)" using code_years [OF y(1)] greg_years [OF y(1)] y2 by simp
  have "code_year y \<le> 366" by (simp add: code_year_def)
  have sm: "(\<Sum>k\<in>{0..<m}. code_month y k) = (\<Sum>k\<in>{0..<m}. greg_month y k)" using y(1) y2 m2 by (intro sum.cong) (simp_all add: code_month_greg)
  show ?thesis
    by (rule that [OF Y M y(1) y2 m(1) m2])
      (use m(3) [OF m2] m(4) y(2,3) code_month_greg [OF y(1) y2 m(1) m2] \<open>code_year y \<le> 366\<close> in \<open>simp_all add: sy sm\<close>)
qed

text \<open>What the code prints, from the fields of standard time.\<close>

definition date_output :: "dateinfo \<Rightarrow> int \<Rightarrow> int \<Rightarrow> int \<Rightarrow> int \<Rightarrow> int \<Rightarrow> int \<Rightarrow> int \<Rightarrow> string \<Rightarrow> dateargs" where
  "date_output d n y m dd h mi s z = \<lparr>da_dnam = dt_dnam d ! nat (weekday n), da_mnam = dt_mnam d ! nat m, da_day = dd, da_hour = h,
     da_minute = mi, da_second = s, da_zone = z, da_year = y\<rparr>"

lemma day_split: "0 \<le> n \<Longrightarrow> n < 86400 * g \<Longrightarrow> 0 \<le> n div 86400 \<and> n div 86400 + 1 \<le> (g :: int)"
  by linarith

lemma year_mod7: "(4 + a + b + c) mod 7 = (365 * a + b + c + 4) mod (7 :: int)"
proof -
  have "365 * a + b + c + 4 = (4 + a + b + c) + 7 * (52 * a)" by simp
  then show ?thesis by (simp only: mod_mult_self2)
qed

lemma shift_word:
  assumes "1970 \<le> y" "y < 2100"
  shows "uint (4 + word_of_int (y - 1970) + word_of_int ((y - 1969) sdiv 4) :: uint32) = 4 + (y - 1970) + (y - 1969) div 4"
proof -
  have "(4 + word_of_int (y - 1970) + word_of_int ((y - 1969) sdiv 4) :: uint32) = word_of_int (4 + (y - 1970) + (y - 1969) div 4)"
    using assms(1) by (simp add: sdiv_nonneg)
  moreover have "0 \<le> 4 + (y - 1970) + (y - 1969) div 4 \<and> 4 + (y - 1970) + (y - 1969) div 4 < 2 ^ 32" using assms by simp
  ultimately show ?thesis by (simp only:) (subst uint_word_of_int, simp)
qed

lemma ascdate_standard:
  assumes now: "uint now < 4102444800" and d: "dt_msize d = dt_msize Date"
  obtains y m dd h mi s where "standard now y m dd h mi s"
    "ascdate d now =
      (let dst = date_dst d y (weekday (day_number y 0 1)) m dd h; (m', d', h') = (if dst then date_ahead d m dd h else (m, dd, h))
       in if m' \<ge> 12 then None
          else Some (OK, date_output d (day_number y m dd) y m' d' h' mi s (if dst then ''EDT'' else ''EST'')))"
proof -
  obtain y n1 m n2 where L: "date_year 1970 now = (y, n1)" "date_month d y 0 n1 = (m, n2)" and R: "1970 \<le> y" "y < 2100" "0 \<le> m" "m < 12"
    and n2: "uint n2 < 86400 * greg_month y m" and n1: "uint n1 div 86400 = (\<Sum>k\<in>{0..<m}. greg_month y k) + uint n2 div 86400" "uint n1 < 31622400"
    and e: "uint now = uint n2 + 86400 * ((\<Sum>k\<in>{1970..<y}. greg_year k) + (\<Sum>k\<in>{0..<m}. greg_month y k))"
    by (rule date_loops [OF now d])
  define dd r where "dd = uint n2 div 86400 + 1" and "r = uint n2 mod 86400"
  define h mi s where "h = r div 3600" and "mi = r mod 3600 div 60" and "s = r mod 3600 mod 60"
  have r: "uint n2 = 86400 * (dd - 1) + r" "0 \<le> r" "r < 86400" unfolding dd_def r_def by simp_all
  have t: "r = 3600 * h + 60 * mi + s" "0 \<le> h" "h < 24" "0 \<le> mi" "mi < 60" "0 \<le> s" "s < 60"
    using r(2,3) unfolding h_def mi_def s_def by simp_all
  have "1 \<le> dd \<and> dd \<le> greg_month y m" using day_split [OF uint_ge_0 n2] unfolding dd_def by simp
  then have st: "standard now y m dd h mi s" using R t r e by (simp add: standard_def valid_date_def date_secs_def day_number_def)
  have w: "sint (n2 div SECPERDY) + 1 = dd" "sint (n2 mod SECPERDY div SECPERHR) = h" "sint (n2 mod SECPERDY mod SECPERHR div SECPERMN) = mi"
      "sint (n2 mod SECPERDY mod SECPERHR mod SECPERMN) = s"
    by (simp_all add: sint_div sint_mod uint_mod date_defs dd_def h_def mi_def s_def r_def)
  define S :: uint32 where "S = 4 + word_of_int (y - 1970) + word_of_int ((y - 1969) sdiv 4)"
  have sh: "uint S = 4 + (y - 1970) + (y - 1969) div 4" unfolding S_def by (rule shift_word [OF R(1,2)])
  have Y: "(\<Sum>k\<in>{1970..<y}. greg_year k) = 365 * (y - 1970) + (y - 1969) div 4" using greg_years [OF R(1)] R(2) by simp
  have "sint (S mod 7) = (4 + (y - 1970) + (y - 1969) div 4 + 0) mod 7" by (simp add: sint_mod sh)
  then have j: "sint (S mod 7) = weekday (day_number y 0 1)" unfolding year_mod7 by (simp add: weekday_def day_number_def Y)
  have b: "0 \<le> uint n1 div 86400" "uint n1 div 86400 < 366" using day_split [OF uint_ge_0, of n1 366] n1(2) by simp_all
  have "uint (S + n1 div SECPERDY) = 4 + (y - 1970) + (y - 1969) div 4 + uint n1 div 86400"
    using R(1,2) b by (simp add: uint_plus_if_size sh uint_div SECPERDY_def word_size)
  then have "uint ((S + n1 div SECPERDY) mod 7) = (4 + (y - 1970) + (y - 1969) div 4 + uint n1 div 86400) mod 7" by (simp add: uint_mod)
  then have "uint ((S + n1 div SECPERDY) mod 7) = weekday (day_number y m dd)"
    unfolding year_mod7 by (simp add: weekday_def day_number_def Y n1(1) dd_def add.assoc)
  then have k: "unat ((S + n1 div SECPERDY) mod 7) = nat (weekday (day_number y m dd))" by (simp only: unat_eq_nat_uint)
  have "ascdate d now =
      (let dst = date_dst d y (weekday (day_number y 0 1)) m dd h; (m', d', h') = (if dst then date_ahead d m dd h else (m, dd, h))
       in if m' \<ge> 12 then None
          else Some (OK, date_output d (day_number y m dd) y m' d' h' mi s (if dst then ''EDT'' else ''EST'')))"
    unfolding ascdate_def L Let_def prod.case w S_def [symmetric] j k date_output_def using R(4) by (simp only: linorder_not_le [symmetric] if_False simp_thms)
  then show ?thesis by (rule that [OF st])
qed

section \<open>Daylight saving time\<close>

text \<open>The second Sunday of March and the first of November.\<close>

lemma weekday_after:
  fixes Y k r :: int
  shows "(Y + k + r + 4) mod 7 = (((Y + 4) mod 7 + k) mod 7 + r) mod 7"
  by (simp add: mod_simps ac_simps)

lemma second_sunday:
  fixes Y k :: int
  assumes "q = ((Y + 4) mod 7 + k) mod 7" "ss = (if q = 0 then 8 else 15 - q)"
  shows "8 \<le> ss \<and> ss \<le> 14 \<and> (Y + k + (ss - 1) + 4) mod 7 = 0"
proof -
  have "0 \<le> q" "q < 7" using assms(1) by simp_all
  then show ?thesis unfolding weekday_after using assms(2) by (auto simp flip: assms(1))
qed

lemma first_sunday:
  fixes Y k :: int
  assumes "q = ((Y + 4) mod 7 + k) mod 7" "fs = (if q = 0 then 1 else 8 - q)"
  shows "1 \<le> fs \<and> fs \<le> 7 \<and> (Y + k + (fs - 1) + 4) mod 7 = 0"
proof -
  have "0 \<le> q" "q < 7" using assms(1) by simp_all
  then show ?thesis unfolding weekday_after using assms(2) by (auto simp flip: assms(1))
qed

lemma greg_month_values:
  "greg_month y 0 = 31" "greg_month y 1 = 28 + of_bool (greg_leap y)" "greg_month y 2 = 31" "greg_month y 3 = 30" "greg_month y 4 = 31" "greg_month y 5 = 30"
  "greg_month y 6 = 31" "greg_month y 7 = 31" "greg_month y 8 = 30" "greg_month y 9 = 31" "greg_month y 10 = 30" "greg_month y 11 = 31"
  by (simp_all add: greg_month_def)

lemma tod_le:
  fixes a c dd h mi s :: int
  assumes "0 \<le> c" "c < 24" "0 \<le> h" "h < 24" "0 \<le> mi" "mi < 60" "0 \<le> s" "s < 60"
  shows "86400 * a + 3600 * c \<le> 86400 * dd + (3600 * h + 60 * mi + s) \<longleftrightarrow> a < dd \<or> a = dd \<and> c \<le> h"
proof (cases a dd rule: linorder_cases)
  case less
  then have "a + 1 \<le> dd" by simp
  then show ?thesis using assms less by simp
next
  case equal
  then show ?thesis using assms by (cases "c \<le> h") simp_all
next
  case greater
  then have "dd + 1 \<le> a" by simp
  then show ?thesis using assms greater by simp
qed

lemma greg_month_pos: "0 \<le> greg_month y m"
  by (simp add: greg_month_def)

lemma day_number_month_less:
  assumes "0 \<le> m" "m < m'" "d \<le> greg_month y m" "1 \<le> d'"
  shows "day_number y m d < day_number y m' d'"
proof -
  have "(\<Sum>k\<in>{0..<m + 1}. greg_month y k) \<le> (\<Sum>k\<in>{0..<m'}. greg_month y k)" using assms(2) by (intro sum_mono2) (auto simp: greg_month_pos)
  then show ?thesis using sum_upto_step [OF assms(1), of "greg_month y"] assms(3,4) by (simp add: day_number_def)
qed

lemma date_secs_le:
  assumes "valid_date y m dd h mi s" "0 \<le> m'" "1 \<le> d'" "d' \<le> greg_month y m'" "0 \<le> c" "c < 24"
  shows "date_secs y m' d' c 0 0 \<le> date_secs y m dd h mi s \<longleftrightarrow> m' < m \<or> m' = m \<and> (d' < dd \<or> d' = dd \<and> c \<le> h)"
proof -
  have v: "0 \<le> m" "1 \<le> dd" "dd \<le> greg_month y m" and t: "0 \<le> h" "h < 24" "0 \<le> mi" "mi < 60" "0 \<le> s" "s < 60"
    using assms(1) by (simp_all add: valid_date_def)
  have "date_secs y m' d' c 0 0 \<le> date_secs y m dd h mi s \<longleftrightarrow> day_number y m' d' < day_number y m dd \<or> day_number y m' d' = day_number y m dd \<and> c \<le> h"
    using tod_le [OF assms(5,6) t, of "day_number y m' d'" "day_number y m dd"] by (simp add: date_secs_def add.assoc)
  moreover have "m' < m \<Longrightarrow> day_number y m' d' < day_number y m dd" "m < m' \<Longrightarrow> day_number y m dd < day_number y m' d'"
    using day_number_month_less [of m' m d' y dd] day_number_month_less [of m m' dd y d'] v assms(2-4) by simp_all
  moreover have "m' = m \<Longrightarrow> day_number y m' d' = day_number y m dd + d' - dd" by (simp add: day_number_def)
  ultimately show ?thesis by (cases m' m rule: linorder_cases) auto
qed

lemma before_november:
  "dt_msize d = dt_msize Date \<Longrightarrow> foldl (\<lambda>n i. n + dt_msize d ! i) j [0..<10] = j + 304"
proof -
  assume "dt_msize d = dt_msize Date"
  moreover have "[0..<10] = [0, 1, 2, 3, 4, 5, 6, 7, 8, 9]" by code_simp
  ultimately show ?thesis by (simp add: Date_def)
qed

lemma date_sundays:
  assumes "dt_msize d = dt_msize Date" "0 \<le> j"
  shows "date_marss d y j = (let q = (j + (59 + of_bool (isleap y))) mod 7 in if q = 0 then 8 else 15 - q)"
    "date_novfs d y j = (let q = (j + (304 + of_bool (isleap y))) mod 7 in if q = 0 then 1 else 8 - q)"
proof -
  have "j + dt_msize d ! 0 + dt_msize d ! 1 + of_bool (isleap y) = j + (59 + of_bool (isleap y))" using assms(1) by (simp add: Date_def)
  then show "date_marss d y j = (let q = (j + (59 + of_bool (isleap y))) mod 7 in if q = 0 then 8 else 15 - q)"
    using assms(2) by (simp only: date_marss_def) (simp add: smod_nonneg)
  have "(if isleap y then j + 304 + 1 else j + 304) = j + (304 + of_bool (isleap y))" by simp
  then show "date_novfs d y j = (let q = (j + (304 + of_bool (isleap y))) mod 7 in if q = 0 then 1 else 8 - q)"
    using assms(2) unfolding date_novfs_def before_november [OF assms(1)] Let_def by (simp only:) (simp add: smod_nonneg)
qed

lemma date_dst_spec:
  assumes st: "standard now y m dd h mi s" and d: "dt_msize d = dt_msize Date" "dt_daylight d = DATE_DST_AUTO"
  shows "\<exists>ss fs. 8 \<le> ss \<and> ss \<le> 14 \<and> weekday (day_number y 2 ss) = 0 \<and> 1 \<le> fs \<and> fs \<le> 7 \<and> weekday (day_number y 10 fs) = 0 \<and>
    (date_dst d y (weekday (day_number y 0 1)) m dd h \<longleftrightarrow> date_secs y 2 ss 2 0 0 \<le> uint now \<and> uint now < date_secs y 10 fs 1 0 0)"
proof -
  define Y L where "Y = (\<Sum>k\<in>{1970..<y}. greg_year k)" and "L = (of_bool (isleap y) :: int)"
  define ss fs where "ss = date_marss d y (weekday (day_number y 0 1))" and "fs = date_novfs d y (weekday (day_number y 0 1))"
  have v: "0 \<le> m" "m < 12" "1 \<le> dd" "dd \<le> greg_month y m" and t: "0 \<le> h" "h < 24" "0 \<le> mi" "mi < 60" "0 \<le> s" "s < 60" and y: "1970 \<le> y" "y < 2100"
    and now: "uint now = date_secs y m dd h mi s" using st by (simp_all add: standard_def valid_date_def)
  have L: "of_bool (greg_leap y) = L" "0 \<le> L" "L \<le> 1" using isleap_greg [OF y] by (simp_all add: L_def)
  note sums = day_number_def month_sums greg_month_values Y_def [symmetric] L(1)
  have j: "weekday (day_number y 0 1) = (Y + 4) mod 7" by (simp add: weekday_def sums)
  have "8 \<le> ss \<and> ss \<le> 14 \<and> (Y + (59 + L) + (ss - 1) + 4) mod 7 = 0"
    by (rule second_sunday [OF refl]) (simp add: ss_def j date_sundays(1) [OF d(1)] Let_def L_def)
  then have S: "8 \<le> ss" "ss \<le> 14" "weekday (day_number y 2 ss) = 0" by (simp_all add: weekday_def sums add.assoc)
  have "1 \<le> fs \<and> fs \<le> 7 \<and> (Y + (304 + L) + (fs - 1) + 4) mod 7 = 0"
    by (rule first_sunday [OF refl]) (simp add: fs_def j date_sundays(2) [OF d(1)] Let_def L_def)
  then have F: "1 \<le> fs" "fs \<le> 7" "weekday (day_number y 10 fs) = 0" by (simp_all add: weekday_def sums add.assoc)
  have V: "valid_date y m dd h mi s" using st by (simp add: standard_def)
  note A = date_secs_le [OF V, of 2 ss 2] and B = date_secs_le [OF V, of 10 fs 1]
  have "date_dst d y (weekday (day_number y 0 1)) m dd h \<longleftrightarrow> date_secs y 2 ss 2 0 0 \<le> uint now \<and> uint now < date_secs y 10 fs 1 0 0"
    unfolding date_dst_def Let_def ss_def [symmetric] fs_def [symmetric] d(2) now linorder_not_le [symmetric]
    using v(1,2) A B S(1,2) F(1,2) by (auto simp: date_defs greg_month_values)
  then show ?thesis using S F by blast
qed

lemma date_ahead_spec:
  assumes st: "standard now y m dd h mi s" and d: "dt_msize d = dt_msize Date" and m: "1 < m" "m < 11" and a: "date_ahead d m dd h = (m', d', h')"
  shows "m' < 12 \<and> valid_date y m' d' h' mi s \<and> date_secs y m' d' h' mi s = uint now + 3600"
proof -
  have v: "0 \<le> m" "1 \<le> dd" "dd \<le> greg_month y m" "0 \<le> h" "h < 24" "0 \<le> mi" "mi < 60" "0 \<le> s" "s < 60" "1970 \<le> y" "y < 2100"
    and now: "uint now = date_secs y m dd h mi s" using st by (simp_all add: standard_def valid_date_def)
  have g: "dt_msize d ! nat m = greg_month y m" using code_month_greg [OF v(10,11), of m] m d by (simp add: code_month_def)
  have n: "1 \<le> greg_month y (m + 1)" by (simp add: greg_month_def)
  have s: "day_number y (m + 1) 1 = day_number y m (greg_month y m) + 1" using sum_upto_step [OF v(1), of "greg_month y"] by (simp add: day_number_def)
  have t: "day_number y m (dd + 1) = day_number y m dd + 1" by (simp add: day_number_def)
  show ?thesis
  proof (cases "h + 1 > 23")
    case False
    then have e: "m' = m" "d' = dd" "h' = h + 1" using a by (simp_all add: date_ahead_def)
    show ?thesis unfolding e using False v m now by (simp add: valid_date_def date_secs_def)
  next
    case True
    then have h: "h = 23" using v(5) by simp
    show ?thesis
    proof (cases "dd = greg_month y m")
      case True
      then have e: "m' = m + 1" "d' = 1" "h' = 0" using a h g by (simp_all add: date_ahead_def)
      show ?thesis unfolding e using True v m now h n s by (simp add: valid_date_def date_secs_def)
    next
      case False
      then have e: "m' = m" "d' = dd + 1" "h' = 0" using a h g v(3) by (simp_all add: date_ahead_def)
      show ?thesis unfolding e using False v m now h t by (simp add: valid_date_def date_secs_def)
    qed
  qed
qed

section \<open>Properties\<close>

text \<open>
  C36. With daylight saving time off, \<^verbatim>\<open>ascdate\<close> is the Gregorian calendar for every second of the years 1970 to 2099: it prints
  the valid date and time whose distance from the start of 1970 is its argument, with the name of the right day of the week.
\<close>

theorem ascdate_calendar:
  assumes "uint now < 4102444800" and "d = Date\<lparr>dt_boot := b, dt_bootvalid := v, dt_daylight := DATE_DST_OFF\<rparr>"
  shows "\<exists>y m dd h mi s. valid_date y m dd h mi s \<and> date_secs y m dd h mi s = uint now \<and>
    ascdate d now = Some (OK, \<lparr>da_dnam = dt_dnam Date ! nat (weekday (day_number y m dd)), da_mnam = dt_mnam Date ! nat m, da_day = dd,
      da_hour = h, da_minute = mi, da_second = s, da_zone = ''EST'', da_year = y\<rparr>)"
proof -
  have d: "dt_msize d = dt_msize Date" "dt_dnam d = dt_dnam Date" "dt_mnam d = dt_mnam Date" "dt_daylight d = DATE_DST_OFF" by (simp_all add: assms(2))
  obtain y m dd h mi s where st: "standard now y m dd h mi s" and a: "ascdate d now =
      (let dst = date_dst d y (weekday (day_number y 0 1)) m dd h; (m', d', h') = (if dst then date_ahead d m dd h else (m, dd, h))
       in if m' \<ge> 12 then None
          else Some (OK, date_output d (day_number y m dd) y m' d' h' mi s (if dst then ''EDT'' else ''EST'')))"
    by (rule ascdate_standard [OF assms(1) d(1)])
  have "\<not> date_dst d y (weekday (day_number y 0 1)) m dd h" by (simp add: date_dst_def d(4) date_defs)
  then have "ascdate d now = Some (OK, date_output d (day_number y m dd) y m dd h mi s ''EST'')"
    using a st by (simp add: standard_def valid_date_def)
  then show ?thesis using st unfolding standard_def date_output_def d(2,3)
    by - (rule exI [of _ y], rule exI [of _ m], rule exI [of _ dd], rule exI [of _ h], rule exI [of _ mi], rule exI [of _ s], simp)
qed

theorem ascdate_calendar_witness:
  "\<exists>y m dd h mi s. valid_date y m dd h mi s \<and> date_secs y m dd h mi s = 951827696 \<and>
    (\<exists>f. ascdate (Date\<lparr>dt_daylight := DATE_DST_OFF\<rparr>) 951827696 = Some (OK, f) \<and> da_year f = y \<and> da_day f = dd \<and> da_mnam f = dt_mnam Date ! nat m)"
proof -
  have "Date\<lparr>dt_daylight := DATE_DST_OFF\<rparr> = Date\<lparr>dt_boot := 0, dt_bootvalid := False, dt_daylight := DATE_DST_OFF\<rparr>" by (simp add: Date_def)
  then show ?thesis using ascdate_calendar [of 951827696 "Date\<lparr>dt_daylight := DATE_DST_OFF\<rparr>" False 0] by fastforce
qed

text \<open>
  C37. With automatic daylight saving time, \<^verbatim>\<open>ascdate\<close> is one hour ahead exactly from 2:00 standard time on the second Sunday of March to
  1:00 standard time on the first Sunday of November, over ends of days and months, and names the zone accordingly.
  The day of the week, though, is always that of standard time, so that it is one day behind in the first hour of a day in summer.
\<close>

theorem ascdate_daylight:
  assumes "uint now < 4102444800" and "d = Date\<lparr>dt_boot := b, dt_bootvalid := v\<rparr>"
  shows "\<exists>y m dd h mi s ss fs dst. 8 \<le> ss \<and> ss \<le> 14 \<and> weekday (day_number y 2 ss) = 0 \<and> 1 \<le> fs \<and> fs \<le> 7 \<and> weekday (day_number y 10 fs) = 0 \<and>
    dst = (date_secs y 2 ss 2 0 0 \<le> uint now \<and> uint now < date_secs y 10 fs 1 0 0) \<and>
    valid_date y m dd h mi s \<and> date_secs y m dd h mi s = uint now + (if dst then 3600 else 0) \<and>
    ascdate d now = Some (OK, \<lparr>da_dnam = dt_dnam Date ! nat (weekday (uint now div 86400)), da_mnam = dt_mnam Date ! nat m, da_day = dd,
      da_hour = h, da_minute = mi, da_second = s, da_zone = (if dst then ''EDT'' else ''EST''), da_year = y\<rparr>)"
proof -
  have d: "dt_msize d = dt_msize Date" "dt_dnam d = dt_dnam Date" "dt_mnam d = dt_mnam Date" "dt_daylight d = DATE_DST_AUTO"
    by (simp_all add: assms(2)) (simp add: Date_def)
  obtain y m dd h mi s where st: "standard now y m dd h mi s" and a: "ascdate d now =
      (let dst = date_dst d y (weekday (day_number y 0 1)) m dd h; (m', d', h') = (if dst then date_ahead d m dd h else (m, dd, h))
       in if m' \<ge> 12 then None
          else Some (OK, date_output d (day_number y m dd) y m' d' h' mi s (if dst then ''EDT'' else ''EST'')))"
    by (rule ascdate_standard [OF assms(1) d(1)])
  define dst where "dst = date_dst d y (weekday (day_number y 0 1)) m dd h"
  obtain ss fs where SF: "8 \<le> ss" "ss \<le> 14" "weekday (day_number y 2 ss) = 0" "1 \<le> fs" "fs \<le> 7" "weekday (day_number y 10 fs) = 0"
    "dst = (date_secs y 2 ss 2 0 0 \<le> uint now \<and> uint now < date_secs y 10 fs 1 0 0)"
    using date_dst_spec [OF st d(1,4)] unfolding dst_def by blast
  obtain m' d' h' where F: "(if dst then date_ahead d m dd h else (m, dd, h)) = (m', d', h')" by (rule prod_cases3)
  have "m' < 12 \<and> valid_date y m' d' h' mi s \<and> date_secs y m' d' h' mi s = uint now + (if dst then 3600 else 0)"
  proof (cases dst)
    case True
    then have "1 < m" "m < 11" using st by (auto simp: dst_def date_dst_def d(4) date_defs Let_def standard_def valid_date_def split: if_splits)
    then show ?thesis using date_ahead_spec [OF st d(1)] True F by simp
  next
    case False
    then show ?thesis using st F by (auto simp: standard_def valid_date_def)
  qed
  moreover from this have "ascdate d now = Some (OK, date_output d (day_number y m dd) y m' d' h' mi s (if dst then ''EDT'' else ''EST''))"
    using a F unfolding dst_def [symmetric] by simp
  ultimately show ?thesis using SF unfolding standard_days [OF st] date_output_def d(2,3)
    by - (rule exI [of _ y], rule exI [of _ m'], rule exI [of _ d'], rule exI [of _ h'], rule exI [of _ mi], rule exI [of _ s],
      rule exI [of _ ss], rule exI [of _ fs], rule exI [of _ dst], simp only: simp_thms)
qed

theorem ascdate_daylight_witness:
  "\<exists>f. ascdate Date 951827696 = Some (OK, f) \<and> da_dnam f = dt_dnam Date ! nat (weekday 11016)"
proof -
  have "Date = Date\<lparr>dt_boot := 0, dt_bootvalid := False\<rparr>" by (simp add: Date_def)
  then show ?thesis using ascdate_daylight [of 951827696 Date False 0] by fastforce
qed

text \<open>
  Half past midnight of Sunday, July 5, 1970, daylight saving time, is printed as a Saturday. When daylight saving time is forced on,
  the last hour of the year indexes the months past their end.
\<close>

lemmas date_eval = ascdate_def date_year.simps year_secs_cases date_month.simps month_secs_def date_dst_def date_marss_def date_novfs_def date_ahead_def
  Date_def isleap_def smod_nonneg sdiv_nonneg date_defs Let_def

lemma ascdate_wrong_weekday:
  "ascdate Date 15982200 = Some (OK, \<lparr>da_dnam = ''Sat'', da_mnam = ''Jul'', da_day = 5, da_hour = 0, da_minute = 30, da_second = 0, da_zone = ''EDT'', da_year = 1970\<rparr>)"
  "weekday (day_number 1970 6 5) = 0"
  by (simp_all add: date_eval weekday_def day_number_def month_sums greg_month_values greg_leap_def)

lemma ascdate_year_end: "ascdate (Date\<lparr>dt_daylight := DATE_DST_ON\<rparr>) 31535999 = None"
  by (simp add: date_eval)

end
