(* ===== verification/Shell_Lexer.thy ===== *)
theory Shell_Lexer
  imports Lib_String
begin

text \<open>
  The lexical analyzer of the shell, \<^verbatim>\<open>shell/lexan.c\<close>. The input line is the list of its
  characters before the terminating zero, and the pointer that walks along it is the rest
  of that list; \<open>at p\<close> is what it points to. The arrays the analyzer fills (\<^verbatim>\<open>tokbuf\<close>, \<^verbatim>\<open>tok\<close>,
  \<^verbatim>\<open>toktyp\<close>) are the lists of what has been stored in them, so that the indices \<^verbatim>\<open>tbindex\<close>
  and \<^verbatim>\<open>ntok\<close> are their lengths.

  The analyzer is shown to stay within its arrays on every input, and to be the inverse of
  writing a command line out.
\<close>

section \<open>The analyzer\<close>

definition SHELL_MAXTOK :: nat where "SHELL_MAXTOK = 32"

abbreviation NULLCH :: uchar where "NULLCH \<equiv> 0"
abbreviation SH_TAB :: uchar where "SH_TAB \<equiv> 9"
abbreviation SH_NEWLINE :: uchar where "SH_NEWLINE \<equiv> 10"
abbreviation SH_BLANK :: uchar where "SH_BLANK \<equiv> 32"
abbreviation SH_DQUOTE :: uchar where "SH_DQUOTE \<equiv> 34"
abbreviation SH_AMPER :: uchar where "SH_AMPER \<equiv> 38"
abbreviation SH_SQUOTE :: uchar where "SH_SQUOTE \<equiv> 39"
abbreviation SH_LESS :: uchar where "SH_LESS \<equiv> 60"
abbreviation SH_GREATER :: uchar where "SH_GREATER \<equiv> 62"

abbreviation SH_TOK_AMPER :: int where "SH_TOK_AMPER \<equiv> 0"
abbreviation SH_TOK_LESS :: int where "SH_TOK_LESS \<equiv> 1"
abbreviation SH_TOK_GREATER :: int where "SH_TOK_GREATER \<equiv> 2"
abbreviation SH_TOK_OTHER :: int where "SH_TOK_OTHER \<equiv> 3"

record lexout =
  tokbuf :: "uchar list"
  tok :: "int list"
  toktyp :: "int list"

definition at :: "uchar list \<Rightarrow> uchar" where
  "at p = (case p of [] \<Rightarrow> NULLCH | c # _ \<Rightarrow> c)"

fun lex_blanks :: "uchar list \<Rightarrow> uchar list" where
  "lex_blanks [] = []"
| "lex_blanks (ch # p) = (if ch = SH_BLANK \<or> ch = SH_TAB then lex_blanks p else ch # p)"

text \<open>The loop over a quoted string: the character that ended it, the rest of the line, the buffer.\<close>

fun lex_quoted :: "uchar \<Rightarrow> uchar list \<Rightarrow> uchar list \<Rightarrow> uchar \<times> uchar list \<times> uchar list" where
  "lex_quoted quote [] buf = (NULLCH, [], buf)"
| "lex_quoted quote (ch # p) buf =
    (if ch \<noteq> quote \<and> ch \<noteq> SH_NEWLINE \<and> ch \<noteq> NULLCH then lex_quoted quote p (buf @ [ch]) else (ch, p, buf))"

definition word_end :: "uchar \<Rightarrow> bool" where
  "word_end ch \<longleftrightarrow> ch = SH_NEWLINE \<or> ch = NULLCH \<or> ch = SH_LESS \<or> ch = SH_GREATER \<or> ch = SH_BLANK \<or> ch = SH_TAB
     \<or> ch = SH_AMPER \<or> ch = SH_SQUOTE \<or> ch = SH_DQUOTE"

fun lex_word :: "uchar list \<Rightarrow> uchar list \<Rightarrow> uchar list \<times> uchar list" where
  "lex_word [] buf = ([], buf)"
| "lex_word (ch # p) buf = (if \<not> word_end ch then lex_word p (buf @ [ch]) else (ch # p, buf))"

definition add_tok :: "int \<Rightarrow> lexout \<Rightarrow> lexout" where
  "add_tok typ l = l\<lparr>tok := tok l @ [int (length (tokbuf l))], toktyp := toktyp l @ [typ]\<rparr>"

definition one_char :: "uchar \<Rightarrow> int \<Rightarrow> lexout \<Rightarrow> lexout" where
  "one_char ch typ l = (add_tok typ l)\<lparr>tokbuf := tokbuf l @ [ch, NULLCH]\<rparr>"

lemma lex_blanks_less: "lex_blanks p = c # q \<Longrightarrow> length q < length p"
  by (induction p rule: lex_blanks.induct) (auto split: if_splits)

lemma lex_quoted_length: "lex_quoted q p buf = (ch, p', buf') \<Longrightarrow> length p' \<le> length p"
  by (induction q p buf rule: lex_quoted.induct) (auto split: if_splits)

lemma lex_word_length: "lex_word p buf = (p', buf') \<Longrightarrow> length p' \<le> length p"
  by (induction p buf rule: lex_word.induct) (auto split: if_splits)

function lexan_loop :: "uchar list \<Rightarrow> lexout \<Rightarrow> int \<times> lexout" where
  "lexan_loop p l =
    (if at p = NULLCH \<or> at p = SH_NEWLINE then (int (length (tok l)), l)
     else if length (tok l) \<ge> SHELL_MAXTOK then (SYSERR, l)
     else case lex_blanks p of
       [] \<Rightarrow> (int (length (tok l)), l)
     | ch # p \<Rightarrow>
        if ch = SH_NEWLINE \<or> ch = NULLCH then (int (length (tok l)), l)
        else if ch = SH_AMPER then lexan_loop p (one_char ch SH_TOK_AMPER l)
        else if ch = SH_LESS then lexan_loop p (one_char ch SH_TOK_LESS l)
        else if ch = SH_GREATER then lexan_loop p (one_char ch SH_TOK_GREATER l)
        else if ch = SH_SQUOTE \<or> ch = SH_DQUOTE then
          (case lex_quoted ch p (tokbuf l) of (ch', p', buf) \<Rightarrow>
             if ch' \<noteq> ch then (SYSERR, (add_tok SH_TOK_OTHER l)\<lparr>tokbuf := buf\<rparr>)
             else lexan_loop p' ((add_tok SH_TOK_OTHER l)\<lparr>tokbuf := buf @ [NULLCH]\<rparr>))
        else
          (case lex_word p (tokbuf l @ [ch]) of (p', buf) \<Rightarrow>
             if at p' = SH_SQUOTE \<or> at p' = SH_DQUOTE \<or> at p' = SH_LESS \<or> at p' = SH_GREATER
             then (SYSERR, (add_tok SH_TOK_OTHER l)\<lparr>tokbuf := buf\<rparr>)
             else lexan_loop p' ((add_tok SH_TOK_OTHER l)\<lparr>tokbuf := buf @ [NULLCH]\<rparr>)))"
  by pat_completeness auto
termination
  by (relation "measure (\<lambda>(p, l). length p)")
    (auto dest!: lex_blanks_less lex_quoted_length [OF sym] lex_word_length [OF sym])

definition lexan :: "uchar list \<Rightarrow> int \<times> lexout" where
  "lexan line = lexan_loop line \<lparr>tokbuf = [], tok = [], toktyp = []\<rparr>"

declare lexan_loop.simps [simp del]

section \<open>The arrays are large enough\<close>

lemma lex_quoted_room: "lex_quoted q p buf = (ch, p', buf') \<Longrightarrow> length buf' + length p' \<le> length buf + length p"
  by (induction q p buf rule: lex_quoted.induct) (fastforce split: if_splits)+

lemma lex_word_room: "lex_word p buf = (p', buf') \<Longrightarrow> length buf' + length p' = length buf + length p"
  by (induction p buf rule: lex_word.induct) (auto split: if_splits)

lemma lex_blanks_room: "length (lex_blanks p) \<le> length p"
  by (induction p rule: lex_blanks.induct) auto

lemma add_tok_simps [simp]:
  "tokbuf (add_tok t l) = tokbuf l" "length (tok (add_tok t l)) = Suc (length (tok l))"
  "length (toktyp (add_tok t l)) = Suc (length (toktyp l))"
  "length (tok (one_char c t l)) = Suc (length (tok l))" "length (toktyp (one_char c t l)) = Suc (length (toktyp l))"
  "tokbuf (one_char c t l) = tokbuf l @ [c, NULLCH]"
  by (simp_all add: add_tok_def one_char_def)

definition lex_fits :: "nat \<Rightarrow> lexout \<Rightarrow> int \<Rightarrow> lexout \<Rightarrow> bool" where
  "lex_fits n l r l' \<longleftrightarrow> length (tok l') \<le> SHELL_MAXTOK \<and> length (toktyp l') = length (tok l')
     \<and> length (tokbuf l') + length (tok l) \<le> length (tokbuf l) + n + length (tok l')
     \<and> (r = SYSERR \<or> r = int (length (tok l')))"

lemma lex_fits_step:
  assumes "lex_fits n1 l1 r l'" "length (tokbuf l1) + n1 \<le> length (tokbuf l) + n + 1" "length (tok l1) = Suc (length (tok l))"
  shows "lex_fits n l r l'"
  using assms by (simp add: lex_fits_def)

text \<open>One turn of the main loop, for the character \<open>c\<close> after the blanks.\<close>

definition sym_type :: "uchar \<Rightarrow> int" where
  "sym_type c = (if c = SH_AMPER then SH_TOK_AMPER else if c = SH_LESS then SH_TOK_LESS else SH_TOK_GREATER)"

lemma lexan_end: "at p = NULLCH \<or> at p = SH_NEWLINE \<Longrightarrow> lexan_loop p l = (int (length (tok l)), l)"
  by (subst lexan_loop.simps) simp

lemma lexan_full: "\<not> (at p = NULLCH \<or> at p = SH_NEWLINE) \<Longrightarrow> SHELL_MAXTOK \<le> length (tok l) \<Longrightarrow> lexan_loop p l = (SYSERR, l)"
  by (subst lexan_loop.simps) simp

lemma lexan_blank_end:
  assumes "\<not> (at p = NULLCH \<or> at p = SH_NEWLINE)" "length (tok l) < SHELL_MAXTOK" "lex_blanks p = c # q"
    "c = SH_NEWLINE \<or> c = NULLCH"
  shows "lexan_loop p l = (int (length (tok l)), l)"
  using assms by (subst lexan_loop.simps) auto

lemma lexan_sym:
  assumes "\<not> (at p = NULLCH \<or> at p = SH_NEWLINE)" "length (tok l) < SHELL_MAXTOK" "lex_blanks p = c # q"
    "c = SH_AMPER \<or> c = SH_LESS \<or> c = SH_GREATER"
  shows "lexan_loop p l = lexan_loop q (one_char c (sym_type c) l)"
  using assms by (subst lexan_loop.simps) (auto simp: sym_type_def)

lemma lexan_quote:
  assumes "\<not> (at p = NULLCH \<or> at p = SH_NEWLINE)" "length (tok l) < SHELL_MAXTOK" "lex_blanks p = c # q"
    "c = SH_SQUOTE \<or> c = SH_DQUOTE" "lex_quoted c q (tokbuf l) = (ch', p', buf)"
  shows "lexan_loop p l = (if ch' \<noteq> c then (SYSERR, (add_tok SH_TOK_OTHER l)\<lparr>tokbuf := buf\<rparr>)
    else lexan_loop p' ((add_tok SH_TOK_OTHER l)\<lparr>tokbuf := buf @ [NULLCH]\<rparr>))"
  using assms by (subst lexan_loop.simps) auto

lemma lexan_word:
  assumes "\<not> (at p = NULLCH \<or> at p = SH_NEWLINE)" "length (tok l) < SHELL_MAXTOK" "lex_blanks p = c # q"
    "\<not> (c = SH_NEWLINE \<or> c = NULLCH)" "\<not> (c = SH_AMPER \<or> c = SH_LESS \<or> c = SH_GREATER)" "\<not> (c = SH_SQUOTE \<or> c = SH_DQUOTE)"
    "lex_word q (tokbuf l @ [c]) = (p', buf)"
  shows "lexan_loop p l = (if at p' = SH_SQUOTE \<or> at p' = SH_DQUOTE \<or> at p' = SH_LESS \<or> at p' = SH_GREATER
    then (SYSERR, (add_tok SH_TOK_OTHER l)\<lparr>tokbuf := buf\<rparr>)
    else lexan_loop p' ((add_tok SH_TOK_OTHER l)\<lparr>tokbuf := buf @ [NULLCH]\<rparr>))"
  using assms by (subst lexan_loop.simps) auto

lemma lexan_loop_fits:
  assumes "length (tok l) \<le> SHELL_MAXTOK" "length (toktyp l) = length (tok l)"
  shows "lex_fits (length p) l (fst (lexan_loop p l)) (snd (lexan_loop p l))"
  using assms
proof (induction "length p" arbitrary: p l rule: less_induct)
  case less
  have same: "lex_fits (length p) l r l" if "r = SYSERR \<or> r = int (length (tok l))" for r
    using less.prems that by (auto simp: lex_fits_def)
  show ?case
  proof (cases "(at p = NULLCH \<or> at p = SH_NEWLINE) \<or> length (tok l) \<ge> SHELL_MAXTOK")
    case True
    then show ?thesis using same lexan_end [of p l] lexan_full [of p l] by (metis fst_conv snd_conv)
  next
    case False
    then have go: "\<not> (at p = NULLCH \<or> at p = SH_NEWLINE)" "length (tok l) < SHELL_MAXTOK" by auto
    show ?thesis
    proof (cases "lex_blanks p")
      case Nil
      then show ?thesis using go same by (subst (1 2) lexan_loop.simps) auto
    next
      case (Cons c q)
      note q = lex_blanks_less [OF Cons]
      have step: "lex_fits (length p) l (fst (lexan_loop p' l')) (snd (lexan_loop p' l'))"
        if "length p' < length p" "length (tokbuf l') + length p' \<le> length (tokbuf l) + length p + 1"
          "length (tok l') = Suc (length (tok l))" "length (toktyp l') = Suc (length (toktyp l))" for p' l'
        by (rule lex_fits_step [OF less.hyps [OF that(1)] that(2,3)]) (use less.prems go that in simp_all)
      consider (e) "c = SH_NEWLINE \<or> c = NULLCH" | (s) "c = SH_AMPER \<or> c = SH_LESS \<or> c = SH_GREATER"
        | (q) "c = SH_SQUOTE \<or> c = SH_DQUOTE"
        | (w) "\<not> (c = SH_NEWLINE \<or> c = NULLCH)" "\<not> (c = SH_AMPER \<or> c = SH_LESS \<or> c = SH_GREATER)" "\<not> (c = SH_SQUOTE \<or> c = SH_DQUOTE)"
        by blast
      then show ?thesis
      proof cases
        case e
        then show ?thesis using same lexan_blank_end [OF go Cons] by simp
      next
        case s
        then show ?thesis using step [of q "one_char c (sym_type c) l"] q lexan_sym [OF go Cons] by simp
      next
        case q
        obtain ch' p' buf where L: "lex_quoted c q (tokbuf l) = (ch', p', buf)" by (cases "lex_quoted c q (tokbuf l)") auto
        let ?l = "add_tok SH_TOK_OTHER l"
        have r: "length buf + length p' \<le> length (tokbuf l) + length q" "length p' \<le> length q"
          by (rule lex_quoted_room [OF L], rule lex_quoted_length [OF L])
        then have "lex_fits (length p) l SYSERR (?l\<lparr>tokbuf := buf\<rparr>)"
          using less.prems go lex_blanks_less [OF Cons] by (simp add: lex_fits_def)
        then show ?thesis using step [of p' "?l\<lparr>tokbuf := buf @ [NULLCH]\<rparr>"] r lex_blanks_less [OF Cons] lexan_quote [OF go Cons q L] by auto
      next
        case w
        obtain p' buf where L: "lex_word q (tokbuf l @ [c]) = (p', buf)" by (cases "lex_word q (tokbuf l @ [c])") auto
        let ?l = "add_tok SH_TOK_OTHER l"
        have r: "length buf + length p' = length (tokbuf l) + 1 + length q" "length p' \<le> length q"
          using lex_word_room [OF L] lex_word_length [OF L] by simp_all
        then have "lex_fits (length p) l SYSERR (?l\<lparr>tokbuf := buf\<rparr>)"
          using less.prems go lex_blanks_less [OF Cons] by (simp add: lex_fits_def)
        then show ?thesis using step [of p' "?l\<lparr>tokbuf := buf @ [NULLCH]\<rparr>"] r lex_blanks_less [OF Cons] lexan_word [OF go Cons w L] by auto
      qed
    qed
  qed
qed

text \<open>
  The analyzer stays within its arrays: on every line it stores at most 32 tokens and, in
  \<^verbatim>\<open>tokbuf\<close>, no more bytes than the line has characters plus one for each token, whether it
  succeeds or reports an error; the shell's buffer has \<^verbatim>\<open>SHELL_BUFLEN + SHELL_MAXTOK\<close> bytes.
\<close>

theorem lexan_bounds:
  "case lexan line of (r, l) \<Rightarrow>
     length (tok l) \<le> SHELL_MAXTOK \<and> length (toktyp l) = length (tok l)
     \<and> length (tokbuf l) \<le> length line + length (tok l) \<and> (r = SYSERR \<or> r = int (length (tok l)))"
  using lexan_loop_fits [of "\<lparr>tokbuf = [], tok = [], toktyp = []\<rparr>" line]
  by (simp add: lexan_def lex_fits_def case_prod_beta)

section \<open>Writing a command line and reading it back\<close>

datatype token = Symbol uchar | Word "uchar list" | Quoted uchar "uchar list"

fun show_token :: "token \<Rightarrow> uchar list" where
  "show_token (Symbol c) = [c]"
| "show_token (Word w) = w"
| "show_token (Quoted q w) = q # w @ [q]"

fun token_text :: "token \<Rightarrow> uchar list" where
  "token_text (Symbol c) = [c]"
| "token_text (Word w) = w"
| "token_text (Quoted q w) = w"

fun token_type :: "token \<Rightarrow> int" where
  "token_type (Symbol c) = sym_type c"
| "token_type _ = SH_TOK_OTHER"

fun token_ok :: "token \<Rightarrow> bool" where
  "token_ok (Symbol c) \<longleftrightarrow> c = SH_AMPER \<or> c = SH_LESS \<or> c = SH_GREATER"
| "token_ok (Word w) \<longleftrightarrow> w \<noteq> [] \<and> (\<forall>c\<in>set w. \<not> word_end c)"
| "token_ok (Quoted q w) \<longleftrightarrow> (q = SH_SQUOTE \<or> q = SH_DQUOTE) \<and> (\<forall>c\<in>set w. c \<noteq> q \<and> c \<noteq> SH_NEWLINE \<and> c \<noteq> NULLCH)"

text \<open>A command line: every token after a blank.\<close>

definition show_line :: "token list \<Rightarrow> uchar list" where
  "show_line ts = concat (map (\<lambda>t. SH_BLANK # show_token t) ts)"

fun store_tokens :: "token list \<Rightarrow> lexout \<Rightarrow> lexout" where
  "store_tokens [] l = l"
| "store_tokens (t # ts) l =
    store_tokens ts ((add_tok (token_type t) l)\<lparr>tokbuf := tokbuf l @ token_text t @ [NULLCH]\<rparr>)"

lemma lex_quoted_body:
  "\<forall>c\<in>set w. c \<noteq> q \<and> c \<noteq> SH_NEWLINE \<and> c \<noteq> NULLCH \<Longrightarrow> lex_quoted q (w @ q # p) buf = (q, p, buf @ w)"
  by (induction w arbitrary: buf) auto

lemma lex_word_body:
  "\<forall>c\<in>set w. \<not> word_end c \<Longrightarrow> p = [] \<or> word_end (at p) \<Longrightarrow> lex_word (w @ p) buf = (p, buf @ w)"
proof (induction w arbitrary: buf)
  case Nil
  then show ?case by (cases p) (auto simp: at_def)
qed auto

lemma at_show_line: "at (show_line ts) = (if ts = [] then NULLCH else SH_BLANK)"
  by (cases ts) (simp_all add: show_line_def at_def)

lemma lexan_show:
  assumes "\<forall>t\<in>set ts. token_ok t" "length (tok l) + length ts \<le> SHELL_MAXTOK"
  shows "lexan_loop (show_line ts) l = (int (length (tok l) + length ts), store_tokens ts l)"
  using assms
proof (induction ts arbitrary: l)
  case Nil
  then show ?case by (simp add: lexan_end at_show_line)
next
  case (Cons t ts)
  let ?p = "show_line (t # ts)" and ?q = "show_line ts"
  let ?l = "(add_tok (token_type t) l)\<lparr>tokbuf := tokbuf l @ token_text t @ [NULLCH]\<rparr>"
  have p: "?p = SH_BLANK # show_token t @ ?q" by (simp add: show_line_def)
  have go: "\<not> (at ?p = NULLCH \<or> at ?p = SH_NEWLINE)" "length (tok l) < SHELL_MAXTOK" using Cons.prems by (simp_all add: at_show_line)
  have "lexan_loop ?p l = lexan_loop ?q ?l"
  proof (cases t)
    case (Symbol c)
    then have "lex_blanks ?p = c # ?q" using Cons.prems(1) p by auto
    then show ?thesis using lexan_sym [OF go] Symbol Cons.prems(1) by (simp add: one_char_def)
  next
    case (Word w)
    then obtain c v where w: "w = c # v" "\<not> word_end c" "\<forall>x\<in>set v. \<not> word_end x" using Cons.prems(1) by (cases w) auto
    then have b: "lex_blanks ?p = c # (v @ ?q)" using p Word by (auto simp: word_end_def)
    have "word_end (at ?q)" by (simp add: at_show_line word_end_def)
    then have "lex_word (v @ ?q) (tokbuf l @ [c]) = (?q, tokbuf l @ w)"
      using lex_word_body [of v ?q "tokbuf l @ [c]"] w by simp
    then show ?thesis using lexan_word [OF go b] w(2) Word by (simp add: word_end_def at_show_line)
  next
    case (Quoted q w)
    then have b: "lex_blanks ?p = q # (w @ q # ?q)" using Cons.prems(1) p by auto
    have "lex_quoted q (w @ q # ?q) (tokbuf l) = (q, ?q, tokbuf l @ w)" by (rule lex_quoted_body) (use Cons.prems(1) Quoted in simp)
    then show ?thesis using lexan_quote [OF go b] Cons.prems(1) Quoted by simp
  qed
  then show ?case using Cons.IH [of ?l] Cons.prems by simp
qed

text \<open>What the arrays then hold: the text of each token, zero-terminated, at its index.\<close>

lemma store_tokens_arrays:
  "toktyp (store_tokens ts l) = toktyp l @ map token_type ts"
  "tokbuf (store_tokens ts l) = tokbuf l @ concat (map (\<lambda>t. token_text t @ [NULLCH]) ts)"
  "length (tok (store_tokens ts l)) = length (tok l) + length ts"
  by (induction ts arbitrary: l) (simp_all add: add_tok_def)

lemma store_tokens_old: "i < length (tok l) \<Longrightarrow> tok (store_tokens ts l) ! i = tok l ! i"
  by (induction ts arbitrary: l) (simp_all add: add_tok_def nth_append)

lemma store_tokens_at:
  "i < length ts \<Longrightarrow> \<exists>rest. drop (nat (tok (store_tokens ts l) ! (length (tok l) + i))) (tokbuf (store_tokens ts l)) = token_text (ts ! i) @ NULLCH # rest"
proof (induction ts arbitrary: l i)
  case (Cons t ts)
  let ?l = "(add_tok (token_type t) l)\<lparr>tokbuf := tokbuf l @ token_text t @ [NULLCH]\<rparr>"
  show ?case
  proof (cases i)
    case 0
    have "tok (store_tokens ts ?l) ! length (tok l) = int (length (tokbuf l))"
      using store_tokens_old [of "length (tok l)" ?l ts] by (simp add: add_tok_def)
    then show ?thesis using 0 by (simp add: store_tokens_arrays)
  next
    case (Suc j)
    then show ?thesis using Cons.IH [of j ?l] Cons.prems by (simp add: add_tok_def)
  qed
qed simp

text \<open>
  C29. The analyzer reads back what is written: on a line of up to 32 words, symbols and quoted
  strings, each after a blank, it returns their number, and for each its type and the index
  in \<^verbatim>\<open>tokbuf\<close> at which its text, without the quotes, stands zero-terminated.
\<close>

theorem lexan_roundtrip:
  assumes "\<forall>t\<in>set ts. token_ok t" "length ts \<le> SHELL_MAXTOK"
  shows "\<exists>l. lexan (show_line ts) = (int (length ts), l) \<and> toktyp l = map token_type ts
    \<and> (\<forall>i<length ts. \<exists>rest. drop (nat (tok l ! i)) (tokbuf l) = token_text (ts ! i) @ NULLCH # rest)"
proof -
  let ?l = "\<lparr>tokbuf = [], tok = [], toktyp = []\<rparr>"
  have "lexan (show_line ts) = (int (length ts), store_tokens ts ?l)"
    using lexan_show [of ts ?l] assms by (simp add: lexan_def)
  then show ?thesis using store_tokens_at [of _ ts ?l] by (auto simp: store_tokens_arrays)
qed

theorem lexan_roundtrip_witness:
  "\<exists>l. lexan [32, 108, 115, 32, 62, 32, 34, 97, 32, 98, 34] = (3, l) \<and> toktyp l = [3, 2, 3]
     \<and> (\<exists>rest. drop (nat (tok l ! 2)) (tokbuf l) = [97, 32, 98] @ 0 # rest)"
  using lexan_roundtrip [of "[Word [108, 115], Symbol SH_GREATER, Quoted SH_DQUOTE [97, 32, 98]]"]
  by (auto simp: show_line_def word_end_def sym_type_def SHELL_MAXTOK_def dest!: spec [of _ 2])

end
