(* ===== verification/Net_Address.thy ===== *)
theory Net_Address
  imports Lib_String
begin

text \<open>
  Conversion of a dotted decimal IP address, \<^verbatim>\<open>net/dot2ip.c\<close>. The string is the list of its
  characters before the terminating zero, and the pointer into it the rest of the list: at
  its end the code reads the zero. A segment is read by an inner loop of at most four
  steps, the outer loop runs over at most four segments; a return of \<^verbatim>\<open>SYSERR\<close> is \<^term>\<open>None\<close>.
\<close>

unbundle bit_operations_syntax

section \<open>The conversion\<close>

text \<open>The loop over a segment, with \<open>k = 4 - nch\<close> turns left: the last character read, the value, the rest.\<close>

primrec dot2ip_seg :: "nat \<Rightarrow> int \<Rightarrow> uchar list \<Rightarrow> int \<Rightarrow> (uchar \<times> int \<times> uchar list) option" where
  "dot2ip_seg 0 nch p val = None"
| "dot2ip_seg (Suc k) nch p val =
    (let ch = (case p of [] \<Rightarrow> 0 | c # _ \<Rightarrow> c); p = tl p in
     if ch = 0 \<or> ch = 46 then (if nch = 0 then None else Some (ch, val, p))
     else if nch \<ge> 3 \<or> ch < 48 \<or> ch > 57 then None
     else dot2ip_seg k (nch + 1) p (10 * val + (uint ch - 48)))"

text \<open>The loop over the segments, with \<open>k = 4 - seg\<close> turns left.\<close>

primrec dot2ip_loop :: "nat \<Rightarrow> uchar list \<Rightarrow> uint32 \<Rightarrow> uint32 option" where
  "dot2ip_loop 0 p ipaddr = None"
| "dot2ip_loop (Suc k) p ipaddr =
    (case dot2ip_seg 4 0 p 0 of
       None \<Rightarrow> None
     | Some (ch, val, p) \<Rightarrow>
        if val > 255 then None
        else
          let ipaddr = push_bit 8 ipaddr OR word_of_int val
          in if ch = 0 then Some ipaddr else dot2ip_loop k p ipaddr)"

definition dot2ip :: "uchar list \<Rightarrow> uint32 \<Rightarrow> int \<times> uint32" where
  "dot2ip dotted result = (case dot2ip_loop 4 dotted 0 of None \<Rightarrow> (SYSERR, result) | Some a \<Rightarrow> (OK, a))"

section \<open>What it accepts\<close>

abbreviation dchar :: "nat \<Rightarrow> uchar" where "dchar d \<equiv> 48 + of_nat d"

lemma dchar_digit:
  assumes "d < 10"
  shows "dchar d \<noteq> 0" "dchar d \<noteq> 46" "\<not> dchar d < 48" "\<not> dchar d > 57" "uint (dchar d) - 48 = int d"
proof -
  have "d \<in> {0, 1, 2, 3, 4, 5, 6, 7, 8, 9}" using assms by auto
  then show "dchar d \<noteq> 0" "dchar d \<noteq> 46" "\<not> dchar d < 48" "\<not> dchar d > 57" "uint (dchar d) - 48 = int d" by auto
qed

lemma dec_digits:
  "n < 10 \<Longrightarrow> dec n = [dchar n]"
  "10 \<le> n \<Longrightarrow> n < 100 \<Longrightarrow> dec n = [dchar (n div 10), dchar (n mod 10)]"
  "100 \<le> n \<Longrightarrow> n < 1000 \<Longrightarrow> dec n = [dchar (n div 100), dchar (n div 10 mod 10), dchar (n mod 10)]"
proof -
  show "n < 10 \<Longrightarrow> dec n = [dchar n]" by (simp add: dec.simps)
  show "10 \<le> n \<Longrightarrow> n < 100 \<Longrightarrow> dec n = [dchar (n div 10), dchar (n mod 10)]" by (simp add: dec.simps dec.simps [of "n div 10"])
  assume n: "100 \<le> n" "n < 1000"
  have "n div 10 div 10 = n div 100" by (simp add: div_mult2_eq [symmetric])
  moreover have "\<not> n div 10 < 10" "n div 100 < 10" "\<not> n < 10"
    using n div_le_mono [of 100 n 10] less_mult_imp_div_less [of n 10 100] by simp_all
  ultimately show "dec n = [dchar (n div 100), dchar (n div 10 mod 10), dchar (n mod 10)]"
    by (simp add: dec.simps [of n] dec.simps [of "n div 10"] dec.simps [of "n div 100"])
qed

lemma seg_digit: "d < 10 \<Longrightarrow> nch < 3 \<Longrightarrow> dot2ip_seg (Suc k) nch (dchar d # p) val = dot2ip_seg k (nch + 1) p (10 * val + int d)"
  using dchar_digit [of d] by (simp add: Let_def)

lemma seg_end: "nch > 0 \<Longrightarrow> dot2ip_seg (Suc k) nch p val = Some (case p of [] \<Rightarrow> 0 | c # _ \<Rightarrow> c, val, tl p)" if "p = [] \<or> hd p = 46"
  using that by (cases p) (simp_all add: Let_def)

lemma seg_dec:
  assumes n: "n < 256" and p: "p = [] \<or> hd p = 46"
  shows "dot2ip_seg 4 0 (dec n @ p) 0 = Some (case p of [] \<Rightarrow> 0 | c # _ \<Rightarrow> c, int n, tl p)"
proof -
  have four: "(4 :: nat) = Suc (Suc (Suc (Suc 0)))" by simp
  consider "n < 10" | "10 \<le> n" "n < 100" | "100 \<le> n" "n < 1000" using n by linarith
  then show ?thesis
  proof cases
    case 1
    then show ?thesis unfolding four by (simp only: dec_digits append.simps seg_digit) (simp add: seg_end [OF p] del: dot2ip_seg.simps)
  next
    case 2
    have "n div 10 < 10" "n mod 10 < 10" using 2 by simp_all
    moreover have "int (10 * (n div 10) + n mod 10) = int n" by (simp only: mult_div_mod_eq)
    then have "10 * (10 * 0 + int (n div 10)) + int (n mod 10) = int n"
      by (simp only: of_nat_add of_nat_mult of_nat_numeral mult_zero_right add_0)
    ultimately show ?thesis unfolding four using 2 by (simp add: dec_digits seg_digit seg_end [OF p] del: dot2ip_seg.simps)
  next
    case 3
    have "n div 100 < 10" "n div 10 mod 10 < 10" "n mod 10 < 10" using 3 by simp_all
    moreover have "10 * (10 * (n div 10 div 10) + n div 10 mod 10) + n mod 10 = n" by (simp only: mult_div_mod_eq)
    then have "int (10 * (10 * (n div 100) + n div 10 mod 10) + n mod 10) = int n" by (simp add: div_mult2_eq [symmetric])
    then have "10 * (10 * (10 * 0 + int (n div 100)) + int (n div 10 mod 10)) + int (n mod 10) = int n"
      by (simp only: of_nat_add of_nat_mult of_nat_numeral mult_zero_right add_0)
    ultimately show ?thesis unfolding four using 3 by (simp add: dec_digits seg_digit seg_end [OF p] del: dot2ip_seg.simps)
  qed
qed

fun dotted :: "nat list \<Rightarrow> uchar list" where
  "dotted [] = []"
| "dotted [n] = dec n"
| "dotted (n # m # ns) = dec n @ 46 # dotted (m # ns)"

definition ip_of :: "uint32 \<Rightarrow> nat list \<Rightarrow> uint32" where
  "ip_of = foldl (\<lambda>a n. push_bit 8 a OR of_nat n)"

lemma loop_dotted:
  assumes "ns \<noteq> []" "length ns \<le> k" "\<forall>n\<in>set ns. n < 256"
  shows "dot2ip_loop k (dotted ns) a = Some (ip_of a ns)"
  using assms
proof (induction ns arbitrary: k a rule: dotted.induct)
  case (2 n)
  then obtain j where "k = Suc j" by (cases k) auto
  then show ?case using 2 seg_dec [of n "[]"] by (simp add: ip_of_def Let_def)
next
  case (3 n m ns)
  then obtain j where "k = Suc j" by (cases k) auto
  then show ?case using 3 seg_dec [of n "46 # dotted (m # ns)"] by (simp add: ip_of_def Let_def)
qed simp

text \<open>
  C30. \<^verbatim>\<open>dot2ip\<close> reads an address back from its decimal segments, most significant first. It does
  so for one to four segments, although its comment asks for exactly four.
\<close>

theorem dot2ip_dotted:
  assumes "ns \<noteq> []" "length ns \<le> 4" "\<forall>n\<in>set ns. n < 256"
  shows "dot2ip (dotted ns) result = (OK, ip_of 0 ns)"
  using loop_dotted [OF assms, of 0] by (simp add: dot2ip_def)

theorem dot2ip_dotted_witness:
  "dot2ip (dotted [192, 168, 0, 1]) 0 = (OK, 0xC0A80001) \<and> dot2ip (dotted [10, 7]) 0 = (OK, 0x0A07)"
  using dot2ip_dotted [of "[192, 168, 0, 1]" 0] dot2ip_dotted [of "[10, 7]" 0] by (simp add: ip_of_def)

end
