(* ===== verification/Spec2Isabelle.thy ===== *)
theory Spec2Isabelle
  imports Ports Process_Exit Startup KV_Service Future_Runs File_System Lib_Sort Lib_Number Dates Devices Loopback Shell_Lexer Net_Address
begin

text \<open>
  A verification library for the Xinu operating system of this repository, in the configuration
  that its build makes for the QEMU ARM machine: a uniprocessor kernel (\<^verbatim>\<open>system/\<close>), its C library
  (\<^verbatim>\<open>lib/\<close>), an in-memory file system (\<^verbatim>\<open>system/fs.c\<close>, \<^verbatim>\<open>system/bs.c\<close>) and a shell (\<^verbatim>\<open>shell/\<close>).

  \<^bold>\<open>The program and its model.\<close> The kernel keeps its state in global tables: the process table,
  the table of semaphores, one table in which all queues of processes are linked, and the free
  list of memory. Every system call disables interrupts, works on these tables, and may end in
  \<^verbatim>\<open>resched\<close>, which gives the processor to another process. The model is one record of these tables
  (\<open>kstate\<close> in \<open>Kernel_State\<close>) and one function per system call, from the state to the returned
  value and the new state. A function yields \<^term>\<open>None\<close> where the code does not come back (an
  endless loop, a panic) or leaves what C defines. A call that blocks in the middle of its work
  (\<^verbatim>\<open>receive\<close>, \<^verbatim>\<open>recvtime\<close>, \<^verbatim>\<open>ptsend\<close>, \<^verbatim>\<open>ptrecv\<close>) returns \<open>Blocked\<close>, and what it
  does when its process runs again is a second function, whose name ends in \<open>_cont\<close>; \<^verbatim>\<open>kill\<close>, which may pause in several
  places, returns the place. The context switch is
  the change of \<open>currpid\<close>; signed C integers are \<^typ>\<open>int\<close>, addresses, sizes and messages are \<open>32 word\<close>s,
  so that their wrap-around is the machine's.

  \<^bold>\<open>The theories.\<close>

  \<^item> \<open>Xinu_Prelude\<close>: types, constants and error codes of \<^verbatim>\<open>include/\<close>, lemmas on lists, words and options.
  \<^item> \<open>Memory\<close> (\<^verbatim>\<open>getmem\<close>, \<^verbatim>\<open>freemem\<close>, \<^verbatim>\<open>getstk\<close>, \<^verbatim>\<open>meminit\<close>): the free list as linked blocks inside
    memory, the abstract heap it represents, and that allocation and release are what they are
    on the set of free bytes: what is granted is disjoint, what is released comes back, and the
    round trips restore the list; the contract is the locale \<open>allocator\<close>, interpreted on them.
  \<^item> \<open>Kernel_State\<close>, \<open>Process_Queue\<close>, \<open>Kernel_Invariant\<close>: the tables; the queue operations of
    \<^verbatim>\<open>queue.c\<close>, \<^verbatim>\<open>getitem.c\<close>, \<^verbatim>\<open>insert.c\<close>, \<^verbatim>\<open>insertd.c\<close>, \<^verbatim>\<open>newqueue.c\<close> against lists of processes; the
    invariant \<open>kinv\<close> that ties process states to queues.
  \<^item> \<open>Scheduler\<close> (\<^verbatim>\<open>resched\<close>, \<^verbatim>\<open>ready\<close>, \<^verbatim>\<open>yield\<close>), \<open>Boot\<close> (the kernel's part of \<^verbatim>\<open>sysinit\<close>), \<open>Semaphores\<close>, \<open>Clock\<close>
    (\<^verbatim>\<open>sleep\<close>, \<^verbatim>\<open>unsleep\<close>, \<^verbatim>\<open>wakeup\<close>, \<^verbatim>\<open>clkhandler\<close>), \<open>Messages\<close> (\<^verbatim>\<open>send\<close>, \<^verbatim>\<open>receive\<close>, \<^verbatim>\<open>recvclr\<close>,
    \<^verbatim>\<open>recvtime\<close>), \<open>Process\<close> (\<^verbatim>\<open>create\<close>, \<^verbatim>\<open>kill\<close>, \<^verbatim>\<open>suspend\<close>, \<^verbatim>\<open>resume\<close>, \<^verbatim>\<open>chprio\<close> and others): every
    call keeps \<open>kinv\<close>, and its effect on queues, counts, mailboxes and stacks is stated for each
    branch; \<open>Semaphores\<close> has the locale \<open>counting_semaphore\<close>, interpreted on \<^verbatim>\<open>wait\<close> and \<^verbatim>\<open>signal\<close>.
  \<^item> \<open>Kernel_Frame\<close>: what the kernel calls leave alone, for the components built on them.
  \<^item> \<open>Process_Exit\<close>: a whole call of \<^verbatim>\<open>kill\<close>, over all its pauses, given what the closing functions of the devices promise.
  \<^item> \<open>Startup\<close>: \<^verbatim>\<open>sysinit\<close> as a whole, with \<^verbatim>\<open>bufinit\<close> and the initializers of the devices of \<^verbatim>\<open>config/Configuration.arm-qemu\<close>; it leaves a
    kernel that satisfies \<open>kinv\<close>, with exactly the semaphores of the devices in use.
  \<^item> \<open>Ports\<close>: \<^verbatim>\<open>ptinit\<close> to \<^verbatim>\<open>ptdelete\<close>, and an inductive step relation of processes that create ports, send and
    receive, with any context switches in between, but do not reset or delete; the invariant balances messages and semaphore counts.
  \<^item> \<open>Sem_Tokens\<close>: what \<^verbatim>\<open>wait\<close>, \<^verbatim>\<open>signal\<close> and \<^verbatim>\<open>semcreate\<close> mean for code that counts a resource with a semaphore.
  \<^item> \<open>Buffer_Pool\<close>, \<open>Xmalloc\<close>: the buffer pools with the words of their buffers, a step relation of the processes that
    use them, and the size-class allocator on top, with its binary search.
  \<^item> \<open>KV_Store\<close>: the key-value store of \<^verbatim>\<open>system/kv_store.c\<close> on top of \<open>Xmalloc\<close>, one definition per C function.
  \<^item> \<open>KV_Chains\<close>, \<open>KV_Cache\<close>, \<open>KV_Update\<close>: the shape of its hash tables and of the list of cached keys, and what looking up,
    moving, inserting, evicting and deleting do to it.
  \<^item> \<open>KV_Heap\<close>: what the store relies on of \<^verbatim>\<open>getmem\<close>, \<^verbatim>\<open>xmalloc\<close> and \<^verbatim>\<open>xfree\<close>: bytes handed out are new, and stay with
    their owner until they are given back.
  \<^item> \<open>KV_Refine\<close>, \<open>KV_Set\<close>, \<open>KV_Service\<close>: the store implements a finite map from strings to strings together with a queue
    of at most 128 recently used keys (\<open>kvrel\<close>), for \<^verbatim>\<open>kv_init\<close>, \<^verbatim>\<open>kv_set\<close>, \<^verbatim>\<open>kv_get\<close> and \<^verbatim>\<open>kv_delete\<close>; and when \<^verbatim>\<open>kv_reset\<close> does not return.
  \<^item> \<open>Futures\<close>, \<open>Future_Calls\<close>, \<open>Future_Runs\<close>: \<^verbatim>\<open>system/future.c\<close>; its queues implement first-in first-out queues (interface
    \<open>fifo_family\<close>), what \<^verbatim>\<open>future_set\<close> and \<^verbatim>\<open>future_get\<close> do in the shared and queue modes, and exclusive futures under every interleaving.
  \<^item> \<open>Lib_Sort\<close>: \<^verbatim>\<open>lib/qsort.c\<close> on the bytes of an array, with the comparison function as a parameter; it ends, sorts, and touches nothing else.
  \<^item> \<open>Lib_Number\<close>: \<^verbatim>\<open>lib/strtol.c\<close> with the character table of \<^verbatim>\<open>lib/ctype_.c\<close>; the overflow test against the mathematical value of the digits.
  \<^item> \<open>Dates\<close>: \<^verbatim>\<open>system/ascdate.c\<close> up to its call of \<^verbatim>\<open>sprintf\<close>, against the Gregorian calendar and the days on which daylight saving time changes.
  \<^item> \<open>Devices\<close>: the device-independent calls over a device table that is a parameter, and the search for a device by name.
  \<^item> \<open>Loopback\<close>: the driver in \<^verbatim>\<open>device/loopback\<close>, a ring of characters whose semaphore counts them: a bounded queue, except while readers wait.
  \<^item> \<open>Lib_String\<close>: the string, memory and number routines of \<^verbatim>\<open>lib/\<close> on a memory of bytes, each
    equal to an operation on lists.
  \<^item> \<open>Block_Store\<close>, \<open>File_System\<close>: C structures in byte memory, the block device, the free-block mask
    as a locale of bit sets with its interpretation, and the file operations; files own
    disjoint blocks, a write changes only its own file, and reading returns what was written,
    where the code's block arithmetic allows it.
  \<^item> \<open>Shell_Lexer\<close> (\<^verbatim>\<open>shell/lexan.c\<close>) and \<open>Net_Address\<close> (\<^verbatim>\<open>net/dot2ip.c\<close>): two parsers, their bounds and
    round trips.

  \<^bold>\<open>Loops.\<close> A loop that follows links or looks for a terminator may not end on arbitrary memory; it is a
  partial function into \<^typ>\<open>'a option\<close>, and the lemmas show that it returns whenever the data is
  well formed. A loop with a counter recurses on the turns left, and no fuel is used.

  \<^bold>\<open>Faults.\<close> Some properties state what the code does against its intention: \<^verbatim>\<open>getmem\<close> of more than
  \<open>2 ^ 32 - 8\<close> bytes, \<^verbatim>\<open>sleepms\<close> of more than \<open>2 ^ 31\<close> milliseconds, the stack lost by a refused \<^verbatim>\<open>create\<close>,
  \<^verbatim>\<open>chprio\<close> of a ready process, \<^verbatim>\<open>memchr\<close>, writes of \<^verbatim>\<open>fs_write\<close> that are lost.

  \<^bold>\<open>Not modelled.\<close> Device drivers (\<^verbatim>\<open>device/\<close>) except the loopback device and the initializers that \<^verbatim>\<open>sysinit\<close> calls, and of those the device registers, the network stack except for address parsing (\<^verbatim>\<open>net/\<close>), the
  formatted input and output of \<^verbatim>\<open>lib/\<close>, assembly start-up, interrupt dispatch and memory
  management unit, the shell's command loop and its commands, all of which are input and
  output or hardware; the programs under \<^verbatim>\<open>apps/\<close>, \<^verbatim>\<open>assignments/\<close> and \<^verbatim>\<open>kv_traces/\<close>, which are tests,
  copies of files of \<^verbatim>\<open>system/\<close> and recorded traces; the build tools under \<^verbatim>\<open>compile/\<close> and
  \<^verbatim>\<open>config/\<close>. \<^verbatim>\<open>system/mark.c\<close> and \<^verbatim>\<open>system/debug.c\<close>, which nothing calls, are not modelled.
\<close>

end
